(* ===== verification/Prelude.thy ===== *)
theory Prelude
  imports Main "HOL-Library.Word" "HOL-Library.Monad_Syntax"
begin

text \<open>
  What the theories of the development share: the machine integers and status codes of the C
  sources, the option monad in which an operation that can hit a failed assertion, a panic or a
  null dereference is written (\<open>None\<close> is that outcome), and generic lemmas on lists and words.
\<close>

unbundle bit_operations_syntax

section \<open>Machine types and status codes\<close>

type_synonym u8 = "8 word"
type_synonym u32 = "32 word"
type_synonym u64 = "64 word"

text \<open>\<open>status_t\<close> and its values (top/include/lk/err.h).\<close>

type_synonym status = int

abbreviation (input) NO_ERROR :: status where "NO_ERROR \<equiv> 0"
abbreviation (input) ERR_GENERIC :: status where "ERR_GENERIC \<equiv> - 1"
abbreviation (input) ERR_NOT_FOUND :: status where "ERR_NOT_FOUND \<equiv> - 2"
abbreviation (input) ERR_NOT_READY :: status where "ERR_NOT_READY \<equiv> - 3"
abbreviation (input) ERR_NO_MSG :: status where "ERR_NO_MSG \<equiv> - 4"
abbreviation (input) ERR_NO_MEMORY :: status where "ERR_NO_MEMORY \<equiv> - 5"
abbreviation (input) ERR_INVALID_ARGS :: status where "ERR_INVALID_ARGS \<equiv> - 8"
abbreviation (input) ERR_NOT_ENOUGH_BUFFER :: status where "ERR_NOT_ENOUGH_BUFFER \<equiv> - 9"
abbreviation (input) ERR_NOT_SUSPENDED :: status where "ERR_NOT_SUSPENDED \<equiv> - 10"
abbreviation (input) ERR_OBJECT_DESTROYED :: status where "ERR_OBJECT_DESTROYED \<equiv> - 11"
abbreviation (input) ERR_NOT_BLOCKED :: status where "ERR_NOT_BLOCKED \<equiv> - 12"
abbreviation (input) ERR_TIMED_OUT :: status where "ERR_TIMED_OUT \<equiv> - 13"
abbreviation (input) ERR_ALREADY_EXISTS :: status where "ERR_ALREADY_EXISTS \<equiv> - 14"
abbreviation (input) ERR_NOT_ALLOWED :: status where "ERR_NOT_ALLOWED \<equiv> - 17"
abbreviation (input) ERR_BAD_PATH :: status where "ERR_BAD_PATH \<equiv> - 18"
abbreviation (input) ERR_ALREADY_MOUNTED :: status where "ERR_ALREADY_MOUNTED \<equiv> - 19"
abbreviation (input) ERR_IO :: status where "ERR_IO \<equiv> - 20"
abbreviation (input) ERR_NOT_SUPPORTED :: status where "ERR_NOT_SUPPORTED \<equiv> - 24"
abbreviation (input) ERR_TOO_BIG :: status where "ERR_TOO_BIG \<equiv> - 25"
abbreviation (input) ERR_CANCELLED :: status where "ERR_CANCELLED \<equiv> - 26"
abbreviation (input) ERR_BUSY :: status where "ERR_BUSY \<equiv> - 33"
abbreviation (input) ERR_THREAD_DETACHED :: status where "ERR_THREAD_DETACHED \<equiv> - 34"
abbreviation (input) ERR_OUT_OF_RANGE :: status where "ERR_OUT_OF_RANGE \<equiv> - 37"
abbreviation (input) ERR_BAD_HANDLE :: status where "ERR_BAD_HANDLE \<equiv> - 42"
abbreviation (input) ERR_PARTIAL_WRITE :: status where "ERR_PARTIAL_WRITE \<equiv> - 44"

section \<open>Assertions in the option monad\<close>

text \<open>
  \<open>DEBUG_ASSERT(c)\<close> and a panic guarded by \<open>c\<close>: the rest of the function runs only when \<open>c\<close> holds.
\<close>

definition guard_that :: "bool \<Rightarrow> unit option" where
  "guard_that c = (if c then Some () else None)"

lemma guard_that_simps [simp]:
  "guard_that True = Some ()"
  "guard_that False = None"
  by (simp_all add: guard_that_def)

lemma guard_that_Some [simp]: "guard_that c = Some u \<longleftrightarrow> c"
  by (simp add: guard_that_def)

lemma bind_guard_that: "(guard_that c \<bind> f) = (if c then f () else None)"
  by (simp add: guard_that_def)

lemma bind_Some_iff: "(x \<bind> f) = Some y \<longleftrightarrow> (\<exists>a. x = Some a \<and> f a = Some y)"
  by (cases x) auto

section \<open>Lists\<close>

lemma remove1_middle: "x \<notin> set us \<Longrightarrow> remove1 x (us @ x # vs) = us @ vs"
  by (simp add: remove1_append)

lemma distinct_remove1_set [simp]: "distinct xs \<Longrightarrow> set (remove1 x xs) = set xs - {x}"
  by (rule set_remove1_eq)

lemma in_set_middle: "x \<in> set xs \<Longrightarrow> distinct xs \<Longrightarrow>
  \<exists>us vs. xs = us @ x # vs \<and> x \<notin> set us \<and> x \<notin> set vs"
  by (metis distinct.simps(2) distinct_append split_list_first)

lemma length_remove1_in: "x \<in> set xs \<Longrightarrow> length (remove1 x xs) = length xs - 1"
  by (simp add: length_remove1)

lemma hd_filter_in:
  "filter P xs \<noteq> [] \<Longrightarrow> hd (filter P xs) \<in> set xs \<and> P (hd (filter P xs))"
  using hd_in_set [of "filter P xs"] by auto

end
