(* ===== verification/Pow2.thy ===== *)
theory Pow2
  imports Prelude
begin

text \<open>
  The power-of-two helpers of \<open>top/include/lk/pow2.h\<close> on 32-bit words, with the compiler builtin
  \<open>__builtin_clz\<close> (count of leading zero bits) they use.
\<close>

section \<open>The operations of pow2.h\<close>

definition builtin_clz :: "u32 \<Rightarrow> nat" where
  "builtin_clz w = length (takeWhile Not (map (bit w) (rev [0..<32])))"

definition ispow2 :: "u32 \<Rightarrow> bool" where
  "ispow2 val \<longleftrightarrow> (val - 1) AND val = 0"

definition log2_uint :: "u32 \<Rightarrow> nat" where
  "log2_uint val = (if val = 0 then 0 else 32 - 1 - builtin_clz val)"

definition valpow2 :: "nat \<Rightarrow> u32" where
  "valpow2 valp2 = push_bit valp2 1"

definition divpow2 :: "u32 \<Rightarrow> nat \<Rightarrow> u32" where
  "divpow2 val divp2 = drop_bit divp2 val"

definition modpow2 :: "u32 \<Rightarrow> nat \<Rightarrow> u32" where
  "modpow2 val modp2 = ucast ((ucast val :: u64) AND (push_bit modp2 1 - 1))"

definition round_up_pow2_u32 :: "u32 \<Rightarrow> u32" where
  "round_up_pow2_u32 v =
     (let v = v - 1;
          v = v OR drop_bit 1 v;
          v = v OR drop_bit 2 v;
          v = v OR drop_bit 4 v;
          v = v OR drop_bit 8 v;
          v = v OR drop_bit 16 v
      in v + 1)"

section \<open>Bits and magnitudes\<close>

lemma bit_word32_bound: "bit (w :: u32) i \<Longrightarrow> i < 32"
  by (drule bit_imp_le_length) simp

text \<open>The top set bit of a nonzero word, and the bounds it gives.\<close>

definition top_bit :: "u32 \<Rightarrow> nat \<Rightarrow> bool" where
  "top_bit w m \<longleftrightarrow> bit w m \<and> (\<forall>j > m. \<not> bit w j)"

lemma top_bit_exists: "w \<noteq> 0 \<Longrightarrow> \<exists>m. top_bit (w :: u32) m"
proof -
  assume "w \<noteq> 0"
  then obtain i where i: "bit w i" by (metis bit_0_eq bit_eq_iff bot_apply bot_bool_def)
  have fin: "finite {j. bit w j}"
    by (rule finite_subset [of _ "{..<32}"]) (auto dest: bit_word32_bound)
  let ?m = "Max {j. bit w j}"
  have "bit w ?m" using Max_in [OF fin] i by auto
  moreover have "\<not> bit w j" if "?m < j" for j
    using Max_ge [OF fin] that by (meson leD mem_Collect_eq)
  ultimately show ?thesis unfolding top_bit_def by blast
qed

lemma top_bit_bounds:
  assumes "top_bit w m"
  shows "2 ^ m \<le> unat w" "unat w < 2 ^ Suc m" "m < 32"
proof -
  from assms have bm: "bit w m" and hi: "\<And>j. m < j \<Longrightarrow> \<not> bit w j" by (auto simp: top_bit_def)
  show m: "m < 32" using bm by (rule bit_word32_bound)
  have "take_bit (Suc m) w = w"
    by (rule bit_eqI) (use hi not_less_eq in \<open>auto simp: bit_take_bit_iff\<close>)
  then have "unat w = unat (take_bit (Suc m) w)" by simp
  also have "\<dots> = take_bit (Suc m) (unat w)" by (simp add: unsigned_take_bit_eq)
  also have "\<dots> < 2 ^ Suc m" by (rule take_bit_nat_less_exp)
  finally show "unat w < 2 ^ Suc m" .
  have "bit (unat w) m" using bm by (simp add: bit_unsigned_iff)
  then have "odd (unat w div 2 ^ m)" by (simp add: bit_iff_odd)
  then have "unat w div 2 ^ m \<noteq> 0" by (metis even_zero)
  then show "2 ^ m \<le> unat w" by (metis div_less linorder_not_less)
qed

lemma builtin_clz_top_bit: "top_bit w m \<Longrightarrow> builtin_clz w = 31 - m"
proof -
  assume top: "top_bit w m"
  then have m: "m < 32" by (rule top_bit_bounds)
  have split: "rev [0..<32] = rev [Suc m..<32] @ m # rev [0..<m]"
  proof -
    have "[0..<32] = [0..<m] @ m # [Suc m..<32]"
      using m upt_add_eq_append [of 0 m "32 - m"] upt_conv_Cons [of m 32] by simp
    then show ?thesis by simp
  qed
  have "takeWhile Not (map (bit w) (rev [0..<32])) = map (bit w) (rev [Suc m..<32])"
    unfolding split map_append
    by (subst takeWhile_append2) (use top in \<open>auto simp: top_bit_def\<close>)
  then show ?thesis by (simp add: builtin_clz_def)
qed

lemma log2_uint_top_bit: "top_bit w m \<Longrightarrow> log2_uint w = m"
  using builtin_clz_top_bit [of w m] top_bit_bounds(3) [of w m]
  by (auto simp: log2_uint_def top_bit_def)

lemma log2_uint_bounds: "w \<noteq> 0 \<Longrightarrow> 2 ^ log2_uint w \<le> unat w \<and> unat w < 2 ^ Suc (log2_uint w)"
  using top_bit_exists [of w] top_bit_bounds log2_uint_top_bit by metis


section \<open>Correctness\<close>

lemma unat_exp32: "k < 32 \<Longrightarrow> unat (2 ^ k :: u32) = 2 ^ k"
proof -
  assume "k < 32"
  then have "(2::nat) ^ k < 2 ^ 32" by (intro power_strict_increasing) simp_all
  then show ?thesis using unat_of_nat [of "2 ^ k", where 'a = 32] by simp
qed

lemma valpow2_unat: "k < 32 \<Longrightarrow> unat (valpow2 k) = 2 ^ k"
  by (simp add: valpow2_def push_bit_eq_mult unat_exp32)

lemma divpow2_unat: "unat (divpow2 v k) = unat v div 2 ^ k"
  unfolding divpow2_def unat_drop_bit_eq by (simp add: drop_bit_eq_div)

lemma modpow2_take_bit: "k < 64 \<Longrightarrow> modpow2 v k = take_bit k v"
proof -
  assume "k < 64"
  have "push_bit k 1 - 1 = (mask k :: u64)" by (simp add: mask_eq_exp_minus_1 push_bit_eq_mult)
  then show ?thesis
    by (simp add: modpow2_def flip: take_bit_eq_mask) (rule bit_eqI, auto simp: bit_simps)
qed

lemma modpow2_unat: "k < 64 \<Longrightarrow> unat (modpow2 v k) = unat v mod 2 ^ k"
  unfolding modpow2_take_bit unsigned_take_bit_eq by (simp add: take_bit_eq_mod)

lemma log2_uint_power: "k < 32 \<Longrightarrow> log2_uint (2 ^ k) = k"
proof -
  assume k: "k < 32"
  have "top_bit (2 ^ k) k" using k by (simp add: top_bit_def bit_exp_iff)
  then show ?thesis by (rule log2_uint_top_bit)
qed

lemma bit_from_bounds:
  assumes "2 ^ m \<le> unat (w :: u32)" "unat w < 2 ^ Suc m"
  shows "bit w m"
proof -
  have "unat w div 2 ^ m = 1"
    using assms by (intro div_nat_eqI) simp_all
  then have "bit (unat w) m" by (simp add: bit_iff_odd)
  then show ?thesis by (simp add: bit_unsigned_iff)
qed

lemma ispow2_power:
  assumes "ispow2 v" "v \<noteq> 0"
  shows "unat v = 2 ^ log2_uint v"
proof (rule ccontr)
  obtain m where top: "top_bit v m" using top_bit_exists assms(2) by blast
  note bnd = top_bit_bounds [OF top]
  assume "unat v \<noteq> 2 ^ log2_uint v"
  with bnd have gt: "2 ^ m < unat v" by (simp add: log2_uint_top_bit [OF top])
  have "unat (v - 1) = unat v - 1" using assms(2) by (simp add: unat_minus_one)
  then have "bit (v - 1) m" using gt bnd(2) by (intro bit_from_bounds) auto
  with top have "bit ((v - 1) AND v) m" by (simp add: bit_and_iff top_bit_def)
  with assms(1) show False by (simp add: ispow2_def)
qed

text \<open>The bit-smearing of \<open>round_up_pow2_u32\<close>: after the step with shift \<open>n\<close> a bit is set when one of
  the \<open>2 n\<close> bits from it upwards was.\<close>

definition smeared :: "nat \<Rightarrow> u32 \<Rightarrow> u32 \<Rightarrow> bool" where
  "smeared n x y \<longleftrightarrow> (\<forall>i. bit y i \<longleftrightarrow> (\<exists>d<n. bit x (i + d)))"

lemma smeared_step: "smeared n x y \<Longrightarrow> k = n + n \<Longrightarrow> smeared k x (y OR drop_bit n y)"
proof -
  assume s: "smeared n x y" and k: "k = n + n"
  have "(\<exists>d<n + n. bit x (i + d)) \<longleftrightarrow> (\<exists>d<n. bit x (i + d)) \<or> (\<exists>d<n. bit x (n + i + d))" for i
  proof
    assume "\<exists>d<n + n. bit x (i + d)"
    then obtain d where d: "d < n + n" "bit x (i + d)" by blast
    show "(\<exists>d<n. bit x (i + d)) \<or> (\<exists>d<n. bit x (n + i + d))"
    proof (cases "d < n")
      case False
      with d have "d - n < n" "bit x (n + i + (d - n))" by (auto simp: ac_simps)
      then show ?thesis by blast
    qed (use d in blast)
  next
    assume "(\<exists>d<n. bit x (i + d)) \<or> (\<exists>d<n. bit x (n + i + d))"
    then show "\<exists>d<n + n. bit x (i + d)"
    proof
      assume "\<exists>d<n. bit x (n + i + d)"
      then obtain d where "d < n" "bit x (i + (n + d))" by (auto simp: ac_simps)
      then show "\<exists>d<n + n. bit x (i + d)" by (intro exI [of _ "n + d"]) simp
    qed (auto intro: trans_less_add1)
  qed
  with s k show ?thesis by (simp add: smeared_def bit_or_iff bit_drop_bit_eq)
qed

lemma smeared_mask:
  assumes "smeared 32 x y" "top_bit x m"
  shows "y = mask (Suc m)"
proof (rule bit_eqI)
  fix i assume "possible_bit TYPE(u32) i"
  have "(\<exists>d<32. bit x (i + d)) \<longleftrightarrow> i \<le> m"
  proof
    assume "\<exists>d<32. bit x (i + d)"
    with assms(2) show "i \<le> m" unfolding top_bit_def by (meson le_add1 le_trans not_less)
  next
    assume "i \<le> m"
    with assms(2) top_bit_bounds(3) [OF assms(2)] show "\<exists>d<32. bit x (i + d)"
      by (intro exI [of _ "m - i"]) (auto simp: top_bit_def)
  qed
  with assms(1) \<open>possible_bit TYPE(u32) i\<close> show "bit y i = bit (mask (Suc m) :: u32) i"
    by (simp add: smeared_def bit_mask_iff less_Suc_eq_le)
qed

lemma round_up_pow2_u32_top:
  assumes "top_bit (v - 1) m"
  shows "round_up_pow2_u32 v = 2 ^ Suc m"
proof -
  have s2: "smeared 2 (v - 1) (v - 1 OR drop_bit 1 (v - 1))" (is "smeared _ _ ?v2")
    by (rule smeared_step [of 1]) (simp_all add: smeared_def)
  have s4: "smeared 4 (v - 1) (?v2 OR drop_bit 2 ?v2)" (is "smeared _ _ ?v4")
    by (rule smeared_step [OF s2]) simp
  have s8: "smeared 8 (v - 1) (?v4 OR drop_bit 4 ?v4)" (is "smeared _ _ ?v8")
    by (rule smeared_step [OF s4]) simp
  have s16: "smeared 16 (v - 1) (?v8 OR drop_bit 8 ?v8)" (is "smeared _ _ ?v16")
    by (rule smeared_step [OF s8]) simp
  have "smeared 32 (v - 1) (?v16 OR drop_bit 16 ?v16)"
    by (rule smeared_step [OF s16]) simp
  from smeared_mask [OF this assms]
  have "round_up_pow2_u32 v = mask (Suc m) + 1"
    by (simp only: round_up_pow2_u32_def Let_def)
  then show ?thesis by (simp add: mask_eq_exp_minus_1)
qed


lemma round_up_pow2_u32_bounds:
  assumes "1 < v" "v \<le> 2 ^ 31"
  shows "\<exists>k. unat (round_up_pow2_u32 v) = 2 ^ Suc k \<and> 2 ^ k < unat v \<and> unat v \<le> 2 ^ Suc k"
proof -
  have v: "1 < unat v" "unat v \<le> 2 ^ 31"
    using assms unat_exp32 [of 31] by (simp_all add: word_less_nat_alt word_le_nat_alt)
  then have "v \<noteq> 0" by auto
  then have u: "unat (v - 1) = unat v - 1" by (rule unat_minus_one)
  with v have "v - 1 \<noteq> 0" by auto
  then obtain k where top: "top_bit (v - 1) k" using top_bit_exists by blast
  have b: "2 ^ k < unat v" "unat v \<le> 2 ^ Suc k"
    using top_bit_bounds [OF top] u v by auto
  from b(1) v have "(2::nat) ^ k < 2 ^ 31" by linarith
  then have "k < 31" by (simp only: power_strict_increasing_iff)
  with b round_up_pow2_u32_top [OF top] unat_exp32 [of "Suc k"] show ?thesis by auto
qed

text \<open>
  For every value from 1 to 2^31, \<open>round_up_pow2_u32\<close> returns the smallest power of two that
  is at least the value.
\<close>

lemma round_up_pow2_u32_least:
  assumes "0 < v" "v \<le> 2 ^ 31"
  shows "\<exists>k. unat (round_up_pow2_u32 v) = 2 ^ k \<and> unat v \<le> 2 ^ k
           \<and> (\<forall>j. unat v \<le> 2 ^ j \<longrightarrow> k \<le> j)"
proof (cases "v = 1")
  case True
  have "round_up_pow2_u32 1 = 1" by (simp add: round_up_pow2_u32_def)
  with True show ?thesis by (intro exI [of _ 0]) simp
next
  case False
  with assms(1) have "1 < v" by unat_arith
  then obtain k where k: "unat (round_up_pow2_u32 v) = 2 ^ Suc k" "2 ^ k < unat v" "unat v \<le> 2 ^ Suc k"
    using round_up_pow2_u32_bounds assms(2) by blast
  have "Suc k \<le> j" if "unat v \<le> 2 ^ j" for j
    using k(2) that power_less_imp_less_exp [of "2 :: nat" k j] by linarith
  with k show ?thesis by blast
qed

lemma round_up_pow2_u32_100:
  "\<exists>k. unat (round_up_pow2_u32 100) = 2 ^ k \<and> (100 :: nat) \<le> 2 ^ k"
  using round_up_pow2_u32_least [of 100] by auto

end
