(* ===== verification/Kernel_Types.thy ===== *)
theory Kernel_Types
  imports Prelude
begin

text \<open>
  The objects the kernel components share: addresses of threads, wait queues and timers as
  datatypes (an object embedded in another is named by its owner, NULL is \<open>None\<close>), the thread
  states and flags of \<open>include/kernel/thread.h\<close>, and the timer objects of
  \<open>include/kernel/timer.h\<close>. The configuration modelled is the one of the qemu-virt targets in a
  debug build: \<open>WITH_SMP\<close>, \<open>PLATFORM_HAS_DYNAMIC_TIMER\<close>, \<open>WITH_KERNEL_VM\<close>, \<open>LK_DEBUGLEVEL\<close> 2.
\<close>

section \<open>Addresses\<close>

text \<open>A \<open>thread_t *\<close>: an element of the static array \<open>_idle_threads\<close>, or any other thread struct.\<close>

datatype tid = Idle_thread nat | Dyn_thread nat

text \<open>A \<open>wait_queue_t *\<close>, named by the object whose \<open>wait\<close> field it is.\<close>

datatype wqid =
    WQ_retcode tid | WQ_mutex nat | WQ_sem nat | WQ_event nat | WQ_read_port nat | WQ_port_group nat

text \<open>
  A \<open>timer_t *\<close>: the stack timers of \<open>wait_queue_block\<close> and \<open>thread_sleep\<close> (a thread is in at most
  one of them), the per-cpu preemption timer, and any other timer.
\<close>

datatype timer_id = TM_wait tid | TM_sleep tid | TM_preempt nat | TM_other nat

text \<open>The timer callbacks of thread.c, and any other callback.\<close>

datatype timer_cb = CB_wait_queue_timeout | CB_thread_sleep | CB_thread_timer_tick | CB_other nat

datatype karg = Arg_null | Arg_thread tid | Arg_other nat

datatype handler_return = INT_NO_RESCHEDULE | INT_RESCHEDULE

section \<open>Time\<close>

text \<open>
  \<open>lk_time_t\<close> is a 32-bit millisecond counter that wraps; the \<open>TIME_\<close> macros of sys/types.h
  compare two values by the sign of their 32-bit difference.
\<close>

abbreviation (input) INFINITE_TIME :: u32 where "INFINITE_TIME \<equiv> 0xFFFFFFFF"

definition TIME_GT :: "u32 \<Rightarrow> u32 \<Rightarrow> bool" where
  "TIME_GT a b \<longleftrightarrow> sint (a - b) > 0"

definition TIME_LT :: "u32 \<Rightarrow> u32 \<Rightarrow> bool" where
  "TIME_LT a b \<longleftrightarrow> sint (a - b) < 0"

section \<open>Timer objects\<close>

abbreviation (input) TIMER_MAGIC :: nat where "TIMER_MAGIC \<equiv> 0x74696D72"

text \<open>\<open>tm_linked\<close> is \<open>list_in_list(&timer->node)\<close>.\<close>

record timer =
  tm_magic :: nat
  tm_linked :: bool
  scheduled_time :: u32
  periodic_time :: u32
  tm_callback :: "timer_cb option"
  tm_arg :: karg

text \<open>The per-cpu statistics of thread.h.\<close>

record thread_stats =
  idle_time :: u64
  last_idle_timestamp :: u64
  reschedules :: nat
  context_switches :: nat
  preempts :: nat
  yields :: nat
  timer_ints :: nat
  timer_count :: nat
  reschedule_ipis :: nat

text \<open>
  The state of timer.c: the timer objects, the per-cpu queues in order, the time read by
  \<open>current_time\<close>, the one-shot timer programmed on each cpu (\<open>None\<close> when stopped) and the
  statistics.
\<close>

record timer_state =
  timers :: "timer_id \<Rightarrow> timer"
  timer_queue :: "nat \<Rightarrow> timer_id list"
  cur_time :: u32
  hw_timer :: "nat \<Rightarrow> u32 option"
  stats :: "nat \<Rightarrow> thread_stats"

end
