(* ===== verification/Timer.thy ===== *)
theory Timer
  imports Kernel_Types
begin

text \<open>
  \<open>kernel/timer.c\<close>: the per-cpu queues of pending timers, ordered by wrapping 32-bit deadlines.
  An operation returns \<open>None\<close> when it runs into a failed assertion or the panic of \<open>timer_set\<close>.
  The lemmas show that the queues stay ordered, that the tick fires exactly the due timers in
  deadline order and stops, and that the hardware timer is programmed for the next deadline.
\<close>

section \<open>The operations of timer.c\<close>

definition upd_timer :: "timer_id \<Rightarrow> (timer \<Rightarrow> timer) \<Rightarrow> 'a timer_state_scheme \<Rightarrow> 'a timer_state_scheme" where
  "upd_timer tm f s = s\<lparr>timers := (timers s)(tm := f (timers s tm))\<rparr>"

definition upd_stats :: "nat \<Rightarrow> (thread_stats \<Rightarrow> thread_stats) \<Rightarrow> 'a timer_state_scheme \<Rightarrow> 'a timer_state_scheme" where
  "upd_stats cpu f s = s\<lparr>stats := (stats s)(cpu := f (stats s cpu))\<rparr>"

definition timer_initialize :: "timer_id \<Rightarrow> 'a timer_state_scheme \<Rightarrow> 'a timer_state_scheme" where
  "timer_initialize tm s = upd_timer tm (\<lambda>_.
     \<lparr>tm_magic = TIMER_MAGIC, tm_linked = False, scheduled_time = 0, periodic_time = 0,
      tm_callback = None, tm_arg = Arg_null\<rparr>) s"

text \<open>
  The walk of \<open>insert_timer_in_queue\<close>: before the first later entry, or at the tail. Its callers hold
  \<open>timer_lock\<close> with interrupts disabled, as it asserts.
\<close>

fun insert_before_later :: "(timer_id \<Rightarrow> u32) \<Rightarrow> timer_id \<Rightarrow> timer_id list \<Rightarrow> timer_id list" where
  "insert_before_later sched tm [] = [tm]"
| "insert_before_later sched tm (entry # rest) =
     (if TIME_GT (sched entry) (sched tm) then tm # entry # rest
      else entry # insert_before_later sched tm rest)"

definition insert_timer_in_queue :: "nat \<Rightarrow> timer_id \<Rightarrow> 'a timer_state_scheme \<Rightarrow> 'a timer_state_scheme" where
  "insert_timer_in_queue cpu tm s =
     (let q = insert_before_later (\<lambda>e. scheduled_time (timers s e)) tm (timer_queue s cpu)
      in upd_timer tm (\<lambda>t. t\<lparr>tm_linked := True\<rparr>) (s\<lparr>timer_queue := (timer_queue s)(cpu := q)\<rparr>))"

definition peek_timer :: "nat \<Rightarrow> 'a timer_state_scheme \<Rightarrow> timer_id option" where
  "peek_timer cpu s = (case timer_queue s cpu of [] \<Rightarrow> None | tm # _ \<Rightarrow> Some tm)"

text \<open>\<open>list_delete(&timer->node)\<close>, whichever cpu's queue the timer is in.\<close>

definition unlink_timer :: "timer_id \<Rightarrow> 'a timer_state_scheme \<Rightarrow> 'a timer_state_scheme" where
  "unlink_timer tm s =
     upd_timer tm (\<lambda>t. t\<lparr>tm_linked := False\<rparr>)
       (s\<lparr>timer_queue := (\<lambda>c. remove1 tm (timer_queue s c))\<rparr>)"

definition set_oneshot_timer :: "nat \<Rightarrow> u32 \<Rightarrow> 'a timer_state_scheme \<Rightarrow> 'a timer_state_scheme" where
  "set_oneshot_timer cpu delay s = s\<lparr>hw_timer := (hw_timer s)(cpu := Some delay)\<rparr>"

definition stop_timer :: "nat \<Rightarrow> 'a timer_state_scheme \<Rightarrow> 'a timer_state_scheme" where
  "stop_timer cpu s = s\<lparr>hw_timer := (hw_timer s)(cpu := None)\<rparr>"

definition timer_set ::
  "nat \<Rightarrow> timer_id \<Rightarrow> u32 \<Rightarrow> u32 \<Rightarrow> timer_cb \<Rightarrow> karg \<Rightarrow> 'a timer_state_scheme \<Rightarrow> 'a timer_state_scheme option" where
  "timer_set cpu tm delay period cb arg s = do {
     guard_that (tm_magic (timers s tm) = TIMER_MAGIC);
     guard_that (\<not> tm_linked (timers s tm));
     let s1 = upd_timer tm (\<lambda>t. t\<lparr>scheduled_time := cur_time s + delay, periodic_time := period,
                                    tm_callback := Some cb, tm_arg := arg\<rparr>) s;
     let s2 = insert_timer_in_queue cpu tm s1;
     Some (if peek_timer cpu s2 = Some tm then set_oneshot_timer cpu delay s2 else s2) }"

definition timer_set_oneshot ::
  "nat \<Rightarrow> timer_id \<Rightarrow> u32 \<Rightarrow> timer_cb \<Rightarrow> karg \<Rightarrow> 'a timer_state_scheme \<Rightarrow> 'a timer_state_scheme option" where
  "timer_set_oneshot cpu tm delay cb arg s =
     timer_set cpu tm (if delay = 0 then 1 else delay) 0 cb arg s"

definition timer_set_periodic ::
  "nat \<Rightarrow> timer_id \<Rightarrow> u32 \<Rightarrow> timer_cb \<Rightarrow> karg \<Rightarrow> 'a timer_state_scheme \<Rightarrow> 'a timer_state_scheme option" where
  "timer_set_periodic cpu tm period cb arg s =
     (let period = (if period = 0 then 1 else period) in timer_set cpu tm period period cb arg s)"

definition timer_cancel :: "nat \<Rightarrow> timer_id \<Rightarrow> 'a timer_state_scheme \<Rightarrow> 'a timer_state_scheme option" where
  "timer_cancel cpu tm s = do {
     guard_that (tm_magic (timers s tm) = TIMER_MAGIC);
     let oldhead = peek_timer cpu s;
     let s1 = (if tm_linked (timers s tm) then unlink_timer tm s else s);
     let s2 = upd_timer tm (\<lambda>t. t\<lparr>periodic_time := 0, tm_callback := None, tm_arg := Arg_null\<rparr>) s1;
     case peek_timer cpu s2 of
       None \<Rightarrow> Some (stop_timer cpu s2)
     | Some newhead \<Rightarrow>
         Some (if Some newhead \<noteq> oldhead then
                 set_oneshot_timer cpu
                   (if TIME_LT (scheduled_time (timers s2 newhead)) (cur_time s2) then 0
                    else scheduled_time (timers s2 newhead) - cur_time s2) s2
               else s2) }"

text \<open>
  One round of the loop of \<open>timer_tick\<close> on a due timer, in the three parts that \<open>timer_lock\<close> makes of it. The
  first takes the timer off its queue and releases the lock. The second runs without the lock: it reads
  \<open>periodic_time\<close>, \<open>callback\<close> and \<open>arg\<close> of the timer and calls the function; a callback that is NULL faults. The
  third, with the lock again, puts a periodic timer back. The callbacks are other components' code, an
  argument here: \<open>run cb tm now arg\<close>.
\<close>

definition tick_unlink :: "timer_id \<Rightarrow> 'a timer_state_scheme \<Rightarrow> 'a timer_state_scheme option" where
  "tick_unlink tm s = do {
     guard_that (tm_magic (timers s tm) = TIMER_MAGIC);
     Some (unlink_timer tm s) }"

definition tick_call ::
  "(timer_cb \<Rightarrow> timer_id \<Rightarrow> u32 \<Rightarrow> karg \<Rightarrow> 'a timer_state_scheme \<Rightarrow> (handler_return \<times> 'a timer_state_scheme) option) \<Rightarrow>
   nat \<Rightarrow> u32 \<Rightarrow> timer_id \<Rightarrow> 'a timer_state_scheme \<Rightarrow> (bool \<times> handler_return \<times> 'a timer_state_scheme) option" where
  "tick_call run cpu now tm s = do {
     let s1 = upd_stats cpu (\<lambda>st. st\<lparr>timer_count := timer_count st + 1\<rparr>) s;
     let periodic = (periodic_time (timers s1 tm) > 0);
     cb \<leftarrow> tm_callback (timers s1 tm);
     (r, s2) \<leftarrow> run cb tm now (tm_arg (timers s1 tm)) s1;
     Some (periodic, r, s2) }"

definition tick_requeue :: "nat \<Rightarrow> u32 \<Rightarrow> timer_id \<Rightarrow> bool \<Rightarrow> 'a timer_state_scheme \<Rightarrow> 'a timer_state_scheme" where
  "tick_requeue cpu now tm periodic s =
     (let t = timers s tm in
      if periodic \<and> \<not> tm_linked t \<and> periodic_time t > 0 then
        (let next = scheduled_time t + periodic_time t;
             next = (if TIME_LT next now then now + periodic_time t else next)
         in insert_timer_in_queue cpu tm (upd_timer tm (\<lambda>t. t\<lparr>scheduled_time := next\<rparr>) s))
      else s)"

text \<open>The three parts with nothing in between.\<close>

definition fire_timer ::
  "(timer_cb \<Rightarrow> timer_id \<Rightarrow> u32 \<Rightarrow> karg \<Rightarrow> 'a timer_state_scheme \<Rightarrow> (handler_return \<times> 'a timer_state_scheme) option) \<Rightarrow>
   nat \<Rightarrow> u32 \<Rightarrow> timer_id \<Rightarrow> 'a timer_state_scheme \<Rightarrow> (handler_return \<times> 'a timer_state_scheme) option" where
  "fire_timer run cpu now tm s = do {
     s1 \<leftarrow> tick_unlink tm s;
     (periodic, r, s2) \<leftarrow> tick_call run cpu now tm s1;
     Some (r, tick_requeue cpu now tm periodic s2) }"

text \<open>The loop: it ends when the queue is empty or its head is not due. \<open>ret\<close> accumulates.\<close>

partial_function (option) timer_tick_loop ::
  "(timer_cb \<Rightarrow> timer_id \<Rightarrow> u32 \<Rightarrow> karg \<Rightarrow> 'a timer_state_scheme \<Rightarrow> (handler_return \<times> 'a timer_state_scheme) option) \<Rightarrow>
   nat \<Rightarrow> u32 \<Rightarrow> handler_return \<Rightarrow> 'a timer_state_scheme \<Rightarrow> (handler_return \<times> 'a timer_state_scheme) option" where
  "timer_tick_loop run cpu now ret s =
     (case peek_timer cpu s of
        None \<Rightarrow> Some (ret, s)
      | Some tm \<Rightarrow>
          if TIME_LT now (scheduled_time (timers s tm)) then Some (ret, s)
          else Option.bind (fire_timer run cpu now tm s) (\<lambda>(r, s1).
                 timer_tick_loop run cpu now (if r = INT_RESCHEDULE then INT_RESCHEDULE else ret) s1))"

text \<open>\<open>ints_off\<close> is the value of \<open>arch_ints_disabled()\<close>.\<close>

definition timer_tick ::
  "(timer_cb \<Rightarrow> timer_id \<Rightarrow> u32 \<Rightarrow> karg \<Rightarrow> 'a timer_state_scheme \<Rightarrow> (handler_return \<times> 'a timer_state_scheme) option) \<Rightarrow>
   bool \<Rightarrow> nat \<Rightarrow> u32 \<Rightarrow> 'a timer_state_scheme \<Rightarrow> (handler_return \<times> 'a timer_state_scheme) option" where
  "timer_tick run ints_off cpu now s = do {
     guard_that ints_off;
     let s1 = upd_stats cpu (\<lambda>st. st\<lparr>timer_ints := timer_ints st + 1\<rparr>) s;
     (ret, s2) \<leftarrow> timer_tick_loop run cpu now INT_NO_RESCHEDULE s1;
     case peek_timer cpu s2 of
       None \<Rightarrow> Some (ret, s2)
     | Some tm \<Rightarrow> do {
         guard_that (TIME_GT (scheduled_time (timers s2 tm)) now);
         Some (ret, set_oneshot_timer cpu (scheduled_time (timers s2 tm) - now) s2) } }"

definition timer_init :: "'a timer_state_scheme \<Rightarrow> 'a timer_state_scheme" where
  "timer_init s = s\<lparr>timer_queue := (\<lambda>_. [])\<rparr>"


section \<open>Deadlines inside a half-range window\<close>

text \<open>
  The wrapping comparison is an order only on times less than \<open>2^31\<close> after some base time.
  \<open>ahead b x\<close> is the distance from \<open>b\<close> up to \<open>x\<close>.
\<close>

definition ahead :: "u32 \<Rightarrow> u32 \<Rightarrow> nat" where
  "ahead b x = unat (x - b)"

definition in_window :: "u32 \<Rightarrow> u32 \<Rightarrow> bool" where
  "in_window b x \<longleftrightarrow> ahead b x < 2 ^ 31"

lemma sint_diff_half:
  assumes "unat (u :: u32) < 2 ^ 31" "unat v < 2 ^ 31"
  shows "sint (u - v) = int (unat u) - int (unat v)"
proof -
  have "sint (word_of_int (int (unat u) - int (unat v)) :: u32) = int (unat u) - int (unat v)"
    unfolding sint_sbintrunc'
    by (rule signed_take_bit_int_eq_self) (use assms in \<open>simp_all del: of_nat_unat\<close>)
  then show ?thesis by (simp only: word_sub_wi of_nat_unat)
qed

lemma sint_diff_window:
  assumes "in_window b x" "in_window b y"
  shows "sint (x - y) = int (ahead b x) - int (ahead b y)"
  using sint_diff_half [of "x - b" "y - b"] assms by (simp add: in_window_def ahead_def)

lemma TIME_GT_window: "in_window b x \<Longrightarrow> in_window b y \<Longrightarrow> TIME_GT x y \<longleftrightarrow> ahead b y < ahead b x"
  by (simp add: TIME_GT_def sint_diff_window)

lemma TIME_LT_window: "in_window b x \<Longrightarrow> in_window b y \<Longrightarrow> TIME_LT x y \<longleftrightarrow> ahead b x < ahead b y"
  by (simp add: TIME_LT_def sint_diff_window)

lemma ahead_add: "ahead b x + unat d < 2 ^ 32 \<Longrightarrow> ahead b (x + d) = ahead b x + unat d"
proof -
  assume "ahead b x + unat d < 2 ^ 32"
  then have "unat ((x - b) + d) = unat (x - b) + unat d"
    by (intro unat_add_lem [THEN iffD1]) (simp add: ahead_def)
  moreover have "x + d - b = (x - b) + d" by simp
  ultimately show ?thesis unfolding ahead_def by (simp only:)
qed

section \<open>Ordered queues\<close>

definition queue_sorted :: "u32 \<Rightarrow> (timer_id \<Rightarrow> u32) \<Rightarrow> timer_id list \<Rightarrow> bool" where
  "queue_sorted b sched q \<longleftrightarrow>
     (\<forall>tm \<in> set q. in_window b (sched tm)) \<and> sorted (map (\<lambda>tm. ahead b (sched tm)) q)"

lemma set_insert_before_later [simp]: "set (insert_before_later sched tm q) = insert tm (set q)"
  by (induction q) auto

lemma distinct_insert_before_later [simp]:
  "distinct (insert_before_later sched tm q) \<longleftrightarrow> tm \<notin> set q \<and> distinct q"
  by (induction q) auto

lemma length_insert_before_later [simp]: "length (insert_before_later sched tm q) = Suc (length q)"
  by (induction q) auto

lemma remove1_insert_before_later:
  "tm \<notin> set q \<Longrightarrow> remove1 tm (insert_before_later sched tm q) = q"
  by (induction q) auto

lemma queue_sorted_insert:
  assumes "queue_sorted b sched q" "in_window b (sched tm)"
  shows "queue_sorted b sched (insert_before_later sched tm q)"
  using assms
proof (induction q)
  case Nil
  then show ?case by (simp add: queue_sorted_def)
next
  case (Cons e q)
  have w: "in_window b (sched e)" and IH: "queue_sorted b sched (insert_before_later sched tm q)"
    using Cons by (simp_all add: queue_sorted_def)
  show ?case
  proof (cases "TIME_GT (sched e) (sched tm)")
    case True
    then have "ahead b (sched tm) < ahead b (sched e)" using w Cons.prems(2) by (simp add: TIME_GT_window)
    with True Cons.prems show ?thesis by (auto simp: queue_sorted_def)
  next
    case False
    then have "ahead b (sched e) \<le> ahead b (sched tm)" using w Cons.prems(2) by (simp add: TIME_GT_window)
    with False Cons.prems IH show ?thesis by (auto simp: queue_sorted_def)
  qed
qed

lemma queue_sorted_remove1: "queue_sorted b sched q \<Longrightarrow> queue_sorted b sched (remove1 tm q)"
proof -
  assume "queue_sorted b sched q"
  then have w: "\<forall>tm \<in> set q. in_window b (sched tm)" and srt: "sorted_wrt (\<le>) (map (\<lambda>tm. ahead b (sched tm)) q)"
    by (simp_all add: queue_sorted_def)
  from srt have "sorted_wrt (\<le>) (map (\<lambda>tm. ahead b (sched tm)) (remove1 tm q))"
    by (induction q) (auto simp: sorted_wrt_map dest: notin_set_remove1)
  with w show ?thesis by (auto simp: queue_sorted_def dest: notin_set_remove1)
qed

lemma queue_sorted_cong: "(\<And>tm. tm \<in> set q \<Longrightarrow> sched tm = sched' tm) \<Longrightarrow> queue_sorted b sched q = queue_sorted b sched' q"
  unfolding queue_sorted_def by (simp cong: map_cong)

section \<open>Well-formed timer states\<close>

abbreviation (input) sched_of :: "'a timer_state_scheme \<Rightarrow> timer_id \<Rightarrow> u32" where
  "sched_of s \<equiv> (\<lambda>e. scheduled_time (timers s e))"

text \<open>
  Every queue is ordered and without duplicates, a timer is linked exactly when it is in the queue
  of one cpu, and a queued timer is initialised and has a callback.
\<close>

definition timer_wf :: "u32 \<Rightarrow> 'a timer_state_scheme \<Rightarrow> bool" where
  "timer_wf b s \<longleftrightarrow>
     (\<forall>c. queue_sorted b (sched_of s) (timer_queue s c) \<and> distinct (timer_queue s c)) \<and>
     (\<forall>c d tm. tm \<in> set (timer_queue s c) \<longrightarrow> tm \<in> set (timer_queue s d) \<longrightarrow> c = d) \<and>
     (\<forall>tm. tm_linked (timers s tm) \<longleftrightarrow> (\<exists>c. tm \<in> set (timer_queue s c))) \<and>
     (\<forall>c tm. tm \<in> set (timer_queue s c) \<longrightarrow>
        tm_magic (timers s tm) = TIMER_MAGIC \<and> tm_callback (timers s tm) \<noteq> None)"

lemma timer_wfD:
  assumes "timer_wf b s"
  shows "queue_sorted b (sched_of s) (timer_queue s c)" "distinct (timer_queue s c)"
    "tm \<in> set (timer_queue s c) \<Longrightarrow> tm \<in> set (timer_queue s d) \<Longrightarrow> c = d"
    "tm_linked (timers s tm) \<longleftrightarrow> (\<exists>c. tm \<in> set (timer_queue s c))"
    "tm \<in> set (timer_queue s c) \<Longrightarrow> tm_magic (timers s tm) = TIMER_MAGIC"
    "tm \<in> set (timer_queue s c) \<Longrightarrow> tm_callback (timers s tm) \<noteq> None"
  using assms unfolding timer_wf_def by blast+

lemma timer_wfI:
  assumes "\<And>c. queue_sorted b (sched_of s) (timer_queue s c)" "\<And>c. distinct (timer_queue s c)"
    "\<And>c d tm. tm \<in> set (timer_queue s c) \<Longrightarrow> tm \<in> set (timer_queue s d) \<Longrightarrow> c = d"
    "\<And>tm. tm_linked (timers s tm) \<longleftrightarrow> (\<exists>c. tm \<in> set (timer_queue s c))"
    "\<And>tm c. tm \<in> set (timer_queue s c) \<Longrightarrow> tm_magic (timers s tm) = TIMER_MAGIC"
    "\<And>tm c. tm \<in> set (timer_queue s c) \<Longrightarrow> tm_callback (timers s tm) \<noteq> None"
  shows "timer_wf b s"
  unfolding timer_wf_def using assms by simp

text \<open>\<open>timer_wf\<close> depends on the timers and the queues only.\<close>

lemma timer_wf_cong: "timers s = timers s' \<Longrightarrow> timer_queue s = timer_queue s' \<Longrightarrow> timer_wf b s = timer_wf b s'"
  by (simp add: timer_wf_def)

lemma upd_timer_simps [simp]:
  "timers (upd_timer tm f s) = (timers s)(tm := f (timers s tm))"
  "timer_queue (upd_timer tm f s) = timer_queue s"
  "cur_time (upd_timer tm f s) = cur_time s"
  "hw_timer (upd_timer tm f s) = hw_timer s"
  "timer_state.more (upd_timer tm f s) = timer_state.more s"
  by (simp_all add: upd_timer_def)

lemma upd_stats_simps [simp]:
  "timers (upd_stats c f s) = timers s" "timer_queue (upd_stats c f s) = timer_queue s"
  "cur_time (upd_stats c f s) = cur_time s" "hw_timer (upd_stats c f s) = hw_timer s"
  "timer_state.more (upd_stats c f s) = timer_state.more s"
  by (simp_all add: upd_stats_def)

lemma hw_simps [simp]:
  "timers (set_oneshot_timer c d s) = timers s" "timer_queue (set_oneshot_timer c d s) = timer_queue s"
  "cur_time (set_oneshot_timer c d s) = cur_time s"
  "timers (stop_timer c s) = timers s" "timer_queue (stop_timer c s) = timer_queue s"
  "cur_time (stop_timer c s) = cur_time s"
  "hw_timer (set_oneshot_timer c d s) = (hw_timer s)(c := Some d)"
  "hw_timer (stop_timer c s) = (hw_timer s)(c := None)"
  "timer_state.more (set_oneshot_timer c d s) = timer_state.more s"
  "timer_state.more (stop_timer c s) = timer_state.more s"
  by (simp_all add: set_oneshot_timer_def stop_timer_def)

lemma unlink_timer_simps [simp]:
  "timers (unlink_timer tm s) = (timers s)(tm := (timers s tm)\<lparr>tm_linked := False\<rparr>)"
  "timer_queue (unlink_timer tm s) = (\<lambda>c. remove1 tm (timer_queue s c))"
  "cur_time (unlink_timer tm s) = cur_time s"
  "timer_state.more (unlink_timer tm s) = timer_state.more s"
  by (simp_all add: unlink_timer_def)

lemma insert_timer_simps [simp]:
  "timers (insert_timer_in_queue c tm s) = (timers s)(tm := (timers s tm)\<lparr>tm_linked := True\<rparr>)"
  "timer_queue (insert_timer_in_queue c tm s) =
     (timer_queue s)(c := insert_before_later (sched_of s) tm (timer_queue s c))"
  "cur_time (insert_timer_in_queue c tm s) = cur_time s"
  "timer_state.more (insert_timer_in_queue c tm s) = timer_state.more s"
  by (simp_all add: insert_timer_in_queue_def Let_def)

lemma unlink_timer_wf:
  assumes wf: "timer_wf b s"
  shows "timer_wf b (unlink_timer tm s)"
proof (rule timer_wfI)
  note D = timer_wfD [OF wf]
  show "queue_sorted b (sched_of (unlink_timer tm s)) (timer_queue (unlink_timer tm s) c)" for c
    using queue_sorted_remove1 [OF D(1) [of c], of tm]
    by (subst queue_sorted_cong [where sched' = "sched_of s"]) auto
  show "distinct (timer_queue (unlink_timer tm s) c)" for c
    using D(2) by (simp add: distinct_remove1)
  show "c = d" if "x \<in> set (timer_queue (unlink_timer tm s) c)" "x \<in> set (timer_queue (unlink_timer tm s) d)" for c d x
    using that D(2) D(3) [of x c d] by simp
  show "tm_linked (timers (unlink_timer tm s) x) \<longleftrightarrow> (\<exists>c. x \<in> set (timer_queue (unlink_timer tm s) c))" for x
    using D(2) D(4) [of x] by simp
  show "tm_magic (timers (unlink_timer tm s) x) = TIMER_MAGIC" if "x \<in> set (timer_queue (unlink_timer tm s) c)" for x c
    using that D(2) D(5) [of x c] by simp
  show "tm_callback (timers (unlink_timer tm s) x) \<noteq> None" if "x \<in> set (timer_queue (unlink_timer tm s) c)" for x c
    using that D(2) D(6) [of x c] by simp
qed

lemma insert_timer_wf:
  assumes wf: "timer_wf b s" and nl: "\<not> tm_linked (timers s tm)"
    and t: "tm_magic (timers s tm) = TIMER_MAGIC" "tm_callback (timers s tm) \<noteq> None"
    and w: "in_window b (scheduled_time (timers s tm))"
  shows "timer_wf b (insert_timer_in_queue c0 tm s)" (is "timer_wf b ?s'")
proof (rule timer_wfI)
  note D = timer_wfD [OF wf]
  have out: "tm \<notin> set (timer_queue s d)" for d
    using D(4) [of tm] nl by blast
  show "queue_sorted b (sched_of ?s') (timer_queue ?s' d)" for d
    using D(1) [of d] queue_sorted_insert [OF D(1) [of c0] w]
    by (subst queue_sorted_cong [where sched' = "sched_of s"]) auto
  show "distinct (timer_queue ?s' c)" for c
    using D(2) out by simp
  show "c = d" if "x \<in> set (timer_queue ?s' c)" "x \<in> set (timer_queue ?s' d)" for c d x
    using that out D(3) [of x c d] by (auto split: if_splits)
  show "tm_linked (timers ?s' x) \<longleftrightarrow> (\<exists>c. x \<in> set (timer_queue ?s' c))" for x
    using D(4) [of x] by auto
  show "tm_magic (timers ?s' x) = TIMER_MAGIC" if "x \<in> set (timer_queue ?s' c)" for x c
    using that t D(5) [of x c] by (auto split: if_splits)
  show "tm_callback (timers ?s' x) \<noteq> None" if "x \<in> set (timer_queue ?s' c)" for x c
    using that t D(6) [of x c] by (auto split: if_splits)
qed

lemma upd_unlinked_timer_wf:
  assumes wf: "timer_wf b s" and nl: "\<not> tm_linked (timers s tm)"
    and f: "tm_linked (f (timers s tm)) = tm_linked (timers s tm)"
  shows "timer_wf b (upd_timer tm f s)" (is "timer_wf b ?s'")
proof (rule timer_wfI)
  note D = timer_wfD [OF wf]
  have out: "tm \<notin> set (timer_queue s d)" for d
    using D(4) [of tm] nl by blast
  show "queue_sorted b (sched_of ?s') (timer_queue ?s' d)" for d
    using D(1) [of d] out
    by (subst queue_sorted_cong [where sched' = "sched_of s"]) auto
  show "distinct (timer_queue ?s' c)" for c
    using D(2) by simp
  show "c = d" if "x \<in> set (timer_queue ?s' c)" "x \<in> set (timer_queue ?s' d)" for c d x
    using that D(3) by simp
  show "tm_linked (timers ?s' x) \<longleftrightarrow> (\<exists>c. x \<in> set (timer_queue ?s' c))" for x
    using D(4) [of x] f nl out by simp
  show "tm_magic (timers ?s' x) = TIMER_MAGIC" if "x \<in> set (timer_queue ?s' c)" for x c
    using that out D(5) [of x c] by auto
  show "tm_callback (timers ?s' x) \<noteq> None" if "x \<in> set (timer_queue ?s' c)" for x c
    using that out D(6) [of x c] by auto
qed

lemma timer_wf_hw [simp]:
  "timer_wf b (set_oneshot_timer c d s) = timer_wf b s"
  "timer_wf b (stop_timer c s) = timer_wf b s"
  "timer_wf b (upd_stats c f s) = timer_wf b s"
  by (rule timer_wf_cong; simp)+

lemma peek_timer_Some: "peek_timer cpu s = Some tm \<longleftrightarrow> (\<exists>rest. timer_queue s cpu = tm # rest)"
  by (auto simp: peek_timer_def split: list.splits)

lemma peek_timer_None: "peek_timer cpu s = None \<longleftrightarrow> timer_queue s cpu = []"
  by (auto simp: peek_timer_def split: list.splits)

section \<open>Setting and cancelling\<close>

lemma timer_set_ok:
  assumes wf: "timer_wf b s" and tm: "tm_magic (timers s tm) = TIMER_MAGIC" "\<not> tm_linked (timers s tm)"
    and w: "in_window b (cur_time s + delay)"
  shows "\<exists>s'. timer_set cpu tm delay period cb arg s = Some s' \<and> timer_wf b s' \<and>
    timer_state.more s' = timer_state.more s \<and> cur_time s' = cur_time s \<and> tm_linked (timers s' tm) \<and>
    timers s' = (timers s)(tm := (timers s tm)\<lparr>tm_linked := True, scheduled_time := cur_time s + delay,
      periodic_time := period, tm_callback := Some cb, tm_arg := arg\<rparr>) \<and>
    timer_queue s' = (timer_queue s)(cpu := insert_before_later (sched_of s') tm (timer_queue s cpu))"
proof -
  let ?f = "\<lambda>t. t\<lparr>scheduled_time := cur_time s + delay, periodic_time := period,
                  tm_callback := Some cb, tm_arg := arg\<rparr>"
  let ?s1 = "upd_timer tm ?f s"
  let ?s2 = "insert_timer_in_queue cpu tm ?s1"
  have wf1: "timer_wf b ?s1"
    using wf tm by (intro upd_unlinked_timer_wf) auto
  have wf2: "timer_wf b ?s2"
    using tm w by (intro insert_timer_wf [OF wf1]) auto
  define s2 where "s2 = ?s2"
  have t2: "timers s2 = (timers s)(tm := (timers s tm)\<lparr>tm_linked := True, scheduled_time := cur_time s + delay,
      periodic_time := period, tm_callback := Some cb, tm_arg := arg\<rparr>)"
    by (auto simp: s2_def)
  have "sched_of ?s1 = sched_of s2" by (auto simp: s2_def)
  then have q2: "timer_queue s2 = (timer_queue s)(cpu := insert_before_later (sched_of s2) tm (timer_queue s cpu))"
    by (simp add: s2_def)
  have r2: "timer_state.more s2 = timer_state.more s" "cur_time s2 = cur_time s"
    by (simp_all add: s2_def)
  have "timer_set cpu tm delay period cb arg s =
          Some (if peek_timer cpu s2 = Some tm then set_oneshot_timer cpu delay s2 else s2)"
    using tm by (simp add: timer_set_def s2_def Let_def)
  with wf2 [folded s2_def] t2 q2 r2 show ?thesis
    by (cases "peek_timer cpu s2 = Some tm") simp_all
qed

lemma timer_cancel_ok:
  assumes wf: "timer_wf b s" and tm: "tm_magic (timers s tm) = TIMER_MAGIC"
  shows "\<exists>s'. timer_cancel cpu tm s = Some s' \<and> timer_wf b s' \<and>
    timer_state.more s' = timer_state.more s \<and> cur_time s' = cur_time s \<and>
    timers s' = (timers s)(tm := (timers s tm)\<lparr>tm_linked := False, periodic_time := 0,
      tm_callback := None, tm_arg := Arg_null\<rparr>) \<and>
    timer_queue s' = (\<lambda>c. remove1 tm (timer_queue s c))"
proof -
  define s1 where "s1 = (if tm_linked (timers s tm) then unlink_timer tm s else s)"
  have wf1: "timer_wf b s1" using wf by (simp add: s1_def unlink_timer_wf)
  have nl: "\<not> tm_linked (timers s1 tm)" by (simp add: s1_def)
  have t1: "timers s1 = (timers s)(tm := (timers s tm)\<lparr>tm_linked := False\<rparr>)"
    by (auto simp: s1_def)
  have q1: "timer_queue s1 = (\<lambda>c. remove1 tm (timer_queue s c))"
    using timer_wfD(4) [OF wf, of tm] by (auto simp: s1_def remove1_idem)
  have r1: "timer_state.more s1 = timer_state.more s" "cur_time s1 = cur_time s"
    by (simp_all add: s1_def)
  let ?f = "\<lambda>t. t\<lparr>periodic_time := 0, tm_callback := None, tm_arg := Arg_null\<rparr>"
  have "timer_wf b (upd_timer tm ?f s1)"
    using nl by (intro upd_unlinked_timer_wf [OF wf1]) auto
  then show ?thesis
    unfolding timer_cancel_def s1_def [symmetric] using tm
    by (auto simp: t1 q1 r1 Let_def split: option.split)
qed

section \<open>The tick\<close>

text \<open>
  How a tick may change the timers: only due timers of this cpu change, one-shot timers leave the
  queue, periodic ones stay, and the setup of a timer is kept.
\<close>

definition due :: "u32 \<Rightarrow> u32 \<Rightarrow> 'a timer_state_scheme \<Rightarrow> timer_id \<Rightarrow> bool" where
  "due b now s tm \<longleftrightarrow> ahead b (scheduled_time (timers s tm)) \<le> ahead b now"

definition setup_of :: "timer \<Rightarrow> nat \<times> u32 \<times> timer_cb option \<times> karg" where
  "setup_of t = (tm_magic t, periodic_time t, tm_callback t, tm_arg t)"

definition tick_rel :: "u32 \<Rightarrow> u32 \<Rightarrow> nat \<Rightarrow> 'a timer_state_scheme \<Rightarrow> 'a timer_state_scheme \<Rightarrow> bool" where
  "tick_rel b now cpu s s' \<longleftrightarrow>
     (\<forall>d. d \<noteq> cpu \<longrightarrow> timer_queue s' d = timer_queue s d) \<and>
     set (timer_queue s' cpu) \<subseteq> set (timer_queue s cpu) \<and>
     (\<forall>x. setup_of (timers s' x) = setup_of (timers s x)) \<and>
     (\<forall>x. x \<notin> set (timer_queue s cpu) \<or> \<not> due b now s x \<longrightarrow> timers s' x = timers s x) \<and>
     (\<forall>x \<in> set (timer_queue s cpu). periodic_time (timers s x) > 0 \<or> \<not> due b now s x \<longrightarrow>
        x \<in> set (timer_queue s' cpu)) \<and>
     (\<forall>x \<in> set (timer_queue s' cpu). periodic_time (timers s x) = 0 \<longrightarrow> timers s' x = timers s x)"

lemma oneshot_tick [simp]:
  "due b now (set_oneshot_timer c d s) tm = due b now s tm"
  "tick_rel b now cpu s (set_oneshot_timer c d s') = tick_rel b now cpu s s'"
  by (simp_all add: due_def tick_rel_def)

lemma tick_rel_refl: "timers s' = timers s \<Longrightarrow> timer_queue s' = timer_queue s \<Longrightarrow> tick_rel b now cpu s s'"
  by (simp add: tick_rel_def)

lemma tick_rel_trans:
  assumes 1: "tick_rel b now cpu s s1" and 2: "tick_rel b now cpu s1 s2"
  shows "tick_rel b now cpu s s2"
proof -
  have p: "periodic_time (timers s1 x) = periodic_time (timers s x)" for x
    using 1 by (auto simp: tick_rel_def setup_of_def)
  have d: "\<not> due b now s x \<Longrightarrow> timers s1 x = timers s x \<and> \<not> due b now s1 x" for x
    using 1 by (simp add: tick_rel_def due_def)
  have u: "x \<notin> set (timer_queue s cpu) \<Longrightarrow> timers s1 x = timers s x \<and> x \<notin> set (timer_queue s1 cpu)" for x
    using 1 by (auto simp: tick_rel_def)
  have "timers s2 x = timers s x" if "x \<notin> set (timer_queue s cpu) \<or> \<not> due b now s x" for x
    using that d [of x] u [of x] 2 unfolding tick_rel_def by metis
  moreover have "x \<in> set (timer_queue s2 cpu)"
    if "x \<in> set (timer_queue s cpu)" "periodic_time (timers s x) > 0 \<or> \<not> due b now s x" for x
    using that 1 2 p [of x] d [of x] unfolding tick_rel_def by metis
  moreover have "timers s2 x = timers s x"
    if "x \<in> set (timer_queue s2 cpu)" "periodic_time (timers s x) = 0" for x
    using that 1 2 p [of x] unfolding tick_rel_def by (metis subsetD)
  moreover have "setup_of (timers s2 x) = setup_of (timers s x)" for x
    using 1 2 by (simp add: tick_rel_def)
  moreover have "timer_queue s2 d = timer_queue s d" if "d \<noteq> cpu" for d
    using that 1 2 by (simp add: tick_rel_def)
  moreover have "set (timer_queue s2 cpu) \<subseteq> set (timer_queue s cpu)"
    using 1 2 unfolding tick_rel_def by (meson subset_trans)
  ultimately show ?thesis unfolding tick_rel_def by blast
qed

text \<open>A due timer fires at most twice in one tick: a periodic one comes back at or after \<open>now\<close>.\<close>

definition tick_weight :: "u32 \<Rightarrow> u32 \<Rightarrow> nat \<Rightarrow> 'a timer_state_scheme \<Rightarrow> nat" where
  "tick_weight b now cpu s =
     (\<Sum>tm \<in> set (timer_queue s cpu). if ahead b (scheduled_time (timers s tm)) < ahead b now then 2
        else if ahead b (scheduled_time (timers s tm)) = ahead b now then 1 else 0)"

text \<open>The next deadline of a periodic timer that fires at \<open>now\<close>.\<close>

definition next_deadline :: "u32 \<Rightarrow> timer \<Rightarrow> u32" where
  "next_deadline now t =
     (let next = scheduled_time t + periodic_time t
      in if TIME_LT next now then now + periodic_time t else next)"

lemma next_deadline:
  assumes now: "in_window b now" and w: "ahead b (scheduled_time t) \<le> ahead b now"
    and per: "ahead b now + unat (periodic_time t) < 2 ^ 31" and pos: "periodic_time t > 0"
  shows "in_window b (next_deadline now t)" "ahead b now \<le> ahead b (next_deadline now t)"
    "ahead b (scheduled_time t) = ahead b now \<Longrightarrow> ahead b now < ahead b (next_deadline now t)"
proof -
  have p: "0 < unat (periodic_time t)" using pos by (simp add: word_less_nat_alt)
  have 1: "ahead b (scheduled_time t + periodic_time t) = ahead b (scheduled_time t) + unat (periodic_time t)"
    using w per by (intro ahead_add) simp
  have 2: "ahead b (now + periodic_time t) = ahead b now + unat (periodic_time t)"
    using per by (intro ahead_add) simp
  have w1: "in_window b (scheduled_time t + periodic_time t)" using 1 w per by (simp add: in_window_def)
  have w2: "in_window b (now + periodic_time t)" using 2 per by (simp add: in_window_def)
  show "in_window b (next_deadline now t)" using w1 w2 by (simp add: next_deadline_def Let_def)
  show "ahead b now \<le> ahead b (next_deadline now t)"
    using 2 TIME_LT_window [OF w1 now] by (simp add: next_deadline_def Let_def not_less)
  show "ahead b (scheduled_time t) = ahead b now \<Longrightarrow> ahead b now < ahead b (next_deadline now t)"
    using 1 2 p by (simp add: next_deadline_def Let_def)
qed

text \<open>The effect of one round on the queues, without the callback.\<close>

definition fired :: "nat \<Rightarrow> u32 \<Rightarrow> timer_id \<Rightarrow> 'a timer_state_scheme \<Rightarrow> 'a timer_state_scheme" where
  "fired cpu now tm s =
     (if periodic_time (timers s tm) > 0
      then insert_timer_in_queue cpu tm
             (upd_timer tm (\<lambda>t. t\<lparr>scheduled_time := next_deadline now (timers s tm)\<rparr>) s) else s)"

lemma fired_wf:
  assumes "timer_wf b s" "\<not> tm_linked (timers s tm)" "tm_magic (timers s tm) = TIMER_MAGIC"
    "tm_callback (timers s tm) \<noteq> None" "in_window b now" "due b now s tm"
    "ahead b now + unat (periodic_time (timers s tm)) < 2 ^ 31"
  shows "timer_wf b (fired cpu now tm s)"
proof (cases "periodic_time (timers s tm) > 0")
  case True
  let ?s1 = "upd_timer tm (\<lambda>t. t\<lparr>scheduled_time := next_deadline now (timers s tm)\<rparr>) s"
  have "timer_wf b ?s1" using assms by (intro upd_unlinked_timer_wf) auto
  then have "timer_wf b (insert_timer_in_queue cpu tm ?s1)"
    using assms True by (intro insert_timer_wf) (auto simp: due_def intro: next_deadline)
  then show ?thesis using True by (simp add: fired_def)
qed (use assms in \<open>simp add: fired_def\<close>)

lemma fired_rel:
  assumes q: "timer_queue s cpu = tm # rest" and tm: "tm \<notin> set rest" "tm_linked (timers s tm)" "due b now s tm"
    and u: "timers u = (timers s)(tm := (timers s tm)\<lparr>tm_linked := False\<rparr>)"
      "timer_queue u = (timer_queue s)(cpu := rest)"
  shows "tick_rel b now cpu s (fired cpu now tm u)"
  using assms by (auto simp: tick_rel_def fired_def setup_of_def)

lemma fired_weight:
  fixes s u :: "'a timer_state_scheme"
  assumes q: "timer_queue s cpu = tm # rest" and tm: "tm \<notin> set rest" "due b now s tm"
    and u: "timers u = (timers s)(tm := (timers s tm)\<lparr>tm_linked := False\<rparr>)"
      "timer_queue u = (timer_queue s)(cpu := rest)"
    and now: "in_window b now" and per: "ahead b now + unat (periodic_time (timers s tm)) < 2 ^ 31"
  shows "tick_weight b now cpu (fired cpu now tm u) < tick_weight b now cpu s"
proof -
  define w :: "'a timer_state_scheme \<Rightarrow> timer_id \<Rightarrow> nat" where "w s x = (if ahead b (scheduled_time (timers s x)) < ahead b now then 2
        else if ahead b (scheduled_time (timers s x)) = ahead b now then 1 else 0)" for s x
  let ?s' = "fired cpu now tm u"
  have tw: "tick_weight b now cpu s = (\<Sum>x \<in> set (timer_queue s cpu). w s x)" for s
    by (simp add: tick_weight_def w_def)
  have same: "(\<Sum>x \<in> set rest. w ?s' x) = (\<Sum>x \<in> set rest. w s x)"
    using tm u by (intro sum.cong) (auto simp: w_def fired_def)
  have s: "tick_weight b now cpu s = w s tm + (\<Sum>x \<in> set rest. w s x)"
    using tm by (simp add: tw q)
  have pos: "0 < w s tm" using tm by (simp add: w_def due_def)
  show ?thesis
  proof (cases "periodic_time (timers s tm) > 0")
    case True
    then have "tick_weight b now cpu ?s' = w ?s' tm + (\<Sum>x \<in> set rest. w ?s' x)"
      using tm u by (simp add: tw fired_def)
    moreover have "scheduled_time (timers ?s' tm) = next_deadline now (timers s tm)"
      using True u by (simp add: fired_def next_deadline_def Let_def)
    then have "w ?s' tm < w s tm"
      using next_deadline [OF now _ per True] tm(2) by (auto simp: w_def due_def)
    ultimately show ?thesis using same s by simp
  next
    case False
    then have "tick_weight b now cpu ?s' = (\<Sum>x \<in> set rest. w ?s' x)"
      using u by (simp add: tw fired_def)
    then show ?thesis using same s pos by simp
  qed
qed

text \<open>
  What the tick needs of the callbacks, which are code of other components: on a state that
  satisfies \<open>ok\<close> the callback of a linked timer runs without fault, leaves the timers and queues
  alone and keeps \<open>ok\<close>.
\<close>

locale timer_callbacks =
  fixes run :: "timer_cb \<Rightarrow> timer_id \<Rightarrow> u32 \<Rightarrow> karg \<Rightarrow> 'a timer_state_scheme \<Rightarrow> (handler_return \<times> 'a timer_state_scheme) option"
    and ok :: "'a timer_state_scheme \<Rightarrow> bool"
  assumes run_total: "ok s \<Longrightarrow> tm_linked (timers s tm) \<Longrightarrow> tm_callback (timers s tm) = Some cb \<Longrightarrow>
      \<exists>r s'. run cb tm now (tm_arg (timers s tm)) (upd_stats cpu f (unlink_timer tm s)) = Some (r, s') \<and>
        timers s' = timers (unlink_timer tm s) \<and> timer_queue s' = timer_queue (unlink_timer tm s) \<and> ok s'"
    and requeue_ok: "ok s \<Longrightarrow> periodic_time (timers s tm) > 0 \<Longrightarrow>
      ok (insert_timer_in_queue cpu tm (upd_timer tm (\<lambda>t. t\<lparr>scheduled_time := x\<rparr>) s))"
    and stats_ok: "ok s \<Longrightarrow> ok (upd_stats cpu f s)"
    and oneshot_ok: "ok s \<Longrightarrow> ok (set_oneshot_timer cpu d s)"
begin

lemma fire_timer_ok:
  assumes wf: "timer_wf b s" and ok: "ok s" and pk: "peek_timer cpu s = Some tm"
    and now: "in_window b now" and d: "due b now s tm"
    and per: "ahead b now + unat (periodic_time (timers s tm)) < 2 ^ 31"
  shows "\<exists>r s'. fire_timer run cpu now tm s = Some (r, s') \<and> timer_wf b s' \<and> ok s' \<and>
    tick_rel b now cpu s s' \<and> tick_weight b now cpu s' < tick_weight b now cpu s"
proof -
  obtain rest where q: "timer_queue s cpu = tm # rest" using pk by (auto simp: peek_timer_Some)
  have in_q: "tm \<in> set (timer_queue s cpu)" by (simp add: q)
  have ndist: "tm \<notin> set rest" using timer_wfD(2) [OF wf, of cpu] by (simp add: q)
  have other: "tm \<notin> set (timer_queue s c)" if "c \<noteq> cpu" for c
    using timer_wfD(3) [OF wf in_q, of c] that by blast
  obtain cb where cb: "tm_callback (timers s tm) = Some cb" using timer_wfD(6) [OF wf in_q] by blast
  have lk: "tm_linked (timers s tm)" and mg: "tm_magic (timers s tm) = TIMER_MAGIC"
    using timer_wfD(4) [OF wf, of tm] timer_wfD(5) [OF wf in_q] in_q by blast+
  define u where "u = unlink_timer tm s"
  have wfu: "timer_wf b u" using wf by (simp add: u_def unlink_timer_wf)
  obtain r s2 where run: "run cb tm now (tm_arg (timers s tm))
        (upd_stats cpu (\<lambda>st. st\<lparr>timer_count := timer_count st + 1\<rparr>) u) = Some (r, s2)"
    and s2: "timers s2 = timers u" "timer_queue s2 = timer_queue u" and ok2: "ok s2"
    using run_total [OF ok lk cb] unfolding u_def by blast
  have wf2: "timer_wf b s2" using wfu s2 timer_wf_cong by blast
  have uq: "timer_queue u cpu = rest" "\<And>c. c \<noteq> cpu \<Longrightarrow> timer_queue u c = timer_queue s c"
    using q other by (simp_all add: u_def remove1_idem)
  have ut: "timers u = (timers s)(tm := (timers s tm)\<lparr>tm_linked := False\<rparr>)" by (simp add: u_def)
  have uq2: "timer_queue u = (timer_queue s)(cpu := rest)" using uq by auto
  have fire: "fire_timer run cpu now tm s = Some (r, fired cpu now tm s2)"
    using mg cb run unfolding fire_timer_def tick_unlink_def tick_call_def tick_requeue_def
    by (simp add: u_def [symmetric] s2 ut fired_def next_deadline_def Let_def)
  have "timer_wf b (fired cpu now tm s2)"
    using mg cb now d per by (intro fired_wf [OF wf2]) (simp_all add: s2 ut due_def)
  moreover have "ok (fired cpu now tm s2)"
    using requeue_ok [OF ok2] ok2 by (simp add: fired_def)
  moreover have "tick_rel b now cpu s (fired cpu now tm s2)"
    by (rule fired_rel [OF q ndist lk d]) (simp_all add: s2 ut uq2)
  moreover have "tick_weight b now cpu (fired cpu now tm s2) < tick_weight b now cpu s"
    by (rule fired_weight [OF q ndist d _ _ now per]) (simp_all add: s2 ut uq2)
  ultimately show ?thesis using fire by blast
qed

lemma timer_tick_loop_ok:
  assumes "timer_wf b s" "ok s" "in_window b now"
    "\<forall>tm \<in> set (timer_queue s cpu). ahead b now + unat (periodic_time (timers s tm)) < 2 ^ 31"
  shows "\<exists>r s'. timer_tick_loop run cpu now ret s = Some (r, s') \<and> timer_wf b s' \<and> ok s' \<and>
    tick_rel b now cpu s s' \<and> (\<forall>tm \<in> set (timer_queue s' cpu). \<not> due b now s' tm)"
  using assms
proof (induction "tick_weight b now cpu s" arbitrary: s ret rule: less_induct)
  case (less s)
  note wf = less.prems(1) and ok = less.prems(2) and now = less.prems(3) and per = less.prems(4)
  note unfold = timer_tick_loop.simps [of run cpu now ret s]
  show ?case
  proof (cases "peek_timer cpu s")
    case None
    moreover have "timer_queue s cpu = []" using None by (simp add: peek_timer_None)
    ultimately show ?thesis using wf ok by (subst unfold) (simp add: tick_rel_refl)
  next
    case (Some tm)
    then obtain rest where q: "timer_queue s cpu = tm # rest" by (auto simp: peek_timer_Some)
    have qs: "queue_sorted b (sched_of s) (tm # rest)" using timer_wfD(1) [OF wf, of cpu] by (simp add: q)
    have LT: "TIME_LT now (scheduled_time (timers s tm)) \<longleftrightarrow> \<not> due b now s tm"
      using qs by (simp add: TIME_LT_window [OF now] queue_sorted_def due_def not_le)
    show ?thesis
    proof (cases "due b now s tm")
      case False
      then have "\<forall>x \<in> set (timer_queue s cpu). \<not> due b now s x"
        using qs q by (auto simp: queue_sorted_def due_def)
      then show ?thesis using False Some LT wf ok by (subst unfold) (simp add: tick_rel_refl)
    next
      case True
      obtain r s1 where f: "fire_timer run cpu now tm s = Some (r, s1)" "timer_wf b s1" "ok s1"
        and rel: "tick_rel b now cpu s s1" and lt: "tick_weight b now cpu s1 < tick_weight b now cpu s"
        using fire_timer_ok [OF wf ok Some now True] per q by fastforce
      have "\<forall>x \<in> set (timer_queue s1 cpu). ahead b now + unat (periodic_time (timers s1 x)) < 2 ^ 31"
        using rel per by (auto simp: tick_rel_def setup_of_def)
      from less.hyps [OF lt f(2,3) now this, of "if r = INT_RESCHEDULE then INT_RESCHEDULE else ret"]
      show ?thesis using f(1) Some True LT tick_rel_trans [OF rel] by (subst unfold) auto
    qed
  qed
qed

theorem timer_tick_ok:
  assumes wf: "timer_wf b s" and ok: "ok s" and now: "in_window b now"
    and per: "\<forall>tm \<in> set (timer_queue s cpu). ahead b now + unat (periodic_time (timers s tm)) < 2 ^ 31"
  shows "\<exists>r s'. timer_tick run True cpu now s = Some (r, s') \<and> timer_wf b s' \<and> ok s' \<and>
    tick_rel b now cpu s s' \<and> (\<forall>tm \<in> set (timer_queue s' cpu). \<not> due b now s' tm) \<and>
    (timer_queue s' cpu \<noteq> [] \<longrightarrow>
      hw_timer s' cpu = Some (scheduled_time (timers s' (hd (timer_queue s' cpu))) - now))"
proof -
  let ?s1 = "upd_stats cpu (\<lambda>st. st\<lparr>timer_ints := timer_ints st + 1\<rparr>) s"
  obtain r s2 where l: "timer_tick_loop run cpu now INT_NO_RESCHEDULE ?s1 = Some (r, s2)"
    and wf2: "timer_wf b s2" and ok2: "ok s2" and rel: "tick_rel b now cpu ?s1 s2"
    and nd: "\<forall>tm \<in> set (timer_queue s2 cpu). \<not> due b now s2 tm"
    using timer_tick_loop_ok [of b ?s1 now cpu INT_NO_RESCHEDULE] wf stats_ok [OF ok] now per by auto
  have rel': "tick_rel b now cpu s s2" using rel tick_rel_trans [OF tick_rel_refl [of ?s1 s]] by simp
  show ?thesis
  proof (cases "peek_timer cpu s2")
    case None
    moreover have "timer_queue s2 cpu = []" using None by (simp add: peek_timer_None)
    ultimately show ?thesis using l wf2 ok2 rel' by (simp add: timer_tick_def)
  next
    case (Some tm)
    then obtain rest where q: "timer_queue s2 cpu = tm # rest" by (auto simp: peek_timer_Some)
    then have "in_window b (scheduled_time (timers s2 tm))"
      using timer_wfD(1) [OF wf2, of cpu] by (simp add: queue_sorted_def)
    then have "TIME_GT (scheduled_time (timers s2 tm)) now"
      using nd q now by (simp add: TIME_GT_window due_def not_le)
    then show ?thesis
      using Some l wf2 oneshot_ok [OF ok2] rel' nd q by (simp add: timer_tick_def)
  qed
qed

end

end
