(* ===== verification/Thread_State.thy ===== *)
theory Thread_State
  imports Timer Pow2
begin

text \<open>
  The state of \<open>kernel/thread.c\<close> and \<open>kernel/mp.c\<close>: \<open>struct thread\<close>, \<open>struct wait_queue\<close>, the run
  queues with their bitmap, the global thread list, the thread lock and the per-cpu state, together
  with the accessors of \<open>include/kernel/thread.h\<close> and \<open>include/kernel/mp.h\<close>.

  The kernel stack of a thread that is switched out is represented by a continuation: what the
  thread still does after \<open>thread_resched\<close> returns in it, up to the release of the thread lock.
\<close>

section \<open>Threads\<close>

datatype thread_state =
  THREAD_SUSPENDED | THREAD_READY | THREAD_RUNNING | THREAD_BLOCKED | THREAD_SLEEPING | THREAD_DEATH

abbreviation (input) THREAD_FLAG_DETACHED :: u32 where "THREAD_FLAG_DETACHED \<equiv> 1"
abbreviation (input) THREAD_FLAG_FREE_STACK :: u32 where "THREAD_FLAG_FREE_STACK \<equiv> 2"
abbreviation (input) THREAD_FLAG_FREE_STRUCT :: u32 where "THREAD_FLAG_FREE_STRUCT \<equiv> 4"
abbreviation (input) THREAD_FLAG_REAL_TIME :: u32 where "THREAD_FLAG_REAL_TIME \<equiv> 8"
abbreviation (input) THREAD_FLAG_IDLE :: u32 where "THREAD_FLAG_IDLE \<equiv> 16"
abbreviation (input) THREAD_FLAG_DEBUG_STACK_BOUNDS_CHECK :: u32 where
  "THREAD_FLAG_DEBUG_STACK_BOUNDS_CHECK \<equiv> 32"

abbreviation (input) THREAD_MAGIC :: nat where "THREAD_MAGIC \<equiv> 0x74687264"
abbreviation (input) WAIT_QUEUE_MAGIC :: nat where "WAIT_QUEUE_MAGIC \<equiv> 0x77616974"

abbreviation (input) NUM_PRIORITIES :: int where "NUM_PRIORITIES \<equiv> 32"
abbreviation (input) HIGHEST_PRIORITY :: int where "HIGHEST_PRIORITY \<equiv> 31"
abbreviation (input) IDLE_PRIORITY :: int where "IDLE_PRIORITY \<equiv> 0"
abbreviation (input) DEFAULT_PRIORITY :: int where "DEFAULT_PRIORITY \<equiv> 16"

abbreviation (input) THREAD_STACK_PADDING_SIZE :: nat where "THREAD_STACK_PADDING_SIZE \<equiv> 256"
abbreviation (input) STACK_DEBUG_BYTE :: u8 where "STACK_DEBUG_BYTE \<equiv> 0x99"
abbreviation (input) STACK_DEBUG_WORD :: u32 where "STACK_DEBUG_WORD \<equiv> 0x99999999"

text \<open>
  The callers of \<open>wait_queue_block\<close>, for the part of them that runs after it returns, and the
  continuations. \<open>K_unlock i\<close> is \<open>THREAD_UNLOCK(state)\<close> with the saved interrupt state \<open>i\<close>,
  \<open>K_return i r\<close> the same followed by \<open>return r\<close>, and \<open>K_start\<close> the entry of a new thread.
\<close>

datatype wq_caller =
    C_join tid bool | C_mutex nat | C_sem_wait nat | C_sem_timedwait nat | C_event nat | C_port_read nat | C_group_read nat

datatype cont =
    K_none
  | K_start
  | K_unlock bool
  | K_wq_block u32 wq_caller bool
  | K_wq_destroy wqid bool
  | K_return bool status

record thread_specific_stats =
  total_run_time :: u64
  last_run_timestamp :: u64
  schedules :: nat

text \<open>
  \<open>queue_node\<close> is \<open>list_in_list(&t->queue_node)\<close>. \<open>stack_mem\<close> is the memory \<open>t->stack\<close> points to.
  \<open>t_cont\<close> is the saved continuation, \<open>call_ret\<close> the value that the last call of the thread
  returned and \<open>out_retcode\<close> the variable of the caller that \<open>thread_join\<close> writes the exit code to.
\<close>

record thread =
  t_magic :: nat
  queue_node :: bool
  priority :: int
  t_state :: thread_state
  remaining_quantum :: int
  t_flags :: u32
  curr_cpu :: int
  pinned_cpu :: int
  aspace :: "nat option"
  blocking_wait_queue :: "wqid option"
  wait_queue_block_ret :: status
  t_stack :: "nat option"
  stack_size :: nat
  stack_mem :: "u8 list"
  t_entry :: nat
  t_arg :: nat
  retcode :: int
  tls :: "nat list"
  t_name :: string
  t_stats :: thread_specific_stats
  t_cont :: cont
  call_ret :: status
  out_retcode :: int

record wait_queue =
  wq_magic :: nat
  wq_list :: "tid list"
  wq_count :: int

text \<open>Blocks given back to the heap: thread structs and stacks.\<close>

datatype block = Thread_struct tid | Stack_block nat

text \<open>
  The kernel state. \<open>ipi_pending\<close> is the set of cpus with an undelivered reschedule interrupt,
  \<open>mmu_aspace\<close> the address space loaded on each cpu.
\<close>

record kstate = timer_state +
  threads :: "tid \<Rightarrow> thread"
  current :: "nat \<Rightarrow> tid option"
  run_queue :: "nat \<Rightarrow> tid list"
  run_queue_bitmap :: u32
  thread_list :: "tid list"
  wqs :: "wqid \<Rightarrow> wait_queue"
  thread_lock :: bool
  ints_disabled :: "nat \<Rightarrow> bool"
  active_cpus :: u32
  idle_cpus :: u32
  realtime_cpus :: u32
  ipi_pending :: u32
  now_hires :: u64
  mmu_aspace :: "nat \<Rightarrow> nat option"
  freed :: "block list"
  delayed_free :: "block list"

definition upd_thread :: "tid \<Rightarrow> (thread \<Rightarrow> thread) \<Rightarrow> 'a kstate_scheme \<Rightarrow> 'a kstate_scheme" where
  "upd_thread t f s = s\<lparr>threads := (threads s)(t := f (threads s t))\<rparr>"

definition upd_wq :: "wqid \<Rightarrow> (wait_queue \<Rightarrow> wait_queue) \<Rightarrow> 'a kstate_scheme \<Rightarrow> 'a kstate_scheme" where
  "upd_wq w f s = s\<lparr>wqs := (wqs s)(w := f (wqs s w))\<rparr>"

definition has_flag :: "thread \<Rightarrow> u32 \<Rightarrow> bool" where
  "has_flag t f \<longleftrightarrow> t_flags t AND f \<noteq> 0"

definition thread_is_realtime :: "thread \<Rightarrow> bool" where
  "thread_is_realtime t \<longleftrightarrow> has_flag t THREAD_FLAG_REAL_TIME \<and> priority t > DEFAULT_PRIORITY"

definition thread_is_idle :: "thread \<Rightarrow> bool" where
  "thread_is_idle t \<longleftrightarrow> has_flag t THREAD_FLAG_IDLE"

definition thread_is_real_time_or_idle :: "thread \<Rightarrow> bool" where
  "thread_is_real_time_or_idle t \<longleftrightarrow> has_flag t (THREAD_FLAG_REAL_TIME OR THREAD_FLAG_IDLE)"

section \<open>The thread lock\<close>

text \<open>
  \<open>THREAD_LOCK(state)\<close> disables interrupts, takes the lock and gives the saved interrupt state. An
  operation is run from a state in which the lock is free; on a lock that the cpu itself holds it
  never returns.
\<close>

definition THREAD_LOCK :: "nat \<Rightarrow> 'a kstate_scheme \<Rightarrow> (bool \<times> 'a kstate_scheme) option" where
  "THREAD_LOCK cpu s = do {
     guard_that (\<not> thread_lock s);
     Some (ints_disabled s cpu,
           s\<lparr>thread_lock := True, ints_disabled := (ints_disabled s)(cpu := True)\<rparr>) }"

definition THREAD_UNLOCK :: "nat \<Rightarrow> bool \<Rightarrow> 'a kstate_scheme \<Rightarrow> 'a kstate_scheme" where
  "THREAD_UNLOCK cpu state s =
     s\<lparr>thread_lock := False, ints_disabled := (ints_disabled s)(cpu := state)\<rparr>"

section \<open>Multiprocessor state\<close>

definition mp_is_cpu_active :: "nat \<Rightarrow> 'a kstate_scheme \<Rightarrow> bool" where
  "mp_is_cpu_active cpu s \<longleftrightarrow> active_cpus s AND push_bit cpu 1 \<noteq> 0"

definition mp_is_cpu_idle :: "nat \<Rightarrow> 'a kstate_scheme \<Rightarrow> bool" where
  "mp_is_cpu_idle cpu s \<longleftrightarrow> idle_cpus s AND push_bit cpu 1 \<noteq> 0"

definition mp_set_cpu_idle :: "nat \<Rightarrow> 'a kstate_scheme \<Rightarrow> 'a kstate_scheme" where
  "mp_set_cpu_idle cpu s = s\<lparr>idle_cpus := idle_cpus s OR push_bit cpu 1\<rparr>"

definition mp_set_cpu_busy :: "nat \<Rightarrow> 'a kstate_scheme \<Rightarrow> 'a kstate_scheme" where
  "mp_set_cpu_busy cpu s = s\<lparr>idle_cpus := idle_cpus s AND NOT (push_bit cpu 1)\<rparr>"

definition mp_set_cpu_realtime :: "nat \<Rightarrow> 'a kstate_scheme \<Rightarrow> 'a kstate_scheme" where
  "mp_set_cpu_realtime cpu s = s\<lparr>realtime_cpus := realtime_cpus s OR push_bit cpu 1\<rparr>"

definition mp_set_cpu_non_realtime :: "nat \<Rightarrow> 'a kstate_scheme \<Rightarrow> 'a kstate_scheme" where
  "mp_set_cpu_non_realtime cpu s = s\<lparr>realtime_cpus := realtime_cpus s AND NOT (push_bit cpu 1)\<rparr>"

abbreviation (input) MP_CPU_ALL_BUT_LOCAL :: u32 where "MP_CPU_ALL_BUT_LOCAL \<equiv> 0xFFFFFFFF"
abbreviation (input) MP_RESCHEDULE_FLAG_REALTIME :: u32 where "MP_RESCHEDULE_FLAG_REALTIME \<equiv> 1"

definition mp_reschedule :: "nat \<Rightarrow> u32 \<Rightarrow> u32 \<Rightarrow> 'a kstate_scheme \<Rightarrow> 'a kstate_scheme" where
  "mp_reschedule local_cpu target flags s =
     (let target = target AND active_cpus s;
          target = (if flags AND MP_RESCHEDULE_FLAG_REALTIME = 0
                    then target AND NOT (realtime_cpus s) else target);
          target = target AND NOT (push_bit local_cpu 1)
      in s\<lparr>ipi_pending := ipi_pending s OR target\<rparr>)"

definition mp_set_curr_cpu_active :: "nat \<Rightarrow> bool \<Rightarrow> 'a kstate_scheme \<Rightarrow> 'a kstate_scheme" where
  "mp_set_curr_cpu_active cpu active s = s\<lparr>active_cpus := active_cpus s OR push_bit cpu 1\<rparr>"

definition mp_mbx_reschedule_irq :: "nat \<Rightarrow> 'a kstate_scheme \<Rightarrow> handler_return \<times> 'a kstate_scheme" where
  "mp_mbx_reschedule_irq cpu s =
     (if active_cpus s AND push_bit cpu 1 \<noteq> 0 then INT_RESCHEDULE else INT_NO_RESCHEDULE,
      upd_stats cpu (\<lambda>st. st\<lparr>reschedule_ipis := reschedule_ipis st + 1\<rparr>) s)"

section \<open>Bits of flags and masks\<close>

lemma and_single_bit: "x AND push_bit n 1 = (0 :: 'a::len word) \<longleftrightarrow> \<not> bit x n"
  by (simp add: push_bit_eq_mult and_exp_eq_0_iff_not_bit)

lemma and_8_eq_0 [simp]: "x AND 8 = (0 :: u32) \<longleftrightarrow> \<not> bit x 3"
  using and_exp_eq_0_iff_not_bit [of x 3] by simp

lemma and_16_eq_0 [simp]: "x AND 16 = (0 :: u32) \<longleftrightarrow> \<not> bit x 4"
  using and_exp_eq_0_iff_not_bit [of x 4] by simp

lemma and_32_eq_0 [simp]: "x AND 32 = (0 :: u32) \<longleftrightarrow> \<not> bit x 5"
  using and_exp_eq_0_iff_not_bit [of x 5] by simp

lemma and_24_eq_0: "x AND 24 = (0 :: u32) \<longleftrightarrow> \<not> bit x 3 \<and> \<not> bit x 4"
proof -
  have "x AND (8 OR 16) = (x AND 8) OR (x AND 16)" by (simp only: bit.conj_disj_distrib)
  then show ?thesis by (simp add: or_eq_0_iff)
qed

lemma thread_is_idle_bit: "thread_is_idle t \<longleftrightarrow> bit (t_flags t) 4"
  by (simp add: thread_is_idle_def has_flag_def)

lemma thread_is_real_time_or_idle_bit:
  "thread_is_real_time_or_idle t \<longleftrightarrow> bit (t_flags t) 3 \<or> bit (t_flags t) 4"
  by (simp add: thread_is_real_time_or_idle_def has_flag_def and_24_eq_0)

text \<open>A wake-up mask reaches exactly the active, non-realtime cpus of the target other than this one.\<close>

lemma mp_reschedule_mask:
  "bit (ipi_pending (mp_reschedule cpu target 0 s)) n \<longleftrightarrow>
     bit (ipi_pending s) n \<or>
     (bit target n \<and> bit (active_cpus s) n \<and> \<not> bit (realtime_cpus s) n \<and> n \<noteq> cpu)"
  by (auto simp: mp_reschedule_def bit_simps dest: bit_word32_bound)

end
