(* ===== verification/Thread.thy ===== *)
theory Thread
  imports Thread_State
begin

text \<open>
  The scheduler of \<open>kernel/thread.c\<close>: run queues, \<open>thread_resched\<close>, yielding, preemption,
  sleeping, priorities, the creation and start of threads and the boot-time setup. An operation
  gives \<open>None\<close> when it hits a failed assertion, a panic or a null or out-of-range access.

  An operation that switches threads runs up to the context switch, with the thread lock still
  held; what the incoming thread then does is its saved continuation.
\<close>

section \<open>Run queues\<close>

definition insert_in_run_queue_head :: "nat \<Rightarrow> tid \<Rightarrow> 'a kstate_scheme \<Rightarrow> 'a kstate_scheme option" where
  "insert_in_run_queue_head cpu t s = do {
     guard_that (t_magic (threads s t) = THREAD_MAGIC);
     guard_that (t_state (threads s t) = THREAD_READY);
     guard_that (\<not> queue_node (threads s t));
     guard_that (ints_disabled s cpu);
     guard_that (thread_lock s);
     guard_that (0 \<le> priority (threads s t) \<and> priority (threads s t) < NUM_PRIORITIES);
     let p = nat (priority (threads s t));
     let s1 = s\<lparr>run_queue := (run_queue s)(p := t # run_queue s p),
                run_queue_bitmap := run_queue_bitmap s OR push_bit p 1\<rparr>;
     Some (upd_thread t (\<lambda>th. th\<lparr>queue_node := True\<rparr>) s1) }"

definition insert_in_run_queue_tail :: "nat \<Rightarrow> tid \<Rightarrow> 'a kstate_scheme \<Rightarrow> 'a kstate_scheme option" where
  "insert_in_run_queue_tail cpu t s = do {
     guard_that (t_magic (threads s t) = THREAD_MAGIC);
     guard_that (t_state (threads s t) = THREAD_READY);
     guard_that (\<not> queue_node (threads s t));
     guard_that (ints_disabled s cpu);
     guard_that (thread_lock s);
     guard_that (0 \<le> priority (threads s t) \<and> priority (threads s t) < NUM_PRIORITIES);
     let p = nat (priority (threads s t));
     let s1 = s\<lparr>run_queue := (run_queue s)(p := run_queue s p @ [t]),
                run_queue_bitmap := run_queue_bitmap s OR push_bit p 1\<rparr>;
     Some (upd_thread t (\<lambda>th. th\<lparr>queue_node := True\<rparr>) s1) }"

definition wakeup_cpu_for_thread :: "nat \<Rightarrow> tid \<Rightarrow> 'a kstate_scheme \<Rightarrow> 'a kstate_scheme" where
  "wakeup_cpu_for_thread cpu t s =
     (if pinned_cpu (threads s t) < 0 then mp_reschedule cpu MP_CPU_ALL_BUT_LOCAL 0 s
      else mp_reschedule cpu (push_bit (nat (pinned_cpu (threads s t))) 1) 0 s)"

text \<open>
  \<open>get_top_thread\<close>: the queues from the highest set bit of the local bitmap down; in a queue, the
  first thread that may run on this cpu. The thread is taken out of its queue.
\<close>

definition eligible :: "nat \<Rightarrow> thread \<Rightarrow> bool" where
  "eligible cpu th \<longleftrightarrow> pinned_cpu th < 0 \<or> pinned_cpu th = int cpu"

definition take_from_run_queue :: "nat \<Rightarrow> tid \<Rightarrow> 'a kstate_scheme \<Rightarrow> 'a kstate_scheme" where
  "take_from_run_queue q t s =
     (let rest = remove1 t (run_queue s q);
          s1 = upd_thread t (\<lambda>th. th\<lparr>queue_node := False\<rparr>) (s\<lparr>run_queue := (run_queue s)(q := rest)\<rparr>)
      in if rest = [] then s1\<lparr>run_queue_bitmap := run_queue_bitmap s1 AND NOT (push_bit q 1)\<rparr> else s1)"

lemma top_bit_clz: "w \<noteq> 0 \<Longrightarrow> top_bit w (31 - builtin_clz w)"
proof -
  assume "w \<noteq> 0"
  then obtain m where m: "top_bit w m" using top_bit_exists by blast
  then have "m < 32" using bit_word32_bound unfolding top_bit_def by blast
  with m builtin_clz_top_bit [OF m] show ?thesis by simp
qed

lemma clear_top_bit_less: "w \<noteq> (0 :: u32) \<Longrightarrow> w AND NOT (2 ^ (31 - builtin_clz w)) < w"
proof -
  assume w: "w \<noteq> 0"
  let ?m = "31 - builtin_clz w"
  have b: "bit w ?m" using top_bit_clz [OF w] by (simp add: top_bit_def)
  have "w AND NOT (2 ^ ?m) \<noteq> w"
  proof
    assume "w AND NOT (2 ^ ?m) = w"
    then have "bit (w AND NOT (2 ^ ?m)) ?m" using b by simp
    then show False using bit_word32_bound [OF b] by (simp add: bit_simps)
  qed
  moreover have "w AND NOT (2 ^ ?m) \<le> w" by (rule word_and_le2)
  ultimately show ?thesis by simp
qed

function get_top_loop :: "nat \<Rightarrow> u32 \<Rightarrow> 'a kstate_scheme \<Rightarrow> (tid \<times> nat) option" where
  "get_top_loop cpu bitmap s =
     (if bitmap = 0 then None
      else let next_queue = 32 - 1 - builtin_clz bitmap
           in case List.find (\<lambda>t. eligible cpu (threads s t)) (run_queue s next_queue) of
                Some newthread \<Rightarrow> Some (newthread, next_queue)
              | None \<Rightarrow> get_top_loop cpu (bitmap AND NOT (push_bit next_queue 1)) s)"
  by pat_completeness auto
termination
  by (relation "measure (\<lambda>(_, bitmap, _). unat bitmap)")
    (auto simp: word_less_nat_alt [symmetric] intro: clear_top_bit_less)

declare get_top_loop.simps [simp del]

definition get_top_thread :: "nat \<Rightarrow> 'a kstate_scheme \<Rightarrow> tid \<times> 'a kstate_scheme" where
  "get_top_thread cpu s =
     (case get_top_loop cpu (run_queue_bitmap s) s of
        Some (newthread, q) \<Rightarrow> (newthread, take_from_run_queue q newthread s)
      | None \<Rightarrow> (Idle_thread cpu, s))"

section \<open>The context switch\<close>

text \<open>
  The check of the stack padding just before the switch: the first
  \<open>THREAD_STACK_PADDING_SIZE / 4\<close> words of the old thread's stack.
\<close>

definition stack_word :: "u8 list \<Rightarrow> nat \<Rightarrow> u32" where
  "stack_word m i = word_rcat (rev (take 4 (drop (4 * i) m)))"

definition stack_guard_intact :: "thread \<Rightarrow> bool" where
  "stack_guard_intact th \<longleftrightarrow>
     list_all (\<lambda>i. stack_word (stack_mem th) i = STACK_DEBUG_WORD) [0..<THREAD_STACK_PADDING_SIZE div 4]"

text \<open>
  The accounting of a switch: quantum and cpu ownership, idle and realtime masks, statistics.
\<close>

definition switch_owner :: "nat \<Rightarrow> tid \<Rightarrow> tid \<Rightarrow> 'a kstate_scheme \<Rightarrow> 'a kstate_scheme" where
  "switch_owner cpu oldthread newthread s =
     (let s1 = upd_thread newthread (\<lambda>th. th\<lparr>remaining_quantum :=
                 if remaining_quantum th \<le> 0 then 5 else remaining_quantum th\<rparr>) s;
          s2 = upd_thread oldthread (\<lambda>th. th\<lparr>curr_cpu := - 1\<rparr>) s1
      in upd_thread newthread (\<lambda>th. th\<lparr>curr_cpu := int cpu\<rparr>) s2)"

definition switch_cpu_masks :: "nat \<Rightarrow> tid \<Rightarrow> 'a kstate_scheme \<Rightarrow> 'a kstate_scheme" where
  "switch_cpu_masks cpu newthread s =
     (let s1 = (if thread_is_idle (threads s newthread) then mp_set_cpu_idle cpu s else mp_set_cpu_busy cpu s)
      in if thread_is_realtime (threads s newthread) then mp_set_cpu_realtime cpu s1
         else mp_set_cpu_non_realtime cpu s1)"

definition switch_stats :: "nat \<Rightarrow> tid \<Rightarrow> tid \<Rightarrow> 'a kstate_scheme \<Rightarrow> 'a kstate_scheme" where
  "switch_stats cpu oldthread newthread s =
     (let s1 = upd_stats cpu (\<lambda>st. st\<lparr>context_switches := context_switches st + 1\<rparr>) s;
          now = now_hires s1;
          s2 = (if thread_is_idle (threads s1 oldthread)
                then upd_stats cpu (\<lambda>st. st\<lparr>idle_time := idle_time st + (now - last_idle_timestamp st)\<rparr>) s1
                else upd_thread oldthread (\<lambda>th. th\<lparr>t_stats := (t_stats th)\<lparr>total_run_time :=
                       total_run_time (t_stats th) + (now - last_run_timestamp (t_stats th))\<rparr>\<rparr>) s1)
      in if thread_is_idle (threads s2 newthread)
         then upd_stats cpu (\<lambda>st. st\<lparr>last_idle_timestamp := now\<rparr>) s2
         else upd_thread newthread (\<lambda>th. th\<lparr>t_stats := (t_stats th)\<lparr>last_run_timestamp := now,
                schedules := schedules (t_stats th) + 1\<rparr>\<rparr>) s2)"

definition resched_account :: "nat \<Rightarrow> tid \<Rightarrow> tid \<Rightarrow> 'a kstate_scheme \<Rightarrow> 'a kstate_scheme" where
  "resched_account cpu oldthread newthread s =
     switch_stats cpu oldthread newthread
       (switch_cpu_masks cpu newthread (switch_owner cpu oldthread newthread s))"

text \<open>The preemption timer: stopped towards a real-time or idle thread, started coming from one.\<close>

definition resched_preempt_timer :: "nat \<Rightarrow> tid \<Rightarrow> tid \<Rightarrow> 'a kstate_scheme \<Rightarrow> 'a kstate_scheme option" where
  "resched_preempt_timer cpu oldthread newthread s =
     (if thread_is_real_time_or_idle (threads s newthread) then
        if \<not> thread_is_real_time_or_idle (threads s oldthread) then timer_cancel cpu (TM_preempt cpu) s
        else Some s
      else if thread_is_real_time_or_idle (threads s oldthread) then
        timer_set_periodic cpu (TM_preempt cpu) 10 CB_thread_timer_tick Arg_null s
      else Some s)"

definition vmm_context_switch :: "nat \<Rightarrow> nat option \<Rightarrow> nat option \<Rightarrow> 'a kstate_scheme \<Rightarrow> 'a kstate_scheme option" where
  "vmm_context_switch cpu oldspace newaspace s = do {
     guard_that (thread_lock s);
     Some (s\<lparr>mmu_aspace := (mmu_aspace s)(cpu := newaspace)\<rparr>) }"

definition thread_resched :: "nat \<Rightarrow> 'a kstate_scheme \<Rightarrow> 'a kstate_scheme option" where
  "thread_resched cpu s = do {
     current_thread \<leftarrow> current s cpu;
     guard_that (ints_disabled s cpu);
     guard_that (thread_lock s);
     guard_that (t_state (threads s current_thread) \<noteq> THREAD_RUNNING);
     let s1 = upd_stats cpu (\<lambda>st. st\<lparr>reschedules := reschedules st + 1\<rparr>) s;
     let (newthread, s2) = get_top_thread cpu s1;
     let s3 = upd_thread newthread (\<lambda>th. th\<lparr>t_state := THREAD_RUNNING\<rparr>) s2;
     let oldthread = current_thread;
     if newthread = oldthread then Some s3
     else do {
       let s4 = resched_account cpu oldthread newthread s3;
       s5 \<leftarrow> resched_preempt_timer cpu oldthread newthread s4;
       let s6 = s5\<lparr>current := (current s5)(cpu := Some newthread)\<rparr>;
       guard_that (has_flag (threads s6 oldthread) THREAD_FLAG_DEBUG_STACK_BOUNDS_CHECK \<longrightarrow>
                   stack_guard_intact (threads s6 oldthread));
       if aspace (threads s6 newthread) \<noteq> aspace (threads s6 oldthread)
       then vmm_context_switch cpu (aspace (threads s6 oldthread)) (aspace (threads s6 newthread)) s6
       else Some s6 } }"

text \<open>\<open>thread_resched\<close> called with \<open>k\<close> left to do in the current thread.\<close>

definition resched_then :: "cont \<Rightarrow> nat \<Rightarrow> 'a kstate_scheme \<Rightarrow> 'a kstate_scheme option" where
  "resched_then k cpu s = do {
     t \<leftarrow> current s cpu;
     thread_resched cpu (upd_thread t (\<lambda>th. th\<lparr>t_cont := k\<rparr>) s) }"

section \<open>Yielding, preemption, blocking\<close>

definition thread_yield :: "nat \<Rightarrow> 'a kstate_scheme \<Rightarrow> 'a kstate_scheme option" where
  "thread_yield cpu s = do {
     t \<leftarrow> current s cpu;
     guard_that (t_magic (threads s t) = THREAD_MAGIC);
     guard_that (t_state (threads s t) = THREAD_RUNNING);
     (i, s1) \<leftarrow> THREAD_LOCK cpu s;
     let s2 = upd_stats cpu (\<lambda>st. st\<lparr>yields := yields st + 1\<rparr>) s1;
     let s3 = upd_thread t (\<lambda>th. th\<lparr>t_state := THREAD_READY, remaining_quantum := 0\<rparr>) s2;
     s4 \<leftarrow> (if \<not> thread_is_idle (threads s3 t) then insert_in_run_queue_tail cpu t s3 else Some s3);
     resched_then (K_unlock i) cpu s4 }"

definition thread_preempt :: "nat \<Rightarrow> 'a kstate_scheme \<Rightarrow> 'a kstate_scheme option" where
  "thread_preempt cpu s = do {
     t \<leftarrow> current s cpu;
     guard_that (t_magic (threads s t) = THREAD_MAGIC);
     guard_that (t_state (threads s t) = THREAD_RUNNING);
     let s0 = (if \<not> thread_is_idle (threads s t)
               then upd_stats cpu (\<lambda>st. st\<lparr>preempts := preempts st + 1\<rparr>) s else s);
     (i, s1) \<leftarrow> THREAD_LOCK cpu s0;
     let s2 = upd_thread t (\<lambda>th. th\<lparr>t_state := THREAD_READY\<rparr>) s1;
     s3 \<leftarrow> (if \<not> thread_is_idle (threads s2 t)
           then if remaining_quantum (threads s2 t) > 0 then insert_in_run_queue_head cpu t s2
                else insert_in_run_queue_tail cpu t s2
           else Some s2);
     resched_then (K_unlock i) cpu s3 }"

definition thread_block :: "cont \<Rightarrow> nat \<Rightarrow> 'a kstate_scheme \<Rightarrow> 'a kstate_scheme option" where
  "thread_block k cpu s = do {
     t \<leftarrow> current s cpu;
     guard_that (t_magic (threads s t) = THREAD_MAGIC);
     guard_that (t_state (threads s t) = THREAD_BLOCKED);
     guard_that (thread_lock s);
     guard_that (\<not> thread_is_idle (threads s t));
     resched_then k cpu s }"

definition thread_unblock :: "cont \<Rightarrow> nat \<Rightarrow> tid \<Rightarrow> bool \<Rightarrow> 'a kstate_scheme \<Rightarrow> 'a kstate_scheme option" where
  "thread_unblock k cpu t resched s = do {
     guard_that (t_magic (threads s t) = THREAD_MAGIC);
     guard_that (t_state (threads s t) = THREAD_BLOCKED);
     guard_that (thread_lock s);
     guard_that (\<not> thread_is_idle (threads s t));
     let s1 = upd_thread t (\<lambda>th. th\<lparr>t_state := THREAD_READY\<rparr>) s;
     s2 \<leftarrow> insert_in_run_queue_head cpu t s1;
     let s3 = wakeup_cpu_for_thread cpu t s2;
     if resched then resched_then k cpu s3 else Some s3 }"

definition thread_set_priority :: "nat \<Rightarrow> int \<Rightarrow> 'a kstate_scheme \<Rightarrow> 'a kstate_scheme option" where
  "thread_set_priority cpu prio s = do {
     t \<leftarrow> current s cpu;
     (i, s1) \<leftarrow> THREAD_LOCK cpu s;
     let prio = (if prio \<le> IDLE_PRIORITY then IDLE_PRIORITY + 1 else prio);
     let prio = (if prio > HIGHEST_PRIORITY then HIGHEST_PRIORITY else prio);
     let s2 = upd_thread t (\<lambda>th. th\<lparr>priority := prio, t_state := THREAD_READY\<rparr>) s1;
     s3 \<leftarrow> insert_in_run_queue_head cpu t s2;
     resched_then (K_unlock i) cpu s3 }"

section \<open>Timer callbacks and sleeping\<close>

text \<open>The callbacks run on cpu \<open>cpu\<close>, in its timer interrupt.\<close>

definition thread_timer_tick :: "nat \<Rightarrow> 'a kstate_scheme \<Rightarrow> (handler_return \<times> 'a kstate_scheme) option" where
  "thread_timer_tick cpu s = do {
     t \<leftarrow> current s cpu;
     if thread_is_real_time_or_idle (threads s t) then Some (INT_NO_RESCHEDULE, s)
     else do {
       let s1 = upd_thread t (\<lambda>th. th\<lparr>remaining_quantum := remaining_quantum th - 1\<rparr>) s;
       Some (if remaining_quantum (threads s1 t) \<le> 0 then INT_RESCHEDULE else INT_NO_RESCHEDULE, s1) } }"

definition thread_sleep_handler :: "nat \<Rightarrow> tid \<Rightarrow> 'a kstate_scheme \<Rightarrow> (handler_return \<times> 'a kstate_scheme) option" where
  "thread_sleep_handler cpu t s = do {
     guard_that (t_magic (threads s t) = THREAD_MAGIC);
     guard_that (t_state (threads s t) = THREAD_SLEEPING);
     (i, s1) \<leftarrow> THREAD_LOCK cpu s;
     s2 \<leftarrow> insert_in_run_queue_head cpu t (upd_thread t (\<lambda>th. th\<lparr>t_state := THREAD_READY\<rparr>) s1);
     Some (INT_RESCHEDULE, THREAD_UNLOCK cpu i s2) }"

definition thread_sleep :: "nat \<Rightarrow> u32 \<Rightarrow> 'a kstate_scheme \<Rightarrow> 'a kstate_scheme option" where
  "thread_sleep cpu delay s = do {
     t \<leftarrow> current s cpu;
     guard_that (t_magic (threads s t) = THREAD_MAGIC);
     guard_that (t_state (threads s t) = THREAD_RUNNING);
     guard_that (\<not> thread_is_idle (threads s t));
     let s1 = timer_initialize (TM_sleep t) s;
     (i, s2) \<leftarrow> THREAD_LOCK cpu s1;
     s3 \<leftarrow> timer_set_oneshot cpu (TM_sleep t) delay CB_thread_sleep (Arg_thread t) s2;
     resched_then (K_unlock i) cpu (upd_thread t (\<lambda>th. th\<lparr>t_state := THREAD_SLEEPING\<rparr>) s3) }"

section \<open>Creation and start\<close>

text \<open>\<open>strlcpy\<close> into a buffer of \<open>n\<close> bytes: at most \<open>n - 1\<close> characters.\<close>

definition copied_name :: "nat \<Rightarrow> string \<Rightarrow> string" where
  "copied_name n name = take (n - 1) name"

definition zero_thread :: thread where
  "zero_thread = \<lparr>t_magic = 0, queue_node = False, priority = 0, t_state = THREAD_SUSPENDED,
     remaining_quantum = 0, t_flags = 0, curr_cpu = 0, pinned_cpu = 0, aspace = None,
     blocking_wait_queue = None, wait_queue_block_ret = 0, t_stack = None, stack_size = 0,
     stack_mem = [], t_entry = 0, t_arg = 0, retcode = 0, tls = [], t_name = [],
     t_stats = \<lparr>total_run_time = 0, last_run_timestamp = 0, schedules = 0\<rparr>,
     t_cont = K_none, call_ret = 0, out_retcode = 0\<rparr>"

definition init_thread_struct :: "tid \<Rightarrow> string \<Rightarrow> 'a kstate_scheme \<Rightarrow> 'a kstate_scheme" where
  "init_thread_struct t name s =
     upd_wq (WQ_retcode t) (\<lambda>_. \<lparr>wq_magic = 0, wq_list = [], wq_count = 0\<rparr>)
       (upd_thread t (\<lambda>_. zero_thread\<lparr>t_magic := THREAD_MAGIC, pinned_cpu := - 1,
                                     t_name := copied_name 32 name\<rparr>) s)"

definition wait_queue_init :: "wqid \<Rightarrow> 'a kstate_scheme \<Rightarrow> 'a kstate_scheme" where
  "wait_queue_init w s =
     upd_wq w (\<lambda>_. \<lparr>wq_magic = WAIT_QUEUE_MAGIC, wq_list = [], wq_count = 0\<rparr>) s"

text \<open>
  \<open>thread_create_etc\<close>. The two calls of \<open>malloc\<close> are answered by \<open>new_struct\<close> and \<open>new_stack\<close>
  (\<open>None\<close> when out of memory). The stack is filled with the debug byte; the frame that
  \<open>arch_thread_initialize\<close> puts at its top is not part of \<open>stack_mem\<close>, it is the continuation \<open>K_start\<close>, with
  which the thread starts in its entry routine. The size of the stack is a natural number: with the
  padding it is below 2^64. The result is the thread or NULL.
\<close>

definition thread_create_etc ::
  "nat \<Rightarrow> tid option \<Rightarrow> string \<Rightarrow> nat \<Rightarrow> nat \<Rightarrow> int \<Rightarrow> nat option \<Rightarrow> nat \<Rightarrow> tid option \<Rightarrow> nat option \<Rightarrow>
   'a kstate_scheme \<Rightarrow> (tid option \<times> 'a kstate_scheme) option" where
  "thread_create_etc cpu t0 name entry arg prio stack sz new_struct new_stack s =
     (case (case t0 of Some t \<Rightarrow> Some t | None \<Rightarrow> new_struct) of
        None \<Rightarrow> Some (None, s)
      | Some t \<Rightarrow> do {
          let flags = (if t0 = None then THREAD_FLAG_FREE_STRUCT else 0);
          let s1 = init_thread_struct t name s;
          let s2 = upd_thread t (\<lambda>th. th\<lparr>t_entry := entry, t_arg := arg, priority := prio,
                     t_state := THREAD_SUSPENDED, blocking_wait_queue := None,
                     wait_queue_block_ret := NO_ERROR, curr_cpu := - 1, retcode := 0,
                     aspace := None\<rparr>) s1;
          let s3 = wait_queue_init (WQ_retcode t) s2;
          let sz' = (if stack = None then sz + THREAD_STACK_PADDING_SIZE else sz);
          let flags' = (if stack = None then flags OR THREAD_FLAG_DEBUG_STACK_BOUNDS_CHECK else flags);
          case (case stack of Some k \<Rightarrow> Some k | None \<Rightarrow> new_stack) of
            None \<Rightarrow> Some (None, if flags' AND THREAD_FLAG_FREE_STRUCT \<noteq> 0
                               then s3\<lparr>freed := Thread_struct t # freed s3\<rparr> else s3)
          | Some k \<Rightarrow> do {
              let flags'' = (if stack = None then flags' OR THREAD_FLAG_FREE_STACK else flags');
              ct \<leftarrow> current s3 cpu;
              let s4 = upd_thread t (\<lambda>th. th\<lparr>t_stack := Some k,
                         stack_mem := replicate sz' STACK_DEBUG_BYTE, stack_size := sz',
                         t_flags := flags'', tls := tls (threads s3 ct), t_cont := K_start\<rparr>) s3;
              (i, s5) \<leftarrow> THREAD_LOCK cpu s4;
              Some (Some t, THREAD_UNLOCK cpu i (s5\<lparr>thread_list := t # thread_list s5\<rparr>)) } })"

definition thread_create ::
  "nat \<Rightarrow> string \<Rightarrow> nat \<Rightarrow> nat \<Rightarrow> int \<Rightarrow> nat \<Rightarrow> tid option \<Rightarrow> nat option \<Rightarrow>
   'a kstate_scheme \<Rightarrow> (tid option \<times> 'a kstate_scheme) option" where
  "thread_create cpu name entry arg prio sz new_struct new_stack s =
     thread_create_etc cpu None name entry arg prio None sz new_struct new_stack s"

definition thread_set_real_time :: "nat \<Rightarrow> tid option \<Rightarrow> 'a kstate_scheme \<Rightarrow> (status \<times> 'a kstate_scheme) option" where
  "thread_set_real_time cpu t0 s =
     (case t0 of None \<Rightarrow> Some (ERR_INVALID_ARGS, s)
      | Some t \<Rightarrow> do {
          guard_that (t_magic (threads s t) = THREAD_MAGIC);
          (i, s1) \<leftarrow> THREAD_LOCK cpu s;
          s2 \<leftarrow> (if current s1 cpu = Some t then timer_cancel cpu (TM_preempt cpu) s1 else Some s1);
          let s3 = upd_thread t (\<lambda>th. th\<lparr>t_flags := t_flags th OR THREAD_FLAG_REAL_TIME\<rparr>) s2;
          Some (NO_ERROR, THREAD_UNLOCK cpu i s3) })"

text \<open>
  \<open>thread_resume\<close>: the locked part, which tells whether to reschedule, and the whole function,
  which always returns \<open>NO_ERROR\<close>.
\<close>

definition thread_resume_locked :: "nat \<Rightarrow> tid \<Rightarrow> 'a kstate_scheme \<Rightarrow> (bool \<times> 'a kstate_scheme) option" where
  "thread_resume_locked cpu t s = do {
     guard_that (t_magic (threads s t) = THREAD_MAGIC);
     guard_that (t_state (threads s t) \<noteq> THREAD_DEATH);
     let no_ints = ints_disabled s cpu;
     (i, s1) \<leftarrow> THREAD_LOCK cpu s;
     (resched, s2) \<leftarrow>
       (if t_state (threads s1 t) = THREAD_SUSPENDED then do {
          s2 \<leftarrow> insert_in_run_queue_head cpu t (upd_thread t (\<lambda>th. th\<lparr>t_state := THREAD_READY\<rparr>) s1);
          Some (\<not> no_ints, s2) }
        else Some (False, s1));
     Some (resched, THREAD_UNLOCK cpu i (wakeup_cpu_for_thread cpu t s2)) }"

definition thread_resume :: "nat \<Rightarrow> tid \<Rightarrow> 'a kstate_scheme \<Rightarrow> (status \<times> 'a kstate_scheme) option" where
  "thread_resume cpu t s = do {
     (resched, s1) \<leftarrow> thread_resume_locked cpu t s;
     s2 \<leftarrow> (if resched then thread_yield cpu s1 else Some s1);
     Some (NO_ERROR, s2) }"

section \<open>Boot\<close>

definition thread_set_name :: "nat \<Rightarrow> string \<Rightarrow> 'a kstate_scheme \<Rightarrow> 'a kstate_scheme option" where
  "thread_set_name cpu name s = do {
     t \<leftarrow> current s cpu;
     Some (upd_thread t (\<lambda>th. th\<lparr>t_name := copied_name 32 name\<rparr>) s) }"

definition thread_init_early :: "nat \<Rightarrow> 'a kstate_scheme \<Rightarrow> 'a kstate_scheme option" where
  "thread_init_early cpu s = do {
     guard_that (cpu = 0);
     let s1 = s\<lparr>run_queue := (\<lambda>_. []), thread_list := []\<rparr>;
     let t = Idle_thread 0;
     let s2 = init_thread_struct t ''bootstrap'' s1;
     let s3 = upd_thread t (\<lambda>th. th\<lparr>priority := HIGHEST_PRIORITY, t_state := THREAD_RUNNING,
                t_flags := THREAD_FLAG_DETACHED, curr_cpu := 0, pinned_cpu := 0\<rparr>) s2;
     let s4 = wait_queue_init (WQ_retcode t) s3;
     Some (s4\<lparr>thread_list := t # thread_list s4, current := (current s4)(0 := Some t)\<rparr>) }"

definition thread_init :: "nat \<Rightarrow> 'a kstate_scheme \<Rightarrow> 'a kstate_scheme" where
  "thread_init SMP_MAX_CPUS s = fold (\<lambda>i. timer_initialize (TM_preempt i)) [0..<SMP_MAX_CPUS] s"

text \<open>The decimal digits of \<open>%u\<close>, for the names of the idle threads.\<close>

fun nat_str :: "nat \<Rightarrow> string" where
  "nat_str n = (if n < 10 then [char_of (48 + n)] else nat_str (n div 10) @ [char_of (48 + n mod 10)])"

declare nat_str.simps [simp del]

definition idle_name :: "nat \<Rightarrow> string" where
  "idle_name cpu = copied_name 16 (''idle '' @ nat_str cpu)"

definition thread_become_idle :: "nat \<Rightarrow> 'a kstate_scheme \<Rightarrow> 'a kstate_scheme option" where
  "thread_become_idle cpu s = do {
     guard_that (ints_disabled s cpu);
     t \<leftarrow> current s cpu;
     s1 \<leftarrow> thread_set_name cpu (idle_name cpu) s;
     let s2 = upd_thread t (\<lambda>th. th\<lparr>priority := IDLE_PRIORITY,
                t_flags := t_flags th OR THREAD_FLAG_IDLE, pinned_cpu := int cpu\<rparr>) s1;
     let s3 = mp_set_cpu_idle cpu (mp_set_curr_cpu_active cpu True s2);
     thread_yield cpu (s3\<lparr>ints_disabled := (ints_disabled s3)(cpu := False)\<rparr>) }"

definition thread_secondary_cpu_init_early :: "nat \<Rightarrow> 'a kstate_scheme \<Rightarrow> 'a kstate_scheme option" where
  "thread_secondary_cpu_init_early cpu s = do {
     guard_that (ints_disabled s cpu);
     let t = Idle_thread cpu;
     let s1 = init_thread_struct t (idle_name cpu) s;
     let s2 = upd_thread t (\<lambda>th. th\<lparr>priority := HIGHEST_PRIORITY, t_state := THREAD_RUNNING,
                t_flags := THREAD_FLAG_DETACHED OR THREAD_FLAG_IDLE, curr_cpu := int cpu,
                pinned_cpu := int cpu\<rparr>) s1;
     let s3 = wait_queue_init (WQ_retcode t) s2;
     (i, s4) \<leftarrow> THREAD_LOCK cpu s3;
     Some (THREAD_UNLOCK cpu i (s4\<lparr>thread_list := t # thread_list s4,
             current := (current s4)(cpu := Some t)\<rparr>)) }"

definition thread_secondary_cpu_entry :: "nat \<Rightarrow> 'a kstate_scheme \<Rightarrow> 'a kstate_scheme option" where
  "thread_secondary_cpu_entry cpu s = do {
     t \<leftarrow> current s cpu;
     let s1 = upd_thread t (\<lambda>th. th\<lparr>priority := IDLE_PRIORITY\<rparr>) s;
     let s2 = mp_set_cpu_idle cpu (mp_set_curr_cpu_active cpu True s1);
     thread_yield cpu (s2\<lparr>ints_disabled := (ints_disabled s2)(cpu := False)\<rparr>) }"

definition thread_state_to_str :: "thread_state \<Rightarrow> string" where
  "thread_state_to_str st = (case st of
     THREAD_SUSPENDED \<Rightarrow> ''susp'' | THREAD_READY \<Rightarrow> ''rdy'' | THREAD_RUNNING \<Rightarrow> ''run''
   | THREAD_BLOCKED \<Rightarrow> ''blok'' | THREAD_SLEEPING \<Rightarrow> ''slep'' | THREAD_DEATH \<Rightarrow> ''deth'')"

definition thread_stack_used :: "thread \<Rightarrow> nat" where
  "thread_stack_used th =
     stack_size th - length (takeWhile (\<lambda>b. b = STACK_DEBUG_BYTE) (take (stack_size th) (stack_mem th)))"

end
