(* ===== verification/Sched_Inv.thy ===== *)
theory Sched_Inv
  imports Thread
begin

text \<open>
  The invariant of the scheduler's queues: a live thread is in the run queue of its priority exactly
  when it is ready and not idle, in a wait queue exactly when it is blocked there, and the bitmap has
  the bit of a run queue exactly when the queue is not empty. The threads of a set \<open>D\<close> are between
  queues: code that moves a thread takes it into \<open>D\<close> and puts it back. Each primitive of the
  scheduler is shown to keep the invariant and to run without fault.
\<close>

section \<open>Projections of the updates\<close>

lemma upd_thread_simps [simp]:
  "threads (upd_thread t f s) = (threads s)(t := f (threads s t))"
  "current (upd_thread t f s) = current s" "run_queue (upd_thread t f s) = run_queue s"
  "run_queue_bitmap (upd_thread t f s) = run_queue_bitmap s" "thread_list (upd_thread t f s) = thread_list s"
  "wqs (upd_thread t f s) = wqs s" "thread_lock (upd_thread t f s) = thread_lock s"
  "ints_disabled (upd_thread t f s) = ints_disabled s" "active_cpus (upd_thread t f s) = active_cpus s"
  "idle_cpus (upd_thread t f s) = idle_cpus s" "realtime_cpus (upd_thread t f s) = realtime_cpus s"
  "ipi_pending (upd_thread t f s) = ipi_pending s" "now_hires (upd_thread t f s) = now_hires s"
  "mmu_aspace (upd_thread t f s) = mmu_aspace s" "freed (upd_thread t f s) = freed s"
  "delayed_free (upd_thread t f s) = delayed_free s" "kstate.more (upd_thread t f s) = kstate.more s"
  "timers (upd_thread t f s) = timers s" "timer_queue (upd_thread t f s) = timer_queue s"
  "cur_time (upd_thread t f s) = cur_time s" "hw_timer (upd_thread t f s) = hw_timer s"
  "stats (upd_thread t f s) = stats s"
  by (simp_all add: upd_thread_def)

lemma upd_wq_simps [simp]:
  "wqs (upd_wq w f s) = (wqs s)(w := f (wqs s w))" "threads (upd_wq w f s) = threads s"
  "current (upd_wq w f s) = current s" "run_queue (upd_wq w f s) = run_queue s"
  "run_queue_bitmap (upd_wq w f s) = run_queue_bitmap s" "thread_list (upd_wq w f s) = thread_list s"
  "thread_lock (upd_wq w f s) = thread_lock s"
  "ints_disabled (upd_wq w f s) = ints_disabled s" "active_cpus (upd_wq w f s) = active_cpus s"
  "idle_cpus (upd_wq w f s) = idle_cpus s" "realtime_cpus (upd_wq w f s) = realtime_cpus s"
  "ipi_pending (upd_wq w f s) = ipi_pending s" "now_hires (upd_wq w f s) = now_hires s"
  "mmu_aspace (upd_wq w f s) = mmu_aspace s" "freed (upd_wq w f s) = freed s"
  "delayed_free (upd_wq w f s) = delayed_free s" "kstate.more (upd_wq w f s) = kstate.more s"
  "timers (upd_wq w f s) = timers s" "timer_queue (upd_wq w f s) = timer_queue s"
  "cur_time (upd_wq w f s) = cur_time s" "hw_timer (upd_wq w f s) = hw_timer s"
  "stats (upd_wq w f s) = stats s"
  by (simp_all add: upd_wq_def)

text \<open>What only touches timers and statistics leaves the thread state alone.\<close>

lemma timer_more_kstate:
  fixes s s' :: "'a kstate_scheme"
  assumes "timer_state.more s' = timer_state.more s"
  shows "threads s' = threads s" "current s' = current s" "run_queue s' = run_queue s"
    "run_queue_bitmap s' = run_queue_bitmap s" "thread_list s' = thread_list s" "wqs s' = wqs s"
    "thread_lock s' = thread_lock s" "ints_disabled s' = ints_disabled s" "active_cpus s' = active_cpus s"
    "idle_cpus s' = idle_cpus s" "realtime_cpus s' = realtime_cpus s" "ipi_pending s' = ipi_pending s"
    "now_hires s' = now_hires s" "mmu_aspace s' = mmu_aspace s" "freed s' = freed s"
    "delayed_free s' = delayed_free s" "kstate.more s' = kstate.more s"
  using assms by (cases s; cases s'; simp)+

lemma upd_stats_kstate [simp]:
  "threads (upd_stats c f s) = threads s" "current (upd_stats c f s) = current s"
  "run_queue (upd_stats c f s) = run_queue s" "run_queue_bitmap (upd_stats c f s) = run_queue_bitmap s"
  "thread_list (upd_stats c f s) = thread_list s" "wqs (upd_stats c f s) = wqs s"
  "thread_lock (upd_stats c f s) = thread_lock s" "ints_disabled (upd_stats c f s) = ints_disabled s"
  "active_cpus (upd_stats c f s) = active_cpus s" "idle_cpus (upd_stats c f s) = idle_cpus s"
  "realtime_cpus (upd_stats c f s) = realtime_cpus s" "ipi_pending (upd_stats c f s) = ipi_pending s"
  "now_hires (upd_stats c f s) = now_hires s" "mmu_aspace (upd_stats c f s) = mmu_aspace s"
  "freed (upd_stats c f s) = freed s" "delayed_free (upd_stats c f s) = delayed_free s"
  "kstate.more (upd_stats c f s) = kstate.more s"
  by (rule timer_more_kstate; simp)+

section \<open>The invariant\<close>

abbreviation live :: "'a kstate_scheme \<Rightarrow> tid \<Rightarrow> bool" where
  "live s t \<equiv> t_magic (threads s t) = THREAD_MAGIC"

definition runnable :: "thread \<Rightarrow> bool" where
  "runnable th \<longleftrightarrow> t_state th = THREAD_READY \<and> \<not> thread_is_idle th"

definition sched_inv :: "tid set \<Rightarrow> 'a kstate_scheme \<Rightarrow> bool" where
  "sched_inv D s \<longleftrightarrow>
     (\<forall>p. distinct (run_queue s p) \<and> (bit (run_queue_bitmap s) p \<longleftrightarrow> run_queue s p \<noteq> [])) \<and>
     (\<forall>p t. t \<in> set (run_queue s p) \<longleftrightarrow>
        t \<notin> D \<and> live s t \<and> runnable (threads s t) \<and> priority (threads s t) = int p) \<and>
     (\<forall>w. distinct (wq_list (wqs s w)) \<and> wq_count (wqs s w) = int (length (wq_list (wqs s w)))) \<and>
     (\<forall>w t. t \<in> set (wq_list (wqs s w)) \<longleftrightarrow>
        t \<notin> D \<and> live s t \<and> t_state (threads s t) = THREAD_BLOCKED \<and>
        blocking_wait_queue (threads s t) = Some w) \<and>
     (\<forall>t. live s t \<longrightarrow> t \<notin> D \<longrightarrow> t_state (threads s t) = THREAD_BLOCKED \<longrightarrow>
        (\<exists>w. blocking_wait_queue (threads s t) = Some w \<and> wq_magic (wqs s w) = WAIT_QUEUE_MAGIC)) \<and>
     (\<forall>t. live s t \<longrightarrow> (queue_node (threads s t) \<longleftrightarrow>
        t \<notin> D \<and> (runnable (threads s t) \<or> t_state (threads s t) = THREAD_BLOCKED))) \<and>
     (\<forall>t. live s t \<longrightarrow> t \<notin> D \<longrightarrow> 0 \<le> priority (threads s t) \<and> priority (threads s t) < 32)"

lemma sched_invD:
  assumes "sched_inv D s"
  shows "distinct (run_queue s p)" "bit (run_queue_bitmap s) p \<longleftrightarrow> run_queue s p \<noteq> []"
    "t \<in> set (run_queue s p) \<longleftrightarrow>
        t \<notin> D \<and> live s t \<and> runnable (threads s t) \<and> priority (threads s t) = int p"
    "distinct (wq_list (wqs s w))" "wq_count (wqs s w) = int (length (wq_list (wqs s w)))"
    "t \<in> set (wq_list (wqs s w)) \<longleftrightarrow>
        t \<notin> D \<and> live s t \<and> t_state (threads s t) = THREAD_BLOCKED \<and> blocking_wait_queue (threads s t) = Some w"
    "live s t \<Longrightarrow> t \<notin> D \<Longrightarrow> t_state (threads s t) = THREAD_BLOCKED \<Longrightarrow>
        \<exists>w. blocking_wait_queue (threads s t) = Some w \<and> wq_magic (wqs s w) = WAIT_QUEUE_MAGIC"
    "live s t \<Longrightarrow> queue_node (threads s t) \<longleftrightarrow>
        t \<notin> D \<and> (runnable (threads s t) \<or> t_state (threads s t) = THREAD_BLOCKED)"
    "live s t \<Longrightarrow> t \<notin> D \<Longrightarrow> 0 \<le> priority (threads s t) \<and> priority (threads s t) < 32"
  using assms unfolding sched_inv_def by blast+

lemma sched_invI:
  assumes "\<And>p. distinct (run_queue s p)" "\<And>p. bit (run_queue_bitmap s) p \<longleftrightarrow> run_queue s p \<noteq> []"
    "\<And>t p. t \<in> set (run_queue s p) \<longleftrightarrow>
        t \<notin> D \<and> live s t \<and> runnable (threads s t) \<and> priority (threads s t) = int p"
    "\<And>w. distinct (wq_list (wqs s w))" "\<And>w. wq_count (wqs s w) = int (length (wq_list (wqs s w)))"
    "\<And>t w. t \<in> set (wq_list (wqs s w)) \<longleftrightarrow>
        t \<notin> D \<and> live s t \<and> t_state (threads s t) = THREAD_BLOCKED \<and> blocking_wait_queue (threads s t) = Some w"
    "\<And>t. live s t \<Longrightarrow> t \<notin> D \<Longrightarrow> t_state (threads s t) = THREAD_BLOCKED \<Longrightarrow>
        \<exists>w. blocking_wait_queue (threads s t) = Some w \<and> wq_magic (wqs s w) = WAIT_QUEUE_MAGIC"
    "\<And>t. live s t \<Longrightarrow> queue_node (threads s t) \<longleftrightarrow>
        t \<notin> D \<and> (runnable (threads s t) \<or> t_state (threads s t) = THREAD_BLOCKED)"
    "\<And>t. live s t \<Longrightarrow> t \<notin> D \<Longrightarrow> 0 \<le> priority (threads s t) \<and> priority (threads s t) < 32"
  shows "sched_inv D s"
  unfolding sched_inv_def using assms by simp

text \<open>The invariant reads the threads' queue-related fields, the queues and the bitmap.\<close>

definition sched_view :: "thread \<Rightarrow> nat \<times> bool \<times> int \<times> thread_state \<times> bool \<times> wqid option" where
  "sched_view th = (t_magic th, queue_node th, priority th, t_state th, thread_is_idle th, blocking_wait_queue th)"

lemma sched_inv_cong:
  assumes "\<And>t. sched_view (threads s' t) = sched_view (threads s t)"
    "run_queue s' = run_queue s" "run_queue_bitmap s' = run_queue_bitmap s" "wqs s' = wqs s"
  shows "sched_inv D s' = sched_inv D s"
proof -
  have v: "t_magic (threads s' t) = t_magic (threads s t)" "queue_node (threads s' t) = queue_node (threads s t)"
    "priority (threads s' t) = priority (threads s t)" "t_state (threads s' t) = t_state (threads s t)"
    "thread_is_idle (threads s' t) = thread_is_idle (threads s t)"
    "blocking_wait_queue (threads s' t) = blocking_wait_queue (threads s t)" for t
    using assms(1) [of t] by (simp_all add: sched_view_def)
  show ?thesis by (simp add: sched_inv_def runnable_def v assms(2-))
qed

section \<open>Moving a thread out of and into the queues\<close>

lemma sched_inv_out:
  assumes "sched_inv D s" "\<not> runnable (threads s t)" "t_state (threads s t) \<noteq> THREAD_BLOCKED"
  shows "sched_inv (insert t D) s"
  using assms unfolding sched_inv_def by auto

lemma sched_inv_in:
  assumes inv: "sched_inv D s" and t: "\<not> runnable (threads s t)" "t_state (threads s t) \<noteq> THREAD_BLOCKED"
    "live s t \<Longrightarrow> 0 \<le> priority (threads s t) \<and> priority (threads s t) < 32"
  shows "sched_inv (D - {t}) s"
  using assms unfolding sched_inv_def by auto

lemma sched_inv_upd:
  assumes inv: "sched_inv D s" and t: "t \<in> D" "t_magic (f (threads s t)) = THREAD_MAGIC \<Longrightarrow> \<not> queue_node (f (threads s t))"
  shows "sched_inv D (upd_thread t f s)"
proof (rule sched_invI)
  note I = sched_invD [OF inv]
  show "x \<in> set (run_queue (upd_thread t f s) p) \<longleftrightarrow> x \<notin> D \<and> live (upd_thread t f s) x \<and>
      runnable (threads (upd_thread t f s) x) \<and> priority (threads (upd_thread t f s) x) = int p" for x p
    using I(3) [of x p] t by auto
  show "x \<in> set (wq_list (wqs (upd_thread t f s) w)) \<longleftrightarrow> x \<notin> D \<and> live (upd_thread t f s) x \<and>
      t_state (threads (upd_thread t f s) x) = THREAD_BLOCKED \<and>
      blocking_wait_queue (threads (upd_thread t f s) x) = Some w" for x w
    using I(6) [of x w] t by auto
  show "\<exists>w. blocking_wait_queue (threads (upd_thread t f s) x) = Some w \<and>
      wq_magic (wqs (upd_thread t f s) w) = WAIT_QUEUE_MAGIC"
    if "live (upd_thread t f s) x" "x \<notin> D" "t_state (threads (upd_thread t f s) x) = THREAD_BLOCKED" for x
    using I(7) [of x] t that by auto
  show "queue_node (threads (upd_thread t f s) x) \<longleftrightarrow> x \<notin> D \<and> (runnable (threads (upd_thread t f s) x) \<or>
      t_state (threads (upd_thread t f s) x) = THREAD_BLOCKED)" if "live (upd_thread t f s) x" for x
    using I(8) [of x] t that by (cases "x = t") auto
  show "0 \<le> priority (threads (upd_thread t f s) x) \<and> priority (threads (upd_thread t f s) x) < 32"
    if "live (upd_thread t f s) x" "x \<notin> D" for x
    using I(9) [of x] t that by (cases "x = t") auto
qed (use sched_invD [OF inv] in auto)

section \<open>Entering a run queue\<close>

text \<open>The state after an insertion, at either end of the queue of the thread's priority.\<close>

definition enqueued :: "(tid list \<Rightarrow> tid list) \<Rightarrow> tid \<Rightarrow> 'a kstate_scheme \<Rightarrow> 'a kstate_scheme" where
  "enqueued ins t s =
     (let p = nat (priority (threads s t))
      in upd_thread t (\<lambda>th. th\<lparr>queue_node := True\<rparr>)
           (s\<lparr>run_queue := (run_queue s)(p := ins (run_queue s p)),
              run_queue_bitmap := run_queue_bitmap s OR push_bit p 1\<rparr>))"

lemma enqueued_simps [simp]:
  "threads (enqueued ins t s) = (threads s)(t := (threads s t)\<lparr>queue_node := True\<rparr>)"
  "run_queue (enqueued ins t s) = (run_queue s)(nat (priority (threads s t)) := ins (run_queue s (nat (priority (threads s t)))))"
  "run_queue_bitmap (enqueued ins t s) = run_queue_bitmap s OR push_bit (nat (priority (threads s t))) 1"
  "current (enqueued ins t s) = current s" "thread_list (enqueued ins t s) = thread_list s"
  "wqs (enqueued ins t s) = wqs s" "thread_lock (enqueued ins t s) = thread_lock s"
  "ints_disabled (enqueued ins t s) = ints_disabled s" "active_cpus (enqueued ins t s) = active_cpus s"
  "idle_cpus (enqueued ins t s) = idle_cpus s" "realtime_cpus (enqueued ins t s) = realtime_cpus s"
  "ipi_pending (enqueued ins t s) = ipi_pending s" "now_hires (enqueued ins t s) = now_hires s"
  "mmu_aspace (enqueued ins t s) = mmu_aspace s" "freed (enqueued ins t s) = freed s"
  "delayed_free (enqueued ins t s) = delayed_free s" "kstate.more (enqueued ins t s) = kstate.more s"
  "timers (enqueued ins t s) = timers s" "timer_queue (enqueued ins t s) = timer_queue s"
  "cur_time (enqueued ins t s) = cur_time s" "hw_timer (enqueued ins t s) = hw_timer s"
  by (simp_all add: enqueued_def Let_def)

lemma insert_in_run_queue_head_enqueued:
  assumes "live s t" "t_state (threads s t) = THREAD_READY" "\<not> queue_node (threads s t)"
    "ints_disabled s cpu" "thread_lock s" "0 \<le> priority (threads s t) \<and> priority (threads s t) < 32"
  shows "insert_in_run_queue_head cpu t s = Some (enqueued (\<lambda>q. t # q) t s)"
  using assms by (simp add: insert_in_run_queue_head_def enqueued_def Let_def)

lemma insert_in_run_queue_tail_enqueued:
  assumes "live s t" "t_state (threads s t) = THREAD_READY" "\<not> queue_node (threads s t)"
    "ints_disabled s cpu" "thread_lock s" "0 \<le> priority (threads s t) \<and> priority (threads s t) < 32"
  shows "insert_in_run_queue_tail cpu t s = Some (enqueued (\<lambda>q. q @ [t]) t s)"
  using assms by (simp add: insert_in_run_queue_tail_def enqueued_def Let_def)

lemma sched_inv_enqueued:
  assumes inv: "sched_inv D s" and t: "t \<in> D" "live s t" "runnable (threads s t)"
    and pr: "0 \<le> priority (threads s t)" "priority (threads s t) < 32"
    and ins: "\<And>q. set (ins q) = insert t (set q)" "\<And>q. t \<notin> set q \<Longrightarrow> distinct q \<Longrightarrow> distinct (ins q)"
  shows "sched_inv (D - {t}) (enqueued ins t s)"
proof (rule sched_invI)
  note I = sched_invD [OF inv]
  let ?p = "nat (priority (threads s t))"
  have out: "t \<notin> set (run_queue s p)" for p using I(3) t by blast
  have outw: "t \<notin> set (wq_list (wqs s w))" for w using I(6) t by blast
  have ne: "ins q \<noteq> []" for q using ins(1) [of q] by (metis empty_not_insert list.set(1))
  show "distinct (run_queue (enqueued ins t s) p)" for p using I(1) ins(2) out by simp
  show "bit (run_queue_bitmap (enqueued ins t s)) p \<longleftrightarrow> run_queue (enqueued ins t s) p \<noteq> []" for p
    using I(2) [of p] ne pr by (auto simp: bit_simps)
  show "x \<in> set (run_queue (enqueued ins t s) p) \<longleftrightarrow> x \<notin> D - {t} \<and> live (enqueued ins t s) x \<and>
      runnable (threads (enqueued ins t s) x) \<and> priority (threads (enqueued ins t s) x) = int p" for x p
    using I(3) [of x p] t pr ins(1) out
    by (cases "x = t"; cases "p = ?p") (simp_all add: runnable_def thread_is_idle_def has_flag_def)
  show "x \<in> set (wq_list (wqs (enqueued ins t s) w)) \<longleftrightarrow> x \<notin> D - {t} \<and> live (enqueued ins t s) x \<and>
      t_state (threads (enqueued ins t s) x) = THREAD_BLOCKED \<and>
      blocking_wait_queue (threads (enqueued ins t s) x) = Some w" for x w
    using I(6) [of x w] t outw by (auto simp: runnable_def)
  show "\<exists>w. blocking_wait_queue (threads (enqueued ins t s) x) = Some w \<and> wq_magic (wqs (enqueued ins t s) w) = WAIT_QUEUE_MAGIC"
    if "live (enqueued ins t s) x" "x \<notin> D - {t}" "t_state (threads (enqueued ins t s) x) = THREAD_BLOCKED" for x
    using I(7) [of x] t that by (cases "x = t") (simp_all add: runnable_def)
  show "queue_node (threads (enqueued ins t s) x) \<longleftrightarrow> x \<notin> D - {t} \<and> (runnable (threads (enqueued ins t s) x) \<or>
      t_state (threads (enqueued ins t s) x) = THREAD_BLOCKED)" if "live (enqueued ins t s) x" for x
    using I(8) [of x] t that by (cases "x = t") (auto simp: runnable_def thread_is_idle_def has_flag_def)
  show "0 \<le> priority (threads (enqueued ins t s) x) \<and> priority (threads (enqueued ins t s) x) < 32"
    if "live (enqueued ins t s) x" "x \<notin> D - {t}" for x
    using I(9) [of x] pr that by (cases "x = t") auto
qed (use sched_invD [OF inv] in auto)

lemmas sched_inv_head = sched_inv_enqueued [where ins = "\<lambda>q. t # q" and t = t for t, simplified]
lemmas sched_inv_tail = sched_inv_enqueued [where ins = "\<lambda>q. q @ [t]" and t = t for t, simplified]

section \<open>Leaving a run queue\<close>

lemma take_from_run_queue_simps [simp]:
  "threads (take_from_run_queue q t s) = (threads s)(t := (threads s t)\<lparr>queue_node := False\<rparr>)"
  "run_queue (take_from_run_queue q t s) = (run_queue s)(q := remove1 t (run_queue s q))"
  "current (take_from_run_queue q t s) = current s" "thread_list (take_from_run_queue q t s) = thread_list s"
  "wqs (take_from_run_queue q t s) = wqs s" "thread_lock (take_from_run_queue q t s) = thread_lock s"
  "ints_disabled (take_from_run_queue q t s) = ints_disabled s" "active_cpus (take_from_run_queue q t s) = active_cpus s"
  "idle_cpus (take_from_run_queue q t s) = idle_cpus s" "realtime_cpus (take_from_run_queue q t s) = realtime_cpus s"
  "ipi_pending (take_from_run_queue q t s) = ipi_pending s" "now_hires (take_from_run_queue q t s) = now_hires s"
  "mmu_aspace (take_from_run_queue q t s) = mmu_aspace s" "freed (take_from_run_queue q t s) = freed s"
  "delayed_free (take_from_run_queue q t s) = delayed_free s" "kstate.more (take_from_run_queue q t s) = kstate.more s"
  "timers (take_from_run_queue q t s) = timers s" "timer_queue (take_from_run_queue q t s) = timer_queue s"
  "cur_time (take_from_run_queue q t s) = cur_time s" "hw_timer (take_from_run_queue q t s) = hw_timer s"
  by (simp_all add: take_from_run_queue_def Let_def)

lemma take_from_run_queue_bitmap:
  "bit (run_queue_bitmap (take_from_run_queue q t s)) p \<longleftrightarrow>
     bit (run_queue_bitmap s) p \<and> \<not> (p = q \<and> remove1 t (run_queue s q) = [])"
  by (auto simp: take_from_run_queue_def Let_def bit_simps dest: bit_word32_bound)

lemma sched_inv_take:
  assumes inv: "sched_inv D s" and t: "t \<in> set (run_queue s q)"
  shows "sched_inv (insert t D) (take_from_run_queue q t s)" (is "sched_inv _ ?s'")
proof (rule sched_invI)
  note I = sched_invD [OF inv]
  have tq: "t \<notin> D" "live s t" "runnable (threads s t)" "priority (threads s t) = int q" using I(3) t by blast+
  have other: "x \<in> set (run_queue s p) \<Longrightarrow> x = t \<Longrightarrow> p = q" for x p using I(3) [of x p] tq by simp
  show "distinct (run_queue ?s' p)" for p using I(1) by (simp add: distinct_remove1)
  show "bit (run_queue_bitmap ?s') p \<longleftrightarrow> run_queue ?s' p \<noteq> []" for p
    using I(2) [of p] by (auto simp: take_from_run_queue_bitmap)
  show "x \<in> set (run_queue ?s' p) \<longleftrightarrow> x \<notin> insert t D \<and> live ?s' x \<and>
      runnable (threads ?s' x) \<and> priority (threads ?s' x) = int p" for x p
    using I(3) [of x p] I(1) other by auto
  show "x \<in> set (wq_list (wqs ?s' w)) \<longleftrightarrow> x \<notin> insert t D \<and> live ?s' x \<and>
      t_state (threads ?s' x) = THREAD_BLOCKED \<and> blocking_wait_queue (threads ?s' x) = Some w" for x w
    using I(6) [of x w] tq by (auto simp: runnable_def)
  show "\<exists>w. blocking_wait_queue (threads ?s' x) = Some w \<and> wq_magic (wqs ?s' w) = WAIT_QUEUE_MAGIC"
    if "live ?s' x" "x \<notin> insert t D" "t_state (threads ?s' x) = THREAD_BLOCKED" for x
    using I(7) [of x] that by simp
  show "queue_node (threads ?s' x) \<longleftrightarrow> x \<notin> insert t D \<and> (runnable (threads ?s' x) \<or>
      t_state (threads ?s' x) = THREAD_BLOCKED)" if "live ?s' x" for x
    using I(8) [of x] that by (cases "x = t") auto
  show "0 \<le> priority (threads ?s' x) \<and> priority (threads ?s' x) < 32" if "live ?s' x" "x \<notin> insert t D" for x
    using I(9) [of x] that by simp
qed (use sched_invD [OF inv] in auto)

section \<open>Wait queues\<close>

definition wq_remove :: "tid \<Rightarrow> wait_queue \<Rightarrow> wait_queue" where
  "wq_remove t q = q\<lparr>wq_list := remove1 t (wq_list q), wq_count := wq_count q - 1\<rparr>"

lemma upd_wq_pop:
  "wq_list (wqs s w) = t # rest \<Longrightarrow>
     upd_wq w (\<lambda>q. q\<lparr>wq_list := rest, wq_count := wq_count q - 1\<rparr>) s = upd_wq w (wq_remove t) s"
  by (simp add: upd_wq_def wq_remove_def)

lemma sched_inv_unwait:
  assumes inv: "sched_inv D s" and t: "t \<in> set (wq_list (wqs s w))" and f: "\<not> queue_node (f (threads s t))"
  shows "sched_inv (insert t D) (upd_thread t f (upd_wq w (wq_remove t) s))" (is "sched_inv _ ?s'")
proof (rule sched_invI)
  note I = sched_invD [OF inv]
  have tq: "t \<notin> D" "live s t" "t_state (threads s t) = THREAD_BLOCKED" "blocking_wait_queue (threads s t) = Some w"
    using I(6) t by blast+
  have notrq: "t \<notin> set (run_queue s p)" for p using I(3) [of t p] tq by (simp add: runnable_def)
  have notwq: "v \<noteq> w \<Longrightarrow> t \<notin> set (wq_list (wqs s v))" for v using I(6) [of t v] tq by simp
  show "x \<in> set (run_queue ?s' p) \<longleftrightarrow> x \<notin> insert t D \<and> live ?s' x \<and>
      runnable (threads ?s' x) \<and> priority (threads ?s' x) = int p" for x p
    using I(3) [of x p] notrq by (cases "x = t") simp_all
  show "distinct (wq_list (wqs ?s' v))" for v using I(4) by (simp add: wq_remove_def distinct_remove1)
  have "int (length (wq_list (wqs s w)) - 1) = int (length (wq_list (wqs s w))) - 1"
    using t by (cases "wq_list (wqs s w)") auto
  then show "wq_count (wqs ?s' v) = int (length (wq_list (wqs ?s' v)))" for v
    using I(5) t by (auto simp: wq_remove_def length_remove1)
  show "x \<in> set (wq_list (wqs ?s' v)) \<longleftrightarrow> x \<notin> insert t D \<and> live ?s' x \<and>
      t_state (threads ?s' x) = THREAD_BLOCKED \<and> blocking_wait_queue (threads ?s' x) = Some v" for x v
    using I(6) [of x v] I(4) [of v] notwq by (cases "x = t"; cases "v = w") (simp_all add: wq_remove_def)
  show "\<exists>v. blocking_wait_queue (threads ?s' x) = Some v \<and> wq_magic (wqs ?s' v) = WAIT_QUEUE_MAGIC"
    if "live ?s' x" "x \<notin> insert t D" "t_state (threads ?s' x) = THREAD_BLOCKED" for x
    using I(7) [of x] that by (auto simp: wq_remove_def)
  show "queue_node (threads ?s' x) \<longleftrightarrow> x \<notin> insert t D \<and> (runnable (threads ?s' x) \<or>
      t_state (threads ?s' x) = THREAD_BLOCKED)" if "live ?s' x" for x
    using I(8) [of x] that f by (cases "x = t") auto
  show "0 \<le> priority (threads ?s' x) \<and> priority (threads ?s' x) < 32" if "live ?s' x" "x \<notin> insert t D" for x
    using I(9) [of x] that by simp
qed (use sched_invD [OF inv] in auto)

lemma sched_inv_wait:
  assumes inv: "sched_inv D s" and t: "t \<in> D"
    and f: "queue_node (f (threads s t))" "t_state (f (threads s t)) = THREAD_BLOCKED"
      "blocking_wait_queue (f (threads s t)) = Some w" "t_magic (f (threads s t)) = THREAD_MAGIC"
      "0 \<le> priority (f (threads s t)) \<and> priority (f (threads s t)) < 32"
    and w: "wq_magic (wqs s w) = WAIT_QUEUE_MAGIC"
  shows "sched_inv (D - {t}) (upd_thread t f
           (upd_wq w (\<lambda>q. q\<lparr>wq_list := wq_list q @ [t], wq_count := wq_count q + 1\<rparr>) s))" (is "sched_inv _ ?s'")
proof (rule sched_invI)
  note I = sched_invD [OF inv]
  have notrq: "t \<notin> set (run_queue s p)" for p using I(3) [of t p] t by simp
  have notwq: "t \<notin> set (wq_list (wqs s v))" for v using I(6) [of t v] t by simp
  show "x \<in> set (run_queue ?s' p) \<longleftrightarrow> x \<notin> D - {t} \<and> live ?s' x \<and>
      runnable (threads ?s' x) \<and> priority (threads ?s' x) = int p" for x p
    using I(3) [of x p] notrq f by (cases "x = t") (simp_all add: runnable_def)
  show "distinct (wq_list (wqs ?s' v))" for v using I(4) notwq by simp
  show "wq_count (wqs ?s' v) = int (length (wq_list (wqs ?s' v)))" for v using I(5) by simp
  show "x \<in> set (wq_list (wqs ?s' v)) \<longleftrightarrow> x \<notin> D - {t} \<and> live ?s' x \<and>
      t_state (threads ?s' x) = THREAD_BLOCKED \<and> blocking_wait_queue (threads ?s' x) = Some v" for x v
    using I(6) [of x v] notwq f by (cases "x = t"; cases "v = w") auto
  show "\<exists>v. blocking_wait_queue (threads ?s' x) = Some v \<and> wq_magic (wqs ?s' v) = WAIT_QUEUE_MAGIC"
    if "live ?s' x" "x \<notin> D - {t}" "t_state (threads ?s' x) = THREAD_BLOCKED" for x
    using I(7) [of x] that f w by (cases "x = t") auto
  show "queue_node (threads ?s' x) \<longleftrightarrow> x \<notin> D - {t} \<and> (runnable (threads ?s' x) \<or>
      t_state (threads ?s' x) = THREAD_BLOCKED)" if "live ?s' x" for x
    using I(8) [of x] that f by (cases "x = t") auto
  show "0 \<le> priority (threads ?s' x) \<and> priority (threads ?s' x) < 32" if "live ?s' x" "x \<notin> D - {t}" for x
    using I(9) [of x] that f by (cases "x = t") auto
qed (use sched_invD [OF inv] in auto)

section \<open>The choice of the next thread\<close>

lemma top_bit_clear:
  assumes "top_bit w m"
  shows "bit (w AND NOT (2 ^ m)) p \<longleftrightarrow> bit w p \<and> p \<noteq> m"
  using assms by (auto simp: bit_simps top_bit_def dest: bit_word32_bound)

lemma get_top_loop_Some:
  "get_top_loop cpu bitmap s = Some (t, q) \<Longrightarrow>
     bit bitmap q \<and> List.find (\<lambda>t. eligible cpu (threads s t)) (run_queue s q) = Some t \<and>
     (\<forall>p > q. bit bitmap p \<longrightarrow> (\<forall>u \<in> set (run_queue s p). \<not> eligible cpu (threads s u)))"
proof (induction cpu bitmap s arbitrary: t q rule: get_top_loop.induct)
  case (1 cpu bitmap s)
  have nz: "bitmap \<noteq> 0" using "1.prems" get_top_loop.simps [of cpu bitmap s] by auto
  let ?m = "31 - builtin_clz bitmap"
  have tb: "top_bit bitmap ?m" using nz by (rule top_bit_clz)
  show ?case
  proof (cases "List.find (\<lambda>t. eligible cpu (threads s t)) (run_queue s ?m)")
    case (Some u)
    then have "u = t \<and> ?m = q" using "1.prems" nz get_top_loop.simps [of cpu bitmap s] by (simp add: Let_def)
    with Some tb show ?thesis by (auto simp: top_bit_def)
  next
    case None
    then have rec: "get_top_loop cpu (bitmap AND NOT (2 ^ ?m)) s = Some (t, q)"
      using "1.prems" nz get_top_loop.simps [of cpu bitmap s] by (simp add: Let_def)
    have "bit (bitmap AND NOT (2 ^ ?m)) q \<and> List.find (\<lambda>t. eligible cpu (threads s t)) (run_queue s q) = Some t \<and>
     (\<forall>p > q. bit (bitmap AND NOT (2 ^ ?m)) p \<longrightarrow> (\<forall>u \<in> set (run_queue s p). \<not> eligible cpu (threads s u)))"
      using "1.IH" [OF nz, of ?m t q] None rec by simp
    moreover have "\<forall>u \<in> set (run_queue s ?m). \<not> eligible cpu (threads s u)"
      using None by (simp add: find_None_iff)
    ultimately show ?thesis by (auto simp: top_bit_clear [OF tb])
  qed
qed

lemma get_top_loop_None:
  "get_top_loop cpu bitmap s = None \<Longrightarrow> bit bitmap p \<Longrightarrow> u \<in> set (run_queue s p) \<Longrightarrow> \<not> eligible cpu (threads s u)"
proof (induction cpu bitmap s rule: get_top_loop.induct)
  case (1 cpu bitmap s)
  have nz: "bitmap \<noteq> 0" using "1.prems" by auto
  let ?m = "31 - builtin_clz bitmap"
  have tb: "top_bit bitmap ?m" using nz by (rule top_bit_clz)
  have f: "List.find (\<lambda>t. eligible cpu (threads s t)) (run_queue s ?m) = None"
    using "1.prems"(1) nz get_top_loop.simps [of cpu bitmap s] by (auto simp: Let_def split: option.splits)
  then have rec: "get_top_loop cpu (bitmap AND NOT (2 ^ ?m)) s = None"
    using "1.prems"(1) nz get_top_loop.simps [of cpu bitmap s] by (simp add: Let_def)
  show ?case
  proof (cases "p = ?m")
    case True
    then show ?thesis using f "1.prems"(3) by (simp add: find_None_iff)
  next
    case False
    then show ?thesis using "1.IH" [OF nz, of ?m] f rec "1.prems"(2,3) by (simp add: top_bit_clear [OF tb])
  qed
qed

text \<open>
  What \<open>get_top_thread\<close> gives on a well-formed state: a ready thread allowed on this cpu such that no
  allowed ready thread has a higher priority, or the idle thread when there is none.
\<close>

lemma get_top_thread_cases:
  assumes inv: "sched_inv D s"
  obtains (idle) "get_top_thread cpu s = (Idle_thread cpu, s)"
      "\<And>u. u \<notin> D \<Longrightarrow> live s u \<Longrightarrow> runnable (threads s u) \<Longrightarrow> \<not> eligible cpu (threads s u)"
    | (ready) t q where "get_top_thread cpu s = (t, take_from_run_queue q t s)" "t \<in> set (run_queue s q)"
      "eligible cpu (threads s t)"
      "List.find (\<lambda>t. eligible cpu (threads s t)) (run_queue s q) = Some t"
      "\<And>u. u \<notin> D \<Longrightarrow> live s u \<Longrightarrow> runnable (threads s u) \<Longrightarrow> eligible cpu (threads s u) \<Longrightarrow>
         priority (threads s u) \<le> priority (threads s t)"
proof (cases "get_top_loop cpu (run_queue_bitmap s) s")
  case None
  have "\<not> eligible cpu (threads s u)" if u: "u \<notin> D" "live s u" "runnable (threads s u)" for u
  proof -
    have "u \<in> set (run_queue s (nat (priority (threads s u))))"
      using sched_invD(3,9) [OF inv] u by simp
    then show ?thesis using get_top_loop_None [OF None] sched_invD(2) [OF inv] by fastforce
  qed
  then show ?thesis using idle None by (simp add: get_top_thread_def)
next
  case (Some tq)
  obtain t q where tq: "tq = (t, q)" by fastforce
  note S = get_top_loop_Some [OF Some [unfolded tq]]
  have t: "t \<in> set (run_queue s q)" "eligible cpu (threads s t)"
    using S by (auto simp: find_Some_iff)
  have "priority (threads s u) \<le> priority (threads s t)"
    if u: "u \<notin> D" "live s u" "runnable (threads s u)" "eligible cpu (threads s u)" for u
  proof (rule ccontr)
    assume a: "\<not> ?thesis"
    let ?p = "nat (priority (threads s u))"
    have uq: "u \<in> set (run_queue s ?p)" using sched_invD(3,9) [OF inv] u by simp
    have "priority (threads s t) = int q" using sched_invD(3) [OF inv] t by blast
    then have "q < ?p" using a by simp
    moreover have "bit (run_queue_bitmap s) ?p" using sched_invD(2) [OF inv] uq by force
    ultimately show False using S uq u(4) by blast
  qed
  then show ?thesis using ready [of t q] S t Some tq by (simp add: get_top_thread_def)
qed

end
