(* ===== verification/Kernel_Inv.thy ===== *)
theory Kernel_Inv
  imports Sched_Inv
begin

text \<open>
  The invariant of the whole thread system, in three forms: at rest (the thread lock is free), in the
  locked region just before a context switch, and just after it; and the theorem that
  \<open>thread_resched\<close> leads from the second to the third without a failed assertion or panic.
\<close>

section \<open>The parts of the invariant\<close>

text \<open>
  Running threads are exactly the current threads of the cpus. The cpus of \<open>X\<close> are inside the
  scheduler, their current thread has already left the running state.
\<close>

definition cur_inv :: "nat set \<Rightarrow> 'a kstate_scheme \<Rightarrow> bool" where
  "cur_inv X s \<longleftrightarrow>
     (\<forall>c t. current s c = Some t \<longrightarrow> curr_cpu (threads s t) = int c) \<and>
     (\<forall>c t. c \<notin> X \<longrightarrow> current s c = Some t \<longrightarrow> live s t \<and> t_state (threads s t) = THREAD_RUNNING) \<and>
     (\<forall>t. live s t \<longrightarrow> t_state (threads s t) = THREAD_RUNNING \<longrightarrow> (\<exists>c. c \<notin> X \<and> current s c = Some t))"

lemma cur_inv_inj:
  assumes "cur_inv X s" "current s c = Some t" "current s d = Some t"
  shows "c = d"
proof -
  have "curr_cpu (threads s t) = int c" "curr_cpu (threads s t) = int d" using assms unfolding cur_inv_def by blast+
  then show ?thesis by simp
qed

text \<open>The idle threads: one per cpu, never in a queue, running only on its own cpu.\<close>

definition idle_inv :: "'a kstate_scheme \<Rightarrow> bool" where
  "idle_inv s \<longleftrightarrow>
     (\<forall>t. live s t \<longrightarrow> thread_is_idle (threads s t) \<longrightarrow> (\<exists>c. t = Idle_thread c \<and> current s c \<noteq> None)) \<and>
     (\<forall>c. current s c \<noteq> None \<longrightarrow> live s (Idle_thread c) \<and> thread_is_idle (threads s (Idle_thread c)) \<and>
        t_state (threads s (Idle_thread c)) \<in> {THREAD_READY, THREAD_RUNNING} \<and>
        (t_state (threads s (Idle_thread c)) = THREAD_RUNNING \<longrightarrow> current s c = Some (Idle_thread c)))"

definition timer_off :: "timer \<Rightarrow> bool" where
  "timer_off tm \<longleftrightarrow> \<not> tm_linked tm \<and> periodic_time tm = 0"

text \<open>The preemption timer is off while a cpu runs a real-time or idle thread.\<close>

definition preempt_inv :: "'a kstate_scheme \<Rightarrow> bool" where
  "preempt_inv s \<longleftrightarrow>
     (\<forall>c t. current s c = Some t \<longrightarrow> tm_magic (timers s (TM_preempt c)) = TIMER_MAGIC \<and>
        (thread_is_real_time_or_idle (threads s t) \<longrightarrow> timer_off (timers s (TM_preempt c))))"

text \<open>
  A queued timer belongs to the scheduler, a sleeping thread or a thread blocked with a timeout, and
  conversely a sleeping thread and a thread blocked with a timeout have their timer queued.
\<close>

definition timed_block :: "thread \<Rightarrow> bool" where
  "timed_block th \<longleftrightarrow>
     (case t_cont th of K_wq_block timeout _ _ \<Rightarrow> timeout \<noteq> INFINITE_TIME | _ \<Rightarrow> False)"

definition timer_good :: "'a kstate_scheme \<Rightarrow> timer_id \<Rightarrow> bool" where
  "timer_good s tm \<longleftrightarrow> (case tm of
     TM_preempt c \<Rightarrow> tm_callback (timers s tm) = Some CB_thread_timer_tick
   | TM_sleep t \<Rightarrow> tm_callback (timers s tm) = Some CB_thread_sleep \<and> tm_arg (timers s tm) = Arg_thread t \<and>
       periodic_time (timers s tm) = 0 \<and> live s t \<and> t_state (threads s t) = THREAD_SLEEPING
   | TM_wait t \<Rightarrow> tm_callback (timers s tm) = Some CB_wait_queue_timeout \<and> tm_arg (timers s tm) = Arg_thread t \<and>
       periodic_time (timers s tm) = 0 \<and> live s t \<and> timed_block (threads s t)
   | TM_other n \<Rightarrow> False)"

definition timers_inv :: "'a kstate_scheme \<Rightarrow> bool" where
  "timers_inv s \<longleftrightarrow>
     (\<forall>tm. tm_linked (timers s tm) \<longrightarrow> timer_good s tm) \<and>
     (\<forall>tm. periodic_time (timers s tm) > 0 \<longrightarrow>
        tm_callback (timers s tm) = Some CB_thread_timer_tick \<and> (\<exists>c. tm = TM_preempt c)) \<and>
     (\<forall>t. live s t \<longrightarrow> t_state (threads s t) = THREAD_SLEEPING \<longrightarrow> tm_linked (timers s (TM_sleep t))) \<and>
     (\<forall>t. live s t \<longrightarrow> timed_block (threads s t) \<longrightarrow>
        tm_magic (timers s (TM_wait t)) = TIMER_MAGIC \<and>
        (t_state (threads s t) = THREAD_BLOCKED \<longrightarrow> tm_linked (timers s (TM_wait t))))"

definition stack_inv :: "'a kstate_scheme \<Rightarrow> bool" where
  "stack_inv s \<longleftrightarrow>
     (\<forall>t. has_flag (threads s t) THREAD_FLAG_DEBUG_STACK_BOUNDS_CHECK \<longrightarrow> stack_guard_intact (threads s t))"

text \<open>
  A thread that is switched out has a continuation, a blocked one that of \<open>wait_queue_block\<close>; a
  running thread has none. The current threads of the cpus of \<open>Y\<close> are exempt: they are about to be
  switched out, or have just been switched in.
\<close>

definition blocked_cont :: "thread \<Rightarrow> bool" where
  "blocked_cont th \<longleftrightarrow> (case t_cont th of K_wq_block _ _ _ \<Rightarrow> True | _ \<Rightarrow> False)"

definition cont_ok :: "thread \<Rightarrow> bool" where
  "cont_ok th \<longleftrightarrow>
     (t_state th \<in> {THREAD_SUSPENDED, THREAD_READY, THREAD_BLOCKED, THREAD_SLEEPING} \<longrightarrow> t_cont th \<noteq> K_none) \<and>
     (t_state th = THREAD_BLOCKED \<longrightarrow> blocked_cont th) \<and>
     (t_state th \<in> {THREAD_SUSPENDED, THREAD_SLEEPING, THREAD_DEATH} \<longrightarrow> \<not> blocked_cont th)"

definition cont_inv :: "nat set \<Rightarrow> 'a kstate_scheme \<Rightarrow> bool" where
  "cont_inv Y s \<longleftrightarrow>
     (\<forall>t. live s t \<longrightarrow> (\<forall>c \<in> Y. current s c \<noteq> Some t) \<longrightarrow> cont_ok (threads s t)) \<and>
     (\<forall>c t. c \<notin> Y \<longrightarrow> current s c = Some t \<longrightarrow> t_cont (threads s t) = K_none)"

definition kstat :: "nat set \<Rightarrow> nat set \<Rightarrow> 'a kstate_scheme \<Rightarrow> bool" where
  "kstat X Y s \<longleftrightarrow> cur_inv X s \<and> idle_inv s \<and> preempt_inv s \<and> timers_inv s \<and> stack_inv s \<and> cont_inv Y s"

definition kbase :: "u32 \<Rightarrow> nat set \<Rightarrow> nat set \<Rightarrow> 'a kstate_scheme \<Rightarrow> bool" where
  "kbase b X Y s \<longleftrightarrow> timer_wf b s \<and> kstat X Y s"

definition kcore :: "u32 \<Rightarrow> nat set \<Rightarrow> nat set \<Rightarrow> 'a kstate_scheme \<Rightarrow> bool" where
  "kcore b X Y s \<longleftrightarrow> sched_inv {} s \<and> kbase b X Y s"

lemma kstatD:
  assumes "kstat X Y s"
  shows "cur_inv X s" "idle_inv s" "preempt_inv s" "timers_inv s" "stack_inv s" "cont_inv Y s"
  using assms unfolding kstat_def by blast+

lemma kbaseD:
  assumes "kbase b X Y s"
  shows "cur_inv X s" "idle_inv s" "preempt_inv s" "timer_wf b s" "timers_inv s" "stack_inv s" "cont_inv Y s"
    "kstat X Y s"
  using assms unfolding kbase_def kstat_def by blast+

lemma kcoreD:
  assumes "kcore b X Y s"
  shows "sched_inv {} s" "cur_inv X s" "idle_inv s" "preempt_inv s" "timer_wf b s" "timers_inv s"
    "stack_inv s" "cont_inv Y s" "kbase b X Y s"
  using assms unfolding kcore_def kbase_def kstat_def by blast+

text \<open>At rest; before a switch on \<open>cpu\<close>; after it, with the incoming thread's continuation to run.\<close>

definition kinv :: "u32 \<Rightarrow> 'a kstate_scheme \<Rightarrow> bool" where
  "kinv b s \<longleftrightarrow> kcore b {} {} s \<and> \<not> thread_lock s"

definition region :: "u32 \<Rightarrow> nat \<Rightarrow> 'a kstate_scheme \<Rightarrow> bool" where
  "region b cpu s \<longleftrightarrow> kcore b {cpu} {cpu} s \<and> thread_lock s \<and> ints_disabled s cpu \<and>
     (\<exists>t. current s cpu = Some t \<and> t_state (threads s t) \<noteq> THREAD_RUNNING \<and>
        (live s t \<longrightarrow> cont_ok (threads s t)))"

text \<open>
  The scheduling promise: no ready thread that may run on \<open>cpu\<close> has a higher priority than its
  current thread, and the idle thread runs only when there is no such thread at all.
\<close>

definition runs_best :: "nat \<Rightarrow> 'a kstate_scheme \<Rightarrow> bool" where
  "runs_best cpu s \<longleftrightarrow>
     (\<forall>t u. current s cpu = Some t \<longrightarrow> live s u \<longrightarrow> runnable (threads s u) \<longrightarrow> eligible cpu (threads s u) \<longrightarrow>
        \<not> thread_is_idle (threads s t) \<and> priority (threads s u) \<le> priority (threads s t))"

definition switched_in :: "u32 \<Rightarrow> nat \<Rightarrow> 'a kstate_scheme \<Rightarrow> bool" where
  "switched_in b cpu s \<longleftrightarrow> kcore b {} {cpu} s \<and> thread_lock s \<and> ints_disabled s cpu \<and> runs_best cpu s \<and>
     (\<exists>t. current s cpu = Some t \<and> t_cont (threads s t) \<noteq> K_none)"

section \<open>What a context switch changes\<close>

text \<open>The fields of a thread that the scheduler does not touch.\<close>

definition core :: "thread \<Rightarrow> thread" where
  "core th = th\<lparr>queue_node := False, t_state := THREAD_READY, remaining_quantum := 0, curr_cpu := 0,
     t_stats := \<lparr>total_run_time = 0, last_run_timestamp = 0, schedules = 0\<rparr>\<rparr>"

lemma core_upd [simp]:
  "core (th\<lparr>queue_node := q\<rparr>) = core th" "core (th\<lparr>t_state := st\<rparr>) = core th"
  "core (th\<lparr>remaining_quantum := n\<rparr>) = core th" "core (th\<lparr>curr_cpu := c\<rparr>) = core th"
  "core (th\<lparr>t_stats := x\<rparr>) = core th"
  by (simp_all add: core_def)

lemma core_eqD:
  assumes "core a = core b"
  shows "t_magic a = t_magic b" "priority a = priority b" "t_flags a = t_flags b"
    "pinned_cpu a = pinned_cpu b" "aspace a = aspace b" "blocking_wait_queue a = blocking_wait_queue b"
    "wait_queue_block_ret a = wait_queue_block_ret b" "t_stack a = t_stack b" "stack_size a = stack_size b"
    "stack_mem a = stack_mem b" "t_entry a = t_entry b" "t_arg a = t_arg b" "retcode a = retcode b"
    "tls a = tls b" "t_name a = t_name b" "t_cont a = t_cont b" "call_ret a = call_ret b"
    "out_retcode a = out_retcode b"
  using assms by (cases a; cases b; simp add: core_def)+

definition switched :: "nat \<Rightarrow> tid \<Rightarrow> tid \<Rightarrow> 'a kstate_scheme \<Rightarrow> 'a kstate_scheme \<Rightarrow> bool" where
  "switched cpu old new s s' \<longleftrightarrow>
     current s' = (current s)(cpu := Some new) \<and>
     (\<forall>u. core (threads s' u) = core (threads s u)) \<and>
     (\<forall>u. t_state (threads s' u) = (if u = new then THREAD_RUNNING else t_state (threads s u))) \<and>
     (\<forall>u. u \<noteq> old \<longrightarrow> u \<noteq> new \<longrightarrow> curr_cpu (threads s' u) = curr_cpu (threads s u)) \<and>
     curr_cpu (threads s' new) = int cpu \<and>
     (\<forall>tm. tm \<noteq> TM_preempt cpu \<longrightarrow> timers s' tm = timers s tm) \<and>
     wqs s' = wqs s \<and> thread_list s' = thread_list s \<and> thread_lock s' = thread_lock s \<and>
     ints_disabled s' = ints_disabled s \<and> freed s' = freed s \<and> delayed_free s' = delayed_free s \<and>
     cur_time s' = cur_time s \<and> active_cpus s' = active_cpus s \<and> ipi_pending s' = ipi_pending s \<and>
     now_hires s' = now_hires s \<and> kstate.more s' = kstate.more s"

lemma switchedD:
  assumes "switched cpu old new s s'"
  shows "current s' = (current s)(cpu := Some new)" "core (threads s' u) = core (threads s u)"
    "t_state (threads s' u) = (if u = new then THREAD_RUNNING else t_state (threads s u))"
    "u \<noteq> old \<Longrightarrow> u \<noteq> new \<Longrightarrow> curr_cpu (threads s' u) = curr_cpu (threads s u)"
    "curr_cpu (threads s' new) = int cpu"
    "tm \<noteq> TM_preempt cpu \<Longrightarrow> timers s' tm = timers s tm"
    "wqs s' = wqs s" "thread_list s' = thread_list s" "thread_lock s' = thread_lock s"
    "ints_disabled s' = ints_disabled s" "freed s' = freed s" "delayed_free s' = delayed_free s"
    "cur_time s' = cur_time s" "active_cpus s' = active_cpus s" "ipi_pending s' = ipi_pending s"
    "now_hires s' = now_hires s" "kstate.more s' = kstate.more s"
  using assms unfolding switched_def by blast+

lemma switched_fields:
  assumes "switched cpu old new s s'"
  shows "t_magic (threads s' u) = t_magic (threads s u)" "priority (threads s' u) = priority (threads s u)"
    "t_flags (threads s' u) = t_flags (threads s u)" "t_cont (threads s' u) = t_cont (threads s u)"
    "blocking_wait_queue (threads s' u) = blocking_wait_queue (threads s u)"
    "wait_queue_block_ret (threads s' u) = wait_queue_block_ret (threads s u)"
    "stack_mem (threads s' u) = stack_mem (threads s u)" "call_ret (threads s' u) = call_ret (threads s u)"
    "pinned_cpu (threads s' u) = pinned_cpu (threads s u)" "retcode (threads s' u) = retcode (threads s u)"
  using core_eqD [OF switchedD(2) [OF assms, of u]] by simp_all

lemma switched_preds:
  assumes "switched cpu old new s s'"
  shows "thread_is_idle (threads s' u) = thread_is_idle (threads s u)"
    "thread_is_real_time_or_idle (threads s' u) = thread_is_real_time_or_idle (threads s u)"
    "has_flag (threads s' u) f = has_flag (threads s u) f"
    "stack_guard_intact (threads s' u) = stack_guard_intact (threads s u)"
    "timed_block (threads s' u) = timed_block (threads s u)"
    "blocked_cont (threads s' u) = blocked_cont (threads s u)"
    "u \<noteq> new \<Longrightarrow> cont_ok (threads s' u) = cont_ok (threads s u)"
  using switched_fields [OF assms] switchedD(3) [OF assms]
  by (simp_all add: thread_is_idle_def thread_is_real_time_or_idle_def has_flag_def
      stack_guard_intact_def timed_block_def blocked_cont_def cont_ok_def)

section \<open>The steps of a context switch\<close>

lemma switch_owner_frame [simp]:
  "current (switch_owner cpu old new s) = current s"
  "run_queue (switch_owner cpu old new s) = run_queue s"
  "run_queue_bitmap (switch_owner cpu old new s) = run_queue_bitmap s"
  "wqs (switch_owner cpu old new s) = wqs s"
  "thread_list (switch_owner cpu old new s) = thread_list s"
  "thread_lock (switch_owner cpu old new s) = thread_lock s"
  "ints_disabled (switch_owner cpu old new s) = ints_disabled s"
  "freed (switch_owner cpu old new s) = freed s"
  "delayed_free (switch_owner cpu old new s) = delayed_free s"
  "active_cpus (switch_owner cpu old new s) = active_cpus s"
  "ipi_pending (switch_owner cpu old new s) = ipi_pending s"
  "now_hires (switch_owner cpu old new s) = now_hires s"
  "kstate.more (switch_owner cpu old new s) = kstate.more s"
  "timers (switch_owner cpu old new s) = timers s"
  "timer_queue (switch_owner cpu old new s) = timer_queue s"
  "cur_time (switch_owner cpu old new s) = cur_time s"
  by (simp_all add: switch_owner_def Let_def)

lemma switch_cpu_masks_frame [simp]:
  "current (switch_cpu_masks cpu new s) = current s"
  "run_queue (switch_cpu_masks cpu new s) = run_queue s"
  "run_queue_bitmap (switch_cpu_masks cpu new s) = run_queue_bitmap s"
  "wqs (switch_cpu_masks cpu new s) = wqs s"
  "thread_list (switch_cpu_masks cpu new s) = thread_list s"
  "thread_lock (switch_cpu_masks cpu new s) = thread_lock s"
  "ints_disabled (switch_cpu_masks cpu new s) = ints_disabled s"
  "freed (switch_cpu_masks cpu new s) = freed s"
  "delayed_free (switch_cpu_masks cpu new s) = delayed_free s"
  "active_cpus (switch_cpu_masks cpu new s) = active_cpus s"
  "ipi_pending (switch_cpu_masks cpu new s) = ipi_pending s"
  "now_hires (switch_cpu_masks cpu new s) = now_hires s"
  "kstate.more (switch_cpu_masks cpu new s) = kstate.more s"
  "timers (switch_cpu_masks cpu new s) = timers s"
  "timer_queue (switch_cpu_masks cpu new s) = timer_queue s"
  "cur_time (switch_cpu_masks cpu new s) = cur_time s"
  "threads (switch_cpu_masks cpu new s) = threads s"
  by (simp_all add: switch_cpu_masks_def Let_def mp_set_cpu_idle_def mp_set_cpu_busy_def
      mp_set_cpu_realtime_def mp_set_cpu_non_realtime_def)

lemma switch_stats_frame [simp]:
  "current (switch_stats cpu old new s) = current s"
  "run_queue (switch_stats cpu old new s) = run_queue s"
  "run_queue_bitmap (switch_stats cpu old new s) = run_queue_bitmap s"
  "wqs (switch_stats cpu old new s) = wqs s"
  "thread_list (switch_stats cpu old new s) = thread_list s"
  "thread_lock (switch_stats cpu old new s) = thread_lock s"
  "ints_disabled (switch_stats cpu old new s) = ints_disabled s"
  "freed (switch_stats cpu old new s) = freed s"
  "delayed_free (switch_stats cpu old new s) = delayed_free s"
  "active_cpus (switch_stats cpu old new s) = active_cpus s"
  "ipi_pending (switch_stats cpu old new s) = ipi_pending s"
  "now_hires (switch_stats cpu old new s) = now_hires s"
  "kstate.more (switch_stats cpu old new s) = kstate.more s"
  "timers (switch_stats cpu old new s) = timers s"
  "timer_queue (switch_stats cpu old new s) = timer_queue s"
  "cur_time (switch_stats cpu old new s) = cur_time s"
  by (simp_all add: switch_stats_def Let_def)

lemma resched_account_frame [simp]:
  "current (resched_account cpu old new s) = current s"
  "run_queue (resched_account cpu old new s) = run_queue s"
  "run_queue_bitmap (resched_account cpu old new s) = run_queue_bitmap s"
  "wqs (resched_account cpu old new s) = wqs s"
  "thread_list (resched_account cpu old new s) = thread_list s"
  "thread_lock (resched_account cpu old new s) = thread_lock s"
  "ints_disabled (resched_account cpu old new s) = ints_disabled s"
  "freed (resched_account cpu old new s) = freed s"
  "delayed_free (resched_account cpu old new s) = delayed_free s"
  "active_cpus (resched_account cpu old new s) = active_cpus s"
  "ipi_pending (resched_account cpu old new s) = ipi_pending s"
  "now_hires (resched_account cpu old new s) = now_hires s"
  "kstate.more (resched_account cpu old new s) = kstate.more s"
  "timers (resched_account cpu old new s) = timers s"
  "timer_queue (resched_account cpu old new s) = timer_queue s"
  "cur_time (resched_account cpu old new s) = cur_time s"
  by (simp_all add: resched_account_def)

lemma switch_owner_threads:
  assumes "old \<noteq> new"
  shows "core (threads (switch_owner cpu old new s) u) = core (threads s u)"
    "t_state (threads (switch_owner cpu old new s) u) = t_state (threads s u)"
    "queue_node (threads (switch_owner cpu old new s) u) = queue_node (threads s u)"
    "u \<noteq> old \<Longrightarrow> u \<noteq> new \<Longrightarrow> threads (switch_owner cpu old new s) u = threads s u"
    "curr_cpu (threads (switch_owner cpu old new s) new) = int cpu"
  using assms by (simp_all add: switch_owner_def Let_def)

lemma switch_stats_threads:
  "core (threads (switch_stats cpu old new s) u) = core (threads s u)"
  "t_state (threads (switch_stats cpu old new s) u) = t_state (threads s u)"
  "queue_node (threads (switch_stats cpu old new s) u) = queue_node (threads s u)"
  "curr_cpu (threads (switch_stats cpu old new s) u) = curr_cpu (threads s u)"
  "u \<noteq> old \<Longrightarrow> u \<noteq> new \<Longrightarrow> threads (switch_stats cpu old new s) u = threads s u"
  by (simp_all add: switch_stats_def Let_def)

lemma resched_account_threads:
  assumes "old \<noteq> new"
  shows "core (threads (resched_account cpu old new s) u) = core (threads s u)"
    "t_state (threads (resched_account cpu old new s) u) = t_state (threads s u)"
    "queue_node (threads (resched_account cpu old new s) u) = queue_node (threads s u)"
    "u \<noteq> old \<Longrightarrow> u \<noteq> new \<Longrightarrow> threads (resched_account cpu old new s) u = threads s u"
    "curr_cpu (threads (resched_account cpu old new s) new) = int cpu"
  using assms by (simp_all add: resched_account_def switch_stats_threads switch_owner_threads)

lemma resched_preempt_timer_ok:
  fixes s :: "'a kstate_scheme"
  assumes wf: "timer_wf b s" and mg: "tm_magic (timers s (TM_preempt cpu)) = TIMER_MAGIC"
    and nl: "thread_is_real_time_or_idle (threads s old) \<Longrightarrow> timer_off (timers s (TM_preempt cpu))"
    and time: "in_window b (cur_time s + 10)"
  shows "\<exists>s'. resched_preempt_timer cpu old new s = Some s' \<and> timer_wf b s' \<and>
    timer_state.more s' = timer_state.more s \<and> cur_time s' = cur_time s \<and>
    (\<forall>tm. tm \<noteq> TM_preempt cpu \<longrightarrow> timers s' tm = timers s tm) \<and>
    tm_magic (timers s' (TM_preempt cpu)) = TIMER_MAGIC \<and>
    (thread_is_real_time_or_idle (threads s new) \<longrightarrow> timer_off (timers s' (TM_preempt cpu))) \<and>
    (\<not> timer_off (timers s' (TM_preempt cpu)) \<longrightarrow> timers s' (TM_preempt cpu) = timers s (TM_preempt cpu) \<or>
       tm_callback (timers s' (TM_preempt cpu)) = Some CB_thread_timer_tick)"
proof -
  consider (same) "thread_is_real_time_or_idle (threads s new) = thread_is_real_time_or_idle (threads s old)"
    | (stop) "thread_is_real_time_or_idle (threads s new)" "\<not> thread_is_real_time_or_idle (threads s old)"
    | (start) "\<not> thread_is_real_time_or_idle (threads s new)" "thread_is_real_time_or_idle (threads s old)"
    by blast
  then show ?thesis
  proof cases
    case same
    then show ?thesis using wf mg nl by (auto simp: resched_preempt_timer_def)
  next
    case stop
    from timer_cancel_ok [OF wf mg, of cpu] obtain s' where "timer_cancel cpu (TM_preempt cpu) s = Some s'"
      "timer_wf b s'" "timer_state.more s' = timer_state.more s" "cur_time s' = cur_time s"
      "timers s' = (timers s)(TM_preempt cpu := (timers s (TM_preempt cpu))\<lparr>tm_linked := False,
        periodic_time := 0, tm_callback := None, tm_arg := Arg_null\<rparr>)" by blast
    then show ?thesis using stop mg by (simp add: resched_preempt_timer_def timer_off_def)
  next
    case start
    have "\<exists>s'. timer_set cpu (TM_preempt cpu) 10 10 CB_thread_timer_tick Arg_null s = Some s' \<and> timer_wf b s' \<and>
      timer_state.more s' = timer_state.more s \<and> cur_time s' = cur_time s \<and>
      timers s' = (timers s)(TM_preempt cpu := (timers s (TM_preempt cpu))\<lparr>tm_linked := True,
        scheduled_time := cur_time s + 10, periodic_time := 10,
        tm_callback := Some CB_thread_timer_tick, tm_arg := Arg_null\<rparr>)"
      using timer_set_ok [OF wf mg _ time, of cpu 10 CB_thread_timer_tick Arg_null] nl [OF start(2)]
      unfolding timer_off_def by blast
    then show ?thesis using start mg by (auto simp: resched_preempt_timer_def timer_set_periodic_def)
  qed
qed

text \<open>The choice of the next thread, with the chosen thread marked running.\<close>

lemma pick_next:
  fixes s :: "'a kstate_scheme"
  assumes inv: "sched_inv {} s" and idle: "idle_inv s"
    and old: "current s cpu = Some old" "t_state (threads s old) \<noteq> THREAD_RUNNING"
  obtains new s2 where "get_top_thread cpu s = (new, s2)" "live s new" "t_state (threads s new) = THREAD_READY"
    "thread_is_idle (threads s new) \<Longrightarrow> new = Idle_thread cpu"
    "sched_inv {} (upd_thread new (\<lambda>th. th\<lparr>t_state := THREAD_RUNNING\<rparr>) s2)"
    "threads s2 = (threads s)(new := (threads s new)\<lparr>queue_node := False\<rparr>)"
    "current s2 = current s" "wqs s2 = wqs s" "thread_list s2 = thread_list s" "thread_lock s2 = thread_lock s"
    "ints_disabled s2 = ints_disabled s" "freed s2 = freed s" "delayed_free s2 = delayed_free s"
    "cur_time s2 = cur_time s" "active_cpus s2 = active_cpus s" "ipi_pending s2 = ipi_pending s"
    "now_hires s2 = now_hires s" "kstate.more s2 = kstate.more s" "timers s2 = timers s" "timer_queue s2 = timer_queue s"
proof (cases rule: get_top_thread_cases [OF inv, of cpu])
  case 1
  let ?t = "Idle_thread cpu"
  have t: "live s ?t" "thread_is_idle (threads s ?t)" "t_state (threads s ?t) = THREAD_READY"
    using idle old unfolding idle_inv_def by (metis insertE option.distinct(1) option.inject singletonD)+
  have nr: "\<not> runnable (threads s ?t)" using t by (simp add: runnable_def)
  then have qn: "\<not> queue_node (threads s ?t)" using sched_invD(8) [OF inv t(1)] t by simp
  then have th: "threads s = (threads s)(?t := (threads s ?t)\<lparr>queue_node := False\<rparr>)" by auto
  let ?s3 = "upd_thread ?t (\<lambda>th. th\<lparr>t_state := THREAD_RUNNING\<rparr>) s"
  have "sched_inv {?t} ?s3"
    using qn by (intro sched_inv_upd [OF sched_inv_out [OF inv nr]]) (auto simp: t)
  then have "sched_inv {} ?s3"
    using sched_inv_in [of "{?t}" ?s3 ?t] sched_invD(9) [OF inv t(1)] by (simp add: runnable_def)
  then show ?thesis using that [OF 1(1) t(1,3) _ _ th] by blast
next
  case (2 t q)
  have t: "live s t" "runnable (threads s t)" using sched_invD(3) [OF inv] 2(2) by blast+
  let ?s2 = "take_from_run_queue q t s"
  let ?s3 = "upd_thread t (\<lambda>th. th\<lparr>t_state := THREAD_RUNNING\<rparr>) ?s2"
  have "sched_inv {t} ?s3"
    by (intro sched_inv_upd [OF sched_inv_take [OF inv 2(2)]]) auto
  then have "sched_inv {} ?s3"
    using sched_inv_in [of "{t}" ?s3 t] sched_invD(9) [OF inv t(1)] by (simp add: runnable_def)
  then show ?thesis using that [OF 2(1) t(1)] t(2) by (simp add: runnable_def)
qed

section \<open>The invariant across a switch\<close>

lemma switched_cur:
  assumes sw: "switched cpu old new s s'" and cur: "cur_inv {cpu} s" and old: "current s cpu = Some old"
    and new: "live s new" "t_state (threads s new) = THREAD_READY"
  shows "cur_inv {} s'"
proof -
  note W = switchedD [OF sw] switched_fields [OF sw]
  have other: "t \<noteq> new \<and> t \<noteq> old" if c: "current s c = Some t" "c \<noteq> cpu" for c t
  proof -
    have "t_state (threads s t) = THREAD_RUNNING" using c cur unfolding cur_inv_def by blast
    moreover have "curr_cpu (threads s t) = int c" "curr_cpu (threads s old) = int cpu"
      using c old cur unfolding cur_inv_def by blast+
    ultimately show ?thesis using c(2) new by auto
  qed
  have 1: "curr_cpu (threads s' t) = int c" if "current s' c = Some t" for c t
  proof (cases "c = cpu")
    case True
    then show ?thesis using that W(1,5) by simp
  next
    case False
    then have c: "current s c = Some t" using that W(1) by simp
    then show ?thesis using other [OF c False] W(4) [of t] cur unfolding cur_inv_def by simp
  qed
  have 2: "live s' t \<and> t_state (threads s' t) = THREAD_RUNNING" if "current s' c = Some t" for c t
    using that cur new W(1) W(3) [of t] W(18) [of t] unfolding cur_inv_def by (cases "c = cpu") auto
  have 3: "\<exists>c. current s' c = Some t" if "live s' t" "t_state (threads s' t) = THREAD_RUNNING" for t
  proof (cases "t = new")
    case True
    then show ?thesis using W(1) by (intro exI [of _ cpu]) simp
  next
    case False
    then have "live s t" "t_state (threads s t) = THREAD_RUNNING" using that W(3) W(18) by simp_all
    then obtain c where "c \<noteq> cpu" "current s c = Some t" using cur unfolding cur_inv_def by auto
    then show ?thesis using W(1) by (intro exI [of _ c]) simp
  qed
  from 1 2 3 show ?thesis unfolding cur_inv_def by blast
qed

lemma switched_idle:
  assumes sw: "switched cpu old new s s'" and idle: "idle_inv s" and old: "current s cpu = Some old"
    "t_state (threads s old) \<noteq> THREAD_RUNNING" and new: "thread_is_idle (threads s new) \<Longrightarrow> new = Idle_thread cpu"
  shows "idle_inv s'"
proof -
  note W = switchedD(1,3) [OF sw] switched_fields(1) [OF sw] switched_preds(1) [OF sw]
  have onl: "current s' c \<noteq> None \<longleftrightarrow> current s c \<noteq> None" for c using W(1) old by simp
  have "current s' c = Some (Idle_thread c)"
    if "current s c \<noteq> None" "t_state (threads s' (Idle_thread c)) = THREAD_RUNNING" for c
  proof (cases "Idle_thread c = new")
    case True
    then have "c = cpu" using idle that new unfolding idle_inv_def by fastforce
    then show ?thesis using W(1) True by simp
  next
    case False
    then have "current s c = Some (Idle_thread c)" "t_state (threads s (Idle_thread c)) = THREAD_RUNNING"
      using that W(2) idle unfolding idle_inv_def by auto
    then show ?thesis using W(1) old by (cases "c = cpu") auto
  qed
  then show ?thesis using idle onl unfolding idle_inv_def W(2-4) by (auto simp: W)
qed

lemma switched_rest:
  assumes sw: "switched cpu old new s s'" and new: "t_state (threads s new) = THREAD_READY" "live s new"
    and old: "current s cpu = Some old" "live s old \<longrightarrow> cont_ok (threads s old)"
  shows "stack_inv s \<Longrightarrow> stack_inv s'" "cont_inv {cpu} s \<Longrightarrow> cont_inv {cpu} s'"
    "cont_inv {cpu} s \<Longrightarrow> t_cont (threads s' new) \<noteq> K_none"
proof -
  note W = switchedD(1) [OF sw] switched_fields [OF sw] switched_preds [OF sw]
  show "stack_inv s \<Longrightarrow> stack_inv s'" unfolding stack_inv_def W by simp
  show "cont_inv {cpu} s'" if c: "cont_inv {cpu} s"
  proof -
    have "cont_ok (threads s' t)" if "live s' t" "t \<noteq> new" for t
      using c that old W(7) [of t] unfolding cont_inv_def by (cases "t = old") (auto simp: W)
    then show ?thesis using c unfolding cont_inv_def by (auto simp: W)
  qed
  show "t_cont (threads s' new) \<noteq> K_none" if c: "cont_inv {cpu} s"
    using c new old unfolding cont_inv_def by (cases "new = old") (auto simp: W cont_ok_def)
qed

lemma switched_timers:
  assumes sw: "switched cpu old new s s'" and ti: "timers_inv s" and new: "t_state (threads s new) = THREAD_READY"
    and p: "\<not> timer_off (timers s' (TM_preempt cpu)) \<Longrightarrow> timers s' (TM_preempt cpu) = timers s (TM_preempt cpu) \<or>
       tm_callback (timers s' (TM_preempt cpu)) = Some CB_thread_timer_tick"
  shows "timers_inv s'"
proof -
  note W = switchedD(3,6) [OF sw] switched_fields(1) [OF sw] switched_preds(5) [OF sw]
  have "timer_good s' tm" if l: "tm_linked (timers s' tm)" for tm
  proof (cases "tm = TM_preempt cpu")
    case True
    have "timers s' tm = timers s tm \<Longrightarrow> timer_good s tm" using l ti unfolding timers_inv_def by metis
    moreover have "\<not> timer_off (timers s' (TM_preempt cpu))" using True l by (simp add: timer_off_def)
    ultimately show ?thesis using True p by (auto simp: timer_good_def)
  next
    case False
    then have "timer_good s tm" using l ti W(2) [OF False] unfolding timers_inv_def by metis
    then show ?thesis using False new W(2) [OF False] by (auto simp: timer_good_def W(1,3,4) split: timer_id.splits)
  qed
  moreover have "tm_callback (timers s' tm) = Some CB_thread_timer_tick \<and> (\<exists>c. tm = TM_preempt c)"
    if l: "periodic_time (timers s' tm) > 0" for tm
  proof (cases "tm = TM_preempt cpu")
    case True
    have "timers s' tm = timers s tm \<Longrightarrow> tm_callback (timers s tm) = Some CB_thread_timer_tick"
      using l ti unfolding timers_inv_def by metis
    moreover have "\<not> timer_off (timers s' (TM_preempt cpu))" using True l by (auto simp: timer_off_def)
    ultimately show ?thesis using True p by auto
  next
    case False
    then show ?thesis using l ti W(2) [OF False] unfolding timers_inv_def by metis
  qed
  ultimately show ?thesis using ti new unfolding timers_inv_def by (auto simp: W)
qed

section \<open>\<open>thread_resched\<close>\<close>

text \<open>The part of \<open>thread_resched\<close> after the next thread is chosen and differs from the old one.\<close>

lemma resched_tail:
  fixes s3 :: "'a kstate_scheme"
  assumes ne: "new \<noteq> old" and lk: "thread_lock s3" and wf: "timer_wf b s3"
    and mg: "tm_magic (timers s3 (TM_preempt cpu)) = TIMER_MAGIC"
    and nl: "thread_is_real_time_or_idle (threads s3 old) \<longrightarrow> timer_off (timers s3 (TM_preempt cpu))"
    and time: "in_window b (cur_time s3 + 10)" and stack: "stack_inv s3" and inv: "sched_inv {} s3"
    and run: "t_state (threads s3 new) = THREAD_RUNNING"
  shows "\<exists>s'. (do {
       s5 \<leftarrow> resched_preempt_timer cpu old new (resched_account cpu old new s3);
       let s6 = s5\<lparr>current := (current s5)(cpu := Some new)\<rparr>;
       guard_that (has_flag (threads s6 old) THREAD_FLAG_DEBUG_STACK_BOUNDS_CHECK \<longrightarrow>
                   stack_guard_intact (threads s6 old));
       if aspace (threads s6 new) \<noteq> aspace (threads s6 old)
       then vmm_context_switch cpu (aspace (threads s6 old)) (aspace (threads s6 new)) s6
       else Some s6 }) = Some s' \<and> switched cpu old new s3 s' \<and> sched_inv {} s' \<and> timer_wf b s' \<and>
    tm_magic (timers s' (TM_preempt cpu)) = TIMER_MAGIC \<and>
    (thread_is_real_time_or_idle (threads s3 new) \<longrightarrow> timer_off (timers s' (TM_preempt cpu))) \<and>
    (\<not> timer_off (timers s' (TM_preempt cpu)) \<longrightarrow> timers s' (TM_preempt cpu) = timers s3 (TM_preempt cpu) \<or>
       tm_callback (timers s' (TM_preempt cpu)) = Some CB_thread_timer_tick)"
proof -
  define s4 where "s4 = resched_account cpu old new s3"
  note A = resched_account_threads [OF ne [symmetric], where cpu = cpu and s = s3, folded s4_def]
  have F: "current s4 = current s3" "run_queue s4 = run_queue s3" "run_queue_bitmap s4 = run_queue_bitmap s3"
    "wqs s4 = wqs s3" "thread_list s4 = thread_list s3" "thread_lock s4 = thread_lock s3"
    "ints_disabled s4 = ints_disabled s3" "freed s4 = freed s3" "delayed_free s4 = delayed_free s3"
    "active_cpus s4 = active_cpus s3" "ipi_pending s4 = ipi_pending s3" "now_hires s4 = now_hires s3"
    "kstate.more s4 = kstate.more s3" "timers s4 = timers s3" "timer_queue s4 = timer_queue s3"
    "cur_time s4 = cur_time s3" by (simp_all add: s4_def)
  have flags: "t_flags (threads s4 u) = t_flags (threads s3 u)" "stack_mem (threads s4 u) = stack_mem (threads s3 u)" for u
    using core_eqD [OF A(1)] by simp_all
  have rt: "thread_is_real_time_or_idle (threads s4 u) = thread_is_real_time_or_idle (threads s3 u)" for u
    by (simp add: thread_is_real_time_or_idle_def has_flag_def flags)
  have wf4: "timer_wf b s4" using wf timer_wf_cong F(14,15) by blast
  obtain s5 where s5: "resched_preempt_timer cpu old new s4 = Some s5" "timer_wf b s5"
    "timer_state.more s5 = timer_state.more s4" "cur_time s5 = cur_time s4"
    "\<forall>tm. tm \<noteq> TM_preempt cpu \<longrightarrow> timers s5 tm = timers s4 tm"
    "tm_magic (timers s5 (TM_preempt cpu)) = TIMER_MAGIC"
    "thread_is_real_time_or_idle (threads s4 new) \<longrightarrow> timer_off (timers s5 (TM_preempt cpu))"
    "\<not> timer_off (timers s5 (TM_preempt cpu)) \<longrightarrow> timers s5 (TM_preempt cpu) = timers s4 (TM_preempt cpu) \<or>
       tm_callback (timers s5 (TM_preempt cpu)) = Some CB_thread_timer_tick"
    using resched_preempt_timer_ok [OF wf4, of cpu old new] mg nl time by (auto simp: F rt)
  note K = timer_more_kstate [OF s5(3)]
  define s6 where "s6 = s5\<lparr>current := (current s5)(cpu := Some new)\<rparr>"
  define s7 where "s7 = (if aspace (threads s6 new) \<noteq> aspace (threads s6 old)
     then s6\<lparr>mmu_aspace := (mmu_aspace s6)(cpu := aspace (threads s6 new))\<rparr> else s6)"
  have th7: "threads s7 = threads s4" by (simp add: s7_def s6_def K)
  have r7: "run_queue s7 = run_queue s3" "run_queue_bitmap s7 = run_queue_bitmap s3" "wqs s7 = wqs s3"
    "timers s7 = timers s5" "timer_queue s7 = timer_queue s5" by (simp_all add: s7_def s6_def K F)
  have chk: "has_flag (threads s6 old) 32 \<longrightarrow> stack_guard_intact (threads s6 old)"
    using stack unfolding stack_inv_def s6_def has_flag_def stack_guard_intact_def by (simp add: K flags)
  have exec: "(do {
       s5 \<leftarrow> resched_preempt_timer cpu old new s4;
       let s6 = s5\<lparr>current := (current s5)(cpu := Some new)\<rparr>;
       guard_that (has_flag (threads s6 old) 32 \<longrightarrow> stack_guard_intact (threads s6 old));
       if aspace (threads s6 new) \<noteq> aspace (threads s6 old)
       then vmm_context_switch cpu (aspace (threads s6 old)) (aspace (threads s6 new)) s6
       else Some s6 }) = Some s7"
    using chk lk by (simp add: s5(1) Let_def s6_def [symmetric] s7_def vmm_context_switch_def)
      (simp add: s6_def K F)
  have sw: "switched cpu old new s3 s7"
    using A run ne by (simp add: switched_def th7 r7 s5 F) (simp add: s7_def s6_def K F s5)
  have view: "sched_view (threads s7 u) = sched_view (threads s3 u)" for u
    using core_eqD [OF A(1) [of u]] A(2,3) [of u]
    by (simp add: th7 sched_view_def thread_is_idle_def has_flag_def)
  have "sched_inv {} s7" using inv sched_inv_cong [of s7 s3 "{}", OF view] r7 by simp
  moreover have "timer_wf b s7" using s5(2) timer_wf_cong [of s7 s5] r7 by simp
  ultimately show ?thesis
    unfolding s4_def [symmetric] using exec sw s5(6-8) r7(4) by (auto simp: rt F)
qed

lemma get_top_loop_cong:
  assumes "threads s' = threads s" "run_queue s' = run_queue s"
  shows "get_top_loop cpu bitmap s' = get_top_loop cpu bitmap s"
  using assms
proof (induction cpu bitmap s rule: get_top_loop.induct)
  case (1 cpu bitmap s)
  then show ?case
    by (subst (1 2) get_top_loop.simps) (auto simp: Let_def split: option.splits)
qed

lemma fst_get_top_thread_stats: "fst (get_top_thread cpu (upd_stats c f s)) = fst (get_top_thread cpu s)"
  by (simp add: get_top_thread_def get_top_loop_cong [of "upd_stats c f s" s] split: option.split)

lemma switched_best:
  assumes inv: "sched_inv {} s" and top: "new = fst (get_top_thread cpu s)" and sw: "switched cpu old new s s'"
  shows "runs_best cpu s'"
  unfolding runs_best_def
proof (intro allI impI)
  fix t u assume t: "current s' cpu = Some t" and u: "live s' u" "runnable (threads s' u)" "eligible cpu (threads s' u)"
  have tn: "t = new" using t switchedD(1) [OF sw] by simp
  have "u \<noteq> new" using u(2) switchedD(3) [OF sw, of u] by (auto simp: runnable_def)
  then have u': "live s u" "runnable (threads s u)" "eligible cpu (threads s u)"
    using u switchedD(3) [OF sw, of u] switched_fields [OF sw, of u] switched_preds [OF sw, of u]
    by (simp_all add: runnable_def eligible_def)
  show "\<not> thread_is_idle (threads s' t) \<and> priority (threads s' u) \<le> priority (threads s' t)"
  proof (cases rule: get_top_thread_cases [OF inv, of cpu])
    case 1
    then show ?thesis using u' by blast
  next
    case (2 v q)
    have "v = new" using top 2(1) by simp
    then show ?thesis
      using 2(2) 2(5) [of u] u' tn sched_invD(3) [OF inv, of new q] switched_fields [OF sw] switched_preds [OF sw]
      by (simp add: runnable_def)
  qed
qed

lemma switched_inI:
  assumes kc: "kcore b {cpu} {cpu} s" "thread_lock s" "ints_disabled s cpu"
    and old: "current s cpu = Some old" "t_state (threads s old) \<noteq> THREAD_RUNNING"
      "live s old \<longrightarrow> cont_ok (threads s old)"
    and new: "live s new" "t_state (threads s new) = THREAD_READY" "thread_is_idle (threads s new) \<longrightarrow> new = Idle_thread cpu"
      "new = fst (get_top_thread cpu s)"
    and sw: "switched cpu old new s s'" and inv: "sched_inv {} s'" "timer_wf b s'"
    and p: "tm_magic (timers s' (TM_preempt cpu)) = TIMER_MAGIC"
      "thread_is_real_time_or_idle (threads s new) \<longrightarrow> timer_off (timers s' (TM_preempt cpu))"
      "\<not> timer_off (timers s' (TM_preempt cpu)) \<longrightarrow> timers s' (TM_preempt cpu) = timers s (TM_preempt cpu) \<or>
       tm_callback (timers s' (TM_preempt cpu)) = Some CB_thread_timer_tick"
  shows "switched_in b cpu s'"
proof -
  note K = kcoreD [OF kc(1)] and W = switchedD [OF sw]
  have "preempt_inv s'"
    using K(4) p(1,2) unfolding preempt_inv_def by (auto simp: W(1,6) switched_preds [OF sw])
  moreover have "timers_inv s'" using switched_timers [OF sw K(6) new(2)] p(3) by blast
  ultimately have "kcore b {} {cpu} s'"
    using switched_cur [OF sw K(2) old(1) new(1,2)] switched_idle [OF sw K(3) old(1,2) new(3) [rule_format]]
      switched_rest [OF sw new(2,1) old(1,3)] K(7,8) inv by (simp add: kcore_def kbase_def kstat_def)
  then show ?thesis
    using W(1,9,10) kc(2,3) switched_rest(3) [OF sw new(2,1) old(1,3) K(8)] switched_best [OF K(1) new(4) sw]
    by (simp add: switched_in_def)
qed

text \<open>
  From the locked region the scheduler always reaches the switched-in state: it picks the thread
  given by \<open>get_top_thread\<close>, which was ready, and no assertion or panic is hit.
\<close>

lemma thread_resched_ok:
  fixes s :: "'a kstate_scheme"
  assumes R: "region b cpu s" and old: "current s cpu = Some old" and time: "in_window b (cur_time s + 10)"
  shows "\<exists>s' new. thread_resched cpu s = Some s' \<and> new = fst (get_top_thread cpu s) \<and>
    switched cpu old new s s' \<and> switched_in b cpu s' \<and> live s new \<and> t_state (threads s new) = THREAD_READY"
proof -
  note K = kcoreD [of b "{cpu}" "{cpu}" s]
  have kc: "kcore b {cpu} {cpu} s" and lk: "thread_lock s" and ints: "ints_disabled s cpu"
    and st: "t_state (threads s old) \<noteq> THREAD_RUNNING" and ck: "live s old \<longrightarrow> cont_ok (threads s old)"
    using R old by (auto simp: region_def)
  note K = kcoreD [OF kc]
  define s1 where "s1 = upd_stats cpu (\<lambda>st. st\<lparr>reschedules := reschedules st + 1\<rparr>) s"
  have S: "threads s1 = threads s" "current s1 = current s" "wqs s1 = wqs s" "timers s1 = timers s"
    "timer_queue s1 = timer_queue s" "run_queue s1 = run_queue s" "run_queue_bitmap s1 = run_queue_bitmap s"
    by (simp_all add: s1_def)
  have i1: "sched_inv {} s1" "idle_inv s1" "timer_wf b s1"
    using K(1,3,5) sched_inv_cong [of s1 s "{}"] timer_wf_cong [of s1 s] by (simp_all add: S idle_inv_def)
  obtain new s2 where top: "get_top_thread cpu s1 = (new, s2)" and new: "live s1 new"
      "t_state (threads s1 new) = THREAD_READY" "thread_is_idle (threads s1 new) \<Longrightarrow> new = Idle_thread cpu"
    and inv3: "sched_inv {} (upd_thread new (\<lambda>th. th\<lparr>t_state := THREAD_RUNNING\<rparr>) s2)"
    and th2: "threads s2 = (threads s1)(new := (threads s1 new)\<lparr>queue_node := False\<rparr>)"
    and F: "current s2 = current s1" "wqs s2 = wqs s1" "thread_list s2 = thread_list s1" "thread_lock s2 = thread_lock s1"
    "ints_disabled s2 = ints_disabled s1" "freed s2 = freed s1" "delayed_free s2 = delayed_free s1"
    "cur_time s2 = cur_time s1" "active_cpus s2 = active_cpus s1" "ipi_pending s2 = ipi_pending s1"
    "now_hires s2 = now_hires s1" "kstate.more s2 = kstate.more s1" "timers s2 = timers s1" "timer_queue s2 = timer_queue s1"
    using pick_next [OF i1(1,2), of cpu old] old st by (simp add: S) metis
  define s3 where "s3 = upd_thread new (\<lambda>th. th\<lparr>t_state := THREAD_RUNNING\<rparr>) s2"
  note new = new [unfolded S(1)]
  have th3: "threads s3 = (threads s)(new := (threads s new)\<lparr>queue_node := False, t_state := THREAD_RUNNING\<rparr>)"
    by (simp add: s3_def th2 S)
  have F3: "current s3 = current s" "wqs s3 = wqs s" "thread_list s3 = thread_list s" "thread_lock s3 = thread_lock s"
    "ints_disabled s3 = ints_disabled s" "freed s3 = freed s" "delayed_free s3 = delayed_free s"
    "cur_time s3 = cur_time s" "active_cpus s3 = active_cpus s" "ipi_pending s3 = ipi_pending s"
    "now_hires s3 = now_hires s" "kstate.more s3 = kstate.more s" "timers s3 = timers s" "timer_queue s3 = timer_queue s"
    by (simp_all add: s3_def F s1_def)
  have wf3: "timer_wf b s3" using K(5) timer_wf_cong [of s3 s] by (simp add: F3)
  have P: "tm_magic (timers s (TM_preempt cpu)) = TIMER_MAGIC"
    "thread_is_real_time_or_idle (threads s old) \<longrightarrow> timer_off (timers s (TM_preempt cpu))"
    using K(4) old unfolding preempt_inv_def by blast+
  have flags: "t_flags (threads s3 u) = t_flags (threads s u)" "stack_mem (threads s3 u) = stack_mem (threads s u)" for u
    by (simp_all add: th3)
  have rt: "thread_is_real_time_or_idle (threads s3 u) = thread_is_real_time_or_idle (threads s u)" for u
    by (simp add: thread_is_real_time_or_idle_def has_flag_def flags)
  have fst: "new = fst (get_top_thread cpu s)" using top fst_get_top_thread_stats unfolding s1_def by (metis fst_conv)
  have "thread_is_idle (threads s new) \<longrightarrow> new = Idle_thread cpu" using new(3) by blast
  note fin = switched_inI [OF kc lk ints old st ck new(1,2) this fst]
  show ?thesis
  proof (cases "new = old")
    case True
    have run: "thread_resched cpu s = Some s3"
      using True old lk ints st top [unfolded s1_def] by (simp add: thread_resched_def s3_def)
    have sw: "switched cpu old new s s3"
      using True old K(2) by (auto simp: switched_def F3 th3 cur_inv_def)
    have "switched_in b cpu s3"
      using P True by (intro fin [OF sw inv3 [folded s3_def] wf3]) (simp_all add: F3)
    then show ?thesis using run fst sw new by blast
  next
    case False
    have "stack_inv s3" using K(7) by (simp add: stack_inv_def has_flag_def stack_guard_intact_def flags)
    moreover have "thread_lock s3" "tm_magic (timers s3 (TM_preempt cpu)) = TIMER_MAGIC"
      "thread_is_real_time_or_idle (threads s3 old) \<longrightarrow> timer_off (timers s3 (TM_preempt cpu))"
      "in_window b (cur_time s3 + 10)" "t_state (threads s3 new) = THREAD_RUNNING"
      using lk P time by (simp_all only: F3 rt) (simp add: th3)
    ultimately obtain s' where ex: "(do {
         s5 \<leftarrow> resched_preempt_timer cpu old new (resched_account cpu old new s3);
         let s6 = s5\<lparr>current := (current s5)(cpu := Some new)\<rparr>;
         guard_that (has_flag (threads s6 old) 32 \<longrightarrow> stack_guard_intact (threads s6 old));
         if aspace (threads s6 new) \<noteq> aspace (threads s6 old)
         then vmm_context_switch cpu (aspace (threads s6 old)) (aspace (threads s6 new)) s6
         else Some s6 }) = Some s'" and sw3: "switched cpu old new s3 s'"
      and inv': "sched_inv {} s'" "timer_wf b s'" and p: "tm_magic (timers s' (TM_preempt cpu)) = TIMER_MAGIC"
      "thread_is_real_time_or_idle (threads s3 new) \<longrightarrow> timer_off (timers s' (TM_preempt cpu))"
      "\<not> timer_off (timers s' (TM_preempt cpu)) \<longrightarrow> timers s' (TM_preempt cpu) = timers s3 (TM_preempt cpu) \<or>
       tm_callback (timers s' (TM_preempt cpu)) = Some CB_thread_timer_tick"
      using resched_tail [OF False _ wf3 _ _ _ _ inv3 [folded s3_def]] by blast
    have run: "thread_resched cpu s = Some s'"
      using False old lk ints st top [unfolded s1_def] ex by (simp add: thread_resched_def s3_def)
    have sw: "switched cpu old new s s'"
      using sw3 by (auto simp: switched_def F3 th3)
    have "switched_in b cpu s'" by (rule fin [OF sw inv' p [unfolded rt F3]])
    then show ?thesis using run fst sw new by blast
  qed
qed

end
