(* ===== verification/Wait_Queue.thy ===== *)
theory Wait_Queue
  imports Kernel_Inv
begin

text \<open>
  The wait queues of \<open>kernel/thread.c\<close> (\<open>include/kernel/wait.h\<close>) and the timer callbacks of the
  scheduler. A blocking call is split at its context switch: the part up to the switch, and a tail
  that the thread runs when it is switched in again.
\<close>

section \<open>The operations\<close>

text \<open>
  \<open>wait_queue_block\<close> called by \<open>k\<close>, which took the lock with saved interrupt state \<open>i\<close>: the result is
  \<open>Some ERR_TIMED_OUT\<close> when it returns at once, \<open>None\<close> when the thread is switched out.
\<close>

definition wait_queue_block ::
  "wq_caller \<Rightarrow> bool \<Rightarrow> nat \<Rightarrow> wqid \<Rightarrow> u32 \<Rightarrow> 'a kstate_scheme \<Rightarrow> (status option \<times> 'a kstate_scheme) option" where
  "wait_queue_block k i cpu w timeout s = do {
     t \<leftarrow> current s cpu;
     guard_that (wq_magic (wqs s w) = WAIT_QUEUE_MAGIC);
     guard_that (t_state (threads s t) = THREAD_RUNNING);
     guard_that (ints_disabled s cpu);
     guard_that (thread_lock s);
     if timeout = 0 then Some (Some ERR_TIMED_OUT, s)
     else do {
       let s1 = upd_wq w (\<lambda>q. q\<lparr>wq_list := wq_list q @ [t], wq_count := wq_count q + 1\<rparr>) s;
       let s2 = upd_thread t (\<lambda>th. th\<lparr>queue_node := True, t_state := THREAD_BLOCKED,
                  blocking_wait_queue := Some w, wait_queue_block_ret := NO_ERROR\<rparr>) s1;
       s3 \<leftarrow> (if timeout \<noteq> INFINITE_TIME
             then timer_set_oneshot cpu (TM_wait t) timeout CB_wait_queue_timeout (Arg_thread t)
                    (timer_initialize (TM_wait t) s2)
             else Some s2);
       s4 \<leftarrow> resched_then (K_wq_block timeout k i) cpu s3;
       Some (None, s4) } }"

definition wait_queue_block_tail :: "nat \<Rightarrow> u32 \<Rightarrow> 'a kstate_scheme \<Rightarrow> (status \<times> 'a kstate_scheme) option" where
  "wait_queue_block_tail cpu timeout s = do {
     t \<leftarrow> current s cpu;
     s1 \<leftarrow> (if timeout \<noteq> INFINITE_TIME then timer_cancel cpu (TM_wait t) s else Some s);
     Some (wait_queue_block_ret (threads s1 t), s1) }"

definition wait_queue_wake_one ::
  "cont \<Rightarrow> nat \<Rightarrow> wqid \<Rightarrow> bool \<Rightarrow> status \<Rightarrow> 'a kstate_scheme \<Rightarrow> (int \<times> 'a kstate_scheme) option" where
  "wait_queue_wake_one k cpu w reschedule err s = do {
     ct \<leftarrow> current s cpu;
     guard_that (wq_magic (wqs s w) = WAIT_QUEUE_MAGIC);
     guard_that (ints_disabled s cpu);
     guard_that (thread_lock s);
     case wq_list (wqs s w) of
       [] \<Rightarrow> Some (0, s)
     | t # rest \<Rightarrow> do {
         let s1 = upd_wq w (\<lambda>q. q\<lparr>wq_list := rest, wq_count := wq_count q - 1\<rparr>) s;
         guard_that (t_state (threads s1 t) = THREAD_BLOCKED);
         let s2 = upd_thread t (\<lambda>th. th\<lparr>queue_node := False, t_state := THREAD_READY,
                    wait_queue_block_ret := err, blocking_wait_queue := None\<rparr>) s1;
         s3 \<leftarrow> (if reschedule
               then insert_in_run_queue_head cpu ct (upd_thread ct (\<lambda>th. th\<lparr>t_state := THREAD_READY\<rparr>) s2)
               else Some s2);
         s4 \<leftarrow> insert_in_run_queue_head cpu t s3;
         let s5 = wakeup_cpu_for_thread cpu t s4;
         s6 \<leftarrow> (if reschedule then resched_then k cpu s5 else Some s5);
         Some (1, s6) } }"

text \<open>The loop of \<open>wait_queue_wake_all\<close> over the threads of the queue: the cpu mask and the count.\<close>

fun wake_all_loop ::
  "nat \<Rightarrow> wqid \<Rightarrow> status \<Rightarrow> tid list \<Rightarrow> u32 \<Rightarrow> int \<Rightarrow> 'a kstate_scheme \<Rightarrow> (u32 \<times> int \<times> 'a kstate_scheme) option" where
  "wake_all_loop cpu w err [] cpu_mask ret s = Some (cpu_mask, ret, s)"
| "wake_all_loop cpu w err (t # rest) cpu_mask ret s = do {
     let s1 = upd_wq w (\<lambda>q. q\<lparr>wq_list := rest, wq_count := wq_count q - 1\<rparr>) s;
     guard_that (t_state (threads s1 t) = THREAD_BLOCKED);
     let s2 = upd_thread t (\<lambda>th. th\<lparr>queue_node := False, t_state := THREAD_READY,
                wait_queue_block_ret := err, blocking_wait_queue := None\<rparr>) s1;
     let pinned = pinned_cpu (threads s2 t);
     let mask = (if pinned < 0 then MP_CPU_ALL_BUT_LOCAL else cpu_mask OR push_bit (nat pinned) 1);
     s3 \<leftarrow> insert_in_run_queue_head cpu t s2;
     wake_all_loop cpu w err rest mask (ret + 1) s3 }"

definition wait_queue_wake_all ::
  "cont \<Rightarrow> nat \<Rightarrow> wqid \<Rightarrow> bool \<Rightarrow> status \<Rightarrow> 'a kstate_scheme \<Rightarrow> (int \<times> 'a kstate_scheme) option" where
  "wait_queue_wake_all k cpu w reschedule err s = do {
     ct \<leftarrow> current s cpu;
     guard_that (wq_magic (wqs s w) = WAIT_QUEUE_MAGIC);
     guard_that (ints_disabled s cpu);
     guard_that (thread_lock s);
     s1 \<leftarrow> (if reschedule \<and> wq_count (wqs s w) > 0
           then insert_in_run_queue_head cpu ct (upd_thread ct (\<lambda>th. th\<lparr>t_state := THREAD_READY\<rparr>) s)
           else Some s);
     (cpu_mask, ret, s2) \<leftarrow> wake_all_loop cpu w err (wq_list (wqs s1 w)) 0 0 s1;
     guard_that (wq_count (wqs s2 w) = 0);
     s3 \<leftarrow> (if ret > 0
           then (let s3 = mp_reschedule cpu cpu_mask 0 s2
                 in if reschedule then resched_then k cpu s3 else Some s3)
           else Some s2);
     Some (ret, s3) }"

text \<open>
  \<open>wait_queue_destroy\<close> up to a context switch in \<open>wait_queue_wake_all\<close>; the magic is cleared by the
  tail, at once when there was no switch.
\<close>

definition wait_queue_destroy_tail :: "wqid \<Rightarrow> 'a kstate_scheme \<Rightarrow> 'a kstate_scheme" where
  "wait_queue_destroy_tail w s = upd_wq w (\<lambda>q. q\<lparr>wq_magic := 0\<rparr>) s"

definition wait_queue_destroy ::
  "bool \<Rightarrow> nat \<Rightarrow> wqid \<Rightarrow> bool \<Rightarrow> 'a kstate_scheme \<Rightarrow> (bool \<times> 'a kstate_scheme) option" where
  "wait_queue_destroy i cpu w reschedule s = do {
     guard_that (wq_magic (wqs s w) = WAIT_QUEUE_MAGIC);
     guard_that (ints_disabled s cpu);
     guard_that (thread_lock s);
     (n, s1) \<leftarrow> wait_queue_wake_all (K_wq_destroy w i) cpu w reschedule ERR_OBJECT_DESTROYED s;
     if reschedule \<and> n > 0 then Some (True, s1) else Some (False, wait_queue_destroy_tail w s1) }"

definition thread_unblock_from_wait_queue ::
  "nat \<Rightarrow> tid \<Rightarrow> status \<Rightarrow> 'a kstate_scheme \<Rightarrow> (status \<times> 'a kstate_scheme) option" where
  "thread_unblock_from_wait_queue cpu t err s = do {
     guard_that (t_magic (threads s t) = THREAD_MAGIC);
     guard_that (ints_disabled s cpu);
     guard_that (thread_lock s);
     if t_state (threads s t) \<noteq> THREAD_BLOCKED then Some (ERR_NOT_BLOCKED, s)
     else do {
       w \<leftarrow> blocking_wait_queue (threads s t);
       guard_that (wq_magic (wqs s w) = WAIT_QUEUE_MAGIC);
       guard_that (queue_node (threads s t));
       let s1 = upd_wq w (\<lambda>q. q\<lparr>wq_list := remove1 t (wq_list q), wq_count := wq_count q - 1\<rparr>) s;
       let s2 = upd_thread t (\<lambda>th. th\<lparr>queue_node := False, blocking_wait_queue := None,
                  t_state := THREAD_READY, wait_queue_block_ret := err\<rparr>) s1;
       s3 \<leftarrow> insert_in_run_queue_head cpu t s2;
       Some (NO_ERROR, wakeup_cpu_for_thread cpu t s3) } }"

definition wait_queue_timeout_handler ::
  "nat \<Rightarrow> tid \<Rightarrow> 'a kstate_scheme \<Rightarrow> (handler_return \<times> 'a kstate_scheme) option" where
  "wait_queue_timeout_handler cpu t s = do {
     guard_that (t_magic (threads s t) = THREAD_MAGIC);
     guard_that (\<not> thread_lock s);
     (st, s1) \<leftarrow> thread_unblock_from_wait_queue cpu t ERR_TIMED_OUT (s\<lparr>thread_lock := True\<rparr>);
     Some (if st \<ge> NO_ERROR then INT_RESCHEDULE else INT_NO_RESCHEDULE, s1\<lparr>thread_lock := False\<rparr>) }"

text \<open>The dispatch through the function pointer of a timer; other callbacks are not the kernel's.\<close>

definition run_timer_callback ::
  "nat \<Rightarrow> timer_cb \<Rightarrow> timer_id \<Rightarrow> u32 \<Rightarrow> karg \<Rightarrow> 'a kstate_scheme \<Rightarrow> (handler_return \<times> 'a kstate_scheme) option" where
  "run_timer_callback cpu cb tm now arg s =
     (case (cb, arg) of
        (CB_thread_timer_tick, _) \<Rightarrow> thread_timer_tick cpu s
      | (CB_thread_sleep, Arg_thread t) \<Rightarrow> thread_sleep_handler cpu t s
      | (CB_wait_queue_timeout, Arg_thread t) \<Rightarrow> wait_queue_timeout_handler cpu t s
      | _ \<Rightarrow> None)"

end
