(* ===== verification/Thread_Inv.thy ===== *)
theory Thread_Inv
  imports Wait_Queue
begin

text \<open>
  The operations of thread.c on the whole state: from a state at rest that satisfies the invariant
  every operation reaches its context switch, or returns, without a failed assertion, and the
  incoming thread's continuation restores the state at rest.
\<close>

section \<open>Changes that keep the invariant\<close>

definition kview :: "thread \<Rightarrow> nat \<times> thread_state \<times> (bool \<times> bool \<times> bool) \<times> int \<times> cont \<times> u8 list" where
  "kview th = (t_magic th, t_state th, (bit (t_flags th) 3, bit (t_flags th) 4, bit (t_flags th) 5),
     curr_cpu th, t_cont th, stack_mem th)"

lemma kview_preds:
  assumes "kview a = kview b"
  shows "thread_is_idle a = thread_is_idle b" "thread_is_real_time_or_idle a = thread_is_real_time_or_idle b"
    "has_flag a THREAD_FLAG_DEBUG_STACK_BOUNDS_CHECK = has_flag b THREAD_FLAG_DEBUG_STACK_BOUNDS_CHECK"
    "stack_guard_intact a = stack_guard_intact b"
    "timed_block a = timed_block b" "blocked_cont a = blocked_cont b"
    "t_magic a = t_magic b" "t_state a = t_state b" "curr_cpu a = curr_cpu b" "t_cont a = t_cont b"
    "cont_ok a = cont_ok b"
  using assms by (simp_all add: kview_def thread_is_idle_bit thread_is_real_time_or_idle_bit has_flag_def
      stack_guard_intact_def timed_block_def blocked_cont_def cont_ok_def)

lemma kstat_cong:
  assumes "\<And>t. kview (threads s' t) = kview (threads s t)" "current s' = current s" "timers s' = timers s"
  shows "kstat X Y s' = kstat X Y s"
  unfolding kstat_def cur_inv_def idle_inv_def preempt_inv_def timers_inv_def timer_good_def stack_inv_def cont_inv_def
  by (simp add: kview_preds [OF assms(1)] assms(2-) cong: timer_id.case_cong)

lemma kbase_cong:
  assumes "\<And>t. kview (threads s' t) = kview (threads s t)" "current s' = current s"
    "timers s' = timers s" "timer_queue s' = timer_queue s"
  shows "kbase b X Y s' = kbase b X Y s"
  unfolding kbase_def using kstat_cong [OF assms(1-3)] timer_wf_cong [OF assms(3,4)] by simp

lemma kcore_cong:
  assumes "threads s' = threads s" "current s' = current s" "timers s' = timers s" "timer_queue s' = timer_queue s"
    "run_queue s' = run_queue s" "run_queue_bitmap s' = run_queue_bitmap s" "wqs s' = wqs s"
  shows "kcore b X Y s' = kcore b X Y s"
  using assms sched_inv_cong [of s' s "{}"] kbase_cong [of s' s b X Y] by (simp add: kcore_def)

text \<open>A blocked or suspended thread becomes ready.\<close>

lemma thread_state_preds [simp]:
  "thread_is_idle (th\<lparr>t_state := x\<rparr>) = thread_is_idle th"
  "thread_is_real_time_or_idle (th\<lparr>t_state := x\<rparr>) = thread_is_real_time_or_idle th"
  "has_flag (th\<lparr>t_state := x\<rparr>) f = has_flag th f" "stack_guard_intact (th\<lparr>t_state := x\<rparr>) = stack_guard_intact th"
  "timed_block (th\<lparr>t_state := x\<rparr>) = timed_block th" "blocked_cont (th\<lparr>t_state := x\<rparr>) = blocked_cont th"
  by (simp_all add: thread_is_idle_def thread_is_real_time_or_idle_def has_flag_def
      stack_guard_intact_def timed_block_def blocked_cont_def)

lemma kstat_ready:
  assumes k: "kstat X Y s" and t: "live s t" "t_state (threads s t) \<in> {THREAD_BLOCKED, THREAD_SUSPENDED}"
    and th: "threads s' = (threads s)(t := th')" "kview th' = kview ((threads s t)\<lparr>t_state := THREAD_READY\<rparr>)"
    and fr: "current s' = current s" "timers s' = timers s"
  shows "kstat X Y s'"
proof -
  define s1 where "s1 = upd_thread t (\<lambda>th. th\<lparr>t_state := THREAD_READY\<rparr>) s"
  note K = kstatD [OF k]
  have "cur_inv X s1" using K(1) t unfolding cur_inv_def s1_def by (auto split: if_splits)
  moreover have "idle_inv s1" using K(2) t unfolding idle_inv_def s1_def by auto
  moreover have "preempt_inv s1" using K(3) unfolding preempt_inv_def s1_def by simp
  moreover have "timers_inv s1"
    using K(4) t unfolding timers_inv_def timer_good_def s1_def by (auto split: timer_id.splits)
  moreover have "stack_inv s1" using K(5) unfolding stack_inv_def s1_def by simp
  moreover have "cont_inv Y s1" using K(6) t unfolding cont_inv_def s1_def by (auto simp: cont_ok_def)
  ultimately have "kstat X Y s1" by (simp add: kstat_def)
  moreover have "kview (threads s' u) = kview (threads s1 u)" for u using th by (simp add: s1_def)
  ultimately show ?thesis using kstat_cong [of s' s1] fr by (simp add: s1_def)
qed

lemma kbase_ready:
  assumes k: "kbase b X Y s" and t: "live s t" "t_state (threads s t) \<in> {THREAD_BLOCKED, THREAD_SUSPENDED}"
    and th: "threads s' = (threads s)(t := th')" "kview th' = kview ((threads s t)\<lparr>t_state := THREAD_READY\<rparr>)"
    and fr: "current s' = current s" "timers s' = timers s" "timer_queue s' = timer_queue s"
  shows "kbase b X Y s'"
  using kstat_ready [OF kbaseD(8) [OF k] t th fr(1,2)] timer_wf_cong [OF fr(2,3)] k by (simp add: kbase_def)

text \<open>The current thread of \<open>cpu\<close> leaves the running state.\<close>

lemma kbase_leave:
  assumes k: "kbase b {} {} s" and cur: "current s cpu = Some t"
    and th: "threads s' = (threads s)(t := th')" and fr: "current s' = current s"
    and same: "curr_cpu th' = curr_cpu (threads s t)" "thread_is_idle th' = thread_is_idle (threads s t)"
      "thread_is_real_time_or_idle th' = thread_is_real_time_or_idle (threads s t)"
    and st: "t_state th' \<noteq> THREAD_RUNNING"
    and idle: "thread_is_idle (threads s t) \<longrightarrow> t_magic th' = THREAD_MAGIC \<and> t_state th' = THREAD_READY"
    and tm: "timer_wf b s'" "timers_inv s'" "\<And>c. timers s' (TM_preempt c) = timers s (TM_preempt c)"
    and stack: "has_flag th' THREAD_FLAG_DEBUG_STACK_BOUNDS_CHECK \<longrightarrow> stack_guard_intact th'"
  shows "kbase b {cpu} {cpu} s'"
proof -
  note K = kbaseD [OF k]
  have run: "live s t" "t_state (threads s t) = THREAD_RUNNING" using K(1) cur unfolding cur_inv_def by blast+
  have on: "curr_cpu (threads s u) = int c" if "current s c = Some u" for c u
    using that K(1) unfolding cur_inv_def by blast
  have inj: "current s c = Some t \<Longrightarrow> c = cpu" for c using on [of c t] on [OF cur] by simp
  have "curr_cpu (threads s' u) = int c" if "current s c = Some u" for c u
    using on [OF that] same(1) unfolding th by (cases "u = t") simp_all
  moreover have "live s' u \<and> t_state (threads s' u) = THREAD_RUNNING" if "c \<noteq> cpu" "current s c = Some u" for c u
    using that K(1) inj [of c] unfolding cur_inv_def th by (cases "u = t") simp_all
  moreover have "\<exists>c. c \<noteq> cpu \<and> current s c = Some u" if "live s' u" "t_state (threads s' u) = THREAD_RUNNING" for u
  proof -
    have "u \<noteq> t" using that st th by auto
    then have "live s u" "t_state (threads s u) = THREAD_RUNNING" using that th by auto
    then obtain c where "current s c = Some u" using K(1) unfolding cur_inv_def by blast
    then show ?thesis using \<open>u \<noteq> t\<close> cur by (intro exI [of _ c]) auto
  qed
  ultimately have "cur_inv {cpu} s'" unfolding cur_inv_def fr by blast
  moreover have "idle_inv s'"
  proof (cases "thread_is_idle (threads s t)")
    case True
    then obtain c where c: "t = Idle_thread c" "current s c \<noteq> None" using K(2) run unfolding idle_inv_def by blast
    then show ?thesis using K(2) True idle same(2) unfolding idle_inv_def fr th by auto
  next
    case False
    then have "t \<noteq> Idle_thread c" if "current s c \<noteq> None" for c using K(2) that unfolding idle_inv_def by blast
    then show ?thesis using K(2) False same(2) unfolding idle_inv_def fr th by auto
  qed
  moreover have "preempt_inv s'" using K(3) same(3) unfolding preempt_inv_def fr th tm(3) by auto
  moreover have "stack_inv s'" using K(6) stack unfolding stack_inv_def th by simp
  moreover have "cont_inv {cpu} s'"
  proof -
    have "cont_ok (threads s' u)" if "live s' u" "current s cpu \<noteq> Some u" for u
      using that K(7) cur unfolding cont_inv_def th by (cases "u = t") auto
    moreover have "t_cont (threads s' u) = K_none" if "c \<noteq> cpu" "current s c = Some u" for c u
      using that K(7) inj [of c] unfolding cont_inv_def th by (cases "u = t") auto
    ultimately show ?thesis unfolding cont_inv_def fr by blast
  qed
  ultimately show ?thesis using tm by (simp add: kbase_def kstat_def)
qed

text \<open>A running thread has no queued timer of its own, so leaving keeps the timers consistent.\<close>

lemma running_no_timers:
  assumes k: "kbase b {} {} s" and cur: "current s cpu = Some t"
  shows "\<not> tm_linked (timers s (TM_sleep t))" "\<not> tm_linked (timers s (TM_wait t))"
    "live s t" "t_state (threads s t) = THREAD_RUNNING" "t_cont (threads s t) = K_none"
proof -
  note K = kbaseD [OF k]
  show t: "live s t" "t_state (threads s t) = THREAD_RUNNING" "t_cont (threads s t) = K_none"
    using K(1,7) cur unfolding cur_inv_def cont_inv_def by blast+
  show "\<not> tm_linked (timers s (TM_sleep t))" "\<not> tm_linked (timers s (TM_wait t))"
    using K(5) t unfolding timers_inv_def timer_good_def by (fastforce simp: timed_block_def)+
qed

lemma timers_inv_leave:
  assumes k: "kbase b {} {} s" and cur: "current s cpu = Some t"
    and th: "threads s' = (threads s)(t := th')" and tm: "timers s' = timers s"
    and st: "t_state th' \<noteq> THREAD_SLEEPING" "\<not> timed_block th'"
  shows "timers_inv s'"
proof -
  note R = running_no_timers [OF k cur]
  have ti: "timers_inv s" using kbaseD(5) [OF k] .
  have "timer_good s' tm" if l: "tm_linked (timers s tm)" for tm
  proof -
    have "timer_good s tm" using ti l unfolding timers_inv_def by blast
    moreover have "tm \<noteq> TM_sleep t" "tm \<noteq> TM_wait t" using l R by auto
    ultimately show ?thesis by (auto simp: timer_good_def th tm split: timer_id.splits)
  qed
  then show ?thesis using ti st unfolding timers_inv_def th tm by auto
qed

section \<open>Switching with a continuation\<close>

lemma resched_then_ok:
  assumes R: "region b cpu (upd_thread t (\<lambda>th. th\<lparr>t_cont := k\<rparr>) s)" and cur: "current s cpu = Some t"
    and time: "in_window b (cur_time s + 10)"
  shows "\<exists>s' new. resched_then k cpu s = Some s' \<and> new = fst (get_top_thread cpu (upd_thread t (\<lambda>th. th\<lparr>t_cont := k\<rparr>) s)) \<and>
    switched cpu t new (upd_thread t (\<lambda>th. th\<lparr>t_cont := k\<rparr>) s) s' \<and> switched_in b cpu s'"
proof -
  have "\<exists>s' new. thread_resched cpu (upd_thread t (\<lambda>th. th\<lparr>t_cont := k\<rparr>) s) = Some s' \<and>
    new = fst (get_top_thread cpu (upd_thread t (\<lambda>th. th\<lparr>t_cont := k\<rparr>) s)) \<and>
    switched cpu t new (upd_thread t (\<lambda>th. th\<lparr>t_cont := k\<rparr>) s) s' \<and> switched_in b cpu s'"
    using thread_resched_ok [OF R, of t] cur time by auto
  then show ?thesis using cur by (simp add: resched_then_def)
qed

text \<open>The end of a call: the continuation is done, the lock is released.\<close>

definition end_call :: "nat \<Rightarrow> bool \<Rightarrow> status \<Rightarrow> 'a kstate_scheme \<Rightarrow> 'a kstate_scheme option" where
  "end_call cpu i ret s = do {
     t \<leftarrow> current s cpu;
     Some (THREAD_UNLOCK cpu i (upd_thread t (\<lambda>th. th\<lparr>t_cont := K_none, call_ret := ret\<rparr>) s)) }"

lemma end_call_ok:
  assumes k: "kcore b {} {cpu} s" and cur: "current s cpu = Some t" and nl: "\<not> tm_linked (timers s (TM_wait t))"
  shows "\<exists>s'. end_call cpu i ret s = Some s' \<and> kinv b s' \<and>
    threads s' = (threads s)(t := (threads s t)\<lparr>t_cont := K_none, call_ret := ret\<rparr>) \<and>
    wqs s' = wqs s \<and> current s' = current s \<and> cur_time s' = cur_time s \<and> thread_list s' = thread_list s \<and>
    freed s' = freed s \<and> delayed_free s' = delayed_free s \<and> kstate.more s' = kstate.more s"
proof -
  note K = kcoreD [OF k]
  let ?f = "\<lambda>th. th\<lparr>t_cont := K_none, call_ret := ret\<rparr>"
  let ?s' = "THREAD_UNLOCK cpu i (upd_thread t ?f s)"
  have run: "live s t" "t_state (threads s t) = THREAD_RUNNING" using K(2) cur unfolding cur_inv_def by blast+
  have p [simp]: "thread_is_idle (?f th) = thread_is_idle th" "has_flag (?f th) f = has_flag th f"
    "thread_is_real_time_or_idle (?f th) = thread_is_real_time_or_idle th" "\<not> timed_block (?f th)"
    "stack_guard_intact (?f th) = stack_guard_intact th" "\<not> blocked_cont (?f th)"
    "sched_view (?f th) = sched_view th" for th f
    by (simp_all add: thread_is_idle_def thread_is_real_time_or_idle_def has_flag_def
        stack_guard_intact_def timed_block_def blocked_cont_def sched_view_def)
  have [simp]: "threads ?s' = (threads s)(t := ?f (threads s t))" "wqs ?s' = wqs s" "current ?s' = current s"
    "cur_time ?s' = cur_time s" "kstate.more ?s' = kstate.more s" "timers ?s' = timers s" "thread_lock ?s' = False"
    "timer_queue ?s' = timer_queue s" "run_queue ?s' = run_queue s" "run_queue_bitmap ?s' = run_queue_bitmap s"
    "thread_list ?s' = thread_list s" "freed ?s' = freed s" "delayed_free ?s' = delayed_free s"
    by (simp_all add: THREAD_UNLOCK_def)
  have "sched_inv {} ?s'" using K(1) sched_inv_cong [of ?s' s "{}"] by simp
  moreover have "cur_inv {} ?s'" using K(2) unfolding cur_inv_def by simp
  moreover have "idle_inv ?s'" using K(3) unfolding idle_inv_def by auto
  moreover have "preempt_inv ?s'" using K(4) unfolding preempt_inv_def by simp
  moreover have "timer_wf b ?s'" using K(5) timer_wf_cong [of ?s' s] by simp
  moreover have "timers_inv ?s'"
    using K(6) nl run unfolding timers_inv_def timer_good_def by (auto split: timer_id.splits)
  moreover have "stack_inv ?s'" using K(7) unfolding stack_inv_def by simp
  moreover have "cont_inv {} ?s'" using K(8) run cur unfolding cont_inv_def
    by (auto simp: cont_ok_def; metis option.inject)
  ultimately show ?thesis using cur by (simp add: kinv_def kcore_def kbase_def kstat_def end_call_def)
qed

section \<open>The current thread becomes ready\<close>

lemma leave_ready_region:
  assumes inv: "kcore b {} {} s" and cur: "current s cpu = Some t" and ni: "\<not> thread_is_idle (threads s t)"
    and fr: "threads s3 = (threads s)(t := th3)" "current s3 = current s" "timers s3 = timers s"
      "timer_queue s3 = timer_queue s" "run_queue s3 = run_queue s" "run_queue_bitmap s3 = run_queue_bitmap s"
      "wqs s3 = wqs s" "thread_lock s3" "ints_disabled s3 cpu"
    and th3: "t_magic th3 = THREAD_MAGIC" "t_state th3 = THREAD_READY" "queue_node th3 = queue_node (threads s t)"
      "0 \<le> priority th3" "priority th3 < 32" "t_flags th3 = t_flags (threads s t)"
      "curr_cpu th3 = curr_cpu (threads s t)" "stack_mem th3 = stack_mem (threads s t)"
    and k: "k \<noteq> K_none" "\<And>timeout c i. k \<noteq> K_wq_block timeout c i"
    and ins: "\<And>q. set (ins q) = insert t (set q)" "\<And>q. t \<notin> set q \<Longrightarrow> distinct q \<Longrightarrow> distinct (ins q)"
  shows "region b cpu (upd_thread t (\<lambda>th. th\<lparr>t_cont := k\<rparr>) (enqueued ins t s3))" (is "region b cpu ?s'")
proof -
  have k0: "kbase b {} {} s" and i0: "sched_inv {} s" using kcoreD [OF inv] by auto
  note R = running_no_timers [OF k0 cur]
  have i1: "sched_inv {t} s" using sched_inv_out [OF i0] R(4) by (simp add: runnable_def)
  have qn: "\<not> queue_node (threads s t)" using sched_invD(8) [OF i1 R(3)] by simp
  have "sched_inv {t} (upd_thread t (\<lambda>_. th3) s)" using th3(3) qn by (intro sched_inv_upd [OF i1]) auto
  then have "sched_inv {t} s3" using sched_inv_cong [of s3 "upd_thread t (\<lambda>_. th3) s"] fr by simp
  then have "sched_inv {} (enqueued ins t s3)"
    using sched_inv_enqueued [of "{t}" s3 t ins] th3 ni ins fr(1)
    by (simp add: runnable_def thread_is_idle_def has_flag_def)
  then have 1: "sched_inv {} ?s'"
    using sched_inv_cong [of ?s' "enqueued ins t s3"] by (simp add: sched_view_def thread_is_idle_def has_flag_def)
  define th' where "th' = th3\<lparr>queue_node := True, t_cont := k\<rparr>"
  have p: "thread_is_idle th' = thread_is_idle (threads s t)" "has_flag th' f = has_flag (threads s t) f"
    "thread_is_real_time_or_idle th' = thread_is_real_time_or_idle (threads s t)"
    "stack_guard_intact th' = stack_guard_intact (threads s t)" for f
    using th3 by (simp_all add: th'_def thread_is_idle_def thread_is_real_time_or_idle_def has_flag_def stack_guard_intact_def)
  have nb: "\<not> timed_block th'" "\<not> blocked_cont th'"
    using k by (simp_all add: th'_def timed_block_def blocked_cont_def split: cont.splits)
  have th: "threads ?s' = (threads s)(t := th')" "current ?s' = current s" by (simp_all add: fr th'_def)
  have "timers_inv ?s'"
    using nb th3 by (intro timers_inv_leave [OF k0 cur th(1)]) (simp_all add: fr th'_def)
  then have "kbase b {cpu} {cpu} ?s'"
    using th3 ni p nb k kbaseD(4,6) [OF k0] timer_wf_cong [of ?s' s]
    by (intro kbase_leave [OF k0 cur th]) (simp_all add: stack_inv_def fr, simp_all add: th'_def)
  then show ?thesis using 1 cur th3 fr nb k
    by (simp add: region_def kcore_def cont_ok_def)
qed

lemma leave_idle_region:
  assumes inv: "kcore b {} {} s" and cur: "current s cpu = Some t" and idle: "thread_is_idle (threads s t)"
    and fr: "threads s3 = (threads s)(t := th3)" "current s3 = current s" "timers s3 = timers s"
      "timer_queue s3 = timer_queue s" "run_queue s3 = run_queue s" "run_queue_bitmap s3 = run_queue_bitmap s"
      "wqs s3 = wqs s" "thread_lock s3" "ints_disabled s3 cpu"
    and th3: "t_magic th3 = THREAD_MAGIC" "t_state th3 = THREAD_READY" "queue_node th3 = queue_node (threads s t)"
      "priority th3 = priority (threads s t)" "t_flags th3 = t_flags (threads s t)"
      "curr_cpu th3 = curr_cpu (threads s t)" "stack_mem th3 = stack_mem (threads s t)"
    and k: "k \<noteq> K_none" "\<And>timeout c i. k \<noteq> K_wq_block timeout c i"
  shows "region b cpu (upd_thread t (\<lambda>th. th\<lparr>t_cont := k\<rparr>) s3)" (is "region b cpu ?s'")
proof -
  have k0: "kbase b {} {} s" and i0: "sched_inv {} s" using kcoreD [OF inv] by auto
  note R = running_no_timers [OF k0 cur]
  have i1: "sched_inv {t} s" using sched_inv_out [OF i0] R(4) by (simp add: runnable_def)
  have qn: "\<not> queue_node (threads s t)" using sched_invD(8) [OF i1 R(3)] by simp
  define th' where "th' = th3\<lparr>t_cont := k\<rparr>"
  have p: "thread_is_idle th' = thread_is_idle (threads s t)" "has_flag th' f = has_flag (threads s t) f"
    "thread_is_real_time_or_idle th' = thread_is_real_time_or_idle (threads s t)"
    "stack_guard_intact th' = stack_guard_intact (threads s t)" for f
    using th3 by (simp_all add: th'_def thread_is_idle_def thread_is_real_time_or_idle_def has_flag_def stack_guard_intact_def)
  have nb: "\<not> timed_block th'" "\<not> blocked_cont th'"
    using k by (simp_all add: th'_def timed_block_def blocked_cont_def split: cont.splits)
  have th: "threads ?s' = (threads s)(t := th')" "current ?s' = current s" by (simp_all add: fr th'_def)
  have "sched_inv {t} (upd_thread t (\<lambda>_. th') s)" using th3(3) qn by (intro sched_inv_upd [OF i1]) (auto simp: th'_def)
  then have 2: "sched_inv {t} ?s'" using sched_inv_cong [of ?s' "upd_thread t (\<lambda>_. th') s"] by (simp add: fr th'_def)
  have 1: "sched_inv {} ?s'"
    using sched_inv_in [OF 2, of t] sched_invD(9) [OF i0, of t] R(3) th3 p(1) idle
    by (simp add: runnable_def fr(1) th'_def)
  have "timers_inv ?s'"
    using nb th3 by (intro timers_inv_leave [OF k0 cur th(1)]) (simp_all add: fr th'_def)
  then have "kbase b {cpu} {cpu} ?s'"
    using th3 idle p nb k kbaseD(4,6) [OF k0] timer_wf_cong [of ?s' s]
    by (intro kbase_leave [OF k0 cur th]) (simp_all add: stack_inv_def fr, simp_all add: th'_def)
  then show ?thesis using 1 cur th3 fr nb k
    by (simp add: region_def kcore_def cont_ok_def)
qed

section \<open>Yielding, preemption and priorities\<close>

text \<open>
  The result of an operation that ends in a context switch from \<open>t\<close>: the scheduler ran, the calling
  thread waits with continuation \<open>k\<close>, the calls of the other threads and the wait queues are as
  before.
\<close>

definition cview :: "thread \<Rightarrow> thread \<times> bool \<times> bool" where
  "cview th = (core (th\<lparr>priority := 0\<rparr>), t_state th = THREAD_BLOCKED, t_state th = THREAD_DEATH)"

lemma cview_eqD:
  assumes "cview a = cview b"
  shows "t_magic a = t_magic b" "t_flags a = t_flags b" "blocking_wait_queue a = blocking_wait_queue b"
    "wait_queue_block_ret a = wait_queue_block_ret b" "t_stack a = t_stack b" "retcode a = retcode b"
    "t_cont a = t_cont b" "call_ret a = call_ret b" "out_retcode a = out_retcode b"
    "t_state a = THREAD_BLOCKED \<longleftrightarrow> t_state b = THREAD_BLOCKED" "t_state a = THREAD_DEATH \<longleftrightarrow> t_state b = THREAD_DEATH"
  using assms core_eqD [of "a\<lparr>priority := 0\<rparr>" "b\<lparr>priority := 0\<rparr>"] by (simp_all add: cview_def)

lemma cview_upd:
  assumes "cview a = cview b"
  shows "cview (a\<lparr>t_cont := k\<rparr>) = cview (b\<lparr>t_cont := k\<rparr>)" "cview (a\<lparr>t_state := x\<rparr>) = cview (b\<lparr>t_state := x\<rparr>)"
  using assms by (cases a; cases b; simp add: cview_def core_def)+

lemma cview_simps [simp]:
  "cview (th\<lparr>queue_node := q\<rparr>) = cview th"
  "cview (th\<lparr>t_state := x, t_cont := k\<rparr>) = cview (th\<lparr>t_cont := k, t_state := x\<rparr>)"
  by (simp_all add: cview_def core_def)

definition yielded :: "cont \<Rightarrow> nat \<Rightarrow> tid \<Rightarrow> 'a kstate_scheme \<Rightarrow> 'a kstate_scheme \<Rightarrow> bool" where
  "yielded k cpu t s s' \<longleftrightarrow>
     (\<exists>new. current s' = (current s)(cpu := Some new)) \<and>
     (\<forall>u. u \<noteq> t \<longrightarrow> cview (threads s' u) = cview (threads s u)) \<and>
     cview (threads s' t) = cview ((threads s t)\<lparr>t_cont := k, t_state := THREAD_READY\<rparr>) \<and>
     wqs s' = wqs s \<and> cur_time s' = cur_time s \<and> thread_list s' = thread_list s \<and> freed s' = freed s \<and> delayed_free s' = delayed_free s \<and>
     kstate.more s' = kstate.more s"

lemma switched_cview:
  assumes "switched cpu old new s s'" "t_state (threads s new) \<in> {THREAD_READY, THREAD_RUNNING}"
  shows "cview (threads s' u) = cview (threads s u)"
proof -
  have "core ((threads s' u)\<lparr>priority := 0\<rparr>) = core ((threads s u)\<lparr>priority := 0\<rparr>)"
    using switchedD(2) [OF assms(1), of u] by (cases "threads s' u"; cases "threads s u"; simp add: core_def)
  then show ?thesis using switchedD(3) [OF assms(1), of u] assms(2) by (auto simp: cview_def)
qed

lemma top_ready:
  assumes "region b cpu s"
  shows "t_state (threads s (fst (get_top_thread cpu s))) \<in> {THREAD_READY, THREAD_RUNNING}"
proof -
  have k: "sched_inv {} s" "idle_inv s" "\<exists>t. current s cpu = Some t" using assms kcoreD by (auto simp: region_def)
  show ?thesis
  proof (cases rule: get_top_thread_cases [OF k(1), of cpu])
    case 1
    then show ?thesis using k(2,3) unfolding idle_inv_def by fastforce
  next
    case (2 t q)
    then show ?thesis using sched_invD(3) [OF k(1), of t q] by (auto simp: runnable_def)
  qed
qed

text \<open>From the region to the state after the switch, with the frame in terms of an earlier state.\<close>

lemma resched_then_yielded:
  assumes R: "region b cpu (upd_thread t (\<lambda>th. th\<lparr>t_cont := k\<rparr>) s4)" and cur: "current s cpu = Some t"
    and time: "in_window b (cur_time s + 10)"
    and fr: "current s4 = current s" "wqs s4 = wqs s" "cur_time s4 = cur_time s" "kstate.more s4 = kstate.more s"
      "thread_list s4 = thread_list s" "freed s4 = freed s" "delayed_free s4 = delayed_free s"
    and th: "\<And>u. u \<noteq> t \<Longrightarrow> cview (threads s4 u) = cview (threads s u)"
      "cview (threads s4 t) = cview ((threads s t)\<lparr>t_state := THREAD_READY\<rparr>)"
  shows "\<exists>s'. resched_then k cpu s4 = Some s' \<and> switched_in b cpu s' \<and> yielded k cpu t s s'"
proof -
  obtain s' new where s': "resched_then k cpu s4 = Some s'" "switched_in b cpu s'"
    and new: "new = fst (get_top_thread cpu (upd_thread t (\<lambda>th. th\<lparr>t_cont := k\<rparr>) s4))"
    and sw: "switched cpu t new (upd_thread t (\<lambda>th. th\<lparr>t_cont := k\<rparr>) s4) s'"
    using resched_then_ok [OF R] cur time fr by auto
  have "cview (threads s' u) = cview (threads (upd_thread t (\<lambda>th. th\<lparr>t_cont := k\<rparr>) s4) u)" for u
    using switched_cview [OF sw] top_ready [OF R] new by blast
  then have "yielded k cpu t s s'"
    using switchedD(1,7,8,11,12,13,17) [OF sw] fr th(1) cview_upd(1) [OF th(2), of k] unfolding yielded_def by auto
  then show ?thesis using s' by blast
qed

text \<open>
  The common end of yielding, preemption and a priority change: the current thread, made ready in
  \<open>s3\<close>, goes back to its run queue (an idle thread does not) and the scheduler runs.
\<close>

definition readied :: "nat \<Rightarrow> tid \<Rightarrow> 'a kstate_scheme \<Rightarrow> 'a kstate_scheme \<Rightarrow> bool" where
  "readied cpu t s s3 \<longleftrightarrow>
     threads s3 = (threads s)(t := threads s3 t) \<and> current s3 = current s \<and> timers s3 = timers s \<and>
     timer_queue s3 = timer_queue s \<and> run_queue s3 = run_queue s \<and> run_queue_bitmap s3 = run_queue_bitmap s \<and>
     wqs s3 = wqs s \<and> thread_lock s3 \<and> ints_disabled s3 cpu \<and> cur_time s3 = cur_time s \<and>
     thread_list s3 = thread_list s \<and> freed s3 = freed s \<and> delayed_free s3 = delayed_free s \<and> kstate.more s3 = kstate.more s \<and>
     t_magic (threads s3 t) = THREAD_MAGIC \<and> t_state (threads s3 t) = THREAD_READY \<and>
     queue_node (threads s3 t) = queue_node (threads s t) \<and> t_flags (threads s3 t) = t_flags (threads s t) \<and>
     curr_cpu (threads s3 t) = curr_cpu (threads s t) \<and> stack_mem (threads s3 t) = stack_mem (threads s t) \<and>
     cview (threads s3 t) = cview ((threads s t)\<lparr>t_state := THREAD_READY\<rparr>)"

lemma readied_other: "readied cpu t s s3 \<Longrightarrow> u \<noteq> t \<Longrightarrow> threads s3 u = threads s u"
  unfolding readied_def by (metis fun_upd_other)

lemma ready_switch:
  assumes inv: "kcore b {} {} s" and cur: "current s cpu = Some t" and time: "in_window b (cur_time s + 10)"
    and rd: "readied cpu t s s3" and ni: "\<not> thread_is_idle (threads s t)"
    and pr: "0 \<le> priority (threads s3 t)" "priority (threads s3 t) < 32"
    and k: "k \<noteq> K_none" "\<And>timeout c i. k \<noteq> K_wq_block timeout c i"
    and ins: "\<And>q. set (ins q) = insert t (set q)" "\<And>q. t \<notin> set q \<Longrightarrow> distinct q \<Longrightarrow> distinct (ins q)"
  shows "\<exists>s'. resched_then k cpu (enqueued ins t s3) = Some s' \<and> switched_in b cpu s' \<and> yielded k cpu t s s'"
proof -
  have "region b cpu (upd_thread t (\<lambda>th. th\<lparr>t_cont := k\<rparr>) (enqueued ins t s3))"
    using rd pr ni k ins
    by (intro leave_ready_region [OF inv cur, where ?th3.0 = "threads s3 t"]) (simp_all add: readied_def)
  then show ?thesis
    using rd readied_other [OF rd] by (intro resched_then_yielded [OF _ cur time]) (simp_all add: readied_def)
qed

lemma idle_switch:
  assumes inv: "kcore b {} {} s" and cur: "current s cpu = Some t" and time: "in_window b (cur_time s + 10)"
    and rd: "readied cpu t s s3" and idle: "thread_is_idle (threads s t)" "priority (threads s3 t) = priority (threads s t)"
    and k: "k \<noteq> K_none" "\<And>timeout c i. k \<noteq> K_wq_block timeout c i"
  shows "\<exists>s'. resched_then k cpu s3 = Some s' \<and> switched_in b cpu s' \<and> yielded k cpu t s s'"
proof -
  have "region b cpu (upd_thread t (\<lambda>th. th\<lparr>t_cont := k\<rparr>) s3)"
    using rd idle k
    by (intro leave_idle_region [OF inv cur, where ?th3.0 = "threads s3 t"]) (simp_all add: readied_def)
  then show ?thesis
    using rd readied_other [OF rd] by (intro resched_then_yielded [OF _ cur time]) (simp_all add: readied_def)
qed

lemma readied_insert:
  assumes inv: "kcore b {} {} s" and cur: "current s cpu = Some t" and rd: "readied cpu t s s3"
    and pr: "0 \<le> priority (threads s3 t)" "priority (threads s3 t) < 32"
  shows "insert_in_run_queue_head cpu t s3 = Some (enqueued (\<lambda>q. t # q) t s3)"
    "insert_in_run_queue_tail cpu t s3 = Some (enqueued (\<lambda>q. q @ [t]) t s3)"
proof -
  note R = running_no_timers [OF kcoreD(9) [OF inv] cur]
  have "\<not> queue_node (threads s t)" using sched_invD(8) [OF kcoreD(1) [OF inv] R(3)] R(4) by (simp add: runnable_def)
  then show "insert_in_run_queue_head cpu t s3 = Some (enqueued (\<lambda>q. t # q) t s3)"
    "insert_in_run_queue_tail cpu t s3 = Some (enqueued (\<lambda>q. q @ [t]) t s3)"
    using rd pr by (auto simp: readied_def intro!: insert_in_run_queue_head_enqueued insert_in_run_queue_tail_enqueued)
qed

lemma current_facts:
  assumes "kinv b s" "current s cpu = Some t"
  shows "kcore b {} {} s" "\<not> thread_lock s" "live s t" "t_state (threads s t) = THREAD_RUNNING"
    "t_cont (threads s t) = K_none" "0 \<le> priority (threads s t) \<and> priority (threads s t) < 32"
    "\<not> queue_node (threads s t)"
proof -
  show k: "kcore b {} {} s" "\<not> thread_lock s" using assms by (simp_all add: kinv_def)
  show R: "live s t" "t_state (threads s t) = THREAD_RUNNING" "t_cont (threads s t) = K_none"
    using running_no_timers [OF kcoreD(9) [OF k(1)] assms(2)] by auto
  show "0 \<le> priority (threads s t) \<and> priority (threads s t) < 32"
    using sched_invD(9) [OF kcoreD(1) [OF k(1)] R(1)] by simp
  show "\<not> queue_node (threads s t)"
    using sched_invD(8) [OF kcoreD(1) [OF k(1)] R(1)] R(2) by (simp add: runnable_def)
qed

lemma thread_yield_ok:
  assumes inv: "kinv b s" and cur: "current s cpu = Some t" and time: "in_window b (cur_time s + 10)"
  shows "\<exists>s'. thread_yield cpu s = Some s' \<and> switched_in b cpu s' \<and> yielded (K_unlock (ints_disabled s cpu)) cpu t s s'"
proof -
  note C = current_facts [OF inv cur]
  define s3 where "s3 = upd_thread t (\<lambda>th. th\<lparr>t_state := THREAD_READY, remaining_quantum := 0\<rparr>)
    (upd_stats cpu (\<lambda>st. st\<lparr>yields := yields st + 1\<rparr>)
      (s\<lparr>thread_lock := True, ints_disabled := (ints_disabled s)(cpu := True)\<rparr>))"
  have rd: "readied cpu t s s3" using C by (simp add: readied_def s3_def cview_def core_def)
  have pr: "priority (threads s3 t) = priority (threads s t)"
    and id: "thread_is_idle (threads s3 t) = thread_is_idle (threads s t)"
    by (simp_all add: s3_def thread_is_idle_def has_flag_def)
  show ?thesis
  proof (cases "thread_is_idle (threads s t)")
    case True
    then show ?thesis using idle_switch [OF C(1) cur time rd True pr, of "K_unlock (ints_disabled s cpu)"] cur C id
      by (simp add: thread_yield_def THREAD_LOCK_def s3_def)
  next
    case False
    then show ?thesis
      using ready_switch [OF C(1) cur time rd False, of "K_unlock (ints_disabled s cpu)" "\<lambda>q. q @ [t]"] cur C id pr
        readied_insert(2) [OF C(1) cur rd] by (simp add: thread_yield_def THREAD_LOCK_def s3_def)
  qed
qed

lemma thread_preempt_ok:
  assumes inv: "kinv b s" and cur: "current s cpu = Some t" and time: "in_window b (cur_time s + 10)"
  shows "\<exists>s'. thread_preempt cpu s = Some s' \<and> switched_in b cpu s' \<and> yielded (K_unlock (ints_disabled s cpu)) cpu t s s'"
proof -
  note C = current_facts [OF inv cur]
  define s0 where "s0 = (if \<not> thread_is_idle (threads s t)
               then upd_stats cpu (\<lambda>st. st\<lparr>preempts := preempts st + 1\<rparr>) s else s)"
  define s2 where "s2 = upd_thread t (\<lambda>th. th\<lparr>t_state := THREAD_READY\<rparr>)
      (s0\<lparr>thread_lock := True, ints_disabled := (ints_disabled s0)(cpu := True)\<rparr>)"
  have rd: "readied cpu t s s2" using C by (simp add: readied_def s2_def s0_def cview_def core_def)
  have pr: "priority (threads s2 t) = priority (threads s t)"
    and id: "thread_is_idle (threads s2 t) = thread_is_idle (threads s t)"
    by (simp_all add: s2_def s0_def thread_is_idle_def has_flag_def)
  have eq: "thread_preempt cpu s = do {
      s3 \<leftarrow> (if \<not> thread_is_idle (threads s2 t)
            then if remaining_quantum (threads s2 t) > 0 then insert_in_run_queue_head cpu t s2
                 else insert_in_run_queue_tail cpu t s2
            else Some s2);
      resched_then (K_unlock (ints_disabled s cpu)) cpu s3 }"
    using C cur by (simp add: thread_preempt_def THREAD_LOCK_def s2_def s0_def)
  show ?thesis
  proof (cases "thread_is_idle (threads s t)")
    case True
    then show ?thesis using idle_switch [OF C(1) cur time rd True pr, of "K_unlock (ints_disabled s cpu)"] id
      by (simp add: eq)
  next
    case False
    then show ?thesis
      using ready_switch [OF C(1) cur time rd False, of "K_unlock (ints_disabled s cpu)" "\<lambda>q. q @ [t]"]
        ready_switch [OF C(1) cur time rd False, of "K_unlock (ints_disabled s cpu)" "\<lambda>q. t # q"]
        C id pr readied_insert [OF C(1) cur rd] by (simp add: eq)
  qed
qed

lemma thread_set_priority_ok:
  assumes inv: "kinv b s" and cur: "current s cpu = Some t" and time: "in_window b (cur_time s + 10)"
    and ni: "\<not> thread_is_idle (threads s t)"
  shows "\<exists>s'. thread_set_priority cpu prio s = Some s' \<and> switched_in b cpu s' \<and>
    yielded (K_unlock (ints_disabled s cpu)) cpu t s s'"
proof -
  note C = current_facts [OF inv cur]
  define p1 where "p1 = (if prio \<le> 0 then 0 + 1 else prio)"
  define p2 where "p2 = (if p1 > 31 then 31 else p1)"
  define s2 where "s2 = upd_thread t (\<lambda>th. th\<lparr>priority := p2, t_state := THREAD_READY\<rparr>)
      (s\<lparr>thread_lock := True, ints_disabled := (ints_disabled s)(cpu := True)\<rparr>)"
  have rd: "readied cpu t s s2" using C by (simp add: readied_def s2_def cview_def core_def)
  have pr: "0 \<le> priority (threads s2 t)" "priority (threads s2 t) < 32" by (auto simp: s2_def p2_def p1_def)
  have eq: "thread_set_priority cpu prio s = do {
      s3 \<leftarrow> insert_in_run_queue_head cpu t s2; resched_then (K_unlock (ints_disabled s cpu)) cpu s3 }"
    using C cur by (simp add: thread_set_priority_def THREAD_LOCK_def s2_def p2_def p1_def Let_def)
  show ?thesis
    using ready_switch [OF C(1) cur time rd ni pr, of "K_unlock (ints_disabled s cpu)" "\<lambda>q. t # q"]
      readied_insert(1) [OF C(1) cur rd pr] by (simp add: eq)
qed

end
