(* ===== verification/Block_Inv.thy ===== *)
theory Block_Inv
  imports Thread_Inv
begin

text \<open>
  Sleeping, blocking and waking: \<open>thread_sleep\<close>, \<open>wait_queue_block\<close> with its tail,
  \<open>wait_queue_wake_one\<close>, \<open>wait_queue_wake_all\<close> and the timer callbacks keep the invariant and run
  without fault.
\<close>

section \<open>A fresh one-shot timer\<close>

lemma fresh_timer_set:
  fixes s :: "'a kstate_scheme"
  assumes wf: "timer_wf b s" and nl: "\<not> tm_linked (timers s tm)"
    and w: "in_window b (cur_time s + (if d = 0 then 1 else d))"
  shows "\<exists>s'. timer_set_oneshot cpu tm d cb arg (timer_initialize tm s) = Some s' \<and> timer_wf b s' \<and>
    timer_state.more s' = timer_state.more s \<and> cur_time s' = cur_time s \<and>
    (\<forall>x. x \<noteq> tm \<longrightarrow> timers s' x = timers s x) \<and> tm_linked (timers s' tm) \<and>
    tm_magic (timers s' tm) = TIMER_MAGIC \<and> tm_callback (timers s' tm) = Some cb \<and>
    tm_arg (timers s' tm) = arg \<and> periodic_time (timers s' tm) = 0"
proof -
  let ?s1 = "timer_initialize tm s"
  have wf1: "timer_wf b ?s1"
    unfolding timer_initialize_def by (rule upd_unlinked_timer_wf [OF wf nl]) (simp add: nl)
  define d' where "d' = (if d = 0 then 1 else d)"
  have "tm_magic (timers ?s1 tm) = TIMER_MAGIC" "\<not> tm_linked (timers ?s1 tm)" "in_window b (cur_time ?s1 + d')"
    using w by (simp_all add: timer_initialize_def d'_def)
  from timer_set_ok [OF wf1 this, of cpu 0 cb arg]
  obtain s' where "timer_set cpu tm d' 0 cb arg ?s1 = Some s'" "timer_wf b s'"
    "timer_state.more s' = timer_state.more ?s1" "cur_time s' = cur_time ?s1" "tm_linked (timers s' tm)"
    "timers s' = (timers ?s1)(tm := (timers ?s1 tm)\<lparr>tm_linked := True, scheduled_time := cur_time ?s1 + d',
      periodic_time := 0, tm_callback := Some cb, tm_arg := arg\<rparr>)" by blast
  then show ?thesis unfolding timer_set_oneshot_def d'_def [symmetric] by (simp add: timer_initialize_def)
qed

section \<open>Sleeping\<close>

text \<open>The calling thread leaves with a timer of its own queued.\<close>

lemma leave_timed_region:
  assumes inv: "kcore b {} {} s" and cur: "current s cpu = Some t" and ni: "\<not> thread_is_idle (threads s t)"
    and i: "sched_inv {} s'" and th: "threads s' = (threads s)(t := th')" and fr: "current s' = current s"
      "thread_lock s'" "ints_disabled s' cpu"
    and th': "t_magic th' = THREAD_MAGIC" "t_state th' \<in> {THREAD_SLEEPING, THREAD_BLOCKED}"
      "t_flags th' = t_flags (threads s t)" "curr_cpu th' = curr_cpu (threads s t)"
      "stack_mem th' = stack_mem (threads s t)" "cont_ok th'"
    and wf: "timer_wf b s'"
    and other: "\<And>x. x \<noteq> TM_sleep t \<Longrightarrow> x \<noteq> TM_wait t \<Longrightarrow> timers s' x = timers s x"
    and per: "\<And>x. timers s' x = timers s x \<or> periodic_time (timers s' x) = 0"
    and sl: "tm_linked (timers s' (TM_sleep t)) \<longleftrightarrow> t_state th' = THREAD_SLEEPING"
      "tm_linked (timers s' (TM_sleep t)) \<Longrightarrow> timer_good s' (TM_sleep t)"
    and wt: "tm_linked (timers s' (TM_wait t)) \<longleftrightarrow> timed_block th'"
      "tm_linked (timers s' (TM_wait t)) \<Longrightarrow> timer_good s' (TM_wait t) \<and> tm_magic (timers s' (TM_wait t)) = TIMER_MAGIC"
  shows "region b cpu s'"
proof -
  have k0: "kbase b {} {} s" using kcoreD [OF inv] by auto
  note R = running_no_timers [OF k0 cur] and K = kbaseD [OF k0]
  have p: "thread_is_idle th' = thread_is_idle (threads s t)" "has_flag th' f = has_flag (threads s t) f"
    "thread_is_real_time_or_idle th' = thread_is_real_time_or_idle (threads s t)"
    "stack_guard_intact th' = stack_guard_intact (threads s t)" for f
    using th' by (simp_all add: thread_is_idle_def thread_is_real_time_or_idle_def has_flag_def stack_guard_intact_def)
  have good: "timer_good s' tm" if l: "tm_linked (timers s' tm)" for tm
  proof (cases "tm = TM_sleep t \<or> tm = TM_wait t")
    case True
    then show ?thesis using l sl wt by auto
  next
    case False
    then have "timer_good s tm" using l K(5) other unfolding timers_inv_def by auto
    then show ?thesis using False other [of tm] by (auto simp: timer_good_def th split: timer_id.splits)
  qed
  have "timers_inv s'"
    unfolding timers_inv_def
  proof (intro conjI allI impI)
    show "timer_good s' tm" if "tm_linked (timers s' tm)" for tm using good that .
    show "tm_callback (timers s' tm) = Some CB_thread_timer_tick" "\<exists>c. tm = TM_preempt c"
      if "periodic_time (timers s' tm) > 0" for tm
      using that per [of tm] K(5) unfolding timers_inv_def by auto
    show "tm_linked (timers s' (TM_sleep u))" if "live s' u" "t_state (threads s' u) = THREAD_SLEEPING" for u
      using that K(5) other [of "TM_sleep u"] sl(1) unfolding timers_inv_def th by (cases "u = t") auto
    show "tm_magic (timers s' (TM_wait u)) = TIMER_MAGIC" if "live s' u" "timed_block (threads s' u)" for u
      using that K(5) other [of "TM_wait u"] wt unfolding timers_inv_def th by (cases "u = t") auto
    show "tm_linked (timers s' (TM_wait u))"
      if "live s' u" "timed_block (threads s' u)" "t_state (threads s' u) = THREAD_BLOCKED" for u
      using that K(5) other [of "TM_wait u"] wt unfolding timers_inv_def th by (cases "u = t") auto
  qed
  then have "kbase b {cpu} {cpu} s'"
    using th' ni p wf other kbaseD(6) [OF k0]
    by (intro kbase_leave [OF k0 cur th fr(1)]) (auto simp: stack_inv_def)
  then show ?thesis using i cur fr th th' by (auto simp: region_def kcore_def)
qed

lemma thread_sleep_ok:
  assumes inv: "kinv b s" and cur: "current s cpu = Some t" and time: "in_window b (cur_time s + 10)"
    and w: "in_window b (cur_time s + (if delay = 0 then 1 else delay))" and ni: "\<not> thread_is_idle (threads s t)"
  shows "\<exists>s'. thread_sleep cpu delay s = Some s' \<and> switched_in b cpu s' \<and>
    yielded (K_unlock (ints_disabled s cpu)) cpu t s s'"
proof -
  note C = current_facts [OF inv cur]
  note K = kcoreD [OF C(1)] and R = running_no_timers [OF kcoreD(9) [OF C(1)] cur]
  let ?k = "K_unlock (ints_disabled s cpu)"
  define sl where "sl = s\<lparr>thread_lock := True, ints_disabled := (ints_disabled s)(cpu := True)\<rparr>"
  have comm: "THREAD_LOCK cpu (timer_initialize (TM_sleep t) s) = Some (ints_disabled s cpu, timer_initialize (TM_sleep t) sl)"
    using C(2) by (simp add: THREAD_LOCK_def sl_def timer_initialize_def upd_timer_def)
  have "timer_wf b sl" using K(5) timer_wf_cong [of sl s] by (simp add: sl_def)
  moreover have "\<not> tm_linked (timers sl (TM_sleep t))" "in_window b (cur_time sl + (if delay = 0 then 1 else delay))"
    using R(1) w by (simp_all add: sl_def)
  ultimately obtain s3 where s3: "timer_set_oneshot cpu (TM_sleep t) delay CB_thread_sleep (Arg_thread t)
      (timer_initialize (TM_sleep t) sl) = Some s3" "timer_wf b s3"
    "timer_state.more s3 = timer_state.more sl" "cur_time s3 = cur_time sl"
    "\<forall>x. x \<noteq> TM_sleep t \<longrightarrow> timers s3 x = timers sl x" "tm_linked (timers s3 (TM_sleep t))"
    "tm_magic (timers s3 (TM_sleep t)) = TIMER_MAGIC" "tm_callback (timers s3 (TM_sleep t)) = Some CB_thread_sleep"
    "tm_arg (timers s3 (TM_sleep t)) = Arg_thread t" "periodic_time (timers s3 (TM_sleep t)) = 0"
    using fresh_timer_set [of b sl "TM_sleep t" delay cpu CB_thread_sleep "Arg_thread t"] by blast
  note M = timer_more_kstate [OF s3(3)]
  define s4 where "s4 = upd_thread t (\<lambda>th. th\<lparr>t_state := THREAD_SLEEPING\<rparr>) s3"
  define s5 where "s5 = upd_thread t (\<lambda>th. th\<lparr>t_cont := ?k\<rparr>) s4"
  define th' where "th' = (threads s t)\<lparr>t_state := THREAD_SLEEPING, t_cont := ?k\<rparr>"
  have th: "threads s5 = (threads s)(t := th')" by (simp add: s5_def s4_def M sl_def th'_def)
  have i1: "sched_inv {t} (upd_thread t (\<lambda>_. th') s)"
    using C(4,7) by (intro sched_inv_upd [OF sched_inv_out [OF K(1)]]) (auto simp: runnable_def th'_def)
  then have "sched_inv {t} s5"
    using sched_inv_cong [of s5 "upd_thread t (\<lambda>_. th') s"] by (simp add: th) (simp add: s5_def s4_def M sl_def)
  from sched_inv_in [OF this, of t] have i5: "sched_inv {} s5"
    using C(6) by (simp add: th runnable_def th'_def)
  have "region b cpu s5"
  proof (rule leave_timed_region [OF C(1) cur ni i5 th])
    show "timer_wf b s5" using s3(2) timer_wf_cong [of s5 s3] by (simp add: s5_def s4_def)
    show "timers s5 x = timers s x" if "x \<noteq> TM_sleep t" "x \<noteq> TM_wait t" for x
      using that s3(5) by (simp add: s5_def s4_def sl_def)
    show "timers s5 x = timers s x \<or> periodic_time (timers s5 x) = 0" for x
      using s3(5,10) by (cases "x = TM_sleep t") (simp_all add: s5_def s4_def sl_def)
  qed (use C R s3 in \<open>simp_all add: s5_def s4_def M sl_def th'_def timer_good_def timed_block_def
        cont_ok_def blocked_cont_def\<close>)
  then have "\<exists>s'. resched_then ?k cpu s4 = Some s' \<and> switched_in b cpu s' \<and> yielded ?k cpu t s s'"
    using C s3(4) unfolding s5_def
    by (intro resched_then_yielded [OF _ cur time]) (auto simp: s4_def M sl_def cview_def core_def)
  then show ?thesis using C cur ni comm s3(1) by (simp add: thread_sleep_def s4_def)
qed

section \<open>Blocking on a wait queue\<close>

text \<open>
  The effect of a blocking call on queue \<open>w\<close>: the caller is the last thread of the queue, with
  continuation \<open>k\<close>; other calls and queues are as before.
\<close>

definition blocked_on :: "cont \<Rightarrow> nat \<Rightarrow> tid \<Rightarrow> wqid \<Rightarrow> 'a kstate_scheme \<Rightarrow> 'a kstate_scheme \<Rightarrow> bool" where
  "blocked_on k cpu t w s s' \<longleftrightarrow>
     (\<exists>new. current s' = (current s)(cpu := Some new)) \<and>
     (\<forall>u. u \<noteq> t \<longrightarrow> cview (threads s' u) = cview (threads s u)) \<and>
     cview (threads s' t) = cview ((threads s t)\<lparr>t_cont := k, t_state := THREAD_BLOCKED,
       blocking_wait_queue := Some w, wait_queue_block_ret := NO_ERROR\<rparr>) \<and>
     wqs s' = (wqs s)(w := (wqs s w)\<lparr>wq_list := wq_list (wqs s w) @ [t], wq_count := wq_count (wqs s w) + 1\<rparr>) \<and>
     cur_time s' = cur_time s \<and> thread_list s' = thread_list s \<and> freed s' = freed s \<and> delayed_free s' = delayed_free s \<and>
     kstate.more s' = kstate.more s"

lemma locked_current_facts:
  assumes "kcore b {} {} s" "current s cpu = Some t"
  shows "live s t" "t_state (threads s t) = THREAD_RUNNING" "t_cont (threads s t) = K_none"
    "0 \<le> priority (threads s t) \<and> priority (threads s t) < 32" "\<not> queue_node (threads s t)"
    "\<not> tm_linked (timers s (TM_sleep t))" "\<not> tm_linked (timers s (TM_wait t))"
proof -
  note R = running_no_timers [OF kcoreD(9) [OF assms(1)] assms(2)]
  show "live s t" "t_state (threads s t) = THREAD_RUNNING" "t_cont (threads s t) = K_none"
    "\<not> tm_linked (timers s (TM_sleep t))" "\<not> tm_linked (timers s (TM_wait t))" using R by auto
  show "0 \<le> priority (threads s t) \<and> priority (threads s t) < 32"
    using sched_invD(9) [OF kcoreD(1) [OF assms(1)] R(3)] by simp
  show "\<not> queue_node (threads s t)"
    using sched_invD(8) [OF kcoreD(1) [OF assms(1)] R(3)] R(4) by (simp add: runnable_def)
qed

text \<open>The optional timeout: nothing for an infinite one, else a fresh timer of the thread.\<close>

lemma wait_timer_set:
  fixes s :: "'a kstate_scheme"
  assumes wf: "timer_wf b s" and nl: "\<not> tm_linked (timers s (TM_wait t))"
    and w: "timeout \<noteq> INFINITE_TIME \<Longrightarrow> in_window b (cur_time s + timeout)" and nz: "timeout \<noteq> 0"
  shows "\<exists>s'. (if timeout \<noteq> INFINITE_TIME
        then timer_set_oneshot cpu (TM_wait t) timeout CB_wait_queue_timeout (Arg_thread t) (timer_initialize (TM_wait t) s)
        else Some s) = Some s' \<and> timer_wf b s' \<and>
    timer_state.more s' = timer_state.more s \<and> cur_time s' = cur_time s \<and>
    (\<forall>x. x \<noteq> TM_wait t \<longrightarrow> timers s' x = timers s x) \<and>
    (tm_linked (timers s' (TM_wait t)) \<longleftrightarrow> timeout \<noteq> INFINITE_TIME) \<and>
    (timeout \<noteq> INFINITE_TIME \<longrightarrow> tm_magic (timers s' (TM_wait t)) = TIMER_MAGIC \<and>
       tm_callback (timers s' (TM_wait t)) = Some CB_wait_queue_timeout \<and>
       tm_arg (timers s' (TM_wait t)) = Arg_thread t \<and> periodic_time (timers s' (TM_wait t)) = 0)"
proof (cases "timeout = INFINITE_TIME")
  case True
  then show ?thesis using wf nl by simp
next
  case False
  from fresh_timer_set [OF wf nl, of timeout cpu CB_wait_queue_timeout "Arg_thread t"] w [OF False] nz
  show ?thesis using False by simp
qed

lemma wait_queue_block_ok:
  fixes s :: "'a kstate_scheme"
  assumes kc: "kcore b {} {} s" and lk: "thread_lock s" "ints_disabled s cpu" and cur: "current s cpu = Some t"
    and ni: "\<not> thread_is_idle (threads s t)" and wq: "wq_magic (wqs s w) = WAIT_QUEUE_MAGIC" and nz: "timeout \<noteq> 0"
    and time: "in_window b (cur_time s + 10)" "timeout \<noteq> INFINITE_TIME \<Longrightarrow> in_window b (cur_time s + timeout)"
  shows "\<exists>s'. wait_queue_block c i cpu w timeout s = Some (None, s') \<and> switched_in b cpu s' \<and>
    blocked_on (K_wq_block timeout c i) cpu t w s s'"
proof -
  note C = locked_current_facts [OF kc cur] and K = kcoreD [OF kc]
  let ?k = "K_wq_block timeout c i"
  define s2 where "s2 = upd_thread t (\<lambda>th. th\<lparr>queue_node := True, t_state := THREAD_BLOCKED,
      blocking_wait_queue := Some w, wait_queue_block_ret := NO_ERROR\<rparr>)
    (upd_wq w (\<lambda>q. q\<lparr>wq_list := wq_list q @ [t], wq_count := wq_count q + 1\<rparr>) s)"
  have i0: "sched_inv {t} s" using C(2) by (intro sched_inv_out [OF K(1)]) (simp_all add: runnable_def)
  have i2: "sched_inv {} s2"
    using sched_inv_wait [OF i0, of t "\<lambda>th. th\<lparr>queue_node := True, t_state := THREAD_BLOCKED,
      blocking_wait_queue := Some w, wait_queue_block_ret := NO_ERROR\<rparr>" w] C wq by (simp add: s2_def)
  have "timer_wf b s2" using K(5) timer_wf_cong [of s2 s] by (simp add: s2_def)
  then obtain s3 where s3: "(if timeout \<noteq> INFINITE_TIME
        then timer_set_oneshot cpu (TM_wait t) timeout CB_wait_queue_timeout (Arg_thread t) (timer_initialize (TM_wait t) s2)
        else Some s2) = Some s3" "timer_wf b s3" "timer_state.more s3 = timer_state.more s2" "cur_time s3 = cur_time s2"
    "\<forall>x. x \<noteq> TM_wait t \<longrightarrow> timers s3 x = timers s2 x"
    "tm_linked (timers s3 (TM_wait t)) \<longleftrightarrow> timeout \<noteq> INFINITE_TIME"
    "timeout \<noteq> INFINITE_TIME \<longrightarrow> tm_magic (timers s3 (TM_wait t)) = TIMER_MAGIC \<and>
       tm_callback (timers s3 (TM_wait t)) = Some CB_wait_queue_timeout \<and>
       tm_arg (timers s3 (TM_wait t)) = Arg_thread t \<and> periodic_time (timers s3 (TM_wait t)) = 0"
    using wait_timer_set [of b s2 t timeout cpu] C(7) time(2) nz by (auto simp: s2_def)
  note M = timer_more_kstate [OF s3(3)]
  have tinf: "timeout = INFINITE_TIME \<Longrightarrow> timers s3 = timers s" using s3(1) by (auto simp: s2_def)
  define s4 where "s4 = upd_thread t (\<lambda>th. th\<lparr>t_cont := ?k\<rparr>) s3"
  define th' where "th' = (threads s t)\<lparr>queue_node := True, t_state := THREAD_BLOCKED,
      blocking_wait_queue := Some w, wait_queue_block_ret := NO_ERROR, t_cont := ?k\<rparr>"
  have th: "threads s4 = (threads s)(t := th')" by (simp add: s4_def M s2_def th'_def)
  have i4: "sched_inv {} s4"
    using i2 sched_inv_cong [of s4 s2 "{}"] by (simp add: s4_def M sched_view_def thread_is_idle_def has_flag_def)
  have "region b cpu s4"
  proof (rule leave_timed_region [OF kc cur ni i4 th])
    show "timer_wf b s4" using s3(2) timer_wf_cong [of s4 s3] by (simp add: s4_def)
    show "timers s4 x = timers s x" if "x \<noteq> TM_sleep t" "x \<noteq> TM_wait t" for x
      using that s3(5) by (simp add: s4_def s2_def)
    show "timers s4 x = timers s x \<or> periodic_time (timers s4 x) = 0" for x
      using tinf s3(5,7) by (cases "x = TM_wait t"; cases "timeout = INFINITE_TIME") (simp_all add: s4_def s2_def)
  qed (use C lk s3(5-7) in \<open>simp_all add: s4_def M s2_def th'_def timer_good_def timed_block_def
        cont_ok_def blocked_cont_def\<close>)
  then obtain s' new where s': "resched_then ?k cpu s3 = Some s'" "switched_in b cpu s'"
    and new: "new = fst (get_top_thread cpu s4)" and sw: "switched cpu t new s4 s'"
    and R: "region b cpu s4"
    using resched_then_ok [of b cpu t ?k s3] cur time(1) s3(4) by (auto simp: s4_def M s2_def)
  have "cview (threads s' u) = cview (threads s4 u)" for u
    using switched_cview [OF sw] top_ready [OF R] new by blast
  then have "blocked_on ?k cpu t w s s'"
    using switchedD(1,7,8,11,12,13,17) [OF sw] C s3(4)
    unfolding blocked_on_def by (simp add: th) (auto simp: s4_def M s2_def cview_def core_def th'_def)
  then show ?thesis
    using s' s3(1) C lk cur wq nz
    by (cases "timeout = INFINITE_TIME") (simp_all add: wait_queue_block_def s2_def)
qed

section \<open>Returning from a blocking call\<close>

lemma cancel_wait_timer:
  fixes s :: "'a kstate_scheme"
  assumes kc: "kcore b X Y s" and t: "live s t" "t_state (threads s t) \<noteq> THREAD_BLOCKED"
    and mg: "tm_magic (timers s (TM_wait t)) = TIMER_MAGIC"
  shows "\<exists>s'. timer_cancel cpu (TM_wait t) s = Some s' \<and> kcore b X Y s' \<and>
    timer_state.more s' = timer_state.more s \<and> cur_time s' = cur_time s \<and> \<not> tm_linked (timers s' (TM_wait t))"
proof -
  note K = kcoreD [OF kc]
  obtain s' where s': "timer_cancel cpu (TM_wait t) s = Some s'" "timer_wf b s'"
    "timer_state.more s' = timer_state.more s" "cur_time s' = cur_time s"
    "timers s' = (timers s)(TM_wait t := (timers s (TM_wait t))\<lparr>tm_linked := False, periodic_time := 0,
      tm_callback := None, tm_arg := Arg_null\<rparr>)"
    using timer_cancel_ok [OF K(5) mg] by blast
  note M = timer_more_kstate [OF s'(3)]
  have "sched_inv {} s'" using K(1) sched_inv_cong [of s' s "{}"] by (simp add: M)
  moreover have "cur_inv X s'" using K(2) by (simp add: cur_inv_def M)
  moreover have "idle_inv s'" using K(3) by (simp add: idle_inv_def M)
  moreover have "preempt_inv s'" using K(4) by (simp add: preempt_inv_def M s'(5))
  moreover have "timers_inv s'"
    using K(6) t mg unfolding timers_inv_def by (auto simp: M s'(5) timer_good_def split: timer_id.splits)
  moreover have "stack_inv s'" using K(7) by (simp add: stack_inv_def M)
  moreover have "cont_inv Y s'" using K(8) by (simp add: cont_inv_def M)
  ultimately have "kcore b X Y s'" using s'(2) by (simp add: kcore_def kbase_def kstat_def)
  then show ?thesis using s' by simp
qed

lemma wait_queue_block_tail_ok:
  fixes s :: "'a kstate_scheme"
  assumes sw: "switched_in b cpu s" and cur: "current s cpu = Some t"
    and c: "t_cont (threads s t) = K_wq_block timeout c i"
  shows "\<exists>s1. wait_queue_block_tail cpu timeout s = Some (wait_queue_block_ret (threads s t), s1) \<and>
    kcore b {} {cpu} s1 \<and> timer_state.more s1 = timer_state.more s \<and> cur_time s1 = cur_time s \<and>
    \<not> tm_linked (timers s1 (TM_wait t))"
proof -
  have kc: "kcore b {} {cpu} s" using sw by (simp add: switched_in_def)
  note K = kcoreD [OF kc]
  have t: "live s t" "t_state (threads s t) \<noteq> THREAD_BLOCKED" using K(2) cur unfolding cur_inv_def by auto
  show ?thesis
  proof (cases "timeout = INFINITE_TIME")
    case True
    then have "\<not> timed_block (threads s t)" using c by (simp add: timed_block_def)
    then have "\<not> tm_linked (timers s (TM_wait t))"
      using K(6) unfolding timers_inv_def by (fastforce simp: timer_good_def)
    then show ?thesis using True cur kc by (simp add: wait_queue_block_tail_def)
  next
    case False
    then have "timed_block (threads s t)" using c by (simp add: timed_block_def)
    then have "tm_magic (timers s (TM_wait t)) = TIMER_MAGIC" using K(6) t unfolding timers_inv_def by blast
    from cancel_wait_timer [OF kc t this, of cpu] obtain s' where
      "timer_cancel cpu (TM_wait t) s = Some s'" "kcore b {} {cpu} s'" "timer_state.more s' = timer_state.more s"
      "cur_time s' = cur_time s" "\<not> tm_linked (timers s' (TM_wait t))" by blast
    then show ?thesis
      using False cur timer_more_kstate(1) [of s' s] by (simp add: wait_queue_block_tail_def)
  qed
qed

section \<open>Waking\<close>

definition waker :: "(thread \<Rightarrow> thread) \<Rightarrow> bool" where
  "waker f \<longleftrightarrow> (\<forall>th. \<not> queue_node (f th) \<and> t_state (f th) = THREAD_READY \<and> t_magic (f th) = t_magic th \<and>
     t_flags (f th) = t_flags th \<and> priority (f th) = priority th \<and> curr_cpu (f th) = curr_cpu th \<and>
     t_cont (f th) = t_cont th \<and> stack_mem (f th) = stack_mem th \<and> pinned_cpu (f th) = pinned_cpu th)"

lemma blocked_not_idle:
  assumes "kbase b X Y s" "live s t" "t_state (threads s t) = THREAD_BLOCKED"
  shows "\<not> thread_is_idle (threads s t)"
  using assms kbaseD(2) [OF assms(1)] unfolding idle_inv_def by fastforce

lemma kbase_unwait:
  assumes k: "kbase b X Y s" and t: "live s t" "t_state (threads s t) = THREAD_BLOCKED" and f: "waker f"
  shows "kbase b X Y (upd_thread t f (upd_wq w g s))"
proof (rule kbase_ready [OF k t(1)])
  show "kview (f (threads s t)) = kview ((threads s t)\<lparr>t_state := THREAD_READY\<rparr>)"
    using f by (simp add: kview_def waker_def)
qed (use t in auto)

lemma kbase_enqueued: "kbase b X Y (enqueued ins t s) = kbase b X Y s"
  by (rule kbase_cong) (simp_all add: kview_def)

lemma wake_thread:
  assumes kc: "kcore b X Y s" and t: "t \<in> set (wq_list (wqs s w))" and f: "waker f"
    and lk: "thread_lock s" "ints_disabled s cpu"
  defines "s2 \<equiv> upd_thread t f (upd_wq w (wq_remove t) s)"
  shows "insert_in_run_queue_head cpu t s2 = Some (enqueued (\<lambda>q. t # q) t s2)"
    "kcore b X Y (enqueued (\<lambda>q. t # q) t s2)"
proof -
  note K = kcoreD [OF kc]
  have b: "live s t" "t_state (threads s t) = THREAD_BLOCKED" using sched_invD(6) [OF K(1)] t by blast+
  have ni: "\<not> thread_is_idle (threads s t)" using blocked_not_idle [OF K(9) b] .
  have pr: "0 \<le> priority (threads s t)" "priority (threads s t) < 32" using sched_invD(9) [OF K(1) b(1)] by auto
  have f': "\<not> queue_node (f (threads s t))" "t_state (f (threads s t)) = THREAD_READY"
    "t_magic (f (threads s t)) = THREAD_MAGIC" "t_flags (f (threads s t)) = t_flags (threads s t)"
    "priority (f (threads s t)) = priority (threads s t)" using f b by (simp_all add: waker_def)
  have run: "runnable (threads s2 t)" using f' ni by (simp add: s2_def runnable_def thread_is_idle_def has_flag_def)
  have i2: "sched_inv {t} s2" unfolding s2_def by (rule sched_inv_unwait [where f = f, OF K(1) t f'(1)])
  show "insert_in_run_queue_head cpu t s2 = Some (enqueued (\<lambda>q. t # q) t s2)"
    by (rule insert_in_run_queue_head_enqueued) (use f' lk pr in \<open>simp_all add: s2_def\<close>)
  have "sched_inv {} (enqueued (\<lambda>q. t # q) t s2)"
    using sched_inv_head [OF i2, of t] run f' pr by (simp add: s2_def)
  moreover have "kbase b X Y s2" unfolding s2_def by (rule kbase_unwait [OF K(9) b f])
  ultimately show "kcore b X Y (enqueued (\<lambda>q. t # q) t s2)" by (simp add: kcore_def kbase_enqueued)
qed

lemma mp_reschedule_simps [simp]:
  "threads (mp_reschedule c m f s) = threads s" "current (mp_reschedule c m f s) = current s"
  "run_queue (mp_reschedule c m f s) = run_queue s" "run_queue_bitmap (mp_reschedule c m f s) = run_queue_bitmap s"
  "wqs (mp_reschedule c m f s) = wqs s" "timers (mp_reschedule c m f s) = timers s"
  "timer_queue (mp_reschedule c m f s) = timer_queue s" "thread_lock (mp_reschedule c m f s) = thread_lock s"
  "ints_disabled (mp_reschedule c m f s) = ints_disabled s" "cur_time (mp_reschedule c m f s) = cur_time s"
  "thread_list (mp_reschedule c m f s) = thread_list s" "freed (mp_reschedule c m f s) = freed s" "delayed_free (mp_reschedule c m f s) = delayed_free s"
  "kstate.more (mp_reschedule c m f s) = kstate.more s"
  by (simp_all add: mp_reschedule_def Let_def)

lemma kcore_mp [simp]: "kcore b X Y (mp_reschedule c m f s) = kcore b X Y s"
  by (rule kcore_cong) simp_all

lemma wakeup_cpu_simps [simp]:
  "threads (wakeup_cpu_for_thread c t s) = threads s" "current (wakeup_cpu_for_thread c t s) = current s"
  "run_queue (wakeup_cpu_for_thread c t s) = run_queue s"
  "run_queue_bitmap (wakeup_cpu_for_thread c t s) = run_queue_bitmap s"
  "wqs (wakeup_cpu_for_thread c t s) = wqs s" "timers (wakeup_cpu_for_thread c t s) = timers s"
  "timer_queue (wakeup_cpu_for_thread c t s) = timer_queue s" "thread_lock (wakeup_cpu_for_thread c t s) = thread_lock s"
  "ints_disabled (wakeup_cpu_for_thread c t s) = ints_disabled s" "cur_time (wakeup_cpu_for_thread c t s) = cur_time s"
  "thread_list (wakeup_cpu_for_thread c t s) = thread_list s" "freed (wakeup_cpu_for_thread c t s) = freed s" "delayed_free (wakeup_cpu_for_thread c t s) = delayed_free s"
  "kstate.more (wakeup_cpu_for_thread c t s) = kstate.more s"
  "kcore b X Y (wakeup_cpu_for_thread c t s) = kcore b X Y s"
  by (simp_all add: wakeup_cpu_for_thread_def)

abbreviation (input) set_woken :: "status \<Rightarrow> thread \<Rightarrow> thread" where
  "set_woken err \<equiv> (\<lambda>th. th\<lparr>queue_node := False, t_state := THREAD_READY,
                    wait_queue_block_ret := err, blocking_wait_queue := None\<rparr>)"

text \<open>
  The threads \<open>ts\<close>, a first part of the queue \<open>w\<close>, are woken with result \<open>err\<close>; other calls and queues
  are as before.
\<close>

definition woken :: "tid list \<Rightarrow> wqid \<Rightarrow> status \<Rightarrow> 'a kstate_scheme \<Rightarrow> 'a kstate_scheme \<Rightarrow> bool" where
  "woken ts w err s s' \<longleftrightarrow>
     (\<forall>u. u \<notin> set ts \<longrightarrow> cview (threads s' u) = cview (threads s u)) \<and>
     (\<forall>u \<in> set ts. cview (threads s' u) = cview (set_woken err (threads s u))) \<and>
     wqs s' = (wqs s)(w := (wqs s w)\<lparr>wq_list := drop (length ts) (wq_list (wqs s w)),
                                    wq_count := wq_count (wqs s w) - int (length ts)\<rparr>) \<and>
     cur_time s' = cur_time s \<and> thread_list s' = thread_list s \<and> freed s' = freed s \<and> delayed_free s' = delayed_free s \<and>
     kstate.more s' = kstate.more s"

lemma waker_set_woken: "waker (set_woken err)"
  by (simp add: waker_def)

text \<open>Waking the first thread, as a change of the state, before any reschedule.\<close>

definition wake_head :: "nat \<Rightarrow> tid \<Rightarrow> wqid \<Rightarrow> status \<Rightarrow> 'a kstate_scheme \<Rightarrow> 'a kstate_scheme" where
  "wake_head cpu t w err s =
     enqueued (\<lambda>q. t # q) t (upd_thread t (set_woken err) (upd_wq w (wq_remove t) s))"

lemma wake_head_ok:
  assumes kc: "kcore b X Y s" and q: "wq_list (wqs s w) = t # rest" and lk: "thread_lock s" "ints_disabled s cpu"
  shows "insert_in_run_queue_head cpu t (upd_thread t (set_woken err)
      (upd_wq w (\<lambda>q. q\<lparr>wq_list := rest, wq_count := wq_count q - 1\<rparr>) s)) = Some (wake_head cpu t w err s)"
    "kcore b X Y (wake_head cpu t w err s)" "woken [t] w err s (wake_head cpu t w err s)"
    "t_state (threads s t) = THREAD_BLOCKED" "current (wake_head cpu t w err s) = current s"
    "thread_lock (wake_head cpu t w err s)" "ints_disabled (wake_head cpu t w err s) cpu"
    "\<And>u. u \<noteq> t \<Longrightarrow> threads (wake_head cpu t w err s) u = threads s u"
    "pinned_cpu (threads (wake_head cpu t w err s) t) = pinned_cpu (threads s t)"
proof -
  note K = kcoreD [OF kc]
  have t: "t \<in> set (wq_list (wqs s w))" using q by simp
  have b: "live s t" "t_state (threads s t) = THREAD_BLOCKED" using sched_invD(6) [OF K(1)] t by blast+
  note W = wake_thread [OF kc t waker_set_woken [of err] lk]
  show "insert_in_run_queue_head cpu t (upd_thread t (set_woken err)
      (upd_wq w (\<lambda>q. q\<lparr>wq_list := rest, wq_count := wq_count q - 1\<rparr>) s)) = Some (wake_head cpu t w err s)"
    using W(1) unfolding upd_wq_pop [OF q] wake_head_def .
  show "kcore b X Y (wake_head cpu t w err s)" using W(2) unfolding wake_head_def .
  show "woken [t] w err s (wake_head cpu t w err s)"
    using b q by (auto simp: woken_def wake_head_def cview_def core_def wq_remove_def)
  show "t_state (threads s t) = THREAD_BLOCKED" using b by simp
qed (use lk in \<open>simp_all add: wake_head_def\<close>)

lemma wake_one_ok:
  assumes kc: "kcore b X Y s" and lk: "thread_lock s" "ints_disabled s cpu" and cur: "current s cpu = Some ct"
    and wq: "wq_magic (wqs s w) = WAIT_QUEUE_MAGIC"
  shows "wq_list (wqs s w) = [] \<Longrightarrow> wait_queue_wake_one k cpu w False err s = Some (0, s)"
    "wq_list (wqs s w) = t # rest \<Longrightarrow> \<exists>s'. wait_queue_wake_one k cpu w False err s = Some (1, s') \<and>
       kcore b X Y s' \<and> woken [t] w err s s' \<and> current s' = current s \<and> thread_lock s' \<and> ints_disabled s' cpu \<and>
       (\<forall>u. u \<noteq> t \<longrightarrow> threads s' u = threads s u)"
proof -
  show "wq_list (wqs s w) = [] \<Longrightarrow> wait_queue_wake_one k cpu w False err s = Some (0, s)"
    using lk cur wq by (simp add: wait_queue_wake_one_def)
  assume q: "wq_list (wqs s w) = t # rest"
  note W = wake_head_ok [OF kc q lk]
  let ?s' = "wakeup_cpu_for_thread cpu t (wake_head cpu t w err s)"
  have "wait_queue_wake_one k cpu w False err s = Some (1, ?s')"
    using lk cur wq q W(1,4) by (simp add: wait_queue_wake_one_def)
  moreover have "woken [t] w err s ?s'" using W(3) by (simp add: woken_def)
  ultimately show "\<exists>s'. wait_queue_wake_one k cpu w False err s = Some (1, s') \<and>
       kcore b X Y s' \<and> woken [t] w err s s' \<and> current s' = current s \<and> thread_lock s' \<and> ints_disabled s' cpu \<and>
       (\<forall>u. u \<noteq> t \<longrightarrow> threads s' u = threads s u)"
    using W by simp
qed

text \<open>
  With a reschedule the calling thread goes back to its run queue behind the woken threads and the
  scheduler runs.
\<close>

definition woken_resched :: "cont \<Rightarrow> nat \<Rightarrow> tid \<Rightarrow> tid list \<Rightarrow> wqid \<Rightarrow> status \<Rightarrow> 'a kstate_scheme \<Rightarrow> 'a kstate_scheme \<Rightarrow> bool" where
  "woken_resched k cpu ct ts w err s s' \<longleftrightarrow>
     (\<exists>new. current s' = (current s)(cpu := Some new)) \<and>
     (\<forall>u. u \<notin> set ts \<longrightarrow> u \<noteq> ct \<longrightarrow> cview (threads s' u) = cview (threads s u)) \<and>
     (\<forall>u \<in> set ts. cview (threads s' u) = cview (set_woken err (threads s u))) \<and>
     cview (threads s' ct) = cview ((threads s ct)\<lparr>t_cont := k, t_state := THREAD_READY\<rparr>) \<and>
     wqs s' = (wqs s)(w := (wqs s w)\<lparr>wq_list := drop (length ts) (wq_list (wqs s w)),
                                    wq_count := wq_count (wqs s w) - int (length ts)\<rparr>) \<and>
     cur_time s' = cur_time s \<and> thread_list s' = thread_list s \<and> freed s' = freed s \<and> delayed_free s' = delayed_free s \<and>
     kstate.more s' = kstate.more s"

text \<open>The current thread is queued first: the state in between, in which it has no continuation yet.\<close>

definition requeue_self :: "tid \<Rightarrow> 'a kstate_scheme \<Rightarrow> 'a kstate_scheme" where
  "requeue_self ct s = enqueued (\<lambda>q. ct # q) ct (upd_thread ct (\<lambda>th. th\<lparr>t_state := THREAD_READY\<rparr>) s)"

lemma requeue_self_ok:
  assumes kc: "kcore b {} {} s" and lk: "thread_lock s" "ints_disabled s cpu" and cur: "current s cpu = Some ct"
    and ni: "\<not> thread_is_idle (threads s ct)"
  shows "insert_in_run_queue_head cpu ct (upd_thread ct (\<lambda>th. th\<lparr>t_state := THREAD_READY\<rparr>) s) = Some (requeue_self ct s)"
    "kcore b {cpu} {cpu} (requeue_self ct s)" "current (requeue_self ct s) = current s" "wqs (requeue_self ct s) = wqs s"
    "threads (requeue_self ct s) = (threads s)(ct := (threads s ct)\<lparr>t_state := THREAD_READY, queue_node := True\<rparr>)"
    "thread_lock (requeue_self ct s)" "ints_disabled (requeue_self ct s) cpu" "cur_time (requeue_self ct s) = cur_time s"
    "thread_list (requeue_self ct s) = thread_list s" "freed (requeue_self ct s) = freed s" "delayed_free (requeue_self ct s) = delayed_free s"
    "kstate.more (requeue_self ct s) = kstate.more s"
proof -
  note C = locked_current_facts [OF kc cur] and K = kcoreD [OF kc]
  let ?s1 = "upd_thread ct (\<lambda>th. th\<lparr>t_state := THREAD_READY\<rparr>) s"
  show "insert_in_run_queue_head cpu ct ?s1 = Some (requeue_self ct s)"
    unfolding requeue_self_def using C lk by (intro insert_in_run_queue_head_enqueued) simp_all
  have "sched_inv {ct} s" using C(2) by (intro sched_inv_out [OF K(1)]) (simp_all add: runnable_def)
  then have "sched_inv {ct} ?s1" using C(5) by (intro sched_inv_upd) auto
  then have i: "sched_inv {} (requeue_self ct s)"
    using sched_inv_head [of "{ct}" ?s1 ct] C ni
    by (simp add: requeue_self_def runnable_def thread_is_idle_def has_flag_def)
  define th' where "th' = (threads s ct)\<lparr>t_state := THREAD_READY, queue_node := True\<rparr>"
  have th: "threads (requeue_self ct s) = (threads s)(ct := th')" by (simp add: requeue_self_def th'_def)
  have p: "thread_is_idle th' = thread_is_idle (threads s ct)" "has_flag th' f = has_flag (threads s ct) f"
    "thread_is_real_time_or_idle th' = thread_is_real_time_or_idle (threads s ct)"
    "stack_guard_intact th' = stack_guard_intact (threads s ct)" "\<not> timed_block th'" for f
    using C(3) by (simp_all add: th'_def thread_is_idle_def thread_is_real_time_or_idle_def has_flag_def
        stack_guard_intact_def timed_block_def)
  have "timers_inv (requeue_self ct s)"
    using p by (intro timers_inv_leave [OF K(9) cur th]) (simp_all add: requeue_self_def th'_def)
  then have "kbase b {cpu} {cpu} (requeue_self ct s)"
    using ni p K(5,7) timer_wf_cong [of "requeue_self ct s" s]
    by (intro kbase_leave [OF K(9) cur th]) (simp_all add: stack_inv_def, simp_all add: requeue_self_def th'_def)
  then show "kcore b {cpu} {cpu} (requeue_self ct s)" using i by (simp add: kcore_def)
qed (use lk in \<open>simp_all add: requeue_self_def\<close>)

text \<open>After the wake-ups the scheduler can run with continuation \<open>k\<close>.\<close>

lemma resched_after_wake:
  assumes kc: "kcore b {cpu} {cpu} s" and lk: "thread_lock s" "ints_disabled s cpu" and cur: "current s cpu = Some ct"
    and st: "t_state (threads s ct) = THREAD_READY" "t_cont (threads s ct) = K_none"
    and k: "k \<noteq> K_none" "\<And>timeout c i. k \<noteq> K_wq_block timeout c i" and time: "in_window b (cur_time s + 10)"
  shows "\<exists>s' new. resched_then k cpu s = Some s' \<and> switched_in b cpu s' \<and> current s' = (current s)(cpu := Some new) \<and>
    (\<forall>u. cview (threads s' u) = cview (threads (upd_thread ct (\<lambda>th. th\<lparr>t_cont := k\<rparr>) s) u)) \<and>
    wqs s' = wqs s \<and> cur_time s' = cur_time s \<and> thread_list s' = thread_list s \<and> freed s' = freed s \<and> delayed_free s' = delayed_free s \<and>
    kstate.more s' = kstate.more s"
proof -
  let ?f = "\<lambda>th. th\<lparr>t_cont := k\<rparr>"
  let ?s1 = "upd_thread ct ?f s"
  note K = kcoreD [OF kc]
  have p [simp]: "thread_is_idle (?f th) = thread_is_idle th" "has_flag (?f th) f = has_flag th f"
    "thread_is_real_time_or_idle (?f th) = thread_is_real_time_or_idle th"
    "stack_guard_intact (?f th) = stack_guard_intact th" "sched_view (?f th) = sched_view th"
    "\<not> timed_block (?f th)" "\<not> blocked_cont (?f th)" for th f
    using k by (simp_all add: thread_is_idle_def thread_is_real_time_or_idle_def has_flag_def
        stack_guard_intact_def sched_view_def timed_block_def blocked_cont_def split: cont.splits)
  have nt: "\<not> timed_block (threads s ct)" using st by (simp add: timed_block_def)
  have "sched_inv {} ?s1" using K(1) sched_inv_cong [of ?s1 s "{}"] by simp
  moreover have "cur_inv {cpu} ?s1" using K(2) unfolding cur_inv_def by simp
  moreover have "idle_inv ?s1" using K(3) unfolding idle_inv_def by auto
  moreover have "preempt_inv ?s1" using K(4) unfolding preempt_inv_def by simp
  moreover have "timer_wf b ?s1" using K(5) timer_wf_cong [of ?s1 s] by simp
  moreover have "timers_inv ?s1"
    using K(6) nt unfolding timers_inv_def timer_good_def by (auto split: timer_id.splits)
  moreover have "stack_inv ?s1" using K(7) unfolding stack_inv_def by simp
  moreover have "cont_inv {cpu} ?s1"
  proof -
    have "u \<noteq> ct" if "c \<noteq> cpu" "current s c = Some u" for c u
      using that cur cur_inv_inj [OF K(2)] by blast
    then have "t_cont (threads ?s1 u) = K_none" if "c \<notin> {cpu}" "current ?s1 c = Some u" for c u
      using that K(8) unfolding cont_inv_def by simp
    moreover have "cont_ok (threads ?s1 u)" if "live ?s1 u" "\<forall>c \<in> {cpu}. current ?s1 c \<noteq> Some u" for u
      using that K(8) cur unfolding cont_inv_def by (cases "u = ct") auto
    ultimately show ?thesis unfolding cont_inv_def by blast
  qed
  ultimately have R: "region b cpu ?s1"
    using lk cur st k by (simp add: region_def kcore_def kbase_def kstat_def cont_ok_def)
  obtain s' new where s': "resched_then k cpu s = Some s'" "switched_in b cpu s'"
    and new: "new = fst (get_top_thread cpu ?s1)" and sw: "switched cpu ct new ?s1 s'"
    using resched_then_ok [OF R cur time] by blast
  have "cview (threads s' u) = cview (threads ?s1 u)" for u
    using switched_cview [OF sw] top_ready [OF R] new by blast
  then show ?thesis using s' switchedD(1,7,8,11,12,13,17) [OF sw] by (intro exI [of _ s'] exI [of _ new]) simp
qed

lemma requeue_self_comm:
  "t \<noteq> ct \<Longrightarrow> requeue_self ct (upd_thread t f (upd_wq w g s)) = upd_thread t f (upd_wq w g (requeue_self ct s))"
  by (simp add: requeue_self_def enqueued_def upd_thread_def upd_wq_def Let_def fun_upd_twist)

lemma wake_one_resched_ok:
  assumes kc: "kcore b {} {} s" and lk: "thread_lock s" "ints_disabled s cpu" and cur: "current s cpu = Some ct"
    and ni: "\<not> thread_is_idle (threads s ct)" and wq: "wq_magic (wqs s w) = WAIT_QUEUE_MAGIC"
    and q: "wq_list (wqs s w) = t # rest" and time: "in_window b (cur_time s + 10)"
    and k: "k \<noteq> K_none" "\<And>timeout c i. k \<noteq> K_wq_block timeout c i"
  shows "\<exists>s'. wait_queue_wake_one k cpu w True err s = Some (1, s') \<and> switched_in b cpu s' \<and>
    woken_resched k cpu ct [t] w err s s'"
proof -
  note C = locked_current_facts [OF kc cur] and Q = requeue_self_ok [OF kc lk cur ni]
  have t: "t_state (threads s t) = THREAD_BLOCKED" using wake_head_ok(4) [OF kc q lk] .
  then have ne: "t \<noteq> ct" using C(2) by auto
  have q1: "wq_list (wqs (requeue_self ct s) w) = t # rest" using q Q(4) by simp
  note W = wake_head_ok [OF Q(2) q1 Q(6,7)]
  define s2 where "s2 = upd_thread t (set_woken err) (upd_wq w (\<lambda>q. q\<lparr>wq_list := rest, wq_count := wq_count q - 1\<rparr>) s)"
  have kc2: "insert_in_run_queue_head cpu ct (upd_thread ct (\<lambda>th. th\<lparr>t_state := THREAD_READY\<rparr>) s2) = Some (requeue_self ct s2)"
    unfolding requeue_self_def using C lk ne
    by (intro insert_in_run_queue_head_enqueued) (simp_all add: s2_def)
  have in2: "insert_in_run_queue_head cpu t (requeue_self ct s2) = Some (wake_head cpu t w err (requeue_self ct s))"
    using W(1) [of err] unfolding s2_def requeue_self_comm [OF ne] .
  let ?s5 = "wakeup_cpu_for_thread cpu t (wake_head cpu t w err (requeue_self ct s))"
  have th5: "threads ?s5 ct = (threads s ct)\<lparr>t_state := THREAD_READY, queue_node := True\<rparr>"
    using W(8) [of ct err] ne Q(5) by simp
  have Wk: "woken [t] w err (requeue_self ct s) (wake_head cpu t w err (requeue_self ct s))" using W(3) .
  have "\<exists>s' new. resched_then k cpu ?s5 = Some s' \<and> switched_in b cpu s' \<and> current s' = (current ?s5)(cpu := Some new) \<and>
    (\<forall>u. cview (threads s' u) = cview (threads (upd_thread ct (\<lambda>th. th\<lparr>t_cont := k\<rparr>) ?s5) u)) \<and>
    wqs s' = wqs ?s5 \<and> cur_time s' = cur_time ?s5 \<and> thread_list s' = thread_list ?s5 \<and> freed s' = freed ?s5 \<and> delayed_free s' = delayed_free ?s5 \<and>
    kstate.more s' = kstate.more ?s5"
    by (rule resched_after_wake)
      (use W Q cur k th5 C time Wk in \<open>simp_all add: woken_def\<close>)
  then obtain s' new where s': "resched_then k cpu ?s5 = Some s'" "switched_in b cpu s'"
    "current s' = (current s)(cpu := Some new)"
    "\<And>u. cview (threads s' u) = cview (threads (upd_thread ct (\<lambda>th. th\<lparr>t_cont := k\<rparr>) ?s5) u)"
    "wqs s' = wqs ?s5" "cur_time s' = cur_time ?s5" "thread_list s' = thread_list ?s5" "freed s' = freed ?s5" "delayed_free s' = delayed_free ?s5"
    "kstate.more s' = kstate.more ?s5" using W(5) Q(3) by auto
  have "wait_queue_wake_one k cpu w True err s = Some (1, s')"
    using lk cur wq q t kc2 in2 s'(1) by (simp add: wait_queue_wake_one_def s2_def [symmetric])
  moreover have "cview ((threads ?s5 ct)\<lparr>t_cont := k\<rparr>) = cview ((threads s ct)\<lparr>t_cont := k, t_state := THREAD_READY\<rparr>)"
    unfolding th5 by (simp add: cview_def core_def)
  then have "woken_resched k cpu ct [t] w err s s'"
    using Wk s'(3-) ne Q unfolding woken_resched_def woken_def by auto
  ultimately show ?thesis using s'(2) by blast
qed

section \<open>Waking all\<close>

lemma woken_Nil: "woken [] w err s s"
  by (simp add: woken_def)

lemma cview_woken:
  assumes "cview a = cview b"
  shows "cview (set_woken err a) = cview (set_woken err b)"
  using assms by (cases a; cases b; simp add: cview_def core_def)

lemma woken_Cons:
  assumes 1: "woken [t] w err s s1" and 2: "woken ts w err s1 s2" and t: "t \<notin> set ts"
  shows "woken (t # ts) w err s s2"
proof -
  have "cview (set_woken err (threads s1 u)) = cview (set_woken err (threads s u))" if "u \<noteq> t" for u
    using 1 that by (intro cview_woken) (simp add: woken_def)
  then have "cview (threads s2 u) = cview (set_woken err (threads s u))" if "u \<in> set (t # ts)" for u
    using 1 2 t that by (cases "u = t") (auto simp: woken_def)
  moreover have "cview (threads s2 u) = cview (threads s u)" if "u \<notin> set (t # ts)" for u
    using 1 2 that by (simp add: woken_def)
  moreover have "wqs s2 = (wqs s)(w := (wqs s w)\<lparr>wq_list := drop (length (t # ts)) (wq_list (wqs s w)),
                                    wq_count := wq_count (wqs s w) - int (length (t # ts))\<rparr>)"
    using 1 2 by (simp add: woken_def diff_diff_eq)
  ultimately show ?thesis using 1 2 unfolding woken_def by auto
qed

lemma wake_all_loop_ok:
  assumes "kcore b X Y s" "thread_lock s" "ints_disabled s cpu" "wq_list (wqs s w) = ts"
  shows "\<exists>mask' s'. wake_all_loop cpu w err ts m0 ret s = Some (mask', ret + int (length ts), s') \<and>
    kcore b X Y s' \<and> woken ts w err s s' \<and> current s' = current s \<and> thread_lock s' \<and> ints_disabled s' cpu \<and>
    (\<forall>u. u \<notin> set ts \<longrightarrow> threads s' u = threads s u)"
  using assms
proof (induction ts arbitrary: s m0 ret)
  case Nil
  then show ?case using woken_Nil by simp
next
  case (Cons t ts)
  note W = wake_head_ok [OF Cons.prems(1,4,2,3)]
  let ?s1 = "wake_head cpu t w err s"
  have q1: "wq_list (wqs ?s1 w) = ts" using W(3) Cons.prems(4) by (simp add: woken_def)
  have "distinct (t # ts)" using sched_invD(4) [OF kcoreD(1) [OF Cons.prems(1)], of w] Cons.prems(4) by simp
  then have nt: "t \<notin> set ts" by simp
  let ?m = "if pinned_cpu (threads s t) < 0 then MP_CPU_ALL_BUT_LOCAL else m0 OR push_bit (nat (pinned_cpu (threads s t))) 1"
  obtain mask' s' where s': "wake_all_loop cpu w err ts ?m (ret + 1) ?s1 = Some (mask', ret + 1 + int (length ts), s')"
    "kcore b X Y s'" "woken ts w err ?s1 s'" "current s' = current ?s1" "thread_lock s'" "ints_disabled s' cpu"
    "\<forall>u. u \<notin> set ts \<longrightarrow> threads s' u = threads ?s1 u"
    using Cons.IH [OF W(2,6,7) q1, of ?m "ret + 1"] by blast
  have "wake_all_loop cpu w err (t # ts) m0 ret s = Some (mask', ret + int (length (t # ts)), s')"
    using W(1,4) s'(1) by (simp add: add.assoc add.commute)
  moreover have "woken (t # ts) w err s s'" using woken_Cons [OF W(3) s'(3) nt] .
  ultimately show ?case using s' W(5,8) by auto
qed

lemma wake_all_ok:
  assumes kc: "kcore b X Y s" and lk: "thread_lock s" "ints_disabled s cpu" and cur: "current s cpu = Some ct"
    and wq: "wq_magic (wqs s w) = WAIT_QUEUE_MAGIC"
  shows "\<exists>s'. wait_queue_wake_all k cpu w False err s = Some (int (length (wq_list (wqs s w))), s') \<and>
    kcore b X Y s' \<and> woken (wq_list (wqs s w)) w err s s' \<and> current s' = current s \<and> thread_lock s' \<and>
    ints_disabled s' cpu \<and> (\<forall>u. u \<notin> set (wq_list (wqs s w)) \<longrightarrow> threads s' u = threads s u)"
proof -
  let ?ts = "wq_list (wqs s w)"
  obtain m s' where s': "wake_all_loop cpu w err ?ts 0 0 s = Some (m, int (length ?ts), s')"
    "kcore b X Y s'" "woken ?ts w err s s'" "current s' = current s" "thread_lock s'" "ints_disabled s' cpu"
    "\<forall>u. u \<notin> set ?ts \<longrightarrow> threads s' u = threads s u"
    using wake_all_loop_ok [OF kc lk refl, of w err 0 0] by auto
  have "wq_count (wqs s' w) = 0"
    using s'(3) sched_invD(5) [OF kcoreD(1) [OF kc], of w] by (simp add: woken_def)
  then have "wait_queue_wake_all k cpu w False err s =
      Some (int (length ?ts), if ?ts = [] then s' else mp_reschedule cpu m 0 s')"
    using lk cur wq s'(1) by (simp add: wait_queue_wake_all_def)
  then show ?thesis using s' by (simp add: woken_def)
qed

lemma wake_all_resched_ok:
  assumes kc: "kcore b {} {} s" and lk: "thread_lock s" "ints_disabled s cpu" and cur: "current s cpu = Some ct"
    and ni: "\<not> thread_is_idle (threads s ct)" and wq: "wq_magic (wqs s w) = WAIT_QUEUE_MAGIC"
    and q: "wq_list (wqs s w) \<noteq> []" and time: "in_window b (cur_time s + 10)"
    and k: "k \<noteq> K_none" "\<And>timeout c i. k \<noteq> K_wq_block timeout c i"
  shows "\<exists>s'. wait_queue_wake_all k cpu w True err s = Some (int (length (wq_list (wqs s w))), s') \<and>
    switched_in b cpu s' \<and> woken_resched k cpu ct (wq_list (wqs s w)) w err s s'"
proof -
  let ?ts = "wq_list (wqs s w)"
  note C = locked_current_facts [OF kc cur] and Q = requeue_self_ok [OF kc lk cur ni]
  have ct: "ct \<notin> set ?ts" using sched_invD(6) [OF kcoreD(1) [OF kc], of ct w] C(2) by simp
  have cnt: "wq_count (wqs s w) = int (length ?ts)" using sched_invD(5) [OF kcoreD(1) [OF kc]] .
  have q1: "wq_list (wqs (requeue_self ct s) w) = ?ts" using Q(4) by simp
  obtain m s2 where s2: "wake_all_loop cpu w err ?ts 0 0 (requeue_self ct s) = Some (m, int (length ?ts), s2)"
    "kcore b {cpu} {cpu} s2" "woken ?ts w err (requeue_self ct s) s2" "current s2 = current (requeue_self ct s)"
    "thread_lock s2" "ints_disabled s2 cpu" "\<forall>u. u \<notin> set ?ts \<longrightarrow> threads s2 u = threads (requeue_self ct s) u"
    using wake_all_loop_ok [OF Q(2,6,7) q1, of err 0 0] by auto
  have cnt2: "wq_count (wqs s2 w) = 0" using s2(3) cnt Q(4) by (simp add: woken_def)
  let ?s3 = "mp_reschedule cpu m 0 s2"
  have th3: "threads ?s3 ct = (threads s ct)\<lparr>t_state := THREAD_READY, queue_node := True\<rparr>"
    using s2(7) ct Q(5) by simp
  have "\<exists>s' new. resched_then k cpu ?s3 = Some s' \<and> switched_in b cpu s' \<and> current s' = (current ?s3)(cpu := Some new) \<and>
    (\<forall>u. cview (threads s' u) = cview (threads (upd_thread ct (\<lambda>th. th\<lparr>t_cont := k\<rparr>) ?s3) u)) \<and>
    wqs s' = wqs ?s3 \<and> cur_time s' = cur_time ?s3 \<and> thread_list s' = thread_list ?s3 \<and> freed s' = freed ?s3 \<and> delayed_free s' = delayed_free ?s3 \<and>
    kstate.more s' = kstate.more ?s3"
    by (rule resched_after_wake) (use s2 Q cur k th3 C time in \<open>simp_all add: woken_def\<close>)
  then obtain s' new where s': "resched_then k cpu ?s3 = Some s'" "switched_in b cpu s'"
    "current s' = (current s)(cpu := Some new)"
    "\<And>u. cview (threads s' u) = cview (threads (upd_thread ct (\<lambda>th. th\<lparr>t_cont := k\<rparr>) ?s3) u)"
    "wqs s' = wqs ?s3" "cur_time s' = cur_time ?s3" "thread_list s' = thread_list ?s3" "freed s' = freed ?s3" "delayed_free s' = delayed_free ?s3"
    "kstate.more s' = kstate.more ?s3" using s2(4) Q(3) by auto
  have "wait_queue_wake_all k cpu w True err s = Some (int (length ?ts), s')"
    using lk cur wq q cnt Q(1) q1 s2(1) cnt2 s'(1) by (simp add: wait_queue_wake_all_def)
  moreover have "cview ((threads ?s3 ct)\<lparr>t_cont := k\<rparr>) = cview ((threads s ct)\<lparr>t_cont := k, t_state := THREAD_READY\<rparr>)"
    unfolding th3 by (simp add: cview_def core_def)
  then have "woken_resched k cpu ct ?ts w err s s'"
    using s2(3) s'(3-) ct Q unfolding woken_resched_def woken_def by auto
  ultimately show ?thesis using s'(2) by blast
qed

lemma wake_all_empty:
  assumes kc: "kcore b X Y s" and lk: "thread_lock s" "ints_disabled s cpu" and cur: "current s cpu = Some ct"
    and wq: "wq_magic (wqs s w) = WAIT_QUEUE_MAGIC" and q: "wq_list (wqs s w) = []"
  shows "wait_queue_wake_all k cpu w r err s = Some (0, s)"
  using lk cur wq q sched_invD(5) [OF kcoreD(1) [OF kc], of w] by (simp add: wait_queue_wake_all_def)

end
