(* ===== verification/Tick_Inv.thy ===== *)
theory Tick_Inv
  imports Block_Inv
begin

text \<open>
  The timer interrupt: the callbacks of the scheduler satisfy the contract of
  \<open>timer_callbacks\<close>, so a tick on any cpu terminates, fires exactly the due timers and keeps the
  invariant of the thread system.
\<close>

section \<open>What the callbacks need and keep\<close>

text \<open>
  The effect of timer callbacks on the calls in progress, from \<open>s0\<close> to \<open>s\<close>: finitely many threads,
  each blocked with a timeout, were woken with \<open>ERR_TIMED_OUT\<close>, the calls are otherwise as before.
\<close>

definition timed_out :: "'a kstate_scheme \<Rightarrow> 'a kstate_scheme \<Rightarrow> bool" where
  "timed_out s0 s \<longleftrightarrow>
     (\<exists>T. finite T \<and> (\<forall>u. u \<notin> T \<longrightarrow> cview (threads s u) = cview (threads s0 u)) \<and>
        (\<forall>u \<in> T. live s0 u \<and> t_state (threads s0 u) = THREAD_BLOCKED \<and> timed_block (threads s0 u) \<and>
           cview (threads s u) = cview (set_woken ERR_TIMED_OUT (threads s0 u)))) \<and>
     current s = current s0 \<and> thread_list s = thread_list s0 \<and> freed s = freed s0 \<and>
     (\<forall>w. wq_magic (wqs s w) = wq_magic (wqs s0 w)) \<and> kstate.more s = kstate.more s0"

lemma timed_out_refl: "timed_out s s"
  by (auto simp: timed_out_def intro: exI [of _ "{}"])

lemma timed_out_quiet:
  assumes "timed_out s0 s" "\<And>u. cview (threads s' u) = cview (threads s u)"
    "current s' = current s" "thread_list s' = thread_list s" "freed s' = freed s"
    "\<And>w. wq_magic (wqs s' w) = wq_magic (wqs s w)" "kstate.more s' = kstate.more s"
  shows "timed_out s0 s'"
  using assms unfolding timed_out_def by simp

lemma timed_out_step:
  assumes s: "timed_out s0 s" and o: "\<And>u. u \<noteq> t \<Longrightarrow> cview (threads s' u) = cview (threads s u)"
    and t: "live s t" "t_state (threads s t) = THREAD_BLOCKED" "timed_block (threads s t)"
      "cview (threads s' t) = cview (set_woken ERR_TIMED_OUT (threads s t))"
    and fr: "current s' = current s" "thread_list s' = thread_list s" "freed s' = freed s"
      "\<And>w. wq_magic (wqs s' w) = wq_magic (wqs s w)" "kstate.more s' = kstate.more s"
  shows "timed_out s0 s'"
proof -
  from s obtain T where T: "finite T" "\<And>u. u \<notin> T \<Longrightarrow> cview (threads s u) = cview (threads s0 u)"
    "\<And>u. u \<in> T \<Longrightarrow> live s0 u \<and> t_state (threads s0 u) = THREAD_BLOCKED \<and> timed_block (threads s0 u) \<and>
       cview (threads s u) = cview (set_woken ERR_TIMED_OUT (threads s0 u))"
    unfolding timed_out_def by blast
  have "t \<notin> T" using T(3) [of t] t(2) by (auto simp: cview_def)
  then have eq: "cview (threads s t) = cview (threads s0 t)" by (rule T(2))
  note E = cview_eqD [OF eq]
  have "live s0 t \<and> t_state (threads s0 t) = THREAD_BLOCKED \<and> timed_block (threads s0 t) \<and>
      cview (threads s' t) = cview (set_woken ERR_TIMED_OUT (threads s0 t))"
    using t E cview_woken [OF eq, of ERR_TIMED_OUT] by (simp add: timed_block_def)
  moreover have "cview (threads s' u) = cview (threads s u)" if "u \<in> T" for u using o [of u] that \<open>t \<notin> T\<close> by blast
  ultimately have "finite (insert t T) \<and> (\<forall>u. u \<notin> insert t T \<longrightarrow> cview (threads s' u) = cview (threads s0 u)) \<and>
      (\<forall>u \<in> insert t T. live s0 u \<and> t_state (threads s0 u) = THREAD_BLOCKED \<and> timed_block (threads s0 u) \<and>
         cview (threads s' u) = cview (set_woken ERR_TIMED_OUT (threads s0 u)))"
    using T o by simp
  moreover have "current s' = current s0" "thread_list s' = thread_list s0" "freed s' = freed s0"
    "\<forall>w. wq_magic (wqs s' w) = wq_magic (wqs s0 w)" "kstate.more s' = kstate.more s0"
    using s fr by (simp_all add: timed_out_def)
  ultimately show ?thesis unfolding timed_out_def by blast
qed

definition tick_ok :: "'a kstate_scheme \<Rightarrow> nat \<Rightarrow> 'a kstate_scheme \<Rightarrow> bool" where
  "tick_ok s0 cpu s \<longleftrightarrow> sched_inv {} s \<and> kstat {} {} s \<and> \<not> thread_lock s \<and> ints_disabled s cpu \<and>
     current s cpu \<noteq> None \<and> timed_out s0 s"

lemma tick_ok_cong:
  assumes "threads s' = threads s" "current s' = current s" "timers s' = timers s"
    "run_queue s' = run_queue s" "run_queue_bitmap s' = run_queue_bitmap s" "wqs s' = wqs s"
    "thread_lock s' = thread_lock s" "ints_disabled s' = ints_disabled s" "thread_list s' = thread_list s"
    "freed s' = freed s" "kstate.more s' = kstate.more s"
  shows "tick_ok s0 cpu s' = tick_ok s0 cpu s"
  using assms sched_inv_cong [of s' s "{}"] kstat_cong [of s' s "{}" "{}"] by (simp add: tick_ok_def timed_out_def)

text \<open>Taking a timer out of its queue.\<close>

lemma kstat_unlink:
  assumes k: "kstat X Y s" and tm: "\<And>t. tm \<noteq> TM_sleep t"
    and w: "\<And>t. tm = TM_wait t \<Longrightarrow> t_state (threads s t) \<noteq> THREAD_BLOCKED"
    and s': "threads s' = threads s" "current s' = current s" "timers s' = (timers s)(tm := (timers s tm)\<lparr>tm_linked := False\<rparr>)"
  shows "kstat X Y s'"
proof -
  note K = kstatD [OF k]
  have "preempt_inv s'" using K(3) unfolding preempt_inv_def by (auto simp: s' timer_off_def)
  moreover have "timers_inv s'"
    using K(4) tm w unfolding timers_inv_def by (auto simp: s' timer_good_def split: timer_id.splits)
  ultimately show ?thesis using K unfolding kstat_def cur_inv_def idle_inv_def stack_inv_def cont_inv_def by (simp add: s')
qed

text \<open>A sleeper is made ready when its timer is taken out.\<close>

lemma kstat_wake_sleeper:
  assumes k: "kstat {} {} s" and tm: "tm_linked (timers s (TM_sleep t))"
    and s': "threads s' = (threads s)(t := th')" "kview th' = kview ((threads s t)\<lparr>t_state := THREAD_READY\<rparr>)"
      "current s' = current s" "timers s' = (timers s)(TM_sleep t := (timers s (TM_sleep t))\<lparr>tm_linked := False\<rparr>)"
  shows "kstat {} {} s'"
proof -
  note K = kstatD [OF k]
  have t: "live s t" "t_state (threads s t) = THREAD_SLEEPING"
    using K(4) tm unfolding timers_inv_def timer_good_def by fastforce+
  define s1 where "s1 = upd_timer (TM_sleep t) (\<lambda>x. x\<lparr>tm_linked := False\<rparr>) (upd_thread t (\<lambda>th. th\<lparr>t_state := THREAD_READY\<rparr>) s)"
  have th1: "threads s1 = (threads s)(t := (threads s t)\<lparr>t_state := THREAD_READY\<rparr>)" "current s1 = current s"
    by (simp_all add: s1_def upd_timer_def)
  have tm1: "timers s1 = timers s'" by (simp add: s1_def s')
  have ncur: "current s c \<noteq> Some t" for c using K(1) t unfolding cur_inv_def by fastforce
  have "cur_inv {} s1" using K(1) t unfolding cur_inv_def th1 by (auto split: if_splits)
  moreover have "idle_inv s1" using K(2) t unfolding idle_inv_def th1 by auto
  moreover have "preempt_inv s1" using K(3) unfolding preempt_inv_def th1 tm1 by (auto simp: s' timer_off_def)
  moreover have "timers_inv s1"
    unfolding timers_inv_def
  proof (intro conjI allI impI)
    show "timer_good s1 x" if "tm_linked (timers s1 x)" for x
    proof -
      have "x \<noteq> TM_sleep t" "tm_linked (timers s x)" using that by (auto simp: tm1 s' split: if_splits)
      then have "timer_good s x" using K(4) unfolding timers_inv_def by blast
      then show ?thesis using \<open>x \<noteq> TM_sleep t\<close> by (auto simp: timer_good_def th1 tm1 s' split: timer_id.splits)
    qed
    show "tm_callback (timers s1 x) = Some CB_thread_timer_tick" "\<exists>c. x = TM_preempt c"
      if "periodic_time (timers s1 x) > 0" for x
      using that K(4) unfolding timers_inv_def tm1 s' by (cases "x = TM_sleep t"; force)+
    show "tm_linked (timers s1 (TM_sleep v))" if "live s1 v" "t_state (threads s1 v) = THREAD_SLEEPING" for v
      using that K(4) unfolding timers_inv_def tm1 th1 s' by (cases "v = t") simp_all
    show "tm_magic (timers s1 (TM_wait v)) = TIMER_MAGIC" if "live s1 v" "timed_block (threads s1 v)" for v
      using that K(4) unfolding timers_inv_def tm1 th1 s' by (cases "v = t") simp_all
    show "tm_linked (timers s1 (TM_wait v))"
      if "live s1 v" "timed_block (threads s1 v)" "t_state (threads s1 v) = THREAD_BLOCKED" for v
      using that K(4) unfolding timers_inv_def tm1 th1 s' by (cases "v = t") simp_all
  qed
  moreover have "stack_inv s1" using K(5) unfolding stack_inv_def th1 by simp
  moreover have "cont_inv {} s1" using K(6) t ncur unfolding cont_inv_def th1 by (auto simp: cont_ok_def)
  ultimately have "kstat {} {} s1" by (simp add: kstat_def)
  moreover have "kview (threads s' u) = kview (threads s1 u)" for u using s' by (simp add: th1)
  ultimately show ?thesis using kstat_cong [of s' s1] s' th1 tm1 by simp
qed

text \<open>Entering the run queue, for a thread that is not in any queue.\<close>

lemma insert_unqueued:
  assumes i: "sched_inv {t} s" and t: "live s t" "runnable (threads s t)" "0 \<le> priority (threads s t) \<and> priority (threads s t) < 32"
    and lk: "thread_lock s" "ints_disabled s cpu"
  shows "insert_in_run_queue_head cpu t s = Some (enqueued (\<lambda>q. t # q) t s)" "sched_inv {} (enqueued (\<lambda>q. t # q) t s)"
proof -
  have "\<not> queue_node (threads s t)" using sched_invD(8) [OF i t(1)] by simp
  then show "insert_in_run_queue_head cpu t s = Some (enqueued (\<lambda>q. t # q) t s)"
    using t lk by (intro insert_in_run_queue_head_enqueued) (simp_all add: runnable_def)
  show "sched_inv {} (enqueued (\<lambda>q. t # q) t s)" using sched_inv_head [OF i, of t] t by simp
qed

section \<open>The three callbacks\<close>

text \<open>The state in which \<open>timer_tick\<close> runs the callback of \<open>tm\<close>.\<close>

lemma unlinked_kstate:
  fixes s :: "'a kstate_scheme"
  assumes u_def: "u = upd_stats c f (unlink_timer tm s)"
  shows "threads u = threads s" "current u = current s" "run_queue u = run_queue s" "run_queue_bitmap u = run_queue_bitmap s"
    "wqs u = wqs s" "thread_lock u = thread_lock s" "ints_disabled u = ints_disabled s"
    "timers u = (timers s)(tm := (timers s tm)\<lparr>tm_linked := False\<rparr>)" "timer_queue u = timer_queue (unlink_timer tm s)"
    "timers u = timers (unlink_timer tm s)"
    "thread_list u = thread_list s" "freed u = freed s" "kstate.more u = kstate.more s"
  by (simp_all add: u_def timer_more_kstate [of "unlink_timer tm s" s])

lemma preempt_callback:
  assumes ok: "tick_ok s0 cpu s" and tm: "tm = TM_preempt d"
    and u: "threads u = threads s" "current u = current s" "run_queue u = run_queue s" "run_queue_bitmap u = run_queue_bitmap s"
    "wqs u = wqs s" "thread_lock u = thread_lock s" "ints_disabled u = ints_disabled s"
    "timers u = (timers s)(tm := (timers s tm)\<lparr>tm_linked := False\<rparr>)"
    "thread_list u = thread_list s" "freed u = freed s" "kstate.more u = kstate.more s"
  shows "\<exists>r s'. thread_timer_tick cpu u = Some (r, s') \<and> timers s' = timers u \<and> timer_queue s' = timer_queue u \<and> tick_ok s0 cpu s'"
proof -
  have k: "kstat {} {} u"
    by (rule kstat_unlink [of "{}" "{}" s tm]) (use ok tm in \<open>simp_all add: tick_ok_def u\<close>)
  have i: "sched_inv {} u" using ok sched_inv_cong [of u s "{}"] by (simp add: tick_ok_def u)
  obtain t where t: "current u cpu = Some t" using ok by (auto simp: tick_ok_def u)
  let ?s' = "upd_thread t (\<lambda>th. th\<lparr>remaining_quantum := remaining_quantum th - 1\<rparr>) u"
  have to: "timed_out s0 u"
    by (rule timed_out_quiet [of s0 s]) (use ok in \<open>simp_all add: tick_ok_def u\<close>)
  then have "tick_ok s0 cpu u" using ok k i by (simp add: tick_ok_def u)
  moreover have "timed_out s0 ?s'"
    by (rule timed_out_quiet [OF to]) (simp_all add: cview_def core_def)
  then have "tick_ok s0 cpu ?s'"
    using ok k i kstat_cong [of ?s' u] sched_inv_cong [of ?s' u]
    by (simp add: tick_ok_def u kview_def sched_view_def thread_is_idle_def has_flag_def)
  ultimately show ?thesis using t by (simp add: thread_timer_tick_def Let_def)
qed

lemma sleep_callback:
  assumes ok: "tick_ok s0 cpu s" and lk: "tm_linked (timers s (TM_sleep t))"
    and u: "threads u = threads s" "current u = current s" "run_queue u = run_queue s" "run_queue_bitmap u = run_queue_bitmap s"
    "wqs u = wqs s" "thread_lock u = thread_lock s" "ints_disabled u = ints_disabled s"
    "timers u = (timers s)(TM_sleep t := (timers s (TM_sleep t))\<lparr>tm_linked := False\<rparr>)"
    "thread_list u = thread_list s" "freed u = freed s" "kstate.more u = kstate.more s"
  shows "\<exists>r s'. thread_sleep_handler cpu t u = Some (r, s') \<and> timers s' = timers u \<and> timer_queue s' = timer_queue u \<and> tick_ok s0 cpu s'"
proof -
  have k: "kstat {} {} s" and i: "sched_inv {} s" using ok by (simp_all add: tick_ok_def)
  have t: "live s t" "t_state (threads s t) = THREAD_SLEEPING"
    using kstatD(4) [OF k] lk unfolding timers_inv_def timer_good_def by fastforce+
  have ni: "\<not> thread_is_idle (threads s t)" using kstatD(2) [OF k] t unfolding idle_inv_def by fastforce
  define s1 where "s1 = upd_thread t (\<lambda>th. th\<lparr>t_state := THREAD_READY\<rparr>)
    (u\<lparr>thread_lock := True, ints_disabled := (ints_disabled u)(cpu := True)\<rparr>)"
  have "\<not> queue_node (threads s t)" using sched_invD(8) [OF i t(1)] t by (simp add: runnable_def)
  then have "sched_inv {t} (upd_thread t (\<lambda>th. th\<lparr>t_state := THREAD_READY\<rparr>) s)"
    using t by (intro sched_inv_upd [OF sched_inv_out [OF i]]) (auto simp: runnable_def)
  then have i1: "sched_inv {t} s1"
    using sched_inv_cong [of s1 "upd_thread t (\<lambda>th. th\<lparr>t_state := THREAD_READY\<rparr>) s"] by (simp add: s1_def u)
  have "live s1 t" "runnable (threads s1 t)" "0 \<le> priority (threads s1 t) \<and> priority (threads s1 t) < 32"
    "thread_lock s1" "ints_disabled s1 cpu"
    using t ni sched_invD(9) [OF i t(1)] by (simp_all add: s1_def u runnable_def)
  note I = insert_unqueued [OF i1 this]
  define s' where "s' = THREAD_UNLOCK cpu (ints_disabled u cpu) (enqueued (\<lambda>q. t # q) t s1)"
  have fr: "threads s' = (threads s)(t := threads s' t)" "kview (threads s' t) = kview ((threads s t)\<lparr>t_state := THREAD_READY\<rparr>)"
    "current s' = current s" "timers s' = timers u" "timer_queue s' = timer_queue u" "\<not> thread_lock s'" "ints_disabled s' cpu"
    using ok by (simp_all add: s'_def THREAD_UNLOCK_def s1_def u kview_def tick_ok_def)
  have "kstat {} {} s'" using kstat_wake_sleeper [OF k lk fr(1-3)] fr(4) u by simp
  moreover have "sched_inv {} s'"
    using I(2) sched_inv_cong [of s' "enqueued (\<lambda>q. t # q) t s1"] by (simp add: s'_def THREAD_UNLOCK_def)
  moreover have "timed_out s0 s'"
    by (rule timed_out_quiet [of s0 s])
      (use ok t in \<open>simp_all add: tick_ok_def s'_def THREAD_UNLOCK_def s1_def u cview_def core_def\<close>)
  ultimately have "tick_ok s0 cpu s'" using ok fr by (simp add: tick_ok_def)
  moreover have "thread_sleep_handler cpu t u = Some (INT_RESCHEDULE, s')"
    using ok t I(1) by (simp add: thread_sleep_handler_def THREAD_LOCK_def tick_ok_def u s1_def s'_def)
  ultimately show ?thesis using fr by blast
qed

lemma timeout_callback:
  assumes ok: "tick_ok s0 cpu s" and lk: "tm_linked (timers s (TM_wait t))"
    and u: "threads u = threads s" "current u = current s" "run_queue u = run_queue s" "run_queue_bitmap u = run_queue_bitmap s"
    "wqs u = wqs s" "thread_lock u = thread_lock s" "ints_disabled u = ints_disabled s"
    "timers u = (timers s)(TM_wait t := (timers s (TM_wait t))\<lparr>tm_linked := False\<rparr>)"
    "thread_list u = thread_list s" "freed u = freed s" "kstate.more u = kstate.more s"
  shows "\<exists>r s'. wait_queue_timeout_handler cpu t u = Some (r, s') \<and> timers s' = timers u \<and> timer_queue s' = timer_queue u \<and> tick_ok s0 cpu s'"
proof -
  have k: "kstat {} {} s" and i: "sched_inv {} s" using ok by (simp_all add: tick_ok_def)
  have t: "live s t" and tb: "timed_block (threads s t)"
    using kstatD(4) [OF k] lk unfolding timers_inv_def timer_good_def by fastforce+
  show ?thesis
  proof (cases "t_state (threads s t) = THREAD_BLOCKED")
    case False
    have "kstat {} {} u" by (rule kstat_unlink [of "{}" "{}" s "TM_wait t"]) (use k False in \<open>simp_all add: u\<close>)
    moreover have "sched_inv {} u" using i sched_inv_cong [of u s "{}"] by (simp add: u)
    moreover have "timed_out s0 u"
      by (rule timed_out_quiet [of s0 s]) (use ok in \<open>simp_all add: tick_ok_def u\<close>)
    ultimately have "tick_ok s0 cpu u" using ok by (simp add: tick_ok_def u)
    moreover have "wait_queue_timeout_handler cpu t u = Some (INT_NO_RESCHEDULE, u)"
      using ok t False by (simp add: wait_queue_timeout_handler_def thread_unblock_from_wait_queue_def tick_ok_def u)
    ultimately show ?thesis by simp
  next
    case True
    obtain w where w: "blocking_wait_queue (threads s t) = Some w" "wq_magic (wqs s w) = WAIT_QUEUE_MAGIC"
      using sched_invD(7) [OF i t _ True] by auto
    have tw: "t \<in> set (wq_list (wqs s w))" using sched_invD(6) [OF i, of t w] t True w by simp
    have ni: "\<not> thread_is_idle (threads s t)" using kstatD(2) [OF k] t True unfolding idle_inv_def by fastforce
    have qn: "queue_node (threads s t)" using sched_invD(8) [OF i t] True by simp
    let ?f = "\<lambda>th. th\<lparr>queue_node := False, blocking_wait_queue := None,
                  t_state := THREAD_READY, wait_queue_block_ret := ERR_TIMED_OUT\<rparr>"
    define s1 where "s1 = upd_thread t ?f (upd_wq w (wq_remove t) (u\<lparr>thread_lock := True\<rparr>))"
    have "sched_inv {t} (upd_thread t ?f (upd_wq w (wq_remove t) s))"
      using sched_inv_unwait [OF i tw, of ?f] by simp
    then have i1: "sched_inv {t} s1"
      using sched_inv_cong [of s1 "upd_thread t ?f (upd_wq w (wq_remove t) s)"] by (simp add: s1_def u)
    have "live s1 t" "runnable (threads s1 t)" "0 \<le> priority (threads s1 t) \<and> priority (threads s1 t) < 32"
      "thread_lock s1" "ints_disabled s1 cpu"
      using t ni sched_invD(9) [OF i t] ok by (simp_all add: s1_def u runnable_def tick_ok_def thread_is_idle_def has_flag_def)
    note I = insert_unqueued [OF i1 this]
    define s' where "s' = (wakeup_cpu_for_thread cpu t (enqueued (\<lambda>q. t # q) t s1))\<lparr>thread_lock := False\<rparr>"
    have fr: "threads s' = (threads s)(t := threads s' t)" "kview (threads s' t) = kview ((threads s t)\<lparr>t_state := THREAD_READY\<rparr>)"
      "current s' = current s" "timers s' = timers u" "timer_queue s' = timer_queue u" "\<not> thread_lock s'" "ints_disabled s' cpu"
      using ok by (simp_all add: s'_def s1_def u kview_def tick_ok_def)
    have "kstat {} {} (upd_thread t (\<lambda>_. threads s' t) s)"
      by (rule kstat_ready [OF k t, where th' = "threads s' t"]) (use True fr in simp_all)
    then have "kstat {} {} s'"
      by (rule kstat_unlink [where tm = "TM_wait t"]) (use fr in \<open>simp_all add: kview_def u\<close>)
    moreover have "sched_inv {} s'"
      using I(2) sched_inv_cong [of s' "enqueued (\<lambda>q. t # q) t s1"] by (simp add: s'_def)
    moreover have "timed_out s0 s'"
      by (rule timed_out_step [of s0 s t])
        (use ok t True tb in \<open>simp_all add: tick_ok_def s'_def s1_def u wq_remove_def cview_def core_def\<close>)
    ultimately have "tick_ok s0 cpu s'" using ok fr by (simp add: tick_ok_def)
    moreover have "wait_queue_timeout_handler cpu t u = Some (INT_RESCHEDULE, s')"
      using ok t True w qn I(1)
      by (simp add: wait_queue_timeout_handler_def thread_unblock_from_wait_queue_def tick_ok_def u s1_def s'_def wq_remove_def [abs_def])
    ultimately show ?thesis using fr by blast
  qed
qed

section \<open>The callbacks satisfy the contract of the timer tick\<close>

lemma run_timer_callback_ok:
  fixes s :: "'a kstate_scheme"
  assumes ok: "tick_ok s0 cpu s" and lk: "tm_linked (timers s tm)" and cb: "tm_callback (timers s tm) = Some cb"
  shows "\<exists>r s'. run_timer_callback cpu cb tm now (tm_arg (timers s tm)) (upd_stats c f (unlink_timer tm s)) = Some (r, s') \<and>
    timers s' = timers (unlink_timer tm s) \<and> timer_queue s' = timer_queue (unlink_timer tm s) \<and> tick_ok s0 cpu s'"
proof -
  define u where "u = upd_stats c f (unlink_timer tm s)"
  note U = unlinked_kstate [OF u_def]
  have good: "timer_good s tm" using ok lk kstatD(4) unfolding tick_ok_def timers_inv_def by blast
  have "\<exists>r s'. run_timer_callback cpu cb tm now (tm_arg (timers s tm)) u = Some (r, s') \<and>
      timers s' = timers u \<and> timer_queue s' = timer_queue u \<and> tick_ok s0 cpu s'"
  proof (cases tm)
    case (TM_preempt d)
    with good cb have "cb = CB_thread_timer_tick" by (simp add: timer_good_def)
    then show ?thesis using preempt_callback [OF ok TM_preempt U(1-8,11-13)]
      by (simp add: run_timer_callback_def)
  next
    case (TM_sleep t)
    with good cb have "cb = CB_thread_sleep" "tm_arg (timers s tm) = Arg_thread t" by (simp_all add: timer_good_def)
    then show ?thesis using sleep_callback [OF ok, of t u] lk TM_sleep U
      by (simp add: run_timer_callback_def)
  next
    case (TM_wait t)
    with good cb have "cb = CB_wait_queue_timeout" "tm_arg (timers s tm) = Arg_thread t" by (simp_all add: timer_good_def)
    then show ?thesis using timeout_callback [OF ok, of t u] lk TM_wait U
      by (simp add: run_timer_callback_def)
  next
    case (TM_other n)
    with good show ?thesis by (simp add: timer_good_def)
  qed
  then show ?thesis using U(9,10) by (simp add: u_def)
qed

lemma requeue_tick_ok:
  fixes s :: "'a kstate_scheme"
  assumes ok: "tick_ok s0 cpu s" and per: "periodic_time (timers s tm) > 0"
  shows "tick_ok s0 cpu (insert_timer_in_queue c tm (upd_timer tm (\<lambda>t. t\<lparr>scheduled_time := x\<rparr>) s))" (is "tick_ok s0 cpu ?s'")
proof -
  have k: "kstat {} {} s" using ok by (simp add: tick_ok_def)
  note K = kstatD [OF k]
  have M: "timer_state.more ?s' = timer_state.more s" by simp
  note M = timer_more_kstate [OF M]
  have tm: "timers ?s' = (timers s)(tm := (timers s tm)\<lparr>scheduled_time := x, tm_linked := True\<rparr>)" by simp
  obtain d where d: "tm = TM_preempt d" "tm_callback (timers s tm) = Some CB_thread_timer_tick"
    using K(4) per unfolding timers_inv_def by blast
  have on: "\<not> timer_off (timers s tm)" using per by (auto simp: timer_off_def)
  have "preempt_inv ?s'" using K(3) on d unfolding preempt_inv_def M tm by (auto simp: timer_off_def)
  moreover have "timers_inv ?s'"
    using K(4) d unfolding timers_inv_def timer_good_def M tm by (auto split: timer_id.splits)
  ultimately have "kstat {} {} ?s'"
    using K unfolding kstat_def cur_inv_def idle_inv_def stack_inv_def cont_inv_def by (simp add: M)
  moreover have "timed_out s0 ?s'"
    by (rule timed_out_quiet [of s0 s]) (use ok in \<open>simp_all add: tick_ok_def M\<close>)
  ultimately show ?thesis using ok sched_inv_cong [of ?s' s "{}"] by (simp add: tick_ok_def M)
qed

interpretation ktick: timer_callbacks "run_timer_callback cpu" "tick_ok s0 cpu" for s0 cpu
proof unfold_locales
  show "tick_ok s0 cpu (upd_stats c f s)" if "tick_ok s0 cpu s" for c f and s :: "'a kstate_scheme"
    using that tick_ok_cong [of "upd_stats c f s" s] by simp
  show "tick_ok s0 cpu (set_oneshot_timer c d s)" if "tick_ok s0 cpu s" for c d and s :: "'a kstate_scheme"
    using that tick_ok_cong [of "set_oneshot_timer c d s" s] timer_more_kstate [of "set_oneshot_timer c d s" s] by simp
qed (use run_timer_callback_ok requeue_tick_ok in blast)+

text \<open>A tick on the kernel's state.\<close>

lemma timer_tick_kinv:
  fixes s :: "'a kstate_scheme"
  assumes inv: "kinv b s" and cur: "current s cpu \<noteq> None" and ints: "ints_disabled s cpu" and now: "in_window b now"
    and per: "\<forall>tm \<in> set (timer_queue s cpu). ahead b now + unat (periodic_time (timers s tm)) < 2 ^ 31"
  shows "\<exists>r s'. timer_tick (run_timer_callback cpu) (ints_disabled s cpu) cpu now s = Some (r, s') \<and> kinv b s' \<and> timed_out s s' \<and>
    tick_rel b now cpu s s' \<and> (\<forall>tm \<in> set (timer_queue s' cpu). \<not> due b now s' tm)"
proof -
  have wf: "timer_wf b s" and ok: "tick_ok s cpu s"
    using inv cur ints timed_out_refl by (auto simp: kinv_def kcore_def kbase_def tick_ok_def)
  from ktick.timer_tick_ok [OF wf ok now per] show ?thesis using ints
    by (auto simp: kinv_def kcore_def kbase_def tick_ok_def)
qed

end
