(* ===== verification/Demo_State.thy ===== *)
theory Demo_State
  imports Tick_Inv
begin

text \<open>
  A concrete kernel state on which the theorems are instantiated: one cpu, its idle thread, a
  running thread, a ready one of higher priority, one blocked on a mutex and one asleep, with the
  preemption timer and the sleeper's timer queued. It satisfies the invariant.
\<close>

definition demo_thread :: "int \<Rightarrow> thread_state \<Rightarrow> cont \<Rightarrow> thread" where
  "demo_thread prio st k = zero_thread\<lparr>t_magic := THREAD_MAGIC, pinned_cpu := - 1, curr_cpu := - 1,
     priority := prio, t_state := st, t_cont := k\<rparr>"

definition demo_threads :: "tid \<Rightarrow> thread" where
  "demo_threads t = (case t of
     Idle_thread n \<Rightarrow> if n = 0 then (demo_thread 0 THREAD_READY (K_unlock False))\<lparr>t_flags := 17, pinned_cpu := 0\<rparr>
                     else zero_thread
   | Dyn_thread n \<Rightarrow>
       if n = 0 then (demo_thread 16 THREAD_RUNNING K_none)\<lparr>curr_cpu := 0, remaining_quantum := 3\<rparr>
       else if n = 1 then (demo_thread 20 THREAD_READY K_start)\<lparr>queue_node := True\<rparr>
       else if n = 2 then (demo_thread 10 THREAD_BLOCKED (K_wq_block INFINITE_TIME (C_mutex 0) False))
              \<lparr>queue_node := True, blocking_wait_queue := Some (WQ_mutex 0)\<rparr>
       else if n = 3 then demo_thread 12 THREAD_SLEEPING (K_unlock False)
       else zero_thread)"

definition demo_timers :: "timer_id \<Rightarrow> timer" where
  "demo_timers tm = (case tm of
     TM_preempt c \<Rightarrow> if c = 0
       then \<lparr>tm_magic = TIMER_MAGIC, tm_linked = True, scheduled_time = 10, periodic_time = 10,
             tm_callback = Some CB_thread_timer_tick, tm_arg = Arg_null\<rparr>
       else \<lparr>tm_magic = TIMER_MAGIC, tm_linked = False, scheduled_time = 0, periodic_time = 0,
             tm_callback = None, tm_arg = Arg_null\<rparr>
   | TM_sleep t \<Rightarrow>
       \<lparr>tm_magic = TIMER_MAGIC, tm_linked = (t = Dyn_thread 3), scheduled_time = 100, periodic_time = 0,
        tm_callback = Some CB_thread_sleep, tm_arg = Arg_thread t\<rparr>
   | _ \<Rightarrow>
       \<lparr>tm_magic = TIMER_MAGIC, tm_linked = False, scheduled_time = 0, periodic_time = 0,
        tm_callback = None, tm_arg = Arg_null\<rparr>)"

definition demo_stats :: thread_stats where
  "demo_stats = \<lparr>idle_time = 0, last_idle_timestamp = 0, reschedules = 0, context_switches = 0,
     preempts = 0, yields = 0, timer_ints = 0, timer_count = 0, reschedule_ipis = 0\<rparr>"

definition demo :: "'a \<Rightarrow> 'a kstate_scheme" where
  "demo m = \<lparr>timers = demo_timers,
     timer_queue = (\<lambda>c. if c = 0 then [TM_preempt 0, TM_sleep (Dyn_thread 3)] else []),
     cur_time = 5, hw_timer = (\<lambda>_. None), stats = (\<lambda>_. demo_stats),
     threads = demo_threads, current = (\<lambda>c. if c = 0 then Some (Dyn_thread 0) else None),
     run_queue = (\<lambda>p. if p = 20 then [Dyn_thread 1] else []), run_queue_bitmap = 0x100000,
     thread_list = [Dyn_thread 3, Dyn_thread 2, Dyn_thread 1, Dyn_thread 0, Idle_thread 0],
     wqs = (\<lambda>w. \<lparr>wq_magic = WAIT_QUEUE_MAGIC,
                  wq_list = (if w = WQ_mutex 0 then [Dyn_thread 2] else []),
                  wq_count = (if w = WQ_mutex 0 then 1 else 0)\<rparr>),
     thread_lock = False, ints_disabled = (\<lambda>_. False), active_cpus = 1, idle_cpus = 0, realtime_cpus = 0,
     ipi_pending = 0, now_hires = 5000, mmu_aspace = (\<lambda>_. None), freed = [], delayed_free = [], \<dots> = m\<rparr>"

lemma bit_2_20: "bit (0x100000 :: u32) p \<longleftrightarrow> p = 20"
proof -
  have "(0x100000 :: u32) = 2 ^ 20" by simp
  then show ?thesis by (simp only: bit_exp_iff) (auto dest: bit_imp_le_length)
qed

lemma idle_flag_17: "thread_is_idle (th\<lparr>t_flags := 17\<rparr>)"
  by (simp add: thread_is_idle_def has_flag_def)

lemma demo_thread_simps [simp]:
  "t_magic (demo_thread p st k) = THREAD_MAGIC" "t_state (demo_thread p st k) = st" "t_cont (demo_thread p st k) = k"
  "priority (demo_thread p st k) = p" "t_flags (demo_thread p st k) = 0" "queue_node (demo_thread p st k) = False"
  "curr_cpu (demo_thread p st k) = - 1" "pinned_cpu (demo_thread p st k) = - 1"
  "blocking_wait_queue (demo_thread p st k) = None" "t_magic zero_thread = 0" "t_flags zero_thread = 0"
  by (simp_all add: demo_thread_def zero_thread_def)

lemma live_demo: "live (demo m) t \<longleftrightarrow> t \<in> {Idle_thread 0, Dyn_thread 0, Dyn_thread 1, Dyn_thread 2, Dyn_thread 3}"
  by (cases t) (auto simp: demo_def demo_threads_def)

lemma demo_simps [simp]:
  "timers (demo m) = demo_timers" "threads (demo m) = demo_threads" "thread_lock (demo m) = False"
  "timer_queue (demo m) = (\<lambda>c. if c = 0 then [TM_preempt 0, TM_sleep (Dyn_thread 3)] else [])"
  "current (demo m) = (\<lambda>c. if c = 0 then Some (Dyn_thread 0) else None)"
  "run_queue (demo m) = (\<lambda>p. if p = 20 then [Dyn_thread 1] else [])" "run_queue_bitmap (demo m) = 0x100000"
  "wqs (demo m) = (\<lambda>w. \<lparr>wq_magic = WAIT_QUEUE_MAGIC, wq_list = (if w = WQ_mutex 0 then [Dyn_thread 2] else []),
                  wq_count = (if w = WQ_mutex 0 then 1 else 0)\<rparr>)" "kstate.more (demo m) = m"
  "cur_time (demo m) = 5" "ints_disabled (demo m) = (\<lambda>_. False)"
  by (simp_all add: demo_def)

lemma demo_thread_cases:
  obtains "t = Idle_thread 0" "demo_threads t = (demo_thread 0 THREAD_READY (K_unlock False))\<lparr>t_flags := 17, pinned_cpu := 0\<rparr>"
  | "t = Dyn_thread 0" "demo_threads t = (demo_thread 16 THREAD_RUNNING K_none)\<lparr>curr_cpu := 0, remaining_quantum := 3\<rparr>"
  | "t = Dyn_thread 1" "demo_threads t = (demo_thread 20 THREAD_READY K_start)\<lparr>queue_node := True\<rparr>"
  | "t = Dyn_thread 2" "demo_threads t = (demo_thread 10 THREAD_BLOCKED (K_wq_block INFINITE_TIME (C_mutex 0) False))
              \<lparr>queue_node := True, blocking_wait_queue := Some (WQ_mutex 0)\<rparr>"
  | "t = Dyn_thread 3" "demo_threads t = demo_thread 12 THREAD_SLEEPING (K_unlock False)"
  | "t \<notin> {Idle_thread 0, Dyn_thread 0, Dyn_thread 1, Dyn_thread 2, Dyn_thread 3}" "demo_threads t = zero_thread"
  by (cases t) (auto simp: demo_threads_def split: if_splits)

lemma demo_idle [simp]: "thread_is_idle (demo_threads t) \<longleftrightarrow> t = Idle_thread 0"
  by (cases rule: demo_thread_cases [of t]) (auto simp: thread_is_idle_bit bit_numeral_simps)

lemma demo_rt [simp]: "thread_is_real_time_or_idle (demo_threads t) \<longleftrightarrow> t = Idle_thread 0"
  by (cases rule: demo_thread_cases [of t]) (auto simp: thread_is_real_time_or_idle_bit bit_numeral_simps)

lemma demo_runnable [simp]: "runnable (demo_threads t) \<longleftrightarrow> t = Dyn_thread 1"
  unfolding runnable_def demo_idle by (cases rule: demo_thread_cases [of t]) (auto simp: zero_thread_def)

lemma demo_sched_inv: "sched_inv {} (demo m)"
proof (rule sched_invI)
  show "bit (run_queue_bitmap (demo m)) p \<longleftrightarrow> run_queue (demo m) p \<noteq> []" for p
    by (simp only: demo_simps bit_2_20) simp
  show "t \<in> set (run_queue (demo m) p) \<longleftrightarrow> t \<notin> {} \<and> live (demo m) t \<and>
      runnable (threads (demo m) t) \<and> priority (threads (demo m) t) = int p" for t p
    unfolding demo_simps demo_runnable by (cases rule: demo_thread_cases [of t]) auto
  show "t \<in> set (wq_list (wqs (demo m) w)) \<longleftrightarrow> t \<notin> {} \<and> live (demo m) t \<and>
      t_state (threads (demo m) t) = THREAD_BLOCKED \<and> blocking_wait_queue (threads (demo m) t) = Some w" for t w
    by (cases rule: demo_thread_cases [of t]) auto
  show "\<exists>w. blocking_wait_queue (threads (demo m) t) = Some w \<and> wq_magic (wqs (demo m) w) = WAIT_QUEUE_MAGIC"
    if "live (demo m) t" "t_state (threads (demo m) t) = THREAD_BLOCKED" for t
    using that by (cases rule: demo_thread_cases [of t]) auto
  show "queue_node (threads (demo m) t) \<longleftrightarrow> t \<notin> {} \<and> (runnable (threads (demo m) t) \<or>
      t_state (threads (demo m) t) = THREAD_BLOCKED)" if "live (demo m) t" for t
    using that unfolding demo_simps demo_runnable by (cases rule: demo_thread_cases [of t]) auto
  show "0 \<le> priority (threads (demo m) t) \<and> priority (threads (demo m) t) < 32" if "live (demo m) t" for t
    using that by (cases rule: demo_thread_cases [of t]) auto
qed auto

lemma demo_timer_wf: "timer_wf 0 (demo m)"
  by (auto simp: timer_wf_def demo_timers_def queue_sorted_def in_window_def ahead_def split: timer_id.splits if_splits)

lemma demo_kstat: "kstat {} {} (demo m)"
proof -
  have "cur_inv {} (demo m)"
    unfolding cur_inv_def
  proof (intro conjI allI impI)
    show "\<exists>c. c \<notin> {} \<and> current (demo m) c = Some t" if "live (demo m) t" "t_state (threads (demo m) t) = THREAD_RUNNING" for t
      using that by (cases rule: demo_thread_cases [of t]) auto
  qed (auto simp: demo_threads_def split: if_splits)
  moreover have "idle_inv (demo m)"
    unfolding idle_inv_def demo_simps demo_idle by (auto simp: demo_threads_def)
  moreover have "preempt_inv (demo m)" by (auto simp: preempt_inv_def demo_timers_def)
  moreover have "timers_inv (demo m)"
    unfolding timers_inv_def
  proof (intro conjI allI impI)
    show "timer_good (demo m) tm" if "tm_linked (timers (demo m) tm)" for tm
      using that by (auto simp: demo_timers_def timer_good_def demo_threads_def split: timer_id.splits if_splits)
    show "tm_linked (timers (demo m) (TM_sleep t))" if "live (demo m) t" "t_state (threads (demo m) t) = THREAD_SLEEPING" for t
      using that by (cases rule: demo_thread_cases [of t]) (auto simp: demo_timers_def)
    show "tm_linked (timers (demo m) (TM_wait t))"
      if "live (demo m) t" "timed_block (threads (demo m) t)" "t_state (threads (demo m) t) = THREAD_BLOCKED" for t
      using that by (cases rule: demo_thread_cases [of t]) (auto simp: timed_block_def)
  qed (auto simp: demo_timers_def split: timer_id.splits if_splits)
  moreover have "stack_inv (demo m)"
    unfolding stack_inv_def
  proof (intro allI impI)
    fix t assume "has_flag (threads (demo m) t) 32"
    then show "stack_guard_intact (threads (demo m) t)"
      by (cases rule: demo_thread_cases [of t]) (auto simp: has_flag_def bit_numeral_simps)
  qed
  moreover have "cont_inv {} (demo m)"
    unfolding cont_inv_def
  proof (intro conjI allI impI)
    show "cont_ok (threads (demo m) t)" if "live (demo m) t" for t
      using that by (cases rule: demo_thread_cases [of t]) (auto simp: cont_ok_def blocked_cont_def)
  qed (auto simp: demo_threads_def split: if_splits)
  ultimately show ?thesis by (simp add: kstat_def)
qed

lemma demo_kinv: "kinv 0 (demo m)"
  by (simp add: kinv_def kcore_def kbase_def demo_sched_inv demo_timer_wf demo_kstat)

end
