(* ===== verification/Thread_Life.thy ===== *)
theory Thread_Life
  imports Tick_Inv
begin

text \<open>
  The end of a thread: \<open>thread_exit\<close>, \<open>thread_join\<close>, \<open>thread_detach\<close> and
  \<open>thread_detach_and_resume\<close> of \<open>kernel/thread.c\<close>, with the blocks that they give back to the heap.
\<close>

section \<open>The operations\<close>

text \<open>The blocks of a thread that its flags tell to free.\<close>

definition owned_stack :: "thread \<Rightarrow> block list" where
  "owned_stack th = (if has_flag th THREAD_FLAG_FREE_STACK then map Stack_block (case t_stack th of None \<Rightarrow> [] | Some p \<Rightarrow> [p])
                     else [])"

definition owned_struct :: "tid \<Rightarrow> thread \<Rightarrow> block list" where
  "owned_struct t th = (if has_flag th THREAD_FLAG_FREE_STRUCT then [Thread_struct t] else [])"

text \<open>\<open>thread_join\<close> after the wait: the dead thread is reaped.\<close>

definition thread_join_tail :: "nat \<Rightarrow> tid \<Rightarrow> bool \<Rightarrow> bool \<Rightarrow> 'a kstate_scheme \<Rightarrow> 'a kstate_scheme option" where
  "thread_join_tail cpu t want_retcode i s = do {
     ct \<leftarrow> current s cpu;
     guard_that (t_magic (threads s t) = THREAD_MAGIC);
     guard_that (t_state (threads s t) = THREAD_DEATH);
     guard_that (blocking_wait_queue (threads s t) = None);
     guard_that (\<not> queue_node (threads s t));
     let s1 = (if want_retcode then upd_thread ct (\<lambda>th. th\<lparr>out_retcode := retcode (threads s t)\<rparr>) s else s);
     let s2 = s1\<lparr>thread_list := remove1 t (thread_list s1)\<rparr>;
     s3 \<leftarrow> end_call cpu i NO_ERROR (upd_thread t (\<lambda>th. th\<lparr>t_magic := 0\<rparr>) s2);
     Some (s3\<lparr>freed := freed s3 @ owned_stack (threads s3 t) @ owned_struct t (threads s3 t)\<rparr>) }"

definition thread_join_return :: "nat \<Rightarrow> tid \<Rightarrow> bool \<Rightarrow> bool \<Rightarrow> status \<Rightarrow> 'a kstate_scheme \<Rightarrow> 'a kstate_scheme option" where
  "thread_join_return cpu t want_retcode i err s =
     (if err < 0 then end_call cpu i err s else thread_join_tail cpu t want_retcode i s)"

definition thread_join :: "nat \<Rightarrow> tid \<Rightarrow> bool \<Rightarrow> u32 \<Rightarrow> 'a kstate_scheme \<Rightarrow> 'a kstate_scheme option" where
  "thread_join cpu t want_retcode timeout s = do {
     guard_that (t_magic (threads s t) = THREAD_MAGIC);
     (i, s1) \<leftarrow> THREAD_LOCK cpu s;
     if has_flag (threads s1 t) THREAD_FLAG_DETACHED then end_call cpu i ERR_THREAD_DETACHED s1
     else if t_state (threads s1 t) \<noteq> THREAD_DEATH then do {
       (r, s2) \<leftarrow> wait_queue_block (C_join t want_retcode) i cpu (WQ_retcode t) timeout s1;
       case r of None \<Rightarrow> Some s2 | Some err \<Rightarrow> thread_join_return cpu t want_retcode i err s2 }
     else thread_join_tail cpu t want_retcode i s1 }"

definition thread_detach :: "nat \<Rightarrow> tid \<Rightarrow> 'a kstate_scheme \<Rightarrow> 'a kstate_scheme option" where
  "thread_detach cpu t s = do {
     guard_that (t_magic (threads s t) = THREAD_MAGIC);
     (i, s1) \<leftarrow> THREAD_LOCK cpu s;
     (n, s2) \<leftarrow> wait_queue_wake_all K_none cpu (WQ_retcode t) False ERR_THREAD_DETACHED s1;
     if t_state (threads s2 t) = THREAD_DEATH then
       thread_join cpu t False 0
         (THREAD_UNLOCK cpu i (upd_thread t (\<lambda>th. th\<lparr>t_flags := t_flags th AND NOT THREAD_FLAG_DETACHED\<rparr>) s2))
     else end_call cpu i NO_ERROR (upd_thread t (\<lambda>th. th\<lparr>t_flags := t_flags th OR THREAD_FLAG_DETACHED\<rparr>) s2) }"

definition thread_detach_and_resume :: "nat \<Rightarrow> tid \<Rightarrow> 'a kstate_scheme \<Rightarrow> 'a kstate_scheme option" where
  "thread_detach_and_resume cpu t s = do {
     s1 \<leftarrow> thread_detach cpu t s;
     ct \<leftarrow> current s1 cpu;
     if call_ret (threads s1 ct) < 0 then Some s1
     else do { (r, s2) \<leftarrow> thread_resume cpu t s1; Some s2 } }"

text \<open>\<open>thread_exit\<close> up to its \<open>thread_resched\<close>, which does not return: the dead thread has no continuation.\<close>

definition exit_teardown :: "tid \<Rightarrow> 'a kstate_scheme \<Rightarrow> 'a kstate_scheme" where
  "exit_teardown t s =
     (let s1 = upd_thread t (\<lambda>th. th\<lparr>t_magic := 0\<rparr>) (s\<lparr>thread_list := remove1 t (thread_list s)\<rparr>);
          stk = owned_stack (threads s1 t);
          s2 = (if stk \<noteq> []
                then upd_thread t (\<lambda>th. th\<lparr>t_flags := t_flags th AND NOT THREAD_FLAG_DEBUG_STACK_BOUNDS_CHECK\<rparr>)
                       (s1\<lparr>delayed_free := delayed_free s1 @ stk\<rparr>)
                else s1)
      in s2\<lparr>delayed_free := delayed_free s2 @ owned_struct t (threads s2 t)\<rparr>)"

definition thread_exit :: "nat \<Rightarrow> int \<Rightarrow> 'a kstate_scheme \<Rightarrow> 'a kstate_scheme option" where
  "thread_exit cpu ret s = do {
     t \<leftarrow> current s cpu;
     guard_that (t_magic (threads s t) = THREAD_MAGIC);
     guard_that (t_state (threads s t) = THREAD_RUNNING);
     guard_that (\<not> thread_is_idle (threads s t));
     (i, s1) \<leftarrow> THREAD_LOCK cpu s;
     let s2 = upd_thread t (\<lambda>th. th\<lparr>t_state := THREAD_DEATH, retcode := ret\<rparr>) s1;
     s3 \<leftarrow> (if has_flag (threads s2 t) THREAD_FLAG_DETACHED then Some (exit_teardown t s2)
           else do { (n, s3) \<leftarrow> wait_queue_wake_all K_none cpu (WQ_retcode t) False 0 s2; Some s3 });
     thread_resched cpu s3 }"

section \<open>Exiting\<close>

lemma leave_dead_region:
  assumes inv: "kcore b {} {} s" and cur: "current s cpu = Some t" and ni: "\<not> thread_is_idle (threads s t)"
    and th: "threads s' = (threads s)(t := th')"
    and fr: "current s' = current s" "timers s' = timers s" "timer_queue s' = timer_queue s"
      "run_queue s' = run_queue s" "run_queue_bitmap s' = run_queue_bitmap s" "wqs s' = wqs s"
      "thread_lock s'" "ints_disabled s' cpu"
    and th': "t_state th' = THREAD_DEATH" "t_cont th' = K_none" "queue_node th' = queue_node (threads s t)"
      "priority th' = priority (threads s t)" "curr_cpu th' = curr_cpu (threads s t)"
      "thread_is_idle th' = thread_is_idle (threads s t)"
      "thread_is_real_time_or_idle th' = thread_is_real_time_or_idle (threads s t)"
      "has_flag th' THREAD_FLAG_DEBUG_STACK_BOUNDS_CHECK \<longrightarrow> has_flag (threads s t) THREAD_FLAG_DEBUG_STACK_BOUNDS_CHECK"
      "stack_guard_intact th' = stack_guard_intact (threads s t)"
  shows "region b cpu s'"
proof -
  have k0: "kbase b {} {} s" and i0: "sched_inv {} s" using kcoreD [OF inv] by auto
  note R = running_no_timers [OF k0 cur] and C = locked_current_facts [OF inv cur]
  have i1: "sched_inv {t} s" using sched_inv_out [OF i0] R(4) by (simp add: runnable_def)
  have "sched_inv {t} (upd_thread t (\<lambda>_. th') s)" using th'(3) C(5) by (intro sched_inv_upd [OF i1]) auto
  then have i2: "sched_inv {t} s'" using sched_inv_cong [of s' "upd_thread t (\<lambda>_. th') s"] by (simp add: fr th)
  have i3: "sched_inv {} s'" using sched_inv_in [OF i2, of t] th' C(4) by (simp add: runnable_def th)
  have nb: "\<not> timed_block th'" "\<not> blocked_cont th'" using th'(2) by (simp_all add: timed_block_def blocked_cont_def)
  have "timers_inv s'" using nb th' by (intro timers_inv_leave [OF k0 cur th]) (simp_all add: fr)
  then have "kbase b {cpu} {cpu} s'"
    using th' ni kbaseD(4,6) [OF k0] timer_wf_cong [of s' s]
    by (intro kbase_leave [OF k0 cur th fr(1)]) (simp_all add: stack_inv_def fr)
  then show ?thesis using i3 cur fr th' nb by (simp add: region_def kcore_def cont_ok_def th)
qed

text \<open>
  The effect of \<open>thread_exit(r)\<close>: a detached thread is gone and its blocks are handed to the deferred
  free list; otherwise the threads that wait in \<open>thread_join\<close> are woken with success.
\<close>

definition exit_joiners :: "tid \<Rightarrow> 'a kstate_scheme \<Rightarrow> tid list" where
  "exit_joiners t s = (if has_flag (threads s t) THREAD_FLAG_DETACHED then [] else wq_list (wqs s (WQ_retcode t)))"

definition exited :: "nat \<Rightarrow> tid \<Rightarrow> int \<Rightarrow> 'a kstate_scheme \<Rightarrow> 'a kstate_scheme \<Rightarrow> bool" where
  "exited cpu t r s s' \<longleftrightarrow>
     (\<exists>new. current s' = (current s)(cpu := Some new)) \<and>
     (\<forall>u. u \<notin> set (exit_joiners t s) \<longrightarrow> u \<noteq> t \<longrightarrow> cview (threads s' u) = cview (threads s u)) \<and>
     (\<forall>u \<in> set (exit_joiners t s). cview (threads s' u) = cview (set_woken NO_ERROR (threads s u))) \<and>
     (if has_flag (threads s t) THREAD_FLAG_DETACHED
      then \<not> live s' t \<and> thread_list s' = remove1 t (thread_list s) \<and> wqs s' = wqs s \<and>
        delayed_free s' = delayed_free s @ owned_stack (threads s t) @ owned_struct t (threads s t)
      else cview (threads s' t) = cview ((threads s t)\<lparr>t_state := THREAD_DEATH, retcode := r\<rparr>) \<and>
        thread_list s' = thread_list s \<and> delayed_free s' = delayed_free s \<and>
        wqs s' = (wqs s)(WQ_retcode t := (wqs s (WQ_retcode t))\<lparr>wq_list := [], wq_count := 0\<rparr>)) \<and>
     cur_time s' = cur_time s \<and> freed s' = freed s \<and> kstate.more s' = kstate.more s"

lemma bit_and_not_32 [simp]: "bit (x AND - 33 :: u32) n \<longleftrightarrow> n \<noteq> 5 \<and> bit x n"
proof -
  have "(- 33 :: u32) = NOT (push_bit 5 1)" by simp
  then have "bit (x AND - 33) n \<longleftrightarrow> bit (x AND NOT (push_bit 5 1)) n" by (simp only:)
  also have "\<dots> \<longleftrightarrow> n \<noteq> 5 \<and> bit x n"
    by (auto simp: bit_simps simp del: push_bit_of_1 dest: bit_word32_bound)
  finally show ?thesis .
qed

lemma and_4_eq_0: "x AND 4 = (0 :: u32) \<longleftrightarrow> \<not> bit x 2"
  using and_exp_eq_0_iff_not_bit [of x 2] by simp

lemma and_2_eq_0: "x AND 2 = (0 :: u32) \<longleftrightarrow> \<not> bit x 1"
  using and_exp_eq_0_iff_not_bit [of x 1] by simp

lemma exit_teardown_ok:
  assumes "s' = exit_teardown t s"
  shows "\<exists>fl. threads s' = (threads s)(t := (threads s t)\<lparr>t_magic := 0, t_flags := fl\<rparr>) \<and>
      fl \<in> {t_flags (threads s t), t_flags (threads s t) AND NOT THREAD_FLAG_DEBUG_STACK_BOUNDS_CHECK}"
    "current s' = current s" "timers s' = timers s" "timer_queue s' = timer_queue s" "run_queue s' = run_queue s"
    "run_queue_bitmap s' = run_queue_bitmap s" "wqs s' = wqs s" "thread_lock s' = thread_lock s"
    "ints_disabled s' = ints_disabled s" "cur_time s' = cur_time s" "freed s' = freed s" "kstate.more s' = kstate.more s"
    "thread_list s' = remove1 t (thread_list s)"
    "delayed_free s' = delayed_free s @ owned_stack (threads s t) @ owned_struct t (threads s t)"
proof -
  have o: "owned_stack (th\<lparr>t_magic := 0\<rparr>) = owned_stack th" "owned_struct t (th\<lparr>t_magic := 0\<rparr>) = owned_struct t th"
    "owned_struct t (th\<lparr>t_magic := 0, t_flags := t_flags th AND - 33\<rparr>) = owned_struct t th" for th
    by (simp_all add: owned_stack_def owned_struct_def has_flag_def and_4_eq_0)
  show "\<exists>fl. threads s' = (threads s)(t := (threads s t)\<lparr>t_magic := 0, t_flags := fl\<rparr>) \<and>
      fl \<in> {t_flags (threads s t), t_flags (threads s t) AND NOT THREAD_FLAG_DEBUG_STACK_BOUNDS_CHECK}"
    by (cases "owned_stack (threads s t) = []")
      (auto simp: assms exit_teardown_def o Let_def intro: exI [of _ "t_flags (threads s t)"])
  show "delayed_free s' = delayed_free s @ owned_stack (threads s t) @ owned_struct t (threads s t)"
    by (cases "owned_stack (threads s t) = []") (simp_all add: assms exit_teardown_def o Let_def)
qed (simp_all add: assms exit_teardown_def Let_def)

lemma resched_region:
  assumes R: "region b cpu s" and cur: "current s cpu = Some t" and time: "in_window b (cur_time s + 10)"
  obtains s' new where "thread_resched cpu s = Some s'" "switched_in b cpu s'"
    "current s' = (current s)(cpu := Some new)" "\<And>u. cview (threads s' u) = cview (threads s u)"
    "wqs s' = wqs s" "thread_list s' = thread_list s" "freed s' = freed s" "delayed_free s' = delayed_free s"
    "cur_time s' = cur_time s" "kstate.more s' = kstate.more s"
proof -
  obtain s' new where s': "thread_resched cpu s = Some s'" "new = fst (get_top_thread cpu s)"
    "switched cpu t new s s'" "switched_in b cpu s'"
    using thread_resched_ok [OF R cur time] by auto
  have "cview (threads s' u) = cview (threads s u)" for u
    using switched_cview [OF s'(3)] top_ready [OF R] s'(2) by blast
  then show ?thesis using that s' switchedD(1,7,8,11,12,13,17) [OF s'(3)] by blast
qed

lemma thread_exit_ok:
  fixes s :: "'a kstate_scheme"
  assumes inv: "kinv b s" and cur: "current s cpu = Some t" and time: "in_window b (cur_time s + 10)"
    and ni: "\<not> thread_is_idle (threads s t)" and wq: "wq_magic (wqs s (WQ_retcode t)) = WAIT_QUEUE_MAGIC"
  shows "\<exists>s'. thread_exit cpu r s = Some s' \<and> switched_in b cpu s' \<and> exited cpu t r s s'"
proof -
  note C = current_facts [OF inv cur]
  define s2 where "s2 = upd_thread t (\<lambda>th. th\<lparr>t_state := THREAD_DEATH, retcode := r\<rparr>)
    (s\<lparr>thread_lock := True, ints_disabled := (ints_disabled s)(cpu := True)\<rparr>)"
  have p: "thread_is_idle (th\<lparr>t_state := x, retcode := r\<rparr>) = thread_is_idle th"
    "thread_is_real_time_or_idle (th\<lparr>t_state := x, retcode := r\<rparr>) = thread_is_real_time_or_idle th"
    "has_flag (th\<lparr>t_state := x, retcode := r\<rparr>) f = has_flag th f"
    "stack_guard_intact (th\<lparr>t_state := x, retcode := r\<rparr>) = stack_guard_intact th"
    "owned_stack (th\<lparr>t_state := x, retcode := r\<rparr>) = owned_stack th"
    "owned_struct t (th\<lparr>t_state := x, retcode := r\<rparr>) = owned_struct t th" for th x f
    by (simp_all add: thread_is_idle_def thread_is_real_time_or_idle_def has_flag_def stack_guard_intact_def
        owned_stack_def owned_struct_def)
  have start: "thread_exit cpu r s = do {
     s3 \<leftarrow> (if has_flag (threads s t) THREAD_FLAG_DETACHED then Some (exit_teardown t s2)
           else do { (n, s3) \<leftarrow> wait_queue_wake_all K_none cpu (WQ_retcode t) False 0 s2; Some s3 });
     thread_resched cpu s3 }"
    using C cur ni p by (simp add: thread_exit_def THREAD_LOCK_def s2_def)
  show ?thesis
  proof (cases "has_flag (threads s t) THREAD_FLAG_DETACHED")
    case True
    define s3 where "s3 = exit_teardown t s2"
    note T = exit_teardown_ok [OF s3_def]
    obtain fl where fl: "threads s3 = (threads s)(t := (threads s2 t)\<lparr>t_magic := 0, t_flags := fl\<rparr>)"
      "fl \<in> {t_flags (threads s t), t_flags (threads s t) AND NOT THREAD_FLAG_DEBUG_STACK_BOUNDS_CHECK}"
      using T(1) by (auto simp: s2_def)
    have "region b cpu s3"
      by (rule leave_dead_region [OF C(1) cur ni fl(1)])
        (use C fl(2) in \<open>auto simp: T s2_def thread_is_idle_bit thread_is_real_time_or_idle_bit has_flag_def stack_guard_intact_def\<close>)
    moreover have "current s3 cpu = Some t" "in_window b (cur_time s3 + 10)" using T cur time by (simp_all add: s2_def)
    ultimately obtain s' new where s': "thread_resched cpu s3 = Some s'" "switched_in b cpu s'"
      "current s' = (current s3)(cpu := Some new)" "\<And>u. cview (threads s' u) = cview (threads s3 u)"
      "wqs s' = wqs s3" "thread_list s' = thread_list s3" "freed s' = freed s3" "delayed_free s' = delayed_free s3"
      "cur_time s' = cur_time s3" "kstate.more s' = kstate.more s3"
      by (rule resched_region) blast
    have "exited cpu t r s s'"
      using True s'(3) cview_eqD(1) [OF s'(4), of t]
      unfolding exited_def exit_joiners_def s'(3-) by (auto simp: T fl(1) s2_def p)
    then show ?thesis using s'(1,2) True by (simp add: start s3_def)
  next
    case False
    have R2: "region b cpu s2"
      by (rule leave_dead_region [OF C(1) cur ni, where th' = "threads s2 t"]) (use C in \<open>simp_all add: s2_def p\<close>)
    then have k2: "kcore b {cpu} {cpu} s2" "thread_lock s2" "ints_disabled s2 cpu" by (simp_all add: region_def)
    have c2: "current s2 cpu = Some t" "wq_magic (wqs s2 (WQ_retcode t)) = WAIT_QUEUE_MAGIC" using cur wq by (simp_all add: s2_def)
    let ?ts = "wq_list (wqs s (WQ_retcode t))"
    obtain s3 where s3: "wait_queue_wake_all K_none cpu (WQ_retcode t) False 0 s2 = Some (int (length ?ts), s3)"
      "kcore b {cpu} {cpu} s3" "woken ?ts (WQ_retcode t) 0 s2 s3" "current s3 = current s2" "thread_lock s3"
      "ints_disabled s3 cpu" "\<forall>u. u \<notin> set ?ts \<longrightarrow> threads s3 u = threads s2 u"
      using wake_all_ok [OF k2 c2, of K_none 0] by (auto simp: s2_def)
    have nt: "t \<notin> set ?ts" using sched_invD(6) [OF kcoreD(1) [OF C(1)], of t "WQ_retcode t"] C(4) by auto
    have "region b cpu s3" using R2 s3(2,4-7) nt c2(1) by (auto simp: region_def)
    moreover have "current s3 cpu = Some t" "in_window b (cur_time s3 + 10)" using s3(3,4) cur time by (simp_all add: s2_def woken_def)
    ultimately obtain s' new where s': "thread_resched cpu s3 = Some s'" "switched_in b cpu s'"
      "current s' = (current s3)(cpu := Some new)" "\<And>u. cview (threads s' u) = cview (threads s3 u)"
      "wqs s' = wqs s3" "thread_list s' = thread_list s3" "freed s' = freed s3" "delayed_free s' = delayed_free s3"
      "cur_time s' = cur_time s3" "kstate.more s' = kstate.more s3"
      by (rule resched_region) blast
    have o: "cview (threads s' u) = cview (threads s u)" if "u \<notin> set ?ts" "u \<noteq> t" for u
      using that s3(7) by (simp add: s'(4) s2_def)
    have j: "cview (threads s' u) = cview (set_woken 0 (threads s u))" if "u \<in> set ?ts" for u
    proof -
      have "u \<noteq> t" using that nt by blast
      moreover have "cview (threads s3 u) = cview (set_woken 0 (threads s2 u))" using that s3(3) unfolding woken_def by blast
      ultimately show ?thesis by (simp add: s'(4) s2_def)
    qed
    have me: "cview (threads s' t) = cview ((threads s t)\<lparr>t_state := THREAD_DEATH, retcode := r\<rparr>)"
      using s3(7) nt by (simp add: s'(4) s2_def)
    have "exited cpu t r s s'"
      using False s3(3) o j me sched_invD(5) [OF kcoreD(1) [OF C(1)], of "WQ_retcode t"]
      unfolding exited_def exit_joiners_def s'(3,5-) by (simp add: s3(4) woken_def) (simp add: s2_def, blast)
    then show ?thesis using s'(1,2) False s3(1) by (simp add: start)
  qed
qed

section \<open>Joining\<close>

lemma kcore_view_cong:
  assumes "\<And>t. kview (threads s' t) = kview (threads s t)" "\<And>t. sched_view (threads s' t) = sched_view (threads s t)"
    "current s' = current s" "timers s' = timers s" "timer_queue s' = timer_queue s"
    "run_queue s' = run_queue s" "run_queue_bitmap s' = run_queue_bitmap s" "wqs s' = wqs s"
  shows "kcore b X Y s' = kcore b X Y s"
  using sched_inv_cong [OF assms(2) assms(6,7,8), of "{}"] kbase_cong [OF assms(1) assms(3-5), of b X Y] by (simp add: kcore_def)

lemma current_running:
  assumes "cur_inv {} s" "current s c = Some t"
  shows "live s t" "t_state (threads s t) = THREAD_RUNNING"
  using assms unfolding cur_inv_def by blast+

text \<open>A dead thread can be taken away: no queue, timer or cpu refers to it.\<close>

lemma kcore_reap:
  fixes s :: "'a kstate_scheme"
  assumes kc: "kcore b {} Y s" and t: "live s t" "t_state (threads s t) = THREAD_DEATH"
  shows "kcore b {} Y (upd_thread t (\<lambda>th. th\<lparr>t_magic := 0\<rparr>) s)" (is "kcore b {} Y ?s'")
proof -
  note K = kcoreD [OF kc]
  have nc: "current s c \<noteq> Some t" for c using current_running [OF K(2)] t(2) by fastforce
  have "cont_ok (threads s t)" using K(8) t(1) nc unfolding cont_inv_def by blast
  then have nb: "\<not> timed_block (threads s t)"
    using t(2) by (auto simp: cont_ok_def blocked_cont_def timed_block_def split: cont.splits)
  have ni: "\<not> thread_is_idle (threads s t)" using K(3) t unfolding idle_inv_def by fastforce
  have p: "thread_is_idle (th\<lparr>t_magic := 0\<rparr>) = thread_is_idle th" "has_flag (th\<lparr>t_magic := 0\<rparr>) f = has_flag th f"
    "thread_is_real_time_or_idle (th\<lparr>t_magic := 0\<rparr>) = thread_is_real_time_or_idle th"
    "stack_guard_intact (th\<lparr>t_magic := 0\<rparr>) = stack_guard_intact th" for th f
    by (simp_all add: thread_is_idle_def thread_is_real_time_or_idle_def has_flag_def stack_guard_intact_def)
  have "sched_inv {t} s" using sched_inv_out [OF K(1), of t] t by (simp add: runnable_def)
  then have "sched_inv {t} ?s'" by (intro sched_inv_upd) simp_all
  then have "sched_inv {} ?s'" using sched_inv_in [of "{t}" ?s' t] t by (simp add: runnable_def)
  moreover have "cur_inv {} ?s'" using K(2) nc unfolding cur_inv_def by auto
  moreover have "idle_inv ?s'" using K(3) ni unfolding idle_inv_def by (auto simp: p)
  moreover have "preempt_inv ?s'" using K(4) nc unfolding preempt_inv_def by auto
  moreover have "timer_wf b ?s'" using K(5) timer_wf_cong [of ?s' s] by simp
  moreover have "timers_inv ?s'"
    using K(6) t nb unfolding timers_inv_def timer_good_def by (auto split: timer_id.splits)
  moreover have "stack_inv ?s'" using K(7) unfolding stack_inv_def by (simp add: p)
  moreover have "cont_inv Y ?s'" using K(8) nc unfolding cont_inv_def by auto
  ultimately show ?thesis by (simp add: kcore_def kbase_def kstat_def)
qed

text \<open>
  The effect of reaping \<open>t\<close> by \<open>ct\<close>: the thread is off the thread list, its blocks are freed, the
  caller returns success and, if it asked for it, has the exit code.
\<close>

definition reaped :: "tid \<Rightarrow> tid \<Rightarrow> bool \<Rightarrow> 'a kstate_scheme \<Rightarrow> 'a kstate_scheme \<Rightarrow> bool" where
  "reaped ct t want s s' \<longleftrightarrow>
     \<not> live s' t \<and>
     (\<forall>u. u \<noteq> t \<longrightarrow> u \<noteq> ct \<longrightarrow> cview (threads s' u) = cview (threads s u)) \<and>
     cview (threads s' ct) = cview ((threads s ct)\<lparr>t_cont := K_none, call_ret := NO_ERROR,
       out_retcode := if want then retcode (threads s t) else out_retcode (threads s ct)\<rparr>) \<and>
     wqs s' = wqs s \<and> current s' = current s \<and> cur_time s' = cur_time s \<and>
     thread_list s' = remove1 t (thread_list s) \<and>
     freed s' = freed s @ owned_stack (threads s t) @ owned_struct t (threads s t) \<and>
     delayed_free s' = delayed_free s \<and> kstate.more s' = kstate.more s"

lemma thread_join_tail_ok:
  fixes s :: "'a kstate_scheme"
  assumes kc: "kcore b {} {cpu} s" and cur: "current s cpu = Some ct" and nl: "\<not> tm_linked (timers s (TM_wait ct))"
    and t: "live s t" "t_state (threads s t) = THREAD_DEATH" "blocking_wait_queue (threads s t) = None"
  shows "\<exists>s'. thread_join_tail cpu t want i s = Some s' \<and> kinv b s' \<and> reaped ct t want s s'"
proof -
  note K = kcoreD [OF kc]
  have ne: "ct \<noteq> t" using current_running [OF K(2) cur] t(2) by auto
  have nq: "\<not> queue_node (threads s t)" using sched_invD(8) [OF K(1) t(1)] t(2) by (simp add: runnable_def)
  define s1 where "s1 = (if want then upd_thread ct (\<lambda>th. th\<lparr>out_retcode := retcode (threads s t)\<rparr>) s else s)"
  define s2 where "s2 = upd_thread t (\<lambda>th. th\<lparr>t_magic := 0\<rparr>) (s1\<lparr>thread_list := remove1 t (thread_list s1)\<rparr>)"
  have "kcore b {} {cpu} (s1\<lparr>thread_list := remove1 t (thread_list s1)\<rparr>)"
    using kc by (subst kcore_view_cong [of _ s]) (simp_all add: s1_def kview_def sched_view_def thread_is_idle_def has_flag_def)
  then have k2: "kcore b {} {cpu} s2" unfolding s2_def using t ne by (intro kcore_reap) (simp_all add: s1_def)
  have c2: "current s2 cpu = Some ct" "\<not> tm_linked (timers s2 (TM_wait ct))" using cur nl by (simp_all add: s2_def s1_def)
  obtain s3 where s3: "end_call cpu i NO_ERROR s2 = Some s3" "kinv b s3"
    "threads s3 = (threads s2)(ct := (threads s2 ct)\<lparr>t_cont := K_none, call_ret := NO_ERROR\<rparr>)"
    "wqs s3 = wqs s2" "current s3 = current s2" "cur_time s3 = cur_time s2" "thread_list s3 = thread_list s2"
    "freed s3 = freed s2" "delayed_free s3 = delayed_free s2" "kstate.more s3 = kstate.more s2"
    using end_call_ok [OF k2 c2, of i NO_ERROR] by blast
  define s' where "s' = s3\<lparr>freed := freed s3 @ owned_stack (threads s3 t) @ owned_struct t (threads s3 t)\<rparr>"
  have "thread_join_tail cpu t want i s = Some s'"
    using cur t nq s3(1) by (simp add: thread_join_tail_def s1_def s2_def s'_def Let_def)
  moreover have "kinv b s'" using s3(2) kcore_cong [of s' s3] by (simp add: kinv_def s'_def)
  moreover have "owned_stack (threads s3 t) = owned_stack (threads s t)" "owned_struct t (threads s3 t) = owned_struct t (threads s t)"
    using ne by (simp_all add: s3(3) s2_def s1_def owned_stack_def owned_struct_def has_flag_def)
  then have "reaped ct t want s s'"
    using ne by (cases want) (simp_all add: reaped_def s'_def s3 s2_def s1_def cview_def core_def)
  ultimately show ?thesis by blast
qed

lemma kcore_exempt: "kcore b X {} s \<Longrightarrow> kcore b X Y s"
  by (auto simp: kcore_def kbase_def kstat_def cont_inv_def)

text \<open>The end of a call that did not block.\<close>

lemma end_call_locked:
  assumes kc: "kcore b {} {} s" and cur: "current s cpu = Some t"
  shows "\<exists>s'. end_call cpu i ret s = Some s' \<and> kinv b s' \<and>
    threads s' = (threads s)(t := (threads s t)\<lparr>t_cont := K_none, call_ret := ret\<rparr>) \<and>
    wqs s' = wqs s \<and> current s' = current s \<and> cur_time s' = cur_time s \<and> thread_list s' = thread_list s \<and>
    freed s' = freed s \<and> delayed_free s' = delayed_free s \<and> kstate.more s' = kstate.more s"
  using end_call_ok [OF kcore_exempt [OF kc] cur locked_current_facts(7) [OF kc cur]] .

text \<open>The state just after \<open>THREAD_LOCK\<close>.\<close>

abbreviation (input) locked :: "nat \<Rightarrow> 'a kstate_scheme \<Rightarrow> 'a kstate_scheme" where
  "locked cpu s \<equiv> s\<lparr>thread_lock := True, ints_disabled := (ints_disabled s)(cpu := True)\<rparr>"

lemma locked_kcore: "kcore b X Y (locked cpu s) = kcore b X Y s"
  by (rule kcore_cong) simp_all

lemma THREAD_LOCK_kinv: "kinv b s \<Longrightarrow> THREAD_LOCK cpu s = Some (ints_disabled s cpu, locked cpu s)"
  by (simp add: THREAD_LOCK_def kinv_def)

text \<open>The result of a call of \<open>ct\<close> that returned \<open>r\<close> and changed nothing else.\<close>

definition returned :: "tid \<Rightarrow> status \<Rightarrow> 'a kstate_scheme \<Rightarrow> 'a kstate_scheme \<Rightarrow> bool" where
  "returned ct r s s' \<longleftrightarrow>
     threads s' = (threads s)(ct := (threads s ct)\<lparr>t_cont := K_none, call_ret := r\<rparr>) \<and>
     wqs s' = wqs s \<and> current s' = current s \<and> cur_time s' = cur_time s \<and> thread_list s' = thread_list s \<and>
     freed s' = freed s \<and> delayed_free s' = delayed_free s \<and> kstate.more s' = kstate.more s"

text \<open>\<open>thread_join\<close> on every branch.\<close>

lemma thread_join_ok:
  fixes s :: "'a kstate_scheme"
  assumes inv: "kinv b s" and cur: "current s cpu = Some ct" and t: "live s t"
  shows "has_flag (threads s t) THREAD_FLAG_DETACHED \<Longrightarrow>
      \<exists>s'. thread_join cpu t want timeout s = Some s' \<and> kinv b s' \<and> returned ct ERR_THREAD_DETACHED s s'"
    "\<not> has_flag (threads s t) THREAD_FLAG_DETACHED \<Longrightarrow> t_state (threads s t) = THREAD_DEATH \<Longrightarrow>
      blocking_wait_queue (threads s t) = None \<Longrightarrow>
      \<exists>s'. thread_join cpu t want timeout s = Some s' \<and> kinv b s' \<and> reaped ct t want s s'"
    "\<not> has_flag (threads s t) THREAD_FLAG_DETACHED \<Longrightarrow> t_state (threads s t) \<noteq> THREAD_DEATH \<Longrightarrow>
      wq_magic (wqs s (WQ_retcode t)) = WAIT_QUEUE_MAGIC \<Longrightarrow> timeout = 0 \<Longrightarrow>
      \<exists>s'. thread_join cpu t want timeout s = Some s' \<and> kinv b s' \<and> returned ct ERR_TIMED_OUT s s'"
    "\<not> has_flag (threads s t) THREAD_FLAG_DETACHED \<Longrightarrow> t_state (threads s t) \<noteq> THREAD_DEATH \<Longrightarrow>
      wq_magic (wqs s (WQ_retcode t)) = WAIT_QUEUE_MAGIC \<Longrightarrow> timeout \<noteq> 0 \<Longrightarrow> \<not> thread_is_idle (threads s ct) \<Longrightarrow>
      in_window b (cur_time s + 10) \<Longrightarrow> (timeout \<noteq> INFINITE_TIME \<Longrightarrow> in_window b (cur_time s + timeout)) \<Longrightarrow>
      \<exists>s'. thread_join cpu t want timeout s = Some s' \<and> switched_in b cpu s' \<and>
        blocked_on (K_wq_block timeout (C_join t want) (ints_disabled s cpu)) cpu ct (WQ_retcode t) s s'"
proof -
  have kc: "kcore b {} {} (locked cpu s)" using inv by (simp add: locked_kcore kinv_def)
  have c1: "current (locked cpu s) cpu = Some ct" using cur by simp
  note L = THREAD_LOCK_kinv [OF inv, of cpu] and E = end_call_locked [OF kc c1, of "ints_disabled s cpu"]
  note C = locked_current_facts [OF kc c1]
  show "\<exists>s'. thread_join cpu t want timeout s = Some s' \<and> kinv b s' \<and> returned ct ERR_THREAD_DETACHED s s'"
    if "has_flag (threads s t) THREAD_FLAG_DETACHED"
    using that t E [of ERR_THREAD_DETACHED] by (simp add: thread_join_def L returned_def)
  show "\<exists>s'. thread_join cpu t want timeout s = Some s' \<and> kinv b s' \<and> reaped ct t want s s'"
    if "\<not> has_flag (threads s t) THREAD_FLAG_DETACHED" "t_state (threads s t) = THREAD_DEATH"
      "blocking_wait_queue (threads s t) = None"
  proof -
    have "\<exists>s'. thread_join_tail cpu t want (ints_disabled s cpu) (locked cpu s) = Some s' \<and> kinv b s' \<and>
        reaped ct t want (locked cpu s) s'"
      by (rule thread_join_tail_ok) (use kcore_exempt [OF kc] cur C t that in simp_all)
    then show ?thesis using that t by (cases want) (simp_all add: thread_join_def L reaped_def)
  qed
  show "\<exists>s'. thread_join cpu t want timeout s = Some s' \<and> kinv b s' \<and> returned ct ERR_TIMED_OUT s s'"
    if "\<not> has_flag (threads s t) THREAD_FLAG_DETACHED" "t_state (threads s t) \<noteq> THREAD_DEATH"
      "wq_magic (wqs s (WQ_retcode t)) = WAIT_QUEUE_MAGIC" "timeout = 0"
    using that t cur C E [of ERR_TIMED_OUT]
    by (simp add: thread_join_def L wait_queue_block_def thread_join_return_def returned_def)
  show "\<exists>s'. thread_join cpu t want timeout s = Some s' \<and> switched_in b cpu s' \<and>
        blocked_on (K_wq_block timeout (C_join t want) (ints_disabled s cpu)) cpu ct (WQ_retcode t) s s'"
    if "\<not> has_flag (threads s t) THREAD_FLAG_DETACHED" "t_state (threads s t) \<noteq> THREAD_DEATH"
      "wq_magic (wqs s (WQ_retcode t)) = WAIT_QUEUE_MAGIC" "timeout \<noteq> 0" "\<not> thread_is_idle (threads s ct)"
      "in_window b (cur_time s + 10)" "timeout \<noteq> INFINITE_TIME \<Longrightarrow> in_window b (cur_time s + timeout)"
  proof -
    have "\<exists>s'. wait_queue_block (C_join t want) (ints_disabled s cpu) cpu (WQ_retcode t) timeout (locked cpu s) = Some (None, s') \<and>
      switched_in b cpu s' \<and> blocked_on (K_wq_block timeout (C_join t want) (ints_disabled s cpu)) cpu ct (WQ_retcode t) (locked cpu s) s'"
      by (rule wait_queue_block_ok [OF kc _ _ c1]) (use that in simp_all)
    then show ?thesis using that(1,2) t by (auto simp: thread_join_def L blocked_on_def)
  qed
qed

section \<open>Detaching\<close>

lemma flag_detached_bits [simp]:
  "bit (x OR 1 :: u32) n \<longleftrightarrow> n = 0 \<or> bit x n" "bit (x AND - 2 :: u32) n \<longleftrightarrow> n \<noteq> 0 \<and> bit x n"
proof -
  show "bit (x OR 1) n \<longleftrightarrow> n = 0 \<or> bit x n" by (auto simp: bit_simps)
  have "(- 2 :: u32) = NOT (push_bit 0 1)" by simp
  then have "bit (x AND - 2) n \<longleftrightarrow> bit (x AND NOT (push_bit 0 1)) n" by (simp only:)
  also have "\<dots> \<longleftrightarrow> n \<noteq> 0 \<and> bit x n" by (auto simp: bit_simps simp del: push_bit_of_1 dest: bit_word32_bound)
  finally show "bit (x AND - 2) n \<longleftrightarrow> n \<noteq> 0 \<and> bit x n" .
qed

lemma has_flag_detached: "has_flag th THREAD_FLAG_DETACHED \<longleftrightarrow> bit (t_flags th) 0"
  using and_exp_eq_0_iff_not_bit [of "t_flags th" 0] by (simp add: has_flag_def)

lemma kcore_flags:
  assumes "\<And>n. n \<in> {3, 4, 5} \<Longrightarrow> bit (f (t_flags (threads s t))) n = bit (t_flags (threads s t)) n"
  shows "kcore b X Y (upd_thread t (\<lambda>th. th\<lparr>t_flags := f (t_flags th)\<rparr>) s) = kcore b X Y s"
  using assms [of 3] assms [of 4] assms [of 5]
  by (intro kcore_view_cong) (simp_all add: kview_def sched_view_def thread_is_idle_bit)

text \<open>
  Detaching a thread that is not dead sets its flag and wakes the threads that wait to join it with
  \<open>ERR_THREAD_DETACHED\<close>.
\<close>

definition detached :: "tid \<Rightarrow> tid \<Rightarrow> 'a kstate_scheme \<Rightarrow> 'a kstate_scheme \<Rightarrow> bool" where
  "detached ct t s s' \<longleftrightarrow>
     (let ts = wq_list (wqs s (WQ_retcode t));
          f = (\<lambda>u. if u \<in> set ts then set_woken ERR_THREAD_DETACHED (threads s u) else threads s u);
          g = f(t := (f t)\<lparr>t_flags := t_flags (f t) OR THREAD_FLAG_DETACHED\<rparr>);
          h = g(ct := (g ct)\<lparr>t_cont := K_none, call_ret := NO_ERROR\<rparr>)
      in \<forall>u. cview (threads s' u) = cview (h u)) \<and>
     wqs s' = (wqs s)(WQ_retcode t := (wqs s (WQ_retcode t))\<lparr>wq_list := [], wq_count := 0\<rparr>) \<and>
     current s' = current s \<and> cur_time s' = cur_time s \<and> thread_list s' = thread_list s \<and>
     freed s' = freed s \<and> delayed_free s' = delayed_free s \<and> kstate.more s' = kstate.more s"

lemma cview_set_flags: "cview a = cview b \<Longrightarrow> cview (a\<lparr>t_flags := x\<rparr>) = cview (b\<lparr>t_flags := x\<rparr>)"
  by (cases a; cases b; simp add: cview_def core_def)

lemma cview_set_return:
  "cview a = cview b \<Longrightarrow> cview (a\<lparr>t_cont := k, call_ret := r\<rparr>) = cview (b\<lparr>t_cont := k, call_ret := r\<rparr>)"
  by (cases a; cases b; simp add: cview_def core_def)

lemma thread_detach_ok:
  fixes s :: "'a kstate_scheme"
  assumes inv: "kinv b s" and cur: "current s cpu = Some ct" and t: "live s t"
    and wq: "wq_magic (wqs s (WQ_retcode t)) = WAIT_QUEUE_MAGIC" and st: "t_state (threads s t) \<noteq> THREAD_DEATH"
  shows "\<exists>s'. thread_detach cpu t s = Some s' \<and> kinv b s' \<and> detached ct t s s'"
proof -
  have kc: "kcore b {} {} (locked cpu s)" using inv by (simp add: locked_kcore kinv_def)
  note L = THREAD_LOCK_kinv [OF inv, of cpu]
  let ?ts = "wq_list (wqs s (WQ_retcode t))" and ?fl = "\<lambda>th. th\<lparr>t_flags := t_flags th OR THREAD_FLAG_DETACHED\<rparr>"
  obtain s2 where s2: "wait_queue_wake_all K_none cpu (WQ_retcode t) False ERR_THREAD_DETACHED (locked cpu s) = Some (int (length ?ts), s2)"
    "kcore b {} {} s2" "woken ?ts (WQ_retcode t) ERR_THREAD_DETACHED (locked cpu s) s2" "current s2 = current s"
    "\<forall>u. u \<notin> set ?ts \<longrightarrow> threads s2 u = threads s u"
    using wake_all_ok [OF kc _ _ _, of cpu ct "WQ_retcode t" K_none ERR_THREAD_DETACHED] cur wq by auto
  have v2: "cview (threads s2 u) = cview (if u \<in> set ?ts then set_woken ERR_THREAD_DETACHED (threads s u) else threads s u)" for u
    using s2(3) by (simp add: woken_def)
  have nd: "t_state (threads s2 t) \<noteq> THREAD_DEATH" using cview_eqD(11) [OF v2 [of t]] st by (auto split: if_splits)
  have k3: "kcore b {} {} (upd_thread t ?fl s2)" by (subst kcore_flags) (use s2(2) in auto)
  obtain s' where s': "end_call cpu (ints_disabled s cpu) NO_ERROR (upd_thread t ?fl s2) = Some s'" "kinv b s'"
    "threads s' = (threads (upd_thread t ?fl s2))(ct := (threads (upd_thread t ?fl s2) ct)\<lparr>t_cont := K_none, call_ret := NO_ERROR\<rparr>)"
    "wqs s' = wqs s2" "current s' = current s2" "cur_time s' = cur_time s2" "thread_list s' = thread_list s2"
    "freed s' = freed s2" "delayed_free s' = delayed_free s2" "kstate.more s' = kstate.more s2"
    using end_call_locked [OF k3, of cpu ct "ints_disabled s cpu" NO_ERROR] s2(4) cur by auto
  define f where "f = (\<lambda>u. if u \<in> set ?ts then set_woken ERR_THREAD_DETACHED (threads s u) else threads s u)"
  define g where "g = f(t := (f t)\<lparr>t_flags := t_flags (f t) OR THREAD_FLAG_DETACHED\<rparr>)"
  have vf: "cview (threads s2 u) = cview (f u)" for u using v2 [of u] by (simp add: f_def)
  have vg: "cview (threads (upd_thread t ?fl s2) u) = cview (g u)" for u
    using vf [of u] cview_set_flags [OF vf [of t]] cview_eqD(2) [OF vf [of t]] by (simp add: g_def)
  have "cview (threads s' u) = cview ((g(ct := (g ct)\<lparr>t_cont := K_none, call_ret := NO_ERROR\<rparr>)) u)" for u
    using vg [of u] cview_set_return [OF vg [of ct]] by (cases "u = ct") (simp_all add: s'(3))
  then have "detached ct t s s'"
    using s2(3,4) sched_invD(5) [OF kcoreD(1) [OF kc], of "WQ_retcode t"]
    unfolding detached_def Let_def s'(4-) by (simp add: woken_def f_def g_def)
  moreover have "thread_detach cpu t s = Some s'"
    using t nd s2(1) s'(1) by (simp add: thread_detach_def L)
  ultimately show ?thesis using s'(2) by blast
qed

lemma owned_undetached:
  "owned_stack (th\<lparr>t_flags := t_flags th AND - 2\<rparr>) = owned_stack th"
  "owned_struct t (th\<lparr>t_flags := t_flags th AND - 2\<rparr>) = owned_struct t th"
  by (simp_all add: owned_stack_def owned_struct_def has_flag_def and_4_eq_0 and_2_eq_0)

text \<open>Detaching a dead thread reaps it.\<close>

lemma thread_detach_dead:
  fixes s :: "'a kstate_scheme"
  assumes inv: "kinv b s" and cur: "current s cpu = Some ct" and t: "live s t"
    and wq: "wq_magic (wqs s (WQ_retcode t)) = WAIT_QUEUE_MAGIC" "wq_list (wqs s (WQ_retcode t)) = []"
    and st: "t_state (threads s t) = THREAD_DEATH" "blocking_wait_queue (threads s t) = None"
  shows "\<exists>s'. thread_detach cpu t s = Some s' \<and> kinv b s' \<and> reaped ct t False s s'"
proof -
  have kc: "kcore b {} {} (locked cpu s)" using inv by (simp add: locked_kcore kinv_def)
  note L = THREAD_LOCK_kinv [OF inv, of cpu]
  let ?fl = "\<lambda>th. th\<lparr>t_flags := t_flags th AND NOT THREAD_FLAG_DETACHED\<rparr>"
  let ?s2 = "upd_thread t ?fl (locked cpu s)"
  let ?s3 = "THREAD_UNLOCK cpu (ints_disabled s cpu) ?s2"
  have wake: "wait_queue_wake_all K_none cpu (WQ_retcode t) False ERR_THREAD_DETACHED (locked cpu s) = Some (0, locked cpu s)"
    using cur wq by (intro wake_all_empty [OF kc]) simp_all
  have ne: "ct \<noteq> t" using current_running [OF kcoreD(2) [OF kc], of cpu ct] cur st(1) by auto
  have "kcore b {} {} ?s2" by (subst kcore_flags) (use kc in auto)
  then have k3: "kinv b ?s3" using kcore_cong [of ?s3 ?s2] by (simp add: kinv_def THREAD_UNLOCK_def)
  have "\<exists>s'. thread_join cpu t False 0 ?s3 = Some s' \<and> kinv b s' \<and> reaped ct t False ?s3 s'"
    using t cur st by (intro thread_join_ok(2) [OF k3]) (simp_all add: THREAD_UNLOCK_def has_flag_detached)
  moreover have "reaped ct t False ?s3 s' = reaped ct t False s s'" for s'
    using ne by (simp add: reaped_def THREAD_UNLOCK_def owned_undetached)
  ultimately show ?thesis using t st wake by (simp add: thread_detach_def L)
qed

end
