(* ===== verification/Sched_Props.thy ===== *)
theory Sched_Props
  imports Demo_State Thread_Life
begin

text \<open>
  The properties of the scheduler, its timers and the life of a thread, with their instances on the
  concrete state of \<open>Demo_State\<close>.
\<close>

section \<open>Choosing a thread\<close>

text \<open>
  C21: \<open>get_top_thread\<close> returns the first thread, in queue order, of the highest non-empty priority
  among the ready threads that may run on the cpu, and takes it out of its run queue with the bitmap
  kept exact; the idle thread of the cpu is returned only when no ready thread may run there.
\<close>

theorem get_top_thread_highest:
  assumes "sched_inv {} s" "get_top_thread cpu s = (t, s')"
  shows "(t = Idle_thread cpu \<and> s' = s \<and>
           (\<forall>u. live s u \<and> runnable (threads s u) \<longrightarrow> \<not> eligible cpu (threads s u))) \<or>
         (\<exists>q. live s t \<and> runnable (threads s t) \<and> eligible cpu (threads s t) \<and> priority (threads s t) = int q \<and>
           List.find (\<lambda>u. eligible cpu (threads s u)) (run_queue s q) = Some t \<and>
           (\<forall>u. live s u \<and> runnable (threads s u) \<and> eligible cpu (threads s u) \<longrightarrow>
              priority (threads s u) \<le> priority (threads s t)) \<and>
           run_queue s' = (run_queue s)(q := remove1 t (run_queue s q)) \<and> sched_inv {t} s')"
proof (cases rule: get_top_thread_cases [OF assms(1), of cpu])
  case 1
  then show ?thesis using assms(2) by auto
next
  case (2 u q)
  have u: "u = t" "s' = take_from_run_queue q t s" using assms(2) 2(1) by auto
  have "sched_inv {t} s'" using sched_inv_take [OF assms(1), of t q] 2(2) u by simp
  moreover have "run_queue s' = (run_queue s)(q := remove1 t (run_queue s q))"
    by (simp add: u(2) take_from_run_queue_def Let_def)
  ultimately show ?thesis using 2 u sched_invD(3) [OF assms(1), of t q] by blast
qed

theorem get_top_thread_highest_witness:
  "\<exists>t s'. get_top_thread 0 (demo ()) = (t, s') \<and> sched_inv {} (demo ()) \<and> (t = Idle_thread 0 \<or> runnable (threads (demo ()) t))"
proof -
  obtain t s' where e: "get_top_thread 0 (demo ()) = (t, s')" by fastforce
  from get_top_thread_highest [OF demo_sched_inv e]
  have "t = Idle_thread 0 \<or> runnable (threads (demo ()) t)" by (elim disjE exE conjE) simp_all
  then show ?thesis using e demo_sched_inv [of "()"] by (intro exI [of _ t] exI [of _ s']) simp
qed

section \<open>Yielding\<close>

text \<open>
  C20: from every state at rest that satisfies the invariant, \<open>thread_yield\<close> runs to its context
  switch without hitting an assertion or a panic, whatever the calling thread (idle threads
  included). Afterwards the cpu runs a thread of the highest priority among all ready threads that
  may run on it, the caller included, the invariant holds, and the calls of the other threads and all
  wait queues are as before.
\<close>

theorem thread_yield_correct:
  assumes "kinv b s" "current s cpu = Some t" "in_window b (cur_time s + 10)"
  shows "\<exists>s'. thread_yield cpu s = Some s' \<and> kcore b {} {cpu} s' \<and> runs_best cpu s' \<and>
    yielded (K_unlock (ints_disabled s cpu)) cpu t s s'"
  using thread_yield_ok [OF assms] by (auto simp: switched_in_def)

theorem thread_yield_correct_witness:
  "\<exists>s'. thread_yield 0 (demo ()) = Some s' \<and> runs_best 0 s'"
proof -
  have "current (demo ()) 0 = Some (Dyn_thread 0)" "in_window 0 (cur_time (demo ()) + 10)"
    by (simp_all add: in_window_def ahead_def)
  from thread_yield_correct [OF demo_kinv this] show ?thesis by blast
qed

end
