(* ===== verification/Thread_Start.thy ===== *)
theory Thread_Start
  imports Thread_Life
begin

text \<open>
  The invariant under \<open>thread_resume\<close>, \<open>thread_create_etc\<close> and \<open>thread_set_real_time\<close>.
\<close>

section \<open>Resuming\<close>

text \<open>No call is affected.\<close>

definition quiet :: "'a kstate_scheme \<Rightarrow> 'a kstate_scheme \<Rightarrow> bool" where
  "quiet s s' \<longleftrightarrow> (\<forall>u. cview (threads s' u) = cview (threads s u)) \<and> current s' = current s \<and> wqs s' = wqs s \<and>
     cur_time s' = cur_time s \<and> thread_list s' = thread_list s \<and> freed s' = freed s \<and>
     delayed_free s' = delayed_free s \<and> kstate.more s' = kstate.more s"

lemma quiet_yielded: "quiet s s1 \<Longrightarrow> yielded k cpu t s1 s' \<Longrightarrow> yielded k cpu t s s'"
  unfolding quiet_def yielded_def
  using cview_upd(1) [OF cview_upd(2), of "threads s1 t" "threads s t" k THREAD_READY] by auto

lemma resume_locked_ok:
  fixes s :: "'a kstate_scheme"
  assumes inv: "kinv b s" and t: "live s t" "t_state (threads s t) \<noteq> THREAD_DEATH"
  shows "\<exists>s'. thread_resume_locked cpu t s =
      Some (t_state (threads s t) = THREAD_SUSPENDED \<and> \<not> ints_disabled s cpu, s') \<and>
    kinv b s' \<and> quiet s s' \<and> ints_disabled s' = ints_disabled s"
proof (cases "t_state (threads s t) = THREAD_SUSPENDED")
  case False
  let ?s' = "THREAD_UNLOCK cpu (ints_disabled s cpu) (wakeup_cpu_for_thread cpu t (locked cpu s))"
  have "kcore b {} {} ?s'"
    using inv kcore_cong [of ?s' s] by (simp add: THREAD_UNLOCK_def kinv_def)
  then show ?thesis
    using False t THREAD_LOCK_kinv [OF inv, of cpu]
    by (simp add: thread_resume_locked_def kinv_def quiet_def THREAD_UNLOCK_def)
next
  case True
  have kc: "kcore b {} {} (locked cpu s)" using inv by (simp add: locked_kcore kinv_def)
  note K = kcoreD [OF kc]
  define s1 where "s1 = upd_thread t (\<lambda>th. th\<lparr>t_state := THREAD_READY\<rparr>) (locked cpu s)"
  have ni: "\<not> thread_is_idle (threads s t)" using K(3) t True unfolding idle_inv_def by fastforce
  have i0: "sched_inv {t} (locked cpu s)" using sched_inv_out [OF K(1), of t] True by (simp add: runnable_def)
  have nq: "\<not> queue_node (threads s t)" using sched_invD(8) [OF i0, of t] t(1) by simp
  have i1: "sched_inv {t} s1" unfolding s1_def using nq by (intro sched_inv_upd [OF i0]) simp_all
  have pr: "0 \<le> priority (threads s t) \<and> priority (threads s t) < 32" using sched_invD(9) [OF K(1), of t] t(1) by simp
  note I = insert_unqueued [OF i1, of cpu]
  have ins: "insert_in_run_queue_head cpu t s1 = Some (enqueued (\<lambda>q. t # q) t s1)"
    "sched_inv {} (enqueued (\<lambda>q. t # q) t s1)"
    by (rule I; use t pr ni in \<open>simp add: s1_def runnable_def\<close>)+
  have "kbase b {} {} s1"
    by (rule kbase_ready [OF K(9), of t s1 "(threads s t)\<lparr>t_state := THREAD_READY\<rparr>"]) (use t True in \<open>simp_all add: s1_def\<close>)
  then have k2: "kcore b {} {} (enqueued (\<lambda>q. t # q) t s1)" using ins(2) by (simp add: kcore_def kbase_enqueued)
  let ?s' = "THREAD_UNLOCK cpu (ints_disabled s cpu) (wakeup_cpu_for_thread cpu t (enqueued (\<lambda>q. t # q) t s1))"
  have "kcore b {} {} ?s'" using k2 kcore_cong [of ?s' "enqueued (\<lambda>q. t # q) t s1"] by (simp add: THREAD_UNLOCK_def)
  moreover have "quiet s ?s'" using True by (simp add: quiet_def THREAD_UNLOCK_def s1_def cview_def core_def)
  moreover have "thread_resume_locked cpu t s = Some (\<not> ints_disabled s cpu, ?s')"
    using True t THREAD_LOCK_kinv [OF inv, of cpu] ins(1) by (simp add: thread_resume_locked_def s1_def)
  ultimately show ?thesis using True by (simp add: kinv_def THREAD_UNLOCK_def s1_def)
qed

lemma thread_resume_ok:
  fixes s :: "'a kstate_scheme"
  assumes inv: "kinv b s" and cur: "current s cpu = Some ct" and time: "in_window b (cur_time s + 10)"
    and t: "live s t" "t_state (threads s t) \<noteq> THREAD_DEATH"
  shows "t_state (threads s t) \<noteq> THREAD_SUSPENDED \<or> ints_disabled s cpu \<Longrightarrow>
      \<exists>s'. thread_resume cpu t s = Some (NO_ERROR, s') \<and> kinv b s' \<and> quiet s s'"
    "t_state (threads s t) = THREAD_SUSPENDED \<Longrightarrow> \<not> ints_disabled s cpu \<Longrightarrow>
      \<exists>s'. thread_resume cpu t s = Some (NO_ERROR, s') \<and> switched_in b cpu s' \<and> yielded (K_unlock False) cpu ct s s'"
proof -
  obtain s1 where s1: "thread_resume_locked cpu t s =
      Some (t_state (threads s t) = THREAD_SUSPENDED \<and> \<not> ints_disabled s cpu, s1)"
    "kinv b s1" "quiet s s1" "ints_disabled s1 = ints_disabled s" using resume_locked_ok [OF inv t] by blast
  then show "\<exists>s'. thread_resume cpu t s = Some (NO_ERROR, s') \<and> kinv b s' \<and> quiet s s'"
    if "t_state (threads s t) \<noteq> THREAD_SUSPENDED \<or> ints_disabled s cpu"
    using that by (auto simp: thread_resume_def)
  show "\<exists>s'. thread_resume cpu t s = Some (NO_ERROR, s') \<and> switched_in b cpu s' \<and> yielded (K_unlock False) cpu ct s s'"
    if st: "t_state (threads s t) = THREAD_SUSPENDED" "\<not> ints_disabled s cpu"
  proof -
    have "current s1 cpu = Some ct" "in_window b (cur_time s1 + 10)" using s1(3) cur time by (simp_all add: quiet_def)
    from thread_yield_ok [OF s1(2) this] obtain s' where
      "thread_yield cpu s1 = Some s'" "switched_in b cpu s'" "yielded (K_unlock False) cpu ct s1 s'"
      using s1(4) st(2) by auto
    then show ?thesis using s1(1) st quiet_yielded [OF s1(3)] by (simp add: thread_resume_def)
  qed
qed

section \<open>Creation\<close>

lemma fresh_thread:
  assumes kc: "kcore b {} {} s" and t: "\<not> live s t"
  shows "t \<notin> set (run_queue s p)" "t \<notin> set (wq_list (wqs s w))" "current s c \<noteq> Some t"
    "\<not> tm_linked (timers s (TM_sleep t))" "\<not> tm_linked (timers s (TM_wait t))"
proof -
  note K = kcoreD [OF kc]
  show "t \<notin> set (run_queue s p)" "t \<notin> set (wq_list (wqs s w))" using sched_invD(3,6) [OF K(1)] t by blast+
  show "current s c \<noteq> Some t" using current_running(1) [OF K(2)] t by blast
  show "\<not> tm_linked (timers s (TM_sleep t))" "\<not> tm_linked (timers s (TM_wait t))"
    using K(6) t unfolding timers_inv_def timer_good_def by fastforce+
qed

lemma sched_inv_fresh:
  assumes inv: "sched_inv {} s" and t: "\<not> live s t" "wq_list (wqs s w) = []"
    and th: "t_state th = THREAD_SUSPENDED" "\<not> queue_node th" "0 \<le> priority th" "priority th < 32"
  shows "sched_inv {} (upd_wq w (\<lambda>_. \<lparr>wq_magic = WAIT_QUEUE_MAGIC, wq_list = [], wq_count = 0\<rparr>) (upd_thread t (\<lambda>_. th) s))"
    (is "sched_inv {} ?s'")
proof (rule sched_invI)
  note I = sched_invD [OF inv]
  show "x \<in> set (run_queue ?s' p) \<longleftrightarrow> x \<notin> {} \<and> live ?s' x \<and> runnable (threads ?s' x) \<and> priority (threads ?s' x) = int p" for x p
    using I(3) [of x p] t th by (auto simp: runnable_def)
  show "x \<in> set (wq_list (wqs ?s' v)) \<longleftrightarrow> x \<notin> {} \<and> live ?s' x \<and> t_state (threads ?s' x) = THREAD_BLOCKED \<and>
      blocking_wait_queue (threads ?s' x) = Some v" for x v
    using I(6) [of x v] t th by auto
  show "\<exists>v. blocking_wait_queue (threads ?s' x) = Some v \<and> wq_magic (wqs ?s' v) = WAIT_QUEUE_MAGIC"
    if "live ?s' x" "t_state (threads ?s' x) = THREAD_BLOCKED" for x
    using that I(7) [of x] th by (auto split: if_splits)
  show "queue_node (threads ?s' x) \<longleftrightarrow> x \<notin> {} \<and> (runnable (threads ?s' x) \<or> t_state (threads ?s' x) = THREAD_BLOCKED)"
    if "live ?s' x" for x
    using that I(8) [of x] th by (auto simp: runnable_def)
  show "0 \<le> priority (threads ?s' x) \<and> priority (threads ?s' x) < 32" if "live ?s' x" for x
    using that I(9) [of x] th by auto
qed (use sched_invD(1,2,4,5) [OF inv] t in auto)

text \<open>The fields of a thread just created.\<close>

definition created :: "thread \<Rightarrow> bool" where
  "created th \<longleftrightarrow> t_magic th = THREAD_MAGIC \<and> t_state th = THREAD_SUSPENDED \<and> \<not> queue_node th \<and> t_cont th = K_start \<and>
     blocking_wait_queue th = None \<and> curr_cpu th = - 1 \<and> pinned_cpu th = - 1 \<and>
     \<not> thread_is_real_time_or_idle th \<and>
     (has_flag th THREAD_FLAG_DEBUG_STACK_BOUNDS_CHECK \<longrightarrow> stack_guard_intact th)"

lemma kcore_fresh:
  fixes s :: "'a kstate_scheme"
  assumes kc: "kcore b {} {} s" and t: "\<not> live s t" "wq_list (wqs s (WQ_retcode t)) = []"
    and th: "created th" "0 \<le> priority th" "priority th < 32"
    and s': "threads s' = (threads s)(t := th)" "current s' = current s" "timers s' = timers s"
      "timer_queue s' = timer_queue s" "run_queue s' = run_queue s" "run_queue_bitmap s' = run_queue_bitmap s"
      "wqs s' = (wqs s)(WQ_retcode t := \<lparr>wq_magic = WAIT_QUEUE_MAGIC, wq_list = [], wq_count = 0\<rparr>)"
  shows "kcore b {} {} s'"
proof -
  note K = kcoreD [OF kc] and F = fresh_thread [OF kc t(1)]
  have c: "t_magic th = THREAD_MAGIC" "t_state th = THREAD_SUSPENDED" "\<not> queue_node th" "t_cont th = K_start"
    "\<not> thread_is_idle th" using th(1) by (auto simp: created_def thread_is_idle_bit thread_is_real_time_or_idle_bit)
  let ?w = "WQ_retcode t"
  have "sched_inv {} (upd_wq ?w (\<lambda>_. \<lparr>wq_magic = WAIT_QUEUE_MAGIC, wq_list = [], wq_count = 0\<rparr>) (upd_thread t (\<lambda>_. th) s))"
    using sched_inv_fresh [OF K(1) t] c th by blast
  then have "sched_inv {} s'" by (subst sched_inv_cong) (simp_all add: s')
  moreover have "cur_inv {} s'" using K(2) F(3) c unfolding cur_inv_def s' by auto
  moreover have "idle_inv s'"
  proof -
    have "Idle_thread c' \<noteq> t" if "current s c' \<noteq> None" for c' using K(3) that t unfolding idle_inv_def by auto
    then show ?thesis using K(3) c unfolding idle_inv_def s' by auto
  qed
  moreover have "preempt_inv s'" using K(4) F(3) unfolding preempt_inv_def s' by auto
  moreover have "timer_wf b s'" using K(5) timer_wf_cong [of s' s] by (simp add: s')
  moreover have "timers_inv s'"
  proof -
    have "timer_good s' tm" if l: "tm_linked (timers s tm)" for tm
    proof -
      have "timer_good s tm" using K(6) l unfolding timers_inv_def by blast
      moreover have "tm \<noteq> TM_sleep t" "tm \<noteq> TM_wait t" using l F by auto
      ultimately show ?thesis by (auto simp: timer_good_def s' split: timer_id.splits)
    qed
    then show ?thesis using K(6) c unfolding timers_inv_def s' by (auto simp: timed_block_def)
  qed
  moreover have "stack_inv s'" using K(7) th(1) unfolding stack_inv_def s' created_def by auto
  moreover have "cont_inv {} s'" using K(8) F(3) c unfolding cont_inv_def s' by (auto simp: cont_ok_def blocked_cont_def)
  ultimately show ?thesis by (simp add: kcore_def kbase_def kstat_def)
qed

text \<open>
  The effect of a successful \<open>thread_create_etc\<close>: a suspended thread with a filled stack and an
  initialised wait queue for its exit code, at the head of the thread list; nothing else changes.
\<close>

definition created_in :: "tid \<Rightarrow> 'a kstate_scheme \<Rightarrow> 'a kstate_scheme \<Rightarrow> bool" where
  "created_in t s s' \<longleftrightarrow> created (threads s' t) \<and> (\<forall>u. u \<noteq> t \<longrightarrow> threads s' u = threads s u) \<and>
     \<not> has_flag (threads s' t) THREAD_FLAG_DETACHED \<and>
     wqs s' = (wqs s)(WQ_retcode t := \<lparr>wq_magic = WAIT_QUEUE_MAGIC, wq_list = [], wq_count = 0\<rparr>) \<and>
     thread_list s' = t # thread_list s \<and> current s' = current s \<and> cur_time s' = cur_time s \<and>
     freed s' = freed s \<and> delayed_free s' = delayed_free s \<and> kstate.more s' = kstate.more s"

lemma debug_word: "word_rcat [0x99, 0x99, 0x99, 0x99 :: u8] = (STACK_DEBUG_WORD :: u32)"
  by (simp add: word_rcat_def)

lemma stack_guard_filled: "256 \<le> n \<Longrightarrow> stack_guard_intact (th\<lparr>stack_mem := replicate n STACK_DEBUG_BYTE\<rparr>)"
proof -
  assume n: "256 \<le> n"
  have "stack_word (replicate n STACK_DEBUG_BYTE) i = STACK_DEBUG_WORD" if "i < 64" for i
  proof -
    have "min 4 (n - 4 * i) = 4" using n that by simp
    then show ?thesis by (simp add: stack_word_def debug_word numeral_eq_Suc)
  qed
  then show ?thesis by (simp add: stack_guard_intact_def list_all_iff)
qed

lemma thread_create_etc_ok:
  fixes s :: "'a kstate_scheme"
  assumes inv: "kinv b s" and cur: "current s cpu = Some ct"
    and t: "(case t0 of Some u \<Rightarrow> Some u | None \<Rightarrow> new_struct) = Some t" "\<not> live s t" "wq_list (wqs s (WQ_retcode t)) = []"
    and st: "(case stack of Some k \<Rightarrow> Some k | None \<Rightarrow> new_stack) = Some k"
    and pr: "0 \<le> prio" "prio < 32"
  shows "\<exists>s'. thread_create_etc cpu t0 name entry arg prio stack sz new_struct new_stack s = Some (Some t, s') \<and>
    kinv b s' \<and> created_in t s s' \<and> priority (threads s' t) = prio"
proof -
  have kc: "kcore b {} {} s" and lk: "\<not> thread_lock s" using inv by (simp_all add: kinv_def)
  have ne: "ct \<noteq> t" using fresh_thread(3) [OF kc t(2), of cpu] cur by auto
  define fl where "fl = (if stack = None then (if t0 = None then 4 else 0) OR 32 OR 2 else (if t0 = None then 4 else 0 :: u32))"
  have fl: "\<not> bit fl 0" "\<not> bit fl 3" "\<not> bit fl 4" "bit fl 5 \<longleftrightarrow> stack = None" by (auto simp: fl_def bit_simps bit_numeral_simps)
  define th where "th = zero_thread\<lparr>t_magic := THREAD_MAGIC, pinned_cpu := - 1, t_name := copied_name 32 name,
     t_entry := entry, t_arg := arg, priority := prio, t_state := THREAD_SUSPENDED, blocking_wait_queue := None,
     wait_queue_block_ret := NO_ERROR, curr_cpu := - 1, retcode := 0, aspace := None, t_stack := Some k,
     stack_mem := replicate (if stack = None then sz + 256 else sz) STACK_DEBUG_BYTE,
     stack_size := if stack = None then sz + 256 else sz, t_flags := fl, tls := tls (threads s ct), t_cont := K_start\<rparr>"
  have cr: "created th"
    using fl stack_guard_filled [of "sz + 256" th]
    by (auto simp: created_def th_def zero_thread_def thread_is_real_time_or_idle_bit has_flag_def stack_guard_intact_def)
  define s' where "s' = upd_wq (WQ_retcode t) (\<lambda>_. \<lparr>wq_magic = WAIT_QUEUE_MAGIC, wq_list = [], wq_count = 0\<rparr>)
     (upd_thread t (\<lambda>_. th) (s\<lparr>thread_list := t # thread_list s\<rparr>))"
  have "thread_create_etc cpu t0 name entry arg prio stack sz new_struct new_stack s = Some (Some t, s')"
    using t(1) st cur lk ne
    by (cases stack; cases t0)
      (simp_all add: thread_create_etc_def init_thread_struct_def wait_queue_init_def THREAD_LOCK_def THREAD_UNLOCK_def
        s'_def th_def fl_def upd_thread_def upd_wq_def Let_def)
  moreover have "kcore b {} {} s'" using pr by (intro kcore_fresh [OF kc t(2,3) cr]) (simp_all add: s'_def th_def)
  moreover have "created_in t s s'" using cr fl(1) by (simp add: created_in_def s'_def has_flag_detached th_def)
  moreover have "priority (threads s' t) = prio" "\<not> thread_lock s'" using lk by (simp_all add: s'_def th_def)
  ultimately show ?thesis by (auto simp: kinv_def)
qed

section \<open>Real-time threads\<close>

lemma bit_or_8 [simp]: "bit (x OR 8 :: u32) n \<longleftrightarrow> n = 3 \<or> bit x n"
proof -
  have "(8 :: u32) = 2 ^ 3" by simp
  then show ?thesis by (simp only: bit_or_iff bit_exp_iff) (auto dest: bit_imp_le_length)
qed

text \<open>Marking a thread that is not current on another cpu keeps the invariant.\<close>

lemma kcore_real_time:
  fixes s :: "'a kstate_scheme"
  assumes kc: "kcore b {} {} s"
    and off: "\<And>c. current s c = Some t \<Longrightarrow> timer_off (timers s (TM_preempt c))"
  shows "kcore b {} {} (upd_thread t (\<lambda>th. th\<lparr>t_flags := t_flags th OR THREAD_FLAG_REAL_TIME\<rparr>) s)" (is "kcore b {} {} ?s'")
proof -
  note K = kcoreD [OF kc]
  have p: "thread_is_idle (th\<lparr>t_flags := t_flags th OR 8\<rparr>) = thread_is_idle th"
    "has_flag (th\<lparr>t_flags := t_flags th OR 8\<rparr>) 32 = has_flag th 32"
    "stack_guard_intact (th\<lparr>t_flags := t_flags th OR 8\<rparr>) = stack_guard_intact th"
    "timed_block (th\<lparr>t_flags := t_flags th OR 8\<rparr>) = timed_block th"
    "cont_ok (th\<lparr>t_flags := t_flags th OR 8\<rparr>) = cont_ok th" for th
    by (simp_all add: thread_is_idle_bit has_flag_def stack_guard_intact_def timed_block_def cont_ok_def blocked_cont_def)
  have "sched_inv {} ?s'" using K(1) sched_inv_cong [of ?s' s] by (simp add: sched_view_def p)
  moreover have "cur_inv {} ?s'" using K(2) unfolding cur_inv_def by simp
  moreover have "idle_inv ?s'" using K(3) unfolding idle_inv_def by (auto simp: p)
  moreover have "preempt_inv ?s'" using K(4) off unfolding preempt_inv_def by auto
  moreover have "timer_wf b ?s'" using K(5) timer_wf_cong [of ?s' s] by simp
  moreover have "timer_good ?s' tm = timer_good s tm" for tm by (cases tm) (auto simp: timer_good_def p)
  then have "timers_inv ?s'" using K(6) unfolding timers_inv_def by (auto simp: p)
  moreover have "stack_inv ?s'" using K(7) unfolding stack_inv_def by (simp add: p)
  moreover have "cont_inv {} ?s'" using K(8) unfolding cont_inv_def by (simp add: p)
  ultimately show ?thesis by (simp add: kcore_def kbase_def kstat_def)
qed

lemma kcore_cancel_preempt:
  fixes s :: "'a kstate_scheme"
  assumes kc: "kcore b X Y s" and mg: "tm_magic (timers s (TM_preempt c)) = TIMER_MAGIC"
  shows "\<exists>s'. timer_cancel cpu (TM_preempt c) s = Some s' \<and> kcore b X Y s' \<and>
    timer_state.more s' = timer_state.more s \<and> cur_time s' = cur_time s \<and> timer_off (timers s' (TM_preempt c))"
proof -
  note K = kcoreD [OF kc]
  obtain s' where s': "timer_cancel cpu (TM_preempt c) s = Some s'" "timer_wf b s'"
    "timer_state.more s' = timer_state.more s" "cur_time s' = cur_time s"
    "timers s' = (timers s)(TM_preempt c := (timers s (TM_preempt c))\<lparr>tm_linked := False, periodic_time := 0,
      tm_callback := None, tm_arg := Arg_null\<rparr>)"
    using timer_cancel_ok [OF K(5) mg] by blast
  note M = timer_more_kstate [OF s'(3)]
  have "sched_inv {} s'" using K(1) sched_inv_cong [of s' s "{}"] by (simp add: M)
  moreover have "cur_inv X s'" using K(2) by (simp add: cur_inv_def M)
  moreover have "idle_inv s'" using K(3) by (simp add: idle_inv_def M)
  moreover have "preempt_inv s'" using K(4) mg unfolding preempt_inv_def by (auto simp: M s'(5) timer_off_def)
  moreover have "timers_inv s'"
    using K(6) unfolding timers_inv_def by (auto simp: M s'(5) timer_good_def split: timer_id.splits)
  moreover have "stack_inv s'" using K(7) by (simp add: stack_inv_def M)
  moreover have "cont_inv Y s'" using K(8) by (simp add: cont_inv_def M)
  ultimately have "kcore b X Y s'" using s'(2) by (simp add: kcore_def kbase_def kstat_def)
  then show ?thesis using s' by (simp add: timer_off_def)
qed

lemma thread_set_real_time_ok:
  fixes s :: "'a kstate_scheme"
  assumes inv: "kinv b s" and t: "live s t" and here: "\<And>c. current s c = Some t \<Longrightarrow> c = cpu"
  shows "\<exists>s'. thread_set_real_time cpu (Some t) s = Some (NO_ERROR, s') \<and> kinv b s' \<and>
    threads s' = (threads s)(t := (threads s t)\<lparr>t_flags := t_flags (threads s t) OR THREAD_FLAG_REAL_TIME\<rparr>) \<and>
    wqs s' = wqs s \<and> current s' = current s \<and> kstate.more s' = kstate.more s"
proof -
  let ?fl = "\<lambda>th. th\<lparr>t_flags := t_flags th OR THREAD_FLAG_REAL_TIME\<rparr>"
  have kc: "kcore b {} {} (locked cpu s)" using inv by (simp add: locked_kcore kinv_def)
  note L = THREAD_LOCK_kinv [OF inv, of cpu]
  have fin: "kinv b (THREAD_UNLOCK cpu i (upd_thread t ?fl s2))"
    if "kcore b {} {} s2" "current s cpu = Some t \<longrightarrow> timer_off (timers s2 (TM_preempt cpu))" "current s2 = current s"
    for i and s2 :: "'a kstate_scheme"
  proof -
    let ?s3 = "upd_thread t ?fl s2"
    have "timer_off (timers s2 (TM_preempt c))" if "current s2 c = Some t" for c
      using here [of c] that \<open>current s2 = current s\<close> \<open>current s cpu = Some t \<longrightarrow> _\<close> by simp
    then have "kcore b {} {} ?s3" by (rule kcore_real_time [OF that(1)])
    then show ?thesis using kcore_cong [of "THREAD_UNLOCK cpu i ?s3" ?s3] by (simp add: kinv_def THREAD_UNLOCK_def)
  qed
  show ?thesis
  proof (cases "current s cpu = Some t")
    case True
    then have "tm_magic (timers (locked cpu s) (TM_preempt cpu)) = TIMER_MAGIC"
      using kcoreD(4) [OF kc] unfolding preempt_inv_def by simp
    from kcore_cancel_preempt [OF kc this, of cpu] obtain s2 where
      s2: "timer_cancel cpu (TM_preempt cpu) (locked cpu s) = Some s2" "kcore b {} {} s2"
      "timer_state.more s2 = timer_state.more (locked cpu s)" "timer_off (timers s2 (TM_preempt cpu))" by blast
    note M = timer_more_kstate [OF s2(3)]
    let ?s' = "THREAD_UNLOCK cpu (ints_disabled s cpu) (upd_thread t ?fl s2)"
    have "kinv b ?s'" using fin [OF s2(2)] s2(4) by (simp add: M)
    moreover have "thread_set_real_time cpu (Some t) s = Some (NO_ERROR, ?s')"
      using True t s2(1) by (simp add: thread_set_real_time_def L)
    ultimately show ?thesis by (simp add: THREAD_UNLOCK_def M)
  next
    case False
    then show ?thesis using fin [OF kc, of "ints_disabled s cpu"] t
      by (simp add: thread_set_real_time_def L THREAD_UNLOCK_def)
  qed
qed

end
