(* ===== verification/Sync.thy ===== *)
theory Sync
  imports Thread_Life
begin

text \<open>
  The blocking primitives built on wait queues: \<open>kernel/mutex.c\<close>, \<open>kernel/semaphore.c\<close>,
  \<open>kernel/event.c\<close>. A call
  that blocks stops at its context switch; its tail runs when the thread is switched in again. A
  call that returns records its result in \<open>call_ret\<close> of the calling thread.
\<close>

section \<open>State\<close>

abbreviation (input) MUTEX_MAGIC :: nat where "MUTEX_MAGIC \<equiv> 0x6D757478"
abbreviation (input) SEMAPHORE_MAGIC :: nat where "SEMAPHORE_MAGIC \<equiv> 0x73656D61"
abbreviation (input) EVENT_MAGIC :: nat where "EVENT_MAGIC \<equiv> 0x65766E74"
abbreviation (input) EVENT_FLAG_AUTOUNSIGNAL :: u32 where "EVENT_FLAG_AUTOUNSIGNAL \<equiv> 1"

record mutex =
  m_magic :: nat
  holder :: "tid option"
  m_count :: int

record semaphore =
  sem_magic :: nat
  sem_count :: int

record event =
  e_magic :: nat
  signaled :: bool
  e_flags :: u32

record sync_state = kstate +
  mutexes :: "nat \<Rightarrow> mutex"
  sems :: "nat \<Rightarrow> semaphore"
  events :: "nat \<Rightarrow> event"

definition upd_mutex :: "nat \<Rightarrow> (mutex \<Rightarrow> mutex) \<Rightarrow> 'a sync_state_scheme \<Rightarrow> 'a sync_state_scheme" where
  "upd_mutex m f s = s\<lparr>mutexes := (mutexes s)(m := f (mutexes s m))\<rparr>"

definition upd_sem :: "nat \<Rightarrow> (semaphore \<Rightarrow> semaphore) \<Rightarrow> 'a sync_state_scheme \<Rightarrow> 'a sync_state_scheme" where
  "upd_sem n f s = s\<lparr>sems := (sems s)(n := f (sems s n))\<rparr>"

definition upd_event :: "nat \<Rightarrow> (event \<Rightarrow> event) \<Rightarrow> 'a sync_state_scheme \<Rightarrow> 'a sync_state_scheme" where
  "upd_event e f s = s\<lparr>events := (events s)(e := f (events s e))\<rparr>"

section \<open>Mutexes\<close>

definition mutex_init :: "nat \<Rightarrow> 'a sync_state_scheme \<Rightarrow> 'a sync_state_scheme" where
  "mutex_init m s = wait_queue_init (WQ_mutex m)
     (upd_mutex m (\<lambda>_. \<lparr>m_magic = MUTEX_MAGIC, holder = None, m_count = 0\<rparr>) s)"

definition mutex_destroy :: "nat \<Rightarrow> nat \<Rightarrow> 'a sync_state_scheme \<Rightarrow> 'a sync_state_scheme option" where
  "mutex_destroy cpu m s = do {
     t \<leftarrow> current s cpu;
     guard_that (m_magic (mutexes s m) = MUTEX_MAGIC);
     guard_that (holder (mutexes s m) = None \<or> holder (mutexes s m) = Some t);
     (i, s1) \<leftarrow> THREAD_LOCK cpu s;
     let s2 = upd_mutex m (\<lambda>x. x\<lparr>m_magic := 0, m_count := 0\<rparr>) s1;
     (sw, s3) \<leftarrow> wait_queue_destroy i cpu (WQ_mutex m) True s2;
     if sw then Some s3 else Some (THREAD_UNLOCK cpu i s3) }"

definition mutex_acquire_tail :: "nat \<Rightarrow> nat \<Rightarrow> bool \<Rightarrow> status \<Rightarrow> 'a sync_state_scheme \<Rightarrow> 'a sync_state_scheme option" where
  "mutex_acquire_tail cpu m i ret s =
     (if ret < NO_ERROR
      then end_call cpu i ret (if ret = ERR_TIMED_OUT then upd_mutex m (\<lambda>x. x\<lparr>m_count := m_count x - 1\<rparr>) s else s)
      else end_call cpu i ret (upd_mutex m (\<lambda>x. x\<lparr>holder := current s cpu\<rparr>) s))"

definition mutex_acquire_timeout :: "nat \<Rightarrow> nat \<Rightarrow> u32 \<Rightarrow> 'a sync_state_scheme \<Rightarrow> 'a sync_state_scheme option" where
  "mutex_acquire_timeout cpu m timeout s = do {
     t \<leftarrow> current s cpu;
     guard_that (m_magic (mutexes s m) = MUTEX_MAGIC);
     guard_that (holder (mutexes s m) \<noteq> Some t);
     (i, s1) \<leftarrow> THREAD_LOCK cpu s;
     let s2 = upd_mutex m (\<lambda>x. x\<lparr>m_count := m_count x + 1\<rparr>) s1;
     if m_count (mutexes s2 m) > 1 then do {
       (r, s3) \<leftarrow> wait_queue_block (C_mutex m) i cpu (WQ_mutex m) timeout s2;
       case r of None \<Rightarrow> Some s3 | Some ret \<Rightarrow> mutex_acquire_tail cpu m i ret s3 }
     else mutex_acquire_tail cpu m i NO_ERROR s2 }"

definition mutex_acquire :: "nat \<Rightarrow> nat \<Rightarrow> 'a sync_state_scheme \<Rightarrow> 'a sync_state_scheme option" where
  "mutex_acquire cpu m s = mutex_acquire_timeout cpu m INFINITE_TIME s"

definition mutex_release :: "nat \<Rightarrow> nat \<Rightarrow> 'a sync_state_scheme \<Rightarrow> 'a sync_state_scheme option" where
  "mutex_release cpu m s = do {
     t \<leftarrow> current s cpu;
     guard_that (m_magic (mutexes s m) = MUTEX_MAGIC);
     guard_that (holder (mutexes s m) = Some t);
     (i, s1) \<leftarrow> THREAD_LOCK cpu s;
     let s2 = upd_mutex m (\<lambda>x. x\<lparr>holder := None, m_count := m_count x - 1\<rparr>) s1;
     if m_count (mutexes s2 m) \<ge> 1 then do {
       (n, s3) \<leftarrow> wait_queue_wake_one (K_return i NO_ERROR) cpu (WQ_mutex m) True NO_ERROR s2;
       if n > 0 then Some s3 else end_call cpu i NO_ERROR s3 }
     else end_call cpu i NO_ERROR s2 }"

definition is_mutex_held :: "nat \<Rightarrow> nat \<Rightarrow> 'a sync_state_scheme \<Rightarrow> bool" where
  "is_mutex_held cpu m s \<longleftrightarrow> holder (mutexes s m) = current s cpu"

section \<open>Semaphores\<close>

text \<open>
  \<open>count\<close> is a 32-bit \<open>int\<close>: the initial value is converted from \<open>unsigned int\<close>, and every increment and decrement
  stays at that width (two's complement).
\<close>

definition int32 :: "int \<Rightarrow> int" where
  "int32 x = (x + 2 ^ 31) mod 2 ^ 32 - 2 ^ 31"

definition sem_init :: "nat \<Rightarrow> u32 \<Rightarrow> 'a sync_state_scheme \<Rightarrow> 'a sync_state_scheme" where
  "sem_init n v s = wait_queue_init (WQ_sem n) (upd_sem n (\<lambda>_. \<lparr>sem_magic = SEMAPHORE_MAGIC, sem_count = int32 (uint v)\<rparr>) s)"

definition sem_destroy :: "nat \<Rightarrow> nat \<Rightarrow> 'a sync_state_scheme \<Rightarrow> 'a sync_state_scheme option" where
  "sem_destroy cpu n s = do {
     (i, s1) \<leftarrow> THREAD_LOCK cpu s;
     (sw, s2) \<leftarrow> wait_queue_destroy i cpu (WQ_sem n) True (upd_sem n (\<lambda>x. x\<lparr>sem_count := 0\<rparr>) s1);
     if sw then Some s2 else Some (THREAD_UNLOCK cpu i s2) }"

definition sem_post :: "nat \<Rightarrow> nat \<Rightarrow> bool \<Rightarrow> 'a sync_state_scheme \<Rightarrow> 'a sync_state_scheme option" where
  "sem_post cpu n resched s = do {
     (i, s1) \<leftarrow> THREAD_LOCK cpu s;
     let s2 = upd_sem n (\<lambda>x. x\<lparr>sem_count := int32 (sem_count x + 1)\<rparr>) s1;
     if sem_count (sems s2 n) \<le> 0 then do {
       (ret, s3) \<leftarrow> wait_queue_wake_one (K_return i 1) cpu (WQ_sem n) resched NO_ERROR s2;
       if resched \<and> ret > 0 then Some s3 else end_call cpu i ret s3 }
     else end_call cpu i 0 s2 }"

definition sem_wait :: "nat \<Rightarrow> nat \<Rightarrow> 'a sync_state_scheme \<Rightarrow> 'a sync_state_scheme option" where
  "sem_wait cpu n s = do {
     (i, s1) \<leftarrow> THREAD_LOCK cpu s;
     let s2 = upd_sem n (\<lambda>x. x\<lparr>sem_count := int32 (sem_count x - 1)\<rparr>) s1;
     if sem_count (sems s2 n) < 0 then do {
       (r, s3) \<leftarrow> wait_queue_block (C_sem_wait n) i cpu (WQ_sem n) INFINITE_TIME s2;
       case r of None \<Rightarrow> Some s3 | Some ret \<Rightarrow> end_call cpu i ret s3 }
     else end_call cpu i NO_ERROR s2 }"

definition sem_trywait :: "nat \<Rightarrow> nat \<Rightarrow> 'a sync_state_scheme \<Rightarrow> 'a sync_state_scheme option" where
  "sem_trywait cpu n s = do {
     (i, s1) \<leftarrow> THREAD_LOCK cpu s;
     if sem_count (sems s1 n) \<le> 0 then end_call cpu i ERR_NOT_READY s1
     else end_call cpu i NO_ERROR (upd_sem n (\<lambda>x. x\<lparr>sem_count := int32 (sem_count x - 1)\<rparr>) s1) }"

definition sem_timedwait_tail :: "nat \<Rightarrow> nat \<Rightarrow> bool \<Rightarrow> status \<Rightarrow> 'a sync_state_scheme \<Rightarrow> 'a sync_state_scheme option" where
  "sem_timedwait_tail cpu n i ret s =
     end_call cpu i ret
       (if ret < NO_ERROR \<and> ret = ERR_TIMED_OUT then upd_sem n (\<lambda>x. x\<lparr>sem_count := int32 (sem_count x + 1)\<rparr>) s else s)"

definition sem_timedwait :: "nat \<Rightarrow> nat \<Rightarrow> u32 \<Rightarrow> 'a sync_state_scheme \<Rightarrow> 'a sync_state_scheme option" where
  "sem_timedwait cpu n timeout s = do {
     (i, s1) \<leftarrow> THREAD_LOCK cpu s;
     let s2 = upd_sem n (\<lambda>x. x\<lparr>sem_count := int32 (sem_count x - 1)\<rparr>) s1;
     if sem_count (sems s2 n) < 0 then do {
       (r, s3) \<leftarrow> wait_queue_block (C_sem_timedwait n) i cpu (WQ_sem n) timeout s2;
       case r of None \<Rightarrow> Some s3 | Some ret \<Rightarrow> sem_timedwait_tail cpu n i ret s3 }
     else sem_timedwait_tail cpu n i NO_ERROR s2 }"

section \<open>Events\<close>

definition event_init :: "nat \<Rightarrow> bool \<Rightarrow> u32 \<Rightarrow> 'a sync_state_scheme \<Rightarrow> 'a sync_state_scheme" where
  "event_init e initial flags s = wait_queue_init (WQ_event e)
     (upd_event e (\<lambda>_. \<lparr>e_magic = EVENT_MAGIC, signaled = initial, e_flags = flags\<rparr>) s)"

definition event_destroy :: "nat \<Rightarrow> nat \<Rightarrow> 'a sync_state_scheme \<Rightarrow> 'a sync_state_scheme option" where
  "event_destroy cpu e s = do {
     guard_that (e_magic (events s e) = EVENT_MAGIC);
     (i, s1) \<leftarrow> THREAD_LOCK cpu s;
     let s2 = upd_event e (\<lambda>_. \<lparr>e_magic = 0, signaled = False, e_flags = 0\<rparr>) s1;
     (sw, s3) \<leftarrow> wait_queue_destroy i cpu (WQ_event e) True s2;
     if sw then Some s3 else Some (THREAD_UNLOCK cpu i s3) }"

definition event_wait_timeout :: "nat \<Rightarrow> nat \<Rightarrow> u32 \<Rightarrow> 'a sync_state_scheme \<Rightarrow> 'a sync_state_scheme option" where
  "event_wait_timeout cpu e timeout s = do {
     guard_that (e_magic (events s e) = EVENT_MAGIC);
     (i, s1) \<leftarrow> THREAD_LOCK cpu s;
     if signaled (events s1 e)
     then end_call cpu i NO_ERROR
       (if e_flags (events s1 e) AND EVENT_FLAG_AUTOUNSIGNAL \<noteq> 0
        then upd_event e (\<lambda>x. x\<lparr>signaled := False\<rparr>) s1 else s1)
     else do {
       (r, s2) \<leftarrow> wait_queue_block (C_event e) i cpu (WQ_event e) timeout s1;
       case r of None \<Rightarrow> Some s2 | Some ret \<Rightarrow> end_call cpu i ret s2 } }"

definition event_signal :: "nat \<Rightarrow> nat \<Rightarrow> bool \<Rightarrow> 'a sync_state_scheme \<Rightarrow> 'a sync_state_scheme option" where
  "event_signal cpu e reschedule s = do {
     guard_that (e_magic (events s e) = EVENT_MAGIC);
     (i, s1) \<leftarrow> THREAD_LOCK cpu s;
     if \<not> signaled (events s1 e) then
       if e_flags (events s1 e) AND EVENT_FLAG_AUTOUNSIGNAL \<noteq> 0 then do {
         (n, s2) \<leftarrow> wait_queue_wake_one (K_return i NO_ERROR) cpu (WQ_event e) reschedule NO_ERROR s1;
         if n \<le> 0 then end_call cpu i NO_ERROR (upd_event e (\<lambda>x. x\<lparr>signaled := True\<rparr>) s2)
         else if reschedule then Some s2 else end_call cpu i NO_ERROR s2 }
       else do {
         let s2 = upd_event e (\<lambda>x. x\<lparr>signaled := True\<rparr>) s1;
         (n, s3) \<leftarrow> wait_queue_wake_all (K_return i NO_ERROR) cpu (WQ_event e) reschedule NO_ERROR s2;
         if reschedule \<and> n > 0 then Some s3 else end_call cpu i NO_ERROR s3 }
     else end_call cpu i NO_ERROR s1 }"

definition event_unsignal :: "nat \<Rightarrow> 'a sync_state_scheme \<Rightarrow> 'a sync_state_scheme option" where
  "event_unsignal e s = do {
     guard_that (e_magic (events s e) = EVENT_MAGIC);
     Some (upd_event e (\<lambda>x. x\<lparr>signaled := False\<rparr>) s) }"

end
