(* ===== verification/Sync_Spec.thy ===== *)
theory Sync_Spec
  imports Sync
begin

text \<open>
  An abstract machine for the blocking calls: what every thread is doing (its call in progress,
  whether and where it waits, the result of its wait), which wait queues are initialised, and the
  mutexes, semaphores and events. Run queues, priorities, cpus, timers and time are abstracted away:
  any thread may move at any time and any timed wait may time out. The safety properties of the
  synchronisation objects are invariants of this machine; the kernel refines it.
\<close>

section \<open>State\<close>

record acall =
  a_live :: bool
  a_cont :: cont
  a_wait :: "wqid option"
  a_ret :: status
  a_dead :: bool
  a_det :: bool

record astate =
  a_calls :: "tid \<Rightarrow> acall"
  a_wq :: "wqid \<Rightarrow> bool"
  a_mut :: "nat \<Rightarrow> mutex"
  a_sem :: "nat \<Rightarrow> semaphore"
  a_ev :: "nat \<Rightarrow> event"

primrec wq_of :: "wq_caller \<Rightarrow> wqid" where
  "wq_of (C_join t w) = WQ_retcode t"
| "wq_of (C_mutex m) = WQ_mutex m"
| "wq_of (C_sem_wait n) = WQ_sem n"
| "wq_of (C_sem_timedwait n) = WQ_sem n"
| "wq_of (C_event e) = WQ_event e"
| "wq_of (C_port_read p) = WQ_read_port p"
| "wq_of (C_group_read g) = WQ_port_group g"

text \<open>A thread that can start a call; a thread in a call on \<open>c\<close>; a thread that closes queue \<open>w\<close>.\<close>

definition idle_call :: "acall \<Rightarrow> bool" where
  "idle_call x \<longleftrightarrow> a_live x \<and> \<not> a_dead x \<and> a_cont x = K_none"

definition call_of :: "cont \<Rightarrow> wq_caller option" where
  "call_of k = (case k of K_wq_block _ c _ \<Rightarrow> Some c | _ \<Rightarrow> None)"

definition call_wq :: "cont \<Rightarrow> wqid option" where
  "call_wq k = (case k of K_wq_block _ c _ \<Rightarrow> Some (wq_of c) | _ \<Rightarrow> None)"

definition closes_of :: "cont \<Rightarrow> wqid option" where
  "closes_of k = (case k of K_wq_destroy w _ \<Rightarrow> Some w | _ \<Rightarrow> None)"

definition in_call :: "wq_caller \<Rightarrow> acall \<Rightarrow> bool" where
  "in_call c x \<longleftrightarrow> a_live x \<and> call_of (a_cont x) = Some c"

definition closing :: "wqid \<Rightarrow> acall \<Rightarrow> bool" where
  "closing w x \<longleftrightarrow> a_live x \<and> closes_of (a_cont x) = Some w"

definition waits_on :: "wqid \<Rightarrow> acall \<Rightarrow> bool" where
  "waits_on w x \<longleftrightarrow> a_live x \<and> a_wait x = Some w"

definition set_cont :: "tid \<Rightarrow> cont \<Rightarrow> (tid \<Rightarrow> acall) \<Rightarrow> tid \<Rightarrow> acall" where
  "set_cont t k c = c(t := (c t)\<lparr>a_cont := k\<rparr>)"

definition block :: "tid \<Rightarrow> wqid \<Rightarrow> cont \<Rightarrow> (tid \<Rightarrow> acall) \<Rightarrow> tid \<Rightarrow> acall" where
  "block t w k c = c(t := (c t)\<lparr>a_cont := k, a_wait := Some w, a_ret := NO_ERROR\<rparr>)"

definition wake :: "tid set \<Rightarrow> status \<Rightarrow> (tid \<Rightarrow> acall) \<Rightarrow> tid \<Rightarrow> acall" where
  "wake T err c = (\<lambda>u. if u \<in> T then (c u)\<lparr>a_wait := None, a_ret := err\<rparr> else c u)"

definition waiters :: "wqid \<Rightarrow> (tid \<Rightarrow> acall) \<Rightarrow> tid set" where
  "waiters w c = {u. waits_on w (c u)}"

text \<open>A thread struct that is not in use.\<close>

definition no_call :: acall where
  "no_call = \<lparr>a_live = False, a_cont = K_none, a_wait = None, a_ret = 0, a_dead = False, a_det = False\<rparr>"

definition kill :: "tid \<Rightarrow> (tid \<Rightarrow> acall) \<Rightarrow> tid \<Rightarrow> acall" where
  "kill t c = c(t := no_call)"

definition die :: "tid \<Rightarrow> (tid \<Rightarrow> acall) \<Rightarrow> tid \<Rightarrow> acall" where
  "die t c = c(t := (c t)\<lparr>a_dead := True\<rparr>)"

definition set_det :: "tid \<Rightarrow> (tid \<Rightarrow> acall) \<Rightarrow> tid \<Rightarrow> acall" where
  "set_det t c = c(t := (c t)\<lparr>a_det := True\<rparr>)"

definition spawn :: "tid \<Rightarrow> status \<Rightarrow> (tid \<Rightarrow> acall) \<Rightarrow> tid \<Rightarrow> acall" where
  "spawn t r c = c(t := \<lparr>a_live = True, a_cont = K_start, a_wait = None, a_ret = r, a_dead = False, a_det = False\<rparr>)"

text \<open>How a call that does not wait any longer leaves the caller: back from the call, or switched out.\<close>

definition leaves :: "cont \<Rightarrow> bool" where
  "leaves k \<longleftrightarrow> (case k of K_none \<Rightarrow> True | K_unlock i \<Rightarrow> True | K_return i r \<Rightarrow> True | _ \<Rightarrow> False)"

section \<open>Steps\<close>

text \<open>
  Threads: switching out and back in, timeouts, the end of a destruction, creation, exit, join and
  detach.
\<close>

inductive thread_astep :: "astate \<Rightarrow> astate \<Rightarrow> bool" where
  switch: "idle_call (a_calls A t) \<Longrightarrow> leaves k \<Longrightarrow> thread_astep A (A\<lparr>a_calls := set_cont t k (a_calls A)\<rparr>)"
| resume: "a_live (a_calls A t) \<Longrightarrow> a_cont (a_calls A t) = K_start \<or> leaves (a_cont (a_calls A t)) \<Longrightarrow>
    thread_astep A (A\<lparr>a_calls := set_cont t K_none (a_calls A)\<rparr>)"
| timeout: "waits_on w (a_calls A t) \<Longrightarrow> a_cont (a_calls A t) = K_wq_block tmo c i \<Longrightarrow> tmo \<noteq> INFINITE_TIME \<Longrightarrow>
    thread_astep A (A\<lparr>a_calls := wake {t} ERR_TIMED_OUT (a_calls A)\<rparr>)"
| closed: "closing w (a_calls A t) \<Longrightarrow>
    thread_astep A (A\<lparr>a_calls := set_cont t K_none (a_calls A), a_wq := (a_wq A)(w := False)\<rparr>)"
| create: "\<not> a_live (a_calls A t) \<Longrightarrow> \<forall>u w. \<not> in_call (C_join t w) (a_calls A u) \<Longrightarrow>
    thread_astep A (A\<lparr>a_calls := spawn t r (a_calls A), a_wq := (a_wq A)(WQ_retcode t := True)\<rparr>)"
| exit: "idle_call (a_calls A t) \<Longrightarrow> \<not> a_det (a_calls A t) \<Longrightarrow>
    thread_astep A (A\<lparr>a_calls := wake (waiters (WQ_retcode t) (a_calls A)) NO_ERROR (die t (a_calls A))\<rparr>)"
| exit_detached: "idle_call (a_calls A t) \<Longrightarrow> a_det (a_calls A t) \<Longrightarrow>
    thread_astep A (A\<lparr>a_calls := kill t (a_calls A)\<rparr>)"
| join_block: "idle_call (a_calls A t) \<Longrightarrow> a_live (a_calls A u) \<Longrightarrow> \<not> a_dead (a_calls A u) \<Longrightarrow> \<not> a_det (a_calls A u) \<Longrightarrow>
    \<forall>v w. \<not> in_call (C_join u w) (a_calls A v) \<Longrightarrow>
    thread_astep A (A\<lparr>a_calls := block t (WQ_retcode u) (K_wq_block tmo (C_join u w) i) (a_calls A)\<rparr>)"
| join_reap: "idle_call (a_calls A t) \<or> in_call (C_join u w) (a_calls A t) \<and> a_wait (a_calls A t) = None \<and>
        a_ret (a_calls A t) \<ge> 0 \<Longrightarrow>
    a_live (a_calls A u) \<Longrightarrow> a_dead (a_calls A u) \<Longrightarrow>
    \<forall>v x. v \<noteq> t \<longrightarrow> in_call (C_join u x) (a_calls A v) \<longrightarrow> a_ret (a_calls A v) < 0 \<Longrightarrow>
    thread_astep A (A\<lparr>a_calls := kill u (set_cont t K_none (a_calls A))\<rparr>)"
| join_fail: "in_call (C_join u w) (a_calls A t) \<Longrightarrow> a_wait (a_calls A t) = None \<Longrightarrow> a_ret (a_calls A t) < 0 \<Longrightarrow>
    thread_astep A (A\<lparr>a_calls := set_cont t K_none (a_calls A)\<rparr>)"
| detach: "a_live (a_calls A u) \<Longrightarrow> \<not> a_dead (a_calls A u) \<Longrightarrow>
    thread_astep A (A\<lparr>a_calls := set_det u (wake (waiters (WQ_retcode u) (a_calls A)) ERR_THREAD_DETACHED (a_calls A))\<rparr>)"

text \<open>Mutexes.\<close>

definition fresh_object :: "wqid \<Rightarrow> (tid \<Rightarrow> acall) \<Rightarrow> bool" where
  "fresh_object w c \<longleftrightarrow> (\<forall>u. \<not> closing w (c u) \<and> (\<forall>k. wq_of k = w \<longrightarrow> \<not> in_call k (c u)))"

definition upd_mut :: "nat \<Rightarrow> (mutex \<Rightarrow> mutex) \<Rightarrow> astate \<Rightarrow> astate" where
  "upd_mut m f A = A\<lparr>a_mut := (a_mut A)(m := f (a_mut A m))\<rparr>"

inductive mutex_astep :: "astate \<Rightarrow> astate \<Rightarrow> bool" where
  m_init: "fresh_object (WQ_mutex m) (a_calls A) \<Longrightarrow>
    mutex_astep A (upd_mut m (\<lambda>_. \<lparr>m_magic = MUTEX_MAGIC, holder = None, m_count = 0\<rparr>)
      (A\<lparr>a_wq := (a_wq A)(WQ_mutex m := True)\<rparr>))"
| m_acquire: "idle_call (a_calls A t) \<Longrightarrow> m_magic (a_mut A m) = MUTEX_MAGIC \<Longrightarrow> holder (a_mut A m) \<noteq> Some t \<Longrightarrow>
    m_count (a_mut A m) < 1 \<Longrightarrow>
    mutex_astep A (upd_mut m (\<lambda>x. x\<lparr>m_count := m_count x + 1, holder := Some t\<rparr>) A)"
| m_block: "idle_call (a_calls A t) \<Longrightarrow> m_magic (a_mut A m) = MUTEX_MAGIC \<Longrightarrow> holder (a_mut A m) \<noteq> Some t \<Longrightarrow>
    m_count (a_mut A m) \<ge> 1 \<Longrightarrow>
    mutex_astep A (upd_mut m (\<lambda>x. x\<lparr>m_count := m_count x + 1\<rparr>)
      (A\<lparr>a_calls := block t (WQ_mutex m) (K_wq_block tmo (C_mutex m) i) (a_calls A)\<rparr>))"
| m_got: "in_call (C_mutex m) (a_calls A t) \<Longrightarrow> a_wait (a_calls A t) = None \<Longrightarrow> a_ret (a_calls A t) \<ge> 0 \<Longrightarrow>
    mutex_astep A (upd_mut m (\<lambda>x. x\<lparr>holder := Some t\<rparr>) (A\<lparr>a_calls := set_cont t K_none (a_calls A)\<rparr>))"
| m_fail: "in_call (C_mutex m) (a_calls A t) \<Longrightarrow> a_wait (a_calls A t) = None \<Longrightarrow> a_ret (a_calls A t) < 0 \<Longrightarrow>
    mutex_astep A (upd_mut m (\<lambda>x. if a_ret (a_calls A t) = ERR_TIMED_OUT then x\<lparr>m_count := m_count x - 1\<rparr> else x)
      (A\<lparr>a_calls := set_cont t K_none (a_calls A)\<rparr>))"
| m_release: "idle_call (a_calls A t) \<Longrightarrow> m_magic (a_mut A m) = MUTEX_MAGIC \<Longrightarrow> holder (a_mut A m) = Some t \<Longrightarrow>
    m_count (a_mut A m) - 1 < 1 \<or> waiters (WQ_mutex m) (a_calls A) = {} \<Longrightarrow>
    mutex_astep A (upd_mut m (\<lambda>x. x\<lparr>holder := None, m_count := m_count x - 1\<rparr>) A)"
| m_release_wake: "idle_call (a_calls A t) \<Longrightarrow> m_magic (a_mut A m) = MUTEX_MAGIC \<Longrightarrow> holder (a_mut A m) = Some t \<Longrightarrow>
    m_count (a_mut A m) - 1 \<ge> 1 \<Longrightarrow> u \<in> waiters (WQ_mutex m) (a_calls A) \<Longrightarrow> leaves k \<Longrightarrow>
    mutex_astep A (upd_mut m (\<lambda>x. x\<lparr>holder := None, m_count := m_count x - 1\<rparr>)
      (A\<lparr>a_calls := set_cont t k (wake {u} NO_ERROR (a_calls A))\<rparr>))"
| m_destroy: "idle_call (a_calls A t) \<Longrightarrow> m_magic (a_mut A m) = MUTEX_MAGIC \<Longrightarrow> waiters (WQ_mutex m) (a_calls A) = {} \<Longrightarrow>
    mutex_astep A (upd_mut m (\<lambda>x. x\<lparr>m_magic := 0, m_count := 0\<rparr>) (A\<lparr>a_wq := (a_wq A)(WQ_mutex m := False)\<rparr>))"
| m_destroy_wake: "idle_call (a_calls A t) \<Longrightarrow> m_magic (a_mut A m) = MUTEX_MAGIC \<Longrightarrow>
    mutex_astep A (upd_mut m (\<lambda>x. x\<lparr>m_magic := 0, m_count := 0\<rparr>)
      (A\<lparr>a_calls := set_cont t (K_wq_destroy (WQ_mutex m) i)
           (wake (waiters (WQ_mutex m) (a_calls A)) ERR_OBJECT_DESTROYED (a_calls A))\<rparr>))"

text \<open>
  Semaphores. The threads with a call on a queue in progress, waiting or woken with a result; the
  claims on a semaphore, which are its waiters that have not been granted a token (a waiter that timed
  out gives its claim back when it runs again); and its tokens, the count plus the claims.
\<close>

datatype pending = Waiting | Woken status

definition pend :: "wqid \<Rightarrow> (tid \<Rightarrow> acall) \<Rightarrow> tid \<Rightarrow> pending option" where
  "pend w c u = (if a_live (c u) \<and> call_wq (a_cont (c u)) = Some w
     then Some (if a_wait (c u) = None then Woken (a_ret (c u)) else Waiting) else None)"

definition sem_claims :: "(tid \<rightharpoonup> pending) \<Rightarrow> tid set" where
  "sem_claims p = {u. p u = Some Waiting \<or> p u = Some (Woken ERR_TIMED_OUT)}"

definition tokens :: "semaphore \<Rightarrow> (tid \<rightharpoonup> pending) \<Rightarrow> int" where
  "tokens x p = sem_count x + int (card (sem_claims p))"

text \<open>
  A count has the 32 bits of the code's \<open>count\<close>; the steps that could leave them are only taken within its
  bounds.
\<close>

definition upd_asem :: "nat \<Rightarrow> int \<Rightarrow> astate \<Rightarrow> astate" where
  "upd_asem n d A = A\<lparr>a_sem := (a_sem A)(n := (a_sem A n)\<lparr>sem_count := int32 (sem_count (a_sem A n) + d)\<rparr>)\<rparr>"

definition w_open :: "wqid \<Rightarrow> (wqid \<Rightarrow> bool) \<Rightarrow> (tid \<Rightarrow> acall) \<Rightarrow> bool" where
  "w_open w q c \<longleftrightarrow> q w \<and> (\<forall>u. \<not> closing w (c u))"

inductive sem_astep :: "astate \<Rightarrow> astate \<Rightarrow> bool" where
  s_init: "fresh_object (WQ_sem n) (a_calls A) \<Longrightarrow> 0 \<le> v \<Longrightarrow> v < 2 ^ 31 \<Longrightarrow>
    sem_astep A (A\<lparr>a_sem := (a_sem A)(n := \<lparr>sem_magic = SEMAPHORE_MAGIC, sem_count = v\<rparr>), a_wq := (a_wq A)(WQ_sem n := True)\<rparr>)"
| s_take: "idle_call (a_calls A t) \<Longrightarrow> w_open (WQ_sem n) (a_wq A) (a_calls A) \<Longrightarrow> sem_count (a_sem A n) \<ge> 1 \<Longrightarrow> sem_astep A (upd_asem n (-1) A)"
| s_block: "idle_call (a_calls A t) \<Longrightarrow> w_open (WQ_sem n) (a_wq A) (a_calls A) \<Longrightarrow> sem_count (a_sem A n) < 1 \<Longrightarrow>
    - (2 ^ 31) < sem_count (a_sem A n) \<Longrightarrow> c = C_sem_wait n \<and> tmo = INFINITE_TIME \<or> c = C_sem_timedwait n \<Longrightarrow>
    sem_astep A (upd_asem n (-1) (A\<lparr>a_calls := block t (WQ_sem n) (K_wq_block tmo c i) (a_calls A)\<rparr>))"
| s_done: "in_call (C_sem_wait n) (a_calls A t) \<or> in_call (C_sem_timedwait n) (a_calls A t) \<and> a_ret (a_calls A t) \<noteq> ERR_TIMED_OUT \<Longrightarrow>
    a_wait (a_calls A t) = None \<Longrightarrow> sem_astep A (A\<lparr>a_calls := set_cont t K_none (a_calls A)\<rparr>)"
| s_fail: "in_call (C_sem_timedwait n) (a_calls A t) \<Longrightarrow> a_wait (a_calls A t) = None \<Longrightarrow> a_ret (a_calls A t) = ERR_TIMED_OUT \<Longrightarrow>
    sem_astep A (upd_asem n 1 (A\<lparr>a_calls := set_cont t K_none (a_calls A)\<rparr>))"
| s_post: "idle_call (a_calls A t) \<Longrightarrow> w_open (WQ_sem n) (a_wq A) (a_calls A) \<Longrightarrow>
    sem_count (a_sem A n) \<ge> 0 \<or> waiters (WQ_sem n) (a_calls A) = {} \<Longrightarrow>
    tokens (a_sem A n) (pend (WQ_sem n) (a_calls A)) < 2 ^ 31 - 1 \<Longrightarrow> sem_astep A (upd_asem n 1 A)"
| s_post_wake: "idle_call (a_calls A t) \<Longrightarrow> w_open (WQ_sem n) (a_wq A) (a_calls A) \<Longrightarrow> sem_count (a_sem A n) < 0 \<Longrightarrow>
    u \<in> waiters (WQ_sem n) (a_calls A) \<Longrightarrow> leaves k \<Longrightarrow>
    sem_astep A (upd_asem n 1 (A\<lparr>a_calls := set_cont t k (wake {u} NO_ERROR (a_calls A))\<rparr>))"
| s_destroy: "idle_call (a_calls A t) \<Longrightarrow> w_open (WQ_sem n) (a_wq A) (a_calls A) \<Longrightarrow> waiters (WQ_sem n) (a_calls A) = {} \<Longrightarrow>
    sem_astep A (A\<lparr>a_sem := (a_sem A)(n := (a_sem A n)\<lparr>sem_count := 0\<rparr>), a_wq := (a_wq A)(WQ_sem n := False)\<rparr>)"
| s_destroy_wake: "idle_call (a_calls A t) \<Longrightarrow> w_open (WQ_sem n) (a_wq A) (a_calls A) \<Longrightarrow>
    sem_astep A (A\<lparr>a_sem := (a_sem A)(n := (a_sem A n)\<lparr>sem_count := 0\<rparr>),
      a_calls := set_cont t (K_wq_destroy (WQ_sem n) i)
           (wake (waiters (WQ_sem n) (a_calls A)) ERR_OBJECT_DESTROYED (a_calls A))\<rparr>)"

text \<open>Events.\<close>

definition upd_ev :: "nat \<Rightarrow> (event \<Rightarrow> event) \<Rightarrow> astate \<Rightarrow> astate" where
  "upd_ev e f A = A\<lparr>a_ev := (a_ev A)(e := f (a_ev A e))\<rparr>"

inductive event_astep :: "astate \<Rightarrow> astate \<Rightarrow> bool" where
  e_init: "fresh_object (WQ_event e) (a_calls A) \<Longrightarrow>
    event_astep A (upd_ev e (\<lambda>_. \<lparr>e_magic = EVENT_MAGIC, signaled = b, e_flags = fl\<rparr>)
      (A\<lparr>a_wq := (a_wq A)(WQ_event e := True)\<rparr>))"
| e_pass: "idle_call (a_calls A t) \<Longrightarrow> e_magic (a_ev A e) = EVENT_MAGIC \<Longrightarrow> signaled (a_ev A e) \<Longrightarrow>
    event_astep A (upd_ev e (\<lambda>x. if e_flags x AND EVENT_FLAG_AUTOUNSIGNAL \<noteq> 0 then x\<lparr>signaled := False\<rparr> else x) A)"
| e_block: "idle_call (a_calls A t) \<Longrightarrow> e_magic (a_ev A e) = EVENT_MAGIC \<Longrightarrow> \<not> signaled (a_ev A e) \<Longrightarrow>
    event_astep A (A\<lparr>a_calls := block t (WQ_event e) (K_wq_block tmo (C_event e) i) (a_calls A)\<rparr>)"
| e_done: "in_call (C_event e) (a_calls A t) \<Longrightarrow> a_wait (a_calls A t) = None \<Longrightarrow>
    event_astep A (A\<lparr>a_calls := set_cont t K_none (a_calls A)\<rparr>)"
| e_signal: "idle_call (a_calls A t) \<Longrightarrow> e_magic (a_ev A e) = EVENT_MAGIC \<Longrightarrow> waiters (WQ_event e) (a_calls A) = {} \<Longrightarrow>
    event_astep A (upd_ev e (\<lambda>x. x\<lparr>signaled := True\<rparr>) A)"
| e_signal_one: "idle_call (a_calls A t) \<Longrightarrow> e_magic (a_ev A e) = EVENT_MAGIC \<Longrightarrow> \<not> signaled (a_ev A e) \<Longrightarrow>
    e_flags (a_ev A e) AND EVENT_FLAG_AUTOUNSIGNAL \<noteq> 0 \<Longrightarrow> u \<in> waiters (WQ_event e) (a_calls A) \<Longrightarrow> leaves k \<Longrightarrow>
    event_astep A (A\<lparr>a_calls := set_cont t k (wake {u} NO_ERROR (a_calls A))\<rparr>)"
| e_signal_all: "idle_call (a_calls A t) \<Longrightarrow> e_magic (a_ev A e) = EVENT_MAGIC \<Longrightarrow> \<not> signaled (a_ev A e) \<Longrightarrow>
    e_flags (a_ev A e) AND EVENT_FLAG_AUTOUNSIGNAL = 0 \<Longrightarrow> leaves k \<Longrightarrow>
    event_astep A (upd_ev e (\<lambda>x. x\<lparr>signaled := True\<rparr>)
      (A\<lparr>a_calls := set_cont t k (wake (waiters (WQ_event e) (a_calls A)) NO_ERROR (a_calls A))\<rparr>))"
| e_unsignal: "e_magic (a_ev A e) = EVENT_MAGIC \<Longrightarrow> event_astep A (upd_ev e (\<lambda>x. x\<lparr>signaled := False\<rparr>) A)"
| e_destroy: "idle_call (a_calls A t) \<Longrightarrow> e_magic (a_ev A e) = EVENT_MAGIC \<Longrightarrow> waiters (WQ_event e) (a_calls A) = {} \<Longrightarrow>
    event_astep A (upd_ev e (\<lambda>_. \<lparr>e_magic = 0, signaled = False, e_flags = 0\<rparr>) (A\<lparr>a_wq := (a_wq A)(WQ_event e := False)\<rparr>))"
| e_destroy_wake: "idle_call (a_calls A t) \<Longrightarrow> e_magic (a_ev A e) = EVENT_MAGIC \<Longrightarrow>
    event_astep A (upd_ev e (\<lambda>_. \<lparr>e_magic = 0, signaled = False, e_flags = 0\<rparr>)
      (A\<lparr>a_calls := set_cont t (K_wq_destroy (WQ_event e) i)
           (wake (waiters (WQ_event e) (a_calls A)) ERR_OBJECT_DESTROYED (a_calls A))\<rparr>))"

definition astep :: "astate \<Rightarrow> astate \<Rightarrow> bool" where
  "astep A B \<longleftrightarrow> thread_astep A B \<or> mutex_astep A B \<or> sem_astep A B \<or> event_astep A B"

end
