(* ===== verification/Sync_Safety.thy ===== *)
theory Sync_Safety
  imports Sync_Spec
begin

text \<open>
  The invariants of the abstract machine of \<open>Sync_Spec\<close>: consistency of the calls with the wait
  queues, ownership of mutexes, tokens of semaphores, waiters of events and joiners of threads.
\<close>

section \<open>The effect of the updates on a call\<close>

named_theorems call_simps

lemma cont_kinds [simp]:
  "leaves K_none" "\<not> leaves K_start" "\<not> leaves (K_wq_block tmo c i)" "\<not> leaves (K_wq_destroy w i)"
  "call_of K_none = None" "call_of K_start = None" "call_of (K_unlock i) = None" "call_of (K_return i r) = None"
  "call_of (K_wq_block tmo c i) = Some c" "call_of (K_wq_destroy w i) = None"
  "closes_of K_none = None" "closes_of K_start = None" "closes_of (K_unlock i) = None" "closes_of (K_return i r) = None"
  "closes_of (K_wq_block tmo c i) = None" "closes_of (K_wq_destroy w i) = Some w"
  "call_wq K_none = None" "call_wq K_start = None" "call_wq (K_unlock i) = None" "call_wq (K_return i r) = None"
  "call_wq (K_wq_block tmo c i) = Some (wq_of c)" "call_wq (K_wq_destroy w i) = None"
  by (simp_all add: leaves_def call_of_def closes_of_def call_wq_def)

lemma leaves_no_call [simp]: "leaves k \<Longrightarrow> call_of k = None" "leaves k \<Longrightarrow> closes_of k = None" "leaves k \<Longrightarrow> call_wq k = None"
  by (auto simp: leaves_def call_of_def closes_of_def call_wq_def split: cont.splits)

lemma call_wq_call: "call_of k = Some c \<Longrightarrow> call_wq k = Some (wq_of c)" "closes_of k = Some w \<Longrightarrow> call_wq k = None"
  "call_of k = Some c \<Longrightarrow> closes_of k = None"
  by (auto simp: call_of_def closes_of_def call_wq_def split: cont.splits)

lemmas update_defs = set_cont_def block_def wake_def no_call_def kill_def die_def set_det_def spawn_def

lemma in_call_upd [call_simps]:
  "in_call c (set_cont t k cs u) \<longleftrightarrow> (if u = t then a_live (cs t) \<and> call_of k = Some c else in_call c (cs u))"
  "in_call c (block t w k cs u) \<longleftrightarrow> (if u = t then a_live (cs t) \<and> call_of k = Some c else in_call c (cs u))"
  "in_call c (wake T err cs u) \<longleftrightarrow> in_call c (cs u)" "in_call c (kill t cs u) \<longleftrightarrow> u \<noteq> t \<and> in_call c (cs u)"
  "in_call c (die t cs u) \<longleftrightarrow> in_call c (cs u)" "in_call c (set_det t cs u) \<longleftrightarrow> in_call c (cs u)"
  "in_call c (spawn t r cs u) \<longleftrightarrow> u \<noteq> t \<and> in_call c (cs u)"
  by (auto simp: in_call_def update_defs)

lemma closing_upd [call_simps]:
  "closing w (set_cont t k cs u) \<longleftrightarrow> (if u = t then a_live (cs t) \<and> closes_of k = Some w else closing w (cs u))"
  "closing w (block t v k cs u) \<longleftrightarrow> (if u = t then a_live (cs t) \<and> closes_of k = Some w else closing w (cs u))"
  "closing w (wake T err cs u) \<longleftrightarrow> closing w (cs u)" "closing w (kill t cs u) \<longleftrightarrow> u \<noteq> t \<and> closing w (cs u)"
  "closing w (die t cs u) \<longleftrightarrow> closing w (cs u)" "closing w (set_det t cs u) \<longleftrightarrow> closing w (cs u)"
  "closing w (spawn t r cs u) \<longleftrightarrow> u \<noteq> t \<and> closing w (cs u)"
  by (auto simp: closing_def update_defs)

lemma waits_on_upd [call_simps]:
  "waits_on w (set_cont t k cs u) \<longleftrightarrow> waits_on w (cs u)"
  "waits_on w (block t v k cs u) \<longleftrightarrow> (if u = t then a_live (cs t) \<and> v = w else waits_on w (cs u))"
  "waits_on w (wake T err cs u) \<longleftrightarrow> u \<notin> T \<and> waits_on w (cs u)" "waits_on w (kill t cs u) \<longleftrightarrow> u \<noteq> t \<and> waits_on w (cs u)"
  "waits_on w (die t cs u) \<longleftrightarrow> waits_on w (cs u)" "waits_on w (set_det t cs u) \<longleftrightarrow> waits_on w (cs u)"
  "waits_on w (spawn t r cs u) \<longleftrightarrow> u \<noteq> t \<and> waits_on w (cs u)"
  by (auto simp: waits_on_def update_defs)

lemma field_upd [call_simps]:
  "a_live (set_cont t k cs u) = a_live (cs u)" "a_live (block t w k cs u) = a_live (cs u)" "a_live (wake T err cs u) = a_live (cs u)"
  "a_live (kill t cs u) \<longleftrightarrow> u \<noteq> t \<and> a_live (cs u)" "a_live (die t cs u) = a_live (cs u)" "a_live (set_det t cs u) = a_live (cs u)"
  "a_live (spawn t r cs u) \<longleftrightarrow> u = t \<or> a_live (cs u)"
  "a_dead (set_cont t k cs u) = a_dead (cs u)" "a_dead (block t w k cs u) = a_dead (cs u)" "a_dead (wake T err cs u) = a_dead (cs u)"
  "a_dead (kill t cs u) \<longleftrightarrow> u \<noteq> t \<and> a_dead (cs u)" "a_dead (die t cs u) \<longleftrightarrow> u = t \<or> a_dead (cs u)" "a_dead (set_det t cs u) = a_dead (cs u)"
  "a_dead (spawn t r cs u) \<longleftrightarrow> u \<noteq> t \<and> a_dead (cs u)"
  "a_det (set_cont t k cs u) = a_det (cs u)" "a_det (block t w k cs u) = a_det (cs u)" "a_det (wake T err cs u) = a_det (cs u)"
  "a_det (kill t cs u) \<longleftrightarrow> u \<noteq> t \<and> a_det (cs u)" "a_det (die t cs u) = a_det (cs u)" "a_det (set_det t cs u) \<longleftrightarrow> u = t \<or> a_det (cs u)"
  "a_det (spawn t r cs u) \<longleftrightarrow> u \<noteq> t \<and> a_det (cs u)"
  "a_cont (set_cont t k cs u) = (if u = t then k else a_cont (cs u))"
  "a_cont (block t w k cs u) = (if u = t then k else a_cont (cs u))" "a_cont (wake T err cs u) = a_cont (cs u)"
  "a_cont (kill t cs u) = (if u = t then K_none else a_cont (cs u))" "a_cont (die t cs u) = a_cont (cs u)" "a_cont (set_det t cs u) = a_cont (cs u)"
  "a_cont (spawn t r cs u) = (if u = t then K_start else a_cont (cs u))"
  "a_wait (set_cont t k cs u) = a_wait (cs u)" "a_wait (block t w k cs u) = (if u = t then Some w else a_wait (cs u))"
  "a_wait (wake T err cs u) = (if u \<in> T then None else a_wait (cs u))" "a_wait (kill t cs u) = (if u = t then None else a_wait (cs u))"
  "a_wait (die t cs u) = a_wait (cs u)" "a_wait (set_det t cs u) = a_wait (cs u)"
  "a_ret (set_cont t k cs u) = a_ret (cs u)" "a_ret (block t w k cs u) = (if u = t then NO_ERROR else a_ret (cs u))"
  "a_ret (wake T err cs u) = (if u \<in> T then err else a_ret (cs u))" "a_ret (kill t cs u) = (if u = t then 0 else a_ret (cs u))"
  "a_ret (die t cs u) = a_ret (cs u)" "a_ret (set_det t cs u) = a_ret (cs u)"
  by (auto simp: update_defs)

lemma obj_simps [simp]:
  "a_calls (upd_mut m f A) = a_calls A" "a_wq (upd_mut m f A) = a_wq A" "a_sem (upd_mut m f A) = a_sem A"
  "a_ev (upd_mut m f A) = a_ev A" "a_mut (upd_mut m f A) = (a_mut A)(m := f (a_mut A m))"
  "a_calls (upd_asem n d A) = a_calls A" "a_wq (upd_asem n d A) = a_wq A" "a_mut (upd_asem n d A) = a_mut A"
  "a_ev (upd_asem n d A) = a_ev A"
  "a_sem (upd_asem n d A) = (a_sem A)(n := (a_sem A n)\<lparr>sem_count := int32 (sem_count (a_sem A n) + d)\<rparr>)"
  "a_calls (upd_ev e g A) = a_calls A" "a_wq (upd_ev e g A) = a_wq A" "a_mut (upd_ev e g A) = a_mut A"
  "a_sem (upd_ev e g A) = a_sem A" "a_ev (upd_ev e g A) = (a_ev A)(e := g (a_ev A e))"
  by (simp_all add: upd_mut_def upd_asem_def upd_ev_def)

section \<open>Calls and wait queues\<close>

text \<open>
  A thread waits only inside a blocking call on that queue, the queue being initialised; a dead
  thread is in no call; a queue is being closed by at most one thread, and nobody waits on it; the
  queue of joiners of a live thread is initialised and never closed.
\<close>

definition wait_ok :: "(wqid \<Rightarrow> bool) \<Rightarrow> (tid \<Rightarrow> acall) \<Rightarrow> bool" where
  "wait_ok q c \<longleftrightarrow> (\<forall>u w. waits_on w (c u) \<longrightarrow> q w \<and> call_wq (a_cont (c u)) = Some w)"

definition dead_ok :: "(tid \<Rightarrow> acall) \<Rightarrow> bool" where
  "dead_ok c \<longleftrightarrow> (\<forall>u. a_live (c u) \<longrightarrow> a_dead (c u) \<longrightarrow> a_cont (c u) = K_none)"

definition close_ok :: "(wqid \<Rightarrow> bool) \<Rightarrow> (tid \<Rightarrow> acall) \<Rightarrow> bool" where
  "close_ok q c \<longleftrightarrow> (\<forall>u w. closing w (c u) \<longrightarrow>
     q w \<and> (\<forall>t. w \<noteq> WQ_retcode t) \<and> (\<forall>v. \<not> waits_on w (c v) \<and> (closing w (c v) \<longrightarrow> v = u)))"

definition retq_ok :: "(wqid \<Rightarrow> bool) \<Rightarrow> (tid \<Rightarrow> acall) \<Rightarrow> bool" where
  "retq_ok q c \<longleftrightarrow> (\<forall>t. a_live (c t) \<longrightarrow> q (WQ_retcode t))"

definition calls_ok :: "(wqid \<Rightarrow> bool) \<Rightarrow> (tid \<Rightarrow> acall) \<Rightarrow> bool" where
  "calls_ok q c \<longleftrightarrow> wait_ok q c \<and> dead_ok c \<and> close_ok q c \<and> retq_ok q c"

lemma calls_okD:
  assumes "calls_ok q c"
  shows "wait_ok q c" "dead_ok c" "close_ok q c" "retq_ok q c"
  using assms by (auto simp: calls_ok_def)

lemma waits_onD: "calls_ok q c \<Longrightarrow> waits_on w (c u) \<Longrightarrow> q w" "calls_ok q c \<Longrightarrow> waits_on w (c u) \<Longrightarrow> call_wq (a_cont (c u)) = Some w"
  by (auto simp: calls_ok_def wait_ok_def)

lemma closing_not_retcode: "calls_ok q c \<Longrightarrow> \<not> closing (WQ_retcode t) (c u)"
  unfolding calls_ok_def close_ok_def by blast

lemma idle_callD:
  assumes "idle_call x"
  shows "\<not> in_call c x" "\<not> closing w x" "a_live x" "\<not> a_dead x" "a_cont x = K_none"
  using assms by (auto simp: idle_call_def in_call_def closing_def)

lemma idle_not_waiting: "calls_ok q c \<Longrightarrow> idle_call (c t) \<Longrightarrow> \<not> waits_on w (c t)"
  using waits_onD(2) [of q c w t] by (auto simp: idle_call_def)

text \<open>How the updates keep it.\<close>

lemma calls_ok_set_cont:
  assumes "calls_ok q c" "\<And>w. \<not> waits_on w (c t)" "a_dead (c t) \<Longrightarrow> k = K_none" "closes_of k = None"
  shows "calls_ok q (set_cont t k c)"
  using assms unfolding calls_ok_def wait_ok_def dead_ok_def close_ok_def retq_ok_def by (auto simp: call_simps)

lemma calls_ok_close:
  assumes "calls_ok q c" "idle_call (c t)" "q w" "\<And>u. w \<noteq> WQ_retcode u" "\<And>u. \<not> closing w (c u)" "waiters w c = {}"
  shows "calls_ok q (set_cont t (K_wq_destroy w i) c)"
  using assms idle_not_waiting [OF assms(1,2)] unfolding calls_ok_def wait_ok_def dead_ok_def close_ok_def retq_ok_def
  by (auto simp: call_simps waiters_def idle_call_def)

lemma calls_ok_closed:
  assumes "calls_ok q c" "closing w (c t)"
  shows "calls_ok (q(w := False)) (set_cont t K_none c)"
proof -
  have nw: "\<not> waits_on v (c t)" for v using waits_onD(2) [OF assms(1), of v t] assms(2) by (auto simp: closing_def call_wq_call)
  show ?thesis using assms nw closing_not_retcode [OF assms(1)] unfolding calls_ok_def wait_ok_def dead_ok_def close_ok_def retq_ok_def
    by (auto simp: call_simps)
qed

lemma calls_ok_block:
  assumes "calls_ok q c" "idle_call (c t)" "w_open w q c" "call_of k = Some d" "wq_of d = w"
  shows "calls_ok q (block t w k c)"
  using assms unfolding calls_ok_def wait_ok_def dead_ok_def close_ok_def retq_ok_def w_open_def
  by (auto simp: call_simps call_wq_call idle_call_def)

lemma calls_ok_wake: "calls_ok q c \<Longrightarrow> calls_ok q (wake T err c)"
  unfolding calls_ok_def wait_ok_def dead_ok_def close_ok_def retq_ok_def by (auto simp: call_simps)

lemma calls_ok_init: "calls_ok q c \<Longrightarrow> calls_ok (q(w := True)) c"
  unfolding calls_ok_def wait_ok_def dead_ok_def close_ok_def retq_ok_def by auto

lemma calls_ok_free:
  assumes "calls_ok q c" "waiters w c = {}" "\<And>u. \<not> closing w (c u)" "\<And>u. w \<noteq> WQ_retcode u"
  shows "calls_ok (q(w := False)) c"
  using assms unfolding calls_ok_def wait_ok_def dead_ok_def close_ok_def retq_ok_def by (auto simp: waiters_def)

lemma calls_ok_life:
  assumes "calls_ok q c"
  shows "calls_ok q (kill t c)" "calls_ok q (set_det t c)" "idle_call (c t) \<Longrightarrow> calls_ok q (die t c)"
    "calls_ok (q(WQ_retcode t := True)) (spawn t r c)"
  using assms closing_not_retcode [OF assms]
  unfolding calls_ok_def wait_ok_def dead_ok_def close_ok_def retq_ok_def by (auto simp: call_simps idle_call_def)

section \<open>The calls in progress on a queue\<close>

lemma pend_in_call:
  "in_call d (c u) \<Longrightarrow> pend (wq_of d) c u = Some (if a_wait (c u) = None then Woken (a_ret (c u)) else Waiting)"
  by (auto simp: pend_def in_call_def call_wq_call)

lemma pend_idle: "idle_call (c t) \<Longrightarrow> pend w c t = None"
  by (simp add: pend_def idle_call_def)

lemma pend_no_call: "call_wq (a_cont (c t)) = None \<Longrightarrow> pend w c t = None"
  by (simp add: pend_def)

lemma pend_waiting: "calls_ok q c \<Longrightarrow> pend w c u = Some Waiting \<longleftrightarrow> waits_on w (c u)"
  using waits_onD(2) [of q c _ u] by (auto simp: pend_def waits_on_def)

lemma pend_other: "calls_ok q c \<Longrightarrow> waits_on v (c u) \<Longrightarrow> w \<noteq> v \<Longrightarrow> pend w c u = None"
  using waits_onD(2) [of q c v u] by (auto simp: pend_def)

lemma pend_set_cont: "call_wq k = None \<Longrightarrow> pend w (set_cont t k c) = (pend w c)(t := None)"
  by (auto simp: pend_def call_simps fun_eq_iff)

lemma pend_block:
  "a_live (c t) \<Longrightarrow> call_wq k = Some v \<Longrightarrow> pend w (block t v k c) = (pend w c)(t := if v = w then Some Waiting else None)"
  by (auto simp: pend_def call_simps fun_eq_iff)

lemma pend_wake:
  "pend w (wake T err c) u = (if u \<in> T then map_option (\<lambda>_. Woken err) (pend w c u) else pend w c u)"
  by (simp add: pend_def call_simps)

lemma pend_life:
  "pend w (kill t c) = (pend w c)(t := None)" "pend w (die t c) = pend w c" "pend w (set_det t c) = pend w c"
  "pend w (spawn t r c) = (pend w c)(t := None)"
  by (auto simp: pend_def call_simps fun_eq_iff spawn_def)

text \<open>The effect of the steps on the calls of a queue, in terms of its map of pending calls.\<close>

definition woken_one :: "tid \<Rightarrow> status \<Rightarrow> (tid \<rightharpoonup> pending) \<Rightarrow> tid \<rightharpoonup> pending" where
  "woken_one u err p = p(u \<mapsto> Woken err)"

definition woken_all :: "status \<Rightarrow> (tid \<rightharpoonup> pending) \<Rightarrow> tid \<rightharpoonup> pending" where
  "woken_all err p = (\<lambda>u. if p u = Some Waiting then Some (Woken err) else p u)"

lemma pend_wake_one:
  "calls_ok q c \<Longrightarrow> waits_on v (c u) \<Longrightarrow>
    pend w (wake {u} err c) = (if w = v then woken_one u err (pend w c) else pend w c)"
  using pend_waiting [of q c v u] pend_other [of q c v u w] by (auto simp: pend_wake woken_one_def fun_eq_iff)

lemma pend_wake_all:
  "calls_ok q c \<Longrightarrow> pend w (wake (waiters v c) err c) = (if w = v then woken_all err (pend w c) else pend w c)"
  using pend_waiting [of q c v] pend_other [of q c v _ w] by (auto simp: pend_wake woken_all_def waiters_def fun_eq_iff)

lemma pend_wake_other:
  assumes "calls_ok q c" "T \<subseteq> waiters v c" "w \<noteq> v"
  shows "pend w (wake T err c) = pend w c"
proof
  fix u
  show "pend w (wake T err c) u = pend w c u"
    using pend_other [OF assms(1) _ assms(3), of u] assms(2) by (cases "u \<in> T") (auto simp: pend_wake waiters_def)
qed

lemma waiters_life: "waiters w (die t c) = waiters w c"
  by (simp add: waiters_def call_simps)

lemma fresh_object_iff: "fresh_object w c \<longleftrightarrow> (\<forall>u. \<not> closing w (c u)) \<and> pend w c = Map.empty"
proof -
  have "(\<forall>k. wq_of k = w \<longrightarrow> \<not> in_call k (c u)) \<longleftrightarrow> pend w c u = None" for u
    by (auto simp: pend_def in_call_def call_of_def call_wq_def split: cont.splits)
  then show ?thesis by (auto simp: fresh_object_def fun_eq_iff)
qed

lemma w_open_upd:
  "closes_of k = None \<Longrightarrow> w_open w q c \<Longrightarrow> w_open w q (set_cont t k c)"
  "closes_of k = None \<Longrightarrow> w_open w q c \<Longrightarrow> w_open w q (block t v k c)"
  "w_open w q c \<Longrightarrow> w_open w q (wake T err c)" "w_open w q c \<Longrightarrow> w_open w q (kill t c)"
  "w_open w q c \<Longrightarrow> w_open w q (die t c)" "w_open w q c \<Longrightarrow> w_open w q (set_det t c)"
  "w_open w q c \<Longrightarrow> w_open w (q(v := True)) (spawn t r c)" "w_open w q c \<Longrightarrow> w_open w (q(v := True)) c"
  "w \<noteq> v \<Longrightarrow> w_open w q c \<Longrightarrow> w_open w (q(v := False)) c"
  "w \<noteq> v \<Longrightarrow> w_open w q c \<Longrightarrow> w_open w (q(v := False)) (set_cont t K_none c)"
  "w \<noteq> v \<Longrightarrow> w_open w q c \<Longrightarrow> w_open w q (set_cont t (K_wq_destroy v i) c)"
  by (auto simp: w_open_def call_simps)

lemma w_open_fresh: "fresh_object w c \<Longrightarrow> w_open w (q(w := True)) c"
  by (auto simp: w_open_def fresh_object_def)

lemma w_open_closing: "w_open w q c \<Longrightarrow> closing v (c t) \<Longrightarrow> w \<noteq> v"
  by (auto simp: w_open_def)

lemma w_open_retcode: "calls_ok q c \<Longrightarrow> a_live (c t) \<Longrightarrow> w_open (WQ_retcode t) q c"
  using closing_not_retcode [of q c t] by (auto simp: w_open_def calls_ok_def retq_ok_def)

section \<open>Objects\<close>

text \<open>
  A mutex: its count is the number of calls in progress, plus one when it is held; while it is held
  it has been handed to nobody else, and it is handed to at most one waiter.
\<close>

definition mutex_ok :: "mutex \<Rightarrow> (tid \<rightharpoonup> pending) \<Rightarrow> bool" where
  "mutex_ok x p \<longleftrightarrow> finite (dom p) \<and> m_count x = of_bool (holder x \<noteq> None) + int (card (dom p)) \<and>
     (\<forall>u r. p u = Some (Woken r) \<longrightarrow> r = NO_ERROR \<and> holder x = None \<or> r = ERR_TIMED_OUT) \<and>
     (\<forall>u v. p u = Some (Woken NO_ERROR) \<longrightarrow> p v = Some (Woken NO_ERROR) \<longrightarrow> u = v)"

lemma mutex_okD:
  assumes "mutex_ok x p"
  shows "finite (dom p)" "m_count x = of_bool (holder x \<noteq> None) + int (card (dom p))"
    "p u = Some (Woken r) \<Longrightarrow> r = NO_ERROR \<and> holder x = None \<or> r = ERR_TIMED_OUT"
    "p u = Some (Woken NO_ERROR) \<Longrightarrow> p v = Some (Woken NO_ERROR) \<Longrightarrow> u = v"
  using assms unfolding mutex_ok_def by blast+

lemma mutex_okI:
  assumes "finite (dom p)" "m_count x = of_bool (holder x \<noteq> None) + int (card (dom p))"
    "\<And>u r. p u = Some (Woken r) \<Longrightarrow> r = NO_ERROR \<and> holder x = None \<or> r = ERR_TIMED_OUT"
    "\<And>u v. p u = Some (Woken NO_ERROR) \<Longrightarrow> p v = Some (Woken NO_ERROR) \<Longrightarrow> u = v"
  shows "mutex_ok x p"
  using assms unfolding mutex_ok_def by blast

lemma woken_one_apply: "woken_one u r p v = (if v = u then Some (Woken r) else p v)"
  by (simp add: woken_one_def)

lemma dom_woken_one: "p u = Some z \<Longrightarrow> dom (woken_one u r p) = dom p"
  by (auto simp: woken_one_def)

lemma card_dom_remove: "finite (dom p) \<Longrightarrow> p t = Some z \<Longrightarrow> int (card (dom (p(t := None)))) = int (card (dom p)) - 1"
  using card_gt_0_iff [of "dom p"] by (auto simp: card_Diff_singleton domIff of_nat_diff)

lemma mutex_ok_timeout: "mutex_ok x p \<Longrightarrow> p t = Some Waiting \<Longrightarrow> mutex_ok x (woken_one t ERR_TIMED_OUT p)"
  by (rule mutex_okI)
    (auto simp: dom_woken_one mutex_okD(1,2) woken_one_apply split: if_splits dest: mutex_okD(3,4))

lemma mutex_ok_init: "mutex_ok \<lparr>m_magic = g, holder = None, m_count = 0\<rparr> Map.empty"
  by (simp add: mutex_ok_def)

lemma mutex_ok_acquire:
  "mutex_ok x p \<Longrightarrow> m_count x < 1 \<Longrightarrow> holder x = None \<and> p = Map.empty \<and> mutex_ok (x\<lparr>m_count := m_count x + 1, holder := Some t\<rparr>) p"
  by (cases "holder x") (auto simp: mutex_ok_def)

lemma mutex_ok_block: "mutex_ok x p \<Longrightarrow> p t = None \<Longrightarrow> mutex_ok (x\<lparr>m_count := m_count x + 1\<rparr>) (p(t \<mapsto> Waiting))"
  by (rule mutex_okI) (auto simp: mutex_okD(1,2) domIff split: if_splits dest: mutex_okD(3,4))

lemma mutex_ok_got:
  assumes "mutex_ok x p" "p t = Some (Woken r)" "r \<ge> 0"
  shows "holder x = None" "mutex_ok (x\<lparr>holder := Some t\<rparr>) (p(t := None))"
proof -
  have r: "r = NO_ERROR" and h: "holder x = None" using mutex_okD(3) [OF assms(1,2)] assms(3) by auto
  show "holder x = None" by (rule h)
  have o: "v = t" if "p v = Some (Woken NO_ERROR)" for v using mutex_okD(4) [OF assms(1) that] assms(2) r by simp
  show "mutex_ok (x\<lparr>holder := Some t\<rparr>) (p(t := None))"
    using mutex_okD(1,2) [OF assms(1)] h card_dom_remove [OF mutex_okD(1) [OF assms(1)] assms(2)]
    by (intro mutex_okI) (auto split: if_splits dest: o mutex_okD(3) [OF assms(1)])
qed

lemma mutex_ok_fail:
  assumes "mutex_ok x p" "p t = Some (Woken r)" "r < 0"
  shows "r = ERR_TIMED_OUT" "mutex_ok (x\<lparr>m_count := m_count x - 1\<rparr>) (p(t := None))"
proof -
  show r: "r = ERR_TIMED_OUT" using mutex_okD(3) [OF assms(1,2)] assms(3) by auto
  show "mutex_ok (x\<lparr>m_count := m_count x - 1\<rparr>) (p(t := None))"
    using mutex_okD(1,2) [OF assms(1)] card_dom_remove [OF mutex_okD(1) [OF assms(1)] assms(2)]
    by (intro mutex_okI) (auto split: if_splits dest: mutex_okD(3,4) [OF assms(1)])
qed

lemma mutex_ok_release: "mutex_ok x p \<Longrightarrow> holder x = Some t \<Longrightarrow> mutex_ok (x\<lparr>holder := None, m_count := m_count x - 1\<rparr>) p"
  by (rule mutex_okI) (auto simp: mutex_okD(1,2) dest: mutex_okD(3,4))

lemma mutex_ok_release_wake:
  assumes "mutex_ok x p" "holder x = Some t" "p u = Some Waiting"
  shows "mutex_ok (x\<lparr>holder := None, m_count := m_count x - 1\<rparr>) (woken_one u NO_ERROR p)"
proof -
  have o: "r = ERR_TIMED_OUT" if "p v = Some (Woken r)" for v r using mutex_okD(3) [OF assms(1) that] assms(2) by simp
  show ?thesis using mutex_okD(1,2) [OF assms(1)] assms(2,3)
    by (intro mutex_okI) (auto simp: dom_woken_one woken_one_apply split: if_splits dest: o)
qed

text \<open>
  A semaphore: its tokens are its count plus the waiters that have not been granted one, and are
  never negative.
\<close>

definition sem_ok :: "semaphore \<Rightarrow> (tid \<rightharpoonup> pending) \<Rightarrow> bool" where
  "sem_ok x p \<longleftrightarrow> finite (sem_claims p) \<and> 0 \<le> tokens x p \<and> tokens x p < 2 ^ 31 \<and> - (2 ^ 31) \<le> sem_count x \<and>
     (\<forall>u r. p u = Some (Woken r) \<longrightarrow> r = NO_ERROR \<or> r = ERR_TIMED_OUT)"

lemma sem_claims_upd:
  "sem_claims (p(t \<mapsto> Waiting)) = insert t (sem_claims p)" "sem_claims (p(t := None)) = sem_claims p - {t}"
  "sem_claims (woken_one t ERR_TIMED_OUT p) = insert t (sem_claims p)" "sem_claims (woken_one t NO_ERROR p) = sem_claims p - {t}"
  by (auto simp: sem_claims_def woken_one_def)

lemma tokens_upd:
  "p t = Some Waiting \<Longrightarrow> tokens x (woken_one t ERR_TIMED_OUT p) = tokens x p"
  "finite (sem_claims p) \<Longrightarrow> p t = None \<Longrightarrow> tokens (x\<lparr>sem_count := sem_count x - 1\<rparr>) (p(t \<mapsto> Waiting)) = tokens x p"
  "finite (sem_claims p) \<Longrightarrow> p t = Some (Woken ERR_TIMED_OUT) \<Longrightarrow>
     tokens (x\<lparr>sem_count := sem_count x + 1\<rparr>) (p(t := None)) = tokens x p"
  "finite (sem_claims p) \<Longrightarrow> p t = Some Waiting \<Longrightarrow>
     tokens (x\<lparr>sem_count := sem_count x + 1\<rparr>) (woken_one t NO_ERROR p) = tokens x p"
  "p t = Some (Woken NO_ERROR) \<Longrightarrow> tokens x (p(t := None)) = tokens x p"
  "tokens (x\<lparr>sem_count := v\<rparr>) p = tokens x p + v - sem_count x"
proof -
  have m: "t \<in> sem_claims p \<longleftrightarrow> p t = Some Waiting \<or> p t = Some (Woken ERR_TIMED_OUT)" for t by (simp add: sem_claims_def)
  have c: "int (card (sem_claims p - {t})) = int (card (sem_claims p)) - 1" if "finite (sem_claims p)" "t \<in> sem_claims p"
    using that card_gt_0_iff [of "sem_claims p"] by (auto simp: card_Diff_singleton of_nat_diff)
  show "p t = Some Waiting \<Longrightarrow> tokens x (woken_one t ERR_TIMED_OUT p) = tokens x p"
    "finite (sem_claims p) \<Longrightarrow> p t = None \<Longrightarrow> tokens (x\<lparr>sem_count := sem_count x - 1\<rparr>) (p(t \<mapsto> Waiting)) = tokens x p"
    "finite (sem_claims p) \<Longrightarrow> p t = Some (Woken ERR_TIMED_OUT) \<Longrightarrow>
     tokens (x\<lparr>sem_count := sem_count x + 1\<rparr>) (p(t := None)) = tokens x p"
    "finite (sem_claims p) \<Longrightarrow> p t = Some Waiting \<Longrightarrow>
     tokens (x\<lparr>sem_count := sem_count x + 1\<rparr>) (woken_one t NO_ERROR p) = tokens x p"
    "p t = Some (Woken NO_ERROR) \<Longrightarrow> tokens x (p(t := None)) = tokens x p"
    "tokens (x\<lparr>sem_count := v\<rparr>) p = tokens x p + v - sem_count x"
    using c by (auto simp: tokens_def sem_claims_upd m insert_absorb)
qed

lemma sem_okD:
  assumes "sem_ok x p"
  shows "finite (sem_claims p)" "0 \<le> tokens x p" "p u = Some (Woken r) \<Longrightarrow> r = NO_ERROR \<or> r = ERR_TIMED_OUT"
  using assms by (auto simp: sem_ok_def)

lemma sem_ok_init: "0 \<le> v \<Longrightarrow> v < 2 ^ 31 \<Longrightarrow> sem_ok \<lparr>sem_magic = g, sem_count = v\<rparr> Map.empty"
  by (simp add: sem_ok_def tokens_def sem_claims_def)

lemma sem_ok_timeout: "sem_ok x p \<Longrightarrow> p t = Some Waiting \<Longrightarrow> sem_ok x (woken_one t ERR_TIMED_OUT p)"
  unfolding sem_ok_def by (auto simp: tokens_upd(1) sem_claims_upd woken_one_apply split: if_splits)

lemma int32_id: "- (2 ^ 31) \<le> x \<Longrightarrow> x < 2 ^ 31 \<Longrightarrow> int32 x = x"
  by (simp add: int32_def)

text \<open>A count plus its claims stays in 32 bits, so the count itself does not wrap.\<close>

lemma sem_ok_range: "sem_ok x p \<Longrightarrow> - (2 ^ 31) \<le> sem_count x \<and> sem_count x < 2 ^ 31"
  by (simp add: sem_ok_def tokens_def)

lemma sem_ok_claim:
  assumes "sem_ok x p" "p u = Some Waiting \<or> p u = Some (Woken ERR_TIMED_OUT)"
  shows "int32 (sem_count x + 1) = sem_count x + 1"
proof -
  have "0 < card (sem_claims p)" using assms by (auto simp: card_gt_0_iff sem_ok_def sem_claims_def)
  then show ?thesis using assms(1) by (intro int32_id) (simp_all add: sem_ok_def tokens_def)
qed

lemma sem_ok_take:
  assumes "sem_ok x p" "sem_count x \<ge> 1"
  shows "sem_ok (x\<lparr>sem_count := int32 (sem_count x - 1)\<rparr>) p"
  using assms sem_ok_range [OF assms(1)] by (auto simp: sem_ok_def tokens_def int32_id)

lemma sem_ok_post: "sem_ok x p \<Longrightarrow> tokens x p < 2 ^ 31 - 1 \<Longrightarrow> sem_ok (x\<lparr>sem_count := int32 (sem_count x + 1)\<rparr>) p"
  by (auto simp: sem_ok_def tokens_def int32_id)

lemma sem_ok_block: "sem_ok x p \<Longrightarrow> - (2 ^ 31) < sem_count x \<Longrightarrow> p t = None \<Longrightarrow> sem_ok (x\<lparr>sem_count := int32 (sem_count x - 1)\<rparr>) (p(t \<mapsto> Waiting))"
  using tokens_upd(2) [of p t x] sem_ok_range [of x p] by (auto simp: sem_ok_def sem_claims_upd int32_id)

lemma sem_ok_done: "sem_ok x p \<Longrightarrow> p t = Some (Woken r) \<Longrightarrow> r \<noteq> ERR_TIMED_OUT \<Longrightarrow> sem_ok x (p(t := None))"
  using sem_okD(3) [of x p t r] tokens_upd(5) [of p t x] by (auto simp: sem_ok_def sem_claims_upd)

lemma sem_ok_fail: "sem_ok x p \<Longrightarrow> p t = Some (Woken ERR_TIMED_OUT) \<Longrightarrow> sem_ok (x\<lparr>sem_count := int32 (sem_count x + 1)\<rparr>) (p(t := None))"
  using tokens_upd(3) [of p t x] sem_ok_claim [of x p t] by (auto simp: sem_ok_def sem_claims_upd)

lemma sem_ok_post_wake: "sem_ok x p \<Longrightarrow> p t = Some Waiting \<Longrightarrow> sem_ok (x\<lparr>sem_count := int32 (sem_count x + 1)\<rparr>) (woken_one t NO_ERROR p)"
  using tokens_upd(4) [of p t x] sem_ok_claim [of x p t]
  by (auto simp: sem_ok_def sem_claims_upd woken_one_apply split: if_splits)

text \<open>A signaled event has no waiter.\<close>

definition event_ok :: "event \<Rightarrow> (tid \<rightharpoonup> pending) \<Rightarrow> bool" where
  "event_ok x p \<longleftrightarrow> (signaled x \<longrightarrow> (\<forall>u. p u \<noteq> Some Waiting))"

text \<open>
  The joiners of a thread: at most one, waiting only for a thread that is alive and joinable, and
  woken with success only when that thread is dead and has not been released.
\<close>

definition join_ok :: "acall \<Rightarrow> (tid \<rightharpoonup> pending) \<Rightarrow> bool" where
  "join_ok x p \<longleftrightarrow> (\<forall>u v. p u \<noteq> None \<longrightarrow> p v \<noteq> None \<longrightarrow> u = v) \<and>
     (\<forall>u. p u = Some Waiting \<longrightarrow> a_live x \<and> \<not> a_dead x \<and> \<not> a_det x) \<and>
     (\<forall>u r. p u = Some (Woken r) \<longrightarrow> 0 \<le> r \<longrightarrow> a_live x \<and> a_dead x)"

section \<open>Steps and queues\<close>

text \<open>A step that does not concern queue \<open>w\<close>, and one that only changes its waiters.\<close>

definition same_queue :: "wqid \<Rightarrow> astate \<Rightarrow> astate \<Rightarrow> bool" where
  "same_queue w A B \<longleftrightarrow> pend w (a_calls B) = pend w (a_calls A) \<and>
     w_open w (a_wq B) (a_calls B) = w_open w (a_wq A) (a_calls A)"

definition same_life :: "tid \<Rightarrow> astate \<Rightarrow> astate \<Rightarrow> bool" where
  "same_life u A B \<longleftrightarrow> a_live (a_calls B u) = a_live (a_calls A u) \<and> a_dead (a_calls B u) = a_dead (a_calls A u) \<and>
     a_det (a_calls B u) = a_det (a_calls A u)"

definition same_objects :: "astate \<Rightarrow> astate \<Rightarrow> bool" where
  "same_objects A B \<longleftrightarrow> a_mut B = a_mut A \<and> a_sem B = a_sem A \<and> a_ev B = a_ev A"

abbreviation acalls_ok :: "astate \<Rightarrow> bool" where "acalls_ok A \<equiv> calls_ok (a_wq A) (a_calls A)"

abbreviation aopen :: "wqid \<Rightarrow> astate \<Rightarrow> bool" where "aopen w A \<equiv> w_open w (a_wq A) (a_calls A)"

abbreviation apend :: "wqid \<Rightarrow> astate \<Rightarrow> tid \<rightharpoonup> pending" where "apend w A \<equiv> pend w (a_calls A)"

lemma fun_upd_None: "p t = None \<Longrightarrow> p(t := None) = p"
  by (simp add: fun_upd_idem)

lemma leaves_not_closing: "leaves (a_cont x) \<or> a_cont x = K_start \<Longrightarrow> \<not> closing w x" "call_of (a_cont x) = Some d \<Longrightarrow> \<not> closing w x"
  by (auto simp: closing_def call_wq_call)

lemma set_cont_queue:
  assumes "call_wq k = None" "closes_of k = None" "call_wq (a_cont (c t)) \<noteq> Some w" "\<not> closing w (c t)"
  shows "pend w (set_cont t k c) = pend w c" "w_open w q (set_cont t k c) = w_open w q c"
  using assms by (auto simp: pend_set_cont w_open_def call_simps pend_def fun_eq_iff)

lemma wake_queue: "w_open w q (wake T err c) = w_open w q c"
  by (auto simp: w_open_def call_simps)

lemma block_queue:
  assumes "idle_call (c t)" "call_of k = Some d"
  shows "w_open w q (block t v k c) = w_open w q c"
proof -
  have "u \<noteq> t" if "closing w (c u)" for u using that idle_callD(2) [OF assms(1)] by auto
  then show ?thesis using assms(2) by (auto simp: w_open_def call_simps call_wq_call)
qed

lemma life_queue:
  "\<not> closing w (c t) \<Longrightarrow> w_open w q (kill t c) = w_open w q c"
  "w_open w q (die t c) = w_open w q c" "w_open w q (set_det t c) = w_open w q c"
  "\<not> closing w (c t) \<Longrightarrow> w \<noteq> v \<Longrightarrow> w_open w (q(v := True)) (spawn t r c) = w_open w q c"
  by (auto simp: w_open_def call_simps)

text \<open>Thread steps: a queue other than one of joiners changes only by a timeout.\<close>

definition timeout_queue :: "wqid \<Rightarrow> astate \<Rightarrow> astate \<Rightarrow> bool" where
  "timeout_queue w A B \<longleftrightarrow> (\<exists>t tmo c i. a_cont (a_calls A t) = K_wq_block tmo c i \<and> tmo \<noteq> INFINITE_TIME \<and>
     apend w A t = Some Waiting \<and> apend w B = woken_one t ERR_TIMED_OUT (apend w A) \<and> aopen w B = aopen w A)"

lemma thread_queue:
  assumes "thread_astep A B" "acalls_ok A" "\<And>t. w \<noteq> WQ_retcode t"
  shows "same_queue w A B \<or> timeout_queue w A B"
  using assms(1)
proof cases
  case (switch t k)
  then show ?thesis by (simp add: same_queue_def set_cont_queue idle_callD)
next
  case (resume t)
  then have "call_wq (a_cont (a_calls A t)) = None" by auto
  then show ?thesis using resume by (simp add: same_queue_def set_cont_queue leaves_not_closing disj_commute)
next
  case (timeout v t tmo c i)
  note pw = pend_wake_one [OF assms(2) timeout(2), of w]
  show ?thesis
  proof (cases "v = w")
    case True
    then have "timeout_queue w A B" unfolding timeout_queue_def
      using timeout(1,3,4) pw pend_waiting [OF assms(2)] timeout(2) by (intro exI [of _ t]) (simp add: wake_queue)
    then show ?thesis ..
  next
    case False
    then show ?thesis using timeout(1) pw by (simp add: same_queue_def wake_queue)
  qed
next
  case (closed v t)
  then have p: "apend w B = apend w A" by (simp add: pend_set_cont fun_upd_None pend_no_call closing_def call_wq_call)
  have "u \<noteq> t" if "w \<noteq> v" "closing w (a_calls A u)" for u using that closed(2) by (auto simp: closing_def)
  then have "aopen w B = aopen w A" using closed by (cases "w = v") (auto simp: w_open_def call_simps)
  then show ?thesis using p by (simp add: same_queue_def)
next
  case (create t r)
  then have "apend w A t = None" by (simp add: pend_def)
  then show ?thesis using create assms(3)
    by (simp add: same_queue_def pend_life fun_upd_None life_queue closing_def)
next
  case (exit t)
  then show ?thesis using assms(3) pend_wake_all [OF calls_ok_life(3) [OF assms(2) exit(2)], of w "WQ_retcode t"]
    by (simp add: same_queue_def wake_queue life_queue waiters_life pend_life)
next
  case (exit_detached t)
  then show ?thesis by (simp add: same_queue_def pend_life fun_upd_None pend_idle life_queue idle_callD)
next
  case (join_block t u tmo wt i)
  then show ?thesis using assms(3) [symmetric]
    by (simp add: same_queue_def pend_block idle_callD block_queue fun_upd_None pend_idle)
next
  case (join_reap t u wt)
  have k: "call_wq (a_cont (a_calls A t)) \<noteq> Some w" "\<not> closing w (a_calls A t)"
    using join_reap(2) assms(3) [of u] by (auto simp: in_call_def call_wq_call idle_call_def closing_def)
  have "a_cont (a_calls A u) = K_none" using assms(2) join_reap(3,4) by (simp add: calls_ok_def dead_ok_def)
  then show ?thesis using join_reap(1) k
    by (simp add: same_queue_def pend_life fun_upd_None pend_no_call life_queue set_cont_queue call_simps closing_def)
next
  case (join_fail u wt t)
  then have "call_wq (a_cont (a_calls A t)) \<noteq> Some w" "\<not> closing w (a_calls A t)"
    using assms(3) by (auto simp: in_call_def call_wq_call closing_def)
  then show ?thesis using join_fail by (simp add: same_queue_def set_cont_queue)
next
  case (detach u)
  then show ?thesis using assms(2,3) by (simp add: same_queue_def pend_life life_queue wake_queue pend_wake_all)
qed

lemma thread_objects: "thread_astep A B \<Longrightarrow> same_objects A B"
  by (cases rule: thread_astep.cases) (auto simp: same_objects_def)

lemma woken_not_waiting: "in_call d (c t) \<Longrightarrow> a_wait (c t) = None \<Longrightarrow> \<not> waits_on w (c t)"
  by (simp add: waits_on_def)

lemma in_call_not_dead: "calls_ok q c \<Longrightarrow> in_call d (c t) \<Longrightarrow> \<not> a_dead (c t)"
  by (auto simp: calls_ok_def dead_ok_def in_call_def)

lemma calls_ok_return:
  assumes "calls_ok q c" "in_call d (c t)" "a_wait (c t) = None"
  shows "calls_ok q (set_cont t K_none c)"
  using calls_ok_set_cont [OF assms(1)] assms(2,3) by (simp add: waits_on_def)

lemma calls_ok_switch:
  assumes "calls_ok q c" "idle_call (c t)" "leaves k"
  shows "calls_ok q (set_cont t k c)"
  using calls_ok_set_cont [OF assms(1) idle_not_waiting [OF assms(1,2)]] assms(2,3) by (simp add: idle_callD)

lemma calls_ok_wake_switch:
  assumes "calls_ok q c" "idle_call (c t)" "leaves k"
  shows "calls_ok q (set_cont t k (wake T err c))"
  using calls_ok_switch [OF calls_ok_wake [OF assms(1)], of T err t k] assms(2,3) by (simp add: idle_call_def call_simps)

lemma calls_ok_destroy:
  assumes "calls_ok q c" "idle_call (c t)" "w_open w q c" "\<And>u. w \<noteq> WQ_retcode u"
  shows "calls_ok q (set_cont t (K_wq_destroy w i) (wake (waiters w c) err c))"
proof (rule calls_ok_close)
  show "calls_ok q (wake (waiters w c) err c)" by (rule calls_ok_wake [OF assms(1)])
qed (use assms in \<open>auto simp: idle_call_def call_simps w_open_def waiters_def\<close>)

lemma thread_calls_ok:
  assumes "thread_astep A B" "acalls_ok A"
  shows "acalls_ok B"
  using assms(1)
proof cases
  case (resume t)
  have "\<not> waits_on w (a_calls A t)" for w using waits_onD(2) [OF assms(2), of w t] resume by auto
  then show ?thesis using resume by (simp add: calls_ok_set_cont [OF assms(2)])
next
  case (exit t)
  then show ?thesis by (simp add: calls_ok_wake calls_ok_life [OF assms(2)])
next
  case (join_block t u tmo w i)
  then show ?thesis using assms(2) by (simp add: calls_ok_block w_open_retcode)
next
  case (join_reap t u w)
  then show ?thesis using assms(2)
    by (auto intro!: calls_ok_life(1) intro: calls_ok_return calls_ok_switch)
next
  case (detach u)
  then show ?thesis using assms(2) by (simp add: calls_ok_life calls_ok_wake)
qed (use assms(2) in \<open>auto intro: calls_ok_switch calls_ok_wake calls_ok_closed calls_ok_life calls_ok_return\<close>)

lemma join_okD:
  assumes "join_ok x p"
  shows "p u = Some y \<Longrightarrow> p v = Some z \<Longrightarrow> u = v" "p u = Some Waiting \<Longrightarrow> a_live x \<and> \<not> a_dead x \<and> \<not> a_det x"
    "p u = Some (Woken r) \<Longrightarrow> 0 \<le> r \<Longrightarrow> a_live x \<and> a_dead x"
  using assms unfolding join_ok_def by blast+

lemma join_okI:
  assumes "\<And>u v y z. p u = Some y \<Longrightarrow> p v = Some z \<Longrightarrow> u = v"
    "\<And>u. p u = Some Waiting \<Longrightarrow> a_live x \<and> \<not> a_dead x \<and> \<not> a_det x"
    "\<And>u r. p u = Some (Woken r) \<Longrightarrow> 0 \<le> r \<Longrightarrow> a_live x \<and> a_dead x"
  shows "join_ok x p"
  using assms unfolding join_ok_def by blast

lemma join_ok_mono: "join_ok x p \<Longrightarrow> join_ok x (p(t := None))"
  by (auto simp: join_ok_def)

lemma join_ok_same: "a_live x = a_live y \<Longrightarrow> a_dead x = a_dead y \<Longrightarrow> a_det x = a_det y \<Longrightarrow> join_ok x p = join_ok y p"
  by (simp add: join_ok_def)

lemma join_ok_woken: "join_ok x p \<Longrightarrow> p t = Some Waiting \<Longrightarrow> r < 0 \<Longrightarrow> join_ok x (woken_one t r p)"
  unfolding join_ok_def woken_one_apply by (auto split: if_splits)

definition join_inv :: "(tid \<Rightarrow> acall) \<Rightarrow> bool" where
  "join_inv c \<longleftrightarrow> (\<forall>v. join_ok (c v) (pend (WQ_retcode v) c))"

lemma pend_join:
  assumes "\<forall>u w. \<not> in_call (C_join t w) (c u)"
  shows "pend (WQ_retcode t) c = Map.empty"
proof
  fix u
  have "\<exists>w. d = C_join t w" if "wq_of d = WQ_retcode t" for d using that by (cases d) auto
  then have "\<exists>w. call_of k = Some (C_join t w)" if "call_wq k = Some (WQ_retcode t)" for k
    using that by (cases k) (auto simp: call_wq_def call_of_def)
  then show "pend (WQ_retcode t) c u = None" using assms by (auto simp: pend_def in_call_def)
qed

lemma join_inv_mono:
  assumes "join_inv c" "\<And>v. a_live (f v) = a_live (c v) \<and> a_dead (f v) = a_dead (c v) \<and> a_det (f v) = a_det (c v)"
    "\<And>v. pend (WQ_retcode v) f = pend (WQ_retcode v) c \<or> pend (WQ_retcode v) f = (pend (WQ_retcode v) c)(t := None)"
  shows "join_inv f"
  unfolding join_inv_def
proof
  fix v
  have "join_ok (c v) (pend (WQ_retcode v) f)"
    using assms(1) assms(3) [of v] join_ok_mono [of "c v" "pend (WQ_retcode v) c"] by (auto simp: join_inv_def)
  then show "join_ok (f v) (pend (WQ_retcode v) f)" using assms(2) by (simp add: join_ok_def)
qed

lemma join_inv_set_cont: "join_inv c \<Longrightarrow> call_wq k = None \<Longrightarrow> join_inv (set_cont t k c)"
  by (rule join_inv_mono [where t = t]) (auto simp: call_simps pend_set_cont)

lemma join_inv_block: "join_inv c \<Longrightarrow> a_live (c t) \<Longrightarrow> call_wq k = Some w \<Longrightarrow> (\<And>v. w \<noteq> WQ_retcode v) \<Longrightarrow> join_inv (block t w k c)"
  by (rule join_inv_mono [where t = t]) (auto simp: call_simps pend_block)

lemma join_inv_wake:
  "calls_ok q c \<Longrightarrow> join_inv c \<Longrightarrow> T \<subseteq> waiters w c \<Longrightarrow> (\<And>v. w \<noteq> WQ_retcode v) \<Longrightarrow> join_inv (wake T err c)"
  by (rule join_inv_mono [where t = undefined]) (auto simp: call_simps dest: not_sym intro: pend_wake_other [where v = w])

lemma join_inv_timeout:
  assumes "calls_ok q c" "join_inv c" "waits_on w (c t)"
  shows "join_inv (wake {t} ERR_TIMED_OUT c)"
  unfolding join_inv_def
proof
  fix v
  have "join_ok (c v) (pend (WQ_retcode v) (wake {t} ERR_TIMED_OUT c))"
    using assms pend_wake_one [OF assms(1,3), of "WQ_retcode v"] pend_waiting [OF assms(1), of "WQ_retcode v" t]
    by (cases "WQ_retcode v = w") (auto simp: join_inv_def intro!: join_ok_woken)
  then show "join_ok (wake {t} ERR_TIMED_OUT c v) (pend (WQ_retcode v) (wake {t} ERR_TIMED_OUT c))"
    by (simp add: join_ok_def call_simps)
qed

lemma join_inv_exit:
  assumes "calls_ok q c" "join_inv c" "idle_call (c t)"
  shows "join_inv (wake (waiters (WQ_retcode t) c) NO_ERROR (die t c))"
  unfolding join_inv_def
proof
  fix v
  have p: "pend (WQ_retcode v) (wake (waiters (WQ_retcode t) c) NO_ERROR (die t c)) =
      (if v = t then woken_all NO_ERROR (pend (WQ_retcode v) c) else pend (WQ_retcode v) c)"
    using pend_wake_all [OF calls_ok_life(3) [OF assms(1,3)], of "WQ_retcode v" "WQ_retcode t"]
    by (simp add: waiters_life pend_life)
  have "join_ok (c v) (pend (WQ_retcode v) c)" using assms(2) by (simp add: join_inv_def)
  then show "join_ok (wake (waiters (WQ_retcode t) c) NO_ERROR (die t c) v)
      (pend (WQ_retcode v) (wake (waiters (WQ_retcode t) c) NO_ERROR (die t c)))"
    using idle_callD(3) [OF assms(3)] unfolding p
    by (intro join_okI) (auto simp: call_simps woken_all_def split: if_splits dest: join_okD)
qed

lemma join_inv_detach:
  assumes "calls_ok q c" "join_inv c" "a_live (c t)" "\<not> a_dead (c t)"
  shows "join_inv (set_det t (wake (waiters (WQ_retcode t) c) ERR_THREAD_DETACHED c))"
  unfolding join_inv_def
proof
  fix v
  have "join_ok (c v) (pend (WQ_retcode v) c)" using assms(2) by (simp add: join_inv_def)
  then show "join_ok (set_det t (wake (waiters (WQ_retcode t) c) ERR_THREAD_DETACHED c) v)
      (pend (WQ_retcode v) (set_det t (wake (waiters (WQ_retcode t) c) ERR_THREAD_DETACHED c)))"
    using assms(4) unfolding pend_life pend_wake_all [OF assms(1)]
    by (intro join_okI) (auto simp: call_simps woken_all_def split: if_splits dest: join_okD)
qed

lemma join_inv_create: 
  assumes "join_inv c" "\<forall>u w. \<not> in_call (C_join t w) (c u)"
  shows "join_inv (spawn t r c)"
  unfolding join_inv_def
proof
  fix v
  have "join_ok (c v) ((pend (WQ_retcode v) c)(t := None))" using assms(1) by (simp add: join_inv_def join_ok_mono)
  moreover have "join_ok (spawn t r c t) Map.empty" by (simp add: join_ok_def)
  ultimately show "join_ok (spawn t r c v) (pend (WQ_retcode v) (spawn t r c))"
    using pend_join [OF assms(2)] join_ok_same [of "spawn t r c v" "c v"]
    by (cases "v = t") (simp_all add: pend_life call_simps fun_upd_None)
qed

lemma join_inv_kill:
  assumes "join_inv c" "\<And>v r. pend (WQ_retcode t) c v = Some (Woken r) \<Longrightarrow> r < 0" "a_det (c t) \<or> a_dead (c t)"
  shows "join_inv (kill t c)"
  unfolding join_inv_def
proof
  fix v
  have j: "join_ok (c v) (pend (WQ_retcode v) c)" using assms(1) by (simp add: join_inv_def)
  show "join_ok (kill t c v) (pend (WQ_retcode v) (kill t c))"
  proof (cases "v = t")
    case True
    have nw: "pend (WQ_retcode t) c u \<noteq> Some Waiting" for u using join_okD(2) [OF j, of u] assms(3) True by auto
    have "join_ok (kill t c t) (pend (WQ_retcode t) c)"
    proof (rule join_okI)
      fix u v y z
      assume "pend (WQ_retcode t) c u = Some y" "pend (WQ_retcode t) c v = Some z"
      then show "u = v" using join_okD(1) [OF j] True by metis
    next
      fix u r
      assume "pend (WQ_retcode t) c u = Some (Woken r)" "0 \<le> r"
      then show "a_live (kill t c t) \<and> a_dead (kill t c t)" using assms(2) [of u r] by simp
    qed (simp add: nw)
    then show ?thesis unfolding True pend_life by (rule join_ok_mono)
  next
    case False
    then show ?thesis using join_ok_mono [OF j, of t] join_ok_same [of "kill t c v" "c v"]
      by (simp add: pend_life call_simps)
  qed
qed

lemma join_inv_join:
  assumes "join_inv c" "a_live (c t)" "a_live (c u)" "\<not> a_dead (c u)" "\<not> a_det (c u)" "\<forall>v w. \<not> in_call (C_join u w) (c v)"
  shows "join_inv (block t (WQ_retcode u) (K_wq_block tmo (C_join u w) i) c)"
  unfolding join_inv_def
proof
  fix v
  have p: "pend (WQ_retcode v) (block t (WQ_retcode u) (K_wq_block tmo (C_join u w) i) c) =
      (pend (WQ_retcode v) c)(t := if v = u then Some Waiting else None)"
    using assms(2) by (simp add: pend_block)
  have "join_ok (c v) ((pend (WQ_retcode v) c)(t := None))" using assms(1) by (simp add: join_inv_def join_ok_mono)
  moreover have "join_ok (c u) [t \<mapsto> Waiting]" using assms(3-5) by (auto simp: join_ok_def)
  ultimately show "join_ok (block t (WQ_retcode u) (K_wq_block tmo (C_join u w) i) c v)
     (pend (WQ_retcode v) (block t (WQ_retcode u) (K_wq_block tmo (C_join u w) i) c))"
    unfolding p using pend_join [OF assms(6)]
    by (cases "v = u") (simp_all add: join_ok_same [of "block t (WQ_retcode u) _ c _" "c _"] call_simps)
qed

lemma thread_join_inv:
  assumes "thread_astep A B" "acalls_ok A" "join_inv (a_calls A)"
  shows "join_inv (a_calls B)"
  using assms(1)
proof cases
  case (exit_detached t)
  have "join_ok (a_calls A t) (apend (WQ_retcode t) A)" using assms(3) by (simp add: join_inv_def)
  from join_okD(3) [OF this] have "r < 0" if "apend (WQ_retcode t) A v = Some (Woken r)" for v r
    using that idle_callD(4) [OF exit_detached(2)] by (meson linorder_not_less)
  then show ?thesis using exit_detached assms(3) by (simp add: join_inv_kill)
next
  case (join_reap t u w)
  have "r < 0" if "pend (WQ_retcode u) (set_cont t K_none (a_calls A)) v = Some (Woken r)" for v r
  proof -
    have "v \<noteq> t" "a_live (a_calls A v)" "call_wq (a_cont (a_calls A v)) = Some (WQ_retcode u)" "a_ret (a_calls A v) = r"
      using that by (auto simp: pend_set_cont pend_def split: if_splits)
    moreover have "\<exists>x. call_of k = Some (C_join u x)" if "call_wq k = Some (WQ_retcode u)" for k
    proof -
      have "\<exists>w. d = C_join u w" if "wq_of d = WQ_retcode u" for d using that by (cases d) auto
      then show ?thesis using that by (cases k) (auto simp: call_wq_def call_of_def)
    qed
    ultimately show "r < 0" using join_reap(5) by (auto simp: in_call_def)
  qed
  then have "join_inv (kill u (set_cont t K_none (a_calls A)))"
    using assms(3) join_reap(4) by (intro join_inv_kill join_inv_set_cont) (simp_all add: call_simps)
  then show ?thesis using join_reap by simp
next
  case (timeout w t tmo c i)
  then show ?thesis using join_inv_timeout [OF assms(2,3)] by simp
next
  case (exit t)
  then show ?thesis using join_inv_exit [OF assms(2,3)] by simp
next
  case (detach u)
  then show ?thesis using join_inv_detach [OF assms(2,3)] by simp
next
  case (join_block t u tmo w i)
  then show ?thesis using join_inv_join [OF assms(3)] by (simp add: idle_callD)
next
  case (create t r)
  then show ?thesis using join_inv_create [OF assms(3)] by simp
qed (simp_all add: join_inv_set_cont assms(3))

section \<open>Objects under the steps\<close>

definition mutex_inv :: "nat \<Rightarrow> astate \<Rightarrow> bool" where
  "mutex_inv m A \<longleftrightarrow> (m_magic (a_mut A m) = MUTEX_MAGIC \<longrightarrow>
     aopen (WQ_mutex m) A \<and> mutex_ok (a_mut A m) (apend (WQ_mutex m) A))"

definition sem_inv :: "nat \<Rightarrow> astate \<Rightarrow> bool" where
  "sem_inv n A \<longleftrightarrow> (aopen (WQ_sem n) A \<longrightarrow> sem_ok (a_sem A n) (apend (WQ_sem n) A))"

definition event_inv :: "nat \<Rightarrow> astate \<Rightarrow> bool" where
  "event_inv e A \<longleftrightarrow> (e_magic (a_ev A e) = EVENT_MAGIC \<longrightarrow>
     aopen (WQ_event e) A \<and> event_ok (a_ev A e) (apend (WQ_event e) A))"

text \<open>A thread in \<open>sem_wait\<close> cannot time out.\<close>

definition untimed_ok :: "(tid \<Rightarrow> acall) \<Rightarrow> bool" where
  "untimed_ok c \<longleftrightarrow> (\<forall>u n tmo i. a_live (c u) \<longrightarrow> a_cont (c u) = K_wq_block tmo (C_sem_wait n) i \<longrightarrow>
     tmo = INFINITE_TIME \<and> (a_wait (c u) = None \<longrightarrow> a_ret (c u) \<noteq> ERR_TIMED_OUT))"

lemma mutex_inv_same: "mutex_inv m A \<Longrightarrow> same_queue (WQ_mutex m) A B \<Longrightarrow> a_mut B m = a_mut A m \<Longrightarrow> mutex_inv m B"
  by (simp add: mutex_inv_def same_queue_def)

lemma sem_inv_same: "sem_inv n A \<Longrightarrow> same_queue (WQ_sem n) A B \<Longrightarrow> a_sem B n = a_sem A n \<Longrightarrow> sem_inv n B"
  by (simp add: sem_inv_def same_queue_def)

lemma event_inv_same: "event_inv e A \<Longrightarrow> same_queue (WQ_event e) A B \<Longrightarrow> a_ev B e = a_ev A e \<Longrightarrow> event_inv e B"
  by (simp add: event_inv_def same_queue_def)

lemma thread_mutex_inv:
  assumes "thread_astep A B" "acalls_ok A" "mutex_inv m A"
  shows "mutex_inv m B"
proof -
  have "a_mut B = a_mut A" using thread_objects [OF assms(1)] by (simp add: same_objects_def)
  then show ?thesis using thread_queue [OF assms(1,2), of "WQ_mutex m"] assms(3)
    by (auto simp: same_queue_def timeout_queue_def mutex_inv_def intro: mutex_ok_timeout)
qed

lemma thread_sem_inv:
  assumes "thread_astep A B" "acalls_ok A" "sem_inv n A"
  shows "sem_inv n B"
proof -
  have "a_sem B = a_sem A" using thread_objects [OF assms(1)] by (simp add: same_objects_def)
  then show ?thesis using thread_queue [OF assms(1,2), of "WQ_sem n"] assms(3)
    by (auto simp: same_queue_def timeout_queue_def sem_inv_def intro: sem_ok_timeout)
qed

lemma thread_event_inv:
  assumes "thread_astep A B" "acalls_ok A" "event_inv e A"
  shows "event_inv e B"
proof -
  have "a_ev B = a_ev A" using thread_objects [OF assms(1)] by (simp add: same_objects_def)
  then show ?thesis using thread_queue [OF assms(1,2), of "WQ_event e"] assms(3)
    by (auto simp: same_queue_def timeout_queue_def event_inv_def event_ok_def woken_one_apply split: if_splits)
qed

text \<open>The steps of an object change no other queue and end no thread.\<close>

definition local_step :: "wqid \<Rightarrow> astate \<Rightarrow> astate \<Rightarrow> bool" where
  "local_step w A B \<longleftrightarrow> (\<forall>v. v \<noteq> w \<longrightarrow> same_queue v A B) \<and> (\<forall>u. same_life u A B)"

lemma local_stepI:
  assumes "\<And>v. v \<noteq> w \<Longrightarrow> apend v B = apend v A" "\<And>v. v \<noteq> w \<Longrightarrow> aopen v B = aopen v A"
    "\<And>u. a_live (a_calls B u) = a_live (a_calls A u) \<and> a_dead (a_calls B u) = a_dead (a_calls A u) \<and>
       a_det (a_calls B u) = a_det (a_calls A u)"
  shows "local_step w A B"
  using assms by (simp add: local_step_def same_queue_def same_life_def)

lemma local_quiet:
  assumes "a_calls B = a_calls A" "a_wq B = a_wq A \<or> a_wq B = (a_wq A)(w := b)"
  shows "local_step w A B"
  using assms by (intro local_stepI) (auto simp: w_open_def)

lemma local_block:
  assumes "idle_call (a_calls A t)" "call_of k = Some d" "wq_of d = w" "a_calls B = block t w k (a_calls A)" "a_wq B = a_wq A"
  shows "local_step w A B"
  using assms by (intro local_stepI)
    (auto simp: call_simps pend_block idle_callD call_wq_call block_queue fun_upd_None pend_idle)

lemma local_return:
  assumes "in_call d (a_calls A t)" "wq_of d = w" "a_calls B = set_cont t K_none (a_calls A)" "a_wq B = a_wq A"
  shows "local_step w A B"
proof (rule local_stepI)
  fix v assume "v \<noteq> w"
  then have "call_wq (a_cont (a_calls A t)) \<noteq> Some v" "\<not> closing v (a_calls A t)"
    using assms(1,2) by (auto simp: in_call_def call_wq_call leaves_not_closing)
  then show "apend v B = apend v A" "aopen v B = aopen v A" using assms(3,4) by (simp_all add: set_cont_queue)
qed (simp add: assms(3) call_simps)

lemma local_wake:
  assumes "acalls_ok A" "idle_call (a_calls A t)" "T \<subseteq> waiters w (a_calls A)" "call_wq k = None" "closes_of k = None \<or> closes_of k = Some w"
    "a_calls B = set_cont t k (wake T err (a_calls A))" "a_wq B = a_wq A"
  shows "local_step w A B"
proof (rule local_stepI)
  fix v assume v: "v \<noteq> w"
  have i: "idle_call (wake T err (a_calls A) t)" using assms(2) by (simp add: idle_call_def call_simps)
  show "apend v B = apend v A"
    using assms(4,6) pend_wake_other [OF assms(1,3) v] by (simp add: pend_set_cont fun_upd_None pend_idle assms(2))
  have "u \<noteq> t" if "closing v (a_calls A u)" for u using that idle_callD(2) [OF assms(2)] by auto
  then show "aopen v B = aopen v A" using assms(5-7) v by (auto simp: w_open_def call_simps)
qed (simp add: assms(6) call_simps)

lemma local_join_inv:
  assumes "local_step w A B" "join_inv (a_calls A)" "\<And>v. w \<noteq> WQ_retcode v"
  shows "join_inv (a_calls B)"
  using assms(1,3) by (intro join_inv_mono [OF assms(2)]) (auto simp: local_step_def same_queue_def same_life_def dest: not_sym)

lemma pend_return: "in_call d (c t) \<Longrightarrow> a_wait (c t) = None \<Longrightarrow> w = wq_of d \<Longrightarrow> pend w c t = Some (Woken (a_ret (c t)))"
  by (simp add: pend_in_call)

lemma open_return: "w_open w q c \<Longrightarrow> w_open w q (set_cont t K_none c)"
  by (rule w_open_upd) simp

lemma open_return_iff: "in_call d (c t) \<Longrightarrow> w_open w q (set_cont t K_none c) = w_open w q c"
  by (auto simp: w_open_def call_simps in_call_def) (metis closing_def leaves_not_closing(2))

lemma open_wake: "leaves k \<Longrightarrow> w_open w q c \<Longrightarrow> w_open w q (set_cont t k (wake T err c))"
  by (simp add: w_open_upd)

lemma open_wake_iff: "leaves k \<Longrightarrow> idle_call (c t) \<Longrightarrow> w_open w q (set_cont t k (wake T err c)) = w_open w q c"
  by (auto simp: w_open_def call_simps) (metis idle_callD(2))

lemma pend_wake_one_switch:
  assumes "calls_ok q c" "idle_call (c t)" "leaves k" "u \<in> waiters w c"
  shows "pend w (set_cont t k (wake {u} err c)) = woken_one u err (pend w c)"
  using assms pend_wake_one [OF assms(1), of w u w err] idle_not_waiting [OF assms(1,2), of w]
  by (auto simp: pend_set_cont waiters_def woken_one_def fun_eq_iff pend_idle)

lemma pend_wake_all_switch:
  assumes "calls_ok q c" "idle_call (c t)" "leaves k"
  shows "pend w (set_cont t k (wake (waiters w c) err c)) = woken_all err (pend w c)"
  using assms pend_wake_all [OF assms(1), of w w err] by (auto simp: pend_set_cont woken_all_def fun_eq_iff pend_idle)

definition mutex_step_ok :: "nat \<Rightarrow> astate \<Rightarrow> astate \<Rightarrow> bool" where
  "mutex_step_ok m A B \<longleftrightarrow> local_step (WQ_mutex m) A B \<and> acalls_ok B \<and> mutex_inv m B \<and>
     (\<forall>j. j \<noteq> m \<longrightarrow> a_mut B j = a_mut A j) \<and> a_sem B = a_sem A \<and> a_ev B = a_ev A"

lemma mutex_stepI:
  assumes "local_step (WQ_mutex m) A B" "acalls_ok B" "mutex_inv m B" "\<forall>j. j \<noteq> m \<longrightarrow> a_mut B j = a_mut A j"
    "a_sem B = a_sem A" "a_ev B = a_ev A"
  shows "mutex_step_ok m A B"
  using assms by (simp add: mutex_step_ok_def)

lemma mutex_step:
  assumes "mutex_astep A B" "acalls_ok A" "\<And>m. mutex_inv m A"
  shows "\<exists>m. mutex_step_ok m A B"
  using assms(1)
proof cases
  case (m_init m)
  have "mutex_inv m B" unfolding m_init(1)
    using m_init(2) by (simp add: mutex_inv_def w_open_fresh fresh_object_iff mutex_ok_init)
  then show ?thesis using m_init assms(2) by (intro exI mutex_stepI) (auto intro!: local_quiet calls_ok_init)
next
  case (m_acquire t m)
  then have "mutex_inv m B" using assms(3) [of m] by (auto simp: mutex_inv_def mutex_ok_acquire)
  then show ?thesis using m_acquire assms(2) by (intro exI mutex_stepI) (auto intro!: local_quiet)
next
  case (m_block t m tmo i)
  then have "mutex_inv m B" using assms(3) [of m]
    by (simp add: mutex_inv_def w_open_upd pend_block idle_callD pend_idle mutex_ok_block)
  moreover have "aopen (WQ_mutex m) A" using m_block(3) assms(3) [of m] by (simp add: mutex_inv_def)
  ultimately show ?thesis using m_block assms(2)
    by (intro exI mutex_stepI) (auto intro!: local_block calls_ok_block)
next
  case (m_got m t)
  have "mutex_inv m B" using assms(3) [of m] m_got pend_return [of "C_mutex m" "a_calls A" t "WQ_mutex m"]
    by (simp add: mutex_inv_def open_return pend_set_cont mutex_ok_got)
  then show ?thesis using m_got assms(2)
    by (intro exI mutex_stepI) (auto intro!: local_return intro: calls_ok_return)
next
  case (m_fail m t)
  have "mutex_inv m B" using assms(3) [of m] m_fail pend_return [of "C_mutex m" "a_calls A" t "WQ_mutex m"]
    mutex_ok_fail [of "a_mut A m" "apend (WQ_mutex m) A" t "a_ret (a_calls A t)"]
    by (auto simp: mutex_inv_def open_return pend_set_cont)
  then show ?thesis using m_fail assms(2)
    by (intro exI mutex_stepI) (auto intro!: local_return intro: calls_ok_return)
next
  case (m_release t m)
  then have "mutex_inv m B" using assms(3) [of m] by (auto simp: mutex_inv_def intro: mutex_ok_release)
  then show ?thesis using m_release assms(2) by (intro exI mutex_stepI) (auto intro!: local_quiet)
next
  case (m_release_wake t m u k)
  then have "mutex_inv m B" using assms(3) [of m] pend_waiting [OF assms(2), of "WQ_mutex m" u]
    by (simp add: mutex_inv_def open_wake pend_wake_one_switch [OF assms(2)] mutex_ok_release_wake waiters_def)
  then show ?thesis using m_release_wake assms(2)
    by (intro exI mutex_stepI) (auto intro!: local_wake [where T = "{u}" and t = t and k = k] calls_ok_wake_switch)
next
  case (m_destroy t m)
  then have "mutex_inv m B" by (simp add: mutex_inv_def)
  moreover have "aopen (WQ_mutex m) A" using m_destroy(3) assms(3) [of m] by (simp add: mutex_inv_def)
  ultimately show ?thesis using m_destroy assms(2)
    by (intro exI mutex_stepI) (auto simp: w_open_def intro!: local_quiet calls_ok_free)
next
  case (m_destroy_wake t m i)
  then have "mutex_inv m B" by (simp add: mutex_inv_def)
  moreover have "aopen (WQ_mutex m) A" using m_destroy_wake(3) assms(3) [of m] by (simp add: mutex_inv_def)
  ultimately show ?thesis using m_destroy_wake assms(2)
    by (intro exI mutex_stepI) (auto intro!: local_wake calls_ok_destroy)
qed

definition sem_step_ok :: "nat \<Rightarrow> astate \<Rightarrow> astate \<Rightarrow> bool" where
  "sem_step_ok n A B \<longleftrightarrow> local_step (WQ_sem n) A B \<and> acalls_ok B \<and> sem_inv n B \<and>
     (\<forall>j. j \<noteq> n \<longrightarrow> a_sem B j = a_sem A j) \<and> a_mut B = a_mut A \<and> a_ev B = a_ev A"

lemma sem_stepI:
  assumes "local_step (WQ_sem n) A B" "acalls_ok B" "sem_inv n B" "\<forall>j. j \<noteq> n \<longrightarrow> a_sem B j = a_sem A j"
    "a_mut B = a_mut A" "a_ev B = a_ev A"
  shows "sem_step_ok n A B"
  using assms by (simp add: sem_step_ok_def)

lemma untimed_return:
  assumes "untimed_ok c" "in_call (C_sem_wait n) (c t)" "a_wait (c t) = None"
  shows "a_ret (c t) \<noteq> ERR_TIMED_OUT"
proof -
  obtain tmo i where "a_cont (c t) = K_wq_block tmo (C_sem_wait n) i"
    using assms(2) by (auto simp: in_call_def call_of_def split: cont.splits)
  then show ?thesis using assms by (auto simp: untimed_ok_def in_call_def)
qed

lemma sem_step:
  assumes "sem_astep A B" "acalls_ok A" "\<And>n. sem_inv n A" "untimed_ok (a_calls A)"
  shows "\<exists>n. sem_step_ok n A B"
  using assms(1)
proof cases
  case (s_init n v)
  have "sem_inv n B" unfolding s_init(1)
    using s_init(2-4) by (simp add: sem_inv_def fresh_object_iff sem_ok_init)
  then show ?thesis using s_init assms(2) by (intro exI sem_stepI) (auto intro!: local_quiet calls_ok_init)
next
  case (s_take t n)
  then have "sem_inv n B" using assms(3) [of n] by (auto simp: sem_inv_def sem_ok_take)
  then show ?thesis using s_take assms(2) by (intro exI sem_stepI) (auto intro!: local_quiet)
next
  case (s_block t n c tmo i)
  have c: "wq_of c = WQ_sem n" using s_block(6) by auto
  have "sem_inv n B" using s_block(1-3,5) assms(3) [of n] c
    by (simp add: sem_inv_def pend_block idle_callD pend_idle sem_ok_block block_queue)
  then show ?thesis using s_block(1-3) assms(2) c
    by (intro exI sem_stepI) (auto intro!: local_block calls_ok_block)
next
  case (s_done n t)
  then obtain d where d: "in_call d (a_calls A t)" "wq_of d = WQ_sem n" "a_ret (a_calls A t) \<noteq> ERR_TIMED_OUT"
    using untimed_return [OF assms(4), of n t] by fastforce
  have "sem_inv n B" using assms(3) [of n] s_done(1,3) d pend_return [of d "a_calls A" t "WQ_sem n"]
    by (simp add: sem_inv_def open_return_iff pend_set_cont sem_ok_done)
  then show ?thesis using s_done assms(2) d
    by (intro exI sem_stepI) (auto intro!: local_return [OF d(1)] intro: calls_ok_return)
next
  case (s_fail n t)
  have "sem_inv n B" using assms(3) [of n] s_fail pend_return [of "C_sem_timedwait n" "a_calls A" t "WQ_sem n"]
    by (simp add: sem_inv_def open_return_iff pend_set_cont sem_ok_fail)
  then show ?thesis using s_fail assms(2)
    by (intro exI sem_stepI) (auto intro!: local_return intro: calls_ok_return)
next
  case (s_post t n)
  then have "sem_inv n B" using assms(3) [of n] by (auto simp: sem_inv_def intro: sem_ok_post)
  then show ?thesis using s_post assms(2) by (intro exI sem_stepI) (auto intro!: local_quiet)
next
  case (s_post_wake t n u k)
  then have "sem_inv n B" using assms(3) [of n] pend_waiting [OF assms(2), of "WQ_sem n" u]
    by (simp add: sem_inv_def open_wake_iff pend_wake_one_switch [OF assms(2)] sem_ok_post_wake waiters_def)
  then show ?thesis using s_post_wake assms(2)
    by (intro exI sem_stepI) (auto intro!: local_wake [where T = "{u}" and t = t and k = k] calls_ok_wake_switch)
next
  case (s_destroy t n)
  then have "sem_inv n B" by (simp add: sem_inv_def w_open_def)
  then show ?thesis using s_destroy assms(2)
    by (intro exI sem_stepI) (auto simp: w_open_def intro!: local_quiet calls_ok_free)
next
  case (s_destroy_wake t n i)
  then have "sem_inv n B" by (auto simp: sem_inv_def w_open_def call_simps idle_call_def)
  then show ?thesis using s_destroy_wake assms(2)
    by (intro exI sem_stepI) (auto intro!: local_wake calls_ok_destroy)
qed

definition event_step_ok :: "nat \<Rightarrow> astate \<Rightarrow> astate \<Rightarrow> bool" where
  "event_step_ok e A B \<longleftrightarrow> local_step (WQ_event e) A B \<and> acalls_ok B \<and> event_inv e B \<and>
     (\<forall>j. j \<noteq> e \<longrightarrow> a_ev B j = a_ev A j) \<and> a_mut B = a_mut A \<and> a_sem B = a_sem A"

lemma event_stepI:
  assumes "local_step (WQ_event e) A B" "acalls_ok B" "event_inv e B" "\<forall>j. j \<noteq> e \<longrightarrow> a_ev B j = a_ev A j"
    "a_mut B = a_mut A" "a_sem B = a_sem A"
  shows "event_step_ok e A B"
  using assms by (simp add: event_step_ok_def)

lemma event_step:
  assumes "event_astep A B" "acalls_ok A" "\<And>e. event_inv e A"
  shows "\<exists>e. event_step_ok e A B"
  using assms(1)
proof cases
  case (e_init e b fl)
  have "event_inv e B" unfolding e_init(1)
    using e_init(2) by (simp add: event_inv_def w_open_fresh fresh_object_iff event_ok_def)
  then show ?thesis using e_init assms(2) by (intro exI event_stepI) (auto intro!: local_quiet calls_ok_init)
next
  case (e_pass t e)
  then have "event_inv e B" using assms(3) [of e] by (auto simp: event_inv_def event_ok_def)
  then show ?thesis using e_pass assms(2) by (intro exI event_stepI) (auto intro!: local_quiet)
next
  case (e_block t e tmo i)
  then have "event_inv e B" using assms(3) [of e]
    by (simp add: event_inv_def w_open_upd event_ok_def)
  moreover have "aopen (WQ_event e) A" using e_block(3) assms(3) [of e] by (simp add: event_inv_def)
  ultimately show ?thesis using e_block assms(2)
    by (intro exI event_stepI) (auto intro!: local_block calls_ok_block)
next
  case (e_done e t)
  have "event_inv e B" using assms(3) [of e] e_done by (simp add: event_inv_def open_return pend_set_cont event_ok_def)
  then show ?thesis using e_done assms(2)
    by (intro exI event_stepI) (auto intro!: local_return intro: calls_ok_return)
next
  case (e_signal t e)
  then have "event_inv e B" using assms(3) [of e] pend_waiting [OF assms(2), of "WQ_event e"]
    by (auto simp: event_inv_def event_ok_def waiters_def)
  then show ?thesis using e_signal assms(2) by (intro exI event_stepI) (auto intro!: local_quiet)
next
  case (e_signal_one t e u k)
  then have "event_inv e B" using assms(3) [of e] by (simp add: event_inv_def open_wake event_ok_def)
  then show ?thesis using e_signal_one assms(2)
    by (intro exI event_stepI) (auto intro!: local_wake [where T = "{u}" and t = t and k = k] calls_ok_wake_switch)
next
  case (e_signal_all t e k)
  then have "event_inv e B" using assms(3) [of e] 
    by (simp add: event_inv_def open_wake event_ok_def pend_wake_all_switch [OF assms(2)] woken_all_def)
  then show ?thesis using e_signal_all assms(2)
    by (intro exI event_stepI) (auto intro!: local_wake [where t = t and k = k] calls_ok_wake_switch)
next
  case (e_unsignal e)
  then have "event_inv e B" using assms(3) [of e] by (simp add: event_inv_def event_ok_def)
  then show ?thesis using e_unsignal assms(2) by (intro exI event_stepI) (auto intro!: local_quiet)
next
  case (e_destroy t e)
  then have "event_inv e B" by (simp add: event_inv_def)
  moreover have "aopen (WQ_event e) A" using e_destroy(3) assms(3) [of e] by (simp add: event_inv_def)
  ultimately show ?thesis using e_destroy assms(2)
    by (intro exI event_stepI) (auto simp: w_open_def intro!: local_quiet calls_ok_free)
next
  case (e_destroy_wake t e i)
  then have "event_inv e B" by (simp add: event_inv_def)
  moreover have "aopen (WQ_event e) A" using e_destroy_wake(3) assms(3) [of e] by (simp add: event_inv_def)
  ultimately show ?thesis using e_destroy_wake assms(2)
    by (intro exI event_stepI) (auto intro!: local_wake calls_ok_destroy)
qed

section \<open>The invariant\<close>

lemma untimed_set_cont: "untimed_ok c \<Longrightarrow> call_of k = None \<Longrightarrow> untimed_ok (set_cont t k c)"
  by (auto simp: untimed_ok_def call_simps)

lemma untimed_block: "untimed_ok c \<Longrightarrow> (\<And>n. d = C_sem_wait n \<Longrightarrow> tmo = INFINITE_TIME) \<Longrightarrow> untimed_ok (block t w (K_wq_block tmo d i) c)"
  by (auto simp: untimed_ok_def call_simps)

lemma untimed_wake: "untimed_ok c \<Longrightarrow> err \<noteq> ERR_TIMED_OUT \<Longrightarrow> untimed_ok (wake T err c)"
  by (auto simp: untimed_ok_def call_simps)

lemma untimed_timeout:
  "untimed_ok c \<Longrightarrow> a_cont (c t) = K_wq_block tmo d i \<Longrightarrow> tmo \<noteq> INFINITE_TIME \<Longrightarrow> untimed_ok (wake {t} ERR_TIMED_OUT c)"
  by (auto simp: untimed_ok_def call_simps)

lemma untimed_life:
  "untimed_ok c \<Longrightarrow> untimed_ok (kill t c)" "untimed_ok c \<Longrightarrow> untimed_ok (die t c)" "untimed_ok c \<Longrightarrow> untimed_ok (set_det t c)"
  "untimed_ok c \<Longrightarrow> untimed_ok (spawn t r c)"
  by (auto simp: untimed_ok_def update_defs)

lemma untimed_step: "astep A B \<Longrightarrow> untimed_ok (a_calls A) \<Longrightarrow> untimed_ok (a_calls B)"
  unfolding astep_def
  by (elim disjE thread_astep.cases mutex_astep.cases sem_astep.cases event_astep.cases) (auto intro!: untimed_set_cont untimed_block untimed_life
      intro: untimed_wake untimed_timeout)

definition ainv :: "astate \<Rightarrow> bool" where
  "ainv A \<longleftrightarrow> acalls_ok A \<and> join_inv (a_calls A) \<and> untimed_ok (a_calls A) \<and>
     (\<forall>m. mutex_inv m A) \<and> (\<forall>n. sem_inv n A) \<and> (\<forall>e. event_inv e A)"

lemma ainvD:
  assumes "ainv A"
  shows "acalls_ok A" "join_inv (a_calls A)" "untimed_ok (a_calls A)" "mutex_inv m A" "sem_inv n A" "event_inv e A"
  using assms by (auto simp: ainv_def)

lemma local_others:
  assumes "local_step w A B" "ainv A"
  shows "WQ_mutex m \<noteq> w \<Longrightarrow> a_mut B m = a_mut A m \<Longrightarrow> mutex_inv m B"
    "WQ_sem n \<noteq> w \<Longrightarrow> a_sem B n = a_sem A n \<Longrightarrow> sem_inv n B"
    "WQ_event e \<noteq> w \<Longrightarrow> a_ev B e = a_ev A e \<Longrightarrow> event_inv e B"
  using assms by (auto simp: local_step_def ainv_def intro: mutex_inv_same sem_inv_same event_inv_same)

lemma ainv_thread:
  assumes "ainv A" "thread_astep A B"
  shows "ainv B"
  using assms untimed_step [of A B] unfolding ainv_def astep_def
  by (auto intro: thread_calls_ok thread_join_inv thread_mutex_inv thread_sem_inv thread_event_inv)

lemma ainv_mutex:
  assumes "ainv A" "mutex_astep A B"
  shows "ainv B"
proof -
  obtain m where m: "local_step (WQ_mutex m) A B" "acalls_ok B" "mutex_inv m B" "\<And>j. j \<noteq> m \<Longrightarrow> a_mut B j = a_mut A j"
    "a_sem B = a_sem A" "a_ev B = a_ev A"
    using mutex_step [OF assms(2) ainvD(1,4) [OF assms(1)]] by (auto simp: mutex_step_ok_def)
  have "untimed_ok (a_calls B)" using untimed_step [of A B] assms by (simp add: astep_def ainv_def)
  moreover have "mutex_inv j B" for j using m(3,4) local_others(1) [OF m(1) assms(1), of j] by (cases "j = m") auto
  ultimately show ?thesis using m local_others(2,3) [OF m(1) assms(1)] local_join_inv [OF m(1)] assms(1)
    by (simp add: ainv_def)
qed

lemma ainv_sem:
  assumes "ainv A" "sem_astep A B"
  shows "ainv B"
proof -
  obtain n where n: "local_step (WQ_sem n) A B" "acalls_ok B" "sem_inv n B" "\<And>j. j \<noteq> n \<Longrightarrow> a_sem B j = a_sem A j"
    "a_mut B = a_mut A" "a_ev B = a_ev A"
    using sem_step [OF assms(2) ainvD(1,5,3) [OF assms(1)]] by (auto simp: sem_step_ok_def)
  have "untimed_ok (a_calls B)" using untimed_step [of A B] assms by (simp add: astep_def ainv_def)
  moreover have "sem_inv j B" for j using n(3,4) local_others(2) [OF n(1) assms(1), of j] by (cases "j = n") auto
  ultimately show ?thesis using n local_others(1,3) [OF n(1) assms(1)] local_join_inv [OF n(1)] assms(1)
    by (simp add: ainv_def)
qed

lemma ainv_event:
  assumes "ainv A" "event_astep A B"
  shows "ainv B"
proof -
  obtain e where e: "local_step (WQ_event e) A B" "acalls_ok B" "event_inv e B" "\<And>j. j \<noteq> e \<Longrightarrow> a_ev B j = a_ev A j"
    "a_mut B = a_mut A" "a_sem B = a_sem A"
    using event_step [OF assms(2) ainvD(1,6) [OF assms(1)]] by (auto simp: event_step_ok_def)
  have "untimed_ok (a_calls B)" using untimed_step [of A B] assms by (simp add: astep_def ainv_def)
  moreover have "event_inv j B" for j using e(3,4) local_others(3) [OF e(1) assms(1), of j] by (cases "j = e") auto
  ultimately show ?thesis using e local_others(1,2) [OF e(1) assms(1)] local_join_inv [OF e(1)] assms(1)
    by (simp add: ainv_def)
qed

lemma ainv_step: "ainv A \<Longrightarrow> astep A B \<Longrightarrow> ainv B"
  unfolding astep_def by (elim disjE) (rule ainv_thread ainv_mutex ainv_sem ainv_event; assumption)+

lemma ainv_steps: "astep\<^sup>*\<^sup>* A B \<Longrightarrow> ainv A \<Longrightarrow> ainv B"
  by (induction rule: rtranclp_induct) (auto intro: ainv_step)

end
