(* ===== verification/Ring.thy ===== *)
theory Ring
  imports Prelude
begin

text \<open>
  Circular storage: what a ring of \<open>n\<close> slots holds from slot \<open>h\<close> on, and how writing behind the
  last element, block by block or one by one, and taking from the front change it. Block copies into
  and out of a byte array. The interface of a bounded queue that the ring buffers of the kernel
  implement.
\<close>

section \<open>Block copies\<close>

text \<open>\<open>memcpy\<close> out of and into an array; an access beyond the array is the outcome \<open>None\<close>.\<close>

definition mem_read :: "nat \<Rightarrow> nat \<Rightarrow> 'a list \<Rightarrow> 'a list option" where
  "mem_read off n xs = (if off + n \<le> length xs then Some (take n (drop off xs)) else None)"

definition mem_write :: "nat \<Rightarrow> 'a list \<Rightarrow> 'a list \<Rightarrow> 'a list option" where
  "mem_write off ys xs = (if off + length ys \<le> length xs then Some (take off xs @ ys @ drop (off + length ys) xs) else None)"

lemma mem_read_Some: "off + n \<le> length xs \<Longrightarrow> mem_read off n xs = Some (take n (drop off xs))"
  by (simp add: mem_read_def)

lemma mem_write_SomeD:
  assumes "mem_write off ys xs = Some zs"
  shows "off + length ys \<le> length xs" "zs = take off xs @ ys @ drop (off + length ys) xs" "length zs = length xs"
  using assms by (auto simp: mem_write_def split: if_splits)

lemma mem_write_Nil: "mem_write off [] xs = (if off \<le> length xs then Some xs else None)"
  by (simp add: mem_write_def)

lemma mem_write_Cons: "off < length xs \<Longrightarrow> mem_write off (y # ys) xs = mem_write (Suc off) ys (xs[off := y])"
  by (auto simp: mem_write_def upd_conv_take_nth_drop min_def add.commute)

section \<open>Rings\<close>

definition ring_data :: "'a list \<Rightarrow> nat \<Rightarrow> nat \<Rightarrow> nat \<Rightarrow> 'a list" where
  "ring_data xs n h k = map (\<lambda>i. xs ! ((h + i) mod n)) [0..<k]"

lemma length_ring_data [simp]: "length (ring_data xs n h k) = k"
  by (simp add: ring_data_def)

lemma ring_data_0 [simp]: "ring_data xs n h 0 = []"
  by (simp add: ring_data_def)

lemma mod_add_inj: "i < k \<Longrightarrow> k < n \<Longrightarrow> (h + i) mod n \<noteq> (h + k) mod (n :: nat)"
  using mod_eq_dvd_iff_nat [of "h + i" "h + k" n] nat_dvd_not_less [of "k - i" n] by auto

lemma ring_push:
  assumes "k < n" "length xs = n"
  shows "ring_data (xs[(h + k) mod n := x]) n h (Suc k) = ring_data xs n h k @ [x]"
proof -
  have "n > 0" using assms by simp
  moreover have "(h + k) mod n \<noteq> (h + i) mod n" if "i < k" for i using mod_add_inj [OF that assms(1), of h] by simp
  ultimately show ?thesis using assms by (simp add: ring_data_def)
qed

lemma ring_pop: "k > 0 \<Longrightarrow> ring_data xs n h k = xs ! (h mod n) # ring_data xs n (Suc h) (k - 1)"
  by (rule nth_equalityI) (auto simp: ring_data_def nth_Cons split: nat.splits)

lemma ring_data_mod [simp]: "ring_data xs n (h mod n) k = ring_data xs n h k"
  by (simp add: ring_data_def mod_add_left_eq)

lemma ring_drop: "w \<le> k \<Longrightarrow> ring_data xs n (h + w) (k - w) = drop w (ring_data xs n h k)"
  by (rule nth_equalityI) (auto simp: ring_data_def add.assoc nth_upt)

lemma ring_take: "w \<le> k \<Longrightarrow> h + w \<le> n \<Longrightarrow> length xs = n \<Longrightarrow> take w (drop h xs) = take w (ring_data xs n h k)"
  by (rule nth_equalityI) (auto simp: ring_data_def)

lemma ring_block:
  assumes "k + length ys < n" "length xs = n" "e = (h + k) mod n" "e + length ys \<le> n" "mem_write e ys xs = Some zs"
  shows "ring_data zs n h (k + length ys) = ring_data xs n h k @ ys"
  using assms
proof (induction ys arbitrary: k xs e)
  case Nil
  then show ?case by (simp add: mem_write_def)
next
  case (Cons y ys)
  have e: "e < length xs" using Cons.prems by simp
  have w: "mem_write (Suc e) ys (xs[e := y]) = Some zs" using Cons.prems(5) mem_write_Cons [OF e] by simp
  show ?case
  proof (cases "ys = []")
    case True
    then have "zs = xs[e := y]" using w e by (simp add: mem_write_Nil)
    then show ?thesis using True Cons.prems(1-3) ring_push [of k n xs h y] by simp
  next
    case False
    then have l: "Suc e < n" using Cons.prems(4) by (cases ys) auto
    then have "Suc e = (h + Suc k) mod n" using Cons.prems(3) by (simp add: mod_Suc)
    then have "ring_data zs n h (Suc k + length ys) = ring_data (xs[e := y]) n h (Suc k) @ ys"
      using Cons.prems w by (intro Cons.IH) auto
    then show ?thesis using ring_push [of k n xs h y] Cons.prems(1-3) by simp
  qed
qed

section \<open>Bounded queues\<close>

text \<open>Putting items one by one until one is refused, with their number; taking up to \<open>n\<close> items.\<close>

fun put_all :: "('a \<Rightarrow> 's \<Rightarrow> 's option) \<Rightarrow> 'a list \<Rightarrow> 's \<Rightarrow> nat \<times> 's" where
  "put_all put [] s = (0, s)"
| "put_all put (x # xs) s = (case put x s of None \<Rightarrow> (0, s) | Some s' \<Rightarrow> let (n, t) = put_all put xs s' in (Suc n, t))"

fun get_all :: "('s \<Rightarrow> ('a \<times> 's) option) \<Rightarrow> nat \<Rightarrow> 's \<Rightarrow> 'a list \<times> 's" where
  "get_all get 0 s = ([], s)"
| "get_all get (Suc n) s = (case get s of None \<Rightarrow> ([], s) | Some (x, s') \<Rightarrow> let (xs, t) = get_all get n s' in (x # xs, t))"

text \<open>
  The interface of a bounded first-in first-out queue: \<open>put\<close> appends an item and is refused exactly
  on a full queue, \<open>get\<close> takes the oldest item and is refused exactly on an empty one.
\<close>

locale bounded_fifo =
  fixes ok :: "'s \<Rightarrow> bool" and items :: "'s \<Rightarrow> 'a list" and capacity :: "'s \<Rightarrow> nat"
    and put :: "'a \<Rightarrow> 's \<Rightarrow> 's option" and get :: "'s \<Rightarrow> ('a \<times> 's) option"
  assumes put_item: "ok s \<Longrightarrow> length (items s) < capacity s \<Longrightarrow>
      \<exists>s'. put x s = Some s' \<and> ok s' \<and> items s' = items s @ [x] \<and> capacity s' = capacity s"
    and put_full: "ok s \<Longrightarrow> length (items s) = capacity s \<Longrightarrow> put x s = None"
    and items_bound: "ok s \<Longrightarrow> length (items s) \<le> capacity s"
    and get_item: "ok s \<Longrightarrow> items s = x # xs \<Longrightarrow> \<exists>s'. get s = Some (x, s') \<and> ok s' \<and> items s' = xs \<and> capacity s' = capacity s"
    and get_empty: "ok s \<Longrightarrow> items s = [] \<Longrightarrow> get s = None"
begin

lemma put_all_items:
  "ok s \<Longrightarrow> \<exists>s'. put_all put xs s = (min (length xs) (capacity s - length (items s)), s') \<and> ok s' \<and>
    items s' = items s @ take (capacity s - length (items s)) xs \<and> capacity s' = capacity s"
proof (induction xs arbitrary: s)
  case Nil
  then show ?case by simp
next
  case (Cons x xs)
  show ?case
  proof (cases "length (items s) < capacity s")
    case True
    then obtain s1 where s1: "put x s = Some s1" "ok s1" "items s1 = items s @ [x]" "capacity s1 = capacity s"
      using put_item [of s x] Cons.prems by auto
    have c: "capacity s - length (items s) = Suc (capacity s - Suc (length (items s)))" using True by simp
    show ?thesis using Cons.IH [OF s1(2)] s1 by (auto simp: c)
  next
    case False
    then have "length (items s) = capacity s" using items_bound [OF Cons.prems] by simp
    then show ?thesis using put_full [OF Cons.prems] Cons.prems by simp
  qed
qed

lemma get_all_items:
  "ok s \<Longrightarrow> \<exists>s'. get_all get n s = (take n (items s), s') \<and> ok s' \<and> items s' = drop n (items s) \<and> capacity s' = capacity s"
proof (induction n arbitrary: s)
  case 0
  then show ?case by simp
next
  case (Suc n)
  show ?case
  proof (cases "items s")
    case Nil
    then show ?thesis using get_empty [OF Suc.prems] Suc.prems by simp
  next
    case (Cons x xs)
    obtain s1 where s1: "get s = Some (x, s1)" "ok s1" "items s1 = xs" "capacity s1 = capacity s"
      using get_item [OF Suc.prems Cons] by auto
    then show ?thesis using Suc.IH [OF s1(2)] Cons by auto
  qed
qed

text \<open>What has been put into an empty queue comes out, in order.\<close>

lemma put_get_all:
  assumes "ok s" "items s = []" "length xs \<le> capacity s" "put_all put xs s = (n, s')"
  shows "fst (get_all get (length xs) s') = xs"
  using put_all_items [OF assms(1), of xs] get_all_items [of s' "length xs"] assms(2-4) by auto

end

end
