(* ===== verification/Cbuf.thy ===== *)
theory Cbuf
  imports Ring Pow2 Sync
begin

text \<open>
  The circular byte buffer of \<open>lib/cbuf/cbuf.c\<close>: one slot is always free, so that a full buffer
  differs from an empty one. Readers wait on an event that the writer signals.
\<close>

section \<open>State\<close>

text \<open>
  \<open>len_pow2\<close> is a small number, kept as a natural; \<open>cb_event\<close> names the event. \<open>cb_lock\<close> is the
  buffer's spinlock; taking it again on the cpu that holds it is the outcome \<open>None\<close>.
\<close>

record cbuf =
  head :: u32
  tail :: u32
  len_pow2 :: nat
  buf :: "u8 list"
  cb_event :: nat
  cb_lock :: bool

definition INC_POINTER :: "cbuf \<Rightarrow> u32 \<Rightarrow> nat \<Rightarrow> u32" where
  "INC_POINTER c ptr inc = modpow2 (ptr + word_of_nat inc) (len_pow2 c)"

definition cbuf_size :: "cbuf \<Rightarrow> nat" where
  "cbuf_size c = 2 ^ len_pow2 c"

definition cbuf_initialize_etc :: "nat \<Rightarrow> u8 list \<Rightarrow> nat \<Rightarrow> 'a sync_state_scheme \<Rightarrow> (cbuf \<times> 'a sync_state_scheme) option" where
  "cbuf_initialize_etc len mem e s = do {
     guard_that (len > 0);
     guard_that (ispow2 (word_of_nat len));
     Some (\<lparr>head = 0, tail = 0, len_pow2 = log2_uint (word_of_nat len), buf = mem, cb_event = e, cb_lock = False\<rparr>,
           event_init e False 0 s) }"

definition cbuf_space_avail :: "cbuf \<Rightarrow> u32" where
  "cbuf_space_avail c = (let consumed = modpow2 (head c - tail c) (len_pow2 c) in valpow2 (len_pow2 c) - consumed - 1)"

definition cbuf_space_used :: "cbuf \<Rightarrow> u32" where
  "cbuf_space_used c = modpow2 (head c - tail c) (len_pow2 c)"

text \<open>\<open>spin_lock_irqsave\<close> and \<open>spin_unlock_irqrestore\<close> on the buffer's lock.\<close>

definition cbuf_lock :: "nat \<Rightarrow> cbuf \<Rightarrow> 'a sync_state_scheme \<Rightarrow> (bool \<times> cbuf \<times> 'a sync_state_scheme) option" where
  "cbuf_lock cpu c s = (if cb_lock c then None
     else Some (ints_disabled s cpu, c\<lparr>cb_lock := True\<rparr>, s\<lparr>ints_disabled := (ints_disabled s)(cpu := True)\<rparr>))"

definition cbuf_unlock :: "nat \<Rightarrow> bool \<Rightarrow> cbuf \<Rightarrow> 'a sync_state_scheme \<Rightarrow> cbuf \<times> 'a sync_state_scheme" where
  "cbuf_unlock cpu i c s = (c\<lparr>cb_lock := False\<rparr>, s\<lparr>ints_disabled := (ints_disabled s)(cpu := i)\<rparr>)"

section \<open>Writing\<close>

definition cbuf_write_len :: "cbuf \<Rightarrow> nat \<Rightarrow> nat" where
  "cbuf_write_len c rest =
     (if head c \<ge> tail c
      then if tail c = 0 then min (unat (valpow2 (len_pow2 c) - head c - 1)) rest
           else min (unat (valpow2 (len_pow2 c) - head c)) rest
      else min (unat (tail c - head c - 1)) rest)"

text \<open>The data to write is a byte array, or \<open>None\<close> for the null pointer, which writes zeros.\<close>

definition cbuf_write_chunk :: "u8 list option \<Rightarrow> nat \<Rightarrow> nat \<Rightarrow> cbuf \<Rightarrow> cbuf option" where
  "cbuf_write_chunk src pos write_len c = do {
     bytes \<leftarrow> (case src of None \<Rightarrow> Some (replicate write_len 0) | Some xs \<Rightarrow> mem_read pos write_len xs);
     mem \<leftarrow> mem_write (unat (head c)) bytes (buf c);
     Some (c\<lparr>buf := mem, head := INC_POINTER c (head c) write_len\<rparr>) }"

function cbuf_write_loop :: "u8 list option \<Rightarrow> nat \<Rightarrow> nat \<Rightarrow> cbuf \<Rightarrow> (nat \<times> cbuf) option" where
  "cbuf_write_loop src len pos c =
     (if pos < len \<and> cbuf_space_avail c > 0
      then let write_len = cbuf_write_len c (len - pos) in
        if write_len = 0 then Some (pos, c)
        else cbuf_write_chunk src pos write_len c \<bind> cbuf_write_loop src len (pos + write_len)
      else Some (pos, c))"
  by pat_completeness auto
termination
  by (relation "measure (\<lambda>(_, len, pos, _). len - pos)") auto

declare cbuf_write_loop.simps [simp del]

definition cbuf_write :: "nat \<Rightarrow> u8 list option \<Rightarrow> nat \<Rightarrow> bool \<Rightarrow> cbuf \<Rightarrow> 'a sync_state_scheme \<Rightarrow>
    (nat \<times> cbuf \<times> 'a sync_state_scheme) option" where
  "cbuf_write cpu src len canreschedule c s = do {
     guard_that (len < unat (valpow2 (len_pow2 c)));
     (i, c1, s1) \<leftarrow> cbuf_lock cpu c s;
     (pos, c2) \<leftarrow> cbuf_write_loop src len 0 c1;
     s2 \<leftarrow> (if head c2 \<noteq> tail c2 then event_signal cpu (cb_event c2) False s1 else Some s1);
     let (c3, s3) = cbuf_unlock cpu i c2 s2;
     s4 \<leftarrow> (if canreschedule then thread_preempt cpu s3 else Some s3);
     Some (pos, c3, s4) }"

text \<open>The store of one byte, and \<open>cbuf_write_char\<close> with \<open>canreschedule\<close> false, as all its callers use it.\<close>

definition cbuf_put_char :: "u8 \<Rightarrow> cbuf \<Rightarrow> cbuf option" where
  "cbuf_put_char ch c = do {
     mem \<leftarrow> mem_write (unat (head c)) [ch] (buf c);
     Some (c\<lparr>buf := mem, head := INC_POINTER c (head c) 1\<rparr>) }"

definition cbuf_write_char :: "nat \<Rightarrow> u8 \<Rightarrow> cbuf \<Rightarrow> 'a sync_state_scheme \<Rightarrow> (nat \<times> cbuf \<times> 'a sync_state_scheme) option" where
  "cbuf_write_char cpu ch c s = do {
     (i, c1, s1) \<leftarrow> cbuf_lock cpu c s;
     (ret, c2, s2) \<leftarrow>
       (if cbuf_space_avail c1 > 0 then do {
          c2 \<leftarrow> cbuf_put_char ch c1;
          s2 \<leftarrow> (if head c2 \<noteq> tail c2 then event_signal cpu (cb_event c2) False s1 else Some s1);
          Some (1, c2, s2) }
        else Some (0, c1, s1));
     let (c3, s3) = cbuf_unlock cpu i c2 s2;
     Some (ret, c3, s3) }"

section \<open>Reading\<close>

definition cbuf_read_len :: "cbuf \<Rightarrow> nat \<Rightarrow> nat" where
  "cbuf_read_len c rest =
     (if head c > tail c then min (unat (head c - tail c)) rest
      else min (unat (valpow2 (len_pow2 c) - tail c)) rest)"

text \<open>
  The loop collects the bytes copied to the caller's buffer; with a null buffer it skips them, which
  \<open>want\<close> false says. A pass that would read nothing ends the model of the loop; the invariant of the
  buffer excludes it.
\<close>

function cbuf_read_loop :: "bool \<Rightarrow> nat \<Rightarrow> nat \<Rightarrow> u8 list \<Rightarrow> cbuf \<Rightarrow> (nat \<times> u8 list \<times> cbuf) option" where
  "cbuf_read_loop want buflen pos out c =
     (if pos < buflen \<and> tail c \<noteq> head c
      then let read_len = cbuf_read_len c (buflen - pos) in
        if read_len = 0 then None
        else do {
          bytes \<leftarrow> (if want then mem_read (unat (tail c)) read_len (buf c) else Some []);
          cbuf_read_loop want buflen (pos + read_len) (out @ bytes) (c\<lparr>tail := INC_POINTER c (tail c) read_len\<rparr>) }
      else Some (pos, out, c))"
  by pat_completeness auto
termination
  by (relation "measure (\<lambda>(_, len, pos, _, _). len - pos)") auto

declare cbuf_read_loop.simps [simp del]

text \<open>
  The part of \<open>cbuf_read\<close> under the lock, which is all of it when \<open>block\<close> is false. With \<open>block\<close> the
  caller first waits on the event, and repeats the whole when this part returns 0.
\<close>

definition cbuf_read :: "nat \<Rightarrow> bool \<Rightarrow> nat \<Rightarrow> cbuf \<Rightarrow> 'a sync_state_scheme \<Rightarrow> (nat \<times> u8 list \<times> cbuf \<times> 'a sync_state_scheme) option" where
  "cbuf_read cpu want buflen c s = do {
     (i, c1, s1) \<leftarrow> cbuf_lock cpu c s;
     (ret, out, c2, s2) \<leftarrow>
       (if tail c1 \<noteq> head c1 then do {
          (pos, out, c2) \<leftarrow> cbuf_read_loop want buflen 0 [] c1;
          s2 \<leftarrow> (if tail c2 = head c2 then do { guard_that (pos > 0); event_unsignal (cb_event c2) s1 } else Some s1);
          Some (pos, out, c2, s2) }
        else Some (0, [], c1, s1));
     let (c3, s3) = cbuf_unlock cpu i c2 s2;
     Some (ret, out, c3, s3) }"

definition cbuf_reset :: "nat \<Rightarrow> cbuf \<Rightarrow> 'a sync_state_scheme \<Rightarrow> (cbuf \<times> 'a sync_state_scheme) option" where
  "cbuf_reset cpu c s = do { (_, _, c', s') \<leftarrow> cbuf_read cpu False (cbuf_size c) c s; Some (c', s') }"

definition cbuf_take_char :: "cbuf \<Rightarrow> (u8 \<times> cbuf) option" where
  "cbuf_take_char c = do {
     bytes \<leftarrow> mem_read (unat (tail c)) 1 (buf c);
     Some (hd bytes, c\<lparr>tail := INC_POINTER c (tail c) 1\<rparr>) }"

definition cbuf_read_char :: "nat \<Rightarrow> cbuf \<Rightarrow> 'a sync_state_scheme \<Rightarrow> (nat \<times> u8 option \<times> cbuf \<times> 'a sync_state_scheme) option" where
  "cbuf_read_char cpu c s = do {
     (i, c1, s1) \<leftarrow> cbuf_lock cpu c s;
     (ret, out, c2, s2) \<leftarrow>
       (if tail c1 \<noteq> head c1 then do {
          (ch, c2) \<leftarrow> cbuf_take_char c1;
          s2 \<leftarrow> (if tail c2 = head c2 then event_unsignal (cb_event c2) s1 else Some s1);
          Some (1, Some ch, c2, s2) }
        else Some (0, None, c1, s1));
     let (c3, s3) = cbuf_unlock cpu i c2 s2;
     Some (ret, out, c3, s3) }"

text \<open>The two regions of \<open>cbuf_peek\<close>: an offset into the buffer, or none for the null pointer, and a length.\<close>

definition cbuf_peek :: "nat \<Rightarrow> cbuf \<Rightarrow> 'a sync_state_scheme \<Rightarrow>
    (nat \<times> (nat option \<times> nat) \<times> (nat option \<times> nat) \<times> cbuf \<times> 'a sync_state_scheme) option" where
  "cbuf_peek cpu c s = do {
     (i, c1, s1) \<leftarrow> cbuf_lock cpu c s;
     let ret = unat (cbuf_space_used c1);
     let sz = cbuf_size c1;
     guard_that (unat (tail c1) < sz);
     guard_that (ret \<le> sz);
     let base = (if ret \<noteq> 0 then Some (unat (tail c1)) else None);
     let (r0, r1) = (if ret + unat (tail c1) > sz
        then ((base, sz - unat (tail c1)), (Some 0, ret - (sz - unat (tail c1))))
        else ((base, ret), (None, 0)));
     let (c2, s2) = cbuf_unlock cpu i c1 s1;
     Some (ret, r0, r1, c2, s2) }"

section \<open>Invariant and contents\<close>

definition cbuf_ok :: "cbuf \<Rightarrow> bool" where
  "cbuf_ok c \<longleftrightarrow> len_pow2 c < 32 \<and> length (buf c) = cbuf_size c \<and> unat (head c) < cbuf_size c \<and> unat (tail c) < cbuf_size c"

definition used :: "cbuf \<Rightarrow> nat" where
  "used c = (unat (head c) + cbuf_size c - unat (tail c)) mod cbuf_size c"

definition cbuf_data :: "cbuf \<Rightarrow> u8 list" where
  "cbuf_data c = ring_data (buf c) (cbuf_size c) (unat (tail c)) (used c)"

lemma cbuf_size_pos [simp]: "cbuf_size c > 0" "cbuf_size (c\<lparr>head := h\<rparr>) = cbuf_size c"
  "cbuf_size (c\<lparr>tail := h\<rparr>) = cbuf_size c" "cbuf_size (c\<lparr>buf := m\<rparr>) = cbuf_size c" "cbuf_size (c\<lparr>cb_lock := l\<rparr>) = cbuf_size c"
  by (simp_all add: cbuf_size_def)

lemma lock_simps [simp]:
  "cbuf_ok (c\<lparr>cb_lock := l\<rparr>) = cbuf_ok c" "used (c\<lparr>cb_lock := l\<rparr>) = used c" "cbuf_data (c\<lparr>cb_lock := l\<rparr>) = cbuf_data c"
  by (simp_all add: cbuf_ok_def used_def cbuf_data_def)

lemma used_less: "used c < cbuf_size c"
  by (simp add: used_def)

lemma length_cbuf_data [simp]: "length (cbuf_data c) = used c"
  by (simp add: cbuf_data_def)

lemma cbuf_okD:
  assumes "cbuf_ok c"
  shows "len_pow2 c < 32" "length (buf c) = cbuf_size c" "unat (head c) < cbuf_size c" "unat (tail c) < cbuf_size c"
    "unat (valpow2 (len_pow2 c)) = cbuf_size c" "cbuf_size c \<le> 2 ^ 31"
proof -
  show "len_pow2 c < 32" "length (buf c) = cbuf_size c" "unat (head c) < cbuf_size c" "unat (tail c) < cbuf_size c"
    using assms by (simp_all add: cbuf_ok_def)
  then show "unat (valpow2 (len_pow2 c)) = cbuf_size c" by (simp add: valpow2_unat cbuf_size_def)
  have "(2::nat) ^ len_pow2 c \<le> 2 ^ 31" using \<open>len_pow2 c < 32\<close> by (intro power_increasing) auto
  then show "cbuf_size c \<le> 2 ^ 31" by (simp add: cbuf_size_def)
qed

lemma used_cases:
  assumes "cbuf_ok c"
  shows "used c = (if tail c \<le> head c then unat (head c) - unat (tail c) else unat (head c) + cbuf_size c - unat (tail c))"
proof (cases "tail c \<le> head c")
  case True
  then have "unat (tail c) \<le> unat (head c)" by (simp add: word_le_nat_alt)
  then have e: "unat (head c) + cbuf_size c - unat (tail c) = (unat (head c) - unat (tail c)) + cbuf_size c" by simp
  have "unat (head c) - unat (tail c) < cbuf_size c" using cbuf_okD(3) [OF assms] by simp
  then have "used c = unat (head c) - unat (tail c)" unfolding used_def e mod_add_self2 by (rule mod_less)
  then show ?thesis using True by simp
next
  case False
  then have "unat (head c) < unat (tail c)" by (simp add: word_le_nat_alt)
  then have "unat (head c) + cbuf_size c - unat (tail c) < cbuf_size c" using cbuf_okD(4) [OF assms] by linarith
  then show ?thesis using False unfolding used_def by simp
qed

lemma size_dvd: "len_pow2 c < 32 \<Longrightarrow> cbuf_size c dvd 2 ^ 32"
  unfolding cbuf_size_def by (rule le_imp_power_dvd) simp

lemma unat_minus: "unat (h - t :: u32) = (if t \<le> h then unat h - unat t else unat h + 2 ^ 32 - unat t)"
  by (simp add: unat_sub_if' word_le_nat_alt)

lemma space_used_unat:
  assumes "cbuf_ok c"
  shows "unat (cbuf_space_used c) = used c"
proof -
  have p: "len_pow2 c < 64" using cbuf_okD(1) [OF assms] by simp
  have "unat (head c - tail c) mod cbuf_size c = used c"
  proof (cases "tail c \<le> head c")
    case True
    then show ?thesis using used_cases [OF assms] used_less [of c] by (simp add: unat_minus)
  next
    case False
    obtain q where q: "(2::nat) ^ 32 = cbuf_size c * q" using size_dvd [OF cbuf_okD(1) [OF assms]] by (rule dvdE)
    then obtain r where r: "q = Suc r" by (cases q) auto
    have "unat (head c - tail c) = used c + cbuf_size c * r"
      using False used_cases [OF assms] cbuf_okD(4) [OF assms] unfolding unat_minus q r by simp
    then show ?thesis using used_less [of c] by simp
  qed
  then show ?thesis by (simp add: cbuf_space_used_def modpow2_unat [OF p] cbuf_size_def)
qed

lemma space_avail_unat:
  assumes "cbuf_ok c"
  shows "unat (cbuf_space_avail c) = cbuf_size c - 1 - used c"
proof -
  let ?m = "cbuf_space_used c"
  have "unat ?m < unat (valpow2 (len_pow2 c))" using space_used_unat [OF assms] used_less [of c] cbuf_okD(5) [OF assms] by simp
  then have "?m < valpow2 (len_pow2 c)" by (simp add: word_less_nat_alt)
  then have "unat (valpow2 (len_pow2 c) - ?m) = cbuf_size c - used c" "valpow2 (len_pow2 c) - ?m \<noteq> 0"
    using space_used_unat [OF assms] cbuf_okD(5) [OF assms] by (auto simp: unat_sub less_imp_le)
  then show ?thesis unfolding cbuf_space_avail_def Let_def cbuf_space_used_def [symmetric]
    by (simp add: unat_minus_one)
qed

lemma INC_POINTER_unat:
  assumes "cbuf_ok c" "unat p < cbuf_size c" "n \<le> cbuf_size c"
  shows "unat (INC_POINTER c p n) = (unat p + n) mod cbuf_size c"
proof -
  have "len_pow2 c < 64" using cbuf_okD(1) [OF assms(1)] by simp
  moreover have n: "n < 2 ^ 32" using assms(3) cbuf_okD(6) [OF assms(1)] by simp
  then have "unat (word_of_nat n :: u32) = n" by (simp add: unat_of_nat take_bit_eq_mod)
  moreover have "unat p + n < 2 ^ 32" using assms(2,3) cbuf_okD(6) [OF assms(1)] by simp
  ultimately show ?thesis by (simp add: INC_POINTER_def modpow2_unat cbuf_size_def unat_word_ariths)
qed

section \<open>Writing appends\<close>

lemma min_diff: "(w :: nat) \<le> a \<Longrightarrow> w \<le> b \<Longrightarrow> w + min (a - w) (b - w) = min a b"
  by linarith

lemma head_position: "cbuf_ok c \<Longrightarrow> unat (head c) = (unat (tail c) + used c) mod cbuf_size c"
  using cbuf_okD(3,4) [of c] used_cases [of c] by (auto simp: word_le_nat_alt)

lemma used_unique:
  assumes "cbuf_ok c" "k < cbuf_size c" "unat (head c) = (unat (tail c) + k) mod cbuf_size c"
  shows "used c = k"
proof (rule ccontr)
  assume "used c \<noteq> k"
  then have "(unat (tail c) + used c) mod cbuf_size c \<noteq> (unat (tail c) + k) mod cbuf_size c"
    using mod_add_inj [of "used c" k "cbuf_size c" "unat (tail c)"] mod_add_inj [of k "used c" "cbuf_size c" "unat (tail c)"]
      assms(2) used_less [of c] by (metis linorder_neqE_nat)
  then show False using head_position [OF assms(1)] assms(3) by simp
qed

lemma write_len_facts:
  assumes "cbuf_ok c"
  shows "cbuf_write_len c rest \<le> rest" "used c + cbuf_write_len c rest < cbuf_size c"
    "unat (head c) + cbuf_write_len c rest \<le> cbuf_size c" "cbuf_write_len c rest = 0 \<Longrightarrow> rest = 0 \<or> used c + 1 = cbuf_size c"
proof -
  note d = cbuf_okD(3-5) [OF assms] and u = used_cases [OF assms]
  have v: "unat (valpow2 (len_pow2 c) - head c) = cbuf_size c - unat (head c)"
    using d by (subst unat_sub) (auto simp: word_le_nat_alt)
  then have "valpow2 (len_pow2 c) - head c \<noteq> 0" using d by auto
  then have v1: "unat (valpow2 (len_pow2 c) - head c - 1) = cbuf_size c - unat (head c) - 1"
    using v by (simp add: unat_minus_one)
  have t1: "unat (tail c - head c - 1) = unat (tail c) - unat (head c) - 1" if "\<not> tail c \<le> head c"
    using that by (subst unat_minus_one) (auto simp: unat_sub word_le_nat_alt)
  have z: "tail c = 0 \<longleftrightarrow> unat (tail c) = 0" by (simp add: unat_eq_0)
  show "cbuf_write_len c rest \<le> rest" "used c + cbuf_write_len c rest < cbuf_size c"
    "unat (head c) + cbuf_write_len c rest \<le> cbuf_size c" "cbuf_write_len c rest = 0 \<Longrightarrow> rest = 0 \<or> used c + 1 = cbuf_size c"
    using d u by (auto simp: cbuf_write_len_def v v1 t1 z word_le_nat_alt min_def split: if_splits)
qed

text \<open>The bytes a write takes from its source.\<close>

definition source_bytes :: "u8 list option \<Rightarrow> nat \<Rightarrow> nat \<Rightarrow> u8 list" where
  "source_bytes src pos n = (case src of None \<Rightarrow> replicate n 0 | Some xs \<Rightarrow> take n (drop pos xs))"

definition source_has :: "u8 list option \<Rightarrow> nat \<Rightarrow> bool" where
  "source_has src len = (case src of None \<Rightarrow> True | Some xs \<Rightarrow> len \<le> length xs)"

lemma source_bytes_append:
  "source_bytes src pos n @ source_bytes src (pos + n) m = source_bytes src pos (n + m)"
  by (simp add: source_bytes_def replicate_add take_add add.commute [of pos n] split: option.splits)

lemma length_source_bytes: "source_has src (pos + n) \<Longrightarrow> length (source_bytes src pos n) = n"
  by (auto simp: source_bytes_def source_has_def split: option.splits)

lemma source_has_mono: "source_has src len \<Longrightarrow> n \<le> len \<Longrightarrow> source_has src n"
  by (auto simp: source_has_def split: option.splits)

lemma write_chunk:
  assumes "cbuf_ok c" "source_has src (pos + w)" "used c + w < cbuf_size c" "unat (head c) + w \<le> cbuf_size c"
  shows "\<exists>c'. cbuf_write_chunk src pos w c = Some c' \<and> cbuf_ok c' \<and> cbuf_size c' = cbuf_size c \<and> used c' = used c + w \<and>
    cbuf_data c' = cbuf_data c @ source_bytes src pos w \<and> tail c' = tail c \<and> cb_event c' = cb_event c \<and> cb_lock c' = cb_lock c"
proof -
  let ?ys = "source_bytes src pos w" and ?n = "cbuf_size c"
  have l: "length ?ys = w" by (rule length_source_bytes [OF assms(2)])
  obtain zs where zs: "mem_write (unat (head c)) ?ys (buf c) = Some zs" "length zs = ?n"
    using assms(4) l cbuf_okD(2) [OF assms(1)] by (auto simp: mem_write_def)
  define c' where "c' = c\<lparr>buf := zs, head := INC_POINTER c (head c) w\<rparr>"
  have e: "cbuf_write_chunk src pos w c = Some c'"
    using assms(2) zs(1) by (auto simp: cbuf_write_chunk_def c'_def source_bytes_def source_has_def mem_read_def split: option.splits)
  have h: "unat (head c') = (unat (tail c') + (used c + w)) mod ?n"
    using INC_POINTER_unat [OF assms(1), of "head c" w] assms(3) cbuf_okD(3) [OF assms(1)] head_position [OF assms(1)]
    by (simp add: c'_def mod_add_left_eq add.assoc)
  have ok: "cbuf_ok c'" using assms(1) zs(2) h by (simp add: cbuf_ok_def c'_def)
  have s: "cbuf_size c' = ?n" by (simp add: c'_def)
  have u: "used c' = used c + w" using used_unique [OF ok] h s assms(3) by simp
  have "cbuf_data c' = cbuf_data c @ ?ys"
    using ring_block [OF _ cbuf_okD(2) [OF assms(1)] head_position [OF assms(1)] _ zs(1)] l assms(3,4)
    by (simp add: cbuf_data_def u s) (simp add: c'_def)
  then show ?thesis using e ok s u by (auto simp: c'_def)
qed

lemma write_loop:
  assumes "cbuf_ok c" "source_has src len" "pos \<le> len"
  shows "\<exists>c'. cbuf_write_loop src len pos c = Some (pos + min (len - pos) (cbuf_size c - 1 - used c), c') \<and> cbuf_ok c' \<and>
    cbuf_size c' = cbuf_size c \<and> cbuf_data c' = cbuf_data c @ source_bytes src pos (min (len - pos) (cbuf_size c - 1 - used c)) \<and>
    tail c' = tail c \<and> cb_event c' = cb_event c \<and> cb_lock c' = cb_lock c"
  using assms
proof (induction src len pos c rule: cbuf_write_loop.induct)
  case (1 src len pos c)
  let ?w = "cbuf_write_len c (len - pos)"
  note a = space_avail_unat [OF \<open>cbuf_ok c\<close>] and wf = write_len_facts [OF \<open>cbuf_ok c\<close>, of "len - pos"]
  show ?case
  proof (cases "pos < len \<and> cbuf_space_avail c > 0")
    case True
    then have av: "used c + 1 < cbuf_size c" using a by (auto simp: word_less_nat_alt)
    then have w: "?w \<noteq> 0" using wf(4) True by auto
    have le: "pos + ?w \<le> len" using wf(1) conjunct1 [OF True] by linarith
    obtain c1 where c1: "cbuf_write_chunk src pos ?w c = Some c1" "cbuf_ok c1" "cbuf_size c1 = cbuf_size c" "used c1 = used c + ?w"
      "cbuf_data c1 = cbuf_data c @ source_bytes src pos ?w" "tail c1 = tail c" "cb_event c1 = cb_event c" "cb_lock c1 = cb_lock c"
      using write_chunk [OF \<open>cbuf_ok c\<close> source_has_mono [OF 1(3) le] wf(2,3)] by blast
    obtain c' where c': "cbuf_write_loop src len (pos + ?w) c1 =
        Some (pos + ?w + min (len - (pos + ?w)) (cbuf_size c1 - 1 - used c1), c')" "cbuf_ok c'" "cbuf_size c' = cbuf_size c1"
      "cbuf_data c' = cbuf_data c1 @ source_bytes src (pos + ?w) (min (len - (pos + ?w)) (cbuf_size c1 - 1 - used c1))"
      "tail c' = tail c1" "cb_event c' = cb_event c1" "cb_lock c' = cb_lock c1"
      using 1(1) [OF True refl w c1(1) c1(2) 1(3) le] by blast
    have m: "?w + min (len - (pos + ?w)) (cbuf_size c1 - 1 - used c1) = min (len - pos) (cbuf_size c - 1 - used c)"
      using min_diff [OF wf(1), of "cbuf_size c - 1 - used c"] wf(2) c1(3,4) by (simp add: diff_diff_left)
    have e: "cbuf_write_loop src len pos c = cbuf_write_loop src len (pos + ?w) c1"
      using True w c1(1) by (subst cbuf_write_loop.simps) (simp add: Let_def)
    show ?thesis unfolding e
      using c' c1 source_bytes_append [of src pos ?w] m by (simp add: add.assoc)
  next
    case False
    then have m: "min (len - pos) (cbuf_size c - 1 - used c) = 0" using a by (auto simp: word_less_nat_alt)
    have e: "cbuf_write_loop src len pos c = Some (pos, c)"
      by (subst cbuf_write_loop.simps) (simp only: False if_False)
    show ?thesis unfolding e m using \<open>cbuf_ok c\<close> by (simp add: source_bytes_def split: option.splits)
  qed
qed

section \<open>Reading takes from the front\<close>

lemma used_0_iff: "cbuf_ok c \<Longrightarrow> used c = 0 \<longleftrightarrow> tail c = head c"
  using used_cases [of c] cbuf_okD(3,4) [of c] by (auto simp: word_le_nat_alt word_unat_eq_iff)

lemma read_len_facts:
  assumes "cbuf_ok c"
  shows "cbuf_read_len c rest \<le> rest" "cbuf_read_len c rest \<le> used c \<or> tail c = head c"
    "unat (tail c) + cbuf_read_len c rest \<le> cbuf_size c" "cbuf_read_len c rest = 0 \<Longrightarrow> rest = 0"
proof -
  note d = cbuf_okD(3-5) [OF assms] and u = used_cases [OF assms]
  have v: "unat (valpow2 (len_pow2 c) - tail c) = cbuf_size c - unat (tail c)"
    using d by (subst unat_sub) (auto simp: word_le_nat_alt)
  have t: "unat (head c - tail c) = unat (head c) - unat (tail c)" if "tail c < head c"
    using that by (simp add: unat_sub)
  have z: "tail c = head c \<longleftrightarrow> unat (tail c) = unat (head c)" by (simp add: word_unat_eq_iff)
  show "cbuf_read_len c rest \<le> rest" "cbuf_read_len c rest \<le> used c \<or> tail c = head c"
    "unat (tail c) + cbuf_read_len c rest \<le> cbuf_size c" "cbuf_read_len c rest = 0 \<Longrightarrow> rest = 0"
    using d u by (auto simp: cbuf_read_len_def v t z word_le_nat_alt word_less_nat_alt min_def split: if_splits)
qed

lemma read_chunk:
  assumes "cbuf_ok c" "w \<le> used c" "unat (tail c) + w \<le> cbuf_size c"
  shows "mem_read (unat (tail c)) w (buf c) = Some (take w (cbuf_data c))"
    "cbuf_ok (c\<lparr>tail := INC_POINTER c (tail c) w\<rparr>)" "used (c\<lparr>tail := INC_POINTER c (tail c) w\<rparr>) = used c - w"
    "cbuf_data (c\<lparr>tail := INC_POINTER c (tail c) w\<rparr>) = drop w (cbuf_data c)"
proof -
  let ?c = "c\<lparr>tail := INC_POINTER c (tail c) w\<rparr>" and ?n = "cbuf_size c"
  show "mem_read (unat (tail c)) w (buf c) = Some (take w (cbuf_data c))"
    using assms cbuf_okD(2) [OF assms(1)] by (simp add: mem_read_def cbuf_data_def ring_take)
  have t: "unat (tail ?c) = (unat (tail c) + w) mod ?n"
    using INC_POINTER_unat [OF assms(1), of "tail c" w] assms(2) used_less [of c] cbuf_okD(4) [OF assms(1)] by simp
  then show ok: "cbuf_ok ?c" using assms(1) by (simp add: cbuf_ok_def)
  have "unat (head ?c) = (unat (tail ?c) + (used c - w)) mod cbuf_size ?c"
    using head_position [OF assms(1)] assms(2) mod_add_left_eq [of "unat (tail c) + w" ?n "used c - w"]
    by (simp add: t [simplified])
  then show u: "used ?c = used c - w" using used_unique [OF ok, of "used c - w"] used_less [of c] by simp
  show "cbuf_data ?c = drop w (cbuf_data c)"
    using ring_drop [OF assms(2)] t u by (simp add: cbuf_data_def)
qed

lemma read_loop:
  assumes "cbuf_ok c" "pos \<le> buflen"
  shows "\<exists>c'. cbuf_read_loop want buflen pos out c = Some (pos + min (buflen - pos) (used c),
      out @ (if want then take (buflen - pos) (cbuf_data c) else []), c') \<and>
    cbuf_ok c' \<and> cbuf_size c' = cbuf_size c \<and> cbuf_data c' = drop (buflen - pos) (cbuf_data c) \<and>
    head c' = head c \<and> cb_event c' = cb_event c \<and> cb_lock c' = cb_lock c"
  using assms
proof (induction want buflen pos out c rule: cbuf_read_loop.induct)
  case (1 want buflen pos out c)
  let ?w = "cbuf_read_len c (buflen - pos)"
  let ?c = "c\<lparr>tail := INC_POINTER c (tail c) ?w\<rparr>"
  note wf = read_len_facts [OF \<open>cbuf_ok c\<close>, of "buflen - pos"] and z = used_0_iff [OF \<open>cbuf_ok c\<close>]
  show ?case
  proof (cases "pos < buflen \<and> tail c \<noteq> head c")
    case True
    then have w: "?w \<noteq> 0" "?w \<le> used c" using wf(2,4) by auto
    note rc = read_chunk [OF \<open>cbuf_ok c\<close> w(2) wf(3)]
    let ?bytes = "if want then take ?w (cbuf_data c) else []"
    have b: "(if want then mem_read (unat (tail c)) ?w (buf c) else Some []) = Some ?bytes" using rc(1) by simp
    have le: "pos + ?w \<le> buflen" using wf(1) conjunct1 [OF True] by linarith
    have q: "?w + (buflen - (pos + ?w)) = buflen - pos" using le by linarith
    have e: "cbuf_read_loop want buflen pos out c = cbuf_read_loop want buflen (pos + ?w) (out @ ?bytes) ?c"
      using True w(1) b by (subst cbuf_read_loop.simps) (simp add: Let_def)
    have m: "pos + ?w + min (buflen - (pos + ?w)) (used c - ?w) = pos + min (buflen - pos) (used c)"
      using min_diff [OF wf(1) w(2)] by (simp add: diff_diff_left)
    have t: "take ?w (cbuf_data c) @ take (buflen - (pos + ?w)) (drop ?w (cbuf_data c)) = take (buflen - pos) (cbuf_data c)"
      using take_add [of ?w "buflen - (pos + ?w)" "cbuf_data c"] q by simp
    obtain c' where c': "cbuf_read_loop want buflen (pos + ?w) (out @ ?bytes) ?c = Some (pos + ?w + min (buflen - (pos + ?w)) (used ?c),
        (out @ ?bytes) @ (if want then take (buflen - (pos + ?w)) (cbuf_data ?c) else []), c')" "cbuf_ok c'"
      "cbuf_size c' = cbuf_size ?c" "cbuf_data c' = drop (buflen - (pos + ?w)) (cbuf_data ?c)" "head c' = head ?c"
      "cb_event c' = cb_event ?c" "cb_lock c' = cb_lock ?c"
      using 1(1) [OF True refl w(1) b rc(2) le] by blast
    have "drop (buflen - (pos + ?w)) (drop ?w (cbuf_data c)) = drop (buflen - pos) (cbuf_data c)" using q by (simp add: add.commute)
    then show ?thesis unfolding e c'(1) using c'(2-) m t rc(3,4) by (cases want) simp_all
  next
    case False
    then have "buflen - pos = 0 \<or> used c = 0" using z by auto
    then show ?thesis using False \<open>cbuf_ok c\<close> by (subst cbuf_read_loop.simps) (auto simp: min_def cbuf_data_def)
  qed
qed

text \<open>The bytes a region of \<open>cbuf_peek\<close> describes.\<close>

definition region_bytes :: "cbuf \<Rightarrow> nat option \<times> nat \<Rightarrow> u8 list" where
  "region_bytes c r = (case fst r of None \<Rightarrow> [] | Some off \<Rightarrow> take (snd r) (drop off (buf c)))"

lemma ring_two_regions:
  assumes "length xs = n" "h \<le> n" "n < k + h" "k \<le> n"
  shows "take (n - h) (drop h xs) @ take (k - (n - h)) xs = ring_data xs n h k"
proof -
  have "take (n - h) (drop h xs) = take (n - h) (ring_data xs n h k)" using assms by (intro ring_take) auto
  moreover have "take (k - (n - h)) xs = ring_data xs n (n mod n) (k - (n - h))"
    using ring_take [of "k - (n - h)" "k - (n - h)" 0 n xs] assms by simp
  moreover have "ring_data xs n (n mod n) (k - (n - h)) = drop (n - h) (ring_data xs n h k)"
    using ring_drop [of "n - h" k xs n h] assms unfolding ring_data_mod by simp
  ultimately show ?thesis by simp
qed

lemma peek_regions:
  assumes "cbuf_ok c" "\<not> cb_lock c"
  shows "\<exists>r0 r1. cbuf_peek cpu c s = Some (used c, r0, r1, c, s) \<and> region_bytes c r0 @ region_bytes c r1 = cbuf_data c"
proof -
  let ?t = "unat (tail c)" and ?n = "cbuf_size c"
  define base where "base = (if used c \<noteq> 0 then Some ?t else None)"
  define rs where "rs = (if used c + ?t > ?n then ((base, ?n - ?t), (Some (0 :: nat), used c - (?n - ?t))) else ((base, used c), (None, 0)))"
  have p: "cbuf_peek cpu c s = Some (used c, fst rs, snd rs, c, s)"
    using assms space_used_unat [of "c\<lparr>cb_lock := True\<rparr>"] used_less [of c] cbuf_okD(4) [OF assms(1)]
    by (auto simp: cbuf_peek_def cbuf_lock_def cbuf_unlock_def rs_def base_def Let_def)
  have "region_bytes c (fst rs) @ region_bytes c (snd rs) = cbuf_data c"
  proof (cases "used c + ?t > ?n")
    case True
    then show ?thesis using ring_two_regions [OF cbuf_okD(2) [OF assms(1)], of ?t "used c"] cbuf_okD(4) [OF assms(1)] used_less [of c]
      by (simp add: rs_def base_def region_bytes_def cbuf_data_def)
  next
    case False
    then show ?thesis using ring_take [of "used c" "used c" ?t ?n "buf c"] cbuf_okD(2) [OF assms(1)]
      by (simp add: rs_def base_def region_bytes_def cbuf_data_def)
  qed
  then show ?thesis using p by blast
qed

section \<open>The operations\<close>

lemma cbuf_write_data:
  assumes "cbuf_ok c" "source_has src len" "cbuf_write cpu src len resched c s = Some (n, c', s')"
  shows "n = min len (cbuf_size c - 1 - used c)" "cbuf_data c' = cbuf_data c @ source_bytes src 0 n" "cbuf_ok c'"
    "cbuf_size c' = cbuf_size c" "cb_lock c' = False"
proof -
  obtain c2 where c2: "cbuf_write_loop src len 0 (c\<lparr>cb_lock := True\<rparr>) = Some (min len (cbuf_size c - 1 - used c), c2)"
    "cbuf_ok c2" "cbuf_size c2 = cbuf_size c" "cbuf_data c2 = cbuf_data c @ source_bytes src 0 (min len (cbuf_size c - 1 - used c))"
    using write_loop [of "c\<lparr>cb_lock := True\<rparr>" src len 0] assms(1,2) by auto
  then show "n = min len (cbuf_size c - 1 - used c)" "cbuf_data c' = cbuf_data c @ source_bytes src 0 n" "cbuf_ok c'"
    "cbuf_size c' = cbuf_size c" "cb_lock c' = False"
    using assms(3) by (auto simp: cbuf_write_def bind_Some_iff cbuf_lock_def cbuf_unlock_def Let_def split: if_splits)
qed

lemma cbuf_read_data:
  assumes "cbuf_ok c" "cbuf_read cpu want buflen c s = Some (n, out, c', s')"
  shows "n = min buflen (used c)" "out = (if want then take n (cbuf_data c) else [])" "cbuf_data c' = drop n (cbuf_data c)"
    "cbuf_ok c'" "cbuf_size c' = cbuf_size c" "cb_lock c' = False"
proof -
  obtain c2 where c2: "cbuf_read_loop want buflen 0 [] (c\<lparr>cb_lock := True\<rparr>) = Some (min buflen (used c), if want then take buflen (cbuf_data c) else [], c2)"
    "cbuf_ok c2" "cbuf_size c2 = cbuf_size c" "cbuf_data c2 = drop buflen (cbuf_data c)"
    using read_loop [of "c\<lparr>cb_lock := True\<rparr>" 0 buflen want "[]"] assms(1) by auto
  have t: "take (min buflen (used c)) (cbuf_data c) = take buflen (cbuf_data c)" "drop (min buflen (used c)) (cbuf_data c) = drop buflen (cbuf_data c)"
    by (auto simp: min_def)
  show "n = min buflen (used c)" "out = (if want then take n (cbuf_data c) else [])" "cbuf_data c' = drop n (cbuf_data c)"
    "cbuf_ok c'" "cbuf_size c' = cbuf_size c" "cb_lock c' = False"
    using assms c2 t used_0_iff [OF assms(1)]
    by (auto simp: cbuf_read_def bind_Some_iff cbuf_lock_def cbuf_unlock_def Let_def split: if_splits)
qed

section \<open>A bounded queue of bytes\<close>

definition cbuf_push :: "u8 \<Rightarrow> cbuf \<Rightarrow> cbuf option" where
  "cbuf_push ch c = (if cbuf_space_avail c > 0 then cbuf_put_char ch c else None)"

definition cbuf_pop :: "cbuf \<Rightarrow> (u8 \<times> cbuf) option" where
  "cbuf_pop c = (if tail c \<noteq> head c then cbuf_take_char c else None)"

lemma put_char_chunk: "cbuf_put_char ch c = cbuf_write_chunk (Some [ch]) 0 1 c"
  by (simp add: cbuf_put_char_def cbuf_write_chunk_def mem_read_def)

lemma cbuf_put_ok:
  assumes "cbuf_ok c" "used c < cbuf_size c - 1"
  shows "\<exists>c'. cbuf_put_char ch c = Some c' \<and> cbuf_ok c' \<and> cbuf_data c' = cbuf_data c @ [ch] \<and> cbuf_size c' = cbuf_size c \<and>
    cb_event c' = cb_event c \<and> cb_lock c' = cb_lock c"
proof -
  have "unat (head c) + 1 \<le> cbuf_size c" using cbuf_okD(3) [OF assms(1)] by simp
  moreover have "used c + 1 < cbuf_size c" using assms(2) by linarith
  ultimately show ?thesis using write_chunk [OF assms(1), of "Some [ch]" 0 1]
    by (auto simp: put_char_chunk source_has_def source_bytes_def)
qed

lemma cbuf_take_ok:
  assumes "cbuf_ok c" "cbuf_data c = x # xs"
  shows "\<exists>c'. cbuf_take_char c = Some (x, c') \<and> cbuf_ok c' \<and> cbuf_data c' = xs \<and> cbuf_size c' = cbuf_size c \<and>
    cb_event c' = cb_event c \<and> cb_lock c' = cb_lock c"
proof -
  have "used c \<ge> 1" "unat (tail c) + 1 \<le> cbuf_size c" using assms(2) length_cbuf_data [of c] cbuf_okD(4) [OF assms(1)] by auto
  then show ?thesis using read_chunk [OF assms(1), of 1] assms(2) by (simp add: cbuf_take_char_def)
qed

interpretation cq: bounded_fifo cbuf_ok cbuf_data "\<lambda>c. cbuf_size c - 1" cbuf_push cbuf_pop
proof (unfold_locales, goal_cases)
  case (1 c x)
  then show ?case using cbuf_put_ok [OF 1(1)] space_avail_unat [OF 1(1)] by (force simp: cbuf_push_def word_less_nat_alt)
next
  case (2 c x)
  then show ?case using space_avail_unat [OF 2(1)] by (simp add: cbuf_push_def word_less_nat_alt)
next
  case (3 c)
  then show ?case using used_less [of c] by simp
next
  case (4 c x xs)
  then have "tail c \<noteq> head c" using used_0_iff [OF 4(1)] length_cbuf_data [of c] by auto
  then show ?case using cbuf_take_ok [OF 4] by (auto simp: cbuf_pop_def)
next
  case (5 c)
  then show ?case using used_0_iff [OF 5(1)] length_cbuf_data [of c] by (simp add: cbuf_pop_def)
qed

end
