(* ===== verification/Port.thy ===== *)
theory Port
  imports Ring Pow2 Sync
begin

text \<open>
  Ports, \<open>kernel/port.c\<close>: named write ports, the read ports opened on them, and groups of read
  ports. Packets are queued in ring buffers; a write port keeps the buffer until its first reader
  opens it.
\<close>

section \<open>Packet buffers\<close>

type_synonym port_packet = "u8 list"

record port_buf =
  log2 :: nat
  avail :: u32
  pb_head :: u32
  pb_tail :: u32
  packet :: "port_packet list"

abbreviation (input) PORT_BUFF_SIZE :: u32 where "PORT_BUFF_SIZE \<equiv> 8"
abbreviation (input) PORT_BUFF_SIZE_BIG :: u32 where "PORT_BUFF_SIZE_BIG \<equiv> 64"

text \<open>
  \<open>make_buf\<close> with memory for the buffer: \<open>mem\<close> is the content of the block, whose packets \<open>malloc\<close>
  leaves as they are; \<open>None\<close> is a failed allocation.
\<close>

definition make_buf :: "bool \<Rightarrow> port_packet list option \<Rightarrow> port_buf option" where
  "make_buf big mem = (case mem of None \<Rightarrow> None | Some ps \<Rightarrow>
     let pk_count = (if big then PORT_BUFF_SIZE_BIG else PORT_BUFF_SIZE) in
     Some \<lparr>log2 = log2_uint pk_count, avail = pk_count, pb_head = 0, pb_tail = 0, packet = take (unat pk_count) ps\<rparr>)"

definition buf_is_empty :: "port_buf \<Rightarrow> bool" where
  "buf_is_empty b \<longleftrightarrow> avail b = valpow2 (log2 b)"

fun buf_write_loop :: "port_packet list \<Rightarrow> port_buf \<Rightarrow> port_buf option" where
  "buf_write_loop [] b = Some b"
| "buf_write_loop (p # ps) b = do {
     mem \<leftarrow> mem_write (unat (pb_tail b)) [p] (packet b);
     buf_write_loop ps (b\<lparr>packet := mem, pb_tail := modpow2 (pb_tail b + 1) (log2 b)\<rparr>) }"

definition buf_write :: "port_buf \<Rightarrow> port_packet list \<Rightarrow> (status \<times> port_buf) option" where
  "buf_write b packets =
     (if unat (avail b) < length packets then Some (ERR_NOT_ENOUGH_BUFFER, b)
      else do {
        b1 \<leftarrow> buf_write_loop packets b;
        Some (NO_ERROR, b1\<lparr>avail := avail b1 - word_of_nat (length packets)\<rparr>) })"

definition buf_read :: "port_buf \<Rightarrow> (status \<times> port_packet option \<times> port_buf) option" where
  "buf_read b =
     (if buf_is_empty b then Some (ERR_NO_MSG, None, b)
      else do {
        ps \<leftarrow> mem_read (unat (pb_head b)) 1 (packet b);
        Some (NO_ERROR, Some (hd ps), b\<lparr>pb_head := modpow2 (pb_head b + 1) (log2 b), avail := avail b + 1\<rparr>) })"

section \<open>Ports\<close>

text \<open>
  A port is a \<open>port_t\<close>, a pointer to one of three structs that start with the magic; which struct it
  is, the code reads off the magic. A pointer in a struct is the number of the object it points to.
\<close>

abbreviation (input) WRITEPORT_MAGIC_W :: nat where "WRITEPORT_MAGIC_W \<equiv> 0x70727477"
abbreviation (input) WRITEPORT_MAGIC_X :: nat where "WRITEPORT_MAGIC_X \<equiv> 0x70727478"
abbreviation (input) READPORT_MAGIC :: nat where "READPORT_MAGIC \<equiv> 0x70727472"
abbreviation (input) PORTGROUP_MAGIC :: nat where "PORTGROUP_MAGIC \<equiv> 0x70727467"
abbreviation (input) MAX_PORT_GROUP_COUNT :: nat where "MAX_PORT_GROUP_COUNT \<equiv> 256"
abbreviation (input) PORT_NAME_LEN :: nat where "PORT_NAME_LEN \<equiv> 12"
abbreviation (input) PORT_MODE_BROADCAST :: u32 where "PORT_MODE_BROADCAST \<equiv> 0"
abbreviation (input) PORT_MODE_UNICAST :: u32 where "PORT_MODE_UNICAST \<equiv> 1"
abbreviation (input) PORT_MODE_BIG_BUFFER :: u32 where "PORT_MODE_BIG_BUFFER \<equiv> 2"

record write_port =
  wp_magic :: nat
  wp_buf :: "port_buf option"
  wp_readers :: "nat list"
  wp_mode :: u32
  wp_name :: string

record group_port =
  pg_magic :: nat
  pg_readers :: "nat list"

record read_port =
  rp_magic :: nat
  rp_buf :: "port_buf option"
  rp_ctx :: nat
  rp_wport :: "nat option"
  rp_gport :: "nat option"

datatype port_obj = Free_mem | Write_port write_port | Read_port read_port | Port_group group_port

text \<open>
  \<open>port_result\<close> is what the thread's last \<open>port_read\<close> stored through its \<open>result\<close> argument.
\<close>

record port_state = sync_state +
  port_objs :: "nat \<Rightarrow> port_obj"
  write_port_list :: "nat list"
  port_result :: "tid \<Rightarrow> nat \<times> port_packet option"

definition upd_port :: "nat \<Rightarrow> port_obj \<Rightarrow> 'a port_state_scheme \<Rightarrow> 'a port_state_scheme" where
  "upd_port p x s = s\<lparr>port_objs := (port_objs s)(p := x)\<rparr>"

text \<open>The magic of an object; reading a struct of the wrong kind, or freed memory, is the outcome \<open>None\<close>.\<close>

definition port_magic :: "'a port_state_scheme \<Rightarrow> nat \<Rightarrow> nat option" where
  "port_magic s p = (case port_objs s p of Free_mem \<Rightarrow> None | Write_port w \<Rightarrow> Some (wp_magic w)
     | Read_port r \<Rightarrow> Some (rp_magic r) | Port_group g \<Rightarrow> Some (pg_magic g))"

definition the_write_port :: "'a port_state_scheme \<Rightarrow> nat \<Rightarrow> write_port option" where
  "the_write_port s p = (case port_objs s p of Write_port w \<Rightarrow> Some w | _ \<Rightarrow> None)"

definition the_read_port :: "'a port_state_scheme \<Rightarrow> nat \<Rightarrow> read_port option" where
  "the_read_port s p = (case port_objs s p of Read_port r \<Rightarrow> Some r | _ \<Rightarrow> None)"

definition the_port_group :: "'a port_state_scheme \<Rightarrow> nat \<Rightarrow> group_port option" where
  "the_port_group s p = (case port_objs s p of Port_group g \<Rightarrow> Some g | _ \<Rightarrow> None)"

definition port_init :: "'a port_state_scheme \<Rightarrow> 'a port_state_scheme" where
  "port_init s = s\<lparr>write_port_list := []\<rparr>"

section \<open>Creating and opening\<close>

text \<open>The loop that looks for a name in the list of write ports.\<close>

fun find_port :: "string \<Rightarrow> nat list \<Rightarrow> 'a port_state_scheme \<Rightarrow> (nat \<times> write_port) option option" where
  "find_port name [] s = Some None"
| "find_port name (p # ps) s = do {
     w \<leftarrow> the_write_port s p;
     if wp_name w = name then Some (Some (p, w)) else find_port name ps s }"

text \<open>
  \<open>port_create\<close>. \<open>out\<close> says that the pointer argument for the port is not null; \<open>wmem\<close> is the object
  \<open>calloc\<close> gives and \<open>bmem\<close> the block of the buffer. The result is the status and the port stored
  through the pointer.
\<close>

definition port_create :: "nat \<Rightarrow> string option \<Rightarrow> bool \<Rightarrow> u32 \<Rightarrow> nat option \<Rightarrow> port_packet list option \<Rightarrow> 'a port_state_scheme \<Rightarrow>
    (status \<times> nat option \<times> 'a port_state_scheme) option" where
  "port_create cpu name_arg out mode wmem bmem s =
     (case name_arg of None \<Rightarrow> Some (ERR_INVALID_ARGS, None, s) | Some name \<Rightarrow>
      if \<not> out then Some (ERR_INVALID_ARGS, None, s)
      else if mode AND PORT_MODE_BROADCAST \<noteq> 0 \<and> mode AND PORT_MODE_BIG_BUFFER \<noteq> 0 then Some (ERR_INVALID_ARGS, None, s)
      else if length name \<ge> PORT_NAME_LEN then Some (ERR_INVALID_ARGS, None, s)
      else do {
        (i, s1) \<leftarrow> THREAD_LOCK cpu s;
        found \<leftarrow> find_port name (write_port_list s1) s1;
        let s2 = THREAD_UNLOCK cpu i s1;
        case found of
          Some (p, w) \<Rightarrow> if wp_magic w = WRITEPORT_MAGIC_X then Some (ERR_BUSY, None, s2) else Some (ERR_ALREADY_EXISTS, Some p, s2)
        | None \<Rightarrow>
          (case wmem of None \<Rightarrow> Some (ERR_NO_MEMORY, None, s2)
           | Some p \<Rightarrow>
             (case make_buf (mode AND PORT_MODE_BIG_BUFFER \<noteq> 0) bmem of
                None \<Rightarrow> Some (ERR_NO_MEMORY, None, s2)
              | Some b \<Rightarrow> do {
                  let w = \<lparr>wp_magic = WRITEPORT_MAGIC_W, wp_buf = Some b, wp_readers = [], wp_mode = mode, wp_name = name\<rparr>;
                  (j, s3) \<leftarrow> THREAD_LOCK cpu (upd_port p (Write_port w) s2);
                  let s4 = s3\<lparr>write_port_list := write_port_list s3 @ [p]\<rparr>;
                  Some (NO_ERROR, Some p, THREAD_UNLOCK cpu j s4) })) })"

text \<open>The body of \<open>port_open\<close>'s loop for the port that was found, with the new read port and spare buffer.\<close>

definition port_attach :: "nat \<Rightarrow> read_port \<Rightarrow> port_buf \<Rightarrow> nat \<Rightarrow> write_port \<Rightarrow> 'a port_state_scheme \<Rightarrow> status \<times> 'a port_state_scheme" where
  "port_attach rp r b p w s =
     (case wp_buf w of
        Some wb \<Rightarrow> (NO_ERROR, upd_port p (Write_port (w\<lparr>wp_readers := wp_readers w @ [rp], wp_buf := None\<rparr>))
                     (upd_port rp (Read_port (r\<lparr>rp_wport := Some p, rp_buf := Some wb\<rparr>)) s))
      | None \<Rightarrow>
          if wp_mode w AND PORT_MODE_UNICAST \<noteq> 0 then (ERR_NOT_ALLOWED, s)
          else (NO_ERROR, upd_port p (Write_port (w\<lparr>wp_readers := wp_readers w @ [rp]\<rparr>))
                  (upd_port rp (Read_port (r\<lparr>rp_wport := Some p, rp_buf := Some b\<rparr>)) s)))"

definition port_open :: "nat \<Rightarrow> string option \<Rightarrow> bool \<Rightarrow> nat \<Rightarrow> nat option \<Rightarrow> port_packet list option \<Rightarrow> 'a port_state_scheme \<Rightarrow>
    (status \<times> nat option \<times> 'a port_state_scheme) option" where
  "port_open cpu name_arg out ctx rmem bmem s =
     (case name_arg of None \<Rightarrow> Some (ERR_INVALID_ARGS, None, s) | Some name \<Rightarrow>
      if \<not> out then Some (ERR_INVALID_ARGS, None, s)
      else case rmem of None \<Rightarrow> Some (ERR_NO_MEMORY, None, s)
      | Some rp \<Rightarrow>
        let r = \<lparr>rp_magic = READPORT_MAGIC, rp_buf = None, rp_ctx = ctx, rp_wport = None, rp_gport = None\<rparr>;
            s0 = wait_queue_init (WQ_read_port rp) s in
        (case make_buf False bmem of None \<Rightarrow> Some (ERR_NO_MEMORY, None, s0)
         | Some b \<Rightarrow> do {
             (i, s1) \<leftarrow> THREAD_LOCK cpu s0;
             found \<leftarrow> find_port name (write_port_list s1) s1;
             let (rc, s2) = (case found of None \<Rightarrow> (ERR_NOT_FOUND, s1) | Some (p, w) \<Rightarrow> port_attach rp r b p w s1);
             let s3 = THREAD_UNLOCK cpu i s2;
             Some (rc, if rc = NO_ERROR then Some rp else None, s3) }))"

section \<open>Groups\<close>

text \<open>
  The loop of \<open>port_group\<close> over the ports; \<open>linked\<close> are the ports of the earlier iterations, whose
  \<open>gport\<close> it clears again when a port is refused.
\<close>

fun clear_gports :: "nat list \<Rightarrow> 'a port_state_scheme \<Rightarrow> 'a port_state_scheme option" where
  "clear_gports [] s = Some s"
| "clear_gports (p # ps) s = do {
     r \<leftarrow> the_read_port s p;
     clear_gports ps (upd_port p (Read_port (r\<lparr>rp_gport := None\<rparr>)) s) }"

fun group_loop :: "nat \<Rightarrow> nat list \<Rightarrow> nat list \<Rightarrow> 'a port_state_scheme \<Rightarrow> (status \<times> 'a port_state_scheme) option" where
  "group_loop pg linked [] s = Some (NO_ERROR, s)"
| "group_loop pg linked (p # ps) s = do {
     magic \<leftarrow> port_magic s p;
     if magic \<noteq> READPORT_MAGIC then do { s1 \<leftarrow> clear_gports linked s; Some (ERR_BAD_HANDLE, s1) }
     else do {
       r \<leftarrow> the_read_port s p;
       if rp_gport r \<noteq> None then do { s1 \<leftarrow> clear_gports linked s; Some (ERR_BAD_HANDLE, s1) }
       else do {
         g \<leftarrow> the_port_group s pg;
         group_loop pg (linked @ [p]) ps
           (upd_port pg (Port_group (g\<lparr>pg_readers := pg_readers g @ [p]\<rparr>))
             (upd_port p (Read_port (r\<lparr>rp_gport := Some pg\<rparr>)) s)) } } }"

definition port_group :: "nat \<Rightarrow> nat list option \<Rightarrow> nat \<Rightarrow> bool \<Rightarrow> nat option \<Rightarrow> 'a port_state_scheme \<Rightarrow>
    (status \<times> nat option \<times> 'a port_state_scheme) option" where
  "port_group cpu ports count out gmem s =
     (if count > MAX_PORT_GROUP_COUNT then Some (ERR_TOO_BIG, None, s)
      else if count \<noteq> 0 \<and> ports = None then Some (ERR_INVALID_ARGS, None, s)
      else if \<not> out then Some (ERR_INVALID_ARGS, None, s)
      else case gmem of None \<Rightarrow> Some (ERR_NO_MEMORY, None, s)
      | Some pg \<Rightarrow> do {
          let s0 = wait_queue_init (WQ_port_group pg) (upd_port pg (Port_group \<lparr>pg_magic = PORTGROUP_MAGIC, pg_readers = []\<rparr>) s);
          (i, s1) \<leftarrow> THREAD_LOCK cpu s0;
          ps \<leftarrow> (case ports of None \<Rightarrow> Some [] | Some xs \<Rightarrow> mem_read 0 count xs);
          (rc, s2) \<leftarrow> group_loop pg [] ps s1;
          let s3 = THREAD_UNLOCK cpu i s2;
          if rc = NO_ERROR then Some (rc, Some pg, s3) else Some (rc, None, upd_port pg Free_mem s3) })"

definition port_group_add :: "nat \<Rightarrow> nat option \<Rightarrow> nat option \<Rightarrow> 'a port_state_scheme \<Rightarrow> (status \<times> 'a port_state_scheme) option" where
  "port_group_add cpu grp port s =
     (case (grp, port) of
        (Some pg, Some rp) \<Rightarrow> do {
          gmagic \<leftarrow> port_magic s pg;
          if gmagic \<noteq> PORTGROUP_MAGIC then Some (ERR_INVALID_ARGS, s)
          else do {
            rmagic \<leftarrow> port_magic s rp;
            if rmagic \<noteq> READPORT_MAGIC then Some (ERR_BAD_HANDLE, s)
            else do {
              r \<leftarrow> the_read_port s rp;
              if rp_gport r \<noteq> None then Some (ERR_BAD_HANDLE, s)
              else do {
                (i, s1) \<leftarrow> THREAD_LOCK cpu s;
                g \<leftarrow> the_port_group s1 pg;
                if length (pg_readers g) = MAX_PORT_GROUP_COUNT then Some (ERR_TOO_BIG, THREAD_UNLOCK cpu i s1)
                else do {
                  let s2 = upd_port pg (Port_group (g\<lparr>pg_readers := pg_readers g @ [rp]\<rparr>))
                             (upd_port rp (Read_port (r\<lparr>rp_gport := Some pg\<rparr>)) s1);
                  b \<leftarrow> rp_buf r;
                  s3 \<leftarrow> (if \<not> buf_is_empty b
                        then map_option snd (wait_queue_wake_one (K_unlock i) cpu (WQ_port_group pg) False NO_ERROR s2)
                        else Some s2);
                  Some (NO_ERROR, THREAD_UNLOCK cpu i s3) } } } } }
      | _ \<Rightarrow> Some (ERR_INVALID_ARGS, s))"

definition port_group_remove :: "nat \<Rightarrow> nat option \<Rightarrow> nat option \<Rightarrow> 'a port_state_scheme \<Rightarrow> (status \<times> 'a port_state_scheme) option" where
  "port_group_remove cpu grp port s =
     (case (grp, port) of
        (Some pg, Some rp) \<Rightarrow> do {
          gmagic \<leftarrow> port_magic s pg;
          if gmagic \<noteq> PORTGROUP_MAGIC then Some (ERR_INVALID_ARGS, s)
          else do {
            rmagic \<leftarrow> port_magic s rp;
            if rmagic \<noteq> READPORT_MAGIC then Some (ERR_BAD_HANDLE, s)
            else do {
              r \<leftarrow> the_read_port s rp;
              if rp_gport r \<noteq> Some pg then Some (ERR_BAD_HANDLE, s)
              else do {
                (i, s1) \<leftarrow> THREAD_LOCK cpu s;
                g \<leftarrow> the_port_group s1 pg;
                if rp \<notin> set (pg_readers g) then Some (ERR_BAD_HANDLE, THREAD_UNLOCK cpu i s1)
                else Some (NO_ERROR, THREAD_UNLOCK cpu i
                       (upd_port pg (Port_group (g\<lparr>pg_readers := remove1 rp (pg_readers g)\<rparr>)) s1)) } } } }
      | _ \<Rightarrow> Some (ERR_INVALID_ARGS, s))"

section \<open>Writing\<close>

text \<open>The loop of \<open>port_write\<close> over the readers: the status and the number of threads woken.\<close>

definition wake_reader :: "nat \<Rightarrow> nat \<Rightarrow> read_port \<Rightarrow> 'a port_state_scheme \<Rightarrow> (int \<times> 'a port_state_scheme) option" where
  "wake_reader cpu rp r s = do {
     (awaken, s1) \<leftarrow> (case rp_gport r of
         Some pg \<Rightarrow> wait_queue_wake_one K_none cpu (WQ_port_group pg) False NO_ERROR s
       | None \<Rightarrow> Some (0, s));
     if awaken = 0 then wait_queue_wake_one K_none cpu (WQ_read_port rp) False NO_ERROR s1 else Some (awaken, s1) }"

fun write_loop :: "nat \<Rightarrow> port_packet list \<Rightarrow> nat list \<Rightarrow> status \<Rightarrow> int \<Rightarrow> 'a port_state_scheme \<Rightarrow>
    (status \<times> int \<times> 'a port_state_scheme) option" where
  "write_loop cpu pk [] st awake s = Some (st, awake, s)"
| "write_loop cpu pk (rp # rps) st awake s = do {
     r \<leftarrow> the_read_port s rp;
     b \<leftarrow> rp_buf r;
     (bs, b1) \<leftarrow> buf_write b pk;
     if bs < 0 then write_loop cpu pk rps ERR_PARTIAL_WRITE awake s
     else do {
       (awaken, s1) \<leftarrow> wake_reader cpu rp r (upd_port rp (Read_port (r\<lparr>rp_buf := Some b1\<rparr>)) s);
       write_loop cpu pk rps st (awake + awaken) s1 } }"

text \<open>
  \<open>port_write\<close> up to its \<open>thread_yield\<close>: the status it returns, whether it yields, and the state. The
  number of packets is the length of the list.
\<close>

definition port_write_locked :: "nat \<Rightarrow> nat \<Rightarrow> port_packet list \<Rightarrow> 'a port_state_scheme \<Rightarrow> (status \<times> int \<times> 'a port_state_scheme) option" where
  "port_write_locked cpu wp pk s = do {
     magic \<leftarrow> port_magic s wp;
     if magic \<noteq> WRITEPORT_MAGIC_W then Some (ERR_BAD_HANDLE, 0, s)
     else do {
       w \<leftarrow> the_write_port s wp;
       case wp_buf w of
         Some b \<Rightarrow> do {
           (st, b1) \<leftarrow> buf_write b pk;
           Some (st, 0, upd_port wp (Write_port (w\<lparr>wp_buf := Some b1\<rparr>)) s) }
       | None \<Rightarrow> write_loop cpu pk (wp_readers w) NO_ERROR 0 s } }"

definition port_write :: "nat \<Rightarrow> nat option \<Rightarrow> port_packet list option \<Rightarrow> 'a port_state_scheme \<Rightarrow> (status \<times> 'a port_state_scheme) option" where
  "port_write cpu port pk s =
     (case (port, pk) of
        (Some wp, Some ps) \<Rightarrow> do {
          (i, s1) \<leftarrow> THREAD_LOCK cpu s;
          (st, awake, s2) \<leftarrow> port_write_locked cpu wp ps s1;
          let s3 = THREAD_UNLOCK cpu i s2;
          if awake \<noteq> 0 then do { s4 \<leftarrow> thread_yield cpu s3; Some (st, s4) } else Some (st, s3) }
      | _ \<Rightarrow> Some (ERR_INVALID_ARGS, s))"

section \<open>Reading\<close>

text \<open>
  \<open>read_no_lock\<close> up to where it blocks: \<open>None\<close> as a status says that no packet was there. The context
  and the packet are stored for thread \<open>t\<close>.
\<close>

definition read_packet :: "tid \<Rightarrow> nat \<Rightarrow> 'a port_state_scheme \<Rightarrow> (status option \<times> 'a port_state_scheme) option" where
  "read_packet t rp s = do {
     r \<leftarrow> the_read_port s rp;
     b \<leftarrow> rp_buf r;
     (st, pkt, b1) \<leftarrow> buf_read b;
     let old = snd (port_result s t);
     let s1 = (upd_port rp (Read_port (r\<lparr>rp_buf := Some b1\<rparr>)) s)
                \<lparr>port_result := (port_result s)(t := (rp_ctx r, case pkt of None \<Rightarrow> old | Some x \<Rightarrow> Some x))\<rparr>;
     Some (if st \<noteq> ERR_NO_MSG then Some st else None, s1) }"

definition read_no_lock :: "nat \<Rightarrow> bool \<Rightarrow> tid \<Rightarrow> nat \<Rightarrow> u32 \<Rightarrow> 'a port_state_scheme \<Rightarrow> (status option \<times> 'a port_state_scheme) option" where
  "read_no_lock cpu i t rp timeout s = do {
     (st, s1) \<leftarrow> read_packet t rp s;
     case st of Some r \<Rightarrow> Some (Some r, s1)
     | None \<Rightarrow> if timeout = 0 then Some (Some ERR_TIMED_OUT, s1)
               else wait_queue_block (C_port_read rp) i cpu (WQ_read_port rp) timeout s1 }"

text \<open>One pass of a group read over the ports of the group.\<close>

fun group_read_pass :: "tid \<Rightarrow> nat list \<Rightarrow> 'a port_state_scheme \<Rightarrow> (status option \<times> 'a port_state_scheme) option" where
  "group_read_pass t [] s = Some (None, s)"
| "group_read_pass t (rp # rps) s = do {
     (st, s1) \<leftarrow> read_packet t rp s;
     case st of Some r \<Rightarrow> Some (Some r, s1) | None \<Rightarrow> group_read_pass t rps s1 }"

definition group_read :: "nat \<Rightarrow> bool \<Rightarrow> tid \<Rightarrow> nat \<Rightarrow> u32 \<Rightarrow> 'a port_state_scheme \<Rightarrow> (status option \<times> 'a port_state_scheme) option" where
  "group_read cpu i t pg timeout s = do {
     g \<leftarrow> the_port_group s pg;
     (st, s1) \<leftarrow> group_read_pass t (pg_readers g) s;
     case st of Some r \<Rightarrow> Some (Some r, s1)
     | None \<Rightarrow> wait_queue_block (C_group_read pg) i cpu (WQ_port_group pg) timeout s1 }"

text \<open>\<open>port_read\<close> up to where it returns or blocks, and what a blocked reader does when it runs again.\<close>

definition finish_read :: "nat \<Rightarrow> bool \<Rightarrow> status option \<times> 'a port_state_scheme \<Rightarrow> 'a port_state_scheme option" where
  "finish_read cpu i x = (case x of (None, s) \<Rightarrow> Some s | (Some st, s) \<Rightarrow> end_call cpu i st s)"

definition port_read :: "nat \<Rightarrow> nat option \<Rightarrow> u32 \<Rightarrow> bool \<Rightarrow> 'a port_state_scheme \<Rightarrow> 'a port_state_scheme option" where
  "port_read cpu port timeout out s = do {
     t \<leftarrow> current s cpu;
     case port of
       None \<Rightarrow> Some (upd_thread t (\<lambda>th. th\<lparr>call_ret := ERR_INVALID_ARGS\<rparr>) s)
     | Some p \<Rightarrow>
         if \<not> out then Some (upd_thread t (\<lambda>th. th\<lparr>call_ret := ERR_INVALID_ARGS\<rparr>) s)
         else do {
           (i, s1) \<leftarrow> THREAD_LOCK cpu s;
           magic \<leftarrow> port_magic s1 p;
           x \<leftarrow> (if magic = READPORT_MAGIC then read_no_lock cpu i t p timeout s1
                 else if magic = PORTGROUP_MAGIC then group_read cpu i t p timeout s1
                 else Some (Some ERR_BAD_HANDLE, s1));
           finish_read cpu i x } }"

definition port_read_tail :: "nat \<Rightarrow> bool \<Rightarrow> nat \<Rightarrow> u32 \<Rightarrow> status \<Rightarrow> 'a port_state_scheme \<Rightarrow> 'a port_state_scheme option" where
  "port_read_tail cpu i rp timeout wr s = do {
     t \<leftarrow> current s cpu;
     if wr \<noteq> NO_ERROR then end_call cpu i wr s
     else do { x \<leftarrow> read_no_lock cpu i t rp timeout s; finish_read cpu i x } }"

definition group_read_tail :: "nat \<Rightarrow> bool \<Rightarrow> nat \<Rightarrow> u32 \<Rightarrow> status \<Rightarrow> 'a port_state_scheme \<Rightarrow> 'a port_state_scheme option" where
  "group_read_tail cpu i pg timeout rc s = do {
     t \<leftarrow> current s cpu;
     if rc \<noteq> NO_ERROR then end_call cpu i rc s
     else do { x \<leftarrow> group_read cpu i t pg timeout s; finish_read cpu i x } }"

section \<open>Destroying and closing\<close>

fun destroy_loop :: "nat \<Rightarrow> nat list \<Rightarrow> 'a port_state_scheme \<Rightarrow> 'a port_state_scheme option" where
  "destroy_loop cpu [] s = Some s"
| "destroy_loop cpu (rp # rps) s = do {
     r \<leftarrow> the_read_port s rp;
     (_, s1) \<leftarrow> wait_queue_wake_all K_none cpu (WQ_read_port rp) False ERR_CANCELLED s;
     s2 \<leftarrow> (case rp_gport r of None \<Rightarrow> Some s1
           | Some pg \<Rightarrow> map_option snd (wait_queue_wake_all K_none cpu (WQ_port_group pg) False ERR_CANCELLED s1));
     destroy_loop cpu rps (upd_port rp (Read_port (r\<lparr>rp_wport := None\<rparr>)) s2) }"

definition port_destroy :: "nat \<Rightarrow> nat option \<Rightarrow> 'a port_state_scheme \<Rightarrow> (status \<times> 'a port_state_scheme) option" where
  "port_destroy cpu port s =
     (case port of None \<Rightarrow> Some (ERR_INVALID_ARGS, s)
      | Some p \<Rightarrow> do {
          (i, s1) \<leftarrow> THREAD_LOCK cpu s;
          magic \<leftarrow> port_magic s1 p;
          if magic \<noteq> WRITEPORT_MAGIC_X then Some (ERR_BAD_HANDLE, THREAD_UNLOCK cpu i s1)
          else do {
            w \<leftarrow> the_write_port s1 p;
            guard_that (p \<in> set (write_port_list s1));
            let s2 = s1\<lparr>write_port_list := remove1 p (write_port_list s1)\<rparr>;
            s3 \<leftarrow> (if wp_buf w \<noteq> None then Some s2 else destroy_loop cpu (wp_readers w) s2);
            Some (NO_ERROR, upd_port p Free_mem (THREAD_UNLOCK cpu i s3)) } })"

text \<open>
  The part of \<open>port_close\<close> that unlinks a read port. \<open>list_delete\<close> on a node that is in no list follows
  a null pointer, the outcome \<open>None\<close>.
\<close>

definition unlink_reader :: "nat \<Rightarrow> read_port \<Rightarrow> 'a port_state_scheme \<Rightarrow> 'a port_state_scheme option" where
  "unlink_reader rp r s = do {
     s1 \<leftarrow> (case rp_wport r of None \<Rightarrow> Some s
           | Some p \<Rightarrow> do {
               w \<leftarrow> the_write_port s p;
               guard_that (rp \<in> set (wp_readers w));
               let w1 = w\<lparr>wp_readers := remove1 rp (wp_readers w)\<rparr>;
               Some (if wp_readers w1 = []
                     then upd_port p (Write_port (w1\<lparr>wp_buf := rp_buf r\<rparr>)) (upd_port rp (Read_port (r\<lparr>rp_buf := None\<rparr>)) s)
                     else upd_port p (Write_port w1) s) });
     case rp_gport r of None \<Rightarrow> Some s1
     | Some pg \<Rightarrow> do {
         g \<leftarrow> the_port_group s1 pg;
         guard_that (rp \<in> set (pg_readers g));
         Some (upd_port pg (Port_group (g\<lparr>pg_readers := remove1 rp (pg_readers g)\<rparr>)) s1) } }"

text \<open>
  \<open>port_close\<close>: when the destruction of the wait queue switches to another thread, the rest runs when
  the caller is switched in again (\<open>port_close_tail\<close>).
\<close>

definition port_close_tail :: "wqid \<Rightarrow> 'a port_state_scheme \<Rightarrow> 'a port_state_scheme option" where
  "port_close_tail w s = (case w of
       WQ_read_port rp \<Rightarrow> Some (upd_port rp Free_mem s)
     | WQ_port_group pg \<Rightarrow> do {
         g \<leftarrow> the_port_group s pg;
         s1 \<leftarrow> clear_gports (pg_readers g) s;
         Some (upd_port pg Free_mem s1) }
     | _ \<Rightarrow> None)"

definition close_with_queue :: "nat \<Rightarrow> bool \<Rightarrow> wqid \<Rightarrow> 'a port_state_scheme \<Rightarrow> (status option \<times> 'a port_state_scheme) option" where
  "close_with_queue cpu i w s = do {
     (sw, s1) \<leftarrow> wait_queue_destroy i cpu w True s;
     if sw then Some (None, s1)
     else do { s2 \<leftarrow> port_close_tail w s1; Some (Some NO_ERROR, THREAD_UNLOCK cpu i s2) } }"

definition port_close :: "nat \<Rightarrow> nat option \<Rightarrow> 'a port_state_scheme \<Rightarrow> (status option \<times> 'a port_state_scheme) option" where
  "port_close cpu port s =
     (case port of None \<Rightarrow> Some (Some ERR_INVALID_ARGS, s)
      | Some p \<Rightarrow> do {
          (i, s1) \<leftarrow> THREAD_LOCK cpu s;
          magic \<leftarrow> port_magic s1 p;
          if magic = READPORT_MAGIC then do {
            r \<leftarrow> the_read_port s1 p;
            s2 \<leftarrow> unlink_reader p r s1;
            close_with_queue cpu i (WQ_read_port p) s2 }
          else if magic = PORTGROUP_MAGIC then close_with_queue cpu i (WQ_port_group p) s1
          else if magic = WRITEPORT_MAGIC_W then do {
            w \<leftarrow> the_write_port s1 p;
            Some (Some NO_ERROR, THREAD_UNLOCK cpu i (upd_port p (Write_port (w\<lparr>wp_magic := WRITEPORT_MAGIC_X\<rparr>)) s1)) }
          else Some (Some ERR_BAD_HANDLE, THREAD_UNLOCK cpu i s1) })"

end
