(* ===== verification/Port_Buf.thy ===== *)
theory Port_Buf
  imports Port
begin

text \<open>
  The packet buffers of ports are bounded queues: \<open>buf_write\<close> appends all its packets or none,
  \<open>buf_read\<close> takes the oldest.
\<close>

definition pb_size :: "port_buf \<Rightarrow> nat" where
  "pb_size b = 2 ^ log2 b"

definition pb_used :: "port_buf \<Rightarrow> nat" where
  "pb_used b = pb_size b - unat (avail b)"

definition pb_ok :: "port_buf \<Rightarrow> bool" where
  "pb_ok b \<longleftrightarrow> log2 b < 32 \<and> length (packet b) = pb_size b \<and> unat (pb_head b) < pb_size b \<and>
     unat (avail b) \<le> pb_size b \<and> unat (pb_tail b) = (unat (pb_head b) + pb_used b) mod pb_size b"

definition pb_data :: "port_buf \<Rightarrow> port_packet list" where
  "pb_data b = ring_data (packet b) (pb_size b) (unat (pb_head b)) (pb_used b)"

lemma pb_size_simps [simp]: "pb_size b > 0" "pb_size (b\<lparr>avail := a\<rparr>) = pb_size b" "pb_size (b\<lparr>packet := m\<rparr>) = pb_size b"
  "pb_size (b\<lparr>pb_head := h\<rparr>) = pb_size b" "pb_size (b\<lparr>pb_tail := h\<rparr>) = pb_size b"
  by (simp_all add: pb_size_def)

lemma length_pb_data [simp]: "length (pb_data b) = pb_used b"
  by (simp add: pb_data_def)

lemma pb_okD:
  assumes "pb_ok b"
  shows "log2 b < 32" "length (packet b) = pb_size b" "unat (pb_head b) < pb_size b" "unat (avail b) \<le> pb_size b"
    "unat (pb_tail b) = (unat (pb_head b) + pb_used b) mod pb_size b" "pb_size b \<le> 2 ^ 31"
    "unat (valpow2 (log2 b)) = pb_size b"
proof -
  show "log2 b < 32" "length (packet b) = pb_size b" "unat (pb_head b) < pb_size b" "unat (avail b) \<le> pb_size b"
    "unat (pb_tail b) = (unat (pb_head b) + pb_used b) mod pb_size b"
    using assms by (simp_all add: pb_ok_def)
  have "(2::nat) ^ log2 b \<le> 2 ^ 31" using \<open>log2 b < 32\<close> by (intro power_increasing) auto
  then show "pb_size b \<le> 2 ^ 31" by (simp add: pb_size_def)
  show "unat (valpow2 (log2 b)) = pb_size b" using \<open>log2 b < 32\<close> by (simp add: valpow2_unat pb_size_def)
qed

lemma pb_inc:
  assumes "log2 b < 32" "unat p < pb_size b"
  shows "unat (modpow2 (p + 1) (log2 b)) = Suc (unat p) mod pb_size b"
proof -
  have "(2::nat) ^ log2 b \<le> 2 ^ 31" using assms(1) by (intro power_increasing) auto
  then have "unat p + 1 < 2 ^ 32" using assms(2) by (simp add: pb_size_def)
  then have "unat (p + 1) = Suc (unat p)" by (simp add: unat_word_ariths)
  then show ?thesis using assms(1) by (simp add: modpow2_unat pb_size_def)
qed

lemma pb_empty_iff: "pb_ok b \<Longrightarrow> buf_is_empty b \<longleftrightarrow> pb_data b = []"
  using pb_okD(4,7) [of b] by (auto simp: buf_is_empty_def word_unat_eq_iff pb_used_def simp flip: length_0_conv)

text \<open>The loop writes behind the last packet; the room is accounted for afterwards.\<close>

lemma buf_write_loop_ok:
  assumes "log2 b < 32" "length (packet b) = pb_size b" "unat (pb_tail b) = (h + k) mod pb_size b" "k + length ps \<le> pb_size b"
  shows "\<exists>mem tl. buf_write_loop ps b = Some (b\<lparr>packet := mem, pb_tail := tl\<rparr>) \<and> length mem = pb_size b \<and>
    unat tl = (h + k + length ps) mod pb_size b \<and>
    ring_data mem (pb_size b) h (k + length ps) = ring_data (packet b) (pb_size b) h k @ ps"
  using assms
proof (induction ps arbitrary: b k)
  case Nil
  then show ?case by (intro exI [of _ "packet b"] exI [of _ "pb_tail b"]) simp
next
  case (Cons p ps)
  let ?t = "unat (pb_tail b)"
  let ?b = "b\<lparr>packet := (packet b)[?t := p], pb_tail := modpow2 (pb_tail b + 1) (log2 b)\<rparr>"
  have t: "?t < pb_size b" using Cons.prems(3) by simp
  have w: "mem_write ?t [p] (packet b) = Some ((packet b)[?t := p])"
    using t Cons.prems(2) by (simp add: mem_write_Cons mem_write_Nil)
  have "unat (pb_tail ?b) = (h + Suc k) mod pb_size ?b"
    using pb_inc [OF Cons.prems(1) t] Cons.prems(3) by (simp add: mod_Suc_eq)
  then obtain mem tl where r: "buf_write_loop ps ?b = Some (?b\<lparr>packet := mem, pb_tail := tl\<rparr>)" "length mem = pb_size ?b"
    "unat tl = (h + Suc k + length ps) mod pb_size ?b"
    "ring_data mem (pb_size ?b) h (Suc k + length ps) = ring_data (packet ?b) (pb_size ?b) h (Suc k) @ ps"
    using Cons.IH [of ?b "Suc k"] Cons.prems(1,2,4) by auto
  moreover have "ring_data ((packet b)[?t := p]) (pb_size b) h (Suc k) = ring_data (packet b) (pb_size b) h k @ [p]"
    using ring_push [of k "pb_size b" "packet b" h p] Cons.prems by simp
  ultimately show ?case using w by (intro exI [of _ mem] exI [of _ tl]) simp
qed

lemma buf_write_ok:
  assumes "pb_ok b" "pb_used b + length ps \<le> pb_size b"
  shows "\<exists>b'. buf_write b ps = Some (NO_ERROR, b') \<and> pb_ok b' \<and> pb_data b' = pb_data b @ ps \<and> pb_size b' = pb_size b"
proof -
  obtain mem tl where r: "buf_write_loop ps b = Some (b\<lparr>packet := mem, pb_tail := tl\<rparr>)" "length mem = pb_size b"
    "unat tl = (unat (pb_head b) + pb_used b + length ps) mod pb_size b"
    "ring_data mem (pb_size b) (unat (pb_head b)) (pb_used b + length ps) = pb_data b @ ps"
    using buf_write_loop_ok [of b "unat (pb_head b)" "pb_used b" ps] pb_okD(1,2,5) [OF assms(1)] assms(2)
    by (auto simp: pb_data_def)
  let ?b = "b\<lparr>packet := mem, pb_tail := tl, avail := avail b - word_of_nat (length ps)\<rparr>"
  have le: "length ps \<le> unat (avail b)" using assms(2) pb_okD(4) [OF assms(1)] by (simp add: pb_used_def)
  have "length ps < 2 ^ 32" using assms(2) pb_okD(6) [OF assms(1)] by simp
  then have l: "unat (word_of_nat (length ps) :: u32) = length ps" by (simp add: unat_of_nat take_bit_eq_mod)
  then have "unat (avail ?b) = unat (avail b) - length ps" using le by (simp add: unat_sub word_le_nat_alt)
  then have u: "pb_used ?b = pb_used b + length ps" using le pb_okD(4) [OF assms(1)] by (simp add: pb_used_def)
  have "pb_ok ?b" using assms r(2,3) u \<open>unat (avail ?b) = _\<close> by (auto simp: pb_ok_def add.assoc)
  moreover have "pb_data ?b = pb_data b @ ps" using r(4) u by (simp add: pb_data_def)
  moreover have "buf_write b ps = Some (NO_ERROR, ?b)" using r(1) le by (simp add: buf_write_def)
  ultimately show ?thesis by auto
qed

lemma buf_write_full:
  "pb_ok b \<Longrightarrow> pb_used b + length ps > pb_size b \<Longrightarrow> buf_write b ps = Some (ERR_NOT_ENOUGH_BUFFER, b)"
  using pb_okD(4) [of b] by (auto simp: buf_write_def pb_used_def)

lemma buf_read_ok:
  assumes "pb_ok b" "pb_data b = p # ps"
  shows "\<exists>b'. buf_read b = Some (NO_ERROR, Some p, b') \<and> pb_ok b' \<and> pb_data b' = ps \<and> pb_size b' = pb_size b"
proof -
  let ?h = "unat (pb_head b)" and ?n = "pb_size b"
  let ?b = "b\<lparr>pb_head := modpow2 (pb_head b + 1) (log2 b), avail := avail b + 1\<rparr>"
  have u: "pb_used b = Suc (length ps)" using length_pb_data [of b] assms(2) by simp
  note d = pb_okD [OF assms(1)]
  have pop: "pb_data b = packet b ! ?h # ring_data (packet b) ?n (Suc ?h) (length ps)"
    using ring_pop [of "pb_used b" "packet b" ?n ?h] d(3) u by (simp add: pb_data_def)
  have r: "buf_read b = Some (NO_ERROR, Some p, ?b)"
    using pop assms(2) d(2,3) pb_empty_iff [OF assms(1)] by (simp add: buf_read_def mem_read_def hd_drop_conv_nth)
  have h: "unat (pb_head ?b) = Suc ?h mod ?n" using pb_inc [OF d(1,3)] by simp
  have "unat (avail b) < ?n" using u d(4) by (simp add: pb_used_def)
  then have "unat (avail b) + 1 < 2 ^ 32" using d(6) by simp
  then have "unat (avail ?b) = Suc (unat (avail b))" by (simp add: unat_word_ariths)
  then have u': "pb_used ?b = length ps" "unat (avail ?b) \<le> ?n" using u \<open>unat (avail b) < ?n\<close> by (simp_all add: pb_used_def)
  have "unat (pb_tail ?b) = (unat (pb_head ?b) + pb_used ?b) mod ?n"
    using d(5) h u u'(1) by (simp add: mod_add_left_eq)
  then have "pb_ok ?b" using assms(1) h u'(2) by (simp add: pb_ok_def)
  moreover have "pb_data ?b = ps" using pop assms(2) h u'(1) by (simp add: pb_data_def)
  ultimately show ?thesis using r by auto
qed

lemma buf_read_empty: "pb_ok b \<Longrightarrow> pb_data b = [] \<Longrightarrow> buf_read b = Some (ERR_NO_MSG, None, b)"
  by (simp add: buf_read_def pb_empty_iff)

lemma make_buf_ok:
  assumes "make_buf big (Some mem) = Some b" "64 \<le> length mem"
  shows "pb_ok b" "pb_data b = []" "pb_size b = (if big then 64 else 8)"
proof -
  have l: "log2_uint 8 = 3" "log2_uint 64 = 6" using log2_uint_power [of 3] log2_uint_power [of 6] by simp_all
  show "pb_ok b" "pb_data b = []" "pb_size b = (if big then 64 else 8)"
    using assms l by (auto simp: make_buf_def pb_ok_def pb_data_def pb_used_def pb_size_def Let_def split: if_splits)
qed

definition pb_put :: "port_packet \<Rightarrow> port_buf \<Rightarrow> port_buf option" where
  "pb_put p b = (case buf_write b [p] of Some (st, b') \<Rightarrow> if st = NO_ERROR then Some b' else None | None \<Rightarrow> None)"

definition pb_get :: "port_buf \<Rightarrow> (port_packet \<times> port_buf) option" where
  "pb_get b = (case buf_read b of Some (st, Some p, b') \<Rightarrow> Some (p, b') | _ \<Rightarrow> None)"

interpretation pq: bounded_fifo pb_ok pb_data pb_size pb_put pb_get
proof (unfold_locales, goal_cases)
  case (1 b p)
  then show ?case using buf_write_ok [of b "[p]"] by (auto simp: pb_put_def)
next
  case (2 b p)
  then show ?case using buf_write_full [of b "[p]"] by (simp add: pb_put_def)
next
  case (3 b)
  then show ?case by (simp add: pb_used_def)
next
  case (4 b p ps)
  then show ?case using buf_read_ok [of b p ps] by (auto simp: pb_get_def)
next
  case (5 b)
  then show ?case using buf_read_empty [of b] by (simp add: pb_get_def)
qed

end
