(* ===== verification/Align.thy ===== *)
theory Align
  imports Prelude
begin

text \<open>
  The rounding macros of \<open>include/align.h\<close> on 64-bit values, and what they compute for a power of
  two.
\<close>

definition ROUNDUP :: "u64 \<Rightarrow> u64 \<Rightarrow> u64" where
  "ROUNDUP a b = (a + (b - 1)) AND NOT (b - 1)"

definition ROUNDDOWN :: "u64 \<Rightarrow> u64 \<Rightarrow> u64" where
  "ROUNDDOWN a b = a AND NOT (b - 1)"

definition IS_ALIGNED :: "u64 \<Rightarrow> u64 \<Rightarrow> bool" where
  "IS_ALIGNED a b \<longleftrightarrow> a AND (b - 1) = 0"

abbreviation (input) PAGE_SIZE :: u64 where "PAGE_SIZE \<equiv> 4096"
abbreviation (input) PAGE_SIZE_SHIFT :: nat where "PAGE_SIZE_SHIFT \<equiv> 12"

lemma unat_ucast_up: "unat (ucast (w :: u32) :: u64) = unat w"
proof -
  have "unat w < 2 ^ 64" using unsigned_less [of w] by (rule order_less_le_trans) simp
  then show ?thesis by (simp add: unsigned_ucast_eq take_bit_eq_mod)
qed

lemma unat_ucast_down: "unat (ucast (w :: u64) :: u32) = unat w mod 2 ^ 32"
  by (simp add: unsigned_ucast_eq take_bit_eq_mod)

lemma exp_minus_1: "(2 :: u64) ^ k - 1 = mask k"
  by (simp add: mask_eq_exp_minus_1)

lemma and_not_mask: "a AND NOT (mask k) = push_bit k (drop_bit k (a :: u64))"
  by (rule bit_word_eqI) (auto simp: bit_simps)

lemma unat_push_drop: "unat (push_bit k (drop_bit k (a :: u64))) = unat a div 2 ^ k * 2 ^ k"
proof -
  have "unat a div 2 ^ k * 2 ^ k \<le> unat a" by simp
  then have "unat a div 2 ^ k * 2 ^ k < 2 ^ LENGTH(64)" using unsigned_less [of a] by (rule order_le_less_trans)
  then show ?thesis unfolding unsigned_push_bit_eq unat_drop_bit_eq
    by (simp add: drop_bit_eq_div push_bit_eq_mult take_bit_eq_mod)
qed

lemma unat_ROUNDDOWN: "unat (ROUNDDOWN a (2 ^ k)) = unat a div 2 ^ k * 2 ^ k"
  by (simp add: ROUNDDOWN_def exp_minus_1 and_not_mask unat_push_drop)

lemma IS_ALIGNED_iff: "IS_ALIGNED a (2 ^ k) \<longleftrightarrow> 2 ^ k dvd unat a"
proof -
  have "a AND mask k = 0 \<longleftrightarrow> unat (take_bit k a) = 0" by (simp add: take_bit_eq_mask and.commute unat_eq_0)
  also have "\<dots> \<longleftrightarrow> unat a mod 2 ^ k = 0" unfolding unsigned_take_bit_eq by (simp add: take_bit_eq_mod)
  finally show ?thesis by (simp add: IS_ALIGNED_def exp_minus_1 dvd_eq_mod_eq_0)
qed

lemma unat_mask_u64: "k < 64 \<Longrightarrow> unat (mask k :: u64) = 2 ^ k - 1"
proof -
  assume "k < 64"
  then have "(2::nat) ^ k < 2 ^ 64" by (intro power_strict_increasing) simp_all
  then have "unat (2 ^ k :: u64) = 2 ^ k" using unat_of_nat [of "2 ^ k", where 'a = 64] by simp
  then show ?thesis using \<open>k < 64\<close> by (simp add: mask_eq_exp_minus_1 unat_minus_one)
qed

lemma unat_ROUNDUP:
  assumes "k < 64" "unat a + (2 ^ k - 1) < 2 ^ 64"
  shows "unat (ROUNDUP a (2 ^ k)) = (unat a + (2 ^ k - 1)) div 2 ^ k * 2 ^ k"
proof -
  have "unat (a + mask k) = unat a + (2 ^ k - 1)" using assms by (simp add: unat_word_ariths unat_mask_u64)
  then show ?thesis by (simp add: ROUNDUP_def exp_minus_1 and_not_mask unat_push_drop)
qed

text \<open>Rounding a natural number up to a multiple.\<close>

lemma roundup_props:
  fixes n m :: nat
  assumes "0 < m"
  shows "n \<le> (n + (m - 1)) div m * m" "(n + (m - 1)) div m * m < n + m" "m dvd (n + (m - 1)) div m * m"
    "m dvd q \<Longrightarrow> n \<le> q \<Longrightarrow> (n + (m - 1)) div m * m \<le> q"
proof -
  have d: "(n + (m - 1)) div m * m = n + (m - 1) - (n + (m - 1)) mod m" by (simp add: minus_mod_eq_div_mult)
  have b: "(n + (m - 1)) mod m < m" using assms by simp
  show 1: "n \<le> (n + (m - 1)) div m * m" "(n + (m - 1)) div m * m < n + m" using b assms unfolding d by linarith+
  show "m dvd (n + (m - 1)) div m * m" by simp
  assume "m dvd q" "n \<le> q"
  then obtain j where "q = m * j" by (auto elim: dvdE)
  have l: "(n + (m - 1)) div m < j + 1"
  proof (rule ccontr)
    assume "\<not> (n + (m - 1)) div m < j + 1"
    then have "(j + 1) * m \<le> (n + (m - 1)) div m * m" by (intro mult_le_mono1) simp
    then show False using 1(2) \<open>q = m * j\<close> \<open>n \<le> q\<close> by (simp add: algebra_simps)
  qed
  have "(n + (m - 1)) div m * m \<le> j * m" using l by (intro mult_le_mono1) simp
  then show "(n + (m - 1)) div m * m \<le> q" using \<open>q = m * j\<close> by (simp add: mult.commute)
qed

end
