(* ===== verification/Pmm.thy ===== *)
theory Pmm
  imports Align
begin

text \<open>
  The physical page allocator, \<open>kernel/vm/pmm.c\<close>, with the boot-time allocator it takes its page
  arrays from (\<open>kernel/vm/bootalloc.c\<close>) and the address translations of \<open>kernel/vm/vm.c\<close>. Every
  operation holds the allocator's mutex throughout, so it is one step here.
\<close>

section \<open>State\<close>

text \<open>
  A \<open>vm_page_t *\<close> is an element of the page array of an arena: the arena and the index. An arena is
  named by a number; \<open>page_array\<close> is the address of its array.
\<close>

type_synonym vm_page = "nat \<times> nat"

record pmm_arena =
  ar_flags :: u32
  priority :: u32
  ar_base :: u64
  ar_size :: u64
  free_count :: nat
  page_array :: u64
  free_list :: "vm_page list"

record pmm_state =
  arena_list :: "nat list"
  arenas :: "nat \<Rightarrow> pmm_arena"
  page_flags :: "vm_page \<Rightarrow> u32"
  boot_alloc_end :: u64

abbreviation (input) VM_PAGE_FLAG_NONFREE :: u32 where "VM_PAGE_FLAG_NONFREE \<equiv> 1"
abbreviation (input) PMM_ARENA_FLAG_KMAP :: u32 where "PMM_ARENA_FLAG_KMAP \<equiv> 1"

definition upd_arena :: "nat \<Rightarrow> (pmm_arena \<Rightarrow> pmm_arena) \<Rightarrow> 'a pmm_state_scheme \<Rightarrow> 'a pmm_state_scheme" where
  "upd_arena a f s = s\<lparr>arenas := (arenas s)(a := f (arenas s a))\<rparr>"

definition set_flags :: "vm_page \<Rightarrow> u32 \<Rightarrow> 'a pmm_state_scheme \<Rightarrow> 'a pmm_state_scheme" where
  "set_flags p fl s = s\<lparr>page_flags := (page_flags s)(p := fl)\<rparr>"

text \<open>The number of pages of an arena, \<open>size / PAGE_SIZE\<close>.\<close>

definition arena_pages :: "pmm_arena \<Rightarrow> nat" where
  "arena_pages a = unat (ar_size a div PAGE_SIZE)"

definition PAGE_BELONGS_TO_ARENA :: "vm_page \<Rightarrow> nat \<Rightarrow> 'a pmm_state_scheme \<Rightarrow> bool" where
  "PAGE_BELONGS_TO_ARENA p a s \<longleftrightarrow> fst p = a \<and> snd p < arena_pages (arenas s a)"

definition PAGE_ADDRESS_FROM_ARENA :: "vm_page \<Rightarrow> pmm_arena \<Rightarrow> u64" where
  "PAGE_ADDRESS_FROM_ARENA p a = word_of_nat (snd p) * PAGE_SIZE + ar_base a"

definition ADDRESS_IN_ARENA :: "u64 \<Rightarrow> pmm_arena \<Rightarrow> bool" where
  "ADDRESS_IN_ARENA address a \<longleftrightarrow> address \<ge> ar_base a \<and> address \<le> ar_base a + ar_size a - 1"

definition page_is_free :: "vm_page \<Rightarrow> 'a pmm_state_scheme \<Rightarrow> bool" where
  "page_is_free p s \<longleftrightarrow> page_flags s p AND VM_PAGE_FLAG_NONFREE = 0"

definition vm_page_to_paddr :: "vm_page \<Rightarrow> 'a pmm_state_scheme \<Rightarrow> u64" where
  "vm_page_to_paddr p s =
     (case find (\<lambda>a. PAGE_BELONGS_TO_ARENA p a s) (arena_list s) of
        Some a \<Rightarrow> PAGE_ADDRESS_FROM_ARENA p (arenas s a) | None \<Rightarrow> - 1)"

definition paddr_to_vm_page :: "u64 \<Rightarrow> 'a pmm_state_scheme \<Rightarrow> vm_page option" where
  "paddr_to_vm_page addr s =
     (case find (\<lambda>a. addr \<ge> ar_base (arenas s a) \<and> addr \<le> ar_base (arenas s a) + ar_size (arenas s a) - 1) (arena_list s) of
        Some a \<Rightarrow> Some (a, unat ((addr - ar_base (arenas s a)) div PAGE_SIZE)) | None \<Rightarrow> None)"

section \<open>Adding an arena\<close>

definition boot_alloc_mem :: "u64 \<Rightarrow> 'a pmm_state_scheme \<Rightarrow> u64 \<times> 'a pmm_state_scheme" where
  "boot_alloc_mem len s = (let ptr = ROUNDUP (boot_alloc_end s) 8 in (ptr, s\<lparr>boot_alloc_end := ptr + ROUNDUP len 8\<rparr>))"

text \<open>The walk that inserts the arena before the first of lower rank.\<close>

fun insert_arena :: "nat \<Rightarrow> (nat \<Rightarrow> u32) \<Rightarrow> nat list \<Rightarrow> nat list" where
  "insert_arena a prio [] = [a]"
| "insert_arena a prio (b # bs) = (if prio b > prio a then a # b # bs else b # insert_arena a prio bs)"

text \<open>\<open>sizeof(vm_page_t)\<close> is 24.\<close>

definition pmm_add_arena :: "nat \<Rightarrow> 'a pmm_state_scheme \<Rightarrow> (status \<times> 'a pmm_state_scheme) option" where
  "pmm_add_arena a s = do {
     guard_that (IS_ALIGNED (ar_base (arenas s a)) PAGE_SIZE);
     guard_that (IS_ALIGNED (ar_size (arenas s a)) PAGE_SIZE);
     guard_that (ar_size (arenas s a) > 0);
     let s1 = s\<lparr>arena_list := insert_arena a (\<lambda>b. priority (arenas s b)) (arena_list s)\<rparr>;
     let page_count = ar_size (arenas s a) div PAGE_SIZE;
     let (mem, s2) = boot_alloc_mem (page_count * 24) s1;
     let pages = map (\<lambda>i. (a, i)) [0..<unat page_count];
     let s3 = s2\<lparr>page_flags := (\<lambda>p. if fst p = a \<and> snd p < unat page_count then 0 else page_flags s2 p)\<rparr>;
     let s4 = upd_arena a (\<lambda>x. x\<lparr>page_array := mem, free_list := pages, free_count := length pages\<rparr>) s3;
     Some (NO_ERROR, s4) }"

section \<open>Allocating and freeing pages\<close>

text \<open>
  The inner loop of \<open>pmm_alloc_pages\<close>, with \<open>n\<close> pages still wanted: the new number wanted, the list,
  and whether the search is over because the free list is unexpectedly empty.
\<close>

fun alloc_from_arena :: "nat \<Rightarrow> nat \<Rightarrow> vm_page list \<Rightarrow> 'a pmm_state_scheme \<Rightarrow> bool \<times> nat \<times> vm_page list \<times> 'a pmm_state_scheme" where
  "alloc_from_arena 0 a lst s = (False, 0, lst, s)"
| "alloc_from_arena (Suc n) a lst s =
     (if free_count (arenas s a) > 0
      then case free_list (arenas s a) of
             [] \<Rightarrow> (True, Suc n, lst, s)
           | p # ps \<Rightarrow> alloc_from_arena n a (lst @ [p])
               (set_flags p (page_flags s p OR VM_PAGE_FLAG_NONFREE)
                 (upd_arena a (\<lambda>x. x\<lparr>free_list := ps, free_count := free_count x - 1\<rparr>) s))
      else (False, Suc n, lst, s))"

fun alloc_from_arenas :: "nat list \<Rightarrow> nat \<Rightarrow> vm_page list \<Rightarrow> 'a pmm_state_scheme \<Rightarrow> nat \<times> vm_page list \<times> 'a pmm_state_scheme" where
  "alloc_from_arenas [] n lst s = (n, lst, s)"
| "alloc_from_arenas (a # as) n lst s =
     (case alloc_from_arena n a lst s of
        (True, n', lst', s') \<Rightarrow> (n', lst', s')
      | (False, n', lst', s') \<Rightarrow> alloc_from_arenas as n' lst' s')"

definition pmm_alloc_pages :: "nat \<Rightarrow> vm_page list \<Rightarrow> 'a pmm_state_scheme \<Rightarrow> nat \<times> vm_page list \<times> 'a pmm_state_scheme" where
  "pmm_alloc_pages count lst s =
     (if count = 0 then (0, lst, s)
      else case alloc_from_arenas (arena_list s) count lst s of (n, lst', s') \<Rightarrow> (count - n, lst', s'))"

definition pmm_alloc_page :: "'a pmm_state_scheme \<Rightarrow> (vm_page option \<times> 'a pmm_state_scheme) option" where
  "pmm_alloc_page s =
     (case pmm_alloc_pages 1 [] s of (ret, lst, s') \<Rightarrow>
        if ret = 0 then Some (None, s')
        else do { guard_that (ret = 1); Some (if lst = [] then None else Some (hd lst), s') })"

text \<open>
  The inner loop of \<open>pmm_alloc_range\<close>: \<open>n\<close> pages still wanted, the next from \<open>address\<close>. Taking a page
  that is on no list out of its list is the outcome \<open>None\<close>.
\<close>

fun range_in_arena :: "nat \<Rightarrow> nat \<Rightarrow> u64 \<Rightarrow> vm_page list \<Rightarrow> 'a pmm_state_scheme \<Rightarrow>
    (nat \<times> u64 \<times> vm_page list \<times> 'a pmm_state_scheme) option" where
  "range_in_arena 0 a address lst s = Some (0, address, lst, s)"
| "range_in_arena (Suc n) a address lst s =
     (if ADDRESS_IN_ARENA address (arenas s a)
      then do {
        let index = unat ((address - ar_base (arenas s a)) div PAGE_SIZE);
        guard_that (index < arena_pages (arenas s a));
        let p = (a, index);
        if page_flags s p AND VM_PAGE_FLAG_NONFREE \<noteq> 0 then Some (Suc n, address, lst, s)
        else do {
          guard_that (p \<in> set (free_list (arenas s a)));
          range_in_arena n a (address + PAGE_SIZE) (lst @ [p])
            (set_flags p (page_flags s p OR VM_PAGE_FLAG_NONFREE)
              (upd_arena a (\<lambda>x. x\<lparr>free_list := remove1 p (free_list x), free_count := free_count x - 1\<rparr>) s)) } }
      else Some (Suc n, address, lst, s))"

fun range_in_arenas :: "nat list \<Rightarrow> nat \<Rightarrow> u64 \<Rightarrow> vm_page list \<Rightarrow> 'a pmm_state_scheme \<Rightarrow> (nat \<times> vm_page list \<times> 'a pmm_state_scheme) option" where
  "range_in_arenas [] n address lst s = Some (n, lst, s)"
| "range_in_arenas (a # as) n address lst s = do {
     (n', address', lst', s') \<leftarrow> range_in_arena n a address lst s;
     if n' = 0 then Some (0, lst', s') else range_in_arenas as n' address' lst' s' }"

definition pmm_alloc_range :: "u64 \<Rightarrow> nat \<Rightarrow> vm_page list \<Rightarrow> 'a pmm_state_scheme \<Rightarrow> (nat \<times> vm_page list \<times> 'a pmm_state_scheme) option" where
  "pmm_alloc_range address count lst s =
     (if count = 0 then Some (0, lst, s)
      else do {
        (n, lst', s') \<leftarrow> range_in_arenas (arena_list s) count (ROUNDDOWN address PAGE_SIZE) lst s;
        Some (count - n, lst', s') })"

fun pmm_free :: "vm_page list \<Rightarrow> 'a pmm_state_scheme \<Rightarrow> (nat \<times> 'a pmm_state_scheme) option" where
  "pmm_free [] s = Some (0, s)"
| "pmm_free (p # ps) s = do {
     guard_that (page_flags s p AND VM_PAGE_FLAG_NONFREE \<noteq> 0);
     case find (\<lambda>a. PAGE_BELONGS_TO_ARENA p a s) (arena_list s) of
       None \<Rightarrow> pmm_free ps s
     | Some a \<Rightarrow> do {
         (count, s') \<leftarrow> pmm_free ps (set_flags p (page_flags s p AND NOT VM_PAGE_FLAG_NONFREE)
           (upd_arena a (\<lambda>x. x\<lparr>free_list := p # free_list x, free_count := free_count x + 1\<rparr>) s));
         Some (count + 1, s') } }"

definition pmm_free_page :: "vm_page \<Rightarrow> 'a pmm_state_scheme \<Rightarrow> (nat \<times> 'a pmm_state_scheme) option" where
  "pmm_free_page p s = pmm_free [p] s"

section \<open>Contiguous runs\<close>

text \<open>
  The inner loop over the pages of a candidate run: the offset of the first page that is in use.
  Reading beyond the page array is the outcome \<open>None\<close>.
\<close>

fun first_used :: "nat \<Rightarrow> nat \<Rightarrow> nat \<Rightarrow> nat \<Rightarrow> 'a pmm_state_scheme \<Rightarrow> nat option option" where
  "first_used 0 a start i s = Some None"
| "first_used (Suc k) a start i s = do {
     guard_that (start + i < arena_pages (arenas s a));
     if page_flags s (a, start + i) AND VM_PAGE_FLAG_NONFREE \<noteq> 0 then Some (Some i)
     else first_used k a start (i + 1) s }"

text \<open>
  The search: \<open>start\<close>, \<open>count\<close> and their sum are 32-bit, so the sum can wrap. The outer option is the
  outcome of the search loop, which can be a fault or not end.
\<close>

definition next_start :: "u32 \<Rightarrow> u32 \<Rightarrow> nat \<Rightarrow> nat \<Rightarrow> u32" where
  "next_start start aligned_offset i alignment_log2 =
     ucast (ROUNDUP (ucast (start - aligned_offset + word_of_nat i + 1)) (2 ^ (alignment_log2 - PAGE_SIZE_SHIFT))
            + ucast aligned_offset)"

definition run_fits :: "u32 \<Rightarrow> u32 \<Rightarrow> pmm_arena \<Rightarrow> bool" where
  "run_fits start count a \<longleftrightarrow> ucast start < ar_size a div PAGE_SIZE \<and> ucast (start + count) \<le> ar_size a div PAGE_SIZE"

partial_function (option) find_run :: "nat \<Rightarrow> u32 \<Rightarrow> nat \<Rightarrow> u32 \<Rightarrow> u32 \<Rightarrow> 'a pmm_state_scheme \<Rightarrow> u32 option option" where
  "find_run a count alignment_log2 aligned_offset start s =
     (if run_fits start count (arenas s a)
      then first_used (unat count) a (unat start) 0 s \<bind>
        (\<lambda>r. case r of None \<Rightarrow> Some (Some start)
           | Some i \<Rightarrow> find_run a count alignment_log2 aligned_offset (next_start start aligned_offset i alignment_log2) s)
      else Some None)"

text \<open>Taking the pages of a run out of the free list; \<open>None\<close> for the list argument is the null pointer.\<close>

fun take_run :: "nat \<Rightarrow> nat \<Rightarrow> nat \<Rightarrow> vm_page list option \<Rightarrow> 'a pmm_state_scheme \<Rightarrow> (vm_page list option \<times> 'a pmm_state_scheme) option" where
  "take_run 0 a i lst s = Some (lst, s)"
| "take_run (Suc k) a i lst s = do {
     let p = (a, i);
     guard_that (page_flags s p AND VM_PAGE_FLAG_NONFREE = 0);
     guard_that (p \<in> set (free_list (arenas s a)));
     take_run k a (i + 1) (map_option (\<lambda>l. l @ [p]) lst)
       (set_flags p (page_flags s p OR VM_PAGE_FLAG_NONFREE)
         (upd_arena a (\<lambda>x. x\<lparr>free_list := remove1 p (free_list x), free_count := free_count x - 1\<rparr>) s)) }"

fun contiguous_in_arenas :: "nat list \<Rightarrow> u32 \<Rightarrow> nat \<Rightarrow> vm_page list option \<Rightarrow> 'a pmm_state_scheme \<Rightarrow>
    (nat \<times> u64 option \<times> vm_page list option \<times> 'a pmm_state_scheme) option" where
  "contiguous_in_arenas [] count alignment_log2 lst s = Some (0, None, lst, s)"
| "contiguous_in_arenas (a # as) count alignment_log2 lst s =
     (let ar = arenas s a; rounded_base = ROUNDUP (ar_base ar) (2 ^ alignment_log2) in
      if ar_flags ar AND PMM_ARENA_FLAG_KMAP = 0 then contiguous_in_arenas as count alignment_log2 lst s
      else if rounded_base < ar_base ar \<or> rounded_base > ar_base ar + ar_size ar - 1
      then contiguous_in_arenas as count alignment_log2 lst s
      else do {
        let aligned_offset = ucast ((rounded_base - ar_base ar) div PAGE_SIZE);
        r \<leftarrow> find_run a count alignment_log2 aligned_offset aligned_offset s;
        case r of
          None \<Rightarrow> contiguous_in_arenas as count alignment_log2 lst s
        | Some start \<Rightarrow> do {
            (lst', s') \<leftarrow> take_run (unat count) a (unat start) lst s;
            Some (unat count, Some (ar_base ar + ucast start * PAGE_SIZE), lst', s') } })"

definition pmm_alloc_contiguous :: "u32 \<Rightarrow> nat \<Rightarrow> vm_page list option \<Rightarrow> 'a pmm_state_scheme \<Rightarrow>
    (nat \<times> u64 option \<times> vm_page list option \<times> 'a pmm_state_scheme) option" where
  "pmm_alloc_contiguous count alignment_log2 lst s =
     (if count = 0 then Some (0, None, lst, s)
      else contiguous_in_arenas (arena_list s) count (max alignment_log2 PAGE_SIZE_SHIFT) lst s)"

end
