(* ===== verification/Pmm_Inv.thy ===== *)
theory Pmm_Inv
  imports Pmm
begin

text \<open>
  Correctness of the physical page allocator: the free lists are exactly the free pages, an
  allocation takes distinct free pages and nothing else, freeing gives them back, and a contiguous
  allocation finds an aligned free run exactly when there is one.
\<close>

section \<open>Invariant\<close>

definition arena_ok :: "nat \<Rightarrow> 'a pmm_state_scheme \<Rightarrow> bool" where
  "arena_ok a s \<longleftrightarrow> distinct (free_list (arenas s a)) \<and> free_count (arenas s a) = length (free_list (arenas s a)) \<and>
     set (free_list (arenas s a)) = {p. fst p = a \<and> snd p < arena_pages (arenas s a) \<and> page_is_free p s}"

definition pmm_inv :: "'a pmm_state_scheme \<Rightarrow> bool" where
  "pmm_inv s \<longleftrightarrow> distinct (arena_list s) \<and> (\<forall>a \<in> set (arena_list s). arena_ok a s)"

definition free_pages :: "'a pmm_state_scheme \<Rightarrow> vm_page set" where
  "free_pages s = {p. fst p \<in> set (arena_list s) \<and> snd p < arena_pages (arenas s (fst p)) \<and> page_is_free p s}"

text \<open>What no allocation changes: the arenas and where they lie.\<close>

definition same_arenas :: "'a pmm_state_scheme \<Rightarrow> 'a pmm_state_scheme \<Rightarrow> bool" where
  "same_arenas s s' \<longleftrightarrow> arena_list s' = arena_list s \<and>
     (\<forall>a. (arenas s' a)\<lparr>free_list := [], free_count := 0\<rparr> = (arenas s a)\<lparr>free_list := [], free_count := 0\<rparr>)"

lemma free_pages_list: "pmm_inv s \<Longrightarrow> p \<in> free_pages s \<longleftrightarrow> fst p \<in> set (arena_list s) \<and> p \<in> set (free_list (arenas s (fst p)))"
  by (auto simp: pmm_inv_def arena_ok_def free_pages_def)

lemma same_arenasD:
  assumes "same_arenas s s'"
  shows "arena_list s' = arena_list s" "arena_pages (arenas s' a) = arena_pages (arenas s a)"
    "ar_base (arenas s' a) = ar_base (arenas s a)" "ar_size (arenas s' a) = ar_size (arenas s a)"
    "ar_flags (arenas s' a) = ar_flags (arenas s a)"
proof -
  have "(arenas s' a)\<lparr>free_list := [], free_count := 0\<rparr> = (arenas s a)\<lparr>free_list := [], free_count := 0\<rparr>"
    using assms by (simp add: same_arenas_def)
  then show "arena_pages (arenas s' a) = arena_pages (arenas s a)" "ar_base (arenas s' a) = ar_base (arenas s a)"
    "ar_size (arenas s' a) = ar_size (arenas s a)" "ar_flags (arenas s' a) = ar_flags (arenas s a)"
    by (auto simp: arena_pages_def dest: arg_cong [of _ _ ar_base] arg_cong [of _ _ ar_size] arg_cong [of _ _ ar_flags])
  show "arena_list s' = arena_list s" using assms by (simp add: same_arenas_def)
qed

section \<open>Taking pages\<close>

definition grab :: "vm_page \<Rightarrow> 'a pmm_state_scheme \<Rightarrow> 'a pmm_state_scheme" where
  "grab p s = set_flags p (page_flags s p OR VM_PAGE_FLAG_NONFREE)
     (upd_arena (fst p) (\<lambda>x. x\<lparr>free_list := remove1 p (free_list x), free_count := free_count x - 1\<rparr>) s)"

lemma bit_free: "x AND 1 = (0 :: u32) \<longleftrightarrow> \<not> bit x 0"
  by (simp add: and_one_eq bit_0 even_iff_mod_2_eq_zero)

lemma grab_simps [simp]:
  "arena_list (grab p s) = arena_list s" "arena_pages (arenas (grab p s) a) = arena_pages (arenas s a)"
  "page_is_free q (grab p s) \<longleftrightarrow> q \<noteq> p \<and> page_is_free q s"
  "a \<noteq> fst p \<Longrightarrow> arenas (grab p s) a = arenas s a" "same_arenas s (grab p s)"
  "page_flags (grab p s) q = (if q = p then page_flags s p OR 1 else page_flags s q)"
  by (auto simp: grab_def set_flags_def upd_arena_def arena_pages_def page_is_free_def same_arenas_def bit_free bit_simps bit_1_iff)

lemma grab_ok:
  assumes "pmm_inv s" "p \<in> free_pages s"
  shows "pmm_inv (grab p s)" "free_pages (grab p s) = free_pages s - {p}"
proof -
  have p: "fst p \<in> set (arena_list s)" "p \<in> set (free_list (arenas s (fst p)))"
    using assms free_pages_list [OF assms(1)] by auto
  have "arena_ok a (grab p s)" if "a \<in> set (arena_list s)" for a
  proof (cases "a = fst p")
    case True
    then have "arena_ok (fst p) s" using assms(1) that by (simp add: pmm_inv_def)
    then show ?thesis using True p(2)
      by (auto simp: arena_ok_def grab_def set_flags_def upd_arena_def arena_pages_def page_is_free_def length_remove1
          bit_free bit_simps bit_1_iff split: if_splits)
  next
    case False
    have "arena_ok a s" using assms(1) that by (simp add: pmm_inv_def)
    then show ?thesis using False by (auto simp: arena_ok_def)
  qed
  then show "pmm_inv (grab p s)" using assms(1) by (simp add: pmm_inv_def)
  show "free_pages (grab p s) = free_pages s - {p}" by (auto simp: free_pages_def)
qed

text \<open>An allocation of the pages \<open>ps\<close>.\<close>

definition allocated :: "vm_page list \<Rightarrow> 'a pmm_state_scheme \<Rightarrow> 'a pmm_state_scheme \<Rightarrow> bool" where
  "allocated ps s s' \<longleftrightarrow> pmm_inv s' \<and> distinct ps \<and> set ps \<subseteq> free_pages s \<and> free_pages s' = free_pages s - set ps \<and>
     same_arenas s s' \<and> (\<forall>p. page_flags s' p = (if p \<in> set ps then page_flags s p OR VM_PAGE_FLAG_NONFREE else page_flags s p))"

lemma same_arenas_trans: "same_arenas s s1 \<Longrightarrow> same_arenas s1 s2 \<Longrightarrow> same_arenas s s2"
  by (simp add: same_arenas_def)

lemma grab_all:
  "pmm_inv s \<Longrightarrow> distinct ps \<Longrightarrow> set ps \<subseteq> free_pages s \<Longrightarrow> allocated ps s (fold grab ps s)"
proof (induction ps arbitrary: s)
  case Nil
  then show ?case by (simp add: allocated_def same_arenas_def)
next
  case (Cons p ps)
  have p: "p \<in> free_pages s" using Cons.prems by simp
  note g = grab_ok [OF Cons.prems(1) p]
  have "allocated ps (grab p s) (fold grab ps (grab p s))"
    using Cons.prems g by (intro Cons.IH) auto
  then show ?case using Cons.prems g same_arenas_trans [of s "grab p s"] by (auto simp: allocated_def)
qed

lemma fold_grab_other: "a \<notin> fst ` set ps \<Longrightarrow> arenas (fold grab ps s) a = arenas s a"
  by (induction ps arbitrary: s) auto

lemma fold_grab_list [simp]: "arena_list (fold grab ps s) = arena_list s"
  by (induction ps arbitrary: s) auto

section \<open>Allocating any pages\<close>

lemma alloc_from_arena_eq:
  assumes "free_count (arenas s a) = length (free_list (arenas s a))" "\<And>p. p \<in> set (free_list (arenas s a)) \<Longrightarrow> fst p = a"
  shows "alloc_from_arena n a lst s = (False, n - length (take n (free_list (arenas s a))),
    lst @ take n (free_list (arenas s a)), fold grab (take n (free_list (arenas s a))) s)"
  using assms
proof (induction n a lst s rule: alloc_from_arena.induct)
  case (2 n a lst s)
  show ?case
  proof (cases "free_list (arenas s a)")
    case Nil
    then show ?thesis using 2(2) by simp
  next
    case (Cons p ps)
    let ?s = "set_flags p (page_flags s p OR VM_PAGE_FLAG_NONFREE)
                 (upd_arena a (\<lambda>x. x\<lparr>free_list := ps, free_count := free_count x - 1\<rparr>) s)"
    have "fst p = a" using 2(3) [of p] Cons by simp
    then have g: "grab p s = ?s" using Cons by (simp add: grab_def upd_arena_def)
    have f: "free_list (arenas ?s a) = ps" "free_count (arenas ?s a) = length ps"
      using 2(2) Cons by (simp_all add: upd_arena_def set_flags_def)
    have "alloc_from_arena n a (lst @ [p]) ?s = (False, n - length (take n ps), (lst @ [p]) @ take n ps, fold grab (take n ps) ?s)"
      using 2(1) [OF _ Cons] 2(2,3) Cons f by auto
    then show ?thesis using Cons 2(2) g by simp
  qed
qed simp

definition free_lists :: "nat list \<Rightarrow> 'a pmm_state_scheme \<Rightarrow> vm_page list" where
  "free_lists as s = concat (map (\<lambda>a. free_list (arenas s a)) as)"

lemma alloc_from_arenas_eq:
  assumes "distinct as" "\<And>a. a \<in> set as \<Longrightarrow> free_count (arenas s a) = length (free_list (arenas s a)) \<and>
     (\<forall>p \<in> set (free_list (arenas s a)). fst p = a)"
  shows "alloc_from_arenas as n lst s = (n - length (take n (free_lists as s)), lst @ take n (free_lists as s),
    fold grab (take n (free_lists as s)) s)"
  using assms
proof (induction as n lst s rule: alloc_from_arenas.induct)
  case (2 a as n lst s)
  let ?f = "free_list (arenas s a)"
  let ?t = "take n ?f"
  let ?s = "fold grab ?t s"
  have e: "alloc_from_arena n a lst s = (False, n - length ?t, lst @ ?t, ?s)"
    using 2(3) [of a] by (intro alloc_from_arena_eq) auto
  have "fst ` set ?t \<subseteq> {a}" using 2(3) [of a] by (auto dest: in_set_takeD)
  then have o: "arenas ?s b = arenas s b" if "b \<in> set as" for b
    using that 2(2) by (intro fold_grab_other) auto
  then have l: "free_lists as ?s = free_lists as s" by (simp add: free_lists_def cong: map_cong)
  have "alloc_from_arenas as (n - length ?t) (lst @ ?t) ?s = (n - length ?t - length (take (n - length ?t) (free_lists as ?s)),
      (lst @ ?t) @ take (n - length ?t) (free_lists as ?s), fold grab (take (n - length ?t) (free_lists as ?s)) ?s)"
    using 2(1) [OF e [symmetric] refl refl refl] 2(2,3) o by auto
  moreover have "take n (free_lists (a # as) s) = ?t @ take (n - length ?t) (free_lists as s)"
    by (cases "n \<le> length ?f") (simp_all add: free_lists_def)
  ultimately show ?case using e l by simp
qed (simp add: free_lists_def)

lemma free_lists_props:
  assumes "pmm_inv s"
  shows "distinct (free_lists (arena_list s) s)" "set (free_lists (arena_list s) s) = free_pages s"
proof -
  have "distinct as \<Longrightarrow> set as \<subseteq> set (arena_list s) \<Longrightarrow> distinct (free_lists as s)" for as
  proof (induction as)
    case (Cons a as)
    have "arena_ok b s" if "b \<in> set (a # as)" for b using assms Cons.prems(2) that by (auto simp: pmm_inv_def)
    then show ?case using Cons by (fastforce simp: free_lists_def arena_ok_def)
  qed (simp add: free_lists_def)
  then show "distinct (free_lists (arena_list s) s)" using assms by (simp add: pmm_inv_def)
  show "set (free_lists (arena_list s) s) = free_pages s"
    using free_pages_list [OF assms] assms by (fastforce simp: free_lists_def pmm_inv_def arena_ok_def)
qed

lemma alloc_pages_ok:
  assumes "pmm_inv s"
  shows "\<exists>ps s'. pmm_alloc_pages count lst s = (length ps, lst @ ps, s') \<and> allocated ps s s' \<and>
    length ps = min count (card (free_pages s))"
proof -
  let ?ps = "take count (free_lists (arena_list s) s)"
  note f = free_lists_props [OF assms]
  have c: "length (free_lists (arena_list s) s) = card (free_pages s)" using distinct_card [OF f(1)] f(2) by simp
  have "alloc_from_arenas (arena_list s) count lst s = (count - length ?ps, lst @ ?ps, fold grab ?ps s)"
    using assms by (intro alloc_from_arenas_eq) (auto simp: pmm_inv_def arena_ok_def)
  then have "pmm_alloc_pages count lst s = (length ?ps, lst @ ?ps, fold grab ?ps s)"
    by (auto simp: pmm_alloc_pages_def)
  moreover have "allocated ?ps s (fold grab ?ps s)"
    using f by (intro grab_all assms) (auto dest: in_set_takeD)
  ultimately show ?thesis using c by (intro exI [of _ ?ps] exI [of _ "fold grab ?ps s"]) (simp add: min.commute)
qed

section \<open>Freeing\<close>

definition release :: "vm_page \<Rightarrow> 'a pmm_state_scheme \<Rightarrow> 'a pmm_state_scheme" where
  "release p s = set_flags p (page_flags s p AND NOT VM_PAGE_FLAG_NONFREE)
     (upd_arena (fst p) (\<lambda>x. x\<lparr>free_list := p # free_list x, free_count := free_count x + 1\<rparr>) s)"

lemma bit_clear_0 [simp]: "bit (x AND - 2 :: u32) n \<longleftrightarrow> n \<noteq> 0 \<and> bit x n"
proof -
  have "(- 2 :: u32) = NOT 1" by simp
  then show ?thesis by (auto simp: bit_simps bit_1_iff dest: bit_imp_le_length)
qed

lemma release_simps [simp]:
  "arena_list (release p s) = arena_list s" "arena_pages (arenas (release p s) a) = arena_pages (arenas s a)"
  "page_is_free q (release p s) \<longleftrightarrow> q = p \<or> page_is_free q s"
  "a \<noteq> fst p \<Longrightarrow> arenas (release p s) a = arenas s a" "same_arenas s (release p s)"
  by (auto simp: release_def set_flags_def upd_arena_def arena_pages_def page_is_free_def same_arenas_def bit_free)

text \<open>The pages of the arenas that are in use.\<close>

definition used_pages :: "'a pmm_state_scheme \<Rightarrow> vm_page set" where
  "used_pages s = {p. fst p \<in> set (arena_list s) \<and> snd p < arena_pages (arenas s (fst p)) \<and> \<not> page_is_free p s}"

lemma release_ok:
  assumes "pmm_inv s" "p \<in> used_pages s"
  shows "pmm_inv (release p s)" "free_pages (release p s) = insert p (free_pages s)" "used_pages (release p s) = used_pages s - {p}"
proof -
  have "arena_ok a (release p s)" if "a \<in> set (arena_list s)" for a
  proof (cases "a = fst p")
    case True
    then have "arena_ok (fst p) s" using assms(1) that by (simp add: pmm_inv_def)
    then show ?thesis using True assms(2)
      by (auto simp: arena_ok_def release_def set_flags_def upd_arena_def arena_pages_def page_is_free_def used_pages_def
          bit_free split: if_splits)
  next
    case False
    have "arena_ok a s" using assms(1) that by (simp add: pmm_inv_def)
    then show ?thesis using False by (auto simp: arena_ok_def)
  qed
  then show "pmm_inv (release p s)" using assms(1) by (simp add: pmm_inv_def)
  show "free_pages (release p s) = insert p (free_pages s)" "used_pages (release p s) = used_pages s - {p}"
    using assms(2) by (auto simp: free_pages_def used_pages_def)
qed

lemma find_arena:
  assumes "pmm_inv s" "p \<in> used_pages s"
  shows "find (\<lambda>a. PAGE_BELONGS_TO_ARENA p a s) (arena_list s) = Some (fst p)"
proof -
  have "fst p \<in> set xs \<Longrightarrow> find (\<lambda>a. PAGE_BELONGS_TO_ARENA p a s) xs = Some (fst p)" for xs
    using assms(2) by (induction xs) (auto simp: PAGE_BELONGS_TO_ARENA_def used_pages_def)
  then show ?thesis using assms(2) by (simp add: used_pages_def)
qed

lemma pmm_free_ok:
  assumes "pmm_inv s" "distinct ps" "set ps \<subseteq> used_pages s"
  shows "\<exists>s'. pmm_free ps s = Some (length ps, s') \<and> pmm_inv s' \<and> free_pages s' = free_pages s \<union> set ps \<and> same_arenas s s'"
  using assms
proof (induction ps arbitrary: s)
  case Nil
  then show ?case by (simp add: same_arenas_def)
next
  case (Cons p ps)
  have p: "p \<in> used_pages s" using Cons.prems by simp
  note r = release_ok [OF Cons.prems(1) p]
  obtain s' where s': "pmm_free ps (release p s) = Some (length ps, s')" "pmm_inv s'" "free_pages s' = free_pages (release p s) \<union> set ps"
    "same_arenas (release p s) s'"
    using Cons.IH [OF r(1)] Cons.prems r(3) by auto
  have "page_flags s p AND 1 \<noteq> 0" using p by (simp add: used_pages_def page_is_free_def)
  then show ?case using s' find_arena [OF Cons.prems(1) p] r(2) same_arenas_trans [OF release_simps(5) s'(4)]
    by (auto simp: release_def)
qed

section \<open>Contiguous runs\<close>

definition free_run :: "nat \<Rightarrow> nat \<Rightarrow> nat \<Rightarrow> 'a pmm_state_scheme \<Rightarrow> bool" where
  "free_run a start count s \<longleftrightarrow> start + count \<le> arena_pages (arenas s a) \<and> (\<forall>i < count. page_is_free (a, start + i) s)"

lemma first_used_ok:
  assumes "start + i + k \<le> arena_pages (arenas s a)"
  shows "\<exists>r. first_used k a start i s = Some r \<and>
    (case r of None \<Rightarrow> \<forall>j. i \<le> j \<longrightarrow> j < i + k \<longrightarrow> page_is_free (a, start + j) s
     | Some j \<Rightarrow> i \<le> j \<and> j < i + k \<and> \<not> page_is_free (a, start + j) s)"
  using assms
proof (induction k arbitrary: i)
  case (Suc k)
  have g: "start + i < arena_pages (arenas s a)" using Suc.prems by simp
  show ?case
  proof (cases "page_is_free (a, start + i) s")
    case True
    obtain r where r: "first_used k a start (i + 1) s = Some r"
      "case r of None \<Rightarrow> \<forall>j. i + 1 \<le> j \<longrightarrow> j < i + 1 + k \<longrightarrow> page_is_free (a, start + j) s
       | Some j \<Rightarrow> i + 1 \<le> j \<and> j < i + 1 + k \<and> \<not> page_is_free (a, start + j) s"
      using Suc.IH [of "i + 1"] Suc.prems by auto
    have "first_used (Suc k) a start i s = Some r" using True g r(1) by (simp add: page_is_free_def)
    moreover have "case r of None \<Rightarrow> \<forall>j. i \<le> j \<longrightarrow> j < i + Suc k \<longrightarrow> page_is_free (a, start + j) s
       | Some j \<Rightarrow> i \<le> j \<and> j < i + Suc k \<and> \<not> page_is_free (a, start + j) s"
      using r(2) True by (auto split: option.splits) (metis Suc_leI add_Suc le_neq_implies_less)
    ultimately show ?thesis by blast
  next
    case False
    then show ?thesis using g by (simp add: page_is_free_def)
  qed
qed simp

text \<open>The candidate that the search continues with: the next aligned one beyond the page in use.\<close>

lemma next_start_ok:
  assumes "unat ao \<le> unat start" "unat start + i + 1 + 2 ^ k < 2 ^ 32" "k = al - PAGE_SIZE_SHIFT"
  shows "unat (next_start start ao i al) = (unat start - unat ao + i + 1 + (2 ^ k - 1)) div 2 ^ k * 2 ^ k + unat ao"
proof -
  let ?n = "unat start - unat ao + i + 1" and ?w = "start - ao + word_of_nat i + 1"
  have k: "(2 :: nat) ^ k < 2 ^ 32" using assms(2) by linarith
  have k32: "k < 32" using power_less_imp_less_exp [OF _ k] by simp
  have "i < 2 ^ 32" using assms(2) by linarith
  then have wi: "unat (word_of_nat i :: u32) = i" by (simp add: unat_of_nat take_bit_eq_mod)
  have d: "unat (start - ao) = unat start - unat ao" using assms(1) by (simp add: unat_sub word_le_nat_alt)
  then have "unat (start - ao + word_of_nat i) = unat start - unat ao + i" using wi assms(2) by (simp add: unat_word_ariths)
  then have w: "unat ?w = ?n" using assms(2) by (simp add: unat_word_ariths)
  then have u: "unat (ucast ?w :: u64) = ?n" by (simp add: unat_ucast_up)
  have "?n + (2 ^ k - 1) < 2 ^ 64" using assms(2) by simp
  then have r: "unat (ROUNDUP (ucast ?w) (2 ^ k)) = (?n + (2 ^ k - 1)) div 2 ^ k * 2 ^ k"
    using unat_ROUNDUP [of k "ucast ?w"] u k32 by simp
  have b: "(?n + (2 ^ k - 1)) div 2 ^ k * 2 ^ k < ?n + 2 ^ k" using roundup_props(2) [of "2 ^ k" ?n] by simp
  have "unat (ucast ao :: u64) = unat ao" by (rule unat_ucast_up)
  then have "unat (ROUNDUP (ucast ?w) (2 ^ k) + ucast ao) = (?n + (2 ^ k - 1)) div 2 ^ k * 2 ^ k + unat ao"
    using r b assms(1,2) by (simp add: unat_word_ariths)
  moreover have "(?n + (2 ^ k - 1)) div 2 ^ k * 2 ^ k + unat ao < 2 ^ 32" using b assms(1,2) by linarith
  ultimately show ?thesis unfolding next_start_def assms(3) [symmetric]
    by (simp add: unat_ucast_down)
qed

lemma run_fits_iff:
  assumes "arena_pages ar + unat count < 2 ^ 32"
  shows "run_fits start count ar \<longleftrightarrow> unat start < arena_pages ar \<and> unat start + unat count \<le> arena_pages ar"
proof -
  have "unat start < arena_pages ar \<Longrightarrow> unat (start + count) = unat start + unat count"
    using assms by (simp add: unat_word_ariths)
  then show ?thesis by (auto simp: run_fits_def word_less_nat_alt word_le_nat_alt unat_ucast_up arena_pages_def)
qed

text \<open>The candidates skipped after finding page \<open>start + j\<close> in use are no free runs.\<close>

lemma skipped_runs:
  fixes st start ao j m :: nat
  assumes "\<not> page_is_free (a, start + j) s" "j < c" "0 < m" "start \<le> st" "ao \<le> start" "m dvd st - ao"
    "st < (start - ao + j + 1 + (m - 1)) div m * m + ao"
  shows "\<not> free_run a st c s"
proof
  assume "free_run a st c s"
  have "\<not> start - ao + j + 1 \<le> st - ao"
    using roundup_props(4) [OF assms(3,6), of "start - ao + j + 1"] assms(4,5,7) by linarith
  then have "st \<le> start + j" using assms(5) by linarith
  then have "start + j - st < c" "st + (start + j - st) = start + j" using assms(2,4) by linarith+
  then show False using \<open>free_run a st c s\<close> assms(1) unfolding free_run_def by metis
qed

definition first_run :: "nat \<Rightarrow> nat \<Rightarrow> nat \<Rightarrow> nat \<Rightarrow> nat \<Rightarrow> u32 option \<Rightarrow> 'a pmm_state_scheme \<Rightarrow> bool" where
  "first_run a c m ao start r s \<longleftrightarrow>
     (\<forall>st. start \<le> st \<longrightarrow> m dvd st - ao \<longrightarrow> free_run a st c s \<longrightarrow> (\<exists>st'. r = Some st' \<and> unat st' \<le> st)) \<and>
     (\<forall>st. r = Some st \<longrightarrow> start \<le> unat st \<and> m dvd unat st - ao \<and> free_run a (unat st) c s)"

lemma find_run_ok:
  assumes "arena_pages (arenas s a) + unat count + m < 2 ^ 32" "m = 2 ^ (al - PAGE_SIZE_SHIFT)" "0 < count"
    "unat ao \<le> unat start" "m dvd unat start - unat ao"
  shows "\<exists>r. find_run a count al ao start s = Some r \<and> first_run a (unat count) m (unat ao) (unat start) r s"
  using assms(4,5)
proof (induction "arena_pages (arenas s a) - unat start" arbitrary: start rule: less_induct)
  case less
  let ?n = "arena_pages (arenas s a)" and ?c = "unat count"
  have m: "0 < m" using assms(2) by simp
  have c: "0 < ?c" using assms(3) by (simp add: word_less_nat_alt)
  have fits: "run_fits start count (arenas s a) \<longleftrightarrow> unat start < ?n \<and> unat start + ?c \<le> ?n"
    using assms(1) by (intro run_fits_iff) linarith
  show ?case
  proof (cases "run_fits start count (arenas s a)")
    case False
    then have "\<not> free_run a st ?c s" if "unat start \<le> st" for st using that c fits unfolding free_run_def by linarith
    moreover have "find_run a count al ao start s = Some None" using False by (subst find_run.simps) simp
    ultimately show ?thesis by (auto simp: first_run_def)
  next
    case True
    then have le: "unat start + ?c \<le> ?n" using fits by simp
    obtain r where r: "first_used ?c a (unat start) 0 s = Some r"
      "case r of None \<Rightarrow> \<forall>j. 0 \<le> j \<longrightarrow> j < 0 + ?c \<longrightarrow> page_is_free (a, unat start + j) s
       | Some j \<Rightarrow> 0 \<le> j \<and> j < 0 + ?c \<and> \<not> page_is_free (a, unat start + j) s"
      using first_used_ok [of "unat start" 0 ?c s a] le by auto
    show ?thesis
    proof (cases r)
      case None
      then have "free_run a (unat start) ?c s" using r(2) le by (simp add: free_run_def)
      moreover have "find_run a count al ao start s = Some (Some start)" using True r(1) None by (subst find_run.simps) simp
      ultimately show ?thesis using less.prems by (auto simp: first_run_def)
    next
      case (Some j)
      then have j: "j < ?c" "\<not> page_is_free (a, unat start + j) s" using r(2) by auto
      let ?next = "next_start start ao j al" and ?x = "unat start - unat ao + j + 1"
      have nx: "unat ?next = (?x + (m - 1)) div m * m + unat ao"
        using next_start_ok [OF less.prems(1) _ refl, of j al] assms(1,2) le j(1) by simp
      have gt: "unat start + j < unat ?next" using nx roundup_props(1) [OF m, of ?x] less.prems(1) by linarith
      have e: "find_run a count al ao start s = find_run a count al ao ?next s" using True r(1) Some by (subst find_run.simps) simp
      have "?n - unat ?next < ?n - unat start" "unat ao \<le> unat ?next" "m dvd unat ?next - unat ao"
        using gt le j(1) nx by auto
      then obtain r' where r': "find_run a count al ao ?next s = Some r'" "first_run a ?c m (unat ao) (unat ?next) r' s"
        using less.hyps [of ?next] by blast
      have "unat ?next \<le> st" if "unat start \<le> st" "m dvd st - unat ao" "free_run a st ?c s" for st
        using skipped_runs [OF j(2,1) m that(1) less.prems(1) that(2)] that(3) by (cases "unat ?next \<le> st") (auto simp: nx)
      then show ?thesis using e r' gt unfolding first_run_def
        by (intro exI [of _ r']) (auto intro: order_trans less_imp_le dest: less_imp_le)
    qed
  qed
qed

lemma take_run_eq:
  assumes "pmm_inv s" "a \<in> set (arena_list s)" "free_run a i k s"
  shows "take_run k a i lst s = Some (map_option (\<lambda>l. l @ map (Pair a) [i..<i + k]) lst, fold grab (map (Pair a) [i..<i + k]) s)"
  using assms
proof (induction k arbitrary: i lst s)
  case 0
  then show ?case by (cases lst) simp_all
next
  case (Suc k)
  let ?p = "(a, i)"
  have fp: "?p \<in> free_pages s" using Suc.prems by (auto simp: free_run_def free_pages_def)
  then have pl: "?p \<in> set (free_list (arenas s a))" using free_pages_list [OF Suc.prems(1), of ?p] by simp
  have nf: "page_flags s ?p AND 1 = 0" using fp by (simp add: free_pages_def page_is_free_def)
  have g: "grab ?p s = set_flags ?p (page_flags s ?p OR VM_PAGE_FLAG_NONFREE)
       (upd_arena a (\<lambda>x. x\<lparr>free_list := remove1 ?p (free_list x), free_count := free_count x - 1\<rparr>) s)" by (simp add: grab_def)
  have "free_run a (i + 1) k (grab ?p s)" using Suc.prems(3) unfolding free_run_def
    by (auto dest: spec [of _ "Suc _"])
  then have "take_run k a (i + 1) (map_option (\<lambda>l. l @ [?p]) lst) (grab ?p s) =
    Some (map_option (\<lambda>l. l @ map (Pair a) [i + 1..<i + 1 + k]) (map_option (\<lambda>l. l @ [?p]) lst), fold grab (map (Pair a) [i + 1..<i + 1 + k]) (grab ?p s))"
    using Suc.prems grab_ok(1) [OF Suc.prems(1) fp] by (intro Suc.IH) auto
  moreover have "[i..<i + Suc k] = i # [i + 1..<i + 1 + k]" by (simp add: upt_conv_Cons)
  ultimately show ?case using nf pl by (simp add: g option.map_comp comp_def Let_def del: upt_Suc)
qed

text \<open>An arena as the platform sets it up: page aligned, not beyond the address space, not too many pages for 32 bits.\<close>

definition arena_geometry :: "nat \<Rightarrow> u32 \<Rightarrow> nat \<Rightarrow> 'a pmm_state_scheme \<Rightarrow> bool" where
  "arena_geometry a count al s \<longleftrightarrow> IS_ALIGNED (ar_base (arenas s a)) PAGE_SIZE \<and> 0 < ar_size (arenas s a) \<and>
     unat (ar_base (arenas s a)) + unat (ar_size (arenas s a)) + 2 ^ al \<le> 2 ^ 64 \<and>
     arena_pages (arenas s a) + unat count + 2 ^ (al - PAGE_SIZE_SHIFT) < 2 ^ 32"

text \<open>The physical address of page \<open>i\<close> of an arena.\<close>

definition page_addr :: "nat \<Rightarrow> nat \<Rightarrow> 'a pmm_state_scheme \<Rightarrow> nat" where
  "page_addr a i s = unat (ar_base (arenas s a)) + i * 4096"

text \<open>An aligned free run of \<open>c\<close> pages in an arena.\<close>

definition aligned_run :: "nat \<Rightarrow> nat \<Rightarrow> nat \<Rightarrow> nat \<Rightarrow> 'a pmm_state_scheme \<Rightarrow> bool" where
  "aligned_run a st c al s \<longleftrightarrow> free_run a st c s \<and> 2 ^ al dvd page_addr a st s"

lemma unat_last:
  fixes b sz :: u64
  assumes "0 < sz" "unat b + unat sz \<le> 2 ^ 64"
  shows "unat (b + sz - 1) = unat b + unat sz - 1"
proof -
  have z: "0 < unat sz" using assms(1) by (simp add: word_less_nat_alt)
  have m: "unat (sz - 1) = unat sz - 1" using assms(1) by (intro unat_minus_one) auto
  have "unat (b + (sz - 1)) = unat b + unat (sz - 1)"
    using unat_word_ariths(1) [of b "sz - 1"] assms(2) z m by simp
  then show ?thesis using m z by (simp add: add_diff_eq)
qed

lemma aligned_offset:
  assumes "arena_geometry a count al s" "12 \<le> al" "al < 64"
  defines "rb \<equiv> ROUNDUP (ar_base (arenas s a)) (2 ^ al)"
  shows "unat rb = (unat (ar_base (arenas s a)) + (2 ^ al - 1)) div 2 ^ al * 2 ^ al"
    "unat (ar_base (arenas s a)) \<le> unat rb" "2 ^ al dvd unat rb"
    "unat rb = unat (ar_base (arenas s a)) + 4096 * ((unat rb - unat (ar_base (arenas s a))) div 4096)"
proof -
  let ?b = "unat (ar_base (arenas s a))"
  have "0 < unat (ar_size (arenas s a))" using assms(1) by (simp add: arena_geometry_def word_less_nat_alt)
  then have "?b + (2 ^ al - 1) < 2 ^ 64" using assms(1) unfolding arena_geometry_def by (elim conjE) linarith
  then show u: "unat rb = (?b + (2 ^ al - 1)) div 2 ^ al * 2 ^ al" unfolding rb_def using assms(3) by (intro unat_ROUNDUP)
  show le: "?b \<le> unat rb" and d: "2 ^ al dvd unat rb" unfolding u using roundup_props [of "2 ^ al" ?b] by simp_all
  have "(2 :: nat) ^ 12 dvd 2 ^ al" using assms(2) by (rule le_imp_power_dvd)
  then have "4096 dvd unat rb" using dvd_trans [OF _ d] by simp
  moreover have "4096 dvd ?b" using assms(1) IS_ALIGNED_iff [of _ 12] by (simp add: arena_geometry_def)
  ultimately have "4096 dvd unat rb - ?b" by (rule dvd_diff_nat)
  then show "unat rb = ?b + 4096 * ((unat rb - ?b) div 4096)" using le by simp
qed

text \<open>A start is aligned exactly when it is a whole number of alignment units beyond the aligned offset.\<close>

lemma aligned_iff:
  fixes b rb al st ao :: nat
  assumes "rb = b + 4096 * ao" "12 \<le> al" "2 ^ al dvd rb" "ao \<le> st"
  shows "2 ^ al dvd b + st * 4096 \<longleftrightarrow> 2 ^ (al - 12) dvd st - ao"
proof -
  have e: "(2 :: nat) ^ al = 4096 * 2 ^ (al - 12)" using assms(2) power_add [of "2 :: nat" 12 "al - 12"] by simp
  have "b + st * 4096 = rb + 4096 * (st - ao)" using assms(1,4) by (simp add: algebra_simps)
  then have "2 ^ al dvd b + st * 4096 \<longleftrightarrow> 2 ^ al dvd 4096 * (st - ao)" using assms(3) by (simp add: dvd_add_right_iff)
  also have "\<dots> \<longleftrightarrow> 2 ^ (al - 12) dvd st - ao" unfolding e by simp
  finally show ?thesis .
qed

lemma aligned_above:
  fixes b rb al st ao :: nat
  assumes "rb = b + 4096 * ao" "2 ^ al dvd b + st * 4096" "rb = (b + (2 ^ al - 1)) div 2 ^ al * 2 ^ al"
  shows "ao \<le> st"
  using roundup_props(4) [OF _ assms(2), of b] assms(1,3) by simp

lemma contiguous_arena:
  assumes "arena_geometry a count al s" "12 \<le> al" "al < 64" "0 < count"
    "rb = ROUNDUP (ar_base (arenas s a)) (2 ^ al)"
    "\<not> (rb < ar_base (arenas s a) \<or> rb > ar_base (arenas s a) + ar_size (arenas s a) - 1)"
    "ao = ucast ((rb - ar_base (arenas s a)) div PAGE_SIZE)"
  shows "\<exists>r. find_run a count al ao ao s = Some r \<and>
    (\<forall>st. aligned_run a st (unat count) al s \<longrightarrow> (\<exists>st'. r = Some st' \<and> unat st' \<le> st)) \<and>
    (\<forall>st. r = Some st \<longrightarrow> aligned_run a (unat st) (unat count) al s)"
proof -
  let ?b = "unat (ar_base (arenas s a))"
  note o = aligned_offset [OF assms(1-3), folded assms(5)]
  have "unat (rb - ar_base (arenas s a)) = unat rb - ?b" using o(2) by (simp add: unat_sub word_le_nat_alt)
  then have q: "unat ((rb - ar_base (arenas s a)) div PAGE_SIZE) = (unat rb - ?b) div 4096" by (simp add: unat_div)
  have "unat (ar_base (arenas s a) + ar_size (arenas s a) - 1) = ?b + unat (ar_size (arenas s a)) - 1"
    using assms(1) unfolding arena_geometry_def by (intro unat_last) auto
  then have "unat rb \<le> ?b + unat (ar_size (arenas s a)) - 1" using assms(6) by (simp add: word_less_nat_alt not_less)
  then have "(unat rb - ?b) div 4096 \<le> unat (ar_size (arenas s a)) div 4096" by (intro div_le_mono) simp
  then have "(unat rb - ?b) div 4096 < 2 ^ 32"
    using assms(1) unfolding arena_geometry_def arena_pages_def unat_div by simp
  then have ao: "unat ao = (unat rb - ?b) div 4096" unfolding assms(7) unat_ucast_down q by simp
  have rb: "unat rb = ?b + 4096 * unat ao" using o(4) ao by simp
  obtain r where r: "find_run a count al ao ao s = Some r" "first_run a (unat count) (2 ^ (al - 12)) (unat ao) (unat ao) r s"
    using find_run_ok [of s a count "2 ^ (al - 12)" al ao ao] assms(1,4) by (auto simp: arena_geometry_def)
  have "aligned_run a st (unat count) al s \<longleftrightarrow> free_run a st (unat count) s \<and> unat ao \<le> st \<and> 2 ^ (al - 12) dvd st - unat ao" for st
    using aligned_iff [OF rb assms(2) o(3), of st] aligned_above [OF rb _ o(1), of st] by (auto simp: aligned_run_def page_addr_def)
  then show ?thesis using r unfolding first_run_def by (intro exI [of _ r]) auto
qed

definition is_kmap :: "nat \<Rightarrow> 'a pmm_state_scheme \<Rightarrow> bool" where
  "is_kmap a s \<longleftrightarrow> ar_flags (arenas s a) AND PMM_ARENA_FLAG_KMAP \<noteq> 0"

definition run_pages :: "nat \<Rightarrow> nat \<Rightarrow> nat \<Rightarrow> vm_page list" where
  "run_pages a st c = map (Pair a) [st..<st + c]"

lemma page_addr_bound:
  assumes "i < arena_pages (arenas s a)"
  shows "page_addr a i s + 4096 \<le> unat (ar_base (arenas s a)) + unat (ar_size (arenas s a))"
proof -
  have "Suc i * 4096 \<le> unat (ar_size (arenas s a)) div 4096 * 4096"
    using assms by (intro mult_le_mono1) (simp add: arena_pages_def unat_div)
  also have "\<dots> \<le> unat (ar_size (arenas s a))" by simp
  finally show ?thesis by (simp add: page_addr_def)
qed

lemma no_run_outside:
  assumes "arena_geometry a count al s" "12 \<le> al" "al < 64" "0 < count"
    "rb = ROUNDUP (ar_base (arenas s a)) (2 ^ al)"
    "rb < ar_base (arenas s a) \<or> rb > ar_base (arenas s a) + ar_size (arenas s a) - 1"
  shows "\<not> aligned_run a st (unat count) al s"
proof
  let ?b = "unat (ar_base (arenas s a))" and ?z = "unat (ar_size (arenas s a))"
  assume r: "aligned_run a st (unat count) al s"
  note o = aligned_offset [OF assms(1-3), folded assms(5)]
  have c: "0 < unat count" using assms(4) by (simp add: word_less_nat_alt)
  have "st < arena_pages (arenas s a)" using r c by (auto simp: aligned_run_def free_run_def)
  then have b: "page_addr a st s + 4096 \<le> ?b + ?z" by (rule page_addr_bound)
  have "unat (ar_base (arenas s a) + ar_size (arenas s a) - 1) = ?b + ?z - 1"
    using assms(1) unfolding arena_geometry_def by (intro unat_last) auto
  then have "unat rb > ?b + ?z - 1" using assms(6) o(2) by (auto simp: word_less_nat_alt)
  moreover have "unat rb \<le> page_addr a st s"
    unfolding o(1) using r by (intro roundup_props(4)) (auto simp: aligned_run_def page_addr_def)
  ultimately show False using b by linarith
qed

lemma run_address:
  fixes st :: u32
  assumes "arena_geometry a count al s" "unat st < arena_pages (arenas s a)"
  shows "unat (ar_base (arenas s a) + ucast st * PAGE_SIZE) = page_addr a (unat st) s"
proof -
  let ?b = "unat (ar_base (arenas s a))" and ?z = "unat (ar_size (arenas s a))"
  have l: "page_addr a (unat st) s < 2 ^ 64"
    using page_addr_bound [OF assms(2)] assms(1) unfolding arena_geometry_def by linarith
  then have "unat st * 4096 < 2 ^ 64" by (simp add: page_addr_def)
  then have "unat (ucast st * PAGE_SIZE :: u64) = unat st * 4096" by (simp add: unat_word_ariths unat_ucast_up)
  then show ?thesis using l by (simp add: unat_word_ariths page_addr_def)
qed

definition contiguous_result :: "nat set \<Rightarrow> u32 \<Rightarrow> nat \<Rightarrow> vm_page list option \<Rightarrow> 'a pmm_state_scheme \<Rightarrow>
    nat \<times> u64 option \<times> vm_page list option \<times> 'a pmm_state_scheme \<Rightarrow> bool" where
  "contiguous_result as count al lst s res \<longleftrightarrow>
     (res = (0, None, lst, s) \<and> (\<forall>a \<in> as. is_kmap a s \<longrightarrow> (\<forall>st. \<not> aligned_run a st (unat count) al s))) \<or>
     (\<exists>a st pa s'. a \<in> as \<and> is_kmap a s \<and> aligned_run a st (unat count) al s \<and>
        res = (unat count, Some pa, map_option (\<lambda>l. l @ run_pages a st (unat count)) lst, s') \<and>
        unat pa = page_addr a st s \<and> allocated (run_pages a st (unat count)) s s')"

lemma allocated_run:
  assumes "pmm_inv s" "a \<in> set (arena_list s)" "free_run a st c s"
  shows "allocated (run_pages a st c) s (fold grab (run_pages a st c) s)"
proof (rule grab_all [OF assms(1)])
  show "distinct (run_pages a st c)" by (simp add: run_pages_def distinct_map inj_on_def)
  show "set (run_pages a st c) \<subseteq> free_pages s"
  proof
    fix p assume "p \<in> set (run_pages a st c)"
    then obtain i where "p = (a, st + i)" "i < c" by (auto simp: run_pages_def dest!: le_Suc_ex)
    then show "p \<in> free_pages s" using assms(2,3) by (simp add: free_run_def free_pages_def)
  qed
qed

lemma contiguous_in_arenas_ok:
  assumes "pmm_inv s" "set as \<subseteq> set (arena_list s)" "\<And>a. a \<in> set as \<Longrightarrow> is_kmap a s \<Longrightarrow> arena_geometry a count al s"
    "12 \<le> al" "al < 64" "0 < count"
  shows "\<exists>res. contiguous_in_arenas as count al lst s = Some res \<and> contiguous_result (set as) count al lst s res"
  using assms(2,3)
proof (induction as)
  case Nil
  then show ?case by (simp add: contiguous_result_def)
next
  case (Cons a as)
  let ?ar = "arenas s a" and ?rb = "ROUNDUP (ar_base (arenas s a)) (2 ^ al)"
  obtain res where rest: "contiguous_in_arenas as count al lst s = Some res" "contiguous_result (set as) count al lst s res"
    using Cons by auto
  have skip: "contiguous_result (set (a # as)) count al lst s res" if "is_kmap a s \<Longrightarrow> \<forall>st. \<not> aligned_run a st (unat count) al s"
    using rest(2) that unfolding contiguous_result_def list.set by blast
  show ?case
  proof (cases "is_kmap a s \<and> \<not> (?rb < ar_base ?ar \<or> ?rb > ar_base ?ar + ar_size ?ar - 1)")
    case False
    have "contiguous_in_arenas (a # as) count al lst s = Some res" using False rest(1) by (auto simp: Let_def is_kmap_def)
    moreover have "contiguous_result (set (a # as)) count al lst s res"
      using no_run_outside [OF Cons.prems(2) assms(4-6) refl] False by (intro skip) auto
    ultimately show ?thesis by blast
  next
    case True
    let ?ao = "ucast ((?rb - ar_base ?ar) div PAGE_SIZE) :: u32"
    have g: "arena_geometry a count al s" using Cons.prems(2) [of a] True by simp
    obtain r where r: "find_run a count al ?ao ?ao s = Some r"
      "\<forall>st. aligned_run a st (unat count) al s \<longrightarrow> (\<exists>st'. r = Some st' \<and> unat st' \<le> st)"
      "\<forall>st. r = Some st \<longrightarrow> aligned_run a (unat st) (unat count) al s"
      using contiguous_arena [OF g assms(4-6) refl conjunct2 [OF True] refl] by (elim exE conjE) (rule that)
    show ?thesis
    proof (cases r)
      case None
      have "contiguous_in_arenas (a # as) count al lst s = Some res" using True r(1) None rest(1) by (simp add: Let_def is_kmap_def)
      then show ?thesis using skip r(2) None by auto
    next
      case (Some st)
      then have run: "aligned_run a (unat st) (unat count) al s" using r(3) by simp
      have c: "0 < unat count" using assms(6) by (simp add: word_less_nat_alt)
      have a: "a \<in> set (arena_list s)" using Cons.prems(1) by simp
      have fr: "free_run a (unat st) (unat count) s" using run by (simp add: aligned_run_def)
      have e: "contiguous_in_arenas (a # as) count al lst s = Some (unat count, Some (ar_base ?ar + ucast st * PAGE_SIZE),
          map_option (\<lambda>l. l @ run_pages a (unat st) (unat count)) lst, fold grab (run_pages a (unat st) (unat count)) s)"
        using True r(1) Some take_run_eq [OF assms(1) a fr] by (simp add: Let_def is_kmap_def run_pages_def)
      have "unat st < arena_pages (arenas s a)" using fr c by (simp add: free_run_def)
      from run_address [OF g this] show ?thesis
        unfolding e contiguous_result_def using allocated_run [OF assms(1) a fr] run True by auto
    qed
  qed
qed

section \<open>Allocating a given range\<close>

definition arena_in_memory :: "nat \<Rightarrow> 'a pmm_state_scheme \<Rightarrow> bool" where
  "arena_in_memory a s \<longleftrightarrow> IS_ALIGNED (ar_base (arenas s a)) PAGE_SIZE \<and> IS_ALIGNED (ar_size (arenas s a)) PAGE_SIZE \<and>
     0 < ar_size (arenas s a) \<and> unat (ar_base (arenas s a)) + unat (ar_size (arenas s a)) < 2 ^ 64"

text \<open>Pages at consecutive physical addresses.\<close>

definition consecutive :: "vm_page list \<Rightarrow> nat \<Rightarrow> 'a pmm_state_scheme \<Rightarrow> bool" where
  "consecutive ps addr s \<longleftrightarrow> (\<forall>j < length ps. page_addr (fst (ps ! j)) (snd (ps ! j)) s = addr + j * 4096)"

lemma consecutive_Cons: "consecutive (p # ps) addr s \<longleftrightarrow> page_addr (fst p) (snd p) s = addr \<and> consecutive ps (addr + 4096) s"
  by (auto simp: consecutive_def nth_Cons split: nat.splits)

lemma consecutive_append:
  "consecutive ps addr s \<Longrightarrow> consecutive qs (addr + length ps * 4096) s \<Longrightarrow> consecutive (ps @ qs) addr s"
  by (induction ps arbitrary: addr) (simp_all add: consecutive_Cons add.assoc)

lemma in_arena_index:
  assumes "arena_in_memory a s" "ADDRESS_IN_ARENA address (arenas s a)" "4096 dvd unat address"
  defines "i \<equiv> unat ((address - ar_base (arenas s a)) div PAGE_SIZE)"
  shows "i < arena_pages (arenas s a)" "page_addr a i s = unat address" "unat address + 4096 < 2 ^ 64"
proof -
  let ?b = "unat (ar_base (arenas s a))" and ?z = "unat (ar_size (arenas s a))"
  have g: "0 < ar_size (arenas s a)" "?b + ?z < 2 ^ 64" "4096 dvd ?b" "4096 dvd ?z"
    using assms(1) IS_ALIGNED_iff [of _ 12] by (auto simp: arena_in_memory_def)
  have "unat (ar_base (arenas s a) + ar_size (arenas s a) - 1) = ?b + ?z - 1" using g by (intro unat_last) auto
  then have r: "?b \<le> unat address" "unat address \<le> ?b + ?z - 1"
    using assms(2) by (auto simp: ADDRESS_IN_ARENA_def word_le_nat_alt)
  have i: "i = (unat address - ?b) div 4096" using r by (simp add: i_def unat_div unat_sub word_le_nat_alt)
  have d: "4096 dvd unat address - ?b" using assms(3) g(3) by (rule dvd_diff_nat)
  then have a: "unat address = ?b + i * 4096" using i r by simp
  then show "page_addr a i s = unat address" by (simp add: page_addr_def)
  have z: "0 < ?z" using g(1) by (simp add: word_less_nat_alt)
  have "i * 4096 < ?z div 4096 * 4096" using a r(2) z g(4) by simp
  then show l: "i < arena_pages (arenas s a)" by (simp add: arena_pages_def unat_div)
  then show "unat address + 4096 < 2 ^ 64" using page_addr_bound [OF l] a g(2) by (simp add: page_addr_def)
qed

lemma page_addr_grab [simp]: "page_addr a i (grab p s) = page_addr a i s"
  by (simp add: page_addr_def grab_def set_flags_def upd_arena_def)

lemma page_addr_fold [simp]: "page_addr a i (fold grab ps s) = page_addr a i s"
  by (induction ps arbitrary: s) auto

lemma in_memory_grab [simp]: "arena_in_memory a (grab p s) = arena_in_memory a s"
  by (simp add: arena_in_memory_def grab_def set_flags_def upd_arena_def)

lemma in_memory_fold [simp]: "arena_in_memory a (fold grab ps s) = arena_in_memory a s"
  by (induction ps arbitrary: s) auto

lemma consecutive_grab [simp]: "consecutive qs x (grab p s) = consecutive qs x s" "consecutive qs x (fold grab ps s) = consecutive qs x s"
  by (simp_all add: consecutive_def)

definition range_taken :: "u64 \<Rightarrow> vm_page list \<Rightarrow> nat \<Rightarrow> 'a pmm_state_scheme \<Rightarrow> bool" where
  "range_taken address ps n s \<longleftrightarrow> distinct ps \<and> set ps \<subseteq> free_pages s \<and> consecutive ps (unat address) s \<and> length ps \<le> n"

lemma ADDRESS_IN_ARENA_iff:
  assumes "arena_in_memory a s"
  shows "ADDRESS_IN_ARENA address (arenas s a) \<longleftrightarrow> unat (ar_base (arenas s a)) \<le> unat address \<and>
    unat address < unat (ar_base (arenas s a)) + unat (ar_size (arenas s a))"
proof -
  have "0 < unat (ar_size (arenas s a))" using assms by (simp add: arena_in_memory_def word_less_nat_alt)
  moreover have "unat (ar_base (arenas s a) + ar_size (arenas s a) - 1) = unat (ar_base (arenas s a)) + unat (ar_size (arenas s a)) - 1"
    using assms by (intro unat_last) (auto simp: arena_in_memory_def)
  ultimately show ?thesis by (auto simp: ADDRESS_IN_ARENA_def word_le_nat_alt)
qed

lemma free_page_in_arena:
  assumes "arena_in_memory a s" "page_addr a i s = unat address" "(a, i) \<in> free_pages s"
  shows "ADDRESS_IN_ARENA address (arenas s a)" "page_is_free (a, unat ((address - ar_base (arenas s a)) div PAGE_SIZE)) s"
proof -
  have i: "i < arena_pages (arenas s a)" "page_is_free (a, i) s" using assms(3) by (simp_all add: free_pages_def)
  have b: "unat (ar_base (arenas s a)) \<le> unat address" "unat address - unat (ar_base (arenas s a)) = i * 4096"
    using assms(2) by (simp_all add: page_addr_def)
  show "ADDRESS_IN_ARENA address (arenas s a)"
    using page_addr_bound [OF i(1)] assms(2) b(1) by (simp add: ADDRESS_IN_ARENA_iff [OF assms(1)])
  have "unat ((address - ar_base (arenas s a)) div PAGE_SIZE) = i" using b by (simp add: unat_div unat_sub word_le_nat_alt)
  then show "page_is_free (a, unat ((address - ar_base (arenas s a)) div PAGE_SIZE)) s" using i(2) by simp
qed

lemma range_in_arena_ok:
  assumes "pmm_inv s" "a \<in> set (arena_list s)" "arena_in_memory a s" "4096 dvd unat address"
  shows "\<exists>ps ad. range_in_arena n a address lst s = Some (n - length ps, ad, lst @ ps, fold grab ps s) \<and>
    range_taken address ps n s \<and> unat ad = unat address + length ps * 4096 \<and>
    (length ps < n \<longrightarrow> (\<forall>i. page_addr a i s = unat ad \<longrightarrow> (a, i) \<notin> free_pages s))"
  using assms
proof (induction n arbitrary: address lst s)
  case 0
  then show ?case by (intro exI [of _ "[]"]) (simp add: range_taken_def consecutive_def)
next
  case (Suc n)
  let ?i = "unat ((address - ar_base (arenas s a)) div PAGE_SIZE)"
  let ?p = "(a, ?i)"
  show ?case
  proof (cases "ADDRESS_IN_ARENA address (arenas s a) \<and> page_is_free ?p s")
    case False
    have "range_in_arena (Suc n) a address lst s = Some (Suc n, address, lst, s)"
      using False in_arena_index(1) [OF Suc.prems(3) _ Suc.prems(4)] by (auto simp: page_is_free_def Let_def)
    moreover have "(a, i) \<notin> free_pages s" if "page_addr a i s = unat address" for i
      using False free_page_in_arena [OF Suc.prems(3) that] by blast
    ultimately show ?thesis by (intro exI [of _ "[]"]) (simp add: range_taken_def consecutive_def)
  next
    case True
    note ix = in_arena_index [OF Suc.prems(3) conjunct1 [OF True] Suc.prems(4)]
    have fp: "?p \<in> free_pages s" using Suc.prems(2) ix(1) True by (simp add: free_pages_def)
    then have pl: "?p \<in> set (free_list (arenas s a))" using free_pages_list [OF Suc.prems(1), of ?p] by simp
    note g = grab_ok [OF Suc.prems(1) fp]
    have u: "unat (address + PAGE_SIZE) = unat address + 4096" using ix(3) by (simp add: unat_word_ariths)
    then obtain ps ad where r: "range_in_arena n a (address + PAGE_SIZE) (lst @ [?p]) (grab ?p s) =
        Some (n - length ps, ad, (lst @ [?p]) @ ps, fold grab ps (grab ?p s))"
      "range_taken (address + PAGE_SIZE) ps n (grab ?p s)" "unat ad = unat (address + PAGE_SIZE) + length ps * 4096"
      "length ps < n \<longrightarrow> (\<forall>i. page_addr a i (grab ?p s) = unat ad \<longrightarrow> (a, i) \<notin> free_pages (grab ?p s))"
      using Suc.IH [of "grab ?p s" "address + PAGE_SIZE" "lst @ [?p]"] Suc.prems g(1) by auto
    have "range_in_arena (Suc n) a address lst s = range_in_arena n a (address + PAGE_SIZE) (lst @ [?p]) (grab ?p s)"
      using True ix(1) pl by (simp add: page_is_free_def Let_def grab_def)
    moreover have "range_taken address (?p # ps) (Suc n) s"
      using r(2) g(2) fp ix(2) u by (auto simp: range_taken_def consecutive_Cons)
    moreover have "(a, i) \<notin> free_pages s" if "length ps < n" "page_addr a i s = unat ad" for i
    proof
      assume "(a, i) \<in> free_pages s"
      moreover have "(a, i) \<noteq> ?p" using that(2) ix(2) r(3) u by auto
      ultimately show False using r(4) that g(2) by simp
    qed
    ultimately show ?thesis using r(1,3) u by (intro exI [of _ "?p # ps"] exI [of _ ad]) simp
  qed
qed

lemma range_in_arenas_ok:
  assumes "pmm_inv s" "set as \<subseteq> set (arena_list s)" "\<And>a. a \<in> set as \<Longrightarrow> arena_in_memory a s" "4096 dvd unat address"
  shows "\<exists>ps. range_in_arenas as n address lst s = Some (n - length ps, lst @ ps, fold grab ps s) \<and> range_taken address ps n s"
  using assms
proof (induction as arbitrary: n address lst s)
  case Nil
  then show ?case by (intro exI [of _ "[]"]) (simp add: range_taken_def consecutive_def)
next
  case (Cons a as)
  obtain ps ad where r: "range_in_arena n a address lst s = Some (n - length ps, ad, lst @ ps, fold grab ps s)"
    "range_taken address ps n s" "unat ad = unat address + length ps * 4096"
    using range_in_arena_ok [OF Cons.prems(1) _ _ Cons.prems(4), of a n lst] Cons.prems(2,3) by auto
  let ?s = "fold grab ps s"
  show ?case
  proof (cases "n - length ps = 0")
    case True
    then show ?thesis using r by (intro exI [of _ ps]) simp
  next
    case False
    have al: "allocated ps s ?s" using r(2) by (intro grab_all Cons.prems) (auto simp: range_taken_def)
    then obtain qs where q: "range_in_arenas as (n - length ps) ad (lst @ ps) ?s =
        Some (n - length ps - length qs, (lst @ ps) @ qs, fold grab qs ?s)" "range_taken ad qs (n - length ps) ?s"
      using Cons.IH [of ?s ad "n - length ps" "lst @ ps"] Cons.prems(2-4) r(3) by (auto simp: allocated_def)
    have "range_taken address (ps @ qs) n s"
      using r(2,3) q(2) al by (auto simp: range_taken_def allocated_def intro: consecutive_append)
    then show ?thesis using r(1) q(1) False by (intro exI [of _ "ps @ qs"]) simp
  qed
qed

lemma range_in_arena_fewer: "range_in_arena n a address lst s = Some (m, x, l, t) \<Longrightarrow> m \<le> n"
  by (induction n arbitrary: address lst s) (fastforce simp: Let_def bind_eq_Some_conv split: if_splits)+

lemma range_in_arenas_fewer: "range_in_arenas as n address lst s = Some (m, l, t) \<Longrightarrow> m \<le> n"
proof (induction as arbitrary: n address lst s)
  case (Cons a as)
  then show ?case by (auto simp: bind_eq_Some_conv split: if_splits dest!: range_in_arena_fewer) (meson le_trans)
qed simp

section \<open>Adding an arena\<close>

lemma insert_arena_set: "set (insert_arena a prio as) = insert a (set as)" "a \<notin> set as \<Longrightarrow> distinct (insert_arena a prio as) = distinct as"
  by (induction as) auto

lemma insert_arena_sorted: "sorted (map prio as) \<Longrightarrow> sorted (map prio (insert_arena a prio as))"
proof (induction as)
  case (Cons b bs)
  then show ?case by (cases "prio b > prio a") (auto simp: insert_arena_set)
qed simp

lemma add_arena_ok:
  assumes "pmm_inv s" "a \<notin> set (arena_list s)" "arena_in_memory a s"
  shows "\<exists>s'. pmm_add_arena a s = Some (NO_ERROR, s') \<and> pmm_inv s' \<and>
    free_pages s' = free_pages s \<union> {p. fst p = a \<and> snd p < arena_pages (arenas s a)} \<and>
    set (arena_list s') = insert a (set (arena_list s))"
proof -
  let ?n = "arena_pages (arenas s a)"
  define s' where "s' = s\<lparr>arena_list := insert_arena a (\<lambda>b. priority (arenas s b)) (arena_list s),
     boot_alloc_end := ROUNDUP (boot_alloc_end s) 8 + ROUNDUP (ar_size (arenas s a) div PAGE_SIZE * 24) 8,
     page_flags := (\<lambda>p. if fst p = a \<and> snd p < ?n then 0 else page_flags s p),
     arenas := (arenas s)(a := (arenas s a)\<lparr>page_array := ROUNDUP (boot_alloc_end s) 8,
       free_list := map (\<lambda>i. (a, i)) [0..<?n], free_count := ?n\<rparr>)\<rparr>"
  have e: "pmm_add_arena a s = Some (NO_ERROR, s')"
    using assms(3) by (simp add: pmm_add_arena_def arena_in_memory_def boot_alloc_mem_def upd_arena_def Let_def s'_def arena_pages_def cong: if_cong)
  have al: "arena_list s' = insert_arena a (\<lambda>b. priority (arenas s b)) (arena_list s)" by (simp add: s'_def)
  have p: "arena_pages (arenas s' b) = arena_pages (arenas s b)" for b by (simp add: s'_def arena_pages_def)
  have fl: "free_list (arenas s' a) = map (Pair a) [0..<?n]" "free_count (arenas s' a) = ?n" by (simp_all add: s'_def)
  have ob: "arenas s' b = arenas s b" if "b \<noteq> a" for b using that by (simp add: s'_def)
  have f: "page_is_free q s' \<longleftrightarrow> (fst q = a \<and> snd q < ?n) \<or> page_is_free q s" for q
    by (cases "fst q = a \<and> snd q < ?n") (auto simp: s'_def page_is_free_def)
  have "set (map (Pair a) [0..<?n]) = {q. fst q = a \<and> snd q < ?n \<and> (fst q = a \<and> snd q < ?n \<or> page_is_free q s)}" by auto
  then have new: "arena_ok a s'" unfolding arena_ok_def fl p f by (simp add: distinct_map inj_on_def)
  have old: "arena_ok b s'" if "b \<in> set (arena_list s)" for b
  proof -
    have b: "b \<noteq> a" "arena_ok b s" using that assms(1,2) by (auto simp: pmm_inv_def)
    then have "{q. fst q = b \<and> snd q < arena_pages (arenas s b) \<and> (fst q = a \<and> snd q < ?n \<or> page_is_free q s)} =
      {q. fst q = b \<and> snd q < arena_pages (arenas s b) \<and> page_is_free q s}" by auto
    then show ?thesis using b(2) unfolding arena_ok_def p f ob [OF b(1)] by simp
  qed
  have "pmm_inv s'" using assms(1,2) new old by (auto simp: pmm_inv_def al insert_arena_set)
  moreover have "free_pages s' = free_pages s \<union> {q. fst q = a \<and> snd q < ?n}"
    using assms(2) by (auto simp: free_pages_def al insert_arena_set p f)
  ultimately show ?thesis using e al by (simp add: insert_arena_set)
qed

section \<open>Pages and addresses\<close>

text \<open>Arenas that do not overlap.\<close>

definition arenas_disjoint :: "'a pmm_state_scheme \<Rightarrow> bool" where
  "arenas_disjoint s \<longleftrightarrow> (\<forall>a \<in> set (arena_list s). arena_in_memory a s \<and> (\<forall>b \<in> set (arena_list s). a \<noteq> b \<longrightarrow>
     unat (ar_base (arenas s a)) + unat (ar_size (arenas s a)) \<le> unat (ar_base (arenas s b)) \<or>
     unat (ar_base (arenas s b)) + unat (ar_size (arenas s b)) \<le> unat (ar_base (arenas s a))))"

lemma other_arena:
  assumes "arenas_disjoint s" "a \<in> set (arena_list s)" "b \<in> set (arena_list s)" "a \<noteq> b" "ADDRESS_IN_ARENA address (arenas s a)"
  shows "\<not> ADDRESS_IN_ARENA address (arenas s b)"
proof -
  have "arena_in_memory a s" "arena_in_memory b s" using assms(1-3) by (simp_all add: arenas_disjoint_def)
  then show ?thesis using assms unfolding arenas_disjoint_def by (fastforce simp: ADDRESS_IN_ARENA_iff)
qed

text \<open>The free pages of an arena from an address on, as far as they are wanted, are all taken.\<close>

lemma range_in_arenas_max:
  assumes "pmm_inv s" "arenas_disjoint s" "a \<in> set as" "set as \<subseteq> set (arena_list s)" "4096 dvd unat address"
    and run: "page_addr a i s = unat address" "\<forall>j < k. (a, i + j) \<in> free_pages s" "k \<le> n"
  shows "\<exists>ps. range_in_arenas as n address lst s = Some (n - length ps, lst @ ps, fold grab ps s) \<and> range_taken address ps n s \<and> k \<le> length ps"
  using assms(3,4)
proof (induction as)
  case (Cons b as)
  have mem: "\<And>c. c \<in> set (b # as) \<Longrightarrow> arena_in_memory c s" using assms(2) Cons.prems(2) by (auto simp: arenas_disjoint_def)
  show ?case
  proof (cases "k = 0 \<or> b = a")
    case True
    obtain ps ad where r: "range_in_arena n b address lst s = Some (n - length ps, ad, lst @ ps, fold grab ps s)"
      "range_taken address ps n s" "unat ad = unat address + length ps * 4096"
      "length ps < n \<longrightarrow> (\<forall>i. page_addr b i s = unat ad \<longrightarrow> (b, i) \<notin> free_pages s)"
      using range_in_arena_ok [OF assms(1) _ _ assms(5), of b n lst] Cons.prems(2) mem by auto
    have k: "k \<le> length ps"
    proof (rule ccontr)
      assume c: "\<not> k \<le> length ps"
      then have "page_addr a (i + length ps) s = unat ad" using r(3) run(1) by (simp add: page_addr_def)
      then show False using r(4) c run(2,3) True by auto
    qed
    obtain qs where q: "range_in_arenas (b # as) n address lst s = Some (n - length qs, lst @ qs, fold grab qs s)" "range_taken address qs n s"
      using range_in_arenas_ok [OF assms(1) Cons.prems(2) mem assms(5)] by blast
    have "n - length qs \<le> n - length ps"
      using q(1) r(1) range_in_arenas_fewer [of as "n - length ps" ad "lst @ ps" "fold grab ps s"] by (auto split: if_splits)
    then have "length ps \<le> length qs" using q(2) r(2) by (auto simp: range_taken_def)
    then show ?thesis using q k by (intro exI [of _ qs]) simp
  next
    case False
    then have "(a, i) \<in> free_pages s" using run(2) by (metis add.right_neutral not_gr_zero)
    then have "ADDRESS_IN_ARENA address (arenas s a)" using free_page_in_arena(1) [OF mem [OF Cons.prems(1)] run(1)] by blast
    then have "\<not> ADDRESS_IN_ARENA address (arenas s b)" using other_arena [OF assms(2)] Cons.prems False by auto
    then have "range_in_arena n b address lst s = Some (n, address, lst, s)" by (cases n) simp_all
    moreover have "n \<noteq> 0" using False run(3) by simp
    ultimately show ?thesis using Cons.IH Cons.prems False by auto
  qed
qed simp

lemma find_eq_Some: "x \<in> set xs \<Longrightarrow> P x \<Longrightarrow> (\<And>y. y \<in> set xs \<Longrightarrow> P y \<Longrightarrow> y = x) \<Longrightarrow> find P xs = Some x"
proof (induction xs)
  case (Cons z zs)
  show ?case
  proof (cases "P z")
    case True
    then have "z = x" by (intro Cons.prems(3)) simp
    then show ?thesis using True by simp
  next
    case False
    then have "x \<in> set zs" using Cons.prems(1,2) by auto
    then have "find P zs = Some x" using Cons.prems by (intro Cons.IH) auto
    then show ?thesis using False by simp
  qed
qed simp

lemma page_to_paddr:
  assumes "arena_in_memory a s" "a \<in> set (arena_list s)" "i < arena_pages (arenas s a)"
  shows "unat (vm_page_to_paddr (a, i) s) = page_addr a i s"
proof -
  have "find (\<lambda>b. PAGE_BELONGS_TO_ARENA (a, i) b s) (arena_list s) = Some a"
    using assms by (intro find_eq_Some) (auto simp: PAGE_BELONGS_TO_ARENA_def)
  moreover have l: "page_addr a i s < 2 ^ 64"
    using page_addr_bound [OF assms(3)] assms(1) unfolding arena_in_memory_def by linarith
  then have "i * 4096 < 2 ^ 64" by (simp add: page_addr_def)
  then have "unat (word_of_nat i * PAGE_SIZE :: u64) = i * 4096" by (simp add: unat_word_ariths unat_of_nat take_bit_eq_mod)
  then have "unat (PAGE_ADDRESS_FROM_ARENA (a, i) (arenas s a)) = page_addr a i s"
    using l unat_word_ariths(1) [of "word_of_nat i * PAGE_SIZE" "ar_base (arenas s a)"]
    by (simp add: PAGE_ADDRESS_FROM_ARENA_def page_addr_def)
  ultimately show ?thesis by (simp add: vm_page_to_paddr_def)
qed

lemma paddr_page_round_trip:
  assumes "arenas_disjoint s" "a \<in> set (arena_list s)" "i < arena_pages (arenas s a)"
  shows "paddr_to_vm_page (vm_page_to_paddr (a, i) s) s = Some (a, i)"
proof -
  let ?ad = "vm_page_to_paddr (a, i) s"
  have im: "arena_in_memory b s" if "b \<in> set (arena_list s)" for b using assms(1) that by (simp add: arenas_disjoint_def)
  have ad: "unat ?ad = page_addr a i s" by (rule page_to_paddr [OF im [OF assms(2)] assms(2,3)])
  let ?in = "\<lambda>b. ?ad \<ge> ar_base (arenas s b) \<and> ?ad \<le> ar_base (arenas s b) + ar_size (arenas s b) - 1"
  have inb: "?in b \<longleftrightarrow> unat (ar_base (arenas s b)) \<le> page_addr a i s \<and> page_addr a i s < unat (ar_base (arenas s b)) + unat (ar_size (arenas s b))"
    if "b \<in> set (arena_list s)" for b
  proof -
    have z: "0 < unat (ar_size (arenas s b))" using im [OF that] by (simp add: arena_in_memory_def word_less_nat_alt)
    have "unat (ar_base (arenas s b) + ar_size (arenas s b) - 1) = unat (ar_base (arenas s b)) + unat (ar_size (arenas s b)) - 1"
      using im [OF that] by (intro unat_last) (auto simp: arena_in_memory_def)
    then show ?thesis using ad z unfolding word_le_nat_alt by linarith
  qed
  have ia: "?in a" using inb [OF assms(2)] page_addr_bound [OF assms(3)] by (simp add: page_addr_def)
  have "b = a" if "b \<in> set (arena_list s)" "?in b" for b
  proof (rule ccontr)
    assume "b \<noteq> a"
    then have "unat (ar_base (arenas s a)) + unat (ar_size (arenas s a)) \<le> unat (ar_base (arenas s b)) \<or>
      unat (ar_base (arenas s b)) + unat (ar_size (arenas s b)) \<le> unat (ar_base (arenas s a))"
      using assms(1,2) that(1) unfolding arenas_disjoint_def by blast
    then show False using inb [OF that(1)] inb [OF assms(2)] ia that(2) by linarith
  qed
  then have "find ?in (arena_list s) = Some a" using assms(2) ia by (intro find_eq_Some) auto
  moreover have "unat ((?ad - ar_base (arenas s a)) div PAGE_SIZE) = i"
    using ad ia by (simp add: unat_div unat_sub word_le_nat_alt page_addr_def)
  ultimately show ?thesis by (simp add: paddr_to_vm_page_def)
qed

end
