(* ===== verification/Pmm_Props.thy ===== *)
theory Pmm_Props
  imports Pmm_Inv
begin

text \<open>The properties of the physical page allocator, with a small machine of one arena on which they apply.\<close>

section \<open>A machine with one arena of four pages\<close>

definition demo_arena :: pmm_arena where
  "demo_arena = \<lparr>ar_flags = 1, priority = 0, ar_base = 0x40001000, ar_size = 0x4000, free_count = 0, page_array = 0, free_list = []\<rparr>"

definition demo_boot :: pmm_state where
  "demo_boot = \<lparr>arena_list = [], arenas = (\<lambda>_. demo_arena), page_flags = (\<lambda>_. 1), boot_alloc_end = 0x40100000\<rparr>"

definition demo_pmm :: pmm_state where
  "demo_pmm = snd (the (pmm_add_arena 0 demo_boot))"

lemma demo_in_memory: "arena_in_memory 0 demo_boot"
  by (simp add: arena_in_memory_def IS_ALIGNED_def demo_boot_def demo_arena_def)


lemma demo_pmm_eq:
  "arena_list demo_pmm = [0]" "ar_base (arenas demo_pmm 0) = 0x40001000" "ar_size (arenas demo_pmm 0) = 0x4000"
  "ar_flags (arenas demo_pmm 0) = 1" "arena_pages (arenas demo_pmm 0) = 4"
  by (simp_all add: demo_pmm_def pmm_add_arena_def demo_boot_def demo_arena_def IS_ALIGNED_def boot_alloc_mem_def upd_arena_def
      arena_pages_def Let_def)

lemma demo_pmm_inv: "pmm_inv demo_pmm" "free_pages demo_pmm = {p. fst p = 0 \<and> snd p < 4}"
proof -
  have "pmm_inv demo_boot" "free_pages demo_boot = {}" by (simp_all add: pmm_inv_def free_pages_def demo_boot_def)
  moreover have "0 \<notin> set (arena_list demo_boot)" "arena_pages (arenas demo_boot 0) = 4"
    by (simp_all add: demo_boot_def demo_arena_def arena_pages_def)
  ultimately show "pmm_inv demo_pmm" "free_pages demo_pmm = {p. fst p = 0 \<and> snd p < 4}"
    using add_arena_ok [of demo_boot 0] demo_in_memory by (auto simp: demo_pmm_def)
qed

lemma demo_memory: "arena_in_memory 0 demo_pmm" "arenas_disjoint demo_pmm"
  using demo_in_memory by (simp_all add: arena_in_memory_def arenas_disjoint_def demo_pmm_eq IS_ALIGNED_def)

section \<open>Properties\<close>

text \<open>
  C22: \<open>pmm_alloc_pages\<close> keeps the invariant that the free lists hold exactly the free pages; it
  appends to the list as many pages as were asked for, or all there are, each of them free before,
  none twice, and marks those and no other page as in use.
\<close>

theorem pmm_alloc_pages_correct:
  assumes "pmm_inv s"
  shows "\<exists>ps s'. pmm_alloc_pages count lst s = (length ps, lst @ ps, s') \<and> length ps = min count (card (free_pages s)) \<and>
    pmm_inv s' \<and> distinct ps \<and> set ps \<subseteq> free_pages s \<and> free_pages s' = free_pages s - set ps \<and>
    (\<forall>p. page_flags s' p = (if p \<in> set ps then page_flags s p OR VM_PAGE_FLAG_NONFREE else page_flags s p))"
  using alloc_pages_ok [OF assms, of count lst] unfolding allocated_def by blast

theorem pmm_alloc_pages_correct_witness:
  "\<exists>ps s'. pmm_alloc_pages 3 [] demo_pmm = (length ps, ps, s') \<and> length ps = 3 \<and> pmm_inv s' \<and> free_pages s' = free_pages demo_pmm - set ps"
proof -
  have "{p. fst p = 0 \<and> snd p < 4} = Pair (0 :: nat) ` {..<4 :: nat}" by force
  then have "card (free_pages demo_pmm) = 4" unfolding demo_pmm_inv by (simp add: card_image inj_on_def)
  then show ?thesis using pmm_alloc_pages_correct [OF demo_pmm_inv(1), of 3 "[]"] by auto
qed

text \<open>
  C24: \<open>pmm_alloc_contiguous\<close> finds a run exactly when there is one: when it returns 0, no arena that
  is mapped in the kernel has an aligned run of that many free pages, and nothing has changed;
  otherwise it returns the count and the physical address of such a run, which is aligned as asked,
  appends the pages of the run to the list and marks exactly those as in use. The search ends and
  reads no page beyond an arena, provided the arenas are so small that 32-bit page numbers do not wrap.
\<close>

theorem pmm_alloc_contiguous_correct:
  assumes "pmm_inv s" "0 < count" "al < 64"
    "\<forall>a \<in> set (arena_list s). is_kmap a s \<longrightarrow> arena_geometry a count (max al PAGE_SIZE_SHIFT) s"
  shows "\<exists>n pa lst' s'. pmm_alloc_contiguous count al lst s = Some (n, pa, lst', s') \<and>
    (n = 0 \<and> lst' = lst \<and> s' = s \<and>
       (\<forall>a \<in> set (arena_list s). is_kmap a s \<longrightarrow> (\<forall>st. \<not> aligned_run a st (unat count) (max al PAGE_SIZE_SHIFT) s)) \<or>
     n = unat count \<and> (\<exists>a st w. a \<in> set (arena_list s) \<and> is_kmap a s \<and> aligned_run a st n (max al PAGE_SIZE_SHIFT) s \<and>
       pa = Some w \<and> unat w = page_addr a st s \<and> lst' = map_option (\<lambda>l. l @ run_pages a st n) lst \<and>
       pmm_inv s' \<and> free_pages s' = free_pages s - set (run_pages a st n)))"
proof -
  obtain res where r: "contiguous_in_arenas (arena_list s) count (max al PAGE_SIZE_SHIFT) lst s = Some res"
    "contiguous_result (set (arena_list s)) count (max al PAGE_SIZE_SHIFT) lst s res"
    using contiguous_in_arenas_ok [of s "arena_list s" count "max al PAGE_SIZE_SHIFT" lst] assms by auto
  have "pmm_alloc_contiguous count al lst s = Some res" using assms(2) r(1) by (auto simp: pmm_alloc_contiguous_def)
  then show ?thesis using r(2) unfolding contiguous_result_def allocated_def by fastforce
qed

lemma demo_free: "page_is_free (0, i) demo_pmm \<longleftrightarrow> i < 4"
proof -
  have "page_flags demo_pmm (0, i) = (if i < 4 then 0 else 1)"
    by (simp add: demo_pmm_def pmm_add_arena_def demo_boot_def demo_arena_def IS_ALIGNED_def boot_alloc_mem_def upd_arena_def Let_def)
  then show ?thesis by (simp add: page_is_free_def)
qed

theorem pmm_alloc_contiguous_correct_witness:
  "\<exists>n pa lst' s'. pmm_alloc_contiguous 2 13 (Some []) demo_pmm = Some (n, pa, lst', s') \<and> n = 2 \<and> pmm_inv s'"
proof -
  have h: "\<forall>a \<in> set (arena_list demo_pmm). is_kmap a demo_pmm \<longrightarrow> arena_geometry a 2 (max 13 PAGE_SIZE_SHIFT) demo_pmm"
    by (simp add: arena_geometry_def demo_pmm_eq IS_ALIGNED_def)
  have "is_kmap 0 demo_pmm" "aligned_run 0 1 2 13 demo_pmm"
    by (simp_all add: is_kmap_def aligned_run_def free_run_def demo_pmm_eq demo_free page_addr_def)
  then have "\<not> (\<forall>a \<in> set (arena_list demo_pmm). is_kmap a demo_pmm \<longrightarrow> (\<forall>st. \<not> aligned_run a st 2 13 demo_pmm))"
    by (auto simp: demo_pmm_eq)
  then show ?thesis using pmm_alloc_contiguous_correct [OF demo_pmm_inv(1), of 2 13 "Some []"] h by auto
qed

text \<open>
  C23: Pages that \<open>pmm_alloc_pages\<close> has given out can be given back with \<open>pmm_free\<close>: it counts them
  all, the invariant holds again, and exactly the pages that were free before are free.
\<close>

theorem pmm_alloc_free_round_trip:
  assumes "pmm_inv s" "pmm_alloc_pages count [] s = (n, ps, s1)"
  shows "\<exists>s2. pmm_free ps s1 = Some (n, s2) \<and> pmm_inv s2 \<and> free_pages s2 = free_pages s"
proof -
  have a: "allocated ps s s1" "n = length ps" using alloc_pages_ok [OF assms(1), of count "[]"] assms(2) by auto
  have "set ps \<subseteq> used_pages s1"
  proof
    fix p assume "p \<in> set ps"
    then have "p \<in> free_pages s" "p \<notin> free_pages s1" using a(1) by (auto simp: allocated_def)
    then show "p \<in> used_pages s1" using a(1) same_arenasD(1,2) [of s s1] by (auto simp: allocated_def free_pages_def used_pages_def)
  qed
  then show ?thesis using pmm_free_ok [of s1 ps] a by (auto simp: allocated_def)
qed

theorem pmm_alloc_free_round_trip_witness:
  "\<exists>n ps s1 s2. pmm_alloc_pages 3 [] demo_pmm = (n, ps, s1) \<and> pmm_free ps s1 = Some (n, s2) \<and> free_pages s2 = free_pages demo_pmm"
proof -
  obtain n ps s1 where "pmm_alloc_pages 3 [] demo_pmm = (n, ps, s1)" by (metis prod_cases3)
  then show ?thesis using pmm_alloc_free_round_trip [OF demo_pmm_inv(1)] by blast
qed

text \<open>
  C30: \<open>pmm_alloc_range\<close> gives out the pages at consecutive physical addresses from the page of the
  given address on, all of them free before, and no other; it takes every free page of the arena of the
  address up to the first one in use or the end of the arena, or as many as were asked for; it keeps
  the invariant, and no assertion of it fails. The arenas are page aligned and do not overlap.
\<close>

theorem pmm_alloc_range_correct:
  assumes "pmm_inv s" "arenas_disjoint s"
  shows "\<exists>ps s'. pmm_alloc_range address count lst s = Some (length ps, lst @ ps, s') \<and> length ps \<le> count \<and> pmm_inv s' \<and>
    set ps \<subseteq> free_pages s \<and> free_pages s' = free_pages s - set ps \<and>
    (\<forall>j < length ps. page_addr (fst (ps ! j)) (snd (ps ! j)) s = unat address div 4096 * 4096 + j * 4096) \<and>
    (\<forall>a \<in> set (arena_list s). \<forall>i k. page_addr a i s = unat address div 4096 * 4096 \<and> k \<le> count \<and>
       (\<forall>j < k. (a, i + j) \<in> free_pages s) \<longrightarrow> k \<le> length ps)"
proof -
  let ?ad = "ROUNDDOWN address PAGE_SIZE"
  have r: "unat ?ad = unat address div 4096 * 4096" using unat_ROUNDDOWN [of address 12] by simp
  then have d: "4096 dvd unat ?ad" by simp
  have mem: "\<And>a. a \<in> set (arena_list s) \<Longrightarrow> arena_in_memory a s" using assms(2) by (simp add: arenas_disjoint_def)
  obtain ps where ps: "range_in_arenas (arena_list s) count ?ad lst s = Some (count - length ps, lst @ ps, fold grab ps s)"
    "range_taken ?ad ps count s"
    using range_in_arenas_ok [OF assms(1) order_refl mem d, of count lst] by blast
  have "k \<le> length ps" if run: "a \<in> set (arena_list s)" "page_addr a i s = unat ?ad" "\<forall>j < k. (a, i + j) \<in> free_pages s" "k \<le> count" for a i k
  proof -
    obtain qs where "range_in_arenas (arena_list s) count ?ad lst s = Some (count - length qs, lst @ qs, fold grab qs s)" "k \<le> length qs"
      using range_in_arenas_max [OF assms run(1) order_refl d run(2-4), of lst] by blast
    then show ?thesis using ps(1) by simp
  qed
  moreover have "allocated ps s (fold grab ps s)" using ps(2) by (intro grab_all assms) (auto simp: range_taken_def)
  moreover have "pmm_alloc_range address count lst s = Some (length ps, lst @ ps, fold grab ps s)"
    using ps by (auto simp: pmm_alloc_range_def range_taken_def)
  ultimately show ?thesis using ps(2) r
    by (intro exI [of _ ps] exI [of _ "fold grab ps s"]) (simp add: allocated_def range_taken_def consecutive_def, blast)
qed

theorem pmm_alloc_range_correct_witness:
  "\<exists>ps s'. pmm_alloc_range 0x40002004 2 [] demo_pmm = Some (2, ps, s') \<and> pmm_inv s' \<and> length ps = 2 \<and> free_pages s' = free_pages demo_pmm - set ps"
proof -
  have r: "unat (0x40002004 :: u64) div 4096 * 4096 = 0x40002000" by simp
  obtain ps s' where p: "pmm_alloc_range 0x40002004 2 [] demo_pmm = Some (length ps, ps, s')" "length ps \<le> 2" "pmm_inv s'"
      "free_pages s' = free_pages demo_pmm - set ps"
      "\<forall>a \<in> set (arena_list demo_pmm). \<forall>i k. page_addr a i demo_pmm = 0x40002000 \<and> k \<le> 2 \<and>
         (\<forall>j < k. (a, i + j) \<in> free_pages demo_pmm) \<longrightarrow> k \<le> length ps"
    using pmm_alloc_range_correct [OF demo_pmm_inv(1) demo_memory(2), where address = "0x40002004" and count = 2 and lst = "[]"]
    unfolding r by (auto simp: demo_pmm_eq)
  have "2 \<le> length ps" using p(5) [rule_format, of 0 1 2] by (simp add: demo_pmm_eq page_addr_def demo_pmm_inv(2))
  then show ?thesis using p(1-4) by (intro exI [of _ ps] exI [of _ s']) simp
qed

text \<open>
  C31: The two translations between pages and physical addresses agree: \<open>paddr_to_vm_page\<close> finds, at
  the address \<open>vm_page_to_paddr\<close> gives for a page of an arena, that page, when the arenas do not overlap.
\<close>

theorem vm_page_paddr_round_trip:
  assumes "arenas_disjoint s" "a \<in> set (arena_list s)" "i < arena_pages (arenas s a)"
  shows "paddr_to_vm_page (vm_page_to_paddr (a, i) s) s = Some (a, i)"
  using assms by (rule paddr_page_round_trip)

theorem vm_page_paddr_round_trip_witness: "paddr_to_vm_page (vm_page_to_paddr (0, 3) demo_pmm) demo_pmm = Some (0, 3)"
  using vm_page_paddr_round_trip [OF demo_memory(2), of 0 3] by (simp add: demo_pmm_eq)

end
