(* ===== verification/Vm.thy ===== *)
theory Vm
  imports Pmm
begin

text \<open>
  The translations of \<open>kernel/vm/vm.c\<close> through the initial mappings of the kernel, and the page
  allocation for kernel memory that uses them.
\<close>

record mmu_initial_mapping =
  im_phys :: u64
  im_virt :: u64
  im_size :: u64
  im_flags :: u32
  im_name :: string

abbreviation (input) MMU_INITIAL_MAPPING_TEMPORARY :: u32 where "MMU_INITIAL_MAPPING_TEMPORARY \<equiv> 1"

record vm_state = pmm_state +
  mmu_initial_mappings :: "mmu_initial_mapping list"

text \<open>The mappings up to the entry of size 0 that ends the array.\<close>

definition live_mappings :: "'a vm_state_scheme \<Rightarrow> mmu_initial_mapping list" where
  "live_mappings s = takeWhile (\<lambda>m. im_size m > 0) (mmu_initial_mappings s)"

definition kvaddr_get_range :: "'a vm_state_scheme \<Rightarrow> (u64 \<times> u64) option" where
  "kvaddr_get_range s = (case mmu_initial_mappings s of [] \<Rightarrow> None | m # _ \<Rightarrow> Some (im_virt m, im_size m))"

definition mapping_covers :: "u64 \<Rightarrow> mmu_initial_mapping \<Rightarrow> bool" where
  "mapping_covers pa m \<longleftrightarrow> im_flags m AND MMU_INITIAL_MAPPING_TEMPORARY = 0 \<and> pa \<ge> im_phys m \<and> pa \<le> im_phys m + im_size m - 1"

text \<open>The null pointer is \<open>None\<close>.\<close>

definition paddr_to_kvaddr :: "u64 \<Rightarrow> 'a vm_state_scheme \<Rightarrow> u64 option" where
  "paddr_to_kvaddr pa s = map_option (\<lambda>m. im_virt m + (pa - im_phys m)) (find (mapping_covers pa) (live_mappings s))"

definition pmm_alloc_kpages :: "u32 \<Rightarrow> vm_page list option \<Rightarrow> 'a vm_state_scheme \<Rightarrow>
    (u64 option \<times> vm_page list option \<times> 'a vm_state_scheme) option" where
  "pmm_alloc_kpages count lst s =
     (if count = 1
      then do {
        (p, s') \<leftarrow> pmm_alloc_page s;
        Some (case p of None \<Rightarrow> None | Some p \<Rightarrow> paddr_to_kvaddr (vm_page_to_paddr p s') s', lst, s') }
      else do {
        (alloc_count, pa, lst', s') \<leftarrow> pmm_alloc_contiguous count PAGE_SIZE_SHIFT lst s;
        Some (if alloc_count = 0 then None else case pa of None \<Rightarrow> None | Some pa \<Rightarrow> paddr_to_kvaddr pa s', lst', s') })"

end
