(* ===== verification/Vmm.thy ===== *)
theory Vmm
  imports Vm
begin

text \<open>
  The virtual memory manager, \<open>kernel/vm/vmm.c\<close>: address spaces as ordered lists of regions, the
  search for a gap, and the allocation of regions with their physical pages. Page tables belong to
  the architecture: the operations take its mapping functions as an argument.
\<close>

section \<open>State\<close>

record vmm_region =
  r_name :: string
  r_flags :: u32
  r_mmu_flags :: u32
  r_base :: u64
  r_size :: u64
  page_list :: "vm_page list"

record vmm_aspace =
  as_name :: string
  as_flags :: u32
  as_base :: u64
  as_size :: u64
  region_list :: "vmm_region list"

text \<open>
  An address space is named by a number, the kernel's by 0. \<open>thread_aspace\<close> is the address space of
  the current thread.
\<close>

record vmm_state = vm_state +
  aspaces :: "nat \<Rightarrow> vmm_aspace"
  aspace_list :: "nat list"
  thread_aspace :: "nat option"

abbreviation (input) kernel_aspace :: nat where "kernel_aspace \<equiv> 0"

text \<open>
  What the memory manager uses of the architecture, on its state \<open>'s\<close>: the bounds of the address
  spaces and the functions declared in \<open>include/arch/mmu.h\<close>. The \<open>bool\<close> of a query
  says whether the flags are asked for; its result is an error, or the physical address and the flags.
\<close>

record 's arch_mmu =
  KERNEL_ASPACE_BASE :: u64
  KERNEL_ASPACE_SIZE :: u64
  USER_ASPACE_BASE :: u64
  USER_ASPACE_SIZE :: u64
  arch_mmu_init_aspace :: "nat \<Rightarrow> u64 \<Rightarrow> u64 \<Rightarrow> u32 \<Rightarrow> 's \<Rightarrow> (status \<times> 's) option"
  arch_mmu_destroy_aspace :: "nat \<Rightarrow> 's \<Rightarrow> (status \<times> 's) option"
  arch_mmu_map :: "nat \<Rightarrow> u64 \<Rightarrow> u64 \<Rightarrow> u32 \<Rightarrow> u32 \<Rightarrow> 's \<Rightarrow> (status \<times> 's) option"
  arch_mmu_unmap :: "nat \<Rightarrow> u64 \<Rightarrow> u32 \<Rightarrow> 's \<Rightarrow> (status \<times> 's) option"
  arch_mmu_query :: "nat \<Rightarrow> u64 \<Rightarrow> bool \<Rightarrow> 's \<Rightarrow> (status + u64 \<times> u32) option"
  arch_mmu_context_switch :: "nat option \<Rightarrow> 's \<Rightarrow> 's option"

abbreviation (input) VMM_FLAG_VALLOC_SPECIFIC :: u32 where "VMM_FLAG_VALLOC_SPECIFIC \<equiv> 1"
abbreviation (input) VMM_REGION_FLAG_RESERVED :: u32 where "VMM_REGION_FLAG_RESERVED \<equiv> 1"
abbreviation (input) VMM_REGION_FLAG_PHYSICAL :: u32 where "VMM_REGION_FLAG_PHYSICAL \<equiv> 2"
abbreviation (input) VMM_ASPACE_FLAG_KERNEL :: u32 where "VMM_ASPACE_FLAG_KERNEL \<equiv> 1"
abbreviation (input) ARCH_ASPACE_FLAG_KERNEL :: u32 where "ARCH_ASPACE_FLAG_KERNEL \<equiv> 1"

section \<open>Regions of an address space\<close>

definition is_inside_aspace :: "vmm_aspace \<Rightarrow> u64 \<Rightarrow> bool" where
  "is_inside_aspace a vaddr \<longleftrightarrow> vaddr \<ge> as_base a \<and> vaddr \<le> as_base a + as_size a - 1"

definition is_region_inside_aspace :: "vmm_aspace \<Rightarrow> u64 \<Rightarrow> u64 \<Rightarrow> bool" where
  "is_region_inside_aspace a vaddr sz =
     (if \<not> is_inside_aspace a vaddr then False
      else if sz = 0 then True
      else if vaddr + sz - 1 < vaddr then False
      else if vaddr + sz - 1 > as_base a + as_size a - 1 then False
      else True)"

definition trim_to_aspace :: "vmm_aspace \<Rightarrow> u64 \<Rightarrow> u64 \<Rightarrow> u64 option" where
  "trim_to_aspace a vaddr sz = do {
     guard_that (is_inside_aspace a vaddr);
     if sz = 0 then Some sz
     else do {
       let offset = vaddr - as_base a;
       let sz1 = (if offset + sz < offset then (- 1) - offset - 1 else sz);
       Some (if offset + sz1 \<ge> as_size a - 1 then as_size a - offset else sz1) } }"

text \<open>
  The walk of \<open>add_region_to_aspace\<close> over the regions: the list with the new region inserted after
  the first region it may follow, or \<open>None\<close> when there is no place.
\<close>

fun add_region_walk :: "vmm_region \<Rightarrow> vmm_region list \<Rightarrow> vmm_region list option" where
  "add_region_walk r [] = None"
| "add_region_walk r (x # xs) =
     (if r_base r > r_base x + r_size x - 1 \<and> (case xs of [] \<Rightarrow> True | y # ys \<Rightarrow> r_base r + r_size r - 1 < r_base y)
      then Some (x # r # xs)
      else map_option (\<lambda>zs. x # zs) (add_region_walk r xs))"

definition add_region_to_aspace :: "vmm_aspace \<Rightarrow> vmm_region \<Rightarrow> status \<times> vmm_aspace" where
  "add_region_to_aspace a r =
     (if r_size r = 0 \<or> \<not> is_region_inside_aspace a (r_base r) (r_size r) then (ERR_OUT_OF_RANGE, a)
      else
        let r_end = r_base r + r_size r - 1;
            front = (case region_list a of [] \<Rightarrow> True | x # _ \<Rightarrow> r_end < r_base x) in
        if front then (NO_ERROR, a\<lparr>region_list := r # region_list a\<rparr>)
        else case add_region_walk r (region_list a) of
               Some rs \<Rightarrow> (NO_ERROR, a\<lparr>region_list := rs\<rparr>)
             | None \<Rightarrow> (ERR_NO_MEMORY, a))"

text \<open>The default \<open>arch_mmu_pick_spot\<close>, which only aligns.\<close>

definition arch_mmu_pick_spot :: "u64 \<Rightarrow> u64 \<Rightarrow> u64" where
  "arch_mmu_pick_spot base align = ROUNDUP base align"

text \<open>
  \<open>check_gap\<close>: \<open>Some spot\<close> stops the search, with \<open>-1\<close> for not found; \<open>None\<close> continues it.
\<close>

definition check_gap :: "vmm_aspace \<Rightarrow> vmm_region option \<Rightarrow> vmm_region option \<Rightarrow> u64 \<Rightarrow> u64 \<Rightarrow> u64 option" where
  "check_gap a prev nxt align sz =
     (let gap_beg = (case prev of Some p \<Rightarrow> r_base p + r_size p | None \<Rightarrow> as_base a) in
      case nxt of
        Some n \<Rightarrow>
          if gap_beg = r_base n then None
          else
            let gap_end = r_base n - 1; pva = arch_mmu_pick_spot gap_beg align in
            if pva < gap_beg then Some (- 1)
            else if pva < gap_end \<and> gap_end - pva + 1 \<ge> sz then Some pva else None
      | None \<Rightarrow>
          if gap_beg = as_base a + as_size a then Some (- 1)
          else
            let gap_end = as_base a + as_size a - 1; pva = arch_mmu_pick_spot gap_beg align in
            if pva < gap_beg then Some (- 1)
            else if pva < gap_end \<and> gap_end - pva + 1 \<ge> sz then Some pva else None)"

text \<open>
  The loop of \<open>alloc_spot\<close>: the spot and the number of regions before it, which is where the region
  goes in the list.
\<close>

fun alloc_spot_loop :: "vmm_aspace \<Rightarrow> nat \<Rightarrow> vmm_region list \<Rightarrow> u64 \<Rightarrow> u64 \<Rightarrow> (u64 \<times> nat) option" where
  "alloc_spot_loop a n [] align sz = None"
| "alloc_spot_loop a n (r # rs) align sz =
     (case check_gap a (Some r) (case rs of [] \<Rightarrow> None | x # _ \<Rightarrow> Some x) align sz of
        Some spot \<Rightarrow> Some (spot, n + 1)
      | None \<Rightarrow> alloc_spot_loop a (n + 1) rs align sz)"

definition alloc_spot :: "vmm_aspace \<Rightarrow> u64 \<Rightarrow> nat \<Rightarrow> (u64 \<times> nat) option" where
  "alloc_spot a sz align_pow2 = do {
     guard_that (sz > 0 \<and> IS_ALIGNED sz PAGE_SIZE);
     let align = push_bit (max align_pow2 PAGE_SIZE_SHIFT) 1;
     Some (case check_gap a None (case region_list a of [] \<Rightarrow> None | x # _ \<Rightarrow> Some x) align sz of
       Some spot \<Rightarrow> (spot, 0)
     | None \<Rightarrow> (case alloc_spot_loop a 0 (region_list a) align sz of
         Some res \<Rightarrow> res | None \<Rightarrow> (- 1, 0))) }"

text \<open>
  \<open>alloc_region\<close>: \<open>have_mem\<close> says that \<open>calloc\<close> gave memory for the region. The result is the region,
  or \<open>None\<close> for the null pointer, and the address space.
\<close>

definition alloc_region :: "bool \<Rightarrow> vmm_aspace \<Rightarrow> string \<Rightarrow> u64 \<Rightarrow> u64 \<Rightarrow> nat \<Rightarrow> u32 \<Rightarrow> u32 \<Rightarrow> u32 \<Rightarrow>
    (vmm_region option \<times> vmm_aspace) option" where
  "alloc_region have_mem a name sz vaddr align_pow2 vmm_flags region_flags mmu_flags =
     (let r = \<lparr>r_name = take 31 name, r_flags = region_flags, r_mmu_flags = mmu_flags, r_base = vaddr, r_size = sz, page_list = []\<rparr> in
      if \<not> have_mem then Some (None, a)
      else if vmm_flags AND VMM_FLAG_VALLOC_SPECIFIC \<noteq> 0
      then (case add_region_to_aspace a r of (st, a') \<Rightarrow> if st < 0 then Some (None, a) else Some (Some r, a'))
      else do {
        (spot, n) \<leftarrow> alloc_spot a sz align_pow2;
        if spot = - 1 then Some (None, a)
        else
          let r' = r\<lparr>r_base := spot\<rparr> in
          Some (Some r', a\<lparr>region_list := take n (region_list a) @ r' # drop n (region_list a)\<rparr>) })"

definition vmm_find_region :: "vmm_aspace \<Rightarrow> u64 \<Rightarrow> vmm_region option" where
  "vmm_find_region a vaddr = find (\<lambda>r. vaddr \<ge> r_base r \<and> vaddr \<le> r_base r + r_size r - 1) (region_list a)"

section \<open>Operations\<close>

definition upd_aspace :: "nat \<Rightarrow> vmm_aspace \<Rightarrow> 'a vmm_state_scheme \<Rightarrow> 'a vmm_state_scheme" where
  "upd_aspace i a s = s\<lparr>aspaces := (aspaces s)(i := a)\<rparr>"

text \<open>
  \<open>vmm_remove_region_locked\<close>: the region taken out, or \<open>None\<close> for \<open>ERR_NOT_FOUND\<close>.
\<close>

definition vmm_remove_region_locked :: "'a vmm_state_scheme arch_mmu \<Rightarrow> nat \<Rightarrow> u64 \<Rightarrow> 'a vmm_state_scheme \<Rightarrow>
    (vmm_region option \<times> 'a vmm_state_scheme) option" where
  "vmm_remove_region_locked mm i vaddr s =
     (case vmm_find_region (aspaces s i) vaddr of
        None \<Rightarrow> Some (None, s)
      | Some r \<Rightarrow> do {
          let s1 = upd_aspace i ((aspaces s i)\<lparr>region_list := remove1 r (region_list (aspaces s i))\<rparr>) s;
          (_, s2) \<leftarrow> arch_mmu_unmap mm i (r_base r) (ucast (r_size r div PAGE_SIZE)) s1;
          Some (Some r, s2) })"

definition vmm_reserve_space :: "'a vmm_state_scheme arch_mmu \<Rightarrow> bool \<Rightarrow> nat \<Rightarrow> string \<Rightarrow> u64 \<Rightarrow> u64 \<Rightarrow> 'a vmm_state_scheme \<Rightarrow>
    (status \<times> 'a vmm_state_scheme) option" where
  "vmm_reserve_space mm have_mem i name sz vaddr s = do {
     guard_that (IS_ALIGNED vaddr PAGE_SIZE);
     guard_that (IS_ALIGNED sz PAGE_SIZE);
     if sz = 0 then Some (NO_ERROR, s)
     else if \<not> is_inside_aspace (aspaces s i) vaddr then Some (ERR_OUT_OF_RANGE, s)
     else do {
       sz' \<leftarrow> trim_to_aspace (aspaces s i) vaddr sz;
       q \<leftarrow> arch_mmu_query mm i vaddr True s;
       let mmu_flags = (case q of Inl _ \<Rightarrow> 0 | Inr (_, fl) \<Rightarrow> fl);
       (r, a) \<leftarrow> alloc_region have_mem (aspaces s i) name sz' vaddr 0 VMM_FLAG_VALLOC_SPECIFIC VMM_REGION_FLAG_RESERVED mmu_flags;
       Some (if r = None then ERR_NO_MEMORY else NO_ERROR, upd_aspace i a s) } }"

text \<open>
  The argument \<open>ptr\<close> of the allocation functions: \<open>None\<close> is the null pointer, \<open>Some v\<close> the address it
  points to, which is read when a specific place is asked for. The result has what is stored there.
\<close>

definition specific_vaddr :: "u32 \<Rightarrow> u64 option \<Rightarrow> u64 option" where
  "specific_vaddr vmm_flags ptr = (if vmm_flags AND VMM_FLAG_VALLOC_SPECIFIC \<noteq> 0 then ptr else Some 0)"

text \<open>The code at \<open>err_free_r\<close>: the region is taken out of the address space again.\<close>

definition undo_region :: "'a vmm_state_scheme arch_mmu \<Rightarrow> nat \<Rightarrow> vmm_region \<Rightarrow> 'a vmm_state_scheme \<Rightarrow> 'a vmm_state_scheme option" where
  "undo_region mm i r s = do {
     (r_temp, s') \<leftarrow> vmm_remove_region_locked mm i (r_base r) s;
     guard_that (r_temp = Some r);
     Some s' }"

definition vmm_alloc_physical :: "'a vmm_state_scheme arch_mmu \<Rightarrow> bool \<Rightarrow> nat \<Rightarrow> string \<Rightarrow> u64 \<Rightarrow> u64 option \<Rightarrow> nat \<Rightarrow> u64 \<Rightarrow>
    u32 \<Rightarrow> u32 \<Rightarrow> 'a vmm_state_scheme \<Rightarrow> (status \<times> u64 option \<times> 'a vmm_state_scheme) option" where
  "vmm_alloc_physical mm have_mem i name sz ptr align_log2 paddr vmm_flags mmu_flags s = do {
     guard_that (IS_ALIGNED paddr PAGE_SIZE);
     guard_that (IS_ALIGNED sz PAGE_SIZE);
     if sz = 0 then Some (NO_ERROR, ptr, s)
     else case specific_vaddr vmm_flags ptr of
       None \<Rightarrow> Some (ERR_INVALID_ARGS, ptr, s)
     | Some vaddr \<Rightarrow> do {
         (ro, a) \<leftarrow> alloc_region have_mem (aspaces s i) name sz vaddr align_log2 vmm_flags VMM_REGION_FLAG_PHYSICAL mmu_flags;
         case ro of
           None \<Rightarrow> Some (ERR_NO_MEMORY, ptr, s)
         | Some r \<Rightarrow> do {
             let ptr' = map_option (\<lambda>_. r_base r) ptr;
             (err, s1) \<leftarrow> arch_mmu_map mm i (r_base r) paddr (ucast (sz div PAGE_SIZE)) mmu_flags (upd_aspace i a s);
             if err < NO_ERROR
             then do { s2 \<leftarrow> undo_region mm i r s1; Some (err, ptr', s2) }
             else Some (NO_ERROR, ptr', s1) } } }"

text \<open>The pages given to a region of an address space.\<close>

definition give_pages :: "nat \<Rightarrow> vmm_region \<Rightarrow> vm_page list \<Rightarrow> 'a vmm_state_scheme \<Rightarrow> 'a vmm_state_scheme" where
  "give_pages i r ps s = upd_aspace i ((aspaces s i)\<lparr>region_list :=
     map (\<lambda>x. if x = r then x\<lparr>page_list := page_list x @ ps\<rparr> else x) (region_list (aspaces s i))\<rparr>) s"

definition vmm_alloc_contiguous :: "'a vmm_state_scheme arch_mmu \<Rightarrow> bool \<Rightarrow> nat \<Rightarrow> string \<Rightarrow> u64 \<Rightarrow> u64 option \<Rightarrow> nat \<Rightarrow>
    u32 \<Rightarrow> u32 \<Rightarrow> 'a vmm_state_scheme \<Rightarrow> (status \<times> u64 option \<times> 'a vmm_state_scheme) option" where
  "vmm_alloc_contiguous mm have_mem i name size_arg ptr align_pow2 vmm_flags mmu_flags s =
     (let sz = ROUNDUP size_arg PAGE_SIZE in
      if sz = 0 then Some (ERR_INVALID_ARGS, ptr, s)
      else case specific_vaddr vmm_flags ptr of
        None \<Rightarrow> Some (ERR_INVALID_ARGS, ptr, s)
      | Some vaddr \<Rightarrow> do {
          (count, pa, pages, s1) \<leftarrow> pmm_alloc_contiguous (ucast (sz div PAGE_SIZE)) align_pow2 (Some []) s;
          if count < unat (sz div PAGE_SIZE)
          then do { guard_that (count = 0); Some (ERR_NO_MEMORY, ptr, s1) }
          else do {
            (ro, a) \<leftarrow> alloc_region have_mem (aspaces s1 i) name sz vaddr align_pow2 vmm_flags VMM_REGION_FLAG_PHYSICAL mmu_flags;
            ps \<leftarrow> pages;
            case ro of
              None \<Rightarrow> do { (_, s2) \<leftarrow> pmm_free ps s1; Some (ERR_NO_MEMORY, ptr, s2) }
            | Some r \<Rightarrow> do {
                let ptr' = map_option (\<lambda>_. r_base r) ptr;
                (err, s2) \<leftarrow> arch_mmu_map mm i (r_base r) (case pa of Some x \<Rightarrow> x | None \<Rightarrow> 0) (ucast (sz div PAGE_SIZE)) mmu_flags
                  (upd_aspace i a s1);
                if err < NO_ERROR
                then do {
                  s3 \<leftarrow> undo_region mm i r s2;
                  (_, s4) \<leftarrow> pmm_free ps s3;
                  Some (err, ptr', s4) }
                else Some (NO_ERROR, ptr', give_pages i r ps s2) } } })"

text \<open>
  The mapping loop of \<open>vmm_alloc\<close> over the pages left, from the address \<open>va\<close>: the error of the page
  that could not be mapped with the pages that are then on the list, or \<open>None\<close> after all of them.
\<close>

fun map_pages :: "'a vmm_state_scheme arch_mmu \<Rightarrow> nat \<Rightarrow> vmm_region \<Rightarrow> u64 \<Rightarrow> vm_page list \<Rightarrow> u32 \<Rightarrow> 'a vmm_state_scheme \<Rightarrow>
    ((status \<times> vm_page list) option \<times> 'a vmm_state_scheme) option" where
  "map_pages mm i r va [] mmu_flags s = Some (None, s)"
| "map_pages mm i r va (p # ps) mmu_flags s = do {
     guard_that (va \<le> r_base r + r_size r - 1);
     let pa = vm_page_to_paddr p s;
     guard_that (IS_ALIGNED pa PAGE_SIZE);
     (err, s') \<leftarrow> arch_mmu_map mm i va pa 1 mmu_flags s;
     if err < NO_ERROR then Some (Some (err, ps @ [p]), s')
     else map_pages mm i r (va + PAGE_SIZE) ps mmu_flags s' }"

definition vmm_alloc :: "'a vmm_state_scheme arch_mmu \<Rightarrow> bool \<Rightarrow> nat \<Rightarrow> string \<Rightarrow> u64 \<Rightarrow> u64 option \<Rightarrow> nat \<Rightarrow>
    u32 \<Rightarrow> u32 \<Rightarrow> 'a vmm_state_scheme \<Rightarrow> (status \<times> u64 option \<times> 'a vmm_state_scheme) option" where
  "vmm_alloc mm have_mem i name size_arg ptr align_pow2 vmm_flags mmu_flags s =
     (let sz = ROUNDUP size_arg PAGE_SIZE in
      if sz = 0 then Some (ERR_INVALID_ARGS, ptr, s)
      else case specific_vaddr vmm_flags ptr of
        None \<Rightarrow> Some (ERR_INVALID_ARGS, ptr, s)
      | Some vaddr \<Rightarrow>
          (case pmm_alloc_pages (unat (ucast (sz div PAGE_SIZE) :: u32)) [] s of (count, ps, s1) \<Rightarrow> do {
           guard_that (count \<le> unat sz);
           if count < unat (sz div PAGE_SIZE)
           then do { (_, s2) \<leftarrow> pmm_free ps s1; Some (ERR_NO_MEMORY, ptr, s2) }
           else do {
             (ro, a) \<leftarrow> alloc_region have_mem (aspaces s1 i) name sz vaddr align_pow2 vmm_flags VMM_REGION_FLAG_PHYSICAL mmu_flags;
             case ro of
               None \<Rightarrow> do { (_, s2) \<leftarrow> pmm_free ps s1; Some (ERR_NO_MEMORY, ptr, s2) }
             | Some r \<Rightarrow> do {
                 guard_that (IS_ALIGNED (r_base r) PAGE_SIZE);
                 (failed, s2) \<leftarrow> map_pages mm i r (r_base r) ps mmu_flags (upd_aspace i a s1);
                 case failed of
                   None \<Rightarrow> Some (NO_ERROR, map_option (\<lambda>_. r_base r) ptr, give_pages i r ps s2)
                 | Some (err, left_over) \<Rightarrow> do {
                     s3 \<leftarrow> undo_region mm i r s2;
                     (_, s4) \<leftarrow> pmm_free (take (length ps - length left_over) ps) s3;
                     (_, s5) \<leftarrow> pmm_free left_over s4;
                     Some (err, ptr, s5) } } } }))"

definition vmm_free_region :: "'a vmm_state_scheme arch_mmu \<Rightarrow> nat \<Rightarrow> u64 \<Rightarrow> 'a vmm_state_scheme \<Rightarrow>
    (status \<times> 'a vmm_state_scheme) option" where
  "vmm_free_region mm i vaddr s = do {
     (ro, s1) \<leftarrow> vmm_remove_region_locked mm i vaddr s;
     case ro of
       None \<Rightarrow> Some (ERR_NOT_FOUND, s1)
     | Some r \<Rightarrow> do { (_, s2) \<leftarrow> pmm_free (page_list r) s1; Some (NO_ERROR, s2) } }"

section \<open>Address spaces\<close>

definition vmm_init_preheap :: "'a vmm_state_scheme arch_mmu \<Rightarrow> 'a vmm_state_scheme \<Rightarrow> 'a vmm_state_scheme option" where
  "vmm_init_preheap mm s = do {
     let a = \<lparr>as_name = ''kernel'', as_flags = VMM_ASPACE_FLAG_KERNEL, as_base = KERNEL_ASPACE_BASE mm,
              as_size = KERNEL_ASPACE_SIZE mm, region_list = []\<rparr>;
     (_, s1) \<leftarrow> arch_mmu_init_aspace mm kernel_aspace (KERNEL_ASPACE_BASE mm) (KERNEL_ASPACE_SIZE mm) ARCH_ASPACE_FLAG_KERNEL
       (upd_aspace kernel_aspace a s);
     Some (s1\<lparr>aspace_list := kernel_aspace # aspace_list s1\<rparr>) }"

text \<open>\<open>mem\<close> is where \<open>calloc\<close> puts the new address space, \<open>None\<close> when there is no memory.\<close>

definition vmm_create_aspace :: "'a vmm_state_scheme arch_mmu \<Rightarrow> nat option \<Rightarrow> string option \<Rightarrow> u32 \<Rightarrow> 'a vmm_state_scheme \<Rightarrow>
    (status \<times> nat option \<times> 'a vmm_state_scheme) option" where
  "vmm_create_aspace mm mem name flags s =
     (case mem of
        None \<Rightarrow> Some (ERR_NO_MEMORY, None, s)
      | Some i \<Rightarrow> do {
          let is_kernel = flags AND VMM_ASPACE_FLAG_KERNEL \<noteq> 0;
          let a = \<lparr>as_name = (case name of Some n \<Rightarrow> take 31 n | None \<Rightarrow> ''unnamed''), as_flags = flags,
                   as_base = (if is_kernel then KERNEL_ASPACE_BASE mm else USER_ASPACE_BASE mm),
                   as_size = (if is_kernel then KERNEL_ASPACE_SIZE mm else USER_ASPACE_SIZE mm), region_list = []\<rparr>;
          (err, s1) \<leftarrow> arch_mmu_init_aspace mm i (as_base a) (as_size a) (if is_kernel then ARCH_ASPACE_FLAG_KERNEL else 0) (upd_aspace i a s);
          if err < 0 then Some (err, None, s1)
          else Some (NO_ERROR, Some i, s1\<lparr>aspace_list := i # aspace_list s1\<rparr>) })"

fun unmap_regions :: "'a vmm_state_scheme arch_mmu \<Rightarrow> nat \<Rightarrow> vmm_region list \<Rightarrow> 'a vmm_state_scheme \<Rightarrow> 'a vmm_state_scheme option" where
  "unmap_regions mm i [] s = Some s"
| "unmap_regions mm i (r # rs) s = do {
     (_, s') \<leftarrow> arch_mmu_unmap mm i (r_base r) (ucast (r_size r div PAGE_SIZE)) s;
     unmap_regions mm i rs s' }"

fun free_regions :: "vmm_region list \<Rightarrow> 'a vmm_state_scheme \<Rightarrow> 'a vmm_state_scheme option" where
  "free_regions [] s = Some s"
| "free_regions (r # rs) s = do { (_, s') \<leftarrow> pmm_free (page_list r) s; free_regions rs s' }"

definition vmm_context_switch :: "'a vmm_state_scheme arch_mmu \<Rightarrow> nat option \<Rightarrow> 'a vmm_state_scheme \<Rightarrow> 'a vmm_state_scheme option" where
  "vmm_context_switch mm newaspace s = arch_mmu_context_switch mm newaspace s"

definition vmm_set_active_aspace :: "'a vmm_state_scheme arch_mmu \<Rightarrow> nat option \<Rightarrow> 'a vmm_state_scheme \<Rightarrow>
    (nat option \<times> 'a vmm_state_scheme) option" where
  "vmm_set_active_aspace mm aspace s =
     (if aspace = thread_aspace s then Some (aspace, s)
      else do {
        s1 \<leftarrow> vmm_context_switch mm aspace (s\<lparr>thread_aspace := aspace\<rparr>);
        Some (thread_aspace s, s1) })"

definition vmm_free_aspace :: "'a vmm_state_scheme arch_mmu \<Rightarrow> nat \<Rightarrow> 'a vmm_state_scheme \<Rightarrow> (status \<times> 'a vmm_state_scheme) option" where
  "vmm_free_aspace mm i s =
     (if i \<notin> set (aspace_list s) then Some (ERR_INVALID_ARGS, s)
      else do {
        let rs = region_list (aspaces s i);
        s1 \<leftarrow> unmap_regions mm i rs (upd_aspace i ((aspaces s i)\<lparr>region_list := []\<rparr>) (s\<lparr>aspace_list := remove1 i (aspace_list s)\<rparr>));
        s2 \<leftarrow> free_regions rs s1;
        s3 \<leftarrow> (if thread_aspace s2 = Some i then vmm_context_switch mm None (s2\<lparr>thread_aspace := None\<rparr>) else Some s2);
        (_, s4) \<leftarrow> arch_mmu_destroy_aspace mm i s3;
        Some (NO_ERROR, s4) })"

section \<open>Address translation\<close>

definition is_kernel_address :: "'s arch_mmu \<Rightarrow> u64 \<Rightarrow> bool" where
  "is_kernel_address mm va \<longleftrightarrow> va \<ge> KERNEL_ASPACE_BASE mm \<and> va \<le> KERNEL_ASPACE_BASE mm + (KERNEL_ASPACE_SIZE mm - 1)"

definition is_user_address :: "'s arch_mmu \<Rightarrow> u64 \<Rightarrow> bool" where
  "is_user_address mm va \<longleftrightarrow> va \<ge> USER_ASPACE_BASE mm \<and> va \<le> USER_ASPACE_BASE mm + (USER_ASPACE_SIZE mm - 1)"

definition vaddr_to_aspace :: "'a vmm_state_scheme arch_mmu \<Rightarrow> u64 \<Rightarrow> 'a vmm_state_scheme \<Rightarrow> nat option" where
  "vaddr_to_aspace mm va s =
     (if is_kernel_address mm va then Some kernel_aspace
      else if is_user_address mm va then thread_aspace s else None)"

definition vaddr_to_paddr :: "'a vmm_state_scheme arch_mmu \<Rightarrow> u64 \<Rightarrow> 'a vmm_state_scheme \<Rightarrow> u64 option" where
  "vaddr_to_paddr mm va s =
     (case vaddr_to_aspace mm va s of
        None \<Rightarrow> Some 0
      | Some i \<Rightarrow> do { q \<leftarrow> arch_mmu_query mm i va False s; Some (case q of Inl _ \<Rightarrow> 0 | Inr (pa, _) \<Rightarrow> pa) })"

fun kpages_list :: "'a vmm_state_scheme arch_mmu \<Rightarrow> u64 \<Rightarrow> nat \<Rightarrow> 'a vmm_state_scheme \<Rightarrow> vm_page list option" where
  "kpages_list mm va 0 s = Some []"
| "kpages_list mm va (Suc n) s = do {
     pa \<leftarrow> vaddr_to_paddr mm va s;
     ps \<leftarrow> kpages_list mm (va + PAGE_SIZE) n s;
     Some (case paddr_to_vm_page pa s of None \<Rightarrow> ps | Some p \<Rightarrow> p # ps) }"

definition pmm_free_kpages :: "'a vmm_state_scheme arch_mmu \<Rightarrow> u64 \<Rightarrow> u32 \<Rightarrow> 'a vmm_state_scheme \<Rightarrow> (nat \<times> 'a vmm_state_scheme) option" where
  "pmm_free_kpages mm va count s = do { ps \<leftarrow> kpages_list mm va (unat count) s; pmm_free ps s }"

section \<open>Start-up\<close>

text \<open>The loop of \<open>mark_pages_in_use\<close> over the remaining pages. An address with no mapping panics.\<close>

fun mark_loop :: "'a vmm_state_scheme arch_mmu \<Rightarrow> u64 \<Rightarrow> nat \<Rightarrow> vm_page list \<Rightarrow> 'a vmm_state_scheme \<Rightarrow> 'a vmm_state_scheme option" where
  "mark_loop mm va 0 lst s = Some s"
| "mark_loop mm va (Suc n) lst s = do {
     q \<leftarrow> arch_mmu_query mm kernel_aspace va True s;
     case q of
       Inl _ \<Rightarrow> None
     | Inr (pa, _) \<Rightarrow> do {
         (_, lst', s') \<leftarrow> pmm_alloc_range pa 1 lst s;
         mark_loop mm (va + PAGE_SIZE) n lst' s' } }"

definition mark_pages_in_use :: "'a vmm_state_scheme arch_mmu \<Rightarrow> u64 \<Rightarrow> u64 \<Rightarrow> 'a vmm_state_scheme \<Rightarrow> 'a vmm_state_scheme option" where
  "mark_pages_in_use mm va len s =
     mark_loop mm (ROUNDDOWN va PAGE_SIZE) (unat (ROUNDUP (len + (va AND (PAGE_SIZE - 1))) PAGE_SIZE div PAGE_SIZE)) [] s"

definition vm_init_preheap :: "'a vmm_state_scheme arch_mmu \<Rightarrow> u64 \<Rightarrow> u64 \<Rightarrow> u64 \<Rightarrow> 'a vmm_state_scheme \<Rightarrow> 'a vmm_state_scheme option" where
  "vm_init_preheap mm kstart kend boot_alloc_start s = do {
     s1 \<leftarrow> vmm_init_preheap mm s;
     s2 \<leftarrow> mark_pages_in_use mm kstart (kend - kstart) s1;
     if boot_alloc_end s2 \<noteq> boot_alloc_start
     then mark_pages_in_use mm boot_alloc_start (boot_alloc_end s2 - boot_alloc_start) s2
     else Some s2 }"

fun reserve_mappings :: "'a vmm_state_scheme arch_mmu \<Rightarrow> bool \<Rightarrow> mmu_initial_mapping list \<Rightarrow> 'a vmm_state_scheme \<Rightarrow> 'a vmm_state_scheme option" where
  "reserve_mappings mm have_mem [] s = Some s"
| "reserve_mappings mm have_mem (m # ms) s =
     (if im_flags m AND MMU_INITIAL_MAPPING_TEMPORARY = 0
      then do {
        (_, s') \<leftarrow> vmm_reserve_space mm have_mem kernel_aspace (im_name m) (im_size m) (im_virt m) s;
        reserve_mappings mm have_mem ms s' }
      else reserve_mappings mm have_mem ms s)"

definition vm_init_postheap :: "'a vmm_state_scheme arch_mmu \<Rightarrow> bool \<Rightarrow> 'a vmm_state_scheme \<Rightarrow> 'a vmm_state_scheme option" where
  "vm_init_postheap mm have_mem s = reserve_mappings mm have_mem (live_mappings s) s"

end
