(* ===== verification/Vmm_Region.thy ===== *)
theory Vmm_Region
  imports Vmm Pmm_Inv
begin

text \<open>
  The regions of an address space: they stay sorted, disjoint and inside it; a region at a given
  place is accepted exactly when it fits and is free; the search for a place finds the lowest
  aligned gap, and fails only when there is none.
\<close>

section \<open>Invariant\<close>

abbreviation (input) rbeg :: "vmm_region \<Rightarrow> nat" where "rbeg r \<equiv> unat (r_base r)"
abbreviation (input) rlim :: "vmm_region \<Rightarrow> nat" where "rlim r \<equiv> unat (r_base r) + unat (r_size r)"
abbreviation (input) abeg :: "vmm_aspace \<Rightarrow> nat" where "abeg a \<equiv> unat (as_base a)"
abbreviation (input) alim :: "vmm_aspace \<Rightarrow> nat" where "alim a \<equiv> unat (as_base a) + unat (as_size a)"

definition aspace_wf :: "vmm_aspace \<Rightarrow> bool" where
  "aspace_wf a \<longleftrightarrow> 0 < unat (as_size a) \<and> alim a \<le> 2 ^ 64"

definition range_inside :: "vmm_aspace \<Rightarrow> nat \<Rightarrow> nat \<Rightarrow> bool" where
  "range_inside a b n \<longleftrightarrow> 0 < n \<and> abeg a \<le> b \<and> b + n \<le> alim a"

definition region_before :: "vmm_region \<Rightarrow> vmm_region \<Rightarrow> bool" where
  "region_before x y \<longleftrightarrow> rlim x \<le> rbeg y"

definition regions_ok :: "vmm_aspace \<Rightarrow> bool" where
  "regions_ok a \<longleftrightarrow> aspace_wf a \<and> (\<forall>r \<in> set (region_list a). range_inside a (rbeg r) (unat (r_size r))) \<and>
     sorted_wrt region_before (region_list a)"

text \<open>No region has an address of the range.\<close>

definition range_free :: "vmm_aspace \<Rightarrow> nat \<Rightarrow> nat \<Rightarrow> bool" where
  "range_free a b n \<longleftrightarrow> (\<forall>r \<in> set (region_list a). rlim r \<le> b \<or> b + n \<le> rbeg r)"

lemma regions_okD:
  assumes "regions_ok a" "r \<in> set (region_list a)"
  shows "0 < unat (r_size r)" "rlim r \<le> 2 ^ 64" "abeg a \<le> rbeg r" "rlim r \<le> alim a"
  using assms by (auto simp: regions_ok_def range_inside_def aspace_wf_def intro: order_trans)

lemma unat_region_last: "0 < unat (r_size r) \<Longrightarrow> rlim r \<le> 2 ^ 64 \<Longrightarrow> unat (r_base r + r_size r - 1) = rlim r - 1"
  using unat_last [of "r_size r" "r_base r"] by (simp add: word_less_nat_alt)

lemma unat_aspace_last: "aspace_wf a \<Longrightarrow> unat (as_base a + as_size a - 1) = alim a - 1"
  using unat_last [of "as_size a" "as_base a"] by (simp add: word_less_nat_alt aspace_wf_def)

section \<open>A region at a given place\<close>

lemma inside_aspace_iff: "aspace_wf a \<Longrightarrow> is_inside_aspace a v \<longleftrightarrow> abeg a \<le> unat v \<and> unat v < alim a"
  using unat_aspace_last [of a] by (auto simp: is_inside_aspace_def word_le_nat_alt aspace_wf_def)

lemma unat_last_wrap:
  fixes b sz :: u64
  assumes "0 < sz" "2 ^ 64 < unat b + unat sz"
  shows "b + sz - 1 < b"
proof -
  have m: "unat (sz - 1) = unat sz - 1" using assms(1) by (intro unat_minus_one) auto
  let ?k = "unat b + unat (sz - 1)"
  have lt: "unat b < 2 ^ 64" "unat sz < 2 ^ 64" using unsigned_less [of b] unsigned_less [of sz] by simp_all
  have e: "?k = 2 ^ 64 + (?k - 2 ^ 64)" using assms(2) m by simp
  have "?k - 2 ^ 64 < 2 ^ 64" using lt m by simp
  then have "?k mod 2 ^ 64 = ?k - 2 ^ 64" by (subst e) simp
  then have "unat (b + (sz - 1)) = ?k - 2 ^ 64" using unat_word_ariths(1) [of b "sz - 1"] by simp
  then have "unat (b + (sz - 1)) < unat b" using lt m assms(2) by simp
  then show ?thesis by (simp add: word_less_nat_alt add_diff_eq)
qed

lemma region_inside_iff:
  assumes "aspace_wf a" "0 < sz"
  shows "is_region_inside_aspace a v sz \<longleftrightarrow> range_inside a (unat v) (unat sz)"
proof (cases "unat v + unat sz \<le> 2 ^ 64")
  case True
  have "0 < unat sz" using assms(2) by (simp add: word_less_nat_alt)
  then show ?thesis using assms True unat_last [OF assms(2) True] unat_aspace_last [OF assms(1)] inside_aspace_iff [OF assms(1), of v]
    by (auto simp: is_region_inside_aspace_def range_inside_def word_less_nat_alt)
next
  case False
  then show ?thesis using assms unat_last_wrap [OF assms(2), of v]
    by (auto simp: is_region_inside_aspace_def range_inside_def aspace_wf_def)
qed

lemma sorted_before_trans:
  "sorted_wrt region_before (x # xs) \<Longrightarrow> rlim r \<le> rbeg x \<Longrightarrow> y \<in> set (x # xs) \<Longrightarrow> rlim r \<le> rbeg y"
  by (auto simp: region_before_def)

definition region_good :: "vmm_region \<Rightarrow> bool" where
  "region_good r \<longleftrightarrow> 0 < unat (r_size r) \<and> rlim r \<le> 2 ^ 64"

lemma region_good_last: "region_good r \<Longrightarrow> unat (r_base r + r_size r - 1) = rlim r - 1"
  by (simp add: region_good_def unat_region_last)

lemma good_after: "region_good x \<Longrightarrow> r_base r > r_base x + r_size x - 1 \<longleftrightarrow> rlim x \<le> rbeg r"
  using region_good_last [of x] by (auto simp: word_less_nat_alt region_good_def)

lemma good_ahead: "region_good r \<Longrightarrow> r_base r + r_size r - 1 < r_base y \<longleftrightarrow> rlim r \<le> rbeg y"
  using region_good_last [of r] by (auto simp: word_less_nat_alt region_good_def)

text \<open>The walk finds a place exactly when the region lies after the first one and meets none.\<close>

lemma add_region_walk_ok:
  assumes "region_good r" "\<forall>x \<in> set xs. region_good x" "sorted_wrt region_before xs"
  shows "case add_region_walk r xs of
      Some ys \<Rightarrow> \<exists>us vs. xs = us @ vs \<and> us \<noteq> [] \<and> ys = us @ r # vs \<and> (\<forall>u \<in> set us. rlim u \<le> rbeg r) \<and> (\<forall>v \<in> set vs. rlim r \<le> rbeg v)
    | None \<Rightarrow> \<not> (xs \<noteq> [] \<and> rlim (hd xs) \<le> rbeg r \<and> (\<forall>x \<in> set xs. rlim x \<le> rbeg r \<or> rlim r \<le> rbeg x))"
  using assms(2,3)
proof (induction xs)
  case (Cons x xs)
  let ?next = "case xs of [] \<Rightarrow> True | y # ys \<Rightarrow> r_base r + r_size r - 1 < r_base y"
  have nx: "?next \<longleftrightarrow> (\<forall>y \<in> set xs. rlim r \<le> rbeg y)"
    using assms(1) Cons.prems sorted_before_trans [of _ _ r] by (cases xs) (auto simp: good_ahead)
  have g: "region_good x" using Cons.prems by simp
  show ?case
  proof (cases "rlim x \<le> rbeg r \<and> ?next")
    case True
    then have "add_region_walk r (x # xs) = Some (x # r # xs)" using good_after [OF g, of r] by simp
    then show ?thesis using True nx by (simp add: exI [of _ "[x]"] exI [of _ xs])
  next
    case False
    then have w: "add_region_walk r (x # xs) = map_option (\<lambda>zs. x # zs) (add_region_walk r xs)" using good_after [OF g, of r] by auto
    note IH = Cons.IH [OF _ sorted_wrt.simps(2) [THEN iffD1, OF Cons.prems(2), THEN conjunct2]]
    show ?thesis
    proof (cases "add_region_walk r xs")
      case None
      have "\<not> (rlim x \<le> rbeg r \<and> (\<forall>y \<in> set (x # xs). rlim y \<le> rbeg r \<or> rlim r \<le> rbeg y))"
      proof
        assume a: "rlim x \<le> rbeg r \<and> (\<forall>y \<in> set (x # xs). rlim y \<le> rbeg r \<or> rlim r \<le> rbeg y)"
        then obtain y where y: "y \<in> set xs" "\<not> rlim r \<le> rbeg y" using False nx by blast
        then have "rlim y \<le> rbeg r" using a by auto
        moreover have "rlim (hd xs) \<le> rlim y" using y(1) Cons.prems by (cases xs) (auto simp: region_before_def)
        ultimately show False using IH Cons.prems None y(1) a by (cases xs) auto
      qed
      then show ?thesis unfolding w None by simp
    next
      case (Some ys)
      then obtain us vs where "xs = us @ vs" "us \<noteq> []" "ys = us @ r # vs" "\<forall>u \<in> set us. rlim u \<le> rbeg r" "\<forall>v \<in> set vs. rlim r \<le> rbeg v"
        using IH Cons.prems by auto
      moreover have "rlim x \<le> rbeg r"
        using calculation Cons.prems by (cases us) (auto simp: region_before_def)
      ultimately show ?thesis unfolding w Some by (simp add: exI [of _ "x # us"] exI [of _ vs])
    qed
  qed
qed simp

text \<open>The region put where it belongs in the order.\<close>

definition inserted :: "vmm_aspace \<Rightarrow> vmm_region \<Rightarrow> vmm_aspace \<Rightarrow> bool" where
  "inserted a r a' \<longleftrightarrow> (\<exists>us vs. region_list a = us @ vs \<and> a' = a\<lparr>region_list := us @ r # vs\<rparr> \<and>
     (\<forall>u \<in> set us. rlim u \<le> rbeg r) \<and> (\<forall>v \<in> set vs. rlim r \<le> rbeg v))"

lemma regions_good: "regions_ok a \<Longrightarrow> \<forall>r \<in> set (region_list a). region_good r"
  using regions_okD by (simp add: region_good_def)

lemma inserted_ok:
  assumes "regions_ok a" "range_inside a (rbeg r) (unat (r_size r))" "inserted a r a'"
  shows "regions_ok a'" "set (region_list a') = insert r (set (region_list a))" "as_base a' = as_base a" "as_size a' = as_size a"
proof -
  obtain us vs where l: "region_list a = us @ vs" "a' = a\<lparr>region_list := us @ r # vs\<rparr>"
    "\<forall>u \<in> set us. rlim u \<le> rbeg r" "\<forall>v \<in> set vs. rlim r \<le> rbeg v" using assms(3) by (auto simp: inserted_def)
  then show "set (region_list a') = insert r (set (region_list a))" "as_base a' = as_base a" "as_size a' = as_size a" by auto
  have "sorted_wrt region_before (us @ r # vs)"
    using assms(1) l by (auto simp: regions_ok_def sorted_wrt_append region_before_def)
  then show "regions_ok a'" using assms(1,2) l by (auto simp: regions_ok_def aspace_wf_def range_inside_def)
qed

lemma range_inside_good: "aspace_wf a \<Longrightarrow> range_inside a (rbeg r) (unat (r_size r)) \<Longrightarrow> region_good r"
  by (auto simp: aspace_wf_def range_inside_def region_good_def)

lemma range_free_good:
  "regions_ok a \<Longrightarrow> region_good r \<Longrightarrow> range_free a (rbeg r) (unat (r_size r)) \<longleftrightarrow> (\<forall>x \<in> set (region_list a). rlim x \<le> rbeg r \<or> rlim r \<le> rbeg x)"
  by (simp add: range_free_def)

lemma add_region_ok:
  assumes "regions_ok a"
  shows "if range_inside a (rbeg r) (unat (r_size r)) \<and> range_free a (rbeg r) (unat (r_size r))
    then \<exists>a'. add_region_to_aspace a r = (NO_ERROR, a') \<and> inserted a r a'
    else \<exists>st < 0. add_region_to_aspace a r = (st, a)"
proof (cases "range_inside a (rbeg r) (unat (r_size r))")
  case False
  then have "r_size r = 0 \<or> \<not> is_region_inside_aspace a (r_base r) (r_size r)"
    using region_inside_iff [of a "r_size r" "r_base r"] assms by (auto simp: regions_ok_def word_gt_0)
  then show ?thesis using False by (simp add: add_region_to_aspace_def)
next
  case True
  have wf: "aspace_wf a" using assms by (simp add: regions_ok_def)
  have z: "r_size r \<noteq> 0" using True by (auto simp: range_inside_def)
  then have i: "is_region_inside_aspace a (r_base r) (r_size r)"
    using region_inside_iff [OF wf, of "r_size r" "r_base r"] True by (simp add: word_gt_0)
  have g: "region_good r" using range_inside_good [OF wf True] .
  have srt: "sorted_wrt region_before (region_list a)" using assms by (simp add: regions_ok_def)
  let ?front = "case region_list a of [] \<Rightarrow> True | x # _ \<Rightarrow> r_base r + r_size r - 1 < r_base x"
  have front: "?front \<longleftrightarrow> (\<forall>x \<in> set (region_list a). rlim r \<le> rbeg x)"
    using srt sorted_before_trans [of _ _ r] by (cases "region_list a") (auto simp: good_ahead [OF g])
  show ?thesis
  proof (cases ?front)
    case True
    then have "add_region_to_aspace a r = (NO_ERROR, a\<lparr>region_list := r # region_list a\<rparr>)"
      using z i by (simp add: add_region_to_aspace_def)
    moreover have "inserted a r (a\<lparr>region_list := r # region_list a\<rparr>)" "range_free a (rbeg r) (unat (r_size r))"
      using True front by (auto simp: inserted_def range_free_def intro: exI [of _ "[]"])
    ultimately show ?thesis using \<open>range_inside a _ _\<close> by auto
  next
    case False
    note w = add_region_walk_ok [OF g regions_good [OF assms] srt]
    have e: "add_region_to_aspace a r = (case add_region_walk r (region_list a) of
        Some rs \<Rightarrow> (NO_ERROR, a\<lparr>region_list := rs\<rparr>) | None \<Rightarrow> (ERR_NO_MEMORY, a))"
      using False z i by (simp add: add_region_to_aspace_def Let_def)
    show ?thesis
    proof (cases "add_region_walk r (region_list a)")
      case None
      obtain x where x: "x \<in> set (region_list a)" "\<not> rlim r \<le> rbeg x" using False front by blast
      have "rlim (hd (region_list a)) \<le> rlim x" using x(1) srt by (cases "region_list a") (auto simp: region_before_def)
      then have "\<not> range_free a (rbeg r) (unat (r_size r))"
        using w None x by (cases "region_list a") (fastforce simp: range_free_def)+
      then show ?thesis using e None by simp
    next
      case (Some ys)
      then obtain us vs where l: "region_list a = us @ vs" "ys = us @ r # vs" "\<forall>u \<in> set us. rlim u \<le> rbeg r" "\<forall>v \<in> set vs. rlim r \<le> rbeg v"
        using w by auto
      then have "range_free a (rbeg r) (unat (r_size r))" by (auto simp: range_free_def)
      moreover have "inserted a r (a\<lparr>region_list := ys\<rparr>)" unfolding inserted_def using l by blast
      ultimately show ?thesis using e Some True by simp
    qed
  qed
qed

section \<open>The search for a place\<close>

definition gap_start :: "vmm_aspace \<Rightarrow> vmm_region option \<Rightarrow> nat" where
  "gap_start a prev = (case prev of Some p \<Rightarrow> rlim p | None \<Rightarrow> abeg a)"

definition gap_limit :: "vmm_aspace \<Rightarrow> vmm_region option \<Rightarrow> nat" where
  "gap_limit a nxt = (case nxt of Some n \<Rightarrow> rbeg n | None \<Rightarrow> alim a)"

abbreviation (input) rup :: "nat \<Rightarrow> nat \<Rightarrow> nat" where "rup k g \<equiv> (g + (2 ^ k - 1)) div 2 ^ k * 2 ^ k"

lemma unat_u64_less: "unat (w :: u64) < 18446744073709551616"
  using unsigned_less [of w] by simp

lemma ROUNDUP_wraps:
  assumes "k < 64" "2 ^ 64 \<le> unat g + (2 ^ k - 1)"
  shows "ROUNDUP g (2 ^ k) < g" "\<And>q. 2 ^ k dvd q \<Longrightarrow> unat g \<le> q \<Longrightarrow> 2 ^ 64 \<le> q"
proof -
  have p: "(2::nat) ^ k < 2 ^ 64" using assms(1) by (intro power_strict_increasing) simp_all
  have u: "unat (g + mask k) = unat g + (2 ^ k - 1) - 2 ^ 64"
  proof -
    have "unat g < 2 ^ 64" using unsigned_less [of g] by simp
    then have "unat g + (2 ^ k - 1) < 2 ^ 64 + 2 ^ 64" using p by simp
    then have "(unat g + (2 ^ k - 1)) mod 2 ^ 64 = unat g + (2 ^ k - 1) - 2 ^ 64"
      using assms(2) by (metis add_diff_inverse_nat le_add_diff_inverse less_diff_conv2 linorder_not_less mod_add_self1 mod_less)
    then show ?thesis using unat_word_ariths(1) [of g "mask k"] assms(1) by (simp add: unat_mask_u64)
  qed
  have "unat (ROUNDUP g (2 ^ k)) \<le> unat (g + mask k)" by (simp add: ROUNDUP_def exp_minus_1 and_not_mask unat_push_drop)
  also have "\<dots> < unat g" using u p assms(2) by simp
  finally show "ROUNDUP g (2 ^ k) < g" by (simp add: word_less_nat_alt)
  fix q :: nat assume q: "2 ^ k dvd q" "unat g \<le> q"
  show "2 ^ 64 \<le> q"
  proof (rule ccontr)
    assume "\<not> 2 ^ 64 \<le> q"
    moreover have "(2::nat) ^ k dvd 2 ^ 64" using assms(1) by (intro le_imp_power_dvd) simp
    ultimately have "2 ^ k dvd 2 ^ 64 - q" "0 < 2 ^ 64 - q" using q(1) by (auto intro: dvd_diff_nat)
    then have "2 ^ k \<le> 2 ^ 64 - q" by (rule dvd_imp_le)
    moreover have "(0::nat) < 2 ^ k" by simp
    ultimately show False using assms(2) q(2) p \<open>0 < 2 ^ 64 - q\<close> by linarith
  qed
qed

definition fits :: "vmm_aspace \<Rightarrow> nat \<Rightarrow> nat \<Rightarrow> nat \<Rightarrow> bool" where
  "fits a k n q \<longleftrightarrow> 2 ^ k dvd q \<and> range_inside a q n \<and> range_free a q n"

lemma rup_least: "2 ^ k dvd q \<Longrightarrow> g \<le> q \<Longrightarrow> rup k g \<le> q"
  by (rule roundup_props(4)) simp_all

lemma room_iff:
  fixes v m sz :: u64
  assumes "unat m = l - 1" "0 < l" "l - unat v < 2 ^ 64" "1 < unat sz"
  shows "(v < m \<and> m - v + 1 \<ge> sz) \<longleftrightarrow> unat v + unat sz \<le> l"
proof (cases "v < m")
  case True
  then have lt: "unat v < l - 1" using assms(1) by (simp add: word_less_nat_alt)
  have d: "unat (m - v) = l - 1 - unat v" using True assms(1) by (simp add: unat_sub)
  have "l - 1 - unat v + 1 = l - unat v" using lt by simp
  then have "unat (m - v + 1) = l - unat v" using assms(3) unat_word_ariths(1) [of "m - v" 1] d by simp
  then show ?thesis using True lt by (auto simp: word_le_nat_alt)
next
  case False
  then show ?thesis using assms by (auto simp: word_less_nat_alt)
qed

text \<open>What the search learns from one gap.\<close>

lemma check_gap_ok:
  assumes "12 \<le> k" "k < 64" "1 < unat sz" "aspace_wf a"
    "gap_start a prev \<le> gap_limit a nxt" "gap_limit a nxt \<le> alim a" "nxt \<noteq> None \<Longrightarrow> gap_limit a nxt < 2 ^ 64"
    "\<And>p. prev = Some p \<Longrightarrow> region_good p"
  shows "case check_gap a prev nxt (2 ^ k) sz of
      None \<Rightarrow> \<not> rup k (gap_start a prev) + unat sz \<le> gap_limit a nxt
    | Some v \<Rightarrow> if v = - 1 then (\<forall>q. 2 ^ k dvd q \<longrightarrow> gap_start a prev \<le> q \<longrightarrow> \<not> q + unat sz \<le> alim a)
        else unat v = rup k (gap_start a prev) \<and> unat v + unat sz \<le> gap_limit a nxt"
proof -
  let ?g = "case prev of Some p \<Rightarrow> r_base p + r_size p | None \<Rightarrow> as_base a"
  let ?lim = "case nxt of Some n \<Rightarrow> r_base n | None \<Rightarrow> as_base a + as_size a"
  let ?s = "gap_start a prev" and ?l = "gap_limit a nxt" and ?v = "ROUNDUP ?g (2 ^ k)"
  have al: "alim a \<le> 2 ^ 64" using assms(4) by (simp add: aspace_wf_def)
  have g: "unat ?g = ?s mod 2 ^ 64" by (cases prev) (simp_all add: gap_start_def unat_word_ariths unat_u64_less)
  have l: "unat ?lim = ?l mod 2 ^ 64" by (cases nxt) (simp_all add: gap_limit_def unat_word_ariths unat_u64_less)
  have form: "check_gap a prev nxt (2 ^ k) sz =
      (if ?g = ?lim then (if nxt = None then Some (- 1) else None)
       else if ?v < ?g then Some (- 1) else if ?v < ?lim - 1 \<and> ?lim - 1 - ?v + 1 \<ge> sz then Some ?v else None)"
    by (cases nxt) (simp_all add: check_gap_def arch_mmu_pick_spot_def Let_def)
  show ?thesis
  proof (cases "?s = ?l")
    case True
    then have "?g = ?lim" using g l by (simp add: word_unat_eq_iff)
    moreover have "?l \<le> rup k ?s" using True roundup_props(1) [of "2 ^ k" ?s] by simp
    ultimately show ?thesis using True assms(3) form by (auto simp: gap_limit_def split: option.splits)
  next
    case False
    then have lt: "?s < ?l" "?l \<le> 2 ^ 64" using assms(5,6) al by simp_all
    have gs: "unat ?g = ?s" using g lt by simp
    have nz: "?s \<noteq> 0 \<or> ?l < 2 ^ 64"
      using assms(6,8) unat_u64_less [of "as_size a"] by (cases prev) (auto simp: gap_start_def region_good_def)
    have neq: "?g \<noteq> ?lim" using gs l lt nz by (cases "?l = 2 ^ 64") (auto simp: word_unat_eq_iff)
    have lm: "unat (?lim - 1) = ?l - 1"
    proof (cases "?l = 2 ^ 64")
      case True
      then have "?lim = 0" using l by (simp add: unat_eq_0)
      then show ?thesis using True by (simp add: unsigned_minus_1_eq_mask mask_eq_exp_minus_1)
    next
      case False
      then have "unat ?lim = ?l" using l lt by simp
      moreover have "?lim \<noteq> 0" using calculation lt by auto
      ultimately show ?thesis by (simp add: unat_minus_one)
    qed
    show ?thesis
    proof (cases "2 ^ 64 \<le> unat ?g + (2 ^ k - 1)")
      case True
      note w = ROUNDUP_wraps [OF assms(2) True]
      have "\<not> q + unat sz \<le> alim a" if "2 ^ k dvd q" "?s \<le> q" for q
        using w(2) [of q] that gs al assms(3) by simp
      then show ?thesis using form neq w(1) by simp
    next
      case False
      then have v: "unat ?v = rup k ?s" using unat_ROUNDUP [OF assms(2), of ?g] gs by simp
      then have nv: "\<not> ?v < ?g" using gs roundup_props(1) [of "2 ^ k" ?s] by (simp add: word_less_nat_alt)
      have room: "(?v < ?lim - 1 \<and> ?lim - 1 - ?v + 1 \<ge> sz) \<longleftrightarrow> rup k ?s + unat sz \<le> ?l"
      proof -
        have "?l - unat ?v < 2 ^ 64" using nz lt v roundup_props(1) [of "2 ^ k" ?s] by auto
        then show ?thesis using room_iff [OF lm _ _ assms(3), of ?v] lt v by simp
      qed
      have "?v \<noteq> - 1" if "?v < ?lim - 1" using that by auto
      then show ?thesis using form neq nv room v by auto
    qed
  qed
qed

abbreviation (input) first_of :: "vmm_region list \<Rightarrow> vmm_region option" where
  "first_of xs \<equiv> (case xs of [] \<Rightarrow> None | x # _ \<Rightarrow> Some x)"
abbreviation (input) last_of :: "vmm_region list \<Rightarrow> vmm_region option" where
  "last_of us \<equiv> (if us = [] then None else Some (last us))"

definition placed :: "vmm_aspace \<Rightarrow> nat \<Rightarrow> nat \<Rightarrow> nat \<Rightarrow> bool" where
  "placed a m v n \<longleftrightarrow> (\<forall>u \<in> set (take m (region_list a)). rlim u \<le> v) \<and> (\<forall>w \<in> set (drop m (region_list a)). v + n \<le> rbeg w)"

text \<open>The gap between the regions \<open>us\<close> and the regions \<open>xs\<close>.\<close>

lemma gap_bounds:
  assumes "regions_ok a" "region_list a = us @ xs"
  shows "gap_start a (last_of us) \<le> gap_limit a (first_of xs)" "gap_limit a (first_of xs) \<le> alim a"
    "first_of xs \<noteq> None \<Longrightarrow> gap_limit a (first_of xs) < 2 ^ 64" "last_of us = Some p \<Longrightarrow> region_good p"
    "abeg a \<le> gap_start a (last_of us)"
proof -
  have s: "sorted_wrt region_before (us @ xs)" using assms by (simp add: regions_ok_def)
  have l: "last us \<in> set (region_list a)" if "us \<noteq> []" using that assms(2) by simp
  have f: "hd xs \<in> set (region_list a)" if "xs \<noteq> []" using that assms(2) by simp
  show "gap_start a (last_of us) \<le> gap_limit a (first_of xs)"
    using s regions_okD [OF assms(1) l] regions_okD [OF assms(1) f] assms(1)
    by (cases xs) (auto simp: gap_start_def gap_limit_def sorted_wrt_append region_before_def regions_ok_def aspace_wf_def)
  show "gap_limit a (first_of xs) \<le> alim a"
    using regions_okD(1,4) [OF assms(1) f] by (cases xs) (simp_all add: gap_limit_def)
  show "gap_limit a (first_of xs) < 2 ^ 64" if "first_of xs \<noteq> None"
    using that unat_u64_less by (cases xs) (simp_all add: gap_limit_def)
  show "region_good p" if "last_of us = Some p" using that regions_good [OF assms(1)] l by (auto split: if_splits)
  show "abeg a \<le> gap_start a (last_of us)" using regions_okD(3) [OF assms(1) l] by (auto simp: gap_start_def trans_le_add1)
qed

lemma gap_fits:
  assumes "regions_ok a" "region_list a = us @ xs" "0 < n" "gap_start a (last_of us) \<le> q" "q + n \<le> gap_limit a (first_of xs)"
  shows "range_inside a q n" "placed a (length us) q n" "range_free a q n"
proof -
  have s: "sorted_wrt region_before (us @ xs)" using assms by (simp add: regions_ok_def)
  note b = gap_bounds [OF assms(1,2)]
  show "range_inside a q n" using b(2,5) assms(3-5) by (simp add: range_inside_def)
  have "rlim u \<le> q" if "u \<in> set us" for u
  proof -
    have "rlim u \<le> rlim (last us)"
      using s that by (cases us rule: rev_cases) (auto simp: sorted_wrt_append region_before_def)
    moreover have "us \<noteq> []" using that by auto
    ultimately show ?thesis using assms(4) by (simp add: gap_start_def)
  qed
  moreover have "q + n \<le> rbeg w" if "w \<in> set xs" for w
  proof -
    have "rbeg (hd xs) \<le> rbeg w" using s that by (cases xs) (auto simp: sorted_wrt_append region_before_def)
    then show ?thesis using that assms(5) by (cases xs) (auto simp: gap_limit_def)
  qed
  ultimately show "placed a (length us) q n" "range_free a q n" using assms(2) by (auto simp: placed_def range_free_def)
qed

lemma gap_or_later:
  assumes "regions_ok a" "region_list a = us @ xs" "range_inside a q n" "range_free a q n" "gap_start a (last_of us) \<le> q"
  shows "q + n \<le> gap_limit a (first_of xs) \<or> (\<exists>y ys. xs = y # ys \<and> rlim y \<le> q)"
  using assms(2-4) by (cases xs) (auto simp: gap_limit_def range_inside_def range_free_def)

text \<open>The outcome of the search from an address on.\<close>

definition spot_ok :: "vmm_aspace \<Rightarrow> nat \<Rightarrow> nat \<Rightarrow> nat \<Rightarrow> (u64 \<times> nat) option \<Rightarrow> bool" where
  "spot_ok a k n lo res \<longleftrightarrow> (case res of
     Some (v, m) \<Rightarrow> if v = - 1 then \<forall>q. fits a k n q \<longrightarrow> \<not> lo \<le> q
       else fits a k n (unat v) \<and> lo \<le> unat v \<and> placed a m (unat v) n \<and> (\<forall>q. fits a k n q \<longrightarrow> lo \<le> q \<longrightarrow> unat v \<le> q)
   | None \<Rightarrow> \<forall>q. fits a k n q \<longrightarrow> \<not> lo \<le> q)"

lemma gap_check:
  assumes "regions_ok a" "region_list a = us @ xs" "12 \<le> k" "k < 64" "1 < unat sz"
  shows "case check_gap a (last_of us) (first_of xs) (2 ^ k) sz of
      None \<Rightarrow> \<not> rup k (gap_start a (last_of us)) + unat sz \<le> gap_limit a (first_of xs)
    | Some v \<Rightarrow> if v = - 1 then (\<forall>q. 2 ^ k dvd q \<longrightarrow> gap_start a (last_of us) \<le> q \<longrightarrow> \<not> q + unat sz \<le> alim a)
        else unat v = rup k (gap_start a (last_of us)) \<and> unat v + unat sz \<le> gap_limit a (first_of xs)"
proof (rule check_gap_ok [OF assms(3-5)])
  show "aspace_wf a" using assms(1) by (simp add: regions_ok_def)
qed (fact gap_bounds [OF assms(1,2)])+

lemma gap_found:
  assumes "regions_ok a" "region_list a = us @ xs" "12 \<le> k" "k < 64" "1 < unat sz"
    "check_gap a (last_of us) (first_of xs) (2 ^ k) sz = Some v"
  shows "spot_ok a k (unat sz) (gap_start a (last_of us)) (Some (v, length us))"
proof -
  let ?g = "gap_start a (last_of us)"
  note c = gap_check [OF assms(1-5), unfolded assms(6) option.case]
  show ?thesis
  proof (cases "v = - 1")
    case True
    then have "\<forall>q. 2 ^ k dvd q \<longrightarrow> ?g \<le> q \<longrightarrow> \<not> q + unat sz \<le> alim a" using c by (simp only: if_P)
    then show ?thesis using True unfolding spot_ok_def fits_def range_inside_def option.case prod.case if_P [OF True] by blast
  next
    case False
    then have v: "unat v = rup k ?g" "unat v + unat sz \<le> gap_limit a (first_of xs)" using c unfolding if_not_P [OF False] by blast+
    have "?g \<le> unat v" unfolding v(1) using roundup_props(1) [of "2 ^ k" ?g] by simp
    moreover have "2 ^ k dvd unat v" unfolding v(1) by simp
    moreover note f = gap_fits [OF assms(1,2) _ calculation(1) v(2)]
    moreover have "unat v \<le> q" if "fits a k (unat sz) q" "?g \<le> q" for q
      unfolding v(1) using that by (intro rup_least) (simp_all add: fits_def)
    ultimately show ?thesis using False assms(5) by (simp add: spot_ok_def fits_def)
  qed
qed

lemma gap_not_found:
  assumes "regions_ok a" "region_list a = us @ xs" "12 \<le> k" "k < 64" "1 < unat sz"
    "check_gap a (last_of us) (first_of xs) (2 ^ k) sz = None" "fits a k (unat sz) q" "gap_start a (last_of us) \<le> q"
  shows "\<exists>y ys. xs = y # ys \<and> rlim y \<le> q"
proof -
  note c = gap_check [OF assms(1-5), unfolded assms(6) option.case]
  have "rup k (gap_start a (last_of us)) \<le> q" using assms(7,8) by (intro rup_least) (simp_all add: fits_def)
  then have "\<not> q + unat sz \<le> gap_limit a (first_of xs)" using c by linarith
  moreover have "range_inside a q (unat sz)" "range_free a q (unat sz)" using assms(7) by (simp_all add: fits_def)
  ultimately show ?thesis using gap_or_later [OF assms(1,2) _ _ assms(8)] by blast
qed

lemma alloc_spot_loop_ok:
  assumes "regions_ok a" "region_list a = us @ xs" "12 \<le> k" "k < 64" "1 < unat sz" "xs \<noteq> []"
  shows "spot_ok a k (unat sz) (rlim (hd xs)) (alloc_spot_loop a (length us) xs (2 ^ k) sz)"
  using assms(2,6)
proof (induction xs arbitrary: us)
  case (Cons x xs)
  have l: "region_list a = (us @ [x]) @ xs" using Cons.prems by simp
  have g: "gap_start a (last_of (us @ [x])) = rlim x" by (simp add: gap_start_def)
  show ?case
  proof (cases "check_gap a (last_of (us @ [x])) (first_of xs) (2 ^ k) sz")
    case (Some v)
    then show ?thesis using gap_found [OF assms(1) l assms(3-5) Some] g by simp
  next
    case None
    have later: "\<exists>y ys. xs = y # ys \<and> rlim y \<le> q" if "fits a k (unat sz) q" "rlim x \<le> q" for q
      using gap_not_found [OF assms(1) l assms(3-5) None] that g by simp
    show ?thesis
    proof (cases xs)
      case Nil
      then show ?thesis using None later by (simp add: spot_ok_def) blast
    next
      case (Cons y ys)
      have b: "rlim x \<le> rlim y" using assms(1) l Cons by (simp add: regions_ok_def sorted_wrt_append region_before_def)
      have IH: "spot_ok a k (unat sz) (rlim y) (alloc_spot_loop a (length us + 1) xs (2 ^ k) sz)"
        using Cons.IH [OF l] Cons by simp
      have e: "alloc_spot_loop a (length us) (x # xs) (2 ^ k) sz = alloc_spot_loop a (length us + 1) xs (2 ^ k) sz"
        using None by simp
      show ?thesis unfolding e using IH b later Cons by (fastforce simp: spot_ok_def split: option.splits if_splits)
    qed
  qed
qed simp

lemma page_multiple: "0 < sz \<Longrightarrow> IS_ALIGNED sz PAGE_SIZE \<Longrightarrow> 4096 \<le> unat sz"
  using IS_ALIGNED_iff [of sz 12] by (auto simp: word_less_nat_alt intro: dvd_imp_le)

lemma alloc_spot_ok:
  assumes "regions_ok a" "0 < sz" "IS_ALIGNED sz PAGE_SIZE" "p < 64"
  shows "\<exists>v m. alloc_spot a sz p = Some (v, m) \<and> spot_ok a (max p 12) (unat sz) (abeg a) (Some (v, m))"
proof -
  let ?k = "max p 12" and ?rs = "region_list a"
  have k: "12 \<le> ?k" "?k < 64" using assms(4) by simp_all
  have z: "1 < unat sz" using page_multiple [OF assms(2,3)] by simp
  have l: "region_list a = [] @ ?rs" by simp
  have g: "gap_start a (last_of []) = abeg a" by (simp add: gap_start_def)
  have e: "alloc_spot a sz p = Some (case check_gap a (last_of []) (first_of ?rs) (2 ^ ?k) sz of
      Some spot \<Rightarrow> (spot, 0) | None \<Rightarrow> (case alloc_spot_loop a 0 ?rs (2 ^ ?k) sz of Some res \<Rightarrow> res | None \<Rightarrow> (- 1, 0)))"
    using assms(2,3) by (simp add: alloc_spot_def push_bit_eq_mult Let_def)
  show ?thesis
  proof (cases "check_gap a (last_of []) (first_of ?rs) (2 ^ ?k) sz")
    case (Some v)
    then show ?thesis using e gap_found [OF assms(1) l k z Some] g by simp
  next
    case None
    have later: "\<exists>y ys. ?rs = y # ys \<and> rlim y \<le> q" if "fits a ?k (unat sz) q" "abeg a \<le> q" for q
      using gap_not_found [OF assms(1) l k z None that(1)] that(2) g by simp
    have nofit: "\<not> abeg a \<le> q" if "?rs = []" "fits a ?k (unat sz) q" for q using later [of q] that by auto
    show ?thesis
    proof (cases ?rs)
      case Nil
      then show ?thesis using e None nofit by (auto simp: spot_ok_def)
    next
      case (Cons y ys)
      then have "abeg a \<le> rlim y" using regions_okD(3) [OF assms(1), of y] by simp
      moreover have "spot_ok a ?k (unat sz) (rlim y) (alloc_spot_loop a 0 ?rs (2 ^ ?k) sz)"
        using alloc_spot_loop_ok [OF assms(1) l k z] Cons by simp
      ultimately have "spot_ok a ?k (unat sz) (abeg a) (alloc_spot_loop a 0 ?rs (2 ^ ?k) sz)"
        using later Cons by (fastforce simp: spot_ok_def split: option.splits if_splits)
      moreover have "spot_ok a ?k (unat sz) (abeg a) None \<Longrightarrow> spot_ok a ?k (unat sz) (abeg a) (Some (- 1, 0))" by (simp add: spot_ok_def)
      ultimately show ?thesis using e None by (cases "alloc_spot_loop a 0 ?rs (2 ^ ?k) sz") auto
    qed
  qed
qed

definition region_wanted :: "vmm_aspace \<Rightarrow> u64 \<Rightarrow> u64 \<Rightarrow> nat \<Rightarrow> u32 \<Rightarrow> nat \<Rightarrow> bool" where
  "region_wanted a sz vaddr align_pow2 vmm_flags q \<longleftrightarrow> range_inside a q (unat sz) \<and> range_free a q (unat sz) \<and>
     (if vmm_flags AND VMM_FLAG_VALLOC_SPECIFIC \<noteq> 0 then q = unat vaddr else 2 ^ max align_pow2 12 dvd q)"

text \<open>
  \<open>alloc_region\<close> puts the region at the lowest place that was asked for, and gives up only when there
  is none.
\<close>

lemma alloc_region_ok:
  assumes "regions_ok a" "0 < sz" "IS_ALIGNED sz PAGE_SIZE" "align_pow2 < 64"
  shows "\<exists>ro a'. alloc_region have_mem a name sz vaddr align_pow2 vmm_flags rfl mfl = Some (ro, a') \<and>
    (case ro of
       None \<Rightarrow> a' = a \<and> (have_mem \<longrightarrow> (\<forall>q. \<not> region_wanted a sz vaddr align_pow2 vmm_flags q))
     | Some r \<Rightarrow> have_mem \<and> inserted a r a' \<and> region_wanted a sz vaddr align_pow2 vmm_flags (rbeg r) \<and>
         (\<forall>q. region_wanted a sz vaddr align_pow2 vmm_flags q \<longrightarrow> rbeg r \<le> q) \<and>
         r_size r = sz \<and> r_flags r = rfl \<and> r_mmu_flags r = mfl \<and> page_list r = [])"
proof (cases "have_mem \<and> vmm_flags AND VMM_FLAG_VALLOC_SPECIFIC \<noteq> 0")
  case True
  let ?r = "\<lparr>r_name = take 31 name, r_flags = rfl, r_mmu_flags = mfl, r_base = vaddr, r_size = sz, page_list = []\<rparr>"
  show ?thesis
  proof (cases "range_inside a (unat vaddr) (unat sz) \<and> range_free a (unat vaddr) (unat sz)")
    case t: True
    then obtain a' where "add_region_to_aspace a ?r = (NO_ERROR, a')" "inserted a ?r a'"
      using add_region_ok [OF assms(1), of ?r] by auto
    then show ?thesis using True t by (simp add: alloc_region_def region_wanted_def)
  next
    case f: False
    then obtain st where "st < 0" "add_region_to_aspace a ?r = (st, a)" using add_region_ok [OF assms(1), of ?r] by auto
    then show ?thesis using True f by (auto simp add: alloc_region_def region_wanted_def)
  qed
next
  case False
  show ?thesis
  proof (cases have_mem)
    case f: False
    then show ?thesis by (simp add: alloc_region_def)
  next
    case t: True
    obtain v m where v: "alloc_spot a sz align_pow2 = Some (v, m)" "spot_ok a (max align_pow2 12) (unat sz) (abeg a) (Some (v, m))"
      using alloc_spot_ok [OF assms] by auto
    have w: "region_wanted a sz vaddr align_pow2 vmm_flags q \<longleftrightarrow> fits a (max align_pow2 12) (unat sz) q" for q
      using False t by (auto simp: region_wanted_def fits_def)
    have lo: "abeg a \<le> q" if "fits a (max align_pow2 12) (unat sz) q" for q using that by (simp add: fits_def range_inside_def)
    let ?r = "\<lparr>r_name = take 31 name, r_flags = rfl, r_mmu_flags = mfl, r_base = v, r_size = sz, page_list = []\<rparr>"
    show ?thesis
    proof (cases "v = - 1")
      case True
      then show ?thesis using v t False w lo by (auto simp: alloc_region_def spot_ok_def Let_def)
    next
      case nv: False
      have "inserted a ?r (a\<lparr>region_list := take m (region_list a) @ ?r # drop m (region_list a)\<rparr>)"
        unfolding inserted_def using v(2) nv
        by (intro exI [of _ "take m (region_list a)"] exI [of _ "drop m (region_list a)"]) (auto simp: spot_ok_def placed_def)
      then show ?thesis using v t False nv w lo by (simp add: alloc_region_def spot_ok_def Let_def)
    qed
  qed
qed

end
