(* ===== verification/Vmm_Props.thy ===== *)
theory Vmm_Props
  imports Vmm_Region
begin

text \<open>Properties of the virtual memory manager.\<close>

definition demo_region :: "u64 \<Rightarrow> u64 \<Rightarrow> vmm_region" where
  "demo_region b sz = \<lparr>r_name = ''r'', r_flags = 0, r_mmu_flags = 0, r_base = b, r_size = sz, page_list = []\<rparr>"

definition demo_aspace :: vmm_aspace where
  "demo_aspace = \<lparr>as_name = ''a'', as_flags = 0, as_base = 0x1000000, as_size = 0x100000,
     region_list = [demo_region 0x1000000 0x3000, demo_region 0x1008000 0x1000]\<rparr>"

lemma demo_aspace_ok: "regions_ok demo_aspace"
  by (simp add: regions_ok_def aspace_wf_def range_inside_def region_before_def demo_aspace_def demo_region_def)

text \<open>
  C25: alloc_region keeps the regions of an address space sorted, disjoint and inside it. It puts the
  new region at the lowest place that was asked for (the given address, or an aligned one), which no
  region meets; it returns the null pointer, with the address space unchanged, only when there is no
  memory for the structure or no such place.
\<close>

theorem alloc_region_correct:
  assumes "regions_ok a" "0 < sz" "IS_ALIGNED sz PAGE_SIZE" "align_pow2 < 64"
  shows "\<exists>ro a'. alloc_region have_mem a name sz vaddr align_pow2 vmm_flags rfl mfl = Some (ro, a') \<and> regions_ok a' \<and>
    (case ro of
       None \<Rightarrow> a' = a \<and> (have_mem \<longrightarrow> (\<forall>q. \<not> region_wanted a sz vaddr align_pow2 vmm_flags q))
     | Some r \<Rightarrow> set (region_list a') = insert r (set (region_list a)) \<and> r_size r = sz \<and>
         region_wanted a sz vaddr align_pow2 vmm_flags (unat (r_base r)) \<and>
         (\<forall>q. region_wanted a sz vaddr align_pow2 vmm_flags q \<longrightarrow> unat (r_base r) \<le> q))"
proof -
  obtain ro a' where e: "alloc_region have_mem a name sz vaddr align_pow2 vmm_flags rfl mfl = Some (ro, a')"
    and c: "case ro of
       None \<Rightarrow> a' = a \<and> (have_mem \<longrightarrow> (\<forall>q. \<not> region_wanted a sz vaddr align_pow2 vmm_flags q))
     | Some r \<Rightarrow> have_mem \<and> inserted a r a' \<and> region_wanted a sz vaddr align_pow2 vmm_flags (rbeg r) \<and>
         (\<forall>q. region_wanted a sz vaddr align_pow2 vmm_flags q \<longrightarrow> rbeg r \<le> q) \<and>
         r_size r = sz \<and> r_flags r = rfl \<and> r_mmu_flags r = mfl \<and> page_list r = []"
    using alloc_region_ok [OF assms] by blast
  show ?thesis
  proof (cases ro)
    case None
    then show ?thesis using e c assms(1) by simp
  next
    case (Some r)
    have "range_inside a (rbeg r) (unat (r_size r))" using c Some by (simp add: region_wanted_def)
    then show ?thesis using e c Some inserted_ok(1,2) [OF assms(1), of r a'] by simp
  qed
qed

theorem alloc_region_correct_witness:
  "\<exists>r a'. alloc_region True demo_aspace ''x'' 0x2000 0 12 0 0 0 = Some (Some r, a') \<and> regions_ok a' \<and> r_base r = 0x1003000"
proof -
  have "alloc_region True demo_aspace ''x'' 0x2000 0 12 0 0 0 = Some (Some (demo_region 0x1003000 0x2000\<lparr>r_name := ''x''\<rparr>),
      demo_aspace\<lparr>region_list := [demo_region 0x1000000 0x3000, demo_region 0x1003000 0x2000\<lparr>r_name := ''x''\<rparr>, demo_region 0x1008000 0x1000]\<rparr>)"
    by (simp add: alloc_region_def alloc_spot_def demo_aspace_def demo_region_def check_gap_def arch_mmu_pick_spot_def ROUNDUP_def
        IS_ALIGNED_def push_bit_eq_mult Let_def)
  then show ?thesis
    using alloc_region_correct [OF demo_aspace_ok, of "0x2000" 12 True "''x''" 0 0 0 0] by (auto simp: IS_ALIGNED_def demo_region_def)
qed

end
