(* ===== verification/Arm64_Mmu.thy ===== *)
theory Arm64_Mmu
  imports Vmm
begin

text \<open>
  The page tables of arm64, \<open>arch/arm64/mmu.c\<close>, for 4 KiB pages and 48-bit address spaces: four
  levels of tables of 512 entries, with blocks of 1 GiB and 2 MiB. TLB maintenance and barriers are
  not part of the state.
\<close>

section \<open>State\<close>

record arch_aspace =
  tt_phys :: u64
  tt_virt :: "u64 option"
  aa_flags :: u32
  aa_base :: u64
  aa_size :: u64

text \<open>\<open>pt_mem\<close> has the entries of the table at a kernel virtual address.\<close>

record arm64_state = vmm_state +
  pt_mem :: "u64 \<Rightarrow> nat \<Rightarrow> u64"
  arch_aspaces :: "nat \<Rightarrow> arch_aspace"
  arm64_kernel_translation_table :: u64
  arm64_mmu_tcr_flags :: u64
  ttbr0_el1 :: u64
  tcr_el1 :: u64

abbreviation (input) MMU_PTE_DESCRIPTOR_MASK :: u64 where "MMU_PTE_DESCRIPTOR_MASK \<equiv> 3"
abbreviation (input) MMU_PTE_DESCRIPTOR_INVALID :: u64 where "MMU_PTE_DESCRIPTOR_INVALID \<equiv> 0"
abbreviation (input) MMU_PTE_L012_DESCRIPTOR_BLOCK :: u64 where "MMU_PTE_L012_DESCRIPTOR_BLOCK \<equiv> 1"
abbreviation (input) MMU_PTE_L012_DESCRIPTOR_TABLE :: u64 where "MMU_PTE_L012_DESCRIPTOR_TABLE \<equiv> 3"
abbreviation (input) MMU_PTE_L3_DESCRIPTOR_PAGE :: u64 where "MMU_PTE_L3_DESCRIPTOR_PAGE \<equiv> 3"
abbreviation (input) MMU_PTE_OUTPUT_ADDR_MASK :: u64 where "MMU_PTE_OUTPUT_ADDR_MASK \<equiv> 0x0000FFFFFFFFF000"
abbreviation (input) MMU_PTE_ATTR_UXN :: u64 where "MMU_PTE_ATTR_UXN \<equiv> 0x0040000000000000"
abbreviation (input) MMU_PTE_ATTR_PXN :: u64 where "MMU_PTE_ATTR_PXN \<equiv> 0x0020000000000000"
abbreviation (input) MMU_PTE_ATTR_AF :: u64 where "MMU_PTE_ATTR_AF \<equiv> 0x400"
abbreviation (input) MMU_PTE_ATTR_SH_INNER_SHAREABLE :: u64 where "MMU_PTE_ATTR_SH_INNER_SHAREABLE \<equiv> 0x300"
abbreviation (input) MMU_PTE_ATTR_AP_P_RW_U_NA :: u64 where "MMU_PTE_ATTR_AP_P_RW_U_NA \<equiv> 0"
abbreviation (input) MMU_PTE_ATTR_AP_P_RW_U_RW :: u64 where "MMU_PTE_ATTR_AP_P_RW_U_RW \<equiv> 0x40"
abbreviation (input) MMU_PTE_ATTR_AP_P_RO_U_NA :: u64 where "MMU_PTE_ATTR_AP_P_RO_U_NA \<equiv> 0x80"
abbreviation (input) MMU_PTE_ATTR_AP_P_RO_U_RO :: u64 where "MMU_PTE_ATTR_AP_P_RO_U_RO \<equiv> 0xC0"
abbreviation (input) MMU_PTE_ATTR_AP_MASK :: u64 where "MMU_PTE_ATTR_AP_MASK \<equiv> 0xC0"
abbreviation (input) MMU_PTE_ATTR_NON_SECURE :: u64 where "MMU_PTE_ATTR_NON_SECURE \<equiv> 0x20"
abbreviation (input) MMU_PTE_ATTR_STRONGLY_ORDERED :: u64 where "MMU_PTE_ATTR_STRONGLY_ORDERED \<equiv> 0"
abbreviation (input) MMU_PTE_ATTR_DEVICE :: u64 where "MMU_PTE_ATTR_DEVICE \<equiv> 4"
abbreviation (input) MMU_PTE_ATTR_NORMAL_MEMORY :: u64 where "MMU_PTE_ATTR_NORMAL_MEMORY \<equiv> 8"
abbreviation (input) MMU_PTE_ATTR_ATTR_INDEX_MASK :: u64 where "MMU_PTE_ATTR_ATTR_INDEX_MASK \<equiv> 0x1C"
abbreviation (input) ARCH_MMU_FLAG_CACHED :: u32 where "ARCH_MMU_FLAG_CACHED \<equiv> 0"
abbreviation (input) ARCH_MMU_FLAG_UNCACHED :: u32 where "ARCH_MMU_FLAG_UNCACHED \<equiv> 1"
abbreviation (input) ARCH_MMU_FLAG_UNCACHED_DEVICE :: u32 where "ARCH_MMU_FLAG_UNCACHED_DEVICE \<equiv> 2"
abbreviation (input) ARCH_MMU_FLAG_CACHE_MASK :: u32 where "ARCH_MMU_FLAG_CACHE_MASK \<equiv> 3"
abbreviation (input) ARCH_MMU_FLAG_PERM_USER :: u32 where "ARCH_MMU_FLAG_PERM_USER \<equiv> 4"
abbreviation (input) ARCH_MMU_FLAG_PERM_RO :: u32 where "ARCH_MMU_FLAG_PERM_RO \<equiv> 8"
abbreviation (input) ARCH_MMU_FLAG_PERM_NO_EXECUTE :: u32 where "ARCH_MMU_FLAG_PERM_NO_EXECUTE \<equiv> 16"
abbreviation (input) ARCH_MMU_FLAG_NS :: u32 where "ARCH_MMU_FLAG_NS \<equiv> 32"
abbreviation (input) MMU_PTE_DESCRIPTOR_BLOCK_MAX_SHIFT :: nat where "MMU_PTE_DESCRIPTOR_BLOCK_MAX_SHIFT \<equiv> 30"
abbreviation (input) TOP_SHIFT :: nat where "TOP_SHIFT \<equiv> 39"
abbreviation (input) SIZE_SHIFT :: nat where "SIZE_SHIFT \<equiv> 48"
abbreviation (input) KERNEL_BASE_ADDRESS :: u64 where "KERNEL_BASE_ADDRESS \<equiv> 0xFFFF000000000000"
abbreviation (input) PT_ENTRIES :: nat where "PT_ENTRIES \<equiv> 512"

section \<open>Attributes\<close>

text \<open>
  For the fourth value of the cache field the assertion in the source is \<open>DEBUG_ASSERT(1)\<close>, and the
  error code is returned as the attributes.
\<close>

definition mmu_flags_to_pte_attr :: "u32 \<Rightarrow> u64" where
  "mmu_flags_to_pte_attr flags =
     (let c = flags AND ARCH_MMU_FLAG_CACHE_MASK; p = flags AND (ARCH_MMU_FLAG_PERM_USER OR ARCH_MMU_FLAG_PERM_RO);
          memory = (if c = ARCH_MMU_FLAG_CACHED then MMU_PTE_ATTR_NORMAL_MEMORY OR MMU_PTE_ATTR_SH_INNER_SHAREABLE
                    else if c = ARCH_MMU_FLAG_UNCACHED then MMU_PTE_ATTR_STRONGLY_ORDERED else MMU_PTE_ATTR_DEVICE);
          access = (if p = 0 then MMU_PTE_ATTR_AP_P_RW_U_NA else if p = ARCH_MMU_FLAG_PERM_RO then MMU_PTE_ATTR_AP_P_RO_U_NA
                    else if p = ARCH_MMU_FLAG_PERM_USER then MMU_PTE_ATTR_AP_P_RW_U_RW else MMU_PTE_ATTR_AP_P_RO_U_RO);
          exec = (if flags AND ARCH_MMU_FLAG_PERM_NO_EXECUTE \<noteq> 0 then MMU_PTE_ATTR_UXN OR MMU_PTE_ATTR_PXN
                  else if flags AND ARCH_MMU_FLAG_PERM_USER \<noteq> 0 then MMU_PTE_ATTR_PXN else MMU_PTE_ATTR_UXN);
          ns = (if flags AND ARCH_MMU_FLAG_NS \<noteq> 0 then MMU_PTE_ATTR_NON_SECURE else 0)
      in if c \<noteq> ARCH_MMU_FLAG_CACHED \<and> c \<noteq> ARCH_MMU_FLAG_UNCACHED \<and> c \<noteq> ARCH_MMU_FLAG_UNCACHED_DEVICE
         then word_of_int ERR_INVALID_ARGS
         else MMU_PTE_ATTR_AF OR memory OR access OR exec OR ns)"

text \<open>The flags that \<open>arch_mmu_query\<close> reports for an entry; an unknown memory type panics.\<close>

definition pte_to_mmu_flags :: "u64 \<Rightarrow> u32 option" where
  "pte_to_mmu_flags pte =
     (let ns = (if pte AND MMU_PTE_ATTR_NON_SECURE \<noteq> 0 then ARCH_MMU_FLAG_NS else 0);
          t = pte AND MMU_PTE_ATTR_ATTR_INDEX_MASK; ap = pte AND MMU_PTE_ATTR_AP_MASK;
          access = (if ap = MMU_PTE_ATTR_AP_P_RW_U_NA then 0 else if ap = MMU_PTE_ATTR_AP_P_RW_U_RW then ARCH_MMU_FLAG_PERM_USER
                    else if ap = MMU_PTE_ATTR_AP_P_RO_U_NA then ARCH_MMU_FLAG_PERM_RO
                    else ARCH_MMU_FLAG_PERM_USER OR ARCH_MMU_FLAG_PERM_RO);
          xn = (if access AND ARCH_MMU_FLAG_PERM_USER \<noteq> 0 then pte AND MMU_PTE_ATTR_UXN else pte AND MMU_PTE_ATTR_PXN);
          exec = (if xn \<noteq> 0 then ARCH_MMU_FLAG_PERM_NO_EXECUTE else 0)
      in if t = MMU_PTE_ATTR_STRONGLY_ORDERED then Some (ns OR ARCH_MMU_FLAG_UNCACHED OR access OR exec)
         else if t = MMU_PTE_ATTR_DEVICE then Some (ns OR ARCH_MMU_FLAG_UNCACHED_DEVICE OR access OR exec)
         else if t = MMU_PTE_ATTR_NORMAL_MEMORY then Some (ns OR access OR exec)
         else None)"

section \<open>Looking an address up\<close>

definition is_valid_vaddr :: "arch_aspace \<Rightarrow> u64 \<Rightarrow> bool" where
  "is_valid_vaddr a vaddr \<longleftrightarrow> vaddr \<ge> aa_base a \<and> vaddr \<le> aa_base a + aa_size a - 1"

definition is_kernel :: "arch_aspace \<Rightarrow> bool" where
  "is_kernel a \<longleftrightarrow> aa_flags a AND ARCH_ASPACE_FLAG_KERNEL \<noteq> 0"

text \<open>
  The walk of \<open>arch_mmu_query\<close>: the entry and what is left of the address, or \<open>Inl\<close> for
  \<open>ERR_NOT_FOUND\<close>. An entry that cannot be followed panics.
\<close>

function query_walk :: "nat \<Rightarrow> u64 \<Rightarrow> u64 \<Rightarrow> 'a arm64_state_scheme \<Rightarrow> (status + u64 \<times> u64) option" where
  "query_walk index_shift page_table vaddr_rem s =
     (let index = drop_bit index_shift vaddr_rem; rem' = vaddr_rem - push_bit index_shift index;
          pte = pt_mem s page_table (unat index); ty = pte AND MMU_PTE_DESCRIPTOR_MASK
      in if \<not> unat index < PT_ENTRIES then None
         else if ty = MMU_PTE_DESCRIPTOR_INVALID then Some (Inl ERR_NOT_FOUND)
         else if ty = (if index_shift > PAGE_SIZE_SHIFT then MMU_PTE_L012_DESCRIPTOR_BLOCK else MMU_PTE_L3_DESCRIPTOR_PAGE)
         then Some (Inr (pte, rem'))
         else if index_shift \<le> PAGE_SIZE_SHIFT \<or> ty \<noteq> MMU_PTE_L012_DESCRIPTOR_TABLE then None
         else case paddr_to_kvaddr (pte AND MMU_PTE_OUTPUT_ADDR_MASK) s of
                None \<Rightarrow> None
              | Some next_table \<Rightarrow> query_walk (index_shift - (PAGE_SIZE_SHIFT - 3)) next_table rem' s)"
  by pat_completeness auto
termination
  by (relation "measure (\<lambda>(n, _). n)") auto

declare query_walk.simps [simp del]

text \<open>The address relative to where the tables of the address space start.\<close>

definition vaddr_rel_of :: "arch_aspace \<Rightarrow> u64 \<Rightarrow> u64" where
  "vaddr_rel_of a vaddr = (if is_kernel a then vaddr - KERNEL_BASE_ADDRESS else vaddr)"

definition arm64_mmu_query :: "nat \<Rightarrow> u64 \<Rightarrow> bool \<Rightarrow> 'a arm64_state_scheme \<Rightarrow> (status + u64 \<times> u32) option" where
  "arm64_mmu_query i vaddr want_flags s = do {
     let a = arch_aspaces s i;
     page_table \<leftarrow> tt_virt a;
     guard_that (is_valid_vaddr a vaddr);
     r \<leftarrow> query_walk TOP_SHIFT page_table (vaddr_rel_of a vaddr) s;
     case r of
       Inl e \<Rightarrow> Some (Inl e)
     | Inr (pte, rem') \<Rightarrow> do {
         fl \<leftarrow> (if want_flags then pte_to_mmu_flags pte else Some 0);
         Some (Inr ((pte AND MMU_PTE_OUTPUT_ADDR_MASK) + rem', fl)) } }"

section \<open>Tables\<close>

definition set_pte :: "u64 \<Rightarrow> nat \<Rightarrow> u64 \<Rightarrow> 'a arm64_state_scheme \<Rightarrow> 'a arm64_state_scheme" where
  "set_pte tbl i e s = s\<lparr>pt_mem := (pt_mem s)(tbl := (pt_mem s tbl)(i := e))\<rparr>"

text \<open>A table has the size of a page here, so it is taken from the page allocator; \<open>None\<close> is \<open>ERR_NO_MEMORY\<close>.\<close>

definition alloc_page_table :: "'a arm64_state_scheme \<Rightarrow> (u64 option \<times> 'a arm64_state_scheme) option" where
  "alloc_page_table s = do {
     (p, s') \<leftarrow> pmm_alloc_page s;
     Some (map_option (\<lambda>p. vm_page_to_paddr p s') p, s') }"

definition free_page_table :: "u64 \<Rightarrow> 'a arm64_state_scheme \<Rightarrow> 'a arm64_state_scheme option" where
  "free_page_table paddr s = do {
     page \<leftarrow> paddr_to_vm_page paddr s;
     (_, s') \<leftarrow> pmm_free_page page s;
     Some s' }"

text \<open>The result \<open>None\<close> for the table is the null pointer; clearing a table with no kernel address faults.\<close>

definition arm64_mmu_get_page_table :: "u64 \<Rightarrow> u64 \<Rightarrow> 'a arm64_state_scheme \<Rightarrow> (u64 option \<times> 'a arm64_state_scheme) option" where
  "arm64_mmu_get_page_table index page_table s = do {
     guard_that (unat index < PT_ENTRIES);
     let pte = pt_mem s page_table (unat index);
     let ty = pte AND MMU_PTE_DESCRIPTOR_MASK;
     if ty = MMU_PTE_DESCRIPTOR_INVALID
     then do {
       (pa, s1) \<leftarrow> alloc_page_table s;
       case pa of
         None \<Rightarrow> Some (None, s1)
       | Some paddr \<Rightarrow> do {
           vaddr \<leftarrow> paddr_to_kvaddr paddr s1;
           let s2 = s1\<lparr>pt_mem := (pt_mem s1)(vaddr := (\<lambda>_. MMU_PTE_DESCRIPTOR_INVALID))\<rparr>;
           Some (Some vaddr, set_pte page_table (unat index) (paddr OR MMU_PTE_L012_DESCRIPTOR_TABLE) s2) } }
     else if ty = MMU_PTE_L012_DESCRIPTOR_TABLE
     then Some (paddr_to_kvaddr (pte AND MMU_PTE_OUTPUT_ADDR_MASK) s, s)
     else if ty = MMU_PTE_L012_DESCRIPTOR_BLOCK then Some (None, s)
     else None }"

definition page_table_is_clear :: "u64 \<Rightarrow> 'a arm64_state_scheme \<Rightarrow> bool" where
  "page_table_is_clear page_table s = list_all (\<lambda>i. pt_mem s page_table i = MMU_PTE_DESCRIPTOR_INVALID) [0..<PT_ENTRIES]"

section \<open>Unmapping and mapping\<close>

text \<open>The part of the range that lies in one entry of the table.\<close>

definition chunk_size :: "u64 \<Rightarrow> u64 \<Rightarrow> nat \<Rightarrow> u64" where
  "chunk_size vaddr_rel sz index_shift = min sz (push_bit index_shift 1 - (vaddr_rel AND (push_bit index_shift 1 - 1)))"

partial_function (option) arm64_mmu_unmap_pt :: "u64 \<Rightarrow> u64 \<Rightarrow> nat \<Rightarrow> u64 \<Rightarrow> 'a arm64_state_scheme \<Rightarrow> 'a arm64_state_scheme option" where
  "arm64_mmu_unmap_pt vaddr_rel sz index_shift page_table s =
     (if sz = 0 then Some s
      else
        let block_size = push_bit index_shift 1; vaddr_rem = vaddr_rel AND (block_size - 1);
            chunk = chunk_size vaddr_rel sz index_shift; index = unat (drop_bit index_shift vaddr_rel);
            pte = pt_mem s page_table index in
        guard_that (index < PT_ENTRIES) \<bind> (\<lambda>_.
        (if index_shift > PAGE_SIZE_SHIFT \<and> pte AND MMU_PTE_DESCRIPTOR_MASK = MMU_PTE_L012_DESCRIPTOR_TABLE
         then paddr_to_kvaddr (pte AND MMU_PTE_OUTPUT_ADDR_MASK) s \<bind> (\<lambda>next_table.
              arm64_mmu_unmap_pt vaddr_rem chunk (index_shift - (PAGE_SIZE_SHIFT - 3)) next_table s \<bind> (\<lambda>s1.
              if chunk = block_size \<or> page_table_is_clear next_table s1
              then free_page_table (pte AND MMU_PTE_OUTPUT_ADDR_MASK) (set_pte page_table index MMU_PTE_DESCRIPTOR_INVALID s1)
              else Some s1))
         else Some (if pte \<noteq> 0 then set_pte page_table index MMU_PTE_DESCRIPTOR_INVALID s else s)) \<bind> (\<lambda>s2.
        arm64_mmu_unmap_pt (vaddr_rel + chunk) (sz - chunk) index_shift page_table s2)))"

definition not_page_aligned :: "u64 \<Rightarrow> u64 \<Rightarrow> u64 \<Rightarrow> bool" where
  "not_page_aligned vaddr_rel paddr sz \<longleftrightarrow> (vaddr_rel OR paddr OR sz) AND (push_bit PAGE_SIZE_SHIFT 1 - 1) \<noteq> 0"

text \<open>
  The loop of \<open>arm64_mmu_map_pt\<close>, with the arguments \<open>vaddr_rel_in\<close> and \<open>size_in\<close> that the error path
  needs: an entry that could not be set ends the loop there. The recursive call starts with the
  alignment check of that function.
\<close>

partial_function (option) map_pt_loop :: "u64 \<Rightarrow> u64 \<Rightarrow> u64 \<Rightarrow> u64 \<Rightarrow> u64 \<Rightarrow> u64 \<Rightarrow> nat \<Rightarrow> u64 \<Rightarrow> 'a arm64_state_scheme \<Rightarrow>
    (status \<times> 'a arm64_state_scheme) option" where
  "map_pt_loop vaddr_rel_in size_in vaddr_rel paddr sz attrs index_shift page_table s =
     (if sz = 0 then Some (0, s)
      else
        let block_size = push_bit index_shift 1; vaddr_rem = vaddr_rel AND (block_size - 1);
            chunk = chunk_size vaddr_rel sz index_shift; index = drop_bit index_shift vaddr_rel in
        (if (vaddr_rel OR paddr) AND (block_size - 1) \<noteq> 0 \<or> chunk \<noteq> block_size \<or> index_shift > MMU_PTE_DESCRIPTOR_BLOCK_MAX_SHIFT
         then arm64_mmu_get_page_table index page_table s \<bind> (\<lambda>(next_table, s1).
              case next_table of
                None \<Rightarrow> Some (False, s1)
              | Some next_table \<Rightarrow>
                  (if not_page_aligned vaddr_rem paddr chunk then Some (ERR_INVALID_ARGS, s1)
                   else map_pt_loop vaddr_rem chunk vaddr_rem paddr chunk attrs (index_shift - (PAGE_SIZE_SHIFT - 3)) next_table s1) \<bind>
                  (\<lambda>(ret, s2). Some (ret = 0, s2)))
         else guard_that (unat index < PT_ENTRIES) \<bind> (\<lambda>_.
              Some (if pt_mem s page_table (unat index) \<noteq> 0 then (False, s)
                    else (True, set_pte page_table (unat index) (paddr OR attrs OR
                      (if index_shift > PAGE_SIZE_SHIFT then MMU_PTE_L012_DESCRIPTOR_BLOCK else MMU_PTE_L3_DESCRIPTOR_PAGE)) s)))) \<bind>
        (\<lambda>(ok, s3). if ok
         then map_pt_loop vaddr_rel_in size_in (vaddr_rel + chunk) (paddr + chunk) (sz - chunk) attrs index_shift page_table s3
         else arm64_mmu_unmap_pt vaddr_rel_in (size_in - sz) index_shift page_table s3 \<bind> (\<lambda>s4. Some (ERR_GENERIC, s4))))"

definition arm64_mmu_map_pt :: "u64 \<Rightarrow> u64 \<Rightarrow> u64 \<Rightarrow> u64 \<Rightarrow> nat \<Rightarrow> u64 \<Rightarrow> 'a arm64_state_scheme \<Rightarrow> (status \<times> 'a arm64_state_scheme) option" where
  "arm64_mmu_map_pt vaddr_rel paddr sz attrs index_shift page_table s =
     (if not_page_aligned vaddr_rel paddr sz then Some (ERR_INVALID_ARGS, s)
      else map_pt_loop vaddr_rel sz vaddr_rel paddr sz attrs index_shift page_table s)"

definition range_bad :: "u64 \<Rightarrow> u64 \<Rightarrow> bool" where
  "range_bad vaddr_rel sz \<longleftrightarrow> (let vaddr_rel_max = push_bit SIZE_SHIFT 1 in vaddr_rel > vaddr_rel_max - sz \<or> sz > vaddr_rel_max)"

definition arm64_mmu_map :: "u64 \<Rightarrow> u64 \<Rightarrow> u64 \<Rightarrow> u64 \<Rightarrow> u64 option \<Rightarrow> 'a arm64_state_scheme \<Rightarrow> (status \<times> 'a arm64_state_scheme) option" where
  "arm64_mmu_map vaddr_rel paddr sz attrs top_page_table s =
     (if range_bad vaddr_rel sz then Some (ERR_INVALID_ARGS, s)
      else case top_page_table of
        None \<Rightarrow> Some (ERR_INVALID_ARGS, s)
      | Some tbl \<Rightarrow> arm64_mmu_map_pt vaddr_rel paddr sz attrs TOP_SHIFT tbl s)"

definition arm64_mmu_unmap :: "u64 \<Rightarrow> u64 \<Rightarrow> u64 option \<Rightarrow> 'a arm64_state_scheme \<Rightarrow> (status \<times> 'a arm64_state_scheme) option" where
  "arm64_mmu_unmap vaddr_rel sz top_page_table s =
     (if range_bad vaddr_rel sz then Some (ERR_INVALID_ARGS, s)
      else case top_page_table of
        None \<Rightarrow> Some (ERR_INVALID_ARGS, s)
      | Some tbl \<Rightarrow> arm64_mmu_unmap_pt vaddr_rel sz TOP_SHIFT tbl s \<bind> (\<lambda>s'. Some (0, s')))"

definition arm64_arch_mmu_map :: "nat \<Rightarrow> u64 \<Rightarrow> u64 \<Rightarrow> u32 \<Rightarrow> u32 \<Rightarrow> 'a arm64_state_scheme \<Rightarrow> (status \<times> 'a arm64_state_scheme) option" where
  "arm64_arch_mmu_map i vaddr paddr count flags s = do {
     let a = arch_aspaces s i;
     guard_that (tt_virt a \<noteq> None);
     guard_that (is_valid_vaddr a vaddr);
     guard_that (IS_ALIGNED vaddr PAGE_SIZE);
     guard_that (IS_ALIGNED paddr PAGE_SIZE);
     if count = 0 then Some (NO_ERROR, s)
     else arm64_mmu_map (vaddr_rel_of a vaddr) paddr (ucast count * PAGE_SIZE) (mmu_flags_to_pte_attr flags) (tt_virt a) s }"

definition arm64_arch_mmu_unmap :: "nat \<Rightarrow> u64 \<Rightarrow> u32 \<Rightarrow> 'a arm64_state_scheme \<Rightarrow> (status \<times> 'a arm64_state_scheme) option" where
  "arm64_arch_mmu_unmap i vaddr count s = do {
     let a = arch_aspaces s i;
     guard_that (tt_virt a \<noteq> None);
     guard_that (is_valid_vaddr a vaddr);
     guard_that (IS_ALIGNED vaddr PAGE_SIZE);
     arm64_mmu_unmap (vaddr_rel_of a vaddr) (ucast count * PAGE_SIZE) (tt_virt a) s }"

section \<open>Address spaces\<close>

abbreviation (input) MMU_TCR_FLAGS_KERNEL :: u64 where "MMU_TCR_FLAGS_KERNEL \<equiv> 0x80"
abbreviation (input) MMU_TCR_FLAGS_USER :: u64 where "MMU_TCR_FLAGS_USER \<equiv> 0"
abbreviation (input) MMU_ARM64_USER_ASID :: u64 where "MMU_ARM64_USER_ASID \<equiv> 0"

definition upd_arch_aspace :: "nat \<Rightarrow> arch_aspace \<Rightarrow> 'a arm64_state_scheme \<Rightarrow> 'a arm64_state_scheme" where
  "upd_arch_aspace i a s = s\<lparr>arch_aspaces := (arch_aspaces s)(i := a)\<rparr>"

definition arm64_destroy_aspace :: "nat \<Rightarrow> 'a arm64_state_scheme \<Rightarrow> (status \<times> 'a arm64_state_scheme) option" where
  "arm64_destroy_aspace i s = do {
     guard_that (\<not> is_kernel (arch_aspaces s i));
     page \<leftarrow> paddr_to_vm_page (tt_phys (arch_aspaces s i)) s;
     (_, s') \<leftarrow> pmm_free_page page s;
     Some (NO_ERROR, s') }"

definition arm64_context_switch :: "nat option \<Rightarrow> 'a arm64_state_scheme \<Rightarrow> 'a arm64_state_scheme option" where
  "arm64_context_switch aspace s =
     (case aspace of
        Some i \<Rightarrow> do {
          guard_that (\<not> is_kernel (arch_aspaces s i));
          Some (s\<lparr>ttbr0_el1 := push_bit 48 MMU_ARM64_USER_ASID OR tt_phys (arch_aspaces s i),
                  tcr_el1 := arm64_mmu_tcr_flags s OR MMU_TCR_FLAGS_USER\<rparr>) }
      | None \<Rightarrow> Some (s\<lparr>tcr_el1 := arm64_mmu_tcr_flags s OR MMU_TCR_FLAGS_KERNEL\<rparr>))"

text \<open>
  The functions that only need the tables. Initialising an address space translates the address of
  its table, which uses the query of these.
\<close>

definition arm64_base_ops :: "'a arm64_state_scheme arch_mmu" where
  "arm64_base_ops = \<lparr>
     KERNEL_ASPACE_BASE = 0xFFFF000000000000, KERNEL_ASPACE_SIZE = 0x0001000000000000,
     USER_ASPACE_BASE = 0x0000000001000000, USER_ASPACE_SIZE = 0x0000FFFFFE000000,
     arch_mmu_init_aspace = (\<lambda>_ _ _ _ _. None), arch_mmu_destroy_aspace = arm64_destroy_aspace,
     arch_mmu_map = arm64_arch_mmu_map, arch_mmu_unmap = arm64_arch_mmu_unmap, arch_mmu_query = arm64_mmu_query,
     arch_mmu_context_switch = arm64_context_switch\<rparr>"

definition arm64_init_aspace :: "nat \<Rightarrow> u64 \<Rightarrow> u64 \<Rightarrow> u32 \<Rightarrow> 'a arm64_state_scheme \<Rightarrow> (status \<times> 'a arm64_state_scheme) option" where
  "arm64_init_aspace i base sz flags s = do {
     guard_that (sz > PAGE_SIZE);
     guard_that (base + sz - 1 > base);
     let a = (arch_aspaces s i)\<lparr>aa_flags := flags\<rparr>;
     if flags AND ARCH_ASPACE_FLAG_KERNEL \<noteq> 0
     then do {
       guard_that (base = KERNEL_BASE_ADDRESS);
       guard_that (sz = push_bit SIZE_SHIFT 1);
       let va = arm64_kernel_translation_table s;
       let s1 = upd_arch_aspace i (a\<lparr>aa_base := base, aa_size := sz, tt_virt := Some va\<rparr>) s;
       pa \<leftarrow> vaddr_to_paddr arm64_base_ops va s1;
       Some (NO_ERROR, upd_arch_aspace i (arch_aspaces s1 i\<lparr>tt_phys := pa\<rparr>) s1) }
     else do {
       guard_that (base + sz \<le> push_bit SIZE_SHIFT 1);
       let s1 = upd_arch_aspace i (a\<lparr>aa_base := base, aa_size := sz\<rparr>) s;
       (va, _, s2) \<leftarrow> pmm_alloc_kpages 1 None s1;
       case va of
         None \<Rightarrow> Some (ERR_NO_MEMORY, s2)
       | Some va \<Rightarrow> do {
           let s3 = upd_arch_aspace i (arch_aspaces s2 i\<lparr>tt_virt := Some va\<rparr>) s2;
           pa \<leftarrow> vaddr_to_paddr arm64_base_ops va s3;
           let s4 = upd_arch_aspace i (arch_aspaces s3 i\<lparr>tt_phys := pa\<rparr>) s3;
           Some (NO_ERROR, s4\<lparr>pt_mem := (pt_mem s4)(va := (\<lambda>_. 0))\<rparr>) } } }"

definition arm64_ops :: "'a arm64_state_scheme arch_mmu" where
  "arm64_ops = arm64_base_ops\<lparr>arch_mmu_init_aspace := arm64_init_aspace\<rparr>"

end
