(* ===== verification/Arm64_Pt.thy ===== *)
theory Arm64_Pt
  imports Arm64_Mmu Pmm_Inv "HOL-Library.Disjoint_Sets"
begin

text \<open>
  The shape of the page tables: the tables that an entry leads to, when they form a tree whose pages
  are in use, and what leaves a tree as it is.
\<close>

section \<open>Pages and their addresses\<close>

definition all_pages :: "'a pmm_state_scheme \<Rightarrow> vm_page set" where
  "all_pages s = {p. fst p \<in> set (arena_list s) \<and> snd p < arena_pages (arenas s (fst p))}"

lemma all_pages_split: "all_pages s = free_pages s \<union> used_pages s" "free_pages s \<inter> used_pages s = {}"
  by (auto simp: all_pages_def free_pages_def used_pages_def)

lemma used_all: "p \<in> used_pages s \<Longrightarrow> p \<in> all_pages s" "p \<in> free_pages s \<Longrightarrow> p \<in> all_pages s"
  by (simp_all add: all_pages_split)

definition same_geom :: "'a arm64_state_scheme \<Rightarrow> 'a arm64_state_scheme \<Rightarrow> bool" where
  "same_geom s s' \<longleftrightarrow> same_arenas s s' \<and> mmu_initial_mappings s' = mmu_initial_mappings s"

text \<open>The kernel virtual address of a page, and the page that an entry points to.\<close>

definition kva :: "'a arm64_state_scheme \<Rightarrow> vm_page \<Rightarrow> u64" where
  "kva s p = the (paddr_to_kvaddr (vm_page_to_paddr p s) s)"

definition pg :: "'a arm64_state_scheme \<Rightarrow> u64 \<Rightarrow> vm_page" where
  "pg s e = the (paddr_to_vm_page (e AND MMU_PTE_OUTPUT_ADDR_MASK) s)"

definition page_geom :: "'a arm64_state_scheme \<Rightarrow> vm_page \<Rightarrow> bool" where
  "page_geom s p \<longleftrightarrow> vm_page_to_paddr p s AND MMU_PTE_OUTPUT_ADDR_MASK = vm_page_to_paddr p s \<and>
     paddr_to_vm_page (vm_page_to_paddr p s) s = Some p \<and> paddr_to_kvaddr (vm_page_to_paddr p s) s = Some (kva s p)"

definition geom_ok :: "'a arm64_state_scheme \<Rightarrow> bool" where
  "geom_ok s \<longleftrightarrow> (\<forall>p \<in> all_pages s. page_geom s p) \<and> inj_on (kva s) (all_pages s)"

lemma find_cong_list: "(\<And>x. x \<in> set xs \<Longrightarrow> P x = Q x) \<Longrightarrow> List.find P xs = List.find Q xs"
  by (induction xs) auto

lemma same_geomD:
  assumes "same_geom s s'"
  shows "vm_page_to_paddr p s' = vm_page_to_paddr p s" "paddr_to_vm_page x s' = paddr_to_vm_page x s"
    "paddr_to_kvaddr x s' = paddr_to_kvaddr x s" "all_pages s' = all_pages s"
proof -
  have a: "same_arenas s s'" and m: "mmu_initial_mappings s' = mmu_initial_mappings s" using assms by (simp_all add: same_geom_def)
  note d = same_arenasD [OF a]
  show "vm_page_to_paddr p s' = vm_page_to_paddr p s"
    by (simp add: vm_page_to_paddr_def PAGE_BELONGS_TO_ARENA_def PAGE_ADDRESS_FROM_ARENA_def d split: option.splits)
  show "paddr_to_vm_page x s' = paddr_to_vm_page x s" by (simp add: paddr_to_vm_page_def d split: option.splits)
  show "paddr_to_kvaddr x s' = paddr_to_kvaddr x s" by (simp add: paddr_to_kvaddr_def live_mappings_def m)
  show "all_pages s' = all_pages s" by (simp add: all_pages_def d)
qed

lemma same_geom_kva:
  assumes "same_geom s s'"
  shows "kva s' = kva s" "pg s' = pg s" "geom_ok s' = geom_ok s" "page_geom s' = page_geom s"
proof -
  note d = same_geomD [OF assms]
  show k: "kva s' = kva s" by (simp add: kva_def d fun_eq_iff)
  show "pg s' = pg s" by (simp add: pg_def d fun_eq_iff)
  show p: "page_geom s' = page_geom s" by (simp add: page_geom_def d k fun_eq_iff)
  show "geom_ok s' = geom_ok s" by (simp add: geom_ok_def d k p)
qed

lemma same_geom_trans: "same_geom s s1 \<Longrightarrow> same_geom s1 s2 \<Longrightarrow> same_geom s s2"
  using same_arenas_trans by (auto simp: same_geom_def)

lemma same_geom_refl [simp]: "same_geom s s"
  by (simp add: same_geom_def same_arenas_def)

lemma geomD:
  assumes "geom_ok s" "p \<in> all_pages s"
  shows "vm_page_to_paddr p s AND MMU_PTE_OUTPUT_ADDR_MASK = vm_page_to_paddr p s"
    "paddr_to_vm_page (vm_page_to_paddr p s) s = Some p" "paddr_to_kvaddr (vm_page_to_paddr p s) s = Some (kva s p)"
  using assms by (auto simp: geom_ok_def page_geom_def)

text \<open>The entry for a table.\<close>

definition table_pte :: "'a arm64_state_scheme \<Rightarrow> vm_page \<Rightarrow> u64" where
  "table_pte s p = vm_page_to_paddr p s OR MMU_PTE_L012_DESCRIPTOR_TABLE"

lemma and_mask_or_3: "(a :: u64) AND 0x0000FFFFFFFFF000 = a \<Longrightarrow> (a OR 3) AND 0x0000FFFFFFFFF000 = a" "(a OR 3) AND 3 = (3 :: u64)"
proof -
  assume a: "a AND 0x0000FFFFFFFFF000 = a"
  have "(a OR 3) AND 0x0000FFFFFFFFF000 = (a AND 0x0000FFFFFFFFF000) OR (3 AND 0x0000FFFFFFFFF000)" by (rule bit.conj_disj_distrib2)
  then show "(a OR 3) AND 0x0000FFFFFFFFF000 = a" using a by simp
next
  have "(a OR 3) AND 3 = (a AND 3) OR (3 AND 3)" by (rule bit.conj_disj_distrib2)
  then show "(a OR 3) AND 3 = 3" by (simp add: or.commute)
qed

lemma table_pte_props:
  assumes "geom_ok s" "p \<in> all_pages s"
  shows "table_pte s p AND MMU_PTE_DESCRIPTOR_MASK = MMU_PTE_L012_DESCRIPTOR_TABLE"
    "table_pte s p AND MMU_PTE_OUTPUT_ADDR_MASK = vm_page_to_paddr p s" "pg s (table_pte s p) = p" "table_pte s p \<noteq> 0"
proof -
  show "table_pte s p AND MMU_PTE_DESCRIPTOR_MASK = MMU_PTE_L012_DESCRIPTOR_TABLE" by (simp add: table_pte_def and_mask_or_3)
  then show "table_pte s p \<noteq> 0" by auto
  show m: "table_pte s p AND MMU_PTE_OUTPUT_ADDR_MASK = vm_page_to_paddr p s"
    unfolding table_pte_def by (rule and_mask_or_3(1)) (rule geomD(1) [OF assms])
  show "pg s (table_pte s p) = p" unfolding pg_def m using geomD(2) [OF assms] by simp
qed

section \<open>Trees of tables\<close>

text \<open>The pages of the tables that an entry of level \<open>l\<close> leads to; a page entry has level 0.\<close>

fun subs :: "nat \<Rightarrow> u64 \<Rightarrow> 'a arm64_state_scheme \<Rightarrow> vm_page set" where
  "subs 0 e s = {}"
| "subs (Suc l) e s = (if e AND 3 = 3 then insert (pg s e) (\<Union>i < 512. subs l (pt_mem s (kva s (pg s e)) i) s) else {})"

definition tset :: "nat \<Rightarrow> u64 \<Rightarrow> 'a arm64_state_scheme \<Rightarrow> vm_page set" where
  "tset l tbl s = (\<Union>i < 512. subs l (pt_mem s tbl i) s)"

text \<open>An entry is empty, a page or block, or leads to a table that is a tree.\<close>

fun ent_ok :: "nat \<Rightarrow> u64 \<Rightarrow> 'a arm64_state_scheme \<Rightarrow> bool" where
  "ent_ok 0 e s \<longleftrightarrow> e = 0 \<or> e AND 3 = 3"
| "ent_ok (Suc l) e s \<longleftrightarrow> e = 0 \<or> e AND 3 = 1 \<or>
     (\<exists>p \<in> used_pages s. e = table_pte s p \<and> (\<forall>i < 512. ent_ok l (pt_mem s (kva s p) i) s) \<and>
        disjoint_family_on (\<lambda>i. subs l (pt_mem s (kva s p) i) s) {..<512} \<and> p \<notin> tset l (kva s p) s)"

definition wf_pt :: "nat \<Rightarrow> u64 \<Rightarrow> 'a arm64_state_scheme \<Rightarrow> bool" where
  "wf_pt l tbl s \<longleftrightarrow> (\<forall>i < 512. ent_ok l (pt_mem s tbl i) s) \<and>
     disjoint_family_on (\<lambda>i. subs l (pt_mem s tbl i) s) {..<512} \<and> tbl \<notin> kva s ` tset l tbl s"

lemma subs_Suc_table:
  assumes "geom_ok s" "p \<in> all_pages s"
  shows "subs (Suc l) (table_pte s p) s = insert p (tset l (kva s p) s)"
  using table_pte_props [OF assms] by (simp add: tset_def)

lemma subs_used: "geom_ok s \<Longrightarrow> ent_ok l e s \<Longrightarrow> subs l e s \<subseteq> used_pages s"
proof (induction l arbitrary: e)
  case (Suc l)
  show ?case
  proof (cases "e AND 3 = 3")
    case True
    then obtain p where p: "p \<in> used_pages s" "e = table_pte s p" "\<forall>i < 512. ent_ok l (pt_mem s (kva s p) i) s"
      using Suc.prems(2) by auto
    have "p \<in> all_pages s" using p(1) all_pages_split by blast
    then show ?thesis using subs_Suc_table [OF Suc.prems(1), of p l] p Suc.IH [OF Suc.prems(1)] by (auto simp: tset_def)
  next
    case False
    then show ?thesis by simp
  qed
qed simp

lemma tset_used: "geom_ok s \<Longrightarrow> wf_pt l tbl s \<Longrightarrow> tset l tbl s \<subseteq> used_pages s"
  using subs_used by (fastforce simp: tset_def wf_pt_def)

lemma ent_ok_table:
  assumes "geom_ok s" "p \<in> all_pages s"
  shows "ent_ok (Suc l) (table_pte s p) s \<longleftrightarrow> p \<in> used_pages s \<and> wf_pt l (kva s p) s"
proof -
  have inj: "q = p" if "q \<in> used_pages s" "table_pte s p = table_pte s q" for q
    using table_pte_props(3) [OF assms] table_pte_props(3) [OF assms(1) used_all(1) [OF that(1)]] unfolding that(2) by (rule box_equals [OF refl, rotated])
  have k: "p \<notin> tset l (kva s p) s \<longleftrightarrow> kva s p \<notin> kva s ` tset l (kva s p) s" if "tset l (kva s p) s \<subseteq> used_pages s"
    using that assms all_pages_split(1) [of s] unfolding geom_ok_def by (auto dest: inj_onD)
  have sub: "tset l (kva s p) s \<subseteq> used_pages s" if "\<forall>i < 512. ent_ok l (pt_mem s (kva s p) i) s"
    using that subs_used [OF assms(1)] by (fastforce simp: tset_def)
  have "table_pte s p AND 3 = 3" "table_pte s p \<noteq> 0" using table_pte_props [OF assms] by simp_all
  then show ?thesis using inj k sub by (auto simp: wf_pt_def)
qed

section \<open>What a tree depends on\<close>

lemma subs_cong:
  assumes "same_geom s s'" "\<And>p. p \<in> subs l e s \<Longrightarrow> pt_mem s' (kva s p) = pt_mem s (kva s p)"
  shows "subs l e s' = subs l e s"
  using assms(2)
proof (induction l arbitrary: e)
  case (Suc l)
  note k = same_geom_kva [OF assms(1)]
  show ?case
  proof (cases "e AND 3 = 3")
    case True
    let ?t = "kva s (pg s e)"
    have m: "pt_mem s' ?t = pt_mem s ?t" using True by (intro Suc.prems) simp
    have "subs l (pt_mem s ?t i) s' = subs l (pt_mem s ?t i) s" if "i < 512" for i
      using True that by (intro Suc.IH Suc.prems) auto
    then show ?thesis using True m k by simp
  next
    case False
    then show ?thesis by simp
  qed
qed simp

lemma table_pte_geom: "same_geom s s' \<Longrightarrow> table_pte s' = table_pte s"
  by (simp add: table_pte_def same_geomD fun_eq_iff)

lemma ent_ok_cong:
  assumes "same_geom s s'" "geom_ok s" "ent_ok l e s"
    "\<And>p. p \<in> subs l e s \<Longrightarrow> pt_mem s' (kva s p) = pt_mem s (kva s p)" "subs l e s \<subseteq> used_pages s'"
  shows "ent_ok l e s'"
  using assms(3-5)
proof (induction l arbitrary: e)
  case (Suc l)
  note k = same_geom_kva [OF assms(1)] table_pte_geom [OF assms(1)]
  consider "e = 0" | "e AND 3 = 1" | p where "p \<in> used_pages s" "e = table_pte s p" "ent_ok (Suc l) (table_pte s p) s"
    using Suc.prems(1) by auto
  then show ?case
  proof cases
    case 3
    have a: "p \<in> all_pages s" "p \<in> all_pages s'" using used_all(1) [OF 3(1)] same_geomD(4) [OF assms(1)] by simp_all
    have w: "wf_pt l (kva s p) s" using 3(3) ent_ok_table [OF assms(2) a(1)] by simp
    have e: "subs (Suc l) e s = insert p (tset l (kva s p) s)" unfolding 3(2) by (rule subs_Suc_table [OF assms(2) a(1)])
    have m: "pt_mem s' (kva s p) = pt_mem s (kva s p)" using e by (intro Suc.prems(2)) simp
    have sub: "subs l (pt_mem s (kva s p) i) s \<subseteq> tset l (kva s p) s" if "i < 512" for i using that by (auto simp: tset_def)
    have i: "ent_ok l (pt_mem s (kva s p) i) s'" "subs l (pt_mem s (kva s p) i) s' = subs l (pt_mem s (kva s p) i) s" if "i < 512" for i
    proof -
      have fr: "pt_mem s' (kva s q) = pt_mem s (kva s q)" if "q \<in> subs l (pt_mem s (kva s p) i) s" for q
        using that sub [OF \<open>i < 512\<close>] e by (intro Suc.prems(2)) auto
      show "subs l (pt_mem s (kva s p) i) s' = subs l (pt_mem s (kva s p) i) s" by (rule subs_cong [OF assms(1) fr])
      show "ent_ok l (pt_mem s (kva s p) i) s'"
        using w that fr sub [OF that] e Suc.prems(3) by (intro Suc.IH) (auto simp: wf_pt_def)
    qed
    have "tset l (kva s p) s' = tset l (kva s p) s" using i(2) m by (simp add: tset_def)
    then have "wf_pt l (kva s p) s'" using w i m k unfolding wf_pt_def by (auto simp: disjoint_family_on_def)
    moreover have "p \<in> used_pages s'" using Suc.prems(3) e by auto
    ultimately show ?thesis using ent_ok_table [of s' p l] a(2) k assms(2) 3(2) by simp
  qed auto
qed simp

section \<open>Changing one entry\<close>

lemma wf_pt_entry:
  assumes "same_geom s s'" "geom_ok s" "wf_pt l tbl s" "i < 512"
    "\<And>j. j < 512 \<Longrightarrow> j \<noteq> i \<Longrightarrow> pt_mem s' tbl j = pt_mem s tbl j"
    "\<And>j p. j < 512 \<Longrightarrow> j \<noteq> i \<Longrightarrow> p \<in> subs l (pt_mem s tbl j) s \<Longrightarrow> pt_mem s' (kva s p) = pt_mem s (kva s p) \<and> p \<in> used_pages s'"
    "ent_ok l (pt_mem s' tbl i) s'" "subs l (pt_mem s' tbl i) s' \<subseteq> subs l (pt_mem s tbl i) s \<union> free_pages s"
    "tbl \<notin> kva s ` subs l (pt_mem s' tbl i) s'"
  shows "wf_pt l tbl s'" "\<And>j. j < 512 \<Longrightarrow> j \<noteq> i \<Longrightarrow> subs l (pt_mem s' tbl j) s' = subs l (pt_mem s tbl j) s"
    "tset l tbl s' = (\<Union>j \<in> {..<512} - {i}. subs l (pt_mem s tbl j) s) \<union> subs l (pt_mem s' tbl i) s'"
proof -
  have s: "subs l (pt_mem s' tbl j) s' = subs l (pt_mem s tbl j) s" if "j < 512" "j \<noteq> i" for j
    using subs_cong [OF assms(1), of l "pt_mem s tbl j"] assms(6) [OF that] assms(5) [OF that] by auto
  then show "\<And>j. j < 512 \<Longrightarrow> j \<noteq> i \<Longrightarrow> subs l (pt_mem s' tbl j) s' = subs l (pt_mem s tbl j) s" .
  show t: "tset l tbl s' = (\<Union>j \<in> {..<512} - {i}. subs l (pt_mem s tbl j) s) \<union> subs l (pt_mem s' tbl i) s'"
    using s assms(4) by (auto simp: tset_def)
  have e: "ent_ok l (pt_mem s' tbl j) s'" if "j < 512" for j
  proof (cases "j = i")
    case False
    have "ent_ok l (pt_mem s tbl j) s" using assms(3) that by (simp add: wf_pt_def)
    moreover have "subs l (pt_mem s tbl j) s \<subseteq> used_pages s'" using assms(6) [OF that False] by blast
    ultimately show ?thesis using ent_ok_cong [OF assms(1,2), of l "pt_mem s tbl j"] assms(5,6) [OF that False] by simp
  qed (use assms(7) in simp)
  have used: "subs l (pt_mem s tbl j) s \<subseteq> used_pages s" if "j < 512" for j
    using subs_used [OF assms(2)] assms(3) that by (simp add: wf_pt_def)
  have old: "subs l (pt_mem s tbl j) s \<inter> subs l (pt_mem s tbl k) s = {}" if "j < 512" "k < 512" "j \<noteq> k" for j k
    using assms(3) that by (auto simp: wf_pt_def disjoint_family_on_def)
  have new: "subs l (pt_mem s tbl j) s \<inter> subs l (pt_mem s' tbl i) s' = {}" if "j < 512" "j \<noteq> i" for j
    using assms(8) old [OF that(1) assms(4) that(2)] used [OF that(1)] all_pages_split(2) [of s] by blast
  have "disjoint_family_on (\<lambda>i. subs l (pt_mem s' tbl i) s') {..<512}"
    unfolding disjoint_family_on_def
  proof (intro ballI impI)
    fix j k :: nat assume "j \<in> {..<512}" "k \<in> {..<512}" "j \<noteq> k"
    then show "subs l (pt_mem s' tbl j) s' \<inter> subs l (pt_mem s' tbl k) s' = {}"
      using s old [of j k] new [of j] new [of k] by (cases "j = i"; cases "k = i") auto
  qed
  moreover have "tbl \<notin> kva s ` tset l tbl s'"
  proof
    assume "tbl \<in> kva s ` tset l tbl s'"
    then obtain q where q: "q \<in> tset l tbl s'" "tbl = kva s q" by blast
    then have "q \<in> tset l tbl s" using t assms(9) by (auto simp: tset_def)
    then show False using assms(3) q(2) by (auto simp: wf_pt_def)
  qed
  ultimately show "wf_pt l tbl s'" using e same_geom_kva(1) [OF assms(1)] by (simp add: wf_pt_def)
qed

end
