(* ===== verification/Arm64_Step.thy ===== *)
theory Arm64_Step
  imports Arm64_Pt
begin

text \<open>
  One entry of a table changed: the tree stays a tree, the pages outside it stay as they were, and
  the addresses under other entries translate as before.
\<close>

section \<open>Translation\<close>

text \<open>What an entry of level \<open>l\<close> covers.\<close>

definition blk :: "nat \<Rightarrow> nat" where "blk l = 2 ^ (12 + 9 * l)"

lemma blk_pos [simp]: "0 < blk l" "blk l \<noteq> 0"
  by (simp_all add: blk_def)

text \<open>
  The entry that translates the address at distance \<open>u\<close> from the start of an entry of level \<open>l\<close>,
  with the distance from the start of what that entry maps, and its level.
\<close>

fun look :: "nat \<Rightarrow> u64 \<Rightarrow> nat \<Rightarrow> 'a arm64_state_scheme \<Rightarrow> (u64 \<times> nat \<times> nat) option" where
  "look 0 e u s = (if e = 0 then None else Some (e, u, 0))"
| "look (Suc l) e u s = (if e = 0 then None
     else if e AND 3 = 3 then look l (pt_mem s (kva s (pg s e)) (u div blk l)) (u mod blk l) s
     else Some (e, u, Suc l))"

definition lookt :: "nat \<Rightarrow> u64 \<Rightarrow> nat \<Rightarrow> 'a arm64_state_scheme \<Rightarrow> (u64 \<times> nat \<times> nat) option" where
  "lookt l tbl u s = look l (pt_mem s tbl (u div blk l)) (u mod blk l) s"

lemma blk_Suc: "blk (Suc l) = 512 * blk l"
  by (simp add: blk_def power_add)

lemma index_bound: "u < 512 * blk l \<longleftrightarrow> u div blk l < 512"
  by (simp add: div_less_iff_less_mult)

lemma look_cong:
  assumes "same_geom s s'" "\<And>p. p \<in> subs l e s \<Longrightarrow> pt_mem s' (kva s p) = pt_mem s (kva s p)" "u < blk l"
  shows "look l e u s' = look l e u s"
  using assms(2,3)
proof (induction l arbitrary: e u)
  case (Suc l)
  note k = same_geom_kva [OF assms(1)]
  show ?case
  proof (cases "e AND 3 = 3")
    case True
    let ?t = "kva s (pg s e)" and ?i = "u div blk l"
    have i: "?i < 512" using Suc.prems(2) index_bound [of u l] by (simp only: blk_Suc)
    have m: "pt_mem s' ?t = pt_mem s ?t" using True by (intro Suc.prems(1)) simp
    have "look l (pt_mem s ?t ?i) (u mod blk l) s' = look l (pt_mem s ?t ?i) (u mod blk l) s"
      using True i by (intro Suc.IH Suc.prems(1)) auto
    then show ?thesis using True m k by simp
  next
    case False
    then show ?thesis by simp
  qed
qed simp

lemma look_table:
  assumes "geom_ok s" "p \<in> all_pages s"
  shows "look (Suc l) (table_pte s p) u s = lookt l (kva s p) u s"
  using table_pte_props [OF assms] by (simp add: lookt_def)

section \<open>Steps\<close>

text \<open>Only the page allocator and the tables change.\<close>

definition same_rest :: "'a arm64_state_scheme \<Rightarrow> 'a arm64_state_scheme \<Rightarrow> bool" where
  "same_rest s s' \<longleftrightarrow> s'\<lparr>arenas := arenas s, page_flags := page_flags s, pt_mem := pt_mem s\<rparr> = s"

lemma same_restD:
  assumes "same_rest s s'"
  shows "arch_aspaces s' = arch_aspaces s" "aspaces s' = aspaces s" "aspace_list s' = aspace_list s" "thread_aspace s' = thread_aspace s"
    "mmu_initial_mappings s' = mmu_initial_mappings s" "arena_list s' = arena_list s"
    "arm64_kernel_translation_table s' = arm64_kernel_translation_table s"
  using arg_cong [OF assms [unfolded same_rest_def], of arch_aspaces] arg_cong [OF assms [unfolded same_rest_def], of aspaces]
    arg_cong [OF assms [unfolded same_rest_def], of aspace_list] arg_cong [OF assms [unfolded same_rest_def], of thread_aspace]
    arg_cong [OF assms [unfolded same_rest_def], of mmu_initial_mappings] arg_cong [OF assms [unfolded same_rest_def], of arena_list]
    arg_cong [OF assms [unfolded same_rest_def], of arm64_kernel_translation_table]
  by simp_all

lemma same_rest_refl [simp]: "same_rest s s"
  by (simp add: same_rest_def)

lemma same_rest_trans:
  assumes "same_rest s s1" "same_rest s1 s2"
  shows "same_rest s s2"
proof -
  have "s2\<lparr>arenas := arenas s1, page_flags := page_flags s1, pt_mem := pt_mem s1\<rparr> = s1" using assms(2) by (simp add: same_rest_def)
  then have "s2\<lparr>arenas := arenas s1, page_flags := page_flags s1, pt_mem := pt_mem s1\<rparr>
      \<lparr>arenas := arenas s, page_flags := page_flags s, pt_mem := pt_mem s\<rparr> = s"
    using assms(1) by (simp add: same_rest_def)
  then show ?thesis by (simp add: same_rest_def)
qed

definition pt_pre :: "nat \<Rightarrow> u64 \<Rightarrow> 'a arm64_state_scheme \<Rightarrow> bool" where
  "pt_pre l tbl s \<longleftrightarrow> geom_ok s \<and> pmm_inv s \<and> wf_pt l tbl s \<and> tbl \<notin> kva s ` free_pages s"

definition pt_step :: "nat \<Rightarrow> u64 \<Rightarrow> 'a arm64_state_scheme \<Rightarrow> 'a arm64_state_scheme \<Rightarrow> bool" where
  "pt_step l tbl s s' \<longleftrightarrow> same_geom s s' \<and> same_rest s s' \<and> pmm_inv s' \<and> wf_pt l tbl s' \<and>
     used_pages s' - tset l tbl s' = used_pages s - tset l tbl s \<and>
     (\<forall>a. a \<noteq> tbl \<longrightarrow> a \<notin> kva s ` (tset l tbl s \<union> free_pages s) \<longrightarrow> pt_mem s' a = pt_mem s a)"

lemma pt_stepD:
  assumes "pt_step l tbl s s'"
  shows "same_geom s s'" "same_rest s s'" "pmm_inv s'" "wf_pt l tbl s'" "used_pages s' - tset l tbl s' = used_pages s - tset l tbl s"
    "a \<noteq> tbl \<Longrightarrow> a \<notin> kva s ` (tset l tbl s \<union> free_pages s) \<Longrightarrow> pt_mem s' a = pt_mem s a"
  using assms by (simp_all add: pt_step_def)

text \<open>Where the pages of a tree and the free pages can come from.\<close>

lemma pages_moved:
  assumes "same_geom s s'" "used_pages s' - X' = used_pages s - X" "X' \<subseteq> used_pages s'"
  shows "X' \<subseteq> X \<union> free_pages s" "free_pages s' \<subseteq> X \<union> free_pages s"
proof -
  have a: "free_pages s' \<union> used_pages s' = free_pages s \<union> used_pages s"
    using same_geomD(4) [OF assms(1)] by (simp add: all_pages_split)
  show "X' \<subseteq> X \<union> free_pages s" using a assms(2,3) by blast
  show "free_pages s' \<subseteq> X \<union> free_pages s" using a assms(2) all_pages_split(2) [of s'] by blast
qed

lemma pt_step_pre:
  assumes "pt_pre l tbl s" "pt_step l tbl s s'"
  shows "pt_pre l tbl s'" "tset l tbl s' \<subseteq> tset l tbl s \<union> free_pages s" "free_pages s' \<subseteq> tset l tbl s \<union> free_pages s"
proof -
  note d = pt_stepD [OF assms(2)]
  have g: "geom_ok s'" using assms(1) same_geom_kva(3) [OF d(1)] by (simp add: pt_pre_def)
  show m: "tset l tbl s' \<subseteq> tset l tbl s \<union> free_pages s" "free_pages s' \<subseteq> tset l tbl s \<union> free_pages s"
    using pages_moved [OF d(1,5) tset_used [OF g d(4)]] by simp_all
  show "pt_pre l tbl s'" using assms(1) d(3,4) g m(2) same_geom_kva(1) [OF d(1)] by (auto simp: pt_pre_def wf_pt_def)
qed

lemma pt_step_refl: "pt_pre l tbl s \<Longrightarrow> pt_step l tbl s s"
  by (simp add: pt_step_def pt_pre_def)

lemma pt_step_trans:
  assumes "pt_pre l tbl s" "pt_step l tbl s s1" "pt_step l tbl s1 s2"
  shows "pt_step l tbl s s2"
proof -
  note d = pt_stepD [OF assms(2)] and e = pt_stepD [OF assms(3)] and p = pt_step_pre [OF assms(1,2)]
  have "pt_mem s2 a = pt_mem s a" if "a \<noteq> tbl" "a \<notin> kva s ` (tset l tbl s \<union> free_pages s)" for a
  proof -
    have "a \<notin> kva s1 ` (tset l tbl s1 \<union> free_pages s1)" using that(2) p(2,3) same_geom_kva(1) [OF d(1)] by auto
    then show ?thesis using d(6) [OF that] e(6) [OF that(1)] by simp
  qed
  then show ?thesis using same_geom_trans [OF d(1) e(1)] same_rest_trans [OF d(2) e(2)] d(5) e(3,4,5) by (simp add: pt_step_def)
qed

lemma diff_un: "X - (R \<union> Y) = (X - Y) - R"
  by blast

text \<open>The effect of a change that only concerns the entry \<open>i\<close>.\<close>

lemma entry_step:
  assumes "pt_pre l tbl s" "i < 512" "same_geom s s'" "same_rest s s'" "pmm_inv s'"
    "\<And>a. a \<noteq> tbl \<Longrightarrow> a \<notin> kva s ` (subs l (pt_mem s tbl i) s \<union> free_pages s) \<Longrightarrow> pt_mem s' a = pt_mem s a"
    "\<And>j. j < 512 \<Longrightarrow> j \<noteq> i \<Longrightarrow> pt_mem s' tbl j = pt_mem s tbl j"
    "ent_ok l (pt_mem s' tbl i) s'"
    "used_pages s' - subs l (pt_mem s' tbl i) s' = used_pages s - subs l (pt_mem s tbl i) s"
  shows "pt_step l tbl s s' \<and> (\<forall>u < 512 * blk l. u div blk l \<noteq> i \<longrightarrow> lookt l tbl u s' = lookt l tbl u s)"
proof -
  let ?old = "subs l (pt_mem s tbl i) s" and ?new = "subs l (pt_mem s' tbl i) s'"
  have geom: "geom_ok s" and wf: "wf_pt l tbl s" and nt: "tbl \<notin> kva s ` free_pages s" using assms(1) by (simp_all add: pt_pre_def)
  note k = same_geom_kva [OF assms(3)]
  have inj: "inj_on (kva s) (all_pages s)" using geom by (simp add: geom_ok_def)
  have new: "?new \<subseteq> used_pages s'" using subs_used [of s'] assms(8) geom k(3) by blast
  note mv = pages_moved [OF assms(3,9) new]
  have used: "subs l (pt_mem s tbl j) s \<subseteq> used_pages s" if "j < 512" for j
    using subs_used [OF geom] wf that by (simp add: wf_pt_def)
  have keep: "pt_mem s' (kva s p) = pt_mem s (kva s p) \<and> p \<in> used_pages s'" if j: "j < 512" "j \<noteq> i" "p \<in> subs l (pt_mem s tbl j) s" for j p
  proof -
    have "subs l (pt_mem s tbl j) s \<inter> ?old = {}" using wf assms(2) j(1,2) by (simp add: wf_pt_def disjoint_family_on_def)
    then have p: "p \<in> used_pages s" "p \<notin> ?old" "p \<notin> free_pages s"
      using used [OF j(1)] j(3) all_pages_split(2) [of s] by blast+
    then have "kva s p \<notin> kva s ` (?old \<union> free_pages s)"
      using used [OF assms(2)] used_all [of _ s] inj_on_image_mem_iff [OF inj, of p "?old \<union> free_pages s"] by blast
    moreover have "kva s p \<noteq> tbl" using j wf by (auto simp: wf_pt_def tset_def)
    ultimately show ?thesis using assms(6,9) p by blast
  qed
  have "?old \<subseteq> tset l tbl s" "tbl \<notin> kva s ` tset l tbl s" using assms(2) wf by (auto simp: tset_def wf_pt_def)
  then have nn: "tbl \<notin> kva s ` ?new" using mv(1) nt by blast
  let ?rest = "\<Union>j \<in> {..<512} - {i}. subs l (pt_mem s tbl j) s"
  have w: "wf_pt l tbl s'" "tset l tbl s' = ?rest \<union> ?new"
    by (rule wf_pt_entry [OF assms(3) geom wf assms(2) assms(7) keep assms(8) mv(1) nn]; assumption)+
  have t: "tset l tbl s = ?rest \<union> ?old" using assms(2) by (auto simp: tset_def)
  have acc: "used_pages s' - tset l tbl s' = used_pages s - tset l tbl s" unfolding w(2) t diff_un by (simp only: assms(9))
  have "pt_mem s' a = pt_mem s a" if "a \<noteq> tbl" "a \<notin> kva s ` (tset l tbl s \<union> free_pages s)" for a
    using assms(6) that unfolding t by blast
  then have "pt_step l tbl s s'" using assms(3-5) w(1) acc by (simp add: pt_step_def)
  moreover have "lookt l tbl u s' = lookt l tbl u s" if u: "u < 512 * blk l" "u div blk l \<noteq> i" for u
  proof -
    have i: "u div blk l < 512" using u(1) index_bound by blast
    have "look l (pt_mem s tbl (u div blk l)) (u mod blk l) s' = look l (pt_mem s tbl (u div blk l)) (u mod blk l) s"
      using keep [OF i u(2)] by (intro look_cong [OF assms(3)]) simp_all
    then show ?thesis using assms(7) [OF i u(2)] by (simp add: lookt_def)
  qed
  ultimately show ?thesis by blast
qed

section \<open>Page and block entries\<close>

definition leaf_pte :: "nat \<Rightarrow> u64 \<Rightarrow> bool" where
  "leaf_pte l e \<longleftrightarrow> e = 0 \<or> (if l = 0 then e AND 3 = 3 else e AND 3 = 1)"

lemma leaf_pte_props: "leaf_pte l e \<Longrightarrow> subs l e s = {}" "leaf_pte l e \<Longrightarrow> ent_ok l e s"
  by (cases l; auto simp: leaf_pte_def)+

lemma leaf_or_table:
  assumes "geom_ok s" "ent_ok l e s"
  obtains "leaf_pte l e" | l' p where "l = Suc l'" "p \<in> used_pages s" "e = table_pte s p" "wf_pt l' (kva s p) s"
proof (cases "leaf_pte l e")
  case False
  then obtain l' p where l: "l = Suc l'" "p \<in> used_pages s" "e = table_pte s p"
    using assms(2) by (cases l) (auto simp: leaf_pte_def)
  then have "wf_pt l' (kva s p) s" using assms ent_ok_table [OF assms(1) used_all(1) [OF l(2)], of l'] by blast
  then show thesis using that(2) l by blast
qed (use that(1) in blast)

lemma look_leaf: "leaf_pte l e \<Longrightarrow> look l e u s = (if e = 0 then None else Some (e, u, l))"
  by (cases l) (auto simp: leaf_pte_def)

lemma set_pte_simps [simp]:
  "pt_mem (set_pte tbl i e s) a = (if a = tbl then (pt_mem s tbl)(i := e) else pt_mem s a)"
  "same_rest s (set_pte tbl i e s)" "same_geom s (set_pte tbl i e s)" "used_pages (set_pte tbl i e s) = used_pages s"
  "free_pages (set_pte tbl i e s) = free_pages s" "pmm_inv (set_pte tbl i e s) = pmm_inv s"
  by (auto simp: set_pte_def same_rest_def same_geom_def same_arenas_def used_pages_def free_pages_def page_is_free_def pmm_inv_def
      arena_ok_def)

lemma set_leaf_step:
  assumes "pt_pre l tbl s" "i < 512" "leaf_pte l (pt_mem s tbl i)" "leaf_pte l e"
  shows "pt_step l tbl s (set_pte tbl i e s)"
    "\<And>u. u < 512 * blk l \<Longrightarrow> lookt l tbl u (set_pte tbl i e s) =
       (if u div blk l = i then if e = 0 then None else Some (e, u mod blk l, l) else lookt l tbl u s)"
proof -
  let ?s = "set_pte tbl i e s"
  have "subs l (pt_mem s tbl i) s = {}" "subs l e ?s = {}" "ent_ok l e ?s" using leaf_pte_props [OF assms(3)] leaf_pte_props [OF assms(4)] by blast+
  moreover have "pmm_inv s" using assms(1) by (simp add: pt_pre_def)
  ultimately have step: "pt_step l tbl s ?s \<and> (\<forall>u < 512 * blk l. u div blk l \<noteq> i \<longrightarrow> lookt l tbl u ?s = lookt l tbl u s)"
    by (intro entry_step [OF assms(1,2)]) simp_all
  then show "pt_step l tbl s ?s" by simp
  show "lookt l tbl u ?s = (if u div blk l = i then if e = 0 then None else Some (e, u mod blk l, l) else lookt l tbl u s)"
    if "u < 512 * blk l" for u
  proof (cases "u div blk l = i")
    case True
    then show ?thesis using look_leaf [OF assms(4), of "u mod blk l" ?s] by (simp add: lookt_def)
  qed (use step that in simp)
qed

section \<open>Entries for tables\<close>

lemma child_pre:
  assumes "pt_pre (Suc l) tbl s" "i < 512" "pt_mem s tbl i = table_pte s p" "p \<in> used_pages s"
  shows "pt_pre l (kva s p) s" "subs (Suc l) (table_pte s p) s = insert p (tset l (kva s p) s)" "p \<notin> tset l (kva s p) s"
    "kva s p \<noteq> tbl"
proof -
  have g: "geom_ok s" and wf: "wf_pt (Suc l) tbl s" using assms(1) by (simp_all add: pt_pre_def)
  note a = used_all(1) [OF assms(4)]
  show e: "subs (Suc l) (table_pte s p) s = insert p (tset l (kva s p) s)" by (rule subs_Suc_table [OF g a])
  have "ent_ok (Suc l) (table_pte s p) s" using wf assms(2,3) unfolding wf_pt_def by metis
  then have w: "wf_pt l (kva s p) s" using ent_ok_table [OF g a, of l] by blast
  moreover have "kva s p \<notin> kva s ` free_pages s"
  proof
    assume "kva s p \<in> kva s ` free_pages s"
    then obtain q where q: "q \<in> free_pages s" "kva s p = kva s q" by blast
    then have "p = q" using inj_onD [of "kva s" "all_pages s" p q] g a used_all(2) [OF q(1)] by (simp add: geom_ok_def)
    then show False using q(1) assms(4) all_pages_split(2) [of s] by blast
  qed
  ultimately show "pt_pre l (kva s p) s" using assms(1) by (simp add: pt_pre_def)
  show "p \<notin> tset l (kva s p) s" using w unfolding wf_pt_def by blast
  have "p \<in> subs (Suc l) (pt_mem s tbl i) s" unfolding assms(3) e by simp
  then have "p \<in> tset (Suc l) tbl s" unfolding tset_def using assms(2) by blast
  then show "kva s p \<noteq> tbl" using wf unfolding wf_pt_def by blast
qed

lemma child_step:
  assumes "pt_pre (Suc l) tbl s" "i < 512" "pt_mem s tbl i = table_pte s p" "p \<in> used_pages s" "pt_step l (kva s p) s s'"
  shows "pt_step (Suc l) tbl s s'" "pt_mem s' tbl = pt_mem s tbl" "p \<in> used_pages s'"
    "\<And>u. u < 512 * blk (Suc l) \<Longrightarrow> lookt (Suc l) tbl u s' =
       (if u div blk (Suc l) = i then lookt l (kva s p) (u mod blk (Suc l)) s' else lookt (Suc l) tbl u s)"
proof -
  note c = child_pre [OF assms(1-4)] and d = pt_stepD [OF assms(5)]
  note k = same_geom_kva [OF d(1)] table_pte_geom [OF d(1)]
  have g: "geom_ok s" and wf: "wf_pt (Suc l) tbl s" using assms(1) by (simp_all add: pt_pre_def)
  have sub: "subs (Suc l) (pt_mem s tbl i) s \<subseteq> tset (Suc l) tbl s" using assms(2) by (auto simp: tset_def)
  have "tbl \<notin> kva s ` tset (Suc l) tbl s" "tbl \<notin> kva s ` free_pages s" using assms(1) by (simp_all add: pt_pre_def wf_pt_def)
  then have "tbl \<notin> kva s ` (tset l (kva s p) s \<union> free_pages s)" using sub unfolding assms(3) c(2) by blast
  then show m: "pt_mem s' tbl = pt_mem s tbl" using d(6) [of tbl] c(4) by blast
  show p: "p \<in> used_pages s'" using d(5) c(3) assms(4) by blast
  have a: "p \<in> all_pages s'" using used_all(1) [OF p] .
  have g': "geom_ok s'" using g k by simp
  have e: "pt_mem s' tbl i = table_pte s' p" using m assms(3) k by simp
  have sub': "subs (Suc l) (table_pte s' p) s' = insert p (tset l (kva s p) s')" using subs_Suc_table [OF g' a, of l] k by simp
  have acc: "used_pages s' - subs (Suc l) (pt_mem s' tbl i) s' = used_pages s - subs (Suc l) (pt_mem s tbl i) s"
    unfolding e sub' assms(3) c(2) Diff_insert [of "used_pages s'" p "tset l (kva s p) s'"]
      Diff_insert [of "used_pages s" p "tset l (kva s p) s"] d(5) ..
  have step: "pt_step (Suc l) tbl s s' \<and> (\<forall>u < 512 * blk (Suc l). u div blk (Suc l) \<noteq> i \<longrightarrow> lookt (Suc l) tbl u s' = lookt (Suc l) tbl u s)"
  proof (rule entry_step [OF assms(1,2) d(1-3)])
    show "pt_mem s' a = pt_mem s a" if "a \<noteq> tbl" "a \<notin> kva s ` (subs (Suc l) (pt_mem s tbl i) s \<union> free_pages s)" for a
      using that d(6) [of a] unfolding assms(3) c(2) by blast
    show "ent_ok (Suc l) (pt_mem s' tbl i) s'" unfolding e ent_ok_table [OF g' a] k(1) using p d(4) by blast
  qed (use m acc in \<open>simp_all only:\<close>)
  then show "pt_step (Suc l) tbl s s'" by simp
  show "lookt (Suc l) tbl u s' = (if u div blk (Suc l) = i then lookt l (kva s p) (u mod blk (Suc l)) s' else lookt (Suc l) tbl u s)"
    if "u < 512 * blk (Suc l)" for u
  proof (cases "u div blk (Suc l) = i")
    case True
    then have "lookt (Suc l) tbl u s' = look (Suc l) (table_pte s' p) (u mod blk (Suc l)) s'" using e by (simp only: lookt_def)
    also have "\<dots> = lookt l (kva s p) (u mod blk (Suc l)) s'" unfolding look_table [OF g' a] k(1) ..
    finally show ?thesis using True by simp
  qed (use step that in simp)
qed

section \<open>Pages for tables\<close>

lemma grab_rest [simp]: "same_rest s (grab p s)" "same_geom s (grab p s)" "pt_mem (grab p s) = pt_mem s"
  by (simp_all add: grab_def set_flags_def upd_arena_def same_rest_def same_geom_def same_arenas_def)

lemma release_rest [simp]: "same_rest s (release p s)" "same_geom s (release p s)" "pt_mem (release p s) = pt_mem s"
  by (simp_all add: release_def set_flags_def upd_arena_def same_rest_def same_geom_def same_arenas_def)

lemma grab_used: "p \<in> free_pages s \<Longrightarrow> used_pages (grab p s) = insert p (used_pages s)"
  by (auto simp: used_pages_def free_pages_def)

lemma alloc_page_cases:
  assumes "pmm_inv s"
  obtains "free_pages s = {}" "pmm_alloc_page s = Some (None, s)"
  | p where "p \<in> free_pages s" "pmm_alloc_page s = Some (Some p, grab p s)"
proof -
  let ?ps = "take 1 (free_lists (arena_list s) s)"
  note f = free_lists_props [OF assms]
  have "alloc_from_arenas (arena_list s) 1 [] s = (1 - length ?ps, [] @ ?ps, fold grab ?ps s)"
    using assms by (intro alloc_from_arenas_eq) (auto simp: pmm_inv_def arena_ok_def)
  then have e: "pmm_alloc_pages 1 [] s = (length ?ps, ?ps, fold grab ?ps s)" by (auto simp: pmm_alloc_pages_def)
  show thesis
  proof (cases "free_lists (arena_list s) s")
    case Nil
    then have "free_pages s = {}" using f(2) by simp
    moreover have "pmm_alloc_page s = Some (None, s)" using e Nil by (simp add: pmm_alloc_page_def)
    ultimately show ?thesis using that(1) by blast
  next
    case (Cons p ps)
    then have "p \<in> free_pages s" using f(2) by auto
    moreover have "pmm_alloc_page s = Some (Some p, grab p s)" using e Cons by (simp add: pmm_alloc_page_def)
    ultimately show ?thesis using that(2) by blast
  qed
qed

lemma free_page_release:
  assumes "pmm_inv s" "p \<in> used_pages s"
  shows "pmm_free_page p s = Some (1, release p s)"
  using assms find_arena [OF assms] by (auto simp: pmm_free_page_def release_def used_pages_def page_is_free_def)

text \<open>An empty table taken out of its entry and given back.\<close>

lemma unlink_step:
  assumes "pt_pre (Suc l) tbl s" "i < 512" "pt_mem s tbl i = table_pte s p" "p \<in> used_pages s" "\<And>j. j < 512 \<Longrightarrow> pt_mem s (kva s p) j = 0"
  shows "\<exists>s'. free_page_table (vm_page_to_paddr p s) (set_pte tbl i 0 s) = Some s' \<and> pt_step (Suc l) tbl s s' \<and>
    pt_mem s' tbl = (pt_mem s tbl)(i := 0) \<and>
    (\<forall>u < 512 * blk (Suc l). lookt (Suc l) tbl u s' = (if u div blk (Suc l) = i then None else lookt (Suc l) tbl u s))"
proof -
  let ?s = "set_pte tbl i 0 s" and ?s' = "release p (set_pte tbl i 0 s)"
  have g: "geom_ok s" and inv: "pmm_inv s" using assms(1) by (simp_all add: pt_pre_def)
  note a = used_all(1) [OF assms(4)] and c = child_pre [OF assms(1-4)]
  have "subs l 0 s = {}" by (cases l) simp_all
  then have t: "tset l (kva s p) s = {}" using assms(5) by (simp add: tset_def)
  have f: "free_page_table (vm_page_to_paddr p s) ?s = Some ?s'"
  proof -
    have "pmm_free_page p ?s = Some (1, ?s')" using inv assms(4) by (intro free_page_release) simp_all
    moreover have "paddr_to_vm_page (vm_page_to_paddr p s) ?s = Some p"
      unfolding same_geomD(2) [OF set_pte_simps(3)] by (rule geomD(2) [OF g a])
    ultimately show ?thesis by (simp add: free_page_table_def)
  qed
  have geom: "same_geom s ?s'" "same_rest s ?s'"
    using same_geom_trans [OF set_pte_simps(3) release_rest(2)] same_rest_trans [OF set_pte_simps(2) release_rest(1)] by blast+
  note r = release_ok [of ?s p, simplified, OF inv assms(4)]
  have step: "pt_step (Suc l) tbl s ?s' \<and> (\<forall>u < 512 * blk (Suc l). u div blk (Suc l) \<noteq> i \<longrightarrow> lookt (Suc l) tbl u ?s' = lookt (Suc l) tbl u s)"
  proof (rule entry_step [OF assms(1,2) geom r(1)])
    show "used_pages ?s' - subs (Suc l) (pt_mem ?s' tbl i) ?s' = used_pages s - subs (Suc l) (pt_mem s tbl i) s"
      unfolding assms(3) c(2) t r(3) by simp
  qed simp_all
  moreover have "lookt (Suc l) tbl u ?s' = None" if "u div blk (Suc l) = i" for u using that by (simp add: lookt_def)
  ultimately show ?thesis using f by auto
qed

text \<open>A new table put into an empty entry.\<close>

lemma new_table_step:
  assumes "pt_pre (Suc l) tbl s" "unat i < 512" "pt_mem s tbl (unat i) = 0"
  shows "(free_pages s = {} \<and> arm64_mmu_get_page_table i tbl s = Some (None, s)) \<or>
    (\<exists>p s'. arm64_mmu_get_page_table i tbl s = Some (Some (kva s p), s') \<and> p \<in> used_pages s' \<and> pt_mem s' tbl (unat i) = table_pte s' p \<and>
       pt_step (Suc l) tbl s s' \<and> (\<forall>u < 512 * blk (Suc l). lookt (Suc l) tbl u s' = lookt (Suc l) tbl u s))"
proof -
  have g: "geom_ok s" and inv: "pmm_inv s" and nt: "tbl \<notin> kva s ` free_pages s" using assms(1) by (simp_all add: pt_pre_def)
  from inv show ?thesis
  proof (cases rule: alloc_page_cases)
    case 1
    then show ?thesis using assms(2,3) by (simp add: arm64_mmu_get_page_table_def alloc_page_table_def)
  next
    case (2 p)
    let ?s1 = "grab p s"
    let ?s2 = "?s1\<lparr>pt_mem := (pt_mem ?s1)(kva s p := (\<lambda>_. 0))\<rparr>"
    let ?s' = "set_pte tbl (unat i) (table_pte s p) ?s2"
    note a = used_all(2) [OF 2(1)] and d = same_geomD [OF grab_rest(2) [of s p]]
    have k2: "same_geom ?s1 ?s2" "same_rest ?s1 ?s2" "used_pages ?s2 = used_pages ?s1" "pmm_inv ?s2 = pmm_inv ?s1"
      by (auto simp: same_rest_def same_geom_def same_arenas_def used_pages_def page_is_free_def pmm_inv_def arena_ok_def)
    have get: "arm64_mmu_get_page_table i tbl s = Some (Some (kva s p), ?s')"
      using assms(2,3) 2(2) geomD(3) [OF g a] d(1,3) by (simp add: arm64_mmu_get_page_table_def alloc_page_table_def table_pte_def Let_def)
    have geom: "same_geom s ?s'" "same_rest s ?s'"
      using same_geom_trans [OF same_geom_trans [OF grab_rest(2) k2(1)] set_pte_simps(3)]
        same_rest_trans [OF same_rest_trans [OF grab_rest(1) k2(2)] set_pte_simps(2)] by blast+
    note k = same_geom_kva [OF geom(1)] table_pte_geom [OF geom(1)]
    have used: "used_pages ?s' = insert p (used_pages s)" using k2(3) grab_used [OF 2(1)] by simp
    have p: "p \<in> used_pages ?s'" "p \<notin> used_pages s" using used 2(1) all_pages_split(2) [of s] by blast+
    have g': "geom_ok ?s'" and a': "p \<in> all_pages ?s'" using g k(3) used_all(1) [OF p(1)] by simp_all
    have ne: "kva s p \<noteq> tbl" using nt 2(1) by blast
    have z: "pt_mem ?s' (kva s p) = (\<lambda>_. 0)" using ne by simp
    have z0: "subs l 0 ?s' = {}" "ent_ok l 0 ?s'" by (cases l; simp)+
    then have t: "tset l (kva s p) ?s' = {}" using z by (simp add: tset_def)
    have wf: "wf_pt l (kva s p) ?s'" using t z z0 by (simp add: wf_pt_def disjoint_family_on_def)
    have e: "pt_mem ?s' tbl (unat i) = table_pte ?s' p" using k(5) by simp
    have sub: "subs (Suc l) (table_pte ?s' p) ?s' = {p}" using subs_Suc_table [OF g' a', of l] k(1) t by simp
    have step: "pt_step (Suc l) tbl s ?s' \<and> (\<forall>u < 512 * blk (Suc l). u div blk (Suc l) \<noteq> unat i \<longrightarrow> lookt (Suc l) tbl u ?s' = lookt (Suc l) tbl u s)"
    proof (rule entry_step [OF assms(1,2) geom])
      show "pmm_inv ?s'" using grab_ok(1) [OF inv 2(1)] k2(4) by simp
      show "pt_mem ?s' x = pt_mem s x" if "x \<noteq> tbl" "x \<notin> kva s ` (subs (Suc l) (pt_mem s tbl (unat i)) s \<union> free_pages s)" for x
        using that 2(1) by auto
      show "ent_ok (Suc l) (pt_mem ?s' tbl (unat i)) ?s'" unfolding e ent_ok_table [OF g' a'] k(1) using p(1) wf by blast
      show "used_pages ?s' - subs (Suc l) (pt_mem ?s' tbl (unat i)) ?s' = used_pages s - subs (Suc l) (pt_mem s tbl (unat i)) s"
        unfolding e sub used using p(2) assms(3) by simp
    qed (use ne in simp)
    moreover have "lookt (Suc l) tbl u ?s' = lookt (Suc l) tbl u s" if u: "u < 512 * blk (Suc l)" "u div blk (Suc l) = unat i" for u
    proof -
      have "look l 0 x ?s' = None" for x by (cases l) simp_all
      then have "lookt l (kva ?s' p) (u mod blk (Suc l)) ?s' = None" using z k(1) by (simp add: lookt_def)
      then have "lookt (Suc l) tbl u ?s' = None" unfolding lookt_def [of "Suc l"] u(2) e look_table [OF g' a'] .
      then show ?thesis using u(2) assms(3) by (simp add: lookt_def)
    qed
    ultimately show ?thesis using get p(1) e by blast
  qed
qed

end
