(* ===== verification/Arm64_Unmap.thy ===== *)
theory Arm64_Unmap
  imports Arm64_Step
begin

text \<open>
  Unmapping a range: it ends, keeps the tables a tree and gives the pages of emptied tables back, and
  takes away exactly the translations of the pages and blocks that meet the range.
\<close>

section \<open>Arithmetic of the loop\<close>

lemma shift_less: "l \<le> 3 \<Longrightarrow> 12 + 9 * l < (64 :: nat)"
  by simp

lemma unat_block: "l \<le> 3 \<Longrightarrow> unat (push_bit (12 + 9 * l) 1 :: u64) = blk l"
proof -
  assume "l \<le> 3"
  then have "(2::nat) ^ (12 + 9 * l) < 2 ^ 64" by (intro power_strict_increasing) simp_all
  then have "unat (2 ^ (12 + 9 * l) :: u64) = blk l" unfolding blk_def using unat_of_nat [of "2 ^ (12 + 9 * l)", where 'a = 64] by simp
  then show ?thesis by (simp add: push_bit_eq_mult)
qed

lemma unat_rem: "unat ((v :: u64) AND (push_bit (12 + 9 * l) 1 - 1)) = unat v mod blk l"
proof -
  have "v AND (push_bit (12 + 9 * l) 1 - 1) = take_bit (12 + 9 * l) v"
    by (simp add: push_bit_eq_mult take_bit_eq_mask mask_eq_exp_minus_1)
  then have "unat (v AND (push_bit (12 + 9 * l) 1 - 1)) = take_bit (12 + 9 * l) (unat v)" by (simp only: unsigned_take_bit_eq)
  then show ?thesis by (simp only: take_bit_eq_mod blk_def)
qed

lemma unat_index: "unat (drop_bit (12 + 9 * l) (v :: u64)) = unat v div blk l"
  by (rule trans [OF unat_drop_bit_eq]) (simp only: drop_bit_eq_div blk_def)

lemma unat_chunk:
  assumes "l \<le> 3"
  shows "unat (chunk_size v sz (12 + 9 * l)) = min (unat sz) (blk l - unat v mod blk l)"
proof -
  have "unat v mod blk l < blk l" by simp
  then have "unat (push_bit (12 + 9 * l) 1 - (v AND (push_bit (12 + 9 * l) 1 - 1)) :: u64) = blk l - unat v mod blk l"
    using unat_block [OF assms] unat_rem [of v l] by (subst unat_sub) (simp_all add: word_le_nat_alt)
  then show ?thesis unfolding chunk_size_def min_def word_le_nat_alt by simp
qed

text \<open>The loop continues behind the chunk.\<close>

lemma chunk_rest:
  assumes "l \<le> 3" "0 < unat sz" "unat v + unat sz \<le> 512 * blk l"
  defines "c \<equiv> min (unat sz) (blk l - unat v mod blk l)"
  shows "unat (v + chunk_size v sz (12 + 9 * l)) = unat v + c" "unat (sz - chunk_size v sz (12 + 9 * l)) = unat sz - c"
    "0 < c" "c \<le> unat sz" "c + unat v mod blk l \<le> blk l" "unat v div blk l < 512"
proof -
  have r: "unat v mod blk l < blk l" by simp
  show c: "0 < c" "c \<le> unat sz" "c + unat v mod blk l \<le> blk l" using assms(2) r unfolding c_def by linarith+
  have "(12 + 9 * l) + 9 < 64" using assms(1) by simp
  then have "(2::nat) ^ ((12 + 9 * l) + 9) < 2 ^ 64" by (intro power_strict_increasing) simp_all
  then have b: "512 * blk l < 2 ^ 64" by (simp add: blk_def power_add)
  have ch: "unat (chunk_size v sz (12 + 9 * l)) = c" using unat_chunk [OF assms(1)] by (simp add: c_def)
  show "unat (v + chunk_size v sz (12 + 9 * l)) = unat v + c"
    using unat_word_ariths(1) [of v "chunk_size v sz (12 + 9 * l)"] ch c assms(3) b by simp
  show "unat (sz - chunk_size v sz (12 + 9 * l)) = unat sz - c" using ch c by (subst unat_sub) (simp_all add: word_le_nat_alt)
  have "unat v < 512 * blk l" using assms(2,3) by simp
  then show "unat v div blk l < 512" using index_bound by blast
qed

section \<open>Pages and blocks that meet a range\<close>

lemma look_bounds:
  "look l e u s = Some (e', off, k) \<Longrightarrow> u < blk l \<Longrightarrow> off \<le> u \<and> off < blk k \<and> u - off + blk k \<le> blk l"
proof (induction l arbitrary: e u)
  case 0
  then show ?case by (auto split: if_splits)
next
  case (Suc l)
  show ?case
  proof (cases "e AND 3 = 3")
    case True
    have e: "e \<noteq> 0" using True by auto
    have l: "look l (pt_mem s (kva s (pg s e)) (u div blk l)) (u mod blk l) s = Some (e', off, k)" using Suc.prems(1) True e by simp
    have b: "off \<le> u mod blk l \<and> off < blk k \<and> u mod blk l - off + blk k \<le> blk l" using Suc.IH [OF l mod_less_divisor [OF blk_pos(1)]] .
    have q: "u div blk l * blk l + blk l \<le> blk (Suc l)"
    proof -
      have "u div blk l < 512" using Suc.prems(2) index_bound [of u l] by (simp only: blk_Suc)
      then have "(u div blk l + 1) * blk l \<le> 512 * blk l" by (intro mult_le_mono1) simp
      then show ?thesis by (simp add: blk_Suc)
    qed
    have "u = u div blk l * blk l + u mod blk l" by simp
    then show ?thesis using b q by linarith
  next
    case False
    then show ?thesis using Suc.prems by (auto split: if_splits)
  qed
qed

definition hit :: "nat \<Rightarrow> u64 \<Rightarrow> nat \<Rightarrow> nat \<Rightarrow> nat \<Rightarrow> 'a arm64_state_scheme \<Rightarrow> bool" where
  "hit l tbl v n u s \<longleftrightarrow> (\<exists>e off k. lookt l tbl u s = Some (e, off, k) \<and> 0 < n \<and> u - off < v + n \<and> v < u - off + blk k)"

lemma lookt_bounds:
  assumes "lookt l tbl u s = Some (e, off, k)"
  shows "off \<le> u" "u div blk l * blk l \<le> u - off" "u - off + blk k \<le> u div blk l * blk l + blk l" "off < blk k" "off \<le> u mod blk l"
proof -
  have b: "off \<le> u mod blk l \<and> off < blk k \<and> u mod blk l - off + blk k \<le> blk l"
    using assms look_bounds [of l _ "u mod blk l"] by (simp add: lookt_def)
  have "u = u div blk l * blk l + u mod blk l" by simp
  then show "off \<le> u" "u div blk l * blk l \<le> u - off" "u - off + blk k \<le> u div blk l * blk l + blk l" using b by linarith+
  show "off < blk k" "off \<le> u mod blk l" using b by simp_all
qed

text \<open>Only addresses under the same entry meet a range that lies in one entry.\<close>

lemma hit_same_entry:
  assumes "hit l tbl v n u s" "v mod blk l + n \<le> blk l"
  shows "u div blk l = v div blk l"
proof -
  obtain e off k where h: "lookt l tbl u s = Some (e, off, k)" "u - off < v + n" "v < u - off + blk k"
    using assms(1) by (auto simp: hit_def)
  note b = lookt_bounds [OF h(1)]
  let ?B = "blk l"
  have v: "v = v div ?B * ?B + v mod ?B" by simp
  have "u div ?B * ?B < v div ?B * ?B + ?B" "v div ?B * ?B < u div ?B * ?B + ?B" using b h v assms(2) by linarith+
  then have "u div ?B * ?B < (v div ?B + 1) * ?B" "v div ?B * ?B < (u div ?B + 1) * ?B" by simp_all
  then show ?thesis by (simp only: mult_less_cancel2) simp
qed

lemma hit_split:
  assumes "0 < c" "c \<le> n"
  shows "hit l tbl v n u s \<longleftrightarrow> hit l tbl v c u s \<or> hit l tbl (v + c) (n - c) u s"
proof -
  have "(0 < n \<and> b < v + n \<and> v < b + blk k) \<longleftrightarrow> (0 < c \<and> b < v + c \<and> v < b + blk k) \<or> (0 < n - c \<and> b < v + c + (n - c) \<and> v + c < b + blk k)"
    for b k using assms blk_pos(1) [of k] by linarith
  then show ?thesis unfolding hit_def by blast
qed

definition unmapped :: "nat \<Rightarrow> u64 \<Rightarrow> nat \<Rightarrow> nat \<Rightarrow> 'a arm64_state_scheme \<Rightarrow> 'a arm64_state_scheme \<Rightarrow> bool" where
  "unmapped l tbl v n s s' \<longleftrightarrow> pt_step l tbl s s' \<and>
     (\<forall>u < 512 * blk l. lookt l tbl u s' = (if hit l tbl v n u s then None else lookt l tbl u s)) \<and>
     (\<forall>j < 512. pt_mem s' tbl j = pt_mem s tbl j \<or> pt_mem s' tbl j = 0) \<and>
     (\<forall>j < 512. v \<le> j * blk l \<longrightarrow> (j + 1) * blk l \<le> v + n \<longrightarrow> pt_mem s' tbl j = 0)"

lemma unmapped_none: "pt_pre l tbl s \<Longrightarrow> unmapped l tbl v 0 s s"
proof -
  assume "pt_pre l tbl s"
  moreover have "\<not> hit l tbl v 0 u s" for u by (simp add: hit_def)
  moreover have "\<not> (v \<le> j * blk l \<and> (j + 1) * blk l \<le> v + 0)" for j using blk_pos(1) [of l] add_mult_distrib [of j 1 "blk l"] by linarith
  ultimately show ?thesis unfolding unmapped_def using pt_step_refl by metis
qed

lemma unmapped_trans:
  assumes "pt_pre l tbl s" "unmapped l tbl v c s s1" "unmapped l tbl (v + c) (n - c) s1 s2" "0 < c" "c \<le> n"
    "c = n \<or> blk l dvd v + c"
  shows "unmapped l tbl v n s s2"
proof -
  have "pt_step l tbl s s2" using assms(1-3) pt_step_trans unfolding unmapped_def by blast
  moreover have "lookt l tbl u s2 = (if hit l tbl v n u s then None else lookt l tbl u s)" if u: "u < 512 * blk l" for u
  proof -
    have 1: "lookt l tbl u s1 = (if hit l tbl v c u s then None else lookt l tbl u s)"
      and 2: "lookt l tbl u s2 = (if hit l tbl (v + c) (n - c) u s1 then None else lookt l tbl u s1)"
      using assms(2,3) u by (auto simp: unmapped_def)
    show ?thesis
    proof (cases "hit l tbl v c u s")
      case True
      then show ?thesis using 1 2 hit_split [OF assms(4,5), of l tbl v u s] by simp
    next
      case False
      then have "lookt l tbl u s1 = lookt l tbl u s" using 1 by simp
      then have "hit l tbl (v + c) (n - c) u s1 = hit l tbl (v + c) (n - c) u s" by (simp add: hit_def)
      then show ?thesis using 2 False 1 hit_split [OF assms(4,5), of l tbl v u s] by simp
    qed
  qed
  moreover have "pt_mem s2 tbl j = 0" if j: "j < 512" "v \<le> j * blk l" "(j + 1) * blk l \<le> v + n" for j
  proof (cases "(j + 1) * blk l \<le> v + c")
    case True
    then have "pt_mem s1 tbl j = 0" using assms(2) j by (simp add: unmapped_def)
    then show ?thesis using assms(3) j(1) by (auto simp: unmapped_def)
  next
    case False
    then obtain q where q: "v + c = blk l * q" using j(3) assms(6) by (auto elim: dvdE)
    then have "blk l * q < blk l * (j + 1)" using False by (simp add: mult.commute)
    then have "q < j + 1" by (simp only: mult_less_cancel1)
    then have "q \<le> j" by simp
    then have "v + c \<le> j * blk l" using q by (simp add: mult.commute)
    then show ?thesis using assms(3,5) j by (simp add: unmapped_def)
  qed
  ultimately show ?thesis using assms(2,3) unfolding unmapped_def by metis
qed

section \<open>Unmapping\<close>

lemma unmap_leaf:
  assumes "pt_pre l tbl s" "v div blk l < 512" "leaf_pte l (pt_mem s tbl (v div blk l))" "0 < c" "v mod blk l + c \<le> blk l"
  shows "unmapped l tbl v c s (if pt_mem s tbl (v div blk l) \<noteq> 0 then set_pte tbl (v div blk l) 0 s else s)"
proof -
  let ?i = "v div blk l" and ?e = "pt_mem s tbl (v div blk l)"
  let ?s = "set_pte tbl (v div blk l) 0 s"
  have z: "leaf_pte l 0" by (simp add: leaf_pte_def)
  note st = set_leaf_step [OF assms(1-3) z]
  have v: "v = ?i * blk l + v mod blk l" by simp
  have h: "hit l tbl v c u s \<longleftrightarrow> u div blk l = ?i \<and> ?e \<noteq> 0" for u
  proof
    assume a: "hit l tbl v c u s"
    then have i: "u div blk l = ?i" by (rule hit_same_entry [OF _ assms(5)])
    then have "lookt l tbl u s = (if ?e = 0 then None else Some (?e, u mod blk l, l))"
      using look_leaf [OF assms(3)] by (simp only: lookt_def)
    then show "u div blk l = ?i \<and> ?e \<noteq> 0" using i a by (auto simp: hit_def)
  next
    assume a: "u div blk l = ?i \<and> ?e \<noteq> 0"
    then have "lookt l tbl u s = Some (?e, u mod blk l, l)" using look_leaf [OF assms(3)] by (simp add: lookt_def)
    moreover have "u - u mod blk l = ?i * blk l" using a by (simp add: minus_mod_eq_div_mult)
    moreover have "?i * blk l < v + c \<and> v < ?i * blk l + blk l" using v assms(4) mod_less_divisor [OF blk_pos(1), of v l] by linarith
    ultimately show "hit l tbl v c u s" unfolding hit_def using assms(4) by simp
  qed
  have whole: "j = ?i" if "v \<le> j * blk l" "(j + 1) * blk l \<le> v + c" for j
  proof -
    have "j * blk l < (?i + 1) * blk l" "?i * blk l < (j + 1) * blk l"
      using that v assms(4,5) blk_pos(1) [of l] add_mult_distrib [of j 1 "blk l"] add_mult_distrib [of ?i 1 "blk l"] by linarith+
    then show ?thesis by (simp only: mult_less_cancel2) simp
  qed
  show ?thesis
  proof (cases "?e = 0")
    case True
    then show ?thesis unfolding unmapped_def using h whole pt_step_refl [OF assms(1)] by auto
  next
    case False
    then show ?thesis unfolding unmapped_def using h whole st by auto
  qed
qed

lemma hit_child:
  assumes "u div blk (Suc l) = v div blk (Suc l)" "lookt (Suc l) tbl u s = lookt l t (u mod blk (Suc l)) s"
  shows "hit (Suc l) tbl v c u s \<longleftrightarrow> hit l t (v mod blk (Suc l)) c (u mod blk (Suc l)) s"
proof -
  let ?B = "blk (Suc l)"
  have uv: "u = v div ?B * ?B + u mod ?B" "v = v div ?B * ?B + v mod ?B" using assms(1) div_mult_mod_eq [of u ?B] by simp_all
  have "(u - off < v + c \<and> v < u - off + blk k) \<longleftrightarrow> (u mod ?B - off < v mod ?B + c \<and> v mod ?B < u mod ?B - off + blk k)"
    if "lookt (Suc l) tbl u s = Some (e, off, k)" for e off k
  proof -
    have "off \<le> u mod ?B" by (rule lookt_bounds(5) [OF that])
    then show ?thesis using uv by linarith
  qed
  then show ?thesis unfolding hit_def assms(2) by (metis (no_types, lifting))
qed

lemma unmapped_child:
  assumes "pt_pre (Suc l) tbl s" "v div blk (Suc l) < 512" "pt_mem s tbl (v div blk (Suc l)) = table_pte s p" "p \<in> used_pages s"
    "unmapped l (kva s p) (v mod blk (Suc l)) c s s1" "v mod blk (Suc l) + c \<le> blk (Suc l)"
  shows "pt_step (Suc l) tbl s s1" "pt_mem s1 tbl = pt_mem s tbl" "p \<in> used_pages s1"
    "\<And>u. u < 512 * blk (Suc l) \<Longrightarrow> lookt (Suc l) tbl u s1 = (if hit (Suc l) tbl v c u s then None else lookt (Suc l) tbl u s)"
proof -
  let ?i = "v div blk (Suc l)" and ?B = "blk (Suc l)"
  have st: "pt_step l (kva s p) s s1" using assms(5) by (simp add: unmapped_def)
  note c = child_step [OF assms(1-4) st]
  show "pt_step (Suc l) tbl s s1" "pt_mem s1 tbl = pt_mem s tbl" "p \<in> used_pages s1" using c(1-3) .
  fix u assume u: "u < 512 * ?B"
  have g: "geom_ok s" using assms(1) by (simp add: pt_pre_def)
  show "lookt (Suc l) tbl u s1 = (if hit (Suc l) tbl v c u s then None else lookt (Suc l) tbl u s)"
  proof (cases "u div ?B = ?i")
    case True
    have l0: "lookt (Suc l) tbl u s = lookt l (kva s p) (u mod ?B) s"
      unfolding lookt_def [of "Suc l"] True assms(3) by (rule look_table [OF g used_all(1) [OF assms(4)]])
    have "u mod ?B < 512 * blk l" using mod_less_divisor [OF blk_pos(1), of u "Suc l"] by (simp only: blk_Suc)
    then have "lookt l (kva s p) (u mod ?B) s1 = (if hit l (kva s p) (v mod ?B) c (u mod ?B) s then None else lookt l (kva s p) (u mod ?B) s)"
      using assms(5) unfolding unmapped_def by blast
    then show ?thesis using c(4) [OF u] True hit_child [OF True l0, of c] l0 by simp
  next
    case False
    then have "\<not> hit (Suc l) tbl v c u s" using hit_same_entry [OF _ assms(6)] by blast
    then show ?thesis using c(4) [OF u] False by simp
  qed
qed

text \<open>The body of the loop.\<close>

definition unmap_entry :: "u64 \<Rightarrow> u64 \<Rightarrow> nat \<Rightarrow> u64 \<Rightarrow> 'a arm64_state_scheme \<Rightarrow> 'a arm64_state_scheme option" where
  "unmap_entry v sz l tbl s =
     (let block = push_bit (12 + 9 * l) 1; i = unat v div blk l; pte = pt_mem s tbl i; c = chunk_size v sz (12 + 9 * l) in
      if 0 < l \<and> pte AND 3 = 3
      then paddr_to_kvaddr (pte AND MMU_PTE_OUTPUT_ADDR_MASK) s \<bind> (\<lambda>t.
           arm64_mmu_unmap_pt (v AND (block - 1)) c (12 + 9 * (l - 1)) t s \<bind> (\<lambda>s1.
           if c = block \<or> page_table_is_clear t s1
           then free_page_table (pte AND MMU_PTE_OUTPUT_ADDR_MASK) (set_pte tbl i 0 s1) else Some s1))
      else Some (if pte \<noteq> 0 then set_pte tbl i 0 s else s))"

lemma unmap_unfold:
  assumes "unat v div blk l < 512" "sz \<noteq> 0"
  shows "arm64_mmu_unmap_pt v sz (12 + 9 * l) tbl s = unmap_entry v sz l tbl s \<bind>
    (\<lambda>s2. arm64_mmu_unmap_pt (v + chunk_size v sz (12 + 9 * l)) (sz - chunk_size v sz (12 + 9 * l)) (12 + 9 * l) tbl s2)"
proof -
  have "12 + 9 * l - (12 - 3) = 12 + 9 * (l - 1)" if "0 < l" using that by simp
  moreover have "12 < 12 + 9 * l \<longleftrightarrow> 0 < l" by simp
  ultimately show ?thesis using assms unfolding unmap_entry_def Let_def
    by (subst arm64_mmu_unmap_pt.simps) (simp add: Let_def unat_index cong: if_cong)
qed

lemma block_chunk: "l \<le> 3 \<Longrightarrow> (chunk_size v sz (12 + 9 * l) = push_bit (12 + 9 * l) 1) \<longleftrightarrow> min (unat sz) (blk l - unat v mod blk l) = blk l"
  using unat_chunk [of l v sz] unat_block [of l] by (simp add: word_unat_eq_iff)

lemma unmap_entry_ok:
  assumes "l \<le> 3" "pt_pre l tbl s" "unat v + unat sz \<le> 512 * blk l" "0 < unat sz"
    "\<And>l' t v sz. l = Suc l' \<Longrightarrow> pt_pre l' t s \<Longrightarrow> unat v + unat sz \<le> 512 * blk l' \<Longrightarrow>
       \<exists>s'. arm64_mmu_unmap_pt v sz (12 + 9 * l') t s = Some s' \<and> unmapped l' t (unat v) (unat sz) s s'"
  shows "\<exists>s2. unmap_entry v sz l tbl s = Some s2 \<and> unmapped l tbl (unat v) (min (unat sz) (blk l - unat v mod blk l)) s s2"
proof -
  let ?v = "unat v" and ?B = "blk l" and ?c = "min (unat sz) (blk l - unat v mod blk l)"
  let ?i = "unat v div blk l" and ?ch = "chunk_size v sz (12 + 9 * l)"
  note r = chunk_rest [OF assms(1,4,3)]
  have in_entry: "?v mod ?B + ?c \<le> ?B" using r(5) by simp
  have g: "geom_ok s" using assms(2) by (simp add: pt_pre_def)
  have "ent_ok l (pt_mem s tbl ?i) s" using assms(2) r(6) by (simp add: pt_pre_def wf_pt_def)
  with g show ?thesis
  proof (cases rule: leaf_or_table)
    case 1
    have "\<not> (0 < l \<and> pt_mem s tbl ?i AND 3 = 3)" using 1 by (auto simp: leaf_pte_def)
    then have "unmap_entry v sz l tbl s = Some (if pt_mem s tbl ?i \<noteq> 0 then set_pte tbl ?i 0 s else s)" by (simp only: unmap_entry_def Let_def if_False)
    then show ?thesis using unmap_leaf [OF assms(2) r(6) 1 r(3) in_entry] by blast
  next
    case (2 l' p)
    note a = used_all(1) [OF 2(2)] and tp = table_pte_props [OF g used_all(1) [OF 2(2)]]
    let ?t = "kva s p"
    have pre: "pt_pre (Suc l') tbl s" using assms(2) 2(1) by simp
    note cp = child_pre [OF pre r(6) 2(3,2)]
    have range: "unat (v AND (push_bit (12 + 9 * l) 1 - 1)) + unat ?ch \<le> 512 * blk l'"
      unfolding unat_rem unat_chunk [OF assms(1)] using in_entry 2(1) by (simp add: blk_Suc)
    obtain s1 where s1: "arm64_mmu_unmap_pt (v AND (push_bit (12 + 9 * l) 1 - 1)) ?ch (12 + 9 * l') ?t s = Some s1"
      "unmapped l' ?t (?v mod ?B) ?c s s1"
      using assms(5) [OF 2(1) cp(1) range] unfolding unat_rem unat_chunk [OF assms(1)] by blast
    note u = unmapped_child [OF pre r(6) [unfolded 2(1)] 2(3) [unfolded 2(1)] 2(2) s1(2) [unfolded 2(1)] in_entry [unfolded 2(1)], folded 2(1)]
    note geom = pt_stepD(1) [OF u(1)]
    have pre1: "pt_pre l tbl s1" using pt_step_pre(1) [OF assms(2) u(1)] .
    have form: "unmap_entry v sz l tbl s = (if ?c = ?B \<or> page_table_is_clear ?t s1
        then free_page_table (vm_page_to_paddr p s) (set_pte tbl ?i 0 s1) else Some s1)"
      using tp(1,2) 2(1,3) geomD(3) [OF g a] s1(1) block_chunk [OF assms(1), of v sz] by (simp add: unmap_entry_def Let_def)
    show ?thesis
    proof (cases "?c = ?B \<or> page_table_is_clear ?t s1")
      case False
      have "\<not> (?v \<le> j * ?B \<and> (j + 1) * ?B \<le> ?v + ?c)" for j
        using False r(5) add_mult_distrib [of j 1 ?B] by linarith
      then have "unmapped l tbl ?v ?c s s1" unfolding unmapped_def using u(1,2,4) by simp
      then show ?thesis using form False by auto
    next
      case True
      have k: "kva s1 p = ?t" using same_geom_kva(1) [OF geom] by simp
      have z: "pt_mem s1 (kva s1 p) j = 0" if j: "j < 512" for j
      proof (cases "page_table_is_clear ?t s1")
        case False
        then have c: "?c = ?B" "?v mod ?B = 0" using True r(5) by simp_all
        have "(j + 1) * blk l' \<le> 512 * blk l'" using j by (intro mult_le_mono1) simp
        then have "(j + 1) * blk l' \<le> ?v mod ?B + ?c" using c 2(1) by (simp only: blk_Suc add_0)
        then show ?thesis using s1(2) j c(2) unfolding unmapped_def k by simp
      qed (use j k in \<open>simp add: page_table_is_clear_def list_all_iff\<close>)
      have e1: "pt_mem s1 tbl ?i = table_pte s1 p" using u(2) 2(3) table_pte_geom [OF geom] by simp
      obtain s2 where s2: "free_page_table (vm_page_to_paddr p s1) (set_pte tbl ?i 0 s1) = Some s2" "pt_step l tbl s1 s2"
        "pt_mem s2 tbl = (pt_mem s1 tbl)(?i := 0)" "\<forall>u < 512 * ?B. lookt l tbl u s2 = (if u div ?B = ?i then None else lookt l tbl u s1)"
        using unlink_step [OF pre1 [unfolded 2(1)] r(6) [unfolded 2(1)] e1 [unfolded 2(1)] u(3) z] 2(1) by auto
      have none: "lookt l tbl u s1 = None" if "u div ?B = ?i" for u
      proof -
        have g1: "geom_ok s1" using pre1 by (simp add: pt_pre_def)
        have "u mod ?B div blk l' < 512" using index_bound [of "u mod ?B" l'] mod_less_divisor [OF blk_pos(1), of u l] 2(1) by (simp only: blk_Suc)
        then have "lookt l' (kva s1 p) (u mod ?B) s1 = None" using z by (cases l') (simp_all add: lookt_def)
        moreover have "lookt l tbl u s1 = look (Suc l') (table_pte s1 p) (u mod ?B) s1"
          using that [unfolded 2(1)] e1 [unfolded 2(1)] by (simp only: lookt_def 2(1))
        ultimately show ?thesis by (simp only: look_table [OF g1 used_all(1) [OF u(3)]])
      qed
      have "lookt l tbl x s2 = (if hit l tbl ?v ?c x s then None else lookt l tbl x s)" if x: "x < 512 * ?B" for x
        using s2(4) x u(4) [OF x] none [of x] by (cases "x div ?B = ?i") auto
      moreover have "pt_step l tbl s s2" by (rule pt_step_trans [OF assms(2) u(1) s2(2)])
      moreover have "pt_mem s2 tbl j = 0" if j: "?v \<le> j * ?B" "(j + 1) * ?B \<le> ?v + ?c" for j
      proof -
        have "?v = ?i * ?B + ?v mod ?B" by simp
        then have "j * ?B < (?i + 1) * ?B" "?i * ?B < (j + 1) * ?B"
          using j r(3) in_entry blk_pos(1) [of l] add_mult_distrib [of j 1 ?B] add_mult_distrib [of ?i 1 ?B] by linarith+
        then have "j = ?i" by (simp only: mult_less_cancel2) simp
        then show ?thesis using s2(3) by simp
      qed
      moreover have "pt_mem s2 tbl j = pt_mem s tbl j \<or> pt_mem s2 tbl j = 0" for j using s2(3) u(2) by simp
      ultimately have "unmapped l tbl ?v ?c s s2" unfolding unmapped_def by blast
      moreover have "vm_page_to_paddr p s1 = vm_page_to_paddr p s" by (rule same_geomD(1) [OF geom])
      ultimately show ?thesis using form True s2(1) by auto
    qed
  qed
qed

theorem unmap_pt_ok:
  fixes s :: "'a arm64_state_scheme"
  assumes "l \<le> 3" "pt_pre l tbl s" "unat v + unat sz \<le> 512 * blk l"
  shows "\<exists>s'. arm64_mmu_unmap_pt v sz (12 + 9 * l) tbl s = Some s' \<and> unmapped l tbl (unat v) (unat sz) s s'"
  using assms
proof (induction l arbitrary: tbl v sz s rule: less_induct)
  case (less l)
  have IH: "\<exists>s'. arm64_mmu_unmap_pt v sz (12 + 9 * l') t s = Some s' \<and> unmapped l' t (unat v) (unat sz) s s'"
    if "l = Suc l'" "pt_pre l' t s" "unat v + unat sz \<le> 512 * blk l'" for l' t and s :: "'a arm64_state_scheme" and v sz :: u64
    using less.IH [of l' t s v sz] that less.prems(1) by simp
  show ?case using less.prems(2,3)
  proof (induction "unat sz" arbitrary: v sz s rule: less_induct)
    case inner: less
    show ?case
    proof (cases "unat sz = 0")
      case True
      then have "sz = 0" by (simp add: unat_eq_0)
      then show ?thesis using unmapped_none [OF inner.prems(1)] by (subst arm64_mmu_unmap_pt.simps) simp
    next
      case False
      let ?c = "min (unat sz) (blk l - unat v mod blk l)"
      have pos: "0 < unat sz" using False by simp
      note r = chunk_rest [OF less.prems(1) pos inner.prems(2)]
      obtain s2 where s2: "unmap_entry v sz l tbl s = Some s2" "unmapped l tbl (unat v) ?c s s2"
        using unmap_entry_ok [OF less.prems(1) inner.prems(1,2) pos IH] by blast
      have pre: "pt_pre l tbl s2" using pt_step_pre(1) [OF inner.prems(1)] s2(2) by (simp add: unmapped_def)
      obtain s3 where s3: "arm64_mmu_unmap_pt (v + chunk_size v sz (12 + 9 * l)) (sz - chunk_size v sz (12 + 9 * l)) (12 + 9 * l) tbl s2 = Some s3"
        "unmapped l tbl (unat v + ?c) (unat sz - ?c) s2 s3"
        using inner.hyps [of "sz - chunk_size v sz (12 + 9 * l)" s2 "v + chunk_size v sz (12 + 9 * l)"] r pre inner.prems(2) unfolding r(1,2) by auto
      have "?c = unat sz \<or> blk l dvd unat v + ?c"
      proof (cases "?c = unat sz")
        case False
        then have "?c = blk l - unat v mod blk l" by simp
        moreover have "unat v mod blk l < blk l" by simp
        moreover have "unat v = unat v div blk l * blk l + unat v mod blk l" by simp
        ultimately have "unat v + ?c = unat v div blk l * blk l + blk l" by linarith
        then show ?thesis by simp
      qed simp
      then have "unmapped l tbl (unat v) (unat sz) s s3" using unmapped_trans [OF inner.prems(1) s2(2) s3(2) r(3,4)] by blast
      moreover have "sz \<noteq> 0" using False by auto
      ultimately show ?thesis using unmap_unfold [OF r(6), of sz tbl s] s2(1) s3(1) by simp
    qed
  qed
qed

end
