(* ===== verification/Arm64_Map.thy ===== *)
theory Arm64_Map
  imports Arm64_Unmap
begin

text \<open>
  Mapping a range: it ends; it either gives every address of the range the translation asked for,
  when none had one, or fails and leaves every translation as it was.
\<close>

section \<open>Leaves\<close>

text \<open>The addresses under one page or block have the same entry.\<close>

lemma look_same_leaf:
  assumes "look l e u s = Some (e', off, k)" "u < blk l" "u - off \<le> w" "w < u - off + blk k"
  shows "look l e w s = Some (e', w - (u - off), k)"
  using assms
proof (induction l arbitrary: e u w)
  case 0
  then show ?case by (auto split: if_splits)
next
  case (Suc l)
  show ?case
  proof (cases "e AND 3 = 3")
    case True
    have e: "e \<noteq> 0" using True by auto
    let ?t = "kva s (pg s e)" and ?B = "blk l"
    have l: "look l (pt_mem s ?t (u div ?B)) (u mod ?B) s = Some (e', off, k)" using Suc.prems(1) True e by simp
    have m: "u mod ?B < ?B" by simp
    note b = look_bounds [OF l m]
    have u: "u = u div ?B * ?B + u mod ?B" by simp
    have lo: "u div ?B * ?B \<le> w" "w < (u div ?B + 1) * ?B" using u b Suc.prems(3,4) add_mult_distrib [of "u div ?B" 1 ?B] by linarith+
    have d: "w div ?B = u div ?B" using lo by (intro div_nat_eqI) (simp_all add: mult.commute)
    have w: "w = u div ?B * ?B + w mod ?B" using d div_mult_mod_eq [of w ?B] by simp
    have "u mod ?B - off \<le> w mod ?B" "w mod ?B < u mod ?B - off + blk k" using u w b Suc.prems(3,4) by linarith+
    from Suc.IH [OF l m this] have "look l (pt_mem s ?t (w div ?B)) (w mod ?B) s = Some (e', w mod ?B - (u mod ?B - off), k)" using d by simp
    moreover have "w mod ?B - (u mod ?B - off) = w - (u - off)" using u w b by linarith
    ultimately show ?thesis using True e by simp
  next
    case False
    then show ?thesis using Suc.prems by (auto split: if_splits)
  qed
qed

lemma lookt_same_leaf:
  assumes "lookt l tbl u s = Some (e, off, k)" "u - off \<le> w" "w < u - off + blk k"
  shows "lookt l tbl w s = Some (e, w - (u - off), k)"
proof -
  note b = lookt_bounds [OF assms(1)]
  let ?B = "blk l"
  have u: "u = u div ?B * ?B + u mod ?B" by simp
  have lo: "u div ?B * ?B \<le> w" "w < (u div ?B + 1) * ?B" using b assms(2,3) add_mult_distrib [of "u div ?B" 1 ?B] by linarith+
  have d: "w div ?B = u div ?B" using lo by (intro div_nat_eqI) (simp_all add: mult.commute)
  have w: "w = u div ?B * ?B + w mod ?B" using d div_mult_mod_eq [of w ?B] by simp
  have m: "u mod ?B - off \<le> w mod ?B" "w mod ?B < u mod ?B - off + blk k" using u w b assms(2,3) by linarith+
  have "w mod ?B - (u mod ?B - off) = w - (u - off)" using u w b by linarith
  then show ?thesis using look_same_leaf [OF assms(1) [unfolded lookt_def] _ m] d by (simp add: lookt_def)
qed

section \<open>Mapped ranges\<close>

definition translates :: "nat \<Rightarrow> u64 \<Rightarrow> nat \<Rightarrow> nat \<Rightarrow> nat \<Rightarrow> u64 \<Rightarrow> nat \<Rightarrow> 'a arm64_state_scheme \<Rightarrow> bool" where
  "translates l tbl v n pa attrs u s \<longleftrightarrow> (\<exists>e off k. lookt l tbl u s = Some (e, off, k) \<and> v \<le> u - off \<and> u - off + blk k \<le> v + n \<and>
     unat (e AND MMU_PTE_OUTPUT_ADDR_MASK) + off = pa + (u - v) \<and> e AND NOT (MMU_PTE_OUTPUT_ADDR_MASK OR 3) = attrs)"

definition mapped :: "nat \<Rightarrow> u64 \<Rightarrow> nat \<Rightarrow> nat \<Rightarrow> nat \<Rightarrow> u64 \<Rightarrow> 'a arm64_state_scheme \<Rightarrow> 'a arm64_state_scheme \<Rightarrow> bool" where
  "mapped l tbl v n pa attrs s s' \<longleftrightarrow> pt_step l tbl s s' \<and>
     (\<forall>u < 512 * blk l. if v \<le> u \<and> u < v + n then lookt l tbl u s = None \<and> translates l tbl v n pa attrs u s'
        else lookt l tbl u s' = lookt l tbl u s)"

definition same_look :: "nat \<Rightarrow> u64 \<Rightarrow> 'a arm64_state_scheme \<Rightarrow> 'a arm64_state_scheme \<Rightarrow> bool" where
  "same_look l tbl s s' \<longleftrightarrow> pt_step l tbl s s' \<and> (\<forall>u < 512 * blk l. lookt l tbl u s' = lookt l tbl u s)"

lemma mapped_none: "pt_pre l tbl s \<Longrightarrow> mapped l tbl v 0 pa attrs s s"
  by (auto simp: mapped_def pt_step_refl)

lemma translates_same: "lookt l tbl u s' = lookt l tbl u s \<Longrightarrow> translates l tbl v n pa attrs u s' = translates l tbl v n pa attrs u s"
  by (simp add: translates_def)

lemma translates_widen:
  assumes "translates l tbl v n pa attrs u s" "w \<le> v" "v + n \<le> w + m" "pa = pb + (v - w)" "v \<le> u"
  shows "translates l tbl w m pb attrs u s"
proof -
  obtain e off k where k: "lookt l tbl u s = Some (e, off, k)" "v \<le> u - off" "u - off + blk k \<le> v + n"
    "unat (e AND MMU_PTE_OUTPUT_ADDR_MASK) + off = pa + (u - v)" "e AND NOT (MMU_PTE_OUTPUT_ADDR_MASK OR 3) = attrs"
    using assms(1) unfolding translates_def by blast
  have "w \<le> u - off" "u - off + blk k \<le> w + m" "pa + (u - v) = pb + (u - w)" using k(2,3) assms(2-5) by linarith+
  then show ?thesis unfolding translates_def using k(1,4,5) by metis
qed

lemma mapped_trans:
  assumes "pt_pre l tbl s" "mapped l tbl v c pa attrs s s1" "mapped l tbl (v + c) d (pa + c) attrs s1 s2"
  shows "mapped l tbl v (c + d) pa attrs s s2"
proof -
  have "pt_step l tbl s s2" using assms pt_step_trans unfolding mapped_def by blast
  moreover have "if v \<le> u \<and> u < v + (c + d) then lookt l tbl u s = None \<and> translates l tbl v (c + d) pa attrs u s2
      else lookt l tbl u s2 = lookt l tbl u s" if u: "u < 512 * blk l" for u
  proof -
    have 1: "if v \<le> u \<and> u < v + c then lookt l tbl u s = None \<and> translates l tbl v c pa attrs u s1 else lookt l tbl u s1 = lookt l tbl u s"
      and 2: "if v + c \<le> u \<and> u < v + c + d then lookt l tbl u s1 = None \<and> translates l tbl (v + c) d (pa + c) attrs u s2
        else lookt l tbl u s2 = lookt l tbl u s1" using assms(2,3) u unfolding mapped_def by blast+
    consider "u < v \<or> v + (c + d) \<le> u" | "v \<le> u" "u < v + c" | "v + c \<le> u" "u < v + (c + d)" by linarith
    then show ?thesis
    proof cases
      case a: 1
      then have n: "\<not> (v \<le> u \<and> u < v + c)" "\<not> (v + c \<le> u \<and> u < v + c + d)" "\<not> (v \<le> u \<and> u < v + (c + d))" by linarith+
      show ?thesis using 1 2 by (simp only: n if_False)
    next
      case a: 2
      then have "lookt l tbl u s2 = lookt l tbl u s1" "translates l tbl v c pa attrs u s1" "lookt l tbl u s = None" using 1 2 by simp_all
      then show ?thesis using translates_widen [of l tbl v c pa attrs u s2 v "c + d" pa] a translates_same [of l tbl u s2 s1 v c pa attrs] by simp
    next
      case a: 3
      then have n: "\<not> (v \<le> u \<and> u < v + c)" "v + c \<le> u \<and> u < v + c + d" by linarith+
      then have "translates l tbl (v + c) d (pa + c) attrs u s2" "lookt l tbl u s = None" using 1 2 unfolding if_not_P [OF n(1)] if_P [OF n(2)] by simp_all
      moreover have m: "v \<le> u \<and> u < v + (c + d)" using a by linarith
      moreover have "translates l tbl v (c + d) pa attrs u s2"
        by (rule translates_widen [OF calculation(1)]) (use a(1) in simp_all)
      ultimately show ?thesis unfolding if_P [OF m] by blast
    qed
  qed
  ultimately show ?thesis unfolding mapped_def by blast
qed

text \<open>The error path: what was mapped is unmapped again, and nothing else is hit.\<close>

lemma undo_mapped:
  assumes "pt_pre l tbl s" "mapped l tbl v n pa attrs s s1" "same_look l tbl s1 s2" "unmapped l tbl v n s2 s3"
  shows "same_look l tbl s s3"
proof -
  have "pt_step l tbl s s3" using assms pt_step_trans [OF assms(1)] unfolding mapped_def same_look_def unmapped_def by blast
  moreover have "lookt l tbl u s3 = lookt l tbl u s" if u: "u < 512 * blk l" for u
  proof -
    have l2: "lookt l tbl w s2 = lookt l tbl w s1" if "w < 512 * blk l" for w using assms(3) that by (simp add: same_look_def)
    have m: "if v \<le> w \<and> w < v + n then lookt l tbl w s = None \<and> translates l tbl v n pa attrs w s1 else lookt l tbl w s1 = lookt l tbl w s"
      if "w < 512 * blk l" for w using assms(2) that unfolding mapped_def by blast
    have un: "lookt l tbl u s3 = (if hit l tbl v n u s2 then None else lookt l tbl u s2)" using assms(4) u by (simp add: unmapped_def)
    show ?thesis
    proof (cases "v \<le> u \<and> u < v + n")
      case True
      then have n: "lookt l tbl u s = None" and t: "translates l tbl v n pa attrs u s2"
        using m [OF u] translates_same [OF l2 [OF u], of v n pa attrs] by auto
      then obtain e off k where k: "lookt l tbl u s2 = Some (e, off, k)" by (auto simp: translates_def)
      have "u - off < v + n" "v < u - off + blk k" using True lookt_bounds [OF k] by linarith+
      then have "hit l tbl v n u s2" unfolding hit_def using k True by auto
      then show ?thesis using un n by simp
    next
      case False
      have "\<not> hit l tbl v n u s2"
      proof
        assume "hit l tbl v n u s2"
        then obtain e off k where k: "lookt l tbl u s2 = Some (e, off, k)" "0 < n" "u - off < v + n" "v < u - off + blk k" by (auto simp: hit_def)
        define w where "w = max v (u - off)"
        have w: "u - off \<le> w" "w < u - off + blk k" "v \<le> w" "w < v + n" using k by (auto simp: w_def)
        have "u - off + blk k \<le> 512 * blk l"
        proof -
          have "u div blk l + 1 \<le> 512" using u index_bound [of u l] by simp
          then have "(u div blk l + 1) * blk l \<le> 512 * blk l" by (rule mult_le_mono1)
          then show ?thesis using lookt_bounds(3) [OF k(1)] add_mult_distrib [of "u div blk l" 1 "blk l"] by linarith
        qed
        then have wb: "w < 512 * blk l" using w by simp
        have lw: "lookt l tbl w s2 = Some (e, w - (u - off), k)" by (rule lookt_same_leaf [OF k(1) w(1,2)])
        have "translates l tbl v n pa attrs w s2" using m [OF wb] w translates_same [OF l2 [OF wb], of v n pa attrs] by auto
        then have "v \<le> u - off" "u - off + blk k \<le> v + n" using lw w(1) by (auto simp: translates_def)
        then show False using False lookt_bounds(1,4) [OF k(1)] by linarith
      qed
      then show ?thesis using un l2 [OF u] m [OF u] False by auto
    qed
  qed
  ultimately show ?thesis unfolding same_look_def by blast
qed

section \<open>One entry\<close>

text \<open>Attributes leave the address and the type of an entry alone.\<close>

definition attrs_ok :: "u64 \<Rightarrow> bool" where
  "attrs_ok attrs \<longleftrightarrow> attrs AND (MMU_PTE_OUTPUT_ADDR_MASK OR 3) = 0"

definition new_pte :: "nat \<Rightarrow> u64 \<Rightarrow> u64 \<Rightarrow> u64" where
  "new_pte l paddr attrs = paddr OR attrs OR (if 12 + 9 * l > 12 then 1 else 3)"

lemma new_pte_props:
  assumes "attrs_ok attrs" "paddr AND MMU_PTE_OUTPUT_ADDR_MASK = paddr"
  shows "new_pte l paddr attrs AND MMU_PTE_OUTPUT_ADDR_MASK = paddr" "new_pte l paddr attrs AND 3 = (if 0 < l then 1 else 3)"
    "new_pte l paddr attrs AND NOT (MMU_PTE_OUTPUT_ADDR_MASK OR 3) = attrs" "leaf_pte l (new_pte l paddr attrs)" "new_pte l paddr attrs \<noteq> 0"
proof -
  let ?M = "0x0000FFFFFFFFF000 :: u64" and ?t = "if 0 < l then 1 else 3 :: u64"
  have e: "new_pte l paddr attrs = paddr OR attrs OR ?t" by (simp add: new_pte_def)
  have d: "(a OR b OR c) AND m = (a AND m) OR (b AND m) OR (c AND m)" for a b c m :: u64 by (simp add: bit.conj_disj_distrib2)
  have mo: "attrs AND ?M = 0" "attrs AND 3 = 0"
  proof -
    have z: "attrs AND (?M OR 3) = 0" using assms(1) by (simp only: attrs_ok_def)
    have "attrs AND ?M = (attrs AND (?M OR 3)) AND ?M" "attrs AND 3 = (attrs AND (?M OR 3)) AND 3" unfolding and.assoc by simp_all
    then show "attrs AND ?M = 0" "attrs AND 3 = 0" unfolding z by simp_all
  qed
  have p3: "paddr AND 3 = 0" "paddr AND NOT ?M = 0"
  proof -
    have "paddr AND 3 = (paddr AND ?M) AND 3" using assms(2) by simp
    also have "\<dots> = paddr AND (?M AND 3)" by (simp only: and.assoc)
    finally show "paddr AND 3 = 0" by simp
    have "paddr AND NOT ?M = (paddr AND ?M) AND NOT ?M" using assms(2) by simp
    then show "paddr AND NOT ?M = 0" by (simp only: and.assoc bit.conj_cancel_right and_zero_eq)
  qed
  show "new_pte l paddr attrs AND ?M = paddr" unfolding e d using mo assms(2) by simp
  show t: "new_pte l paddr attrs AND 3 = ?t" unfolding e d using mo p3 by simp
  then show "leaf_pte l (new_pte l paddr attrs)" by (cases l) (simp_all add: leaf_pte_def)
  show "new_pte l paddr attrs \<noteq> 0" using t by (auto split: if_splits)
  have "attrs AND NOT (?M OR 3) = attrs"
  proof -
    have "attrs = (attrs AND (?M OR 3)) OR (attrs AND NOT (?M OR 3))"
      by (simp only: bit.conj_disj_distrib [symmetric] bit.disj_cancel_right bit.conj_one_right)
    then show ?thesis using assms(1) by (simp add: attrs_ok_def)
  qed
  moreover have "paddr AND NOT (?M OR 3) = 0"
    unfolding bit.de_Morgan_disj and.assoc [symmetric] p3(2) by simp
  ultimately show "new_pte l paddr attrs AND NOT (?M OR 3) = attrs" unfolding e d by simp
qed

lemma map_leaf:
  assumes "pt_pre l tbl s" "v div blk l < 512" "pt_mem s tbl (v div blk l) = 0" "blk l dvd v" "attrs_ok attrs"
    "paddr AND MMU_PTE_OUTPUT_ADDR_MASK = paddr"
  shows "mapped l tbl v (blk l) (unat paddr) attrs s (set_pte tbl (v div blk l) (new_pte l paddr attrs) s)"
proof -
  let ?i = "v div blk l" and ?e = "new_pte l paddr attrs"
  let ?s = "set_pte tbl (v div blk l) (new_pte l paddr attrs) s"
  note n = new_pte_props [OF assms(5,6), of l]
  have z: "leaf_pte l (pt_mem s tbl ?i)" using assms(3) by (simp add: leaf_pte_def)
  note st = set_leaf_step [OF assms(1,2) z n(4)]
  have v: "v = ?i * blk l" using assms(4) by simp
  have iff: "v \<le> u \<and> u < v + blk l \<longleftrightarrow> u div blk l = ?i" for u
  proof
    assume a: "v \<le> u \<and> u < v + blk l"
    then have "?i * blk l \<le> u" "u < (?i + 1) * blk l" using v add_mult_distrib [of ?i 1 "blk l"] by linarith+
    then show "u div blk l = ?i" by (intro div_nat_eqI) (simp_all add: mult.commute)
  next
    assume a: "u div blk l = ?i"
    have "u = ?i * blk l + u mod blk l" "u mod blk l < blk l" using a div_mult_mod_eq [of u "blk l"] by simp_all
    then show "v \<le> u \<and> u < v + blk l" using v by linarith
  qed
  have "if v \<le> u \<and> u < v + blk l then lookt l tbl u s = None \<and> translates l tbl v (blk l) (unat paddr) attrs u ?s
      else lookt l tbl u ?s = lookt l tbl u s" if u: "u < 512 * blk l" for u
  proof (cases "u div blk l = ?i")
    case True
    then have "lookt l tbl u ?s = Some (?e, u mod blk l, l)" using st(2) [OF u] n(5) by simp
    moreover have "lookt l tbl u s = None" using True look_leaf [OF z] assms(3) by (simp add: lookt_def)
    moreover have "u - u mod blk l = v" using True v by (simp add: minus_mod_eq_div_mult)
    moreover have "u mod blk l = u - v" using calculation(3) mod_less_eq_dividend [of u "blk l"] by linarith
    ultimately show ?thesis using iff True n(1,3) by (simp add: translates_def)
  next
    case False
    then show ?thesis using st(2) [OF u] iff by simp
  qed
  then show ?thesis using st(1) unfolding mapped_def by blast
qed

lemma translates_child:
  assumes "u div blk (Suc l) = v div blk (Suc l)" "lookt (Suc l) tbl u s = lookt l t (u mod blk (Suc l)) s"
    "translates l t (v mod blk (Suc l)) c pa attrs (u mod blk (Suc l)) s" "v mod blk (Suc l) \<le> u mod blk (Suc l)"
  shows "translates (Suc l) tbl v c pa attrs u s"
proof -
  let ?B = "blk (Suc l)"
  obtain e off k where k: "lookt l t (u mod ?B) s = Some (e, off, k)" "v mod ?B \<le> u mod ?B - off" "u mod ?B - off + blk k \<le> v mod ?B + c"
    "unat (e AND MMU_PTE_OUTPUT_ADDR_MASK) + off = pa + (u mod ?B - v mod ?B)" "e AND NOT (MMU_PTE_OUTPUT_ADDR_MASK OR 3) = attrs"
    using assms(3) unfolding translates_def by blast
  have uv: "u = v div ?B * ?B + u mod ?B" "v = v div ?B * ?B + v mod ?B" using assms(1) div_mult_mod_eq [of u ?B] by simp_all
  have "off \<le> u mod ?B" by (rule lookt_bounds(1) [OF k(1)])
  then have "v \<le> u - off" "u - off + blk k \<le> v + c" "u mod ?B - v mod ?B = u - v" using uv k(2,3) assms(4) by linarith+
  then show ?thesis unfolding translates_def assms(2) using k(1,4,5) by metis
qed

lemma mapped_child:
  assumes "pt_pre (Suc l) tbl s" "v div blk (Suc l) < 512" "pt_mem s tbl (v div blk (Suc l)) = table_pte s p" "p \<in> used_pages s"
    "v mod blk (Suc l) + c \<le> blk (Suc l)" "0 < c" "mapped l (kva s p) (v mod blk (Suc l)) c pa attrs s s1"
  shows "mapped (Suc l) tbl v c pa attrs s s1"
proof -
  let ?B = "blk (Suc l)" and ?i = "v div blk (Suc l)"
  have g: "geom_ok s" using assms(1) by (simp add: pt_pre_def)
  have st: "pt_step l (kva s p) s s1" using assms(7) by (simp add: mapped_def)
  note c = child_step [OF assms(1-4) st]
  have v: "v = ?i * ?B + v mod ?B" by simp
  have "if v \<le> u \<and> u < v + c then lookt (Suc l) tbl u s = None \<and> translates (Suc l) tbl v c pa attrs u s1
      else lookt (Suc l) tbl u s1 = lookt (Suc l) tbl u s" if u: "u < 512 * ?B" for u
  proof (cases "u div ?B = ?i")
    case True
    have l0: "lookt (Suc l) tbl u s = lookt l (kva s p) (u mod ?B) s"
      unfolding lookt_def [of "Suc l"] True assms(3) by (rule look_table [OF g used_all(1) [OF assms(4)]])
    have l1: "lookt (Suc l) tbl u s1 = lookt l (kva s p) (u mod ?B) s1" using c(4) [OF u] True by simp
    have "u mod ?B < 512 * blk l" using mod_less_divisor [OF blk_pos(1), of u "Suc l"] by (simp only: blk_Suc)
    then have m: "if v mod ?B \<le> u mod ?B \<and> u mod ?B < v mod ?B + c then lookt l (kva s p) (u mod ?B) s = None \<and>
        translates l (kva s p) (v mod ?B) c pa attrs (u mod ?B) s1 else lookt l (kva s p) (u mod ?B) s1 = lookt l (kva s p) (u mod ?B) s"
      using assms(7) unfolding mapped_def by blast
    have uu: "u = ?i * ?B + u mod ?B" using True div_mult_mod_eq [of u ?B] by simp
    have iff: "v mod ?B \<le> u mod ?B \<and> u mod ?B < v mod ?B + c \<longleftrightarrow> v \<le> u \<and> u < v + c" using uu v by linarith
    show ?thesis
    proof (cases "v \<le> u \<and> u < v + c")
      case t: True
      then show ?thesis using m iff translates_child [OF True l1] l0 by auto
    next
      case False
      then show ?thesis using m l0 l1 unfolding iff if_not_P [OF False] by simp
    qed
  next
    case False
    have n: "\<not> (v \<le> u \<and> u < v + c)"
    proof
      assume "v \<le> u \<and> u < v + c"
      then have "?i * ?B \<le> u" "u < (?i + 1) * ?B" using v assms(5) add_mult_distrib [of ?i 1 ?B] by linarith+
      then have "u div ?B = ?i" by (intro div_nat_eqI) (simp_all add: mult.commute)
      then show False using False by simp
    qed
    show ?thesis unfolding if_not_P [OF n] using c(4) [OF u] False by simp
  qed
  then show ?thesis using c(1) unfolding mapped_def by blast
qed

lemma same_look_child:
  assumes "pt_pre (Suc l) tbl s" "i < 512" "pt_mem s tbl i = table_pte s p" "p \<in> used_pages s" "same_look l (kva s p) s s1"
  shows "same_look (Suc l) tbl s s1"
proof -
  let ?B = "blk (Suc l)"
  have g: "geom_ok s" using assms(1) by (simp add: pt_pre_def)
  have st: "pt_step l (kva s p) s s1" using assms(5) by (simp add: same_look_def)
  note c = child_step [OF assms(1-4) st]
  have "lookt (Suc l) tbl u s1 = lookt (Suc l) tbl u s" if u: "u < 512 * ?B" for u
  proof (cases "u div ?B = i")
    case True
    have "lookt (Suc l) tbl u s = lookt l (kva s p) (u mod ?B) s"
      unfolding lookt_def [of "Suc l"] True assms(3) by (rule look_table [OF g used_all(1) [OF assms(4)]])
    moreover have "u mod ?B < 512 * blk l" using mod_less_divisor [OF blk_pos(1), of u "Suc l"] by (simp only: blk_Suc)
    ultimately show ?thesis using c(4) [OF u] True assms(5) by (simp add: same_look_def)
  next
    case False
    then show ?thesis using c(4) [OF u] by simp
  qed
  then show ?thesis using c(1) by (simp add: same_look_def)
qed

end
