(* ===== verification/Arm64_Loop.thy ===== *)
theory Arm64_Loop
  imports Arm64_Map
begin

text \<open>
  The mapping function itself, by induction on the level and on what is left of the range.
\<close>

section \<open>Alignment\<close>

lemma or_and_zero: "((a :: u64) OR b) AND m = 0 \<longleftrightarrow> a AND m = 0 \<and> b AND m = 0"
  by (auto simp: bit.conj_disj_distrib2 bit_eq_iff bit_or_iff)

lemma aligned_dvd: "(a :: u64) AND (push_bit (12 + 9 * l) 1 - 1) = 0 \<longleftrightarrow> blk l dvd unat a"
  using IS_ALIGNED_iff [of a "12 + 9 * l"] by (simp add: IS_ALIGNED_def push_bit_eq_mult blk_def)

lemma page_aligned_dvd: "(a :: u64) AND 4095 = 0 \<longleftrightarrow> 4096 dvd unat a"
  using IS_ALIGNED_iff [of a 12] by (simp add: IS_ALIGNED_def)

lemma not_page_aligned_iff: "not_page_aligned v pa sz \<longleftrightarrow> \<not> (4096 dvd unat v \<and> 4096 dvd unat pa \<and> 4096 dvd unat sz)"
  unfolding not_page_aligned_def by (simp add: or_and_zero flip: page_aligned_dvd)

lemma blk_dvd: "4096 dvd blk l"
  using le_imp_power_dvd [of 12 "12 + 9 * l" "2 :: nat"] by (simp add: blk_def)

lemma paddr_in_mask:
  assumes "4096 dvd unat pa" "unat pa < 2 ^ 48"
  shows "pa AND MMU_PTE_OUTPUT_ADDR_MASK = pa"
proof -
  have m: "(MMU_PTE_OUTPUT_ADDR_MASK :: u64) = mask 48 AND NOT (mask 12)" by (simp add: mask_eq_exp_minus_1)
  have "pa AND mask 48 = pa"
  proof (rule word_unat_eq_iff [THEN iffD2])
    have "unat (pa AND mask 48) = take_bit 48 (unat pa)" by (simp only: unsigned_take_bit_eq flip: take_bit_eq_mask)
    also have "\<dots> = unat pa" using assms(2) by (simp only: take_bit_nat_eq_self)
    finally show "unat (pa AND mask 48) = unat pa" .
  qed
  moreover have "pa AND NOT (mask 12) = pa"
    unfolding and_not_mask word_unat_eq_iff unat_push_drop using assms(1) by simp
  ultimately show ?thesis unfolding m and.assoc [symmetric] by simp
qed

section \<open>The table under an entry\<close>

lemma same_look_refl: "pt_pre l tbl s \<Longrightarrow> same_look l tbl s s"
  by (simp add: same_look_def pt_step_refl)

lemma same_look_trans: "pt_pre l tbl s \<Longrightarrow> same_look l tbl s s1 \<Longrightarrow> same_look l tbl s1 s2 \<Longrightarrow> same_look l tbl s s2"
  using pt_step_trans by (auto simp: same_look_def)

lemma get_table_ok:
  assumes "pt_pre (Suc l) tbl s" "unat i < 512"
  shows "\<exists>nt s1. arm64_mmu_get_page_table i tbl s = Some (nt, s1) \<and> same_look (Suc l) tbl s s1 \<and>
    (\<forall>t. nt = Some t \<longrightarrow> (\<exists>p \<in> used_pages s1. t = kva s1 p \<and> pt_mem s1 tbl (unat i) = table_pte s1 p))"
proof -
  let ?e = "pt_mem s tbl (unat i)"
  have g: "geom_ok s" using assms(1) by (simp add: pt_pre_def)
  have "ent_ok (Suc l) ?e s" using assms by (simp add: pt_pre_def wf_pt_def)
  with g show ?thesis
  proof (cases rule: leaf_or_table)
    case 1
    show ?thesis
    proof (cases "?e = 0")
      case True
      from new_table_step [OF assms True] show ?thesis
      proof (elim disjE exE conjE)
        assume "arm64_mmu_get_page_table i tbl s = Some (None, s)"
        then show ?thesis using same_look_refl [OF assms(1)] by auto
      next
        fix p s' assume n: "arm64_mmu_get_page_table i tbl s = Some (Some (kva s p), s')" "p \<in> used_pages s'"
          "pt_mem s' tbl (unat i) = table_pte s' p" "pt_step (Suc l) tbl s s'"
          "\<forall>u < 512 * blk (Suc l). lookt (Suc l) tbl u s' = lookt (Suc l) tbl u s"
        have "kva s p = kva s' p" using same_geom_kva(1) [OF pt_stepD(1) [OF n(4)]] by simp
        then show ?thesis using n by (auto simp: same_look_def)
      qed
    next
      case False
      then have "?e AND 3 = 1" using 1 by (simp add: leaf_pte_def)
      then have "arm64_mmu_get_page_table i tbl s = Some (None, s)" using assms(2) by (simp add: arm64_mmu_get_page_table_def)
      then show ?thesis using same_look_refl [OF assms(1)] by auto
    qed
  next
    case (2 l' p)
    note tp = table_pte_props [OF g used_all(1) [OF 2(2)]]
    have "arm64_mmu_get_page_table i tbl s = Some (Some (kva s p), s)"
      using assms(2) 2(3) tp(1,2) geomD(3) [OF g used_all(1) [OF 2(2)]] by (simp add: arm64_mmu_get_page_table_def)
    then show ?thesis using same_look_refl [OF assms(1)] 2(2,3) by auto
  qed
qed

section \<open>The loop\<close>

definition map_entry :: "u64 \<Rightarrow> u64 \<Rightarrow> u64 \<Rightarrow> u64 \<Rightarrow> nat \<Rightarrow> u64 \<Rightarrow> 'a arm64_state_scheme \<Rightarrow> (bool \<times> 'a arm64_state_scheme) option" where
  "map_entry v pa sz attrs l tbl s =
     (let k = 12 + 9 * l; block = push_bit k 1; rem = v AND (block - 1); c = chunk_size v sz k; i = drop_bit k v in
      if (v OR pa) AND (block - 1) \<noteq> 0 \<or> c \<noteq> block \<or> k > 30
      then arm64_mmu_get_page_table i tbl s \<bind> (\<lambda>(nt, s1). case nt of
             None \<Rightarrow> Some (False, s1)
           | Some t \<Rightarrow> (if not_page_aligned rem pa c then Some (ERR_INVALID_ARGS, s1)
                         else map_pt_loop rem c rem pa c attrs (k - (PAGE_SIZE_SHIFT - 3)) t s1) \<bind> (\<lambda>(ret, s2). Some (ret = 0, s2)))
      else guard_that (unat i < 512) \<bind> (\<lambda>_.
             Some (if pt_mem s tbl (unat i) \<noteq> 0 then (False, s) else (True, set_pte tbl (unat i) (new_pte l pa attrs) s))))"

lemma map_unfold:
  "sz \<noteq> 0 \<Longrightarrow> map_pt_loop vin sin v pa sz attrs (12 + 9 * l) tbl s = map_entry v pa sz attrs l tbl s \<bind>
    (\<lambda>(ok, s3). if ok
     then map_pt_loop vin sin (v + chunk_size v sz (12 + 9 * l)) (pa + chunk_size v sz (12 + 9 * l)) (sz - chunk_size v sz (12 + 9 * l)) attrs
            (12 + 9 * l) tbl s3
     else arm64_mmu_unmap_pt vin (sin - sz) (12 + 9 * l) tbl s3 \<bind> (\<lambda>s4. Some (ERR_GENERIC, s4)))"
  by (subst map_pt_loop.simps) (simp add: map_entry_def new_pte_def Let_def)

definition map_result :: "nat \<Rightarrow> u64 \<Rightarrow> nat \<Rightarrow> nat \<Rightarrow> nat \<Rightarrow> u64 \<Rightarrow> 'a arm64_state_scheme \<Rightarrow> status \<times> 'a arm64_state_scheme \<Rightarrow> bool" where
  "map_result l tbl v n pa attrs s res \<longleftrightarrow>
     fst res = 0 \<and> mapped l tbl v n pa attrs s (snd res) \<or> fst res = ERR_GENERIC \<and> same_look l tbl s (snd res)"

text \<open>What the arguments of a call have to satisfy.\<close>

definition map_args :: "nat \<Rightarrow> u64 \<Rightarrow> u64 \<Rightarrow> u64 \<Rightarrow> bool" where
  "map_args l v pa sz \<longleftrightarrow> 4096 dvd unat v \<and> 4096 dvd unat pa \<and> 4096 dvd unat sz \<and> unat v + unat sz \<le> 512 * blk l \<and> unat pa + unat sz \<le> 2 ^ 48"

lemma chunk_dvd:
  assumes "4096 dvd unat v" "4096 dvd unat sz"
  shows "4096 dvd min (unat sz) (blk l - unat v mod blk l)"
proof -
  have "4096 dvd unat v mod blk l" using assms(1) blk_dvd by (simp add: dvd_mod)
  then have "4096 dvd blk l - unat v mod blk l" using blk_dvd by (simp add: dvd_diff_nat)
  then show ?thesis using assms(2) by (simp add: min_def)
qed

lemma map_direct_ok:
  assumes "pt_pre l tbl s" "unat v div blk l < 512" "blk l dvd unat v" "attrs_ok attrs" "4096 dvd unat pa" "unat pa < 2 ^ 48"
  shows "if pt_mem s tbl (unat v div blk l) \<noteq> 0 then same_look l tbl s s
    else mapped l tbl (unat v) (blk l) (unat pa) attrs s (set_pte tbl (unat v div blk l) (new_pte l pa attrs) s)"
  using map_leaf [OF assms(1,2) _ assms(3,4) paddr_in_mask [OF assms(5,6)]] same_look_refl [OF assms(1)] by simp

lemma mapped_same:
  assumes "pt_pre l tbl s" "same_look l tbl s s1" "mapped l tbl v n pa attrs s1 s2"
  shows "mapped l tbl v n pa attrs s s2"
proof -
  have "pt_step l tbl s s2" using assms pt_step_trans [OF assms(1)] unfolding mapped_def same_look_def by blast
  moreover have "lookt l tbl u s1 = lookt l tbl u s" if "u < 512 * blk l" for u using assms(2) that by (simp add: same_look_def)
  ultimately show ?thesis using assms(3) unfolding mapped_def by metis
qed

definition entry_result :: "nat \<Rightarrow> u64 \<Rightarrow> nat \<Rightarrow> nat \<Rightarrow> nat \<Rightarrow> u64 \<Rightarrow> 'a arm64_state_scheme \<Rightarrow> bool \<Rightarrow> 'a arm64_state_scheme \<Rightarrow> bool" where
  "entry_result l tbl v n pa attrs s ok s' \<longleftrightarrow> (if ok then mapped l tbl v n pa attrs s s' else same_look l tbl s s')"

lemma map_below_ok:
  fixes s :: "'a arm64_state_scheme"
  assumes "Suc l \<le> 3" "pt_pre (Suc l) tbl s" "map_args (Suc l) v pa sz" "0 < unat sz" "attrs_ok attrs"
    "(v OR pa) AND (push_bit (12 + 9 * Suc l) 1 - 1) \<noteq> 0 \<or> chunk_size v sz (12 + 9 * Suc l) \<noteq> push_bit (12 + 9 * Suc l) 1 \<or> 12 + 9 * Suc l > 30"
    "\<And>t v pa sz (s :: 'a arm64_state_scheme). pt_pre l t s \<Longrightarrow> map_args l v pa sz \<Longrightarrow>
       \<exists>res. map_pt_loop v sz v pa sz attrs (12 + 9 * l) t s = Some res \<and> map_result l t (unat v) (unat sz) (unat pa) attrs s res"
  shows "\<exists>ok s3. map_entry v pa sz attrs (Suc l) tbl s = Some (ok, s3) \<and>
    entry_result (Suc l) tbl (unat v) (min (unat sz) (blk (Suc l) - unat v mod blk (Suc l))) (unat pa) attrs s ok s3"
proof -
  let ?k = "12 + 9 * Suc l" and ?B = "blk (Suc l)" and ?c = "min (unat sz) (blk (Suc l) - unat v mod blk (Suc l))"
  let ?i = "drop_bit ?k v" and ?rem = "v AND (push_bit ?k 1 - 1)" and ?ch = "chunk_size v sz ?k"
  have ma: "4096 dvd unat v" "4096 dvd unat pa" "4096 dvd unat sz" "unat v + unat sz \<le> 512 * ?B" "unat pa + unat sz \<le> 2 ^ 48"
    using assms(3) unfolding map_args_def by blast+
  note r = chunk_rest [OF assms(1,4) ma(4)]
  have i: "unat ?i < 512" using r(6) by (simp only: unat_index)
  obtain nt s1 where g: "arm64_mmu_get_page_table ?i tbl s = Some (nt, s1)" "same_look (Suc l) tbl s s1"
    "\<forall>t. nt = Some t \<longrightarrow> (\<exists>p \<in> used_pages s1. t = kva s1 p \<and> pt_mem s1 tbl (unat ?i) = table_pte s1 p)"
    using get_table_ok [OF assms(2) i] by blast
  have below: "?k - (12 - 3) = 12 + 9 * l" by simp
  have form: "map_entry v pa sz attrs (Suc l) tbl s = (case nt of None \<Rightarrow> Some (False, s1)
      | Some t \<Rightarrow> (if not_page_aligned ?rem pa ?ch then Some (ERR_INVALID_ARGS, s1)
                    else map_pt_loop ?rem ?ch ?rem pa ?ch attrs (12 + 9 * l) t s1) \<bind> (\<lambda>(ret, s2). Some (ret = 0, s2)))"
    unfolding map_entry_def Let_def if_P [OF assms(6)] g(1) below by simp
  show ?thesis
  proof (cases nt)
    case None
    then show ?thesis using form g(2) unfolding entry_result_def by auto
  next
    case (Some t)
    then obtain p where p: "p \<in> used_pages s1" "t = kva s1 p" "pt_mem s1 tbl (unat v div ?B) = table_pte s1 p" using g(3) unfolding unat_index by blast
    have pre1: "pt_pre (Suc l) tbl s1" using pt_step_pre(1) [OF assms(2)] g(2) by (simp add: same_look_def)
    note cp = child_pre [OF pre1 r(6) p(3,1)]
    have in_entry: "unat v mod ?B + ?c \<le> ?B" using r(5) by simp
    have d: "4096 dvd unat v mod ?B" using ma(1) blk_dvd by (simp add: dvd_mod)
    have args: "map_args l ?rem pa ?ch"
      unfolding map_args_def unat_rem unat_chunk [OF assms(1)] using d ma(2,5) chunk_dvd [OF ma(1,3), of "Suc l"] in_entry r(4)
      by (simp only: blk_Suc) simp
    then have al: "\<not> not_page_aligned ?rem pa ?ch" by (simp only: not_page_aligned_iff map_args_def simp_thms)
    obtain res where l: "map_pt_loop ?rem ?ch ?rem pa ?ch attrs (12 + 9 * l) t s1 = Some res"
      and res: "map_result l t (unat v mod ?B) ?c (unat pa) attrs s1 res"
      using assms(7) [OF cp(1) [folded p(2)] args] unfolding unat_rem unat_chunk [OF assms(1)] by blast
    have res0: "map_entry v pa sz attrs (Suc l) tbl s = Some (fst res = 0, snd res)"
      unfolding form Some option.case if_not_P [OF al] l by (simp add: case_prod_beta)
    have "mapped (Suc l) tbl (unat v) ?c (unat pa) attrs s (snd res)" if m: "mapped l t (unat v mod ?B) ?c (unat pa) attrs s1 (snd res)"
      by (rule mapped_same [OF assms(2) g(2) mapped_child [OF pre1 r(6) p(3,1) in_entry r(3) m [unfolded p(2)]]])
    moreover have "same_look (Suc l) tbl s (snd res)" if m: "same_look l t s1 (snd res)"
      by (rule same_look_trans [OF assms(2) g(2) same_look_child [OF pre1 r(6) p(3,1) m [unfolded p(2)]]])
    ultimately show ?thesis using res res0 unfolding entry_result_def map_result_def by auto
  qed
qed

lemma map_entry_ok:
  fixes s :: "'a arm64_state_scheme"
  assumes "l \<le> 3" "pt_pre l tbl s" "map_args l v pa sz" "0 < unat sz" "attrs_ok attrs"
    "\<And>l' t v pa sz (s :: 'a arm64_state_scheme). l = Suc l' \<Longrightarrow> pt_pre l' t s \<Longrightarrow> map_args l' v pa sz \<Longrightarrow>
       \<exists>res. map_pt_loop v sz v pa sz attrs (12 + 9 * l') t s = Some res \<and> map_result l' t (unat v) (unat sz) (unat pa) attrs s res"
  shows "\<exists>ok s3. map_entry v pa sz attrs l tbl s = Some (ok, s3) \<and>
    entry_result l tbl (unat v) (min (unat sz) (blk l - unat v mod blk l)) (unat pa) attrs s ok s3"
proof -
  let ?k = "12 + 9 * l" and ?c = "min (unat sz) (blk l - unat v mod blk l)"
  let ?cond = "(v OR pa) AND (push_bit ?k 1 - 1) \<noteq> 0 \<or> chunk_size v sz ?k \<noteq> push_bit ?k 1 \<or> ?k > 30"
  have ma: "4096 dvd unat v" "4096 dvd unat pa" "4096 dvd unat sz" "unat v + unat sz \<le> 512 * blk l" "unat pa + unat sz \<le> 2 ^ 48"
    using assms(3) unfolding map_args_def by blast+
  note r = chunk_rest [OF assms(1,4) ma(4)]
  have pa: "unat pa < 2 ^ 48" using ma(5) assms(4) by simp
  show ?thesis
  proof (cases ?cond)
    case False
    then have v: "blk l dvd unat v" "?c = blk l"
      using block_chunk [OF assms(1), of v sz] or_and_zero [of v pa "push_bit ?k 1 - 1"] aligned_dvd [of v l] by blast+
    have "map_entry v pa sz attrs l tbl s =
        Some (if pt_mem s tbl (unat v div blk l) \<noteq> 0 then (False, s) else (True, set_pte tbl (unat v div blk l) (new_pte l pa attrs) s))"
      unfolding map_entry_def Let_def if_not_P [OF False] unat_index using r(6) by simp
    then show ?thesis using map_direct_ok [OF assms(2) r(6) v(1) assms(5) ma(2) pa] v(2) unfolding entry_result_def by auto
  next
    case True
    show ?thesis
    proof (cases l)
      case 0
      have b: "blk 0 = 4096" by (simp add: blk_def)
      have "4096 \<le> unat sz" using ma(3) assms(4) by (rule dvd_imp_le)
      then have "?c = blk l" using ma(1) 0 b by simp
      then have "\<not> ?cond" using block_chunk [OF assms(1)] ma(1,2) 0 b aligned_dvd [of v 0] aligned_dvd [of pa 0] or_and_zero [of v pa] by simp
      then show ?thesis using True by blast
    next
      case (Suc l')
      show ?thesis unfolding Suc
      proof (rule map_below_ok)
        show "\<And>t v pa sz (s :: 'a arm64_state_scheme). pt_pre l' t s \<Longrightarrow> map_args l' v pa sz \<Longrightarrow>
          \<exists>res. map_pt_loop v sz v pa sz attrs (12 + 9 * l') t s = Some res \<and> map_result l' t (unat v) (unat sz) (unat pa) attrs s res"
          by (rule assms(6) [OF Suc])
      qed (use assms(1-5) True Suc in simp_all)
    qed
  qed
qed

text \<open>The loop, with what an earlier part of it has mapped.\<close>

lemma map_loop_ok:
  fixes s :: "'a arm64_state_scheme"
  assumes "l \<le> 3" "attrs_ok attrs"
    and IH: "\<And>l' t v pa sz (s :: 'a arm64_state_scheme). l = Suc l' \<Longrightarrow> pt_pre l' t s \<Longrightarrow> map_args l' v pa sz \<Longrightarrow>
       \<exists>res. map_pt_loop v sz v pa sz attrs (12 + 9 * l') t s = Some res \<and> map_result l' t (unat v) (unat sz) (unat pa) attrs s res"
    and s0: "pt_pre l tbl s0" "unat vin + unat sin \<le> 512 * blk l"
    and s: "mapped l tbl (unat vin) (unat sin - unat sz) pain attrs s0 s" "map_args l v pa sz" "unat sz \<le> unat sin"
      "unat v = unat vin + (unat sin - unat sz)" "unat pa = pain + (unat sin - unat sz)"
  shows "\<exists>res. map_pt_loop vin sin v pa sz attrs (12 + 9 * l) tbl s = Some res \<and> map_result l tbl (unat vin) (unat sin) pain attrs s0 res"
  using s
proof (induction "unat sz" arbitrary: v pa sz s rule: less_induct)
  case less
  let ?ch = "chunk_size v sz (12 + 9 * l)" and ?c = "min (unat sz) (blk l - unat v mod blk l)"
  show ?case
  proof (cases "unat sz = 0")
    case True
    then have "sz = 0" by (simp add: unat_eq_0)
    then have "map_pt_loop vin sin v pa sz attrs (12 + 9 * l) tbl s = Some (0, s)" by (subst map_pt_loop.simps) simp
    then show ?thesis using less.prems(1) True by (simp add: map_result_def)
  next
    case False
    then have pos: "0 < unat sz" and nz: "sz \<noteq> 0" by auto
    have ma: "4096 dvd unat v" "4096 dvd unat pa" "4096 dvd unat sz" "unat v + unat sz \<le> 512 * blk l" "unat pa + unat sz \<le> 2 ^ 48"
      using less.prems(2) unfolding map_args_def by blast+
    note r = chunk_rest [OF assms(1) pos ma(4)]
    have st: "pt_step l tbl s0 s" using less.prems(1) by (simp add: mapped_def)
    have pre: "pt_pre l tbl s" by (rule pt_step_pre(1) [OF s0(1) st])
    obtain ok s3 where e: "map_entry v pa sz attrs l tbl s = Some (ok, s3)" "entry_result l tbl (unat v) ?c (unat pa) attrs s ok s3"
      using map_entry_ok [OF assms(1) pre less.prems(2) pos assms(2) IH] by blast
    show ?thesis
    proof (cases ok)
      case True
      have m: "mapped l tbl (unat vin) (unat sin - unat sz + ?c) pain attrs s0 s3"
        using mapped_trans [OF s0(1) less.prems(1)] e(2) True less.prems(4,5) unfolding entry_result_def by simp
      have pc: "unat (pa + ?ch) = unat pa + ?c"
        using unat_word_ariths(1) [of pa ?ch] unat_chunk [OF assms(1)] r(4) ma(5) by simp
      have args: "map_args l (v + ?ch) (pa + ?ch) (sz - ?ch)"
        unfolding map_args_def r(1,2) pc using ma chunk_dvd [OF ma(1,3), of l] r(4) by (simp add: dvd_diff_nat)
      have "\<exists>res. map_pt_loop vin sin (v + ?ch) (pa + ?ch) (sz - ?ch) attrs (12 + 9 * l) tbl s3 = Some res \<and>
          map_result l tbl (unat vin) (unat sin) pain attrs s0 res"
      proof (rule less.hyps)
        have q: "unat sin - (unat sz - ?c) = unat sin - unat sz + ?c" "unat sz - ?c < unat sz" using r(3,4) less.prems(3) by linarith+
        show "unat (sz - ?ch) < unat sz" unfolding r(2) by (rule q(2))
        show "mapped l tbl (unat vin) (unat sin - unat (sz - ?ch)) pain attrs s0 s3" unfolding r(2) q(1) by (rule m)
        show "map_args l (v + ?ch) (pa + ?ch) (sz - ?ch)" by (rule args)
        show "unat (sz - ?ch) \<le> unat sin" unfolding r(2) using less.prems(3) by linarith
        show "unat (v + ?ch) = unat vin + (unat sin - unat (sz - ?ch))" unfolding r(1,2) q(1) using less.prems(4) by linarith
        show "unat (pa + ?ch) = pain + (unat sin - unat (sz - ?ch))" unfolding pc r(2) q(1) using less.prems(5) by linarith
      qed
      then show ?thesis using True by (simp add: map_unfold [OF nz, of vin sin v pa attrs l tbl s] e(1))
    next
      case False
      have rest: "unat (sin - sz) = unat sin - unat sz" using less.prems(3) by (simp add: unat_sub word_le_nat_alt)
      have sl: "same_look l tbl s s3" using e(2) False by (simp add: entry_result_def)
      then have pre3: "pt_pre l tbl s3" using pt_step_pre(1) [OF pre] by (simp add: same_look_def)
      have range: "unat vin + unat (sin - sz) \<le> 512 * blk l" using s0(2) rest by simp
      obtain s4 where u: "arm64_mmu_unmap_pt vin (sin - sz) (12 + 9 * l) tbl s3 = Some s4" "unmapped l tbl (unat vin) (unat sin - unat sz) s3 s4"
        using unmap_pt_ok [OF assms(1) pre3 range] unfolding rest by blast
      have "same_look l tbl s0 s4" by (rule undo_mapped [OF s0(1) less.prems(1) sl u(2)])
      then show ?thesis using False u(1) by (simp add: map_unfold [OF nz, of vin sin v pa attrs l tbl s] e(1) map_result_def)
    qed
  qed
qed

theorem map_pt_ok:
  fixes s :: "'a arm64_state_scheme"
  assumes "l \<le> 3" "pt_pre l tbl s" "map_args l v pa sz" "attrs_ok attrs"
  shows "\<exists>res. map_pt_loop v sz v pa sz attrs (12 + 9 * l) tbl s = Some res \<and> map_result l tbl (unat v) (unat sz) (unat pa) attrs s res"
  using assms(1-3)
proof (induction l arbitrary: tbl v pa sz s rule: less_induct)
  case (less l)
  have IH: "\<exists>res. map_pt_loop v sz v pa sz attrs (12 + 9 * l') t s = Some res \<and> map_result l' t (unat v) (unat sz) (unat pa) attrs s res"
    if "l = Suc l'" "pt_pre l' t s" "map_args l' v pa sz" for l' t v pa sz and s :: "'a arm64_state_scheme"
    using less.IH [of l' t s v pa sz] that less.prems(1) by simp
  show ?case
    by (rule map_loop_ok [OF less.prems(1) assms(4) IH less.prems(2)])
      (use less.prems(2,3) in \<open>simp_all add: mapped_none map_args_def\<close>)
qed

end
