(* ===== verification/Arm64_Query.thy ===== *)
theory Arm64_Query
  imports Arm64_Loop
begin

text \<open>
  Queries read what the tables translate, and the attribute bits of an entry stand for the flags that
  were asked for; mapping, unmapping and querying an address space through the functions of the
  architecture interface.
\<close>

section \<open>Attributes\<close>

definition flags_ok :: "u32 \<Rightarrow> bool" where
  "flags_ok flags \<longleftrightarrow> flags < 64 \<and> flags AND ARCH_MMU_FLAG_CACHE_MASK \<noteq> 3"

lemma flags_round_trip:
  assumes "flags_ok flags"
  shows "pte_to_mmu_flags (mmu_flags_to_pte_attr flags) = Some flags" "attrs_ok (mmu_flags_to_pte_attr flags)"
proof -
  define rt where "rt n \<longleftrightarrow> (flags_ok (word_of_nat n) \<longrightarrow>
    pte_to_mmu_flags (mmu_flags_to_pte_attr (word_of_nat n)) = Some (word_of_nat n) \<and> attrs_ok (mmu_flags_to_pte_attr (word_of_nat n)))" for n
  have all: "list_all rt [0..<64]"
    by (simp add: upt_rec rt_def flags_ok_def pte_to_mmu_flags_def mmu_flags_to_pte_attr_def attrs_ok_def)
  have "unat flags < 64" using assms by (simp add: flags_ok_def word_less_nat_alt)
  then have "unat flags \<in> set [0..<64]" by simp
  from bspec [OF all [unfolded list_all_iff] this]
  show "pte_to_mmu_flags (mmu_flags_to_pte_attr flags) = Some flags" "attrs_ok (mmu_flags_to_pte_attr flags)" using assms by (simp_all add: rt_def)
qed

text \<open>Only attribute bits matter for the flags.\<close>

lemma pte_flags_attr: "pte_to_mmu_flags (e AND NOT (MMU_PTE_OUTPUT_ADDR_MASK OR 3)) = pte_to_mmu_flags e"
proof -
  have m: "(e AND NOT (MMU_PTE_OUTPUT_ADDR_MASK OR 3)) AND m = e AND m" if "NOT (MMU_PTE_OUTPUT_ADDR_MASK OR 3) AND m = m" for m
    using that by (simp only: and.assoc)
  have "(e AND NOT (MMU_PTE_OUTPUT_ADDR_MASK OR 3)) AND m = e AND m"
    if "m \<in> {MMU_PTE_ATTR_NON_SECURE, MMU_PTE_ATTR_ATTR_INDEX_MASK, MMU_PTE_ATTR_AP_MASK, MMU_PTE_ATTR_UXN, MMU_PTE_ATTR_PXN}" for m
    by (rule m) (use that in auto)
  then show ?thesis by (simp only: pte_to_mmu_flags_def insert_iff simp_thms)
qed

section \<open>Queries\<close>

lemma unat_left: "unat ((v :: u64) - push_bit (12 + 9 * l) (drop_bit (12 + 9 * l) v)) = unat v mod blk l"
proof -
  have "v - push_bit (12 + 9 * l) (drop_bit (12 + 9 * l) v) = take_bit (12 + 9 * l) v"
    using bits_ident [of "12 + 9 * l" v] by (metis add_diff_cancel_left')
  then have "unat (v - push_bit (12 + 9 * l) (drop_bit (12 + 9 * l) v)) = take_bit (12 + 9 * l) (unat v)" by (simp only: unsigned_take_bit_eq)
  then show ?thesis by (simp only: take_bit_eq_mod blk_def)
qed

lemma query_walk_leaf:
  assumes "leaf_pte l (pt_mem s tbl (unat v div blk l))" "unat v < 512 * blk l"
  shows "query_walk (12 + 9 * l) tbl v s =
    Some (case lookt l tbl (unat v) s of None \<Rightarrow> Inl ERR_NOT_FOUND | Some (e, off, k) \<Rightarrow> Inr (e, word_of_nat off))"
proof -
  let ?e = "pt_mem s tbl (unat v div blk l)"
  have i: "unat v div blk l < 512" using assms(2) index_bound by blast
  have r: "v - push_bit (12 + 9 * l) (drop_bit (12 + 9 * l) v) = word_of_nat (unat v mod blk l)"
    unfolding unat_left [symmetric] by simp
  have "?e = 0 \<or> ?e AND 3 = (if 0 < l then 1 else 3)" using assms(1) by (auto simp: leaf_pte_def)
  then show ?thesis unfolding lookt_def look_leaf [OF assms(1)]
    by (subst query_walk.simps) (use i r in \<open>auto simp: unat_index Let_def\<close>)
qed

lemma query_walk_table:
  assumes "geom_ok s" "p \<in> all_pages s" "pt_mem s tbl i = table_pte s p" "i < 512" "unat (drop_bit k v) = i" "12 < k"
  shows "query_walk k tbl v s = query_walk (k - (12 - 3)) (kva s p) (v - push_bit k (drop_bit k v)) s"
  by (subst query_walk.simps) (simp only: Let_def assms table_pte_props [OF assms(1,2)] geomD(3) [OF assms(1,2)] option.case, use assms(6) in simp)

lemma query_walk_lookt:
  assumes "geom_ok s" "wf_pt l tbl s" "unat v < 512 * blk l"
  shows "query_walk (12 + 9 * l) tbl v s =
    Some (case lookt l tbl (unat v) s of None \<Rightarrow> Inl ERR_NOT_FOUND | Some (e, off, k) \<Rightarrow> Inr (e, word_of_nat off))"
  using assms(2,3)
proof (induction l arbitrary: tbl v)
  case 0
  let ?e = "pt_mem s tbl (unat v div blk 0)"
  have i: "unat v div blk 0 < 512" using 0(2) index_bound by blast
  then have "ent_ok 0 ?e s" using 0(1) by (simp only: wf_pt_def)
  then have "leaf_pte 0 ?e" by (simp add: leaf_pte_def)
  then show ?case by (rule query_walk_leaf [OF _ 0(2)])
next
  case (Suc l)
  let ?e = "pt_mem s tbl (unat v div blk (Suc l))" and ?k = "12 + 9 * Suc l"
  have i: "unat v div blk (Suc l) < 512" using Suc.prems(2) index_bound by blast
  then have "ent_ok (Suc l) ?e s" using Suc.prems(1) by (simp only: wf_pt_def)
  with assms(1) show ?case
  proof (cases rule: leaf_or_table)
    case 1
    then show ?thesis by (rule query_walk_leaf [OF _ Suc.prems(2)])
  next
    case (2 l' p)
    have l': "l' = l" using 2(1) by simp
    note a = used_all(1) [OF 2(2)] and tp = table_pte_props [OF assms(1) used_all(1) [OF 2(2)]]
    let ?r = "v - push_bit ?k (drop_bit ?k v)"
    have "query_walk ?k tbl v s = query_walk (12 + 9 * l) (kva s p) ?r s" using query_walk_table [OF assms(1) a 2(3) i unat_index] by simp
    moreover have "unat ?r < 512 * blk l" using unat_left [of v "Suc l"] mod_less_divisor [OF blk_pos(1), of "unat v" "Suc l"] by (simp only: blk_Suc)
    moreover have "lookt (Suc l) tbl (unat v) s = lookt l (kva s p) (unat ?r) s"
      unfolding unat_left lookt_def [of "Suc l"] 2(3) by (rule look_table [OF assms(1) a])
    ultimately show ?thesis using Suc.IH [of "kva s p" ?r] 2(4) l' by simp
  qed
qed

section \<open>Address spaces\<close>

definition aspace_range_ok :: "arch_aspace \<Rightarrow> bool" where
  "aspace_range_ok a \<longleftrightarrow> 0 < aa_size a \<and>
     (if is_kernel a then aa_base a = KERNEL_BASE_ADDRESS \<and> aa_size a = 0x0001000000000000 else unat (aa_base a) + unat (aa_size a) \<le> 2 ^ 48)"

definition mmu_ok :: "nat \<Rightarrow> 'a arm64_state_scheme \<Rightarrow> bool" where
  "mmu_ok i s \<longleftrightarrow> aspace_range_ok (arch_aspaces s i) \<and> (\<exists>tbl. tt_virt (arch_aspaces s i) = Some tbl \<and> pt_pre 3 tbl s)"

lemma blk_3: "512 * blk 3 = 2 ^ 48"
  by (simp add: blk_def)

lemma rel_bound:
  assumes "aspace_range_ok a" "is_valid_vaddr a w"
  shows "unat (vaddr_rel_of a w) < 2 ^ 48"
proof (cases "is_kernel a")
  case True
  then have "0xFFFF000000000000 \<le> w" using assms by (simp add: aspace_range_ok_def is_valid_vaddr_def)
  then have "unat (w - 0xFFFF000000000000) = unat w - 0xFFFF000000000000" "0xFFFF000000000000 \<le> unat w"
    by (simp_all add: unat_sub word_le_nat_alt)
  moreover have "unat w < 2 ^ 64" using unsigned_less [of w] by simp
  ultimately show ?thesis using True by (simp add: vaddr_rel_of_def)
next
  case False
  then have r: "unat (aa_base a) + unat (aa_size a) \<le> 2 ^ 48" "0 < unat (aa_size a)" using assms(1) by (auto simp: aspace_range_ok_def unat_gt_0)
  then have "unat (aa_base a + aa_size a) = unat (aa_base a) + unat (aa_size a)" using unat_word_ariths(1) [of "aa_base a" "aa_size a"] by simp
  then have "unat (aa_base a + aa_size a - 1) = unat (aa_base a) + unat (aa_size a) - 1" using r by (subst unat_sub) (simp_all add: word_le_nat_alt)
  then have "unat w \<le> unat (aa_base a) + unat (aa_size a) - 1" using assms(2) by (simp add: is_valid_vaddr_def word_le_nat_alt)
  then show ?thesis using r False by (simp add: vaddr_rel_of_def)
qed

text \<open>An address lies less than \<open>sz\<close> behind another one when its place in the tables does.\<close>

lemma in_range_rel:
  assumes "unat (vaddr_rel_of a v) + unat sz \<le> 2 ^ 48" "unat (vaddr_rel_of a w) < 2 ^ 48"
  shows "w - v < sz \<longleftrightarrow> unat (vaddr_rel_of a v) \<le> unat (vaddr_rel_of a w) \<and> unat (vaddr_rel_of a w) < unat (vaddr_rel_of a v) + unat sz"
    "w - v < sz \<Longrightarrow> unat (w - v) = unat (vaddr_rel_of a w) - unat (vaddr_rel_of a v)"
proof -
  let ?v = "vaddr_rel_of a v" and ?w = "vaddr_rel_of a w"
  have d: "w - v = ?w - ?v" by (simp add: vaddr_rel_of_def)
  have "unat (?w - ?v) = (if ?v \<le> ?w then unat ?w - unat ?v else unat ?w + 2 ^ 64 - unat ?v)" using unat_sub_if' [of ?w ?v] by (simp add: word_le_nat_alt)
  then show "w - v < sz \<longleftrightarrow> unat ?v \<le> unat ?w \<and> unat ?w < unat ?v + unat sz" "w - v < sz \<Longrightarrow> unat (w - v) = unat ?w - unat ?v"
    unfolding d using assms by (auto simp: word_less_nat_alt word_le_nat_alt split: if_splits)
qed

lemma query_lookt:
  assumes "tt_virt (arch_aspaces s i) = Some tbl" "pt_pre 3 tbl s" "aspace_range_ok (arch_aspaces s i)" "is_valid_vaddr (arch_aspaces s i) w"
  shows "arm64_mmu_query i w fl s =
    (case lookt 3 tbl (unat (vaddr_rel_of (arch_aspaces s i) w)) s of
       None \<Rightarrow> Some (Inl ERR_NOT_FOUND)
     | Some (e, off, k) \<Rightarrow> (if fl then pte_to_mmu_flags e else Some 0) \<bind> (\<lambda>f. Some (Inr ((e AND MMU_PTE_OUTPUT_ADDR_MASK) + word_of_nat off, f))))"
proof -
  have "unat (vaddr_rel_of (arch_aspaces s i) w) < 512 * blk 3" unfolding blk_3 by (rule rel_bound [OF assms(3,4)])
  moreover have "geom_ok s" "wf_pt 3 tbl s" using assms(2) by (simp_all add: pt_pre_def)
  ultimately show ?thesis using query_walk_lookt [of s 3 tbl "vaddr_rel_of (arch_aspaces s i) w"] assms(1,4)
    by (auto simp: arm64_mmu_query_def Let_def split: option.splits)
qed

lemma step_aspace:
  assumes "pt_step 3 tbl s s'"
  shows "arch_aspaces s' = arch_aspaces s"
  using same_restD(1) [OF pt_stepD(2) [OF assms]] .

lemma step_mmu_ok:
  assumes "tt_virt (arch_aspaces s i) = Some tbl" "pt_pre 3 tbl s" "mmu_ok i s" "pt_step 3 tbl s s'"
  shows "mmu_ok i s'"
  using assms step_aspace [OF assms(4)] pt_step_pre(1) [OF assms(2,4)] by (auto simp: mmu_ok_def)

lemma same_look_query:
  assumes "tt_virt (arch_aspaces s i) = Some tbl" "pt_pre 3 tbl s" "aspace_range_ok (arch_aspaces s i)" "pt_step 3 tbl s s'"
    "is_valid_vaddr (arch_aspaces s i) w"
    "lookt 3 tbl (unat (vaddr_rel_of (arch_aspaces s i) w)) s' = lookt 3 tbl (unat (vaddr_rel_of (arch_aspaces s i) w)) s"
  shows "arm64_mmu_query i w fl s' = arm64_mmu_query i w fl s"
  using query_lookt [OF assms(1-3,5)] query_lookt [of s' i tbl w] assms pt_step_pre(1) [OF assms(2,4)] step_aspace [OF assms(4)] by simp

lemma count_size: "unat (ucast (count :: u32) * PAGE_SIZE :: u64) = unat count * 4096"
proof -
  have "unat count < 2 ^ 32" using unsigned_less [of count] by simp
  then show ?thesis by (simp add: unat_word_ariths(2) unsigned_ucast_eq take_bit_nat_eq_self)
qed

lemma range_not_bad: "unat v + unat sz \<le> 2 ^ 48 \<Longrightarrow> \<not> range_bad v sz"
proof -
  assume a: "unat v + unat sz \<le> 2 ^ 48"
  have m: "unat (push_bit 48 1 :: u64) = 2 ^ 48" by simp
  then have "sz \<le> push_bit 48 1" using a unfolding word_le_nat_alt by linarith
  then have "unat (push_bit 48 1 - sz) = 2 ^ 48 - unat sz" using m by (simp add: unat_sub)
  then have "v \<le> push_bit 48 1 - sz" using a unfolding word_le_nat_alt by linarith
  then show ?thesis using \<open>sz \<le> push_bit 48 1\<close> unfolding range_bad_def Let_def using leD by blast
qed

lemma unat_page_aligned: "IS_ALIGNED (v :: u64) PAGE_SIZE \<longleftrightarrow> 4096 dvd unat v"
  using IS_ALIGNED_iff [of v 12] by simp

lemma rel_aligned: "IS_ALIGNED v PAGE_SIZE \<Longrightarrow> 4096 dvd unat (vaddr_rel_of a v)"
proof -
  assume v: "IS_ALIGNED v PAGE_SIZE"
  have "unat (v - 0xFFFF000000000000) = (if 0xFFFF000000000000 \<le> unat v then unat v - 0xFFFF000000000000 else unat v + 0x0001000000000000)"
    using unat_sub_if' [of v "0xFFFF000000000000"] by simp
  moreover have "4096 dvd (0xFFFF000000000000 :: nat)" "4096 dvd (0x0001000000000000 :: nat)" by simp_all
  ultimately show ?thesis using v unfolding unat_page_aligned vaddr_rel_of_def by (auto intro: dvd_diff_nat dvd_add)
qed

lemma map_translation:
  assumes "mapped 3 tbl v n pa (mmu_flags_to_pte_attr flags) s s'" "flags_ok flags" "u < 2 ^ 48" "v \<le> u" "u < v + n"
  shows "\<exists>e off k. lookt 3 tbl u s' = Some (e, off, k) \<and> lookt 3 tbl u s = None \<and>
    unat (e AND MMU_PTE_OUTPUT_ADDR_MASK) + off = pa + (u - v) \<and> pte_to_mmu_flags e = Some flags"
proof -
  have c: "v \<le> u \<and> u < v + n" using assms by simp
  have "lookt 3 tbl u s = None \<and> translates 3 tbl v n pa (mmu_flags_to_pte_attr flags) u s'"
    using assms(1,3) c unfolding mapped_def blk_3 by meson
  then obtain e off k where e: "lookt 3 tbl u s' = Some (e, off, k)" "lookt 3 tbl u s = None"
    "unat (e AND MMU_PTE_OUTPUT_ADDR_MASK) + off = pa + (u - v)" "e AND NOT (MMU_PTE_OUTPUT_ADDR_MASK OR 3) = mmu_flags_to_pte_attr flags"
    unfolding translates_def by blast
  then have "pte_to_mmu_flags e = Some flags" using pte_flags_attr [of e] flags_round_trip(1) [OF assms(2)] by simp
  then show ?thesis using e(1-3) by blast
qed

lemma arch_map_ok:
  assumes "mmu_ok i s" "is_valid_vaddr (arch_aspaces s i) vaddr" "IS_ALIGNED vaddr PAGE_SIZE" "IS_ALIGNED paddr PAGE_SIZE"
    "unat (vaddr_rel_of (arch_aspaces s i) vaddr) + unat count * 4096 \<le> 2 ^ 48" "unat paddr + unat count * 4096 \<le> 2 ^ 48" "flags_ok flags"
    "tt_virt (arch_aspaces s i) = Some tbl"
  shows "\<exists>res. arm64_arch_mmu_map i vaddr paddr count flags s = Some res \<and>
    map_result 3 tbl (unat (vaddr_rel_of (arch_aspaces s i) vaddr)) (unat count * 4096) (unat paddr) (mmu_flags_to_pte_attr flags) s res"
proof -
  let ?a = "arch_aspaces s i" and ?sz = "ucast count * PAGE_SIZE :: u64"
  let ?v = "vaddr_rel_of ?a vaddr"
  have pre: "pt_pre 3 tbl s" using assms(1,8) by (simp add: mmu_ok_def)
  have args: "map_args 3 ?v paddr ?sz"
    unfolding map_args_def count_size blk_3 using assms(4-6) rel_aligned [OF assms(3)] by (simp add: unat_page_aligned)
  obtain res where res: "map_pt_loop ?v ?sz ?v paddr ?sz (mmu_flags_to_pte_attr flags) (12 + 9 * 3) tbl s = Some res"
    "map_result 3 tbl (unat ?v) (unat ?sz) (unat paddr) (mmu_flags_to_pte_attr flags) s res"
    using map_pt_ok [OF order_refl pre args flags_round_trip(2) [OF assms(7)]] by blast
  have nb: "\<not> range_bad ?v ?sz" by (rule range_not_bad) (use assms(5) in \<open>simp only: count_size\<close>)
  have al: "\<not> not_page_aligned ?v paddr ?sz" using args by (simp only: not_page_aligned_iff map_args_def simp_thms)
  show ?thesis
  proof (cases "count = 0")
    case True
    then show ?thesis using assms(2-4,8) mapped_none [OF pre] by (simp add: arm64_arch_mmu_map_def Let_def map_result_def)
  next
    case False
    have "arm64_arch_mmu_map i vaddr paddr count flags s = arm64_mmu_map ?v paddr ?sz (mmu_flags_to_pte_attr flags) (Some tbl) s"
      using assms(2-4,8) False by (simp add: arm64_arch_mmu_map_def Let_def)
    also have "\<dots> = Some res" using nb al res(1) by (simp add: arm64_mmu_map_def arm64_mmu_map_pt_def)
    finally show ?thesis using res(2) unfolding count_size by blast
  qed
qed

lemma arch_unmap_ok:
  assumes "mmu_ok i s" "is_valid_vaddr (arch_aspaces s i) vaddr" "IS_ALIGNED vaddr PAGE_SIZE"
    "unat (vaddr_rel_of (arch_aspaces s i) vaddr) + unat count * 4096 \<le> 2 ^ 48" "tt_virt (arch_aspaces s i) = Some tbl"
  shows "\<exists>s'. arm64_arch_mmu_unmap i vaddr count s = Some (0, s') \<and>
    unmapped 3 tbl (unat (vaddr_rel_of (arch_aspaces s i) vaddr)) (unat count * 4096) s s'"
proof -
  let ?v = "vaddr_rel_of (arch_aspaces s i) vaddr" and ?sz = "ucast count * PAGE_SIZE :: u64"
  have pre: "pt_pre 3 tbl s" using assms(1,5) by (simp add: mmu_ok_def)
  have r: "unat ?v + unat ?sz \<le> 512 * blk 3" using assms(4) unfolding count_size blk_3 .
  obtain s' where s': "arm64_mmu_unmap_pt ?v ?sz (12 + 9 * 3) tbl s = Some s'" "unmapped 3 tbl (unat ?v) (unat count * 4096) s s'"
    using unmap_pt_ok [OF order_refl pre r] unfolding count_size by blast
  have "\<not> range_bad ?v ?sz" by (rule range_not_bad) (use r in \<open>simp only: blk_3\<close>)
  then have "arm64_arch_mmu_unmap i vaddr count s = Some (0, s')"
    using assms(2,3,5) s'(1) by (simp add: arm64_arch_mmu_unmap_def arm64_mmu_unmap_def Let_def)
  then show ?thesis using s'(2) by blast
qed

end
