(* ===== verification/Arm64_Props.thy ===== *)
theory Arm64_Props
  imports Arm64_Query
begin

text \<open>Properties of the page tables of arm64.\<close>

section \<open>A machine with four free pages and an empty user address space\<close>

definition demo_mapping :: mmu_initial_mapping where
  "demo_mapping = \<lparr>im_phys = 0x40000000, im_virt = 0xFFFF000040000000, im_size = 0x100000, im_flags = 0, im_name = ''memory''\<rparr>"

definition demo_arm :: arm64_state where
  "demo_arm = \<lparr>arena_list = [0],
     arenas = (\<lambda>_. \<lparr>ar_flags = 1, priority = 0, ar_base = 0x40001000, ar_size = 0x4000, free_count = 4, page_array = 0,
        free_list = [(0, 0), (0, 1), (0, 2), (0, 3)]\<rparr>),
     page_flags = (\<lambda>_. 0), boot_alloc_end = 0x40100000, mmu_initial_mappings = [demo_mapping],
     aspaces = (\<lambda>_. \<lparr>as_name = ''a'', as_flags = 0, as_base = 0x1000000, as_size = 0xFFFFFE000000, region_list = []\<rparr>),
     aspace_list = [], thread_aspace = None, pt_mem = (\<lambda>_ _. 0),
     arch_aspaces = (\<lambda>_. \<lparr>tt_phys = 0x40000000, tt_virt = Some 0xFFFF000040000000, aa_flags = 0, aa_base = 0x1000000, aa_size = 0xFFFFFE000000\<rparr>),
     arm64_kernel_translation_table = 0, arm64_mmu_tcr_flags = 0, ttbr0_el1 = 0, tcr_el1 = 0\<rparr>"

lemma demo_arm_pages: "all_pages demo_arm = {(0, 0), (0, 1), (0, 2), (0, 3)}" "free_pages demo_arm = all_pages demo_arm"
  by (auto simp: all_pages_def free_pages_def demo_arm_def arena_pages_def page_is_free_def)

lemma demo_arm_kva: "kva demo_arm (0, 0) = 0xFFFF000040001000" "kva demo_arm (0, 1) = 0xFFFF000040002000"
  "kva demo_arm (0, Suc 0) = 0xFFFF000040002000" "kva demo_arm (0, 2) = 0xFFFF000040003000" "kva demo_arm (0, 3) = 0xFFFF000040004000"
  by (simp_all add: kva_def paddr_to_kvaddr_def live_mappings_def mapping_covers_def demo_arm_def demo_mapping_def vm_page_to_paddr_def
      PAGE_BELONGS_TO_ARENA_def PAGE_ADDRESS_FROM_ARENA_def arena_pages_def)

lemma demo_arm_geom: "geom_ok demo_arm"
proof -
  have "page_geom demo_arm p" if "p \<in> all_pages demo_arm" for p
    using that unfolding demo_arm_pages(1)
    by (elim insertE; simp add: page_geom_def demo_arm_kva)
      (simp_all add: paddr_to_kvaddr_def live_mappings_def mapping_covers_def demo_arm_def demo_mapping_def vm_page_to_paddr_def
        PAGE_BELONGS_TO_ARENA_def PAGE_ADDRESS_FROM_ARENA_def arena_pages_def paddr_to_vm_page_def)
  moreover have "inj_on (kva demo_arm) (all_pages demo_arm)" unfolding demo_arm_pages(1) by (simp add: demo_arm_kva)
  ultimately show ?thesis by (simp add: geom_ok_def)
qed

lemma demo_arm_ok: "mmu_ok 1 demo_arm"
proof -
  have "pmm_inv demo_arm" by (auto simp: pmm_inv_def arena_ok_def demo_arm_def arena_pages_def page_is_free_def)
  moreover have "wf_pt 3 0xFFFF000040000000 demo_arm"
  proof -
    have e: "pt_mem demo_arm t j = 0" for t j by (simp add: demo_arm_def)
    then show ?thesis by (simp add: wf_pt_def tset_def disjoint_family_on_def numeral_3_eq_3)
  qed
  moreover have "0xFFFF000040000000 \<notin> kva demo_arm ` free_pages demo_arm" unfolding demo_arm_pages by (simp add: demo_arm_kva)
  ultimately have "pt_pre 3 0xFFFF000040000000 demo_arm" using demo_arm_geom by (simp add: pt_pre_def)
  then show ?thesis by (simp add: mmu_ok_def aspace_range_ok_def is_kernel_def) (simp add: demo_arm_def)
qed

section \<open>Properties\<close>

text \<open>
  C7: arch_mmu_map ends without a fault. It succeeds only if no address of the range had a
  translation; then a query of any address of the range gives the physical address and the flags that
  were asked for, and every other query is as before. When it fails, every query is as before.
\<close>

theorem arch_mmu_map_correct:
  assumes "mmu_ok i s" "is_valid_vaddr (arch_aspaces s i) vaddr" "IS_ALIGNED vaddr PAGE_SIZE" "IS_ALIGNED paddr PAGE_SIZE"
    "unat (vaddr_rel_of (arch_aspaces s i) vaddr) + unat count * 4096 \<le> 2 ^ 48" "unat paddr + unat count * 4096 \<le> 2 ^ 48" "flags_ok flags"
  shows "\<exists>r s'. arm64_arch_mmu_map i vaddr paddr count flags s = Some (r, s') \<and> mmu_ok i s' \<and> r \<in> {NO_ERROR, ERR_GENERIC} \<and>
    (\<forall>w. is_valid_vaddr (arch_aspaces s i) w \<longrightarrow>
       (if r = NO_ERROR \<and> w - vaddr < ucast count * PAGE_SIZE
        then arm64_mmu_query i w True s = Some (Inl ERR_NOT_FOUND) \<and> arm64_mmu_query i w True s' = Some (Inr (paddr + (w - vaddr), flags))
        else arm64_mmu_query i w True s' = arm64_mmu_query i w True s))"
proof -
  let ?a = "arch_aspaces s i" and ?n = "unat count * 4096"
  let ?v = "unat (vaddr_rel_of (arch_aspaces s i) vaddr)"
  obtain tbl where t: "tt_virt ?a = Some tbl" "pt_pre 3 tbl s" and ra: "aspace_range_ok ?a" using assms(1) by (auto simp: mmu_ok_def)
  obtain r s' where res: "arm64_arch_mmu_map i vaddr paddr count flags s = Some (r, s')"
    "map_result 3 tbl ?v ?n (unat paddr) (mmu_flags_to_pte_attr flags) s (r, s')"
    using arch_map_ok [OF assms t(1)] by (metis surj_pair)
  have st: "pt_step 3 tbl s s'" using res(2) by (auto simp: map_result_def mapped_def same_look_def)
  have "if r = NO_ERROR \<and> w - vaddr < ucast count * PAGE_SIZE
      then arm64_mmu_query i w True s = Some (Inl ERR_NOT_FOUND) \<and> arm64_mmu_query i w True s' = Some (Inr (paddr + (w - vaddr), flags))
      else arm64_mmu_query i w True s' = arm64_mmu_query i w True s" if w: "is_valid_vaddr ?a w" for w
  proof -
    let ?u = "unat (vaddr_rel_of ?a w)"
    have u: "?u < 2 ^ 48" by (rule rel_bound [OF ra w])
    note q = query_lookt [OF t ra w, of True] and same = same_look_query [OF t ra st w, of True]
    have q': "arm64_mmu_query i w True s' = (case lookt 3 tbl ?u s' of None \<Rightarrow> Some (Inl ERR_NOT_FOUND)
        | Some (e, off, k) \<Rightarrow> (if True then pte_to_mmu_flags e else Some 0) \<bind> (\<lambda>f. Some (Inr ((e AND MMU_PTE_OUTPUT_ADDR_MASK) + word_of_nat off, f))))"
      using query_lookt [of s' i tbl w True] t(1) ra w pt_step_pre(1) [OF t(2) st] unfolding step_aspace [OF st] by simp
    note rg = in_range_rel [of ?a vaddr "ucast count * PAGE_SIZE" w, unfolded count_size, OF assms(5) u]
    show ?thesis
    proof (cases "r = NO_ERROR \<and> w - vaddr < ucast count * PAGE_SIZE")
      case True
      then have m: "mapped 3 tbl ?v ?n (unat paddr) (mmu_flags_to_pte_attr flags) s s'" and c: "?v \<le> ?u" "?u < ?v + ?n"
        using res(2) rg(1) by (auto simp: map_result_def)
      obtain e off k where e: "lookt 3 tbl ?u s' = Some (e, off, k)" "lookt 3 tbl ?u s = None"
        "unat (e AND MMU_PTE_OUTPUT_ADDR_MASK) + off = unat paddr + (?u - ?v)" "pte_to_mmu_flags e = Some flags"
        using map_translation [OF m assms(7) u c] by blast
      have "(e AND MMU_PTE_OUTPUT_ADDR_MASK) + word_of_nat off = word_of_nat (unat (e AND MMU_PTE_OUTPUT_ADDR_MASK) + off)" by simp
      also have "\<dots> = paddr + word_of_nat (?u - ?v)" unfolding e(3) by simp
      also have "?u - ?v = unat (w - vaddr)" using rg(2) True by simp
      also have "word_of_nat (unat (w - vaddr)) = w - vaddr" by simp
      finally show ?thesis unfolding if_P [OF True] using q q' e by simp
    next
      case False
      have "lookt 3 tbl ?u s' = lookt 3 tbl ?u s"
        using res(2) False rg(1) u unfolding map_result_def mapped_def same_look_def blk_3 fst_conv snd_conv by metis
      then show ?thesis unfolding if_not_P [OF False] by (rule same)
    qed
  qed
  then show ?thesis using res step_mmu_ok [OF t assms(1) st] by (auto simp: map_result_def)
qed

theorem arch_mmu_map_correct_witness:
  "\<exists>r s'. arm64_arch_mmu_map 1 0x1000000 0x40000000 2 12 demo_arm = Some (r, s') \<and> mmu_ok 1 s'"
  using arch_mmu_map_correct [OF demo_arm_ok, of "0x1000000" "0x40000000" 2 12]
  by (auto simp: demo_arm_def is_valid_vaddr_def IS_ALIGNED_def vaddr_rel_of_def is_kernel_def flags_ok_def)

text \<open>
  C8: arch_mmu_unmap ends without a fault and returns NO_ERROR. Afterwards no address of the range has
  a translation; another address loses its translation exactly if its page or block meets the range,
  and otherwise keeps it.
\<close>

theorem arch_mmu_unmap_correct:
  assumes "mmu_ok i s" "is_valid_vaddr (arch_aspaces s i) vaddr" "IS_ALIGNED vaddr PAGE_SIZE"
    "unat (vaddr_rel_of (arch_aspaces s i) vaddr) + unat count * 4096 \<le> 2 ^ 48"
  shows "\<exists>s'. arm64_arch_mmu_unmap i vaddr count s = Some (NO_ERROR, s') \<and> mmu_ok i s' \<and>
    (\<forall>w fl. is_valid_vaddr (arch_aspaces s i) w \<longrightarrow>
       (w - vaddr < ucast count * PAGE_SIZE \<longrightarrow> arm64_mmu_query i w fl s' = Some (Inl ERR_NOT_FOUND)) \<and>
       arm64_mmu_query i w fl s' =
         (if hit 3 (the (tt_virt (arch_aspaces s i))) (unat (vaddr_rel_of (arch_aspaces s i) vaddr)) (unat count * 4096)
               (unat (vaddr_rel_of (arch_aspaces s i) w)) s
          then Some (Inl ERR_NOT_FOUND) else arm64_mmu_query i w fl s))"
proof -
  let ?a = "arch_aspaces s i" and ?n = "unat count * 4096"
  let ?v = "unat (vaddr_rel_of (arch_aspaces s i) vaddr)"
  obtain tbl where t: "tt_virt ?a = Some tbl" "pt_pre 3 tbl s" and ra: "aspace_range_ok ?a" using assms(1) by (auto simp: mmu_ok_def)
  obtain s' where s': "arm64_arch_mmu_unmap i vaddr count s = Some (0, s')" "unmapped 3 tbl ?v ?n s s'" using arch_unmap_ok [OF assms t(1)] by blast
  have st: "pt_step 3 tbl s s'" using s'(2) by (simp add: unmapped_def)
  have "(w - vaddr < ucast count * PAGE_SIZE \<longrightarrow> arm64_mmu_query i w fl s' = Some (Inl ERR_NOT_FOUND)) \<and>
      arm64_mmu_query i w fl s' = (if hit 3 tbl ?v ?n (unat (vaddr_rel_of ?a w)) s then Some (Inl ERR_NOT_FOUND) else arm64_mmu_query i w fl s)"
    if w: "is_valid_vaddr ?a w" for w fl
  proof -
    let ?u = "unat (vaddr_rel_of ?a w)"
    have u: "?u < 2 ^ 48" by (rule rel_bound [OF ra w])
    have l: "lookt 3 tbl ?u s' = (if hit 3 tbl ?v ?n ?u s then None else lookt 3 tbl ?u s)" using s'(2) u unfolding unmapped_def blk_3 by blast
    note q = query_lookt [OF t ra w, of fl]
    have q': "lookt 3 tbl ?u s' = None \<Longrightarrow> arm64_mmu_query i w fl s' = Some (Inl ERR_NOT_FOUND)"
      using query_lookt [of s' i tbl w fl] t(1) ra w pt_step_pre(1) [OF t(2) st] unfolding step_aspace [OF st] by simp
    have same: "\<not> hit 3 tbl ?v ?n ?u s \<Longrightarrow> arm64_mmu_query i w fl s' = arm64_mmu_query i w fl s"
      using same_look_query [OF t ra st w] l by simp
    have "lookt 3 tbl ?u s' = None" if "w - vaddr < ucast count * PAGE_SIZE"
    proof (cases "lookt 3 tbl ?u s")
      case (Some y)
      have c: "?v \<le> ?u" "?u < ?v + ?n"
        using in_range_rel(1) [of ?a vaddr "ucast count * PAGE_SIZE" w, unfolded count_size, OF assms(4) u] that by simp_all
      obtain e off k where y: "lookt 3 tbl ?u s = Some (e, off, k)" using Some by (cases y) simp
      have "hit 3 tbl ?v ?n ?u s" unfolding hit_def using y c lookt_bounds(1,4) [OF y] by fastforce
      then show ?thesis using l by simp
    qed (use l in simp)
    then show ?thesis using q' same l by auto
  qed
  then show ?thesis using s' step_mmu_ok [OF t assms(1) st] t(1) by auto
qed

theorem arch_mmu_unmap_correct_witness:
  "\<exists>s'. arm64_arch_mmu_unmap 1 0x1000000 2 demo_arm = Some (NO_ERROR, s') \<and> mmu_ok 1 s' \<and> arm64_mmu_query 1 0x1000000 True s' = Some (Inl ERR_NOT_FOUND)"
proof -
  have v: "is_valid_vaddr (arch_aspaces demo_arm 1) 0x1000000" by (simp add: demo_arm_def is_valid_vaddr_def)
  have r: "unat (vaddr_rel_of (arch_aspaces demo_arm 1) 0x1000000) + unat (2 :: u32) * 4096 \<le> 2 ^ 48"
    by (simp add: demo_arm_def vaddr_rel_of_def is_kernel_def)
  have "(0x1000000 :: u64) - 0x1000000 < ucast (2 :: u32) * PAGE_SIZE" by simp
  then show ?thesis using arch_mmu_unmap_correct [OF demo_arm_ok v _ r] v by (auto simp: IS_ALIGNED_def)
qed

text \<open>
  C26: unmapping what a successful arch_mmu_map has mapped undoes it: every query gives what it gave
  before the two calls.
\<close>

theorem arch_mmu_map_unmap:
  assumes "mmu_ok i s" "is_valid_vaddr (arch_aspaces s i) vaddr" "IS_ALIGNED vaddr PAGE_SIZE" "IS_ALIGNED paddr PAGE_SIZE"
    "unat (vaddr_rel_of (arch_aspaces s i) vaddr) + unat count * 4096 \<le> 2 ^ 48" "unat paddr + unat count * 4096 \<le> 2 ^ 48" "flags_ok flags"
    "arm64_arch_mmu_map i vaddr paddr count flags s = Some (NO_ERROR, s1)"
  shows "\<exists>s2. arm64_arch_mmu_unmap i vaddr count s1 = Some (NO_ERROR, s2) \<and> mmu_ok i s2 \<and>
    (\<forall>w fl. is_valid_vaddr (arch_aspaces s i) w \<longrightarrow> arm64_mmu_query i w fl s2 = arm64_mmu_query i w fl s)"
proof -
  let ?a = "arch_aspaces s i" and ?n = "unat count * 4096"
  let ?v = "unat (vaddr_rel_of (arch_aspaces s i) vaddr)"
  obtain tbl where t: "tt_virt ?a = Some tbl" "pt_pre 3 tbl s" and ra: "aspace_range_ok ?a" using assms(1) by (auto simp: mmu_ok_def)
  have m: "mapped 3 tbl ?v ?n (unat paddr) (mmu_flags_to_pte_attr flags) s s1" using arch_map_ok [OF assms(1-7) t(1)] assms(8) by (auto simp: map_result_def)
  have st: "pt_step 3 tbl s s1" using m by (simp add: mapped_def)
  note pre1 = pt_step_pre(1) [OF t(2) st] and ok1 = step_mmu_ok [OF t assms(1) st] and a1 = step_aspace [OF st]
  obtain s2 where s2: "arm64_arch_mmu_unmap i vaddr count s1 = Some (0, s2)" "unmapped 3 tbl ?v ?n s1 s2"
    using arch_unmap_ok [OF ok1, unfolded a1, OF assms(2,3,5) t(1)] by blast
  have sl: "same_look 3 tbl s s2" by (rule undo_mapped [OF t(2) m same_look_refl [OF pre1] s2(2)])
  then have st2: "pt_step 3 tbl s s2" by (simp add: same_look_def)
  have "arm64_mmu_query i w fl s2 = arm64_mmu_query i w fl s" if w: "is_valid_vaddr ?a w" for w fl
    by (rule same_look_query [OF t ra st2 w]) (use sl rel_bound [OF ra w] in \<open>simp only: same_look_def blk_3\<close>)
  then show ?thesis using s2(1) step_mmu_ok [OF t assms(1) st2] by blast
qed

lemma demo_new_table:
  "\<exists>s1. arm64_mmu_get_page_table 0 0xFFFF000040000000 demo_arm = Some (Some 0xFFFF000040001000, s1) \<and> pt_mem s1 0xFFFF000040001000 = (\<lambda>_. 0)"
  by (simp add: arm64_mmu_get_page_table_def alloc_page_table_def pmm_alloc_page_def pmm_alloc_pages_def
      demo_arm_def demo_mapping_def Let_def vm_page_to_paddr_def PAGE_BELONGS_TO_ARENA_def PAGE_ADDRESS_FROM_ARENA_def arena_pages_def
      paddr_to_kvaddr_def live_mappings_def mapping_covers_def set_pte_def upd_arena_def set_flags_def)

lemma map_block:
  assumes "pt_mem s tbl (Suc 0) = 0"
  shows "map_pt_loop 0x40000000 0x40000000 0x40000000 0x40000000 0x40000000 attrs 30 tbl s = Some (0, set_pte tbl 1 (0x40000000 OR attrs OR 1) s)"
  by (subst map_pt_loop.simps) (simp add: assms chunk_size_def Let_def, subst map_pt_loop.simps, simp)

lemma demo_map_block: "\<exists>s1. arm64_arch_mmu_map 1 0x40000000 0x40000000 0x40000 0 demo_arm = Some (NO_ERROR, s1)"
proof -
  obtain s1 where s1: "arm64_mmu_get_page_table 0 0xFFFF000040000000 demo_arm = Some (Some 0xFFFF000040001000, s1)"
    "pt_mem s1 0xFFFF000040001000 = (\<lambda>_. 0)" using demo_new_table by blast
  have "arm64_arch_mmu_map 1 0x40000000 0x40000000 0x40000 0 demo_arm = map_pt_loop 0x40000000 0x40000000 0x40000000 0x40000000 0x40000000
      (mmu_flags_to_pte_attr 0) 39 0xFFFF000040000000 demo_arm"
    by (simp add: arm64_arch_mmu_map_def demo_arm_def Let_def is_valid_vaddr_def IS_ALIGNED_def vaddr_rel_of_def is_kernel_def arm64_mmu_map_def
        range_bad_def arm64_mmu_map_pt_def not_page_aligned_def)
  also have "\<dots> = map_pt_loop 0x40000000 0x40000000 0x80000000 0x80000000 0 (mmu_flags_to_pte_attr 0) 39 0xFFFF000040000000
      (set_pte 0xFFFF000040001000 1 (0x40000000 OR mmu_flags_to_pte_attr 0 OR 1) s1)"
    by (subst map_pt_loop.simps) (simp add: s1 chunk_size_def Let_def not_page_aligned_def map_block)
  finally show ?thesis by (subst (asm) map_pt_loop.simps) simp
qed

theorem arch_mmu_map_unmap_witness:
  "\<exists>s1 s2. arm64_arch_mmu_map 1 0x40000000 0x40000000 0x40000 0 demo_arm = Some (NO_ERROR, s1) \<and>
     arm64_arch_mmu_unmap 1 0x40000000 0x40000 s1 = Some (NO_ERROR, s2) \<and> mmu_ok 1 s2"
proof -
  obtain s1 where s1: "arm64_arch_mmu_map 1 0x40000000 0x40000000 0x40000 0 demo_arm = Some (NO_ERROR, s1)" using demo_map_block by blast
  have "is_valid_vaddr (arch_aspaces demo_arm 1) 0x40000000"
    "unat (vaddr_rel_of (arch_aspaces demo_arm 1) 0x40000000) + unat (0x40000 :: u32) * 4096 \<le> 2 ^ 48"
    by (simp_all add: demo_arm_def is_valid_vaddr_def vaddr_rel_of_def is_kernel_def)
  then show ?thesis using arch_mmu_map_unmap [OF demo_arm_ok _ _ _ _ _ _ s1] s1 by (auto simp: IS_ALIGNED_def flags_ok_def)
qed

text \<open>
  C32: the flags that a query reports for an entry with the attributes of mmu_flags_to_pte_attr are
  the flags given, for every combination of the defined flags with a valid cache type. Such attributes
  touch neither the address nor the type of the entry.
\<close>

theorem mmu_flags_round_trip:
  assumes "flags < 64" "flags AND ARCH_MMU_FLAG_CACHE_MASK \<noteq> ARCH_MMU_FLAG_CACHE_MASK"
  shows "pte_to_mmu_flags (mmu_flags_to_pte_attr flags) = Some flags \<and>
    mmu_flags_to_pte_attr flags AND (MMU_PTE_OUTPUT_ADDR_MASK OR MMU_PTE_DESCRIPTOR_MASK) = 0"
  using flags_round_trip [of flags] assms by (simp_all add: flags_ok_def attrs_ok_def)

theorem mmu_flags_round_trip_witness: "pte_to_mmu_flags (mmu_flags_to_pte_attr 0x1E) = Some 0x1E"
  using mmu_flags_round_trip [of "0x1E"] by simp

end
