(* ===== verification/Intrusive_List.thy ===== *)
theory Intrusive_List
  imports Prelude
begin

text \<open>
  The circular doubly linked lists of \<open>top/include/lk/list.h\<close>, at the level of the C code: a
  store of \<open>struct list_node\<close>s indexed by address (0 is NULL), every operation the sequence of
  pointer writes of the source, a dereference of NULL the outcome \<open>None\<close>. The predicate \<open>dll\<close>
  relates a list head to the sequence of nodes linked behind it; every operation is shown to act
  on that sequence. The other components use these lists through the sequence.
\<close>

type_synonym node = nat

record list_node =
  n_prev :: node
  n_next :: node

type_synonym nodes = "node \<Rightarrow> list_node"

section \<open>The operations of list.h\<close>

definition rd_next :: "node \<Rightarrow> nodes \<Rightarrow> node option" where
  "rd_next p h = (if p = 0 then None else Some (n_next (h p)))"

definition rd_prev :: "node \<Rightarrow> nodes \<Rightarrow> node option" where
  "rd_prev p h = (if p = 0 then None else Some (n_prev (h p)))"

definition wr_next :: "node \<Rightarrow> node \<Rightarrow> nodes \<Rightarrow> nodes option" where
  "wr_next p v h = (if p = 0 then None else Some (h(p := (h p)\<lparr>n_next := v\<rparr>)))"

definition wr_prev :: "node \<Rightarrow> node \<Rightarrow> nodes \<Rightarrow> nodes option" where
  "wr_prev p v h = (if p = 0 then None else Some (h(p := (h p)\<lparr>n_prev := v\<rparr>)))"

definition list_initialize :: "node \<Rightarrow> nodes \<Rightarrow> nodes option" where
  "list_initialize l h = do {
     h1 \<leftarrow> wr_next l l h;
     wr_prev l l h1 }"

definition list_clear_node :: "node \<Rightarrow> nodes \<Rightarrow> nodes option" where
  "list_clear_node item h = do {
     h1 \<leftarrow> wr_next item 0 h;
     wr_prev item 0 h1 }"

definition list_in_list :: "node \<Rightarrow> nodes \<Rightarrow> bool option" where
  "list_in_list item h = do {
     p \<leftarrow> rd_prev item h;
     n \<leftarrow> rd_next item h;
     Some (\<not> (p = 0 \<and> n = 0)) }"

definition list_add_head :: "node \<Rightarrow> node \<Rightarrow> nodes \<Rightarrow> nodes option" where
  "list_add_head l item h = do {
     n \<leftarrow> rd_next l h;
     h1 \<leftarrow> wr_next item n h;
     h2 \<leftarrow> wr_prev item l h1;
     n2 \<leftarrow> rd_next l h2;
     h3 \<leftarrow> wr_prev n2 item h2;
     wr_next l item h3 }"

definition list_add_tail :: "node \<Rightarrow> node \<Rightarrow> nodes \<Rightarrow> nodes option" where
  "list_add_tail l item h = do {
     p \<leftarrow> rd_prev l h;
     h1 \<leftarrow> wr_prev item p h;
     h2 \<leftarrow> wr_next item l h1;
     p2 \<leftarrow> rd_prev l h2;
     h3 \<leftarrow> wr_next p2 item h2;
     wr_prev l item h3 }"

definition list_delete :: "node \<Rightarrow> nodes \<Rightarrow> nodes option" where
  "list_delete item h = do {
     n \<leftarrow> rd_next item h;
     p \<leftarrow> rd_prev item h;
     h1 \<leftarrow> wr_prev n p h;
     p2 \<leftarrow> rd_prev item h1;
     n2 \<leftarrow> rd_next item h1;
     h2 \<leftarrow> wr_next p2 n2 h1;
     h3 \<leftarrow> wr_next item 0 h2;
     wr_prev item 0 h3 }"

definition list_remove_head :: "node \<Rightarrow> nodes \<Rightarrow> (node \<times> nodes) option" where
  "list_remove_head l h = do {
     item \<leftarrow> rd_next l h;
     if item \<noteq> l then do { h1 \<leftarrow> list_delete item h; Some (item, h1) }
     else Some (0, h) }"

definition list_remove_tail :: "node \<Rightarrow> nodes \<Rightarrow> (node \<times> nodes) option" where
  "list_remove_tail l h = do {
     item \<leftarrow> rd_prev l h;
     if item \<noteq> l then do { h1 \<leftarrow> list_delete item h; Some (item, h1) }
     else Some (0, h) }"

definition list_peek_head :: "node \<Rightarrow> nodes \<Rightarrow> node option" where
  "list_peek_head l h = do { n \<leftarrow> rd_next l h; Some (if n \<noteq> l then n else 0) }"

definition list_peek_tail :: "node \<Rightarrow> nodes \<Rightarrow> node option" where
  "list_peek_tail l h = do { p \<leftarrow> rd_prev l h; Some (if p \<noteq> l then p else 0) }"

definition list_prev :: "node \<Rightarrow> node \<Rightarrow> nodes \<Rightarrow> node option" where
  "list_prev l item h = do { p \<leftarrow> rd_prev item h; Some (if p \<noteq> l then p else 0) }"

definition list_next :: "node \<Rightarrow> node \<Rightarrow> nodes \<Rightarrow> node option" where
  "list_next l item h = do { n \<leftarrow> rd_next item h; Some (if n \<noteq> l then n else 0) }"

definition list_prev_wrap :: "node \<Rightarrow> node \<Rightarrow> nodes \<Rightarrow> node option" where
  "list_prev_wrap l item h = do {
     p \<leftarrow> rd_prev item h;
     if p \<noteq> l then Some p
     else do { pp \<leftarrow> rd_prev p h; Some (if pp \<noteq> l then pp else 0) } }"

definition list_next_wrap :: "node \<Rightarrow> node \<Rightarrow> nodes \<Rightarrow> node option" where
  "list_next_wrap l item h = do {
     n \<leftarrow> rd_next item h;
     if n \<noteq> l then Some n
     else do { nn \<leftarrow> rd_next n h; Some (if nn \<noteq> l then nn else 0) } }"

definition list_is_empty :: "node \<Rightarrow> nodes \<Rightarrow> bool option" where
  "list_is_empty l h = do { n \<leftarrow> rd_next l h; Some (n = l) }"

text \<open>
  The loop of \<open>list_length\<close> (\<open>list_for_every\<close> with a counter). On a corrupted store it need not
  stop, so it is a partial function; on a well-formed list it returns (\<open>list_length_dll\<close>).
\<close>

partial_function (option) list_length_from :: "node \<Rightarrow> node \<Rightarrow> nat \<Rightarrow> nodes \<Rightarrow> nat option" where
  "list_length_from l node cnt h =
     (if node = l then Some cnt
      else Option.bind (rd_next node h) (\<lambda>n. list_length_from l n (Suc cnt) h))"

definition list_length :: "node \<Rightarrow> nodes \<Rightarrow> nat option" where
  "list_length l h = do { n \<leftarrow> rd_next l h; list_length_from l n 0 h }"

section \<open>The sequence behind a list head\<close>

text \<open>
  \<open>links h a ys b\<close>: following \<open>next\<close> from \<open>a\<close> gives the nodes \<open>ys\<close> and then \<open>b\<close>, and every
  \<open>prev\<close> on the way points back.
\<close>

primrec links :: "nodes \<Rightarrow> node \<Rightarrow> node list \<Rightarrow> node \<Rightarrow> bool" where
  "links h a [] b = (n_next (h a) = b \<and> n_prev (h b) = a)"
| "links h a (y # ys) b = (n_next (h a) = y \<and> n_prev (h y) = a \<and> links h y ys b)"

definition dll :: "nodes \<Rightarrow> node \<Rightarrow> node list \<Rightarrow> bool" where
  "dll h l xs \<longleftrightarrow> 0 \<notin> set (l # xs) \<and> distinct (l # xs) \<and> links h l xs l"

lemmas list_prim_defs = rd_next_def rd_prev_def wr_next_def wr_prev_def

lemma links_append: "links h a (xs @ y # ys) b \<longleftrightarrow> links h a xs y \<and> links h y ys b"
  by (induction xs arbitrary: a) auto

lemma links_hd: "links h a ys b \<Longrightarrow> n_next (h a) = (case ys of [] \<Rightarrow> b | y # _ \<Rightarrow> y)"
  by (cases ys) auto

lemma links_last: "links h a ys b \<Longrightarrow> n_prev (h b) = (if ys = [] then a else last ys)"
  by (induction ys arbitrary: a) auto

text \<open>Writes away from the chain leave it; the two end pointers are the only ones at its ends.\<close>

lemma links_frame:
  assumes "\<And>p. p \<in> insert a (set ys) \<Longrightarrow> n_next (h' p) = n_next (h p)"
    and "\<And>p. p \<in> insert b (set ys) \<Longrightarrow> n_prev (h' p) = n_prev (h p)"
  shows "links h' a ys b \<longleftrightarrow> links h a ys b"
  using assms by (induction ys arbitrary: a) auto

lemma links_reend:
  assumes "links h a ys b"
    and "n_next (h' (if ys = [] then a else last ys)) = b'"
    and "n_prev (h' b') = (if ys = [] then a else last ys)"
    and "\<And>p. p \<in> insert a (set ys) \<Longrightarrow> p \<noteq> (if ys = [] then a else last ys) \<Longrightarrow> n_next (h' p) = n_next (h p)"
    and "\<And>p. p \<in> set ys \<Longrightarrow> n_prev (h' p) = n_prev (h p)"
    and "distinct (a # ys)"
  shows "links h' a ys b'"
  using assms
proof (induction ys arbitrary: a)
  case Nil
  then show ?case by simp
next
  case (Cons y ys)
  have "links h' y ys b'"
    using Cons.prems by (intro Cons.IH) (auto split: if_splits)
  moreover have "n_next (h' a) = y"
  proof (cases "ys = []")
    case False
    with Cons.prems(6) last_in_set [of ys] have "a \<noteq> last ys" by auto
    with False Cons.prems(1) Cons.prems(4) [of a] show ?thesis by simp
  qed (use Cons.prems in simp)
  ultimately show ?case using Cons.prems by simp
qed


text \<open>The node before the cut \<open>us | vs\<close> of a chain from \<open>a\<close>, and the node after it.\<close>

definition cut_prev :: "node \<Rightarrow> node list \<Rightarrow> node" where
  "cut_prev a us = (if us = [] then a else last us)"

definition cut_next :: "node list \<Rightarrow> node \<Rightarrow> node" where
  "cut_next vs b = (case vs of [] \<Rightarrow> b | v # _ \<Rightarrow> v)"

lemma cut_prev_in: "cut_prev a us \<in> insert a (set us)"
  by (simp add: cut_prev_def)

lemma cut_next_in: "cut_next vs b \<in> insert b (set vs)"
  by (cases vs) (simp_all add: cut_next_def)

lemma cut_next_simps [simp]: "cut_next [] b = b" "cut_next (v # vs) b = v"
  by (simp_all add: cut_next_def)

lemma links_split: "links h a (us @ vs) b \<Longrightarrow> links h a us (cut_next vs b)"
  by (cases vs) (simp_all add: links_append)

lemma links_insert:
  assumes chain: "links h a (us @ vs) b"
    and dist: "distinct (a # us @ vs)" "b \<notin> set (us @ vs)" "x \<notin> {a, b} \<union> set (us @ vs)"
    and nx: "\<And>q. n_next (h' q) =
               (if q = cut_prev a us then x else if q = x then cut_next vs b else n_next (h q))"
    and pv: "\<And>q. n_prev (h' q) =
               (if q = cut_next vs b then x else if q = x then cut_prev a us else n_prev (h q))"
  shows "links h' a (us @ x # vs) b"
proof -
  have p: "cut_prev a us \<noteq> x" "cut_prev a us \<notin> set vs"
    using dist cut_prev_in [of a us] by auto
  have n: "cut_next vs b \<noteq> x" "cut_next vs b \<notin> set us"
    using dist cut_next_in [of vs b] by auto
  have "links h' a us x"
  proof (rule links_reend [OF links_split [OF chain]], unfold cut_prev_def [symmetric])
    show "n_next (h' (cut_prev a us)) = x" "n_prev (h' x) = cut_prev a us"
      using n by (simp_all add: nx pv)
    show "n_next (h' q) = n_next (h q)" if "q \<in> insert a (set us)" "q \<noteq> cut_prev a us" for q
      using that dist by (auto simp: nx)
    show "n_prev (h' q) = n_prev (h q)" if "q \<in> set us" for q
      using that dist n by (auto simp: pv)
    show "distinct (a # us)" using dist by simp
  qed
  moreover have "links h' x vs b"
  proof (cases vs)
    case Nil
    with p show ?thesis by (simp add: nx pv)
  next
    case (Cons v ws)
    have "links h' v ws b \<longleftrightarrow> links h v ws b"
    proof (rule links_frame)
      show "n_next (h' q) = n_next (h q)" if "q \<in> insert v (set ws)" for q
        using that p dist Cons by (auto simp: nx)
      show "n_prev (h' q) = n_prev (h q)" if "q \<in> insert b (set ws)" for q
        using that dist Cons by (auto simp: pv)
    qed
    with chain Cons p show ?thesis by (simp add: nx pv links_append)
  qed
  ultimately show ?thesis by (simp add: links_append)
qed

lemma links_remove:
  assumes chain: "links h a (us @ x # vs) b"
    and dist: "distinct (a # us @ x # vs)" "b \<notin> set (us @ x # vs)"
    and nx: "\<And>q. q \<noteq> x \<Longrightarrow> n_next (h' q) = (if q = cut_prev a us then cut_next vs b else n_next (h q))"
    and pv: "\<And>q. q \<noteq> x \<Longrightarrow> n_prev (h' q) = (if q = cut_next vs b then cut_prev a us else n_prev (h q))"
  shows "links h' a (us @ vs) b"
proof -
  have p: "cut_prev a us \<noteq> x" "cut_prev a us \<notin> set vs"
    using dist cut_prev_in [of a us] by auto
  have n: "cut_next vs b \<noteq> x" "cut_next vs b \<notin> set us"
    using dist cut_next_in [of vs b] by auto
  from chain have "links h a us x" by (simp add: links_append)
  then have us: "links h' a us (cut_next vs b)"
  proof (rule links_reend, unfold cut_prev_def [symmetric])
    show "n_next (h' (cut_prev a us)) = cut_next vs b" "n_prev (h' (cut_next vs b)) = cut_prev a us"
      using n p by (simp_all add: nx pv)
    show "n_next (h' q) = n_next (h q)" if "q \<in> insert a (set us)" "q \<noteq> cut_prev a us" for q
      using that dist nx [of q] by auto
    show "n_prev (h' q) = n_prev (h q)" if "q \<in> set us" for q
    proof -
      have "q \<noteq> x" "q \<noteq> cut_next vs b" using that dist n by auto
      then show ?thesis by (simp add: pv)
    qed
    show "distinct (a # us)" using dist by simp
  qed
  show ?thesis
  proof (cases vs)
    case Nil
    with us show ?thesis by simp
  next
    case (Cons v ws)
    have "links h' v ws b \<longleftrightarrow> links h v ws b"
    proof (rule links_frame)
      show "n_next (h' q) = n_next (h q)" if "q \<in> insert v (set ws)" for q
      proof -
        have "q \<noteq> x" "q \<noteq> cut_prev a us" using that p dist Cons by auto
        then show ?thesis by (simp add: nx)
      qed
      show "n_prev (h' q) = n_prev (h q)" if "q \<in> insert b (set ws)" for q
      proof -
        have "q \<noteq> x" "q \<noteq> cut_next vs b" using that dist Cons by auto
        then show ?thesis by (simp add: pv)
      qed
    qed
    with chain us Cons show ?thesis by (simp add: links_append)
  qed
qed

section \<open>What each operation does to the sequence\<close>

lemma list_add_head_eff:
  assumes "l \<noteq> 0" "x \<noteq> 0" "x \<noteq> l" "n_next (h l) \<noteq> 0"
  obtains h' where "list_add_head l x h = Some h'"
    and "\<And>q. n_next (h' q) = (if q = l then x else if q = x then n_next (h l) else n_next (h q))"
    and "\<And>q. n_prev (h' q) = (if q = n_next (h l) then x else if q = x then l else n_prev (h q))"
  using assms by (simp add: list_add_head_def list_prim_defs)

lemma list_add_tail_eff:
  assumes "l \<noteq> 0" "x \<noteq> 0" "x \<noteq> l" "n_prev (h l) \<noteq> 0"
  obtains h' where "list_add_tail l x h = Some h'"
    and "\<And>q. n_next (h' q) = (if q = n_prev (h l) then x else if q = x then l else n_next (h q))"
    and "\<And>q. n_prev (h' q) = (if q = l then x else if q = x then n_prev (h l) else n_prev (h q))"
  using assms by (simp add: list_add_tail_def list_prim_defs)

lemma list_delete_eff:
  assumes "x \<noteq> 0" "n_next (h x) \<noteq> 0" "n_prev (h x) \<noteq> 0" "n_next (h x) \<noteq> x" "n_prev (h x) \<noteq> x"
  obtains h' where "list_delete x h = Some h'"
    and "\<And>q. q \<noteq> x \<Longrightarrow> n_next (h' q) = (if q = n_prev (h x) then n_next (h x) else n_next (h q))"
    and "\<And>q. q \<noteq> x \<Longrightarrow> n_prev (h' q) = (if q = n_next (h x) then n_prev (h x) else n_prev (h q))"
    and "h' x = \<lparr>n_prev = 0, n_next = 0\<rparr>"
  using assms by (simp add: list_delete_def list_prim_defs)

lemma dll_ends:
  assumes "dll h l (us @ vs)"
  shows "n_next (h (cut_prev l us)) = cut_next vs l" "n_prev (h (cut_next vs l)) = cut_prev l us"
proof -
  have "links h l us (cut_next vs l)"
    using assms by (auto simp: dll_def intro: links_split)
  then show "n_prev (h (cut_next vs l)) = cut_prev l us"
    by (simp add: links_last cut_prev_def)
  show "n_next (h (cut_prev l us)) = cut_next vs l"
  proof (cases us rule: rev_cases)
    case Nil
    then show ?thesis using assms by (cases vs) (auto simp: dll_def cut_prev_def)
  next
    case (snoc ws w)
    then have "links h w vs l" using assms by (auto simp: dll_def links_append)
    then show ?thesis using snoc by (cases vs) (auto simp: cut_prev_def)
  qed
qed

lemma dll_cut_nonzero:
  assumes "dll h l (us @ vs)"
  shows "cut_prev l us \<noteq> 0" "cut_next vs l \<noteq> 0"
  using assms cut_prev_in [of l us] cut_next_in [of vs l] by (auto simp: dll_def)

text \<open>Agreement of two stores outside a set of nodes.\<close>

definition same_outside :: "node set \<Rightarrow> nodes \<Rightarrow> nodes \<Rightarrow> bool" where
  "same_outside A h h' \<longleftrightarrow> (\<forall>q. q \<notin> A \<longrightarrow> h' q = h q)"

lemma dll_same_outside:
  assumes "dll h m ys" "same_outside A h h'" "A \<inter> set (m # ys) = {}"
  shows "dll h' m ys"
proof -
  have "links h' m ys m \<longleftrightarrow> links h m ys m"
    by (rule links_frame) (use assms(2,3) in \<open>auto simp: same_outside_def\<close>)
  with assms(1) show ?thesis by (simp add: dll_def)
qed

lemma dll_insert_after:
  assumes dll: "dll h l (us @ vs)" and x: "x \<noteq> 0" "x \<notin> set (l # us @ vs)"
  shows "\<exists>h'. list_add_head (cut_prev l us) x h = Some h' \<and> dll h' l (us @ x # vs)
           \<and> same_outside (insert x (set (l # us @ vs))) h h'"
proof -
  note ends = dll_ends [OF dll]
  have ne: "x \<noteq> cut_prev l us" using x cut_prev_in [of l us] by auto
  obtain h' where h': "list_add_head (cut_prev l us) x h = Some h'"
    and nx: "\<And>q. n_next (h' q) = (if q = cut_prev l us then x else if q = x then cut_next vs l else n_next (h q))"
    and pv: "\<And>q. n_prev (h' q) = (if q = cut_next vs l then x else if q = x then cut_prev l us else n_prev (h q))"
    using list_add_head_eff [of "cut_prev l us" x h] dll_cut_nonzero [OF dll] x(1) ne
    unfolding ends(1) by blast
  have "links h' l (us @ x # vs) l"
    by (rule links_insert [OF _ _ _ _ nx pv]) (use dll x in \<open>auto simp: dll_def\<close>)
  moreover have "same_outside (insert x (set (l # us @ vs))) h h'"
    unfolding same_outside_def
    using cut_prev_in [of l us] cut_next_in [of vs l]
    by (intro allI impI list_node.equality) (auto simp: nx pv)
  ultimately show ?thesis using dll x h' by (auto simp: dll_def)
qed

lemma dll_insert_before:
  assumes dll: "dll h l (us @ vs)" and x: "x \<noteq> 0" "x \<notin> set (l # us @ vs)"
  shows "\<exists>h'. list_add_tail (cut_next vs l) x h = Some h' \<and> dll h' l (us @ x # vs)
           \<and> same_outside (insert x (set (l # us @ vs))) h h'"
proof -
  note ends = dll_ends [OF dll]
  have ne: "x \<noteq> cut_next vs l" using x cut_next_in [of vs l] by auto
  obtain h' where h': "list_add_tail (cut_next vs l) x h = Some h'"
    and nx: "\<And>q. n_next (h' q) = (if q = cut_prev l us then x else if q = x then cut_next vs l else n_next (h q))"
    and pv: "\<And>q. n_prev (h' q) = (if q = cut_next vs l then x else if q = x then cut_prev l us else n_prev (h q))"
    using list_add_tail_eff [of "cut_next vs l" x h] dll_cut_nonzero [OF dll] x(1) ne
    unfolding ends(2) by blast
  have "links h' l (us @ x # vs) l"
    by (rule links_insert [OF _ _ _ _ nx pv]) (use dll x in \<open>auto simp: dll_def\<close>)
  moreover have "same_outside (insert x (set (l # us @ vs))) h h'"
    unfolding same_outside_def
    using cut_prev_in [of l us] cut_next_in [of vs l]
    by (intro allI impI list_node.equality) (auto simp: nx pv)
  ultimately show ?thesis using dll x h' by (auto simp: dll_def)
qed

lemma dll_delete:
  assumes dll: "dll h l (us @ x # vs)"
  shows "\<exists>h'. list_delete x h = Some h' \<and> dll h' l (us @ vs) \<and> h' x = \<lparr>n_prev = 0, n_next = 0\<rparr>
           \<and> same_outside (set (l # us @ x # vs)) h h'"
proof -
  have ends: "n_next (h x) = cut_next vs l" "n_prev (h x) = cut_prev l us"
    using dll_ends(1) [of h l "us @ [x]" vs] dll_ends(2) [of h l us "x # vs"] dll
    by (auto simp: cut_prev_def)
  have ne: "cut_next vs l \<noteq> x" "cut_prev l us \<noteq> x" "x \<noteq> 0" "cut_next vs l \<noteq> 0" "cut_prev l us \<noteq> 0"
    using cut_prev_in [of l us] cut_next_in [of vs l] dll by (auto simp: dll_def)
  obtain h' where h': "list_delete x h = Some h'"
    and nx: "\<And>q. q \<noteq> x \<Longrightarrow> n_next (h' q) = (if q = cut_prev l us then cut_next vs l else n_next (h q))"
    and pv: "\<And>q. q \<noteq> x \<Longrightarrow> n_prev (h' q) = (if q = cut_next vs l then cut_prev l us else n_prev (h q))"
    and hx: "h' x = \<lparr>n_prev = 0, n_next = 0\<rparr>"
    using list_delete_eff [of x h] ne unfolding ends by blast
  have "links h' l (us @ vs) l"
    by (rule links_remove [OF _ _ _ nx pv]) (use dll in \<open>auto simp: dll_def\<close>)
  moreover have "same_outside (set (l # us @ x # vs)) h h'"
    unfolding same_outside_def
    using cut_prev_in [of l us] cut_next_in [of vs l]
    by (intro allI impI list_node.equality) (auto simp: nx pv)
  ultimately show ?thesis using dll h' hx by (auto simp: dll_def)
qed

lemma dll_nonzero: "dll h l xs \<Longrightarrow> l \<noteq> 0"
  by (auto simp: dll_def)

lemma dll_next: "dll h l xs \<Longrightarrow> n_next (h l) = cut_next xs l"
  using dll_ends(1) [of h l "[]" xs] by (simp add: cut_prev_def)

lemma dll_prev: "dll h l xs \<Longrightarrow> n_prev (h l) = cut_prev l xs"
  using dll_ends(2) [of h l xs "[]"] by simp

lemma dll_head_distinct: "dll h l (x # xs) \<Longrightarrow> x \<noteq> l"
  by (auto simp: dll_def)

lemma list_initialize_dll: "l \<noteq> 0 \<Longrightarrow>
  \<exists>h'. list_initialize l h = Some h' \<and> dll h' l [] \<and> same_outside {l} h h'"
  by (simp add: list_initialize_def list_prim_defs dll_def same_outside_def)

lemma list_is_empty_dll: "dll h l xs \<Longrightarrow> list_is_empty l h = Some (xs = [])"
  by (cases xs) (auto simp: list_is_empty_def rd_next_def dll_next dll_nonzero dll_head_distinct)

lemma list_peek_head_dll: "dll h l xs \<Longrightarrow> list_peek_head l h = Some (cut_next xs 0)"
  by (cases xs) (auto simp: list_peek_head_def rd_next_def dll_next dll_nonzero dll_head_distinct)

lemma list_peek_tail_dll: "dll h l xs \<Longrightarrow> list_peek_tail l h = Some (cut_prev 0 xs)"
  by (cases xs rule: rev_cases)
    (auto simp: list_peek_tail_def rd_prev_def dll_prev dll_nonzero cut_prev_def, auto simp: dll_def)

lemma list_next_dll: "dll h l (us @ x # vs) \<Longrightarrow> list_next l x h = Some (cut_next vs 0)"
  using dll_ends(1) [of h l "us @ [x]" vs]
  by (cases vs) (auto simp: list_next_def rd_next_def cut_prev_def dll_def)

lemma list_prev_dll: "dll h l (us @ x # vs) \<Longrightarrow> list_prev l x h = Some (cut_prev 0 us)"
  using dll_ends(2) [of h l us "x # vs"]
  by (cases us rule: rev_cases) (auto simp: list_prev_def rd_prev_def cut_prev_def dll_def)

lemma list_in_list_dll: "dll h l xs \<Longrightarrow> x \<in> set xs \<Longrightarrow> list_in_list x h = Some True"
proof -
  assume dll: "dll h l xs" and "x \<in> set xs"
  then obtain us vs where xs: "xs = us @ x # vs" by (auto simp: in_set_conv_decomp)
  have "n_next (h x) = cut_next vs l"
    using dll_ends(1) [of h l "us @ [x]" vs] dll xs by (auto simp: cut_prev_def)
  moreover have "cut_next vs l \<noteq> 0" "x \<noteq> 0"
    using dll_cut_nonzero(2) [of h l "us @ [x]" vs] dll xs by (auto simp: dll_def)
  ultimately show ?thesis by (simp add: list_in_list_def list_prim_defs)
qed

lemma list_remove_head_dll:
  assumes "dll h l xs"
  shows "case xs of [] \<Rightarrow> list_remove_head l h = Some (0, h)
         | x # ys \<Rightarrow> \<exists>h'. list_remove_head l h = Some (x, h') \<and> dll h' l ys
             \<and> h' x = \<lparr>n_prev = 0, n_next = 0\<rparr> \<and> same_outside (set (l # xs)) h h'"
proof (cases xs)
  case Nil
  with assms show ?thesis
    by (simp add: list_remove_head_def rd_next_def dll_next dll_nonzero)
next
  case (Cons x ys)
  with assms have "x \<noteq> l" by (simp add: dll_head_distinct)
  with Cons assms dll_delete [of h l "[]" x ys] show ?thesis
    by (auto simp: list_remove_head_def rd_next_def dll_next dll_nonzero)
qed

lemma list_remove_tail_dll:
  assumes "dll h l (ys @ [x])"
  shows "\<exists>h'. list_remove_tail l h = Some (x, h') \<and> dll h' l ys
           \<and> h' x = \<lparr>n_prev = 0, n_next = 0\<rparr> \<and> same_outside (set (l # ys @ [x])) h h'"
proof -
  have "x \<noteq> l" using assms by (auto simp: dll_def)
  with assms dll_delete [of h l ys x "[]"] show ?thesis
    by (auto simp: list_remove_tail_def rd_prev_def dll_prev dll_nonzero cut_prev_def)
qed

lemma list_length_from_links:
  "links h a ys l \<Longrightarrow> 0 \<notin> set ys \<Longrightarrow> l \<notin> set ys \<Longrightarrow>
   list_length_from l (n_next (h a)) c h = Some (c + length ys)"
  by (induction ys arbitrary: a c)
    (auto simp: list_length_from.simps [of l] rd_next_def)

lemma list_length_dll: "dll h l xs \<Longrightarrow> list_length l h = Some (length xs)"
  using list_length_from_links [of h l xs l 0]
  by (auto simp: list_length_def rd_next_def dll_def)

text \<open>Unlinking a node that is in no list dereferences NULL.\<close>

lemma list_delete_unlinked: "h x = \<lparr>n_prev = 0, n_next = 0\<rparr> \<Longrightarrow> list_delete x h = None"
  by (simp add: list_delete_def list_prim_defs)

section \<open>The interface: a store of disjoint sequences\<close>

text \<open>
  What a client of list.h relies on: a head stands for a sequence, \<open>pop\<close> takes its first element,
  \<open>push\<close> appends one, and sequences that share no node do not affect each other.
\<close>

locale list_store =
  fixes seq :: "'h \<Rightarrow> 'n \<Rightarrow> 'n list \<Rightarrow> bool"
    and null :: 'n
    and pop :: "'n \<Rightarrow> 'h \<Rightarrow> ('n \<times> 'h) option"
    and push :: "'n \<Rightarrow> 'n \<Rightarrow> 'h \<Rightarrow> 'h option"
  assumes seq_wf: "seq h l xs \<Longrightarrow> null \<notin> set (l # xs) \<and> distinct (l # xs)"
    and pop_Nil: "seq h l [] \<Longrightarrow> pop l h = Some (null, h)"
    and pop_Cons: "seq h l (x # xs) \<Longrightarrow> \<exists>h'. pop l h = Some (x, h') \<and> seq h' l xs \<and>
          (\<forall>m ys. seq h m ys \<longrightarrow> set (m # ys) \<inter> set (l # x # xs) = {} \<longrightarrow> seq h' m ys)"
    and push_snoc: "seq h l xs \<Longrightarrow> x \<noteq> null \<Longrightarrow> x \<notin> set (l # xs) \<Longrightarrow>
          \<exists>h'. push l x h = Some h' \<and> seq h' l (xs @ [x]) \<and>
          (\<forall>m ys. seq h m ys \<longrightarrow> set (m # ys) \<inter> set (x # l # xs) = {} \<longrightarrow> seq h' m ys)"

text \<open>The loop \<open>while ((p = list_remove_head(src))) list_add_tail(dst, p)\<close>.\<close>

partial_function (option) move_all ::
  "('h \<Rightarrow> ('n \<times> 'h) option) \<Rightarrow> ('n \<Rightarrow> 'h \<Rightarrow> 'h option) \<Rightarrow> 'n \<Rightarrow> 'h \<Rightarrow> 'h option" where
  "move_all pop push null h =
     Option.bind (pop h) (\<lambda>(x, h1).
       if x = null then Some h1
       else Option.bind (push x h1) (move_all pop push null))"

definition list_move_all :: "node \<Rightarrow> node \<Rightarrow> nodes \<Rightarrow> nodes option" where
  "list_move_all src dst h = move_all (list_remove_head src) (list_add_tail dst) 0 h"

context list_store
begin

lemma move_all_seq:
  assumes "seq h a xs" "seq h b ys" "set (a # xs) \<inter> set (b # ys) = {}"
  shows "\<exists>h'. move_all (pop a) (push b) null h = Some h' \<and> seq h' a [] \<and> seq h' b (ys @ xs)"
  using assms
proof (induction xs arbitrary: h ys)
  case Nil
  then show ?case by (subst move_all.simps) (simp add: pop_Nil)
next
  case (Cons x xs)
  obtain h1 where h1: "pop a h = Some (x, h1)" "seq h1 a xs" "seq h1 b ys"
    using pop_Cons [OF Cons.prems(1)] Cons.prems(2,3) by blast
  have x: "x \<noteq> null" "x \<notin> set (b # ys)" "x \<notin> set (a # xs)"
    using seq_wf [OF Cons.prems(1)] Cons.prems(3) by auto
  obtain h2 where h2: "push b x h1 = Some h2" "seq h2 b (ys @ [x])" "seq h2 a xs"
    using push_snoc [OF h1(3) x(1,2)] h1(2) x(3) Cons.prems(3) by auto
  have "\<exists>h'. move_all (pop a) (push b) null h2 = Some h' \<and> seq h' a [] \<and> seq h' b ((ys @ [x]) @ xs)"
    by (rule Cons.IH [OF h2(3,2)]) (use Cons.prems(3) x in auto)
  with h1(1) h2(1) x(1) show ?case by (subst move_all.simps) simp
qed

end

interpretation dl: list_store dll 0 list_remove_head list_add_tail
proof
  fix h l xs
  assume "dll h l xs"
  then show "0 \<notin> set (l # xs) \<and> distinct (l # xs)" by (auto simp: dll_def)
next
  fix h l
  assume "dll h l []"
  then show "list_remove_head l h = Some (0, h)" using list_remove_head_dll by fastforce
next
  fix h l x xs
  assume "dll h l (x # xs)"
  from list_remove_head_dll [OF this] show "\<exists>h'. list_remove_head l h = Some (x, h') \<and> dll h' l xs \<and>
          (\<forall>m ys. dll h m ys \<longrightarrow> set (m # ys) \<inter> set (l # x # xs) = {} \<longrightarrow> dll h' m ys)"
    using dll_same_outside by fastforce
next
  fix h l xs x
  assume *: "dll h l xs" "x \<noteq> 0" "x \<notin> set (l # xs)"
  obtain h' where "list_add_tail l x h = Some h'" "dll h' l (xs @ [x])"
    "same_outside (insert x (set (l # xs))) h h'"
    using dll_insert_before [of h l xs "[]" x] * by auto
  then show "\<exists>h'. list_add_tail l x h = Some h' \<and> dll h' l (xs @ [x]) \<and>
          (\<forall>m ys. dll h m ys \<longrightarrow> set (m # ys) \<inter> set (x # l # xs) = {} \<longrightarrow> dll h' m ys)"
    using dll_same_outside by fastforce
qed

end
