(* ===== verification/Buffer_Props.thy ===== *)
theory Buffer_Props
  imports Intrusive_List Cbuf Port_Buf
begin

text \<open>Properties of the linked lists, the circular byte buffers and the packet buffers of ports.\<close>

section \<open>Lists\<close>

text \<open>
  C28: \<open>list_delete\<close> on a node of a well-formed list implements deletion from the sequence the list
  stands for: it follows no null pointer, the list then stands for the sequence without the node, the
  node's links are cleared, and every list that shares no node with it is untouched.
\<close>

theorem list_delete_refines:
  assumes "dll h l (us @ x # vs)"
  shows "\<exists>h'. list_delete x h = Some h' \<and> dll h' l (us @ vs) \<and> list_in_list x h' = Some False \<and>
    list_length l h' = Some (length us + length vs) \<and>
    (\<forall>m ys. dll h m ys \<longrightarrow> set (m # ys) \<inter> set (l # us @ x # vs) = {} \<longrightarrow> dll h' m ys)"
proof -
  obtain h' where h': "list_delete x h = Some h'" "dll h' l (us @ vs)" "h' x = \<lparr>n_prev = 0, n_next = 0\<rparr>"
    "same_outside (set (l # us @ x # vs)) h h'" using dll_delete [OF assms] by blast
  have "x \<noteq> 0" using assms by (auto simp: dll_def)
  then have "list_in_list x h' = Some False" using h'(3) by (simp add: list_in_list_def list_prim_defs)
  moreover have "list_length l h' = Some (length us + length vs)" using list_length_dll [OF h'(2)] by simp
  moreover have "dll h' m ys" if "dll h m ys" "set (m # ys) \<inter> set (l # us @ x # vs) = {}" for m ys
    using dll_same_outside [OF that(1) h'(4)] that(2) by blast
  ultimately show ?thesis using h'(1,2) by blast
qed

definition demo_nodes :: nodes where
  "demo_nodes = (\<lambda>_. \<lparr>n_prev = 0, n_next = 0\<rparr>)(1 := \<lparr>n_prev = 3, n_next = 2\<rparr>, 2 := \<lparr>n_prev = 1, n_next = 3\<rparr>, 3 := \<lparr>n_prev = 2, n_next = 1\<rparr>)"

theorem list_delete_refines_witness: "\<exists>h'. list_delete 2 demo_nodes = Some h' \<and> dll h' 1 [3]"
  using list_delete_refines [of demo_nodes 1 "[]" 2 "[3]"] by (auto simp: dll_def demo_nodes_def)

text \<open>
  C33: moving every node of one list to the end of another, by \<open>list_remove_head\<close> and
  \<open>list_add_tail\<close>, ends with the first list empty and the nodes appended in order.
\<close>

theorem list_move_all_appends:
  assumes "dll h src xs" "dll h dst ys" "set (src # xs) \<inter> set (dst # ys) = {}"
  shows "\<exists>h'. list_move_all src dst h = Some h' \<and> dll h' src [] \<and> dll h' dst (ys @ xs)"
  unfolding list_move_all_def by (rule dl.move_all_seq [OF assms])

theorem list_move_all_appends_witness:
  "\<exists>h'. list_move_all 1 4 (demo_nodes(4 := \<lparr>n_prev = 4, n_next = 4\<rparr>)) = Some h' \<and> dll h' 1 [] \<and> dll h' 4 [2, 3]"
  using list_move_all_appends [of "demo_nodes(4 := \<lparr>n_prev = 4, n_next = 4\<rparr>)" 1 "[2, 3]" 4 "[]"] by (auto simp: dll_def demo_nodes_def)

section \<open>Circular byte buffers\<close>

text \<open>
  C29: the copies of \<open>cbuf_write\<close> and \<open>cbuf_read\<close>, which move whole chunks and wrap around the end of the
  buffer, do the same as writing and reading byte by byte, for every amount of data and also when the
  buffer fills up or runs empty: as many bytes are appended as there is room for, one slot always
  staying free, as many as asked for and present are taken from the front, in order, and the number
  of bytes moved is returned.
\<close>

theorem cbuf_copies_are_bytewise:
  assumes "cbuf_ok c"
  shows "\<exists>k c1 c2. k = min (length xs) (cbuf_size c - 1 - used c) \<and>
      cbuf_write_loop (Some xs) (length xs) 0 c = Some (k, c1) \<and> put_all cbuf_push xs c = (k, c2) \<and>
      cbuf_ok c1 \<and> cbuf_data c1 = cbuf_data c @ take k xs \<and> cbuf_data c2 = cbuf_data c1 \<and>
    (\<exists>c3 c4. cbuf_read_loop True n 0 [] c1 = Some (min n (used c + k), fst (get_all cbuf_pop n c1), c3) \<and>
      get_all cbuf_pop n c1 = (take n (cbuf_data c @ take k xs), c4) \<and> cbuf_ok c3 \<and> cbuf_data c3 = cbuf_data c4)"
proof -
  define k where "k = min (length xs) (cbuf_size c - 1 - used c)"
  have "source_has (Some xs) (length xs)" by (simp add: source_has_def)
  from write_loop [OF assms(1) this, of 0] obtain c1 where c1: "cbuf_write_loop (Some xs) (length xs) 0 c = Some (k, c1)"
    "cbuf_ok c1" "cbuf_data c1 = cbuf_data c @ take k xs" by (auto simp: source_bytes_def k_def)
  have "take (cbuf_size c - 1 - used c) xs = take k xs" by (simp add: k_def min_def)
  then obtain c2 where c2: "put_all cbuf_push xs c = (k, c2)" "cbuf_data c2 = cbuf_data c @ take k xs"
    using cq.put_all_items [OF assms(1), of xs] by (auto simp: k_def)
  obtain c4 where c4: "get_all cbuf_pop n c1 = (take n (cbuf_data c1), c4)" "cbuf_data c4 = drop n (cbuf_data c1)" using cq.get_all_items [OF c1(2)] by blast
  have u: "used c1 = used c + k" using c1(3) length_cbuf_data [of c1] length_cbuf_data [of c] by (simp add: k_def)
  from read_loop [OF c1(2), of 0 n True "[]"] obtain c3 where
    "cbuf_read_loop True n 0 [] c1 = Some (min n (used c1), take n (cbuf_data c1), c3)" "cbuf_ok c3" "cbuf_data c3 = drop n (cbuf_data c1)" by auto
  then have "\<exists>c3 c4. cbuf_read_loop True n 0 [] c1 = Some (min n (used c + k), fst (get_all cbuf_pop n c1), c3) \<and>
      get_all cbuf_pop n c1 = (take n (cbuf_data c @ take k xs), c4) \<and> cbuf_ok c3 \<and> cbuf_data c3 = cbuf_data c4"
    using c1(3) c4 u by simp
  moreover have "cbuf_data c2 = cbuf_data c1" using c1(3) c2(2) by simp
  ultimately show ?thesis using c1 c2(1) by (rule_tac exI [of _ k], rule_tac exI [of _ c1], rule_tac exI [of _ c2]) (intro conjI k_def)
qed

definition demo_cbuf :: cbuf where
  "demo_cbuf = \<lparr>head = 1, tail = 6, len_pow2 = 3, buf = [10, 0, 0, 0, 0, 0, 11, 12], cb_event = 0, cb_lock = False\<rparr>"

theorem cbuf_copies_are_bytewise_witness:
  "\<exists>c1. cbuf_write_loop (Some [7, 8, 9, 10, 11, 12]) 6 0 demo_cbuf = Some (4, c1) \<and> cbuf_data c1 = cbuf_data demo_cbuf @ [7, 8, 9, 10]"
proof -
  have "cbuf_ok demo_cbuf" "cbuf_size demo_cbuf - 1 - used demo_cbuf = 4"
    by (simp_all add: cbuf_ok_def demo_cbuf_def cbuf_size_def used_def)
  with cbuf_copies_are_bytewise [of demo_cbuf "[7, 8, 9, 10, 11, 12]" 5] show ?thesis
    by (auto simp: numeral_eq_Suc simp del: put_all.simps get_all.simps)
qed

text \<open>C34: the two regions that \<open>cbuf_peek\<close> reports hold exactly the bytes of the buffer, in order, and the buffer is unchanged.\<close>

theorem cbuf_peek_correct:
  assumes "cbuf_ok c" "\<not> cb_lock c"
  shows "\<exists>r0 r1. cbuf_peek cpu c s = Some (length (cbuf_data c), r0, r1, c, s) \<and> region_bytes c r0 @ region_bytes c r1 = cbuf_data c"
  using peek_regions [OF assms] by simp

theorem cbuf_peek_correct_witness:
  "\<forall>s :: sync_state. \<exists>r0 r1. cbuf_peek 0 demo_cbuf s = Some (length (cbuf_data demo_cbuf), r0, r1, demo_cbuf, s)"
proof
  fix s :: sync_state
  have "cbuf_ok demo_cbuf" "\<not> cb_lock demo_cbuf" by (simp_all add: cbuf_ok_def demo_cbuf_def cbuf_size_def)
  from cbuf_peek_correct [OF this, of 0 s] show "\<exists>r0 r1. cbuf_peek 0 demo_cbuf s = Some (length (cbuf_data demo_cbuf), r0, r1, demo_cbuf, s)" by blast
qed

section \<open>Packet buffers\<close>

text \<open>
  C35: \<open>buf_write\<close> appends all its packets when there is room for all of them, and otherwise changes
  nothing and reports ERR_NOT_ENOUGH_BUFFER; \<open>buf_read\<close> takes the oldest packet or reports ERR_NO_MSG.
\<close>

theorem port_buf_correct:
  assumes "pb_ok b"
  shows "(\<exists>st b'. buf_write b ps = Some (st, b') \<and> pb_ok b' \<and> pb_size b' = pb_size b \<and>
      (if length (pb_data b) + length ps \<le> pb_size b then st = NO_ERROR \<and> pb_data b' = pb_data b @ ps else st = ERR_NOT_ENOUGH_BUFFER \<and> b' = b)) \<and>
    (\<exists>st po b'. buf_read b = Some (st, po, b') \<and> pb_ok b' \<and> pb_size b' = pb_size b \<and>
      (case pb_data b of [] \<Rightarrow> st = ERR_NO_MSG \<and> po = None \<and> b' = b | q # qs \<Rightarrow> st = NO_ERROR \<and> po = Some q \<and> pb_data b' = qs))"
proof (rule conjI)
  show "\<exists>st b'. buf_write b ps = Some (st, b') \<and> pb_ok b' \<and> pb_size b' = pb_size b \<and>
      (if length (pb_data b) + length ps \<le> pb_size b then st = NO_ERROR \<and> pb_data b' = pb_data b @ ps else st = ERR_NOT_ENOUGH_BUFFER \<and> b' = b)"
    using buf_write_ok [OF assms, of ps] buf_write_full [OF assms, of ps] assms by (cases "pb_used b + length ps \<le> pb_size b") auto
  show "\<exists>st po b'. buf_read b = Some (st, po, b') \<and> pb_ok b' \<and> pb_size b' = pb_size b \<and>
      (case pb_data b of [] \<Rightarrow> st = ERR_NO_MSG \<and> po = None \<and> b' = b | q # qs \<Rightarrow> st = NO_ERROR \<and> po = Some q \<and> pb_data b' = qs)"
    using buf_read_ok [OF assms] buf_read_empty [OF assms] assms by (cases "pb_data b") auto
qed

theorem port_buf_correct_witness:
  "\<exists>b st b'. make_buf False (Some (replicate 64 [])) = Some b \<and> buf_write b [[1], [2]] = Some (st, b') \<and> st = NO_ERROR \<and> pb_data b' = [[1], [2]]"
proof -
  obtain b where b: "make_buf False (Some (replicate 64 [])) = Some b" by (simp add: make_buf_def Let_def)
  note k = make_buf_ok [OF b]
  show ?thesis using port_buf_correct [of b "[[1], [2]]"] b k by auto
qed

end
