(* ===== verification/Thread_Props.thy ===== *)
theory Thread_Props
  imports Sched_Props Thread_Start
begin

text \<open>
  Properties of the timer interrupt and of the life of a thread, from its creation to the join that
  reaps it, with their instances on the concrete state of \<open>Demo_State\<close>.
\<close>

lemma demo_current: "current (demo m) 0 = Some (Dyn_thread 0)" "\<not> thread_is_idle (threads (demo m) (Dyn_thread 0))"
  by simp_all

lemma demo_time: "in_window 0 (cur_time (demo m) + 10)" "in_window 0 (cur_time (demo m) + 1000)"
  by (simp_all add: in_window_def ahead_def)

section \<open>The timer interrupt\<close>

text \<open>
  C16: a timer interrupt that comes at time \<open>now\<close>, during which no other cpu acts, ends on any cpu without a
  failed assertion, whatever
  timers are queued. No due timer is left in the queue of the cpu, periodic ones are queued again and
  timers that are not due are untouched; threads whose wait timed out are woken with ERR_TIMED_OUT and
  no other call is affected; the invariant holds again.
\<close>

theorem timer_tick_correct:
  assumes "kinv b s" "current s cpu \<noteq> None" "ints_disabled s cpu" "in_window b now"
    "\<forall>tm \<in> set (timer_queue s cpu). ahead b now + unat (periodic_time (timers s tm)) < 2 ^ 31"
  shows "\<exists>r s'. timer_tick (run_timer_callback cpu) (ints_disabled s cpu) cpu now s = Some (r, s') \<and> kinv b s' \<and> timed_out s s' \<and>
    tick_rel b now cpu s s' \<and> (\<forall>tm \<in> set (timer_queue s' cpu). \<not> due b now s' tm)"
  by (rule timer_tick_kinv) (use assms in auto)

theorem timer_tick_correct_witness:
  "\<exists>r s'. timer_tick (run_timer_callback 0) True 0 100 ((demo ())\<lparr>ints_disabled := \<lambda>_. True\<rparr>) = Some (r, s') \<and> kinv 0 s' \<and>
     TM_sleep (Dyn_thread 3) \<notin> set (timer_queue s' 0)"
proof -
  let ?s = "(demo ())\<lparr>ints_disabled := \<lambda>_. True\<rparr>"
  have "kinv 0 ?s" using demo_kinv [of "()"] kcore_cong [of ?s "demo ()"] by (simp add: kinv_def)
  moreover have "\<forall>tm \<in> set (timer_queue ?s 0). ahead 0 100 + unat (periodic_time (timers ?s tm)) < 2 ^ 31"
    by (simp add: demo_timers_def ahead_def)
  ultimately obtain r s' where s': "timer_tick (run_timer_callback 0) True 0 100 ?s = Some (r, s')" "kinv 0 s'" "tick_rel 0 100 0 ?s s'"
    "\<forall>tm \<in> set (timer_queue s' 0). \<not> due 0 100 s' tm"
    using timer_tick_correct [of 0 ?s 0 100] by (auto simp: in_window_def ahead_def)
  have "due 0 100 s' (TM_sleep (Dyn_thread 3))" if "TM_sleep (Dyn_thread 3) \<in> set (timer_queue s' 0)"
  proof -
    have "timers s' (TM_sleep (Dyn_thread 3)) = timers ?s (TM_sleep (Dyn_thread 3))"
      using s'(3) that unfolding tick_rel_def by (simp add: demo_timers_def)
    then show ?thesis by (simp add: due_def demo_timers_def ahead_def)
  qed
  then show ?thesis using s' by blast
qed

section \<open>The life of a thread\<close>

text \<open>
  C19: thread_create_etc makes a suspended thread with the priority asked for that runs its entry
  function when it is first scheduled; nothing else changes and the invariant is kept.
\<close>

theorem thread_create_correct:
  assumes "kinv b s" "current s cpu = Some ct" "(case tp of Some u \<Rightarrow> Some u | None \<Rightarrow> new_struct) = Some t"
    "\<not> live s t" "wq_list (wqs s (WQ_retcode t)) = []" "(case stack of Some k \<Rightarrow> Some k | None \<Rightarrow> new_stack) = Some k" "0 \<le> prio" "prio < 32"
  shows "\<exists>s'. thread_create_etc cpu tp name entry arg prio stack sz new_struct new_stack s = Some (Some t, s') \<and>
    kinv b s' \<and> created_in t s s' \<and> priority (threads s' t) = prio"
  by (rule thread_create_etc_ok) (use assms in auto)

theorem thread_create_correct_witness:
  "\<exists>s'. thread_create_etc 0 None ''t'' 7 0 16 None 1024 (Some (Dyn_thread 9)) (Some 5) (demo ()) = Some (Some (Dyn_thread 9), s') \<and> kinv 0 s'"
proof -
  have "\<not> live (demo ()) (Dyn_thread 9)" "wq_list (wqs (demo ()) (WQ_retcode (Dyn_thread 9))) = []" unfolding live_demo by simp_all
  then show ?thesis
    using thread_create_correct [OF demo_kinv [of "()"] demo_current(1), where tp = None and new_struct = "Some (Dyn_thread 9)" and t = "Dyn_thread 9"
        and stack = None and new_stack = "Some 5" and k = 5 and prio = 16
        and name = "''t''" and entry = 7 and arg = 0 and sz = 1024] by auto
qed

text \<open>
  C17: thread_exit reaches its context switch without a failed assertion and the thread never runs
  again. If it was detached, it is gone and its stack and structure are handed to the deferred free
  list; otherwise it is dead with its return code and every thread waiting in thread_join is woken.
\<close>

theorem thread_exit_correct:
  assumes "kinv b s" "current s cpu = Some t" "in_window b (cur_time s + 10)" "\<not> thread_is_idle (threads s t)"
    "wq_magic (wqs s (WQ_retcode t)) = WAIT_QUEUE_MAGIC"
  shows "\<exists>s'. thread_exit cpu r s = Some s' \<and> switched_in b cpu s' \<and> exited cpu t r s s'"
  by (rule thread_exit_ok) (use assms in auto)

theorem thread_exit_correct_witness: "\<exists>s'. thread_exit 0 42 (demo ()) = Some s' \<and> retcode (threads s' (Dyn_thread 0)) = 42"
proof -
  obtain s' where s': "thread_exit 0 42 (demo ()) = Some s'" "exited 0 (Dyn_thread 0) 42 (demo ()) s'"
    using thread_exit_correct [OF demo_kinv [of "()"] demo_current(1) demo_time(1) demo_current(2), of 42] by auto
  have "\<not> has_flag (demo_threads (Dyn_thread 0)) THREAD_FLAG_DETACHED" by (simp add: demo_threads_def has_flag_def)
  then have "cview (threads s' (Dyn_thread 0)) = cview ((demo_threads (Dyn_thread 0))\<lparr>t_state := THREAD_DEATH, retcode := 42\<rparr>)"
    using s'(2) by (simp add: exited_def)
  from cview_eqD(6) [OF this] show ?thesis using s'(1) by simp
qed

text \<open>
  C18: thread_join on every branch: it refuses a detached thread; it reaps a dead one, giving its
  return code and its memory back; with a zero timeout it reports ERR_TIMED_OUT for a thread that
  still lives, and otherwise blocks as the last waiter of that thread's queue.
\<close>

theorem thread_join_correct:
  assumes "kinv b s" "current s cpu = Some ct" "live s t" "wq_magic (wqs s (WQ_retcode t)) = WAIT_QUEUE_MAGIC"
    "t_state (threads s t) = THREAD_DEATH \<Longrightarrow> blocking_wait_queue (threads s t) = None" "\<not> thread_is_idle (threads s ct)"
    "in_window b (cur_time s + 10)" "timeout \<noteq> INFINITE_TIME \<Longrightarrow> in_window b (cur_time s + timeout)"
  shows "\<exists>s'. thread_join cpu t want timeout s = Some s' \<and>
    (if has_flag (threads s t) THREAD_FLAG_DETACHED then kinv b s' \<and> returned ct ERR_THREAD_DETACHED s s'
     else if t_state (threads s t) = THREAD_DEATH then kinv b s' \<and> reaped ct t want s s'
     else if timeout = 0 then kinv b s' \<and> returned ct ERR_TIMED_OUT s s'
     else switched_in b cpu s' \<and> blocked_on (K_wq_block timeout (C_join t want) (ints_disabled s cpu)) cpu ct (WQ_retcode t) s s')"
  using thread_join_ok [OF assms(1-3), where timeout = timeout and want = want] assms(4-)
  by (cases "has_flag (threads s t) THREAD_FLAG_DETACHED"; cases "t_state (threads s t) = THREAD_DEATH"; cases "timeout = 0") auto

theorem thread_join_correct_witness:
  "\<exists>s'. thread_join 0 (Dyn_thread 1) False 1000 (demo ()) = Some s' \<and> wq_list (wqs s' (WQ_retcode (Dyn_thread 1))) = [Dyn_thread 0]"
proof -
  have "live (demo ()) (Dyn_thread 1)" unfolding live_demo by simp
  moreover have "\<not> has_flag (demo_threads (Dyn_thread 1)) THREAD_FLAG_DETACHED" "t_state (demo_threads (Dyn_thread 1)) \<noteq> THREAD_DEATH"
    by (simp_all add: demo_threads_def has_flag_def)
  ultimately show ?thesis
    using thread_join_correct [OF demo_kinv [of "()"] demo_current(1), where t = "Dyn_thread 1" and timeout = 1000 and want = False] demo_time demo_current(2)
    by (auto simp: blocked_on_def)
qed

end
