(* ===== verification/Port_Props.thy ===== *)
theory Port_Props
  imports Port_Buf Thread_Props
begin

text \<open>
  Writing to a port delivers to every reader that has room, and leaves the others alone.
\<close>

section \<open>Delivery\<close>

lemma kstate_more_port: "kstate.more s' = kstate.more s \<Longrightarrow> port_objs s' = port_objs s"
  by (cases s; cases s') simp

definition reader_ok :: "nat \<Rightarrow> 'a port_state_scheme \<Rightarrow> bool" where
  "reader_ok rp s \<longleftrightarrow> (\<exists>r b. the_read_port s rp = Some r \<and> rp_buf r = Some b \<and> pb_ok b \<and>
     wq_magic (wqs s (WQ_read_port rp)) = WAIT_QUEUE_MAGIC \<and>
     (\<forall>pg. rp_gport r = Some pg \<longrightarrow> wq_magic (wqs s (WQ_port_group pg)) = WAIT_QUEUE_MAGIC))"

text \<open>Whether the buffer of a reader has room for the packets, and the buffer afterwards.\<close>

definition fits :: "port_packet list \<Rightarrow> nat \<Rightarrow> 'a port_state_scheme \<Rightarrow> bool" where
  "fits pk rp s \<longleftrightarrow> (case the_read_port s rp of Some r \<Rightarrow>
     (case rp_buf r of Some b \<Rightarrow> length (pb_data b) + length pk \<le> pb_size b | None \<Rightarrow> False) | None \<Rightarrow> False)"

definition got :: "port_packet list \<Rightarrow> nat \<Rightarrow> 'a port_state_scheme \<Rightarrow> 'a port_state_scheme \<Rightarrow> bool" where
  "got pk rp s s' \<longleftrightarrow> (\<exists>r b b'. the_read_port s rp = Some r \<and> rp_buf r = Some b \<and> port_objs s' rp = Read_port (r\<lparr>rp_buf := Some b'\<rparr>) \<and>
     pb_ok b' \<and> pb_size b' = pb_size b \<and> pb_data b' = (if fits pk rp s then pb_data b @ pk else pb_data b))"

definition locked_on :: "u32 \<Rightarrow> nat \<Rightarrow> 'a kstate_scheme \<Rightarrow> bool" where
  "locked_on b cpu s \<longleftrightarrow> kcore b {} {} s \<and> thread_lock s \<and> ints_disabled s cpu \<and> current s cpu \<noteq> None"

text \<open>Waking a thread of a queue leaves the ports alone.\<close>

definition ports_kept :: "'a port_state_scheme \<Rightarrow> 'a port_state_scheme \<Rightarrow> bool" where
  "ports_kept s s' \<longleftrightarrow> port_objs s' = port_objs s \<and> cur_time s' = cur_time s \<and> (\<forall>w. wq_magic (wqs s' w) = wq_magic (wqs s w))"

lemma wake_keeps_ports:
  fixes s :: "'a port_state_scheme"
  assumes "locked_on b cpu s" "wq_magic (wqs s w) = WAIT_QUEUE_MAGIC"
  shows "\<exists>n s'. wait_queue_wake_one K_none cpu w False NO_ERROR s = Some (n, s') \<and> 0 \<le> n \<and> locked_on b cpu s' \<and> ports_kept s s'"
proof -
  obtain ct where c: "kcore b {} {} s" "thread_lock s" "ints_disabled s cpu" "current s cpu = Some ct" using assms(1) by (auto simp: locked_on_def)
  show ?thesis
  proof (cases "wq_list (wqs s w)")
    case Nil
    then show ?thesis using wake_one_ok(1) [OF c assms(2) Nil] assms(1) by (simp add: ports_kept_def)
  next
    case (Cons t rest)
    obtain s' where s': "wait_queue_wake_one K_none cpu w False NO_ERROR s = Some (1, s')" "kcore b {} {} s'" "woken [t] w NO_ERROR s s'"
      "current s' = current s" "thread_lock s'" "ints_disabled s' cpu" using wake_one_ok(2) [OF c assms(2) Cons] by blast
    have "port_objs s' = port_objs s" by (rule kstate_more_port) (use s'(3) in \<open>simp add: woken_def\<close>)
    then show ?thesis using s' c(4) by (auto simp: locked_on_def ports_kept_def woken_def)
  qed
qed

lemma wake_reader_ok:
  assumes "locked_on b cpu s" "wq_magic (wqs s (WQ_read_port rp)) = WAIT_QUEUE_MAGIC"
    "\<And>pg. rp_gport r = Some pg \<Longrightarrow> wq_magic (wqs s (WQ_port_group pg)) = WAIT_QUEUE_MAGIC"
  shows "\<exists>n s'. wake_reader cpu rp r s = Some (n, s') \<and> locked_on b cpu s' \<and> ports_kept s s'"
proof -
  obtain n s1 where s1: "(case rp_gport r of Some pg \<Rightarrow> wait_queue_wake_one K_none cpu (WQ_port_group pg) False NO_ERROR s | None \<Rightarrow> Some (0, s)) = Some (n, s1)"
    "locked_on b cpu s1" "ports_kept s s1"
  proof (cases "rp_gport r")
    case None
    then show ?thesis using that [of 0 s] assms(1) by (simp add: ports_kept_def)
  next
    case (Some pg)
    then show ?thesis using that wake_keeps_ports [OF assms(1) assms(3) [OF Some]] by auto
  qed
  have "wq_magic (wqs s1 (WQ_read_port rp)) = WAIT_QUEUE_MAGIC" using s1(3) assms(2) by (simp add: ports_kept_def)
  from wake_keeps_ports [OF s1(2) this] s1 show ?thesis by (cases "n = 0") (auto simp: wake_reader_def ports_kept_def)
qed

lemma reader_cong:
  assumes "port_objs s1 q = port_objs s q" "\<And>w. wq_magic (wqs s1 w) = wq_magic (wqs s w)"
  shows "the_read_port s1 q = the_read_port s q" "reader_ok q s1 = reader_ok q s" "fits pk q s1 = fits pk q s"
  using assms by (simp_all add: reader_ok_def fits_def the_read_port_def)

lemma upd_port_locked: "locked_on b cpu (upd_port p x s) = locked_on b cpu s"
  using kcore_cong [of "upd_port p x s" s] by (simp add: locked_on_def upd_port_def)

lemma write_loop_ok:
  assumes "locked_on b cpu s" "\<forall>rp \<in> set rps. reader_ok rp s" "distinct rps"
  shows "\<exists>n s'. write_loop cpu pk rps st awake s = Some (if \<forall>rp \<in> set rps. fits pk rp s then st else ERR_PARTIAL_WRITE, n, s') \<and>
    locked_on b cpu s' \<and> cur_time s' = cur_time s \<and> (\<forall>rp \<in> set rps. got pk rp s s') \<and> (\<forall>p. p \<notin> set rps \<longrightarrow> port_objs s' p = port_objs s p)"
  using assms
proof (induction rps arbitrary: st awake s)
  case Nil
  then show ?case by simp
next
  case (Cons rp rps)
  obtain r bf where r: "the_read_port s rp = Some r" "rp_buf r = Some bf" "pb_ok bf" "wq_magic (wqs s (WQ_read_port rp)) = WAIT_QUEUE_MAGIC"
    "\<And>pg. rp_gport r = Some pg \<Longrightarrow> wq_magic (wqs s (WQ_port_group pg)) = WAIT_QUEUE_MAGIC" using Cons.prems(2) by (auto simp: reader_ok_def)
  have o: "port_objs s rp = Read_port r" using r(1) by (auto simp: the_read_port_def split: port_obj.splits)
  have rest: "\<forall>q \<in> set rps. reader_ok q s1 \<and> fits pk q s1 = fits pk q s \<and> the_read_port s1 q = the_read_port s q"
    if "\<And>p. p \<noteq> rp \<Longrightarrow> port_objs s1 p = port_objs s p" "\<And>w. wq_magic (wqs s1 w) = wq_magic (wqs s w)" for s1
  proof
    fix q assume q: "q \<in> set rps"
    then have "port_objs s1 q = port_objs s q" using that(1) Cons.prems(3) by (metis distinct.simps(2))
    from reader_cong [OF this that(2)] show "reader_ok q s1 \<and> fits pk q s1 = fits pk q s \<and> the_read_port s1 q = the_read_port s q"
      using Cons.prems(2) q by simp
  qed
  show ?case
  proof (cases "fits pk rp s")
    case False
    then have "buf_write bf pk = Some (ERR_NOT_ENOUGH_BUFFER, bf)" using buf_write_full [OF r(3)] r(1,2) by (simp add: fits_def)
    then have e: "write_loop cpu pk (rp # rps) st awake s = write_loop cpu pk rps ERR_PARTIAL_WRITE awake s" using r(1,2) by simp
    have "r\<lparr>rp_buf := Some bf\<rparr> = r" using r(2) by (cases r) simp
    then have "got pk rp s s'" if "port_objs s' rp = port_objs s rp" for s' using that o r(1-3) False unfolding got_def by metis
    then show ?thesis unfolding e using Cons.IH [of s ERR_PARTIAL_WRITE awake] Cons.prems False by fastforce
  next
    case True
    obtain b1 where b1: "buf_write bf pk = Some (NO_ERROR, b1)" "pb_ok b1" "pb_data b1 = pb_data bf @ pk" "pb_size b1 = pb_size bf"
      using buf_write_ok [OF r(3), of pk] True r(1,2) by (auto simp: fits_def)
    define s1 where "s1 = upd_port rp (Read_port (r\<lparr>rp_buf := Some b1\<rparr>)) s"
    have w: "wqs s1 = wqs s" "locked_on b cpu s1" using Cons.prems(1) by (simp_all only: s1_def upd_port_locked) (simp add: upd_port_def)
    have "\<exists>n s2. wake_reader cpu rp r s1 = Some (n, s2) \<and> locked_on b cpu s2 \<and> ports_kept s1 s2"
      by (rule wake_reader_ok) (use w r(4,5) in auto)
    then obtain n s2 where s2: "wake_reader cpu rp r s1 = Some (n, s2)" "locked_on b cpu s2" "ports_kept s1 s2" by blast
    have e: "write_loop cpu pk (rp # rps) st awake s = write_loop cpu pk rps st (awake + n) s2" using r(1,2) b1(1) s2(1) by (simp add: s1_def)
    have o2: "port_objs s2 p = (if p = rp then Read_port (r\<lparr>rp_buf := Some b1\<rparr>) else port_objs s p)" for p
      using s2(3) by (simp add: ports_kept_def s1_def upd_port_def)
    have k: "\<forall>q \<in> set rps. reader_ok q s2 \<and> fits pk q s2 = fits pk q s \<and> the_read_port s2 q = the_read_port s q"
      by (rule rest) (use o2 s2(3) w(1) in \<open>auto simp: ports_kept_def\<close>)
    obtain n' s' where s': "write_loop cpu pk rps st (awake + n) s2 = Some (if \<forall>q \<in> set rps. fits pk q s2 then st else ERR_PARTIAL_WRITE, n', s')"
      "locked_on b cpu s'" "cur_time s' = cur_time s2" "\<forall>q \<in> set rps. got pk q s2 s'" "\<forall>p. p \<notin> set rps \<longrightarrow> port_objs s' p = port_objs s2 p"
      using Cons.IH [OF s2(2), of st "awake + n"] k Cons.prems(3) by auto
    have "got pk rp s s'" using s'(5) Cons.prems(3) o2 [of rp] r(1,2) b1 True by (auto simp: got_def)
    moreover have "\<forall>q \<in> set rps. got pk q s s'" using s'(4) k unfolding got_def by metis
    moreover have "cur_time s' = cur_time s" using s'(3) s2(3) by (simp add: ports_kept_def s1_def upd_port_def)
    ultimately show ?thesis unfolding e s'(1) using s'(2,5) o2 k True by auto
  qed
qed

text \<open>
  C27: a write to a port with readers puts all the packets, in order, behind the queued ones of every
  reader that has room for all of them, and leaves the queues of the other readers and all other
  ports as they are. It returns NO_ERROR if every reader had room, and ERR_PARTIAL_WRITE otherwise.
  Whichever threads it wakes, no assertion fails.
\<close>

theorem port_write_delivers:
  fixes s :: "'a port_state_scheme"
  assumes "kinv b s" "current s cpu = Some ct" "in_window b (cur_time s + 10)" "port_objs s wp = Write_port w"
    "wp_magic w = WRITEPORT_MAGIC_W" "wp_buf w = None" "distinct (wp_readers w)" "\<forall>rp \<in> set (wp_readers w). reader_ok rp s"
  shows "\<exists>s'. port_write cpu (Some wp) (Some pk) s =
      Some (if \<forall>rp \<in> set (wp_readers w). fits pk rp s then NO_ERROR else ERR_PARTIAL_WRITE, s') \<and>
    (\<forall>rp \<in> set (wp_readers w). got pk rp s s') \<and> (\<forall>p. p \<notin> set (wp_readers w) \<longrightarrow> port_objs s' p = port_objs s p)"
proof -
  let ?s1 = "locked cpu s" and ?rs = "wp_readers w"
  have L: "THREAD_LOCK cpu s = Some (ints_disabled s cpu, ?s1)" by (rule THREAD_LOCK_kinv [OF assms(1)])
  have o: "port_objs ?s1 = port_objs s" "wqs ?s1 = wqs s" by simp_all
  have "locked_on b cpu ?s1" using assms(1,2) by (simp add: locked_on_def locked_kcore kinv_def)
  moreover have r: "reader_ok rp ?s1 = reader_ok rp s" "fits pk rp ?s1 = fits pk rp s" "the_read_port ?s1 rp = the_read_port s rp" for rp
    using reader_cong [of ?s1 rp s] by (simp_all add: o)
  ultimately obtain n s2 where s2: "write_loop cpu pk ?rs NO_ERROR 0 ?s1 = Some (if \<forall>rp \<in> set ?rs. fits pk rp s then NO_ERROR else ERR_PARTIAL_WRITE, n, s2)"
    "locked_on b cpu s2" "cur_time s2 = cur_time s" "\<forall>rp \<in> set ?rs. got pk rp s s2" "\<forall>p. p \<notin> set ?rs \<longrightarrow> port_objs s2 p = port_objs s p"
    using write_loop_ok [of b cpu ?s1 ?rs pk NO_ERROR 0] assms(7,8) unfolding got_def r o by auto
  let ?s3 = "THREAD_UNLOCK cpu (ints_disabled s cpu) s2"
  have w: "port_write_locked cpu wp pk ?s1 = write_loop cpu pk ?rs NO_ERROR 0 ?s1"
    using assms(4-6) by (simp add: port_write_locked_def port_magic_def the_write_port_def)
  have p3: "port_objs ?s3 = port_objs s2" by (simp add: THREAD_UNLOCK_def)
  have keep: "got pk rp s s' = got pk rp s s2" if "port_objs s' = port_objs s2" for rp s' using that by (simp add: got_def)
  show ?thesis
  proof (cases "n = 0")
    case True
    then have "port_write cpu (Some wp) (Some pk) s = Some (if \<forall>rp \<in> set ?rs. fits pk rp s then NO_ERROR else ERR_PARTIAL_WRITE, ?s3)"
      using L w s2(1) by (simp add: port_write_def)
    then show ?thesis using s2(4,5) keep [OF p3] p3 by auto
  next
    case False
    have "kinv b ?s3" using s2(2) kcore_cong [of ?s3 s2] by (simp add: kinv_def locked_on_def THREAD_UNLOCK_def)
    moreover obtain ct3 where "current ?s3 cpu = Some ct3" using s2(2) by (auto simp: locked_on_def THREAD_UNLOCK_def)
    moreover have "in_window b (cur_time ?s3 + 10)" using assms(3) s2(3) by (simp add: THREAD_UNLOCK_def)
    ultimately obtain s4 where s4: "thread_yield cpu ?s3 = Some s4" "yielded (K_unlock (ints_disabled ?s3 cpu)) cpu ct3 ?s3 s4"
      using thread_yield_ok by blast
    have p4: "port_objs s4 = port_objs s2" using kstate_more_port [of s4 ?s3] s4(2) p3 by (simp add: yielded_def)
    have "port_write cpu (Some wp) (Some pk) s = Some (if \<forall>rp \<in> set ?rs. fits pk rp s then NO_ERROR else ERR_PARTIAL_WRITE, s4)"
      using L w s2(1) s4(1) False by (simp add: port_write_def)
    then show ?thesis using s2(4,5) keep [OF p4] p4 by auto
  qed
qed

definition demo_buf :: port_buf where
  "demo_buf = \<lparr>log2 = 1, avail = 1, pb_head = 0, pb_tail = 1, packet = [[5], [0]]\<rparr>"

definition demo_reader :: "nat \<Rightarrow> port_buf \<Rightarrow> read_port" where
  "demo_reader g b = \<lparr>rp_magic = READPORT_MAGIC, rp_buf = Some b, rp_ctx = 0, rp_wport = Some 1, rp_gport = Some g\<rparr>"

text \<open>A write port with two readers in a group, the second of them with a full buffer.\<close>

definition demo_ports :: "nat \<Rightarrow> port_obj" where
  "demo_ports = (\<lambda>_. Free_mem)(1 := Write_port \<lparr>wp_magic = WRITEPORT_MAGIC_W, wp_buf = None, wp_readers = [2, 3], wp_mode = 0, wp_name = ''p''\<rparr>,
     2 := Read_port (demo_reader 4 demo_buf), 3 := Read_port (demo_reader 4 (demo_buf\<lparr>avail := 0, pb_tail := 0\<rparr>)),
     4 := Port_group \<lparr>pg_magic = PORTGROUP_MAGIC, pg_readers = [2, 3]\<rparr>)"

definition demo_port :: port_state where
  "demo_port = demo \<lparr>mutexes = (\<lambda>_. \<lparr>m_magic = 0, holder = None, m_count = 0\<rparr>), sems = (\<lambda>_. \<lparr>sem_magic = 0, sem_count = 0\<rparr>),
     events = (\<lambda>_. \<lparr>e_magic = 0, signaled = False, e_flags = 0\<rparr>), port_objs = demo_ports, write_port_list = [1], port_result = (\<lambda>_. (0, None))\<rparr>"

lemma demo_port_objs: "port_objs demo_port = demo_ports"
  by (simp add: demo_port_def demo_def)

theorem port_write_delivers_witness:
  "\<exists>s'. port_write 0 (Some 1) (Some [[9]]) demo_port = Some (ERR_PARTIAL_WRITE, s') \<and> got [[9]] 2 demo_port s'"
proof -
  have bufs: "pb_ok demo_buf" "pb_ok (demo_buf\<lparr>avail := 0, pb_tail := 0\<rparr>)" by (simp_all add: pb_ok_def demo_buf_def pb_size_def pb_used_def)
  have "reader_ok rp demo_port" if "rp \<in> {2, 3}" for rp
    using that bufs unfolding reader_ok_def the_read_port_def demo_port_objs by (auto simp: demo_ports_def demo_reader_def demo_port_def)
  moreover have "\<not> fits [[9]] 3 demo_port"
    by (simp add: fits_def the_read_port_def demo_port_objs demo_ports_def demo_reader_def demo_buf_def pb_used_def pb_size_def)
  moreover have "kinv 0 demo_port" "current demo_port 0 = Some (Dyn_thread 0)" "in_window 0 (cur_time demo_port + 10)"
    using demo_kinv demo_time(1) by (simp_all add: demo_port_def)
  moreover have "port_objs demo_port 1 = Write_port \<lparr>wp_magic = WRITEPORT_MAGIC_W, wp_buf = None, wp_readers = [2, 3], wp_mode = 0, wp_name = ''p''\<rparr>"
    by (simp add: demo_port_objs demo_ports_def)
  ultimately show ?thesis using port_write_delivers [of 0 demo_port 0 "Dyn_thread 0" 1 _ "[[9]]"] by fastforce
qed

end
