(* ===== verification/Abstraction.thy ===== *)
theory Abstraction
  imports Sync_Safety Thread_Start
begin

text \<open>
  The abstraction from the kernel's state to the abstract machine of \<open>Sync_Spec\<close>, and what the
  effects that the operations of the thread system have on the calls in progress are there.
\<close>

section \<open>The abstraction\<close>

definition abs_call :: "thread \<Rightarrow> acall" where
  "abs_call th =
     (if t_magic th = THREAD_MAGIC
      then \<lparr>a_live = True, a_cont = t_cont th,
            a_wait = (if t_state th = THREAD_BLOCKED then blocking_wait_queue th else None),
            a_ret = wait_queue_block_ret th, a_dead = (t_state th = THREAD_DEATH),
            a_det = has_flag th THREAD_FLAG_DETACHED\<rparr>
      else no_call)"

definition abs_calls :: "'a kstate_scheme \<Rightarrow> tid \<Rightarrow> acall" where
  "abs_calls s = (\<lambda>t. abs_call (threads s t))"

definition abs_wqs :: "'a kstate_scheme \<Rightarrow> wqid \<Rightarrow> bool" where
  "abs_wqs s = (\<lambda>w. wq_magic (wqs s w) = WAIT_QUEUE_MAGIC)"

definition astate_of :: "'a sync_state_scheme \<Rightarrow> astate" where
  "astate_of s = \<lparr>a_calls = abs_calls s, a_wq = abs_wqs s, a_mut = mutexes s, a_sem = sems s, a_ev = events s\<rparr>"

text \<open>A thread that is not blocked is linked to no wait queue.\<close>

definition unlinked :: "thread \<Rightarrow> bool" where
  "unlinked th \<longleftrightarrow> (t_magic th = THREAD_MAGIC \<longrightarrow> t_state th \<noteq> THREAD_BLOCKED \<longrightarrow> blocking_wait_queue th = None)"

definition unlinked_ok :: "'a kstate_scheme \<Rightarrow> bool" where
  "unlinked_ok s \<longleftrightarrow> (\<forall>t. unlinked (threads s t))"

lemma cview_abs:
  assumes "cview a = cview b"
  shows "abs_call a = abs_call b" "unlinked a = unlinked b"
  using cview_eqD [OF assms] by (simp_all add: abs_call_def unlinked_def has_flag_def)

lemma astate_of_simps [simp]:
  "a_calls (astate_of s) = abs_calls s" "a_wq (astate_of s) = abs_wqs s" "a_mut (astate_of s) = mutexes s"
  "a_sem (astate_of s) = sems s" "a_ev (astate_of s) = events s"
  by (simp_all add: astate_of_def)

lemma kstate_more_sync:
  fixes s s' :: "'a sync_state_scheme"
  assumes "kstate.more s' = kstate.more s"
  shows "mutexes s' = mutexes s" "sems s' = sems s" "events s' = events s"
  using assms by (metis kstate.surjective sync_state.ext_inject sync_state.surjective kstate.select_convs)+

text \<open>The calls after a change, from the \<open>cview\<close> of each thread.\<close>

lemma frame_calls:
  assumes "\<And>u. cview (threads s' u) = cview (f u)"
  shows "abs_calls s' = (\<lambda>u. abs_call (f u))" "unlinked_ok s' \<longleftrightarrow> (\<forall>u. unlinked (f u))"
  using cview_abs [OF assms] by (simp_all add: abs_calls_def unlinked_ok_def)

text \<open>A thread that runs, outside of any call: what the cpu's current thread is when it starts one.\<close>

definition running :: "tid \<Rightarrow> 'a kstate_scheme \<Rightarrow> bool" where
  "running t s \<longleftrightarrow> live s t \<and> t_state (threads s t) = THREAD_RUNNING \<and> t_cont (threads s t) = K_none"

lemma running_current: "kinv b s \<Longrightarrow> current s cpu = Some t \<Longrightarrow> running t s"
  using current_facts by (auto simp: running_def)

lemma running_idle: "running t s \<Longrightarrow> idle_call (abs_calls s t)"
  by (simp add: running_def idle_call_def abs_calls_def abs_call_def)

lemma running_call: "running t s \<Longrightarrow> abs_calls s t =
    \<lparr>a_live = True, a_cont = K_none, a_wait = None, a_ret = wait_queue_block_ret (threads s t), a_dead = False,
     a_det = has_flag (threads s t) THREAD_FLAG_DETACHED\<rparr>"
  by (simp add: running_def abs_calls_def abs_call_def)

lemma running_unlinked: "running t s \<Longrightarrow> unlinked_ok s \<Longrightarrow> blocking_wait_queue (threads s t) = None"
  by (simp add: running_def unlinked_ok_def unlinked_def)

lemma set_cont_running: "running t s \<Longrightarrow> set_cont t K_none (abs_calls s) = abs_calls s"
  by (auto simp: set_cont_def running_call)

lemma abs_calls_live [simp]: "a_live (abs_calls s t) \<longleftrightarrow> live s t"
  by (simp add: abs_calls_def abs_call_def no_call_def)

lemma abs_calls_cont: "live s t \<Longrightarrow> a_cont (abs_calls s t) = t_cont (threads s t)"
  "live s t \<Longrightarrow> a_ret (abs_calls s t) = wait_queue_block_ret (threads s t)"
  "live s t \<Longrightarrow> a_dead (abs_calls s t) \<longleftrightarrow> t_state (threads s t) = THREAD_DEATH"
  "live s t \<Longrightarrow> a_det (abs_calls s t) \<longleftrightarrow> has_flag (threads s t) THREAD_FLAG_DETACHED"
  by (simp_all add: abs_calls_def abs_call_def)

text \<open>The waiters of a queue are the threads of its list.\<close>

lemma waiters_abs:
  assumes "sched_inv {} s"
  shows "waiters w (abs_calls s) = set (wq_list (wqs s w))"
  using sched_invD(6) [OF assms] by (auto simp: waiters_def waits_on_def abs_calls_def abs_call_def no_call_def)

section \<open>The effects of the operations\<close>

lemma yielded_abs:
  assumes y: "yielded k cpu t s s'" and r: "running t s" and u: "unlinked_ok s"
  shows "abs_calls s' = set_cont t k (abs_calls s)" "abs_wqs s' = abs_wqs s" "unlinked_ok s'"
proof -
  have c: "cview (threads s' u) = cview (((threads s)(t := (threads s t)\<lparr>t_cont := k, t_state := THREAD_READY\<rparr>)) u)" for u
    using y by (simp add: yielded_def)
  show "abs_calls s' = set_cont t k (abs_calls s)"
    using r unfolding frame_calls(1) [OF c] by (auto simp: set_cont_def running_def abs_calls_def abs_call_def has_flag_def fun_eq_iff)
  show "unlinked_ok s'" unfolding frame_calls(2) [OF c] using u running_unlinked [OF r u] by (simp add: unlinked_ok_def unlinked_def)
  show "abs_wqs s' = abs_wqs s" using y by (simp add: yielded_def abs_wqs_def)
qed

lemma blocked_on_abs:
  assumes y: "blocked_on k cpu t w s s'" and r: "running t s" and u: "unlinked_ok s"
  shows "abs_calls s' = block t w k (abs_calls s)" "abs_wqs s' = abs_wqs s" "unlinked_ok s'"
proof -
  have c: "cview (threads s' u) = cview (((threads s)(t := (threads s t)\<lparr>t_cont := k, t_state := THREAD_BLOCKED,
      blocking_wait_queue := Some w, wait_queue_block_ret := NO_ERROR\<rparr>)) u)" for u
    using y by (simp add: blocked_on_def)
  show "abs_calls s' = block t w k (abs_calls s)"
    using r unfolding frame_calls(1) [OF c] by (auto simp: block_def running_def abs_calls_def abs_call_def has_flag_def fun_eq_iff)
  show "unlinked_ok s'" unfolding frame_calls(2) [OF c] using u by (simp add: unlinked_ok_def unlinked_def)
  show "abs_wqs s' = abs_wqs s" using y by (auto simp: blocked_on_def abs_wqs_def)
qed

lemma abs_call_woken:
  "t_magic th = THREAD_MAGIC \<Longrightarrow> t_state th \<noteq> THREAD_DEATH \<Longrightarrow> abs_call (set_woken err th) = (abs_call th)\<lparr>a_wait := None, a_ret := err\<rparr>"
  "unlinked (set_woken err th)"
  by (simp_all add: abs_call_def has_flag_def unlinked_def)

lemma woken_abs:
  assumes y: "woken ts w err s s'" and t: "\<And>u. u \<in> set ts \<Longrightarrow> live s u \<and> t_state (threads s u) = THREAD_BLOCKED" and u: "unlinked_ok s"
  shows "abs_calls s' = wake (set ts) err (abs_calls s)" "abs_wqs s' = abs_wqs s" "unlinked_ok s'"
proof -
  have c: "cview (threads s' u) = cview (if u \<in> set ts then set_woken err (threads s u) else threads s u)" for u
    using y by (simp add: woken_def)
  show "abs_calls s' = wake (set ts) err (abs_calls s)"
    using t unfolding frame_calls(1) [OF c] by (auto simp: wake_def abs_calls_def abs_call_woken fun_eq_iff)
  show "unlinked_ok s'" unfolding frame_calls(2) [OF c] using u abs_call_woken(2) by (simp add: unlinked_ok_def)
  show "abs_wqs s' = abs_wqs s" using y by (auto simp: woken_def abs_wqs_def)
qed

lemma woken_resched_abs:
  assumes y: "woken_resched k cpu ct ts w err s s'" and r: "running ct s" and u: "unlinked_ok s"
    and t: "\<And>u. u \<in> set ts \<Longrightarrow> live s u \<and> t_state (threads s u) = THREAD_BLOCKED"
  shows "abs_calls s' = set_cont ct k (wake (set ts) err (abs_calls s))" "abs_wqs s' = abs_wqs s" "unlinked_ok s'"
proof -
  have ct: "ct \<notin> set ts" using t [of ct] r by (auto simp: running_def)
  have c: "cview (threads s' u) = cview (if u \<in> set ts then set_woken err (threads s u)
      else if u = ct then (threads s u)\<lparr>t_cont := k, t_state := THREAD_READY\<rparr> else threads s u)" for u
    using y by (simp add: woken_resched_def)
  have ctc: "abs_call ((threads s ct)\<lparr>t_cont := k, t_state := THREAD_READY\<rparr>) = (abs_call (threads s ct))\<lparr>a_cont := k\<rparr>"
    using r by (simp add: running_def abs_call_def has_flag_def)
  show "abs_calls s' = set_cont ct k (wake (set ts) err (abs_calls s))"
    using t ct ctc unfolding frame_calls(1) [OF c] by (auto simp: set_cont_def wake_def abs_calls_def abs_call_woken fun_eq_iff)
  show "unlinked_ok s'" unfolding frame_calls(2) [OF c] using u running_unlinked [OF r u] abs_call_woken(2) r
    by (simp add: unlinked_ok_def) (simp add: unlinked_def running_def)
  show "abs_wqs s' = abs_wqs s" using y by (auto simp: woken_resched_def abs_wqs_def)
qed

lemma quiet_abs:
  assumes "quiet s s'" "unlinked_ok s"
  shows "abs_calls s' = abs_calls s" "abs_wqs s' = abs_wqs s" "unlinked_ok s'"
proof -
  have c: "cview (threads s' u) = cview (threads s u)" for u using assms by (simp add: quiet_def)
  show "abs_calls s' = abs_calls s" unfolding frame_calls(1) [OF c] by (simp add: abs_calls_def)
  show "unlinked_ok s'" unfolding frame_calls(2) [OF c] using assms by (simp add: unlinked_ok_def)
  show "abs_wqs s' = abs_wqs s" using assms by (simp add: quiet_def abs_wqs_def)
qed

text \<open>The end of a call: the thread's continuation and result change.\<close>

lemma end_call_abs:
  assumes "threads s' = (threads s)(t := (threads s t)\<lparr>t_cont := K_none, call_ret := r\<rparr>)" "wqs s' = wqs s"
    "live s t" "unlinked_ok s"
  shows "abs_calls s' = set_cont t K_none (abs_calls s)" "abs_wqs s' = abs_wqs s" "unlinked_ok s'"
  using assms by (auto simp: abs_calls_def abs_call_def set_cont_def has_flag_def abs_wqs_def unlinked_ok_def unlinked_def fun_eq_iff)

lemma created_in_abs:
  assumes y: "created_in t s s'" and u: "unlinked_ok s"
  shows "abs_calls s' = spawn t (wait_queue_block_ret (threads s' t)) (abs_calls s)"
    "abs_wqs s' = (abs_wqs s)(WQ_retcode t := True)" "unlinked_ok s'"
proof -
  have t: "created (threads s' t)" "\<And>u. u \<noteq> t \<Longrightarrow> threads s' u = threads s u" "\<not> has_flag (threads s' t) THREAD_FLAG_DETACHED"
    using y by (auto simp: created_in_def)
  have "abs_calls s' v = spawn t (wait_queue_block_ret (threads s' t)) (abs_calls s) v" for v
    using t by (cases "v = t") (simp_all add: abs_calls_def spawn_def abs_call_def created_def)
  then show "abs_calls s' = spawn t (wait_queue_block_ret (threads s' t)) (abs_calls s)" by blast
  have "unlinked (threads s' v)" for v
    using t u by (cases "v = t") (simp_all add: unlinked_ok_def, simp add: unlinked_def created_def)
  then show "unlinked_ok s'" by (simp add: unlinked_ok_def)
  show "abs_wqs s' = (abs_wqs s)(WQ_retcode t := True)" using y by (auto simp: created_in_def abs_wqs_def)
qed

lemma exited_abs:
  assumes y: "exited cpu t r s s'" and run: "running t s" and i: "sched_inv {} s" and u: "unlinked_ok s"
  shows "has_flag (threads s t) THREAD_FLAG_DETACHED \<Longrightarrow> abs_calls s' = kill t (abs_calls s)"
    "\<not> has_flag (threads s t) THREAD_FLAG_DETACHED \<Longrightarrow>
      abs_calls s' = wake (waiters (WQ_retcode t) (abs_calls s)) NO_ERROR (die t (abs_calls s))"
    "abs_wqs s' = abs_wqs s" "unlinked_ok s'"
proof -
  have J: "live s v \<and> t_state (threads s v) = THREAD_BLOCKED" if "v \<in> set (exit_joiners t s)" for v
    using that sched_invD(6) [OF i] by (auto simp: exit_joiners_def split: if_splits)
  then have t: "t \<notin> set (exit_joiners t s)" using run by (auto simp: running_def)
  have c: "cview (threads s' v) = cview (if v \<in> set (exit_joiners t s) then set_woken NO_ERROR (threads s v) else threads s v)"
    if "v \<noteq> t" for v using y that by (simp add: exited_def)
  note C = cview_abs [OF c]
  show "abs_calls s' = kill t (abs_calls s)" if d: "has_flag (threads s t) THREAD_FLAG_DETACHED"
  proof
    fix v show "abs_calls s' v = kill t (abs_calls s) v"
      using y d C(1) [of v] by (cases "v = t") (auto simp: exited_def exit_joiners_def kill_def abs_calls_def abs_call_def)
  qed
  show "abs_calls s' = wake (waiters (WQ_retcode t) (abs_calls s)) NO_ERROR (die t (abs_calls s))"
    if d: "\<not> has_flag (threads s t) THREAD_FLAG_DETACHED"
  proof
    fix v
    have e: "set (exit_joiners t s) = waiters (WQ_retcode t) (abs_calls s)" using d by (simp add: exit_joiners_def waiters_abs [OF i])
    have "abs_call (threads s' t) = abs_call ((threads s t)\<lparr>t_state := THREAD_DEATH, retcode := r\<rparr>)"
      by (rule cview_abs) (use y d in \<open>simp add: exited_def\<close>)
    then show "abs_calls s' v = wake (waiters (WQ_retcode t) (abs_calls s)) NO_ERROR (die t (abs_calls s)) v"
      using C(1) [of v] J t run unfolding e [symmetric]
      by (cases "v = t") (auto simp: wake_def die_def abs_calls_def abs_call_woken running_def abs_call_def has_flag_def)
  qed
  have "unlinked (threads s' t)"
  proof (cases "has_flag (threads s t) THREAD_FLAG_DETACHED")
    case True
    then show ?thesis using y by (simp add: exited_def unlinked_def)
  next
    case False
    then have "cview (threads s' t) = cview ((threads s t)\<lparr>t_state := THREAD_DEATH, retcode := r\<rparr>)" using y by (simp add: exited_def)
    from cview_abs(2) [OF this] show ?thesis using running_unlinked [OF run u] by (simp add: unlinked_def)
  qed
  moreover have "unlinked (threads s' v)" if "v \<noteq> t" for v
    using C(2) [OF that] abs_call_woken(2) u by (simp add: unlinked_ok_def split: if_splits)
  ultimately show "unlinked_ok s'" unfolding unlinked_ok_def by metis
  show "abs_wqs s' = abs_wqs s" using y by (auto simp: exited_def abs_wqs_def split: if_splits)
qed

lemma reaped_abs:
  assumes y: "reaped ct t want s s'" and ct: "live s ct" "ct \<noteq> t" and u: "unlinked_ok s"
  shows "abs_calls s' = kill t (set_cont ct K_none (abs_calls s))" "abs_wqs s' = abs_wqs s" "unlinked_ok s'"
proof -
  have o: "cview (threads s' v) = cview (threads s v)" if "v \<noteq> t" "v \<noteq> ct" for v using y that by (simp add: reaped_def)
  have c: "cview (threads s' ct) = cview ((threads s ct)\<lparr>t_cont := K_none, call_ret := NO_ERROR,
       out_retcode := if want then retcode (threads s t) else out_retcode (threads s ct)\<rparr>)" using y by (simp add: reaped_def)
  have d: "\<not> live s' t" using y by (simp add: reaped_def)
  show "abs_calls s' = kill t (set_cont ct K_none (abs_calls s))"
  proof
    fix v
    show "abs_calls s' v = kill t (set_cont ct K_none (abs_calls s)) v"
      using cview_abs(1) [OF o] cview_abs(1) [OF c] d ct
      by (cases "v = t"; cases "v = ct") (simp_all add: kill_def set_cont_def abs_calls_def, simp_all add: abs_call_def has_flag_def)
  qed
  have "unlinked (threads s' v)" for v
    using cview_abs(2) [OF o, of v] cview_abs(2) [OF c] d u
    by (cases "v = t"; cases "v = ct") (simp_all add: unlinked_ok_def, simp_all add: unlinked_def)
  then show "unlinked_ok s'" by (simp add: unlinked_ok_def)
  show "abs_wqs s' = abs_wqs s" using y by (simp add: reaped_def abs_wqs_def)
qed

lemma has_flag_or_detached: "has_flag (th\<lparr>t_flags := t_flags th OR THREAD_FLAG_DETACHED\<rparr>) THREAD_FLAG_DETACHED"
  by (simp add: has_flag_detached)

lemma detached_abs:
  assumes y: "detached ct t s s'" and t: "live s t" and i: "sched_inv {} s" and run: "running ct s" and u: "unlinked_ok s"
  shows "abs_calls s' = set_det t (wake (waiters (WQ_retcode t) (abs_calls s)) ERR_THREAD_DETACHED (abs_calls s))"
    "abs_wqs s' = abs_wqs s" "unlinked_ok s'"
proof -
  define W where "W = set (wq_list (wqs s (WQ_retcode t)))"
  have J: "live s v \<and> t_state (threads s v) = THREAD_BLOCKED" if "v \<in> W" for v
    using that sched_invD(6) [OF i] by (auto simp: W_def)
  have ct: "ct \<notin> W" using J [of ct] run by (auto simp: running_def)
  define f where "f = (\<lambda>v. if v \<in> W then set_woken ERR_THREAD_DETACHED (threads s v) else threads s v)"
  define g where "g = f(t := (f t)\<lparr>t_flags := t_flags (f t) OR THREAD_FLAG_DETACHED\<rparr>)"
  have c: "cview (threads s' v) = cview ((g(ct := (g ct)\<lparr>t_cont := K_none, call_ret := NO_ERROR\<rparr>)) v)" for v
    using y unfolding detached_def Let_def f_def g_def W_def by blast
  have F: "abs_call (f v) = wake W ERR_THREAD_DETACHED (abs_calls s) v" "unlinked (f v)" for v
    using J [of v] u abs_call_woken(2) by (auto simp: f_def wake_def abs_calls_def abs_call_woken(1) unlinked_ok_def)
  have "t_magic (f t) = THREAD_MAGIC" using t by (simp add: f_def)
  then have "abs_call ((f t)\<lparr>t_flags := t_flags (f t) OR THREAD_FLAG_DETACHED\<rparr>) = (abs_call (f t))\<lparr>a_det := True\<rparr>"
      "unlinked ((f t)\<lparr>t_flags := t_flags (f t) OR THREAD_FLAG_DETACHED\<rparr>) = unlinked (f t)"
    using has_flag_or_detached [of "f t"] by (simp_all add: abs_call_def unlinked_def)
  then have G: "abs_call (g v) = set_det t (wake W ERR_THREAD_DETACHED (abs_calls s)) v" "unlinked (g v)" for v
    using F [of v] F [of t] by (simp_all add: g_def set_det_def)
  have "t_cont (g ct) = K_none" using run ct by (auto simp: g_def f_def running_def)
  then have H: "abs_call ((g ct)\<lparr>t_cont := K_none, call_ret := NO_ERROR\<rparr>) = abs_call (g ct)"
      "unlinked ((g ct)\<lparr>t_cont := K_none, call_ret := NO_ERROR\<rparr>) = unlinked (g ct)"
    by (simp_all add: abs_call_def has_flag_def unlinked_def)
  show "abs_calls s' = set_det t (wake (waiters (WQ_retcode t) (abs_calls s)) ERR_THREAD_DETACHED (abs_calls s))"
    unfolding frame_calls(1) [OF c] waiters_abs [OF i] W_def [symmetric] using G(1) H(1) by auto
  show "unlinked_ok s'" unfolding frame_calls(2) [OF c] using G(2) H(2) by auto
  show "abs_wqs s' = abs_wqs s" using y by (auto simp: detached_def abs_wqs_def)
qed

text \<open>Timeouts are finitely many steps of the abstract machine.\<close>

lemma wake_insert: "wake (insert t T) err c = wake {t} err (wake T err c)"
  by (auto simp: wake_def fun_eq_iff)

lemma timeouts_steps:
  assumes "finite T" "\<And>t. t \<in> T \<Longrightarrow> \<exists>w tmo c i. waits_on w (a_calls A t) \<and> a_cont (a_calls A t) = K_wq_block tmo c i \<and> tmo \<noteq> INFINITE_TIME"
  shows "astep\<^sup>*\<^sup>* A (A\<lparr>a_calls := wake T ERR_TIMED_OUT (a_calls A)\<rparr>)"
  using assms
proof (induction T)
  case empty
  then show ?case by (simp add: wake_def)
next
  case (insert t T)
  let ?B = "A\<lparr>a_calls := wake T ERR_TIMED_OUT (a_calls A)\<rparr>"
  have 1: "astep\<^sup>*\<^sup>* A ?B" using insert by simp
  obtain w tmo c i where "waits_on w (a_calls A t)" "a_cont (a_calls A t) = K_wq_block tmo c i" "tmo \<noteq> INFINITE_TIME"
    using insert.prems by blast
  then have "waits_on w (a_calls ?B t)" "a_cont (a_calls ?B t) = K_wq_block tmo c i"
    using insert.hyps by (simp_all add: call_simps)
  from thread_astep.timeout [OF this \<open>tmo \<noteq> INFINITE_TIME\<close>]
  have "astep ?B (A\<lparr>a_calls := wake (insert t T) ERR_TIMED_OUT (a_calls A)\<rparr>)"
    by (simp add: astep_def wake_insert [of t T])
  with 1 show ?case by (rule rtranclp.rtrancl_into_rtrancl)
qed

lemma timed_out_abs:
  fixes s :: "'a sync_state_scheme"
  assumes y: "timed_out s s'" and i: "sched_inv {} s" and u: "unlinked_ok s"
  shows "astep\<^sup>*\<^sup>* (astate_of s) (astate_of s')" "unlinked_ok s'"
proof -
  from y obtain T where T: "finite T" "\<And>v. v \<notin> T \<Longrightarrow> cview (threads s' v) = cview (threads s v)"
    "\<And>v. v \<in> T \<Longrightarrow> live s v \<and> t_state (threads s v) = THREAD_BLOCKED \<and> timed_block (threads s v) \<and>
       cview (threads s' v) = cview (set_woken ERR_TIMED_OUT (threads s v))"
    unfolding timed_out_def by blast
  have c: "cview (threads s' v) = cview (if v \<in> T then set_woken ERR_TIMED_OUT (threads s v) else threads s v)" for v
    using T by simp
  have "abs_calls s' = wake T ERR_TIMED_OUT (abs_calls s)"
    using T(3) unfolding frame_calls(1) [OF c] by (auto simp: wake_def abs_calls_def abs_call_woken fun_eq_iff)
  moreover have "mutexes s' = mutexes s" "sems s' = sems s" "events s' = events s"
    by (rule kstate_more_sync; use y in \<open>simp add: timed_out_def\<close>)+
  moreover have "abs_wqs s' = abs_wqs s" using y by (simp add: timed_out_def abs_wqs_def)
  ultimately have eq: "astate_of s' = (astate_of s)\<lparr>a_calls := wake T ERR_TIMED_OUT (a_calls (astate_of s))\<rparr>"
    by (simp add: astate_of_def)
  show "astep\<^sup>*\<^sup>* (astate_of s) (astate_of s')"
    unfolding eq
  proof (rule timeouts_steps [OF T(1)])
    fix t assume "t \<in> T"
    then have t: "live s t" "t_state (threads s t) = THREAD_BLOCKED" "timed_block (threads s t)" using T(3) by blast+
    obtain w where "blocking_wait_queue (threads s t) = Some w" using sched_invD(7) [OF i t(1) _ t(2)] by auto
    then show "\<exists>w tmo c i. waits_on w (a_calls (astate_of s) t) \<and> a_cont (a_calls (astate_of s) t) = K_wq_block tmo c i \<and> tmo \<noteq> INFINITE_TIME"
      using t by (auto simp: waits_on_def abs_calls_def abs_call_def timed_block_def split: cont.splits)
  qed
  show "unlinked_ok s'" unfolding frame_calls(2) [OF c] using u abs_call_woken(2) by (simp add: unlinked_ok_def)
qed

end
