(* ===== verification/Sync_Refine.thy ===== *)
theory Sync_Refine
  imports Abstraction
begin

text \<open>
  The wait-queue operations, mutexes, semaphores and events run without a failed assertion from the
  kernel's invariant, keep it, and are steps of the abstract machine.
\<close>

section \<open>Holding the thread lock\<close>

text \<open>The state between \<open>THREAD_LOCK\<close> and the context switch or \<open>THREAD_UNLOCK\<close> of a call of thread \<open>t\<close>.\<close>

definition holds_lock :: "u32 \<Rightarrow> nat \<Rightarrow> tid \<Rightarrow> 'a kstate_scheme \<Rightarrow> bool" where
  "holds_lock b cpu t s \<longleftrightarrow> kcore b {} {} s \<and> thread_lock s \<and> ints_disabled s cpu \<and> current s cpu = Some t \<and> unlinked_ok s"

lemma holds_lockD:
  assumes "holds_lock b cpu t s"
  shows "kcore b {} {} s" "thread_lock s" "ints_disabled s cpu" "current s cpu = Some t" "unlinked_ok s" "running t s" "sched_inv {} s"
  using assms locked_current_facts [of b s cpu t] kcoreD(1) [of b "{}" "{}" s] by (auto simp: holds_lock_def running_def)

lemma holds_lock_cong:
  assumes "threads s' = threads s" "current s' = current s" "timers s' = timers s" "timer_queue s' = timer_queue s"
    "run_queue s' = run_queue s" "run_queue_bitmap s' = run_queue_bitmap s" "wqs s' = wqs s"
    "thread_lock s' = thread_lock s" "ints_disabled s' = ints_disabled s"
  shows "holds_lock b cpu t s' = holds_lock b cpu t s"
  using kcore_cong [of s' s b "{}" "{}"] assms by (simp add: holds_lock_def unlinked_ok_def)

lemma holds_lock_enter:
  "kinv b s \<Longrightarrow> unlinked_ok s \<Longrightarrow> current s cpu = Some t \<Longrightarrow> holds_lock b cpu t (locked cpu s)"
  by (simp add: holds_lock_def locked_kcore kinv_def unlinked_ok_def)

lemma upd_obj_simps [simp]:
  "threads (upd_mutex m f s) = threads s" "current (upd_mutex m f s) = current s" "wqs (upd_mutex m f s) = wqs s"
  "cur_time (upd_mutex m f s) = cur_time s" "mutexes (upd_mutex m f s) = (mutexes s)(m := f (mutexes s m))"
  "sems (upd_mutex m f s) = sems s" "events (upd_mutex m f s) = events s"
  "threads (upd_sem n g s) = threads s" "current (upd_sem n g s) = current s" "wqs (upd_sem n g s) = wqs s"
  "cur_time (upd_sem n g s) = cur_time s" "sems (upd_sem n g s) = (sems s)(n := g (sems s n))"
  "mutexes (upd_sem n g s) = mutexes s" "events (upd_sem n g s) = events s"
  "threads (upd_event e h s) = threads s" "current (upd_event e h s) = current s" "wqs (upd_event e h s) = wqs s"
  "cur_time (upd_event e h s) = cur_time s" "events (upd_event e h s) = (events s)(e := h (events s e))"
  "mutexes (upd_event e h s) = mutexes s" "sems (upd_event e h s) = sems s"
  by (simp_all add: upd_mutex_def upd_sem_def upd_event_def)

lemma holds_lock_upd [simp]:
  "holds_lock b cpu t (upd_mutex m f s) = holds_lock b cpu t s" "holds_lock b cpu t (upd_sem n g s) = holds_lock b cpu t s"
  "holds_lock b cpu t (upd_event e h s) = holds_lock b cpu t s"
  by (rule holds_lock_cong; simp add: upd_mutex_def upd_sem_def upd_event_def)+

lemma abs_upd_obj [simp]:
  "abs_calls (upd_mutex m f s) = abs_calls s" "abs_wqs (upd_mutex m f s) = abs_wqs s"
  "abs_calls (upd_sem n g s) = abs_calls s" "abs_wqs (upd_sem n g s) = abs_wqs s"
  "abs_calls (upd_event e h s) = abs_calls s" "abs_wqs (upd_event e h s) = abs_wqs s"
  "astate_of (upd_mutex m f s) = upd_mut m f (astate_of s)" "astate_of (upd_event e h s) = upd_ev e h (astate_of s)"
  "astate_of (upd_sem n g s) = (astate_of s)\<lparr>a_sem := (sems s)(n := g (sems s n))\<rparr>"
  by (simp_all add: abs_calls_def abs_wqs_def astate_of_def upd_mut_def upd_ev_def)

lemma abs_locked [simp]:
  "abs_calls (locked cpu s) = abs_calls s" "abs_wqs (locked cpu s) = abs_wqs s" "astate_of (locked cpu s') = astate_of s'"
  by (simp_all add: abs_calls_def abs_wqs_def astate_of_def)

section \<open>What an operation does\<close>

text \<open>
  The operation ends with the thread lock free, or in a context switch on \<open>cpu\<close>; the abstract
  machine has moved from \<open>A\<close> by the steps \<open>astep\<close>.
\<close>

definition settles :: "u32 \<Rightarrow> nat \<Rightarrow> astate \<Rightarrow> 'a sync_state_scheme \<Rightarrow> bool" where
  "settles b cpu A s \<longleftrightarrow> (kinv b s \<or> switched_in b cpu s) \<and> unlinked_ok s \<and> astep\<^sup>*\<^sup>* A (astate_of s)"

lemma astate_of_eqI:
  fixes s s' :: "'a sync_state_scheme"
  assumes "kstate.more s' = kstate.more s" "abs_calls s' = c" "abs_wqs s' = q"
  shows "astate_of s' = (astate_of s)\<lparr>a_calls := c, a_wq := q\<rparr>"
  using kstate_more_sync [OF assms(1)] assms by (simp add: astate_of_def)

lemma astate_upd_id [simp]: "(astate_of s)\<lparr>a_calls := c, a_wq := abs_wqs s\<rparr> = (astate_of s)\<lparr>a_calls := c\<rparr>"
  "(astate_of s)\<lparr>a_calls := abs_calls s\<rparr> = astate_of s"
  by (simp_all add: astate_of_def)

lemma end_call_same:
  fixes s :: "'a sync_state_scheme"
  assumes h: "holds_lock b cpu t s"
  shows "\<exists>s'. end_call cpu i r s = Some s' \<and> kinv b s' \<and> unlinked_ok s' \<and> astate_of s' = astate_of s \<and> current s' = current s \<and>
    cur_time s' = cur_time s \<and> threads s' = (threads s)(t := (threads s t)\<lparr>t_cont := K_none, call_ret := r\<rparr>)"
proof -
  note H = holds_lockD [OF h]
  obtain s' where s': "end_call cpu i r s = Some s'" "kinv b s'"
      "threads s' = (threads s)(t := (threads s t)\<lparr>t_cont := K_none, call_ret := r\<rparr>)" "wqs s' = wqs s" "kstate.more s' = kstate.more s"
      "current s' = current s" "cur_time s' = cur_time s"
    using end_call_locked [OF H(1,4)] by blast
  have l: "live s t" using H(6) by (simp add: running_def)
  note E = end_call_abs [OF s'(3,4) l H(5)]
  have "astate_of s' = astate_of s"
    using astate_of_eqI [OF s'(5) E(1,2)] set_cont_running [OF H(6)] by simp
  then show ?thesis using s' E(3) by blast
qed

lemma end_call_sim:
  fixes s :: "'a sync_state_scheme"
  assumes "holds_lock b cpu t s" "astep\<^sup>*\<^sup>* A (astate_of s)"
  shows "\<exists>s'. end_call cpu i r s = Some s' \<and> settles b cpu A s'"
  using end_call_same [OF assms(1), of i r] assms(2) by (auto simp: settles_def)

lemma unlock_sim:
  fixes s :: "'a sync_state_scheme"
  assumes h: "holds_lock b cpu t s" and A: "astep\<^sup>*\<^sup>* A (astate_of s)"
  shows "settles b cpu A (THREAD_UNLOCK cpu i s)"
proof -
  have "kcore b {} {} (THREAD_UNLOCK cpu i s)" using holds_lockD(1) [OF h] kcore_cong [of "THREAD_UNLOCK cpu i s" s b "{}" "{}"]
    by (simp add: THREAD_UNLOCK_def)
  moreover have "astate_of (THREAD_UNLOCK cpu i s) = astate_of s" by (simp add: THREAD_UNLOCK_def astate_of_def abs_calls_def abs_wqs_def)
  ultimately show ?thesis using A holds_lockD(5) [OF h] by (simp add: settles_def kinv_def unlinked_ok_def) (simp add: THREAD_UNLOCK_def)
qed

text \<open>\<open>wait_queue_block\<close>.\<close>

definition may_block :: "u32 \<Rightarrow> nat \<Rightarrow> 'a kstate_scheme \<Rightarrow> bool" where
  "may_block b cpu s \<longleftrightarrow> in_window b (cur_time s + 10) \<and> (\<forall>t. current s cpu = Some t \<longrightarrow> \<not> thread_is_idle (threads s t))"

definition timeout_ok :: "u32 \<Rightarrow> u32 \<Rightarrow> 'a kstate_scheme \<Rightarrow> bool" where
  "timeout_ok b timeout s \<longleftrightarrow> (timeout \<noteq> INFINITE_TIME \<longrightarrow> in_window b (cur_time s + timeout))"

lemma may_block_cong [simp]:
  "may_block b cpu (locked cpu s) = may_block b cpu s" "timeout_ok b tmo (locked cpu s) = timeout_ok b tmo s"
  "may_block b cpu (upd_mutex m f z) = may_block b cpu z" "timeout_ok b tmo (upd_mutex m f z) = timeout_ok b tmo z"
  "may_block b cpu (upd_sem n g z) = may_block b cpu z" "timeout_ok b tmo (upd_sem n g z) = timeout_ok b tmo z"
  "may_block b cpu (upd_event e h z) = may_block b cpu z" "timeout_ok b tmo (upd_event e h z) = timeout_ok b tmo z"
  by (simp_all add: may_block_def timeout_ok_def)

lemma block_now:
  assumes "holds_lock b cpu t s" "abs_wqs s w"
  shows "wait_queue_block c i cpu w 0 s = Some (Some ERR_TIMED_OUT, s)"
  using holds_lockD [OF assms(1)] assms(2) by (simp add: wait_queue_block_def running_def abs_wqs_def)

lemma block_same:
  fixes s :: "'a sync_state_scheme"
  assumes h: "holds_lock b cpu t s" and w: "abs_wqs s w" and m: "may_block b cpu s" "timeout_ok b tmo s" and nz: "tmo \<noteq> 0"
  shows "\<exists>s'. wait_queue_block c i cpu w tmo s = Some (None, s') \<and> switched_in b cpu s' \<and> unlinked_ok s' \<and>
    astate_of s' = (astate_of s)\<lparr>a_calls := block t w (K_wq_block tmo c i) (abs_calls s)\<rparr>"
proof -
  note H = holds_lockD [OF h]
  obtain s' where s': "wait_queue_block c i cpu w tmo s = Some (None, s')" "switched_in b cpu s'"
      "blocked_on (K_wq_block tmo c i) cpu t w s s'"
    using wait_queue_block_ok [OF H(1-4) _ _ nz, of w c i] m w H(4) by (auto simp: may_block_def timeout_ok_def abs_wqs_def)
  note B = blocked_on_abs [OF s'(3) H(6,5)]
  have "kstate.more s' = kstate.more s" using s'(3) by (simp add: blocked_on_def)
  from astate_of_eqI [OF this B(1,2)] show ?thesis using s' B(3) by auto
qed

lemma block_sim:
  fixes s :: "'a sync_state_scheme"
  assumes "holds_lock b cpu t s" "abs_wqs s w" "may_block b cpu s" "timeout_ok b tmo s" "tmo \<noteq> 0"
    "astep\<^sup>*\<^sup>* A ((astate_of s)\<lparr>a_calls := block t w (K_wq_block tmo c i) (abs_calls s)\<rparr>)"
  shows "\<exists>s'. wait_queue_block c i cpu w tmo s = Some (None, s') \<and> settles b cpu A s'"
  using block_same [OF assms(1-5), of c i] assms(6) by (auto simp: settles_def)

text \<open>The waiters of a queue, as the wake operations find them.\<close>

lemma waiters_nil: "holds_lock b cpu t s \<Longrightarrow> waiters w (abs_calls s) = {} \<longleftrightarrow> wq_list (wqs s w) = []"
  by (simp add: waiters_abs [OF holds_lockD(7)])

lemma waiters_blocked: "sched_inv {} s \<Longrightarrow> u \<in> set (wq_list (wqs s w)) \<Longrightarrow> live s u \<and> t_state (threads s u) = THREAD_BLOCKED"
  using sched_invD(6) by blast

lemma wake_none:
  assumes "holds_lock b cpu t s" "abs_wqs s w" "waiters w (abs_calls s) = {}"
  shows "wait_queue_wake_one k cpu w r err s = Some (0, s)" "wait_queue_wake_all k cpu w r err s = Some (0, s)"
  using holds_lockD [OF assms(1)] assms(2,3) waiters_nil [OF assms(1)] wake_all_empty [OF holds_lockD(1-4) [OF assms(1)]]
  by (simp_all add: wait_queue_wake_one_def abs_wqs_def)

lemma woken_sim:
  fixes s :: "'a sync_state_scheme"
  assumes h: "holds_lock b cpu t s" and ts: "set ts \<subseteq> set (wq_list (wqs s w))" and y: "woken ts w err s s'"
    and s': "kcore b {} {} s'" "current s' = current s" "thread_lock s'" "ints_disabled s' cpu"
  shows "holds_lock b cpu t s'" "astate_of s' = (astate_of s)\<lparr>a_calls := wake (set ts) err (abs_calls s)\<rparr>"
proof -
  note H = holds_lockD [OF h]
  have W: "live s u \<and> t_state (threads s u) = THREAD_BLOCKED" if "u \<in> set ts" for u
    using that ts waiters_blocked [OF H(7), of u w] by blast
  note B = woken_abs [OF y W H(5)]
  have "kstate.more s' = kstate.more s" using y by (simp add: woken_def)
  from astate_of_eqI [OF this B(1,2)] show "astate_of s' = (astate_of s)\<lparr>a_calls := wake (set ts) err (abs_calls s)\<rparr>" by simp
  show "holds_lock b cpu t s'" using s' B(3) H(4) by (simp add: holds_lock_def)
qed

lemma wake_one_sim:
  fixes s :: "'a sync_state_scheme"
  assumes h: "holds_lock b cpu t s" and w: "abs_wqs s w" and ne: "waiters w (abs_calls s) \<noteq> {}"
  shows "\<exists>u s'. u \<in> waiters w (abs_calls s) \<and> wait_queue_wake_one k cpu w False err s = Some (1, s') \<and> holds_lock b cpu t s' \<and>
    astate_of s' = (astate_of s)\<lparr>a_calls := wake {u} err (abs_calls s)\<rparr>"
proof -
  note H = holds_lockD [OF h]
  obtain u q where q: "wq_list (wqs s w) = u # q" using ne waiters_nil [OF h] by (cases "wq_list (wqs s w)") auto
  then have "u \<in> waiters w (abs_calls s)" by (simp add: waiters_abs [OF H(7)])
  then show ?thesis using wake_one_ok(2) [OF H(1-4) _ q, of k err] w woken_sim [OF h, of "[u]" w err] q by (auto simp: abs_wqs_def)
qed

lemma wake_one_resched_sim:
  fixes s :: "'a sync_state_scheme"
  assumes h: "holds_lock b cpu t s" and w: "abs_wqs s w" and ne: "waiters w (abs_calls s) \<noteq> {}" and m: "may_block b cpu s"
    and k: "leaves k" "k \<noteq> K_none"
    and A: "\<And>u. u \<in> waiters w (abs_calls s) \<Longrightarrow> astep\<^sup>*\<^sup>* A ((astate_of s)\<lparr>a_calls := set_cont t k (wake {u} err (abs_calls s))\<rparr>)"
  shows "\<exists>s'. wait_queue_wake_one k cpu w True err s = Some (1, s') \<and> settles b cpu A s'"
proof -
  note H = holds_lockD [OF h]
  obtain u q where q: "wq_list (wqs s w) = u # q" using ne waiters_nil [OF h] by (cases "wq_list (wqs s w)") auto
  have u: "u \<in> waiters w (abs_calls s)" using q by (simp add: waiters_abs [OF H(7)])
  have kk: "k \<noteq> K_wq_block x y z" for x y z using k by auto
  obtain s' where s': "wait_queue_wake_one k cpu w True err s = Some (1, s')" "switched_in b cpu s'" "woken_resched k cpu t [u] w err s s'"
    using wake_one_resched_ok [OF H(1-4) _ _ q _ k(2) kk, of err] m w H(4) by (auto simp: may_block_def abs_wqs_def)
  have W: "live s v \<and> t_state (threads s v) = THREAD_BLOCKED" if "v \<in> set [u]" for v
    using that q waiters_blocked [OF H(7), of u w] by simp
  note B = woken_resched_abs [OF s'(3) H(6,5) W]
  have "kstate.more s' = kstate.more s" using s'(3) by (simp add: woken_resched_def)
  from astate_of_eqI [OF this B(1,2)] show ?thesis using s' B(3) A [OF u] by (auto simp: settles_def)
qed

lemma wake_all_sim:
  fixes s :: "'a sync_state_scheme"
  assumes h: "holds_lock b cpu t s" and w: "abs_wqs s w"
  shows "\<exists>n s'. wait_queue_wake_all k cpu w False err s = Some (n, s') \<and> holds_lock b cpu t s' \<and>
    astate_of s' = (astate_of s)\<lparr>a_calls := wake (waiters w (abs_calls s)) err (abs_calls s)\<rparr>"
proof -
  note H = holds_lockD [OF h]
  show ?thesis using wake_all_ok [OF H(1-4), of w k err] w woken_sim [OF h, of "wq_list (wqs s w)" w err] waiters_abs [OF H(7), of w]
    by (auto simp: abs_wqs_def)
qed

lemma wake_all_resched_sim:
  fixes s :: "'a sync_state_scheme"
  assumes h: "holds_lock b cpu t s" and w: "abs_wqs s w" and ne: "waiters w (abs_calls s) \<noteq> {}" and m: "may_block b cpu s"
    and k: "k \<noteq> K_none" "\<And>x y z. k \<noteq> K_wq_block x y z"
    and A: "astep\<^sup>*\<^sup>* A ((astate_of s)\<lparr>a_calls := set_cont t k (wake (waiters w (abs_calls s)) err (abs_calls s))\<rparr>)"
  shows "\<exists>n s'. wait_queue_wake_all k cpu w True err s = Some (n, s') \<and> n > 0 \<and> settles b cpu A s'"
proof -
  note H = holds_lockD [OF h]
  have q: "wq_list (wqs s w) \<noteq> []" using ne waiters_nil [OF h] by simp
  obtain s' where s': "wait_queue_wake_all k cpu w True err s = Some (int (length (wq_list (wqs s w))), s')" "switched_in b cpu s'"
      "woken_resched k cpu t (wq_list (wqs s w)) w err s s'"
    using wake_all_resched_ok [OF H(1-4) _ _ q _ k, of err] m w H(4) by (auto simp: may_block_def abs_wqs_def)
  note B = woken_resched_abs [OF s'(3) H(6,5) waiters_blocked [OF H(7)]]
  have "kstate.more s' = kstate.more s" using s'(3) by (simp add: woken_resched_def)
  from astate_of_eqI [OF this B(1,2)] have "settles b cpu A s'"
    using s' B(3) A by (auto simp: settles_def waiters_abs [OF H(7)])
  then show ?thesis using s' q by auto
qed

text \<open>Initialising and destroying a queue on which nobody waits.\<close>

lemma sched_inv_wq_magic:
  assumes i: "sched_inv {} s" and q: "wq_list (wqs s w) = []" and w: "wqs s' = (wqs s)(w := \<lparr>wq_magic = g, wq_list = [], wq_count = 0\<rparr>)"
    and fr: "threads s' = threads s" "run_queue s' = run_queue s" "run_queue_bitmap s' = run_queue_bitmap s"
  shows "sched_inv {} s'"
proof -
  have "\<exists>v. v \<noteq> w \<and> blocking_wait_queue (threads s t) = Some v \<and> wq_magic (wqs s v) = WAIT_QUEUE_MAGIC"
    if t: "live s t" "t_state (threads s t) = THREAD_BLOCKED" for t
    using sched_invD(6) [OF i, of t w] sched_invD(7) [OF i t(1) _ t(2)] that q by auto
  then have "\<forall>t. live s' t \<longrightarrow> t \<notin> {} \<longrightarrow> t_state (threads s' t) = THREAD_BLOCKED \<longrightarrow>
      (\<exists>v. blocking_wait_queue (threads s' t) = Some v \<and> wq_magic (wqs s' v) = WAIT_QUEUE_MAGIC)"
    unfolding w fr by (metis fun_upd_other)
  then show ?thesis using i q unfolding sched_inv_def fr by (simp add: w) (metis empty_iff list.set(1))
qed

lemma kcore_wq_magic:
  assumes k: "kcore b X Y s" and q: "wq_list (wqs s w) = []"
    and w: "wqs s' = (wqs s)(w := \<lparr>wq_magic = g, wq_list = [], wq_count = 0\<rparr>)"
    and fr: "threads s' = threads s" "run_queue s' = run_queue s" "run_queue_bitmap s' = run_queue_bitmap s"
      "current s' = current s" "timers s' = timers s" "timer_queue s' = timer_queue s"
  shows "kcore b X Y s'"
  using k sched_inv_wq_magic [OF kcoreD(1) [OF k] q w fr(1-3)] kbase_cong [of s' s b X Y] fr by (simp add: kcore_def)

lemma empty_queue:
  assumes "sched_inv {} s" "wq_list (wqs s w) = []"
  shows "(wqs s w)\<lparr>wq_magic := g\<rparr> = \<lparr>wq_magic = g, wq_list = [], wq_count = 0\<rparr>"
  using sched_invD(5) [OF assms(1), of w] assms(2) by simp

lemma holds_lock_destroyed:
  assumes h: "holds_lock b cpu t s" and n: "waiters w (abs_calls s) = {}"
  shows "holds_lock b cpu t (wait_queue_destroy_tail w s)"
proof -
  note H = holds_lockD [OF h]
  have q: "wq_list (wqs s w) = []" using n waiters_nil [OF h] by simp
  have "kcore b {} {} (wait_queue_destroy_tail w s)"
    by (rule kcore_wq_magic [OF H(1) q, where g = 0])
      (simp_all add: wait_queue_destroy_tail_def upd_wq_def empty_queue [OF H(7) q])
  then show ?thesis using H by (simp add: holds_lock_def wait_queue_destroy_tail_def upd_wq_def unlinked_ok_def)
qed

lemma astate_destroyed: "astate_of (wait_queue_destroy_tail w s) = (astate_of s)\<lparr>a_wq := (abs_wqs s)(w := False)\<rparr>"
  by (auto simp: wait_queue_destroy_tail_def upd_wq_def astate_of_def abs_calls_def abs_wqs_def)

lemma destroy_sim:
  fixes s :: "'a sync_state_scheme"
  assumes h: "holds_lock b cpu t s" and w: "abs_wqs s w" and m: "may_block b cpu s"
    and 0: "waiters w (abs_calls s) = {} \<Longrightarrow> astep\<^sup>*\<^sup>* A ((astate_of s)\<lparr>a_wq := (abs_wqs s)(w := False)\<rparr>)"
    and A: "astep\<^sup>*\<^sup>* A ((astate_of s)\<lparr>a_calls := set_cont t (K_wq_destroy w i)
      (wake (waiters w (abs_calls s)) ERR_OBJECT_DESTROYED (abs_calls s))\<rparr>)"
  shows "\<exists>sw s'. wait_queue_destroy i cpu w True s = Some (sw, s') \<and> settles b cpu A (if sw then s' else THREAD_UNLOCK cpu i s')"
proof (cases "waiters w (abs_calls s) = {}")
  case True
  have "settles b cpu A (THREAD_UNLOCK cpu i (wait_queue_destroy_tail w s))"
    by (rule unlock_sim [OF holds_lock_destroyed [OF h True]]) (use 0 True in \<open>simp add: astate_destroyed\<close>)
  then show ?thesis using holds_lockD [OF h] w
    by (intro exI [of _ False] exI [of _ "wait_queue_destroy_tail w s"]) (simp add: wait_queue_destroy_def wake_none [OF h w True] abs_wqs_def)
next
  case False
  obtain n s' where "wait_queue_wake_all (K_wq_destroy w i) cpu w True ERR_OBJECT_DESTROYED s = Some (n, s')" "n > 0" "settles b cpu A s'"
    using wake_all_resched_sim [OF h w False m _ _ A] by blast
  then show ?thesis using holds_lockD(2,3) [OF h] w
    by (intro exI [of _ True] exI [of _ s']) (simp add: wait_queue_destroy_def abs_wqs_def)
qed

lemma init_sim:
  fixes s :: "'a sync_state_scheme"
  assumes k: "kinv b s" "unlinked_ok s" and f: "waiters w (abs_calls s) = {}"
    and A: "astep\<^sup>*\<^sup>* A ((astate_of s)\<lparr>a_wq := (abs_wqs s)(w := True)\<rparr>)"
  shows "settles b cpu A (wait_queue_init w s)"
proof -
  let ?s = "wait_queue_init w s"
  have c: "kcore b {} {} s" using k(1) by (simp add: kinv_def)
  have q: "wq_list (wqs s w) = []" using f waiters_abs [OF kcoreD(1) [OF c], of w] by simp
  have "kcore b {} {} ?s" by (rule kcore_wq_magic [OF c q]) (simp_all add: wait_queue_init_def upd_wq_def)
  moreover have "astate_of ?s = (astate_of s)\<lparr>a_wq := (abs_wqs s)(w := True)\<rparr>"
    by (auto simp: wait_queue_init_def upd_wq_def astate_of_def abs_calls_def abs_wqs_def)
  ultimately show ?thesis using k A by (simp add: settles_def kinv_def) (simp add: wait_queue_init_def upd_wq_def unlinked_ok_def)
qed

end
