(* ===== verification/Sync_Ops.thy ===== *)
theory Sync_Ops
  imports Sync_Refine
begin

text \<open>
  Every operation on mutexes, semaphores and events, called by the current thread of a cpu in a state
  that satisfies the invariant, settles: it runs to its end or to its context switch, and is a step
  of the abstract machine.
\<close>

section \<open>The invariant of the system\<close>

text \<open>The calls of the port layer are not part of the abstract machine.\<close>

definition no_ports :: "(tid \<Rightarrow> acall) \<Rightarrow> bool" where
  "no_ports c \<longleftrightarrow> (\<forall>u p. \<not> in_call (C_port_read p) (c u) \<and> \<not> in_call (C_group_read p) (c u))"

definition sys_inv :: "u32 \<Rightarrow> 'a sync_state_scheme \<Rightarrow> bool" where
  "sys_inv b s \<longleftrightarrow> kinv b s \<and> unlinked_ok s \<and> ainv (astate_of s) \<and> no_ports (abs_calls s)"

lemma sys_invD:
  assumes "sys_inv b s"
  shows "kinv b s" "unlinked_ok s" "ainv (astate_of s)" "no_ports (abs_calls s)" "\<not> thread_lock s" "sched_inv {} s"
  using assms kcoreD(1) by (auto simp: sys_inv_def kinv_def)

lemma sys_enter:
  assumes "sys_inv b s" "current s cpu = Some t"
  shows "THREAD_LOCK cpu s = Some (ints_disabled s cpu, locked cpu s)" "holds_lock b cpu t (locked cpu s)" "idle_call (abs_calls s t)"
  using THREAD_LOCK_kinv [OF sys_invD(1) [OF assms(1)]] holds_lock_enter [OF sys_invD(1,2) [OF assms(1)] assms(2)]
    running_idle [OF running_current [OF sys_invD(1) [OF assms(1)] assms(2)]] by auto

lemma astate_upd_comm:
  "(upd_mut m f A)\<lparr>a_calls := c\<rparr> = upd_mut m f (A\<lparr>a_calls := c\<rparr>)" "(upd_mut m f A)\<lparr>a_wq := q\<rparr> = upd_mut m f (A\<lparr>a_wq := q\<rparr>)"
  "(upd_ev e h A)\<lparr>a_calls := c\<rparr> = upd_ev e h (A\<lparr>a_calls := c\<rparr>)" "(upd_ev e h A)\<lparr>a_wq := q\<rparr> = upd_ev e h (A\<lparr>a_wq := q\<rparr>)"
  "upd_mut m f (upd_mut m g A) = upd_mut m (\<lambda>x. f (g x)) A" "upd_ev e h (upd_ev e i A) = upd_ev e (\<lambda>x. h (i x)) A"
  by (simp_all add: upd_mut_def upd_ev_def)

lemma astate_obj_id [simp]: "(astate_of s)\<lparr>a_mut := mutexes s\<rparr> = astate_of s" "(astate_of s)\<lparr>a_sem := sems s\<rparr> = astate_of s"
  "(astate_of s)\<lparr>a_ev := events s\<rparr> = astate_of s"
  by (simp_all add: astate_of_def)

lemma astep_one: "thread_astep A B \<Longrightarrow> astep\<^sup>*\<^sup>* A B" "mutex_astep A B \<Longrightarrow> astep\<^sup>*\<^sup>* A B"
  "sem_astep A B \<Longrightarrow> astep\<^sup>*\<^sup>* A B" "event_astep A B \<Longrightarrow> astep\<^sup>*\<^sup>* A B"
  by (auto simp: astep_def)

lemma fresh_no_waiters:
  assumes "acalls_ok A" "fresh_object w (a_calls A)"
  shows "waiters w (a_calls A) = {}"
proof -
  have "\<not> waits_on w (a_calls A u)" for u
  proof
    assume u: "waits_on w (a_calls A u)"
    then have "call_wq (a_cont (a_calls A u)) = Some w" using waits_onD(2) [OF assms(1)] by blast
    then obtain c where "call_of (a_cont (a_calls A u)) = Some c" "wq_of c = w"
      by (auto simp: call_wq_def call_of_def split: cont.splits)
    then show False using assms(2) u by (auto simp: fresh_object_def in_call_def waits_on_def)
  qed
  then show ?thesis by (simp add: waiters_def)
qed

lemma set_cont_woken: "idle_call (c t) \<Longrightarrow> set_cont t K_none (wake T err c) = wake T err c"
  by (auto simp: set_cont_def wake_def idle_call_def fun_eq_iff)

section \<open>Mutexes\<close>

lemma mutex_open:
  assumes "sys_inv b s" "m_magic (mutexes s m) = MUTEX_MAGIC"
  shows "abs_wqs s (WQ_mutex m)"
  using ainvD(4) [OF sys_invD(3) [OF assms(1)], of m] assms(2) by (simp add: mutex_inv_def w_open_def)

lemma mutex_init_sim:
  assumes inv: "sys_inv b s" and f: "fresh_object (WQ_mutex m) (abs_calls s)"
  shows "settles b cpu (astate_of s) (mutex_init m s)"
proof -
  let ?s = "upd_mutex m (\<lambda>_. \<lparr>m_magic = MUTEX_MAGIC, holder = None, m_count = 0\<rparr>) s"
  have k: "kinv b ?s" using sys_invD(1) [OF inv] kcore_cong [of ?s s b "{}" "{}"] by (simp add: kinv_def upd_mutex_def)
  have "waiters (WQ_mutex m) (abs_calls s) = {}"
    using fresh_no_waiters [OF ainvD(1) [OF sys_invD(3) [OF inv]]] f by simp
  then show ?thesis using k sys_invD(2) [OF inv] astep_one(2) [OF mutex_astep.m_init [of m "astate_of s"]] f unfolding mutex_init_def
    by (intro init_sim) (simp_all add: unlinked_ok_def astate_upd_comm)
qed

lemma mutex_acquire_sim:
  assumes inv: "sys_inv b s" and cur: "current s cpu = Some t" and m: "m_magic (mutexes s m) = MUTEX_MAGIC" "holder (mutexes s m) \<noteq> Some t"
    and ok: "may_block b cpu s" "timeout_ok b tmo s"
  shows "\<exists>s'. mutex_acquire_timeout cpu m tmo s = Some s' \<and> settles b cpu (astate_of s) s'"
proof -
  note E = sys_enter [OF inv cur]
  define s2 where "s2 = upd_mutex m (\<lambda>x. x\<lparr>m_count := m_count x + 1\<rparr>) (locked cpu s)"
  have h: "holds_lock b cpu t s2" "current s2 cpu = Some t" using E(2) cur by (simp_all add: s2_def)
  have w: "abs_wqs s2 (WQ_mutex m)" using mutex_open [OF inv m(1)] by (simp add: s2_def)
  have start: "mutex_acquire_timeout cpu m tmo s =
      (if m_count (mutexes s m) + 1 > 1 then do {
         (r, s3) \<leftarrow> wait_queue_block (C_mutex m) (ints_disabled s cpu) cpu (WQ_mutex m) tmo s2;
         case r of None \<Rightarrow> Some s3 | Some ret \<Rightarrow> mutex_acquire_tail cpu m (ints_disabled s cpu) ret s3 }
       else mutex_acquire_tail cpu m (ints_disabled s cpu) NO_ERROR s2)"
    using E(1) cur m by (simp add: mutex_acquire_timeout_def s2_def Let_def)
  consider "m_count (mutexes s m) < 1" | "m_count (mutexes s m) \<ge> 1" "tmo = 0" | "m_count (mutexes s m) \<ge> 1" "tmo \<noteq> 0" by linarith
  then show ?thesis
  proof cases
    case 1
    have "\<exists>s'. end_call cpu (ints_disabled s cpu) NO_ERROR (upd_mutex m (\<lambda>x. x\<lparr>holder := Some t\<rparr>) s2) = Some s' \<and> settles b cpu (astate_of s) s'"
      by (rule end_call_sim [where t = t]) (use h astep_one(2) [OF mutex_astep.m_acquire [of "astate_of s" t m]] E m 1 in
        \<open>simp_all add: s2_def astate_upd_comm\<close>)
    then show ?thesis using 1 h by (simp add: start mutex_acquire_tail_def)
  next
    case 2
    have "\<exists>s'. end_call cpu (ints_disabled s cpu) ERR_TIMED_OUT (upd_mutex m (\<lambda>x. x\<lparr>m_count := m_count x - 1\<rparr>) s2) = Some s' \<and>
        settles b cpu (astate_of s) s'"
      by (rule end_call_sim [where t = t]) (use h in \<open>simp_all add: s2_def astate_upd_comm\<close>, simp add: upd_mut_def)
    then show ?thesis unfolding start using 2 block_now [OF h(1) w] by (simp add: mutex_acquire_tail_def)
  next
    case 3
    have "\<exists>s'. wait_queue_block (C_mutex m) (ints_disabled s cpu) cpu (WQ_mutex m) tmo s2 = Some (None, s') \<and> settles b cpu (astate_of s) s'"
      by (rule block_sim [OF h(1) w]) (use ok 3 E m astep_one(2) [OF mutex_astep.m_block [of "astate_of s" t m]] in
        \<open>simp_all add: s2_def astate_upd_comm\<close>)
    then show ?thesis using 3 by (auto simp: start)
  qed
qed

lemma mutex_release_sim:
  assumes inv: "sys_inv b s" and cur: "current s cpu = Some t" and m: "m_magic (mutexes s m) = MUTEX_MAGIC" "holder (mutexes s m) = Some t"
    and ok: "may_block b cpu s"
  shows "\<exists>s'. mutex_release cpu m s = Some s' \<and> settles b cpu (astate_of s) s'"
proof -
  note E = sys_enter [OF inv cur]
  define s2 where "s2 = upd_mutex m (\<lambda>x. x\<lparr>holder := None, m_count := m_count x - 1\<rparr>) (locked cpu s)"
  have h: "holds_lock b cpu t s2" using E(2) by (simp add: s2_def)
  have w: "abs_wqs s2 (WQ_mutex m)" using mutex_open [OF inv m(1)] by (simp add: s2_def)
  have start: "mutex_release cpu m s =
      (if m_count (mutexes s m) - 1 \<ge> 1 then do {
         (n, s3) \<leftarrow> wait_queue_wake_one (K_return (ints_disabled s cpu) NO_ERROR) cpu (WQ_mutex m) True NO_ERROR s2;
         if n > 0 then Some s3 else end_call cpu (ints_disabled s cpu) NO_ERROR s3 }
       else end_call cpu (ints_disabled s cpu) NO_ERROR s2)"
    using E(1) cur m by (simp add: mutex_release_def s2_def Let_def)
  consider "m_count (mutexes s m) - 1 < 1 \<or> waiters (WQ_mutex m) (abs_calls s) = {}" | "m_count (mutexes s m) - 1 \<ge> 1" "waiters (WQ_mutex m) (abs_calls s) \<noteq> {}"
    by linarith
  then show ?thesis
  proof cases
    case 1
    have "\<exists>s'. end_call cpu (ints_disabled s cpu) NO_ERROR s2 = Some s' \<and> settles b cpu (astate_of s) s'"
      by (rule end_call_sim [OF h]) (use astep_one(2) [OF mutex_astep.m_release [of "astate_of s" t m]] E m 1 in
        \<open>simp add: s2_def\<close>)
    then show ?thesis using 1 wake_none(1) [OF h w] by (auto simp: start s2_def)
  next
    case 2
    have "\<exists>s'. wait_queue_wake_one (K_return (ints_disabled s cpu) NO_ERROR) cpu (WQ_mutex m) True NO_ERROR s2 = Some (1, s') \<and>
        settles b cpu (astate_of s) s'"
      by (rule wake_one_resched_sim [OF h w]) (use ok 2 E m astep_one(2) [OF mutex_astep.m_release_wake [of "astate_of s" t m]] in
        \<open>simp_all add: s2_def astate_upd_comm leaves_def\<close>)
    then show ?thesis using 2 by (auto simp: start)
  qed
qed

lemma mutex_destroy_sim:
  assumes inv: "sys_inv b s" and cur: "current s cpu = Some t" and m: "m_magic (mutexes s m) = MUTEX_MAGIC"
      "holder (mutexes s m) = None \<or> holder (mutexes s m) = Some t"
    and ok: "may_block b cpu s"
  shows "\<exists>s'. mutex_destroy cpu m s = Some s' \<and> settles b cpu (astate_of s) s'"
proof -
  note E = sys_enter [OF inv cur]
  define s2 where "s2 = upd_mutex m (\<lambda>x. x\<lparr>m_magic := 0, m_count := 0\<rparr>) (locked cpu s)"
  have h: "holds_lock b cpu t s2" using E(2) by (simp add: s2_def)
  have w: "abs_wqs s2 (WQ_mutex m)" using mutex_open [OF inv m(1)] by (simp add: s2_def)
  have "\<exists>sw s'. wait_queue_destroy (ints_disabled s cpu) cpu (WQ_mutex m) True s2 = Some (sw, s') \<and>
      settles b cpu (astate_of s) (if sw then s' else THREAD_UNLOCK cpu (ints_disabled s cpu) s')"
    by (rule destroy_sim [OF h w]) (use ok E m astep_one(2) [OF mutex_astep.m_destroy [of "astate_of s" t m]]
      astep_one(2) [OF mutex_astep.m_destroy_wake [of "astate_of s" t m]] in \<open>simp_all add: s2_def astate_upd_comm\<close>)
  then show ?thesis using E(1) cur m by (auto simp: mutex_destroy_def s2_def Let_def)
qed

section \<open>Semaphores\<close>

text \<open>A semaphore whose queue is initialised and not being destroyed.\<close>

definition sem_live :: "nat \<Rightarrow> 'a sync_state_scheme \<Rightarrow> bool" where
  "sem_live n s \<longleftrightarrow> w_open (WQ_sem n) (abs_wqs s) (abs_calls s)"

lemma upd_asem_comm:
  "(upd_asem n d A)\<lparr>a_calls := c\<rparr> = upd_asem n d (A\<lparr>a_calls := c\<rparr>)" "(upd_asem n d A)\<lparr>a_wq := q\<rparr> = upd_asem n d (A\<lparr>a_wq := q\<rparr>)"
  by (simp_all add: upd_asem_def)

definition sem_add :: "nat \<Rightarrow> int \<Rightarrow> 'a sync_state_scheme \<Rightarrow> 'a sync_state_scheme" where
  "sem_add n d = upd_sem n (\<lambda>x. x\<lparr>sem_count := int32 (sem_count x + d)\<rparr>)"

lemma sem_add_simps [simp]:
  "astate_of (sem_add n d s) = upd_asem n d (astate_of s)" "holds_lock b cpu t (sem_add n d s) = holds_lock b cpu t s"
  "abs_calls (sem_add n d s) = abs_calls s" "abs_wqs (sem_add n d s) = abs_wqs s" "may_block b cpu (sem_add n d s) = may_block b cpu s"
  "timeout_ok b tmo (sem_add n d s) = timeout_ok b tmo s" "sem_count (sems (sem_add n d s) n) = int32 (sem_count (sems s n) + d)"
  by (simp_all add: sem_add_def upd_asem_def)

lemma upd_sem_add:
  "upd_sem n (\<lambda>x. x\<lparr>sem_count := int32 (sem_count x + 1)\<rparr>) = sem_add n 1"
  "upd_sem n (\<lambda>x. x\<lparr>sem_count := int32 (sem_count x - 1)\<rparr>) = sem_add n (- 1)"
  by (simp_all add: sem_add_def)

lemma upd_asem_inverse:
  assumes "- (2 ^ 31) \<le> sem_count (a_sem A n)" "sem_count (a_sem A n) < 2 ^ 31"
  shows "upd_asem n 1 (upd_asem n (- 1) A) = A"
proof -
  have "int32 (int32 (x - 1) + 1) = int32 x" for x by (simp add: int32_def mod_simps add.commute)
  then show ?thesis using int32_id [OF assms] by (simp add: upd_asem_def)
qed

text \<open>
  The count of a live semaphore has room for another waiter; its count and its claims together have
  room for another post.
\<close>

definition sem_wait_room :: "nat \<Rightarrow> 'a sync_state_scheme \<Rightarrow> bool" where
  "sem_wait_room n s \<longleftrightarrow> - (2 ^ 31) < sem_count (sems s n)"

definition sem_post_room :: "nat \<Rightarrow> 'a sync_state_scheme \<Rightarrow> bool" where
  "sem_post_room n s \<longleftrightarrow> sem_count (sems s n) + int (card (sem_claims (pend (WQ_sem n) (abs_calls s)))) < 2 ^ 31 - 1"

lemma sem_range:
  assumes "sys_inv b s" "sem_live n s"
  shows "- (2 ^ 31) \<le> sem_count (sems s n)" "sem_count (sems s n) < 2 ^ 31"
proof -
  have "sem_ok (sems s n) (pend (WQ_sem n) (abs_calls s))"
    using ainvD(5) [OF sys_invD(3) [OF assms(1)], of n] assms(2) by (simp add: sem_inv_def sem_live_def)
  then show "- (2 ^ 31) \<le> sem_count (sems s n)" "sem_count (sems s n) < 2 ^ 31" using sem_ok_range by blast+
qed

lemma sem_init_sim:
  assumes inv: "sys_inv b s" and f: "fresh_object (WQ_sem n) (abs_calls s)" and v: "unat v < 2 ^ 31"
  shows "settles b cpu (astate_of s) (sem_init n v s)"
proof -
  let ?s = "upd_sem n (\<lambda>_. \<lparr>sem_magic = SEMAPHORE_MAGIC, sem_count = int32 (uint v)\<rparr>) s"
  have "uint v < 2 ^ 31" using v of_nat_less_iff [of "unat v" "2 ^ 31", where 'a = int] by simp
  moreover have "- (2 ^ 31) \<le> uint v" by (rule order_trans [OF _ uint_ge_0]) simp
  ultimately have v: "int32 (uint v) = uint v" "0 \<le> uint v" "uint v < 2 ^ 31" by (simp_all add: int32_id)
  have k: "kinv b ?s" using sys_invD(1) [OF inv] kcore_cong [of ?s s b "{}" "{}"] by (simp add: kinv_def upd_sem_def)
  have "waiters (WQ_sem n) (abs_calls s) = {}"
    using fresh_no_waiters [OF ainvD(1) [OF sys_invD(3) [OF inv]]] f by simp
  then show ?thesis using k sys_invD(2) [OF inv] astep_one(3) [OF sem_astep.s_init [of n "astate_of s" "uint v"]] f v unfolding sem_init_def
    by (intro init_sim) (simp_all add: unlinked_ok_def)
qed

text \<open>The common beginning of \<open>sem_wait\<close> and \<open>sem_timedwait\<close>.\<close>

lemma sem_wait_sim:
  assumes inv: "sys_inv b s" and cur: "current s cpu = Some t" and n: "sem_live n s" "sem_wait_room n s" and ok: "may_block b cpu s" "timeout_ok b tmo s"
    and c: "c = C_sem_wait n \<and> tmo = INFINITE_TIME \<or> c = C_sem_timedwait n"
    and tail: "\<And>s'. tail NO_ERROR s' = end_call cpu (ints_disabled s cpu) NO_ERROR s'"
      "\<And>s'. tmo = 0 \<Longrightarrow> tail ERR_TIMED_OUT s' = end_call cpu (ints_disabled s cpu) ERR_TIMED_OUT (sem_add n 1 s')"
    and s2_def: "s2 = sem_add n (- 1) (locked cpu s)"
  shows "\<exists>s'. (if int32 (sem_count (sems s n) - 1) < 0 then do {
       (r, s3) \<leftarrow> wait_queue_block c (ints_disabled s cpu) cpu (WQ_sem n) tmo s2;
       case r of None \<Rightarrow> Some s3 | Some ret \<Rightarrow> tail ret s3 }
     else tail NO_ERROR s2) = Some s' \<and> settles b cpu (astate_of s) s'"
proof -
  note E = sys_enter [OF inv cur]
  have h: "holds_lock b cpu t s2" using E(2) by (simp add: s2_def)
  have w: "abs_wqs s2 (WQ_sem n)" using n by (simp add: s2_def sem_live_def w_open_def)
  note R = sem_range [OF inv n(1)]
  have i: "int32 (sem_count (sems s n) - 1) = sem_count (sems s n) - 1" using R n(2) by (intro int32_id) (simp_all add: sem_wait_room_def)
  consider "sem_count (sems s n) \<ge> 1" | "sem_count (sems s n) < 1" "tmo = 0" | "sem_count (sems s n) < 1" "tmo \<noteq> 0" by linarith
  then show ?thesis
  proof cases
    case 1
    have "\<exists>s'. end_call cpu (ints_disabled s cpu) NO_ERROR s2 = Some s' \<and> settles b cpu (astate_of s) s'"
      by (rule end_call_sim [OF h]) (use astep_one(3) [OF sem_astep.s_take [of "astate_of s" t n]] E n 1 in
        \<open>simp add: s2_def sem_live_def\<close>)
    then show ?thesis using 1 by (simp add: tail i)
  next
    case 2
    have "\<exists>s'. end_call cpu (ints_disabled s cpu) ERR_TIMED_OUT (sem_add n 1 s2) = Some s' \<and> settles b cpu (astate_of s) s'"
      by (rule end_call_sim [where t = t]) (use h R in \<open>simp_all add: s2_def upd_asem_inverse\<close>)
    then show ?thesis using 2 block_now [OF h w] tail(2) by (simp add: i)
  next
    case 3
    have "\<exists>s'. wait_queue_block c (ints_disabled s cpu) cpu (WQ_sem n) tmo s2 = Some (None, s') \<and> settles b cpu (astate_of s) s'"
      by (rule block_sim [OF h w]) (use ok 3 E n c astep_one(3) [OF sem_astep.s_block [of "astate_of s" t n c tmo]] in
        \<open>simp_all add: s2_def sem_live_def sem_wait_room_def upd_asem_comm\<close>)
    then show ?thesis using 3 by (auto simp: i)
  qed
qed

lemma sem_wait_settles:
  assumes "sys_inv b s" "current s cpu = Some t" "sem_live n s" "sem_wait_room n s" "may_block b cpu s"
  shows "\<exists>s'. sem_wait cpu n s = Some s' \<and> settles b cpu (astate_of s) s'"
  using sem_wait_sim [OF assms, of INFINITE_TIME "C_sem_wait n" "end_call cpu (ints_disabled s cpu)" "sem_add n (- 1) (locked cpu s)"]
    sys_enter(1) [OF assms(1,2)] by (simp add: sem_wait_def timeout_ok_def upd_sem_add Let_def)

lemma sem_timedwait_settles:
  assumes "sys_inv b s" "current s cpu = Some t" "sem_live n s" "sem_wait_room n s" "may_block b cpu s" "timeout_ok b tmo s"
  shows "\<exists>s'. sem_timedwait cpu n tmo s = Some s' \<and> settles b cpu (astate_of s) s'"
  using sem_wait_sim [OF assms, of "C_sem_timedwait n" "sem_timedwait_tail cpu n (ints_disabled s cpu)" "sem_add n (- 1) (locked cpu s)"]
    sys_enter(1) [OF assms(1,2)] by (simp add: sem_timedwait_def sem_timedwait_tail_def upd_sem_add Let_def)

lemma sem_trywait_sim:
  assumes inv: "sys_inv b s" and cur: "current s cpu = Some t" and n: "sem_live n s"
  shows "\<exists>s'. sem_trywait cpu n s = Some s' \<and> settles b cpu (astate_of s) s'"
proof -
  note E = sys_enter [OF inv cur]
  have 1: "\<exists>s'. end_call cpu (ints_disabled s cpu) ERR_NOT_READY (locked cpu s) = Some s' \<and> settles b cpu (astate_of s) s'"
    by (rule end_call_sim [OF E(2)]) simp
  have 2: "\<exists>s'. end_call cpu (ints_disabled s cpu) NO_ERROR (sem_add n (- 1) (locked cpu s)) = Some s' \<and> settles b cpu (astate_of s) s'"
    if "sem_count (sems s n) > 0"
    by (rule end_call_sim [where t = t]) (use that E n astep_one(3) [OF sem_astep.s_take [of "astate_of s" t n]] in
      \<open>simp_all add: sem_live_def\<close>)
  show ?thesis using E(1) 1 2 by (auto simp: sem_trywait_def upd_sem_add not_le)
qed

lemma sem_post_sim:
  assumes inv: "sys_inv b s" and cur: "current s cpu = Some t" and n: "sem_live n s" "sem_post_room n s" and ok: "resched \<Longrightarrow> may_block b cpu s"
  shows "\<exists>s'. sem_post cpu n resched s = Some s' \<and> settles b cpu (astate_of s) s'"
proof -
  note E = sys_enter [OF inv cur]
  define s2 where "s2 = sem_add n 1 (locked cpu s)"
  have h: "holds_lock b cpu t s2" using E(2) by (simp add: s2_def)
  have w: "abs_wqs s2 (WQ_sem n)" using n by (simp add: s2_def sem_live_def w_open_def)
  have start: "sem_post cpu n resched s = (if int32 (sem_count (sems s n) + 1) \<le> 0 then do {
       (ret, s3) \<leftarrow> wait_queue_wake_one (K_return (ints_disabled s cpu) 1) cpu (WQ_sem n) resched NO_ERROR s2;
       if resched \<and> ret > 0 then Some s3 else end_call cpu (ints_disabled s cpu) ret s3 }
     else end_call cpu (ints_disabled s cpu) 0 s2)"
    using E(1) by (simp add: sem_post_def s2_def upd_sem_add Let_def)
  have i: "int32 (sem_count (sems s n) + 1) = sem_count (sems s n) + 1"
    using sem_range [OF inv n(1)] n(2) by (intro int32_id) (simp_all add: sem_post_room_def)
  have quiet: "\<exists>s'. end_call cpu (ints_disabled s cpu) 0 s2 = Some s' \<and> settles b cpu (astate_of s) s'"
    if "sem_count (sems s n) \<ge> 0 \<or> waiters (WQ_sem n) (abs_calls s) = {}"
    by (rule end_call_sim [OF h]) (use that E n astep_one(3) [OF sem_astep.s_post [of "astate_of s" t n]] in
      \<open>simp add: s2_def sem_live_def sem_post_room_def tokens_def\<close>)
  consider "sem_count (sems s n) \<ge> 0 \<or> waiters (WQ_sem n) (abs_calls s) = {}" |
      "sem_count (sems s n) < 0" "waiters (WQ_sem n) (abs_calls s) \<noteq> {}" by linarith
  then show ?thesis
  proof cases
    case 1
    then show ?thesis using quiet [OF 1] wake_none(1) [OF h w] unfolding start by (auto simp: s2_def i)
  next
    case 2
    then have ne: "waiters (WQ_sem n) (abs_calls s2) \<noteq> {}" by (simp add: s2_def)
    have st: "astep\<^sup>*\<^sup>* (astate_of s) (upd_asem n 1 ((astate_of s)\<lparr>a_calls := set_cont t k (wake {u} NO_ERROR (abs_calls s))\<rparr>))"
      if "u \<in> waiters (WQ_sem n) (abs_calls s)" "leaves k" for u k
      using that 2 E n astep_one(3) [OF sem_astep.s_post_wake [of "astate_of s" t n u k]] by (simp add: sem_live_def)
    show ?thesis
    proof (cases resched)
      case True
      have "\<exists>s'. wait_queue_wake_one (K_return (ints_disabled s cpu) 1) cpu (WQ_sem n) True NO_ERROR s2 = Some (1, s') \<and> settles b cpu (astate_of s) s'"
        by (rule wake_one_resched_sim [OF h w ne]) (use True ok st in \<open>simp_all add: s2_def upd_asem_comm leaves_def\<close>)
      then show ?thesis unfolding start using 2 True by (auto simp: i)
    next
      case False
      obtain u s3 where u: "u \<in> waiters (WQ_sem n) (abs_calls s2)" "wait_queue_wake_one (K_return (ints_disabled s cpu) 1) cpu (WQ_sem n) False NO_ERROR s2 = Some (1, s3)"
          "holds_lock b cpu t s3" "astate_of s3 = (astate_of s2)\<lparr>a_calls := wake {u} NO_ERROR (abs_calls s2)\<rparr>"
        using wake_one_sim [OF h w ne] by blast
      have "astep\<^sup>*\<^sup>* (astate_of s) (astate_of s3)" using st [of u K_none] u set_cont_woken [of "abs_calls s" t] E(3) by (simp add: s2_def upd_asem_comm)
      from end_call_sim [OF u(3) this] show ?thesis unfolding start using 2 False u(2) by (simp add: i)
    qed
  qed
qed

lemma sem_destroy_sim:
  assumes inv: "sys_inv b s" and cur: "current s cpu = Some t" and n: "sem_live n s" and ok: "may_block b cpu s"
  shows "\<exists>s'. sem_destroy cpu n s = Some s' \<and> settles b cpu (astate_of s) s'"
proof -
  note E = sys_enter [OF inv cur]
  define s2 where "s2 = upd_sem n (\<lambda>x. x\<lparr>sem_count := 0\<rparr>) (locked cpu s)"
  have h: "holds_lock b cpu t s2" using E(2) by (simp add: s2_def)
  have w: "abs_wqs s2 (WQ_sem n)" using n by (simp add: s2_def sem_live_def w_open_def)
  have "\<exists>sw s'. wait_queue_destroy (ints_disabled s cpu) cpu (WQ_sem n) True s2 = Some (sw, s') \<and>
      settles b cpu (astate_of s) (if sw then s' else THREAD_UNLOCK cpu (ints_disabled s cpu) s')"
    by (rule destroy_sim [OF h w]) (use ok E n astep_one(3) [OF sem_astep.s_destroy [of "astate_of s" t n]]
      astep_one(3) [OF sem_astep.s_destroy_wake [of "astate_of s" t n]] in \<open>simp_all add: s2_def sem_live_def\<close>)
  then show ?thesis using E(1) by (auto simp: sem_destroy_def s2_def)
qed

section \<open>Events\<close>

lemma event_open:
  assumes "sys_inv b s" "e_magic (events s e) = EVENT_MAGIC"
  shows "abs_wqs s (WQ_event e)"
  using ainvD(6) [OF sys_invD(3) [OF assms(1)], of e] assms(2) by (simp add: event_inv_def w_open_def)

lemma event_init_sim:
  assumes inv: "sys_inv b s" and f: "fresh_object (WQ_event e) (abs_calls s)"
  shows "settles b cpu (astate_of s) (event_init e initial fl s)"
proof -
  let ?s = "upd_event e (\<lambda>_. \<lparr>e_magic = EVENT_MAGIC, signaled = initial, e_flags = fl\<rparr>) s"
  have k: "kinv b ?s" using sys_invD(1) [OF inv] kcore_cong [of ?s s b "{}" "{}"] by (simp add: kinv_def upd_event_def)
  have "waiters (WQ_event e) (abs_calls s) = {}"
    using fresh_no_waiters [OF ainvD(1) [OF sys_invD(3) [OF inv]]] f by simp
  then show ?thesis using k sys_invD(2) [OF inv] astep_one(4) [OF event_astep.e_init [of e "astate_of s" initial fl]] f unfolding event_init_def
    by (intro init_sim) (simp_all add: unlinked_ok_def astate_upd_comm)
qed

lemma event_wait_sim:
  assumes inv: "sys_inv b s" and cur: "current s cpu = Some t" and e: "e_magic (events s e) = EVENT_MAGIC"
    and ok: "may_block b cpu s" "timeout_ok b tmo s"
  shows "\<exists>s'. event_wait_timeout cpu e tmo s = Some s' \<and> settles b cpu (astate_of s) s'"
proof -
  note E = sys_enter [OF inv cur]
  have w: "abs_wqs (locked cpu s) (WQ_event e)" using event_open [OF inv e] by simp
  consider "signaled (events s e)" | "\<not> signaled (events s e)" "tmo = 0" | "\<not> signaled (events s e)" "tmo \<noteq> 0" by blast
  then show ?thesis
  proof cases
    case 1
    define s2 where "s2 = (if e_flags (events s e) AND EVENT_FLAG_AUTOUNSIGNAL \<noteq> 0
        then upd_event e (\<lambda>x. x\<lparr>signaled := False\<rparr>) (locked cpu s) else locked cpu s)"
    have "astate_of s2 = upd_ev e (\<lambda>x. if e_flags x AND EVENT_FLAG_AUTOUNSIGNAL \<noteq> 0 then x\<lparr>signaled := False\<rparr> else x) (astate_of s)"
      by (simp add: s2_def upd_ev_def)
    then have "astep\<^sup>*\<^sup>* (astate_of s) (astate_of s2)"
      using astep_one(4) [OF event_astep.e_pass [of "astate_of s" t e]] E(3) e 1 by simp
    moreover have "holds_lock b cpu t s2" using E(2) by (simp add: s2_def)
    ultimately show ?thesis using end_call_sim [of b cpu t s2 "astate_of s" "ints_disabled s cpu" NO_ERROR] E(1) e 1
      by (simp add: event_wait_timeout_def s2_def)
  next
    case 2
    then show ?thesis using E(1) e block_now [OF E(2) w] end_call_sim [OF E(2), of "astate_of s" "ints_disabled s cpu" ERR_TIMED_OUT]
      by (simp add: event_wait_timeout_def)
  next
    case 3
    have "\<exists>s'. wait_queue_block (C_event e) (ints_disabled s cpu) cpu (WQ_event e) tmo (locked cpu s) = Some (None, s') \<and> settles b cpu (astate_of s) s'"
      by (rule block_sim [OF E(2) w]) (use ok 3 E e astep_one(4) [OF event_astep.e_block [of "astate_of s" t e]] in simp_all)
    then show ?thesis using E(1) e 3 by (auto simp: event_wait_timeout_def)
  qed
qed

lemma event_destroy_sim:
  assumes inv: "sys_inv b s" and cur: "current s cpu = Some t" and e: "e_magic (events s e) = EVENT_MAGIC" and ok: "may_block b cpu s"
  shows "\<exists>s'. event_destroy cpu e s = Some s' \<and> settles b cpu (astate_of s) s'"
proof -
  note E = sys_enter [OF inv cur]
  define s2 where "s2 = upd_event e (\<lambda>_. \<lparr>e_magic = 0, signaled = False, e_flags = 0\<rparr>) (locked cpu s)"
  have h: "holds_lock b cpu t s2" using E(2) by (simp add: s2_def)
  have w: "abs_wqs s2 (WQ_event e)" using event_open [OF inv e] by (simp add: s2_def)
  have "\<exists>sw s'. wait_queue_destroy (ints_disabled s cpu) cpu (WQ_event e) True s2 = Some (sw, s') \<and>
      settles b cpu (astate_of s) (if sw then s' else THREAD_UNLOCK cpu (ints_disabled s cpu) s')"
    by (rule destroy_sim [OF h w]) (use ok E e astep_one(4) [OF event_astep.e_destroy [of "astate_of s" t e]]
      astep_one(4) [OF event_astep.e_destroy_wake [of "astate_of s" t e]] in \<open>simp_all add: s2_def astate_upd_comm\<close>)
  then show ?thesis using E(1) e by (auto simp: event_destroy_def s2_def Let_def)
qed

lemma event_unsignal_sim:
  assumes inv: "sys_inv b s" and e: "e_magic (events s e) = EVENT_MAGIC"
  shows "\<exists>s'. event_unsignal e s = Some s' \<and> settles b cpu (astate_of s) s'"
proof -
  let ?s = "upd_event e (\<lambda>x. x\<lparr>signaled := False\<rparr>) s"
  have "kinv b ?s" using sys_invD(1) [OF inv] kcore_cong [of ?s s b "{}" "{}"] by (simp add: kinv_def upd_event_def)
  moreover have "unlinked_ok ?s" using sys_invD(2) [OF inv] by (simp add: unlinked_ok_def)
  moreover have "astep\<^sup>*\<^sup>* (astate_of s) (astate_of ?s)" using astep_one(4) [OF event_astep.e_unsignal [of "astate_of s" e]] e by simp
  ultimately show ?thesis using e by (simp add: event_unsignal_def settles_def)
qed

text \<open>\<open>event_signal\<close> on an event that is not signalled: the auto-unsignalling event, and the other.\<close>

lemma event_signal_one_sim:
  assumes inv: "sys_inv b s" and cur: "current s cpu = Some t" and e: "e_magic (events s e) = EVENT_MAGIC"
    and ns: "\<not> signaled (events s e)" and auto: "e_flags (events s e) AND EVENT_FLAG_AUTOUNSIGNAL \<noteq> 0" and ok: "r \<Longrightarrow> may_block b cpu s"
  shows "\<exists>s'. event_signal cpu e r s = Some s' \<and> settles b cpu (astate_of s) s'"
proof -
  note E = sys_enter [OF inv cur]
  define i where "i = ints_disabled s cpu"
  have w: "abs_wqs (locked cpu s) (WQ_event e)" using event_open [OF inv e] by simp
  have start: "event_signal cpu e r s = do {
         (n, s2) \<leftarrow> wait_queue_wake_one (K_return i NO_ERROR) cpu (WQ_event e) r NO_ERROR (locked cpu s);
         if n \<le> 0 then end_call cpu i NO_ERROR (upd_event e (\<lambda>x. x\<lparr>signaled := True\<rparr>) s2)
         else if r then Some s2 else end_call cpu i NO_ERROR s2 }"
    unfolding i_def using E(1) e ns auto by (simp add: event_signal_def)
  show ?thesis
  proof (cases "waiters (WQ_event e) (abs_calls s) = {}")
    case True
    have "\<exists>s'. end_call cpu i NO_ERROR (upd_event e (\<lambda>x. x\<lparr>signaled := True\<rparr>) (locked cpu s)) = Some s' \<and> settles b cpu (astate_of s) s'"
      by (rule end_call_sim [where t = t]) (use E e True astep_one(4) [OF event_astep.e_signal [of "astate_of s" t e]] in simp_all)
    then show ?thesis unfolding start using wake_none(1) [OF E(2) w] True by simp
  next
    case False
    then have ne: "waiters (WQ_event e) (abs_calls (locked cpu s)) \<noteq> {}" by simp
    have st: "astep\<^sup>*\<^sup>* (astate_of s) ((astate_of s)\<lparr>a_calls := set_cont t k (wake {u} NO_ERROR (abs_calls s))\<rparr>)"
      if "u \<in> waiters (WQ_event e) (abs_calls s)" "leaves k" for u k
      using that E e ns auto astep_one(4) [OF event_astep.e_signal_one [of "astate_of s" t e u k]] by simp
    show ?thesis
    proof (cases r)
      case True
      have "\<exists>s'. wait_queue_wake_one (K_return i NO_ERROR) cpu (WQ_event e) True NO_ERROR (locked cpu s) = Some (1, s') \<and> settles b cpu (astate_of s) s'"
        by (rule wake_one_resched_sim [OF E(2) w ne]) (use True ok st in \<open>simp_all add: leaves_def\<close>)
      then show ?thesis unfolding start using True by auto
    next
      case False
      obtain u s3 where u: "u \<in> waiters (WQ_event e) (abs_calls (locked cpu s))"
          "wait_queue_wake_one (K_return i NO_ERROR) cpu (WQ_event e) False NO_ERROR (locked cpu s) = Some (1, s3)"
          "holds_lock b cpu t s3" "astate_of s3 = (astate_of (locked cpu s))\<lparr>a_calls := wake {u} NO_ERROR (abs_calls (locked cpu s))\<rparr>"
        using wake_one_sim [OF E(2) w ne] by blast
      have "astep\<^sup>*\<^sup>* (astate_of s) (astate_of s3)" using st [of u K_none] u set_cont_woken [of "abs_calls s" t] E(3) by simp
      from end_call_sim [OF u(3) this] show ?thesis unfolding start using False u(2) by simp
    qed
  qed
qed

lemma event_signal_all_sim:
  assumes inv: "sys_inv b s" and cur: "current s cpu = Some t" and e: "e_magic (events s e) = EVENT_MAGIC"
    and ns: "\<not> signaled (events s e)" and auto: "e_flags (events s e) AND EVENT_FLAG_AUTOUNSIGNAL = 0" and ok: "r \<Longrightarrow> may_block b cpu s"
  shows "\<exists>s'. event_signal cpu e r s = Some s' \<and> settles b cpu (astate_of s) s'"
proof -
  note E = sys_enter [OF inv cur]
  define i where "i = ints_disabled s cpu"
  define s2 where "s2 = upd_event e (\<lambda>x. x\<lparr>signaled := True\<rparr>) (locked cpu s)"
  have h: "holds_lock b cpu t s2" using E(2) by (simp add: s2_def)
  have w: "abs_wqs s2 (WQ_event e)" using event_open [OF inv e] by (simp add: s2_def)
  have start: "event_signal cpu e r s = do {
         (n, s3) \<leftarrow> wait_queue_wake_all (K_return i NO_ERROR) cpu (WQ_event e) r NO_ERROR s2;
         if r \<and> n > 0 then Some s3 else end_call cpu i NO_ERROR s3 }"
    unfolding i_def s2_def using E(1) e ns auto by (simp add: event_signal_def Let_def)
  have st: "astep\<^sup>*\<^sup>* (astate_of s) (upd_ev e (\<lambda>x. x\<lparr>signaled := True\<rparr>)
      ((astate_of s)\<lparr>a_calls := set_cont t k (wake (waiters (WQ_event e) (abs_calls s)) NO_ERROR (abs_calls s))\<rparr>))" if "leaves k" for k
    using that E e ns auto astep_one(4) [OF event_astep.e_signal_all [of "astate_of s" t e k]] by simp
  consider "waiters (WQ_event e) (abs_calls s) = {}" | "waiters (WQ_event e) (abs_calls s) \<noteq> {}" "r" | "\<not> r" by blast
  then show ?thesis
  proof cases
    case 1
    have "\<exists>s'. end_call cpu i NO_ERROR s2 = Some s' \<and> settles b cpu (astate_of s) s'"
      by (rule end_call_sim [OF h]) (use E e 1 astep_one(4) [OF event_astep.e_signal [of "astate_of s" t e]] in \<open>simp add: s2_def\<close>)
    then show ?thesis unfolding start using wake_none(2) [OF h w] 1 by (simp add: s2_def)
  next
    case 2
    have "\<exists>n s'. wait_queue_wake_all (K_return i NO_ERROR) cpu (WQ_event e) True NO_ERROR s2 = Some (n, s') \<and> n > 0 \<and> settles b cpu (astate_of s) s'"
      by (rule wake_all_resched_sim [OF h w]) (use 2 ok st in \<open>simp_all add: s2_def astate_upd_comm leaves_def\<close>)
    then show ?thesis unfolding start using 2 by auto
  next
    case 3
    obtain n s3 where u: "wait_queue_wake_all (K_return i NO_ERROR) cpu (WQ_event e) False NO_ERROR s2 = Some (n, s3)" "holds_lock b cpu t s3"
        "astate_of s3 = (astate_of s2)\<lparr>a_calls := wake (waiters (WQ_event e) (abs_calls s2)) NO_ERROR (abs_calls s2)\<rparr>"
      using wake_all_sim [OF h w] by blast
    have "astep\<^sup>*\<^sup>* (astate_of s) (astate_of s3)" using st [of K_none] u(3) set_cont_woken [of "abs_calls s" t] E(3)
      by (simp add: s2_def astate_upd_comm)
    from end_call_sim [OF u(2) this] show ?thesis unfolding start using 3 u(1) by simp
  qed
qed

lemma event_signal_sim:
  assumes inv: "sys_inv b s" and cur: "current s cpu = Some t" and e: "e_magic (events s e) = EVENT_MAGIC" and ok: "r \<Longrightarrow> may_block b cpu s"
  shows "\<exists>s'. event_signal cpu e r s = Some s' \<and> settles b cpu (astate_of s) s'"
proof (cases "signaled (events s e)")
  case True
  then show ?thesis using sys_enter [OF inv cur] e end_call_sim [OF sys_enter(2) [OF inv cur], of "astate_of s"]
    by (simp add: event_signal_def)
next
  case False
  then show ?thesis using event_signal_one_sim [OF inv cur e False _ ok] event_signal_all_sim [OF inv cur e False _ ok] by blast
qed

end
