(* ===== verification/Resume.thy ===== *)
theory Resume
  imports Sync_Ops
begin

text \<open>
  What a thread does when it is switched in again: the rest of the call in which it was switched out,
  up to the release of the thread lock. From the invariant this never fails an assertion, and it is a
  step of the abstract machine.
\<close>

section \<open>The code\<close>

text \<open>The caller of \<open>wait_queue_block\<close>, after it returned \<open>ret\<close>; the port layer has its own tails.\<close>

definition caller_tail :: "nat \<Rightarrow> wq_caller \<Rightarrow> bool \<Rightarrow> status \<Rightarrow> 'a sync_state_scheme \<Rightarrow> 'a sync_state_scheme option" where
  "caller_tail cpu c i ret s = (case c of
     C_join t want_retcode \<Rightarrow> thread_join_return cpu t want_retcode i ret s
   | C_mutex m \<Rightarrow> mutex_acquire_tail cpu m i ret s
   | C_sem_wait n \<Rightarrow> end_call cpu i ret s
   | C_sem_timedwait n \<Rightarrow> sem_timedwait_tail cpu n i ret s
   | C_event e \<Rightarrow> end_call cpu i ret s
   | C_port_read p \<Rightarrow> None
   | C_group_read g \<Rightarrow> None)"

text \<open>\<open>initial_thread_func\<close> of arch/arm64/thread.c up to the call of the entry point.\<close>

definition initial_thread_func :: "nat \<Rightarrow> 'a kstate_scheme \<Rightarrow> 'a kstate_scheme option" where
  "initial_thread_func cpu s = do {
     t \<leftarrow> current s cpu;
     Some ((upd_thread t (\<lambda>th. th\<lparr>t_cont := K_none\<rparr>) s)\<lparr>thread_lock := False, ints_disabled := (ints_disabled s)(cpu := False)\<rparr>) }"

definition resume_thread :: "nat \<Rightarrow> 'a sync_state_scheme \<Rightarrow> 'a sync_state_scheme option" where
  "resume_thread cpu s = do {
     t \<leftarrow> current s cpu;
     case t_cont (threads s t) of
       K_none \<Rightarrow> None
     | K_start \<Rightarrow> initial_thread_func cpu s
     | K_unlock i \<Rightarrow> end_call cpu i NO_ERROR s
     | K_return i r \<Rightarrow> end_call cpu i r s
     | K_wq_destroy w i \<Rightarrow> end_call cpu i NO_ERROR (wait_queue_destroy_tail w s)
     | K_wq_block timeout c i \<Rightarrow> do {
         (ret, s1) \<leftarrow> wait_queue_block_tail cpu timeout s;
         caller_tail cpu c i ret s1 } }"

section \<open>A thread that has been switched in\<close>

definition resumes :: "u32 \<Rightarrow> astate \<Rightarrow> 'a sync_state_scheme \<Rightarrow> bool" where
  "resumes b A s \<longleftrightarrow> kinv b s \<and> unlinked_ok s \<and> astep\<^sup>*\<^sup>* A (astate_of s)"

definition back_in :: "u32 \<Rightarrow> nat \<Rightarrow> tid \<Rightarrow> 'a kstate_scheme \<Rightarrow> bool" where
  "back_in b cpu t s \<longleftrightarrow> kcore b {} {cpu} s \<and> current s cpu = Some t \<and> \<not> tm_linked (timers s (TM_wait t)) \<and> unlinked_ok s"

lemma back_inD:
  assumes "back_in b cpu t s"
  shows "kcore b {} {cpu} s" "current s cpu = Some t" "\<not> tm_linked (timers s (TM_wait t))" "unlinked_ok s"
    "live s t" "t_state (threads s t) = THREAD_RUNNING"
  using assms current_running [of s cpu t] kcoreD(2) [of b "{}" "{cpu}" s] by (auto simp: back_in_def)

lemma back_in_cong:
  assumes "threads s' = threads s" "current s' = current s" "timers s' = timers s" "timer_queue s' = timer_queue s"
    "run_queue s' = run_queue s" "run_queue_bitmap s' = run_queue_bitmap s" "wqs s' = wqs s"
  shows "back_in b cpu t s' = back_in b cpu t s"
  using kcore_cong [of s' s b "{}" "{cpu}"] assms by (simp add: back_in_def unlinked_ok_def)

lemma back_in_upd [simp]:
  "back_in b cpu t (upd_mutex m f s) = back_in b cpu t s" "back_in b cpu t (upd_sem n g s) = back_in b cpu t s"
  by (rule back_in_cong; simp add: upd_mutex_def upd_sem_def)+

lemma end_call_resumes:
  fixes s :: "'a sync_state_scheme"
  assumes h: "back_in b cpu t s" and A: "astep\<^sup>*\<^sup>* A ((astate_of s)\<lparr>a_calls := set_cont t K_none (abs_calls s)\<rparr>)"
  shows "\<exists>s'. end_call cpu i r s = Some s' \<and> resumes b A s'"
proof -
  note H = back_inD [OF h]
  obtain s' where s': "end_call cpu i r s = Some s'" "kinv b s'"
      "threads s' = (threads s)(t := (threads s t)\<lparr>t_cont := K_none, call_ret := r\<rparr>)" "wqs s' = wqs s" "kstate.more s' = kstate.more s"
    using end_call_ok [OF H(1-3)] by blast
  note E = end_call_abs [OF s'(3,4) H(5,4)]
  from astate_of_eqI [OF s'(5) E(1,2)] show ?thesis using s' E(3) A by (auto simp: resumes_def)
qed

lemma initial_thread_func_end_call:
  assumes "current s cpu = Some t"
  shows "initial_thread_func cpu s = end_call cpu False (call_ret (threads s t)) s"
  using assms by (simp add: initial_thread_func_def end_call_def upd_thread_def THREAD_UNLOCK_def)

lemma running_abs:
  assumes "live s t" "t_state (threads s t) = THREAD_RUNNING"
  shows "a_wait (abs_calls s t) = None" "a_cont (abs_calls s t) = t_cont (threads s t)" "a_ret (abs_calls s t) = wait_queue_block_ret (threads s t)"
  using assms by (simp_all add: abs_calls_def abs_call_def)

lemma astate_order:
  "A\<lparr>a_wq := q, a_calls := c\<rparr> = A\<lparr>a_calls := c, a_wq := q\<rparr>" "A\<lparr>a_sem := x, a_calls := c\<rparr> = A\<lparr>a_calls := c, a_sem := x\<rparr>"
  by simp_all

text \<open>The callers of \<open>wait_queue_block\<close>.\<close>

lemma join_tail_resumes:
  fixes s :: "'a sync_state_scheme"
  assumes h: "back_in b cpu t s" and a: "ainv (astate_of s)" and c: "t_cont (threads s t) = K_wq_block tmo (C_join u want) i"
    and r: "r = wait_queue_block_ret (threads s t)"
  shows "\<exists>s'. thread_join_return cpu u want i r s = Some s' \<and> resumes b (astate_of s) s'"
proof -
  note H = back_inD [OF h]
  note R = running_abs [OF H(5,6)]
  have ic: "in_call (C_join u want) (abs_calls s t)" using H(5) R c by (simp add: in_call_def)
  have P: "pend (WQ_retcode u) (abs_calls s) t = Some (Woken r)" using pend_in_call [of "C_join u want" "abs_calls s" t, OF ic] R r by simp
  have j: "join_ok (abs_calls s u) (pend (WQ_retcode u) (abs_calls s))" using ainvD(2) [OF a] by (simp add: join_inv_def)
  show ?thesis
  proof (cases "r < 0")
    case True
    have "\<exists>s'. end_call cpu i r s = Some s' \<and> resumes b (astate_of s) s'"
      by (rule end_call_resumes [OF h]) (use ic R r True astep_one(1) [OF thread_astep.join_fail [of u want "astate_of s" t]] in simp)
    then show ?thesis using True by (simp add: thread_join_return_def)
  next
    case False
    then have u: "live s u" "a_dead (abs_calls s u)" using j P by (auto simp: join_ok_def)
    then have d: "t_state (threads s u) = THREAD_DEATH" using abs_calls_cont(3) [OF u(1)] by simp
    then have ne: "t \<noteq> u" "blocking_wait_queue (threads s u) = None"
      using H(4,6) u(1) by (auto simp: unlinked_ok_def unlinked_def)
    obtain s' where s': "thread_join_tail cpu u want i s = Some s'" "kinv b s'" "reaped t u want s s'"
      using thread_join_tail_ok [OF H(1-3) u(1) d ne(2)] by blast
    note B = reaped_abs [OF s'(3) H(5) ne(1) H(4)]
    have uniq: "\<forall>v x. v \<noteq> t \<longrightarrow> in_call (C_join u x) (abs_calls s v) \<longrightarrow> a_ret (abs_calls s v) < 0"
    proof (intro allI impI)
      fix v x assume "v \<noteq> t" "in_call (C_join u x) (abs_calls s v)"
      then have "pend (WQ_retcode u) (abs_calls s) v \<noteq> None" using pend_in_call [of "C_join u x" "abs_calls s" v] by simp
      then show "a_ret (abs_calls s v) < 0" using j P \<open>v \<noteq> t\<close> unfolding join_ok_def by blast
    qed
    have "kstate.more s' = kstate.more s" using s'(3) by (simp add: reaped_def)
    from astate_of_eqI [OF this B(1,2)]
    have "astep\<^sup>*\<^sup>* (astate_of s) (astate_of s')"
      using astep_one(1) [OF thread_astep.join_reap [of "astate_of s" t u want]] ic R r False u uniq by simp
    then show ?thesis using s' B(3) False by (simp add: thread_join_return_def resumes_def)
  qed
qed

lemma mutex_tail_resumes:
  fixes s :: "'a sync_state_scheme"
  assumes h: "back_in b cpu t s" and c: "t_cont (threads s t) = K_wq_block tmo (C_mutex m) i" and r: "r = wait_queue_block_ret (threads s t)"
  shows "\<exists>s'. mutex_acquire_tail cpu m i r s = Some s' \<and> resumes b (astate_of s) s'"
proof -
  note H = back_inD [OF h]
  note R = running_abs [OF H(5,6)]
  have ic: "in_call (C_mutex m) (abs_calls s t)" using H(5) R c by (simp add: in_call_def)
  show ?thesis
  proof (cases "r < 0")
    case True
    have "\<exists>s'. end_call cpu i r (if r = ERR_TIMED_OUT then upd_mutex m (\<lambda>x. x\<lparr>m_count := m_count x - 1\<rparr>) s else s) = Some s' \<and>
        resumes b (astate_of s) s'"
      by (rule end_call_resumes [where t = t])
        (use h ic R r True astep_one(2) [OF mutex_astep.m_fail [of m "astate_of s" t]] in \<open>auto simp: astate_upd_comm upd_mut_def astate_of_def\<close>)
    then show ?thesis using True by (simp add: mutex_acquire_tail_def)
  next
    case False
    have "\<exists>s'. end_call cpu i r (upd_mutex m (\<lambda>x. x\<lparr>holder := Some t\<rparr>) s) = Some s' \<and> resumes b (astate_of s) s'"
      by (rule end_call_resumes [where t = t])
        (use h ic R r False astep_one(2) [OF mutex_astep.m_got [of m "astate_of s" t]] in \<open>simp_all add: astate_upd_comm\<close>)
    then show ?thesis using False H(2) by (simp add: mutex_acquire_tail_def)
  qed
qed

lemma sem_tail_resumes:
  fixes s :: "'a sync_state_scheme"
  assumes h: "back_in b cpu t s" and r: "r = wait_queue_block_ret (threads s t)"
  shows "t_cont (threads s t) = K_wq_block tmo (C_sem_wait n) i \<Longrightarrow> \<exists>s'. end_call cpu i r s = Some s' \<and> resumes b (astate_of s) s'"
    "t_cont (threads s t) = K_wq_block tmo (C_sem_timedwait n) i \<Longrightarrow> \<exists>s'. sem_timedwait_tail cpu n i r s = Some s' \<and> resumes b (astate_of s) s'"
proof -
  note H = back_inD [OF h]
  note R = running_abs [OF H(5,6)]
  have ic: "t_cont (threads s t) = K_wq_block tmo c i \<Longrightarrow> in_call c (abs_calls s t)" for c tmo using H(5) R by (simp add: in_call_def)
  show "\<exists>s'. end_call cpu i r s = Some s' \<and> resumes b (astate_of s) s'" if "t_cont (threads s t) = K_wq_block tmo (C_sem_wait n) i"
    by (rule end_call_resumes [OF h]) (use ic [OF that] R astep_one(3) [OF sem_astep.s_done [of n "astate_of s" t]] in simp)
  show "\<exists>s'. sem_timedwait_tail cpu n i r s = Some s' \<and> resumes b (astate_of s) s'" if c: "t_cont (threads s t) = K_wq_block tmo (C_sem_timedwait n) i"
  proof (cases "r = ERR_TIMED_OUT")
    case True
    have "\<exists>s'. end_call cpu i r (upd_sem n (\<lambda>x. x\<lparr>sem_count := int32 (sem_count x + 1)\<rparr>) s) = Some s' \<and> resumes b (astate_of s) s'"
      by (rule end_call_resumes [where t = t])
        (use h ic [OF c] R r True astep_one(3) [OF sem_astep.s_fail [of n "astate_of s" t]] in \<open>simp_all add: upd_asem_def astate_order\<close>)
    then show ?thesis using True by (simp add: sem_timedwait_tail_def)
  next
    case False
    have "\<exists>s'. end_call cpu i r s = Some s' \<and> resumes b (astate_of s) s'"
      by (rule end_call_resumes [OF h]) (use ic [OF c] R r False astep_one(3) [OF sem_astep.s_done [of n "astate_of s" t]] in simp)
    then show ?thesis using False by (simp add: sem_timedwait_tail_def)
  qed
qed

lemma event_tail_resumes:
  fixes s :: "'a sync_state_scheme"
  assumes h: "back_in b cpu t s" and c: "t_cont (threads s t) = K_wq_block tmo (C_event e) i"
  shows "\<exists>s'. end_call cpu i r s = Some s' \<and> resumes b (astate_of s) s'"
proof -
  note H = back_inD [OF h]
  note R = running_abs [OF H(5,6)]
  have ic: "in_call (C_event e) (abs_calls s t)" using H(5) R c by (simp add: in_call_def)
  show ?thesis by (rule end_call_resumes [OF h]) (use ic R astep_one(4) [OF event_astep.e_done [of e "astate_of s" t]] in simp)
qed

lemma caller_tail_resumes:
  fixes s :: "'a sync_state_scheme"
  assumes h: "back_in b cpu t s" and a: "ainv (astate_of s)" and np: "no_ports (abs_calls s)"
    and c: "t_cont (threads s t) = K_wq_block tmo c i" and r: "r = wait_queue_block_ret (threads s t)"
  shows "\<exists>s'. caller_tail cpu c i r s = Some s' \<and> resumes b (astate_of s) s'"
proof -
  have "in_call c (abs_calls s t)" using back_inD(5,6) [OF h] c by (simp add: in_call_def running_abs)
  then have "c \<noteq> C_port_read p" "c \<noteq> C_group_read p" for p using np by (auto simp: no_ports_def)
  then show ?thesis
    using c join_tail_resumes [OF h a _ r] mutex_tail_resumes [OF h _ r] sem_tail_resumes [OF h r] event_tail_resumes [OF h]
    by (cases c) (auto simp: caller_tail_def)
qed

lemma back_in_destroyed:
  assumes h: "back_in b cpu t s" and a: "ainv (astate_of s)" and c: "t_cont (threads s t) = K_wq_destroy w i"
  shows "back_in b cpu t (wait_queue_destroy_tail w s)"
proof -
  note H = back_inD [OF h]
  have "closing w (abs_calls s t)" using H(5,6) c by (simp add: closing_def running_abs)
  then have "waiters w (abs_calls s) = {}" using ainvD(1) [OF a] by (auto simp: calls_ok_def close_ok_def waiters_def)
  then have q: "wq_list (wqs s w) = []" using waiters_abs [OF kcoreD(1) [OF H(1)], of w] by simp
  have "kcore b {} {cpu} (wait_queue_destroy_tail w s)"
    by (rule kcore_wq_magic [OF H(1) q, where g = 0])
      (simp_all add: wait_queue_destroy_tail_def upd_wq_def empty_queue [OF kcoreD(1) [OF H(1)] q])
  then show ?thesis using H by (simp add: back_in_def wait_queue_destroy_tail_def upd_wq_def unlinked_ok_def)
qed

section \<open>Resuming\<close>

lemma switched_back_in:
  assumes sw: "switched_in b cpu s" and u: "unlinked_ok s" and cur: "current s cpu = Some t" and c: "\<And>x y z. t_cont (threads s t) \<noteq> K_wq_block x y z"
  shows "back_in b cpu t s"
proof -
  have k: "kcore b {} {cpu} s" using sw by (simp add: switched_in_def)
  have "\<not> timed_block (threads s t)" using c by (auto simp: timed_block_def split: cont.splits)
  then have "\<not> tm_linked (timers s (TM_wait t))" using kcoreD(6) [OF k] unfolding timers_inv_def timer_good_def by fastforce
  then show ?thesis using k cur u by (simp add: back_in_def)
qed

lemma block_tail_back_in:
  fixes s :: "'a sync_state_scheme"
  assumes sw: "switched_in b cpu s" and u: "unlinked_ok s" and cur: "current s cpu = Some t" and c: "t_cont (threads s t) = K_wq_block tmo c i"
  shows "\<exists>s1. wait_queue_block_tail cpu tmo s = Some (wait_queue_block_ret (threads s1 t), s1) \<and> back_in b cpu t s1 \<and>
    astate_of s1 = astate_of s \<and> threads s1 = threads s"
proof -
  obtain s1 where s1: "wait_queue_block_tail cpu tmo s = Some (wait_queue_block_ret (threads s t), s1)"
      "kcore b {} {cpu} s1" "timer_state.more s1 = timer_state.more s" "\<not> tm_linked (timers s1 (TM_wait t))"
    using wait_queue_block_tail_ok [OF sw cur c] by blast
  note M = timer_more_kstate [OF s1(3)]
  have "abs_calls s1 = abs_calls s" "abs_wqs s1 = abs_wqs s" by (simp_all add: abs_calls_def abs_wqs_def M)
  moreover have "kstate.more s1 = kstate.more s" by (simp add: M)
  ultimately have "astate_of s1 = astate_of s" using astate_of_eqI [of s1 s] by simp
  moreover have "back_in b cpu t s1" using s1 u cur by (simp add: back_in_def M unlinked_ok_def)
  ultimately show ?thesis using s1(1) M by auto
qed

lemma resume_sim:
  fixes s :: "'a sync_state_scheme"
  assumes sw: "switched_in b cpu s" and u: "unlinked_ok s" and a: "ainv (astate_of s)" and np: "no_ports (abs_calls s)"
  shows "\<exists>s'. resume_thread cpu s = Some s' \<and> resumes b (astate_of s) s'"
proof -
  obtain t where cur: "current s cpu = Some t" and k: "t_cont (threads s t) \<noteq> K_none" using sw by (auto simp: switched_in_def)
  have simple: "\<exists>s'. end_call cpu i r s = Some s' \<and> resumes b (astate_of s) s'"
    if c: "leaves (t_cont (threads s t)) \<or> t_cont (threads s t) = K_start" for i r
  proof -
    have h: "back_in b cpu t s" by (rule switched_back_in [OF sw u cur]) (use c in auto)
    show ?thesis by (rule end_call_resumes [OF h])
      (use c back_inD(5,6) [OF h] astep_one(1) [OF thread_astep.resume [of "astate_of s" t]] in \<open>auto simp: running_abs\<close>)
  qed
  show ?thesis
  proof (cases "t_cont (threads s t)")
    case (K_wq_block tmo c i)
    obtain s1 where s1: "wait_queue_block_tail cpu tmo s = Some (wait_queue_block_ret (threads s1 t), s1)" "back_in b cpu t s1"
        "astate_of s1 = astate_of s" "threads s1 = threads s" using block_tail_back_in [OF sw u cur K_wq_block] by blast
    have "abs_calls s1 = abs_calls s" using s1(4) by (simp add: abs_calls_def)
    then obtain s' where "caller_tail cpu c i (wait_queue_block_ret (threads s1 t)) s1 = Some s'" "resumes b (astate_of s) s'"
      using caller_tail_resumes [OF s1(2), of tmo c i] a np K_wq_block s1 by auto
    then show ?thesis using cur K_wq_block s1(1) by (simp add: resume_thread_def)
  next
    case (K_wq_destroy w i)
    have h: "back_in b cpu t s" by (rule switched_back_in [OF sw u cur]) (simp add: K_wq_destroy)
    have "closing w (abs_calls s t)" using back_inD(5,6) [OF h] K_wq_destroy by (simp add: closing_def running_abs)
    moreover have "abs_calls (wait_queue_destroy_tail w s) = abs_calls s"
      by (simp add: wait_queue_destroy_tail_def upd_wq_def abs_calls_def)
    ultimately have "\<exists>s'. end_call cpu i NO_ERROR (wait_queue_destroy_tail w s) = Some s' \<and> resumes b (astate_of s) s'"
      by (intro end_call_resumes [OF back_in_destroyed [OF h a K_wq_destroy]])
        (use astep_one(1) [OF thread_astep.closed [of w "astate_of s" t]] in \<open>simp add: astate_destroyed astate_order\<close>)
    then show ?thesis using cur K_wq_destroy by (simp add: resume_thread_def)
  qed (use cur k simple initial_thread_func_end_call [OF cur] in \<open>simp_all add: resume_thread_def leaves_def\<close>)
qed

end
