(* ===== verification/System.thy ===== *)
theory System
  imports Resume
begin

text \<open>
  The kernel as a transition system: any cpu may at any time start an operation for its current
  thread, take a timer interrupt or change its interrupt mask, and time may pass. An operation that
  ends in a context switch is followed by the rest of the call of the thread that was switched in.
\<close>

section \<open>Operations\<close>

datatype sysop =
    Op_yield | Op_preempt | Op_sleep u32 | Op_set_priority int | Op_set_real_time tid
  | Op_create "tid option" string nat nat int "nat option" nat "tid option" "nat option"
  | Op_resume tid | Op_detach tid | Op_join tid bool u32 | Op_exit int
  | Op_mutex_init nat | Op_mutex_acquire nat u32 | Op_mutex_release nat | Op_mutex_destroy nat
  | Op_sem_init nat u32 | Op_sem_wait nat | Op_sem_trywait nat | Op_sem_timedwait nat u32 | Op_sem_post nat bool | Op_sem_destroy nat
  | Op_event_init nat bool u32 | Op_event_wait nat u32 | Op_event_signal nat bool | Op_event_unsignal nat | Op_event_destroy nat
  | Op_tick u32 | Op_ints bool | Op_time u32 u64

text \<open>An operation up to its end or to the context switch in it.\<close>

fun run_op :: "nat \<Rightarrow> sysop \<Rightarrow> 'a sync_state_scheme \<Rightarrow> 'a sync_state_scheme option" where
  "run_op cpu Op_yield s = thread_yield cpu s"
| "run_op cpu Op_preempt s = thread_preempt cpu s"
| "run_op cpu (Op_sleep delay) s = thread_sleep cpu delay s"
| "run_op cpu (Op_set_priority p) s = thread_set_priority cpu p s"
| "run_op cpu (Op_set_real_time t) s = map_option snd (thread_set_real_time cpu (Some t) s)"
| "run_op cpu (Op_create tp name entry arg prio stack sz new_struct new_stack) s =
     map_option snd (thread_create_etc cpu tp name entry arg prio stack sz new_struct new_stack s)"
| "run_op cpu (Op_resume t) s = map_option snd (thread_resume cpu t s)"
| "run_op cpu (Op_detach t) s = thread_detach cpu t s"
| "run_op cpu (Op_join t want timeout) s = thread_join cpu t want timeout s"
| "run_op cpu (Op_exit r) s = thread_exit cpu r s"
| "run_op cpu (Op_mutex_init m) s = Some (mutex_init m s)"
| "run_op cpu (Op_mutex_acquire m timeout) s = mutex_acquire_timeout cpu m timeout s"
| "run_op cpu (Op_mutex_release m) s = mutex_release cpu m s"
| "run_op cpu (Op_mutex_destroy m) s = mutex_destroy cpu m s"
| "run_op cpu (Op_sem_init n v) s = Some (sem_init n v s)"
| "run_op cpu (Op_sem_wait n) s = sem_wait cpu n s"
| "run_op cpu (Op_sem_trywait n) s = sem_trywait cpu n s"
| "run_op cpu (Op_sem_timedwait n timeout) s = sem_timedwait cpu n timeout s"
| "run_op cpu (Op_sem_post n resched) s = sem_post cpu n resched s"
| "run_op cpu (Op_sem_destroy n) s = sem_destroy cpu n s"
| "run_op cpu (Op_event_init e initial flags) s = Some (event_init e initial flags s)"
| "run_op cpu (Op_event_wait e timeout) s = event_wait_timeout cpu e timeout s"
| "run_op cpu (Op_event_signal e resched) s = event_signal cpu e resched s"
| "run_op cpu (Op_event_unsignal e) s = event_unsignal e s"
| "run_op cpu (Op_event_destroy e) s = event_destroy cpu e s"
| "run_op cpu (Op_tick now) s = map_option snd (timer_tick (run_timer_callback cpu) (ints_disabled s cpu) cpu now s)"
| "run_op cpu (Op_ints off) s = Some (s\<lparr>ints_disabled := (ints_disabled s)(cpu := off)\<rparr>)"
| "run_op cpu (Op_time now hires) s = Some (s\<lparr>cur_time := now, now_hires := hires\<rparr>)"

text \<open>The operation, and what the cpu does then until the thread lock is free again.\<close>

definition sys_step :: "nat \<Rightarrow> sysop \<Rightarrow> 'a sync_state_scheme \<Rightarrow> 'a sync_state_scheme option" where
  "sys_step cpu op s = do {
     s1 \<leftarrow> run_op cpu op s;
     if thread_lock s1 then resume_thread cpu s1 else Some s1 }"

section \<open>What a caller must ensure\<close>

definition joinable :: "tid \<Rightarrow> 'a kstate_scheme \<Rightarrow> bool" where
  "joinable u s \<longleftrightarrow> (\<forall>v w. \<not> in_call (C_join u w) (abs_calls s v))"

text \<open>
  The obligations of the caller, thread \<open>t\<close>: objects are initialised once and used while they are
  alive, a mutex is released by its holder and not acquired by it again, a thread has one joiner, the
  idle thread does not block, and the times involved lie in the window \<open>b\<close> of the millisecond clock.
\<close>

fun op_ok :: "u32 \<Rightarrow> nat \<Rightarrow> tid \<Rightarrow> sysop \<Rightarrow> 'a sync_state_scheme \<Rightarrow> bool" where
  "op_ok b cpu t Op_yield s \<longleftrightarrow> in_window b (cur_time s + 10)"
| "op_ok b cpu t Op_preempt s \<longleftrightarrow> in_window b (cur_time s + 10)"
| "op_ok b cpu t (Op_sleep delay) s \<longleftrightarrow> may_block b cpu s \<and> in_window b (cur_time s + (if delay = 0 then 1 else delay))"
| "op_ok b cpu t (Op_set_priority p) s \<longleftrightarrow> may_block b cpu s"
| "op_ok b cpu t (Op_set_real_time u) s \<longleftrightarrow> live s u \<and> (\<forall>c. current s c = Some u \<longrightarrow> c = cpu)"
| "op_ok b cpu t (Op_create tp name entry arg prio stack sz new_struct new_stack) s \<longleftrightarrow>
     (case (case tp of Some v \<Rightarrow> Some v | None \<Rightarrow> new_struct) of
        None \<Rightarrow> True
      | Some u \<Rightarrow> \<not> live s u \<and> joinable u s \<and> (stack \<noteq> None \<or> new_stack \<noteq> None) \<and> 0 \<le> prio \<and> prio < 32)"
| "op_ok b cpu t (Op_resume u) s \<longleftrightarrow> live s u \<and> t_state (threads s u) \<noteq> THREAD_DEATH \<and> in_window b (cur_time s + 10)"
| "op_ok b cpu t (Op_detach u) s \<longleftrightarrow> live s u \<and> (t_state (threads s u) = THREAD_DEATH \<longrightarrow> joinable u s)"
| "op_ok b cpu t (Op_join u want timeout) s \<longleftrightarrow> live s u \<and> joinable u s \<and> may_block b cpu s \<and> timeout_ok b timeout s"
| "op_ok b cpu t (Op_exit r) s \<longleftrightarrow> may_block b cpu s"
| "op_ok b cpu t (Op_mutex_init m) s \<longleftrightarrow> fresh_object (WQ_mutex m) (abs_calls s)"
| "op_ok b cpu t (Op_mutex_acquire m timeout) s \<longleftrightarrow>
     m_magic (mutexes s m) = MUTEX_MAGIC \<and> holder (mutexes s m) \<noteq> Some t \<and> may_block b cpu s \<and> timeout_ok b timeout s"
| "op_ok b cpu t (Op_mutex_release m) s \<longleftrightarrow> m_magic (mutexes s m) = MUTEX_MAGIC \<and> holder (mutexes s m) = Some t \<and> may_block b cpu s"
| "op_ok b cpu t (Op_mutex_destroy m) s \<longleftrightarrow> m_magic (mutexes s m) = MUTEX_MAGIC \<and> holder (mutexes s m) \<in> {None, Some t} \<and> may_block b cpu s"
| "op_ok b cpu t (Op_sem_init n v) s \<longleftrightarrow> fresh_object (WQ_sem n) (abs_calls s) \<and> unat v < 2 ^ 31"
| "op_ok b cpu t (Op_sem_wait n) s \<longleftrightarrow> sem_live n s \<and> sem_wait_room n s \<and> may_block b cpu s"
| "op_ok b cpu t (Op_sem_trywait n) s \<longleftrightarrow> sem_live n s"
| "op_ok b cpu t (Op_sem_timedwait n timeout) s \<longleftrightarrow> sem_live n s \<and> sem_wait_room n s \<and> may_block b cpu s \<and> timeout_ok b timeout s"
| "op_ok b cpu t (Op_sem_post n resched) s \<longleftrightarrow> sem_live n s \<and> sem_post_room n s \<and> (resched \<longrightarrow> may_block b cpu s)"
| "op_ok b cpu t (Op_sem_destroy n) s \<longleftrightarrow> sem_live n s \<and> may_block b cpu s"
| "op_ok b cpu t (Op_event_init e initial flags) s \<longleftrightarrow> fresh_object (WQ_event e) (abs_calls s)"
| "op_ok b cpu t (Op_event_wait e timeout) s \<longleftrightarrow> e_magic (events s e) = EVENT_MAGIC \<and> may_block b cpu s \<and> timeout_ok b timeout s"
| "op_ok b cpu t (Op_event_signal e resched) s \<longleftrightarrow> e_magic (events s e) = EVENT_MAGIC \<and> (resched \<longrightarrow> may_block b cpu s)"
| "op_ok b cpu t (Op_event_unsignal e) s \<longleftrightarrow> e_magic (events s e) = EVENT_MAGIC"
| "op_ok b cpu t (Op_event_destroy e) s \<longleftrightarrow> e_magic (events s e) = EVENT_MAGIC \<and> may_block b cpu s"
| "op_ok b cpu t (Op_tick now) s \<longleftrightarrow> ints_disabled s cpu \<and> in_window b now \<and>
     (\<forall>tm \<in> set (timer_queue s cpu). ahead b now + unat (periodic_time (timers s tm)) < 2 ^ 31)"
| "op_ok b cpu t (Op_ints off) s \<longleftrightarrow> True"
| "op_ok b cpu t (Op_time now hires) s \<longleftrightarrow> True"

section \<open>The thread operations\<close>

lemma astate_wq_id [simp]: "(astate_of s)\<lparr>a_wq := abs_wqs s\<rparr> = astate_of s"
  by (simp add: astate_of_def)

lemma yielded_settles:
  fixes s :: "'a sync_state_scheme"
  assumes inv: "sys_inv b s" and cur: "current s cpu = Some t" and sw: "switched_in b cpu s'" and y: "yielded (K_unlock i) cpu t s s'"
  shows "settles b cpu (astate_of s) s'"
proof -
  have r: "running t s" by (rule running_current [OF sys_invD(1) [OF inv] cur])
  note B = yielded_abs [OF y r sys_invD(2) [OF inv]]
  have "kstate.more s' = kstate.more s" using y by (simp add: yielded_def)
  from astate_of_eqI [OF this B(1,2)] show ?thesis
    using sw B(3) astep_one(1) [OF thread_astep.switch [of "astate_of s" t "K_unlock i"]] running_idle [OF r]
    by (simp add: settles_def leaves_def)
qed

lemma quiet_settles:
  fixes s :: "'a sync_state_scheme"
  assumes inv: "sys_inv b s" and k: "kinv b s'" and q: "quiet s s'"
  shows "settles b cpu (astate_of s) s'"
proof -
  note B = quiet_abs [OF q sys_invD(2) [OF inv]]
  have "kstate.more s' = kstate.more s" using q by (simp add: quiet_def)
  from astate_of_eqI [OF this B(1,2)] show ?thesis using k B(3) by (simp add: settles_def)
qed

lemma returned_quiet:
  fixes s :: "'a sync_state_scheme"
  assumes inv: "sys_inv b s" and cur: "current s cpu = Some t" and k: "kinv b s'" and r: "returned t r s s'"
  shows "settles b cpu (astate_of s) s'"
proof -
  have run: "running t s" by (rule running_current [OF sys_invD(1) [OF inv] cur])
  have "threads s' = (threads s)(t := (threads s t)\<lparr>t_cont := K_none, call_ret := r\<rparr>)" "wqs s' = wqs s" "kstate.more s' = kstate.more s"
    using r by (simp_all add: returned_def)
  note B = end_call_abs [OF this(1,2) _ sys_invD(2) [OF inv]] and M = this(3)
  have "live s t" using run by (simp add: running_def)
  from astate_of_eqI [OF M B(1,2) [OF this]] show ?thesis using k B(3) [OF \<open>live s t\<close>] set_cont_running [OF run] by (simp add: settles_def)
qed

lemma retcode_open:
  assumes "sys_inv b s" "live s u"
  shows "wq_magic (wqs s (WQ_retcode u)) = WAIT_QUEUE_MAGIC"
  using ainvD(1) [OF sys_invD(3) [OF assms(1)]] assms(2) by (simp add: calls_ok_def retq_ok_def abs_wqs_def)

lemma no_joiners:
  assumes "sys_inv b s" "joinable u s"
  shows "wq_list (wqs s (WQ_retcode u)) = []"
proof -
  have p: "pend (WQ_retcode u) (abs_calls s) = Map.empty" using assms(2) by (intro pend_join) (simp add: joinable_def)
  have "\<not> waits_on (WQ_retcode u) (abs_calls s v)" for v
    using pend_waiting [OF ainvD(1) [OF sys_invD(3) [OF assms(1)]], of "WQ_retcode u" v] p by simp
  then have "waiters (WQ_retcode u) (abs_calls s) = {}" by (simp add: waiters_def)
  then show ?thesis using waiters_abs [OF sys_invD(6) [OF assms(1)]] by simp
qed

lemma create_settles:
  assumes inv: "sys_inv b s" and cur: "current s cpu = Some t"
    and ok: "op_ok b cpu t (Op_create tp name entry arg prio stack sz new_struct new_stack) s"
  shows "\<exists>s'. run_op cpu (Op_create tp name entry arg prio stack sz new_struct new_stack) s = Some s' \<and> settles b cpu (astate_of s) s'"
proof (cases "case tp of Some v \<Rightarrow> Some v | None \<Rightarrow> new_struct")
  case None
  then show ?thesis using sys_invD(1,2) [OF inv] by (simp add: thread_create_etc_def settles_def)
next
  case (Some u)
  then obtain k where u: "(case tp of Some v \<Rightarrow> Some v | None \<Rightarrow> new_struct) = Some u" "\<not> live s u" "joinable u s"
      "(case stack of Some k \<Rightarrow> Some k | None \<Rightarrow> new_stack) = Some k" and p: "0 \<le> prio" "prio < 32" using ok by (cases stack) (auto split: option.splits)
  obtain s' where s': "thread_create_etc cpu tp name entry arg prio stack sz new_struct new_stack s = Some (Some u, s')" "kinv b s'" "created_in u s s'"
    using thread_create_etc_ok [OF sys_invD(1) [OF inv] cur u(1,2) no_joiners [OF inv u(3)] u(4) p] by blast
  note B = created_in_abs [OF s'(3) sys_invD(2) [OF inv]]
  have "kstate.more s' = kstate.more s" using s'(3) by (simp add: created_in_def)
  from astate_of_eqI [OF this B(1,2)] have "settles b cpu (astate_of s) s'"
    using s'(2) B(3) u astep_one(1) [OF thread_astep.create [of "astate_of s" u]] by (simp add: settles_def joinable_def)
  then show ?thesis using s'(1) by simp
qed

lemma reaped_settles:
  fixes s :: "'a sync_state_scheme"
  assumes inv: "sys_inv b s" and cur: "current s cpu = Some t" and u: "live s u" "t_state (threads s u) = THREAD_DEATH" "joinable u s"
    and k: "kinv b s'" and r: "reaped t u want s s'"
  shows "settles b cpu (astate_of s) s'"
proof -
  have run: "running t s" by (rule running_current [OF sys_invD(1) [OF inv] cur])
  have t: "live s t" "t \<noteq> u" using run u by (auto simp: running_def)
  note B = reaped_abs [OF r t sys_invD(2) [OF inv]]
  have "kstate.more s' = kstate.more s" using r by (simp add: reaped_def)
  moreover have "a_dead (abs_calls s u)" using abs_calls_cont(3) [OF u(1)] u(2) by simp
  ultimately show ?thesis using astate_of_eqI [OF _ B(1,2)] k B(3) u running_idle [OF run] astep_one(1) [OF thread_astep.join_reap [of "astate_of s" t u]]
    by (simp add: settles_def joinable_def)
qed

lemma dead_unlinked: "sys_inv b s \<Longrightarrow> live s u \<Longrightarrow> t_state (threads s u) = THREAD_DEATH \<Longrightarrow> blocking_wait_queue (threads s u) = None"
  using sys_invD(2) [of b s] by (simp add: unlinked_ok_def unlinked_def)

lemma join_settles:
  assumes inv: "sys_inv b s" and cur: "current s cpu = Some t" and ok: "op_ok b cpu t (Op_join u want tmo) s"
  shows "\<exists>s'. thread_join cpu u want tmo s = Some s' \<and> settles b cpu (astate_of s) s'"
proof -
  have u: "live s u" "joinable u s" and m: "in_window b (cur_time s + 10)" "\<not> thread_is_idle (threads s t)" "timeout_ok b tmo s"
    using ok cur by (auto simp: may_block_def)
  note J = thread_join_ok [OF sys_invD(1) [OF inv] cur u(1), where want = want and timeout = tmo]
  have run: "running t s" by (rule running_current [OF sys_invD(1) [OF inv] cur])
  consider "has_flag (threads s u) THREAD_FLAG_DETACHED" | "\<not> has_flag (threads s u) THREAD_FLAG_DETACHED" "t_state (threads s u) = THREAD_DEATH"
    | "\<not> has_flag (threads s u) THREAD_FLAG_DETACHED" "t_state (threads s u) \<noteq> THREAD_DEATH" "tmo = 0"
    | "\<not> has_flag (threads s u) THREAD_FLAG_DETACHED" "t_state (threads s u) \<noteq> THREAD_DEATH" "tmo \<noteq> 0" by blast
  then show ?thesis
  proof cases
    case 1
    then show ?thesis using J(1) returned_quiet [OF inv cur] by blast
  next
    case 2
    then show ?thesis using J(2) [OF 2 dead_unlinked [OF inv u(1) 2(2)]] reaped_settles [OF inv cur u(1) 2(2) u(2)] by blast
  next
    case 3
    then show ?thesis using J(3) retcode_open [OF inv u(1)] returned_quiet [OF inv cur] by blast
  next
    case 4
    obtain s' where s': "thread_join cpu u want tmo s = Some s'" "switched_in b cpu s'"
        "blocked_on (K_wq_block tmo (C_join u want) (ints_disabled s cpu)) cpu t (WQ_retcode u) s s'"
      using J(4) 4 retcode_open [OF inv u(1)] m by (auto simp: timeout_ok_def)
    note B = blocked_on_abs [OF s'(3) run sys_invD(2) [OF inv]]
    have "kstate.more s' = kstate.more s" using s'(3) by (simp add: blocked_on_def)
    from astate_of_eqI [OF this B(1,2)] show ?thesis
      using s' B(3) u 4 running_idle [OF run] abs_calls_cont(3,4) [OF u(1)] astep_one(1) [OF thread_astep.join_block [of "astate_of s" t u]]
      by (auto simp: settles_def joinable_def)
  qed
qed

lemma detach_settles:
  assumes inv: "sys_inv b s" and cur: "current s cpu = Some t" and u: "live s u" "t_state (threads s u) = THREAD_DEATH \<longrightarrow> joinable u s"
  shows "\<exists>s'. thread_detach cpu u s = Some s' \<and> settles b cpu (astate_of s) s'"
proof (cases "t_state (threads s u) = THREAD_DEATH")
  case True
  then show ?thesis using thread_detach_dead [OF sys_invD(1) [OF inv] cur u(1) retcode_open [OF inv u(1)] no_joiners [OF inv] True dead_unlinked [OF inv u(1) True]]
      reaped_settles [OF inv cur u(1) True] u(2) by blast
next
  case False
  obtain s' where s': "thread_detach cpu u s = Some s'" "kinv b s'" "detached t u s s'"
    using thread_detach_ok [OF sys_invD(1) [OF inv] cur u(1) retcode_open [OF inv u(1)] False] by blast
  note B = detached_abs [OF s'(3) u(1) sys_invD(6) [OF inv] running_current [OF sys_invD(1) [OF inv] cur] sys_invD(2) [OF inv]]
  have "kstate.more s' = kstate.more s" using s'(3) by (simp add: detached_def)
  from astate_of_eqI [OF this B(1,2)] show ?thesis
    using s' B(3) u False abs_calls_cont(3) [OF u(1)] astep_one(1) [OF thread_astep.detach [of "astate_of s" u]] by (simp add: settles_def)
qed

lemma exit_settles:
  assumes inv: "sys_inv b s" and cur: "current s cpu = Some t" and ok: "may_block b cpu s"
  shows "\<exists>s'. thread_exit cpu r s = Some s' \<and> settles b cpu (astate_of s) s'"
proof -
  have run: "running t s" by (rule running_current [OF sys_invD(1) [OF inv] cur])
  then have l: "live s t" by (simp add: running_def)
  obtain s' where s': "thread_exit cpu r s = Some s'" "switched_in b cpu s'" "exited cpu t r s s'"
    using thread_exit_ok [OF sys_invD(1) [OF inv] cur _ _ retcode_open [OF inv l]] ok cur by (auto simp: may_block_def)
  note B = exited_abs [OF s'(3) run sys_invD(6,2) [OF inv]]
  have "kstate.more s' = kstate.more s" using s'(3) by (simp add: exited_def)
  then show ?thesis
    using s' B(4) astate_of_eqI [OF _ B(1) B(3)] astate_of_eqI [OF _ B(2) B(3)] running_idle [OF run] abs_calls_cont(4) [OF l]
      astep_one(1) [OF thread_astep.exit [of "astate_of s" t]] astep_one(1) [OF thread_astep.exit_detached [of "astate_of s" t]]
    by (cases "has_flag (threads s t) THREAD_FLAG_DETACHED") (simp_all add: settles_def)
qed

lemma sleep_settles:
  assumes inv: "sys_inv b s" and cur: "current s cpu = Some t" and ok: "op_ok b cpu t (Op_sleep d) s"
  shows "\<exists>s'. thread_sleep cpu d s = Some s' \<and> settles b cpu (astate_of s) s'"
  using thread_sleep_ok [OF sys_invD(1) [OF inv] cur] yielded_settles [OF inv cur] ok cur by (simp add: may_block_def) blast

lemma resume_op_settles:
  assumes inv: "sys_inv b s" and cur: "current s cpu = Some t" and ok: "op_ok b cpu t (Op_resume u) s"
  shows "\<exists>s'. run_op cpu (Op_resume u) s = Some s' \<and> settles b cpu (astate_of s) s'"
proof -
  have u: "in_window b (cur_time s + 10)" "live s u" "t_state (threads s u) \<noteq> THREAD_DEATH" using ok by simp_all
  note T = thread_resume_ok [OF sys_invD(1) [OF inv] cur u]
  show ?thesis
  proof (cases "t_state (threads s u) = THREAD_SUSPENDED \<and> \<not> ints_disabled s cpu")
    case True
    then obtain s' where "thread_resume cpu u s = Some (NO_ERROR, s')" "switched_in b cpu s'" "yielded (K_unlock False) cpu t s s'" using T(2) by blast
    then show ?thesis using yielded_settles [OF inv cur] by auto
  next
    case False
    then obtain s' where "thread_resume cpu u s = Some (NO_ERROR, s')" "kinv b s'" "quiet s s'" using T(1) by blast
    then show ?thesis using quiet_settles [OF inv] by auto
  qed
qed

lemma real_time_settles:
  assumes inv: "sys_inv b s" and ok: "op_ok b cpu t (Op_set_real_time u) s"
  shows "\<exists>s'. run_op cpu (Op_set_real_time u) s = Some s' \<and> settles b cpu (astate_of s) s'"
proof -
  obtain s' where s': "thread_set_real_time cpu (Some u) s = Some (NO_ERROR, s')" "kinv b s'"
      "threads s' = (threads s)(u := (threads s u)\<lparr>t_flags := t_flags (threads s u) OR THREAD_FLAG_REAL_TIME\<rparr>)"
      "wqs s' = wqs s" "kstate.more s' = kstate.more s"
    using thread_set_real_time_ok [OF sys_invD(1) [OF inv], of u cpu] ok by auto
  have "abs_calls s' = abs_calls s" "unlinked_ok s'" "abs_wqs s' = abs_wqs s"
    using sys_invD(2) [OF inv] by (auto simp: abs_calls_def abs_call_def s' has_flag_detached unlinked_ok_def unlinked_def abs_wqs_def fun_eq_iff)
  then have "settles b cpu (astate_of s) s'" using s'(2) astate_of_eqI [OF s'(5)] by (simp add: settles_def)
  then show ?thesis using s'(1) by simp
qed

lemma tick_settles:
  fixes s :: "'a sync_state_scheme"
  assumes inv: "sys_inv b s" and cur: "current s cpu = Some t" and ok: "op_ok b cpu t (Op_tick now) s"
  shows "\<exists>s'. run_op cpu (Op_tick now) s = Some s' \<and> settles b cpu (astate_of s) s'"
proof -
  obtain r s' where s': "timer_tick (run_timer_callback cpu) (ints_disabled s cpu) cpu now s = Some (r, s')" "kinv b s'" "timed_out s s'"
    using timer_tick_kinv [OF sys_invD(1) [OF inv], of cpu now] ok cur by auto
  then show ?thesis using timed_out_abs [OF s'(3) sys_invD(6,2) [OF inv]] by (simp add: settles_def)
qed

lemma environment_settles:
  fixes s :: "'a sync_state_scheme"
  assumes inv: "sys_inv b s"
  shows "settles b cpu (astate_of s) (s\<lparr>ints_disabled := x\<rparr>)" "settles b cpu (astate_of s) (s\<lparr>cur_time := now, now_hires := hires\<rparr>)"
proof -
  have "kinv b (s\<lparr>ints_disabled := x\<rparr>)" "kinv b (s\<lparr>cur_time := now, now_hires := hires\<rparr>)"
    using sys_invD(1) [OF inv] kcore_cong [of "s\<lparr>ints_disabled := x\<rparr>" s b "{}" "{}"]
      kcore_cong [of "s\<lparr>cur_time := now, now_hires := hires\<rparr>" s b "{}" "{}"] by (simp_all add: kinv_def)
  then show "settles b cpu (astate_of s) (s\<lparr>ints_disabled := x\<rparr>)" "settles b cpu (astate_of s) (s\<lparr>cur_time := now, now_hires := hires\<rparr>)"
    using sys_invD(2) [OF inv] by (simp_all add: settles_def astate_of_def abs_calls_def abs_wqs_def unlinked_ok_def)
qed

section \<open>Every operation\<close>

lemma run_op_settles:
  fixes s :: "'a sync_state_scheme"
  assumes inv: "sys_inv b s" and cur: "current s cpu = Some t" and ok: "op_ok b cpu t op s"
  shows "\<exists>s'. run_op cpu op s = Some s' \<and> settles b cpu (astate_of s) s'"
proof (cases op)
  case Op_yield
  then show ?thesis using thread_yield_ok [OF sys_invD(1) [OF inv] cur] yielded_settles [OF inv cur] ok by simp blast
next
  case Op_preempt
  then show ?thesis using thread_preempt_ok [OF sys_invD(1) [OF inv] cur] yielded_settles [OF inv cur] ok by simp blast
next
  case (Op_set_priority p)
  then show ?thesis using thread_set_priority_ok [OF sys_invD(1) [OF inv] cur] yielded_settles [OF inv cur] ok cur by (simp add: may_block_def) blast
next
  case (Op_sleep d)
  then show ?thesis using sleep_settles [OF inv cur] ok by simp
next
  case (Op_create tp name entry arg prio stack sz new_struct new_stack)
  then show ?thesis using create_settles [OF inv cur] ok by blast
next
  case (Op_resume u)
  then show ?thesis using resume_op_settles [OF inv cur] ok by blast
next
  case (Op_set_real_time u)
  then show ?thesis using real_time_settles [OF inv] ok by blast
next
  case (Op_join u want tmo)
  then show ?thesis using join_settles [OF inv cur] ok by auto
next
  case (Op_tick now)
  then show ?thesis using tick_settles [OF inv cur] ok by blast
next
  case (Op_detach u)
  then show ?thesis using detach_settles [OF inv cur] ok by auto
next
  case (Op_exit r)
  then show ?thesis using exit_settles [OF inv cur] ok by simp
next
  case (Op_mutex_init m)
  then show ?thesis using mutex_init_sim [OF inv] ok by simp
next
  case (Op_mutex_acquire m tmo)
  then show ?thesis using mutex_acquire_sim [OF inv cur] ok by simp
next
  case (Op_mutex_release m)
  then show ?thesis using mutex_release_sim [OF inv cur] ok by simp
next
  case (Op_mutex_destroy m)
  then show ?thesis using mutex_destroy_sim [OF inv cur] ok by auto
next
  case (Op_sem_init n v)
  then show ?thesis using sem_init_sim [OF inv] ok by simp
next
  case (Op_sem_wait n)
  then show ?thesis using sem_wait_settles [OF inv cur] ok by simp
next
  case (Op_sem_trywait n)
  then show ?thesis using sem_trywait_sim [OF inv cur] ok by simp
next
  case (Op_sem_timedwait n tmo)
  then show ?thesis using sem_timedwait_settles [OF inv cur] ok by simp
next
  case (Op_sem_post n r)
  then show ?thesis using sem_post_sim [OF inv cur, of n r] ok by simp
next
  case (Op_sem_destroy n)
  then show ?thesis using sem_destroy_sim [OF inv cur] ok by simp
next
  case (Op_event_init e i fl)
  then show ?thesis using event_init_sim [OF inv] ok by simp
next
  case (Op_event_wait e tmo)
  then show ?thesis using event_wait_sim [OF inv cur] ok by simp
next
  case (Op_event_signal e r)
  then show ?thesis using event_signal_sim [OF inv cur, of e r] ok by simp
next
  case (Op_event_unsignal e)
  then show ?thesis using event_unsignal_sim [OF inv] ok by simp
next
  case (Op_event_destroy e)
  then show ?thesis using event_destroy_sim [OF inv cur] ok by simp
next
  case (Op_ints off)
  then show ?thesis using environment_settles(1) [OF inv] by simp
next
  case (Op_time now hires)
  then show ?thesis using environment_settles(2) [OF inv] by simp
qed

end
