(* ===== verification/System_Demo.thy ===== *)
theory System_Demo
  imports System Demo_State
begin

text \<open>
  A concrete state of the whole system, for the instances of the theorems about executions: thread 0
  runs and holds mutexes 0 and 1, thread 2 waits for mutex 0, and thread 1 has just timed out in
  \<open>mutex_acquire_timeout\<close> on mutex 1 but has not run since.
\<close>

definition demo_sync :: sync_state where
  "demo_sync = demo \<lparr>mutexes = (\<lambda>m. if m < 2 then \<lparr>m_magic = MUTEX_MAGIC, holder = Some (Dyn_thread 0), m_count = 2\<rparr>
       else \<lparr>m_magic = 0, holder = None, m_count = 0\<rparr>),
     sems = (\<lambda>_. \<lparr>sem_magic = 0, sem_count = 0\<rparr>), events = (\<lambda>_. \<lparr>e_magic = 0, signaled = False, e_flags = 0\<rparr>)\<rparr>"

definition demo_sys :: sync_state where
  "demo_sys = upd_thread (Dyn_thread 1)
     (\<lambda>th. th\<lparr>t_cont := K_wq_block 10 (C_mutex 1) False, wait_queue_block_ret := ERR_TIMED_OUT\<rparr>) demo_sync"

lemma kcore_ready_cont:
  fixes s :: "'a kstate_scheme"
  assumes kc: "kcore b {} {} s" and t: "live s t" "t_state (threads s t) = THREAD_READY"
    and k: "k \<noteq> K_none" "tm_magic (timers s (TM_wait t)) = TIMER_MAGIC" "\<not> tm_linked (timers s (TM_wait t))"
  shows "kcore b {} {} (upd_thread t (\<lambda>th. th\<lparr>t_cont := k, wait_queue_block_ret := r\<rparr>) s)" (is "kcore b {} {} ?s'")
proof -
  note K = kcoreD [OF kc]
  have nc: "current s c \<noteq> Some t" for c using K(2) t unfolding cur_inv_def by fastforce
  have f: "thread_is_idle (th\<lparr>t_cont := k, wait_queue_block_ret := r\<rparr>) = thread_is_idle th"
    "thread_is_real_time_or_idle (th\<lparr>t_cont := k, wait_queue_block_ret := r\<rparr>) = thread_is_real_time_or_idle th" for th
    by (simp_all add: thread_is_idle_def thread_is_real_time_or_idle_def has_flag_def)
  have "sched_inv {} ?s'" using K(1) sched_inv_cong [of ?s' s "{}"] by (simp add: sched_view_def f)
  moreover have "cur_inv {} ?s'" using K(2) by (simp add: cur_inv_def)
  moreover have "idle_inv ?s'" using K(3) by (auto simp: idle_inv_def f)
  moreover have "preempt_inv ?s'" using K(4) nc by (auto simp: preempt_inv_def)
  moreover have "timers_inv ?s'"
    using K(6) k t unfolding timers_inv_def timer_good_def by (auto split: timer_id.splits)
  moreover have "stack_inv ?s'" using K(7) by (simp add: stack_inv_def has_flag_def stack_guard_intact_def)
  moreover have "cont_inv {} ?s'" using K(8) k t nc by (auto simp: cont_inv_def cont_ok_def)
  ultimately show ?thesis using K(5) by (simp add: kcore_def kbase_def kstat_def timer_wf_def)
qed

lemma demo_sys_kinv: "kinv 0 demo_sys"
proof -
  have "kcore 0 {} {} demo_sync" using demo_kinv by (simp add: demo_sync_def kinv_def)
  then have "kcore 0 {} {} demo_sys" unfolding demo_sys_def
    by (rule kcore_ready_cont) (simp_all add: demo_sync_def demo_threads_def demo_timers_def)
  then show ?thesis by (simp add: kinv_def demo_sys_def demo_sync_def)
qed

lemma demo_sys_threads: "threads demo_sys = demo_threads(Dyn_thread 1 :=
    (demo_threads (Dyn_thread 1))\<lparr>t_cont := K_wq_block 10 (C_mutex 1) False, wait_queue_block_ret := ERR_TIMED_OUT\<rparr>)"
  by (simp add: demo_sys_def demo_sync_def)

definition demo_calls :: "tid \<Rightarrow> acall" where
  "demo_calls = (\<lambda>_. no_call)(
    Idle_thread 0 := \<lparr>a_live = True, a_cont = K_unlock False, a_wait = None, a_ret = 0, a_dead = False, a_det = True\<rparr>,
    Dyn_thread 0 := \<lparr>a_live = True, a_cont = K_none, a_wait = None, a_ret = 0, a_dead = False, a_det = False\<rparr>,
    Dyn_thread 1 := \<lparr>a_live = True, a_cont = K_wq_block 10 (C_mutex 1) False, a_wait = None, a_ret = ERR_TIMED_OUT, a_dead = False, a_det = False\<rparr>,
    Dyn_thread 2 := \<lparr>a_live = True, a_cont = K_wq_block INFINITE_TIME (C_mutex 0) False, a_wait = Some (WQ_mutex 0), a_ret = 0, a_dead = False, a_det = False\<rparr>,
    Dyn_thread 3 := \<lparr>a_live = True, a_cont = K_unlock False, a_wait = None, a_ret = 0, a_dead = False, a_det = False\<rparr>)"

lemma demo_sys_calls: "abs_calls demo_sys = demo_calls"
proof
  fix t
  show "abs_calls demo_sys t = demo_calls t"
    by (cases rule: demo_thread_cases [of t])
      (auto simp: abs_calls_def demo_sys_threads abs_call_def has_flag_def demo_thread_def zero_thread_def no_call_def demo_calls_def)
qed

lemma demo_pend: "pend w demo_calls = (if w = WQ_mutex 0 then [Dyn_thread 2 \<mapsto> Waiting]
    else if w = WQ_mutex 1 then [Dyn_thread 1 \<mapsto> Woken ERR_TIMED_OUT] else Map.empty)"
  by (auto simp: pend_def demo_calls_def no_call_def fun_eq_iff)

lemma demo_not_closing: "\<not> closing w (demo_calls u)"
  by (simp add: closing_def demo_calls_def no_call_def)

lemma demo_sys_wqs: "abs_wqs demo_sys = (\<lambda>_. True)"
  by (auto simp: abs_wqs_def demo_sys_def demo_sync_def fun_eq_iff)

lemma demo_sys_fields: "astate_of demo_sys = \<lparr>a_calls = demo_calls, a_wq = (\<lambda>_. True),
    a_mut = (\<lambda>m. if m < 2 then \<lparr>m_magic = MUTEX_MAGIC, holder = Some (Dyn_thread 0), m_count = 2\<rparr>
       else \<lparr>m_magic = 0, holder = None, m_count = 0\<rparr>),
    a_sem = (\<lambda>_. \<lparr>sem_magic = 0, sem_count = 0\<rparr>), a_ev = (\<lambda>_. \<lparr>e_magic = 0, signaled = False, e_flags = 0\<rparr>)\<rparr>"
  by (simp add: astate_of_def demo_sys_calls demo_sys_wqs) (simp add: demo_sys_def demo_sync_def upd_thread_def demo_def)

lemma demo_ainv: "ainv (astate_of demo_sys)"
proof -
  have "calls_ok (\<lambda>_. True) demo_calls"
    by (auto simp: calls_ok_def wait_ok_def dead_ok_def close_ok_def retq_ok_def demo_calls_def waits_on_def closing_def no_call_def)
  moreover have "join_inv demo_calls" by (simp add: join_inv_def join_ok_def demo_pend)
  moreover have "untimed_ok demo_calls" by (auto simp: untimed_ok_def demo_calls_def no_call_def)
  moreover have "mutex_inv m (astate_of demo_sys)" for m
    by (auto simp: mutex_inv_def demo_sys_fields mutex_ok_def w_open_def demo_pend demo_not_closing less_2_cases_iff split: if_splits)
  moreover have "sem_inv n (astate_of demo_sys)" for n
    by (simp add: sem_inv_def demo_sys_fields sem_ok_def demo_pend sem_claims_def tokens_def)
  moreover have "event_inv e (astate_of demo_sys)" for e by (simp add: event_inv_def demo_sys_fields)
  ultimately show ?thesis by (simp add: ainv_def demo_sys_fields)
qed

lemma demo_sys_inv: "sys_inv 0 demo_sys"
proof -
  have "unlinked (threads demo_sys t)" for t
    by (cases rule: demo_thread_cases [of t]) (auto simp: demo_sys_threads unlinked_def)
  moreover have "no_ports demo_calls" by (auto simp: no_ports_def in_call_def demo_calls_def no_call_def)
  ultimately show ?thesis using demo_sys_kinv demo_ainv by (simp add: sys_inv_def unlinked_ok_def demo_sys_calls)
qed

lemma demo_sys_simps [simp]:
  "current demo_sys 0 = Some (Dyn_thread 0)" "cur_time demo_sys = 5" "thread_is_idle (threads demo_sys (Dyn_thread 0)) = False"
  "m < 2 \<Longrightarrow> mutexes demo_sys m = \<lparr>m_magic = MUTEX_MAGIC, holder = Some (Dyn_thread 0), m_count = 2\<rparr>"
  by (simp_all add: demo_sys_def demo_sync_def upd_thread_def) (simp_all add: demo_def)

section \<open>A state with a dead thread\<close>

text \<open>Thread 4 has exited, and thread 1, which was waiting in \<open>thread_join\<close> on it, has been woken.\<close>

definition demo_join :: sync_state where
  "demo_join = upd_mutex 1 (\<lambda>x. x\<lparr>m_magic := 0\<rparr>)
     (upd_thread (Dyn_thread 4) (\<lambda>_. demo_thread 10 THREAD_DEATH K_none)
        (upd_thread (Dyn_thread 1) (\<lambda>th. th\<lparr>t_cont := K_wq_block INFINITE_TIME (C_join (Dyn_thread 4) True) False, wait_queue_block_ret := NO_ERROR\<rparr>)
           demo_sync))"

lemma kcore_dead:
  fixes s :: "'a kstate_scheme"
  assumes kc: "kcore b {} {} s" and t: "\<not> live s t"
    and th: "t_magic th = THREAD_MAGIC" "t_state th = THREAD_DEATH" "t_cont th = K_none" "\<not> queue_node th" "0 \<le> priority th" "priority th < 32" "t_flags th = 0"
  shows "kcore b {} {} (upd_thread t (\<lambda>_. th) s)" (is "kcore b {} {} ?s'")
proof -
  note K = kcoreD [OF kc]
  note F = fresh_thread [OF kc t]
  have f: "\<not> thread_is_idle th" "\<not> thread_is_real_time_or_idle th" "\<not> has_flag th THREAD_FLAG_DEBUG_STACK_BOUNDS_CHECK"
    using th by (simp_all add: thread_is_idle_def thread_is_real_time_or_idle_def has_flag_def)
  have "sched_inv {} ?s'" using K(1) t th F(1,2) unfolding sched_inv_def by (auto simp: runnable_def)
  moreover have "cur_inv {} ?s'" using K(2) t th F(3) unfolding cur_inv_def by auto
  moreover have "idle_inv ?s'" using K(3) t f unfolding idle_inv_def by auto
  moreover have "preempt_inv ?s'" using K(4) F(3) unfolding preempt_inv_def by auto
  moreover have "timers_inv ?s'"
    using K(6) t th F(4,5) unfolding timers_inv_def timer_good_def by (auto simp: timed_block_def split: timer_id.splits)
  moreover have "stack_inv ?s'" using K(7) f unfolding stack_inv_def by auto
  moreover have "cont_inv {} ?s'" using K(8) th F(3) unfolding cont_inv_def by (auto simp: cont_ok_def blocked_cont_def)
  ultimately show ?thesis using K(5) by (simp add: kcore_def kbase_def kstat_def timer_wf_def)
qed

lemma demo_join_kinv: "kinv 0 demo_join"
proof -
  define k where "k = K_wq_block INFINITE_TIME (C_join (Dyn_thread 4) True) False"
  define s1 where "s1 = upd_thread (Dyn_thread 1) (\<lambda>th. th\<lparr>t_cont := k, wait_queue_block_ret := NO_ERROR\<rparr>) demo_sync"
  define s2 where "s2 = upd_thread (Dyn_thread 4) (\<lambda>_. demo_thread 10 THREAD_DEATH K_none) s1"
  have "kcore 0 {} {} demo_sync" using demo_kinv by (simp add: demo_sync_def kinv_def)
  then have "kcore 0 {} {} s1" unfolding s1_def
    by (rule kcore_ready_cont) (simp_all add: demo_sync_def demo_threads_def demo_timers_def k_def)
  then have "kcore 0 {} {} s2" unfolding s2_def
    by (rule kcore_dead) (simp_all add: s1_def demo_sync_def demo_threads_def)
  moreover have eq: "demo_join = upd_mutex 1 (\<lambda>x. x\<lparr>m_magic := 0\<rparr>) s2" by (simp add: demo_join_def s2_def s1_def k_def)
  have "kcore 0 {} {} demo_join = kcore 0 {} {} s2" by (rule kcore_cong) (simp_all add: eq upd_mutex_def)
  moreover have "\<not> thread_lock demo_join" by (simp add: demo_join_def upd_mutex_def demo_sync_def)
  ultimately show ?thesis by (simp add: kinv_def)
qed

lemma demo_join_threads: "threads demo_join = demo_threads(
    Dyn_thread 1 := (demo_threads (Dyn_thread 1))\<lparr>t_cont := K_wq_block INFINITE_TIME (C_join (Dyn_thread 4) True) False, wait_queue_block_ret := NO_ERROR\<rparr>,
    Dyn_thread 4 := demo_thread 10 THREAD_DEATH K_none)"
  by (simp add: demo_join_def demo_sync_def upd_mutex_def)

definition join_calls :: "tid \<Rightarrow> acall" where
  "join_calls = demo_calls(
     Dyn_thread 1 := \<lparr>a_live = True, a_cont = K_wq_block INFINITE_TIME (C_join (Dyn_thread 4) True) False, a_wait = None, a_ret = 0, a_dead = False, a_det = False\<rparr>,
     Dyn_thread 4 := \<lparr>a_live = True, a_cont = K_none, a_wait = None, a_ret = 0, a_dead = True, a_det = False\<rparr>)"

lemma demo_join_calls: "abs_calls demo_join = join_calls"
proof
  fix t
  show "abs_calls demo_join t = join_calls t"
    by (cases rule: demo_thread_cases [of t])
      (auto simp: abs_calls_def demo_join_threads abs_call_def has_flag_def demo_thread_def zero_thread_def no_call_def demo_calls_def join_calls_def)
qed

lemma join_pend: "pend w join_calls = (if w = WQ_mutex 0 then [Dyn_thread 2 \<mapsto> Waiting]
    else if w = WQ_retcode (Dyn_thread 4) then [Dyn_thread 1 \<mapsto> Woken 0] else Map.empty)"
  by (auto simp: pend_def join_calls_def demo_calls_def no_call_def fun_eq_iff)

lemma demo_join_fields: "astate_of demo_join = \<lparr>a_calls = join_calls, a_wq = (\<lambda>_. True),
    a_mut = (\<lambda>m. if m < 2 then \<lparr>m_magic = (if m = 0 then MUTEX_MAGIC else 0), holder = Some (Dyn_thread 0), m_count = 2\<rparr>
       else \<lparr>m_magic = 0, holder = None, m_count = 0\<rparr>),
    a_sem = (\<lambda>_. \<lparr>sem_magic = 0, sem_count = 0\<rparr>), a_ev = (\<lambda>_. \<lparr>e_magic = 0, signaled = False, e_flags = 0\<rparr>)\<rparr>"
proof -
  have "abs_wqs demo_join = (\<lambda>_. True)" by (auto simp: abs_wqs_def demo_join_def demo_sync_def upd_mutex_def fun_eq_iff)
  then show ?thesis by (simp add: astate_of_def demo_join_calls)
    (auto simp: demo_join_def demo_sync_def upd_thread_def upd_mutex_def demo_def fun_eq_iff)
qed

lemma demo_join_inv: "sys_inv 0 demo_join"
proof -
  have nc: "\<not> closing w (join_calls u)" for w u by (simp add: closing_def join_calls_def demo_calls_def no_call_def)
  have "calls_ok (\<lambda>_. True) join_calls"
    by (auto simp: calls_ok_def wait_ok_def dead_ok_def close_ok_def retq_ok_def waits_on_def closing_def join_calls_def demo_calls_def no_call_def)
  moreover have "join_inv join_calls" by (simp add: join_inv_def join_ok_def join_pend) (simp add: join_calls_def)
  moreover have "untimed_ok join_calls" by (auto simp: untimed_ok_def join_calls_def demo_calls_def no_call_def)
  moreover have "mutex_inv m (astate_of demo_join)" for m
    by (auto simp: mutex_inv_def demo_join_fields mutex_ok_def w_open_def join_pend nc split: if_splits)
  moreover have "sem_inv n (astate_of demo_join)" for n
    by (simp add: sem_inv_def demo_join_fields sem_ok_def join_pend sem_claims_def tokens_def)
  moreover have "event_inv e (astate_of demo_join)" for e by (simp add: event_inv_def demo_join_fields)
  ultimately have "ainv (astate_of demo_join)" by (simp add: ainv_def demo_join_fields)
  moreover have "unlinked (threads demo_join t)" for t
    by (cases rule: demo_thread_cases [of t]) (auto simp: demo_join_threads unlinked_def)
  moreover have "no_ports join_calls" by (auto simp: no_ports_def in_call_def join_calls_def demo_calls_def no_call_def)
  ultimately show ?thesis using demo_join_kinv by (simp add: sys_inv_def unlinked_ok_def demo_join_calls)
qed

end
