(* ===== verification/System_Props.thy ===== *)
theory System_Props
  imports System_Demo Thread_Props
begin

text \<open>
  The properties of the whole thread system, over all sequences of operations of all cpus: the absence
  of failed assertions, the refinement of the abstract machine, and what the invariant says about
  mutexes, semaphores and joins. An operation is one step; so is a timer interrupt, although
  \<open>timer_tick\<close> frees \<open>timer_lock\<close> around a callback (\<open>Tick_Race\<close>).
\<close>

section \<open>Executions\<close>

lemma no_ports_upd:
  "no_ports c \<Longrightarrow> call_of k = None \<Longrightarrow> no_ports (set_cont t k c)"
  "no_ports c \<Longrightarrow> (\<And>p. d \<noteq> C_port_read p \<and> d \<noteq> C_group_read p) \<Longrightarrow> no_ports (block t w (K_wq_block tmo d i) c)"
  "no_ports c \<Longrightarrow> no_ports (wake T err c)" "no_ports c \<Longrightarrow> no_ports (kill t c)" "no_ports c \<Longrightarrow> no_ports (die t c)"
  "no_ports c \<Longrightarrow> no_ports (set_det t c)" "no_ports c \<Longrightarrow> no_ports (spawn t r c)"
  by (auto simp: no_ports_def call_simps)

lemma no_ports_step:
  assumes "astep A B" "no_ports (a_calls A)"
  shows "no_ports (a_calls B)"
proof -
  from assms(1) consider "thread_astep A B" | "mutex_astep A B" | "sem_astep A B" | "event_astep A B" by (auto simp: astep_def)
  then show ?thesis
  proof cases
    case 1
    then show ?thesis using assms(2) by cases (auto intro!: no_ports_upd)
  next
    case 2
    then show ?thesis using assms(2) by cases (auto intro!: no_ports_upd)
  next
    case 3
    then show ?thesis using assms(2) by cases (auto intro!: no_ports_upd)
  next
    case 4
    then show ?thesis using assms(2) by cases (auto intro!: no_ports_upd)
  qed
qed

lemma no_ports_steps: "astep\<^sup>*\<^sup>* A B \<Longrightarrow> no_ports (a_calls A) \<Longrightarrow> no_ports (a_calls B)"
  by (induction rule: rtranclp_induct) (auto intro: no_ports_step)

lemma settled_inv:
  assumes "sys_inv b s" "astep\<^sup>*\<^sup>* (astate_of s) (astate_of s')"
  shows "ainv (astate_of s')" "no_ports (abs_calls s')"
  using ainv_steps [OF assms(2) sys_invD(3) [OF assms(1)]] no_ports_steps [OF assms(2)] sys_invD(4) [OF assms(1)] by auto

lemma sys_step_ok:
  fixes s :: "'a sync_state_scheme"
  assumes inv: "sys_inv b s" and cur: "current s cpu = Some t" and ok: "op_ok b cpu t op s"
  shows "\<exists>s'. sys_step cpu op s = Some s' \<and> sys_inv b s' \<and> astep\<^sup>*\<^sup>* (astate_of s) (astate_of s')"
proof -
  obtain s1 where s1: "run_op cpu op s = Some s1" "settles b cpu (astate_of s) s1" using run_op_settles [OF inv cur ok] by blast
  have A: "astep\<^sup>*\<^sup>* (astate_of s) (astate_of s1)" and u: "unlinked_ok s1" and k: "kinv b s1 \<or> switched_in b cpu s1"
    using s1(2) by (auto simp: settles_def)
  note I = settled_inv [OF inv A]
  show ?thesis
  proof (cases "thread_lock s1")
    case False
    then have "kinv b s1" using k by (auto simp: switched_in_def)
    then show ?thesis using s1(1) False A u I by (auto simp: sys_step_def sys_inv_def)
  next
    case True
    then have "switched_in b cpu s1" using k by (auto simp: kinv_def)
    from resume_sim [OF this u I] obtain s' where s': "resume_thread cpu s1 = Some s'" "resumes b (astate_of s1) s'" by blast
    then have A': "astep\<^sup>*\<^sup>* (astate_of s) (astate_of s')" using A by (auto simp: resumes_def)
    show ?thesis using s1(1) True s' A' settled_inv [OF inv A'] by (auto simp: sys_step_def sys_inv_def resumes_def)
  qed
qed

text \<open>
  Executions: a step on any cpu, of an operation that its current thread may call. A step whose
  operation or continuation fails has no successor, so the absence of failures is part of the claims.
\<close>

inductive reaches :: "u32 \<Rightarrow> 'a sync_state_scheme \<Rightarrow> 'a sync_state_scheme \<Rightarrow> bool" for b s where
  start: "reaches b s s"
| step: "reaches b s s1 \<Longrightarrow> current s1 cpu = Some t \<Longrightarrow> op_ok b cpu t op s1 \<Longrightarrow> sys_step cpu op s1 = Some s2 \<Longrightarrow> reaches b s s2"

lemma reaches_inv: "reaches b s s' \<Longrightarrow> sys_inv b s \<Longrightarrow> sys_inv b s' \<and> astep\<^sup>*\<^sup>* (astate_of s) (astate_of s')"
proof (induction rule: reaches.induct)
  case (step s1 cpu t op s2)
  then show ?case using sys_step_ok [of b s1 cpu t op] by (auto dest: rtranclp_trans)
qed auto

section \<open>Mutexes that nobody can acquire any more\<close>

text \<open>
  A mutex without a holder and without a thread to which it is being handed over, while a thread waits
  for it with an infinite timeout. As long as the mutex is not destroyed this is final: with the
  count at one or more every caller blocks, and without a holder there is nobody to wake them.
\<close>

definition stuck :: "nat \<Rightarrow> tid \<Rightarrow> astate \<Rightarrow> bool" where
  "stuck m t A \<longleftrightarrow> ainv A \<and> m_magic (a_mut A m) = MUTEX_MAGIC \<and> holder (a_mut A m) = None \<and>
     waits_on (WQ_mutex m) (a_calls A t) \<and> (\<exists>i. a_cont (a_calls A t) = K_wq_block INFINITE_TIME (C_mutex m) i) \<and>
     (\<forall>u. in_call (C_mutex m) (a_calls A u) \<longrightarrow> a_wait (a_calls A u) = None \<longrightarrow> a_ret (a_calls A u) < 0)"

lemma stuck_count:
  assumes "stuck m t A"
  shows "1 \<le> m_count (a_mut A m)"
proof -
  have a: "ainv A" "m_magic (a_mut A m) = MUTEX_MAGIC" "waits_on (WQ_mutex m) (a_calls A t)" using assms by (simp_all add: stuck_def)
  have p: "apend (WQ_mutex m) A t = Some Waiting" using pend_waiting [OF ainvD(1) [OF a(1)]] a(3) by blast
  have ok: "mutex_ok (a_mut A m) (apend (WQ_mutex m) A)" using ainvD(4) [OF a(1)] a(2) by (simp add: mutex_inv_def)
  have "card (dom (apend (WQ_mutex m) A)) \<noteq> 0" using mutex_okD(1) [OF ok] p by auto
  then show ?thesis using mutex_okD(2) [OF ok] by simp
qed

lemma stuck_call: "stuck m t A \<Longrightarrow> in_call (C_mutex m) (a_calls A t)"
  by (auto simp: stuck_def in_call_def waits_on_def)

text \<open>What a step keeps of it: the waiting thread's call, and the calls on the mutex that have ended.\<close>

definition kept :: "nat \<Rightarrow> tid \<Rightarrow> (tid \<Rightarrow> acall) \<Rightarrow> (tid \<Rightarrow> acall) \<Rightarrow> bool" where
  "kept m t c d \<longleftrightarrow> a_live (d t) = a_live (c t) \<and> a_wait (d t) = a_wait (c t) \<and> a_cont (d t) = a_cont (c t) \<and>
     (\<forall>u. in_call (C_mutex m) (d u) \<longrightarrow> a_wait (d u) = None \<longrightarrow>
        in_call (C_mutex m) (c u) \<and> a_wait (c u) = None \<and> a_ret (d u) = a_ret (c u) \<or> a_ret (d u) < 0)"

lemma kept_stuck:
  assumes "stuck m t A" "ainv B" "m_magic (a_mut B m) = MUTEX_MAGIC" "holder (a_mut B m) = None" "kept m t (a_calls A) (a_calls B)"
  shows "stuck m t B"
  using assms unfolding stuck_def kept_def waits_on_def by auto

lemma kept_refl: "kept m t c c"
  by (simp add: kept_def)

lemma kept_trans: "kept m t c d \<Longrightarrow> kept m t d e \<Longrightarrow> kept m t c e"
  unfolding kept_def by (metis (no_types, lifting))

lemma kept_upd:
  "u \<noteq> t \<Longrightarrow> call_of k = None \<Longrightarrow> kept m t c (set_cont u k c)"
  "u \<noteq> t \<Longrightarrow> kept m t c (block u w k c)" "u \<noteq> t \<Longrightarrow> kept m t c (kill u c)" "kept m t c (die u c)" "kept m t c (set_det u c)"
  "u \<noteq> t \<Longrightarrow> kept m t c (spawn u r c)"
  "\<forall>u \<in> T. u \<noteq> t \<and> (in_call (C_mutex m) (c u) \<longrightarrow> err < 0) \<Longrightarrow> kept m t c (wake T err c)"
  by (auto simp: kept_def call_simps) (auto simp: spawn_def in_call_def)

lemma stuck_others:
  assumes s: "stuck m t A"
  shows "idle_call (a_calls A u) \<Longrightarrow> u \<noteq> t" "a_wait (a_calls A u) = None \<Longrightarrow> u \<noteq> t" "\<not> a_live (a_calls A u) \<Longrightarrow> u \<noteq> t"
    "call_of (a_cont (a_calls A u)) \<noteq> Some (C_mutex m) \<Longrightarrow> u \<noteq> t"
    "waits_on w (a_calls A u) \<Longrightarrow> w \<noteq> WQ_mutex m \<Longrightarrow> u \<noteq> t \<and> \<not> in_call (C_mutex m) (a_calls A u)"
    "a_cont (a_calls A u) = K_wq_block tmo c i \<Longrightarrow> tmo \<noteq> INFINITE_TIME \<Longrightarrow> u \<noteq> t"
proof -
  have c: "a_live (a_calls A t)" "a_wait (a_calls A t) = Some (WQ_mutex m)" "\<exists>i. a_cont (a_calls A t) = K_wq_block INFINITE_TIME (C_mutex m) i"
    using s by (auto simp: stuck_def waits_on_def)
  show "idle_call (a_calls A u) \<Longrightarrow> u \<noteq> t" "a_wait (a_calls A u) = None \<Longrightarrow> u \<noteq> t" "\<not> a_live (a_calls A u) \<Longrightarrow> u \<noteq> t"
    "call_of (a_cont (a_calls A u)) \<noteq> Some (C_mutex m) \<Longrightarrow> u \<noteq> t" "a_cont (a_calls A u) = K_wq_block tmo c i \<Longrightarrow> tmo \<noteq> INFINITE_TIME \<Longrightarrow> u \<noteq> t"
    using c by (auto simp: idle_call_def)
  show "u \<noteq> t \<and> \<not> in_call (C_mutex m) (a_calls A u)" if "waits_on w (a_calls A u)" "w \<noteq> WQ_mutex m"
    using that c waits_onD(2) [OF ainvD(1) that(1)] s call_wq_call(1) [of "a_cont (a_calls A u)" "C_mutex m"]
    by (auto simp: stuck_def waits_on_def in_call_def)
qed

lemma kept_wake:
  assumes s: "stuck m t A" and w: "w \<noteq> WQ_mutex m"
  shows "kept m t (a_calls A) (wake (waiters w (a_calls A)) err (a_calls A))"
  using stuck_others(5) [OF s _ w] by (auto simp: waiters_def intro!: kept_upd)

lemma kept_wake_cont:
  assumes s: "stuck m t A"
  shows "w \<noteq> WQ_mutex m \<Longrightarrow> idle_call (a_calls A v) \<Longrightarrow> call_of k = None \<Longrightarrow>
      kept m t (a_calls A) (set_cont v k (wake (waiters w (a_calls A)) err (a_calls A)))"
    "u \<in> waiters w (a_calls A) \<Longrightarrow> w \<noteq> WQ_mutex m \<Longrightarrow> idle_call (a_calls A v) \<Longrightarrow> call_of k = None \<Longrightarrow>
      kept m t (a_calls A) (set_cont v k (wake {u} err (a_calls A)))"
proof -
  show "kept m t (a_calls A) (set_cont v k (wake (waiters w (a_calls A)) err (a_calls A)))"
    if "w \<noteq> WQ_mutex m" "idle_call (a_calls A v)" "call_of k = None"
    by (rule kept_trans [OF kept_wake [OF s that(1)] kept_upd(1) [OF stuck_others(1) [OF s that(2)] that(3)]])
  show "kept m t (a_calls A) (set_cont v k (wake {u} err (a_calls A)))"
    if "u \<in> waiters w (a_calls A)" "w \<noteq> WQ_mutex m" "idle_call (a_calls A v)" "call_of k = None"
  proof -
    have "kept m t (a_calls A) (wake {u} err (a_calls A))"
      using stuck_others(5) [OF s, of w u] that by (intro kept_upd) (simp add: waiters_def)
    then show ?thesis by (rule kept_trans) (rule kept_upd(1) [OF stuck_others(1) [OF s that(3)] that(4)])
  qed
qed

lemma kept_return: "stuck m t A \<Longrightarrow> a_wait (a_calls A u) = None \<Longrightarrow> kept m t (a_calls A) (set_cont u K_none (a_calls A))"
  using stuck_others(2) by (intro kept_upd(1)) auto

lemma kept_thread:
  assumes "thread_astep A B" "stuck m t A"
  shows "kept m t (a_calls A) (a_calls B)"
  using assms(1)
proof cases
  case (switch u k)
  then show ?thesis using stuck_others(1) [OF assms(2)] by (auto intro!: kept_upd)
next
  case (resume u)
  then show ?thesis using stuck_others(4) [OF assms(2), of u] by (auto intro!: kept_upd)
next
  case (timeout w u tmo c i)
  then show ?thesis using stuck_others(6) [OF assms(2)] by (auto intro!: kept_upd)
next
  case (closed w u)
  then show ?thesis using stuck_others(4) [OF assms(2), of u] call_wq_call(3) by (fastforce simp: closing_def intro!: kept_upd)
next
  case (create u r)
  then show ?thesis using stuck_others(3) [OF assms(2)] by (auto intro!: kept_upd)
next
  case (exit u)
  have "kept m t (die u (a_calls A)) (wake (waiters (WQ_retcode u) (a_calls A)) NO_ERROR (die u (a_calls A)))"
    using stuck_others(5) [OF assms(2), of "WQ_retcode u"] by (intro kept_upd) (auto simp: waiters_def call_simps)
  then show ?thesis using exit kept_trans [OF kept_upd(4)] by simp
next
  case (exit_detached u)
  then show ?thesis using stuck_others(1) [OF assms(2)] by (auto intro!: kept_upd)
next
  case (join_block u)
  then show ?thesis using stuck_others(1) [OF assms(2)] by (auto intro!: kept_upd)
next
  case (join_reap u v)
  have "u \<noteq> t" "v \<noteq> t" using join_reap stuck_others(1,2) [OF assms(2)] ainvD(1) assms(2)
    by (auto simp: stuck_def calls_ok_def dead_ok_def)
  then show ?thesis using join_reap by (auto intro!: kept_trans [OF kept_upd(1) kept_upd(3)])
next
  case (join_fail u w v)
  then show ?thesis using stuck_others(2) [OF assms(2)] by (auto intro!: kept_upd)
next
  case (detach u)
  then show ?thesis using kept_trans [OF kept_wake [OF assms(2)] kept_upd(5)] by simp
qed

lemma kept_mutex:
  assumes "mutex_astep A B" "stuck m t A" "m_magic (a_mut B m) = MUTEX_MAGIC"
  shows "kept m t (a_calls A) (a_calls B) \<and> holder (a_mut B m) = None"
proof -
  have S: "holder (a_mut A m) = None" "1 \<le> m_count (a_mut A m)" "in_call (C_mutex m) (a_calls A t)"
    using assms(2) stuck_count [OF assms(2)] stuck_call [OF assms(2)] by (auto simp: stuck_def)
  from assms(1) show ?thesis
  proof cases
    case (m_init j)
    then have "j \<noteq> m" using S(3) by (auto simp: fresh_object_def)
    then show ?thesis using m_init S(1) by (simp add: kept_refl)
  next
    case (m_acquire u j)
    then have "j \<noteq> m" using S(2) by auto
    then show ?thesis using m_acquire S(1) by (simp add: kept_refl)
  next
    case (m_block u j)
    then show ?thesis using S(1) stuck_others(1) [OF assms(2)] by (auto intro!: kept_upd)
  next
    case (m_got j u)
    then have "j \<noteq> m" using assms(2) by (auto simp: stuck_def)
    then show ?thesis using m_got S(1) stuck_others(2) [OF assms(2)] by (auto intro!: kept_upd)
  next
    case (m_fail j u)
    then show ?thesis using S(1) stuck_others(2) [OF assms(2)] by (auto intro!: kept_upd)
  next
    case (m_release u j)
    then have "j \<noteq> m" using S(1) by auto
    then show ?thesis using m_release S(1) by (simp add: kept_refl)
  next
    case (m_release_wake u j v k)
    then have "j \<noteq> m" using S(1) by auto
    then show ?thesis using m_release_wake S(1) by (auto intro: kept_wake_cont [OF assms(2)])
  next
    case (m_destroy u j)
    then have "j \<noteq> m" using assms(3) by auto
    then show ?thesis using m_destroy S(1) by (simp add: kept_refl)
  next
    case (m_destroy_wake u j i)
    then have "j \<noteq> m" using assms(3) by auto
    then show ?thesis using m_destroy_wake S(1) by (auto intro: kept_wake_cont [OF assms(2)])
  qed
qed

lemma kept_sem:
  assumes "sem_astep A B" "stuck m t A"
  shows "kept m t (a_calls A) (a_calls B)"
  using assms(1) stuck_others(1,2) [OF assms(2)]
  by cases (auto simp: kept_refl intro: kept_upd kept_return [OF assms(2)] kept_wake_cont [OF assms(2)])

lemma kept_event:
  assumes "event_astep A B" "stuck m t A"
  shows "kept m t (a_calls A) (a_calls B)"
  using assms(1) stuck_others(1,2) [OF assms(2)]
  by cases (auto simp: kept_refl intro: kept_upd kept_return [OF assms(2)] kept_wake_cont [OF assms(2)])

lemma stuck_step:
  assumes st: "astep A B" and m: "m_magic (a_mut B m) = MUTEX_MAGIC" and s: "stuck m t A"
  shows "stuck m t B"
proof -
  have inv: "ainv B" and h: "holder (a_mut A m) = None" using ainv_step [OF _ st] s by (auto simp: stuck_def)
  from st consider "thread_astep A B" | "mutex_astep A B" | "sem_astep A B" | "event_astep A B" by (auto simp: astep_def)
  then have "kept m t (a_calls A) (a_calls B) \<and> holder (a_mut B m) = None"
  proof cases
    case 1
    moreover have "a_mut B = a_mut A" using 1 by cases auto
    ultimately show ?thesis using kept_thread [OF _ s] h by simp
  next
    case 2
    then show ?thesis using kept_mutex [OF _ s m] by blast
  next
    case 3
    moreover have "a_mut B = a_mut A" using 3 by cases auto
    ultimately show ?thesis using kept_sem [OF _ s] h by simp
  next
    case 4
    moreover have "a_mut B = a_mut A" using 4 by cases auto
    ultimately show ?thesis using kept_event [OF _ s] h by simp
  qed
  then show ?thesis using kept_stuck [OF s inv m] by blast
qed

lemma stuck_steps:
  "(\<lambda>A B. astep A B \<and> m_magic (a_mut B m) = MUTEX_MAGIC)\<^sup>*\<^sup>* A B \<Longrightarrow> stuck m t A \<Longrightarrow> stuck m t B"
  by (induction rule: rtranclp_induct) (auto intro: stuck_step)

lemma mutex_release_uncontended:
  fixes s :: "'a sync_state_scheme"
  assumes inv: "sys_inv b s" and cur: "current s cpu = Some t" and m: "m_magic (mutexes s m) = MUTEX_MAGIC" "holder (mutexes s m) = Some t"
    and w: "wq_list (wqs s (WQ_mutex m)) = []"
  shows "\<exists>s'. mutex_release cpu m s = Some s' \<and> kinv b s' \<and> unlinked_ok s' \<and> current s' = current s \<and> cur_time s' = cur_time s \<and>
    threads s' = (threads s)(t := (threads s t)\<lparr>t_cont := K_none, call_ret := NO_ERROR\<rparr>) \<and>
    astate_of s' = upd_mut m (\<lambda>x. x\<lparr>holder := None, m_count := m_count x - 1\<rparr>) (astate_of s)"
proof -
  note E = sys_enter [OF inv cur]
  define s2 where "s2 = upd_mutex m (\<lambda>x. x\<lparr>holder := None, m_count := m_count x - 1\<rparr>) (locked cpu s)"
  have h: "holds_lock b cpu t s2" "abs_wqs s2 (WQ_mutex m)" "waiters (WQ_mutex m) (abs_calls s2) = {}"
    using E(2) mutex_open [OF inv m(1)] w waiters_abs [OF sys_invD(6) [OF inv], of "WQ_mutex m"] by (simp_all add: s2_def)
  have "mutex_release cpu m s = end_call cpu (ints_disabled s cpu) NO_ERROR s2"
    using E(1) cur m wake_none(1) [OF h] by (simp add: mutex_release_def s2_def Let_def)
  moreover have "astate_of s2 = upd_mut m (\<lambda>x. x\<lparr>holder := None, m_count := m_count x - 1\<rparr>) (astate_of s)" by (simp add: s2_def)
  ultimately show ?thesis using end_call_same [OF h(1), of "ints_disabled s cpu" NO_ERROR] by (simp add: s2_def) blast
qed

lemma mutex_acquire_contended:
  fixes s :: "'a sync_state_scheme"
  assumes inv: "sys_inv b s" and cur: "current s cpu = Some t" and m: "m_magic (mutexes s m) = MUTEX_MAGIC" "holder (mutexes s m) \<noteq> Some t"
    "1 \<le> m_count (mutexes s m)" and ok: "may_block b cpu s"
  shows "\<exists>s' i. mutex_acquire cpu m s = Some s' \<and> astate_of s' = upd_mut m (\<lambda>x. x\<lparr>m_count := m_count x + 1\<rparr>)
    ((astate_of s)\<lparr>a_calls := block t (WQ_mutex m) (K_wq_block INFINITE_TIME (C_mutex m) i) (abs_calls s)\<rparr>)"
proof -
  note E = sys_enter [OF inv cur]
  define s2 where "s2 = upd_mutex m (\<lambda>x. x\<lparr>m_count := m_count x + 1\<rparr>) (locked cpu s)"
  have h: "holds_lock b cpu t s2" "abs_wqs s2 (WQ_mutex m)" "may_block b cpu s2" "timeout_ok b INFINITE_TIME s2"
    using E(2) mutex_open [OF inv m(1)] ok by (simp_all add: s2_def timeout_ok_def)
  have "mutex_acquire cpu m s = do {
      (r, s3) \<leftarrow> wait_queue_block (C_mutex m) (ints_disabled s cpu) cpu (WQ_mutex m) INFINITE_TIME s2;
      case r of None \<Rightarrow> Some s3 | Some ret \<Rightarrow> mutex_acquire_tail cpu m (ints_disabled s cpu) ret s3 }"
    using E(1) cur m by (simp add: mutex_acquire_def mutex_acquire_timeout_def s2_def Let_def)
  moreover have "(astate_of s2)\<lparr>a_calls := c\<rparr> = upd_mut m (\<lambda>x. x\<lparr>m_count := m_count x + 1\<rparr>) ((astate_of s)\<lparr>a_calls := c\<rparr>)" for c
    by (simp add: s2_def astate_upd_comm)
  moreover have "abs_calls s2 = abs_calls s" by (simp add: s2_def)
  ultimately show ?thesis using block_same [OF h, of "C_mutex m" "ints_disabled s cpu"] by auto
qed

lemma stuck_after_block:
  assumes a: "ainv A" and t: "idle_call (a_calls A t)" and m: "m_magic (a_mut A m) = MUTEX_MAGIC" "holder (a_mut A m) = None" "1 \<le> m_count (a_mut A m)"
    and n: "\<And>u. in_call (C_mutex m) (a_calls A u) \<Longrightarrow> a_wait (a_calls A u) = None \<Longrightarrow> a_ret (a_calls A u) < 0"
    and B: "B = upd_mut m (\<lambda>x. x\<lparr>m_count := m_count x + 1\<rparr>)
      (A\<lparr>a_calls := block t (WQ_mutex m) (K_wq_block INFINITE_TIME (C_mutex m) i) (a_calls A)\<rparr>)"
  shows "stuck m t B"
proof -
  have "mutex_astep A B" unfolding B by (rule m_block) (use t m in auto)
  then have "ainv B" using ainv_step [OF a] by (simp add: astep_def)
  then show ?thesis using t m n by (auto simp: stuck_def B call_simps idle_call_def)
qed

section \<open>Properties\<close>

text \<open>
  C1: starting from a state that satisfies the invariant, in every sequence of whole operations of
  the cpus, ticks of the timer and steps of time, an operation whose caller meets its obligations
  reaches no assertion, panic or null dereference of the thread, wait-queue, mutex, semaphore and event
  code: it runs to its end, or to its context switch and on through the rest of the call of the thread
  that is switched in, and the invariant holds again. Two restrictions are part of the claim. A tick is
  one step, so it says nothing of another cpu that acts while \<open>timer_tick\<close> has released \<open>timer_lock\<close>; on one
  cpu there is no such actor. And the obligations of \<open>op_ok\<close> are the caller's: objects are initialised
  while unused and used while alive; a mutex is not acquired by its holder, is released by it, and is not
  destroyed while another thread holds it; a thread has one joiner at a time, a dead one is not
  detached during a join or resumed; \<open>thread_set_real_time\<close> is not called on a thread that runs on another
  cpu; a new thread gets an unused struct, a priority from 0 to 31 and, if its struct was allocated, a
  stack; the idle thread does not block; a semaphore starts below 2^31 and stays within 32 bits; a tick
  comes with interrupts disabled; and times lie in a window of 2^31 ms.
\<close>

theorem system_never_fails:
  fixes s :: "'a sync_state_scheme"
  assumes "sys_inv b s0" "reaches b s0 s" "current s cpu = Some t" "op_ok b cpu t op s"
  shows "\<exists>s'. sys_step cpu op s = Some s' \<and> sys_inv b s'"
  using sys_step_ok [OF conjunct1 [OF reaches_inv [OF assms(2,1)]] assms(3,4)] by blast

theorem system_never_fails_witness:
  "sys_inv 0 demo_sys \<and> (\<exists>s'. sys_step 0 (Op_mutex_release 0) demo_sys = Some s' \<and> sys_inv 0 s')"
  using system_never_fails [OF demo_sys_inv start, of 0 "Dyn_thread 0" "Op_mutex_release 0"] demo_sys_inv
  by (simp add: may_block_def in_window_def ahead_def)

text \<open>
  C2: the thread system refines the abstract machine of \<open>Sync_Spec\<close>: every execution of the kernel
  is, under the abstraction of the state, an execution of the abstract machine. As in the property
  before, an execution is a sequence of whole operations and whole ticks whose callers meet their
  obligations; another cpu does not act inside a tick.
\<close>

theorem system_refines:
  fixes s :: "'a sync_state_scheme"
  assumes "sys_inv b s0" "reaches b s0 s"
  shows "astep\<^sup>*\<^sup>* (astate_of s0) (astate_of s)"
  using reaches_inv [OF assms(2,1)] by blast

theorem system_refines_witness:
  "\<exists>s s'. holder (a_mut (astate_of demo_sys) 1) = Some (Dyn_thread 0) \<and> sys_step 0 (Op_mutex_release 1) demo_sys = Some s \<and>
     holder (a_mut (astate_of s) 1) = None \<and> sys_step 0 (Op_mutex_release 0) s = Some s' \<and>
     astep\<^sup>*\<^sup>* (astate_of demo_sys) (astate_of s')"
proof -
  have mb: "may_block 0 0 demo_sys" by (simp add: may_block_def in_window_def ahead_def)
  have "wq_list (wqs demo_sys (WQ_mutex 1)) = []" by (simp add: demo_sys_def demo_sync_def)
  then obtain s where s: "mutex_release 0 1 demo_sys = Some s" "kinv 0 s" "current s = current demo_sys" "cur_time s = cur_time demo_sys"
      "threads s = (threads demo_sys)(Dyn_thread 0 := (threads demo_sys (Dyn_thread 0))\<lparr>t_cont := K_none, call_ret := NO_ERROR\<rparr>)"
      and A: "astate_of s = upd_mut 1 (\<lambda>x. x\<lparr>holder := None, m_count := m_count x - 1\<rparr>) (astate_of demo_sys)"
    using mutex_release_uncontended [OF demo_sys_inv, of 0 "Dyn_thread 0" 1] by auto
  have step1: "sys_step 0 (Op_mutex_release 1) demo_sys = Some s" using s(1,2) by (simp add: sys_step_def kinv_def)
  have r: "reaches 0 demo_sys s" by (rule step [OF start _ _ step1]) (use mb in simp_all)
  have m: "holder (a_mut (astate_of s) 1) = None" "mutexes s 0 = mutexes demo_sys 0"
    using arg_cong [OF A, of a_mut] by simp_all
  have mb': "may_block 0 0 s" using mb s(3-5) by (auto simp: may_block_def thread_is_idle_def has_flag_def)
  have ok: "op_ok 0 0 (Dyn_thread 0) (Op_mutex_release 0) s" using m(2) mb' by simp
  obtain s' where s': "sys_step 0 (Op_mutex_release 0) s = Some s'"
    using sys_step_ok [OF conjunct1 [OF reaches_inv [OF r demo_sys_inv]] _ ok] s(3) by auto
  have "reaches 0 demo_sys s'" by (rule step [OF r _ ok s']) (simp add: s(3))
  from system_refines [OF demo_sys_inv this] show ?thesis using step1 m(1) s' by (intro exI [of _ s] exI [of _ s']) simp
qed

definition mutex_owners :: "nat \<Rightarrow> 'a sync_state_scheme \<Rightarrow> tid set" where
  "mutex_owners m s = {t. holder (mutexes s m) = Some t} \<union>
     {t. live s t \<and> t_state (threads s t) \<noteq> THREAD_BLOCKED \<and> wait_queue_block_ret (threads s t) = NO_ERROR \<and>
         call_of (t_cont (threads s t)) = Some (C_mutex m)}"

lemma call_pend:
  assumes "live s t" "t_state (threads s t) \<noteq> THREAD_BLOCKED" "call_of (t_cont (threads s t)) = Some c"
  shows "pend (wq_of c) (abs_calls s) t = Some (Woken (wait_queue_block_ret (threads s t)))"
  using assms by (simp add: pend_def abs_calls_def abs_call_def call_wq_call)

text \<open>
  C3: mutual exclusion. At any time at most one thread owns a mutex: its holder, or the thread that
  \<open>mutex_release\<close> has handed it to and that has not run since.
\<close>

theorem mutex_exclusion:
  fixes s :: "'a sync_state_scheme"
  assumes "sys_inv b s0" "reaches b s0 s" "m_magic (mutexes s m) = MUTEX_MAGIC" "t \<in> mutex_owners m s" "u \<in> mutex_owners m s"
  shows "t = u"
proof -
  have "ainv (astate_of s)" using reaches_inv [OF assms(2,1)] sys_invD(3) by blast
  then have ok: "mutex_ok (mutexes s m) (pend (WQ_mutex m) (abs_calls s))" using ainvD(4) assms(3) by (force simp: mutex_inv_def)
  have w: "holder (mutexes s m) = Some v \<or> pend (WQ_mutex m) (abs_calls s) v = Some (Woken NO_ERROR)" if "v \<in> mutex_owners m s" for v
    using that call_pend [of s v "C_mutex m"] by (auto simp: mutex_owners_def)
  have n: "holder (mutexes s m) = None" if "pend (WQ_mutex m) (abs_calls s) v = Some (Woken NO_ERROR)" for v
    using mutex_okD(3) [OF ok that] by simp
  from w [OF assms(4)] show ?thesis
  proof
    assume t: "holder (mutexes s m) = Some t"
    then show ?thesis using w [OF assms(5)] n by fastforce
  next
    assume t: "pend (WQ_mutex m) (abs_calls s) t = Some (Woken NO_ERROR)"
    then show ?thesis using w [OF assms(5)] n [OF t] mutex_okD(4) [OF ok t] by auto
  qed
qed

theorem mutex_exclusion_witness: "Dyn_thread 0 \<in> mutex_owners 0 demo_sys \<and> Dyn_thread 2 \<notin> mutex_owners 0 demo_sys"
proof -
  have 0: "Dyn_thread 0 \<in> mutex_owners 0 demo_sys" by (simp add: mutex_owners_def)
  moreover have "Dyn_thread 2 \<in> mutex_owners 0 demo_sys \<Longrightarrow> Dyn_thread 0 = Dyn_thread 2"
    using mutex_exclusion [OF demo_sys_inv start _ 0] by simp
  ultimately show ?thesis by auto
qed






text \<open>
  C5: no thread waits on a signalled event, so a wait on an event never misses a signal that was
  given before it.
\<close>

theorem event_no_missed_signal:
  fixes s :: "'a sync_state_scheme"
  assumes "sys_inv b s0" "reaches b s0 s" "e_magic (events s e) = EVENT_MAGIC" "signaled (events s e)"
  shows "wq_list (wqs s (WQ_event e)) = []"
proof -
  have i: "sys_inv b s" using reaches_inv [OF assms(2,1)] by blast
  have ok: "event_ok (events s e) (pend (WQ_event e) (abs_calls s))"
    using ainvD(6) [OF sys_invD(3) [OF i], of e] assms(3) by (simp add: event_inv_def)
  have "\<not> waits_on (WQ_event e) (abs_calls s u)" for u
    using ok assms(4) pend_waiting [OF ainvD(1) [OF sys_invD(3) [OF i]], of "WQ_event e" u] by (simp add: event_ok_def)
  then show ?thesis using waiters_abs [OF sys_invD(6) [OF i], of "WQ_event e"] by (simp add: waiters_def)
qed

theorem event_no_missed_signal_witness:
  "\<exists>s. reaches 0 demo_sys s \<and> signaled (events s 0) \<and> wq_list (wqs s (WQ_event 0)) = []"
proof -
  let ?s = "event_init 0 True 0 demo_sys"
  have r: "reaches 0 demo_sys ?s"
    by (rule step [OF start, where cpu = 0 and t = "Dyn_thread 0" and op = "Op_event_init 0 True 0"])
      (simp_all add: sys_step_def sys_invD(5) [OF demo_sys_inv] event_init_def wait_queue_init_def upd_wq_def upd_event_def
        fresh_object_def demo_sys_calls demo_not_closing, auto simp: in_call_def demo_calls_def no_call_def)
  have e: "events ?s 0 = \<lparr>e_magic = EVENT_MAGIC, signaled = True, e_flags = 0\<rparr>"
    by (simp add: event_init_def wait_queue_init_def upd_wq_def upd_event_def)
  show ?thesis using event_no_missed_signal [OF demo_sys_inv r, of 0] r e by (intro exI [of _ ?s]) simp
qed

text \<open>
  C6: joining is safe for a single joiner. A thread that was woken in \<open>thread_join\<close> with success finds the
  thread it joins dead and not yet released, and is the only thread in a join on it; so the code after
  the wait never touches a thread struct that has been given back. This holds of executions whose
  callers meet \<open>op_ok\<close>: \<open>thread_join\<close> is not called on a thread that another thread is joining, and a dead
  thread is not detached while a thread is in a join on it. The code does not check either: a second
  joiner would wait on the same queue, be woken with the first, and find the thread already released.
\<close>

theorem join_finds_dead_thread:
  fixes s :: "'a sync_state_scheme"
  assumes "sys_inv b s0" "reaches b s0 s" "live s t" "t_state (threads s t) \<noteq> THREAD_BLOCKED"
    "call_of (t_cont (threads s t)) = Some (C_join u want)" "0 \<le> wait_queue_block_ret (threads s t)"
  shows "live s u \<and> t_state (threads s u) = THREAD_DEATH \<and>
    (\<forall>v w. live s v \<and> call_of (t_cont (threads s v)) = Some (C_join u w) \<longrightarrow> v = t)"
proof -
  have i: "sys_inv b s" using reaches_inv [OF assms(2,1)] by blast
  have j: "join_ok (abs_calls s u) (pend (WQ_retcode u) (abs_calls s))" using ainvD(2) [OF sys_invD(3) [OF i]] by (simp add: join_inv_def)
  have p: "pend (WQ_retcode u) (abs_calls s) t = Some (Woken (wait_queue_block_ret (threads s t)))" using call_pend [OF assms(3-5)] by simp
  then have "live s u \<and> a_dead (abs_calls s u)" using j assms(6) by (auto simp: join_ok_def)
  then have "live s u \<and> t_state (threads s u) = THREAD_DEATH" using abs_calls_cont(3) [of s u] by blast
  moreover have "v = t" if "live s v" "call_of (t_cont (threads s v)) = Some (C_join u w)" for v w
  proof -
    have "pend (WQ_retcode u) (abs_calls s) v \<noteq> None" using that call_wq_call(1) [OF that(2)] by (simp add: pend_def abs_calls_cont)
    then show ?thesis using j p unfolding join_ok_def by blast
  qed
  ultimately show ?thesis by blast
qed

theorem join_finds_dead_thread_witness: "live demo_join (Dyn_thread 4) \<and> t_state (threads demo_join (Dyn_thread 4)) = THREAD_DEATH"
  using join_finds_dead_thread [OF demo_join_inv start, of "Dyn_thread 1" "Dyn_thread 4" True]
  by (simp add: demo_join_threads demo_threads_def)

text \<open>
  C37: a wake-up of a mutex can be lost. When the only contender for a mutex has timed out in
  \<open>mutex_acquire_timeout\<close> but has not run since, its claim is still in the count; if the holder now
  releases the mutex and acquires it again, it blocks, and as long as the mutex is not destroyed it
  stays blocked and the mutex stays without a holder, whatever the other threads do.
\<close>

theorem mutex_lost_wakeup:
  fixes s :: "'a sync_state_scheme"
  assumes "sys_inv b s" "current s cpu = Some t" "m_magic (mutexes s m) = MUTEX_MAGIC" "holder (mutexes s m) = Some t"
    "m_count (mutexes s m) = 2" "wq_list (wqs s (WQ_mutex m)) = []" "may_block b cpu s"
  shows "\<exists>s1 s2. mutex_release cpu m s = Some s1 \<and> mutex_acquire cpu m s1 = Some s2 \<and>
    (\<forall>B. (\<lambda>A B. astep A B \<and> m_magic (a_mut B m) = MUTEX_MAGIC)\<^sup>*\<^sup>* (astate_of s2) B \<longrightarrow>
       holder (a_mut B m) = None \<and> waits_on (WQ_mutex m) (a_calls B t))"
proof -
  obtain s1 where s1: "mutex_release cpu m s = Some s1" "kinv b s1" "unlinked_ok s1" "current s1 = current s" "cur_time s1 = cur_time s"
      "threads s1 = (threads s)(t := (threads s t)\<lparr>t_cont := K_none, call_ret := NO_ERROR\<rparr>)"
      and A: "astate_of s1 = upd_mut m (\<lambda>x. x\<lparr>holder := None, m_count := m_count x - 1\<rparr>) (astate_of s)"
    using mutex_release_uncontended [OF assms(1-4,6)] by blast
  have c: "abs_calls s1 = abs_calls s" "mutexes s1 = (mutexes s)(m := (mutexes s m)\<lparr>holder := None, m_count := 1\<rparr>)"
    using arg_cong [OF A, of a_calls] arg_cong [OF A, of a_mut] assms(5) by simp_all
  have "mutex_astep (astate_of s) (astate_of s1)" unfolding A
    by (rule m_release [of _ t]) (use assms sys_enter(3) [OF assms(1,2)] waiters_abs [OF sys_invD(6) [OF assms(1)], of "WQ_mutex m"] in simp_all)
  from settled_inv [OF assms(1) astep_one(2) [OF this]] have inv: "sys_inv b s1" using s1 by (simp add: sys_inv_def)
  have mb: "may_block b cpu s1" using assms(2,7) s1 by (auto simp: may_block_def thread_is_idle_def has_flag_def)
  obtain s2 i where s2: "mutex_acquire cpu m s1 = Some s2" "astate_of s2 = upd_mut m (\<lambda>x. x\<lparr>m_count := m_count x + 1\<rparr>)
      ((astate_of s1)\<lparr>a_calls := block t (WQ_mutex m) (K_wq_block INFINITE_TIME (C_mutex m) i) (abs_calls s1)\<rparr>)"
    using mutex_acquire_contended [OF inv _ _ _ _ mb, of t m] assms c s1 by auto
  have ok: "mutex_ok (mutexes s m) (pend (WQ_mutex m) (abs_calls s))"
    using ainvD(4) [OF sys_invD(3) [OF assms(1)], of m] assms(3) by (simp add: mutex_inv_def)
  have n: "a_ret (abs_calls s u) < 0" if "in_call (C_mutex m) (abs_calls s u)" "a_wait (abs_calls s u) = None" for u
    using mutex_okD(3) [OF ok, of u] pend_in_call [of "C_mutex m" "abs_calls s" u] that assms(4) by simp
  have "stuck m t (astate_of s2)"
    by (rule stuck_after_block [OF sys_invD(3) [OF inv], where i = i]) (use s2(2) c assms n sys_enter(3) [OF assms(1,2)] in simp_all)
  then show ?thesis using s1(1) s2(1) stuck_steps by (fastforce simp: stuck_def)
qed

theorem mutex_lost_wakeup_witness:
  "\<exists>s1 s2. mutex_release 0 1 demo_sys = Some s1 \<and> mutex_acquire 0 1 s1 = Some s2 \<and>
     holder (mutexes s2 1) = None \<and> waits_on (WQ_mutex 1) (abs_calls s2 (Dyn_thread 0))"
proof -
  have "wq_list (wqs demo_sys (WQ_mutex 1)) = []" by (simp add: demo_sys_def demo_sync_def)
  moreover have "may_block 0 0 demo_sys" by (simp add: may_block_def in_window_def ahead_def)
  moreover have "mutexes demo_sys 1 = \<lparr>m_magic = MUTEX_MAGIC, holder = Some (Dyn_thread 0), m_count = 2\<rparr>" by simp
  ultimately obtain s1 s2 where s: "mutex_release 0 1 demo_sys = Some s1" "mutex_acquire 0 1 s1 = Some s2"
    "\<forall>B. (\<lambda>A B. astep A B \<and> m_magic (a_mut B 1) = MUTEX_MAGIC)\<^sup>*\<^sup>* (astate_of s2) B \<longrightarrow>
       holder (a_mut B 1) = None \<and> waits_on (WQ_mutex 1) (a_calls B (Dyn_thread 0))"
    using mutex_lost_wakeup [OF demo_sys_inv, of 0 "Dyn_thread 0" 1] by auto
  from s(3) have "holder (a_mut (astate_of s2) 1) = None \<and> waits_on (WQ_mutex 1) (a_calls (astate_of s2) (Dyn_thread 0))" by blast
  then show ?thesis using s by auto
qed

end
