(* ===== verification/Tick_Race.thy ===== *)
theory Tick_Race
  imports System_Demo
begin

text \<open>
  The window of \<open>timer_tick\<close> in which \<open>timer_lock\<close> is free. In the transition system a tick is one step;
  here another cpu acts between the parts of a tick, and the tick then calls a null pointer.
\<close>

section \<open>The rest of a blocking call\<close>

lemma end_call_timers: "end_call cpu i r s = Some s' \<Longrightarrow> timers s' = timers s"
  by (auto simp: end_call_def THREAD_UNLOCK_def upd_thread_def bind_eq_Some_conv)

lemma join_tail_timers: "thread_join_tail cpu t want i s = Some s' \<Longrightarrow> timers s' = timers s"
  by (auto simp: thread_join_tail_def bind_eq_Some_conv Let_def guard_that_def upd_thread_def dest!: end_call_timers split: if_splits)

lemma caller_tail_timers:
  assumes "caller_tail cpu c i r s = Some s'"
  shows "timers s' = timers s"
  using assms
  by (cases c) (auto simp: caller_tail_def thread_join_return_def mutex_acquire_tail_def sem_timedwait_tail_def
      upd_mutex_def upd_sem_def dest!: end_call_timers join_tail_timers split: if_splits)

lemma timer_cancel_callback: "timer_cancel cpu tm s = Some s' \<Longrightarrow> tm_callback (timers s' tm) = None"
  by (auto simp: timer_cancel_def Let_def bind_eq_Some_conv guard_that_def stop_timer_def set_oneshot_timer_def
      upd_timer_def split: option.splits if_splits)

lemma timer_cancel_some: "tm_magic (timers s tm) = TIMER_MAGIC \<Longrightarrow> \<exists>s'. timer_cancel cpu tm s = Some s'"
  by (auto simp: timer_cancel_def Let_def split: option.splits)

lemma timer_cancel_current: "timer_cancel cpu tm s = Some s' \<Longrightarrow> current s' = current s"
  by (auto simp: timer_cancel_def Let_def bind_eq_Some_conv guard_that_def stop_timer_def set_oneshot_timer_def
      upd_timer_def unlink_timer_def split: option.splits if_splits)

lemma resume_cancels:
  assumes "resume_thread cpu s = Some s'" "current s cpu = Some t" "t_cont (threads s t) = K_wq_block tmo c i" "tmo \<noteq> INFINITE_TIME"
  shows "tm_callback (timers s' (TM_wait t)) = None"
  using assms by (auto simp: resume_thread_def wait_queue_block_tail_def bind_eq_Some_conv
      dest!: caller_tail_timers timer_cancel_callback)

section \<open>Two cpus\<close>

text \<open>
  Thread 1 has been woken in \<open>event_wait_timeout\<close> on event 0 and is ready to run; its timer is due and still in
  the queue of cpu 0, which is in its timer interrupt. Cpu 1 runs its idle thread.
\<close>

definition race_sys :: sync_state where
  "race_sys = demo_sys\<lparr>
     timers := demo_timers(TM_wait (Dyn_thread 1) := \<lparr>tm_magic = TIMER_MAGIC, tm_linked = True, scheduled_time = 3,
       periodic_time = 0, tm_callback = Some CB_wait_queue_timeout, tm_arg = Arg_thread (Dyn_thread 1)\<rparr>),
     timer_queue := (\<lambda>c. if c = 0 then [TM_wait (Dyn_thread 1), TM_preempt 0, TM_sleep (Dyn_thread 3)] else []),
     threads := (threads demo_sys)(Dyn_thread 1 := (threads demo_sys (Dyn_thread 1))\<lparr>t_cont := K_wq_block 10 (C_event 0) False,
         wait_queue_block_ret := NO_ERROR\<rparr>,
       Idle_thread 1 := (demo_thread 0 THREAD_RUNNING K_none)\<lparr>t_flags := 17, pinned_cpu := 1, curr_cpu := 1\<rparr>),
     current := (\<lambda>c. if c = 0 then Some (Dyn_thread 0) else if c = 1 then Some (Idle_thread 1) else None),
     thread_list := Idle_thread 1 # thread_list demo_sys, ints_disabled := (\<lambda>c. c = 0),
     active_cpus := 3, idle_cpus := 2,
     mutexes := (mutexes demo_sys)(1 := \<lparr>m_magic = MUTEX_MAGIC, holder = Some (Dyn_thread 0), m_count = 1\<rparr>),
     events := (events demo_sys)(0 := \<lparr>e_magic = EVENT_MAGIC, signaled = True, e_flags = 0\<rparr>)\<rparr>"

text \<open>An idle cpu on which the only ready thread is \<open>t\<close> switches to it when it is preempted.\<close>

lemma top_of_20:
  assumes "run_queue_bitmap s = 0x100000" "run_queue s 20 = [t]" "pinned_cpu (threads s t) < 0"
  shows "get_top_thread cpu s = (t, take_from_run_queue 20 t s)"
proof -
  have "builtin_clz 0x100000 = 11" by code_simp
  then show ?thesis using assms by (simp add: get_top_thread_def get_top_loop.simps eligible_def)
qed

lemmas resched_defs = resched_account_def switch_owner_def switch_cpu_masks_def switch_stats_def
  mp_set_cpu_busy_def mp_set_cpu_idle_def mp_set_cpu_realtime_def mp_set_cpu_non_realtime_def

lemma idle_preempt:
  assumes c: "current s c = Some u" "\<not> thread_lock s"
    and u: "t_magic (threads s u) = THREAD_MAGIC" "t_state (threads s u) = THREAD_RUNNING" "t_flags (threads s u) = 17" "aspace (threads s u) = None"
    and t: "t \<noteq> u" "pinned_cpu (threads s t) < 0" "t_flags (threads s t) = 0" "aspace (threads s t) = None"
    and q: "run_queue_bitmap s = 0x100000" "run_queue s 20 = [t]"
    and p: "tm_magic (timers s (TM_preempt c)) = TIMER_MAGIC" "\<not> tm_linked (timers s (TM_preempt c))"
  shows "\<exists>s'. thread_preempt c s = Some s' \<and> thread_lock s' \<and> current s' c = Some t \<and>
    t_cont (threads s' t) = t_cont (threads s t) \<and> timers s' (TM_wait t) = timers s (TM_wait t)"
proof -
  have f: "thread_is_idle (th\<lparr>t_state := x\<rparr>) = thread_is_idle th" for th x by (simp add: thread_is_idle_def has_flag_def)
  define s1 where "s1 = upd_stats c (\<lambda>st. st\<lparr>reschedules := reschedules st + 1\<rparr>)
    (upd_thread u (\<lambda>th. th\<lparr>t_cont := K_unlock (ints_disabled s c)\<rparr>) (upd_thread u (\<lambda>th. th\<lparr>t_state := THREAD_READY\<rparr>) (locked c s)))"
  have top: "get_top_thread c s1 = (t, take_from_run_queue 20 t s1)"
    by (rule top_of_20) (use t q in \<open>simp_all add: s1_def\<close>)
  define s3 where "s3 = upd_thread t (\<lambda>th. th\<lparr>t_state := THREAD_RUNNING\<rparr>) (take_from_run_queue 20 t s1)"
  define s4 where "s4 = resched_account c u t s3"
  have i: "thread_is_idle (threads s u)" "thread_is_real_time_or_idle (threads s4 u)" "\<not> thread_is_real_time_or_idle (threads s4 t)"
    "\<not> has_flag (threads s4 u) THREAD_FLAG_DEBUG_STACK_BOUNDS_CHECK" "aspace (threads s4 u) = None" "aspace (threads s4 t) = None"
    using u t unfolding s4_def s3_def s1_def
    by (simp_all add: resched_defs take_from_run_queue_def Let_def thread_is_idle_bit thread_is_real_time_or_idle_bit has_flag_def bit_numeral_simps)
  have tm: "timers s4 = timers s" "t_cont (threads s4 t) = t_cont (threads s t)" "thread_lock s4" "current s4 = current s"
    using u t c unfolding s4_def s3_def s1_def
    by (simp_all add: resched_defs take_from_run_queue_def Let_def upd_thread_def upd_stats_def)
  obtain s5 where s5: "resched_preempt_timer c u t s4 = Some s5" "threads s5 = threads s4" "thread_lock s5" "current s5 = current s"
      "timers s5 (TM_wait t) = timers s (TM_wait t)"
    using i(2,3) tm p
    by (simp add: resched_preempt_timer_def timer_set_periodic_def timer_set_def insert_timer_in_queue_def set_oneshot_timer_def upd_timer_def Let_def)
  have "thread_preempt c s = Some (s5\<lparr>current := (current s5)(c := Some t)\<rparr>)"
    using c u t i s5 top
    by (simp add: thread_preempt_def THREAD_LOCK_def resched_then_def thread_resched_def s4_def s3_def s1_def f)
  then show ?thesis using s5 tm by simp
qed

section \<open>The race\<close>

text \<open>One round of the loop of a tick, with an operation of cpu \<open>c\<close> while \<open>timer_lock\<close> is free.\<close>

definition fire_timer_during ::
  "nat \<Rightarrow> sysop \<Rightarrow> nat \<Rightarrow> u32 \<Rightarrow> timer_id \<Rightarrow> sync_state \<Rightarrow> (handler_return \<times> sync_state) option" where
  "fire_timer_during c op cpu now tm s = do {
     s1 \<leftarrow> tick_unlink tm s;
     s2 \<leftarrow> sys_step c op s1;
     (periodic, r, s3) \<leftarrow> tick_call (run_timer_callback cpu) cpu now tm s2;
     Some (r, tick_requeue cpu now tm periodic s3) }"

text \<open>
  C36: the window of \<open>timer_tick\<close>. If, after a tick took the timer of a timed wait off its queue and
  released \<open>timer_lock\<close>, another cpu switches to the woken thread \<open>t\<close> of that wait, which then runs the rest of
  its blocking call, the operation of the other cpu succeeds but the tick faults: \<open>t\<close> has cancelled the
  timer, so the callback that the tick calls is NULL.
\<close>

theorem tick_window_race:
  assumes "tick_unlink (TM_wait t) s = Some s1" "run_op c op s1 = Some s2" "thread_lock s2" "current s2 c = Some t"
    "t_cont (threads s2 t) = K_wq_block tmo d i" "tmo \<noteq> INFINITE_TIME" "resume_thread c s2 = Some s3"
  shows "sys_step c op s1 = Some s3 \<and> fire_timer_during c op cpu now (TM_wait t) s = None"
proof -
  have "tm_callback (timers s3 (TM_wait t)) = None" using resume_cancels assms(4-7) by blast
  then show ?thesis using assms by (simp add: sys_step_def fire_timer_during_def tick_call_def upd_stats_def Let_def)
qed

lemma race_unlinked:
  fixes s1 :: sync_state
  defines "s1 \<equiv> unlink_timer (TM_wait (Dyn_thread 1)) race_sys"
  shows "\<exists>s2. thread_preempt 1 s1 = Some s2 \<and> thread_lock s2 \<and> current s2 1 = Some (Dyn_thread 1) \<and>
    t_cont (threads s2 (Dyn_thread 1)) = K_wq_block 10 (C_event 0) False \<and> timers s2 (TM_wait (Dyn_thread 1)) = timers s1 (TM_wait (Dyn_thread 1))"
proof -
  have tc: "t_cont (threads s1 (Dyn_thread 1)) = K_wq_block 10 (C_event 0) False"
    by (simp add: s1_def unlink_timer_def upd_timer_def race_sys_def demo_sys_def)
  have "\<exists>s2. thread_preempt 1 s1 = Some s2 \<and> thread_lock s2 \<and> current s2 1 = Some (Dyn_thread 1) \<and>
    t_cont (threads s2 (Dyn_thread 1)) = t_cont (threads s1 (Dyn_thread 1)) \<and> timers s2 (TM_wait (Dyn_thread 1)) = timers s1 (TM_wait (Dyn_thread 1))"
    by (rule idle_preempt [where u = "Idle_thread 1"]) (simp_all add: s1_def unlink_timer_def upd_timer_def race_sys_def demo_sys_def
       demo_sync_def upd_thread_def demo_timers_def demo_threads_def, simp_all add: demo_def demo_thread_def zero_thread_def demo_threads_def)
  then show ?thesis unfolding tc .
qed

lemma event_wait_resumes:
  assumes "current s c = Some t" "t_cont (threads s t) = K_wq_block tmo (C_event e) i" "tm_magic (timers s (TM_wait t)) = TIMER_MAGIC"
  shows "\<exists>s'. resume_thread c s = Some s'"
proof -
  obtain s1 where s1: "timer_cancel c (TM_wait t) s = Some s1" "current s1 = current s"
    using timer_cancel_some [OF assms(3)] timer_cancel_current by blast
  show ?thesis using assms(1,2) s1
    by (cases "tmo = INFINITE_TIME") (auto simp: resume_thread_def wait_queue_block_tail_def caller_tail_def end_call_def)
qed

lemma race_alone: "fire_timer (run_timer_callback 0) 0 5 (TM_wait (Dyn_thread 1)) race_sys \<noteq> None"
  by (simp add: fire_timer_def tick_unlink_def tick_call_def unlink_timer_def upd_timer_def upd_stats_def run_timer_callback_def
      wait_queue_timeout_handler_def thread_unblock_from_wait_queue_def race_sys_def demo_sys_def demo_sync_def demo_threads_def)

theorem tick_window_race_witness:
  "\<exists>s1 s3. tick_unlink (TM_wait (Dyn_thread 1)) race_sys = Some s1 \<and> sys_step 1 Op_preempt s1 = Some s3 \<and>
     fire_timer (run_timer_callback 0) 0 5 (TM_wait (Dyn_thread 1)) race_sys \<noteq> None \<and>
     fire_timer_during 1 Op_preempt 0 5 (TM_wait (Dyn_thread 1)) race_sys = None"
proof -
  let ?t = "Dyn_thread 1"
  let ?s1 = "unlink_timer (TM_wait ?t) race_sys"
  have u: "tick_unlink (TM_wait ?t) race_sys = Some ?s1" by (simp add: tick_unlink_def race_sys_def)
  obtain s2 where s2: "run_op 1 Op_preempt ?s1 = Some s2" "thread_lock s2" "current s2 1 = Some ?t"
      "t_cont (threads s2 ?t) = K_wq_block 10 (C_event 0) False" "timers s2 (TM_wait ?t) = timers ?s1 (TM_wait ?t)"
    using race_unlinked unfolding run_op.simps by blast
  have "tm_magic (timers s2 (TM_wait ?t)) = TIMER_MAGIC" unfolding s2(5) by (simp add: unlink_timer_def upd_timer_def race_sys_def)
  then obtain s3 where s3: "resume_thread 1 s2 = Some s3" using event_wait_resumes [OF s2(3,4)] by blast
  have "(10 :: u32) \<noteq> INFINITE_TIME" by simp
  from tick_window_race [OF u s2(1-4) this s3] u race_alone show ?thesis by blast
qed

end
