(* ===== verification/Fs_Path.thy ===== *)
theory Fs_Path
  imports Prelude
begin

text \<open>
  Paths of the file system layer (\<open>lib/fs/fs.c\<close>): \<open>fs_normalize_path\<close> is a state machine that rewrites
  a path in its own buffer. A buffer is a list of characters; a read or write outside it is \<open>None\<close>. The
  machine is proved equivalent to the specification \<open>normalized\<close>: split the path into fields, drop empty
  fields and \<open>.\<close>, let \<open>..\<close> remove the field before it, and join what is left.
\<close>

section \<open>The state machine\<close>

abbreviation (input) NUL :: char where "NUL \<equiv> CHR 0x00"
abbreviation (input) slash :: char where "slash \<equiv> CHR ''/''"
abbreviation (input) dot :: char where "dot \<equiv> CHR ''.''"

definition trim_name :: "string \<Rightarrow> string" where
  "trim_name name = dropWhile (\<lambda>c. c = slash) (dropWhile (\<lambda>c. c = CHR '' '') name)"

datatype norm_state = INITIAL | FIELD_START | IN_FIELD | SEP | SEEN_SEP | DOT | SEEN_DOT | DOTDOT | SEEN_DOTDOT

definition get_char :: "string \<Rightarrow> nat \<Rightarrow> char option" where
  "get_char path i = (if i < length path then Some (path ! i) else None)"

definition put_char :: "string \<Rightarrow> nat \<Rightarrow> char \<Rightarrow> string option" where
  "put_char path i c = (if i < length path then Some (path[i := c]) else None)"

text \<open>The loop that walks back to the end of the field before.\<close>

fun walk_back :: "string \<Rightarrow> nat \<Rightarrow> nat" where
  "walk_back path 0 = 0"
| "walk_back path (Suc n) = (if path ! n = slash then Suc n else walk_back path n)"

fun state_rank :: "norm_state \<Rightarrow> nat" where
  "state_rank SEP = 0" | "state_rank DOT = 0" | "state_rank DOTDOT = 0" | "state_rank IN_FIELD = 1"
| "state_rank FIELD_START = 2" | "state_rank SEEN_SEP = 3" | "state_rank SEEN_DOT = 3"
| "state_rank SEEN_DOTDOT = 3" | "state_rank INITIAL = 3"

lemma put_char_length [simp]: "put_char path i c = Some path' \<Longrightarrow> length path' = length path"
  by (auto simp: put_char_def split: if_splits)

function (sequential) normalize_loop :: "norm_state \<Rightarrow> string \<Rightarrow> nat \<Rightarrow> nat \<Rightarrow> (string \<times> nat) option" where
  "normalize_loop state path pos outpos = (case get_char path pos of None \<Rightarrow> None | Some c \<Rightarrow>
     (case state of
        INITIAL \<Rightarrow>
          normalize_loop (if c = slash then SEP else if c = dot then DOT else FIELD_START) path pos outpos
      | FIELD_START \<Rightarrow>
          if c = dot then normalize_loop DOT path pos outpos
          else if c = NUL then Some (path, outpos)
          else normalize_loop IN_FIELD path pos outpos
      | IN_FIELD \<Rightarrow>
          if c = slash then normalize_loop SEP path pos outpos
          else if c = NUL then Some (path, outpos)
          else (case put_char path outpos c of None \<Rightarrow> None
                | Some path' \<Rightarrow> normalize_loop IN_FIELD path' (pos + 1) (outpos + 1))
      | SEP \<Rightarrow>
          (case put_char path outpos slash of None \<Rightarrow> None
           | Some path' \<Rightarrow> normalize_loop SEEN_SEP path' (pos + 1) (outpos + 1))
      | SEEN_SEP \<Rightarrow>
          if c = slash then normalize_loop SEEN_SEP path (pos + 1) outpos
          else if c = NUL then Some (path, outpos)
          else normalize_loop FIELD_START path pos outpos
      | DOT \<Rightarrow> normalize_loop SEEN_DOT path (pos + 1) outpos
      | SEEN_DOT \<Rightarrow>
          if c = dot then normalize_loop DOTDOT path pos outpos
          else if c = slash then normalize_loop SEEN_SEP path (pos + 1) outpos
          else if c = NUL then Some (path, outpos)
          else (case put_char path outpos dot of None \<Rightarrow> None
                | Some path' \<Rightarrow> normalize_loop IN_FIELD path' pos (outpos + 1))
      | DOTDOT \<Rightarrow> normalize_loop SEEN_DOTDOT path (pos + 1) outpos
      | SEEN_DOTDOT \<Rightarrow>
          if c = slash \<or> c = NUL then
            let outpos' = (if outpos > 0 then walk_back path (outpos - 1) else outpos)
            in if c = NUL then Some (path, outpos')
               else normalize_loop SEEN_SEP path (pos + 1) outpos'
          else (case Option.bind (put_char path outpos dot) (\<lambda>p. put_char p (outpos + 1) dot) of
                  None \<Rightarrow> None
                | Some path' \<Rightarrow> normalize_loop IN_FIELD path' pos (outpos + 2))))"
  by pat_completeness auto
termination
  by (relation "measures [\<lambda>(state, path, pos, outpos). length path - pos, \<lambda>(state, path, pos, outpos). state_rank state]")
    (auto simp: get_char_def bind_Some_iff split: if_splits)

declare normalize_loop.simps [simp del] put_char_length [simp del]

definition fs_normalize_path :: "string \<Rightarrow> string option" where
  "fs_normalize_path path = do {
     (path, outpos) \<leftarrow> normalize_loop INITIAL path 0 0;
     let outpos = (if outpos > 0 \<and> path ! (outpos - 1) = slash then outpos - 1 else outpos);
     put_char path outpos NUL
   }"

section \<open>Specification\<close>

function path_fields :: "string \<Rightarrow> string list" where
  "path_fields [] = []"
| "path_fields (c # s) = (if c = slash then path_fields s
     else (c # takeWhile (\<lambda>c. c \<noteq> slash) s) # path_fields (dropWhile (\<lambda>c. c \<noteq> slash) s))"
  by pat_completeness auto
termination
  by (relation "measure length") (auto simp: le_imp_less_Suc length_dropWhile_le)

definition field_step :: "string list \<Rightarrow> string \<Rightarrow> string list" where
  "field_step stack field = (if field = [dot] then stack
     else if field = [dot, dot] then butlast stack else stack @ [field])"

fun join_fields :: "string list \<Rightarrow> string" where
  "join_fields [] = []"
| "join_fields [f] = f"
| "join_fields (f # fs) = f @ slash # join_fields fs"

definition root_fields :: "string \<Rightarrow> string list" where
  "root_fields path = (case path of c # _ \<Rightarrow> if c = slash then [[]] else [] | [] \<Rightarrow> [])"

definition normalized_fields :: "string \<Rightarrow> string list" where
  "normalized_fields path = foldl field_step (root_fields path) (path_fields path)"

definition normalized :: "string \<Rightarrow> string" where
  "normalized path = join_fields (normalized_fields path)"

text \<open>The string in a buffer.\<close>

definition cstr :: "string \<Rightarrow> string" where
  "cstr buf = takeWhile (\<lambda>c. c \<noteq> NUL) buf"

section \<open>The machine on a split buffer\<close>

text \<open>
  The buffer is what has been written, a gap of consumed characters and the unread rest; \<open>normalize_loop\<close>
  reads the first character of the rest and writes into the gap, which is never overtaken.
\<close>

definition run :: "norm_state \<Rightarrow> string \<Rightarrow> string \<Rightarrow> string \<Rightarrow> (string \<times> nat) option" where
  "run state out gap rest = normalize_loop state (out @ gap @ rest) (length out + length gap) (length out)"

lemma get_char_split [simp]: "get_char (out @ gap @ c # rest) (length out + length gap) = Some c"
  by (simp add: get_char_def nth_append)

lemma put_char_split: "gap \<noteq> [] \<Longrightarrow>
    put_char (out @ gap @ rest) (length out) c = Some ((out @ [c]) @ tl gap @ rest)"
  by (cases gap) (simp_all add: put_char_def)

lemma walk_back_field:
  "slash \<notin> set f \<Longrightarrow> out = [] \<or> last out = slash \<Longrightarrow>
    walk_back (out @ f @ rest) (length out + length f) = length out"
proof (induction f arbitrary: rest rule: rev_induct)
  case Nil then show ?case by (cases out rule: rev_cases) (auto simp: nth_append)
next
  case (snoc c f)
  then show ?case using snoc.IH [of "c # rest"] by (auto simp add: nth_append)
qed

lemma run_INITIAL: "run INITIAL out gap (c # rest) =
    run (if c = slash then SEP else if c = dot then DOT else FIELD_START) out gap (c # rest)"
  by (simp add: run_def normalize_loop.simps [of INITIAL])

lemma run_FIELD_START: "run FIELD_START out gap (c # rest) =
    (if c = dot then run DOT out gap (c # rest)
     else if c = NUL then Some (out @ gap @ c # rest, length out) else run IN_FIELD out gap (c # rest))"
  by (simp add: run_def normalize_loop.simps [of FIELD_START])

lemma run_IN_FIELD: "run IN_FIELD out gap (c # rest) =
    (if c = slash then run SEP out gap (c # rest)
     else if c = NUL then Some (out @ gap @ c # rest, length out)
     else run IN_FIELD (out @ [c]) (tl (gap @ [c])) rest)"
  using put_char_split [of "gap @ [c]" out rest c]
  by (simp add: run_def normalize_loop.simps [of IN_FIELD])

lemma run_SEP: "run SEP out gap (slash # rest) = run SEEN_SEP (out @ [slash]) (tl (gap @ [slash])) rest"
  using put_char_split [of "gap @ [slash]" out rest slash]
  by (simp add: run_def normalize_loop.simps [of SEP])

lemma run_SEEN_SEP: "run SEEN_SEP out gap (c # rest) =
    (if c = slash then run SEEN_SEP out (gap @ [c]) rest
     else if c = NUL then Some (out @ gap @ c # rest, length out) else run FIELD_START out gap (c # rest))"
  by (simp add: run_def normalize_loop.simps [of SEEN_SEP])

lemma run_DOT: "run DOT out gap (c # rest) = run SEEN_DOT out (gap @ [c]) rest"
  by (simp add: run_def normalize_loop.simps [of DOT])

lemma gap_pos: "gap \<noteq> [] \<Longrightarrow> Suc (length out + (length gap - Suc 0)) = length out + length gap"
  by (cases gap) simp_all

lemma run_SEEN_DOT: "gap \<noteq> [] \<Longrightarrow> run SEEN_DOT out gap (c # rest) =
    (if c = dot then run DOTDOT out gap (c # rest)
     else if c = slash then run SEEN_SEP out (gap @ [c]) rest
     else if c = NUL then Some (out @ gap @ c # rest, length out)
     else run IN_FIELD (out @ [dot]) (tl gap) (c # rest))"
  using put_char_split [of gap out "c # rest" dot]
  by (simp add: gap_pos run_def normalize_loop.simps [of SEEN_DOT])

lemma run_DOTDOT: "run DOTDOT out gap (c # rest) = run SEEN_DOTDOT out (gap @ [c]) rest"
  by (simp add: run_def normalize_loop.simps [of DOTDOT])

text \<open>The fields that have been written, each with its separator.\<close>

definition written :: "string list \<Rightarrow> string" where
  "written stack = concat (map (\<lambda>f. f @ [slash]) stack)"

lemma written_simps [simp]:
  "written [] = []"
  "written (stack @ [f]) = written stack @ f @ [slash]"
  by (simp_all add: written_def)

lemma written_last: "written stack = [] \<or> last (written stack) = slash"
  by (cases stack rule: rev_cases) simp_all

lemma walk_back_written:
  assumes "\<forall>f\<in>set stack. slash \<notin> set f"
  shows "(if length (written stack) > 0 then walk_back (written stack @ rest) (length (written stack) - 1)
     else length (written stack)) = length (written (butlast stack))"
  using assms walk_back_field [OF _ written_last, of "last stack" "butlast stack" "slash # rest"]
  by (cases stack rule: rev_cases) auto

lemma written_butlast: "take (length (written (butlast stack))) (written stack) = written (butlast stack)"
  by (cases stack rule: rev_cases) simp_all

lemma run_SEEN_DOTDOT_field:
  assumes "\<forall>f\<in>set stack. slash \<notin> set f" "c = slash \<or> c = NUL"
  shows "\<exists>gap'. length (written (butlast stack)) + length gap' = length (written stack) + length gap + (if c = NUL then 0 else 1) \<and>
    run SEEN_DOTDOT (written stack) gap (c # rest) =
    (if c = NUL then Some (written (butlast stack) @ gap' @ c # rest, length (written (butlast stack)))
     else run SEEN_SEP (written (butlast stack)) gap' rest)"
proof -
  let ?w = "written stack" and ?n = "length (written (butlast stack))"
  have w: "?w = written (butlast stack) @ drop ?n ?w"
    using written_butlast [of stack] by (metis append_take_drop_id)
  define d where "d = drop ?n ?w"
  have w': "?w = written (butlast stack) @ d" using w by (simp add: d_def)
  have l: "length ?w = ?n + length d" using arg_cong [OF w', of length] by simp
  note b = walk_back_written [OF assms(1), of "gap @ c # rest"]
  have "run SEEN_DOTDOT ?w gap (c # rest) =
    (if c = NUL then Some (?w @ gap @ c # rest, ?n) else normalize_loop SEEN_SEP (?w @ gap @ c # rest) (Suc (length ?w + length gap)) ?n)"
    using assms(2) b by (simp add: run_def normalize_loop.simps [of SEEN_DOTDOT] Let_def del: length_greater_0_conv)
  also have "\<dots> = (if c = NUL then Some (written (butlast stack) @ (d @ gap) @ c # rest, ?n)
      else run SEEN_SEP (written (butlast stack)) (d @ gap @ [c]) rest)"
    unfolding run_def using w' l by (simp add: add.assoc)
  finally show ?thesis using l by (intro exI [of _ "if c = NUL then d @ gap else d @ gap @ [c]"]) simp
qed

lemma run_SEEN_DOTDOT_other:
  assumes "length gap \<ge> 2" "c \<noteq> slash" "c \<noteq> NUL"
  shows "run SEEN_DOTDOT out gap (c # rest) = run IN_FIELD (out @ [dot, dot]) (tl (tl gap)) (c # rest)"
proof -
  obtain a b gap' where g: "gap = a # b # gap'" using assms(1) by (metis Suc_le_length_iff numeral_2_eq_2)
  have c: "get_char (out @ a # b # gap' @ c # rest) (Suc (Suc (length out + length gap'))) = Some c"
    by (simp add: get_char_def nth_append)
  have p: "put_char (out @ a # b # gap' @ c # rest) (length out) dot = Some (out @ dot # b # gap' @ c # rest)"
    "put_char (out @ dot # b # gap' @ c # rest) (Suc (length out)) dot = Some (out @ dot # dot # gap' @ c # rest)"
    by (simp_all add: put_char_def list_update_append)
  show ?thesis using assms(2,3) c p unfolding run_def g by (subst normalize_loop.simps) simp
qed

section \<open>One field\<close>

text \<open>A field of a path: what stands between separators.\<close>

definition field_chars :: "string \<Rightarrow> bool" where
  "field_chars f \<longleftrightarrow> slash \<notin> set f \<and> NUL \<notin> set f"

definition field_list :: "string list \<Rightarrow> bool" where
  "field_list stack \<longleftrightarrow> (\<forall>f\<in>set stack. field_chars f)"

lemma field_list_Cons [simp]: "field_list (f # stack) \<longleftrightarrow> field_chars f \<and> field_list stack"
  by (auto simp: field_list_def)

lemma field_list_step: "field_list stack \<Longrightarrow> field_chars f \<Longrightarrow> field_list (field_step stack f)"
  by (auto simp: field_list_def field_step_def dest: in_set_butlastD)

lemma run_IN_FIELD_field:
  "field_chars f \<Longrightarrow> \<exists>gap'. length gap' = length gap \<and>
    run IN_FIELD out gap (f @ c # rest) = run IN_FIELD (out @ f) gap' (c # rest)"
proof (induction f arbitrary: out gap)
  case Nil show ?case by (intro exI [of _ gap]) simp
next
  case (Cons a f)
  have "field_chars f" using Cons.prems by (simp add: field_chars_def)
  from Cons.IH [OF this, of "tl (gap @ [a])" "out @ [a]"] show ?case
    using Cons.prems by (auto simp: run_IN_FIELD field_chars_def)
qed

text \<open>The output after a field: the trailing separator is removed at the end of the path only.\<close>

definition strip_slash :: "string \<Rightarrow> string" where
  "strip_slash out = (if out \<noteq> [] \<and> last out = slash then butlast out else out)"

lemma join_fields_snoc: "join_fields (stack @ [f]) = written stack @ f"
  by (induction stack rule: join_fields.induct) (simp_all add: written_def)

lemma strip_written [simp]: "strip_slash (written stack) = join_fields stack"
  by (cases stack rule: rev_cases) (simp_all add: strip_slash_def join_fields_snoc butlast_append)

lemma strip_field: "field_chars f \<Longrightarrow> f \<noteq> [] \<Longrightarrow> strip_slash (written stack @ f) = join_fields (stack @ [f])"
  by (cases f rule: rev_cases) (auto simp add: strip_slash_def join_fields_snoc field_chars_def)

text \<open>What the machine does from the start of a field to its end.\<close>

definition after_field :: "string list \<Rightarrow> string \<Rightarrow> char \<Rightarrow> string \<Rightarrow> nat \<Rightarrow> (string \<times> nat) option \<Rightarrow> bool" where
  "after_field stack f c rest n r \<longleftrightarrow> (if c = NUL
     then \<exists>out gap. r = Some (out @ gap @ c # rest, length out) \<and> length out + length gap = n \<and>
       strip_slash out = join_fields (field_step stack f)
     else \<exists>gap. r = run SEEN_SEP (written (field_step stack f)) gap rest \<and>
       length (written (field_step stack f)) + length gap = n + 1)"

lemma after_fieldI:
  "r = Some (out @ gap @ NUL # rest, length out) \<Longrightarrow> length out + length gap = n \<Longrightarrow>
    strip_slash out = join_fields (field_step stack f) \<Longrightarrow> after_field stack f NUL rest n r"
  "r = run SEEN_SEP (written (field_step stack f)) gap rest \<Longrightarrow>
    length (written (field_step stack f)) + length gap = n + 1 \<Longrightarrow> after_field stack f slash rest n r"
  by (auto simp: after_field_def)

lemma after_IN_FIELD:
  assumes f: "field_chars (g @ f)" "g @ f \<noteq> []" "g @ f \<noteq> [dot]" "g @ f \<noteq> [dot, dot]"
    and c: "c = slash \<or> c = NUL" and n: "n = length (written stack @ g) + length gap + length f"
  shows "after_field stack (g @ f) c rest n (run IN_FIELD (written stack @ g) gap (f @ c # rest))"
proof -
  have "field_chars f" using f(1) by (simp add: field_chars_def)
  from run_IN_FIELD_field [OF this, of gap "written stack @ g" c rest]
  obtain gap' where l: "length gap' = length gap"
    and r: "run IN_FIELD (written stack @ g) gap (f @ c # rest) = run IN_FIELD (written stack @ g @ f) gap' (c # rest)"
    by auto
  have s: "field_step stack (g @ f) = stack @ [g @ f]" using f by (simp add: field_step_def)
  show ?thesis using c
  proof
    assume c: "c = slash"
    show ?thesis unfolding r unfolding c using l n
      by (intro after_fieldI(2) [of _ _ _ "tl (gap' @ [slash])"]) (simp_all add: run_IN_FIELD run_SEP s)
  next
    assume c: "c = NUL"
    show ?thesis unfolding r unfolding c using l n strip_field [OF f(1,2), of stack]
      by (intro after_fieldI(1) [of _ "written stack @ g @ f" gap']) (simp_all add: run_IN_FIELD s)
  qed
qed

lemma after_FIELD_START:
  assumes f: "field_chars f" "f \<noteq> []" and c: "c = slash \<or> c = NUL" and st: "field_list stack"
    and n: "n = length (written stack) + length gap + length f"
  shows "after_field stack f c rest n (run FIELD_START (written stack) gap (f @ c # rest))"
proof -
  consider (1) "f = [dot]" | (2) "f = [dot, dot]" | (3) a g where "f = a # g" "a \<noteq> dot"
    | (4) a g where "f = dot # a # g" "a \<noteq> dot" | (5) a g where "f = dot # dot # a # g"
    using f(2) by (metis neq_Nil_conv)
  then show ?thesis
  proof cases
    case 1
    show ?thesis using c n unfolding 1 after_field_def
      by (auto simp: run_FIELD_START run_DOT run_SEEN_DOT field_step_def)
  next
    case 2
    have "\<forall>f\<in>set stack. slash \<notin> set f" using st by (simp add: field_list_def field_chars_def)
    from run_SEEN_DOTDOT_field [OF this c, of "gap @ [dot, dot]" rest] obtain gap' where
      l: "length (written (butlast stack)) + length gap' =
        length (written stack) + length (gap @ [dot, dot]) + (if c = NUL then 0 else 1)"
      and r: "run SEEN_DOTDOT (written stack) (gap @ [dot, dot]) (c # rest) =
        (if c = NUL then Some (written (butlast stack) @ gap' @ c # rest, length (written (butlast stack)))
         else run SEEN_SEP (written (butlast stack)) gap' rest)" by blast
    show ?thesis using c l r n unfolding 2
      by (auto intro!: after_fieldI(1) [of _ "written (butlast stack)" gap'] after_fieldI(2) [of _ _ _ gap']
        simp: run_FIELD_START run_DOT run_SEEN_DOT run_DOTDOT field_step_def)
  next
    case 3
    show ?thesis using after_IN_FIELD [of "[]" f c n stack gap rest] f c n 3
      by (auto simp: run_FIELD_START field_chars_def)
  next
    case 4
    show ?thesis using after_IN_FIELD [of "[dot]" "a # g" c n stack "tl (gap @ [dot])" rest] f c n 4
      by (auto simp: run_FIELD_START run_DOT run_SEEN_DOT field_chars_def)
  next
    case 5
    show ?thesis
      using after_IN_FIELD [of "[dot, dot]" "a # g" c n stack "tl (tl (gap @ [dot, dot]))" rest] f c n 5
      by (auto simp: run_FIELD_START run_DOT run_SEEN_DOT run_DOTDOT run_SEEN_DOTDOT_other field_chars_def)
  qed
qed

section \<open>The whole path\<close>

lemma path_fields_chars: "NUL \<notin> set path \<Longrightarrow> field_list (path_fields path)"
proof (induction path rule: path_fields.induct)
  case (2 c s)
  then show ?case
    by (auto simp: field_list_def field_chars_def dest: set_takeWhileD set_dropWhileD)
qed (simp add: field_list_def)

lemma foldl_field_list: "field_list stack \<Longrightarrow> field_list fs \<Longrightarrow> field_list (foldl field_step stack fs)"
  by (induction fs arbitrary: stack) (simp_all add: field_list_step)

lemma join_fields_chars: "field_list stack \<Longrightarrow> NUL \<notin> set (join_fields stack)"
  by (induction stack rule: join_fields.induct) (auto simp: field_list_def field_chars_def)

text \<open>From a field boundary the machine ends, having written the fields that are left.\<close>

definition finishes :: "string \<Rightarrow> string \<Rightarrow> nat \<Rightarrow> (string \<times> nat) option \<Rightarrow> bool" where
  "finishes result junk n r \<longleftrightarrow> (\<exists>out gap. r = Some (out @ gap @ NUL # junk, length out) \<and>
     length out + length gap = n \<and> strip_slash out = result)"

lemma finishesI: "r = Some (out @ gap @ NUL # junk, length out) \<Longrightarrow> length out + length gap = n \<Longrightarrow>
    strip_slash out = result \<Longrightarrow> finishes result junk n r"
  by (auto simp: finishes_def)

lemma first_field:
  assumes "NUL \<notin> set (c # s)" "c \<noteq> slash"
  shows "\<exists>f r. c # s = f @ r \<and> path_fields (c # s) = f # path_fields r \<and> field_chars f \<and> f \<noteq> [] \<and>
    (r = [] \<or> hd r = slash)"
  using assms hd_dropWhile [of "\<lambda>c. c \<noteq> slash" s]
  by (intro exI [of _ "c # takeWhile (\<lambda>c. c \<noteq> slash) s"] exI [of _ "dropWhile (\<lambda>c. c \<noteq> slash) s"])
    (auto simp: field_chars_def dest: set_takeWhileD)

lemma run_SEEN_SEP_finishes:
  assumes "NUL \<notin> set path" "field_list stack"
  shows "finishes (join_fields (foldl field_step stack (path_fields path))) junk
    (length (written stack) + length gap + length path) (run SEEN_SEP (written stack) gap (path @ NUL # junk))"
  using assms
proof (induction path arbitrary: stack gap rule: length_induct)
  case (1 path)
  note IH = 1(1) [rule_format] and nul = 1(2) and stack = 1(3)
  show ?case
  proof (cases path)
    case Nil
    then show ?thesis by (auto intro: finishesI simp: run_SEEN_SEP)
  next
    case (Cons c s)
    show ?thesis
    proof (cases "c = slash")
      case True
      show ?thesis using IH [of s stack "gap @ [c]"] nul stack True Cons by (simp add: run_SEEN_SEP)
    next
      case False
      obtain f r where s: "path = f @ r" "path_fields path = f # path_fields r" and f: "field_chars f" "f \<noteq> []"
        and r: "r = [] \<or> hd r = slash" using first_field [of c s] False nul unfolding Cons by blast
      have start: "run SEEN_SEP (written stack) gap (path @ NUL # junk) =
          run FIELD_START (written stack) gap (path @ NUL # junk)"
        using False nul Cons by (auto simp: run_SEEN_SEP)
      show ?thesis
      proof (cases r)
        case Nil
        show ?thesis using after_FIELD_START [OF f _ stack refl, where c = NUL and gap = gap and rest = junk] start s Nil
          by (simp add: finishes_def after_field_def)
      next
        case (Cons a r')
        with r have a: "r = slash # r'" by simp
        have "after_field stack f slash (r' @ NUL # junk) (length (written stack) + length gap + length f)
            (run SEEN_SEP (written stack) gap (path @ NUL # junk))"
          using after_FIELD_START [OF f _ stack refl, where c = slash and gap = gap and rest = "r' @ NUL # junk"] start s a by simp
        then obtain gap' where e: "run SEEN_SEP (written stack) gap (path @ NUL # junk) =
              run SEEN_SEP (written (field_step stack f)) gap' (r' @ NUL # junk)"
          and l: "length (written (field_step stack f)) + length gap' = length (written stack) + length gap + length f + 1"
          by (auto simp: after_field_def)
        show ?thesis using IH [of r' "field_step stack f" gap'] field_list_step [OF stack f(1)] nul l e s a
          by (simp add: add.assoc)
      qed
    qed
  qed
qed

lemma fs_normalize_finishes:
  assumes nul: "NUL \<notin> set path"
  shows "finishes (normalized path) junk (length path) (normalize_loop INITIAL (path @ NUL # junk) 0 0)"
proof (cases path)
  case Nil
  show ?thesis unfolding Nil using run_INITIAL [of "[]" "[]" NUL junk]
    by (intro finishesI [of _ "[]" "[]"])
      (simp_all add: run_def normalized_def normalized_fields_def root_fields_def normalize_loop.simps [of FIELD_START]
        get_char_def strip_slash_def)
next
  case (Cons c s)
  have nil: "field_list []" "field_list [[]]" by (simp_all add: field_list_def field_chars_def)
  have i: "normalize_loop INITIAL (path @ NUL # junk) 0 0 = run INITIAL [] [] (path @ NUL # junk)" by (simp add: run_def)
  show ?thesis
  proof (cases "c = slash")
    case True
    have "run INITIAL [] [] (path @ NUL # junk) = run SEEN_SEP (written [[]]) [] (s @ NUL # junk)"
      using Cons True by (simp add: run_INITIAL run_SEP written_def)
    with run_SEEN_SEP_finishes [OF _ nil(2), of s junk "[]"] show ?thesis
      using nul Cons True i by (simp add: normalized_def normalized_fields_def root_fields_def written_def)
  next
    case False
    have "run INITIAL [] [] (path @ NUL # junk) = run SEEN_SEP (written []) [] (path @ NUL # junk)"
      using Cons False nul by (simp add: run_INITIAL run_SEEN_SEP run_FIELD_START)
    with run_SEEN_SEP_finishes [OF nul nil(1), of junk "[]"] show ?thesis
      using Cons False i by (simp add: normalized_def normalized_fields_def root_fields_def)
  qed
qed

lemma normalized_chars: "NUL \<notin> set path \<Longrightarrow> NUL \<notin> set (normalized path)"
  unfolding normalized_def normalized_fields_def
  by (intro join_fields_chars foldl_field_list path_fields_chars)
    (auto simp: root_fields_def field_list_def field_chars_def split: list.splits)

section \<open>Normalised paths\<close>

text \<open>The fields of a normalised path, behind the root of an absolute path.\<close>

definition clean_fields :: "string list \<Rightarrow> bool" where
  "clean_fields fs \<longleftrightarrow> (\<forall>f\<in>set fs. field_chars f \<and> f \<noteq> [] \<and> f \<noteq> [dot] \<and> f \<noteq> [dot, dot])"

lemma clean_fields_Cons: "clean_fields (f # fs) \<longleftrightarrow>
    field_chars f \<and> f \<noteq> [] \<and> f \<noteq> [dot] \<and> f \<noteq> [dot, dot] \<and> clean_fields fs"
  by (auto simp: clean_fields_def)

lemma path_fields_slash [simp]: "path_fields (slash # s) = path_fields s"
  by simp

lemma path_fields_append: "field_chars f \<Longrightarrow> f \<noteq> [] \<Longrightarrow> path_fields (f @ slash # s) = f # path_fields s"
  by (cases f) (auto simp: field_chars_def takeWhile_append dropWhile_append)

lemma path_fields_single:
  assumes "field_chars f" "f \<noteq> []"
  shows "path_fields f = [f]"
proof (cases f)
  case (Cons a l)
  then have d: "dropWhile (\<lambda>c. c \<noteq> slash) l = []" "takeWhile (\<lambda>c. c \<noteq> slash) l = l" and a: "a \<noteq> slash"
    using assms(1) by (auto simp: field_chars_def takeWhile_eq_all_conv)
  show ?thesis unfolding Cons path_fields.simps(2) d using a by simp
qed (use assms in simp)

lemma path_fields_join: "clean_fields fs \<Longrightarrow> path_fields (join_fields fs) = fs"
proof (induction fs rule: join_fields.induct)
  case (2 f) then show ?case by (simp add: clean_fields_Cons path_fields_single)
next
  case (3 f g fs)
  then show ?case by (simp add: clean_fields_Cons path_fields_append)
qed simp

lemma foldl_clean: "clean_fields fs \<Longrightarrow> foldl field_step stack fs = stack @ fs"
  by (induction fs arbitrary: stack) (simp_all add: clean_fields_Cons field_step_def)

lemma clean_fields_step:
  assumes "clean_fields fs \<or> (\<exists>gs. fs = [] # gs \<and> clean_fields gs)" "field_chars f" "f \<noteq> []"
  shows "clean_fields (field_step fs f) \<or> (\<exists>gs. field_step fs f = [] # gs \<and> clean_fields gs)"
proof -
  have b: "clean_fields gs \<Longrightarrow> clean_fields (butlast gs)" for gs
    by (auto simp: clean_fields_def dest: in_set_butlastD)
  have a: "clean_fields gs \<Longrightarrow> f \<noteq> [dot] \<Longrightarrow> f \<noteq> [dot, dot] \<Longrightarrow> clean_fields (gs @ [f])" for gs
    using assms(2,3) by (simp add: clean_fields_def)
  show ?thesis using assms(1) a b by (auto simp: field_step_def clean_fields_def [of "[]"])
qed

lemma foldl_fields_clean:
  "field_list gs \<Longrightarrow> [] \<notin> set gs \<Longrightarrow> clean_fields fs \<or> (\<exists>gs. fs = [] # gs \<and> clean_fields gs) \<Longrightarrow>
    clean_fields (foldl field_step fs gs) \<or> (\<exists>hs. foldl field_step fs gs = [] # hs \<and> clean_fields hs)"
proof (induction gs arbitrary: fs)
  case (Cons f gs)
  show ?case using Cons.IH [OF _ _ clean_fields_step [OF Cons.prems(3), of f]] Cons.prems by auto
qed simp

lemma path_fields_nonempty: "[] \<notin> set (path_fields path)"
  by (induction path rule: path_fields.induct) auto

lemma normalized_fields_clean:
  assumes "NUL \<notin> set path"
  shows "clean_fields (normalized_fields path) \<or> (\<exists>fs. normalized_fields path = [] # fs \<and> clean_fields fs)"
  unfolding normalized_fields_def
  by (rule foldl_fields_clean [OF path_fields_chars [OF assms] path_fields_nonempty])
    (auto simp: root_fields_def clean_fields_def split: list.splits)

lemma normalized_idem:
  assumes "NUL \<notin> set path"
  shows "normalized (normalized path) = normalized path"
  using normalized_fields_clean [OF assms]
proof
  assume c: "clean_fields (normalized_fields path)"
  have "root_fields (join_fields (normalized_fields path)) = []"
    using c by (cases "normalized_fields path" rule: join_fields.cases)
      (auto simp: root_fields_def clean_fields_Cons field_chars_def Cons_eq_append_conv append_eq_Cons_conv split: list.splits)
  then show ?thesis
    using c by (simp add: normalized_def normalized_fields_def [of "join_fields _"] path_fields_join foldl_clean)
next
  assume "\<exists>fs. normalized_fields path = [] # fs \<and> clean_fields fs"
  then obtain fs where fs: "normalized_fields path = [] # fs" "clean_fields fs" by auto
  then show ?thesis using foldl_clean [OF fs(2), of "[[]]"]
    by (cases fs) (simp_all add: normalized_def normalized_fields_def [of "slash # _"]
      normalized_fields_def [of "[]"] root_fields_def path_fields_join)
qed

lemma fs_normalize_path_result:
  assumes nul: "NUL \<notin> set path"
  shows "\<exists>buf. fs_normalize_path (path @ NUL # junk) = Some buf \<and> cstr buf = normalized path \<and>
    length buf = length (path @ NUL # junk) \<and> drop (length path + 1) buf = junk"
proof -
  obtain out gap where r: "normalize_loop INITIAL (path @ NUL # junk) 0 0 = Some (out @ gap @ NUL # junk, length out)"
    and l: "length out + length gap = length path" and o: "strip_slash out = normalized path"
    using fs_normalize_finishes [OF nul, of junk] by (auto simp: finishes_def)
  let ?n = "length (normalized path)"
  have pos: "(if length out > 0 \<and> (out @ gap @ NUL # junk) ! (length out - 1) = slash then length out - 1
      else length out) = ?n"
    unfolding o [symmetric] by (cases out rule: rev_cases) (auto simp: strip_slash_def nth_append)
  have pre: "take ?n out = normalized path" "?n \<le> length out"
    unfolding o [symmetric] by (auto simp: strip_slash_def butlast_conv_take)
  let ?b = "(out @ gap @ NUL # junk)[?n := NUL]"
  have "fs_normalize_path (path @ NUL # junk) = Some ?b"
    using pos pre(2) by (simp add: fs_normalize_path_def r put_char_def Let_def del: length_greater_0_conv)
  moreover have "take ?n ?b = normalized path" "?b ! ?n = NUL" using pre by simp_all
  then have "cstr ?b = normalized path"
    using normalized_chars [OF nul] pre(2) id_take_nth_drop [of ?n ?b]
    by (auto simp add: cstr_def takeWhile_tail)
  moreover have "drop (length path + 1) ?b = junk"
    using pre(2) l by (simp add: drop_update_swap)
  ultimately show ?thesis using l by simp
qed

section \<open>Property\<close>

text \<open>
  C15: \<open>fs_normalize_path\<close> ends on every path, never reads or writes outside the buffer, touches nothing
  after the terminator, and leaves the normalised path in the buffer: the fields of the path without
  empty ones and \<open>.\<close>, with \<open>..\<close> removing the field before it (also the root of an absolute path),
  joined by single separators. Normalising a normalised path changes nothing.
\<close>

theorem fs_normalize_path_correct:
  assumes nul: "NUL \<notin> set path"
  shows "\<exists>buf. fs_normalize_path (path @ NUL # junk) = Some buf \<and> cstr buf = normalized path \<and>
    length buf = length (path @ NUL # junk) \<and> drop (length path + 1) buf = junk \<and>
    normalized (normalized path) = normalized path"
  using fs_normalize_path_result [OF nul] normalized_idem [OF nul] by blast

theorem fs_normalize_path_correct_witness:
  "\<exists>buf. fs_normalize_path (''/a//./b/../c/'' @ NUL # ''x'') = Some buf \<and> cstr buf = ''/a/c'' \<and>
    length buf = 15 \<and> drop 14 buf = ''x''"
proof -
  have "normalized ''/a//./b/../c/'' = ''/a/c''"
    by (simp add: normalized_def normalized_fields_def root_fields_def field_step_def)
  moreover obtain buf where "fs_normalize_path (''/a//./b/../c/'' @ NUL # ''x'') = Some buf"
    "cstr buf = normalized ''/a//./b/../c/''" "length buf = length (''/a//./b/../c/'' @ NUL # ''x'')"
    "drop (length ''/a//./b/../c/'' + 1) buf = ''x''"
    using fs_normalize_path_correct [of "''/a//./b/../c/''" "''x''"] by auto
  ultimately show ?thesis by (intro exI [of _ buf]) (simp add: numeral_eq_Suc)
qed

end
