(* ===== verification/Bio.thy ===== *)
theory Bio
  imports Pow2 Align
begin

text \<open>
  Block devices (\<open>lib/bio/bio.c\<close>), the memory device (\<open>lib/bio/mem.c\<close>) and sub devices
  (\<open>lib/bio/subdev.c\<close>). A device is a record with its geometry and its hooks, as \<open>struct bdev\<close>; a hook is
  a function on the state \<open>'s\<close> of the hardware behind it. A read takes the buffer of the caller and
  returns it filled. Sizes are natural numbers; the 32-bit arithmetic of block numbers and the 64-bit
  sum of \<open>bio_trim_range\<close> are written out. \<open>None\<close> is a failed assertion or an access outside a buffer.
\<close>

section \<open>Buffers\<close>

type_synonym bytes = "u8 list"

definition bytes_at :: "bytes \<Rightarrow> nat \<Rightarrow> nat \<Rightarrow> bytes" where
  "bytes_at d pos n = take n (drop pos d)"

definition put_bytes :: "bytes \<Rightarrow> nat \<Rightarrow> bytes \<Rightarrow> bytes" where
  "put_bytes d pos x = take pos d @ x @ drop (pos + length x) d"

text \<open>\<open>memcpy\<close> out of and into a buffer of known size.\<close>

definition copy_out :: "bytes \<Rightarrow> nat \<Rightarrow> nat \<Rightarrow> bytes option" where
  "copy_out d pos n = (if pos + n \<le> length d then Some (bytes_at d pos n) else None)"

definition copy_in :: "bytes \<Rightarrow> nat \<Rightarrow> bytes \<Rightarrow> bytes option" where
  "copy_in d pos x = (if pos + length x \<le> length d then Some (put_bytes d pos x) else None)"

section \<open>Devices\<close>

type_synonym 's read_fun = "u64 \<Rightarrow> bytes \<Rightarrow> int \<Rightarrow> nat \<Rightarrow> 's \<Rightarrow> (int \<times> bytes \<times> 's) option"
type_synonym 's write_fun = "u64 \<Rightarrow> bytes \<Rightarrow> int \<Rightarrow> nat \<Rightarrow> 's \<Rightarrow> (int \<times> 's) option"
type_synonym 's read_block_fun = "bytes \<Rightarrow> nat \<Rightarrow> nat \<Rightarrow> 's \<Rightarrow> (int \<times> bytes \<times> 's) option"
type_synonym 's write_block_fun = "bytes \<Rightarrow> nat \<Rightarrow> nat \<Rightarrow> 's \<Rightarrow> (int \<times> 's) option"

text \<open>
  A hook that is \<open>None\<close> is the default function that \<open>bio_initialize_bdev\<close> sets. The first argument of a read
  or write is the address of the buffer, of which only the alignment matters.
\<close>

record 's bdev =
  bd_ref :: int
  bd_name :: string
  total_size :: int
  block_size :: nat
  block_shift :: nat
  block_count :: nat
  erase_byte :: u8
  bd_flags :: u32
  read_hook :: "'s read_fun option"
  read_block_hook :: "'s read_block_fun option"
  write_hook :: "'s write_fun option"
  write_block_hook :: "'s write_block_fun option"
  erase_hook :: "(int \<Rightarrow> nat \<Rightarrow> 's \<Rightarrow> (int \<times> 's) option) option"

abbreviation (input) BIO_FLAG_CACHE_ALIGNED_READS :: u32 where "BIO_FLAG_CACHE_ALIGNED_READS \<equiv> 1"
abbreviation (input) BIO_FLAG_CACHE_ALIGNED_WRITES :: u32 where "BIO_FLAG_CACHE_ALIGNED_WRITES \<equiv> 2"
abbreviation (input) CACHE_LINE :: u64 where "CACHE_LINE \<equiv> 64"

text \<open>The conversion to \<open>off_t\<close>, and the wrap of \<open>uint\<close>.\<close>

definition to_off_t :: "int \<Rightarrow> int" where
  "to_off_t x = (x + 2 ^ 63) mod 2 ^ 64 - 2 ^ 63"

abbreviation (input) uint32 :: "nat \<Rightarrow> nat" where "uint32 n \<equiv> n mod 2 ^ 32"

definition bio_trim_range :: "'s bdev \<Rightarrow> int \<Rightarrow> nat \<Rightarrow> nat" where
  "bio_trim_range dev offset len =
     (if offset < 0 then 0
      else if offset \<ge> total_size dev then 0
      else if len = 0 then 0
      else if to_off_t (offset + int len) > total_size dev then nat (total_size dev - offset)
      else len)"

definition bio_trim_block_range :: "'s bdev \<Rightarrow> nat \<Rightarrow> nat \<Rightarrow> nat" where
  "bio_trim_block_range dev block count =
     (if block > block_count dev then 0
      else if count = 0 then 0
      else if uint32 (block + count) > block_count dev then block_count dev - block
      else count)"

definition bio_default_read_block :: "'s read_block_fun" where
  "bio_default_read_block buf block count s = Some (ERR_NOT_SUPPORTED, buf, s)"

definition bio_default_write_block :: "'s write_block_fun" where
  "bio_default_write_block buf block count s = Some (ERR_NOT_SUPPORTED, s)"

definition bio_read_block :: "'s bdev \<Rightarrow> 's read_block_fun" where
  "bio_read_block dev buf block count s = do {
     guard_that (bd_ref dev > 0);
     let count = bio_trim_block_range dev block count;
     if count = 0 then Some (0, buf, s)
     else (case read_block_hook dev of None \<Rightarrow> bio_default_read_block | Some f \<Rightarrow> f) buf block count s
   }"

definition bio_write_block :: "'s bdev \<Rightarrow> 's write_block_fun" where
  "bio_write_block dev buf block count s = do {
     guard_that (bd_ref dev > 0);
     let count = bio_trim_block_range dev block count;
     if count = 0 then Some (0, s)
     else (case write_block_hook dev of None \<Rightarrow> bio_default_write_block | Some f \<Rightarrow> f) buf block count s
   }"

section \<open>Deblocking\<close>

text \<open>
  \<open>bio_default_read\<close> and \<open>bio_default_write\<close> have three parts: a partial first block, the whole blocks in
  the middle (one by one through a temporary buffer when the device wants an aligned buffer and gets
  none), and a partial last block. A part ends with the error of \<open>goto err\<close> (\<open>Inl\<close>) or with the position in
  the buffer, the length that is left and the next block.
\<close>

type_synonym progress = "nat \<times> nat \<times> nat"

definition block_error :: "int \<Rightarrow> nat \<Rightarrow> int option" where
  "block_error err expected = (if err < 0 then Some err else if nat err \<noteq> expected then Some ERR_IO else None)"

text \<open>One whole block into a temporary buffer, and from one.\<close>

definition read_temp :: "'s bdev \<Rightarrow> nat \<Rightarrow> 's \<Rightarrow> ((int + bytes) \<times> 's) option" where
  "read_temp dev block s = do {
     (err, temp, s) \<leftarrow> bio_read_block dev (replicate (block_size dev) 0) block 1 s;
     (case block_error err (block_size dev) of
        Some e \<Rightarrow> Some (Inl e, s)
      | None \<Rightarrow> Some (Inr temp, s))
   }"

definition write_temp :: "'s bdev \<Rightarrow> bytes \<Rightarrow> nat \<Rightarrow> 's \<Rightarrow> ((int + unit) \<times> 's) option" where
  "write_temp dev temp block s = do {
     (err, s) \<leftarrow> bio_write_block dev temp block 1 s;
     (case block_error err (block_size dev) of
        Some e \<Rightarrow> Some (Inl e, s)
      | None \<Rightarrow> Some (Inr (), s))
   }"

definition read_first :: "'s bdev \<Rightarrow> bytes \<Rightarrow> int \<Rightarrow> nat \<Rightarrow> 's \<Rightarrow> ((int + progress) \<times> bytes \<times> 's) option" where
  "read_first dev buf offset len s =
     (let block = uint32 (nat offset div block_size dev);
          block_offset = nat offset mod block_size dev in
      if block_offset = 0 then Some (Inr (0, len, block), buf, s)
      else do {
        (r, s) \<leftarrow> read_temp dev block s;
        (case r of
           Inl e \<Rightarrow> Some (Inl e, buf, s)
         | Inr temp \<Rightarrow> do {
             let tocopy = min (block_size dev - block_offset) len;
             x \<leftarrow> copy_out temp block_offset tocopy;
             buf \<leftarrow> copy_in buf 0 x;
             Some (Inr (tocopy, len - tocopy, uint32 (block + 1)), buf, s)
           })
      })"

function read_aligned :: "'s bdev \<Rightarrow> progress \<Rightarrow> bytes \<Rightarrow> 's \<Rightarrow> ((int + progress) \<times> bytes \<times> 's) option" where
  "read_aligned dev (pos, len, block) buf s =
     (if len \<ge> block_size dev \<and> block_size dev > 0 then
        (case read_temp dev block s of
           None \<Rightarrow> None
         | Some (Inl e, s) \<Rightarrow> Some (Inl e, buf, s)
         | Some (Inr temp, s) \<Rightarrow>
             (case Option.bind (copy_out temp 0 (block_size dev)) (copy_in buf pos) of
                None \<Rightarrow> None
              | Some buf \<Rightarrow> read_aligned dev (pos + block_size dev, len - block_size dev, uint32 (block + 1)) buf s))
      else Some (Inr (pos, len, block), buf, s))"
  by pat_completeness auto
termination
  by (relation "measure (\<lambda>(dev, (pos, len, block), buf, s). len)") auto

definition read_bulk :: "'s bdev \<Rightarrow> progress \<Rightarrow> bytes \<Rightarrow> 's \<Rightarrow> ((int + progress) \<times> bytes \<times> 's) option" where
  "read_bulk dev = (\<lambda>(pos, len, block) buf s. do {
     let num_blocks = unat (divpow2 (of_nat len) (block_shift dev));
     guard_that (pos \<le> length buf);
     (err, rest, s) \<leftarrow> bio_read_block dev (drop pos buf) block num_blocks s;
     let buf = take pos buf @ rest;
     (case block_error err (block_size dev * num_blocks) of
        Some e \<Rightarrow> Some (Inl e, buf, s)
      | None \<Rightarrow> Some (Inr (pos + nat err, len - nat err, uint32 (block + num_blocks)), buf, s))
   })"

definition read_last :: "'s bdev \<Rightarrow> progress \<Rightarrow> bytes \<Rightarrow> 's \<Rightarrow> (int \<times> bytes \<times> 's) option" where
  "read_last dev = (\<lambda>(pos, len, block) buf s.
     if len > 0 then do {
       (r, s) \<leftarrow> read_temp dev block s;
       (case r of
          Inl e \<Rightarrow> Some (e, buf, s)
        | Inr temp \<Rightarrow> do {
            x \<leftarrow> copy_out temp 0 len;
            buf \<leftarrow> copy_in buf pos x;
            Some (int (pos + len), buf, s)
          })
     } else Some (int pos, buf, s))"

definition requires_alignment :: "'s bdev \<Rightarrow> u32 \<Rightarrow> u64 \<Rightarrow> bool" where
  "requires_alignment dev flag addr \<longleftrightarrow> bd_flags dev AND flag \<noteq> 0 \<and> \<not> IS_ALIGNED addr CACHE_LINE"

definition bio_default_read :: "'s bdev \<Rightarrow> 's read_fun" where
  "bio_default_read dev addr buf offset len s = do {
     guard_that (block_size dev > 0);
     (r, buf, s) \<leftarrow> read_first dev buf offset len s;
     (case r of
        Inl e \<Rightarrow> Some (e, buf, s)
      | Inr p \<Rightarrow> do {
          (r, buf, s) \<leftarrow> (if requires_alignment dev BIO_FLAG_CACHE_ALIGNED_READS (addr + of_nat (fst p))
                           then read_aligned dev p buf s else read_bulk dev p buf s);
          (case r of
             Inl e \<Rightarrow> Some (e, buf, s)
           | Inr p \<Rightarrow> read_last dev p buf s)
        })
   }"

text \<open>The same for writes; a partial block is read, changed and written back.\<close>

definition write_partial :: "'s bdev \<Rightarrow> bytes \<Rightarrow> nat \<Rightarrow> nat \<Rightarrow> nat \<Rightarrow> nat \<Rightarrow> 's \<Rightarrow> ((int + unit) \<times> 's) option" where
  "write_partial dev buf pos block block_offset tocopy s = do {
     (r, s) \<leftarrow> read_temp dev block s;
     (case r of
        Inl e \<Rightarrow> Some (Inl e, s)
      | Inr temp \<Rightarrow> do {
          x \<leftarrow> copy_out buf pos tocopy;
          temp \<leftarrow> copy_in temp block_offset x;
          write_temp dev temp block s
        })
   }"

definition write_first :: "'s bdev \<Rightarrow> bytes \<Rightarrow> int \<Rightarrow> nat \<Rightarrow> 's \<Rightarrow> ((int + progress) \<times> 's) option" where
  "write_first dev buf offset len s =
     (let block = uint32 (nat offset div block_size dev);
          block_offset = nat offset mod block_size dev;
          tocopy = min (block_size dev - block_offset) len in
      if block_offset = 0 then Some (Inr (0, len, block), s)
      else do {
        (r, s) \<leftarrow> write_partial dev buf 0 block block_offset tocopy s;
        (case r of
           Inl e \<Rightarrow> Some (Inl e, s)
         | Inr _ \<Rightarrow> Some (Inr (tocopy, len - tocopy, uint32 (block + 1)), s))
      })"

function write_aligned :: "'s bdev \<Rightarrow> progress \<Rightarrow> bytes \<Rightarrow> 's \<Rightarrow> ((int + progress) \<times> 's) option" where
  "write_aligned dev (pos, len, block) buf s =
     (if len \<ge> block_size dev \<and> block_size dev > 0 then
        (case Option.bind (copy_out buf pos (block_size dev)) (\<lambda>temp. write_temp dev temp block s) of
           None \<Rightarrow> None
         | Some (Inl e, s) \<Rightarrow> Some (Inl e, s)
         | Some (Inr _, s) \<Rightarrow>
             write_aligned dev (pos + block_size dev, len - block_size dev, uint32 (block + 1)) buf s)
      else Some (Inr (pos, len, block), s))"
  by pat_completeness auto
termination
  by (relation "measure (\<lambda>(dev, (pos, len, block), buf, s). len)") auto

definition write_bulk :: "'s bdev \<Rightarrow> progress \<Rightarrow> bytes \<Rightarrow> 's \<Rightarrow> ((int + progress) \<times> 's) option" where
  "write_bulk dev = (\<lambda>(pos, len, block) buf s. do {
     let block_count = unat (divpow2 (of_nat len) (block_shift dev));
     guard_that (pos \<le> length buf);
     (err, s) \<leftarrow> bio_write_block dev (drop pos buf) block block_count s;
     (case block_error err (block_size dev * block_count) of
        Some e \<Rightarrow> Some (Inl e, s)
      | None \<Rightarrow> Some (Inr (pos + nat err, len - nat err, uint32 (block + block_count)), s))
   })"

definition write_last :: "'s bdev \<Rightarrow> progress \<Rightarrow> bytes \<Rightarrow> 's \<Rightarrow> (int \<times> 's) option" where
  "write_last dev = (\<lambda>(pos, len, block) buf s.
     if len > 0 then do {
       (r, s) \<leftarrow> write_partial dev buf pos block 0 len s;
       (case r of Inl e \<Rightarrow> Some (e, s) | Inr _ \<Rightarrow> Some (int (pos + len), s))
     } else Some (int pos, s))"

definition bio_default_write :: "'s bdev \<Rightarrow> 's write_fun" where
  "bio_default_write dev addr buf offset len s = do {
     guard_that (block_size dev > 0);
     (r, s) \<leftarrow> write_first dev buf offset len s;
     (case r of
        Inl e \<Rightarrow> Some (e, s)
      | Inr p \<Rightarrow> do {
          (r, s) \<leftarrow> (if requires_alignment dev BIO_FLAG_CACHE_ALIGNED_WRITES (addr + of_nat (fst p))
                      then write_aligned dev p buf s else write_bulk dev p buf s);
          (case r of
             Inl e \<Rightarrow> Some (e, s)
           | Inr p \<Rightarrow> write_last dev p buf s)
        })
   }"

section \<open>The interface\<close>

definition bio_read :: "'s bdev \<Rightarrow> 's read_fun" where
  "bio_read dev addr buf offset len s = do {
     guard_that (bd_ref dev > 0);
     let len = bio_trim_range dev offset len;
     if len = 0 then Some (0, buf, s)
     else (case read_hook dev of None \<Rightarrow> bio_default_read dev | Some f \<Rightarrow> f) addr buf offset len s
   }"

definition bio_write :: "'s bdev \<Rightarrow> 's write_fun" where
  "bio_write dev addr buf offset len s = do {
     guard_that (bd_ref dev > 0);
     let len = bio_trim_range dev offset len;
     if len = 0 then Some (0, s)
     else (case write_hook dev of None \<Rightarrow> bio_default_write dev | Some f \<Rightarrow> f) addr buf offset len s
   }"

text \<open>
  \<open>bio_default_erase\<close> writes blocks of the erase byte and stops after a short write. A device without a
  block size would make it loop, a driver that writes more than it is asked would wrap the count that
  remains; both are \<open>None\<close>.
\<close>

function erase_loop :: "'s bdev \<Rightarrow> u64 \<Rightarrow> int \<Rightarrow> int \<Rightarrow> nat \<Rightarrow> 's \<Rightarrow> (int \<times> 's) option" where
  "erase_loop dev addr erased pos remaining s =
     (if remaining > 0 then
        let towrite = min remaining (block_size dev) in
        (case bio_write dev addr (replicate (block_size dev) (erase_byte dev)) pos towrite s of
           None \<Rightarrow> None
         | Some (written, s) \<Rightarrow>
             if written < 0 then Some (written, s)
             else if nat written < towrite then Some (erased + written, s)
             else if nat written > towrite \<or> written = 0 then None
             else erase_loop dev addr (erased + written) (pos + written) (remaining - nat written) s)
      else Some (erased, s))"
  by pat_completeness auto
termination
  by (relation "measure (\<lambda>(dev, addr, erased, pos, remaining, s). remaining)") auto

definition bio_default_erase :: "'s bdev \<Rightarrow> u64 \<Rightarrow> int \<Rightarrow> nat \<Rightarrow> 's \<Rightarrow> (int \<times> 's) option" where
  "bio_default_erase dev addr offset len s = erase_loop dev addr 0 offset len s"

definition bio_erase :: "'s bdev \<Rightarrow> u64 \<Rightarrow> int \<Rightarrow> nat \<Rightarrow> 's \<Rightarrow> (int \<times> 's) option" where
  "bio_erase dev addr offset len s = do {
     guard_that (bd_ref dev > 0);
     let len = bio_trim_range dev offset len;
     if len = 0 then Some (0, s)
     else (case erase_hook dev of None \<Rightarrow> bio_default_erase dev addr | Some f \<Rightarrow> f) offset len s
   }"

text \<open>\<open>bio_initialize_bdev\<close>; the device has no reference yet.\<close>

definition bio_initialize_bdev :: "string \<Rightarrow> nat \<Rightarrow> nat \<Rightarrow> u32 \<Rightarrow> 's bdev option" where
  "bio_initialize_bdev name bsize bcount fl = do {
     guard_that (bsize \<noteq> 0 \<and> ispow2 (of_nat bsize));
     let shift = log2_uint (of_nat bsize);
     Some \<lparr>bd_ref = 0, bd_name = name, total_size = to_off_t (int bcount * 2 ^ shift), block_size = bsize,
       block_shift = shift, block_count = bcount, erase_byte = 0, bd_flags = fl, read_hook = None,
       read_block_hook = None, write_hook = None, write_block_hook = None, erase_hook = None\<rparr>
   }"

section \<open>The memory device\<close>

abbreviation (input) BLOCKSIZE :: nat where "BLOCKSIZE \<equiv> 512"

definition mem_bdev_read :: "bytes read_fun" where
  "mem_bdev_read addr buf offset len mem = do {
     x \<leftarrow> copy_out mem (nat offset) len;
     buf \<leftarrow> copy_in buf 0 x;
     Some (int len, buf, mem)
   }"

definition mem_bdev_read_block :: "bytes read_block_fun" where
  "mem_bdev_read_block buf block count mem = do {
     x \<leftarrow> copy_out mem (uint32 (block * BLOCKSIZE)) (uint32 (count * BLOCKSIZE));
     buf \<leftarrow> copy_in buf 0 x;
     Some (int (uint32 (count * BLOCKSIZE)), buf, mem)
   }"

definition mem_bdev_write :: "bytes write_fun" where
  "mem_bdev_write addr buf offset len mem = do {
     x \<leftarrow> copy_out buf 0 len;
     mem \<leftarrow> copy_in mem (nat offset) x;
     Some (int len, mem)
   }"

definition mem_bdev_write_block :: "bytes write_block_fun" where
  "mem_bdev_write_block buf block count mem = do {
     x \<leftarrow> copy_out buf 0 (uint32 (count * BLOCKSIZE));
     mem \<leftarrow> copy_in mem (uint32 (block * BLOCKSIZE)) x;
     Some (int (uint32 (count * BLOCKSIZE)), mem)
   }"

text \<open>The device that \<open>create_membdev\<close> makes of \<open>len\<close> bytes of memory and registers.\<close>

definition create_membdev :: "string \<Rightarrow> nat \<Rightarrow> bytes bdev option" where
  "create_membdev name len = do {
     dev \<leftarrow> bio_initialize_bdev name BLOCKSIZE (uint32 (len div BLOCKSIZE)) 0;
     Some (dev\<lparr>read_hook := Some mem_bdev_read, read_block_hook := Some mem_bdev_read_block,
       write_hook := Some mem_bdev_write, write_block_hook := Some mem_bdev_write_block, bd_ref := 1\<rparr>)
   }"

section \<open>Sub devices\<close>

definition subdev_read :: "'s bdev \<Rightarrow> nat \<Rightarrow> nat \<Rightarrow> 's read_fun" where
  "subdev_read parent start bsize addr buf offset len s = bio_read parent addr buf (offset + int (start * bsize)) len s"

definition subdev_read_block :: "'s bdev \<Rightarrow> nat \<Rightarrow> 's read_block_fun" where
  "subdev_read_block parent start buf block count s = bio_read_block parent buf (uint32 (block + start)) count s"

definition subdev_write :: "'s bdev \<Rightarrow> nat \<Rightarrow> nat \<Rightarrow> 's write_fun" where
  "subdev_write parent start bsize addr buf offset len s = bio_write parent addr buf (offset + int (start * bsize)) len s"

definition subdev_write_block :: "'s bdev \<Rightarrow> nat \<Rightarrow> 's write_block_fun" where
  "subdev_write_block parent start buf block count s = bio_write_block parent buf (uint32 (block + start)) count s"

definition subdev_erase :: "'s bdev \<Rightarrow> nat \<Rightarrow> nat \<Rightarrow> u64 \<Rightarrow> int \<Rightarrow> nat \<Rightarrow> 's \<Rightarrow> (int \<times> 's) option" where
  "subdev_erase parent start bsize addr offset len s = bio_erase parent addr (offset + int (start * bsize)) len s"

text \<open>
  \<open>bio_publish_subdevice\<close> once the parent is open and memory has been found: the range of blocks must be
  part of the parent. Devices with an erase geometry are left out.
\<close>

definition publish_subdevice :: "'s bdev \<Rightarrow> string \<Rightarrow> nat \<Rightarrow> nat \<Rightarrow> u64 \<Rightarrow> (status + 's bdev) option" where
  "publish_subdevice parent name startblock bcount addr =
     (let endblock = uint32 (startblock + bcount) in
      if endblock < startblock \<or> endblock > block_count parent then Some (Inl ERR_INVALID_ARGS)
      else do {
        dev \<leftarrow> bio_initialize_bdev name (block_size parent) bcount 0;
        Some (Inr (dev\<lparr>erase_byte := erase_byte parent,
          read_hook := Some (subdev_read parent startblock (block_size parent)),
          read_block_hook := Some (subdev_read_block parent startblock),
          write_hook := Some (subdev_write parent startblock (block_size parent)),
          write_block_hook := Some (subdev_write_block parent startblock),
          erase_hook := Some (subdev_erase parent startblock (block_size parent) addr), bd_ref := 1\<rparr>))
      })"

section \<open>Slices\<close>

lemma length_bytes_at [simp]: "pos + n \<le> length d \<Longrightarrow> length (bytes_at d pos n) = n"
  by (simp add: bytes_at_def)

lemma length_put_bytes [simp]: "pos + length x \<le> length d \<Longrightarrow> length (put_bytes d pos x) = length d"
  by (simp add: put_bytes_def)

lemma bytes_at_0 [simp]: "bytes_at d pos 0 = []"
  by (simp add: bytes_at_def)

lemma put_bytes_Nil [simp]: "put_bytes d pos [] = d"
  by (simp add: put_bytes_def)

lemma bytes_at_append: "bytes_at d pos m @ bytes_at d (pos + m) n = bytes_at d pos (m + n)"
  by (simp add: bytes_at_def take_add add.commute)

lemma nth_bytes_at: "pos + n \<le> length d \<Longrightarrow> i < n \<Longrightarrow> bytes_at d pos n ! i = d ! (pos + i)"
  by (simp add: bytes_at_def)

lemma nth_put_bytes:
  "pos + length x \<le> length d \<Longrightarrow> i < length d \<Longrightarrow>
    put_bytes d pos x ! i = (if pos \<le> i \<and> i < pos + length x then x ! (i - pos) else d ! i)"
  by (auto simp: put_bytes_def nth_append)

lemma bytes_at_at:
  "a + n \<le> m \<Longrightarrow> pos + m \<le> length d \<Longrightarrow> bytes_at (bytes_at d pos m) a n = bytes_at d (pos + a) n"
  by (rule nth_equalityI) (simp_all add: nth_bytes_at add.assoc)

lemma put_bytes_append:
  assumes "pos + length x + length y \<le> length d"
  shows "put_bytes (put_bytes d pos x) (pos + length x) y = put_bytes d pos (x @ y)"
proof (rule nth_equalityI)
  fix i assume "i < length (put_bytes (put_bytes d pos x) (pos + length x) y)"
  then show "put_bytes (put_bytes d pos x) (pos + length x) y ! i = put_bytes d pos (x @ y) ! i"
    using assms by (auto simp: nth_put_bytes nth_append)
qed (use assms in simp)

lemma take_bytes_at: "take n d = bytes_at d 0 n"
  by (simp add: bytes_at_def)

text \<open>Changing a part of a block and writing the block back.\<close>

lemma put_bytes_block:
  assumes "a + length x \<le> n" "pos + n \<le> length d"
  shows "put_bytes d pos (put_bytes (bytes_at d pos n) a x) = put_bytes d (pos + a) x"
proof (rule nth_equalityI)
  have l: "length (put_bytes (bytes_at d pos n) a x) = n" using assms by simp
  then show "length (put_bytes d pos (put_bytes (bytes_at d pos n) a x)) = length (put_bytes d (pos + a) x)"
    using assms by simp
  fix i assume "i < length (put_bytes d pos (put_bytes (bytes_at d pos n) a x))"
  then have i: "i < length d" using l assms(2) by simp
  show "put_bytes d pos (put_bytes (bytes_at d pos n) a x) ! i = put_bytes d (pos + a) x ! i"
    using assms i l by (auto simp: nth_put_bytes nth_bytes_at)
qed

end
