(* ===== verification/Bio_Dev.thy ===== *)
theory Bio_Dev
  imports Bio
begin

text \<open>
  The contracts of block devices. \<open>block_device\<close> is what a driver promises of its block hooks: whole blocks
  in range are read from and written to the contents of the device. Over it the deblocking of
  \<open>bio_default_read\<close> and \<open>bio_default_write\<close> is a read and a write of bytes. \<open>byte_device\<close> is what
  \<open>bio_read\<close> and \<open>bio_write\<close> promise to their callers.
\<close>

definition geometry_ok :: "'s bdev \<Rightarrow> nat \<Rightarrow> bool" where
  "geometry_ok dev bytes_total \<longleftrightarrow> bd_ref dev > 0 \<and> block_shift dev < 32 \<and> block_size dev = 2 ^ block_shift dev \<and>
     block_count dev < 2 ^ 32 \<and> bytes_total = block_count dev * block_size dev \<and> total_size dev = int bytes_total"

lemma geometry_ok_hooks: "geometry_ok (dev\<lparr>bd_flags := fl, read_hook := f, write_hook := g\<rparr>) n = geometry_ok dev n"
  by (simp add: geometry_ok_def)

text \<open>How many bytes a transfer at \<open>offset\<close> moves: those of the range that lie inside the device.\<close>

definition clip :: "nat \<Rightarrow> int \<Rightarrow> nat \<Rightarrow> nat" where
  "clip bytes_total offset len = (if offset < 0 then 0 else min len (bytes_total - nat offset))"

lemma geometry_ok_total:
  assumes "geometry_ok dev bytes_total"
  shows "bytes_total < 2 ^ 63" "total_size dev = int bytes_total" "0 < block_size dev"
proof -
  have "block_size dev \<le> 2 ^ 31"
    using assms power_increasing [of "block_shift dev" 31 "2 :: nat"] by (simp add: geometry_ok_def)
  then have "block_count dev * block_size dev < 2 ^ 32 * 2 ^ 31"
    using assms by (intro mult_less_le_imp_less) (simp_all add: geometry_ok_def)
  then show "bytes_total < 2 ^ 63" using assms by (simp add: geometry_ok_def)
qed (use assms in \<open>simp_all add: geometry_ok_def\<close>)

lemma bio_trim_range_inside:
  assumes "geometry_ok dev bytes_total" "0 \<le> offset" "nat offset + len \<le> bytes_total"
  shows "bio_trim_range dev offset len = len"
proof -
  have "to_off_t (offset + int len) = offset + int len"
    using geometry_ok_total(1) [OF assms(1)] assms(2,3) by (auto simp: to_off_t_def)
  then show ?thesis using geometry_ok_total(2) [OF assms(1)] assms(2,3) by (auto simp: bio_trim_range_def)
qed

lemma bio_trim_range_clip:
  assumes "geometry_ok dev bytes_total" "len < 2 ^ 63 - bytes_total"
  shows "bio_trim_range dev offset len = clip bytes_total offset len"
proof (cases "0 \<le> offset \<and> offset < int bytes_total")
  case True
  then have "to_off_t (offset + int len) = offset + int len"
    using geometry_ok_total(1) [OF assms(1)] assms(2) by (auto simp: to_off_t_def)
  then show ?thesis using geometry_ok_total(2) [OF assms(1)] True by (auto simp: bio_trim_range_def clip_def min_def)
next
  case False
  then show ?thesis using geometry_ok_total(2) [OF assms(1)] by (auto simp: bio_trim_range_def clip_def)
qed

lemma clip_clip [simp]: "clip m offset (clip m offset len) = clip m offset len"
  by (simp add: clip_def)

lemma clip_bounds: "clip m offset len \<le> len" "0 < clip m offset len \<Longrightarrow> 0 \<le> offset \<and> nat offset + clip m offset len \<le> m"
  by (auto simp: clip_def split: if_splits)

lemma bio_trim_block_range_inside:
  assumes "geometry_ok dev bytes_total" "block + count \<le> block_count dev"
  shows "bio_trim_block_range dev block count = count"
  using assms by (auto simp: bio_trim_block_range_def geometry_ok_def)

lemma put_bytes_whole: "length x = length d \<Longrightarrow> put_bytes d 0 x = x"
  by (simp add: put_bytes_def)

lemma block_error_int [simp]: "block_error (int n) n = None"
  by (simp add: block_error_def)

text \<open>The contents of a device in the state of the hardware.\<close>

locale storage =
  fixes dev :: "'s bdev"
    and ok :: "'s \<Rightarrow> bool"
    and data :: "'s \<Rightarrow> bytes"
    and upd :: "bytes \<Rightarrow> 's \<Rightarrow> 's"
  assumes geometry: "ok s \<Longrightarrow> geometry_ok dev (length (data s))"
    and ok_upd: "ok s \<Longrightarrow> length d = length (data s) \<Longrightarrow> ok (upd d s)"
    and data_upd: "ok s \<Longrightarrow> length d = length (data s) \<Longrightarrow> data (upd d s) = d"
    and upd_upd: "ok s \<Longrightarrow> length e = length (data s) \<Longrightarrow> length d = length (data s) \<Longrightarrow> upd d (upd e s) = upd d s"
    and upd_data: "ok s \<Longrightarrow> upd (data s) s = s"

locale block_device = storage +
  assumes read_block: "ok s \<Longrightarrow> 0 < count \<Longrightarrow> block + count \<le> block_count dev \<Longrightarrow>
      count * block_size dev \<le> length buf \<Longrightarrow>
      bio_read_block dev buf block count s = Some (int (count * block_size dev),
        put_bytes buf 0 (bytes_at (data s) (block * block_size dev) (count * block_size dev)), s)"
    and write_block: "ok s \<Longrightarrow> 0 < count \<Longrightarrow> block + count \<le> block_count dev \<Longrightarrow>
      count * block_size dev \<le> length buf \<Longrightarrow>
      bio_write_block dev buf block count s = Some (int (count * block_size dev),
        upd (put_bytes (data s) (block * block_size dev) (bytes_at buf 0 (count * block_size dev))) s)"
begin

text \<open>Where a transfer of \<open>bytes_total\<close> bytes at \<open>offset\<close> stands between its parts.\<close>

definition on_track :: "nat \<Rightarrow> nat \<Rightarrow> progress \<Rightarrow> bool" where
  "on_track offset bytes_total = (\<lambda>(pos, len, block). pos + len = bytes_total \<and>
     offset + bytes_total \<le> block_count dev * block_size dev \<and>
     (len = 0 \<or> offset + pos = block * block_size dev))"

lemma data_size: "ok s \<Longrightarrow> length (data s) = block_count dev * block_size dev"
  using geometry [of s] by (simp add: geometry_ok_def)

lemma block_in_range:
  assumes "ok s" "block < block_count dev"
  shows "block * block_size dev + block_size dev \<le> length (data s)"
proof -
  have "Suc block * block_size dev \<le> block_count dev * block_size dev"
    using assms(2) by (intro mult_le_mono1) simp
  then show ?thesis using data_size [OF assms(1)] by simp
qed

lemma next_block: "ok s \<Longrightarrow> block < block_count dev \<Longrightarrow> uint32 (block + 1) = block + 1"
  using geometry [of s] by (simp add: geometry_ok_def)

lemma block_of:
  assumes "block * block_size dev < block_count dev * block_size dev"
  shows "block < block_count dev"
  using assms by simp

lemma read_temp: "ok s \<Longrightarrow> block < block_count dev \<Longrightarrow>
    read_temp dev block s = Some (Inr (bytes_at (data s) (block * block_size dev) (block_size dev)), s)"
  using read_block [of s 1 block "replicate (block_size dev) 0"] block_in_range [of s block]
  by (simp add: read_temp_def block_error_def put_bytes_whole)

lemma write_temp: "ok s \<Longrightarrow> block < block_count dev \<Longrightarrow> length temp = block_size dev \<Longrightarrow>
    write_temp dev temp block s = Some (Inr (), upd (put_bytes (data s) (block * block_size dev) temp) s)"
  using write_block [of s 1 block temp]
  by (simp add: write_temp_def block_error_def bytes_at_def)

lemma first_on_track:
  assumes "ok s" "off + len \<le> block_count dev * block_size dev" "0 < len"
  shows "on_track off len (min (block_size dev - off mod block_size dev) len,
    len - min (block_size dev - off mod block_size dev) len, off div block_size dev + 1)"
proof (cases "len \<le> block_size dev - off mod block_size dev")
  case True then show ?thesis using assms by (simp add: on_track_def)
next
  case False
  have k: "off mod block_size dev < block_size dev" using geometry_ok_total(3) [OF geometry [OF assms(1)]] by simp
  have o: "off = off div block_size dev * block_size dev + off mod block_size dev" by simp
  have "off + (block_size dev - off mod block_size dev) = (off div block_size dev + 1) * block_size dev"
    using o k by (simp only: add_mult_distrib)
  with False assms show ?thesis by (simp add: on_track_def)
qed

lemma read_first:
  assumes "ok s" "off + len \<le> block_count dev * block_size dev" "len \<le> length buf" "0 < len"
  shows "\<exists>p. read_first dev buf (int off) len s = Some (Inr p, put_bytes buf 0 (bytes_at (data s) off (fst p)), s) \<and> on_track off len p"
proof -
  let ?bs = "block_size dev" and ?b = "off div block_size dev" and ?k = "off mod block_size dev"
  have bs: "0 < ?bs" using geometry_ok_total(3) [OF geometry [OF assms(1)]] .
  have o: "off = ?b * ?bs + ?k" by simp
  have b: "?b < block_count dev"
    using assms(2,4) by (simp add: less_mult_imp_div_less)
  then have u: "uint32 ?b = ?b" using geometry [OF assms(1)] by (simp add: geometry_ok_def)
  show ?thesis
  proof (cases "?k = 0")
    case True
    then show ?thesis using assms u by (auto simp: read_first_def Let_def on_track_def mult.commute)
  next
    case False
    let ?n = "min (?bs - ?k) len"
    have k: "?k < ?bs" using bs by simp
    have r: "?k + ?n \<le> ?bs" using k by simp
    have x: "copy_out (bytes_at (data s) (?b * ?bs) ?bs) ?k ?n = Some (bytes_at (data s) off ?n)"
      using r block_in_range [OF assms(1) b] by (simp add: copy_out_def bytes_at_at del: min_less_iff_conj)
    have l: "length (bytes_at (data s) off ?n) = ?n" using assms(2) data_size [OF assms(1)] by (simp add: min_def)
    have "read_first dev buf (int off) len s = Some (Inr (?n, len - ?n, ?b + 1), put_bytes buf 0 (bytes_at (data s) off ?n), s)"
      using False u next_block [OF assms(1) b] l assms(3)
      by (simp add: read_first_def Let_def read_temp [OF assms(1) b] x copy_in_def)
    with first_on_track [OF assms(1,2,4)] show ?thesis by auto
  qed
qed

text \<open>The buffer after the first bytes of a read, and the device after the first bytes of a write.\<close>

lemma fill_step:
  assumes "ok s" "off + pos + n \<le> length (data s)" "pos + n \<le> length buf"
  shows "copy_in (put_bytes buf 0 (bytes_at (data s) off pos)) pos (bytes_at (data s) (off + pos) n) =
    Some (put_bytes buf 0 (bytes_at (data s) off (pos + n)))"
  using assms put_bytes_append [of 0 "bytes_at (data s) off pos" "bytes_at (data s) (off + pos) n" buf]
  by (simp add: copy_in_def bytes_at_append)

lemma on_track_block:
  assumes "ok s" "on_track off bytes_total (pos, len, block)" "0 < len"
  shows "block < block_count dev" "off + pos = block * block_size dev" "off + pos + len \<le> length (data s)"
proof -
  show e: "off + pos = block * block_size dev" using assms(2,3) by (simp add: on_track_def)
  then have "block * block_size dev < block_count dev * block_size dev"
    using assms(2,3) unfolding on_track_def prod.case by linarith
  then show "block < block_count dev" by (rule block_of)
  show "off + pos + len \<le> length (data s)" using assms(1,2) by (simp add: on_track_def data_size)
qed

lemma on_track_next:
  assumes "ok s" "on_track off bytes_total (pos, len, block)" "n * block_size dev \<le> len"
  shows "on_track off bytes_total (pos + n * block_size dev, len - n * block_size dev, uint32 (block + n))"
proof (cases "n * block_size dev < len")
  case True
  then have e: "off + pos = block * block_size dev" "0 < len" using assms(2) by (auto simp: on_track_def)
  have "(block + n) * block_size dev < block_count dev * block_size dev"
    using assms(2) True e by (simp add: on_track_def add_mult_distrib)
  then have "uint32 (block + n) = block + n"
    using geometry [OF assms(1)] block_of [of "block + n"] by (simp add: geometry_ok_def)
  then show ?thesis using assms e by (simp add: on_track_def add_mult_distrib)
next
  case False
  then show ?thesis using assms by (simp add: on_track_def)
qed

lemma read_aligned:
  assumes "ok s" "on_track off bytes_total p" "bytes_total \<le> length buf"
  shows "\<exists>p'. read_aligned dev p (put_bytes buf 0 (bytes_at (data s) off (fst p))) s =
      Some (Inr p', put_bytes buf 0 (bytes_at (data s) off (fst p')), s) \<and>
    on_track off bytes_total p' \<and> fst (snd p') < block_size dev"
  using assms(2)
proof (induction "fst (snd p)" arbitrary: p rule: less_induct)
  case less
  obtain pos len block where p: "p = (pos, len, block)" by (cases p) auto
  have bs: "0 < block_size dev" using geometry_ok_total(3) [OF geometry [OF assms(1)]] .
  show ?case
  proof (cases "block_size dev \<le> len")
    case False
    then show ?thesis using less.prems by (auto simp: p)
  next
    case True
    note t = on_track_block [OF assms(1) less.prems [unfolded p]]
    have b: "block < block_count dev" "off + pos = block * block_size dev" using t True bs by auto
    let ?p = "(pos + block_size dev, len - block_size dev, uint32 (block + 1))"
    have f: "copy_in (put_bytes buf 0 (bytes_at (data s) off pos)) pos (bytes_at (data s) (block * block_size dev) (block_size dev)) =
        Some (put_bytes buf 0 (bytes_at (data s) off (pos + block_size dev)))"
      using fill_step [OF assms(1), of off pos "block_size dev" buf] t(3) True bs less.prems assms(3) b(2)
      by (simp add: p on_track_def)
    have o: "on_track off bytes_total ?p"
      using on_track_next [OF assms(1) less.prems [unfolded p], of 1] True by simp
    have c: "copy_out (bytes_at (data s) (block * block_size dev) (block_size dev)) 0 (block_size dev) =
        Some (bytes_at (data s) (block * block_size dev) (block_size dev))"
      using block_in_range [OF assms(1) b(1)] by (simp add: copy_out_def bytes_at_at)
    show ?thesis using less.hyps [of ?p] o True bs f c b(1)
      by (simp add: p read_temp [OF assms(1) b(1)])
  qed
qed

lemma num_blocks:
  assumes "ok s" "len < 2 ^ 32"
  shows "unat (divpow2 (of_nat len) (block_shift dev)) = len div block_size dev"
  using assms geometry [OF assms(1)]
  by (simp add: divpow2_unat geometry_ok_def take_bit_nat_eq_self unat_of_nat)

lemma whole_blocks: "len div block_size dev * block_size dev \<le> len"
  by (simp add: mult.commute)

lemma read_bulk:
  assumes "ok s" "on_track off bytes_total p" "bytes_total \<le> length buf" "bytes_total < 2 ^ 32"
  shows "\<exists>p'. read_bulk dev p (put_bytes buf 0 (bytes_at (data s) off (fst p))) s =
      Some (Inr p', put_bytes buf 0 (bytes_at (data s) off (fst p')), s) \<and>
    on_track off bytes_total p' \<and> fst (snd p') < block_size dev"
proof -
  obtain pos len block where p: "p = (pos, len, block)" by (cases p) auto
  let ?n = "len div block_size dev" and ?buf = "put_bytes buf 0 (bytes_at (data s) off pos)"
  have bs: "0 < block_size dev" using geometry_ok_total(3) [OF geometry [OF assms(1)]] .
  note t = assms(2) [unfolded p]
  have pos: "pos + len = bytes_total" "off + bytes_total \<le> length (data s)"
    using t data_size [OF assms(1)] by (simp_all add: on_track_def)
  have l: "length (bytes_at (data s) off pos) = pos" "length ?buf = length buf" using pos assms(3) by simp_all
  let ?p = "(pos + ?n * block_size dev, len - ?n * block_size dev, uint32 (block + ?n))"
  have n: "unat (divpow2 (of_nat len) (block_shift dev)) = ?n"
    using num_blocks [OF assms(1)] pos assms(4) by simp
  have o: "on_track off bytes_total ?p" by (rule on_track_next [OF assms(1) t whole_blocks])
  have m: "len - ?n * block_size dev < block_size dev" using bs by (simp add: minus_div_mult_eq_mod)
  have r: "bio_read_block dev (drop pos ?buf) block ?n s =
      Some (int (?n * block_size dev), drop pos (put_bytes buf 0 (bytes_at (data s) off (pos + ?n * block_size dev))), s)"
  proof (cases "?n = 0")
    case True
    then show ?thesis using geometry [OF assms(1)]
      by (simp add: bio_read_block_def bio_trim_block_range_def geometry_ok_def)
  next
    case False
    then have len: "0 < len" by (cases len) auto
    note b = on_track_block [OF assms(1) t len]
    have "block * block_size dev + ?n * block_size dev \<le> block_count dev * block_size dev"
      using b(2,3) whole_blocks [of len] data_size [OF assms(1)] by linarith
    then have "block + ?n \<le> block_count dev" using bs by (simp add: add_mult_distrib [symmetric])
    moreover have "put_bytes (drop pos ?buf) 0 (bytes_at (data s) (block * block_size dev) (?n * block_size dev)) =
        drop pos (put_bytes buf 0 (bytes_at (data s) off (pos + ?n * block_size dev)))"
      unfolding bytes_at_append [symmetric] using l b(2) by (simp add: put_bytes_def add.commute)
    moreover have "?n * block_size dev \<le> length buf - pos" using pos assms(3) whole_blocks [of len] by linarith
    ultimately show ?thesis
      using read_block [OF assms(1), of ?n block "drop pos ?buf"] False l by simp
  qed
  let ?x = "put_bytes buf 0 (bytes_at (data s) off (pos + ?n * block_size dev))"
  have "take pos ?buf = take pos ?x"
    unfolding bytes_at_append [symmetric] using l by (simp add: put_bytes_def)
  then have x: "take pos ?buf @ drop pos ?x = ?x" by simp
  have e: "block_error (int (?n * block_size dev)) (block_size dev * ?n) = None"
    by (simp only: mult.commute [of "block_size dev"] block_error_int)
  have "pos \<le> length ?buf" using l pos assms(3) by simp
  then have "read_bulk dev p ?buf s = Some (Inr ?p, put_bytes buf 0 (bytes_at (data s) off (fst ?p)), s)"
    unfolding read_bulk_def p prod.case n Let_def by (simp add: r x e del: of_nat_mult)
  then show ?thesis using o m by (auto simp: p)
qed

lemma read_last:
  assumes "ok s" "on_track off bytes_total p" "bytes_total \<le> length buf" "fst (snd p) < block_size dev"
  shows "read_last dev p (put_bytes buf 0 (bytes_at (data s) off (fst p))) s =
    Some (int bytes_total, put_bytes buf 0 (bytes_at (data s) off bytes_total), s)"
proof -
  obtain pos len block where p: "p = (pos, len, block)" by (cases p) auto
  note t = assms(2) [unfolded p]
  have pos: "pos + len = bytes_total" "len < block_size dev" using t assms(4) by (simp_all add: p on_track_def)
  show ?thesis
  proof (cases "len = 0")
    case True then show ?thesis using pos by (simp add: p read_last_def)
  next
    case False
    then have b: "block < block_count dev" "off + pos = block * block_size dev" "off + pos + len \<le> length (data s)"
      using on_track_block [OF assms(1) t] by auto
    have c: "copy_out (bytes_at (data s) (block * block_size dev) (block_size dev)) 0 len = Some (bytes_at (data s) (off + pos) len)"
      using block_in_range [OF assms(1) b(1)] pos b(2) by (simp add: copy_out_def bytes_at_at)
    show ?thesis using False fill_step [OF assms(1) b(3), of buf] pos assms(3) c
      by (simp add: p read_last_def read_temp [OF assms(1) b(1)])
  qed
qed

theorem default_read:
  assumes "ok s" "0 < len" "off + len \<le> length (data s)" "len \<le> length buf" "len < 2 ^ 32"
  shows "bio_default_read dev addr buf (int off) len s =
    Some (int len, put_bytes buf 0 (bytes_at (data s) off len), s)"
proof -
  have bs: "0 < block_size dev" using geometry_ok_total(3) [OF geometry [OF assms(1)]] .
  obtain p where f: "read_first dev buf (int off) len s = Some (Inr p, put_bytes buf 0 (bytes_at (data s) off (fst p)), s)"
    and t: "on_track off len p" using read_first [of s off len buf] assms data_size by auto
  show ?thesis
    using read_aligned [OF assms(1) t assms(4)] read_bulk [OF assms(1) t assms(4,5)] bs
      read_last [OF assms(1) _ assms(4), of off]
    by (auto simp: bio_default_read_def f)
qed

text \<open>The state after the first \<open>pos\<close> bytes of a buffer have been written at \<open>off\<close>.\<close>

definition written_to :: "'a \<Rightarrow> nat \<Rightarrow> bytes \<Rightarrow> nat \<Rightarrow> 'a" where
  "written_to s off buf pos = upd (put_bytes (data s) off (bytes_at buf 0 pos)) s"

lemma written_to_0: "ok s \<Longrightarrow> written_to s off buf 0 = s"
  by (simp add: written_to_def upd_data)

lemma written_to_ok:
  assumes "ok s" "off + pos \<le> length (data s)" "pos \<le> length buf"
  shows "ok (written_to s off buf pos)" "length (data (written_to s off buf pos)) = length (data s)"
  using assms by (simp_all add: written_to_def ok_upd data_upd)

lemma written_to_step:
  assumes "ok s" "off + pos + n \<le> length (data s)" "pos + n \<le> length buf"
  shows "upd (put_bytes (data (written_to s off buf pos)) (off + pos) (bytes_at buf pos n)) (written_to s off buf pos) =
    written_to s off buf (pos + n)"
proof -
  have "put_bytes (put_bytes (data s) off (bytes_at buf 0 pos)) (off + pos) (bytes_at buf pos n) =
      put_bytes (data s) off (bytes_at buf 0 (pos + n))"
    using put_bytes_append [of off "bytes_at buf 0 pos" "bytes_at buf pos n" "data s"] assms
      bytes_at_append [of buf 0 pos n] by simp
  then show ?thesis using assms by (simp add: written_to_def data_upd upd_upd)
qed

lemma write_partial:
  assumes "ok s" "block < block_count dev" "a + n \<le> block_size dev" "pos + n \<le> length buf"
  shows "write_partial dev buf pos block a n s =
    Some (Inr (), upd (put_bytes (data s) (block * block_size dev + a) (bytes_at buf pos n)) s)"
proof -
  let ?t = "bytes_at (data s) (block * block_size dev) (block_size dev)"
  have b: "block * block_size dev + block_size dev \<le> length (data s)" by (rule block_in_range [OF assms(1,2)])
  have "copy_in ?t a (bytes_at buf pos n) = Some (put_bytes ?t a (bytes_at buf pos n))"
    using assms b by (simp add: copy_in_def)
  moreover have "length (put_bytes ?t a (bytes_at buf pos n)) = block_size dev" using assms b by simp
  ultimately show ?thesis using assms put_bytes_block [of a "bytes_at buf pos n" "block_size dev" "block * block_size dev" "data s"] b
    by (simp add: write_partial_def read_temp copy_out_def write_temp)
qed

lemma write_first:
  assumes "ok s" "off + len \<le> length (data s)" "len \<le> length buf" "0 < len"
  shows "\<exists>p. write_first dev buf (int off) len s = Some (Inr p, written_to s off buf (fst p)) \<and> on_track off len p"
proof -
  let ?bs = "block_size dev" and ?b = "off div block_size dev" and ?k = "off mod block_size dev"
  let ?n = "min (?bs - ?k) len"
  have total: "off + len \<le> block_count dev * ?bs" using assms(1,2) data_size by simp
  have bs: "0 < ?bs" using geometry_ok_total(3) [OF geometry [OF assms(1)]] .
  have b: "?b < block_count dev" using total assms(4) by (simp add: less_mult_imp_div_less)
  then have u: "uint32 ?b = ?b" using geometry [OF assms(1)] by (simp add: geometry_ok_def)
  show ?thesis
  proof (cases "?k = 0")
    case True
    then show ?thesis using total u by (auto simp: write_first_def Let_def on_track_def mult.commute written_to_0 assms(1))
  next
    case False
    have k: "?k + ?n \<le> ?bs" using bs by (simp add: min_def less_imp_le_nat mod_less_divisor)
    have w: "write_partial dev buf 0 ?b ?k ?n s = Some (Inr (), written_to s off buf ?n)"
      using write_partial [OF assms(1) b k, of 0 buf] assms(3) by (simp add: written_to_def)
    have "write_first dev buf (int off) len s = Some (Inr (?n, len - ?n, ?b + 1), written_to s off buf ?n)"
      using False w next_block [OF assms(1) b] by (simp add: write_first_def Let_def u)
    with first_on_track [OF assms(1) total assms(4)] show ?thesis by auto
  qed
qed

text \<open>Writing \<open>n\<close> bytes where the transfer stands.\<close>

lemma written_to_at:
  assumes "ok s" "on_track off bytes_total (pos, len, block)" "bytes_total \<le> length buf" "n \<le> len" "0 < n"
  shows "upd (put_bytes (data (written_to s off buf pos)) (block * block_size dev) (bytes_at buf pos n))
      (written_to s off buf pos) = written_to s off buf (pos + n)"
    "ok (written_to s off buf pos)" "block < block_count dev"
proof -
  have len: "0 < len" using assms(4,5) by simp
  note b = on_track_block [OF assms(1,2) len]
  have l: "pos + n \<le> length buf" "off + pos + n \<le> length (data s)" using b(3) assms(2,3,4) by (simp_all add: on_track_def)
  show "upd (put_bytes (data (written_to s off buf pos)) (block * block_size dev) (bytes_at buf pos n))
      (written_to s off buf pos) = written_to s off buf (pos + n)"
    using written_to_step [OF assms(1) l(2,1)] b(2) by simp
  show "ok (written_to s off buf pos)" using written_to_ok(1) [OF assms(1), of off pos buf] l by simp
  show "block < block_count dev" by (rule b(1))
qed

lemma write_aligned:
  assumes "ok s" "on_track off bytes_total p" "bytes_total \<le> length buf"
  shows "\<exists>p'. write_aligned dev p buf (written_to s off buf (fst p)) = Some (Inr p', written_to s off buf (fst p')) \<and>
    on_track off bytes_total p' \<and> fst (snd p') < block_size dev"
  using assms(2)
proof (induction "fst (snd p)" arbitrary: p rule: less_induct)
  case less
  obtain pos len block where p: "p = (pos, len, block)" by (cases p) auto
  have bs: "0 < block_size dev" using geometry_ok_total(3) [OF geometry [OF assms(1)]] .
  show ?case
  proof (cases "block_size dev \<le> len")
    case False
    then show ?thesis using less.prems by (auto simp: p)
  next
    case True
    let ?p = "(pos + block_size dev, len - block_size dev, uint32 (block + 1))"
    note w = written_to_at [OF assms(1) less.prems [unfolded p] assms(3) True bs]
    have l: "pos + block_size dev \<le> length buf" using less.prems True assms(3) by (simp add: p on_track_def)
    have o: "on_track off bytes_total ?p"
      using on_track_next [OF assms(1) less.prems [unfolded p], of 1] True by simp
    have "write_temp dev (bytes_at buf pos (block_size dev)) block (written_to s off buf pos) =
        Some (Inr (), written_to s off buf (pos + block_size dev))"
      using write_temp [OF w(2,3)] w(1) l by simp
    then show ?thesis using less.hyps [of ?p] o True bs l by (simp add: p copy_out_def)
  qed
qed

lemma write_bulk:
  assumes "ok s" "on_track off bytes_total p" "bytes_total \<le> length buf" "bytes_total < 2 ^ 32"
  shows "\<exists>p'. write_bulk dev p buf (written_to s off buf (fst p)) = Some (Inr p', written_to s off buf (fst p')) \<and>
    on_track off bytes_total p' \<and> fst (snd p') < block_size dev"
proof -
  obtain pos len block where p: "p = (pos, len, block)" by (cases p) auto
  let ?n = "len div block_size dev"
  let ?N = "?n * block_size dev"
  have bs: "0 < block_size dev" using geometry_ok_total(3) [OF geometry [OF assms(1)]] .
  note t = assms(2) [unfolded p]
  have pos: "pos + len = bytes_total" "off + bytes_total \<le> length (data s)"
    using t data_size [OF assms(1)] by (simp_all add: on_track_def)
  let ?p = "(pos + ?N, len - ?N, uint32 (block + ?n))"
  have n: "unat (divpow2 (of_nat len) (block_shift dev)) = ?n"
    using num_blocks [OF assms(1)] pos assms(4) by simp
  have o: "on_track off bytes_total ?p" by (rule on_track_next [OF assms(1) t whole_blocks])
  have m: "len - ?N < block_size dev" using bs by (simp add: minus_div_mult_eq_mod)
  have r: "bio_write_block dev (drop pos buf) block ?n (written_to s off buf pos) =
      Some (int ?N, written_to s off buf (pos + ?N))"
  proof (cases "?n = 0")
    case True
    then show ?thesis using geometry [OF assms(1)]
      by (simp add: bio_write_block_def bio_trim_block_range_def geometry_ok_def)
  next
    case False
    then have len: "0 < len" "0 < ?N" using bs by (cases len; simp)+
    note b = on_track_block [OF assms(1) t len(1)]
    note w = written_to_at [OF assms(1) t assms(3) whole_blocks len(2)]
    have "block * block_size dev + ?N \<le> block_count dev * block_size dev"
      using b(2,3) whole_blocks [of len] data_size [OF assms(1)] by linarith
    then have "block + ?n \<le> block_count dev" using bs by (simp add: add_mult_distrib [symmetric])
    moreover have "?N \<le> length buf - pos" using pos assms(3) whole_blocks [of len] by linarith
    moreover have "bytes_at (drop pos buf) 0 ?N = bytes_at buf pos ?N" by (simp add: bytes_at_def)
    ultimately show ?thesis
      using write_block [OF w(2), of ?n block "drop pos buf"] False w(1) by simp
  qed
  have e: "block_error (int ?N) (block_size dev * ?n) = None"
    by (simp only: mult.commute [of "block_size dev"] block_error_int)
  have "pos \<le> length buf" using pos assms(3) by simp
  then have "write_bulk dev p buf (written_to s off buf pos) = Some (Inr ?p, written_to s off buf (fst ?p))"
    unfolding write_bulk_def p prod.case n Let_def by (simp add: r e del: of_nat_mult)
  then show ?thesis using o m by (auto simp: p)
qed

lemma write_last:
  assumes "ok s" "on_track off bytes_total p" "bytes_total \<le> length buf" "fst (snd p) < block_size dev"
  shows "write_last dev p buf (written_to s off buf (fst p)) = Some (int bytes_total, written_to s off buf bytes_total)"
proof -
  obtain pos len block where p: "p = (pos, len, block)" by (cases p) auto
  note t = assms(2) [unfolded p]
  have pos: "pos + len = bytes_total" "len < block_size dev" using t assms(4) by (simp_all add: p on_track_def)
  show ?thesis
  proof (cases "len = 0")
    case True then show ?thesis using pos by (simp add: p write_last_def)
  next
    case False
    note w = written_to_at [OF assms(1) t assms(3) order_refl] 
    show ?thesis using False w write_partial [of "written_to s off buf pos" block 0 len pos buf] pos assms(3)
      by (simp add: p write_last_def)
  qed
qed

theorem default_write:
  assumes "ok s" "0 < len" "off + len \<le> length (data s)" "len \<le> length buf" "len < 2 ^ 32"
  shows "bio_default_write dev addr buf (int off) len s =
    Some (int len, upd (put_bytes (data s) off (bytes_at buf 0 len)) s)"
proof -
  have bs: "0 < block_size dev" using geometry_ok_total(3) [OF geometry [OF assms(1)]] .
  obtain p where f: "write_first dev buf (int off) len s = Some (Inr p, written_to s off buf (fst p))"
    and t: "on_track off len p" using write_first [of s off len buf] assms by auto
  show ?thesis
    using write_aligned [OF assms(1) t assms(4)] write_bulk [OF assms(1) t assms(4,5)] bs
      write_last [OF assms(1) _ assms(4), of off]
    by (auto simp: bio_default_write_def f written_to_def [of s off buf len])
qed

end

text \<open>What \<open>bio_read\<close> and \<open>bio_write\<close> promise to their callers.\<close>

locale byte_device = storage +
  assumes read_bytes: "ok s \<Longrightarrow> 0 < len \<Longrightarrow> off + len \<le> length (data s) \<Longrightarrow> len \<le> length buf \<Longrightarrow> len < 2 ^ 32 \<Longrightarrow>
      bio_read dev addr buf (int off) len s = Some (int len, put_bytes buf 0 (bytes_at (data s) off len), s)"
    and write_bytes: "ok s \<Longrightarrow> 0 < len \<Longrightarrow> off + len \<le> length (data s) \<Longrightarrow> len \<le> length buf \<Longrightarrow> len < 2 ^ 32 \<Longrightarrow>
      bio_write dev addr buf (int off) len s = Some (int len, upd (put_bytes (data s) off (bytes_at buf 0 len)) s)"

begin

text \<open>A transfer of any range is the transfer of the part of it that lies inside the device.\<close>

lemma clipped_bytes:
  assumes "ok s" "len \<le> length buf" "len < 2 ^ 63 - length (data s)" "length (data s) < 2 ^ 32"
  shows "bio_read dev addr buf offset len s = (let n = clip (length (data s)) offset len in
      Some (int n, put_bytes buf 0 (bytes_at (data s) (nat offset) n), s))"
    "bio_write dev addr buf offset len s = (let n = clip (length (data s)) offset len in
      Some (int n, upd (put_bytes (data s) (nat offset) (bytes_at buf 0 n)) s))"
proof -
  define n where "n = clip (length (data s)) offset len"
  note g = geometry [OF assms(1)]
  have t: "bio_trim_range dev offset len = n" "bio_trim_range dev offset n = n" "bd_ref dev > 0"
    using bio_trim_range_clip [OF g, of len offset] bio_trim_range_clip [OF g, of n offset] assms(3) clip_bounds(1) [of "length (data s)" offset len] g
    by (simp_all add: n_def geometry_ok_def)
  have "bio_read dev addr buf offset len s = Some (int n, put_bytes buf 0 (bytes_at (data s) (nat offset) n), s) \<and>
    bio_write dev addr buf offset len s = Some (int n, upd (put_bytes (data s) (nat offset) (bytes_at buf 0 n)) s)"
  proof (cases "n = 0")
    case True
    then show ?thesis using t upd_data [OF assms(1)] by (simp add: bio_read_def bio_write_def)
  next
    case False
    have i: "0 \<le> offset" "nat offset + n \<le> length (data s)" using clip_bounds(2) [of "length (data s)" offset len] False by (simp_all add: n_def)
    have l: "n \<le> length buf" "n < 2 ^ 32" using clip_bounds(1) [of "length (data s)" offset len] assms(2,4) i(2) by (simp_all add: n_def)
    have "bio_read dev addr buf offset len s = bio_read dev addr buf offset n s"
      "bio_write dev addr buf offset len s = bio_write dev addr buf offset n s"
      using t by (simp_all add: bio_read_def bio_write_def)
    then show ?thesis using read_bytes [OF assms(1) _ i(2) l] write_bytes [OF assms(1) _ i(2) l] False i(1) by simp
  qed
  then show "bio_read dev addr buf offset len s = (let n = clip (length (data s)) offset len in
      Some (int n, put_bytes buf 0 (bytes_at (data s) (nat offset) n), s))"
    "bio_write dev addr buf offset len s = (let n = clip (length (data s)) offset len in
      Some (int n, upd (put_bytes (data s) (nat offset) (bytes_at buf 0 n)) s))" by (simp_all add: n_def Let_def)
qed

end

locale device = block_device + byte_device

text \<open>A driver that leaves \<open>read\<close> and \<open>write\<close> to the defaults.\<close>

locale default_device = block_device +
  assumes default_hooks: "read_hook dev = None" "write_hook dev = None"

sublocale default_device \<subseteq> byte_device
proof
  fix s :: 'a and len off :: nat and buf :: bytes and addr :: u64
  assume a: "ok s" "0 < len" "off + len \<le> length (data s)" "len \<le> length buf" "len < 2 ^ 32"
  have t: "bd_ref dev > 0" "bio_trim_range dev (int off) len = len"
    using geometry [OF a(1)] bio_trim_range_inside [OF geometry [OF a(1)], of "int off" len] a(3)
    by (simp_all add: geometry_ok_def)
  show "bio_read dev addr buf (int off) len s = Some (int len, put_bytes buf 0 (bytes_at (data s) off len), s)"
    using default_read [OF a] t a(2) by (simp add: bio_read_def default_hooks)
  show "bio_write dev addr buf (int off) len s = Some (int len, upd (put_bytes (data s) off (bytes_at buf 0 len)) s)"
    using default_write [OF a] t a(2) by (simp add: bio_write_def default_hooks)
qed

sublocale default_device \<subseteq> device
  by unfold_locales

section \<open>The memory device\<close>

definition mem_dev :: "string \<Rightarrow> nat \<Rightarrow> bytes bdev" where
  "mem_dev name len = the (create_membdev name len)"

definition mem_ok :: "nat \<Rightarrow> bytes \<Rightarrow> bool" where
  "mem_ok len mem \<longleftrightarrow> length mem = len \<and> len < 2 ^ 32"

definition mem_data :: "nat \<Rightarrow> bytes \<Rightarrow> bytes" where
  "mem_data len mem = take (len div 512 * 512) mem"

definition mem_upd :: "nat \<Rightarrow> bytes \<Rightarrow> bytes \<Rightarrow> bytes" where
  "mem_upd len d mem = d @ drop (len div 512 * 512) mem"

lemma log2_512: "log2_uint 512 = 9" "ispow2 512"
  using log2_uint_power [of 9] by (simp_all add: ispow2_def)

lemma mem_dev_simps:
  "create_membdev name len = Some (mem_dev name len)"
  "bd_ref (mem_dev name len) = 1"
  "block_size (mem_dev name len) = 512"
  "block_shift (mem_dev name len) = 9"
  "block_count (mem_dev name len) = uint32 (len div 512)"
  "total_size (mem_dev name len) = to_off_t (int (uint32 (len div 512)) * 512)"
  "read_hook (mem_dev name len) = Some mem_bdev_read"
  "read_block_hook (mem_dev name len) = Some mem_bdev_read_block"
  "write_hook (mem_dev name len) = Some mem_bdev_write"
  "write_block_hook (mem_dev name len) = Some mem_bdev_write_block"
  by (simp_all add: mem_dev_def create_membdev_def bio_initialize_bdev_def log2_512)

lemma mem_geometry:
  assumes "mem_ok len mem"
  shows "geometry_ok (mem_dev name len) (length (mem_data len mem))" "length (mem_data len mem) = len div 512 * 512"
    "block_count (mem_dev name len) = len div 512"
proof -
  have l: "len div 512 < 2 ^ 23" using assms by (simp add: mem_ok_def less_mult_imp_div_less)
  then show b: "block_count (mem_dev name len) = len div 512" by (simp add: mem_dev_simps)
  show d: "length (mem_data len mem) = len div 512 * 512"
    using assms by (simp add: mem_data_def mem_ok_def)
  show "geometry_ok (mem_dev name len) (length (mem_data len mem))"
    unfolding geometry_ok_def d using l by (simp add: mem_dev_simps to_off_t_def)
qed

lemma mem_upd_laws:
  assumes "mem_ok len mem" "length d = length (mem_data len mem)"
  shows "mem_ok len (mem_upd len d mem)" "mem_data len (mem_upd len d mem) = d"
    "mem_upd len e (mem_upd len d mem) = mem_upd len e mem"
  using assms mem_geometry(2) [OF assms(1)] by (simp_all add: mem_ok_def mem_data_def mem_upd_def)

lemma mem_upd_data: "mem_upd len (mem_data len mem) mem = mem"
  by (simp add: mem_upd_def mem_data_def)

lemma bytes_at_mem_data: "a + n \<le> len div 512 * 512 \<Longrightarrow> bytes_at (mem_data len mem) a n = bytes_at mem a n"
  by (simp add: mem_data_def bytes_at_def drop_take)

lemma put_bytes_mem:
  assumes "mem_ok len mem" "a + length x \<le> len div 512 * 512"
  shows "put_bytes mem a x = mem_upd len (put_bytes (mem_data len mem) a x) mem"
  using assms append_take_drop_id [of "len div 512 * 512 - (a + length x)" "drop (a + length x) mem"]
  by (simp add: mem_upd_def mem_data_def put_bytes_def mem_ok_def drop_take)

interpretation mem: device "mem_dev name len" "mem_ok len" "mem_data len" "mem_upd len"
proof
  fix mem buf :: bytes and count block :: nat
  assume a: "mem_ok len mem" "0 < count" "block + count \<le> block_count (mem_dev name len)"
    "count * block_size (mem_dev name len) \<le> length buf"
  have g: "geometry_ok (mem_dev name len) (length (mem_data len mem))" using a(1) by (rule mem_geometry)
  have r: "(block + count) * 512 \<le> len div 512 * 512"
    using a(3) mem_geometry(3) [OF a(1)] by (intro mult_le_mono1) simp
  have l: "len div 512 * 512 \<le> length mem" "length mem < 2 ^ 32" using a(1) by (simp_all add: mem_ok_def)
  have u: "uint32 (block * 512) = block * 512" "uint32 (count * 512) = count * 512" using r l by simp_all
  have t: "bio_trim_block_range (mem_dev name len) block count = count"
    by (rule bio_trim_block_range_inside [OF g a(3)])
  show "bio_read_block (mem_dev name len) buf block count mem = Some (int (count * block_size (mem_dev name len)),
      put_bytes buf 0 (bytes_at (mem_data len mem) (block * block_size (mem_dev name len)) (count * block_size (mem_dev name len))), mem)"
    using a r l bytes_at_mem_data [of "block * 512" "count * 512" len mem] unfolding bio_read_block_def t
    by (simp add: mem_dev_simps mem_bdev_read_block_def u copy_out_def copy_in_def add_mult_distrib)
  show "bio_write_block (mem_dev name len) buf block count mem = Some (int (count * block_size (mem_dev name len)),
      mem_upd len (put_bytes (mem_data len mem) (block * block_size (mem_dev name len))
        (bytes_at buf 0 (count * block_size (mem_dev name len)))) mem)"
    using a r l put_bytes_mem [OF a(1), of "block * 512" "bytes_at buf 0 (count * 512)"] unfolding bio_write_block_def t
    by (simp add: mem_dev_simps mem_bdev_write_block_def u copy_out_def copy_in_def add_mult_distrib)
next
  fix mem buf :: bytes and addr :: u64 and off n :: nat
  assume a: "mem_ok len mem" "0 < n" "off + n \<le> length (mem_data len mem)" "n \<le> length buf" "n < 2 ^ 32"
  have g: "geometry_ok (mem_dev name len) (length (mem_data len mem))" using a(1) by (rule mem_geometry)
  have l: "off + n \<le> len div 512 * 512" "len div 512 * 512 \<le> length mem"
    using a(1,3) mem_geometry(2) [OF a(1)] by (simp_all add: mem_ok_def)
  have t: "bio_trim_range (mem_dev name len) (int off) n = n"
    using bio_trim_range_inside [OF g, of "int off" n] a(3) by simp
  show "bio_read (mem_dev name len) addr buf (int off) n mem =
      Some (int n, put_bytes buf 0 (bytes_at (mem_data len mem) off n), mem)"
    using a l bytes_at_mem_data [of off n len mem] unfolding bio_read_def t
    by (simp add: mem_dev_simps mem_bdev_read_def copy_out_def copy_in_def)
  show "bio_write (mem_dev name len) addr buf (int off) n mem =
      Some (int n, mem_upd len (put_bytes (mem_data len mem) off (bytes_at buf 0 n)) mem)"
    using a l put_bytes_mem [OF a(1), of off "bytes_at buf 0 n"] unfolding bio_write_def t
    by (simp add: mem_dev_simps mem_bdev_write_def copy_out_def copy_in_def)
qed (simp_all add: mem_geometry(1) mem_upd_laws mem_upd_data)


text \<open>
  The same memory behind the default functions for bytes, for a device that may want its buffers
  aligned to the cache line.
\<close>

definition plain_dev :: "string \<Rightarrow> nat \<Rightarrow> u32 \<Rightarrow> bytes bdev" where
  "plain_dev name len fl = (mem_dev name len)\<lparr>bd_flags := fl, read_hook := None, write_hook := None\<rparr>"

interpretation plain: default_device "plain_dev name len fl" "mem_ok len" "mem_data len" "mem_upd len"
proof
  fix mem buf :: bytes and count block :: nat
  let ?dev = "plain_dev name len fl"
  have e: "bio_read_block ?dev = bio_read_block (mem_dev name len)"
    "bio_write_block ?dev = bio_write_block (mem_dev name len)"
    "block_count ?dev = block_count (mem_dev name len)" "block_size ?dev = block_size (mem_dev name len)"
    by (auto simp: plain_dev_def bio_read_block_def bio_write_block_def bio_trim_block_range_def fun_eq_iff)
  assume "mem_ok len mem" "0 < count" "block + count \<le> block_count ?dev" "count * block_size ?dev \<le> length buf"
  then show "bio_read_block ?dev buf block count mem = Some (int (count * block_size ?dev),
      put_bytes buf 0 (bytes_at (mem_data len mem) (block * block_size ?dev) (count * block_size ?dev)), mem)"
    "bio_write_block ?dev buf block count mem = Some (int (count * block_size ?dev),
      mem_upd len (put_bytes (mem_data len mem) (block * block_size ?dev) (bytes_at buf 0 (count * block_size ?dev))) mem)"
    using mem.read_block [of len mem count block name buf]
      mem.write_block [of len mem count block name buf] unfolding e by simp_all
qed (simp_all add: plain_dev_def mem_geometry(1) geometry_ok_hooks mem_upd_laws mem_upd_data)

section \<open>Sub devices\<close>

definition sub_dev :: "'s bdev \<Rightarrow> string \<Rightarrow> nat \<Rightarrow> nat \<Rightarrow> u64 \<Rightarrow> 's bdev" where
  "sub_dev parent name start n addr = projr (the (publish_subdevice parent name start n addr))"

definition sub_ok :: "'s bdev \<Rightarrow> ('s \<Rightarrow> bool) \<Rightarrow> nat \<Rightarrow> nat \<Rightarrow> 's \<Rightarrow> bool" where
  "sub_ok parent ok start n s \<longleftrightarrow> ok s \<and> start + n \<le> block_count parent"

definition sub_data :: "'s bdev \<Rightarrow> ('s \<Rightarrow> bytes) \<Rightarrow> nat \<Rightarrow> nat \<Rightarrow> 's \<Rightarrow> bytes" where
  "sub_data parent data start n s = bytes_at (data s) (start * block_size parent) (n * block_size parent)"

definition sub_upd :: "'s bdev \<Rightarrow> ('s \<Rightarrow> bytes) \<Rightarrow> (bytes \<Rightarrow> 's \<Rightarrow> 's) \<Rightarrow> nat \<Rightarrow> bytes \<Rightarrow> 's \<Rightarrow> 's" where
  "sub_upd parent data upd start d s = upd (put_bytes (data s) (start * block_size parent) d) s"

lemma pow2_size:
  assumes "k < 32"
  shows "ispow2 (of_nat (2 ^ k))" "log2_uint (of_nat (2 ^ k)) = k"
proof -
  show "log2_uint (of_nat (2 ^ k)) = k" using log2_uint_power [OF assms] by simp
  have "mask k AND 2 ^ k = (0 :: u32)" by (rule bit_eqI) (auto simp: bit_simps)
  then show "ispow2 (of_nat (2 ^ k))" by (simp add: ispow2_def mask_eq_exp_minus_1)
qed

lemma publish_subdevice_ok:
  assumes g: "geometry_ok parent (block_count parent * block_size parent)" and r: "start + n \<le> block_count parent"
  shows "publish_subdevice parent name start n addr = Some (Inr (sub_dev parent name start n addr))"
    "geometry_ok (sub_dev parent name start n addr) (n * block_size parent)"
    "block_count (sub_dev parent name start n addr) = n"
    "block_size (sub_dev parent name start n addr) = block_size parent"
    "read_hook (sub_dev parent name start n addr) = Some (subdev_read parent start (block_size parent))"
    "read_block_hook (sub_dev parent name start n addr) = Some (subdev_read_block parent start)"
    "write_hook (sub_dev parent name start n addr) = Some (subdev_write parent start (block_size parent))"
    "write_block_hook (sub_dev parent name start n addr) = Some (subdev_write_block parent start)"
proof -
  have k: "block_size parent = 2 ^ block_shift parent" "block_shift parent < 32" "start + n < 2 ^ 32"
    using g r by (simp_all add: geometry_ok_def)
  note p = pow2_size [OF k(2)]
  have "n * block_size parent \<le> block_count parent * block_size parent" using r by (intro mult_le_mono1) simp
  then have "n * block_size parent < 2 ^ 63" using geometry_ok_total(1) [OF g] by (rule le_less_trans)
  then have "int (n * block_size parent) < 2 ^ 63" by (simp del: of_nat_mult)
  then have t: "to_off_t (int n * 2 ^ block_shift parent) = int n * 2 ^ block_shift parent"
    by (simp add: to_off_t_def k(1))
  show e: "publish_subdevice parent name start n addr = Some (Inr (sub_dev parent name start n addr))"
    using p k r by (simp add: sub_dev_def publish_subdevice_def bio_initialize_bdev_def Let_def)
  show "geometry_ok (sub_dev parent name start n addr) (n * block_size parent)"
    "block_count (sub_dev parent name start n addr) = n"
    "block_size (sub_dev parent name start n addr) = block_size parent"
    "read_hook (sub_dev parent name start n addr) = Some (subdev_read parent start (block_size parent))"
    "read_block_hook (sub_dev parent name start n addr) = Some (subdev_read_block parent start)"
    "write_hook (sub_dev parent name start n addr) = Some (subdev_write parent start (block_size parent))"
    "write_block_hook (sub_dev parent name start n addr) = Some (subdev_write_block parent start)"
    using p k r t by (simp_all add: sub_dev_def publish_subdevice_def bio_initialize_bdev_def geometry_ok_def Let_def)
qed

lemma bytes_at_put: "pos + length x \<le> length d \<Longrightarrow> bytes_at (put_bytes d pos x) pos (length x) = x"
  by (simp add: bytes_at_def put_bytes_def)

lemma put_bytes_put:
  "pos + length x \<le> length d \<Longrightarrow> length y = length x \<Longrightarrow> put_bytes (put_bytes d pos x) pos y = put_bytes d pos y"
  by (simp add: put_bytes_def)

lemma put_bytes_at: "pos + n \<le> length d \<Longrightarrow> put_bytes d pos (bytes_at d pos n) = d"
  by (simp add: put_bytes_def bytes_at_def) (metis append_take_drop_id drop_drop add.commute)

context device
begin

lemma sub_facts:
  assumes "sub_ok dev ok start n s"
  shows "ok s" "start + n \<le> block_count dev" "start * block_size dev + n * block_size dev \<le> length (data s)"
    "length (sub_data dev data start n s) = n * block_size dev"
    "geometry_ok (sub_dev dev name start n addr) (length (sub_data dev data start n s))"
proof -
  show o: "ok s" "start + n \<le> block_count dev" using assms by (simp_all add: sub_ok_def)
  have "(start + n) * block_size dev \<le> block_count dev * block_size dev" using o(2) by (rule mult_le_mono1)
  then show l: "start * block_size dev + n * block_size dev \<le> length (data s)"
    using data_size [OF o(1)] by (simp add: add_mult_distrib)
  then show d: "length (sub_data dev data start n s) = n * block_size dev" by (simp add: sub_data_def)
  have "geometry_ok dev (block_count dev * block_size dev)" using geometry [OF o(1)] data_size [OF o(1)] by simp
  from publish_subdevice_ok(2) [OF this o(2)]
  show "geometry_ok (sub_dev dev name start n addr) (length (sub_data dev data start n s))" unfolding d .
qed

lemma sub_put:
  assumes "sub_ok dev ok start n s" "a + length x \<le> n * block_size dev"
  shows "put_bytes (data s) (start * block_size dev + a) x =
    put_bytes (data s) (start * block_size dev) (put_bytes (sub_data dev data start n s) a x)"
  using put_bytes_block [OF assms(2) sub_facts(3) [OF assms(1)]] by (simp add: sub_data_def)

lemma sub_get:
  assumes "sub_ok dev ok start n s" "a + m \<le> n * block_size dev"
  shows "bytes_at (sub_data dev data start n s) a m = bytes_at (data s) (start * block_size dev + a) m"
  using bytes_at_at [OF assms(2) sub_facts(3) [OF assms(1)]] by (simp add: sub_data_def)

lemma sub_hooks:
  assumes "sub_ok dev ok start n s"
  shows "block_count (sub_dev dev name start n addr) = n"
    "block_size (sub_dev dev name start n addr) = block_size dev"
    "read_hook (sub_dev dev name start n addr) = Some (subdev_read dev start (block_size dev))"
    "read_block_hook (sub_dev dev name start n addr) = Some (subdev_read_block dev start)"
    "write_hook (sub_dev dev name start n addr) = Some (subdev_write dev start (block_size dev))"
    "write_block_hook (sub_dev dev name start n addr) = Some (subdev_write_block dev start)"
    "bd_ref (sub_dev dev name start n addr) > 0"
  using publish_subdevice_ok(3-8) [of dev start n] geometry [OF sub_facts(1) [OF assms]] data_size [OF sub_facts(1) [OF assms]]
    sub_facts(2,5) [OF assms] by (simp_all add: geometry_ok_def)

lemma sub_device_blocks:
  assumes s: "sub_ok dev ok start n s" and c: "0 < count" "block + count \<le> n" "count * block_size dev \<le> length buf"
  shows "bio_read_block (sub_dev dev name start n addr) buf block count s = Some (int (count * block_size dev),
      put_bytes buf 0 (bytes_at (sub_data dev data start n s) (block * block_size dev) (count * block_size dev)), s)"
    "bio_write_block (sub_dev dev name start n addr) buf block count s = Some (int (count * block_size dev),
      sub_upd dev data upd start (put_bytes (sub_data dev data start n s) (block * block_size dev)
        (bytes_at buf 0 (count * block_size dev))) s)"
proof -
  note f = sub_facts [OF s] and h = sub_hooks [OF s]
  have t: "bio_trim_block_range (sub_dev dev name start n addr) block count = count"
    by (rule bio_trim_block_range_inside [OF f(5)]) (simp add: h c)
  have u: "(block + start) mod 4294967296 = start + block" using geometry [OF f(1)] f(2) c by (simp add: geometry_ok_def)
  have r: "start + block + count \<le> block_count dev" using f(2) c by simp
  have l: "block * block_size dev + count * block_size dev \<le> n * block_size dev"
    using mult_le_mono1 [OF c(2), of "block_size dev"] by (simp add: add_mult_distrib)
  show "bio_read_block (sub_dev dev name start n addr) buf block count s = Some (int (count * block_size dev),
      put_bytes buf 0 (bytes_at (sub_data dev data start n s) (block * block_size dev) (count * block_size dev)), s)"
    using read_block [OF f(1) c(1) r c(3)] sub_get [OF s l] c(1) h(7) unfolding bio_read_block_def [of "sub_dev _ _ _ _ _"] t
    by (simp add: h subdev_read_block_def u add_mult_distrib)
  show "bio_write_block (sub_dev dev name start n addr) buf block count s = Some (int (count * block_size dev),
      sub_upd dev data upd start (put_bytes (sub_data dev data start n s) (block * block_size dev)
        (bytes_at buf 0 (count * block_size dev))) s)"
    using write_block [OF f(1) c(1) r c(3)] sub_put [OF s, of "block * block_size dev" "bytes_at buf 0 (count * block_size dev)"]
      l c h(7) unfolding bio_write_block_def [of "sub_dev _ _ _ _ _"] t
    by (simp add: h subdev_write_block_def u add_mult_distrib sub_upd_def)
qed

lemma sub_device_bytes:
  assumes s: "sub_ok dev ok start n s"
    and c: "0 < len" "off + len \<le> n * block_size dev" "len \<le> length buf" "len < 2 ^ 32"
  shows "bio_read (sub_dev dev name start n addr) a buf (int off) len s =
      Some (int len, put_bytes buf 0 (bytes_at (sub_data dev data start n s) off len), s)"
    "bio_write (sub_dev dev name start n addr) a buf (int off) len s =
      Some (int len, sub_upd dev data upd start (put_bytes (sub_data dev data start n s) off (bytes_at buf 0 len)) s)"
proof -
  note f = sub_facts [OF s] and h = sub_hooks [OF s]
  have t: "bio_trim_range (sub_dev dev name start n addr) (int off) len = len"
    by (rule bio_trim_range_inside [OF f(5)]) (simp_all add: f(4) c)
  have r: "start * block_size dev + off + len \<le> length (data s)" using f(3) c(2) by simp
  have o: "int off + int (start * block_size dev) = int (start * block_size dev + off)" by simp
  show "bio_read (sub_dev dev name start n addr) a buf (int off) len s =
      Some (int len, put_bytes buf 0 (bytes_at (sub_data dev data start n s) off len), s)"
    using read_bytes [OF f(1) c(1) r c(3,4)] sub_get [OF s c(2)] c(1) h(7)
    unfolding bio_read_def [of "sub_dev _ _ _ _ _"] t by (simp add: h subdev_read_def o del: of_nat_add of_nat_mult)
  show "bio_write (sub_dev dev name start n addr) a buf (int off) len s =
      Some (int len, sub_upd dev data upd start (put_bytes (sub_data dev data start n s) off (bytes_at buf 0 len)) s)"
    using write_bytes [OF f(1) c(1) r c(3,4)] sub_put [OF s, of off "bytes_at buf 0 len"] c h(7)
    unfolding bio_write_def [of "sub_dev _ _ _ _ _"] t
    by (simp add: h subdev_write_def o sub_upd_def del: of_nat_add of_nat_mult)
qed

lemma sub_storage: "storage (sub_dev dev name start n addr) (sub_ok dev ok start n) (sub_data dev data start n)
    (sub_upd dev data upd start)"
proof
  fix s assume s: "sub_ok dev ok start n s"
  note f = sub_facts [OF s]
  show "geometry_ok (sub_dev dev name start n addr) (length (sub_data dev data start n s))" by (rule f(5))
  show "sub_upd dev data upd start (sub_data dev data start n s) s = s"
    using put_bytes_at [OF f(3)] f(1) by (simp add: sub_upd_def sub_data_def upd_data)
  fix d :: bytes assume d: "length d = length (sub_data dev data start n s)"
  then have l: "start * block_size dev + length d \<le> length (data s)" using f(3,4) by simp
  then show "sub_ok dev ok start n (sub_upd dev data upd start d s)"
    using s by (simp add: sub_ok_def sub_upd_def ok_upd)
  show "sub_data dev data start n (sub_upd dev data upd start d s) = d"
    using bytes_at_put [OF l] f(1,4) d l by (simp add: sub_data_def sub_upd_def data_upd)
  fix e :: bytes assume e: "length e = length (sub_data dev data start n s)"
  then have l': "start * block_size dev + length e \<le> length (data s)" using f(3,4) by simp
  show "sub_upd dev data upd start e (sub_upd dev data upd start d s) = sub_upd dev data upd start e s"
    using f(1) l l' put_bytes_put [OF l, of e] d e by (simp add: sub_upd_def data_upd upd_upd)
qed

theorem sub_device: "device (sub_dev dev name start n addr) (sub_ok dev ok start n) (sub_data dev data start n)
    (sub_upd dev data upd start)"
proof (intro device.intro block_device.intro byte_device.intro sub_storage)
  show "block_device_axioms (sub_dev dev name start n addr) (sub_ok dev ok start n) (sub_data dev data start n)
      (sub_upd dev data upd start)"
    by (rule block_device_axioms.intro) (simp_all add: sub_hooks(1,2) sub_device_blocks)
  show "byte_device_axioms (sub_dev dev name start n addr) (sub_ok dev ok start n) (sub_data dev data start n)
      (sub_upd dev data upd start)"
    by (rule byte_device_axioms.intro) (simp_all add: sub_facts(4) sub_device_bytes)
qed

end

text \<open>Partitions of these devices.\<close>

interpretation mem_part: device "sub_dev (mem_dev name len) part start n addr" "sub_ok (mem_dev name len) (mem_ok len) start n"
    "sub_data (mem_dev name len) (mem_data len) start n" "sub_upd (mem_dev name len) (mem_data len) (mem_upd len) start"
  by (rule mem.sub_device)

interpretation plain_part: device "sub_dev (plain_dev name len fl) part start n addr" "sub_ok (plain_dev name len fl) (mem_ok len) start n"
    "sub_data (plain_dev name len fl) (mem_data len) start n" "sub_upd (plain_dev name len fl) (mem_data len) (mem_upd len) start"
  by (rule plain.sub_device)

end
