(* ===== verification/Bcache.thy ===== *)
theory Bcache
  imports Bio_Dev
begin

text \<open>
  The block cache (\<open>lib/bcache/bcache.c\<close>) over a device. The blocks of the cache are an array, the lists
  \<open>free_list\<close> and \<open>lru_list\<close> sequences of their indices; a pointer to a block that a caller holds is its
  index. \<open>None\<close> is a failed assertion, or a block that is linked into a second list. The
  reference count, an \<open>int\<close> of 32 bits in the code, is an integer here: callers hold fewer than 2^31
  references to a block.
\<close>

section \<open>State\<close>

record bcache_block =
  blocknum :: nat
  ref_count :: int
  is_dirty :: bool
  blk_ptr :: bytes
  blk_addr :: u64

record bcache_stats =
  bc_hits :: nat
  bc_depth :: nat
  bc_misses :: nat
  bc_reads :: nat
  bc_writes :: nat

record bcache =
  cache_block_size :: nat
  cache_count :: nat
  cache_stats :: bcache_stats
  free_blocks :: "nat list"
  lru_list :: "nat list"
  cache_blocks :: "bcache_block list"

text \<open>The result of an operation that was given as \<open>int\<close>.\<close>

definition to_int :: "int \<Rightarrow> int" where
  "to_int x = (x + 2 ^ 31) mod 2 ^ 32 - 2 ^ 31"

definition block_at :: "bcache \<Rightarrow> nat \<Rightarrow> bcache_block" where
  "block_at c i = cache_blocks c ! i"

definition set_block :: "nat \<Rightarrow> (bcache_block \<Rightarrow> bcache_block) \<Rightarrow> bcache \<Rightarrow> bcache" where
  "set_block i f c = c\<lparr>cache_blocks := (cache_blocks c)[i := f (block_at c i)]\<rparr>"

definition count_stat :: "(bcache_stats \<Rightarrow> bcache_stats) \<Rightarrow> bcache \<Rightarrow> bcache" where
  "count_stat f c = c\<lparr>cache_stats := f (cache_stats c)\<rparr>"

section \<open>Operations\<close>

text \<open>The memory of the blocks comes from \<open>malloc\<close>, with arbitrary contents.\<close>

definition bcache_create :: "nat \<Rightarrow> nat \<Rightarrow> (nat \<Rightarrow> bcache_block) \<Rightarrow> bcache" where
  "bcache_create bsize count mem =
     \<lparr>cache_block_size = bsize, cache_count = count,
      cache_stats = \<lparr>bc_hits = 0, bc_depth = 0, bc_misses = 0, bc_reads = 0, bc_writes = 0\<rparr>,
      free_blocks = rev [0..<count], lru_list = [],
      cache_blocks = map (\<lambda>i. (mem i)\<lparr>ref_count := 0, is_dirty := False\<rparr>) [0..<count]\<rparr>"

definition flush_block :: "'s bdev \<Rightarrow> bcache \<Rightarrow> nat \<Rightarrow> 's \<Rightarrow> (int \<times> bcache \<times> 's) option" where
  "flush_block dev c i s = do {
     (rc, s) \<leftarrow> bio_write dev (blk_addr (block_at c i)) (blk_ptr (block_at c i))
       (int (blocknum (block_at c i) * cache_block_size c)) (cache_block_size c) s;
     if to_int rc < 0 then Some (to_int rc, c, s)
     else Some (0, count_stat (bc_writes_update (\<lambda>n. uint32 (n + 1))) (set_block i (is_dirty_update (\<lambda>_. False)) c), s)
   }"

definition bcache_destroy :: "bcache \<Rightarrow> unit option" where
  "bcache_destroy c = guard_that (list_all (\<lambda>b. ref_count b = 0) (cache_blocks c))"

fun scan_lru :: "bcache \<Rightarrow> nat \<Rightarrow> nat \<Rightarrow> nat list \<Rightarrow> (nat \<times> nat) option" where
  "scan_lru c num depth [] = None"
| "scan_lru c num depth (i # is) =
     (if blocknum (block_at c i) = num then Some (i, uint32 (depth + 1)) else scan_lru c num (uint32 (depth + 1)) is)"

definition to_tail :: "nat \<Rightarrow> bcache \<Rightarrow> bcache" where
  "to_tail i c = c\<lparr>lru_list := remove1 i (lru_list c) @ [i]\<rparr>"

definition find_block :: "bcache \<Rightarrow> nat \<Rightarrow> nat option \<times> bcache" where
  "find_block c num =
     (case scan_lru c num 0 (lru_list c) of
        None \<Rightarrow> (None, count_stat (bc_misses_update (\<lambda>n. uint32 (n + 1))) c)
      | Some (i, depth) \<Rightarrow> (Some i, count_stat (\<lambda>st. st\<lparr>bc_hits := uint32 (bc_hits st + 1),
          bc_depth := uint32 (bc_depth st + depth)\<rparr>) (to_tail i c)))"

definition alloc_block :: "'s bdev \<Rightarrow> bcache \<Rightarrow> 's \<Rightarrow> (nat option \<times> bcache \<times> 's) option" where
  "alloc_block dev c s =
     (case free_blocks c of
        i # is \<Rightarrow> Some (Some i, set_block i (ref_count_update (\<lambda>_. 0))
          (c\<lparr>free_blocks := is, lru_list := lru_list c @ [i]\<rparr>), s)
      | [] \<Rightarrow>
          (case filter (\<lambda>i. ref_count (block_at c i) = 0) (lru_list c) of
             [] \<Rightarrow> Some (None, c, s)
           | i # _ \<Rightarrow> do {
               (err, c, s) \<leftarrow> (if is_dirty (block_at c i) then flush_block dev c i s else Some (0, c, s));
               if err \<noteq> 0 then Some (None, c, s) else Some (Some i, to_tail i c, s)
             }))"

definition find_or_fill_block :: "'s bdev \<Rightarrow> bcache \<Rightarrow> nat \<Rightarrow> 's \<Rightarrow> (nat option \<times> bcache \<times> 's) option" where
  "find_or_fill_block dev c num s =
     (case find_block c num of
        (Some i, c) \<Rightarrow> do { guard_that (blocknum (block_at c i) = num); Some (Some i, c, s) }
      | (None, c) \<Rightarrow> do {
          (block, c, s) \<leftarrow> alloc_block dev c s;
          i \<leftarrow> block;
          let c = set_block i (blocknum_update (\<lambda>_. num)) c;
          (err, buf, s) \<leftarrow> bio_read dev (blk_addr (block_at c i)) (blk_ptr (block_at c i))
            (int (num * cache_block_size c)) (cache_block_size c) s;
          let c = set_block i (blk_ptr_update (\<lambda>_. buf)) c;
          if to_int err < 0 then do {
            guard_that (i \<notin> set (lru_list c));
            Some (None, c\<lparr>free_blocks := free_blocks c @ [i]\<rparr>, s)
          } else Some (Some i, count_stat (bc_reads_update (\<lambda>n. uint32 (n + 1))) c, s)
        })"

definition bcache_read_block :: "'s bdev \<Rightarrow> bcache \<Rightarrow> bytes \<Rightarrow> nat \<Rightarrow> 's \<Rightarrow> (int \<times> bytes \<times> bcache \<times> 's) option" where
  "bcache_read_block dev c buf num s = do {
     (block, c, s) \<leftarrow> find_or_fill_block dev c num s;
     (case block of
        None \<Rightarrow> Some (- 1, buf, c, s)
      | Some i \<Rightarrow> do {
          x \<leftarrow> copy_out (blk_ptr (block_at c i)) 0 (cache_block_size c);
          buf \<leftarrow> copy_in buf 0 x;
          Some (0, buf, c, s)
        })
   }"

definition bcache_get_block :: "'s bdev \<Rightarrow> bcache \<Rightarrow> nat \<Rightarrow> 's \<Rightarrow> (int \<times> nat option \<times> bcache \<times> 's) option" where
  "bcache_get_block dev c num s = do {
     (block, c, s) \<leftarrow> find_or_fill_block dev c num s;
     (case block of
        None \<Rightarrow> Some (- 1, None, c, s)
      | Some i \<Rightarrow> Some (0, Some i, set_block i (ref_count_update (\<lambda>n. n + 1)) c, s))
   }"

definition bcache_put_block :: "bcache \<Rightarrow> nat \<Rightarrow> (int \<times> bcache) option" where
  "bcache_put_block c num =
     (case find_block c num of
        (None, c) \<Rightarrow> None
      | (Some i, c) \<Rightarrow> do {
          guard_that (ref_count (block_at c i) > 0);
          Some (0, set_block i (ref_count_update (\<lambda>n. n - 1)) c)
        })"

definition bcache_mark_block_dirty :: "bcache \<Rightarrow> nat \<Rightarrow> int \<times> bcache" where
  "bcache_mark_block_dirty c num =
     (case find_block c num of
        (None, c) \<Rightarrow> (- 1, c)
      | (Some i, c) \<Rightarrow> (0, set_block i (is_dirty_update (\<lambda>_. True)) c))"

definition zero_block :: "nat \<Rightarrow> bcache \<Rightarrow> bcache" where
  "zero_block i c = set_block i (\<lambda>b. b\<lparr>blk_ptr := replicate (cache_block_size c) 0, is_dirty := True\<rparr>) c"

definition bcache_zero_block :: "'s bdev \<Rightarrow> bcache \<Rightarrow> nat \<Rightarrow> 's \<Rightarrow> (int \<times> bcache \<times> 's) option" where
  "bcache_zero_block dev c num s =
     (case find_block c num of
        (Some i, c) \<Rightarrow> Some (0, zero_block i c, s)
      | (None, c) \<Rightarrow> do {
          (block, c, s) \<leftarrow> alloc_block dev c s;
          (case block of
             None \<Rightarrow> Some (- 1, c, s)
           | Some i \<Rightarrow> Some (0, zero_block i (set_block i (blocknum_update (\<lambda>_. num)) c), s))
        })"

fun flush_blocks :: "'s bdev \<Rightarrow> bcache \<Rightarrow> nat list \<Rightarrow> 's \<Rightarrow> (int \<times> bcache \<times> 's) option" where
  "flush_blocks dev c [] s = Some (0, c, s)"
| "flush_blocks dev c (i # is) s =
     (if is_dirty (block_at c i) then do {
        (err, c, s) \<leftarrow> flush_block dev c i s;
        if err \<noteq> 0 then Some (err, c, s) else flush_blocks dev c is s
      } else flush_blocks dev c is s)"

definition bcache_flush :: "'s bdev \<Rightarrow> bcache \<Rightarrow> 's \<Rightarrow> (int \<times> bcache \<times> 's) option" where
  "bcache_flush dev c s = flush_blocks dev c (lru_list c) s"

text \<open>A caller that holds a block writes through the pointer it got.\<close>

definition store_block :: "nat \<Rightarrow> bytes \<Rightarrow> bcache \<Rightarrow> bcache" where
  "store_block i x c = set_block i (blk_ptr_update (\<lambda>_. x)) c"

end
