(* ===== verification/Bcache_Inv.thy ===== *)
theory Bcache_Inv
  imports Bcache
begin

text \<open>
  The cache is transparent: \<open>view\<close> is the contents of a block as the callers of the cache see them, and every
  operation changes it as the operation on a disk would. The proofs are over any device that satisfies
  \<open>byte_device\<close>; the end interprets them on the memory device and its partitions.
\<close>

section \<open>Invariant and view\<close>

definition block_range :: "bcache \<Rightarrow> bytes \<Rightarrow> nat \<Rightarrow> bool" where
  "block_range c d num \<longleftrightarrow> num * cache_block_size c + cache_block_size c \<le> length d"

definition on_device :: "bcache \<Rightarrow> bytes \<Rightarrow> nat \<Rightarrow> bytes" where
  "on_device c d num = bytes_at d (num * cache_block_size c) (cache_block_size c)"

text \<open>The block that holds number \<open>num\<close>, not looking at the blocks in \<open>X\<close>.\<close>

definition holder :: "nat set \<Rightarrow> bcache \<Rightarrow> nat \<Rightarrow> nat option" where
  "holder X c num = List.find (\<lambda>i. i \<notin> X \<and> blocknum (block_at c i) = num) (lru_list c)"

definition view_but :: "nat set \<Rightarrow> bcache \<Rightarrow> bytes \<Rightarrow> nat \<Rightarrow> bytes" where
  "view_but X c d num = (case holder X c num of None \<Rightarrow> on_device c d num | Some i \<Rightarrow> blk_ptr (block_at c i))"

definition cache_shape :: "bcache \<Rightarrow> bool" where
  "cache_shape c \<longleftrightarrow> 0 < cache_block_size c \<and> cache_block_size c < 2 ^ 31 \<and>
     distinct (lru_list c) \<and> distinct (free_blocks c) \<and> set (lru_list c) \<inter> set (free_blocks c) = {} \<and>
     set (lru_list c) \<union> set (free_blocks c) = {..<length (cache_blocks c)} \<and>
     (\<forall>i<length (cache_blocks c). length (blk_ptr (block_at c i)) = cache_block_size c \<and> ref_count (block_at c i) \<ge> 0) \<and>
     (\<forall>i\<in>set (free_blocks c). \<not> is_dirty (block_at c i))"

text \<open>What holds of the cached blocks except those in \<open>X\<close>; a clean block that nobody holds is as on the device.\<close>

definition cache_inv_but :: "nat set \<Rightarrow> bcache \<Rightarrow> bytes \<Rightarrow> bool" where
  "cache_inv_but X c d \<longleftrightarrow> cache_shape c \<and>
     inj_on (\<lambda>i. blocknum (block_at c i)) (set (lru_list c) - X) \<and>
     (\<forall>i\<in>set (lru_list c) - X. block_range c d (blocknum (block_at c i)) \<and>
       (\<not> is_dirty (block_at c i) \<and> ref_count (block_at c i) = 0 \<longrightarrow>
         blk_ptr (block_at c i) = on_device c d (blocknum (block_at c i))))"

abbreviation cache_inv :: "bcache \<Rightarrow> bytes \<Rightarrow> bool" where
  "cache_inv \<equiv> cache_inv_but {}"

abbreviation view :: "bcache \<Rightarrow> bytes \<Rightarrow> nat \<Rightarrow> bytes" where
  "view \<equiv> view_but {}"

lemma holder_Some:
  assumes "inj_on (\<lambda>i. blocknum (block_at c i)) (set (lru_list c) - X)"
  shows "holder X c num = Some i \<longleftrightarrow> i \<in> set (lru_list c) - X \<and> blocknum (block_at c i) = num"
proof
  assume "holder X c num = Some i"
  then show "i \<in> set (lru_list c) - X \<and> blocknum (block_at c i) = num"
    by (auto simp: holder_def find_Some_iff)
next
  assume i: "i \<in> set (lru_list c) - X \<and> blocknum (block_at c i) = num"
  show "holder X c num = Some i"
  proof (cases "holder X c num")
    case None
    then show ?thesis using i by (auto simp: holder_def find_None_iff)
  next
    case (Some j)
    then have "j \<in> set (lru_list c) - X" "blocknum (block_at c j) = num"
      by (auto simp: holder_def find_Some_iff)
    with i assms have "j = i" by (auto dest: inj_onD)
    with Some show ?thesis by simp
  qed
qed

lemma holder_None: "holder X c num = None \<longleftrightarrow> (\<forall>i\<in>set (lru_list c) - X. blocknum (block_at c i) \<noteq> num)"
  by (auto simp: holder_def find_None_iff)

lemma view_but_in:
  "inj_on (\<lambda>i. blocknum (block_at c i)) (set (lru_list c) - X) \<Longrightarrow> i \<in> set (lru_list c) - X \<Longrightarrow>
    view_but X c d (blocknum (block_at c i)) = blk_ptr (block_at c i)"
  using holder_Some [of c X "blocknum (block_at c i)" i] by (simp add: view_but_def)

lemma view_but_out:
  "\<forall>i\<in>set (lru_list c) - X. blocknum (block_at c i) \<noteq> num \<Longrightarrow> view_but X c d num = on_device c d num"
  using holder_None [of X c num] by (simp add: view_but_def)

text \<open>Caches that differ in the order of the list and in the statistics only.\<close>

definition same_cache :: "bcache \<Rightarrow> bcache \<Rightarrow> bool" where
  "same_cache c c' \<longleftrightarrow> cache_blocks c' = cache_blocks c \<and> set (lru_list c') = set (lru_list c) \<and>
     distinct (lru_list c') = distinct (lru_list c) \<and> free_blocks c' = free_blocks c \<and>
     cache_block_size c' = cache_block_size c"

lemma same_cache_block: "same_cache c c' \<Longrightarrow> block_at c' = block_at c"
  by (auto simp: same_cache_def block_at_def fun_eq_iff)

lemma same_cache_inv: "same_cache c c' \<Longrightarrow> cache_inv_but X c' d = cache_inv_but X c d"
  by (simp add: cache_inv_but_def cache_shape_def same_cache_block block_range_def on_device_def) (simp add: same_cache_def)

lemma same_cache_view:
  assumes "same_cache c c'" "cache_inv_but X c d"
  shows "view_but X c' d = view_but X c d"
proof
  fix num
  have b: "block_at c' = block_at c" "set (lru_list c') = set (lru_list c)" "cache_block_size c' = cache_block_size c"
    using assms(1) by (simp_all add: same_cache_block) (simp_all add: same_cache_def)
  have j: "inj_on (\<lambda>i. blocknum (block_at c i)) (set (lru_list c) - X)" using assms(2) by (simp add: cache_inv_but_def)
  show "view_but X c' d num = view_but X c d num"
  proof (cases "\<exists>i\<in>set (lru_list c) - X. blocknum (block_at c i) = num")
    case True
    then obtain i where i: "i \<in> set (lru_list c) - X" "blocknum (block_at c i) = num" by blast
    show ?thesis using view_but_in [of c X i d] view_but_in [of c' X i d] j i b by simp
  next
    case False
    then show ?thesis using view_but_out [of c X num d] view_but_out [of c' X num d] b
      by (simp add: on_device_def)
  qed
qed

section \<open>Finding a block\<close>

lemma count_stat_simps [simp]:
  "cache_blocks (count_stat f c) = cache_blocks c" "lru_list (count_stat f c) = lru_list c"
  "free_blocks (count_stat f c) = free_blocks c" "cache_block_size (count_stat f c) = cache_block_size c"
  "block_at (count_stat f c) = block_at c"
  by (simp_all add: count_stat_def block_at_def fun_eq_iff)

lemma set_block_simps [simp]:
  "lru_list (set_block i f c) = lru_list c" "free_blocks (set_block i f c) = free_blocks c"
  "cache_block_size (set_block i f c) = cache_block_size c"
  "length (cache_blocks (set_block i f c)) = length (cache_blocks c)"
  by (simp_all add: set_block_def)

lemma block_at_set_block:
  "i < length (cache_blocks c) \<Longrightarrow> block_at (set_block i f c) j = (if j = i then f (block_at c i) else block_at c j)"
  by (simp add: block_at_def set_block_def nth_list_update)

lemma same_count_stat: "same_cache c (count_stat f c)"
  by (simp add: same_cache_def)

lemma same_to_tail: "i \<in> set (lru_list c) \<Longrightarrow> distinct (lru_list c) \<Longrightarrow> same_cache c (to_tail i c)"
  by (auto simp: same_cache_def to_tail_def)

lemma same_cache_trans: "same_cache a b \<Longrightarrow> same_cache b c \<Longrightarrow> same_cache a c"
  by (simp add: same_cache_def)

lemma scan_lru_Some: "scan_lru c num n is = Some (i, m) \<Longrightarrow> i \<in> set is \<and> blocknum (block_at c i) = num"
  by (induction "is" arbitrary: n) (auto split: if_splits)

lemma scan_lru_None: "scan_lru c num n is = None \<Longrightarrow> \<forall>i\<in>set is. blocknum (block_at c i) \<noteq> num"
  by (induction "is" arbitrary: n) (auto split: if_splits)

lemma find_block_cases:
  assumes "cache_inv c d"
  obtains (hit) i c' where "find_block c num = (Some i, c')" "same_cache c c'" "i \<in> set (lru_list c)"
      "blocknum (block_at c i) = num" "view c d num = blk_ptr (block_at c i)"
  | (miss) c' where "find_block c num = (None, c')" "same_cache c c'"
      "\<forall>i\<in>set (lru_list c). blocknum (block_at c i) \<noteq> num" "view c d num = on_device c d num"
proof (cases "scan_lru c num 0 (lru_list c)")
  case None
  note n = scan_lru_None [OF None]
  show ?thesis using None n view_but_out [of c "{}" num d]
    by (intro miss [of "snd (find_block c num)"]) (simp_all add: find_block_def same_count_stat)
next
  case (Some p)
  obtain i m where p: "p = (i, m)" by (cases p)
  note i = scan_lru_Some [OF Some [unfolded p]]
  have "distinct (lru_list c)" "inj_on (\<lambda>i. blocknum (block_at c i)) (set (lru_list c) - {})"
    using assms by (simp_all add: cache_inv_but_def cache_shape_def)
  then show ?thesis using Some i view_but_in [of c "{}" i d]
    by (intro hit) (auto simp: find_block_def p intro: same_cache_trans [OF same_to_tail same_count_stat])
qed

section \<open>Filling a block\<close>

text \<open>A block that has been taken for new contents: in the list, held by nobody and clean.\<close>

definition taken :: "nat \<Rightarrow> bcache \<Rightarrow> bytes \<Rightarrow> bool" where
  "taken i c d \<longleftrightarrow> cache_inv_but {i} c d \<and> i \<in> set (lru_list c) \<and> ref_count (block_at c i) = 0 \<and> \<not> is_dirty (block_at c i)"

lemma cache_index_bound: "cache_inv_but X c d \<Longrightarrow> i \<in> set (lru_list c) \<Longrightarrow> i < length (cache_blocks c)"
  by (auto simp: cache_inv_but_def cache_shape_def)

lemma ptr_length: "cache_inv_but X c d \<Longrightarrow> i < length (cache_blocks c) \<Longrightarrow>
    length (blk_ptr (block_at c i)) = cache_block_size c"
  by (simp add: cache_inv_but_def cache_shape_def)

lemma fill_block:
  assumes inv: "cache_inv_but {i} c d" and i: "i \<in> set (lru_list c)" and r: "block_range c d num"
    and n: "\<forall>j\<in>set (lru_list c) - {i}. blocknum (block_at c j) \<noteq> num"
    and b: "blocknum b = num" "length (blk_ptr b) = cache_block_size c" "ref_count b \<ge> 0"
      "\<not> is_dirty b \<Longrightarrow> ref_count b = 0 \<Longrightarrow> blk_ptr b = on_device c d num"
    and c': "c' = set_block i (\<lambda>_. b) c"
  shows "cache_inv c' d" "view c' d = (view_but {i} c d)(num := blk_ptr b)"
proof -
  have il: "i < length (cache_blocks c)" by (rule cache_index_bound [OF inv i])
  note at = block_at_set_block [OF il, of "\<lambda>_. b"]
  have lru: "lru_list c' = lru_list c" "cache_block_size c' = cache_block_size c" by (simp_all add: c')
  have at': "block_at c' j = (if j = i then b else block_at c j)" for j by (simp add: c' at)
  have inj: "inj_on (\<lambda>j. blocknum (block_at c' j)) (set (lru_list c'))"
    using inv n b(1) by (auto simp: inj_on_def at' lru cache_inv_but_def)
  have nf: "i \<notin> set (free_blocks c)" using inv i by (auto simp: cache_inv_but_def cache_shape_def)
  have "cache_shape c'"
    using inv b nf unfolding cache_shape_def cache_inv_but_def lru at' by (auto simp: c')
  then show "cache_inv c' d" unfolding cache_inv_but_def
    using inj inv b r by (auto simp: at' lru block_range_def on_device_def cache_inv_but_def)
  show "view c' d = (view_but {i} c d)(num := blk_ptr b)"
  proof
    fix m
    have inj0: "inj_on (\<lambda>i. blocknum (block_at c i)) (set (lru_list c) - {i})" using inv by (simp add: cache_inv_but_def)
    show "view c' d m = ((view_but {i} c d)(num := blk_ptr b)) m"
    proof (cases "\<exists>j\<in>set (lru_list c'). blocknum (block_at c' j) = m")
      case True
      then obtain j where j: "j \<in> set (lru_list c)" "blocknum (block_at c' j) = m" by (auto simp: lru)
      have "view c' d m = blk_ptr (block_at c' j)" using view_but_in [of c' "{}" j d] inj j by (simp add: lru)
      then show ?thesis using j view_but_in [OF inj0, of j d] n b(1) by (auto simp: at' split: if_splits)
    next
      case False
      then have "m \<noteq> num" using i b(1) by (auto simp: lru at')
      moreover have "view c' d m = on_device c' d m" using False by (intro view_but_out) simp
      moreover have "view_but {i} c d m = on_device c d m"
        using False by (intro view_but_out) (auto simp: lru at')
      ultimately show ?thesis by (simp add: on_device_def lru)
    qed
  qed
qed

lemma change_block:
  assumes inv: "cache_inv c d" and i: "i \<in> set (lru_list c)"
    and b: "blocknum b = blocknum (block_at c i)" "length (blk_ptr b) = cache_block_size c" "ref_count b \<ge> 0"
      "\<not> is_dirty b \<Longrightarrow> ref_count b = 0 \<Longrightarrow> blk_ptr b = on_device c d (blocknum b)"
    and c': "c' = set_block i (\<lambda>_. b) c"
  shows "cache_inv c' d" "view c' d = (view c d)(blocknum b := blk_ptr b)"
proof -
  have inj: "inj_on (\<lambda>j. blocknum (block_at c j)) (set (lru_list c))" using inv by (simp add: cache_inv_but_def)
  then have inj': "inj_on (\<lambda>j. blocknum (block_at c j)) (set (lru_list c) - {i})" by (rule inj_on_subset) simp
  have inv': "cache_inv_but {i} c d" using inv inj' by (simp add: cache_inv_but_def)
  have r: "block_range c d (blocknum b)" using inv i b(1) by (simp add: cache_inv_but_def)
  have n: "\<forall>j\<in>set (lru_list c) - {i}. blocknum (block_at c j) \<noteq> blocknum b"
    using inj i b(1) by (auto dest: inj_onD)
  have f: "cache_inv c' d" "view c' d = (view_but {i} c d)(blocknum b := blk_ptr b)"
    by (rule fill_block [OF inv' i r n refl b(2,3) _ c'], erule (1) b(4))+
  show "cache_inv c' d" by (rule f(1))
  have "view_but {i} c d m = view c d m" if m: "m \<noteq> blocknum b" for m
  proof (cases "\<exists>j\<in>set (lru_list c) - {i}. blocknum (block_at c j) = m")
    case True
    then obtain j where j: "j \<in> set (lru_list c) - {i}" "blocknum (block_at c j) = m" by blast
    show ?thesis using view_but_in [OF inj' j(1), of d] view_but_in [of c "{}" j d] inj j by simp
  next
    case False
    then have "view_but {i} c d m = on_device c d m" by (intro view_but_out) simp
    moreover have "view c d m = on_device c d m" using False m b(1) by (intro view_but_out) auto
    ultimately show ?thesis by simp
  qed
  then show "view c' d = (view c d)(blocknum b := blk_ptr b)" unfolding f(2) by (auto simp: fun_eq_iff)
qed

section \<open>Writing a block back\<close>

lemma on_device_put:
  assumes "block_range c d num" "length x = cache_block_size c" "block_range c d m"
  shows "on_device c (put_bytes d (num * cache_block_size c) x) m = (if m = num then x else on_device c d m)"
proof -
  let ?bs = "cache_block_size c"
  have l: "num * ?bs + ?bs \<le> length d" "m * ?bs + ?bs \<le> length d" using assms by (simp_all add: block_range_def)
  show ?thesis
  proof (cases "m = num")
    case True
    then show ?thesis using bytes_at_put [of "num * ?bs" x d] l assms(2) by (simp add: on_device_def)
  next
    case False
    then have "Suc m \<le> num \<or> Suc num \<le> m" by linarith
    then have "Suc m * ?bs \<le> num * ?bs \<or> Suc num * ?bs \<le> m * ?bs" using mult_le_mono1 by blast
    then have "m * ?bs + ?bs \<le> num * ?bs \<or> num * ?bs + ?bs \<le> m * ?bs" by (simp add: add.commute)
    then have "bytes_at (put_bytes d (num * ?bs) x) (m * ?bs) ?bs = bytes_at d (m * ?bs) ?bs"
      using l assms(2) by (intro nth_equalityI) (auto simp: nth_bytes_at nth_put_bytes)
    then show ?thesis using False by (simp add: on_device_def)
  qed
qed

text \<open>Writing a cached block back leaves what the callers see, and makes the block clean.\<close>

lemma write_back:
  assumes inv: "cache_inv c d" and i: "i \<in> set (lru_list c)"
    and d': "d' = put_bytes d (blocknum (block_at c i) * cache_block_size c) (blk_ptr (block_at c i))"
    and c': "c' = set_block i (is_dirty_update (\<lambda>_. False)) c"
  shows "cache_inv c' d'" "length d' = length d" "block_range c d m \<Longrightarrow> view c' d' m = view c d m"
    "block_at c' = (block_at c)(i := (block_at c i)\<lparr>is_dirty := False\<rparr>)"
proof -
  let ?num = "blocknum (block_at c i)" and ?x = "blk_ptr (block_at c i)"
  have il: "i < length (cache_blocks c)" by (rule cache_index_bound [OF inv i])
  have x: "length ?x = cache_block_size c" by (rule ptr_length [OF inv il])
  have r: "block_range c d ?num" using inv i by (auto simp: cache_inv_but_def)
  show l: "length d' = length d" using r x by (simp add: block_range_def d')
  show at: "block_at c' = (block_at c)(i := (block_at c i)\<lparr>is_dirty := False\<rparr>)"
    using block_at_set_block [OF il] by (auto simp: fun_eq_iff c')
  have bn: "blocknum (block_at c' j) = blocknum (block_at c j)" "blk_ptr (block_at c' j) = blk_ptr (block_at c j)"
    "ref_count (block_at c' j) = ref_count (block_at c j)" for j by (simp_all add: at)
  have lru: "lru_list c' = lru_list c" "free_blocks c' = free_blocks c" "cache_block_size c' = cache_block_size c"
    "length (cache_blocks c') = length (cache_blocks c)" by (simp_all add: c')
  have inj: "inj_on (\<lambda>j. blocknum (block_at c j)) (set (lru_list c))" using inv by (simp add: cache_inv_but_def)
  have od: "on_device c' d' m = (if m = ?num then ?x else on_device c d m)" if "block_range c d m" for m
    using on_device_put [OF r x that] by (simp add: on_device_def d' lru)
  have sh: "cache_shape c'"
    using inv unfolding cache_inv_but_def cache_shape_def lru bn by (auto simp: at)
  have "blk_ptr (block_at c j) = on_device c' d' (blocknum (block_at c j))"
    if j: "j \<in> set (lru_list c)" "\<not> is_dirty (block_at c' j)" "ref_count (block_at c j) = 0" for j
  proof (cases "j = i")
    case True
    then show ?thesis using od r by simp
  next
    case False
    then have "blocknum (block_at c j) \<noteq> ?num" using inj i j(1) by (auto dest: inj_onD)
    then show ?thesis using od inv j False by (simp add: cache_inv_but_def at)
  qed
  then show inv': "cache_inv c' d'" using sh inv l
    by (simp add: cache_inv_but_def lru bn block_range_def)
  show "view c' d' m = view c d m" if m: "block_range c d m"
  proof (cases "\<exists>j\<in>set (lru_list c). blocknum (block_at c j) = m")
    case True
    then obtain j where j: "j \<in> set (lru_list c)" "blocknum (block_at c j) = m" by blast
    show ?thesis using view_but_in [of c' "{}" j d'] view_but_in [of c "{}" j d] inj j by (simp add: lru bn)
  next
    case False
    then have "m \<noteq> ?num" using i by auto
    then show ?thesis using False view_but_out [of c "{}" m d] view_but_out [of c' "{}" m d'] od [OF m]
      by (simp add: lru bn)
  qed
qed

text \<open>A change of a block that is on the device or will be written to it.\<close>

definition marked :: "bcache \<Rightarrow> bytes \<Rightarrow> nat \<Rightarrow> bool" where
  "marked c d i \<longleftrightarrow> is_dirty (block_at c i) \<or> blk_ptr (block_at c i) = on_device c d (blocknum (block_at c i))"

lemma write_back_marked:
  assumes inv: "cache_inv c d" and i: "i \<in> set (lru_list c)" and j: "j \<in> set (lru_list c)" "marked c d j"
    and d': "d' = put_bytes d (blocknum (block_at c i) * cache_block_size c) (blk_ptr (block_at c i))"
    and c': "c' = set_block i (is_dirty_update (\<lambda>_. False)) c"
  shows "marked c' d' j"
proof -
  note wb = write_back [OF inv i d' c']
  have r: "block_range c d (blocknum (block_at c i))" "block_range c d (blocknum (block_at c j))"
    using inv i j(1) by (auto simp: cache_inv_but_def)
  have x: "length (blk_ptr (block_at c i)) = cache_block_size c" by (rule ptr_length [OF inv cache_index_bound [OF inv i]])
  have inj: "j \<noteq> i \<Longrightarrow> blocknum (block_at c j) \<noteq> blocknum (block_at c i)"
    using inv i j(1) by (auto simp: cache_inv_but_def dest: inj_onD)
  have "on_device c' d' m = on_device c d' m" for m by (simp add: on_device_def c')
  then show ?thesis using j(2) on_device_put [OF r(1) x r(2)] inj wb(4) by (auto simp: marked_def d')
qed

text \<open>Taking a block: from the free list, or the first that nobody holds.\<close>

definition has_room :: "bcache \<Rightarrow> bool" where
  "has_room c \<longleftrightarrow> free_blocks c \<noteq> [] \<or> (\<exists>i\<in>set (lru_list c). ref_count (block_at c i) = 0)"

lemma take_free:
  assumes inv: "cache_inv c d" and f: "free_blocks c = i # is"
    and c': "c' = set_block i (ref_count_update (\<lambda>_. 0)) (c\<lparr>free_blocks := is, lru_list := lru_list c @ [i]\<rparr>)"
  shows "taken i c' d" "view_but {i} c' d m = view c d m"
proof -
  have i: "i < length (cache_blocks c)" "i \<notin> set (lru_list c)" "i \<notin> set is" "\<not> is_dirty (block_at c i)"
    using inv f by (auto simp: cache_inv_but_def cache_shape_def)
  have il: "i < length (cache_blocks (c\<lparr>free_blocks := is, lru_list := lru_list c @ [i]\<rparr>))" using i(1) by simp
  have at: "block_at c' j = (if j = i then (block_at c i)\<lparr>ref_count := 0\<rparr> else block_at c j)" for j
    using block_at_set_block [OF il] by (simp add: c' block_at_def)
  have lru: "lru_list c' = lru_list c @ [i]" "free_blocks c' = is" "cache_block_size c' = cache_block_size c"
    "length (cache_blocks c') = length (cache_blocks c)" by (simp_all add: c' set_block_def)
  have s: "set (lru_list c') - {i} = set (lru_list c)" using i(2) by (auto simp: lru)
  have "cache_shape c'" using inv i f unfolding cache_inv_but_def cache_shape_def lru at by auto
  moreover have "inj_on (\<lambda>j. blocknum (block_at c' j)) (set (lru_list c)) =
      inj_on (\<lambda>j. blocknum (block_at c j)) (set (lru_list c))"
    by (rule inj_on_cong) (use i(2) in \<open>auto simp: at\<close>)
  ultimately show t: "taken i c' d"
    using inv i unfolding taken_def cache_inv_but_def s
    by (auto simp: at lru block_range_def on_device_def)
  show "view_but {i} c' d m = view c d m"
  proof (cases "\<exists>j\<in>set (lru_list c). blocknum (block_at c j) = m")
    case True
    then obtain j where j: "j \<in> set (lru_list c)" "blocknum (block_at c j) = m" "j \<noteq> i" using i(2) by blast
    have "inj_on (\<lambda>j. blocknum (block_at c' j)) (set (lru_list c') - {i})" "inj_on (\<lambda>j. blocknum (block_at c j)) (set (lru_list c) - {})"
      using t inv by (simp_all add: taken_def cache_inv_but_def)
    then show ?thesis using view_but_in [of c' "{i}" j d] view_but_in [of c "{}" j d] j by (simp add: s at)
  next
    case False
    have "view_but {i} c' d m = on_device c' d m" using False i(2) by (intro view_but_out) (auto simp: s at)
    moreover have "view c d m = on_device c d m" using False by (intro view_but_out) simp
    ultimately show ?thesis by (simp add: on_device_def lru)
  qed
qed

text \<open>A clean block that nobody holds can be given up: it is as on the device.\<close>

lemma take_clean:
  assumes inv: "cache_inv c d" and i: "i \<in> set (lru_list c)" "ref_count (block_at c i) = 0" "\<not> is_dirty (block_at c i)"
  shows "taken i c d" "view_but {i} c d m = view c d m"
proof -
  have inj: "inj_on (\<lambda>j. blocknum (block_at c j)) (set (lru_list c))" using inv by (simp add: cache_inv_but_def)
  then have inj': "inj_on (\<lambda>j. blocknum (block_at c j)) (set (lru_list c) - {i})" by (rule inj_on_subset) simp
  show "taken i c d" using inv i inj' by (simp add: taken_def cache_inv_but_def)
  show "view_but {i} c d m = view c d m"
  proof (cases "\<exists>j\<in>set (lru_list c) - {i}. blocknum (block_at c j) = m")
    case True
    then obtain j where j: "j \<in> set (lru_list c) - {i}" "blocknum (block_at c j) = m" by blast
    then show ?thesis using view_but_in [OF inj', of j d] view_but_in [of c "{}" j d] inj by simp
  next
    case False
    then have o: "view_but {i} c d m = on_device c d m" by (intro view_but_out) simp
    show ?thesis
    proof (cases "blocknum (block_at c i) = m")
      case True
      then show ?thesis using o inv i view_but_in [of c "{}" i d] inj by (simp add: cache_inv_but_def)
    next
      case False
      then have "view c d m = on_device c d m"
        using \<open>\<not> (\<exists>j\<in>set (lru_list c) - {i}. blocknum (block_at c j) = m)\<close> by (intro view_but_out) auto
      with o show ?thesis by simp
    qed
  qed
qed

lemma to_int_small: "n < 2 ^ 31 \<Longrightarrow> to_int (int n) = int n"
  by (simp add: to_int_def)

context byte_device
begin

text \<open>A step of the device that keeps its size.\<close>

definition kept :: "'a \<Rightarrow> 'a \<Rightarrow> bool" where
  "kept s s' \<longleftrightarrow> ok s' \<and> length (data s') = length (data s)"

lemma flush_block_ok:
  assumes s: "ok s" and inv: "cache_inv c (data s)" and i: "i \<in> set (lru_list c)"
  shows "\<exists>c' s'. flush_block dev c i s = Some (0, c', s') \<and> kept s s' \<and> cache_inv c' (data s') \<and>
    (\<forall>m. block_range c (data s) m \<longrightarrow> view c' (data s') m = view c (data s) m) \<and>
    lru_list c' = lru_list c \<and> free_blocks c' = free_blocks c \<and> cache_block_size c' = cache_block_size c \<and>
    block_at c' = (block_at c)(i := (block_at c i)\<lparr>is_dirty := False\<rparr>) \<and>
    (\<forall>j\<in>set (lru_list c). marked c (data s) j \<longrightarrow> marked c' (data s') j)"
proof -
  let ?num = "blocknum (block_at c i)" and ?x = "blk_ptr (block_at c i)" and ?bs = "cache_block_size c"
  let ?c = "set_block i (is_dirty_update (\<lambda>_. False)) c"
  let ?c' = "count_stat (bc_writes_update (\<lambda>n. uint32 (n + 1))) ?c"
  let ?d = "put_bytes (data s) (?num * ?bs) ?x" and ?s = "upd (put_bytes (data s) (?num * ?bs) ?x) s"
  have x: "length ?x = ?bs" by (rule ptr_length [OF inv cache_index_bound [OF inv i]])
  have r: "block_range c (data s) ?num" using inv i by (auto simp: cache_inv_but_def)
  have bs: "0 < ?bs" "?bs < 2 ^ 31" using inv by (auto simp: cache_inv_but_def cache_shape_def)
  note wb = write_back [OF inv i refl refl]
  have d: "data ?s = ?d" "kept s ?s" using s wb(2) by (simp_all add: data_upd ok_upd kept_def)
  have w: "bio_write dev (blk_addr (block_at c i)) ?x (int (?num * ?bs)) ?bs s = Some (int ?bs, ?s)"
    using write_bytes [OF s bs(1), of "?num * ?bs" ?x] r x bs by (simp add: block_range_def bytes_at_def)
  have f: "flush_block dev c i s = Some (0, ?c', ?s)"
    unfolding flush_block_def w using to_int_small [OF bs(2)] by simp
  have sm: "same_cache ?c ?c'" by (rule same_count_stat)
  have "marked ?c' ?d j" if "j \<in> set (lru_list c)" "marked c (data s) j" for j
    using write_back_marked [OF inv i that refl refl] by (simp add: marked_def on_device_def)
  with sm show ?thesis using f d wb same_cache_inv [of ?c ?c'] same_cache_view [of ?c ?c' "{}"]
    by (intro exI [of _ ?c'] exI [of _ ?s]) simp
qed

lemma alloc_block_ok:
  assumes s: "ok s" and inv: "cache_inv c (data s)" and r: "has_room c"
  shows "\<exists>i c' s'. alloc_block dev c s = Some (Some i, c', s') \<and> kept s s' \<and> taken i c' (data s') \<and>
    (\<forall>m. block_range c (data s) m \<longrightarrow> view_but {i} c' (data s') m = view c (data s) m) \<and>
    cache_block_size c' = cache_block_size c \<and>
    (\<forall>j\<in>set (lru_list c') - {i}. j \<in> set (lru_list c) \<and> blocknum (block_at c' j) = blocknum (block_at c j))"
proof (cases "free_blocks c")
  case (Cons i "is")
  let ?c = "set_block i (ref_count_update (\<lambda>_. 0)) (c\<lparr>free_blocks := is, lru_list := lru_list c @ [i]\<rparr>)"
  note t = take_free [OF inv Cons refl]
  show ?thesis using t s Cons
    by (intro exI [of _ i] exI [of _ ?c] exI [of _ s])
      (auto simp: alloc_block_def kept_def set_block_def block_at_def nth_list_update)
next
  case Nil
  let ?P = "\<lambda>i. ref_count (block_at c i) = 0"
  obtain i "is" where f: "filter ?P (lru_list c) = i # is"
    using r Nil by (cases "filter ?P (lru_list c)") (auto simp: has_room_def filter_empty_conv)
  have i: "i \<in> set (lru_list c)" "ref_count (block_at c i) = 0"
    using arg_cong [OF f, of set] by auto
  have dist: "distinct (lru_list c)" using inv by (simp add: cache_inv_but_def cache_shape_def)
  have "\<exists>c1 s1. (if is_dirty (block_at c i) then flush_block dev c i s else Some (0, c, s)) = Some (0, c1, s1) \<and>
    kept s s1 \<and> cache_inv c1 (data s1) \<and> (\<forall>m. block_range c (data s) m \<longrightarrow> view c1 (data s1) m = view c (data s) m) \<and>
    lru_list c1 = lru_list c \<and> cache_block_size c1 = cache_block_size c \<and>
    block_at c1 = (block_at c)(i := (block_at c i)\<lparr>is_dirty := False\<rparr>)"
  proof (cases "is_dirty (block_at c i)")
    case True
    then show ?thesis using flush_block_ok [OF s inv i(1)] by auto
  next
    case False
    then have "block_at c = (block_at c)(i := (block_at c i)\<lparr>is_dirty := False\<rparr>)" by (auto simp: fun_eq_iff)
    then show ?thesis using False s inv by (auto simp: kept_def)
  qed
  then obtain c1 s1 where c1: "(if is_dirty (block_at c i) then flush_block dev c i s else Some (0, c, s)) = Some (0, c1, s1)"
    "kept s s1" "cache_inv c1 (data s1)" "\<And>m. block_range c (data s) m \<Longrightarrow> view c1 (data s1) m = view c (data s) m"
    "lru_list c1 = lru_list c" "cache_block_size c1 = cache_block_size c"
    "block_at c1 = (block_at c)(i := (block_at c i)\<lparr>is_dirty := False\<rparr>)" by blast
  have sm: "same_cache c1 (to_tail i c1)" using i dist c1(5) by (intro same_to_tail) simp_all
  have inv1: "cache_inv (to_tail i c1) (data s1)" using same_cache_inv [OF sm] c1(3) by simp
  have at: "block_at (to_tail i c1) = block_at c1" "set (lru_list (to_tail i c1)) = set (lru_list c)"
    using same_cache_block [OF sm] sm c1(5) by (simp_all add: same_cache_def)
  note t = take_clean [OF inv1, of i]
  show ?thesis using t i at c1 same_cache_view [OF sm c1(3)] sm
    by (intro exI [of _ i] exI [of _ "to_tail i c1"] exI [of _ s1]) (auto simp: alloc_block_def Nil f same_cache_def)
qed

text \<open>The block of a number, read from the device when it is not cached.\<close>

lemma find_or_fill_ok:
  assumes s: "ok s" and inv: "cache_inv c (data s)" and n: "block_range c (data s) num"
    and r: "has_room c \<or> (\<exists>i\<in>set (lru_list c). blocknum (block_at c i) = num)"
  shows "\<exists>i c' s'. find_or_fill_block dev c num s = Some (Some i, c', s') \<and> kept s s' \<and> cache_inv c' (data s') \<and>
    (\<forall>m. block_range c (data s) m \<longrightarrow> view c' (data s') m = view c (data s) m) \<and>
    cache_block_size c' = cache_block_size c \<and> i \<in> set (lru_list c') \<and> blocknum (block_at c' i) = num"
proof (rule find_block_cases [OF inv, of num])
  fix i c'
  assume f: "find_block c num = (Some i, c')" "same_cache c c'" "i \<in> set (lru_list c)" "blocknum (block_at c i) = num"
  show ?thesis using f s inv same_cache_inv [OF f(2)] same_cache_view [OF f(2) inv] same_cache_block [OF f(2)]
    by (intro exI [of _ i] exI [of _ c'] exI [of _ s])
      (auto simp: find_or_fill_block_def kept_def same_cache_def)
next
  fix c1
  assume f: "find_block c num = (None, c1)" "same_cache c c1" "\<forall>i\<in>set (lru_list c). blocknum (block_at c i) \<noteq> num"
    "view c (data s) num = on_device c (data s) num"
  have c1: "cache_inv c1 (data s)" "view c1 (data s) = view c (data s)" "block_at c1 = block_at c"
    using same_cache_inv [OF f(2)] same_cache_view [OF f(2) inv] same_cache_block [OF f(2)] inv by simp_all
  have "has_room c1" using r f(2,3) c1(3) by (auto simp: has_room_def same_cache_def)
  from alloc_block_ok [OF s c1(1) this] f(2) obtain i c2 s2 where a: "alloc_block dev c1 s = Some (Some i, c2, s2)"
    "kept s s2" "taken i c2 (data s2)" "\<And>m. block_range c (data s) m \<Longrightarrow> view_but {i} c2 (data s2) m = view c (data s) m"
    "cache_block_size c2 = cache_block_size c"
    "\<And>j. j \<in> set (lru_list c2) - {i} \<Longrightarrow> blocknum (block_at c2 j) \<noteq> num"
    using f(3) c1 by (fastforce simp: block_range_def same_cache_def)
  let ?buf = "on_device c2 (data s2) num" and ?bs = "cache_block_size c2"
  let ?b = "(block_at c2 i)\<lparr>blocknum := num, blk_ptr := ?buf\<rparr>"
  let ?c3 = "set_block i (blocknum_update (\<lambda>_. num)) c2"
  have t: "cache_inv_but {i} c2 (data s2)" "i \<in> set (lru_list c2)" using a(3) by (simp_all add: taken_def)
  have il: "i < length (cache_blocks c2)" by (rule cache_index_bound [OF t])
  have bs: "0 < ?bs" "?bs < 2 ^ 31" "length (blk_ptr (block_at c2 i)) = ?bs"
    using t(1) ptr_length [OF t(1) il] by (simp_all add: cache_inv_but_def cache_shape_def)
  have s2: "ok s2" and n2: "block_range c2 (data s2) num" using a(2,5) n by (simp_all add: kept_def block_range_def)
  have "bio_read dev (blk_addr (block_at ?c3 i)) (blk_ptr (block_at ?c3 i)) (int (num * ?bs)) ?bs s2 = Some (int ?bs, ?buf, s2)"
    using read_bytes [OF s2 bs(1), of "num * ?bs" "blk_ptr (block_at c2 i)"] n2 bs
    by (simp add: block_at_set_block [OF il] block_range_def on_device_def put_bytes_whole)
  moreover have "set_block i (blk_ptr_update (\<lambda>_. ?buf)) ?c3 = set_block i (\<lambda>_. ?b) c2"
    using il by (simp add: set_block_def block_at_def)
  ultimately have e: "find_or_fill_block dev c num s =
      Some (Some i, count_stat (bc_reads_update (\<lambda>n. uint32 (n + 1))) (set_block i (\<lambda>_. ?b) c2), s2)"
    using to_int_small [OF bs(2)] by (simp add: find_or_fill_block_def f(1) a(1))
  have buf: "length ?buf = ?bs" using n2 by (simp add: on_device_def block_range_def)
  have v: "?buf = view c (data s) num"
    using a(4) [OF n] view_but_out [of c2 "{i}" num "data s2"] a(6) by simp
  note fill = fill_block [OF t n2, of ?b] and sm = same_count_stat [of "set_block i (\<lambda>_. ?b) c2"]
  have f1: "cache_inv (set_block i (\<lambda>_. ?b) c2) (data s2)"
    "view (set_block i (\<lambda>_. ?b) c2) (data s2) = (view_but {i} c2 (data s2))(num := ?buf)"
    using fill [OF _ _ _ _ _ refl] a(3,6) buf by (simp_all add: taken_def)
  show ?thesis unfolding e using a(2,4,5) f1 v t(2) same_cache_inv [OF sm] same_cache_view [OF sm f1(1)]
    by (auto simp: block_at_set_block [OF il])
qed

lemma flush_blocks_ok:
  assumes "ok s" "cache_inv c (data s)" "set is \<subseteq> set (lru_list c)"
  shows "\<exists>c' s'. flush_blocks dev c is s = Some (0, c', s') \<and> kept s s' \<and> cache_inv c' (data s') \<and>
    (\<forall>m. block_range c (data s) m \<longrightarrow> view c' (data s') m = view c (data s) m) \<and>
    lru_list c' = lru_list c \<and> cache_block_size c' = cache_block_size c \<and>
    (\<forall>j\<in>set (lru_list c). marked c (data s) j \<longrightarrow> marked c' (data s') j) \<and>
    (\<forall>j. block_at c' j = (block_at c j)\<lparr>is_dirty := is_dirty (block_at c j) \<and> j \<notin> set is\<rparr>)"
  using assms
proof (induction "is" arbitrary: c s)
  case Nil
  show ?case using Nil.prems by (auto simp: kept_def)
next
  case (Cons i "is")
  show ?case
  proof (cases "is_dirty (block_at c i)")
    case False
    obtain c' s' where r: "flush_blocks dev c is s = Some (0, c', s')" "kept s s'" "cache_inv c' (data s')"
      "\<forall>m. block_range c (data s) m \<longrightarrow> view c' (data s') m = view c (data s) m"
      "lru_list c' = lru_list c" "cache_block_size c' = cache_block_size c"
      "\<forall>j\<in>set (lru_list c). marked c (data s) j \<longrightarrow> marked c' (data s') j"
      "\<forall>j. block_at c' j = (block_at c j)\<lparr>is_dirty := is_dirty (block_at c j) \<and> j \<notin> set is\<rparr>"
      using Cons.IH [OF Cons.prems(1,2)] Cons.prems(3) by auto
    have "(is_dirty (block_at c j) \<and> j \<notin> set (i # is)) = (is_dirty (block_at c j) \<and> j \<notin> set is)" for j
      using False by auto
    with r False show ?thesis by (intro exI [of _ c'] exI [of _ s']) auto
  next
    case True
    obtain c1 s1 where f: "flush_block dev c i s = Some (0, c1, s1)" "kept s s1" "cache_inv c1 (data s1)"
      "\<forall>m. block_range c (data s) m \<longrightarrow> view c1 (data s1) m = view c (data s) m"
      "lru_list c1 = lru_list c" "cache_block_size c1 = cache_block_size c"
      "block_at c1 = (block_at c)(i := (block_at c i)\<lparr>is_dirty := False\<rparr>)"
      "\<forall>j\<in>set (lru_list c). marked c (data s) j \<longrightarrow> marked c1 (data s1) j"
      using flush_block_ok [OF Cons.prems(1,2), of i] Cons.prems(3) by auto
    have "ok s1" "set is \<subseteq> set (lru_list c1)" using f Cons.prems(3) by (auto simp: kept_def)
    from Cons.IH [OF this(1) f(3) this(2)]
    obtain c' s' where r: "flush_blocks dev c1 is s1 = Some (0, c', s')" "kept s1 s'" "cache_inv c' (data s')"
      "\<forall>m. block_range c1 (data s1) m \<longrightarrow> view c' (data s') m = view c1 (data s1) m"
      "lru_list c' = lru_list c1" "cache_block_size c' = cache_block_size c1"
      "\<forall>j\<in>set (lru_list c1). marked c1 (data s1) j \<longrightarrow> marked c' (data s') j"
      "\<forall>j. block_at c' j = (block_at c1 j)\<lparr>is_dirty := is_dirty (block_at c1 j) \<and> j \<notin> set is\<rparr>" by auto
    have "block_range c1 (data s1) m = block_range c (data s) m" for m
      using f(2,6) by (simp add: block_range_def kept_def)
    then show ?thesis using f r True by (intro exI [of _ c'] exI [of _ s']) (auto simp: kept_def)
  qed
qed

end

section \<open>The cache as a disk\<close>

text \<open>The operations on a cache, with a store of a caller that holds the block.\<close>

datatype cache_op = Read_Block nat | Get_Block nat | Put_Block nat | Store_Block nat bytes | Mark_Dirty nat
  | Zero_Block nat | Flush_Cache

fun cache_step :: "'s bdev \<Rightarrow> cache_op \<Rightarrow> bcache \<Rightarrow> 's \<Rightarrow> ((int \<times> bytes) \<times> bcache \<times> 's) option" where
  "cache_step dev (Read_Block n) c s = do {
     (rc, buf, c, s) \<leftarrow> bcache_read_block dev c (replicate (cache_block_size c) 0) n s; Some ((rc, buf), c, s) }"
| "cache_step dev (Get_Block n) c s = do {
     (rc, p, c, s) \<leftarrow> bcache_get_block dev c n s; Some ((rc, []), c, s) }"
| "cache_step dev (Put_Block n) c s = do { (rc, c) \<leftarrow> bcache_put_block c n; Some ((rc, []), c, s) }"
| "cache_step dev (Store_Block n x) c s = do { i \<leftarrow> holder {} c n; Some ((0, []), store_block i x c, s) }"
| "cache_step dev (Mark_Dirty n) c s = (let (rc, c) = bcache_mark_block_dirty c n in Some ((rc, []), c, s))"
| "cache_step dev (Zero_Block n) c s = do { (rc, c, s) \<leftarrow> bcache_zero_block dev c n s; Some ((rc, []), c, s) }"
| "cache_step dev Flush_Cache c s = do { (rc, c, s) \<leftarrow> bcache_flush dev c s; Some ((rc, []), c, s) }"

text \<open>The same operations on a disk.\<close>

fun disk_step :: "nat \<Rightarrow> cache_op \<Rightarrow> (nat \<Rightarrow> bytes) \<Rightarrow> (int \<times> bytes) \<times> (nat \<Rightarrow> bytes)" where
  "disk_step bs (Read_Block n) disk = ((0, disk n), disk)"
| "disk_step bs (Store_Block n x) disk = ((0, []), disk(n := x))"
| "disk_step bs (Zero_Block n) disk = ((0, []), disk(n := replicate bs 0))"
| "disk_step bs _ disk = ((0, []), disk)"

text \<open>
  What the callers have to keep: block numbers of the device; a block of the cache that nobody holds
  when a new one is needed; a block is held while it is changed, and marked as dirty before it is put.
\<close>

definition can_find :: "bcache \<Rightarrow> bytes \<Rightarrow> nat \<Rightarrow> bool" where
  "can_find c d n \<longleftrightarrow> block_range c d n \<and> (has_room c \<or> holder {} c n \<noteq> None)"

fun cache_op_ok :: "bcache \<Rightarrow> bytes \<Rightarrow> cache_op \<Rightarrow> bool" where
  "cache_op_ok c d (Read_Block n) \<longleftrightarrow> can_find c d n"
| "cache_op_ok c d (Get_Block n) \<longleftrightarrow> can_find c d n"
| "cache_op_ok c d (Put_Block n) \<longleftrightarrow>
     (case holder {} c n of None \<Rightarrow> False | Some i \<Rightarrow> ref_count (block_at c i) > 0 \<and> marked c d i)"
| "cache_op_ok c d (Store_Block n x) \<longleftrightarrow>
     (case holder {} c n of None \<Rightarrow> False | Some i \<Rightarrow> ref_count (block_at c i) > 0 \<and> length x = cache_block_size c)"
| "cache_op_ok c d (Mark_Dirty n) \<longleftrightarrow> holder {} c n \<noteq> None"
| "cache_op_ok c d (Zero_Block n) \<longleftrightarrow> can_find c d n"
| "cache_op_ok c d Flush_Cache \<longleftrightarrow> True"

text \<open>Sequences of operations, on the cache and on a disk, and what the callers keep during one.\<close>

fun cache_run :: "'s bdev \<Rightarrow> cache_op list \<Rightarrow> bcache \<Rightarrow> 's \<Rightarrow> ((int \<times> bytes) list \<times> bcache \<times> 's) option" where
  "cache_run dev [] c s = Some ([], c, s)"
| "cache_run dev (op # ops) c s = do {
     (r, c, s) \<leftarrow> cache_step dev op c s;
     (rs, c, s) \<leftarrow> cache_run dev ops c s;
     Some (r # rs, c, s) }"

fun disk_run :: "nat \<Rightarrow> cache_op list \<Rightarrow> (nat \<Rightarrow> bytes) \<Rightarrow> (int \<times> bytes) list \<times> (nat \<Rightarrow> bytes)" where
  "disk_run bs [] disk = ([], disk)"
| "disk_run bs (op # ops) disk = (let (r, disk) = disk_step bs op disk; (rs, disk) = disk_run bs ops disk in (r # rs, disk))"

fun cache_ops_ok :: "'s bdev \<Rightarrow> ('s \<Rightarrow> bytes) \<Rightarrow> cache_op list \<Rightarrow> bcache \<Rightarrow> 's \<Rightarrow> bool" where
  "cache_ops_ok dev data [] c s \<longleftrightarrow> True"
| "cache_ops_ok dev data (op # ops) c s \<longleftrightarrow> cache_op_ok c (data s) op \<and>
     (case cache_step dev op c s of None \<Rightarrow> True | Some (r, c, s) \<Rightarrow> cache_ops_ok dev data ops c s)"

lemma holder_facts:
  assumes "cache_inv c d"
  shows "holder {} c n = Some i \<longleftrightarrow> i \<in> set (lru_list c) \<and> blocknum (block_at c i) = n"
    "holder {} c n \<noteq> None \<longleftrightarrow> (\<exists>i\<in>set (lru_list c). blocknum (block_at c i) = n)"
  using holder_Some [of c "{}" n i] holder_None [of "{}" c n] assms by (auto simp: cache_inv_but_def)

lemma find_block_hit:
  assumes "cache_inv c d" "i \<in> set (lru_list c)" "blocknum (block_at c i) = n"
  shows "\<exists>c'. find_block c n = (Some i, c') \<and> same_cache c c'"
proof (rule find_block_cases [OF assms(1), of n])
  fix j c' assume "find_block c n = (Some j, c')" "same_cache c c'" "j \<in> set (lru_list c)" "blocknum (block_at c j) = n"
  moreover have "inj_on (\<lambda>j. blocknum (block_at c j)) (set (lru_list c))" using assms(1) by (simp add: cache_inv_but_def)
  ultimately show ?thesis using assms(2,3) by (auto dest: inj_onD)
qed (use assms in auto)

text \<open>The specification of a step: a result and a disk that the callers see.\<close>

context byte_device
begin

definition step_ok :: "cache_op \<Rightarrow> bcache \<Rightarrow> 'a \<Rightarrow> bool" where
  "step_ok op c s \<longleftrightarrow> (\<exists>c' s'. let (r, disk) = disk_step (cache_block_size c) op (view c (data s)) in
     cache_step dev op c s = Some (r, c', s') \<and> kept s s' \<and> cache_inv c' (data s') \<and>
     cache_block_size c' = cache_block_size c \<and>
     (\<forall>m. block_range c (data s) m \<longrightarrow> view c' (data s') m = disk m))"

lemma step_okI:
  assumes "disk_step (cache_block_size c) op (view c (data s)) = (r, disk)"
    and "cache_step dev op c s = Some (r, c', s')" "kept s s'" "cache_inv c' (data s')" "cache_block_size c' = cache_block_size c"
    and "\<And>m. block_range c (data s) m \<Longrightarrow> view c' (data s') m = disk m"
  shows "step_ok op c s"
  using assms by (auto simp: step_ok_def)

lemma read_step_ok:
  assumes s: "ok s" and inv: "cache_inv c (data s)" and f: "can_find c (data s) n"
  shows "step_ok (Read_Block n) c s"
proof -
  obtain i c' s' where r: "find_or_fill_block dev c n s = Some (Some i, c', s')" "kept s s'" "cache_inv c' (data s')"
    "\<forall>m. block_range c (data s) m \<longrightarrow> view c' (data s') m = view c (data s) m"
    "cache_block_size c' = cache_block_size c" "i \<in> set (lru_list c')" "blocknum (block_at c' i) = n"
    using find_or_fill_ok [OF s inv, of n] f holder_facts(2) [OF inv, of n] by (auto simp: can_find_def)
  have l: "length (blk_ptr (block_at c' i)) = cache_block_size c"
    using ptr_length [OF r(3) cache_index_bound [OF r(3,6)]] r(5) by simp
  have "inj_on (\<lambda>i. blocknum (block_at c' i)) (set (lru_list c') - {})" using r(3) by (simp add: cache_inv_but_def)
  then have v: "blk_ptr (block_at c' i) = view c (data s) n"
    using view_but_in [of c' "{}" i "data s'"] r(4,6,7) f by (simp add: can_find_def)
  have x: "cache_step dev (Read_Block n) c s = Some ((0, view c (data s) n), c', s')"
    using l v by (simp add: bcache_read_block_def r(1,5) copy_out_def copy_in_def put_bytes_whole bytes_at_def)
  show ?thesis using r by (intro step_okI [OF _ x]) simp_all
qed

lemma get_step_ok:
  assumes s: "ok s" and inv: "cache_inv c (data s)" and f: "can_find c (data s) n"
  shows "step_ok (Get_Block n) c s"
proof -
  obtain i c' s' where r: "find_or_fill_block dev c n s = Some (Some i, c', s')" "kept s s'" "cache_inv c' (data s')"
    "\<forall>m. block_range c (data s) m \<longrightarrow> view c' (data s') m = view c (data s) m"
    "cache_block_size c' = cache_block_size c" "i \<in> set (lru_list c')" "blocknum (block_at c' i) = n"
    using find_or_fill_ok [OF s inv, of n] f holder_facts(2) [OF inv, of n] by (auto simp: can_find_def)
  let ?b = "ref_count_update (\<lambda>n. n + 1) (block_at c' i)"
  let ?c = "set_block i (\<lambda>_. ?b) c'"
  have il: "i < length (cache_blocks c')" by (rule cache_index_bound [OF r(3,6)])
  have "ref_count (block_at c' i) \<ge> 0" using r(3) il by (simp add: cache_inv_but_def cache_shape_def)
  then have ch: "cache_inv ?c (data s')" "view ?c (data s') = (view c' (data s'))(n := blk_ptr (block_at c' i))"
    using change_block [OF r(3,6), of ?b ?c] ptr_length [OF r(3) il] r(7) by simp_all
  have "view c' (data s') n = blk_ptr (block_at c' i)"
    using view_but_in [of c' "{}" i "data s'"] r(3,6,7) by (simp add: cache_inv_but_def)
  then have v: "view ?c (data s') = view c' (data s')" using ch(2) by auto
  have "cache_step dev (Get_Block n) c s = Some ((0, []), ?c, s')"
    by (simp add: bcache_get_block_def r(1) set_block_def)
  then show ?thesis using r ch(1) v by (intro step_okI [of _ _ _ "(0, [])" "view c (data s)" ?c s']) simp_all
qed

text \<open>The operations that find a cached block and change it.\<close>

lemma cached_step_ok:
  assumes s: "ok s" and inv: "cache_inv c (data s)" and h: "holder {} c n = Some i"
    and c1: "find_block c n = (Some i, c1)"
    and b: "blocknum b = n" "length (blk_ptr b) = cache_block_size c" "ref_count b \<ge> 0"
      "\<not> is_dirty b \<Longrightarrow> ref_count b = 0 \<Longrightarrow> blk_ptr b = on_device c (data s) n"
    and d: "disk_step (cache_block_size c) op (view c (data s)) = ((0, []), (view c (data s))(n := blk_ptr b))"
    and st: "cache_step dev op c s = Some ((0, []), set_block i (\<lambda>_. b) c1, s)"
  shows "step_ok op c s"
proof -
  have i: "i \<in> set (lru_list c)" "blocknum (block_at c i) = n" using holder_facts(1) [OF inv] h by auto
  have sm: "same_cache c c1" using find_block_hit [OF inv i] c1 by auto
  have inv1: "cache_inv c1 (data s)" and v1: "view c1 (data s) = view c (data s)" and at: "block_at c1 = block_at c"
    using same_cache_inv [OF sm] same_cache_view [OF sm inv] same_cache_block [OF sm] inv by simp_all
  have m: "i \<in> set (lru_list c1)" "cache_block_size c1 = cache_block_size c" using sm i by (simp_all add: same_cache_def)
  have "\<not> is_dirty b \<Longrightarrow> ref_count b = 0 \<Longrightarrow> blk_ptr b = on_device c1 (data s) (blocknum b)"
    using b by (simp add: on_device_def m)
  then have ch: "cache_inv (set_block i (\<lambda>_. b) c1) (data s)"
    "view (set_block i (\<lambda>_. b) c1) (data s) = (view c (data s))(n := blk_ptr b)"
    using change_block [OF inv1 m(1), of b "set_block i (\<lambda>_. b) c1"] b i(2) at m(2) v1 by simp_all
  show ?thesis using ch s m(2) by (intro step_okI [OF d st]) (simp_all add: kept_def)
qed

lemma view_holder: "cache_inv c d \<Longrightarrow> holder {} c n = Some i \<Longrightarrow>
    view c d n = blk_ptr (block_at c i) \<and> i < length (cache_blocks c) \<and> blocknum (block_at c i) = n \<and>
    length (blk_ptr (block_at c i)) = cache_block_size c \<and> ref_count (block_at c i) \<ge> 0"
  using holder_facts(1) [of c d n i] cache_index_bound [of "{}" c d i] ptr_length [of "{}" c d i]
  by (auto simp: view_but_def cache_inv_but_def cache_shape_def)

lemma find_holder:
  assumes "cache_inv c d" "holder {} c n = Some i"
  obtains c1 where "find_block c n = (Some i, c1)" "block_at c1 = block_at c" "cache_block_size c1 = cache_block_size c"
    "length (cache_blocks c1) = length (cache_blocks c)"
proof -
  obtain c1 where "find_block c n = (Some i, c1)" "same_cache c c1"
    using find_block_hit [OF assms(1), of i n] holder_facts(1) [OF assms(1), of n i] assms(2) by blast
  then show ?thesis using that [of c1] same_cache_block [of c c1] by (simp add: same_cache_def)
qed

lemma put_step_ok:
  assumes s: "ok s" and inv: "cache_inv c (data s)" and a: "cache_op_ok c (data s) (Put_Block n)"
  shows "step_ok (Put_Block n) c s"
proof -
  obtain i where h: "holder {} c n = Some i" "ref_count (block_at c i) > 0" "marked c (data s) i"
    using a by (auto split: option.splits)
  obtain c1 where c1: "find_block c n = (Some i, c1)" "block_at c1 = block_at c" using find_holder [OF inv h(1)] .
  note v = view_holder [OF inv h(1)]
  let ?b = "ref_count_update (\<lambda>n. n - 1) (block_at c i)"
  have "view c (data s) = (view c (data s))(n := blk_ptr ?b)" using v by auto
  moreover have "cache_step dev (Put_Block n) c s = Some ((0, []), set_block i (\<lambda>_. ?b) c1, s)"
    using h(2) by (simp add: bcache_put_block_def c1 set_block_def)
  ultimately show ?thesis using v h(2,3)
    by (intro cached_step_ok [OF s inv h(1) c1(1), of ?b]) (auto simp: marked_def)
qed

lemma mark_step_ok:
  assumes s: "ok s" and inv: "cache_inv c (data s)" and a: "cache_op_ok c (data s) (Mark_Dirty n)"
  shows "step_ok (Mark_Dirty n) c s"
proof -
  obtain i where h: "holder {} c n = Some i" using a by auto
  obtain c1 where c1: "find_block c n = (Some i, c1)" "block_at c1 = block_at c" using find_holder [OF inv h] .
  note v = view_holder [OF inv h]
  let ?b = "is_dirty_update (\<lambda>_. True) (block_at c i)"
  have "view c (data s) = (view c (data s))(n := blk_ptr ?b)" using v by auto
  moreover have "cache_step dev (Mark_Dirty n) c s = Some ((0, []), set_block i (\<lambda>_. ?b) c1, s)"
    by (simp add: bcache_mark_block_dirty_def c1 set_block_def)
  ultimately show ?thesis using v by (intro cached_step_ok [OF s inv h c1(1), of ?b]) auto
qed

lemma store_step_ok:
  assumes s: "ok s" and inv: "cache_inv c (data s)" and a: "cache_op_ok c (data s) (Store_Block n x)"
  shows "step_ok (Store_Block n x) c s"
proof -
  obtain i where h: "holder {} c n = Some i" "ref_count (block_at c i) > 0" "length x = cache_block_size c"
    using a by (auto split: option.splits)
  note v = view_holder [OF inv h(1)]
  let ?b = "blk_ptr_update (\<lambda>_. x) (block_at c i)"
  have i: "i \<in> set (lru_list c)" using holder_facts(1) [OF inv] h(1) by auto
  have ch: "cache_inv (set_block i (\<lambda>_. ?b) c) (data s)" "view (set_block i (\<lambda>_. ?b) c) (data s) = (view c (data s))(n := x)"
    using change_block [OF inv i, of ?b "set_block i (\<lambda>_. ?b) c"] v h by simp_all
  have st: "cache_step dev (Store_Block n x) c s = Some ((0, []), set_block i (\<lambda>_. ?b) c, s)"
    by (simp add: h(1) store_block_def set_block_def)
  show ?thesis using ch s by (intro step_okI [OF disk_step.simps(2) st]) (simp_all add: kept_def)
qed

lemma zero_step_ok:
  assumes s: "ok s" and inv: "cache_inv c (data s)" and f: "can_find c (data s) n"
  shows "step_ok (Zero_Block n) c s"
proof (rule find_block_cases [OF inv, of n])
  fix i c1
  assume c1: "find_block c n = (Some i, c1)" "same_cache c c1" "i \<in> set (lru_list c)" "blocknum (block_at c i) = n"
  have h: "holder {} c n = Some i" using holder_facts(1) [OF inv] c1 by auto
  note v = view_holder [OF inv h]
  let ?b = "(block_at c i)\<lparr>blk_ptr := replicate (cache_block_size c) 0, is_dirty := True\<rparr>"
  have "cache_step dev (Zero_Block n) c s = Some ((0, []), set_block i (\<lambda>_. ?b) c1, s)"
    using c1(2) same_cache_block [OF c1(2)]
    by (simp add: bcache_zero_block_def c1 zero_block_def set_block_def same_cache_def)
  then show ?thesis using v by (intro cached_step_ok [OF s inv h c1(1), of ?b]) simp_all
next
  fix c1
  assume f1: "find_block c n = (None, c1)" "same_cache c c1" "\<forall>i\<in>set (lru_list c). blocknum (block_at c i) \<noteq> n"
  have c1: "cache_inv c1 (data s)" "view c1 (data s) = view c (data s)" "block_at c1 = block_at c"
    using same_cache_inv [OF f1(2)] same_cache_view [OF f1(2) inv] same_cache_block [OF f1(2)] inv by simp_all
  have n: "block_range c (data s) n" using f by (simp add: can_find_def)
  have "has_room c" using f f1(3) holder_facts(2) [OF inv, of n] by (auto simp: can_find_def)
  then have "has_room c1" using f1(2) c1(3) by (auto simp: has_room_def same_cache_def)
  from alloc_block_ok [OF s c1(1) this] f1(2) obtain i c2 s2 where a: "alloc_block dev c1 s = Some (Some i, c2, s2)"
    "kept s s2" "taken i c2 (data s2)" "\<And>m. block_range c (data s) m \<Longrightarrow> view_but {i} c2 (data s2) m = view c (data s) m"
    "cache_block_size c2 = cache_block_size c"
    "\<And>j. j \<in> set (lru_list c2) - {i} \<Longrightarrow> blocknum (block_at c2 j) \<noteq> n"
    using f1(3) c1 by (fastforce simp: block_range_def same_cache_def)
  let ?b = "(block_at c2 i)\<lparr>blocknum := n, blk_ptr := replicate (cache_block_size c) 0, is_dirty := True\<rparr>"
  have t: "cache_inv_but {i} c2 (data s2)" "i \<in> set (lru_list c2)" "ref_count (block_at c2 i) = 0"
    using a(3) by (simp_all add: taken_def)
  have il: "i < length (cache_blocks c2)" by (rule cache_index_bound [OF t(1,2)])
  have n2: "block_range c2 (data s2) n" using a(2,5) n by (simp add: kept_def block_range_def)
  have st: "cache_step dev (Zero_Block n) c s = Some ((0, []), set_block i (\<lambda>_. ?b) c2, s2)"
    using il a(5) by (simp add: bcache_zero_block_def f1(1) a(1) zero_block_def set_block_def block_at_def)
  have fb: "cache_inv (set_block i (\<lambda>_. ?b) c2) (data s2)"
    "view (set_block i (\<lambda>_. ?b) c2) (data s2) = (view_but {i} c2 (data s2))(n := replicate (cache_block_size c) 0)"
    using fill_block [OF t(1,2) n2, of ?b] a(5,6) t(3) by simp_all
  show ?thesis using a(2,4,5) fb by (intro step_okI [OF disk_step.simps(3) st]) simp_all
qed

lemma flush_step_ok:
  assumes s: "ok s" and inv: "cache_inv c (data s)"
  shows "step_ok Flush_Cache c s"
proof -
  obtain c' s' where f: "flush_blocks dev c (lru_list c) s = Some (0, c', s')" "kept s s'" "cache_inv c' (data s')"
    "\<forall>m. block_range c (data s) m \<longrightarrow> view c' (data s') m = view c (data s) m" "cache_block_size c' = cache_block_size c"
    using flush_blocks_ok [OF s inv order_refl] by auto
  have st: "cache_step dev Flush_Cache c s = Some ((0, []), c', s')" by (simp add: bcache_flush_def f(1))
  show ?thesis using f by (intro step_okI [OF _ st]) simp_all
qed

theorem cache_step_ok:
  assumes "ok s" "cache_inv c (data s)" "cache_op_ok c (data s) op"
  shows "step_ok op c s"
  using assms read_step_ok get_step_ok put_step_ok store_step_ok mark_step_ok zero_step_ok flush_step_ok
  by (cases op) (simp_all only: cache_op_ok.simps)

text \<open>After a flush the device has what the callers see, except where a holder has not marked a change.\<close>

theorem flush_writes_back:
  assumes s: "ok s" and inv: "cache_inv c (data s)" and m: "\<forall>i\<in>set (lru_list c). marked c (data s) i"
    and r: "block_range c (data s) n"
  shows "\<exists>c' s'. bcache_flush dev c s = Some (0, c', s') \<and> on_device c (data s') n = view c (data s) n"
proof -
  obtain c' s' where f: "flush_blocks dev c (lru_list c) s = Some (0, c', s')" "cache_inv c' (data s')"
    "\<forall>m. block_range c (data s) m \<longrightarrow> view c' (data s') m = view c (data s) m"
    "lru_list c' = lru_list c" "cache_block_size c' = cache_block_size c"
    "\<forall>j\<in>set (lru_list c). marked c (data s) j \<longrightarrow> marked c' (data s') j"
    "\<forall>j. block_at c' j = (block_at c j)\<lparr>is_dirty := is_dirty (block_at c j) \<and> j \<notin> set (lru_list c)\<rparr>"
    using flush_blocks_ok [OF s inv order_refl] by auto
  have "view c' (data s') n = on_device c' (data s') n"
  proof (cases "holder {} c' n")
    case None then show ?thesis by (simp add: view_but_def)
  next
    case (Some i)
    then have i: "i \<in> set (lru_list c')" "blocknum (block_at c' i) = n" using holder_facts(1) [OF f(2)] by auto
    then have "marked c' (data s') i" "\<not> is_dirty (block_at c' i)" using m f by auto
    then show ?thesis using Some i by (simp add: view_but_def marked_def)
  qed
  then show ?thesis using f r by (auto simp: bcache_flush_def on_device_def)
qed

theorem cache_run_ok:
  assumes "ok s" "cache_inv c (data s)" "cache_ops_ok dev data ops c s" "cache_block_size c = bs"
    and "\<And>m. block_range c (data s) m \<Longrightarrow> view c (data s) m = disk m"
  shows "\<exists>c' s'. cache_run dev ops c s = Some (fst (disk_run bs ops disk), c', s') \<and> kept s s' \<and>
    cache_inv c' (data s') \<and> cache_block_size c' = bs \<and>
    (\<forall>m. block_range c (data s) m \<longrightarrow> view c' (data s') m = snd (disk_run bs ops disk) m)"
  using assms
proof (induction ops arbitrary: c s disk)
  case Nil
  then show ?case by (simp add: kept_def)
next
  case (Cons op ops)
  have ok1: "cache_op_ok c (data s) op" using Cons.prems(3) by simp
  obtain r d where d: "disk_step bs op (view c (data s)) = (r, d)" by (cases "disk_step bs op (view c (data s))")
  obtain c1 s1 where st: "cache_step dev op c s = Some (r, c1, s1)" "kept s s1" "cache_inv c1 (data s1)"
    "cache_block_size c1 = bs" "\<And>m. block_range c (data s) m \<Longrightarrow> view c1 (data s1) m = d m"
    using cache_step_ok [OF Cons.prems(1,2) ok1] d Cons.prems(4) by (auto simp: step_ok_def)
  have rng: "block_range c1 (data s1) m = block_range c (data s) m" for m
    using st(2,4) Cons.prems(4) by (simp add: block_range_def kept_def)
  obtain d' where d': "disk_step bs op disk = (r, d')" "\<And>m. block_range c (data s) m \<Longrightarrow> d m = d' m"
    using d Cons.prems(5) ok1 by (cases op) (auto simp: can_find_def)
  have "ok s1" "cache_ops_ok dev data ops c1 s1" using st(1,2) Cons.prems(3) by (auto simp: kept_def)
  from Cons.IH [OF this(1) st(3) this(2) st(4), of d'] obtain c' s' where
    "cache_run dev ops c1 s1 = Some (fst (disk_run bs ops d'), c', s')" "kept s1 s'" "cache_inv c' (data s')"
    "cache_block_size c' = bs" "\<And>m. block_range c (data s) m \<Longrightarrow> view c' (data s') m = snd (disk_run bs ops d') m"
    using st(5) d'(2) by (auto simp: rng)
  then show ?case using st(1,2) d'(1) by (auto simp: kept_def split: prod.splits)
qed

end

end
