(* ===== verification/Storage_Props.thy ===== *)
theory Storage_Props
  imports Bcache_Inv
begin

text \<open>
  The properties of block devices and of the block cache.
\<close>

section \<open>The memory device as a cached disk\<close>

lemma cache_inv_create:
  assumes "0 < bs" "bs < 2 ^ 31" "\<forall>i<count. length (blk_ptr (m i)) = bs"
  shows "cache_inv (bcache_create bs count m) d"
  using assms
  by (auto simp: cache_inv_but_def cache_shape_def bcache_create_def block_at_def)

lemma view_create: "view (bcache_create bs count m) d n = bytes_at d (n * bs) bs"
  by (simp add: view_but_def holder_def bcache_create_def on_device_def)

lemma mem_bytes:
  assumes "length mem = len" "len < 2 ^ 32"
  shows "mem_ok len mem" "length (mem_data len mem) = len div 512 * 512"
  using assms mem_geometry(2) [of len mem] by (simp_all add: mem_ok_def)

lemma clip_bytes_mem:
  assumes "mem_ok len mem"
  shows "bytes_at (mem_data len mem) (nat offset) (clip (len div 512 * 512) offset n) =
    bytes_at mem (nat offset) (clip (len div 512 * 512) offset n)"
  using bytes_at_mem_data [of "nat offset" "clip (len div 512 * 512) offset n" len mem]
    clip_bounds(2) [where m = "len div 512 * 512" and offset = offset and len = n]
  by (cases "clip (len div 512 * 512) offset n = 0") simp_all

lemma clip_put_mem:
  assumes "mem_ok len mem" "n \<le> length buf"
  shows "mem_upd len (put_bytes (mem_data len mem) (nat offset) (bytes_at buf 0 (clip (len div 512 * 512) offset n))) mem =
    put_bytes mem (nat offset) (bytes_at buf 0 (clip (len div 512 * 512) offset n))"
  using put_bytes_mem [OF assms(1), of "nat offset" "bytes_at buf 0 (clip (len div 512 * 512) offset n)"] assms(2)
    clip_bounds [where m = "len div 512 * 512" and offset = offset and len = n]
  by (cases "clip (len div 512 * 512) offset n = 0") (simp_all add: mem_upd_data)

text \<open>
  C10: Deblocking is correct. Take a device of 512-byte blocks over less than 4 GiB of memory that leaves
  reading and writing of bytes to the default functions, with any of the flags that ask for aligned
  buffers. For every offset, also a negative one or one beyond the end, every length below \<open>2 ^ 62\<close> that
  the caller's buffer has, and every address of the buffer, \<open>bio_read\<close> and \<open>bio_write\<close>, which split the
  transfer into a partial first block, whole blocks, one by one through a temporary buffer when the
  buffer is not aligned, and a partial last block, move exactly the bytes of the range that lie inside
  the device, return their number and change nothing else. The same holds of a partition of the device
  and the range of blocks it covers.
\<close>

theorem bio_deblocking_correct:
  assumes "length mem = len" "len < 2 ^ 32" "n \<le> length buf" "n < 2 ^ 62"
  shows "(let dev = plain_dev name len fl; k = clip (len div 512 * 512) offset n in
      bio_read dev addr buf offset n mem = Some (int k, put_bytes buf 0 (bytes_at mem (nat offset) k), mem) \<and>
      bio_write dev addr buf offset n mem = Some (int k, put_bytes mem (nat offset) (bytes_at buf 0 k))) \<and>
    (start + m \<le> len div 512 \<longrightarrow> (let dev = sub_dev (plain_dev name len fl) part start m a; k = clip (m * 512) offset n in
      bio_read dev addr buf offset n mem = Some (int k, put_bytes buf 0 (bytes_at mem (start * 512 + nat offset) k), mem) \<and>
      bio_write dev addr buf offset n mem = Some (int k, put_bytes mem (start * 512 + nat offset) (bytes_at buf 0 k))))"
    (is "?whole \<and> (?j \<longrightarrow> ?part)")
proof (intro conjI impI)
  note m = mem_bytes [OF assms(1,2)]
  have l: "len div 512 * 512 < 2 ^ 32" using assms(2) by simp
  show ?whole
    using plain.clipped_bytes [OF m(1) assms(3), unfolded m(2), where offset = offset and name = name and fl = fl and addr = addr] assms(4) l
      clip_bytes_mem [OF m(1), of offset n] clip_put_mem [OF m(1) assms(3), of offset] by (simp add: Let_def)
  assume j: ?j
  have s: "sub_ok (plain_dev name len fl) (mem_ok len) start m mem"
    using j m(1) mem_geometry(3) [OF m(1)] by (simp add: sub_ok_def plain_dev_def)
  have b: "block_size (plain_dev name len fl) = 512" by (simp add: plain_dev_def mem_dev_simps)
  have f: "length (sub_data (plain_dev name len fl) (mem_data len) start m mem) = m * 512" using plain.sub_facts(4) [OF s] b by simp
  have r: "start * 512 + m * 512 \<le> len div 512 * 512"
    using mult_le_mono1 [of "start + m" "len div 512" 512] j by (simp add: add_mult_distrib)
  define k where "k = clip (m * 512) offset n"
  have k: "k \<le> length buf" "nat offset + k \<le> m * 512 \<or> k = 0" using clip_bounds [where m = "m * 512" and offset = offset and len = n] assms(3) by (auto simp: k_def)
  have rd: "bytes_at (sub_data (plain_dev name len fl) (mem_data len) start m mem) (nat offset) k = bytes_at mem (start * 512 + nat offset) k"
    using k(2) plain.sub_get [OF s, of "nat offset" k] bytes_at_mem_data [of "start * 512 + nat offset" k len mem] r b by auto
  have wr: "sub_upd (plain_dev name len fl) (mem_data len) (mem_upd len) start
      (put_bytes (sub_data (plain_dev name len fl) (mem_data len) start m mem) (nat offset) (bytes_at buf 0 k)) mem =
      put_bytes mem (start * 512 + nat offset) (bytes_at buf 0 k)"
    using k plain.sub_put [OF s, of "nat offset" "bytes_at buf 0 k"] put_bytes_mem [OF m(1), of "start * 512 + nat offset" "bytes_at buf 0 k"] r b
      plain_part.upd_data [OF s] by (auto simp: sub_upd_def)
  show ?part
    using plain_part.clipped_bytes [OF s assms(3), unfolded f, where offset = offset and part = part] assms(4) l r rd wr by (simp add: Let_def k_def)
qed

theorem bio_deblocking_correct_witness:
  "bio_read (plain_dev ''ram'' 1536 3) 7 (replicate 1600 0) 505 1600 (map of_nat [0..<1536]) =
     Some (1031, put_bytes (replicate 1600 0) 0 (bytes_at (map of_nat [0..<1536]) 505 1031), map of_nat [0..<1536]) \<and>
   bio_write (sub_dev (plain_dev ''ram'' 1536 3) ''p'' 1 2 0) 7 (replicate 1600 1) (- 3) 20 (map of_nat [0..<1536]) =
     Some (0, map of_nat [0..<1536])"
  using bio_deblocking_correct [of "map of_nat [0..<1536]" 1536 1600 "replicate 1600 0" "''ram''" 3 505 7 1 2 "''p''" 0]
    bio_deblocking_correct [of "map of_nat [0..<1536]" 1536 20 "replicate 1600 1" "''ram''" 3 "- 3" 7 1 2 "''p''" 0]
  by (simp add: clip_def Let_def)

text \<open>
  C9: The block cache is transparent. A run of operations on a new cache over a memory device, whose
  callers name blocks of the device, leave a block to evict, hold the blocks they change and mark them
  as dirty before they put them, never fails; every result is that of the same operations on a disk
  with the initial contents of the device, whatever was evicted and written back meanwhile. If all
  changes have been marked, a flush makes the device equal to that disk.
\<close>

theorem bcache_transparent:
  assumes m: "length mem = len" "len < 2 ^ 32"
    and b: "0 < bs" "bs < 2 ^ 31" "\<forall>i<count. length (blk_ptr (blks i)) = bs"
    and ops: "cache_ops_ok (mem_dev name len) (mem_data len) ops (bcache_create bs count blks) mem"
    and d: "disk_run bs ops (\<lambda>n. bytes_at (mem_data len mem) (n * bs) bs) = (rs, disk)"
  shows "\<exists>c mem'. cache_run (mem_dev name len) ops (bcache_create bs count blks) mem = Some (rs, c, mem') \<and>
    (\<forall>n. n * bs + bs \<le> len div 512 * 512 \<longrightarrow> view c (mem_data len mem') n = disk n) \<and>
    ((\<forall>i\<in>set (lru_list c). marked c (mem_data len mem') i) \<longrightarrow>
      (\<exists>c2 mem2. bcache_flush (mem_dev name len) c mem' = Some (0, c2, mem2) \<and>
        (\<forall>n. n * bs + bs \<le> len div 512 * 512 \<longrightarrow> bytes_at (mem_data len mem2) (n * bs) bs = disk n)))"
proof -
  note mb = mem_bytes [OF m]
  let ?c = "bcache_create bs count blks"
  have bs: "cache_block_size ?c = bs" by (simp add: bcache_create_def)
  obtain c mem' where r: "cache_run (mem_dev name len) ops ?c mem = Some (rs, c, mem')"
    "mem.kept len mem mem'" "cache_inv c (mem_data len mem')" "cache_block_size c = bs"
    "\<And>n. n * bs + bs \<le> len div 512 * 512 \<Longrightarrow> view c (mem_data len mem') n = disk n"
    using mem.cache_run_ok [OF mb(1) cache_inv_create [OF b] ops bs view_create] d mb(2)
    by (auto simp: block_range_def bs)
  have k: "mem_ok len mem'" "length (mem_data len mem') = len div 512 * 512"
    using r(2) mb(2) by (simp_all add: mem.kept_def)
  have "bytes_at (mem_data len mem2) (n * bs) bs = disk n"
    if "\<forall>i\<in>set (lru_list c). marked c (mem_data len mem') i" "bcache_flush (mem_dev name len) c mem' = Some (0, c2, mem2)"
      "n * bs + bs \<le> len div 512 * 512" for c2 mem2 n
    using mem.flush_writes_back [OF k(1) r(3) that(1), where n = n and name = name] that(2,3) r(4,5) k(2)
    by (auto simp: block_range_def on_device_def)
  moreover have "\<exists>c2 mem2. bcache_flush (mem_dev name len) c mem' = Some (0, c2, mem2)"
    using mem.flush_blocks_ok [OF k(1) r(3) order_refl, where name = name] by (auto simp: bcache_flush_def)
  ultimately show ?thesis using r(1,5) by blast
qed

theorem bcache_transparent_witness:
  "\<exists>c mem'. cache_run (mem_dev ''ram'' 512) [Zero_Block 0, Read_Block 0, Read_Block 1]
     (bcache_create 2 1 (\<lambda>_. \<lparr>blocknum = 9, ref_count = 0, is_dirty = True, blk_ptr = [1, 1], blk_addr = 64\<rparr>))
     (replicate 512 5) = Some ([(0, []), (0, [0, 0]), (0, [5, 5])], c, mem')"
proof -
  let ?ops = "[Zero_Block 0, Read_Block 0, Read_Block 1]"
  let ?m = "\<lambda>_. \<lparr>blocknum = 9, ref_count = 0, is_dirty = True, blk_ptr = [1, 1], blk_addr = 64\<rparr>"
  have "cache_ops_ok (mem_dev ''ram'' 512) (mem_data 512) ?ops (bcache_create 2 1 ?m) (replicate 512 5)"
    by (simp add: bcache_create_def can_find_def has_room_def block_range_def mem_data_def bcache_zero_block_def
      find_block_def alloc_block_def zero_block_def set_block_def block_at_def bcache_read_block_def count_stat_def
      find_or_fill_block_def to_tail_def copy_out_def copy_in_def put_bytes_def bytes_at_def split: option.split)
  moreover obtain disk where "disk_run 2 ?ops (\<lambda>n. bytes_at (mem_data 512 (replicate 512 5)) (n * 2) 2) =
      ([(0, []), (0, [0, 0]), (0, [5, 5])], disk)"
    by (simp add: mem_data_def bytes_at_def numeral_2_eq_2)
  ultimately show ?thesis using bcache_transparent [of "replicate 512 5" 512 2 1 ?m "''ram''" ?ops] by auto
qed

end
