(* ===== verification/Qsort.thy ===== *)
theory Qsort
  imports Prelude "HOL-Library.Multiset"
begin

text \<open>
  The sort of the C library (\<open>lib/libc/qsort.c\<close>), Bentley and McIlroy's quicksort with a three-way
  partition, and the binary search (\<open>lib/libc/bsearch.c\<close>). An array is a list of elements; a pointer into it
  is an index, so the byte copies of the swap macros are swaps of elements. The comparison function is
  the argument \<open>cmp\<close>. An access outside the array, and a byte count that does not fit the \<open>int\<close>
  variables \<open>d\<close> and \<open>r\<close> of the code, is \<open>None\<close>; \<open>es\<close> is the size of an element.
\<close>

section \<open>Arrays\<close>

type_synonym 'a cmp_fun = "'a \<Rightarrow> 'a \<Rightarrow> int"

definition cmp_at :: "'a cmp_fun \<Rightarrow> 'a list \<Rightarrow> nat \<Rightarrow> nat \<Rightarrow> int option" where
  "cmp_at cmp xs i j = (if i < length xs \<and> j < length xs then Some (cmp (xs ! i) (xs ! j)) else None)"

definition swap_at :: "'a list \<Rightarrow> nat \<Rightarrow> nat \<Rightarrow> 'a list option" where
  "swap_at xs i j = (if i < length xs \<and> j < length xs then Some (xs[i := xs ! j, j := xs ! i]) else None)"

definition fits_int :: "nat \<Rightarrow> bool" where
  "fits_int n \<longleftrightarrow> n < 2 ^ 31"

fun vecswap :: "'a list \<Rightarrow> nat \<Rightarrow> nat \<Rightarrow> nat \<Rightarrow> 'a list option" where
  "vecswap xs i j 0 = Some xs"
| "vecswap xs i j (Suc n) = (case swap_at xs i j of None \<Rightarrow> None | Some xs \<Rightarrow> vecswap xs (i + 1) (j + 1) n)"

section \<open>Insertion sort\<close>

function insert_loop :: "'a cmp_fun \<Rightarrow> nat \<Rightarrow> nat \<Rightarrow> 'a list \<Rightarrow> 'a list option" where
  "insert_loop cmp a pl xs =
     (if pl > a then
        (case cmp_at cmp xs (pl - 1) pl of
           None \<Rightarrow> None
         | Some r \<Rightarrow>
             if r > 0 then
               (case swap_at xs pl (pl - 1) of None \<Rightarrow> None | Some xs \<Rightarrow> insert_loop cmp a (pl - 1) xs)
             else Some xs)
      else Some xs)"
  by pat_completeness auto
termination
  by (relation "measure (\<lambda>(cmp, a, pl, xs). pl)") auto

fun insert_all :: "'a cmp_fun \<Rightarrow> nat \<Rightarrow> nat list \<Rightarrow> 'a list \<Rightarrow> 'a list option" where
  "insert_all cmp a [] xs = Some xs"
| "insert_all cmp a (pm # pms) xs =
     (case insert_loop cmp a pm xs of None \<Rightarrow> None | Some xs \<Rightarrow> insert_all cmp a pms xs)"

definition insertion_sort :: "'a cmp_fun \<Rightarrow> nat \<Rightarrow> nat \<Rightarrow> 'a list \<Rightarrow> 'a list option" where
  "insertion_sort cmp a n xs = insert_all cmp a [a + 1..<a + n] xs"

section \<open>Partition\<close>

definition med3 :: "'a cmp_fun \<Rightarrow> 'a list \<Rightarrow> nat \<Rightarrow> nat \<Rightarrow> nat \<Rightarrow> nat option" where
  "med3 cmp xs a b c = do {
     ab \<leftarrow> cmp_at cmp xs a b;
     bc \<leftarrow> cmp_at cmp xs b c;
     ac \<leftarrow> cmp_at cmp xs a c;
     Some (if ab < 0 then (if bc < 0 then b else (if ac < 0 then c else a))
           else (if bc > 0 then b else (if ac < 0 then a else c)))
   }"

text \<open>The choice of the pivot: the middle, the median of three or the median of three medians.\<close>

definition choose_pivot :: "'a cmp_fun \<Rightarrow> nat \<Rightarrow> nat \<Rightarrow> nat \<Rightarrow> 'a list \<Rightarrow> nat option" where
  "choose_pivot cmp es a n xs =
     (let pm = a + n div 2; pl = a; pn = a + (n - 1); d = n div 8 in
      if n > 7 then
        if n > 40 then do {
          guard_that (fits_int (2 * (d * es)));
          pl \<leftarrow> med3 cmp xs pl (pl + d) (pl + 2 * d);
          pm \<leftarrow> med3 cmp xs (pm - d) pm (pm + d);
          pn \<leftarrow> med3 cmp xs (pn - 2 * d) (pn - d) pn;
          med3 cmp xs pl pm pn
        } else med3 cmp xs pl pm pn
      else Some pm)"

function scan_up :: "'a cmp_fun \<Rightarrow> nat \<Rightarrow> nat \<Rightarrow> nat \<Rightarrow> nat \<Rightarrow> bool \<Rightarrow> 'a list \<Rightarrow> (nat \<times> nat \<times> bool \<times> 'a list) option" where
  "scan_up cmp a pa pb pc swapped xs =
     (if pb \<le> pc then
        (case cmp_at cmp xs pb a of
           None \<Rightarrow> None
         | Some r \<Rightarrow>
             if r \<le> 0 then
               if r = 0 then
                 (case swap_at xs pa pb of
                    None \<Rightarrow> None
                  | Some xs \<Rightarrow> scan_up cmp a (pa + 1) (pb + 1) pc True xs)
               else scan_up cmp a pa (pb + 1) pc swapped xs
             else Some (pa, pb, swapped, xs))
      else Some (pa, pb, swapped, xs))"
  by pat_completeness auto
termination
  by (relation "measure (\<lambda>(cmp, a, pa, pb, pc, swapped, xs). Suc pc - pb)") auto

text \<open>A pointer that would leave the array at its start is \<open>None\<close>.\<close>

function scan_down :: "'a cmp_fun \<Rightarrow> nat \<Rightarrow> nat \<Rightarrow> nat \<Rightarrow> nat \<Rightarrow> bool \<Rightarrow> 'a list \<Rightarrow> (nat \<times> nat \<times> bool \<times> 'a list) option" where
  "scan_down cmp a pb pc pd swapped xs =
     (if pb \<le> pc then
        (case cmp_at cmp xs pc a of
           None \<Rightarrow> None
         | Some r \<Rightarrow>
             if r \<ge> 0 then
               if pc = 0 then None
               else if r = 0 then
                 (case swap_at xs pc pd of
                    None \<Rightarrow> None
                  | Some xs \<Rightarrow> scan_down cmp a pb (pc - 1) (pd - 1) True xs)
               else scan_down cmp a pb (pc - 1) pd swapped xs
             else Some (pc, pd, swapped, xs))
      else Some (pc, pd, swapped, xs))"
  by pat_completeness auto
termination
  by (relation "measure (\<lambda>(cmp, a, pb, pc, pd, swapped, xs). pc)") auto

declare insert_loop.simps [simp del] scan_up.simps [simp del] scan_down.simps [simp del]

lemma scan_up_bounds:
  "scan_up cmp a pa pb pc swapped xs = Some (pa', pb', swapped', xs') \<Longrightarrow> pb \<le> Suc pc \<Longrightarrow>
    pa \<le> pa' \<and> pb \<le> pb' \<and> pb' \<le> Suc pc"
proof (induction cmp a pa pb pc swapped xs rule: scan_up.induct)
  case (1 cmp a pa pb pc swapped xs)
  note p = "1.prems"(1) [unfolded scan_up.simps [of cmp a pa pb pc swapped xs]]
  show ?case using p "1.prems"(2) "1.IH" by (fastforce split: if_splits option.splits)
qed

lemma scan_down_bounds:
  "scan_down cmp a pb pc pd swapped xs = Some (pc', pd', swapped', xs') \<Longrightarrow> pb \<le> Suc pc \<Longrightarrow>
    pd' \<le> pd \<and> pc' \<le> pc \<and> pb \<le> Suc pc'"
proof (induction cmp a pb pc pd swapped xs rule: scan_down.induct)
  case (1 cmp a pb pc pd swapped xs)
  note p = "1.prems"(1) [unfolded scan_down.simps [of cmp a pb pc pd swapped xs]]
  show ?case using p "1.prems"(2) "1.IH" by (fastforce split: if_splits option.splits)
qed

function partition_loop ::
  "'a cmp_fun \<Rightarrow> nat \<Rightarrow> nat \<Rightarrow> nat \<Rightarrow> nat \<Rightarrow> nat \<Rightarrow> bool \<Rightarrow> 'a list \<Rightarrow> (nat \<times> nat \<times> nat \<times> nat \<times> bool \<times> 'a list) option" where
  "partition_loop cmp a pa pb pc pd swapped xs =
     (case scan_up cmp a pa pb pc swapped xs of
        None \<Rightarrow> None
      | Some (pa, pb, swapped, xs) \<Rightarrow>
          (case scan_down cmp a pb pc pd swapped xs of
             None \<Rightarrow> None
           | Some (pc, pd, swapped, xs) \<Rightarrow>
               if pb > pc then Some (pa, pb, pc, pd, swapped, xs)
               else if pc = 0 then None
               else (case swap_at xs pb pc of
                       None \<Rightarrow> None
                     | Some xs \<Rightarrow> partition_loop cmp a pa (pb + 1) (pc - 1) pd True xs)))"
  by pat_completeness auto

lemma partition_step:
  assumes "scan_up cmp a pa pb pc sw xs = Some (pa', pb', sw', xs')"
    and "scan_down cmp a pb' pc pd sw' xs' = Some (pc', pd', sw'', xs'')" "\<not> pb' > pc'"
  shows "pb \<le> pb'" "pc' \<le> pc" "pb' \<le> pc'" "pa \<le> pa'" "pd' \<le> pd"
proof -
  have b: "pb \<le> Suc pc \<or> pb = pb' \<and> pa = pa'"
    using assms(1) by (subst (asm) scan_up.simps) (auto split: if_splits)
  have c: "pb' \<le> Suc pc \<or> pc' = pc \<and> pd' = pd"
    using assms(2) by (subst (asm) scan_down.simps) (auto split: if_splits)
  show "pb \<le> pb'" "pa \<le> pa'" using b scan_up_bounds [OF assms(1)] by auto
  show "pc' \<le> pc" "pd' \<le> pd" using c scan_down_bounds [OF assms(2)] by auto
  show "pb' \<le> pc'" using assms(3) by simp
qed

termination partition_loop
proof (relation "measure (\<lambda>(cmp, a, pa, pb, pc, pd, swapped, xs). Suc pc - pb)", goal_cases)
  case (2 cmp a pa pb pc pd sw xs x pa' y pb' z sw' xs' x2 pc' y2 pd' z2 sw'' xs'' xs3)
  then show ?case using partition_step [of cmp a pa pb pc sw xs pa' pb' sw' xs' pd pc' pd' sw'' xs''] by auto
qed simp

declare partition_loop.simps [simp del]

lemma partition_done: "pb > pc \<Longrightarrow> partition_loop cmp a pa pb pc pd sw xs = Some (pa, pb, pc, pd, sw, xs)"
  by (simp add: partition_loop.simps scan_up.simps [of cmp a pa pb] scan_down.simps [of cmp a pb pc])

lemma partition_bounds:
  "partition_loop cmp a pa pb pc pd sw xs = Some (pa', pb', pc', pd', sw', xs') \<Longrightarrow> pb \<le> Suc pc \<Longrightarrow>
    pa \<le> pa' \<and> pb' \<le> Suc pc \<and> pd' \<le> pd \<and> pb \<le> Suc pc'"
proof (induction cmp a pa pb pc pd sw xs rule: partition_loop.induct)
  case (1 cmp a pa pb pc pd sw xs)
  note p = "1.prems"(1) [unfolded partition_loop.simps [of cmp a pa pb pc pd sw xs]]
  obtain pa1 pb1 sw1 xs1 where u: "scan_up cmp a pa pb pc sw xs = Some (pa1, pb1, sw1, xs1)"
    using p by (auto split: option.splits)
  obtain pc1 pd1 sw2 xs2 where d: "scan_down cmp a pb1 pc pd sw1 xs1 = Some (pc1, pd1, sw2, xs2)"
    using p u by (auto split: option.splits)
  note ub = scan_up_bounds [OF u "1.prems"(2)]
  then have db: "pd1 \<le> pd" "pc1 \<le> pc" "pb1 \<le> Suc pc1" using scan_down_bounds [OF d] by auto
  show ?case
  proof (cases "pb1 > pc1")
    case True
    then show ?thesis using p u d ub db by auto
  next
    case False
    then obtain xs3 where w: "pc1 \<noteq> 0" "swap_at xs2 pb1 pc1 = Some xs3"
      "partition_loop cmp a pa1 (pb1 + 1) (pc1 - 1) pd1 True xs3 = Some (pa', pb', pc', pd', sw', xs')"
      using p u d by (auto split: option.splits if_splits)
    show ?thesis
    proof (cases "pb1 = pc1")
      case True
      then show ?thesis using w ub db by (auto simp: partition_done)
    next
      case neq: False
      with "1.IH" [OF u refl refl refl d refl refl refl False w(1,2,3)] show ?thesis using ub db False w(1) by auto
    qed
  qed
qed

section \<open>Quicksort\<close>

lemma part_smaller:
  assumes "partition_loop cmp a (a + 1) (a + 1) (a + (n - 1)) (a + (n - 1)) False xs = Some (pa, pb, pc, pd, sw, ys)" "\<not> n < 7"
  shows "pb - pa < n \<and> pd - pc < n"
  using partition_bounds [OF assms(1)] assms(2) by auto

function qsort :: "'a cmp_fun \<Rightarrow> nat \<Rightarrow> nat \<Rightarrow> nat \<Rightarrow> 'a list \<Rightarrow> 'a list option" where
  "qsort cmp es a n xs =
     (if n < 7 then insertion_sort cmp a n xs
      else
        (case Option.bind (choose_pivot cmp es a n xs) (swap_at xs a) of
           None \<Rightarrow> None
         | Some xs \<Rightarrow>
             (case partition_loop cmp a (a + 1) (a + 1) (a + (n - 1)) (a + (n - 1)) False xs of
                None \<Rightarrow> None
              | Some (pa, pb, pc, pd, swapped, xs) \<Rightarrow>
                  if \<not> swapped then insertion_sort cmp a n xs
                  else if \<not> (0 < es \<and> fits_int es \<and> fits_int ((pb - pa) * es) \<and> fits_int ((pd - pc) * es)) then None
                  else
                    let r1 = min (pa - a) (pb - pa);
                        r2 = min (pd - pc) (a + n - pd - 1) in
                    (case Option.bind (vecswap xs a (pb - r1) r1) (\<lambda>xs. vecswap xs pb (a + n - r2) r2) of
                       None \<Rightarrow> None
                     | Some xs \<Rightarrow>
                         (case if pb - pa > 1 then qsort cmp es a (pb - pa) xs else Some xs of
                            None \<Rightarrow> None
                          | Some xs \<Rightarrow>
                              if pd - pc > 1 then qsort cmp es (a + n - (pd - pc)) (pd - pc) xs else Some xs)))))"
  by pat_completeness auto
termination
proof (relation "measure (\<lambda>(cmp, es, a, n, xs). n)", goal_cases)
  case 1 then show ?case by simp
next
  case 2
  show ?case using part_smaller [OF 2(3) [folded 2(4-8)] 2(1)] by simp
next
  case 3
  show ?case using part_smaller [OF 3(3) [folded 3(4-8)] 3(1)] by simp
qed

declare qsort.simps [simp del]

end
