(* ===== verification/Qsort_Proof.thy ===== *)
theory Qsort_Proof
  imports Qsort
begin

text \<open>
  \<open>qsort\<close> sorts: with a comparison function that is a total preorder it ends with the elements of the
  range permuted into order and the rest of the array unchanged.
\<close>

section \<open>Orders and permutations of a range\<close>

text \<open>What the C library requires of a comparison function.\<close>

definition cmp_ok :: "'a cmp_fun \<Rightarrow> bool" where
  "cmp_ok cmp \<longleftrightarrow> (\<forall>x y. cmp x y < 0 \<longleftrightarrow> cmp y x > 0) \<and> (\<forall>x y z. cmp x y \<le> 0 \<longrightarrow> cmp y z \<le> 0 \<longrightarrow> cmp x z \<le> 0)"

lemma cmp_ok_flip: "cmp_ok cmp \<Longrightarrow> (cmp x y \<le> 0 \<longleftrightarrow> cmp y x \<ge> 0) \<and> (cmp x y < 0 \<longleftrightarrow> cmp y x > 0) \<and> (cmp x y = 0 \<longleftrightarrow> cmp y x = 0)"
  unfolding cmp_ok_def by (metis linorder_not_less order_le_less)

lemma cmp_ok_trans: "cmp_ok cmp \<Longrightarrow> cmp x y \<le> 0 \<Longrightarrow> cmp y z \<le> 0 \<Longrightarrow> cmp x z \<le> 0"
  unfolding cmp_ok_def by blast

definition sorted_in :: "'a cmp_fun \<Rightarrow> 'a list \<Rightarrow> nat \<Rightarrow> nat \<Rightarrow> bool" where
  "sorted_in cmp xs a b \<longleftrightarrow> (\<forall>i j. a \<le> i \<longrightarrow> i < j \<longrightarrow> j < b \<longrightarrow> cmp (xs ! i) (xs ! j) \<le> 0)"

definition all_in :: "('a \<Rightarrow> bool) \<Rightarrow> 'a list \<Rightarrow> nat \<Rightarrow> nat \<Rightarrow> bool" where
  "all_in P xs a b \<longleftrightarrow> (\<forall>i. a \<le> i \<longrightarrow> i < b \<longrightarrow> P (xs ! i))"

text \<open>A permutation of the elements from \<open>a\<close> to \<open>b\<close>.\<close>

definition perm_in :: "nat \<Rightarrow> nat \<Rightarrow> 'a list \<Rightarrow> 'a list \<Rightarrow> bool" where
  "perm_in a b xs ys \<longleftrightarrow> take a ys = take a xs \<and> drop b ys = drop b xs \<and> mset ys = mset xs"

lemma perm_in_refl [simp]: "perm_in a b xs xs"
  by (simp add: perm_in_def)

lemma perm_in_trans: "perm_in a b xs ys \<Longrightarrow> perm_in a b ys zs \<Longrightarrow> perm_in a b xs zs"
  by (simp add: perm_in_def)

lemma perm_in_length: "perm_in a b xs ys \<Longrightarrow> length ys = length xs"
  by (auto simp: perm_in_def dest: mset_eq_length)

lemma perm_in_mono:
  assumes "perm_in a b xs ys" "a' \<le> a" "b \<le> b'"
  shows "perm_in a' b' xs ys"
proof -
  have "take a' (take a ys) = take a' (take a xs)" "drop (b' - b) (drop b ys) = drop (b' - b) (drop b xs)"
    using assms(1) by (simp_all add: perm_in_def)
  then show ?thesis using assms by (simp add: perm_in_def min_def)
qed

lemma perm_in_nth: "perm_in a b xs ys \<Longrightarrow> i < length xs \<Longrightarrow> i < a \<or> b \<le> i \<Longrightarrow> ys ! i = xs ! i"
proof -
  assume p: "perm_in a b xs ys" and i: "i < length xs" "i < a \<or> b \<le> i"
  have t: "take a ys = take a xs" "drop b ys = drop b xs" "length ys = length xs"
    using p perm_in_length [OF p] by (simp_all add: perm_in_def)
  show "ys ! i = xs ! i"
  proof (cases "i < a")
    case True
    then have "take a ys ! i = take a xs ! i" using t(1) by simp
    then show ?thesis using True by simp
  next
    case False
    then have "drop b ys ! (i - b) = drop b xs ! (i - b)" "b \<le> i" using t(2) i by simp_all
    then show ?thesis using i t(3) by simp
  qed
qed

lemma perm_in_mset:
  assumes "perm_in a b xs ys" "a \<le> b"
  shows "mset (take (b - a) (drop a ys)) = mset (take (b - a) (drop a xs))"
proof -
  have s: "zs = take a zs @ take (b - a) (drop a zs) @ drop b zs" for zs :: "'a list"
    using assms(2) by (metis append_take_drop_id drop_drop le_add_diff_inverse2)
  have "mset ys = mset xs" "take a ys = take a xs" "drop b ys = drop b xs" using assms(1) by (simp_all add: perm_in_def)
  then show ?thesis using arg_cong [OF s [of ys], of mset] arg_cong [OF s [of xs], of mset]
    by simp
qed

lemma all_in_set: "b \<le> length xs \<Longrightarrow> all_in P xs a b \<longleftrightarrow> (\<forall>x\<in>set (take (b - a) (drop a xs)). P x)"
proof
  assume b: "b \<le> length xs" and p: "all_in P xs a b"
  show "\<forall>x\<in>set (take (b - a) (drop a xs)). P x"
    using b p by (auto simp: all_in_def in_set_conv_nth)
next
  assume b: "b \<le> length xs" and p: "\<forall>x\<in>set (take (b - a) (drop a xs)). P x"
  have "P (xs ! i)" if "a \<le> i" "i < b" for i
  proof -
    have "take (b - a) (drop a xs) ! (i - a) = xs ! i" "i - a < length (take (b - a) (drop a xs))" using that b by simp_all
    then show ?thesis using p by (metis nth_mem)
  qed
  then show "all_in P xs a b" by (simp add: all_in_def)
qed

lemma perm_in_all:
  assumes "perm_in a b xs ys" "b \<le> length xs"
  shows "all_in P ys a b = all_in P xs a b"
proof (cases "a \<le> b")
  case True
  have "set (take (b - a) (drop a ys)) = set (take (b - a) (drop a xs))"
    using perm_in_mset [OF assms(1) True] by (metis set_mset_mset)
  then show ?thesis using all_in_set [of b ys P a] all_in_set [of b xs P a] assms perm_in_length [OF assms(1)] by simp
qed (simp add: all_in_def)

lemma swap_perm:
  assumes "a \<le> i" "i < b" "a \<le> j" "j < b" "b \<le> length xs"
  shows "perm_in a b xs (xs[i := xs ! j, j := xs ! i])"
  using assms by (simp add: perm_in_def mset_swap)

lemma perm_in_all_outside:
  assumes "perm_in a b xs ys" "d \<le> length xs" "d \<le> a \<or> b \<le> c"
  shows "all_in P ys c d = all_in P xs c d"
  using assms perm_in_nth [OF assms(1)] by (auto simp: all_in_def)

section \<open>Insertion sort\<close>

text \<open>Only the element at \<open>pl\<close> may be too small for its place.\<close>

definition sorted_but :: "'a cmp_fun \<Rightarrow> 'a list \<Rightarrow> nat \<Rightarrow> nat \<Rightarrow> nat \<Rightarrow> bool" where
  "sorted_but cmp xs a pl b \<longleftrightarrow> (\<forall>i j. a \<le> i \<longrightarrow> i < j \<longrightarrow> j < b \<longrightarrow> j \<noteq> pl \<longrightarrow> cmp (xs ! i) (xs ! j) \<le> 0)"

lemma sorted_but_swap:
  assumes c: "cmp_ok cmp" and s: "sorted_but cmp xs a pl b" and pl: "a < pl" "pl < b" "b \<le> length xs"
    and r: "cmp (xs ! (pl - 1)) (xs ! pl) > 0"
  shows "sorted_but cmp (xs[pl := xs ! (pl - 1), pl - 1 := xs ! pl]) a (pl - 1) b"
  unfolding sorted_but_def
proof (intro allI impI)
  fix i j assume ij: "a \<le> i" "i < j" "j < b" "j \<noteq> pl - 1"
  have s': "cmp (xs ! i) (xs ! j) \<le> 0" if "a \<le> i" "i < j" "j < b" "j \<noteq> pl" for i j
    using s that by (simp add: sorted_but_def)
  have n: "xs[pl := xs ! (pl - 1), pl - 1 := xs ! pl] ! k =
      (if k = pl - 1 then xs ! pl else if k = pl then xs ! (pl - 1) else xs ! k)" if "k < b" for k
    using that pl by (simp add: nth_list_update)
  have r': "cmp (xs ! pl) (xs ! (pl - 1)) \<le> 0" using r cmp_ok_flip [OF c, of "xs ! pl" "xs ! (pl - 1)"] by simp
  have ib: "i < b" using ij by simp
  show "cmp (xs[pl := xs ! (pl - 1), pl - 1 := xs ! pl] ! i) (xs[pl := xs ! (pl - 1), pl - 1 := xs ! pl] ! j) \<le> 0"
    unfolding n [OF ij(3)] n [OF ib]
    using ij pl r' s' [of pl j] s' [of "pl - 1" j] s' [of i "pl - 1"] s' [of i j] by (cases "j = pl") auto
qed

lemma insert_loop_ok:
  assumes "cmp_ok cmp" "a \<le> pl" "pl < b" "b \<le> length xs" "sorted_but cmp xs a pl b"
  shows "\<exists>ys. insert_loop cmp a pl xs = Some ys \<and> perm_in a b xs ys \<and> sorted_in cmp ys a b"
  using assms(2-)
proof (induction pl arbitrary: xs)
  case 0
  then show ?case by (auto simp: insert_loop.simps sorted_but_def sorted_in_def)
next
  case (Suc pl)
  show ?case
  proof (cases "Suc pl = a")
    case True
    then show ?thesis using Suc.prems by (auto simp: insert_loop.simps sorted_but_def sorted_in_def)
  next
    case False
    then have a: "a < Suc pl" "a \<le> pl" using Suc.prems(1) by simp_all
    show ?thesis
    proof (cases "cmp (xs ! pl) (xs ! Suc pl) > 0")
      case True
      let ?ys = "xs[Suc pl := xs ! pl, pl := xs ! Suc pl]"
      have p: "perm_in a b xs ?ys" using Suc.prems a by (intro swap_perm) simp_all
      have s: "sorted_but cmp ?ys a pl b" using sorted_but_swap [OF assms(1) Suc.prems(4) a(1) Suc.prems(2,3)] True by simp
      obtain zs where "insert_loop cmp a pl ?ys = Some zs" "perm_in a b ?ys zs" "sorted_in cmp zs a b"
        using Suc.IH [of ?ys] s a Suc.prems by auto
      then show ?thesis using p True a Suc.prems
        by (auto simp: insert_loop.simps [of cmp a "Suc pl"] cmp_at_def swap_at_def intro: perm_in_trans)
    next
      case False
      have "cmp (xs ! i) (xs ! Suc pl) \<le> 0" if "a \<le> i" "i < Suc pl" for i
      proof (cases "i = pl")
        case True
        then show ?thesis using False by simp
      next
        case i: False
        then have "cmp (xs ! i) (xs ! pl) \<le> 0" using Suc.prems that by (simp add: sorted_but_def)
        then show ?thesis using False cmp_ok_trans [OF assms(1)] by (meson linorder_not_less)
      qed
      then have "sorted_in cmp xs a b" using Suc.prems(4) by (auto simp: sorted_but_def sorted_in_def)
      then show ?thesis using False a Suc.prems
        by (auto simp: insert_loop.simps [of cmp a "Suc pl"] cmp_at_def)
    qed
  qed
qed

lemma insert_all_ok:
  assumes "cmp_ok cmp" "a < m" "m + k \<le> length xs" "sorted_in cmp xs a m"
  shows "\<exists>ys. insert_all cmp a [m..<m + k] xs = Some ys \<and> perm_in a (m + k) xs ys \<and> sorted_in cmp ys a (m + k)"
  using assms(2-)
proof (induction k arbitrary: m xs)
  case 0
  then show ?case by simp
next
  case (Suc k)
  have "sorted_but cmp xs a m (Suc m)" using Suc.prems(3) by (auto simp: sorted_but_def sorted_in_def less_Suc_eq)
  then obtain ys where y: "insert_loop cmp a m xs = Some ys" "perm_in a (Suc m) xs ys" "sorted_in cmp ys a (Suc m)"
    using insert_loop_ok [OF assms(1), of a m "Suc m" xs] Suc.prems by auto
  have l: "length ys = length xs" by (rule perm_in_length [OF y(2)])
  obtain zs where z: "insert_all cmp a [Suc m..<Suc m + k] ys = Some zs" "perm_in a (Suc m + k) ys zs" "sorted_in cmp zs a (Suc m + k)"
    using Suc.IH [of "Suc m" ys] y(3) l Suc.prems by auto
  have "perm_in a (Suc m + k) xs zs" using perm_in_trans [OF perm_in_mono [OF y(2)] z(2)] by simp
  moreover have "[m..<m + Suc k] = m # [Suc m..<Suc m + k]" by (simp add: upt_rec del: upt_Suc)
  ultimately show ?case using y(1) z by (simp del: upt_Suc)
qed

lemma insertion_sort_ok:
  assumes "cmp_ok cmp" "a + n \<le> length xs"
  shows "\<exists>ys. insertion_sort cmp a n xs = Some ys \<and> perm_in a (a + n) xs ys \<and> sorted_in cmp ys a (a + n)"
proof (cases n)
  case 0
  then show ?thesis by (simp add: insertion_sort_def sorted_in_def)
next
  case (Suc k)
  have "sorted_in cmp xs a (a + 1)" by (auto simp: sorted_in_def)
  then show ?thesis using insert_all_ok [OF assms(1), of a "a + 1" k xs] assms(2) Suc by (simp add: insertion_sort_def)
qed

section \<open>Partition\<close>

text \<open>
  The invariant of the partition around the pivot, the first element of the range from \<open>a\<close> to \<open>e\<close>: equal
  elements at both ends, then the smaller ones up to \<open>pb\<close> and the larger ones from \<open>pc\<close> on.
\<close>

definition part_inv :: "'a cmp_fun \<Rightarrow> nat \<Rightarrow> nat \<Rightarrow> nat \<Rightarrow> nat \<Rightarrow> nat \<Rightarrow> nat \<Rightarrow> 'a list \<Rightarrow> bool" where
  "part_inv cmp a e pa pb pc pd xs \<longleftrightarrow> a < pa \<and> pa \<le> pb \<and> pb \<le> Suc pc \<and> pc \<le> pd \<and> pd < e \<and> e \<le> length xs \<and>
     all_in (\<lambda>x. cmp x (xs ! a) = 0) xs (Suc a) pa \<and> all_in (\<lambda>x. cmp x (xs ! a) < 0) xs pa pb \<and>
     all_in (\<lambda>x. cmp x (xs ! a) > 0) xs (Suc pc) (Suc pd) \<and> all_in (\<lambda>x. cmp x (xs ! a) = 0) xs (Suc pd) e"

lemma swap_nth: "i < length xs \<Longrightarrow> j < length xs \<Longrightarrow> k < length xs \<Longrightarrow>
    xs[i := xs ! j, j := xs ! i] ! k = (if k = j then xs ! i else if k = i then xs ! j else xs ! k)"
  by (simp add: nth_list_update)

lemma scan_up_ok:
  assumes "part_inv cmp a e pa pb pc pd xs"
  shows "\<exists>pa' pb' sw' ys. scan_up cmp a pa pb pc sw xs = Some (pa', pb', sw', ys) \<and>
    part_inv cmp a e pa' pb' pc pd ys \<and> perm_in (Suc a) e xs ys \<and>
    (pb' \<le> pc \<longrightarrow> cmp (ys ! pb') (ys ! a) > 0)"
  using assms
proof (induction "Suc pc - pb" arbitrary: pa pb sw xs rule: less_induct)
  case less
  note inv = less.prems [unfolded part_inv_def]
  show ?case
  proof (cases "pb \<le> pc \<and> cmp (xs ! pb) (xs ! a) \<le> 0")
    case False
    then show ?thesis using less.prems inv
      by (auto simp: scan_up.simps [of cmp a pa pb] cmp_at_def)
  next
    case True
    show ?thesis
    proof (cases "cmp (xs ! pb) (xs ! a) = 0")
      case eq: True
      let ?ys = "xs[pa := xs ! pb, pb := xs ! pa]"
      have l: "pa < length xs" "pb < length xs" "a < length xs" using inv True by auto
      have n: "?ys ! k = (if k = pb then xs ! pa else if k = pa then xs ! pb else xs ! k)" if "k < length xs" for k
        using swap_nth [OF l(1,2) that] .
      have a: "?ys ! a = xs ! a" using n [OF l(3)] inv by auto
      have "part_inv cmp a e (Suc pa) (Suc pb) pc pd ?ys"
        unfolding part_inv_def a using inv True eq l
        by (auto simp: all_in_def n)
      moreover have "perm_in (Suc a) e xs ?ys" using inv True by (intro swap_perm) auto
      moreover have "Suc pc - Suc pb < Suc pc - pb" using True by linarith
      ultimately obtain pa' pb' sw' zs where "scan_up cmp a (Suc pa) (Suc pb) pc True ?ys = Some (pa', pb', sw', zs)"
        "part_inv cmp a e pa' pb' pc pd zs" "perm_in (Suc a) e xs zs" "pb' \<le> pc \<longrightarrow> cmp (zs ! pb') (zs ! a) > 0"
        using less.hyps [of "Suc pb" "Suc pa" ?ys True] perm_in_trans by blast
      then show ?thesis using True eq l by (auto simp: scan_up.simps [of cmp a pa pb] cmp_at_def swap_at_def)
    next
      case neq: False
      have "part_inv cmp a e pa (Suc pb) pc pd xs"
        unfolding part_inv_def using inv True neq by (auto simp: all_in_def less_Suc_eq)
      then show ?thesis using less.hyps [of "Suc pb" pa xs sw] True neq inv
        by (auto simp: scan_up.simps [of cmp a pa pb] cmp_at_def)
    qed
  qed
qed

lemma scan_down_ok:
  assumes "part_inv cmp a e pa pb pc pd xs"
  shows "\<exists>pc' pd' sw' ys. scan_down cmp a pb pc pd sw xs = Some (pc', pd', sw', ys) \<and>
    part_inv cmp a e pa pb pc' pd' ys \<and> perm_in (Suc a) e xs ys \<and> pc' \<le> pc \<and> (pb \<le> pc' \<longrightarrow> ys ! pb = xs ! pb) \<and>
    (pb \<le> pc' \<longrightarrow> cmp (ys ! pc') (ys ! a) < 0)"
  using assms
proof (induction pc arbitrary: pd sw xs)
  case 0
  then show ?case by (auto simp: scan_down.simps part_inv_def)
next
  case (Suc pc)
  note inv = Suc.prems [unfolded part_inv_def]
  show ?case
  proof (cases "pb \<le> Suc pc \<and> cmp (xs ! Suc pc) (xs ! a) \<ge> 0")
    case False
    then show ?thesis using Suc.prems inv
      by (auto simp: scan_down.simps [of cmp a pb "Suc pc"] cmp_at_def)
  next
    case True
    show ?thesis
    proof (cases "cmp (xs ! Suc pc) (xs ! a) = 0")
      case eq: True
      let ?ys = "xs[Suc pc := xs ! pd, pd := xs ! Suc pc]"
      have l: "Suc pc < length xs" "pd < length xs" "a < length xs" using inv True by auto
      have n: "?ys ! k = (if k = pd then xs ! Suc pc else if k = Suc pc then xs ! pd else xs ! k)" if "k < length xs" for k
        using swap_nth [OF l(1,2) that] .
      have a: "?ys ! a = xs ! a" using n [OF l(3)] inv True by auto
      have p: "part_inv cmp a e pa pb pc (pd - 1) ?ys"
        unfolding part_inv_def a using inv True eq l by (auto simp: all_in_def nth_list_update)
      have q: "perm_in (Suc a) e xs ?ys" using inv True by (intro swap_perm) auto
      have b: "?ys ! pb = xs ! pb" if "pb \<le> pc" using n [of pb] that inv by auto
      obtain pc' pd' sw' zs where "scan_down cmp a pb pc (pd - 1) True ?ys = Some (pc', pd', sw', zs)"
        "part_inv cmp a e pa pb pc' pd' zs" "perm_in (Suc a) e ?ys zs" "pc' \<le> pc" "pb \<le> pc' \<longrightarrow> zs ! pb = ?ys ! pb"
        "pb \<le> pc' \<longrightarrow> cmp (zs ! pc') (zs ! a) < 0"
        using Suc.IH [OF p, of True] by blast
      then show ?thesis using True eq l b perm_in_trans [OF q]
        by (auto simp: scan_down.simps [of cmp a pb "Suc pc"] cmp_at_def swap_at_def)
    next
      case neq: False
      have "0 < cmp (xs ! i) (xs ! a)" if "Suc pc \<le> i" "i < Suc pd" for i
        using inv True neq that by (cases "i = Suc pc") (auto simp: all_in_def)
      then have "all_in (\<lambda>x. cmp x (xs ! a) > 0) xs (Suc pc) (Suc pd)" by (simp add: all_in_def)
      then have p: "part_inv cmp a e pa pb pc pd xs"
        unfolding part_inv_def using inv True by auto
      obtain pc' pd' sw' zs where "scan_down cmp a pb pc pd sw xs = Some (pc', pd', sw', zs)"
        "part_inv cmp a e pa pb pc' pd' zs" "perm_in (Suc a) e xs zs" "pc' \<le> pc" "pb \<le> pc' \<longrightarrow> zs ! pb = xs ! pb"
        "pb \<le> pc' \<longrightarrow> cmp (zs ! pc') (zs ! a) < 0"
        using Suc.IH [OF p, of sw] by blast
      then show ?thesis using True neq inv by (auto simp: scan_down.simps [of cmp a pb "Suc pc"] cmp_at_def)
    qed
  qed
qed

lemma partition_ok:
  assumes c: "cmp_ok cmp" and "part_inv cmp a e pa pb pc pd xs"
  shows "\<exists>pa' pb' pc' pd' sw' ys. partition_loop cmp a pa pb pc pd sw xs = Some (pa', pb', pc', pd', sw', ys) \<and>
    part_inv cmp a e pa' pb' pc' pd' ys \<and> perm_in (Suc a) e xs ys \<and> pb' = Suc pc'"
  using assms(2)
proof (induction "Suc pc - pb" arbitrary: pa pb pc pd sw xs rule: less_induct)
  case less
  obtain pa1 pb1 sw1 xs1 where u: "scan_up cmp a pa pb pc sw xs = Some (pa1, pb1, sw1, xs1)"
    "part_inv cmp a e pa1 pb1 pc pd xs1" "perm_in (Suc a) e xs xs1" "pb1 \<le> pc \<longrightarrow> cmp (xs1 ! pb1) (xs1 ! a) > 0"
    using scan_up_ok [OF less.prems] by blast
  obtain pc1 pd1 sw2 xs2 where d: "scan_down cmp a pb1 pc pd sw1 xs1 = Some (pc1, pd1, sw2, xs2)"
    "part_inv cmp a e pa1 pb1 pc1 pd1 xs2" "perm_in (Suc a) e xs1 xs2" "pc1 \<le> pc"
    "pb1 \<le> pc1 \<longrightarrow> xs2 ! pb1 = xs1 ! pb1" "pb1 \<le> pc1 \<longrightarrow> cmp (xs2 ! pc1) (xs2 ! a) < 0"
    using scan_down_ok [OF u(2), of sw1] by blast
  have p: "perm_in (Suc a) e xs xs2" using u(3) d(3) by (rule perm_in_trans)
  note inv = d(2) [unfolded part_inv_def]
  show ?case
  proof (cases "pb1 > pc1")
    case True
    then show ?thesis using u(1) d(1,2) p inv by (auto simp: partition_loop.simps [of cmp a pa pb])
  next
    case False
    let ?ys = "xs2[pb1 := xs2 ! pc1, pc1 := xs2 ! pb1]"
    have l: "pb1 < length xs2" "pc1 < length xs2" "a < length xs2" "a < pb1" using inv False by auto
    have "a < length xs1" "xs2 ! a = xs1 ! a"
      using perm_in_length [OF d(3)] perm_in_nth [OF d(3), of a] l(3) by simp_all
    then have up: "cmp (xs2 ! pb1) (xs2 ! a) > 0" and dn: "cmp (xs2 ! pc1) (xs2 ! a) < 0"
      using u(4) d False by auto
    then have ne: "pb1 < pc1" using False by (cases "pb1 = pc1") auto
    have a: "?ys ! a = xs2 ! a" using l False by (simp add: nth_list_update)
    have i: "part_inv cmp a e pa1 (pb1 + 1) (pc1 - 1) pd1 ?ys"
      unfolding part_inv_def a using inv ne l up dn by (auto simp: all_in_def nth_list_update)
    have q: "perm_in (Suc a) e xs2 ?ys" using inv ne by (intro swap_perm) auto
    have m: "Suc (pc1 - 1) - (pb1 + 1) < Suc pc - pb"
      using ne d(4) scan_up_bounds [OF u(1)] less.prems by (auto simp: part_inv_def)
    obtain pa' pb' pc' pd' sw' zs where "partition_loop cmp a pa1 (pb1 + 1) (pc1 - 1) pd1 True ?ys = Some (pa', pb', pc', pd', sw', zs)"
      "part_inv cmp a e pa' pb' pc' pd' zs" "perm_in (Suc a) e ?ys zs" "pb' = Suc pc'"
      using less.hyps [OF m i] by blast
    then show ?thesis using u(1) d(1) l ne perm_in_trans [OF perm_in_trans [OF p q]]
      by (auto simp: partition_loop.simps [of cmp a pa pb] swap_at_def)
  qed
qed

section \<open>Moving the equal elements to the middle\<close>

lemma vecswap_ok:
  assumes "i + n \<le> j" "j + n \<le> length xs"
  shows "\<exists>ys. vecswap xs i j n = Some ys \<and> length ys = length xs \<and> mset ys = mset xs \<and>
    (\<forall>k<length xs. ys ! k = (if i \<le> k \<and> k < i + n then xs ! (j + (k - i)) else
      if j \<le> k \<and> k < j + n then xs ! (i + (k - j)) else xs ! k))"
  using assms
proof (induction n arbitrary: i j xs)
  case 0 then show ?case by auto
next
  case (Suc n)
  let ?xs = "xs[i := xs ! j, j := xs ! i]"
  have l: "i < length xs" "j < length xs" "i < j" using Suc.prems by auto
  obtain ys where y: "vecswap ?xs (i + 1) (j + 1) n = Some ys" "length ys = length ?xs" "mset ys = mset ?xs"
    "\<And>k. k < length xs \<Longrightarrow> ys ! k = (if i + 1 \<le> k \<and> k < i + 1 + n then ?xs ! (j + 1 + (k - (i + 1))) else
      if j + 1 \<le> k \<and> k < j + 1 + n then ?xs ! (i + 1 + (k - (j + 1))) else ?xs ! k)"
    using Suc.IH [of "i + 1" "j + 1" ?xs] Suc.prems by auto
  have "ys ! k = (if i \<le> k \<and> k < i + Suc n then xs ! (j + (k - i)) else
      if j \<le> k \<and> k < j + Suc n then xs ! (i + (k - j)) else xs ! k)" if k: "k < length xs" for k
  proof -
    have e: "Suc i \<le> k \<Longrightarrow> j + 1 + (k - (i + 1)) = j + (k - i)" "Suc j \<le> k \<Longrightarrow> i + 1 + (k - (j + 1)) = i + (k - j)"
      by arith+
    consider "k = i" | "k = j" | "Suc i \<le> k" "k < i + Suc n" | "Suc j \<le> k" "k < j + Suc n"
      | "k < i" | "i + Suc n \<le> k" "k < j" | "j + Suc n \<le> k" by arith
    then show ?thesis unfolding y(4) [OF k] using l k Suc.prems e by cases (simp_all add: nth_list_update)
  qed
  moreover have "mset ?xs = mset xs" using l by (simp add: mset_swap)
  ultimately show ?case using y l by (auto simp: swap_at_def)
qed

text \<open>Exchanging the ends of two neighbouring runs turns them round.\<close>

lemma turn_runs:
  assumes b: "a \<le> pa" "pa \<le> pb" "pb \<le> length xs" and p: "all_in P xs a pa" "all_in Q xs pa pb"
    and r: "r = min (pa - a) (pb - pa)"
  shows "\<exists>ys. vecswap xs a (pb - r) r = Some ys \<and> perm_in a pb xs ys \<and>
    all_in Q ys a (a + (pb - pa)) \<and> all_in P ys (a + (pb - pa)) pb"
proof -
  have r2: "a + r \<le> pb - r" "pb - r + r = pb" using b r by (simp_all add: min_def split: if_splits)
  obtain ys where y: "vecswap xs a (pb - r) r = Some ys" "length ys = length xs" "mset ys = mset xs"
    "\<And>k. k < length xs \<Longrightarrow> ys ! k = (if a \<le> k \<and> k < a + r then xs ! (pb - r + (k - a)) else
      if pb - r \<le> k \<and> k < pb then xs ! (a + (k - (pb - r))) else xs ! k)"
    using vecswap_ok [of a r "pb - r" xs] r2 b by auto
  have "take a ys = take a xs" using y(2,4) b r2 by (intro nth_equalityI) auto
  moreover have "drop pb ys = drop pb xs" using y(2,4) b r2 by (intro nth_equalityI) auto
  ultimately have "perm_in a pb xs ys" using y(3) by (simp add: perm_in_def)
  moreover have "Q (ys ! k)" if k: "a \<le> k" "k < a + (pb - pa)" for k
  proof (cases "k < a + r")
    case True
    then have "pa \<le> pb - r + (k - a)" "pb - r + (k - a) < pb" using k r b by (auto simp: min_def split: if_splits)
    then show ?thesis using y(4) [of k] True k b p(2) by (auto simp: all_in_def)
  next
    case False
    then have "pa \<le> k" "k < pb - r" using k r b by (auto simp: min_def split: if_splits)
    then show ?thesis using y(4) [of k] False k b p(2) by (auto simp: all_in_def)
  qed
  moreover have "P (ys ! k)" if k: "a + (pb - pa) \<le> k" "k < pb" for k
  proof (cases "pb - r \<le> k")
    case True
    then have "a \<le> a + (k - (pb - r))" "a + (k - (pb - r)) < pa" "\<not> k < a + r" using k r b by (auto simp: min_def split: if_splits)
    then show ?thesis using y(4) [of k] True k b p(1) by (auto simp: all_in_def)
  next
    case False
    then have "a \<le> k" "k < pa" "\<not> k < a + r" using k r b by (auto simp: min_def split: if_splits)
    then show ?thesis using y(4) [of k] False k b p(1) by (auto simp: all_in_def)
  qed
  ultimately show ?thesis using y(1) by (auto simp: all_in_def)
qed

lemma sorted_join:
  assumes c: "cmp_ok cmp" and s: "sorted_in cmp xs a l" "sorted_in cmp xs h e"
    and p: "all_in (\<lambda>x. cmp x v < 0) xs a l" "all_in (\<lambda>x. cmp x v = 0) xs l h" "all_in (\<lambda>x. cmp x v > 0) xs h e"
  shows "sorted_in cmp xs a e"
  unfolding sorted_in_def
proof (intro allI impI)
  fix i j assume ij: "a \<le> i" "i < j" "j < e"
  show "cmp (xs ! i) (xs ! j) \<le> 0"
  proof (cases "j < l \<or> h \<le> i")
    case True
    then show ?thesis using s ij by (auto simp: sorted_in_def)
  next
    case False
    have "cmp (xs ! i) v \<le> 0" using p(1,2) ij False by (cases "i < l") (auto simp: all_in_def)
    moreover have "cmp (xs ! j) v \<ge> 0" using p(2,3) ij False by (cases "j < h") (auto simp: all_in_def intro: less_imp_le)
    then have "cmp v (xs ! j) \<le> 0" using cmp_ok_flip [OF c, of v "xs ! j"] by simp
    ultimately show ?thesis by (rule cmp_ok_trans [OF c])
  qed
qed

lemma sorted_in_outside:
  assumes "perm_in c d xs ys" "b \<le> length xs" "b \<le> c \<or> d \<le> a"
  shows "sorted_in cmp ys a b = sorted_in cmp xs a b"
proof -
  have "ys ! i = xs ! i" if "a \<le> i" "i < b" for i using perm_in_nth [OF assms(1), of i] that assms(2,3) by auto
  then show ?thesis by (simp add: sorted_in_def)
qed

section \<open>The sort\<close>

lemma med3_in: "a \<in> A \<Longrightarrow> b \<in> A \<Longrightarrow> c \<in> A \<Longrightarrow> A \<subseteq> {..<length xs} \<Longrightarrow> \<exists>m\<in>A. med3 cmp xs a b c = Some m"
  by (auto simp: med3_def cmp_at_def)

lemma choose_pivot_in:
  assumes "0 < n" "a + n \<le> length xs" "fits_int (n * es)"
  shows "\<exists>pm\<in>{a..<a + n}. choose_pivot cmp es a n xs = Some pm"
proof -
  let ?A = "{a..<a + n}" and ?d = "n div 8"
  have A: "?A \<subseteq> {..<length xs}" using assms(2) by auto
  have "2 * ?d \<le> n" by presburger
  then have d: "2 * (?d * es) \<le> n * es" using mult_le_mono1 [of "2 * ?d" n es] by (simp only: mult.assoc)
  then have f: "fits_int (2 * (?d * es))" using assms(3) unfolding fits_int_def by (rule le_less_trans)
  have m: "a + n div 2 \<in> ?A" "a \<in> ?A" "a + (n - 1) \<in> ?A" using assms(1) by auto
  have k: "a + ?d \<in> ?A" "a + 2 * ?d \<in> ?A" "a + n div 2 - ?d \<in> ?A" "a + n div 2 + ?d \<in> ?A"
    "a + (n - 1) - 2 * ?d \<in> ?A" "a + (n - 1) - ?d \<in> ?A" if "n > 40" using that by auto
  obtain x where x: "x \<in> ?A" "med3 cmp xs a (a + n div 2) (a + (n - 1)) = Some x" using med3_in [OF m(2,1,3) A] by blast
  show ?thesis
  proof (cases "n > 40")
    case True
    obtain u where u: "u \<in> ?A" "med3 cmp xs a (a + ?d) (a + 2 * ?d) = Some u" using med3_in [OF m(2) k(1,2) [OF True] A] by blast
    obtain v where v: "v \<in> ?A" "med3 cmp xs (a + n div 2 - ?d) (a + n div 2) (a + n div 2 + ?d) = Some v"
      using med3_in [OF k(3) [OF True] m(1) k(4) [OF True] A] by blast
    obtain w where w: "w \<in> ?A" "med3 cmp xs (a + (n - 1) - 2 * ?d) (a + (n - 1) - ?d) (a + (n - 1)) = Some w"
      using med3_in [OF k(5,6) [OF True] m(3) A] by blast
    show ?thesis using med3_in [OF u(1) v(1) w(1) A, of cmp] True f u v w by (simp add: choose_pivot_def Let_def)
  next
    case False
    then show ?thesis using x m(1) by (auto simp: choose_pivot_def Let_def)
  qed
qed

text \<open>What a call of \<open>qsort\<close> does with a range.\<close>

definition sorts :: "'a cmp_fun \<Rightarrow> nat \<Rightarrow> nat \<Rightarrow> 'a list \<Rightarrow> 'a list option \<Rightarrow> bool" where
  "sorts cmp a e xs r \<longleftrightarrow> (\<exists>ys. r = Some ys \<and> perm_in a e xs ys \<and> sorted_in cmp ys a e)"

lemma sort_runs:
  assumes c: "cmp_ok cmp" and inv: "part_inv cmp a e pa (Suc pc) pc pd xs"
    and r: "r1 = min (pa - a) (Suc pc - pa)" "r2 = min (pd - pc) (e - pd - 1)"
    and qs: "\<And>ys. length ys = length xs \<Longrightarrow> sorts cmp a (a + (Suc pc - pa)) ys (f ys)"
      "\<And>ys. length ys = length xs \<Longrightarrow> sorts cmp (e - (pd - pc)) e ys (g ys)"
  shows "sorts cmp a e xs (case Option.bind (vecswap xs a (Suc pc - r1) r1) (\<lambda>xs. vecswap xs (Suc pc) (e - r2) r2) of
      None \<Rightarrow> None | Some xs \<Rightarrow> (case f xs of None \<Rightarrow> None | Some xs \<Rightarrow> g xs))"
proof -
  let ?v = "xs ! a" and ?l = "a + (Suc pc - pa)" and ?h = "e - (pd - pc)"
  note i = inv [unfolded part_inv_def]
  have refl: "cmp ?v ?v = 0" using cmp_ok_flip [OF c, of ?v ?v] by linarith
  have "cmp (xs ! k) ?v = 0" if "a \<le> k" "k < pa" for k
    using refl i that by (cases "k = a") (auto simp: all_in_def)
  then have eq: "all_in (\<lambda>x. cmp x ?v = 0) xs a pa" by (simp add: all_in_def)
  obtain xs1 where 1: "vecswap xs a (Suc pc - r1) r1 = Some xs1" "perm_in a (Suc pc) xs xs1"
    "all_in (\<lambda>x. cmp x ?v < 0) xs1 a ?l" "all_in (\<lambda>x. cmp x ?v = 0) xs1 ?l (Suc pc)"
    using turn_runs [OF _ _ _ eq _ r(1)] i by auto
  have l1: "length xs1 = length xs" by (rule perm_in_length [OF 1(2)])
  have ab: "all_in (\<lambda>x. cmp x ?v > 0) xs1 (Suc pc) (Suc pd)" "all_in (\<lambda>x. cmp x ?v = 0) xs1 (Suc pd) e"
    using i perm_in_all_outside [OF 1(2), of "Suc pd" "Suc pc"] perm_in_all_outside [OF 1(2), of e "Suc pd"] by auto
  have rr: "r2 = min (Suc pd - Suc pc) (e - Suc pd)" "Suc pc + (e - Suc pd) = ?h" using r(2) i by auto
  obtain xs2 where 2: "vecswap xs1 (Suc pc) (e - r2) r2 = Some xs2" "perm_in (Suc pc) e xs1 xs2"
    "all_in (\<lambda>x. cmp x ?v = 0) xs2 (Suc pc) ?h" "all_in (\<lambda>x. cmp x ?v > 0) xs2 ?h e"
    using turn_runs [OF _ _ _ ab rr(1)] i l1 unfolding rr(2) by auto
  have l2: "length xs2 = length xs" using perm_in_length [OF 2(2)] l1 by simp
  have b: "?l \<le> Suc pc" "Suc pc \<le> ?h" "?h \<le> e" "e \<le> length xs" "a \<le> ?l" using i by auto
  have m: "all_in (\<lambda>x. cmp x ?v < 0) xs2 a ?l" "all_in (\<lambda>x. cmp x ?v = 0) xs2 ?l ?h"
  proof -
    show "all_in (\<lambda>x. cmp x ?v < 0) xs2 a ?l" using 1(3) perm_in_all_outside [OF 2(2), of ?l a] b l1 by auto
    have "all_in (\<lambda>x. cmp x ?v = 0) xs2 ?l (Suc pc)" using 1(4) perm_in_all_outside [OF 2(2), of "Suc pc" ?l] b l1 by auto
    then show "all_in (\<lambda>x. cmp x ?v = 0) xs2 ?l ?h" using 2(3) unfolding all_in_def by (meson linorder_not_less)
  qed
  obtain xs3 where 3: "f xs2 = Some xs3" "perm_in a ?l xs2 xs3" "sorted_in cmp xs3 a ?l"
    using qs(1) [OF l2] by (auto simp: sorts_def)
  have l3: "length xs3 = length xs" using perm_in_length [OF 3(2)] l2 by simp
  have m3: "all_in (\<lambda>x. cmp x ?v < 0) xs3 a ?l" "all_in (\<lambda>x. cmp x ?v = 0) xs3 ?l ?h" "all_in (\<lambda>x. cmp x ?v > 0) xs3 ?h e"
    using m 2(4) perm_in_all [OF 3(2)] perm_in_all_outside [OF 3(2), of ?h ?l] perm_in_all_outside [OF 3(2), of e ?h] b l2 by auto
  obtain xs4 where 4: "g xs3 = Some xs4" "perm_in ?h e xs3 xs4" "sorted_in cmp xs4 ?h e"
    using qs(2) [OF l3] by (auto simp: sorts_def)
  have m4: "all_in (\<lambda>x. cmp x ?v < 0) xs4 a ?l" "all_in (\<lambda>x. cmp x ?v = 0) xs4 ?l ?h" "all_in (\<lambda>x. cmp x ?v > 0) xs4 ?h e"
    using m3 perm_in_all [OF 4(2)] perm_in_all_outside [OF 4(2), of ?l a] perm_in_all_outside [OF 4(2), of ?h ?l] b l3 by auto
  have "sorted_in cmp xs4 a ?l" using sorted_in_outside [OF 4(2), of ?l a] 3(3) b l3 by auto
  then have "sorted_in cmp xs4 a e" using sorted_join [OF c _ 4(3) m4] by blast
  moreover have "perm_in a e xs xs4"
    using perm_in_mono [OF 1(2), of a e] perm_in_mono [OF 2(2), of a e] perm_in_mono [OF 3(2), of a e] perm_in_mono [OF 4(2), of a e] b
    by (meson le_trans order_refl perm_in_trans)
  ultimately show ?thesis using 1(1) 2(1) 3(1) 4(1) by (simp add: sorts_def)
qed

lemma sorts_short: "e \<le> a + 1 \<Longrightarrow> sorts cmp a e xs (Some xs)"
  by (auto simp: sorts_def sorted_in_def)

lemma sorts_perm:
  assumes "perm_in a e xs ys" "sorts cmp a e ys r"
  shows "sorts cmp a e xs r"
  using assms perm_in_trans by (auto simp: sorts_def)

theorem qsort_sorts:
  assumes "cmp_ok cmp" "0 < es"
  shows "a + n \<le> length xs \<Longrightarrow> fits_int (n * es) \<Longrightarrow> sorts cmp a (a + n) xs (qsort cmp es a n xs)"
proof (induction n arbitrary: a xs rule: less_induct)
  case (less n)
  have ins: "sorts cmp a (a + n) ys (insertion_sort cmp a n ys)" if "length ys = length xs" for ys
    using insertion_sort_ok [OF assms(1), of a n ys] less.prems(1) that by (auto simp: sorts_def)
  show ?case
  proof (cases "n < 7")
    case True
    then show ?thesis using ins [of xs] by (simp add: qsort.simps [of cmp es a n])
  next
    case False
    obtain pm where pm: "pm \<in> {a..<a + n}" "choose_pivot cmp es a n xs = Some pm"
      using choose_pivot_in [OF _ less.prems] False by fastforce
    let ?xs = "xs[a := xs ! pm, pm := xs ! a]"
    have sw: "swap_at xs a pm = Some ?xs" using pm(1) less.prems(1) by (auto simp: swap_at_def)
    have p0: "perm_in a (a + n) xs ?xs" using pm(1) less.prems(1) by (intro swap_perm) auto
    have "part_inv cmp a (a + n) (a + 1) (a + 1) (a + (n - 1)) (a + (n - 1)) ?xs"
      using False less.prems(1) by (auto simp: part_inv_def all_in_def)
    from partition_ok [OF assms(1) this, of False]
    obtain pa pc pd sw' ys where pt: "partition_loop cmp a (a + 1) (a + 1) (a + (n - 1)) (a + (n - 1)) False ?xs =
        Some (pa, Suc pc, pc, pd, sw', ys)" "part_inv cmp a (a + n) pa (Suc pc) pc pd ys" "perm_in (Suc a) (a + n) ?xs ys" by blast
    have py: "perm_in a (a + n) xs ys" using perm_in_trans [OF p0 perm_in_mono [OF pt(3)]] by simp
    have ly: "length ys = length xs" by (rule perm_in_length [OF py])
    note i = pt(2) [unfolded part_inv_def]
    have small: "Suc pc - pa < n" "pd - pc < n" using i False by auto
    have fit: "fits_int (m * es)" if "m \<le> n" for m
      using mult_le_mono1 [OF that, of es] less.prems(2) unfolding fits_int_def by (rule le_less_trans)
    have fits: "fits_int es" "fits_int ((Suc pc - pa) * es)" "fits_int ((pd - pc) * es)"
      using fit [of 1] fit [OF less_imp_le [OF small(1)]] fit [OF less_imp_le [OF small(2)]] False by simp_all
    let ?f = "\<lambda>zs. if Suc pc - pa > 1 then qsort cmp es a (Suc pc - pa) zs else Some zs"
    let ?g = "\<lambda>zs. if pd - pc > 1 then qsort cmp es (a + n - (pd - pc)) (pd - pc) zs else Some zs"
    have f: "sorts cmp a (a + (Suc pc - pa)) zs (?f zs)" if "length zs = length ys" for zs
      using less.IH [OF small(1), of a zs] sorts_short [of "a + (Suc pc - pa)" a cmp zs] that ly less.prems(1) small fits by auto
    have g: "sorts cmp (a + n - (pd - pc)) (a + n) zs (?g zs)" if "length zs = length ys" for zs
      using less.IH [OF small(2), of "a + n - (pd - pc)" zs] sorts_short [of "a + n" "a + n - (pd - pc)" cmp zs]
        that ly less.prems(1) small fits by auto
    have "sorts cmp a (a + n) ys (qsort cmp es a n xs)"
    proof (cases sw')
      case True
      show ?thesis using sort_runs [OF assms(1) pt(2) refl refl, of ?f ?g] f g
        unfolding qsort.simps [of cmp es a n xs] using False True pm(2) sw pt(1) fits assms(2) by (simp add: Let_def)
    next
      case sf: False
      show ?thesis unfolding qsort.simps [of cmp es a n xs] using False sf pm(2) sw pt(1) ins [OF ly] by simp
    qed
    with py show ?thesis by (rule sorts_perm)
  qed
qed

end
