(* ===== verification/Bsearch.thy ===== *)
theory Bsearch
  imports Qsort_Proof
begin

text \<open>
  The binary search of the C library (\<open>lib/libc/bsearch.c\<close>) with its 64-bit indices and byte offsets, and
  the properties of sorting and searching. The result is \<open>Inr\<close> of the index of the element found, or of
  \<open>None\<close> for the null pointer, or \<open>Inl off\<close> when the comparison function is given the address \<open>base + off\<close>
  at which no element of the array starts; \<open>None\<close> is a search that does not end.
\<close>

section \<open>The search\<close>

text \<open>The element of the array that starts at byte offset \<open>off\<close>, if one does.\<close>

definition elem_at :: "u64 \<Rightarrow> 'a list \<Rightarrow> u64 \<Rightarrow> nat option" where
  "elem_at es xs off =
     (if unat off mod unat es = 0 \<and> unat off div unat es < length xs then Some (unat off div unat es) else None)"

partial_function (option) bsearch_loop ::
  "('k \<Rightarrow> 'a \<Rightarrow> int) \<Rightarrow> 'k \<Rightarrow> u64 \<Rightarrow> 'a list \<Rightarrow> u64 \<Rightarrow> u64 \<Rightarrow> (u64 + nat option) option" where
  "bsearch_loop compare key es xs low high =
     (let mid = low + (high - low) div 2 in
      case elem_at es xs (mid * es) of
        None \<Rightarrow> Some (Inl (mid * es))
      | Some e \<Rightarrow>
          (let r = compare key (xs ! e) in
           if r < 0 then
             if mid = 0 then Some (Inr None) else bsearch_loop compare key es xs low (mid - 1)
           else if r > 0 then
             if mid + 1 < mid \<or> mid + 1 > high then Some (Inr None) else bsearch_loop compare key es xs (mid + 1) high
           else Some (Inr (Some e))))"

definition bsearch :: "('k \<Rightarrow> 'a \<Rightarrow> int) \<Rightarrow> 'k \<Rightarrow> u64 \<Rightarrow> 'a list \<Rightarrow> (u64 + nat option) option" where
  "bsearch compare key es xs =
     (if xs = [] then Some (Inr None) else bsearch_loop compare key es xs 0 (of_nat (length xs) - 1))"

section \<open>Correctness\<close>

text \<open>The array is sorted as far as the key can see.\<close>

definition sorted_for :: "('k \<Rightarrow> 'a \<Rightarrow> int) \<Rightarrow> 'k \<Rightarrow> 'a list \<Rightarrow> bool" where
  "sorted_for compare key xs \<longleftrightarrow> (\<forall>i j. i < j \<longrightarrow> j < length xs \<longrightarrow>
     (compare key (xs ! i) < 0 \<longrightarrow> compare key (xs ! j) < 0) \<and> (compare key (xs ! j) > 0 \<longrightarrow> compare key (xs ! i) > 0))"

lemma unat_middle:
  assumes "low \<le> (high :: u64)"
  shows "unat (low + (high - low) div 2) = unat low + (unat high - unat low) div 2"
proof -
  have l: "unat low \<le> unat high" using assms by (simp add: word_le_nat_alt)
  have h: "unat high < 2 ^ 64" using unsigned_less [of high] by simp
  have d: "unat ((high - low) div 2) = (unat high - unat low) div 2"
    using assms by (simp add: unat_div unat_sub)
  have "unat low + unat ((high - low) div 2) < 2 ^ 64"
    unfolding d using l h by simp
  then show ?thesis unfolding d [symmetric] by (subst unat_add_lem [THEN iffD1]) simp_all
qed

lemma elem_at_index:
  assumes "length xs * unat es < 2 ^ 64" "0 < es" "unat i < length xs"
  shows "elem_at es xs (i * es) = Some (unat i)"
proof -
  have e: "0 < unat es" using assms(2) by (simp add: word_less_nat_alt)
  have "unat i * unat es < 2 ^ 64" using assms(1) mult_le_mono1 [of "unat i" "length xs" "unat es"] assms(3) by linarith
  then have "unat (i * es) = unat i * unat es" by (subst unat_mult_lem [THEN iffD1]) simp_all
  then show ?thesis using e assms(3) by (simp add: elem_at_def)
qed

lemma bsearch_loop_step:
  assumes "elem_at es xs ((low + (high - low) div 2) * es) = Some e" "mid = low + (high - low) div 2"
  shows "bsearch_loop compare key es xs low high =
    (if compare key (xs ! e) < 0 then
       if mid = 0 then Some (Inr None) else bsearch_loop compare key es xs low (mid - 1)
     else if compare key (xs ! e) > 0 then
       if mid + 1 < mid \<or> mid + 1 > high then Some (Inr None) else bsearch_loop compare key es xs (mid + 1) high
     else Some (Inr (Some e)))"
  unfolding assms(2) by (subst bsearch_loop.simps) (simp only: assms(1) Let_def option.case)

lemma word_nat_id: "of_nat (unat w) = w" for w :: u64
  by simp

text \<open>
  When the range is empty, \<open>high\<close> one below \<open>low\<close>, the unsigned difference wraps and the index is \<open>2 ^ 63\<close>
  above \<open>high\<close>. For an even element size the byte offset wraps back to the element at \<open>high\<close>.
\<close>

lemma empty_range_middle: "k + ((k - 1) - k) div 2 = (k - 1) + 2 ^ 63" for k :: u64
  by simp

lemma wrapped_offset:
  fixes i es :: u64
  assumes "even (unat es)"
  shows "(i + 2 ^ 63) * es = i * es"
proof -
  obtain h where "unat es = 2 * h" using assms by (rule evenE)
  then have "(of_nat (unat es) :: u64) = of_nat (2 * h)" by (rule arg_cong)
  then have "es = 2 * of_nat h" by (simp only: word_nat_id of_nat_mult of_nat_numeral)
  then have "2 ^ 63 * es = (2 ^ 63 * 2) * of_nat h" by (simp only: mult.assoc)
  also have "(2 ^ 63 * 2 :: u64) = 0" by simp
  finally show ?thesis by (simp add: distrib_right)
qed

definition found_or_null :: "('k \<Rightarrow> 'a \<Rightarrow> int) \<Rightarrow> 'k \<Rightarrow> 'a list \<Rightarrow> nat option \<Rightarrow> bool" where
  "found_or_null compare key xs r \<longleftrightarrow> (case r of
     Some i \<Rightarrow> i < length xs \<and> compare key (xs ! i) = 0
   | None \<Rightarrow> \<forall>i < length xs. compare key (xs ! i) \<noteq> 0)"

lemma bsearch_empty_range:
  assumes len: "length xs * unat es < 2 ^ 64" "0 < es" "even (unat es)" and k: "0 < unat k" "unat k < length xs"
    and above: "compare key (xs ! (unat k - 1)) > 0"
  shows "bsearch_loop compare key es xs k (k - 1) = Some (Inr None)"
proof -
  have k1: "unat (k - 1) = unat k - 1" using k by (intro unat_minus_one) auto
  have "2 * length xs \<le> length xs * unat es" using len(2,3) by (auto simp: word_less_nat_alt elim!: evenE)
  then have "2 * length xs < 2 ^ 64" using len(1) by (rule order.strict_trans1)
  then have "length xs < 2 ^ 63" by simp
  then have n: "unat k < 2 ^ 63" using k by linarith
  have e: "elem_at es xs ((k + ((k - 1) - k) div 2) * es) = Some (unat k - 1)"
    using elem_at_index [OF len(1,2), of "k - 1"] k k1 by (simp only: empty_range_middle wrapped_offset [OF len(3)])
  have "unat (k + 2 ^ 63) = unat k + 2 ^ 63" using n by (subst unat_add_lem [THEN iffD1]) simp_all
  then have "k - 1 < (k - 1) + 2 ^ 63 + 1" using k1 by (simp add: word_less_nat_alt add.commute)
  then show ?thesis using above by (subst bsearch_loop_step [OF e refl]) (simp only: empty_range_middle, simp)
qed

lemma bsearch_loop_correct:
  assumes s: "sorted_for compare key xs" and len: "length xs * unat es < 2 ^ 64" "0 < es"
    and ok: "even (unat es) \<or> (\<exists>k < length xs. compare key (xs ! k) = 0)"
    and "unat low \<le> unat high" "unat high < length xs"
    and "\<forall>i < unat low. compare key (xs ! i) > 0" "\<forall>i < length xs. unat high < i \<longrightarrow> compare key (xs ! i) < 0"
  shows "\<exists>r. bsearch_loop compare key es xs low high = Some (Inr r) \<and> found_or_null compare key xs r"
  using assms(5-)
proof (induction "unat high - unat low" arbitrary: low high rule: less_induct)
  case less
  have "low \<le> high" using less.prems by (simp add: word_le_nat_alt)
  define mid where "mid = low + (high - low) div 2"
  have m: "unat mid = unat low + (unat high - unat low) div 2" unfolding mid_def by (rule unat_middle) fact
  have lh: "unat low \<le> unat mid" "unat mid \<le> unat high" "unat mid < length xs" using m less.prems by auto
  have "elem_at es xs (mid * es) = Some (unat mid)" using elem_at_index [OF len lh(3)] .
  note step = bsearch_loop_step [OF this [unfolded mid_def] refl, of compare key, folded mid_def]
  have below: "\<forall>i < unat mid. compare key (xs ! i) > 0" if "compare key (xs ! unat mid) > 0"
    using s that lh(3) unfolding sorted_for_def by blast
  have above: "\<forall>i < length xs. unat mid < i \<longrightarrow> compare key (xs ! i) < 0" if "compare key (xs ! unat mid) < 0"
    using s that unfolding sorted_for_def by blast
  consider "compare key (xs ! unat mid) < 0" | "compare key (xs ! unat mid) > 0" | "compare key (xs ! unat mid) = 0"
    by linarith
  then show ?case
  proof cases
    case 1
    have up: "\<forall>i < length xs. unat mid \<le> i \<longrightarrow> compare key (xs ! i) < 0" using above [OF 1] 1 le_eq_less_or_eq by auto
    show ?thesis
    proof (cases "mid = 0")
      case True
      then show ?thesis using step 1 up by (fastforce simp: found_or_null_def)
    next
      case False
      then have u: "unat (mid - 1) = unat mid - 1" "0 < unat mid" by (simp_all add: unat_minus_one unat_gt_0)
      have "bsearch_loop compare key es xs low high = bsearch_loop compare key es xs low (mid - 1)" using step 1 False by simp
      moreover have "\<exists>r. bsearch_loop compare key es xs low (mid - 1) = Some (Inr r) \<and> found_or_null compare key xs r"
      proof (cases "unat low \<le> unat (mid - 1)")
        case True
        show ?thesis by (rule less.hyps) (use True u lh less.prems up in auto)
      next
        case False
        then have l: "low = mid" using u lh by (intro word_unat_eq_iff [THEN iffD2]) linarith
        have no: "compare key (xs ! i) \<noteq> 0" if "i < length xs" for i
          using up less.prems(3) that l by (cases "i < unat mid") (auto dest: spec [of _ i])
        then have "even (unat es)" using ok by blast
        from bsearch_empty_range [OF len this, of mid compare key] show ?thesis
          using no l u lh less.prems by (auto simp: found_or_null_def)
      qed
      ultimately show ?thesis by simp
    qed
  next
    case 2
    have dn: "\<forall>i < unat mid + 1. compare key (xs ! i) > 0" using below [OF 2] 2 less_Suc_eq by auto
    have "1 \<le> unat es" using len(2) by (simp add: word_less_nat_alt)
    then have "length xs \<le> length xs * unat es" by simp
    then have "unat mid + 1 < 2 ^ 64" using lh(3) len(1) by linarith
    then have u: "unat (mid + 1) = unat mid + 1" using unat_add_lem [of mid 1] by simp
    show ?thesis
    proof (cases "unat mid < unat high")
      case True
      then have "bsearch_loop compare key es xs low high = bsearch_loop compare key es xs (mid + 1) high"
        using step 2 u by (simp add: word_less_nat_alt)
      moreover have "\<exists>r. bsearch_loop compare key es xs (mid + 1) high = Some (Inr r) \<and> found_or_null compare key xs r"
        by (rule less.hyps) (use True u lh less.prems dn in auto)
      ultimately show ?thesis by simp
    next
      case False
      then have h: "unat mid = unat high" using lh by simp
      then have "compare key (xs ! i) \<noteq> 0" if "i < length xs" for i
        using dn less.prems(4) that by (cases "i < unat mid + 1") (auto dest: spec [of _ i])
      moreover have "bsearch_loop compare key es xs low high = Some (Inr None)" using step 2 u h by (simp add: word_less_nat_alt)
      ultimately show ?thesis by (simp add: found_or_null_def)
    qed
  next
    case 3
    then show ?thesis using step lh(3) by (simp add: found_or_null_def)
  qed
qed

lemma bsearch_two_odd:
  assumes "0 < es" and o: "odd (unat es)" "unat es < 2 ^ 62" "length xs = 2" "compare key (xs ! 0) > 0" "compare key (xs ! 1) < 0"
  shows "bsearch compare key es xs = Some (Inl (2 ^ 63))"
proof -
  have len: "length xs * unat es < 2 ^ 64" using o by simp
  have u: "unat (0 :: u64) = 0" "unat (1 :: u64) = 1" by simp_all
  have e: "elem_at es xs ((0 + (1 - 0) div 2) * es) = Some 0" "elem_at es xs ((1 + (1 - 1) div 2) * es) = Some 1"
    using elem_at_index [OF len assms(1), of 0] elem_at_index [OF len assms(1), of 1] o(3) by simp_all
  obtain h where h: "unat es = 2 * h + 1" using o(1) by (rule oddE)
  then have "(of_nat (unat es) :: u64) = of_nat (2 * h + 1)" by (rule arg_cong)
  then have "es = 2 * of_nat h + 1" by (simp only: word_nat_id of_nat_mult of_nat_numeral of_nat_add of_nat_1)
  then have "2 ^ 63 * es = (2 ^ 63 * 2) * of_nat h + 2 ^ 63" by (simp only: distrib_left mult.assoc mult_1_right)
  also have "(2 ^ 63 * 2 :: u64) = 0" by simp
  finally have w: "2 ^ 63 * es = 2 ^ 63" by simp
  have "unat (2 ^ 63 :: u64) = 2 ^ 63" by simp
  moreover have "2 \<le> 2 ^ 63 div unat es" using div_le_mono2 [of "unat es" "2 ^ 62" "2 ^ 63"] o(2) h by simp
  ultimately have "elem_at es xs (2 ^ 63) = None" using o(3) by (simp add: elem_at_def)
  then have "bsearch_loop compare key es xs 1 0 = Some (Inl (2 ^ 63))"
    using w by (subst bsearch_loop.simps) simp
  moreover have "of_nat (length xs) - 1 = (1 :: u64)" using o(3) by simp
  moreover have "xs \<noteq> []" using o(3) by auto
  ultimately show ?thesis
    using bsearch_loop_step [OF e(1) refl, of compare key] bsearch_loop_step [OF e(2) refl, of compare key] o(4,5) by (simp add: bsearch_def)
qed

section \<open>Properties\<close>

text \<open>
  C14: \<open>qsort\<close> sorts: for a comparison function that is a total preorder and an array of less than 2 GiB
  it ends without leaving the array, and the result is a permutation of the array in which every
  element compares less or equal to every later one.
\<close>

theorem qsort_correct:
  assumes "cmp_ok cmp" "0 < es" "length xs * es < 2 ^ 31"
  shows "\<exists>ys. qsort cmp es 0 (length xs) xs = Some ys \<and> mset ys = mset xs \<and>
    (\<forall>i j. i < j \<longrightarrow> j < length ys \<longrightarrow> cmp (ys ! i) (ys ! j) \<le> 0)"
proof -
  obtain ys where y: "qsort cmp es 0 (length xs) xs = Some ys" "perm_in 0 (length xs) xs ys" "sorted_in cmp ys 0 (length xs)"
    using qsort_sorts [OF assms(1,2), of 0 "length xs" xs] assms(3) by (auto simp: sorts_def fits_int_def)
  then show ?thesis using perm_in_length [OF y(2)] by (auto simp: perm_in_def sorted_in_def)
qed

theorem qsort_correct_witness:
  "\<exists>ys. qsort (\<lambda>x y. x - y) 8 0 (length [5, 3, 9, 1, 5, 8, 2, 7, 0 :: int]) [5, 3, 9, 1, 5, 8, 2, 7, 0 :: int] = Some ys \<and>
    mset ys = mset [5, 3, 9, 1, 5, 8, 2, 7, 0] \<and> (\<forall>i j. i < j \<longrightarrow> j < length ys \<longrightarrow> ys ! i - ys ! j \<le> 0)"
  using qsort_correct [of "\<lambda>x y. x - y" 8 "[5, 3, 9, 1, 5, 8, 2, 7, 0 :: int]"]
  by (simp add: cmp_ok_def)

text \<open>
  C38: \<open>bsearch\<close> in a sorted array whose size in bytes is below \<open>2 ^ 64\<close>. A key that is in the array is found;
  for a key that is not, and elements of an even size, the result is the null pointer. For elements of an
  odd size an absent key can take the search out of the array: with two elements, one below and one above
  the key, \<open>high\<close> falls below \<open>low\<close>, the unsigned difference wraps, and the comparison function is given the
  address \<open>2 ^ 63\<close> bytes beyond the array's start.
\<close>

theorem bsearch_correct:
  assumes "sorted_for compare key xs" "0 < es" "length xs * unat es < 2 ^ 64"
  shows "(even (unat es) \<or> (\<exists>x \<in> set xs. compare key x = 0) \<longrightarrow>
      (\<exists>r. bsearch compare key es xs = Some (Inr r) \<and> found_or_null compare key xs r)) \<and>
    (odd (unat es) \<and> unat es < 2 ^ 62 \<and> length xs = 2 \<and> compare key (xs ! 0) > 0 \<and> compare key (xs ! 1) < 0 \<longrightarrow>
      bsearch compare key es xs = Some (Inl (2 ^ 63)))"
proof (intro conjI impI)
  assume m: "even (unat es) \<or> (\<exists>x \<in> set xs. compare key x = 0)"
  show "\<exists>r. bsearch compare key es xs = Some (Inr r) \<and> found_or_null compare key xs r"
  proof (cases "xs = []")
    case True
    then show ?thesis by (simp add: bsearch_def found_or_null_def)
  next
    case False
    have "unat (of_nat (length xs) - 1 :: u64) = length xs - 1"
    proof -
      have "length xs \<le> length xs * unat es" using assms(2) by (simp add: word_less_nat_alt Suc_le_eq)
      then have "length xs < 2 ^ 64" using assms(3) by linarith
      then have n: "unat (of_nat (length xs) :: u64) = length xs" by (simp add: unat_of_nat)
      moreover have "(of_nat (length xs) :: u64) \<noteq> 0" using n False by (metis length_0_conv unsigned_0)
      ultimately show ?thesis by (simp add: unat_minus_one)
    qed
    then show ?thesis using bsearch_loop_correct [OF assms(1,3,2), of 0 "of_nat (length xs) - 1"] m False
      by (fastforce simp: bsearch_def in_set_conv_nth)
  qed
next
  assume o: "odd (unat es) \<and> unat es < 2 ^ 62 \<and> length xs = 2 \<and> compare key (xs ! 0) > 0 \<and> compare key (xs ! 1) < 0"
  then show "bsearch compare key es xs = Some (Inl (2 ^ 63))" by (intro bsearch_two_odd [OF assms(2)]) simp_all
qed

theorem bsearch_correct_witness:
  "(\<exists>r. bsearch (\<lambda>x y. x - y) 20 4 [10, 30, 40 :: int] = Some (Inr r) \<and> found_or_null (\<lambda>x y. x - y) 20 [10, 30, 40] r) \<and>
    bsearch (\<lambda>x y. x - y) 20 1 [10, 30 :: int] = Some (Inl (2 ^ 63))"
proof
  have "sorted_for (\<lambda>x y. x - y) 20 [10, 30, 40 :: int]"
    by (auto simp: sorted_for_def less_Suc_eq numeral_eq_Suc)
  from bsearch_correct [OF this, of 4]
  show "\<exists>r. bsearch (\<lambda>x y. x - y) 20 4 [10, 30, 40 :: int] = Some (Inr r) \<and> found_or_null (\<lambda>x y. x - y) 20 [10, 30, 40] r" by simp
  have "sorted_for (\<lambda>x y. x - y) 20 [10, 30 :: int]"
    by (auto simp: sorted_for_def less_Suc_eq numeral_eq_Suc)
  from bsearch_correct [OF this, of 1] show "bsearch (\<lambda>x y. x - y) 20 1 [10, 30 :: int] = Some (Inl (2 ^ 63))" by simp
qed

end
