(* ===== verification/Miniheap.thy ===== *)
theory Miniheap
  imports Align
begin

text \<open>
  The kernel heap (\<open>lib/heap/miniheap/miniheap.c\<close>) of a debug build. A free chunk is a pair of its address
  and length; the free list is a list of chunks. The header in front of an allocation (\<open>alloc_struct_begin\<close>) is
  an entry of the map \<open>hdr\<close> from the address that was returned to the chunk behind it; freeing an address without a
  header is \<open>None\<close>, as is a failed assertion. Addresses are natural numbers, the sizes that callers pass 64-bit
  words, whose sums wrap. The pages that \<open>page_alloc\<close> returns are an argument. The contents of the memory
  are not part of the state, nor is the mutex around each operation.
\<close>

section \<open>State\<close>

type_synonym chunk = "nat \<times> nat"

record heap =
  heap_base :: nat
  heap_len :: nat
  remaining :: nat
  low_watermark :: nat
  free_list :: "chunk list"
  hdr :: "nat \<Rightarrow> chunk option"

text \<open>\<open>sizeof(struct free_heap_chunk)\<close> and \<open>sizeof(struct alloc_struct_begin)\<close>; the size of a page.\<close>

abbreviation (input) CHUNK :: nat where "CHUNK \<equiv> 24"
abbreviation (input) HEADER :: nat where "HEADER \<equiv> 24"
abbreviation (input) PAGE :: nat where "PAGE \<equiv> 4096"

text \<open>The macros \<open>ROUNDUP\<close> and \<open>ROUNDDOWN\<close> on addresses, for powers of two.\<close>

definition round_up :: "nat \<Rightarrow> nat \<Rightarrow> nat" where
  "round_up n m = (n + (m - 1)) div m * m"

definition round_down :: "nat \<Rightarrow> nat \<Rightarrow> nat" where
  "round_down n m = n div m * m"

section \<open>Free chunks\<close>

definition heap_create_free_chunk :: "nat \<Rightarrow> nat \<Rightarrow> chunk option" where
  "heap_create_free_chunk ptr len = do {
     guard_that (len mod 8 = 0);
     guard_that (len > CHUNK);
     Some (ptr, len)
   }"

definition merge_last :: "chunk list \<Rightarrow> chunk \<Rightarrow> chunk list \<times> chunk" where
  "merge_last before c =
     (if before \<noteq> [] \<and> fst (last before) + snd (last before) = fst c
      then (butlast before, (fst (last before), snd (last before) + snd c)) else (before, c))"

definition merge_next :: "chunk \<Rightarrow> chunk list \<Rightarrow> chunk \<times> chunk list" where
  "merge_next c after =
     (case after of
        [] \<Rightarrow> (c, after)
      | n # rest \<Rightarrow> if fst c + snd c = fst n then ((fst c, snd c + snd n), rest) else (c, after))"

text \<open>
  \<open>heap_insert_free_chunk\<close>. When the loop walks off the end of the list, the entry variable points into \<open>theheap\<close>
  itself; no chunk ends there, so no merge takes place.
\<close>

definition heap_insert_free_chunk :: "chunk \<Rightarrow> heap \<Rightarrow> heap option" where
  "heap_insert_free_chunk c h =
     (let before = takeWhile (\<lambda>x. \<not> fst c < fst x) (free_list h);
          after = dropWhile (\<lambda>x. \<not> fst c < fst x) (free_list h) in
      do {
        guard_that (after = [] \<or> fst c + snd c \<le> fst (hd after));
        let (before, c') = merge_last before c;
        let (c', after) = merge_next c' after;
        Some (h\<lparr>remaining := remaining h + snd c, free_list := before @ c' # after\<rparr>)
      })"

section \<open>Allocation\<close>

text \<open>The size of the chunk that is looked for, in 64-bit arithmetic.\<close>

definition align_of :: "u32 \<Rightarrow> u32" where
  "align_of alignment = (if alignment > 0 then if alignment < 16 then 16 else alignment else 0)"

definition alloc_size :: "u64 \<Rightarrow> u32 \<Rightarrow> u64" where
  "alloc_size sz alignment =
     (let sz = sz + 24;
          sz = (if sz < 24 then 24 else sz)
      in ROUNDUP sz 8 + ucast (align_of alignment))"

text \<open>The first chunk that is large enough, with the chunks before and after it.\<close>

fun first_fit :: "nat \<Rightarrow> chunk list \<Rightarrow> chunk list \<Rightarrow> (chunk list \<times> chunk \<times> chunk list) option option" where
  "first_fit sz before [] = Some None"
| "first_fit sz before (c # after) =
     (if snd c mod 8 \<noteq> 0 then None
      else if snd c \<ge> sz then Some (Some (before, c, after))
      else first_fit sz (before @ [c]) after)"

definition take_chunk :: "nat \<Rightarrow> nat \<Rightarrow> chunk list \<times> chunk \<times> chunk list \<Rightarrow> heap \<Rightarrow> (nat \<times> heap) option" where
  "take_chunk sz alignment = (\<lambda>(before, c, after) h. do {
     (new, len) \<leftarrow> (if snd c > sz + CHUNK
       then do { n \<leftarrow> heap_create_free_chunk (fst c + sz) (snd c - sz); Some ([n], sz) }
       else Some ([], snd c));
     let ptr = fst c + HEADER;
     let ptr = (if alignment > 0 then round_up ptr alignment else ptr);
     let rem = remaining h - len;
     Some (ptr, h\<lparr>free_list := before @ new @ after, hdr := (hdr h)(ptr := Some (fst c, len)), remaining := rem,
       low_watermark := (if rem < low_watermark h then rem else low_watermark h)\<rparr>)
   })"

definition alloc_from_list :: "nat \<Rightarrow> nat \<Rightarrow> heap \<Rightarrow> (nat option \<times> heap) option" where
  "alloc_from_list sz alignment h = do {
     r \<leftarrow> first_fit sz [] (free_list h);
     (case r of
        None \<Rightarrow> Some (None, h)
      | Some fit \<Rightarrow> do { (ptr, h) \<leftarrow> take_chunk sz alignment fit h; Some (Some ptr, h) })
   }"

text \<open>
  \<open>heap_grow\<close> for pages that \<open>page_alloc\<close> gives at \<open>pages\<close>. The size it returns is converted to \<open>ssize_t\<close>, so that
  from \<open>2 ^ 63\<close> on it is negative and the caller takes it for an error.
\<close>

definition to_ssize :: "nat \<Rightarrow> int" where
  "to_ssize n = (let m = int n mod 2 ^ 64 in if m < 2 ^ 63 then m else m - 2 ^ 64)"

definition heap_grow :: "nat \<Rightarrow> nat option \<Rightarrow> heap \<Rightarrow> (status \<times> heap) option" where
  "heap_grow sz pages h =
     (let sz = round_up sz PAGE in
      case pages of
        None \<Rightarrow> Some (ERR_NO_MEMORY, h)
      | Some ptr \<Rightarrow> do {
          c \<leftarrow> heap_create_free_chunk ptr sz;
          h \<leftarrow> heap_insert_free_chunk c h;
          let h = (if ptr < heap_base h \<or> heap_base h = 0 then h\<lparr>heap_base := ptr\<rparr> else h);
          let endptr = ptr + sz;
          let h = (if endptr > heap_base h + heap_len h then h\<lparr>heap_len := endptr - heap_base h\<rparr> else h);
          Some (to_ssize sz, h)
        })"

definition miniheap_alloc :: "u64 \<Rightarrow> u32 \<Rightarrow> nat option \<Rightarrow> heap \<Rightarrow> (nat option \<times> heap) option" where
  "miniheap_alloc sz alignment pages h =
     (if alignment AND (alignment - 1) \<noteq> 0 then Some (None, h)
      else
        let n = unat (alloc_size sz alignment); a = unat (align_of alignment) in
        do {
          (ptr, h) \<leftarrow> alloc_from_list n a h;
          (case ptr of
             Some p \<Rightarrow> Some (Some p, h)
           | None \<Rightarrow> do {
               (err, h) \<leftarrow> heap_grow n pages h;
               if err \<ge> 0 then alloc_from_list n a h else Some (None, h)
             })
        })"

definition miniheap_free :: "nat \<Rightarrow> heap \<Rightarrow> heap option" where
  "miniheap_free ptr h =
     (if ptr = 0 then Some h
      else do {
        (c, sz) \<leftarrow> hdr h ptr;
        new \<leftarrow> heap_create_free_chunk c sz;
        heap_insert_free_chunk new (h\<lparr>hdr := (hdr h)(ptr := None)\<rparr>)
      })"

text \<open>\<open>miniheap_realloc\<close>; its \<open>memcpy\<close> reads as many bytes of the old block as the new one has.\<close>

definition miniheap_realloc :: "nat \<Rightarrow> u64 \<Rightarrow> nat option \<Rightarrow> heap \<Rightarrow> (nat option \<times> heap) option" where
  "miniheap_realloc ptr sz pages h =
     (if ptr = 0 then miniheap_alloc sz 0 pages h
      else if sz = 0 then do { h \<leftarrow> miniheap_free ptr h; Some (None, h) }
      else do {
        (p, h) \<leftarrow> miniheap_alloc sz 0 pages h;
        (case p of
           None \<Rightarrow> Some (None, h)
         | Some p \<Rightarrow> do {
             (c, len) \<leftarrow> hdr h ptr;
             guard_that (ptr + unat sz \<le> c + len);
             h \<leftarrow> miniheap_free ptr h;
             Some (Some p, h)
           })
      })"

text \<open>
  \<open>miniheap_trim\<close>: the whole pages of a free chunk that can be given back (the loop through \<open>retry\<close>), what is
  left of the chunk, and the walk over the list, which returns the page ranges given to \<open>page_free\<close>.
\<close>

function trim_range :: "nat \<Rightarrow> nat \<Rightarrow> nat \<Rightarrow> nat \<Rightarrow> (nat \<times> nat) option" where
  "trim_range start fin start_page end_page =
     (if end_page > start_page
      then
        if start_page = start \<and> end_page = fin then Some (start_page, end_page)
        else if start_page \<noteq> start \<and> start_page - start < CHUNK then trim_range start fin (start_page + PAGE) end_page
        else if end_page < fin \<and> fin - end_page < CHUNK then trim_range start fin start_page (end_page - PAGE)
        else Some (start_page, end_page)
      else None)"
  by pat_completeness auto
termination
  by (relation "measure (\<lambda>(start, fin, start_page, end_page). end_page - start_page)") auto

declare trim_range.simps [simp del]

definition trim_chunk :: "chunk \<Rightarrow> (chunk list \<times> chunk list) option" where
  "trim_chunk = (\<lambda>(start, len). do {
     let fin = start + len;
     guard_that (fin > start);
     let start_page = round_up start PAGE;
     let end_page = round_down fin PAGE;
     guard_that (end_page \<le> fin);
     guard_that (start_page \<ge> start);
     (case trim_range start fin start_page end_page of
        None \<Rightarrow> Some ([(start, len)], [])
      | Some (sp, ep) \<Rightarrow>
          if sp = start \<and> ep = fin then Some ([], [(sp, ep - sp)])
          else do {
            (len, fin, new) \<leftarrow> (if ep < fin
              then do { n \<leftarrow> heap_create_free_chunk ep (fin - ep); Some (len - (fin - ep), ep, [n]) }
              else Some (len, fin, []));
            if sp = start \<and> ep = fin then Some (new, [(sp, ep - sp)])
            else Some ((start, len - (ep - sp)) # new, [(sp, ep - sp)])
          })
   })"

fun trim_list :: "chunk list \<Rightarrow> (chunk list \<times> chunk list) option" where
  "trim_list [] = Some ([], [])"
| "trim_list (c # cs) = do {
     (kept, freed) \<leftarrow> trim_chunk c;
     (kept', freed') \<leftarrow> trim_list cs;
     Some (kept @ kept', freed @ freed')
   }"

definition miniheap_trim :: "heap \<Rightarrow> (chunk list \<times> heap) option" where
  "miniheap_trim h = do {
     (kept, freed) \<leftarrow> trim_list (free_list h);
     Some (freed, h\<lparr>free_list := kept, remaining := remaining h - sum_list (map snd freed)\<rparr>)
   }"

definition miniheap_init :: "nat \<Rightarrow> nat \<Rightarrow> heap option" where
  "miniheap_init ptr len = do {
     (ptr, len) \<leftarrow> (if ptr mod 8 > 0
       then do {
         guard_that (round_up ptr 8 - ptr < len);
         Some (round_up ptr 8, len - (round_up ptr 8 - ptr))
       } else Some (ptr, len));
     let h = \<lparr>heap_base = ptr, heap_len = len, remaining = 0, low_watermark = 0, free_list = [], hdr = (\<lambda>_. None)\<rparr>;
     if len > 0 then do { c \<leftarrow> heap_create_free_chunk ptr len; heap_insert_free_chunk c h } else Some h
   }"

definition miniheap_get_stats :: "heap \<Rightarrow> nat \<times> nat \<times> nat \<times> nat \<times> nat" where
  "miniheap_get_stats h = (heap_base h, heap_len h, foldl (\<lambda>n c. n + snd c) 0 (free_list h),
     foldl (\<lambda>n c. if snd c > n then snd c else n) 0 (free_list h), low_watermark h)"

end
