(* ===== verification/Miniheap_Inv.thy ===== *)
theory Miniheap_Inv
  imports Miniheap Pow2
begin

text \<open>
  Well-formedness of the kernel heap: the free list is sorted and coalesced, free chunks and allocations are
  disjoint and aligned, and the counter of free bytes is right. Each operation is shown to keep it, and the free
  list is shown to be determined by the set of free bytes.
\<close>

section \<open>Free lists\<close>

definition cells :: "chunk \<Rightarrow> nat set" where
  "cells c = {fst c ..< fst c + snd c}"

definition apart :: "chunk \<Rightarrow> chunk \<Rightarrow> bool" where
  "apart x y \<longleftrightarrow> fst x + snd x < fst y"

definition chunk_ok :: "chunk \<Rightarrow> bool" where
  "chunk_ok c \<longleftrightarrow> 0 < fst c \<and> 8 dvd fst c \<and> 8 dvd snd c \<and> 24 \<le> snd c"

definition free_ok :: "chunk list \<Rightarrow> bool" where
  "free_ok cs \<longleftrightarrow> sorted_wrt apart cs \<and> list_all chunk_ok cs"

definition all_cells :: "chunk list \<Rightarrow> nat set" where
  "all_cells cs = (\<Union>c\<in>set cs. cells c)"

lemma all_cells_simps [simp]:
  "all_cells [] = {}" "all_cells (c # cs) = cells c \<union> all_cells cs" "all_cells (xs @ ys) = all_cells xs \<union> all_cells ys"
  by (auto simp: all_cells_def)

lemma in_cells: "x \<in> cells c \<longleftrightarrow> fst c \<le> x \<and> x < fst c + snd c"
  by (simp add: cells_def)

lemma chunk_okD: "chunk_ok c \<Longrightarrow> 0 < fst c \<and> 24 \<le> snd c"
  by (simp add: chunk_ok_def)

lemma free_ok_simps [simp]:
  "free_ok []" "free_ok (c # cs) \<longleftrightarrow> chunk_ok c \<and> (\<forall>x\<in>set cs. apart c x) \<and> free_ok cs"
  "free_ok (xs @ ys) \<longleftrightarrow> free_ok xs \<and> free_ok ys \<and> (\<forall>x\<in>set xs. \<forall>y\<in>set ys. apart x y)"
  by (auto simp: free_ok_def sorted_wrt_append)

text \<open>Chunks that share no byte lie on one side of each other.\<close>

lemma disjoint_sides:
  assumes "chunk_ok x" "chunk_ok y" "cells x \<inter> cells y = {}"
  shows "fst x + snd x \<le> fst y \<or> fst y + snd y \<le> fst x"
proof (rule ccontr)
  assume "\<not> ?thesis"
  then have "max (fst x) (fst y) \<in> cells x \<inter> cells y"
    using chunk_okD [OF assms(1)] chunk_okD [OF assms(2)] by (auto simp: in_cells max_def)
  then show False using assms(3) by blast
qed

text \<open>The free list is determined by its bytes: it is the list of their maximal intervals.\<close>

lemma all_cells_after: "free_ok (c # cs) \<Longrightarrow> x \<in> all_cells cs \<Longrightarrow> fst c + snd c < x"
  by (auto simp: all_cells_def in_cells apart_def)

lemma all_cells_first: "free_ok (c # cs) \<Longrightarrow> x \<in> all_cells (c # cs) \<Longrightarrow> fst c \<le> x"
  using all_cells_after [of c cs x] by (auto simp: in_cells)

lemma first_in: "free_ok (c # cs) \<Longrightarrow> fst c \<in> all_cells (c # cs)"
  using chunk_okD [of c] by (simp add: in_cells)

lemma end_not_in: "free_ok (c # cs) \<Longrightarrow> fst c + snd c \<notin> all_cells (c # cs)"
  using all_cells_after [of c cs "fst c + snd c"] by (auto simp: in_cells)

lemma free_ok_unique: "free_ok xs \<Longrightarrow> free_ok ys \<Longrightarrow> all_cells xs = all_cells ys \<Longrightarrow> xs = ys"
proof (induction xs arbitrary: ys)
  case Nil
  then show ?case using first_in [of "hd ys" "tl ys"] by (cases ys) auto
next
  case (Cons x xs)
  then obtain y zs where y: "ys = y # zs" using first_in [of x xs] by (cases ys) auto
  note fx = Cons.prems(1) and fy = Cons.prems(2) [unfolded y] and eq = Cons.prems(3) [unfolded y]
  have f: "fst x = fst y"
    by (rule order_antisym) (use all_cells_first [OF fx] all_cells_first [OF fy] first_in [OF fx] first_in [OF fy] eq in blast)+
  have "snd x = snd y"
  proof (rule ccontr)
    assume "snd x \<noteq> snd y"
    then consider "fst x + snd x \<in> cells y" | "fst y + snd y \<in> cells x"
      using f by (force simp: in_cells)
    then show False using end_not_in [OF fx] end_not_in [OF fy] eq by cases auto
  qed
  with f have xy: "x = y" by (simp add: prod_eq_iff)
  have "all_cells xs = all_cells (x # xs) - cells x"
    using all_cells_after [OF fx] by (fastforce simp: in_cells)
  also have "\<dots> = all_cells zs"
    using all_cells_after [OF fy] eq xy by (fastforce simp: in_cells)
  finally show ?case using Cons.IH [of zs] fx fy xy y by simp
qed

section \<open>Insertion\<close>

definition total_len :: "chunk list \<Rightarrow> nat" where
  "total_len cs = sum_list (map snd cs)"

lemma total_len_simps [simp]:
  "total_len [] = 0" "total_len (c # cs) = snd c + total_len cs" "total_len (xs @ ys) = total_len xs + total_len ys"
  by (simp_all add: total_len_def)

text \<open>The place that the walk over the list finds.\<close>

lemma split_place:
  fixes c :: chunk
  assumes "free_ok cs" "chunk_ok c" "cells c \<inter> all_cells cs = {}"
  defines "before \<equiv> takeWhile (\<lambda>x. \<not> fst c < fst x) cs" and "after \<equiv> dropWhile (\<lambda>x. \<not> fst c < fst x) cs"
  shows "cs = before @ after" "\<forall>x\<in>set before. fst x + snd x \<le> fst c" "\<forall>x\<in>set after. fst c + snd c \<le> fst x"
proof -
  show e: "cs = before @ after" by (simp add: before_def after_def)
  have sides: "fst x + snd x \<le> fst c \<or> fst c + snd c \<le> fst x" if "x \<in> set cs" for x
    using disjoint_sides [of x c] that assms(1-3) by (auto simp: free_ok_def list_all_iff all_cells_def)
  have "\<not> fst c < fst x" if "x \<in> set before" for x
    using that unfolding before_def by (auto dest: set_takeWhileD)
  then show "\<forall>x\<in>set before. fst x + snd x \<le> fst c"
    using sides e chunk_okD [OF assms(2)] by fastforce
  have first: "fst c < fst (hd after)" if "after \<noteq> []"
    using that hd_dropWhile [of "\<lambda>x. \<not> fst c < fst x" cs] by (auto simp: after_def)
  have "fst c < fst x" if "x \<in> set after" for x
  proof (cases after)
    case (Cons a as)
    have "free_ok (before @ after)" using assms(1) e by simp
    then show ?thesis using that first Cons by (auto simp: apart_def)
  qed (use that in simp)
  then show "\<forall>x\<in>set after. fst c + snd c \<le> fst x"
    using sides e by (metis UnCI add_leD1 leD set_append)
qed

lemma apart_trans: "apart x y \<Longrightarrow> fst y \<le> fst z \<Longrightarrow> apart x z"
  by (simp add: apart_def)

lemma apart_apart: "apart x y \<Longrightarrow> apart y z \<Longrightarrow> apart x z"
  by (simp add: apart_def)

lemma chunk_ok_join: "chunk_ok x \<Longrightarrow> chunk_ok y \<Longrightarrow> chunk_ok (fst x, snd x + snd y)"
  by (simp add: chunk_ok_def)

lemma cells_join: "fst x + snd x = fst y \<Longrightarrow> cells (fst x, snd x + snd y) = cells x \<union> cells y"
  by (auto simp: in_cells)

lemma merge_last_ok:
  assumes "free_ok before" "chunk_ok c" "\<forall>x\<in>set before. fst x + snd x \<le> fst c" "merge_last before c = (before', c')"
  shows "free_ok (before' @ [c']) \<and> all_cells (before' @ [c']) = all_cells before \<union> cells c \<and>
    total_len (before' @ [c']) = total_len before + snd c \<and> fst c' + snd c' = fst c + snd c"
proof (cases before rule: rev_cases)
  case Nil
  then show ?thesis using assms by (auto simp: merge_last_def)
next
  case (snoc b l)
  have b: "\<forall>x\<in>set b. apart x l" using assms(1) snoc by simp
  show ?thesis
  proof (cases "fst l + snd l = fst c")
    case True
    then have "before' = b" "c' = (fst l, snd l + snd c)" using assms(4) snoc by (auto simp: merge_last_def)
    then show ?thesis using True assms(1,2) snoc b chunk_ok_join [of l c] cells_join [OF True] by (auto simp: apart_def)
  next
    case False
    then have e: "before' = before" "c' = c" using assms(4) snoc by (auto simp: merge_last_def)
    have lc: "apart l c" using False assms(3) snoc by (auto simp: apart_def)
    have "\<forall>x\<in>set b. apart x c" using b lc apart_apart by blast
    then show ?thesis using e assms(1,2) snoc lc by auto
  qed
qed

lemma merge_next_ok:
  assumes "free_ok (before @ [c])" "free_ok after" "\<forall>x\<in>set after. fst c + snd c \<le> fst x"
    and "merge_next c after = (c', after')"
  shows "free_ok (before @ c' # after') \<and> all_cells (before @ c' # after') = all_cells (before @ [c]) \<union> all_cells after \<and>
    total_len (before @ c' # after') = total_len (before @ [c]) + total_len after"
proof -
  have ba: "\<forall>x\<in>set before. \<forall>y\<in>set after. apart x y"
  proof (intro ballI)
    fix x y assume "x \<in> set before" "y \<in> set after"
    then have "apart x c" "fst c \<le> fst y" using assms(1,3) by force+
    then show "apart x y" by (rule apart_trans)
  qed
  show ?thesis
  proof (cases after)
    case Nil
    then show ?thesis using assms by (auto simp: merge_next_def)
  next
    case (Cons n rest)
    have nr: "\<forall>x\<in>set rest. apart n x" using assms(2) Cons by simp
    show ?thesis
    proof (cases "fst c + snd c = fst n")
      case True
      then have e: "c' = (fst c, snd c + snd n)" "after' = rest" using assms(4) Cons by (auto simp: merge_next_def)
      have "\<forall>x\<in>set before. apart x c'" "\<forall>x\<in>set rest. apart c' x"
        using assms(1) nr True by (auto simp: e apart_def)
      then show ?thesis using e assms(1,2) Cons ba chunk_ok_join [of c n] cells_join [OF True] by auto
    next
      case False
      then have e: "c' = c" "after' = after" using assms(4) Cons by (auto simp: merge_next_def)
      have cn: "apart c n" using False assms(3) Cons by (auto simp: apart_def)
      have "\<forall>x\<in>set rest. apart c x" using nr cn apart_apart by blast
      then show ?thesis using e assms(1,2) Cons cn ba by auto
    qed
  qed
qed

lemma insert_ok:
  assumes "free_ok (free_list h)" "chunk_ok c" "cells c \<inter> all_cells (free_list h) = {}"
  shows "\<exists>cs. heap_insert_free_chunk c h = Some (h\<lparr>remaining := remaining h + snd c, free_list := cs\<rparr>) \<and> free_ok cs \<and>
    all_cells cs = all_cells (free_list h) \<union> cells c \<and> total_len cs = total_len (free_list h) + snd c"
proof -
  define before after where b: "before = takeWhile (\<lambda>x. \<not> fst c < fst x) (free_list h)" and a: "after = dropWhile (\<lambda>x. \<not> fst c < fst x) (free_list h)"
  note s = split_place [OF assms, folded a b]
  obtain before' c1 where m: "merge_last before c = (before', c1)" by (cases "merge_last before c")
  obtain c2 after' where n: "merge_next c1 after = (c2, after')" by (cases "merge_next c1 after")
  have f: "free_ok before" "free_ok after" using assms(1) unfolding s(1) by simp_all
  note mo = merge_last_ok [OF f(1) assms(2) s(2) m]
  have no: "free_ok (before' @ c2 # after') \<and> all_cells (before' @ c2 # after') = all_cells (before' @ [c1]) \<union> all_cells after \<and>
    total_len (before' @ c2 # after') = total_len (before' @ [c1]) + total_len after"
    using merge_next_ok [OF _ f(2) _ n] mo s(3) by auto
  have "after = [] \<or> fst c + snd c \<le> fst (hd after)" using s(3) by (cases after) auto
  then have "heap_insert_free_chunk c h = Some (h\<lparr>remaining := remaining h + snd c, free_list := before' @ c2 # after'\<rparr>)"
    by (simp add: heap_insert_free_chunk_def m n flip: a b)
  moreover have "all_cells (before' @ c2 # after') = all_cells (free_list h) \<union> cells c"
    "total_len (before' @ c2 # after') = total_len (free_list h) + snd c"
    using no mo unfolding s(1) by auto
  ultimately show ?thesis using no by blast
qed

section \<open>Well-formed heaps\<close>

definition block_ok :: "nat \<Rightarrow> chunk \<Rightarrow> bool" where
  "block_ok p c \<longleftrightarrow> chunk_ok c \<and> fst c + 24 \<le> p \<and> p \<le> fst c + snd c"

definition heap_ok :: "heap \<Rightarrow> bool" where
  "heap_ok h \<longleftrightarrow> free_ok (free_list h) \<and> remaining h = total_len (free_list h) \<and> low_watermark h = 0 \<and>
     (\<forall>p c. hdr h p = Some c \<longrightarrow> block_ok p c \<and> cells c \<inter> all_cells (free_list h) = {}) \<and>
     (\<forall>p q c d. hdr h p = Some c \<longrightarrow> hdr h q = Some d \<longrightarrow> p \<noteq> q \<longrightarrow> cells c \<inter> cells d = {})"

text \<open>The bytes of all allocations.\<close>

definition used_cells :: "heap \<Rightarrow> nat set" where
  "used_cells h = \<Union> (cells ` ran (hdr h))"

lemma heap_okI:
  assumes "free_ok (free_list h)" "remaining h = total_len (free_list h)" "low_watermark h = 0"
    and "\<And>p c. hdr h p = Some c \<Longrightarrow> block_ok p c" "\<And>p c. hdr h p = Some c \<Longrightarrow> cells c \<inter> all_cells (free_list h) = {}"
    and "\<And>p q c d. hdr h p = Some c \<Longrightarrow> hdr h q = Some d \<Longrightarrow> p \<noteq> q \<Longrightarrow> cells c \<inter> cells d = {}"
  shows "heap_ok h"
  using assms unfolding heap_ok_def by blast

lemma heap_okD:
  assumes "heap_ok h"
  shows "free_ok (free_list h)" "remaining h = total_len (free_list h)" "low_watermark h = 0"
    and "hdr h p = Some c \<Longrightarrow> block_ok p c" "hdr h p = Some c \<Longrightarrow> cells c \<inter> all_cells (free_list h) = {}"
    and "hdr h p = Some c \<Longrightarrow> hdr h q = Some d \<Longrightarrow> p \<noteq> q \<Longrightarrow> cells c \<inter> cells d = {}"
  using assms unfolding heap_ok_def by blast+

lemma used_cellsI: "hdr h p = Some c \<Longrightarrow> cells c \<subseteq> used_cells h"
  by (auto simp: used_cells_def ran_def)

lemma used_free_disjoint: "heap_ok h \<Longrightarrow> used_cells h \<inter> all_cells (free_list h) = {}"
  using heap_okD(5) [of h] by (fastforce simp: used_cells_def ran_def)

text \<open>A new free chunk that is not part of the heap yet.\<close>

lemma insert_heap_ok:
  assumes "heap_ok h" "chunk_ok c" "cells c \<inter> all_cells (free_list h) = {}" "cells c \<inter> used_cells h = {}"
  shows "\<exists>cs. heap_insert_free_chunk c h = Some (h\<lparr>remaining := remaining h + snd c, free_list := cs\<rparr>) \<and>
    heap_ok (h\<lparr>remaining := remaining h + snd c, free_list := cs\<rparr>) \<and> all_cells cs = all_cells (free_list h) \<union> cells c"
proof -
  obtain cs where cs: "heap_insert_free_chunk c h = Some (h\<lparr>remaining := remaining h + snd c, free_list := cs\<rparr>)"
    "free_ok cs" "all_cells cs = all_cells (free_list h) \<union> cells c" "total_len cs = total_len (free_list h) + snd c"
    using insert_ok [OF heap_okD(1) [OF assms(1)] assms(2,3)] by blast
  have "heap_ok (h\<lparr>remaining := remaining h + snd c, free_list := cs\<rparr>)"
  proof (rule heap_okI, goal_cases)
    case (5 p d)
    then show ?case using heap_okD(5) [OF assms(1), of p d] used_cellsI [of h p d] assms(4) cs(3) by auto
  qed (use cs heap_okD [OF assms(1)] in simp_all)
  then show ?thesis using cs by blast
qed

section \<open>Allocation and release\<close>

lemma first_fit_total: "list_all chunk_ok cs \<Longrightarrow> first_fit n before cs \<noteq> None"
  by (induction n before cs rule: first_fit.induct) (auto simp: chunk_ok_def)

lemma first_fit_None: "first_fit n before cs = Some None \<Longrightarrow> c \<in> set cs \<Longrightarrow> snd c < n"
  by (induction n before cs rule: first_fit.induct) (auto split: if_splits)

lemma first_fit_Some: "first_fit n before cs = Some (Some (b, c, a)) \<Longrightarrow> before @ cs = b @ c # a \<and> n \<le> snd c"
  by (induction n before cs rule: first_fit.induct) (auto split: if_splits)

definition take_len :: "nat \<Rightarrow> chunk \<Rightarrow> nat" where
  "take_len n c = (if snd c > n + 24 then n else snd c)"

definition take_ptr :: "nat \<Rightarrow> chunk \<Rightarrow> nat" where
  "take_ptr a c = (if a > 0 then round_up (fst c + 24) a else fst c + 24)"

definition take_rest :: "nat \<Rightarrow> chunk \<Rightarrow> chunk list" where
  "take_rest n c = (if snd c > n + 24 then [(fst c + n, snd c - n)] else [])"

lemma take_ptr_bounds:
  "fst c + 24 \<le> take_ptr a c" "take_ptr a c \<le> fst c + 24 + a" "0 < a \<Longrightarrow> a dvd take_ptr a c"
  using roundup_props [of a "fst c + 24"] by (auto simp: take_ptr_def round_up_def)

text \<open>What is left of a chunk and what is taken from it.\<close>

lemma take_rest_ok:
  assumes "chunk_ok c" "8 dvd n" "n \<le> snd c" "24 \<le> n"
  shows "cells (fst c, take_len n c) \<union> all_cells (take_rest n c) = cells c"
    "cells (fst c, take_len n c) \<inter> all_cells (take_rest n c) = {}" "free_ok (take_rest n c)"
    "chunk_ok (fst c, take_len n c)" "take_len n c + total_len (take_rest n c) = snd c" "n \<le> take_len n c"
    "x \<in> set (take_rest n c) \<Longrightarrow> fst c \<le> fst x \<and> fst x + snd x = fst c + snd c"
  using assms by (auto simp: take_len_def take_rest_def chunk_ok_def in_cells dvd_diff_nat split: if_splits)

lemma take_chunk_eq:
  assumes "chunk_ok c" "8 dvd n" "low_watermark h = 0"
  shows "take_chunk n a (before, c, after) h = Some (take_ptr a c, h\<lparr>free_list := before @ take_rest n c @ after,
    hdr := (hdr h)(take_ptr a c := Some (fst c, take_len n c)), remaining := remaining h - take_len n c\<rparr>)"
proof -
  have "(snd c - n) mod 8 = 0" using assms by (simp add: chunk_ok_def dvd_diff_nat flip: dvd_eq_mod_eq_0)
  then show ?thesis using assms(3)
    by (cases h) (auto simp: take_chunk_def heap_create_free_chunk_def take_len_def take_ptr_def take_rest_def Let_def guard_that_def split: if_splits)
qed

lemma free_ok_replace:
  assumes "free_ok (before @ c # after)" "free_ok new" "\<And>x. x \<in> set new \<Longrightarrow> fst c \<le> fst x \<and> fst x + snd x = fst c + snd c"
  shows "free_ok (before @ new @ after)"
proof -
  have "apart x z" if "x \<in> set before" "z \<in> set new" for x z
    using that assms(1) assms(3) [OF that(2)] by (intro apart_trans [of x c z]) auto
  moreover have "apart z y" if "y \<in> set after" "z \<in> set new" for z y
  proof -
    have "apart c y" using that assms(1) by simp
    then show ?thesis using assms(3) [OF that(2)] by (simp add: apart_def)
  qed
  ultimately show ?thesis using assms(1,2) by auto
qed

text \<open>
  The effect of an allocation: the block \<open>b\<close> behind the address \<open>p\<close> leaves the free list, nothing else changes, and
  freeing the address restores the heap.
\<close>

definition allocated :: "heap \<Rightarrow> nat \<Rightarrow> chunk \<Rightarrow> heap \<Rightarrow> bool" where
  "allocated h p b h' \<longleftrightarrow> heap_ok h' \<and> hdr h p = None \<and> hdr h' = (hdr h)(p \<mapsto> b) \<and> cells b \<subseteq> all_cells (free_list h) \<and>
     all_cells (free_list h') = all_cells (free_list h) - cells b \<and> (24 < snd b \<longrightarrow> miniheap_free p h' = Some h)"

lemma hdr_fresh:
  assumes "heap_ok h" "block_ok p b" "cells b \<subseteq> all_cells (free_list h)"
  shows "hdr h p = None"
proof (rule ccontr)
  assume "hdr h p \<noteq> None"
  then obtain d where d: "hdr h p = Some d" by blast
  have "p - 1 \<in> cells b" "p - 1 \<in> cells d"
    using assms(2) heap_okD(4) [OF assms(1) d] by (auto simp: block_ok_def in_cells)
  then show False using heap_okD(5) [OF assms(1) d] assms(3) by blast
qed

lemma remove_heap_ok:
  assumes "heap_ok h" "block_ok p b" "cells b \<subseteq> all_cells (free_list h)" "free_ok cs"
    and "all_cells cs = all_cells (free_list h) - cells b" "total_len (free_list h) = total_len cs + snd b"
  shows "allocated h p b (h\<lparr>free_list := cs, hdr := (hdr h)(p \<mapsto> b), remaining := remaining h - snd b\<rparr>)"
proof -
  let ?h = "h\<lparr>free_list := cs, hdr := (hdr h)(p \<mapsto> b), remaining := remaining h - snd b\<rparr>"
  note ok = heap_okD [OF assms(1)]
  have fresh: "hdr h p = None" by (rule hdr_fresh [OF assms(1-3)])
  have d: "cells b \<inter> cells c = {}" if "hdr h q = Some c" for q c using ok(5) [OF that] assms(3) by blast
  have hok: "heap_ok ?h"
  proof (rule heap_okI, goal_cases)
    case (4 q c)
    then show ?case using ok(4) [of q c] assms(2) by (auto split: if_splits)
  next
    case (5 q c)
    then show ?case using ok(5) [of q c] assms(5) by (auto split: if_splits)
  next
    case (6 q r c e)
    then show ?case using ok(6) [of q c r e] d [of q c] d [of r e] by (simp split: if_splits) blast+
  qed (use assms ok in simp_all)
  have "miniheap_free p ?h = Some h" if l: "24 < snd b"
  proof -
    have b: "chunk_ok b" "p \<noteq> 0" using assms(2) by (auto simp: block_ok_def)
    have m: "snd b mod 8 = 0" using b(1) by (simp add: chunk_ok_def flip: dvd_eq_mod_eq_0)
    let ?h1 = "?h\<lparr>hdr := (hdr ?h)(p := None)\<rparr>"
    obtain ds where ds: "heap_insert_free_chunk b ?h1 = Some (?h1\<lparr>remaining := remaining ?h1 + snd b, free_list := ds\<rparr>)"
      "free_ok ds" "all_cells ds = all_cells cs \<union> cells b"
      using insert_ok [of ?h1 b] assms(4,5) b(1) by auto
    have "ds = free_list h" using ds(2,3) assms(3,5) ok(1) by (intro free_ok_unique) auto
    moreover have "(hdr h)(p := None) = hdr h" using fresh by auto
    moreover have "remaining h - snd b + snd b = remaining h" using ok(2) assms(6) by simp
    ultimately have "?h1\<lparr>remaining := remaining ?h1 + snd b, free_list := ds\<rparr> = h" by simp
    then show ?thesis using ds(1) b(2) l m by (cases b) (simp add: miniheap_free_def heap_create_free_chunk_def)
  qed
  then show ?thesis using hok fresh assms(3,5) by (simp add: allocated_def)
qed

lemma take_chunk_ok:
  assumes "heap_ok h" "free_list h = before @ c # after" "8 dvd n" "24 + a \<le> n" "n \<le> snd c"
  shows "\<exists>h'. take_chunk n a (before, c, after) h = Some (take_ptr a c, h') \<and> allocated h (take_ptr a c) (fst c, take_len n c) h'"
proof -
  note ok = heap_okD [OF assms(1)]
  have fo: "free_ok (before @ c # after)" using ok(1) assms(2) by simp
  have c: "chunk_ok c" using fo by simp
  have n: "24 \<le> n" using assms(4) by simp
  note r = take_rest_ok [OF c assms(3,5) n]
  have b: "block_ok (take_ptr a c) (fst c, take_len n c)"
    using r(4,6) take_ptr_bounds(1,2) [where a = a and c = c] assms(4) by (simp add: block_ok_def)
  have out: "cells c \<inter> (all_cells before \<union> all_cells after) = {}"
    using fo by (fastforce simp: all_cells_def in_cells apart_def)
  have "allocated h (take_ptr a c) (fst c, take_len n c) (h\<lparr>free_list := before @ take_rest n c @ after,
      hdr := (hdr h)(take_ptr a c := Some (fst c, take_len n c)), remaining := remaining h - snd (fst c, take_len n c)\<rparr>)"
  proof (rule remove_heap_ok [OF assms(1) b])
    show "free_ok (before @ take_rest n c @ after)" by (rule free_ok_replace [OF fo r(3,7)])
    show "cells (fst c, take_len n c) \<subseteq> all_cells (free_list h)" using r(1) assms(2) by auto
    show "all_cells (before @ take_rest n c @ after) = all_cells (free_list h) - cells (fst c, take_len n c)"
      using r(1,2) out unfolding assms(2) by (simp add: Un_Diff) blast
    show "total_len (free_list h) = total_len (before @ take_rest n c @ after) + snd (fst c, take_len n c)"
      using r(5) assms(2) by simp
  qed
  then show ?thesis using take_chunk_eq [OF c assms(3) ok(3), of a before after] by simp
qed

text \<open>The search and the allocation from the chunk that is found.\<close>

definition serves :: "nat \<Rightarrow> nat \<Rightarrow> nat \<Rightarrow> chunk \<Rightarrow> bool" where
  "serves n a p b \<longleftrightarrow> n \<le> snd b \<and> fst b + 24 \<le> p \<and> p \<le> fst b + 24 + a \<and> (0 < a \<longrightarrow> a dvd p)"

lemma alloc_from_list_ok:
  assumes "heap_ok h" "8 dvd n" "24 + a \<le> n"
  obtains "alloc_from_list n a h = Some (None, h)" "\<forall>c\<in>set (free_list h). snd c < n"
  | p b h' where "alloc_from_list n a h = Some (Some p, h')" "allocated h p b h'" "serves n a p b"
      "\<exists>c\<in>set (free_list h). n \<le> snd c"
proof -
  have "list_all chunk_ok (free_list h)" using heap_okD(1) [OF assms(1)] by (simp add: free_ok_def)
  then obtain r where r: "first_fit n [] (free_list h) = Some r" using first_fit_total by blast
  show thesis
  proof (cases r)
    case None
    then show ?thesis using r that(1) first_fit_None [of n "[]" "free_list h"] by (simp add: alloc_from_list_def)
  next
    case (Some f)
    obtain before c after where f: "f = (before, c, after)" by (cases f)
    have c: "free_list h = before @ c # after" "n \<le> snd c" using first_fit_Some [of n "[]" "free_list h"] r Some f by auto
    obtain h' where "take_chunk n a (before, c, after) h = Some (take_ptr a c, h')" "allocated h (take_ptr a c) (fst c, take_len n c) h'"
      using take_chunk_ok [OF assms(1) c(1) assms(2,3) c(2)] by blast
    moreover have "serves n a (take_ptr a c) (fst c, take_len n c)"
      using take_ptr_bounds [where a = a and c = c] c(2) by (auto simp: serves_def take_len_def)
    ultimately show ?thesis using that(2) [of "take_ptr a c" h'] r Some f c by (auto simp: alloc_from_list_def)
  qed
qed

lemma miniheap_free_ok:
  assumes "heap_ok h" "hdr h p = Some b" "24 < snd b"
  shows "\<exists>h'. miniheap_free p h = Some h' \<and> heap_ok h' \<and> hdr h' = (hdr h)(p := None) \<and>
    all_cells (free_list h') = all_cells (free_list h) \<union> cells b"
proof -
  let ?h = "h\<lparr>hdr := (hdr h)(p := None)\<rparr>"
  note ok = heap_okD [OF assms(1)]
  have b: "block_ok p b" "chunk_ok b" "p \<noteq> 0" using ok(4) [OF assms(2)] by (auto simp: block_ok_def)
  have hok: "heap_ok ?h"
    by (rule heap_okI) (use ok in \<open>auto split: if_splits\<close>)
  have "cells b \<inter> used_cells ?h = {}" using ok(6) [OF assms(2)] by (fastforce simp: used_cells_def ran_def split: if_splits)
  then obtain cs where cs: "heap_insert_free_chunk b ?h = Some (?h\<lparr>remaining := remaining ?h + snd b, free_list := cs\<rparr>)"
    "heap_ok (?h\<lparr>remaining := remaining ?h + snd b, free_list := cs\<rparr>)" "all_cells cs = all_cells (free_list ?h) \<union> cells b"
    using insert_heap_ok [OF hok b(2)] ok(5) [OF assms(2)] by auto
  have "snd b mod 8 = 0" using b(2) by (simp add: chunk_ok_def flip: dvd_eq_mod_eq_0)
  then have "miniheap_free p h = Some (?h\<lparr>remaining := remaining ?h + snd b, free_list := cs\<rparr>)"
    using cs(1) assms(2,3) b(3) by (cases b) (simp add: miniheap_free_def heap_create_free_chunk_def)
  then show ?thesis using cs(2,3) by auto
qed

section \<open>Growing\<close>

text \<open>What \<open>page_alloc\<close> returns: pages that are not part of the heap.\<close>

definition pages_ok :: "nat \<Rightarrow> nat option \<Rightarrow> heap \<Rightarrow> bool" where
  "pages_ok n pages h \<longleftrightarrow> (case pages of None \<Rightarrow> True | Some q \<Rightarrow> 0 < q \<and> 4096 dvd q \<and>
     cells (q, round_up n 4096) \<inter> (all_cells (free_list h) \<union> used_cells h) = {})"

lemma end_outside:
  assumes "free_ok cs" "c \<in> set cs"
  shows "fst c + snd c \<notin> all_cells cs"
proof -
  obtain as bs where cs: "cs = as @ c # bs" using split_list [OF assms(2)] by blast
  have "fst c + snd c \<notin> all_cells (c # bs)" using assms(1) cs by (intro end_not_in) simp
  moreover have "fst c + snd c \<notin> all_cells as"
    using assms(1) cs by (fastforce simp: all_cells_def in_cells apart_def)
  ultimately show ?thesis by (simp add: cs)
qed

lemma interval_in_chunk:
  assumes "free_ok cs" "cells (q, l) \<subseteq> all_cells cs" "0 < l"
  shows "\<exists>c\<in>set cs. l \<le> snd c"
proof -
  have "q \<in> all_cells cs" using assms(2,3) by (auto simp: in_cells subset_iff)
  then obtain c where c: "c \<in> set cs" "q \<in> cells c" by (auto simp: all_cells_def)
  have "fst c + snd c \<notin> cells (q, l)" using end_outside [OF assms(1) c(1)] assms(2) by blast
  then show ?thesis using c by (intro bexI [of _ c]) (auto simp: in_cells)
qed

lemma heap_grow_ok:
  assumes "heap_ok h" "pages_ok n (Some q) h" "24 \<le> n"
  shows "\<exists>h'. heap_grow n (Some q) h = Some (to_ssize (round_up n 4096), h') \<and> heap_ok h' \<and> hdr h' = hdr h \<and>
    all_cells (free_list h') = all_cells (free_list h) \<union> cells (q, round_up n 4096) \<and> (\<exists>c\<in>set (free_list h'). n \<le> snd c)"
proof -
  have r: "n \<le> round_up n 4096" "4096 dvd round_up n 4096" using roundup_props(1,3) [of 4096 n] by (simp_all add: round_up_def)
  have "(8 :: nat) dvd 4096" by simp
  then have d: "8 dvd q" "8 dvd round_up n 4096"
    using assms(2) r(2) dvd_trans [of 8 4096 q] dvd_trans [of 8 4096 "round_up n 4096"] by (auto simp: pages_ok_def)
  have l: "24 < round_up n 4096" using r assms(3) dvd_imp_le [OF r(2)] by simp
  have c: "chunk_ok (q, round_up n 4096)" using assms(2) d l by (simp add: chunk_ok_def pages_ok_def)
  let ?h = "\<lambda>cs. h\<lparr>remaining := remaining h + round_up n 4096, free_list := cs\<rparr>"
  obtain cs where cs: "heap_insert_free_chunk (q, round_up n 4096) h = Some (?h cs)"
    "heap_ok (?h cs)" "all_cells cs = all_cells (free_list h) \<union> cells (q, round_up n 4096)"
    using insert_heap_ok [OF assms(1) c] assms(2) by (auto simp: pages_ok_def)
  have "\<exists>c\<in>set cs. round_up n 4096 \<le> snd c"
    using heap_okD(1) [OF cs(2)] cs(3) l by (intro interval_in_chunk [of cs q]) auto
  then have big: "\<exists>c\<in>set cs. n \<le> snd c" using r(1) le_trans by blast
  have keep: "heap_ok (g\<lparr>heap_base := b\<rparr>) \<longleftrightarrow> heap_ok g" "heap_ok (g\<lparr>heap_len := b\<rparr>) \<longleftrightarrow> heap_ok g" for g b
    by (simp_all add: heap_ok_def)
  have "round_up n 4096 mod 8 = 0" using d(2) by (simp flip: dvd_eq_mod_eq_0)
  then show ?thesis using cs big l by (auto simp: heap_grow_def heap_create_free_chunk_def keep Let_def)
qed

lemma to_ssize_small: "n < 2 ^ 63 \<Longrightarrow> 0 \<le> to_ssize n"
  by (simp add: to_ssize_def)

section \<open>Requests\<close>

text \<open>The size of the chunk for a request, without wrap-around.\<close>

lemma unat_align_of_le: "unat (align_of a) < 2 ^ 32"
  using unsigned_less [of "align_of a"] by simp

lemma alloc_size_unat:
  assumes "unat sz < 2 ^ 63"
  shows "unat (alloc_size sz a) = round_up (unat sz + 24) 8 + unat (align_of a)"
proof -
  have s: "unat (sz + 24) = unat sz + 24" using assms by (simp add: unat_word_ariths)
  have g: "\<not> sz + 24 < 24" by (simp add: word_less_nat_alt s)
  have r: "unat (ROUNDUP (sz + 24) 8) = round_up (unat sz + 24) 8"
    using unat_ROUNDUP [of 3 "sz + 24"] assms by (simp add: s round_up_def)
  have "round_up (unat sz + 24) 8 < unat sz + 32" using roundup_props(2) [of 8 "unat sz + 24"] by (simp add: round_up_def)
  then have "round_up (unat sz + 24) 8 + unat (align_of a) < 2 ^ 64" using assms unat_align_of_le [of a] by simp
  then show ?thesis using g r by (simp add: alloc_size_def Let_def unat_word_ariths unat_ucast_up)
qed

lemma pow2_dvd_align:
  assumes "al AND (al - 1) = 0" "0 < al"
  shows "unat al dvd unat (align_of al)" "8 dvd unat (align_of al)"
proof -
  have al: "unat al = 2 ^ log2_uint al" using assms by (intro ispow2_power) (simp_all add: ispow2_def and.commute)
  show "unat al dvd unat (align_of al)"
  proof (cases "al < 16")
    case True
    then have "(2 :: nat) ^ log2_uint al < 2 ^ 4" using al by (simp add: word_less_nat_alt)
    then have "log2_uint al \<le> 4" by (metis less_imp_le nat_power_less_imp_less zero_less_numeral)
    then have "(2 :: nat) ^ log2_uint al dvd 2 ^ 4" by (rule le_imp_power_dvd)
    then show ?thesis using True assms(2) al by (simp add: align_of_def)
  qed (simp add: align_of_def assms(2))
  show "8 dvd unat (align_of al)"
  proof (cases "al < 16")
    case False
    then have "(2 :: nat) ^ 4 \<le> 2 ^ log2_uint al" using al by (simp add: word_less_nat_alt)
    then have "4 \<le> log2_uint al" by (rule power_le_imp_le_exp [of 2, rotated]) simp
    then have "3 \<le> log2_uint al" by simp
    then have "(2 :: nat) ^ 3 dvd 2 ^ log2_uint al" by (rule le_imp_power_dvd)
    then show ?thesis using False assms(2) al by (simp add: align_of_def)
  qed (simp add: align_of_def assms(2))
qed

text \<open>
  \<open>miniheap_alloc\<close> on every branch. \<open>grown\<close> is the heap that the block is taken from: the heap before the call, or
  that heap with new pages when no free chunk is large enough.
\<close>

abbreviation request :: "u64 \<Rightarrow> u32 \<Rightarrow> nat" where
  "request sz al \<equiv> unat (alloc_size sz al)"

definition grown :: "nat \<Rightarrow> nat option \<Rightarrow> heap \<Rightarrow> heap \<Rightarrow> bool" where
  "grown n pages h h1 \<longleftrightarrow> h1 = h \<and> (\<exists>c\<in>set (free_list h). n \<le> snd c) \<or>
     (\<forall>c\<in>set (free_list h). snd c < n) \<and> (\<exists>k. heap_grow n pages h = Some (k, h1) \<and> 0 \<le> k)"

lemma request_props:
  assumes "unat sz < 2 ^ 63" "al AND (al - 1) = 0"
  shows "8 dvd request sz al" "24 + unat (align_of al) + unat sz \<le> request sz al"
proof -
  have "8 dvd unat (align_of al)"
    using pow2_dvd_align(2) [OF assms(2)] by (cases "0 < al") (simp_all add: align_of_def)
  then show "8 dvd request sz al" using assms(1) by (simp add: alloc_size_unat round_up_def)
  show "24 + unat (align_of al) + unat sz \<le> request sz al"
    using assms(1) roundup_props(1) [of 8 "unat sz + 24"] by (simp add: alloc_size_unat round_up_def)
qed

lemma miniheap_alloc_ok:
  assumes "heap_ok h" "unat sz < 2 ^ 63" "al AND (al - 1) = 0" "pages_ok (request sz al) pages h"
  obtains "miniheap_alloc sz al pages h = Some (None, h)" "pages = None" "\<forall>c\<in>set (free_list h). snd c < request sz al"
  | h1 where "miniheap_alloc sz al pages h = Some (None, h1)" "heap_ok h1" "hdr h1 = hdr h" "2 ^ 63 \<le> round_up (request sz al) 4096"
  | p b h1 h' where "miniheap_alloc sz al pages h = Some (Some p, h')" "grown (request sz al) pages h h1" "heap_ok h1" "hdr h1 = hdr h"
      "allocated h1 p b h'" "serves (request sz al) (unat (align_of al)) p b"
      "h1 = h \<or> pages \<noteq> None \<and> all_cells (free_list h1) = all_cells (free_list h) \<union> cells (the pages, round_up (request sz al) 4096)"
proof -
  let ?n = "request sz al" and ?a = "unat (align_of al)"
  note r = request_props [OF assms(2,3)]
  have an: "24 + ?a \<le> ?n" using r(2) by simp
  show thesis
  proof (rule alloc_from_list_ok [OF assms(1) r(1) an])
    assume none: "alloc_from_list ?n ?a h = Some (None, h)" "\<forall>c\<in>set (free_list h). snd c < ?n"
    show thesis
    proof (cases pages)
      case None
      then show ?thesis using none assms(3) that(1) by (simp add: miniheap_alloc_def heap_grow_def Let_def)
    next
      case (Some q)
      let ?k = "to_ssize (round_up ?n 4096)"
      obtain h1 where g: "heap_grow ?n (Some q) h = Some (?k, h1)" "heap_ok h1" "hdr h1 = hdr h"
        "all_cells (free_list h1) = all_cells (free_list h) \<union> cells (q, round_up ?n 4096)" "\<exists>c\<in>set (free_list h1). ?n \<le> snd c"
        using heap_grow_ok [OF assms(1), of ?n q] assms(4) an Some by auto
      show ?thesis
      proof (cases "0 \<le> ?k")
        case False
        then show ?thesis using none(1) g(1-3) Some assms(3) to_ssize_small [of "round_up ?n 4096"] that(2) [of h1]
          by (fastforce simp: miniheap_alloc_def Let_def)
      next
        case True
        show ?thesis
        proof (rule alloc_from_list_ok [OF g(2) r(1) an])
          assume "\<forall>c\<in>set (free_list h1). snd c < ?n"
          then show thesis using g(5) by fastforce
        next
          fix p b h'
          assume "alloc_from_list ?n ?a h1 = Some (Some p, h')" "allocated h1 p b h'" "serves ?n ?a p b"
          moreover have "grown ?n pages h h1" using none(2) g(1) Some True by (auto simp: grown_def)
          ultimately show thesis using none(1) g Some True assms(3) that(3) [of p h' h1 b] by (simp add: miniheap_alloc_def Let_def)
        qed
      qed
    qed
  next
    fix p b h'
    assume a: "alloc_from_list ?n ?a h = Some (Some p, h')" "allocated h p b h'" "serves ?n ?a p b" "\<exists>c\<in>set (free_list h). ?n \<le> snd c"
    then have "grown ?n pages h h" by (simp add: grown_def)
    then show thesis using a assms(1,3) that(3) [of p h' h b] by (simp add: miniheap_alloc_def Let_def)
  qed
qed

lemma miniheap_alloc_bad: "al AND (al - 1) \<noteq> 0 \<Longrightarrow> miniheap_alloc sz al pages h = Some (None, h)"
  by (simp add: miniheap_alloc_def)

lemma miniheap_init_ok:
  assumes "miniheap_init ptr len = Some h" "0 < ptr"
  shows "heap_ok h" "hdr h = (\<lambda>_. None)" "all_cells (free_list h) \<subseteq> {ptr ..< ptr + len}"
proof -
  let ?h = "\<lambda>p l. \<lparr>heap_base = p, heap_len = l, remaining = 0, low_watermark = 0, free_list = [], hdr = (\<lambda>_. None)\<rparr>"
  have r: "ptr \<le> round_up ptr 8" "8 dvd round_up ptr 8" using roundup_props(1,3) [of 8 ptr] by (simp_all add: round_up_def)
  obtain p l where pl: "8 dvd p" "0 < p" "{p ..< p + l} \<subseteq> {ptr ..< ptr + len}"
    "(if l > 0 then do { c \<leftarrow> heap_create_free_chunk p l; heap_insert_free_chunk c (?h p l) } else Some (?h p l)) = Some h"
  proof (cases "ptr mod 8 > 0")
    case True
    then show ?thesis using assms r that [of "round_up ptr 8" "len + ptr - round_up ptr 8"]
      by (auto simp: miniheap_init_def Let_def bind_Some_iff)
  next
    case False
    then show ?thesis using assms that [of ptr len] by (simp add: miniheap_init_def Let_def dvd_eq_mod_eq_0)
  qed
  have hok: "heap_ok (?h p l)" by (rule heap_okI) simp_all
  have "heap_ok h \<and> hdr h = (\<lambda>_. None) \<and> all_cells (free_list h) \<subseteq> cells (p, l)"
  proof (cases "l > 0")
    case True
    then have ins: "heap_insert_free_chunk (p, l) (?h p l) = Some h" and c: "chunk_ok (p, l)"
      using pl by (auto simp: heap_create_free_chunk_def bind_Some_iff chunk_ok_def)
    obtain cs where "heap_insert_free_chunk (p, l) (?h p l) = Some ((?h p l)\<lparr>remaining := l, free_list := cs\<rparr>)"
      "heap_ok ((?h p l)\<lparr>remaining := l, free_list := cs\<rparr>)" "all_cells cs = cells (p, l)"
      using insert_heap_ok [OF hok c] by (auto simp: used_cells_def)
    then show ?thesis using ins by simp
  qed (use pl hok in auto)
  then show "heap_ok h" "hdr h = (\<lambda>_. None)" "all_cells (free_list h) \<subseteq> {ptr ..< ptr + len}"
    using order_trans [OF _ pl(3)] by (simp_all add: cells_def)
qed

section \<open>Trimming\<close>

lemma trim_range_ok:
  "trim_range start fin sp ep = Some (sp', ep') \<Longrightarrow> start \<le> sp \<Longrightarrow> ep \<le> fin \<Longrightarrow> 4096 dvd sp \<Longrightarrow> 4096 dvd ep \<Longrightarrow>
    start \<le> sp' \<and> sp' < ep' \<and> ep' \<le> fin \<and> 4096 dvd sp' \<and> 4096 dvd ep' \<and>
    (sp' = start \<or> 24 \<le> sp' - start) \<and> (ep' = fin \<or> 24 \<le> fin - ep')"
proof (induction start fin sp ep rule: trim_range.induct)
  case (1 start fin sp ep)
  note p = "1.prems"(1) [unfolded trim_range.simps [of start fin sp ep]]
  consider "start \<noteq> sp" "sp - start < 24" "ep > sp" "trim_range start fin (sp + 4096) ep = Some (sp', ep')"
    | "sp = start \<or> 24 \<le> sp - start" "ep < fin" "fin - ep < 24" "ep > sp" "trim_range start fin sp (ep - 4096) = Some (sp', ep')"
    | "sp' = sp" "ep' = ep" "ep > sp" "sp = start \<or> 24 \<le> sp - start" "ep = fin \<or> 24 \<le> fin - ep"
    using p "1.prems"(2,3) by (auto split: if_splits)
  then show ?case
  proof cases
    case 1
    then show ?thesis using "1.IH"(1) "1.prems" by auto
  next
    case 2
    then show ?thesis using "1.IH"(2) "1.prems" by (auto simp: dvd_diff_nat)
  next
    case 3
    then show ?thesis using "1.prems" by auto
  qed
qed

text \<open>
  What is kept of a chunk and the pages that are given back are disjoint and make up the chunk.
\<close>

definition trimmed :: "chunk list \<Rightarrow> chunk list \<Rightarrow> chunk list \<Rightarrow> bool" where
  "trimmed cs kept freed \<longleftrightarrow> free_ok kept \<and> all_cells kept \<union> all_cells freed = all_cells cs \<and>
     all_cells kept \<inter> all_cells freed = {} \<and> total_len kept + total_len freed = total_len cs \<and>
     (\<forall>x\<in>set freed. 4096 dvd fst x \<and> 4096 dvd snd x) \<and>
     (\<forall>x\<in>set kept. \<exists>c\<in>set cs. fst c \<le> fst x \<and> fst x + snd x \<le> fst c + snd c)"

lemma trim_chunk_ok:
  assumes "chunk_ok c" "trim_chunk c = Some (kept, freed)"
  shows "trimmed [c] kept freed"
proof -
  obtain start len where c: "c = (start, len)" by (cases c)
  define fin where "fin = start + len"
  have r: "start \<le> round_up start 4096" "4096 dvd round_up start 4096" "round_down fin 4096 \<le> fin" "4096 dvd round_down fin 4096"
    using roundup_props(1,3) [of 4096 start] by (simp_all add: round_up_def round_down_def)
  show ?thesis
  proof (cases "trim_range start fin (round_up start 4096) (round_down fin 4096)")
    case None
    then have "kept = [c]" "freed = []" using assms(2) by (auto simp: c trim_chunk_def Let_def bind_Some_iff fin_def)
    then show ?thesis using assms(1) by (simp add: trimmed_def)
  next
    case (Some se)
    obtain sp ep where se: "se = (sp, ep)" by (cases se)
    note t = trim_range_ok [OF Some [unfolded se] r(1,3,2,4)]
    have k: "kept = (if sp = start then [] else [(start, sp - start)]) @ (if ep < fin then [(ep, fin - ep)] else [])" "freed = [(sp, ep - sp)]"
      using assms(2) Some se t
      by (auto simp: c trim_chunk_def Let_def bind_Some_iff fin_def heap_create_free_chunk_def split: if_splits)
    have "(8 :: nat) dvd 4096" by simp
    then have d: "8 dvd sp" "8 dvd ep" using t by (meson dvd_trans)+
    have s: "8 dvd start" "8 dvd fin" "0 < start" using assms(1) by (auto simp: c fin_def chunk_ok_def)
    show ?thesis unfolding trimmed_def k
      using t d s by (auto simp: c fin_def chunk_ok_def apart_def in_cells dvd_diff_nat)
  qed
qed

lemma trimmed_Cons:
  assumes "free_ok (c # cs)" "trimmed [c] kept freed" "trimmed cs kept' freed'"
  shows "trimmed (c # cs) (kept @ kept') (freed @ freed')"
proof -
  have "apart x y" if xy: "x \<in> set kept" "y \<in> set kept'" for x y
  proof -
    obtain d where "d \<in> set cs" "fst d \<le> fst y" using assms(3) xy(2) by (auto simp: trimmed_def)
    then show ?thesis using assms(1,2) xy(1) by (fastforce simp: trimmed_def apart_def)
  qed
  moreover have "cells c \<inter> all_cells cs = {}"
    using assms(1) by (fastforce simp: all_cells_def in_cells apart_def)
  ultimately show ?thesis using assms(2,3) unfolding trimmed_def by simp blast
qed

lemma trim_list_ok: "free_ok cs \<Longrightarrow> trim_list cs = Some (kept, freed) \<Longrightarrow> trimmed cs kept freed"
proof (induction cs arbitrary: kept freed)
  case Nil
  then show ?case by (simp add: trimmed_def)
next
  case (Cons c cs)
  then obtain k f k' f' where t: "trim_chunk c = Some (k, f)" "trim_list cs = Some (k', f')" "kept = k @ k'" "freed = f @ f'"
    by (auto simp: bind_Some_iff)
  show ?case unfolding t(3,4)
    using Cons.prems(1) Cons.IH [OF _ t(2)] by (intro trimmed_Cons trim_chunk_ok [OF _ t(1)]) auto
qed

lemma miniheap_trim_ok:
  assumes "heap_ok h" "miniheap_trim h = Some (freed, h')"
  shows "heap_ok h'" "hdr h' = hdr h" "trimmed (free_list h) (free_list h') freed"
proof -
  obtain kept where k: "trim_list (free_list h) = Some (kept, freed)"
    "h' = h\<lparr>free_list := kept, remaining := remaining h - sum_list (map snd freed)\<rparr>"
    using assms(2) by (auto simp: miniheap_trim_def bind_Some_iff)
  have t: "trimmed (free_list h) kept freed" by (rule trim_list_ok [OF heap_okD(1) [OF assms(1)] k(1)])
  have "heap_ok h'"
  proof (rule heap_okI, goal_cases)
    case 2
    then show ?case using heap_okD(2) [OF assms(1)] t by (simp add: k trimmed_def total_len_def) linarith
  next
    case (5 p c)
    then show ?case using heap_okD(5) [OF assms(1), of p c] t by (auto simp: k trimmed_def)
  qed (use heap_okD [OF assms(1)] t in \<open>simp_all add: k trimmed_def\<close>)
  then show "heap_ok h'" "hdr h' = hdr h" "trimmed (free_list h) (free_list h') freed" using t k(2) by simp_all
qed

end
