(* ===== verification/Miniheap_Props.thy ===== *)
theory Miniheap_Props
  imports Miniheap_Inv
begin

text \<open>
  The properties of the kernel heap: well-formedness in every reachable state, and what an allocation returns and how
  freeing undoes it. The interface of an allocator, with what its clients may rely on, is a locale interpreted by the
  heap.
\<close>

section \<open>The interface of an allocator\<close>

text \<open>
  Blocks that are handed out are disjoint from all that are live; freeing one keeps the others. A client may therefore
  use its blocks as memory of its own.
\<close>

locale allocator =
  fixes ok :: "'h \<Rightarrow> bool"
    and live :: "'h \<Rightarrow> nat \<Rightarrow> nat set option"
    and gets :: "'h \<Rightarrow> nat \<Rightarrow> 'h \<Rightarrow> bool"
    and frees :: "'h \<Rightarrow> nat \<Rightarrow> 'h \<Rightarrow> bool"
  assumes gets_ok: "ok h \<Longrightarrow> gets h p h' \<Longrightarrow> ok h'"
    and frees_ok: "ok h \<Longrightarrow> frees h p h' \<Longrightarrow> ok h'"
    and gets_live: "ok h \<Longrightarrow> gets h p h' \<Longrightarrow> \<exists>b. live h' = (live h)(p \<mapsto> b) \<and> (\<forall>q d. live h q = Some d \<longrightarrow> b \<inter> d = {})"
    and frees_live: "ok h \<Longrightarrow> frees h p h' \<Longrightarrow> live h' = (live h)(p := None)"
begin

inductive uses :: "'h \<Rightarrow> 'h \<Rightarrow> bool" where
  start: "uses h h"
| get: "uses h h' \<Longrightarrow> gets h' p h'' \<Longrightarrow> uses h h''"
| free: "uses h h' \<Longrightarrow> frees h' p h'' \<Longrightarrow> uses h h''"

lemma uses_ok: "uses h h' \<Longrightarrow> ok h \<Longrightarrow> ok h'"
  by (induction rule: uses.induct) (auto intro: gets_ok frees_ok)

text \<open>From an empty heap on, live blocks never overlap.\<close>

lemma uses_disjoint:
  assumes "uses h h'" "ok h" "live h = (\<lambda>_. None)" "live h' p = Some b" "live h' q = Some d" "p \<noteq> q"
  shows "b \<inter> d = {}"
  using assms
proof (induction arbitrary: p q b d rule: uses.induct)
  case (get h h' r h'')
  obtain e where "live h'' = (live h')(r \<mapsto> e)" "\<forall>q d. live h' q = Some d \<longrightarrow> e \<inter> d = {}"
    using gets_live [OF uses_ok [OF get.hyps(1) get.prems(1)] get.hyps(2)] by blast
  then show ?case using get.IH [OF get.prems(1,2)] get.prems by (auto split: if_splits)
next
  case (free h h' r h'')
  then show ?case using frees_live [OF uses_ok [OF free.hyps(1) free.prems(1)] free.hyps(2)] by (auto split: if_splits)
qed simp

end

definition heap_live :: "heap \<Rightarrow> nat \<Rightarrow> nat set option" where
  "heap_live h p = map_option cells (hdr h p)"

definition heap_gets :: "heap \<Rightarrow> nat \<Rightarrow> heap \<Rightarrow> bool" where
  "heap_gets h p h' \<longleftrightarrow> (\<exists>sz al pages. unat sz < 2 ^ 63 \<and> pages_ok (request sz al) pages h \<and>
     miniheap_alloc sz al pages h = Some (Some p, h'))"

definition heap_frees :: "heap \<Rightarrow> nat \<Rightarrow> heap \<Rightarrow> bool" where
  "heap_frees h p h' \<longleftrightarrow> p \<noteq> 0 \<and> miniheap_free p h = Some h'"

text \<open>The block of an allocation is new to the heap: it was free, or belongs to new pages.\<close>

lemma alloc_effect:
  assumes "heap_ok h" "unat sz < 2 ^ 63" "pages_ok (request sz al) pages h" "miniheap_alloc sz al pages h = Some (Some p, h')"
  shows "heap_ok h' \<and> (\<exists>b. hdr h' = (hdr h)(p \<mapsto> b) \<and> (\<forall>q d. hdr h q = Some d \<longrightarrow> cells b \<inter> cells d = {}))"
proof -
  have "al AND (al - 1) = 0" using assms(4) by (auto simp: miniheap_alloc_def split: if_splits)
  from miniheap_alloc_ok [OF assms(1,2) this assms(3)] show ?thesis
  proof cases
    case (3 p' b h1 h'')
    then have e: "p' = p" "h'' = h'" using assms(4) by simp_all
    have a: "heap_ok h'" "hdr h' = (hdr h)(p \<mapsto> b)" "cells b \<subseteq> all_cells (free_list h1)" using 3(4,5) by (auto simp: e allocated_def)
    have "cells b \<inter> cells d = {}" if "hdr h q = Some d" for q d
      using heap_okD(5) [OF 3(3), of q d] that 3(4) a(3) by auto
    then show ?thesis using a by blast
  qed (use assms(4) in simp_all)
qed

lemma free_effect:
  assumes "heap_ok h" "p \<noteq> 0" "miniheap_free p h = Some h'"
  shows "heap_ok h' \<and> hdr h' = (hdr h)(p := None)"
proof -
  obtain b where b: "hdr h p = Some b" "24 < snd b"
    using assms(2,3) by (auto simp: miniheap_free_def heap_create_free_chunk_def bind_Some_iff)
  show ?thesis using miniheap_free_ok [OF assms(1) b] assms(3) by auto
qed

interpretation miniheap: allocator heap_ok heap_live heap_gets heap_frees
proof (unfold_locales, goal_cases)
  case (1 h p h')
  then show ?case using alloc_effect by (auto simp: heap_gets_def)
next
  case (2 h p h')
  then show ?case using free_effect by (auto simp: heap_frees_def)
next
  case (3 h p h')
  then obtain sz al pages where "unat sz < 2 ^ 63" "pages_ok (request sz al) pages h" "miniheap_alloc sz al pages h = Some (Some p, h')"
    unfolding heap_gets_def by blast
  then obtain b where "hdr h' = (hdr h)(p \<mapsto> b)" "\<forall>q d. hdr h q = Some d \<longrightarrow> cells b \<inter> cells d = {}"
    using alloc_effect [OF 3(1)] by blast
  then have "heap_live h' = (heap_live h)(p \<mapsto> cells b)" "\<forall>q d. heap_live h q = Some d \<longrightarrow> cells b \<inter> d = {}"
    by (simp_all add: heap_live_def fun_eq_iff) blast
  then show ?case by blast
next
  case (4 h p h')
  then show ?case using free_effect by (fastforce simp: heap_frees_def heap_live_def fun_eq_iff)
qed

section \<open>Reachable heaps\<close>

text \<open>
  The operations on a heap: requests below half of the address space, with pages of \<open>page_alloc\<close> that are not part of
  the heap. An operation that fails an assertion is not a step.
\<close>

inductive heap_step :: "heap \<Rightarrow> heap \<Rightarrow> bool" where
  alloc: "unat sz < 2 ^ 63 \<Longrightarrow> pages_ok (request sz al) pages h \<Longrightarrow> miniheap_alloc sz al pages h = Some (r, h') \<Longrightarrow> heap_step h h'"
| free: "miniheap_free p h = Some h' \<Longrightarrow> heap_step h h'"
| realloc: "unat sz < 2 ^ 63 \<Longrightarrow> pages_ok (request sz 0) pages h \<Longrightarrow> miniheap_realloc p sz pages h = Some (r, h') \<Longrightarrow> heap_step h h'"
| trim: "miniheap_trim h = Some (freed, h') \<Longrightarrow> heap_step h h'"

lemma alloc_keeps_ok:
  assumes "heap_ok h" "unat sz < 2 ^ 63" "pages_ok (request sz al) pages h" "miniheap_alloc sz al pages h = Some (r, h')"
  shows "heap_ok h'"
proof (cases "al AND (al - 1) = 0 \<and> r = None")
  case True
  then have "al AND (al - 1) = 0" by simp
  from miniheap_alloc_ok [OF assms(1,2) this assms(3)] show ?thesis using assms(1,4) True by cases auto
next
  case False
  then show ?thesis using assms miniheap_alloc_bad [of al sz pages h] alloc_effect [OF assms(1-3)] by (cases r) auto
qed

lemma free_keeps_ok: "heap_ok h \<Longrightarrow> miniheap_free p h = Some h' \<Longrightarrow> heap_ok h'"
  using free_effect [of h p h'] by (cases "p = 0") (auto simp: miniheap_free_def)

lemma heap_step_ok: "heap_step h h' \<Longrightarrow> heap_ok h \<Longrightarrow> heap_ok h'"
proof (induction rule: heap_step.induct)
  case (realloc sz pages h p r h')
  show ?case
  proof (cases "p = 0 \<or> sz = 0")
    case True
    then show ?thesis using realloc alloc_keeps_ok [of h sz 0 pages r h'] free_keeps_ok [of h p h']
      by (auto simp: miniheap_realloc_def bind_Some_iff split: if_splits)
  next
    case False
    then obtain q h1 where a: "miniheap_alloc sz 0 pages h = Some (q, h1)"
      and f: "q = None \<and> h' = h1 \<or> miniheap_free p h1 = Some h'"
      using realloc.hyps(3) by (auto simp: miniheap_realloc_def bind_Some_iff split: option.splits)
    then show ?thesis using alloc_keeps_ok [OF realloc.prems realloc.hyps(1,2) a] free_keeps_ok [of h1 p h'] by blast
  qed
qed (auto intro: alloc_keeps_ok free_keeps_ok miniheap_trim_ok(1))

lemma heap_steps_ok: "heap_step\<^sup>*\<^sup>* h h' \<Longrightarrow> heap_ok h \<Longrightarrow> heap_ok h'"
  by (induction rule: rtranclp_induct) (auto intro: heap_step_ok)

text \<open>The number of free bytes.\<close>

lemma card_cells: "card (cells c) = snd c"
  by (simp add: cells_def)

lemma finite_all_cells: "finite (all_cells cs)"
  by (simp add: all_cells_def cells_def)

lemma card_all_cells: "free_ok cs \<Longrightarrow> card (all_cells cs) = total_len cs"
proof (induction cs)
  case (Cons c cs)
  have "cells c \<inter> all_cells cs = {}" using all_cells_after [OF Cons.prems] by (fastforce simp: in_cells)
  moreover have "finite (cells c)" by (simp add: cells_def)
  ultimately show ?case using Cons finite_all_cells [of cs] by (simp add: card_Un_disjoint card_cells)
qed simp

lemma foldl_total: "foldl (\<lambda>n c. n + snd c) k cs = k + total_len cs"
  by (induction cs arbitrary: k) auto

definition stats_free :: "nat \<times> nat \<times> nat \<times> nat \<times> nat \<Rightarrow> nat" where
  "stats_free s = (case s of (start, len, free, max_chunk, low) \<Rightarrow> free)"

definition demo_heap :: heap where
  "demo_heap = \<lparr>heap_base = 4096, heap_len = 4096, remaining = 4096, low_watermark = 0, free_list = [(4096, 4096)], hdr = (\<lambda>_. None)\<rparr>"

lemma demo_heap_init: "miniheap_init 4096 4096 = Some demo_heap"
  by (simp add: miniheap_init_def demo_heap_def heap_create_free_chunk_def heap_insert_free_chunk_def merge_last_def merge_next_def)

lemma demo_request: "request 100 16 = 144" "align_of 16 = 16"
  by (simp_all add: alloc_size_unat align_of_def round_up_def)

lemma demo_pages: "pages_ok n None h"
  by (simp add: pages_ok_def)

lemma demo_alloc: "miniheap_alloc 100 16 None demo_heap =
  Some (Some 4128, demo_heap\<lparr>free_list := [(4240, 3952)], hdr := [4128 \<mapsto> (4096, 144)], remaining := 3952\<rparr>)"
  by (simp add: miniheap_alloc_def demo_request alloc_from_list_def demo_heap_def take_chunk_def heap_create_free_chunk_def round_up_def Let_def)

lemma small_request:
  assumes "unat sz < 2 ^ 62"
  shows "round_up (request sz al) 4096 < 2 ^ 63"
proof -
  have "round_up (unat sz + 24) 8 \<le> unat sz + 31" using roundup_props(2) [of 8 "unat sz + 24"] by (simp add: round_up_def)
  then have "request sz al < 2 ^ 62 + 31 + 2 ^ 32" using assms alloc_size_unat [of sz al] unat_align_of_le [of al] by simp
  moreover have "round_up (request sz al) 4096 < request sz al + 4096" using roundup_props(2) [of 4096 "request sz al"] by (simp add: round_up_def)
  ultimately show ?thesis by simp
qed

section \<open>Properties\<close>

text \<open>
  C13: the heap is well formed in every state that can be reached from \<open>miniheap_init\<close> by allocating, freeing,
  reallocating and trimming: the free list is sorted by address and fully coalesced, every chunk and every
  allocation is aligned to 8 bytes and large enough to hold the list node or the header, allocations overlap neither
  each other nor a free chunk, each returned address has its header inside its block, and both the counter
  \<open>remaining\<close> and the statistics give the number of free bytes. (The low watermark stays 0.)
\<close>

theorem miniheap_well_formed:
  assumes "miniheap_init ptr len = Some h0" "0 < ptr" "heap_step\<^sup>*\<^sup>* h0 h"
  shows "heap_ok h \<and> remaining h = card (all_cells (free_list h)) \<and> stats_free (miniheap_get_stats h) = remaining h"
proof -
  have ok: "heap_ok h" by (rule heap_steps_ok [OF assms(3) miniheap_init_ok(1) [OF assms(1,2)]])
  then show ?thesis using heap_okD(1,2) [OF ok]
    by (simp add: card_all_cells miniheap_get_stats_def stats_free_def foldl_total)
qed

theorem miniheap_well_formed_witness:
  "heap_ok (demo_heap\<lparr>free_list := [(4240, 3952)], hdr := [4128 \<mapsto> (4096, 144)], remaining := 3952\<rparr>)"
proof -
  have "heap_step\<^sup>*\<^sup>* demo_heap (demo_heap\<lparr>free_list := [(4240, 3952)], hdr := [4128 \<mapsto> (4096, 144)], remaining := 3952\<rparr>)"
    by (rule r_into_rtranclp, rule heap_step.alloc [OF _ demo_pages demo_alloc]) simp
  then show ?thesis using miniheap_well_formed [OF demo_heap_init] by simp
qed

text \<open>
  C12: \<open>miniheap_alloc\<close> and \<open>miniheap_free\<close>, for sizes below \<open>2 ^ 62\<close>, a power of two or 0 as alignment, and pages
  from \<open>page_alloc\<close> that are not part of the heap. An allocation never fails an assertion. It returns null only when
  no free chunk is large enough and there are no more pages. Otherwise the address is aligned as requested, the
  requested bytes and the header before them lie in a block that overlaps no other allocation, and all other
  allocations are kept. If the block has more than 24 bytes, freeing the address gives back exactly the heap that the
  block was taken from: the heap before the call, or that heap with the new pages. A block of 24 bytes, which only a
  request for 0 bytes without alignment can get, cannot be freed: the assertion of \<open>heap_create_free_chunk\<close> that a
  free chunk is larger than its header fails.
\<close>

theorem miniheap_alloc_free:
  assumes "heap_ok h" "unat sz < 2 ^ 62" "al AND (al - 1) = 0" "pages_ok (request sz al) pages h"
  shows "\<exists>r h'. miniheap_alloc sz al pages h = Some (r, h') \<and>
    (case r of
       None \<Rightarrow> h' = h \<and> pages = None \<and> (\<forall>c\<in>set (free_list h). snd c < request sz al)
     | Some p \<Rightarrow> \<exists>b h1. grown (request sz al) pages h h1 \<and> (al = 0 \<or> unat al dvd p) \<and>
         {p - 24 ..< p + unat sz} \<subseteq> cells b \<and> (\<forall>q d. hdr h q = Some d \<longrightarrow> cells b \<inter> cells d = {}) \<and>
         hdr h' = (hdr h)(p \<mapsto> b) \<and> miniheap_free p h' = (if 24 < snd b then Some h1 else None) \<and>
         (0 < sz \<or> 0 < al \<longrightarrow> 24 < snd b))"
proof -
  have z: "unat sz < 2 ^ 63" using assms(2) by simp
  from miniheap_alloc_ok [OF assms(1) z assms(3,4)] show ?thesis
  proof cases
    case 1
    then show ?thesis by simp
  next
    case 2
    then show ?thesis using small_request [OF assms(2), of al] by simp
  next
    case (3 p b h1 h')
    let ?n = "request sz al" and ?a = "unat (align_of al)"
    have n: "24 + ?a + unat sz \<le> ?n" by (rule request_props(2) [OF z assms(3)])
    have s: "?n \<le> snd b" "fst b + 24 \<le> p" "p \<le> fst b + 24 + ?a" "0 < ?a \<Longrightarrow> ?a dvd p" using 3(6) by (auto simp: serves_def)
    have a0: "0 < ?a" if "0 < al" using that by (auto simp: align_of_def unat_gt_0 word_neq_0_conv)
    then have "al = 0 \<or> unat al dvd p"
      using s(4) pow2_dvd_align(1) [OF assms(3)] dvd_trans by (cases "al = 0") (auto simp: word_neq_0_conv)
    moreover have "{p - 24 ..< p + unat sz} \<subseteq> cells b" using n s(1-3) by (auto simp: in_cells)
    moreover have "24 < snd b" if "0 < sz \<or> 0 < al" using that n s(1) a0 unat_gt_0 [of sz] by (auto simp: word_less_nat_alt)
    moreover have "\<forall>q d. hdr h q = Some d \<longrightarrow> cells b \<inter> cells d = {}"
      using heap_okD(5) [OF 3(3)] 3(4,5) by (fastforce simp: allocated_def)
    moreover have h: "hdr h' = (hdr h)(p \<mapsto> b)" using 3(4,5) by (simp add: allocated_def)
    moreover have "miniheap_free p h' = (if 24 < snd b then Some h1 else None)"
    proof (cases "24 < snd b")
      case True
      then show ?thesis using 3(5) by (simp add: allocated_def)
    next
      case False
      then show ?thesis using h s(2) by (cases b) (simp add: miniheap_free_def heap_create_free_chunk_def)
    qed
    ultimately have "\<exists>b h1. grown ?n pages h h1 \<and> (al = 0 \<or> unat al dvd p) \<and> {p - 24 ..< p + unat sz} \<subseteq> cells b \<and>
        (\<forall>q d. hdr h q = Some d \<longrightarrow> cells b \<inter> cells d = {}) \<and> hdr h' = (hdr h)(p \<mapsto> b) \<and>
        miniheap_free p h' = (if 24 < snd b then Some h1 else None) \<and> (0 < sz \<or> 0 < al \<longrightarrow> 24 < snd b)"
      using 3(2) by blast
    then show ?thesis using 3(1) by (intro exI [of _ "Some p"] exI [of _ h']) simp
  qed
qed

theorem miniheap_alloc_free_witness:
  "\<exists>p h'. miniheap_alloc 100 16 None demo_heap = Some (Some p, h') \<and> 16 dvd p \<and> miniheap_free p h' = Some demo_heap"
proof -
  let ?h = "demo_heap\<lparr>free_list := [(4240, 3952)], hdr := [4128 \<mapsto> (4096, 144)], remaining := 3952\<rparr>"
  have ok: "heap_ok demo_heap" by (rule miniheap_init_ok [OF demo_heap_init]) simp
  have s: "unat (100 :: u64) < 2 ^ 62" "(16 :: u32) AND (16 - 1) = 0" by simp_all
  obtain h1 where g: "grown 144 None demo_heap h1" "miniheap_free 4128 ?h = Some h1"
    using miniheap_alloc_free [OF ok s demo_pages] by (auto simp: demo_alloc demo_request)
  then have "h1 = demo_heap" by (auto simp: grown_def demo_heap_def heap_grow_def)
  then show ?thesis using g(2) by (simp add: demo_alloc)
qed

end
