(* ===== verification/Bio_Registry.thy ===== *)
theory Bio_Registry
  imports Prelude
begin

text \<open>
  The list of block devices and their reference counts (\<open>lib/bio/bio.c\<close>, \<open>subdev.c\<close>): who looks a device up holds
  a reference, and the last one to let go closes it, and with it the parent of a subdevice. Devices are named by
  their address. A locale states what clients rely on.
\<close>

section \<open>State and operations\<close>

record registry =
  dev_list :: "nat list"
  dev_name :: "nat \<Rightarrow> string"
  dev_ref :: "nat \<Rightarrow> int"
  dev_parent :: "nat \<Rightarrow> nat option"

definition bdev_inc_ref :: "nat \<Rightarrow> registry \<Rightarrow> registry" where
  "bdev_inc_ref d s = s\<lparr>dev_ref := (dev_ref s)(d := dev_ref s d + 1)\<rparr>"

text \<open>\<open>bdev_dec_ref\<close>, with \<open>subdev_close\<close> as the close hook of subdevices.\<close>

partial_function (option) bdev_dec_ref :: "nat \<Rightarrow> registry \<Rightarrow> registry option" where
  "bdev_dec_ref d s =
     (let oldval = dev_ref s d; s1 = s\<lparr>dev_ref := (dev_ref s)(d := oldval - 1)\<rparr> in
      if oldval = 1
      then guard_that (d \<notin> set (dev_list s1)) \<bind> (\<lambda>_.
        case dev_parent s1 d of
          None \<Rightarrow> Some s1
        | Some p \<Rightarrow> bdev_dec_ref p s1 \<bind> (\<lambda>s2. Some (s2\<lparr>dev_parent := (dev_parent s2)(d := None)\<rparr>)))
      else Some s1)"

fun open_loop :: "string \<Rightarrow> nat list \<Rightarrow> registry \<Rightarrow> (nat option \<times> registry) option" where
  "open_loop name [] s = Some (None, s)"
| "open_loop name (entry # rest) s = do {
     guard_that (dev_ref s entry > 0);
     if dev_name s entry = name then Some (Some entry, bdev_inc_ref entry s) else open_loop name rest s
   }"

definition bio_open :: "string \<Rightarrow> registry \<Rightarrow> (nat option \<times> registry) option" where
  "bio_open name s = open_loop name (dev_list s) s"

definition bio_close :: "nat \<Rightarrow> registry \<Rightarrow> registry option" where
  "bio_close d s = bdev_dec_ref d s"

definition bio_register_device :: "nat \<Rightarrow> registry \<Rightarrow> registry" where
  "bio_register_device d s = (let s = bdev_inc_ref d s in s\<lparr>dev_list := dev_list s @ [d]\<rparr>)"

definition bio_unregister_device :: "nat \<Rightarrow> registry \<Rightarrow> registry option" where
  "bio_unregister_device d s = bdev_dec_ref d (s\<lparr>dev_list := remove1 d (dev_list s)\<rparr>)"

text \<open>
  \<open>bio_publish_subdevice\<close>: \<open>new\<close> is the memory of the new device, \<open>fits\<close> the result of the checks on the range of
  blocks and of setting up the device.
\<close>

definition bio_publish_subdevice :: "string \<Rightarrow> string \<Rightarrow> nat option \<Rightarrow> (nat \<Rightarrow> status) \<Rightarrow> registry \<Rightarrow> (status \<times> registry) option" where
  "bio_publish_subdevice parent_dev subdev new fits s = do {
     (parent, s) \<leftarrow> bio_open parent_dev s;
     (case parent of
        None \<Rightarrow> Some (ERR_NOT_FOUND, s)
      | Some p \<Rightarrow>
          (case new of
             None \<Rightarrow> do { s \<leftarrow> bio_close p s; Some (ERR_NO_MEMORY, s) }
           | Some d \<Rightarrow>
               if fits p < 0 then do { s \<leftarrow> bio_close p s; Some (fits p, s) }
               else
                 let s = s\<lparr>dev_name := (dev_name s)(d := subdev), dev_ref := (dev_ref s)(d := 0), dev_parent := (dev_parent s)(d := Some p)\<rparr>
                 in Some (NO_ERROR, bio_register_device d s)))
   }"

section \<open>Reference counts\<close>

text \<open>
  A device is referenced by the list, by its subdevices, and by the clients; \<open>held\<close> counts the references of the
  latter. Subdevices do not form a cycle. \<open>G\<close> is the set of the subdevices that are just being closed, whose
  reference to the parent counts as a client's.
\<close>

definition children :: "nat set \<Rightarrow> registry \<Rightarrow> nat \<Rightarrow> nat set" where
  "children G s d = {c. c \<notin> G \<and> dev_parent s c = Some d}"

definition refs_due :: "nat set \<Rightarrow> (nat \<Rightarrow> nat) \<Rightarrow> registry \<Rightarrow> nat \<Rightarrow> nat" where
  "refs_due G held s d = of_bool (d \<in> set (dev_list s)) + held d + card (children G s d)"

definition ranked :: "(nat \<Rightarrow> nat) \<Rightarrow> registry \<Rightarrow> bool" where
  "ranked r s \<longleftrightarrow> (\<forall>d p. dev_parent s d = Some p \<longrightarrow> r p < r d)"

definition registry_ok_but :: "nat set \<Rightarrow> (nat \<Rightarrow> nat) \<Rightarrow> registry \<Rightarrow> bool" where
  "registry_ok_but G held s \<longleftrightarrow> distinct (dev_list s) \<and> finite (dom (dev_parent s)) \<and> (\<exists>r. ranked r s) \<and>
     (\<forall>d. dev_ref s d = int (refs_due G held s d))"

abbreviation registry_ok :: "(nat \<Rightarrow> nat) \<Rightarrow> registry \<Rightarrow> bool" where
  "registry_ok \<equiv> registry_ok_but {}"

definition plus_ref :: "nat \<Rightarrow> (nat \<Rightarrow> nat) \<Rightarrow> nat \<Rightarrow> nat" where
  "plus_ref d held = held(d := held d + 1)"

definition minus_ref :: "nat \<Rightarrow> (nat \<Rightarrow> nat) \<Rightarrow> nat \<Rightarrow> nat" where
  "minus_ref d held = held(d := held d - 1)"

lemma minus_plus_ref [simp]: "minus_ref d (plus_ref d held) = held"
  by (simp add: minus_ref_def plus_ref_def)

lemma finite_children: "finite (dom (dev_parent s)) \<Longrightarrow> finite (children G s d)"
  by (rule finite_subset [of _ "dom (dev_parent s)"]) (auto simp: children_def)

lemma open_loop_ok:
  assumes "registry_ok held s" "set ds \<subseteq> set (dev_list s)"
  shows "open_loop name ds s = Some (None, s) \<and> name \<notin> dev_name s ` set ds \<or>
    (\<exists>d\<in>set ds. dev_name s d = name \<and> open_loop name ds s = Some (Some d, bdev_inc_ref d s))"
  using assms by (induction name ds s rule: open_loop.induct) (auto simp: registry_ok_but_def refs_due_def)

lemma inc_ref_ok: "registry_ok_but G held s \<Longrightarrow> registry_ok_but G (plus_ref d held) (bdev_inc_ref d s)"
  by (auto simp: registry_ok_but_def bdev_inc_ref_def refs_due_def children_def plus_ref_def ranked_def)

lemma dec_ref_here:
  assumes "registry_ok_but G held s" "0 < held d"
  shows "registry_ok_but G (minus_ref d held) (s\<lparr>dev_ref := (dev_ref s)(d := dev_ref s d - 1)\<rparr>)"
  using assms by (auto simp: registry_ok_but_def refs_due_def children_def minus_ref_def ranked_def)

text \<open>A subdevice that is being closed hands its reference to the parent over to the caller.\<close>

lemma closing_child:
  assumes "registry_ok_but G held s" "dev_parent s d = Some p" "d \<notin> G"
  shows "registry_ok_but (insert d G) (plus_ref p held) s"
proof -
  have f: "finite (children G s e)" for e using assms(1) by (simp add: registry_ok_but_def finite_children)
  have "children (insert d G) s e = children G s e - {d}" "d \<in> children G s e \<longleftrightarrow> e = p" for e
    using assms(2,3) by (auto simp: children_def)
  then have "refs_due (insert d G) (plus_ref p held) s e = refs_due G held s e" for e
    using card_Suc_Diff1 [OF f, of d e] by (auto simp: refs_due_def plus_ref_def)
  then show ?thesis using assms(1) by (simp add: registry_ok_but_def)
qed

lemma closed_child:
  assumes "registry_ok_but (insert d G) held s"
  shows "registry_ok_but G held (s\<lparr>dev_parent := (dev_parent s)(d := None)\<rparr>)"
proof -
  have "children G (s\<lparr>dev_parent := (dev_parent s)(d := None)\<rparr>) e = children (insert d G) s e" for e
    by (auto simp: children_def)
  moreover have "ranked r (s\<lparr>dev_parent := (dev_parent s)(d := None)\<rparr>)" if "ranked r s" for r
    using that by (simp add: ranked_def)
  ultimately show ?thesis using assms by (auto simp: registry_ok_but_def refs_due_def)
qed

lemma dec_ref_ok:
  assumes "ranked r s" "registry_ok_but G held s" "0 < held d" "\<And>g. g \<in> G \<Longrightarrow> r d < r g"
  shows "\<exists>s'. bdev_dec_ref d s = Some s' \<and> registry_ok_but G (minus_ref d held) s' \<and> dev_list s' = dev_list s \<and> dev_name s' = dev_name s"
  using assms
proof (induction "r d" arbitrary: d s held G rule: less_induct)
  case less
  let ?s = "s\<lparr>dev_ref := (dev_ref s)(d := dev_ref s d - 1)\<rparr>"
  have ref: "dev_ref s d = int (refs_due G held s d)" using less.prems(2) by (simp add: registry_ok_but_def)
  note here = dec_ref_here [OF less.prems(2,3)]
  have out: "d \<notin> set (dev_list s)" if "dev_ref s d = 1"
    using that ref less.prems(3) by (auto simp: refs_due_def split: if_splits)
  show ?case
  proof (cases "dev_ref s d = 1 \<and> dev_parent s d \<noteq> None")
    case False
    then have "bdev_dec_ref d s = Some ?s" using out by (subst bdev_dec_ref.simps) (auto simp: Let_def)
    then show ?thesis using here by simp
  next
    case True
    then obtain p where p: "dev_parent s d = Some p" "dev_ref s d = 1" by blast
    have lt: "r p < r d" using less.prems(1) p(1) by (auto simp: ranked_def)
    have "d \<notin> G" using less.prems(4) by blast
    then have ok: "registry_ok_but (insert d G) (plus_ref p (minus_ref d held)) ?s"
      using p(1) by (intro closing_child [OF here]) simp_all
    have rs: "ranked r ?s" using less.prems(1) by (simp add: ranked_def)
    obtain s' where s': "bdev_dec_ref p ?s = Some s'" "registry_ok_but (insert d G) (minus_ref d held) s'"
      "dev_list s' = dev_list s" "dev_name s' = dev_name s"
    proof -
      have "0 < plus_ref p (minus_ref d held) p" by (simp add: plus_ref_def)
      moreover have "r p < r g" if "g \<in> insert d G" for g using that less.prems(4) [of g] lt by auto
      ultimately show ?thesis using less.hyps [OF lt rs ok] that by auto
    qed
    have "bdev_dec_ref d s = Some (s'\<lparr>dev_parent := (dev_parent s')(d := None)\<rparr>)"
      using p out s'(1) by (subst bdev_dec_ref.simps) (simp add: Let_def)
    then show ?thesis using closed_child [OF s'(2)] s'(3,4) by simp
  qed
qed

section \<open>The interface for clients\<close>

locale device_refs =
  fixes ok :: "(nat \<Rightarrow> nat) \<Rightarrow> 'r \<Rightarrow> bool"
    and open_dev :: "string \<Rightarrow> 'r \<Rightarrow> (nat option \<times> 'r) option"
    and close_dev :: "nat \<Rightarrow> 'r \<Rightarrow> 'r option"
  assumes open_ok: "ok held s \<Longrightarrow> \<exists>r s'. open_dev name s = Some (r, s') \<and>
      (case r of None \<Rightarrow> ok held s' | Some d \<Rightarrow> ok (plus_ref d held) s')"
    and close_ok: "ok held s \<Longrightarrow> 0 < held d \<Longrightarrow> \<exists>s'. close_dev d s = Some s' \<and> ok (minus_ref d held) s'"
begin

text \<open>Opening a device and closing it again leaves all counts as they were.\<close>

lemma open_close:
  assumes "ok held s" "open_dev name s = Some (Some d, s1)"
  shows "\<exists>s2. close_dev d s1 = Some s2 \<and> ok held s2"
proof -
  have "ok (plus_ref d held) s1" using open_ok [OF assms(1), of name] assms(2) by auto
  from close_ok [OF this, of d] show ?thesis by (simp add: plus_ref_def [of d held, THEN fun_cong])
qed

end

interpretation bio_refs: device_refs registry_ok bio_open bio_close
proof (unfold_locales, goal_cases)
  case (1 held s name)
  then show ?case using open_loop_ok [OF 1, of "dev_list s" name] inc_ref_ok [OF 1] by (force simp: bio_open_def)
next
  case (2 held s d)
  then obtain r where "ranked r s" by (auto simp: registry_ok_but_def)
  then show ?case using dec_ref_ok [of r s "{}" held d] 2 by (auto simp: bio_close_def)
qed

section \<open>Registration\<close>

lemma register_ok:
  assumes "registry_ok held s" "d \<notin> set (dev_list s)"
  shows "registry_ok held (bio_register_device d s)"
  using assms by (auto simp: registry_ok_but_def bio_register_device_def bdev_inc_ref_def refs_due_def children_def ranked_def Let_def)

lemma unregister_ok:
  assumes "registry_ok held s" "d \<in> set (dev_list s)"
  shows "\<exists>s'. bio_unregister_device d s = Some s' \<and> registry_ok held s' \<and> dev_list s' = remove1 d (dev_list s)"
proof -
  let ?s = "s\<lparr>dev_list := remove1 d (dev_list s)\<rparr>"
  have "registry_ok (plus_ref d held) ?s"
    using assms by (auto simp: registry_ok_but_def refs_due_def children_def plus_ref_def ranked_def)
  moreover obtain r where "ranked r ?s" using assms(1) by (auto simp: registry_ok_but_def ranked_def)
  ultimately show ?thesis
    using dec_ref_ok [of r ?s "{}" "plus_ref d held" d] by (auto simp: bio_unregister_device_def plus_ref_def [of d held, THEN fun_cong])
qed

text \<open>A new subdevice takes the reference to its parent.\<close>

lemma adopt_ok:
  assumes "registry_ok held s" "0 < held p" "dev_parent s d = None" "refs_due {} held s d = 0"
  shows "registry_ok (minus_ref p held) (s\<lparr>dev_name := N, dev_ref := (dev_ref s)(d := 0), dev_parent := (dev_parent s)(d := Some p)\<rparr>)"
    (is "registry_ok _ ?s")
proof -
  have fin: "finite (children {} s e)" for e using assms(1) by (simp add: registry_ok_but_def finite_children)
  have d: "d \<notin> set (dev_list s)" "held d = 0" "children {} s d = {}" using assms(4) fin by (auto simp: refs_due_def split: if_splits)
  then have pd: "p \<noteq> d" using assms(2) by auto
  have c: "children {} ?s e = (if e = p then insert d (children {} s e) else children {} s e)" "d \<notin> children {} s e" for e
    using assms(3) by (auto simp: children_def)
  have "refs_due {} (minus_ref p held) ?s e = refs_due {} held s e" for e
    using c fin [of p] assms(2) by (auto simp: refs_due_def minus_ref_def)
  moreover obtain r where "ranked r s" using assms(1) by (auto simp: registry_ok_but_def)
  then have "ranked (r(d := r p + 1)) ?s" using d(3) pd by (auto simp: ranked_def children_def)
  ultimately show ?thesis using assms(1,4) by (auto simp: registry_ok_but_def)
qed

lemma publish_ok:
  assumes "registry_ok held s" "\<And>d. new = Some d \<Longrightarrow> dev_parent s d = None \<and> refs_due {} held s d = 0"
  shows "\<exists>e s'. bio_publish_subdevice parent_dev subdev new fits s = Some (e, s') \<and> registry_ok held s'"
proof -
  consider "bio_open parent_dev s = Some (None, s)" | p where "p \<in> set (dev_list s)" "bio_open parent_dev s = Some (Some p, bdev_inc_ref p s)"
    using open_loop_ok [OF assms(1), of "dev_list s" parent_dev] by (auto simp: bio_open_def)
  then show ?thesis
  proof cases
    case (2 p)
    note ok = inc_ref_ok [OF assms(1), of p]
    obtain s1 where s1: "bio_close p (bdev_inc_ref p s) = Some s1" "registry_ok held s1"
      using bio_refs.open_close [OF assms(1) 2(2)] by blast
    show ?thesis
    proof (cases "new = None \<or> fits p < 0")
      case True
      then show ?thesis using 2 s1 by (auto simp: bio_publish_subdevice_def split: option.splits)
    next
      case False
      then obtain d where d: "new = Some d" by (cases new) auto
      have due: "dev_parent s d = None" "refs_due {} held s d = 0" using assms(2) [OF d] by auto
      have pd: "p \<noteq> d" using due(2) 2(1) by (auto simp: refs_due_def)
      let ?s = "(bdev_inc_ref p s)\<lparr>dev_name := (dev_name (bdev_inc_ref p s))(d := subdev), dev_ref := (dev_ref (bdev_inc_ref p s))(d := 0),
        dev_parent := (dev_parent (bdev_inc_ref p s))(d := Some p)\<rparr>"
      have "registry_ok (minus_ref p (plus_ref p held)) ?s"
        using due pd by (intro adopt_ok [OF ok]) (auto simp: plus_ref_def bdev_inc_ref_def refs_due_def children_def)
      moreover have "d \<notin> set (dev_list ?s)" using due(2) by (auto simp: refs_due_def bdev_inc_ref_def split: if_splits)
      ultimately have "registry_ok held (bio_register_device d ?s)" by (intro register_ok) simp_all
      then show ?thesis using 2 d False by (simp add: bio_publish_subdevice_def Let_def)
    qed
  qed (use assms(1) in \<open>simp add: bio_publish_subdevice_def\<close>)
qed

end
