(* ===== verification/Fs_Mount.thy ===== *)
theory Fs_Mount
  imports Fs_Path Bio_Registry
begin

text \<open>
  The file system layer (\<open>lib/fs/fs.c\<close>): the table of mounts with their reference counts, and the operations on
  files and directories, which find the mount of a path and call the functions of its file system. The file
  systems are a parameter: a list of names with records of functions on a state of their own. A mount that has been
  freed is absent from the table, so using it is \<open>None\<close>, as is calling a function pointer that is null.
  Addresses that \<open>malloc\<close> returns are arguments.
\<close>

section \<open>File systems\<close>

type_synonym 'f hook = "'f \<Rightarrow> (status \<times> 'f) option"

record file_stat =
  is_dir :: bool
  stat_size :: nat
  stat_capacity :: nat

record fs_stat =
  free_space :: nat
  total_space :: nat
  free_inodes :: nat
  total_inodes :: nat

record 'f fs_api =
  api_format :: "(nat option \<Rightarrow> 'f hook) option"
  api_fs_stat :: "(nat \<Rightarrow> 'f \<Rightarrow> (status \<times> fs_stat \<times> 'f) option) option"
  api_mount :: "(nat option \<Rightarrow> 'f \<Rightarrow> (status \<times> nat \<times> 'f) option) option"
  api_unmount :: "(nat \<Rightarrow> 'f hook) option"
  api_open :: "(nat \<Rightarrow> string \<Rightarrow> 'f \<Rightarrow> (status \<times> nat \<times> 'f) option) option"
  api_create :: "(nat \<Rightarrow> string \<Rightarrow> u64 \<Rightarrow> 'f \<Rightarrow> (status \<times> nat \<times> 'f) option) option"
  api_remove :: "(nat \<Rightarrow> string \<Rightarrow> 'f hook) option"
  api_truncate :: "(nat \<Rightarrow> u64 \<Rightarrow> 'f hook) option"
  api_stat :: "(nat \<Rightarrow> 'f \<Rightarrow> (status \<times> file_stat \<times> 'f) option) option"
  api_read :: "(nat \<Rightarrow> int \<Rightarrow> nat \<Rightarrow> 'f \<Rightarrow> (int \<times> u8 list \<times> 'f) option) option"
  api_write :: "(nat \<Rightarrow> u8 list \<Rightarrow> int \<Rightarrow> 'f \<Rightarrow> (int \<times> 'f) option) option"
  api_close :: "(nat \<Rightarrow> 'f hook) option"
  api_mkdir :: "(nat \<Rightarrow> string \<Rightarrow> 'f hook) option"
  api_opendir :: "(nat \<Rightarrow> string \<Rightarrow> 'f \<Rightarrow> (status \<times> nat \<times> 'f) option) option"
  api_readdir :: "(nat \<Rightarrow> 'f \<Rightarrow> (status \<times> string \<times> 'f) option) option"
  api_closedir :: "(nat \<Rightarrow> 'f hook) option"
  api_file_ioctl :: "(nat \<Rightarrow> int \<Rightarrow> nat \<Rightarrow> 'f hook) option"

section \<open>State\<close>

record 'f mount_entry =
  m_path :: string
  m_dev :: "nat option"
  m_cookie :: nat
  m_ref :: int
  m_api :: "'f fs_api"

text \<open>An open file or directory: the cookie of the file system and the mount.\<close>

type_synonym handle = "nat \<times> nat"

record 'f fs_state =
  mounts :: "nat list"
  mount_tab :: "nat \<Rightarrow> 'f mount_entry option"
  files :: "nat \<Rightarrow> handle option"
  dirs :: "nat \<Rightarrow> handle option"
  fs_data :: 'f
  bdevs :: registry

definition call :: "'f hook option \<Rightarrow> 'f fs_state \<Rightarrow> (status \<times> 'f fs_state) option" where
  "call hook s = do { f \<leftarrow> hook; (e, x) \<leftarrow> f (fs_data s); Some (e, s\<lparr>fs_data := x\<rparr>) }"

definition call_val :: "('f \<Rightarrow> ('e \<times> 'v \<times> 'f) option) option \<Rightarrow> 'f fs_state \<Rightarrow> ('e \<times> 'v \<times> 'f fs_state) option" where
  "call_val hook s = do { f \<leftarrow> hook; (e, v, x) \<leftarrow> f (fs_data s); Some (e, v, s\<lparr>fs_data := x\<rparr>) }"

definition on_devs :: "(registry \<Rightarrow> registry option) \<Rightarrow> 'f fs_state \<Rightarrow> 'f fs_state option" where
  "on_devs f s = do { r \<leftarrow> f (bdevs s); Some (s\<lparr>bdevs := r\<rparr>) }"

section \<open>Mounts\<close>

definition find_fs :: "string \<Rightarrow> (string \<times> 'f fs_api) list \<Rightarrow> 'f fs_api option" where
  "find_fs name impls = map_of impls name"

text \<open>The path of a mount is a prefix that ends at a separator or at the end of the path.\<close>

definition path_matches :: "string \<Rightarrow> 'f mount_entry \<Rightarrow> bool" where
  "path_matches path m \<longleftrightarrow> length (m_path m) \<le> length path \<and> take (length (m_path m)) path = m_path m \<and>
     (length (m_path m) = length path \<or> path ! length (m_path m) = slash)"

definition trimmed_path :: "string \<Rightarrow> 'f mount_entry \<Rightarrow> string" where
  "trimmed_path path m = (let t = drop (length (m_path m)) path in if t = [] then [slash] else t)"

definition set_ref :: "nat \<Rightarrow> int \<Rightarrow> 'f fs_state \<Rightarrow> 'f fs_state" where
  "set_ref i r s = s\<lparr>mount_tab := (mount_tab s)(i := map_option (\<lambda>m. m\<lparr>m_ref := r\<rparr>) (mount_tab s i))\<rparr>"

fun find_loop :: "string \<Rightarrow> nat list \<Rightarrow> 'f fs_state \<Rightarrow> ((nat \<times> string) option \<times> 'f fs_state) option" where
  "find_loop path [] s = Some (None, s)"
| "find_loop path (i # is) s = do {
     m \<leftarrow> mount_tab s i;
     if path_matches path m then Some (Some (i, trimmed_path path m), set_ref i (m_ref m + 1) s)
     else find_loop path is s
   }"

definition find_mount :: "string \<Rightarrow> 'f fs_state \<Rightarrow> ((nat \<times> string) option \<times> 'f fs_state) option" where
  "find_mount path s = (if path = [] \<or> hd path \<noteq> slash then Some (None, s) else find_loop path (mounts s) s)"

text \<open>\<open>bio_close\<close> of a device if there is one.\<close>

definition close_opt :: "nat option \<Rightarrow> 'f fs_state \<Rightarrow> 'f fs_state option" where
  "close_opt dev s = (case dev of None \<Rightarrow> Some s | Some d \<Rightarrow> on_devs (bio_close d) s)"

definition put_mount :: "nat \<Rightarrow> 'f fs_state \<Rightarrow> 'f fs_state option" where
  "put_mount i s = do {
     m \<leftarrow> mount_tab s i;
     let s = set_ref i (m_ref m - 1) s;
     if m_ref m - 1 = 0
     then do {
       let s = s\<lparr>mounts := remove1 i (mounts s)\<rparr>;
       (_, s) \<leftarrow> call (map_option (\<lambda>f. f (m_cookie m)) (api_unmount (m_api m))) s;
       s \<leftarrow> close_opt (m_dev m) s;
       Some (s\<lparr>mount_tab := (mount_tab s)(i := None)\<rparr>)
     }
     else Some s
   }"

text \<open>The local copy of a path, cut off at the length of the buffer and normalised.\<close>

definition temp_path :: "string \<Rightarrow> string option" where
  "temp_path path = do { buf \<leftarrow> fs_normalize_path (take 127 path @ [NUL]); Some (cstr buf) }"

text \<open>\<open>bio_open\<close> of a device that is named: the device, or the error.\<close>

definition open_opt :: "string option \<Rightarrow> 'f fs_state \<Rightarrow> ((status + nat option) \<times> 'f fs_state) option" where
  "open_opt device s =
     (case device of
        None \<Rightarrow> Some (Inr None, s)
      | Some name \<Rightarrow>
          if name = [] then Some (Inr None, s)
          else do {
            (d, r) \<leftarrow> bio_open name (bdevs s);
            Some (case d of None \<Rightarrow> Inl ERR_NOT_FOUND | Some d \<Rightarrow> Inr (Some d), s\<lparr>bdevs := r\<rparr>)
          })"

text \<open>\<open>mount\<close>: \<open>new\<close> is the memory for the mount, \<open>dup\<close> tells whether there is memory for the copy of the path.\<close>

definition mount :: "string \<Rightarrow> string option \<Rightarrow> 'f fs_api \<Rightarrow> nat option \<Rightarrow> bool \<Rightarrow> 'f fs_state \<Rightarrow> (status \<times> 'f fs_state) option" where
  "mount path device api new dup s = do {
     temppath \<leftarrow> temp_path path;
     if temppath = [] \<or> hd temppath \<noteq> slash then Some (ERR_BAD_PATH, s)
     else do {
       (old, s) \<leftarrow> find_mount temppath s;
       (case old of
          Some (i, _) \<Rightarrow> do { s \<leftarrow> put_mount i s; Some (ERR_ALREADY_MOUNTED, s) }
        | None \<Rightarrow> do {
            (dev, s) \<leftarrow> open_opt device s;
            (case dev of
               Inl e \<Rightarrow> Some (e, s)
             | Inr dev \<Rightarrow> do {
                 (err, cookie, s) \<leftarrow> call_val (map_option (\<lambda>f. f dev) (api_mount api)) s;
                 if err < 0 then do { s \<leftarrow> close_opt dev s; Some (err, s) }
                 else if new = None \<or> \<not> dup then do { s \<leftarrow> close_opt dev s; Some (ERR_NO_MEMORY, s) }
                 else Some (0, s\<lparr>mounts := the new # mounts s,
                   mount_tab := (mount_tab s)(the new := Some \<lparr>m_path = temppath, m_dev = dev, m_cookie = cookie, m_ref = 1, m_api = api\<rparr>)\<rparr>)
               })
          })
     }
   }"

definition fs_format_device :: "(string \<times> 'f fs_api) list \<Rightarrow> string \<Rightarrow> string option \<Rightarrow> 'f fs_state \<Rightarrow> (status \<times> 'f fs_state) option" where
  "fs_format_device impls fsname device s =
     (case find_fs fsname impls of
        None \<Rightarrow> Some (ERR_NOT_FOUND, s)
      | Some api \<Rightarrow>
          (case api_format api of
             None \<Rightarrow> Some (ERR_NOT_SUPPORTED, s)
           | Some format \<Rightarrow> do {
               (dev, s) \<leftarrow> open_opt device s;
               (case dev of Inl e \<Rightarrow> Some (e, s) | Inr dev \<Rightarrow> call (Some (format dev)) s)
             }))"

definition fs_mount :: "(string \<times> 'f fs_api) list \<Rightarrow> string \<Rightarrow> string \<Rightarrow> string option \<Rightarrow> nat option \<Rightarrow> bool \<Rightarrow> 'f fs_state \<Rightarrow> (status \<times> 'f fs_state) option" where
  "fs_mount impls path fsname device new dup s =
     (case find_fs fsname impls of None \<Rightarrow> Some (ERR_NOT_FOUND, s) | Some api \<Rightarrow> mount path device api new dup s)"

definition fs_unmount :: "string \<Rightarrow> 'f fs_state \<Rightarrow> (status \<times> 'f fs_state) option" where
  "fs_unmount path s = do {
     temppath \<leftarrow> temp_path path;
     (r, s) \<leftarrow> find_mount temppath s;
     (case r of
        None \<Rightarrow> Some (ERR_NOT_FOUND, s)
      | Some (i, _) \<Rightarrow> do { s \<leftarrow> put_mount i s; s \<leftarrow> put_mount i s; Some (0, s) })
   }"

section \<open>Operations on paths\<close>

text \<open>
  \<open>fs_remove_file\<close>, \<open>fs_make_dir\<close> and \<open>fs_stat_fs\<close> have the same form: find the mount, call a function of the file
  system if it has it, and put the mount back.
\<close>

definition with_mount ::
  "string \<Rightarrow> ('f mount_entry \<Rightarrow> bool) \<Rightarrow> ('f mount_entry \<Rightarrow> string \<Rightarrow> 'f fs_state \<Rightarrow> (status \<times> 'v \<times> 'f fs_state) option) \<Rightarrow> 'v \<Rightarrow>
   'f fs_state \<Rightarrow> (status \<times> 'v \<times> 'f fs_state) option" where
  "with_mount path supported act v s = do {
     (r, s) \<leftarrow> find_mount path s;
     (case r of
        None \<Rightarrow> Some (ERR_NOT_FOUND, v, s)
      | Some (i, newpath) \<Rightarrow> do {
          m \<leftarrow> mount_tab s i;
          if \<not> supported m then do { s \<leftarrow> put_mount i s; Some (ERR_NOT_SUPPORTED, v, s) }
          else do {
            (err, v, s) \<leftarrow> act m newpath s;
            s \<leftarrow> put_mount i s;
            Some (err, v, s)
          }
        })
   }"

definition no_val :: "(status \<times> 'f fs_state) option \<Rightarrow> (status \<times> unit \<times> 'f fs_state) option" where
  "no_val r = do { (e, s) \<leftarrow> r; Some (e, (), s) }"

definition fs_remove_file :: "string \<Rightarrow> 'f fs_state \<Rightarrow> (status \<times> unit \<times> 'f fs_state) option" where
  "fs_remove_file path s = do {
     temppath \<leftarrow> temp_path path;
     with_mount temppath (\<lambda>m. api_remove (m_api m) \<noteq> None)
       (\<lambda>m newpath s. no_val (call (map_option (\<lambda>f. f (m_cookie m) newpath) (api_remove (m_api m))) s)) () s
   }"

definition fs_make_dir :: "string \<Rightarrow> 'f fs_state \<Rightarrow> (status \<times> unit \<times> 'f fs_state) option" where
  "fs_make_dir path s = do {
     temppath \<leftarrow> temp_path path;
     with_mount temppath (\<lambda>m. api_mkdir (m_api m) \<noteq> None)
       (\<lambda>m newpath s. no_val (call (map_option (\<lambda>f. f (m_cookie m) newpath) (api_mkdir (m_api m))) s)) () s
   }"

definition fs_stat_fs :: "string \<Rightarrow> fs_stat \<Rightarrow> 'f fs_state \<Rightarrow> (status \<times> fs_stat \<times> 'f fs_state) option" where
  "fs_stat_fs mountpoint stat s =
     with_mount mountpoint (\<lambda>m. api_fs_stat (m_api m) \<noteq> None)
       (\<lambda>m newpath s. call_val (map_option (\<lambda>f. f (m_cookie m)) (api_fs_stat (m_api m))) s) stat s"

text \<open>
  Opening keeps the reference on success. \<open>new\<close> is the memory of the handle; \<open>fs_open_file\<close> does not check it.
  \<open>fs_create_file\<close> returns the result of the file system when there is none.
\<close>

definition fs_open_file :: "string \<Rightarrow> nat option \<Rightarrow> 'f fs_state \<Rightarrow> (status \<times> nat option \<times> 'f fs_state) option" where
  "fs_open_file path new s = do {
     temppath \<leftarrow> temp_path path;
     (r, s) \<leftarrow> find_mount temppath s;
     (case r of
        None \<Rightarrow> Some (ERR_NOT_FOUND, None, s)
      | Some (i, newpath) \<Rightarrow> do {
          m \<leftarrow> mount_tab s i;
          (err, cookie, s) \<leftarrow> call_val (map_option (\<lambda>f. f (m_cookie m) newpath) (api_open (m_api m))) s;
          if err < 0 then do { s \<leftarrow> put_mount i s; Some (err, None, s) }
          else do { h \<leftarrow> new; Some (0, Some h, s\<lparr>files := (files s)(h := Some (cookie, i))\<rparr>) }
        })
   }"

definition fs_create_file :: "string \<Rightarrow> u64 \<Rightarrow> nat option \<Rightarrow> 'f fs_state \<Rightarrow> (status \<times> nat option \<times> 'f fs_state) option" where
  "fs_create_file path len new s = do {
     temppath \<leftarrow> temp_path path;
     (r, s) \<leftarrow> find_mount temppath s;
     (case r of
        None \<Rightarrow> Some (ERR_NOT_FOUND, None, s)
      | Some (i, newpath) \<Rightarrow> do {
          m \<leftarrow> mount_tab s i;
          if api_create (m_api m) = None then do { s \<leftarrow> put_mount i s; Some (ERR_NOT_SUPPORTED, None, s) }
          else do {
            (err, cookie, s) \<leftarrow> call_val (map_option (\<lambda>f. f (m_cookie m) newpath len) (api_create (m_api m))) s;
            if err < 0 then do { s \<leftarrow> put_mount i s; Some (err, None, s) }
            else (case new of
                    None \<Rightarrow> do { s \<leftarrow> put_mount i s; Some (err, None, s) }
                  | Some h \<Rightarrow> Some (0, Some h, s\<lparr>files := (files s)(h := Some (cookie, i))\<rparr>))
          }
        })
   }"

definition fs_open_dir :: "string \<Rightarrow> nat option \<Rightarrow> 'f fs_state \<Rightarrow> (status \<times> nat option \<times> 'f fs_state) option" where
  "fs_open_dir path new s = do {
     temppath \<leftarrow> temp_path path;
     (r, s) \<leftarrow> find_mount temppath s;
     (case r of
        None \<Rightarrow> Some (ERR_NOT_FOUND, None, s)
      | Some (i, newpath) \<Rightarrow> do {
          m \<leftarrow> mount_tab s i;
          if api_opendir (m_api m) = None then do { s \<leftarrow> put_mount i s; Some (ERR_NOT_SUPPORTED, None, s) }
          else do {
            (err, cookie, s) \<leftarrow> call_val (map_option (\<lambda>f. f (m_cookie m) newpath) (api_opendir (m_api m))) s;
            if err < 0 then do { s \<leftarrow> put_mount i s; Some (err, None, s) }
            else (case new of
                    None \<Rightarrow> do { s \<leftarrow> put_mount i s; Some (ERR_NO_MEMORY, None, s) }
                  | Some h \<Rightarrow> Some (0, Some h, s\<lparr>dirs := (dirs s)(h := Some (cookie, i))\<rparr>))
          }
        })
   }"

section \<open>Operations on handles\<close>

text \<open>The cookie and the mount of a handle; a handle that is not open, or whose mount has been freed, is \<open>None\<close>.\<close>

definition handle_of :: "(nat \<Rightarrow> handle option) \<Rightarrow> nat \<Rightarrow> 'f fs_state \<Rightarrow> (nat \<times> nat \<times> 'f fs_api) option" where
  "handle_of tab h s = do { (cookie, i) \<leftarrow> tab h; m \<leftarrow> mount_tab s i; Some (cookie, i, m_api m) }"

definition fs_file_ioctl :: "nat \<Rightarrow> int \<Rightarrow> nat \<Rightarrow> 'f fs_state \<Rightarrow> (status \<times> 'f fs_state) option" where
  "fs_file_ioctl h request argp s = do {
     (cookie, i, api) \<leftarrow> handle_of (files s) h s;
     if api_file_ioctl api = None then Some (ERR_INVALID_ARGS, s)
     else call (map_option (\<lambda>f. f cookie request argp) (api_file_ioctl api)) s
   }"

definition fs_truncate_file :: "nat \<Rightarrow> u64 \<Rightarrow> 'f fs_state \<Rightarrow> (status \<times> 'f fs_state) option" where
  "fs_truncate_file h len s = do {
     (cookie, i, api) \<leftarrow> handle_of (files s) h s;
     call (map_option (\<lambda>f. f cookie len) (api_truncate api)) s
   }"

definition fs_read_file :: "nat \<Rightarrow> int \<Rightarrow> nat \<Rightarrow> 'f fs_state \<Rightarrow> (int \<times> u8 list \<times> 'f fs_state) option" where
  "fs_read_file h offset len s = do {
     (cookie, i, api) \<leftarrow> handle_of (files s) h s;
     call_val (map_option (\<lambda>f. f cookie offset len) (api_read api)) s
   }"

definition fs_write_file :: "nat \<Rightarrow> u8 list \<Rightarrow> int \<Rightarrow> 'f fs_state \<Rightarrow> (int \<times> 'f fs_state) option" where
  "fs_write_file h buf offset s = do {
     (cookie, i, api) \<leftarrow> handle_of (files s) h s;
     if api_write api = None then Some (ERR_NOT_SUPPORTED, s)
     else call (map_option (\<lambda>f. f cookie buf offset) (api_write api)) s
   }"

definition fs_stat_file :: "nat \<Rightarrow> 'f fs_state \<Rightarrow> (status \<times> file_stat \<times> 'f fs_state) option" where
  "fs_stat_file h s = do {
     (cookie, i, api) \<leftarrow> handle_of (files s) h s;
     call_val (map_option (\<lambda>f. f cookie) (api_stat api)) s
   }"

definition fs_read_dir :: "nat \<Rightarrow> string \<Rightarrow> 'f fs_state \<Rightarrow> (status \<times> string \<times> 'f fs_state) option" where
  "fs_read_dir h ent s = do {
     (cookie, i, api) \<leftarrow> handle_of (dirs s) h s;
     if api_readdir api = None then Some (ERR_NOT_SUPPORTED, ent, s)
     else call_val (map_option (\<lambda>f. f cookie) (api_readdir api)) s
   }"

definition fs_close_file :: "nat \<Rightarrow> 'f fs_state \<Rightarrow> (status \<times> 'f fs_state) option" where
  "fs_close_file h s = do {
     (cookie, i, api) \<leftarrow> handle_of (files s) h s;
     (err, s) \<leftarrow> call (map_option (\<lambda>f. f cookie) (api_close api)) s;
     if err < 0 then Some (err, s)
     else do { s \<leftarrow> put_mount i s; Some (0, s\<lparr>files := (files s)(h := None)\<rparr>) }
   }"

definition fs_close_dir :: "nat \<Rightarrow> 'f fs_state \<Rightarrow> (status \<times> 'f fs_state) option" where
  "fs_close_dir h s = do {
     (cookie, i, api) \<leftarrow> handle_of (dirs s) h s;
     if api_closedir api = None then Some (ERR_NOT_SUPPORTED, s)
     else do {
       (err, s) \<leftarrow> call (map_option (\<lambda>f. f cookie) (api_closedir api)) s;
       if err < 0 then Some (err, s)
       else do { s \<leftarrow> put_mount i s; Some (0, s\<lparr>dirs := (dirs s)(h := None)\<rparr>) }
     }
   }"

definition fs_load_file :: "string \<Rightarrow> nat \<Rightarrow> nat option \<Rightarrow> 'f fs_state \<Rightarrow> (int \<times> u8 list \<times> 'f fs_state) option" where
  "fs_load_file path maxlen new s = do {
     (err, handle, s) \<leftarrow> fs_open_file path new s;
     if err < 0 then Some (err, [], s)
     else do {
       h \<leftarrow> handle;
       (_, stat, s) \<leftarrow> fs_stat_file h s;
       (read_bytes, buf, s) \<leftarrow> fs_read_file h 0 (min maxlen (stat_size stat)) s;
       (_, s) \<leftarrow> fs_close_file h s;
       Some (read_bytes, buf, s)
     }
   }"

end
