(* ===== verification/Fs_Mount_Inv.thy ===== *)
theory Fs_Mount_Inv
  imports Fs_Mount
begin

text \<open>
  The invariant of the mount table: every mount has a reference for each open file and directory, and at most one
  more, its own, which \<open>fs_unmount\<close> gives up. It is stated for any count of claims on mounts, so that the
  references that an operation holds while it runs are claims too.
\<close>

section \<open>File systems that return\<close>

text \<open>
  The functions of a file system return, and those that the layer calls without a test are there.
\<close>

definition api_total :: "'f fs_api \<Rightarrow> bool" where
  "api_total a \<longleftrightarrow>
     (\<forall>f x y. api_format a = Some f \<longrightarrow> f x y \<noteq> None) \<and> (\<forall>f x y. api_fs_stat a = Some f \<longrightarrow> f x y \<noteq> None) \<and>
     (\<forall>f x y. api_mount a = Some f \<longrightarrow> f x y \<noteq> None) \<and> (\<forall>f x y. api_unmount a = Some f \<longrightarrow> f x y \<noteq> None) \<and>
     (\<forall>f x y z. api_open a = Some f \<longrightarrow> f x y z \<noteq> None) \<and> (\<forall>f x y z u. api_create a = Some f \<longrightarrow> f x y z u \<noteq> None) \<and>
     (\<forall>f x y z. api_remove a = Some f \<longrightarrow> f x y z \<noteq> None) \<and> (\<forall>f x y z. api_truncate a = Some f \<longrightarrow> f x y z \<noteq> None) \<and>
     (\<forall>f x y. api_stat a = Some f \<longrightarrow> f x y \<noteq> None) \<and> (\<forall>f x y z u. api_read a = Some f \<longrightarrow> f x y z u \<noteq> None) \<and>
     (\<forall>f x y z u. api_write a = Some f \<longrightarrow> f x y z u \<noteq> None) \<and> (\<forall>f x y. api_close a = Some f \<longrightarrow> f x y \<noteq> None) \<and>
     (\<forall>f x y z. api_mkdir a = Some f \<longrightarrow> f x y z \<noteq> None) \<and> (\<forall>f x y z. api_opendir a = Some f \<longrightarrow> f x y z \<noteq> None) \<and>
     (\<forall>f x y. api_readdir a = Some f \<longrightarrow> f x y \<noteq> None) \<and> (\<forall>f x y. api_closedir a = Some f \<longrightarrow> f x y \<noteq> None) \<and>
     (\<forall>f x y z u. api_file_ioctl a = Some f \<longrightarrow> f x y z u \<noteq> None)"

definition api_ok :: "'f fs_api \<Rightarrow> bool" where
  "api_ok a \<longleftrightarrow> api_total a \<and> api_mount a \<noteq> None \<and> api_unmount a \<noteq> None \<and> api_open a \<noteq> None \<and> api_close a \<noteq> None \<and>
     api_stat a \<noteq> None \<and> api_read a \<noteq> None"

text \<open>A call changes nothing but the state of the file system.\<close>

definition only_data :: "'f fs_state \<Rightarrow> 'f fs_state \<Rightarrow> bool" where
  "only_data s s' \<longleftrightarrow> mounts s' = mounts s \<and> mount_tab s' = mount_tab s \<and> files s' = files s \<and> dirs s' = dirs s \<and> bdevs s' = bdevs s"

lemma call_ok:
  assumes "hook = Some f" "\<And>x. f x \<noteq> None"
  obtains e s' where "call hook s = Some (e, s')" "only_data s s'"
proof -
  obtain e x where "f (fs_data s) = Some (e, x)" using assms(2) [of "fs_data s"] by auto
  then show ?thesis using that assms(1) by (simp add: call_def only_data_def)
qed

lemma call_val_ok:
  assumes "hook = Some f" "\<And>x. f x \<noteq> None"
  obtains e v s' where "call_val hook s = Some (e, v, s')" "only_data s s'"
proof -
  obtain e v x where "f (fs_data s) = Some (e, v, x)" using assms(2) [of "fs_data s"] by auto
  then show ?thesis using that assms(1) by (simp add: call_val_def only_data_def)
qed

section \<open>Claims on mounts\<close>

definition mounts_on :: "'f fs_state \<Rightarrow> nat \<Rightarrow> nat set" where
  "mounts_on s d = {i. \<exists>m. mount_tab s i = Some m \<and> m_dev m = Some d}"

definition devs_ok :: "'f fs_state \<Rightarrow> bool" where
  "devs_ok s \<longleftrightarrow> (\<exists>held. registry_ok held (bdevs s) \<and> (\<forall>d. card (mounts_on s d) \<le> held d))"

definition entry_ok :: "nat \<Rightarrow> 'f mount_entry \<Rightarrow> bool" where
  "entry_ok claims m \<longleftrightarrow> 1 \<le> m_ref m \<and> int claims \<le> m_ref m \<and> m_ref m \<le> int claims + 1 \<and> api_ok (m_api m)"

definition mount_inv :: "(nat \<Rightarrow> nat) \<Rightarrow> 'f fs_state \<Rightarrow> bool" where
  "mount_inv claims s \<longleftrightarrow> distinct (mounts s) \<and> set (mounts s) = dom (mount_tab s) \<and>
     (\<forall>i. 0 < claims i \<longrightarrow> mount_tab s i \<noteq> None) \<and> (\<forall>i m. mount_tab s i = Some m \<longrightarrow> entry_ok (claims i) m) \<and> devs_ok s"

lemma mount_invD:
  assumes "mount_inv claims s"
  shows "distinct (mounts s)" "set (mounts s) = dom (mount_tab s)" "0 < claims i \<Longrightarrow> mount_tab s i \<noteq> None"
    "mount_tab s i = Some m \<Longrightarrow> entry_ok (claims i) m" "devs_ok s"
  using assms by (auto simp: mount_inv_def)

lemma finite_mounts_on:
  assumes "mount_inv claims s"
  shows "finite (mounts_on s d)"
proof -
  have "mounts_on s d \<subseteq> set (mounts s)" unfolding mount_invD(2) [OF assms] by (auto simp: mounts_on_def)
  then show ?thesis by (rule finite_subset) simp
qed

lemma only_data_inv: "only_data s s' \<Longrightarrow> mount_inv claims s' \<longleftrightarrow> mount_inv claims s"
  by (simp add: only_data_def mount_inv_def devs_ok_def mounts_on_def)

text \<open>A mount that has not been unmounted has a reference of its own, which counts as a claim.\<close>

definition attached :: "(nat \<Rightarrow> nat) \<Rightarrow> 'f fs_state \<Rightarrow> nat \<Rightarrow> bool" where
  "attached claims s i \<longleftrightarrow> (\<exists>m. mount_tab s i = Some m \<and> m_ref m = int (claims i) + 1)"

lemma attached_claim: "mount_inv claims s \<Longrightarrow> attached claims s i \<Longrightarrow> mount_inv (plus_ref i claims) s"
  by (auto simp: mount_inv_def attached_def plus_ref_def entry_ok_def)

lemma set_ref_simps [simp]:
  "mounts (set_ref i r s) = mounts s" "files (set_ref i r s) = files s" "dirs (set_ref i r s) = dirs s" "bdevs (set_ref i r s) = bdevs s"
  "fs_data (set_ref i r s) = fs_data s" "mount_tab s i = Some m \<Longrightarrow> mount_tab (set_ref i r s) = (mount_tab s)(i \<mapsto> m\<lparr>m_ref := r\<rparr>)"
  by (auto simp: set_ref_def)

lemma set_ref_inv:
  assumes "mount_inv claims s" "mount_tab s i = Some m" "entry_ok (claims' i) (m\<lparr>m_ref := r\<rparr>)" "\<And>j. j \<noteq> i \<Longrightarrow> claims' j = claims j"
  shows "mount_inv claims' (set_ref i r s)"
proof -
  have "mounts_on (set_ref i r s) d = mounts_on s d" for d using assms(2) by (auto simp: mounts_on_def)
  moreover have "mount_tab s j \<noteq> None" if "0 < claims' j" for j using that assms(2,4) mount_invD(3) [OF assms(1), of j] by (cases "j = i") auto
  ultimately show ?thesis using assms by (auto simp: mount_inv_def devs_ok_def)
qed

text \<open>\<open>find_mount\<close> adds a claim.\<close>

lemma find_loop_ok:
  assumes "mount_inv claims s" "set is \<subseteq> set (mounts s)"
  shows "find_loop path is s = Some (None, s) \<and> (\<forall>i\<in>set is. \<not> path_matches path (the (mount_tab s i))) \<or>
    (\<exists>i m. i \<in> set is \<and> mount_tab s i = Some m \<and> path_matches path m \<and>
       find_loop path is s = Some (Some (i, trimmed_path path m), set_ref i (m_ref m + 1) s))"
  using assms(2)
proof (induction "is")
  case (Cons i "is")
  then obtain m where m: "mount_tab s i = Some m" using mount_invD(2) [OF assms(1)] by auto
  show ?case
  proof (cases "path_matches path m")
    case True
    then show ?thesis using m by (intro disjI2 exI [of _ i] exI [of _ m]) simp
  next
    case False
    then have "find_loop path (i # is) s = find_loop path is s" using m by simp
    then show ?thesis using Cons False m by auto
  qed
qed simp

lemma find_mount_ok:
  assumes "mount_inv claims s"
  obtains "find_mount path s = Some (None, s)"
  | i m s' where "find_mount path s = Some (Some (i, trimmed_path path m), s')" "mount_tab s i = Some m" "s' = set_ref i (m_ref m + 1) s"
      "mount_inv (plus_ref i claims) s'"
proof -
  consider "find_mount path s = Some (None, s)"
    | i m where "mount_tab s i = Some m" "find_mount path s = Some (Some (i, trimmed_path path m), set_ref i (m_ref m + 1) s)"
    using find_loop_ok [OF assms order_refl, of path] by (cases "path = [] \<or> hd path \<noteq> slash") (force simp: find_mount_def)+
  then show thesis
  proof cases
    case (2 i m)
    have "entry_ok (plus_ref i claims i) (m\<lparr>m_ref := m_ref m + 1\<rparr>)"
      using mount_invD(4) [OF assms 2(1)] by (simp add: entry_ok_def plus_ref_def)
    then have "mount_inv (plus_ref i claims) (set_ref i (m_ref m + 1) s)"
      by (rule set_ref_inv [OF assms 2(1)]) (simp add: plus_ref_def)
    then show ?thesis using 2 that(2) by blast
  qed (rule that(1))
qed

text \<open>Closing the device of a mount that is no longer in the table.\<close>

lemma close_opt_ok:
  assumes "registry_ok held (bdevs s)" "\<And>d. dev = Some d \<Longrightarrow> 0 < held d"
  obtains r held' where "close_opt dev s = Some (s\<lparr>bdevs := r\<rparr>)" "registry_ok held' r"
    "\<And>d. held' d = held d - (if dev = Some d then 1 else 0)"
proof (cases dev)
  case None
  have "close_opt dev s = Some (s\<lparr>bdevs := bdevs s\<rparr>)" using None by (simp add: close_opt_def)
  then show ?thesis by (rule that [OF _ assms(1)]) (simp add: None)
next
  case (Some d)
  obtain r where r: "bio_close d (bdevs s) = Some r" "registry_ok (minus_ref d held) r"
    using bio_refs.close_ok [OF assms(1) assms(2) [OF Some]] by blast
  then have "close_opt dev s = Some (s\<lparr>bdevs := r\<rparr>)" using Some by (simp add: close_opt_def on_devs_def)
  then show ?thesis by (rule that [OF _ r(2)]) (simp add: Some minus_ref_def)
qed

lemma unlink_inv:
  assumes "mount_inv claims s" "mount_tab s i = Some m" "claims i = 1" "m_ref m = 1"
    and "call (map_option (\<lambda>f. f (m_cookie m)) (api_unmount (m_api m))) ((set_ref i 0 s)\<lparr>mounts := remove1 i (mounts s)\<rparr>) = Some (e, s1)"
    and "only_data ((set_ref i 0 s)\<lparr>mounts := remove1 i (mounts s)\<rparr>) s1"
  obtains s2 where "close_opt (m_dev m) s1 = Some s2" "mount_inv (minus_ref i claims) (s2\<lparr>mount_tab := (mount_tab s2)(i := None)\<rparr>)"
    "files s2 = files s" "dirs s2 = dirs s"
proof -
  have s1: "mounts s1 = remove1 i (mounts s)" "mount_tab s1 = (mount_tab s)(i \<mapsto> m\<lparr>m_ref := 0\<rparr>)" "files s1 = files s" "dirs s1 = dirs s" "bdevs s1 = bdevs s"
    using assms(2,6) by (simp_all add: only_data_def)
  obtain held where held: "registry_ok held (bdevs s1)" "\<And>d. card (mounts_on s d) \<le> held d"
    using mount_invD(5) [OF assms(1)] s1(5) by (auto simp: devs_ok_def)
  have fin: "finite (mounts_on s d)" for d by (rule finite_mounts_on [OF assms(1)])
  have mem: "i \<in> mounts_on s d \<longleftrightarrow> m_dev m = Some d" for d using assms(2) by (simp add: mounts_on_def)
  have "0 < held d" if "m_dev m = Some d" for d
    using held(2) [of d] fin [of d] mem [of d] that by (metis card_gt_0_iff empty_iff less_le_trans)
  then obtain r held' where r: "close_opt (m_dev m) s1 = Some (s1\<lparr>bdevs := r\<rparr>)" "registry_ok held' r"
    "\<And>d. held' d = held d - (if m_dev m = Some d then 1 else 0)"
    using close_opt_ok [OF held(1)] by blast
  let ?s = "(s1\<lparr>bdevs := r\<rparr>)\<lparr>mount_tab := (mount_tab (s1\<lparr>bdevs := r\<rparr>))(i := None)\<rparr>"
  have on: "mounts_on ?s d = mounts_on s d - {i}" for d by (auto simp: mounts_on_def s1)
  have "card (mounts_on ?s d) \<le> held' d" for d
    using held(2) [of d] fin [of d] mem [of d] unfolding on r(3) by (auto simp: card_Diff_singleton_if)
  then have "devs_ok ?s" using r(2) by (auto simp: devs_ok_def)
  then have "mount_inv (minus_ref i claims) ?s"
    using assms(1,3) by (auto simp: mount_inv_def s1 minus_ref_def)
  then show thesis using that r(1) s1(3,4) by simp
qed

text \<open>\<open>put_mount\<close> gives up a claim; the last one unmounts.\<close>

lemma put_mount_ok:
  assumes "mount_inv claims s" "0 < claims i"
  obtains s' where "put_mount i s = Some s'" "mount_inv (minus_ref i claims) s'" "files s' = files s" "dirs s' = dirs s"
proof -
  obtain m where m: "mount_tab s i = Some m" using mount_invD(3) [OF assms] by blast
  have e: "entry_ok (claims i) m" by (rule mount_invD(4) [OF assms(1) m])
  show thesis
  proof (cases "m_ref m = 1")
    case True
    have c: "claims i = 1" using e True assms(2) by (simp add: entry_ok_def)
    obtain f where f: "api_unmount (m_api m) = Some f" "\<And>x y. f x y \<noteq> None" using e by (auto simp: entry_ok_def api_ok_def api_total_def)
    obtain err s1 where s1: "call (map_option (\<lambda>f. f (m_cookie m)) (api_unmount (m_api m))) ((set_ref i 0 s)\<lparr>mounts := remove1 i (mounts s)\<rparr>) = Some (err, s1)"
      "only_data ((set_ref i 0 s)\<lparr>mounts := remove1 i (mounts s)\<rparr>) s1"
      using call_ok [of "map_option (\<lambda>f. f (m_cookie m)) (api_unmount (m_api m))" "f (m_cookie m)"] f by (metis option.simps(9))
    obtain s2 where s2: "close_opt (m_dev m) s1 = Some s2" "mount_inv (minus_ref i claims) (s2\<lparr>mount_tab := (mount_tab s2)(i := None)\<rparr>)"
      "files s2 = files s" "dirs s2 = dirs s"
      using unlink_inv [OF assms(1) m c True s1] by blast
    have "put_mount i s = Some (s2\<lparr>mount_tab := (mount_tab s2)(i := None)\<rparr>)"
      using m True s1(1) s2(1) by (simp add: put_mount_def Let_def)
    then show ?thesis using that s2 by simp
  next
    case False
    have "mount_inv (minus_ref i claims) (set_ref i (m_ref m - 1) s)"
      using e False assms(2) by (intro set_ref_inv [OF assms(1) m]) (auto simp: entry_ok_def minus_ref_def)
    moreover have "put_mount i s = Some (set_ref i (m_ref m - 1) s)" using m False by (simp add: put_mount_def Let_def)
    ultimately show ?thesis using that by simp
  qed
qed

section \<open>Operations\<close>

text \<open>What an operation that opens and closes no handle leaves: the claims and the handles.\<close>

definition settles :: "(nat \<Rightarrow> nat) \<Rightarrow> 'f fs_state \<Rightarrow> 'f fs_state \<Rightarrow> bool" where
  "settles claims s s' \<longleftrightarrow> mount_inv claims s' \<and> files s' = files s \<and> dirs s' = dirs s"

lemma settles_refl: "mount_inv claims s \<Longrightarrow> settles claims s s"
  by (simp add: settles_def)

lemma only_data_settles: "mount_inv claims s \<Longrightarrow> only_data s s' \<Longrightarrow> settles claims s s'"
  using only_data_inv [of s s' claims] by (simp add: settles_def only_data_def)

lemma put_mount_settles:
  assumes "mount_inv (plus_ref i claims) s"
  obtains s' where "put_mount i s = Some s'" "settles claims s s'"
proof -
  have "0 < plus_ref i claims i" by (simp add: plus_ref_def)
  then obtain s' where "put_mount i s = Some s'" "mount_inv (minus_ref i (plus_ref i claims)) s'" "files s' = files s" "dirs s' = dirs s"
    by (rule put_mount_ok [OF assms])
  then show thesis using that by (simp add: settles_def)
qed

text \<open>A mount that was found, with a claim on it.\<close>

lemma find_mount_cases:
  assumes "mount_inv claims s"
  obtains "find_mount path s = Some (None, s)"
  | i t s1 m where "find_mount path s = Some (Some (i, t), s1)" "mount_tab s1 i = Some m" "api_ok (m_api m)"
      "mount_inv (plus_ref i claims) s1" "files s1 = files s" "dirs s1 = dirs s"
  using assms
proof (rule find_mount_ok [of claims s path])
  fix i m s1
  assume f: "find_mount path s = Some (Some (i, trimmed_path path m), s1)" "mount_tab s i = Some m" "s1 = set_ref i (m_ref m + 1) s"
    "mount_inv (plus_ref i claims) s1"
  have "api_ok (m_api m)" using mount_invD(4) [OF assms f(2)] by (simp add: entry_ok_def)
  then show thesis using f that(2) [of i "trimmed_path path m" s1 "m\<lparr>m_ref := m_ref m + 1\<rparr>"] by simp
qed (rule that(1))

lemma temp_path_eq:
  assumes "NUL \<notin> set path"
  shows "temp_path path = Some (normalized (take 127 path))"
proof -
  have "NUL \<notin> set (take 127 path)" using assms by (meson in_set_takeD)
  then obtain buf where "fs_normalize_path (take 127 path @ [NUL]) = Some buf" "cstr buf = normalized (take 127 path)"
    using fs_normalize_path_result [of "take 127 path" "[]"] by auto
  then show ?thesis by (simp add: temp_path_def)
qed

lemma with_mount_ok:
  assumes "mount_inv claims s"
    and "\<And>m p s1. api_ok (m_api m) \<Longrightarrow> supported m \<Longrightarrow> \<exists>e v s2. act m p s1 = Some (e, v, s2) \<and> only_data s1 s2"
  shows "\<exists>e v' s'. with_mount path supported act v s = Some (e, v', s') \<and> settles claims s s'"
proof (rule find_mount_cases [OF assms(1), of path])
  assume "find_mount path s = Some (None, s)"
  then show ?thesis using settles_refl [OF assms(1)] by (simp add: with_mount_def)
next
  fix i t s1 m
  assume f: "find_mount path s = Some (Some (i, t), s1)" "mount_tab s1 i = Some m" "api_ok (m_api m)"
    "mount_inv (plus_ref i claims) s1" "files s1 = files s" "dirs s1 = dirs s"
  show ?thesis
  proof (cases "supported m")
    case True
    then obtain e v' s2 where a: "act m t s1 = Some (e, v', s2)" "only_data s1 s2" using assms(2) [OF f(3)] by blast
    then have "mount_inv (plus_ref i claims) s2" using f(4) only_data_inv by blast
    then obtain s' where "put_mount i s2 = Some s'" "settles claims s2 s'" by (rule put_mount_settles)
    then show ?thesis using f a True by (auto simp: with_mount_def settles_def only_data_def)
  next
    case False
    obtain s' where "put_mount i s1 = Some s'" "settles claims s1 s'" using f(4) by (rule put_mount_settles)
    then show ?thesis using f False by (auto simp: with_mount_def settles_def)
  qed
qed

text \<open>
  The calls of functions of a file system. Each of them returns and changes the state of the file system only.
\<close>

lemma call_some:
  assumes "\<And>f x. hook = Some f \<Longrightarrow> f x \<noteq> None" "hook \<noteq> None"
  shows "\<exists>e s'. call hook s = Some (e, s') \<and> only_data s s'"
proof -
  obtain f where f: "hook = Some f" using assms(2) by blast
  show ?thesis by (rule call_ok [OF f assms(1) [OF f]]) blast
qed

lemma call_val_some:
  assumes "\<And>f x. hook = Some f \<Longrightarrow> f x \<noteq> None" "hook \<noteq> None"
  shows "\<exists>e v s'. call_val hook s = Some (e, v, s') \<and> only_data s s'"
proof -
  obtain f where f: "hook = Some f" using assms(2) by blast
  show ?thesis by (rule call_val_ok [OF f assms(1) [OF f]]) blast
qed

lemma no_val_some: "(\<exists>e s'. r = Some (e, s') \<and> only_data s s') \<Longrightarrow> \<exists>e v s'. no_val r = Some (e, v, s') \<and> only_data s s'"
  by (auto simp: no_val_def)

lemma fs_remove_file_ok:
  assumes "mount_inv claims s" "NUL \<notin> set path"
  shows "\<exists>e v s'. fs_remove_file path s = Some (e, v, s') \<and> settles claims s s'"
  unfolding fs_remove_file_def temp_path_eq [OF assms(2)] bind.bind_lunit
  by (rule with_mount_ok [OF assms(1)], rule no_val_some, rule call_some) (auto simp: api_ok_def api_total_def)

lemma fs_make_dir_ok:
  assumes "mount_inv claims s" "NUL \<notin> set path"
  shows "\<exists>e v s'. fs_make_dir path s = Some (e, v, s') \<and> settles claims s s'"
  unfolding fs_make_dir_def temp_path_eq [OF assms(2)] bind.bind_lunit
  by (rule with_mount_ok [OF assms(1)], rule no_val_some, rule call_some) (auto simp: api_ok_def api_total_def)

lemma fs_stat_fs_ok:
  assumes "mount_inv claims s"
  shows "\<exists>e v s'. fs_stat_fs path stat s = Some (e, v, s') \<and> settles claims s s'"
  unfolding fs_stat_fs_def
  by (rule with_mount_ok [OF assms], rule call_val_some) (auto simp: api_ok_def api_total_def)

lemma call_hooks:
  assumes "api_ok a"
  shows "api_format a \<noteq> None \<Longrightarrow> \<exists>e s'. call (map_option (\<lambda>f. f dev) (api_format a)) s = Some (e, s') \<and> only_data s s'"
    "api_close a \<noteq> None \<Longrightarrow> \<exists>e s'. call (map_option (\<lambda>f. f k) (api_close a)) s = Some (e, s') \<and> only_data s s'"
    "api_closedir a \<noteq> None \<Longrightarrow> \<exists>e s'. call (map_option (\<lambda>f. f k) (api_closedir a)) s = Some (e, s') \<and> only_data s s'"
    "api_truncate a \<noteq> None \<Longrightarrow> \<exists>e s'. call (map_option (\<lambda>f. f k len) (api_truncate a)) s = Some (e, s') \<and> only_data s s'"
    "api_write a \<noteq> None \<Longrightarrow> \<exists>e s'. call (map_option (\<lambda>f. f k buf off) (api_write a)) s = Some (e, s') \<and> only_data s s'"
    "api_file_ioctl a \<noteq> None \<Longrightarrow> \<exists>e s'. call (map_option (\<lambda>f. f k req n) (api_file_ioctl a)) s = Some (e, s') \<and> only_data s s'"
  by (rule call_some; use assms in \<open>auto simp: api_ok_def api_total_def\<close>)+

lemma call_val_hooks:
  assumes "api_ok a"
  shows "\<exists>e v s'. call_val (map_option (\<lambda>f. f dev) (api_mount a)) s = Some (e, v, s') \<and> only_data s s'"
    "\<exists>e v s'. call_val (map_option (\<lambda>f. f k t) (api_open a)) s = Some (e, v, s') \<and> only_data s s'"
    "\<exists>e v s'. call_val (map_option (\<lambda>f. f k) (api_stat a)) s = Some (e, v, s') \<and> only_data s s'"
    "\<exists>e v s'. call_val (map_option (\<lambda>f. f k off n) (api_read a)) s = Some (e, v, s') \<and> only_data s s'"
    "api_create a \<noteq> None \<Longrightarrow> \<exists>e v s'. call_val (map_option (\<lambda>f. f k t len) (api_create a)) s = Some (e, v, s') \<and> only_data s s'"
    "api_opendir a \<noteq> None \<Longrightarrow> \<exists>e v s'. call_val (map_option (\<lambda>f. f k t) (api_opendir a)) s = Some (e, v, s') \<and> only_data s s'"
    "api_readdir a \<noteq> None \<Longrightarrow> \<exists>e v s'. call_val (map_option (\<lambda>f. f k) (api_readdir a)) s = Some (e, v, s') \<and> only_data s s'"
  by (rule call_val_some; use assms in \<open>auto simp: api_ok_def api_total_def\<close>)+

section \<open>Opening\<close>

text \<open>
  The common form of \<open>fs_open_file\<close>, \<open>fs_create_file\<close> and \<open>fs_open_dir\<close>; \<open>nomem\<close> is the result when there is no memory
  for the handle, \<open>add\<close> the table it is put into.
\<close>

definition open_via ::
  "string \<Rightarrow> ('f mount_entry \<Rightarrow> bool) \<Rightarrow> ('f mount_entry \<Rightarrow> string \<Rightarrow> 'f fs_state \<Rightarrow> (status \<times> nat \<times> 'f fs_state) option) \<Rightarrow>
   (status \<Rightarrow> status) \<Rightarrow> (nat \<Rightarrow> handle \<Rightarrow> 'f fs_state \<Rightarrow> 'f fs_state) \<Rightarrow> nat option \<Rightarrow> 'f fs_state \<Rightarrow> (status \<times> nat option \<times> 'f fs_state) option" where
  "open_via path supported act nomem add new s = do {
     (r, s) \<leftarrow> find_mount path s;
     (case r of
        None \<Rightarrow> Some (ERR_NOT_FOUND, None, s)
      | Some (i, newpath) \<Rightarrow> do {
          m \<leftarrow> mount_tab s i;
          if \<not> supported m then do { s \<leftarrow> put_mount i s; Some (ERR_NOT_SUPPORTED, None, s) }
          else do {
            (err, cookie, s) \<leftarrow> act m newpath s;
            if err < 0 then do { s \<leftarrow> put_mount i s; Some (err, None, s) }
            else (case new of
                    None \<Rightarrow> do { s \<leftarrow> put_mount i s; Some (nomem err, None, s) }
                  | Some h \<Rightarrow> Some (0, Some h, add h (cookie, i) s))
          }
        })
   }"

definition opened :: "(nat \<Rightarrow> nat) \<Rightarrow> (nat \<Rightarrow> handle \<Rightarrow> 'f fs_state \<Rightarrow> 'f fs_state) \<Rightarrow> nat option \<Rightarrow> 'f fs_state \<Rightarrow> status \<Rightarrow> nat option \<Rightarrow> 'f fs_state \<Rightarrow> bool" where
  "opened claims add new s e r s' \<longleftrightarrow>
     (case r of
        None \<Rightarrow> settles claims s s' \<and> (new \<noteq> None \<longrightarrow> e < 0)
      | Some h \<Rightarrow> new = Some h \<and> e = 0 \<and> (\<exists>c i s1. settles (plus_ref i claims) s s1 \<and> s' = add h (c, i) s1))"

lemma settles_trans: "settles c s s1 \<Longrightarrow> settles c' s1 s2 \<Longrightarrow> settles c' s s2"
  by (simp add: settles_def)

lemma open_via_ok:
  assumes "mount_inv claims s"
    and "\<And>m p s1. api_ok (m_api m) \<Longrightarrow> supported m \<Longrightarrow> \<exists>e v s2. act m p s1 = Some (e, v, s2) \<and> only_data s1 s2"
  shows "\<exists>e r s'. open_via path supported act nomem add new s = Some (e, r, s') \<and> opened claims add new s e r s'"
proof (rule find_mount_cases [OF assms(1), of path])
  assume "find_mount path s = Some (None, s)"
  then show ?thesis using settles_refl [OF assms(1)] by (simp add: open_via_def opened_def)
next
  fix i t s1 m
  assume f: "find_mount path s = Some (Some (i, t), s1)" "mount_tab s1 i = Some m" "api_ok (m_api m)"
    "mount_inv (plus_ref i claims) s1" "files s1 = files s" "dirs s1 = dirs s"
  have s1: "settles (plus_ref i claims) s s1" using f by (simp add: settles_def)
  show ?thesis
  proof (cases "supported m")
    case False
    obtain s' where s': "put_mount i s1 = Some s'" "settles claims s1 s'" using f(4) by (rule put_mount_settles)
    have "settles claims s s'" by (rule settles_trans [OF s1 s'(2)])
    then show ?thesis using f False s'(1) by (simp add: open_via_def opened_def)
  next
    case True
    then obtain e c s2 where a: "act m t s1 = Some (e, c, s2)" "only_data s1 s2" using assms(2) [OF f(3)] by blast
    have s2: "settles (plus_ref i claims) s s2" by (rule settles_trans [OF s1 only_data_settles [OF f(4) a(2)]])
    show ?thesis
    proof (cases "e < 0 \<or> new = None")
      case bad: True
      obtain s' where s': "put_mount i s2 = Some s'" "settles claims s2 s'"
        using s2 by (auto simp: settles_def elim: put_mount_settles)
      have "settles claims s s'" by (rule settles_trans [OF s2 s'(2)])
      then show ?thesis using f True bad a(1) s'(1) by (auto simp: open_via_def opened_def)
    next
      case False
      then obtain h where "new = Some h" by (cases new) auto
      then show ?thesis using f True False a(1) s2 by (auto simp: open_via_def opened_def)
    qed
  qed
qed

abbreviation add_file :: "nat \<Rightarrow> handle \<Rightarrow> 'f fs_state \<Rightarrow> 'f fs_state" where
  "add_file h x s \<equiv> s\<lparr>files := (files s)(h \<mapsto> x)\<rparr>"

abbreviation add_dir :: "nat \<Rightarrow> handle \<Rightarrow> 'f fs_state \<Rightarrow> 'f fs_state" where
  "add_dir h x s \<equiv> s\<lparr>dirs := (dirs s)(h \<mapsto> x)\<rparr>"

lemmas open_forms = bind.bind_lunit option.case not_not not_True_eq_False if_False

lemma fs_open_file_ok:
  assumes "mount_inv claims s" "NUL \<notin> set path" "new = Some h"
  shows "\<exists>e r s'. fs_open_file path new s = Some (e, r, s') \<and> opened claims add_file new s e r s'"
proof -
  have eq: "fs_open_file path new s = open_via (normalized (take 127 path)) (\<lambda>m. True)
      (\<lambda>m t s. call_val (map_option (\<lambda>f. f (m_cookie m) t) (api_open (m_api m))) s) (\<lambda>e. e) add_file new s"
    unfolding fs_open_file_def open_via_def temp_path_eq [OF assms(2)] assms(3) open_forms by (rule refl)
  show ?thesis unfolding eq by (rule open_via_ok [OF assms(1)], rule call_val_hooks(2))
qed

lemma fs_create_file_ok:
  assumes "mount_inv claims s" "NUL \<notin> set path"
  shows "\<exists>e r s'. fs_create_file path len new s = Some (e, r, s') \<and> opened claims add_file new s e r s'"
proof -
  have eq: "fs_create_file path len new s = open_via (normalized (take 127 path)) (\<lambda>m. api_create (m_api m) \<noteq> None)
      (\<lambda>m t s. call_val (map_option (\<lambda>f. f (m_cookie m) t len) (api_create (m_api m))) s) (\<lambda>e. e) add_file new s"
    unfolding fs_create_file_def open_via_def temp_path_eq [OF assms(2)] open_forms by (rule refl)
  show ?thesis unfolding eq by (rule open_via_ok [OF assms(1)], rule call_val_hooks(5))
qed

lemma fs_open_dir_ok:
  assumes "mount_inv claims s" "NUL \<notin> set path"
  shows "\<exists>e r s'. fs_open_dir path new s = Some (e, r, s') \<and> opened claims add_dir new s e r s'"
proof -
  have eq: "fs_open_dir path new s = open_via (normalized (take 127 path)) (\<lambda>m. api_opendir (m_api m) \<noteq> None)
      (\<lambda>m t s. call_val (map_option (\<lambda>f. f (m_cookie m) t) (api_opendir (m_api m))) s) (\<lambda>e. ERR_NO_MEMORY) add_dir new s"
    unfolding fs_open_dir_def open_via_def temp_path_eq [OF assms(2)] open_forms by (rule refl)
  show ?thesis unfolding eq by (rule open_via_ok [OF assms(1)], rule call_val_hooks(6))
qed

section \<open>Handles\<close>

lemma handle_of_ok:
  assumes "mount_inv claims s" "tab h = Some (c, i)" "0 < claims i"
  obtains a where "handle_of tab h s = Some (c, i, a)" "api_ok a"
proof -
  obtain m where m: "mount_tab s i = Some m" using mount_invD(3) [OF assms(1,3)] by blast
  then have "api_ok (m_api m)" using mount_invD(4) [OF assms(1) m] by (simp add: entry_ok_def)
  moreover have "handle_of tab h s = Some (c, i, m_api m)" using m assms(2) by (simp add: handle_of_def)
  ultimately show thesis by (intro that)
qed

lemma fs_file_calls_ok:
  assumes "mount_inv claims s" "files s h = Some (c, i)" "0 < claims i"
  shows "\<exists>e s'. fs_file_ioctl h req argp s = Some (e, s') \<and> settles claims s s'"
    "\<exists>e s'. fs_write_file h buf off s = Some (e, s') \<and> settles claims s s'"
    "\<exists>e v s'. fs_read_file h off n s = Some (e, v, s') \<and> settles claims s s'"
    "\<exists>e v s'. fs_stat_file h s = Some (e, v, s') \<and> settles claims s s'"
proof -
  obtain a where m: "handle_of (files s) h s = Some (c, i, a)" "api_ok a"
    by (rule handle_of_ok [where tab = "files s", OF assms])
  note st = only_data_settles [OF assms(1)]
  show "\<exists>e s'. fs_file_ioctl h req argp s = Some (e, s') \<and> settles claims s s'"
    using call_hooks(6) [OF m(2), of c req argp s] st settles_refl [OF assms(1)]
    by (cases "api_file_ioctl a = None") (auto simp: fs_file_ioctl_def m(1))
  show "\<exists>e s'. fs_write_file h buf off s = Some (e, s') \<and> settles claims s s'"
    using call_hooks(5) [OF m(2), of c buf off s] st settles_refl [OF assms(1)]
    by (cases "api_write a = None") (auto simp: fs_write_file_def m(1))
  show "\<exists>e v s'. fs_read_file h off n s = Some (e, v, s') \<and> settles claims s s'"
    using call_val_hooks(4) [OF m(2), of c off n s] st by (auto simp: fs_read_file_def m(1))
  show "\<exists>e v s'. fs_stat_file h s = Some (e, v, s') \<and> settles claims s s'"
    using call_val_hooks(3) [OF m(2), of c s] st by (auto simp: fs_stat_file_def m(1))
qed

lemma fs_truncate_file_ok:
  assumes "mount_inv claims s" "files s h = Some (c, i)" "0 < claims i" "mount_tab s i = Some m" "api_truncate (m_api m) \<noteq> None"
  shows "\<exists>e s'. fs_truncate_file h len s = Some (e, s') \<and> settles claims s s'"
proof -
  have "handle_of (files s) h s = Some (c, i, m_api m)" "api_ok (m_api m)"
    using assms(2,4) mount_invD(4) [OF assms(1,4)] by (simp_all add: handle_of_def entry_ok_def)
  then show ?thesis using call_hooks(4) [of "m_api m" c len s] assms(5) only_data_settles [OF assms(1)] by (auto simp: fs_truncate_file_def)
qed

lemma fs_read_dir_ok:
  assumes "mount_inv claims s" "dirs s h = Some (c, i)" "0 < claims i"
  shows "\<exists>e v s'. fs_read_dir h ent s = Some (e, v, s') \<and> settles claims s s'"
proof -
  obtain a where m: "handle_of (dirs s) h s = Some (c, i, a)" "api_ok a"
    by (rule handle_of_ok [where tab = "dirs s", OF assms])
  show ?thesis using call_val_hooks(7) [OF m(2), of c s] only_data_settles [OF assms(1)] settles_refl [OF assms(1)]
    by (cases "api_readdir a = None") (auto simp: fs_read_dir_def m(1))
qed

text \<open>Closing gives up the claim of the handle, or fails and changes nothing.\<close>

lemma fs_close_file_ok:
  assumes "mount_inv claims s" "files s h = Some (c, i)" "0 < claims i"
  obtains e s' where "fs_close_file h s = Some (e, s')" "e < 0" "settles claims s s'"
  | s' where "fs_close_file h s = Some (0, s'\<lparr>files := (files s')(h := None)\<rparr>)" "settles (minus_ref i claims) s s'"
proof -
  obtain a where m: "handle_of (files s) h s = Some (c, i, a)" "api_ok a"
    by (rule handle_of_ok [where tab = "files s", OF assms])
  obtain e s1 where c: "call (map_option (\<lambda>f. f c) (api_close a)) s = Some (e, s1)" "only_data s s1"
    using call_hooks(2) [OF m(2), of c s] m(2) by (auto simp: api_ok_def)
  note s1 = only_data_settles [OF assms(1) c(2)]
  show thesis
  proof (cases "e < 0")
    case True
    then show ?thesis using that(1) s1 c(1) by (simp add: fs_close_file_def m(1))
  next
    case False
    obtain s2 where s2: "put_mount i s1 = Some s2" "mount_inv (minus_ref i claims) s2" "files s2 = files s1" "dirs s2 = dirs s1"
      using s1 assms(3) by (auto simp: settles_def elim: put_mount_ok)
    have "settles (minus_ref i claims) s s2" using s1 s2 by (simp add: settles_def)
    then show ?thesis using that(2) False c(1) s2(1) by (simp add: fs_close_file_def m(1))
  qed
qed

lemma fs_close_dir_ok:
  assumes "mount_inv claims s" "dirs s h = Some (c, i)" "0 < claims i"
  obtains e s' where "fs_close_dir h s = Some (e, s')" "e < 0" "settles claims s s'"
  | s' where "fs_close_dir h s = Some (0, s'\<lparr>dirs := (dirs s')(h := None)\<rparr>)" "settles (minus_ref i claims) s s'"
proof -
  obtain a where m: "handle_of (dirs s) h s = Some (c, i, a)" "api_ok a"
    by (rule handle_of_ok [where tab = "dirs s", OF assms])
  show thesis
  proof (cases "api_closedir a = None")
    case True
    then show ?thesis using that(1) settles_refl [OF assms(1)] by (simp add: fs_close_dir_def m(1))
  next
    case some: False
    obtain e s1 where c: "call (map_option (\<lambda>f. f c) (api_closedir a)) s = Some (e, s1)" "only_data s s1"
      using call_hooks(3) [OF m(2) some, of c s] by blast
    note s1 = only_data_settles [OF assms(1) c(2)]
    show ?thesis
    proof (cases "e < 0")
      case True
      then show ?thesis using that(1) s1 c(1) some by (simp add: fs_close_dir_def m(1))
    next
      case False
      obtain s2 where s2: "put_mount i s1 = Some s2" "mount_inv (minus_ref i claims) s2" "files s2 = files s1" "dirs s2 = dirs s1"
        using s1 assms(3) by (auto simp: settles_def elim: put_mount_ok)
      have "settles (minus_ref i claims) s s2" using s1 s2 by (simp add: settles_def)
      then show ?thesis using that(2) False c(1) s2(1) some by (simp add: fs_close_dir_def m(1))
    qed
  qed
qed

end
