(* ===== verification/Fs_Mount_Props.thy ===== *)
theory Fs_Mount_Props
  imports Fs_Mount_Inv
begin

text \<open>
  Mounting and unmounting keep the invariant of the mount table. All operations together form a machine whose
  sequences of operations never use a mount that has been freed, when each mount is unmounted once.
\<close>

section \<open>Mounting and unmounting\<close>

lemma fs_unmount_ok:
  assumes "mount_inv claims s" "NUL \<notin> set path"
    and "\<And>i t s1. find_mount (normalized (take 127 path)) s = Some (Some (i, t), s1) \<Longrightarrow> attached claims s i"
  shows "\<exists>e s'. fs_unmount path s = Some (e, s') \<and> settles claims s s'"
proof (rule find_mount_cases [OF assms(1), of "normalized (take 127 path)"])
  assume "find_mount (normalized (take 127 path)) s = Some (None, s)"
  then show ?thesis using settles_refl [OF assms(1)] by (simp add: fs_unmount_def temp_path_eq [OF assms(2)])
next
  fix i t s1 m
  assume f: "find_mount (normalized (take 127 path)) s = Some (Some (i, t), s1)"
  have own: "mount_inv (plus_ref i claims) s" by (rule attached_claim [OF assms(1) assms(3) [OF f]])
  have inv1: "settles (plus_ref i (plus_ref i claims)) s s1"
    by (rule find_mount_cases [OF own, of "normalized (take 127 path)"]) (use f in \<open>simp_all add: settles_def\<close>)
  then obtain s2 where s2: "put_mount i s1 = Some s2" "settles (plus_ref i claims) s1 s2"
    by (auto simp: settles_def elim: put_mount_settles)
  then obtain s3 where s3: "put_mount i s2 = Some s3" "settles claims s2 s3"
    by (auto simp: settles_def elim: put_mount_settles)
  have "settles claims s s3" using settles_trans [OF settles_trans [OF inv1 s2(2)] s3(2)] .
  then show ?thesis using f s2(1) s3(1) by (simp add: fs_unmount_def temp_path_eq [OF assms(2)])
qed

text \<open>The references of the registry while a device is open.\<close>

lemma open_opt_ok:
  assumes "registry_ok held (bdevs s)"
  obtains e r where "open_opt device s = Some (Inl e, s\<lparr>bdevs := r\<rparr>)" "registry_ok held r"
  | dev r held' where "open_opt device s = Some (Inr dev, s\<lparr>bdevs := r\<rparr>)" "registry_ok held' r"
      "\<And>d. held' d = held d + (if dev = Some d then 1 else 0)"
proof (cases "device = None \<or> device = Some []")
  case True
  then have "open_opt device s = Some (Inr None, s\<lparr>bdevs := bdevs s\<rparr>)" by (auto simp: open_opt_def)
  then show ?thesis using that(2) [OF _ assms] by simp
next
  case False
  then obtain name where n: "device = Some name" "name \<noteq> []" by auto
  obtain x r where r: "bio_open name (bdevs s) = Some (x, r)" "case x of None \<Rightarrow> registry_ok held r | Some d \<Rightarrow> registry_ok (plus_ref d held) r"
    using bio_refs.open_ok [OF assms, of name] by blast
  show ?thesis
  proof (cases x)
    case None
    then show ?thesis using that(1) r n by (simp add: open_opt_def)
  next
    case (Some d)
    then have "open_opt device s = Some (Inr (Some d), s\<lparr>bdevs := r\<rparr>)" "registry_ok (plus_ref d held) r" using r n by (simp_all add: open_opt_def)
    then show ?thesis by (rule that(2)) (simp add: plus_ref_def)
  qed
qed

lemma mount_inv_bdevs:
  assumes "mount_inv claims s" "registry_ok held r" "\<And>d. card (mounts_on s d) \<le> held d"
  shows "mount_inv claims (s\<lparr>bdevs := r\<rparr>)"
proof -
  have "mounts_on (s\<lparr>bdevs := r\<rparr>) d = mounts_on s d" for d by (simp add: mounts_on_def)
  then show ?thesis using assms by (auto simp: mount_inv_def devs_ok_def)
qed

text \<open>A device that was opened for a mount that then fails is closed again.\<close>

lemma close_again:
  assumes "mount_inv claims s" "registry_ok held (bdevs s)" "\<And>d. card (mounts_on s d) + (if dev = Some d then 1 else 0) \<le> held d"
  obtains s' where "close_opt dev s = Some s'" "settles claims s s'"
proof -
  have pos: "0 < held d" if "dev = Some d" for d using assms(3) [of d] that by simp
  obtain r held' where r: "close_opt dev s = Some (s\<lparr>bdevs := r\<rparr>)" "registry_ok held' r"
    "\<And>d. held' d = held d - (if dev = Some d then 1 else 0)"
    using close_opt_ok [OF assms(2) pos] by blast
  have "card (mounts_on s d) \<le> held' d" for d using assms(3) [of d] by (simp add: r(3) split: if_splits)
  then have "mount_inv claims (s\<lparr>bdevs := r\<rparr>)" by (rule mount_inv_bdevs [OF assms(1) r(2)])
  then show thesis using that r(1) by (simp add: settles_def)
qed

text \<open>A new mount starts with its own reference.\<close>

lemma add_mount_inv:
  assumes "mount_inv claims s" "mount_tab s i = None" "registry_ok held (bdevs s)"
    and "\<And>d. card (mounts_on s d) + (if dev = Some d then 1 else 0) \<le> held d" "api_ok api"
  shows "mount_inv claims (s\<lparr>mounts := i # mounts s,
    mount_tab := (mount_tab s)(i := Some \<lparr>m_path = p, m_dev = dev, m_cookie = c, m_ref = 1, m_api = api\<rparr>)\<rparr>)"
    (is "mount_inv claims ?s")
proof -
  have zero: "claims i = 0" using mount_invD(3) [OF assms(1), of i] assms(2) by auto
  have "mounts_on ?s d = (if dev = Some d then insert i (mounts_on s d) else mounts_on s d)" "i \<notin> mounts_on s d" for d
    using assms(2) by (auto simp: mounts_on_def)
  then have "card (mounts_on ?s d) \<le> held d" for d
    using assms(4) [of d] finite_mounts_on [OF assms(1), of d] by (simp split: if_splits)
  then have "devs_ok ?s" using assms(3) by (auto simp: devs_ok_def)
  then show ?thesis using assms(1,2,5) zero by (auto simp: mount_inv_def entry_ok_def)
qed

lemma mount_ok:
  assumes "mount_inv claims s" "NUL \<notin> set path" "api_ok api" "\<And>i. new = Some i \<Longrightarrow> mount_tab s i = None"
  shows "\<exists>e s'. mount path device api new dup s = Some (e, s') \<and> settles claims s s'"
proof (cases "normalized (take 127 path) = [] \<or> hd (normalized (take 127 path)) \<noteq> slash")
  case True
  then show ?thesis using settles_refl [OF assms(1)] by (auto simp: mount_def temp_path_eq [OF assms(2)])
next
  case abs: False
  show ?thesis
  proof (rule find_mount_cases [OF assms(1), of "normalized (take 127 path)"])
    fix i t s1 m
    assume f: "find_mount (normalized (take 127 path)) s = Some (Some (i, t), s1)" "mount_inv (plus_ref i claims) s1" "files s1 = files s" "dirs s1 = dirs s"
    then obtain s' where "put_mount i s1 = Some s'" "settles claims s1 s'" by (auto elim: put_mount_settles)
    then show ?thesis using f abs by (auto simp: mount_def temp_path_eq [OF assms(2)] settles_def)
  next
    assume f: "find_mount (normalized (take 127 path)) s = Some (None, s)"
    obtain held where held: "registry_ok held (bdevs s)" "\<And>d. card (mounts_on s d) \<le> held d"
      using mount_invD(5) [OF assms(1)] by (auto simp: devs_ok_def)
    show ?thesis
    proof (rule open_opt_ok [OF held(1), of device])
      fix e r
      assume "open_opt device s = Some (Inl e, s\<lparr>bdevs := r\<rparr>)" "registry_ok held r"
      then show ?thesis using f abs mount_inv_bdevs [OF assms(1) _ held(2), of r] by (simp add: mount_def temp_path_eq [OF assms(2)] settles_def)
    next
      fix dev r held'
      assume o: "open_opt device s = Some (Inr dev, s\<lparr>bdevs := r\<rparr>)" "registry_ok held' r" "\<And>d. held' d = held d + (if dev = Some d then 1 else 0)"
      let ?s = "s\<lparr>bdevs := r\<rparr>"
      obtain e c s2 where c: "call_val (map_option (\<lambda>f. f dev) (api_mount api)) ?s = Some (e, c, s2)" "only_data ?s s2"
        using call_val_hooks(1) [OF assms(3)] by blast
      have le: "card (mounts_on s d) \<le> held' d" for d using held(2) [of d] o(3) [of d] by simp
      have s2: "settles claims s s2" "mount_tab s2 = mount_tab s" "bdevs s2 = r" "mounts_on s2 = mounts_on s"
        using only_data_settles [OF mount_inv_bdevs [OF assms(1) o(2) le] c(2)] c(2) by (auto simp: settles_def only_data_def mounts_on_def)
      have room: "registry_ok held' (bdevs s2)" "card (mounts_on s2 d) + (if dev = Some d then 1 else 0) \<le> held' d" for d
        using held(2) [of d] o(2,3) s2(3,4) by simp_all
      have i2: "mount_inv claims s2" using s2(1) by (simp add: settles_def)
      show ?thesis
      proof (cases "e < 0 \<or> new = None \<or> \<not> dup")
        case True
        obtain s' where "close_opt dev s2 = Some s'" "settles claims s2 s'" by (rule close_again [OF i2 room])
        then show ?thesis using settles_trans [OF s2(1)] f abs o(1) c(1) True by (auto simp: mount_def temp_path_eq [OF assms(2)])
      next
        case False
        then obtain i where "new = Some i" by auto
        then show ?thesis using add_mount_inv [OF i2 _ room assms(3), of i] assms(4) s2(1,2) f abs o(1) c(1) False
          by (auto simp: mount_def temp_path_eq [OF assms(2)] settles_def)
      qed
    qed
  qed
qed

lemma fs_mount_ok:
  assumes "mount_inv claims s" "NUL \<notin> set path" "list_all (\<lambda>x. api_ok (snd x)) impls" "\<And>i. new = Some i \<Longrightarrow> mount_tab s i = None"
  shows "\<exists>e s'. fs_mount impls path fsname device new dup s = Some (e, s') \<and> settles claims s s'"
proof (cases "find_fs fsname impls")
  case None
  then show ?thesis using settles_refl [OF assms(1)] by (simp add: fs_mount_def)
next
  case (Some api)
  then have "api_ok api" using assms(3) by (auto simp: find_fs_def list_all_iff dest!: map_of_SomeD)
  then show ?thesis using mount_ok [OF assms(1,2) _ assms(4)] Some by (simp add: fs_mount_def)
qed

text \<open>\<open>fs_format_device\<close> does not close the device it opens, so the device is held from then on.\<close>

lemma fs_format_device_ok:
  assumes "mount_inv claims s" "list_all (\<lambda>x. api_ok (snd x)) impls"
  shows "\<exists>e s'. fs_format_device impls fsname device s = Some (e, s') \<and> settles claims s s'"
proof (cases "find_fs fsname impls = None \<or> api_format (the (find_fs fsname impls)) = None")
  case True
  then show ?thesis using settles_refl [OF assms(1)] by (auto simp: fs_format_device_def split: option.splits)
next
  case False
  then obtain api f where a: "find_fs fsname impls = Some api" "api_format api = Some f" by auto
  then have ok: "api_ok api" using assms(2) by (auto simp: find_fs_def list_all_iff dest!: map_of_SomeD)
  obtain held where held: "registry_ok held (bdevs s)" "\<And>d. card (mounts_on s d) \<le> held d"
    using mount_invD(5) [OF assms(1)] by (auto simp: devs_ok_def)
  show ?thesis
  proof (rule open_opt_ok [OF held(1), of device])
    fix e r
    assume "open_opt device s = Some (Inl e, s\<lparr>bdevs := r\<rparr>)" "registry_ok held r"
    then show ?thesis using a mount_inv_bdevs [OF assms(1) _ held(2), of r] by (simp add: fs_format_device_def settles_def)
  next
    fix dev r held'
    assume o: "open_opt device s = Some (Inr dev, s\<lparr>bdevs := r\<rparr>)" "registry_ok held' r" "\<And>d. held' d = held d + (if dev = Some d then 1 else 0)"
    have le: "card (mounts_on s d) \<le> held' d" for d using held(2) [of d] o(3) [of d] by simp
    obtain e s2 where c: "call (Some (f dev)) (s\<lparr>bdevs := r\<rparr>) = Some (e, s2)" "only_data (s\<lparr>bdevs := r\<rparr>) s2"
      using call_hooks(1) [OF ok, of dev "s\<lparr>bdevs := r\<rparr>"] a(2) by auto
    have "settles claims s s2"
      using only_data_settles [OF mount_inv_bdevs [OF assms(1) o(2) le] c(2)] by (simp add: settles_def)
    then show ?thesis using a o(1) c(1) by (simp add: fs_format_device_def)
  qed
qed

section \<open>The invariant\<close>

text \<open>The claims on mounts between operations are the open handles.\<close>

definition handles_on :: "(nat \<Rightarrow> handle option) \<Rightarrow> nat \<Rightarrow> nat set" where
  "handles_on tab i = {h. \<exists>c. tab h = Some (c, i)}"

definition handle_claims :: "'f fs_state \<Rightarrow> nat \<Rightarrow> nat" where
  "handle_claims s i = card (handles_on (files s) i) + card (handles_on (dirs s) i)"

definition fs_inv :: "'f fs_state \<Rightarrow> bool" where
  "fs_inv s \<longleftrightarrow> mount_inv (handle_claims s) s \<and> finite (dom (files s)) \<and> finite (dom (dirs s))"

lemma finite_handles: "finite (dom tab) \<Longrightarrow> finite (handles_on tab i)"
  by (rule finite_subset [of _ "dom tab"]) (auto simp: handles_on_def)

lemma card_handles_add:
  assumes "finite (dom tab)" "tab h = None"
  shows "card (handles_on (tab(h \<mapsto> (c, i))) j) = card (handles_on tab j) + (if j = i then 1 else 0)"
proof -
  have "handles_on (tab(h \<mapsto> (c, i))) j = (if j = i then insert h (handles_on tab j) else handles_on tab j)" "h \<notin> handles_on tab j"
    using assms(2) by (auto simp: handles_on_def)
  then show ?thesis using finite_handles [OF assms(1), of j] by (cases "j = i") simp_all
qed

lemma card_handles_del:
  assumes "finite (dom tab)" "tab h = Some (c, i)"
  shows "card (handles_on (tab(h := None)) j) = card (handles_on tab j) - (if j = i then 1 else 0)" "0 < card (handles_on tab i)"
proof -
  have "handles_on (tab(h := None)) j = handles_on tab j - {h}" "h \<in> handles_on tab j \<longleftrightarrow> j = i" for j
    using assms(2) by (auto simp: handles_on_def)
  then show "card (handles_on (tab(h := None)) j) = card (handles_on tab j) - (if j = i then 1 else 0)" by (simp add: card_Diff_singleton_if)
  have "h \<in> handles_on tab i" using assms(2) by (simp add: handles_on_def)
  then show "0 < card (handles_on tab i)" using finite_handles [OF assms(1), of i] by (auto simp: card_gt_0_iff)
qed

lemma mount_inv_handles [simp]:
  "mount_inv claims (s\<lparr>files := F\<rparr>) \<longleftrightarrow> mount_inv claims s" "mount_inv claims (s\<lparr>dirs := F\<rparr>) \<longleftrightarrow> mount_inv claims s"
  by (simp_all add: mount_inv_def devs_ok_def mounts_on_def)

lemma fs_inv_settles:
  assumes "fs_inv s" "settles (handle_claims s) s s'"
  shows "fs_inv s'"
proof -
  have "handle_claims s' = handle_claims s" by (rule ext) (use assms(2) in \<open>simp add: settles_def handle_claims_def\<close>)
  then show ?thesis using assms by (simp add: fs_inv_def settles_def)
qed

lemma fs_inv_file:
  assumes "fs_inv s" "files s h = Some (c, i)"
  shows "0 < handle_claims s i"
  using card_handles_del(2) [of "files s" h c i] assms by (simp add: fs_inv_def handle_claims_def)

lemma fs_inv_dir:
  assumes "fs_inv s" "dirs s h = Some (c, i)"
  shows "0 < handle_claims s i"
  using card_handles_del(2) [of "dirs s" h c i] assms by (simp add: fs_inv_def handle_claims_def)

lemma fs_inv_add_file:
  assumes "fs_inv s" "files s h = None" "settles (plus_ref i (handle_claims s)) s s1"
  shows "fs_inv (add_file h (c, i) s1)"
proof -
  have "handle_claims (add_file h (c, i) s1) = plus_ref i (handle_claims s)"
    by (rule ext) (use assms in \<open>simp add: handle_claims_def plus_ref_def settles_def fs_inv_def card_handles_add\<close>)
  then show ?thesis using assms by (simp add: fs_inv_def settles_def)
qed

lemma fs_inv_add_dir:
  assumes "fs_inv s" "dirs s h = None" "settles (plus_ref i (handle_claims s)) s s1"
  shows "fs_inv (add_dir h (c, i) s1)"
proof -
  have "handle_claims (add_dir h (c, i) s1) = plus_ref i (handle_claims s)"
    by (rule ext) (use assms in \<open>simp add: handle_claims_def plus_ref_def settles_def fs_inv_def card_handles_add\<close>)
  then show ?thesis using assms by (simp add: fs_inv_def settles_def)
qed

lemma fs_inv_del_file:
  assumes "fs_inv s" "files s h = Some (c, i)" "settles (minus_ref i (handle_claims s)) s s1"
  shows "fs_inv (s1\<lparr>files := (files s1)(h := None)\<rparr>)"
proof -
  have del: "card (handles_on ((files s)(h := None)) j) = card (handles_on (files s) j) - (if j = i then 1 else 0)" "0 < card (handles_on (files s) i)" for j
    using assms(1) by (intro card_handles_del [where tab = "files s", OF _ assms(2)]; simp add: fs_inv_def)+
  have "handle_claims (s1\<lparr>files := (files s1)(h := None)\<rparr>) = minus_ref i (handle_claims s)"
    by (rule ext) (use assms(3) del in \<open>auto simp: handle_claims_def minus_ref_def settles_def\<close>)
  then show ?thesis using assms by (simp add: fs_inv_def settles_def)
qed

lemma fs_inv_del_dir:
  assumes "fs_inv s" "dirs s h = Some (c, i)" "settles (minus_ref i (handle_claims s)) s s1"
  shows "fs_inv (s1\<lparr>dirs := (dirs s1)(h := None)\<rparr>)"
proof -
  have del: "card (handles_on ((dirs s)(h := None)) j) = card (handles_on (dirs s) j) - (if j = i then 1 else 0)" "0 < card (handles_on (dirs s) i)" for j
    using assms(1) by (intro card_handles_del [where tab = "dirs s", OF _ assms(2)]; simp add: fs_inv_def)+
  have "handle_claims (s1\<lparr>dirs := (dirs s1)(h := None)\<rparr>) = minus_ref i (handle_claims s)"
    by (rule ext) (use assms(3) del in \<open>auto simp: handle_claims_def minus_ref_def settles_def\<close>)
  then show ?thesis using assms by (simp add: fs_inv_def settles_def)
qed

section \<open>Sequences of operations\<close>

datatype fs_op =
    Op_mount string string "string option" "nat option" bool
  | Op_unmount string
  | Op_format string "string option"
  | Op_open string "nat option"
  | Op_create string u64 "nat option"
  | Op_opendir string "nat option"
  | Op_remove string
  | Op_mkdir string
  | Op_statfs string fs_stat
  | Op_ioctl nat int nat
  | Op_truncate nat u64
  | Op_read nat int nat
  | Op_write nat "u8 list" int
  | Op_stat nat
  | Op_readdir nat string
  | Op_close nat
  | Op_closedir nat
  | Op_load string nat "nat option"
  | Op_register nat
  | Op_unregister nat
  | Op_publish string string "nat option" status

definition val_state :: "('e \<times> 'v \<times> 's) option \<Rightarrow> 's option" where
  "val_state r = map_option (\<lambda>(e, v, s). s) r"

definition end_state :: "('e \<times> 's) option \<Rightarrow> 's option" where
  "end_state r = map_option snd r"

fun fs_run :: "(string \<times> 'f fs_api) list \<Rightarrow> fs_op \<Rightarrow> 'f fs_state \<Rightarrow> 'f fs_state option" where
  "fs_run impls (Op_mount path fsname device new dup) s = end_state (fs_mount impls path fsname device new dup s)"
| "fs_run impls (Op_unmount path) s = end_state (fs_unmount path s)"
| "fs_run impls (Op_format fsname device) s = end_state (fs_format_device impls fsname device s)"
| "fs_run impls (Op_open path new) s = val_state (fs_open_file path new s)"
| "fs_run impls (Op_create path len new) s = val_state (fs_create_file path len new s)"
| "fs_run impls (Op_opendir path new) s = val_state (fs_open_dir path new s)"
| "fs_run impls (Op_remove path) s = val_state (fs_remove_file path s)"
| "fs_run impls (Op_mkdir path) s = val_state (fs_make_dir path s)"
| "fs_run impls (Op_statfs path stat) s = val_state (fs_stat_fs path stat s)"
| "fs_run impls (Op_ioctl h req argp) s = end_state (fs_file_ioctl h req argp s)"
| "fs_run impls (Op_truncate h len) s = end_state (fs_truncate_file h len s)"
| "fs_run impls (Op_read h off n) s = val_state (fs_read_file h off n s)"
| "fs_run impls (Op_write h buf off) s = end_state (fs_write_file h buf off s)"
| "fs_run impls (Op_stat h) s = val_state (fs_stat_file h s)"
| "fs_run impls (Op_readdir h ent) s = val_state (fs_read_dir h ent s)"
| "fs_run impls (Op_close h) s = end_state (fs_close_file h s)"
| "fs_run impls (Op_closedir h) s = end_state (fs_close_dir h s)"
| "fs_run impls (Op_load path maxlen new) s = val_state (fs_load_file path maxlen new s)"
| "fs_run impls (Op_register d) s = Some (s\<lparr>bdevs := bio_register_device d (bdevs s)\<rparr>)"
| "fs_run impls (Op_unregister d) s = on_devs (bio_unregister_device d) s"
| "fs_run impls (Op_publish parent sub new fits) s =
     map_option (\<lambda>(e, r). s\<lparr>bdevs := r\<rparr>) (bio_publish_subdevice parent sub new (\<lambda>_. fits) (bdevs s))"

text \<open>
  What the callers owe: paths are C strings; memory that \<open>malloc\<close> gives is not in use, and there is memory where the
  code does not check; handles are open; a file is truncated only where the file system can; a mount is unmounted
  once; a device is registered once.
\<close>

fun fs_op_ok :: "fs_op \<Rightarrow> 'f fs_state \<Rightarrow> bool" where
  "fs_op_ok (Op_mount path fsname device new dup) s \<longleftrightarrow> NUL \<notin> set path \<and> (\<forall>i. new = Some i \<longrightarrow> mount_tab s i = None)"
| "fs_op_ok (Op_unmount path) s \<longleftrightarrow> NUL \<notin> set path \<and>
     (\<forall>i t s1. find_mount (normalized (take 127 path)) s = Some (Some (i, t), s1) \<longrightarrow> attached (handle_claims s) s i)"
| "fs_op_ok (Op_format fsname device) s \<longleftrightarrow> True"
| "fs_op_ok (Op_open path new) s \<longleftrightarrow> NUL \<notin> set path \<and> (\<exists>h. new = Some h \<and> files s h = None)"
| "fs_op_ok (Op_create path len new) s \<longleftrightarrow> NUL \<notin> set path \<and> (\<forall>h. new = Some h \<longrightarrow> files s h = None)"
| "fs_op_ok (Op_opendir path new) s \<longleftrightarrow> NUL \<notin> set path \<and> (\<forall>h. new = Some h \<longrightarrow> dirs s h = None)"
| "fs_op_ok (Op_remove path) s \<longleftrightarrow> NUL \<notin> set path"
| "fs_op_ok (Op_mkdir path) s \<longleftrightarrow> NUL \<notin> set path"
| "fs_op_ok (Op_statfs path stat) s \<longleftrightarrow> True"
| "fs_op_ok (Op_ioctl h req argp) s \<longleftrightarrow> files s h \<noteq> None"
| "fs_op_ok (Op_truncate h len) s \<longleftrightarrow> (\<exists>c i m. files s h = Some (c, i) \<and> mount_tab s i = Some m \<and> api_truncate (m_api m) \<noteq> None)"
| "fs_op_ok (Op_read h off n) s \<longleftrightarrow> files s h \<noteq> None"
| "fs_op_ok (Op_write h buf off) s \<longleftrightarrow> files s h \<noteq> None"
| "fs_op_ok (Op_stat h) s \<longleftrightarrow> files s h \<noteq> None"
| "fs_op_ok (Op_readdir h ent) s \<longleftrightarrow> dirs s h \<noteq> None"
| "fs_op_ok (Op_close h) s \<longleftrightarrow> files s h \<noteq> None"
| "fs_op_ok (Op_closedir h) s \<longleftrightarrow> dirs s h \<noteq> None"
| "fs_op_ok (Op_load path maxlen new) s \<longleftrightarrow> NUL \<notin> set path \<and> (\<exists>h. new = Some h \<and> files s h = None)"
| "fs_op_ok (Op_register d) s \<longleftrightarrow> d \<notin> set (dev_list (bdevs s))"
| "fs_op_ok (Op_unregister d) s \<longleftrightarrow> d \<in> set (dev_list (bdevs s))"
| "fs_op_ok (Op_publish parent sub new fits) s \<longleftrightarrow> (\<forall>d. new = Some d \<longrightarrow> dev_parent (bdevs s) d = None \<and> dev_ref (bdevs s) d = 0)"

fun fs_runs :: "(string \<times> 'f fs_api) list \<Rightarrow> fs_op list \<Rightarrow> 'f fs_state \<Rightarrow> 'f fs_state option" where
  "fs_runs impls [] s = Some s"
| "fs_runs impls (op # ops) s = do { s \<leftarrow> fs_run impls op s; fs_runs impls ops s }"

fun fs_ops_ok :: "(string \<times> 'f fs_api) list \<Rightarrow> fs_op list \<Rightarrow> 'f fs_state \<Rightarrow> bool" where
  "fs_ops_ok impls [] s \<longleftrightarrow> True"
| "fs_ops_ok impls (op # ops) s \<longleftrightarrow> fs_op_ok op s \<and> (case fs_run impls op s of None \<Rightarrow> True | Some s' \<Rightarrow> fs_ops_ok impls ops s')"

lemma end_state_settles: "fs_inv s \<Longrightarrow> \<exists>e s'. r = Some (e, s') \<and> settles (handle_claims s) s s' \<Longrightarrow> \<exists>s'. end_state r = Some s' \<and> fs_inv s'"
  using fs_inv_settles by (fastforce simp: end_state_def)

lemma val_state_settles: "fs_inv s \<Longrightarrow> \<exists>e v s'. r = Some (e, v, s') \<and> settles (handle_claims s) s s' \<Longrightarrow> \<exists>s'. val_state r = Some s' \<and> fs_inv s'"
  using fs_inv_settles by (fastforce simp: val_state_def)

lemma opened_inv:
  assumes "fs_inv s" "opened (handle_claims s) add new s e r s'"
    and "\<And>h c i s1. new = Some h \<Longrightarrow> settles (plus_ref i (handle_claims s)) s s1 \<Longrightarrow> fs_inv (add h (c, i) s1)"
  shows "fs_inv s'"
  using assms fs_inv_settles [OF assms(1), of s'] by (auto simp: opened_def split: option.splits)

lemma registry_step:
  assumes "fs_inv s" "\<And>held. registry_ok held (bdevs s) \<Longrightarrow> \<exists>r. R r \<and> registry_ok held r"
  shows "\<exists>r. R r \<and> fs_inv (s\<lparr>bdevs := r\<rparr>)"
proof -
  have i: "mount_inv (handle_claims s) s" using assms(1) by (simp add: fs_inv_def)
  obtain held where held: "registry_ok held (bdevs s)" "\<And>d. card (mounts_on s d) \<le> held d"
    using mount_invD(5) [OF i] by (auto simp: devs_ok_def)
  obtain r where r: "R r" "registry_ok held r" using assms(2) [OF held(1)] by blast
  have "settles (handle_claims s) s (s\<lparr>bdevs := r\<rparr>)" using mount_inv_bdevs [OF i r(2) held(2)] by (simp add: settles_def)
  then show ?thesis using r(1) fs_inv_settles [OF assms(1)] by blast
qed

lemma fs_close_file_inv:
  assumes "fs_inv s" "files s h \<noteq> None"
  shows "\<exists>e s'. fs_close_file h s = Some (e, s') \<and> fs_inv s'"
proof -
  obtain c i where h: "files s h = Some (c, i)" using assms(2) by auto
  have m: "mount_inv (handle_claims s) s" using assms(1) by (simp add: fs_inv_def)
  show ?thesis
    by (rule fs_close_file_ok [OF m h fs_inv_file [OF assms(1) h]])
      (use fs_inv_settles [OF assms(1)] fs_inv_del_file [OF assms(1) h] in blast)+
qed

lemma fs_close_dir_inv:
  assumes "fs_inv s" "dirs s h \<noteq> None"
  shows "\<exists>e s'. fs_close_dir h s = Some (e, s') \<and> fs_inv s'"
proof -
  obtain c i where h: "dirs s h = Some (c, i)" using assms(2) by auto
  have m: "mount_inv (handle_claims s) s" using assms(1) by (simp add: fs_inv_def)
  show ?thesis
    by (rule fs_close_dir_ok [OF m h fs_inv_dir [OF assms(1) h]])
      (use fs_inv_settles [OF assms(1)] fs_inv_del_dir [OF assms(1) h] in blast)+
qed

lemma fs_open_file_inv:
  assumes "fs_inv s" "NUL \<notin> set path" "files s h = None"
  obtains e s' where "fs_open_file path (Some h) s = Some (e, None, s')" "e < 0" "fs_inv s'"
  | s' where "fs_open_file path (Some h) s = Some (0, Some h, s')" "fs_inv s'" "files s' h \<noteq> None"
proof -
  have m: "mount_inv (handle_claims s) s" using assms(1) by (simp add: fs_inv_def)
  obtain e r s' where o: "fs_open_file path (Some h) s = Some (e, r, s')" "opened (handle_claims s) add_file (Some h) s e r s'"
    using fs_open_file_ok [OF m assms(2) refl] by blast
  have inv: "fs_inv s'" by (rule opened_inv [OF assms(1) o(2)]) (use assms fs_inv_add_file in auto)
  show thesis
  proof (cases r)
    case None
    then show ?thesis using that(1) o inv by (auto simp: opened_def)
  next
    case (Some x)
    then show ?thesis using that(2) o inv by (auto simp: opened_def)
  qed
qed

lemma fs_load_file_inv:
  assumes "fs_inv s" "NUL \<notin> set path" "files s h = None"
  shows "\<exists>e v s'. fs_load_file path maxlen (Some h) s = Some (e, v, s') \<and> fs_inv s'"
proof (rule fs_open_file_inv [OF assms])
  fix e s' assume "fs_open_file path (Some h) s = Some (e, None, s')" "e < 0" "fs_inv s'"
  then show ?thesis by (simp add: fs_load_file_def)
next
  fix s1 assume s1: "fs_open_file path (Some h) s = Some (0, Some h, s1)" "fs_inv s1" "files s1 h \<noteq> None"
  then obtain c i where h: "files s1 h = Some (c, i)" by auto
  have m1: "mount_inv (handle_claims s1) s1" using s1(2) by (simp add: fs_inv_def)
  obtain e v s2 where s2: "fs_stat_file h s1 = Some (e, v, s2)" "settles (handle_claims s1) s1 s2"
    using fs_file_calls_ok(4) [OF m1 h fs_inv_file [OF s1(2) h]] by blast
  have i2: "fs_inv s2" "files s2 h = Some (c, i)" using fs_inv_settles [OF s1(2) s2(2)] s2(2) h by (simp_all add: settles_def)
  have m2: "mount_inv (handle_claims s2) s2" using i2(1) by (simp add: fs_inv_def)
  obtain n buf s3 where s3: "fs_read_file h 0 (min maxlen (stat_size v)) s2 = Some (n, buf, s3)" "settles (handle_claims s2) s2 s3"
    using fs_file_calls_ok(3) [OF m2 i2(2) fs_inv_file [OF i2]] by blast
  have i3: "fs_inv s3" "files s3 h \<noteq> None" using fs_inv_settles [OF i2(1) s3(2)] s3(2) i2(2) by (simp_all add: settles_def)
  obtain e' s4 where "fs_close_file h s3 = Some (e', s4)" "fs_inv s4" using fs_close_file_inv [OF i3] by blast
  then show ?thesis using s1(1) s2(1) s3(1) by (simp add: fs_load_file_def)
qed

lemma fs_run_ok:
  assumes "fs_inv s" "list_all (\<lambda>x. api_ok (snd x)) impls" "fs_op_ok op s"
  shows "\<exists>s'. fs_run impls op s = Some s' \<and> fs_inv s'"
proof -
  have m: "mount_inv (handle_claims s) s" using assms(1) by (simp add: fs_inv_def)
  note es = end_state_settles [OF assms(1)] and vs = val_state_settles [OF assms(1)]
  note ff = fs_inv_file [OF assms(1)] and dd = fs_inv_dir [OF assms(1)]
  show ?thesis
  proof (cases op)
    case (Op_mount path fsname device new dup)
    then show ?thesis using es [OF fs_mount_ok [OF m _ assms(2)]] assms(3) by simp
  next
    case (Op_unmount path)
    then show ?thesis using es [OF fs_unmount_ok [OF m]] assms(3) by simp
  next
    case (Op_format fsname device)
    then show ?thesis using es [OF fs_format_device_ok [OF m assms(2)]] by simp
  next
    case (Op_open path new)
    then obtain h where h: "NUL \<notin> set path" "new = Some h" "files s h = None" using assms(3) by auto
    show ?thesis by (rule fs_open_file_inv [OF assms(1) h(1,3)]) (auto simp: Op_open h val_state_def)
  next
    case (Op_create path len new)
    then obtain e r s' where o: "fs_create_file path len new s = Some (e, r, s')" "opened (handle_claims s) add_file new s e r s'"
      using fs_create_file_ok [OF m] assms(3) by fastforce
    have "fs_inv s'" by (rule opened_inv [OF assms(1) o(2)]) (use assms(1,3) fs_inv_add_file Op_create in auto)
    then show ?thesis using o(1) Op_create by (simp add: val_state_def)
  next
    case (Op_opendir path new)
    then obtain e r s' where o: "fs_open_dir path new s = Some (e, r, s')" "opened (handle_claims s) add_dir new s e r s'"
      using fs_open_dir_ok [OF m] assms(3) by fastforce
    have "fs_inv s'" by (rule opened_inv [OF assms(1) o(2)]) (use assms(1,3) fs_inv_add_dir Op_opendir in auto)
    then show ?thesis using o(1) Op_opendir by (simp add: val_state_def)
  next
    case (Op_remove path)
    then show ?thesis using vs [OF fs_remove_file_ok [OF m]] assms(3) by simp
  next
    case (Op_mkdir path)
    then show ?thesis using vs [OF fs_make_dir_ok [OF m]] assms(3) by simp
  next
    case (Op_statfs path stat)
    then show ?thesis using vs [OF fs_stat_fs_ok [OF m]] by simp
  next
    case (Op_ioctl h req argp)
    then obtain c i where h: "files s h = Some (c, i)" using assms(3) by auto
    show ?thesis using es [OF fs_file_calls_ok(1) [OF m h ff [OF h]]] Op_ioctl by simp
  next
    case (Op_truncate h len)
    then obtain c i e where h: "files s h = Some (c, i)" "mount_tab s i = Some e" "api_truncate (m_api e) \<noteq> None" using assms(3) by auto
    show ?thesis using es [OF fs_truncate_file_ok [OF m h(1) ff [OF h(1)] h(2,3)]] Op_truncate by simp
  next
    case (Op_read h off n)
    then obtain c i where h: "files s h = Some (c, i)" using assms(3) by auto
    show ?thesis using vs [OF fs_file_calls_ok(3) [OF m h ff [OF h]]] Op_read by simp
  next
    case (Op_write h buf off)
    then obtain c i where h: "files s h = Some (c, i)" using assms(3) by auto
    show ?thesis using es [OF fs_file_calls_ok(2) [OF m h ff [OF h]]] Op_write by simp
  next
    case (Op_stat h)
    then obtain c i where h: "files s h = Some (c, i)" using assms(3) by auto
    show ?thesis using vs [OF fs_file_calls_ok(4) [OF m h ff [OF h]]] Op_stat by simp
  next
    case (Op_readdir h ent)
    then obtain c i where h: "dirs s h = Some (c, i)" using assms(3) by auto
    show ?thesis using vs [OF fs_read_dir_ok [OF m h dd [OF h]]] Op_readdir by simp
  next
    case (Op_close h)
    then show ?thesis using fs_close_file_inv [OF assms(1), of h] assms(3) by (auto simp: end_state_def)
  next
    case (Op_closedir h)
    then show ?thesis using fs_close_dir_inv [OF assms(1), of h] assms(3) by (auto simp: end_state_def)
  next
    case (Op_load path maxlen new)
    then obtain h where h: "NUL \<notin> set path" "new = Some h" "files s h = None" using assms(3) by auto
    obtain e v s' where "fs_load_file path maxlen new s = Some (e, v, s')" "fs_inv s'"
      using fs_load_file_inv [OF assms(1) h(1,3), of maxlen] h(2) by blast
    then show ?thesis using Op_load by (simp add: val_state_def)
  next
    case (Op_register d)
    then show ?thesis using registry_step [OF assms(1), of "\<lambda>r. r = bio_register_device d (bdevs s)"] register_ok assms(3) by auto
  next
    case (Op_unregister d)
    have "\<exists>r. bio_unregister_device d (bdevs s) = Some r \<and> fs_inv (s\<lparr>bdevs := r\<rparr>)"
      by (rule registry_step [OF assms(1)]) (use unregister_ok assms(3) Op_unregister in fastforce)
    then show ?thesis using Op_unregister by (auto simp: on_devs_def)
  next
    case (Op_publish parent sub new fits)
    have "\<exists>r. (\<exists>e. bio_publish_subdevice parent sub new (\<lambda>_. fits) (bdevs s) = Some (e, r)) \<and> fs_inv (s\<lparr>bdevs := r\<rparr>)"
    proof (rule registry_step [OF assms(1)])
      fix held assume ok: "registry_ok held (bdevs s)"
      then have "dev_parent (bdevs s) d = None \<and> refs_due {} held (bdevs s) d = 0" if "new = Some d" for d
        using that assms(3) Op_publish by (auto simp: registry_ok_but_def)
      from publish_ok [OF ok this] show "\<exists>r. (\<exists>e. bio_publish_subdevice parent sub new (\<lambda>_. fits) (bdevs s) = Some (e, r)) \<and> registry_ok held r" by blast
    qed
    then show ?thesis using Op_publish by auto
  qed
qed

lemma fs_runs_ok:
  assumes "list_all (\<lambda>x. api_ok (snd x)) impls"
  shows "fs_inv s \<Longrightarrow> fs_ops_ok impls ops s \<Longrightarrow> \<exists>s'. fs_runs impls ops s = Some s' \<and> fs_inv s'"
proof (induction ops arbitrary: s)
  case (Cons op ops)
  obtain s1 where "fs_run impls op s = Some s1" "fs_inv s1" using fs_run_ok [OF Cons.prems(1) assms, where op = op] Cons.prems(2) by auto
  then show ?case using Cons by simp
qed simp

section \<open>A file system for examples\<close>

text \<open>A file system without state, in which every path is an empty file.\<close>

definition demo_api :: "unit fs_api" where
  "demo_api = \<lparr>api_format = None, api_fs_stat = None, api_mount = Some (\<lambda>d f. Some (0, 0, f)), api_unmount = Some (\<lambda>k f. Some (0, f)),
     api_open = Some (\<lambda>k p f. Some (0, 0, f)), api_create = None, api_remove = None, api_truncate = None,
     api_stat = Some (\<lambda>k f. Some (0, \<lparr>is_dir = False, stat_size = 0, stat_capacity = 0\<rparr>, f)),
     api_read = Some (\<lambda>k off n f. Some (0, [], f)), api_write = None, api_close = Some (\<lambda>k f. Some (0, f)), api_mkdir = None,
     api_opendir = None, api_readdir = None, api_closedir = None, api_file_ioctl = None\<rparr>"

definition demo_fs :: "unit fs_state" where
  "demo_fs = \<lparr>mounts = [], mount_tab = (\<lambda>_. None), files = (\<lambda>_. None), dirs = (\<lambda>_. None), fs_data = (),
     bdevs = \<lparr>dev_list = [], dev_name = (\<lambda>_. []), dev_ref = (\<lambda>_. 0), dev_parent = (\<lambda>_. None)\<rparr>\<rparr>"

lemma demo_api_ok: "api_ok demo_api"
  by (simp add: api_ok_def api_total_def demo_api_def)

lemma demo_fs_inv: "fs_inv demo_fs"
proof -
  have "registry_ok (\<lambda>_. 0) (bdevs demo_fs)"
    by (simp add: registry_ok_but_def demo_fs_def ranked_def refs_due_def children_def)
  then show ?thesis
    by (auto simp: fs_inv_def mount_inv_def devs_ok_def demo_fs_def handle_claims_def handles_on_def mounts_on_def)
qed

lemma demo_paths: "normalized ''/a'' = ''/a''" "normalized ''/a/f'' = ''/a/f''"
  by (simp_all add: normalized_def normalized_fields_def root_fields_def field_step_def)

lemma demo_temp: "temp_path ''/a'' = Some ''/a''" "temp_path ''/a/f'' = Some ''/a/f''"
  using temp_path_eq [of "''/a''"] temp_path_eq [of "''/a/f''"] by (simp_all add: demo_paths)

text \<open>The states of a mount with an open file that is unmounted and then closed.\<close>

definition demo_mounted :: "int \<Rightarrow> (nat \<Rightarrow> handle option) \<Rightarrow> unit fs_state" where
  "demo_mounted r fs = demo_fs\<lparr>mounts := [1],
     mount_tab := [1 \<mapsto> \<lparr>m_path = ''/a'', m_dev = None, m_cookie = 0, m_ref = r, m_api = demo_api\<rparr>], files := fs\<rparr>"

lemmas demo_defs = demo_mounted_def demo_fs_def find_mount_def path_matches_def trimmed_path_def set_ref_def put_mount_def
  call_def call_val_def close_opt_def demo_api_def

lemma demo_mount: "fs_run [(''demo'', demo_api)] (Op_mount ''/a'' ''demo'' None (Some 1) True) demo_fs = Some (demo_mounted 1 (\<lambda>_. None))"
  by (simp add: end_state_def fs_mount_def find_fs_def mount_def demo_temp open_opt_def demo_defs)

lemma demo_open: "fs_run impls (Op_open ''/a/f'' (Some 2)) (demo_mounted 1 (\<lambda>_. None)) = Some (demo_mounted 2 [2 \<mapsto> (0, 1)])"
  by (simp add: val_state_def fs_open_file_def demo_temp demo_defs)

lemma demo_unmount: "fs_run impls (Op_unmount ''/a'') (demo_mounted 2 [2 \<mapsto> (0, 1)]) = Some (demo_mounted 1 [2 \<mapsto> (0, 1)])"
  by (simp add: end_state_def fs_unmount_def demo_temp demo_defs)

lemma demo_close: "fs_run impls (Op_close 2) (demo_mounted 1 [2 \<mapsto> (0, 1)]) = Some demo_fs"
  by (simp add: end_state_def fs_close_file_def handle_of_def demo_defs fun_eq_iff)

lemma demo_attached:
  "find_mount (normalized (take 127 ''/a'')) (demo_mounted 2 [2 \<mapsto> (0, 1)]) = Some (Some (i, t), s1) \<Longrightarrow>
    attached (handle_claims (demo_mounted 2 [2 \<mapsto> (0, 1)])) (demo_mounted 2 [2 \<mapsto> (0, 1)]) i"
  by (auto simp: demo_paths attached_def handle_claims_def handles_on_def demo_defs)

text \<open>
  Unmounting twice takes the reference of the open file: the mount is freed under it, and closing the file uses it.
\<close>

lemma fs_double_unmount:
  "fs_runs [(''demo'', demo_api)] [Op_mount ''/a'' ''demo'' None (Some 1) True, Op_open ''/a/f'' (Some 2), Op_unmount ''/a'', Op_unmount ''/a'', Op_close 2] demo_fs = None"
proof -
  have "fs_run impls (Op_unmount ''/a'') (demo_mounted 1 [2 \<mapsto> (0, 1)]) = Some (demo_fs\<lparr>files := [2 \<mapsto> (0, 1)]\<rparr>)" for impls
    by (simp add: end_state_def fs_unmount_def demo_temp demo_defs fun_eq_iff)
  moreover have "fs_run impls (Op_close 2) (demo_fs\<lparr>files := [2 \<mapsto> (0, 1)]\<rparr>) = None" for impls
    by (simp add: end_state_def fs_close_file_def handle_of_def demo_fs_def)
  ultimately show ?thesis by (simp only: fs_runs.simps demo_mount demo_open demo_unmount bind.bind_lunit bind.bind_lzero)
qed

section \<open>Properties\<close>

text \<open>
  C11: the reference counts of mounts and devices are safe, for callers and file systems that meet their obligations.
  Every file system that can be mounted has the functions mount, unmount, open, close, stat and read, and all its
  functions return (\<open>api_ok\<close>). Before each operation of the sequence (\<open>fs_op_ok\<close>): paths are C strings; handles are
  open; a mount is unmounted once; a file is truncated only if its file system has the function; memory is found in
  \<open>fs_open_file\<close> and \<open>fs_load_file\<close>, which do not check, and memory that is found is not in use; a device is
  registered once and unregistered only while it is registered. Then no operation on mounts, files, directories and
  devices uses a mount that has been freed, calls a null pointer or fails an assertion. The mount of an open file or
  directory is in the table; a mount has one reference for each open handle and one until it is unmounted; and it
  leaves the table with the last of them.
\<close>

theorem fs_references_safe:
  assumes "fs_inv s" "list_all (\<lambda>x. api_ok (snd x)) impls" "fs_ops_ok impls ops s"
  shows "\<exists>s'. fs_runs impls ops s = Some s' \<and> fs_inv s' \<and>
    (\<forall>h c i. files s' h = Some (c, i) \<or> dirs s' h = Some (c, i) \<longrightarrow> i \<in> set (mounts s')) \<and>
    (\<forall>i m. mount_tab s' i = Some m \<longrightarrow> m_ref m > 0 \<and> m_ref m - int (handle_claims s' i) \<in> {0, 1})"
proof -
  obtain s' where s': "fs_runs impls ops s = Some s'" "fs_inv s'" using fs_runs_ok [OF assms(2,1,3)] by blast
  have m: "mount_inv (handle_claims s') s'" using s'(2) by (simp add: fs_inv_def)
  have "i \<in> set (mounts s')" if "files s' h = Some (c, i) \<or> dirs s' h = Some (c, i)" for h c i
  proof -
    have "0 < handle_claims s' i" using that fs_inv_file [OF s'(2)] fs_inv_dir [OF s'(2)] by blast
    then show ?thesis using mount_invD(2,3) [OF m] by auto
  qed
  moreover have "m_ref e > 0 \<and> m_ref e - int (handle_claims s' i) \<in> {0, 1}" if "mount_tab s' i = Some e" for i e
    using mount_invD(4) [OF m that] by (auto simp: entry_ok_def)
  ultimately show ?thesis using s' by blast
qed

theorem fs_references_safe_witness:
  "\<exists>s'. fs_runs [(''demo'', demo_api)] [Op_mount ''/a'' ''demo'' None (Some 1) True, Op_open ''/a/f'' (Some 2), Op_unmount ''/a'', Op_close 2] demo_fs = Some s' \<and> fs_inv s'"
proof -
  have "fs_ops_ok [(''demo'', demo_api)] [Op_mount ''/a'' ''demo'' None (Some 1) True, Op_open ''/a/f'' (Some 2), Op_unmount ''/a'', Op_close 2] demo_fs"
    using demo_attached by (simp only: fs_ops_ok.simps demo_mount demo_open demo_unmount demo_close option.case fs_op_ok.simps)
      (simp add: demo_fs_def demo_mounted_def)
  then show ?thesis using fs_references_safe [OF demo_fs_inv, of "[(''demo'', demo_api)]"] demo_api_ok by fastforce
qed

end
