(* ===== verification/Spec2Isabelle.thy ===== *)
theory Spec2Isabelle
  imports Pow2 Sched_Props Thread_Start Sync_Safety Cbuf Port_Buf Pmm_Props Vmm_Props Arm64_Props Buffer_Props Port_Props System_Props Tick_Race Fs_Path Storage_Props Bsearch Miniheap_Props Fs_Mount_Props
begin

text \<open>
  A verification of the core of the micro-kernel under \<open>src/mk\<close>: threads and the scheduler, timers, wait
  queues and the primitives on them, ports, circular buffers, the physical and virtual memory managers,
  the page tables of arm64, the kernel heap, block devices and their cache, path names, sorting and
  searching.

  \<^bold>\<open>The program.\<close> Threads (\<open>kernel/thread.c\<close>) wait in run queues by priority, in wait queues, or asleep
  on a timer (\<open>kernel/timer.c\<close>). Mutexes, semaphores, events (\<open>kernel/mutex.c\<close>, \<open>semaphore.c\<close>,
  \<open>event.c\<close>) and ports (\<open>kernel/port.c\<close>) block threads on wait queues and wake them. Byte buffers
  (\<open>lib/cbuf\<close>) use an event. Pages of memory come from arenas (\<open>kernel/vm/pmm.c\<close>); address spaces and
  their regions (\<open>kernel/vm/vmm.c\<close>, \<open>vm.c\<close>) map pages through the functions of \<open>arch/mmu.h\<close>, for which
  \<open>arch/arm64/mmu.c\<close> is modelled. The heap (\<open>lib/heap/miniheap\<close>) grows by pages. Block devices (\<open>lib/bio\<close>)
  give byte access to blocks, of memory or of a part of another device; \<open>lib/bcache\<close> caches their blocks for
  the file systems, whose paths \<open>lib/fs/fs.c\<close> brings into a normal form. Most of them use the lists of \<open>lk/list.h\<close>. The configuration is the
  arm64 target with several cpus, one hardware timer per cpu, virtual memory and debug assertions on.

  \<^bold>\<open>Conventions.\<close> A function of the code is a HOL function on an explicit state, a record; its result is
  in the option monad, where \<open>None\<close> stands for a failed assertion, a panic, a null pointer that is
  followed, an access outside an array or a spinlock taken twice on one cpu. Status codes are integers,
  machine integers words of their width. Memory that \<open>malloc\<close> gives is an argument. A thread that is
  switched out in the middle of a function has a continuation (\<open>cont\<close> in \<open>Kernel_Types\<close>) that says what
  it does when it runs again; the functions whose name ends in \<open>_tail\<close> are those parts.

  \<^bold>\<open>Theories.\<close>
  \<^item> \<open>Prelude\<close>: types, the monad and generic lemmas. \<open>Pow2\<close>, \<open>Align\<close>: \<open>lk/pow2.h\<close> and \<open>align.h\<close> on words.
  \<^item> \<open>Intrusive_List\<close>: the functions of \<open>lk/list.h\<close> on a store of nodes; \<open>dll\<close> relates a list head to a
    sequence. The interface \<open>list_store\<close> is interpreted on them. The other theories use lists as
    sequences.
  \<^item> \<open>Kernel_Types\<close>, \<open>Timer\<close>: the timer queues and the tick, over any callbacks that satisfy the interface
    \<open>timer_callbacks\<close>; a round of the tick is composed of its parts with and without \<open>timer_lock\<close>
    (\<open>tick_unlink\<close>, \<open>tick_call\<close>, \<open>tick_requeue\<close>); the comparison of 32-bit times is exact for times in a window of 2^31 from a
    base \<open>b\<close>, the parameter of the invariants.
  \<^item> \<open>Thread_State\<close>, \<open>Thread\<close>, \<open>Wait_Queue\<close>: the state and the operations of \<open>kernel/thread.c\<close> and
    \<open>kernel/mp.c\<close>. \<open>Thread_Life\<close> has exit, join and detach.
  \<^item> \<open>Sched_Inv\<close>, \<open>Kernel_Inv\<close>: the invariant \<open>kinv\<close> of the thread system (queues, bitmap, current threads,
    idle threads, timers, stacks, continuations) and the theorem that \<open>thread_resched\<close> keeps it.
    \<open>Thread_Inv\<close>, \<open>Block_Inv\<close>, \<open>Tick_Inv\<close>, \<open>Thread_Life\<close>, \<open>Thread_Start\<close>: the operations run without a
    fault from every state of the invariant, keep it, and affect only what they should (the
    predicates \<open>yielded\<close>, \<open>blocked_on\<close>, \<open>woken\<close>, \<open>timed_out\<close>, \<open>exited\<close>, \<open>reaped\<close>, \<open>detached\<close>,
    \<open>created_in\<close>). \<open>Tick_Inv\<close> interprets \<open>timer_callbacks\<close> on the kernel's own callbacks.
    \<open>Demo_State\<close> is a concrete state of the invariant; \<open>Sched_Props\<close> and \<open>Thread_Props\<close> have the
    properties.
  \<^item> \<open>Sync\<close>: mutexes, semaphores, whose count has 32 bits, and events. \<open>Sync_Spec\<close> is an abstract machine of their calls and of
    join, \<open>Sync_Safety\<close> its invariant: at most one holder, tokens of a semaphore accounted for.
  \<^item> \<open>Abstraction\<close>: the abstract state \<open>astate_of\<close> of a kernel state. \<open>Sync_Refine\<close> and \<open>Sync_Ops\<close>: every
    operation of \<open>Sync\<close> and \<open>Thread_Life\<close> simulates steps of the abstract machine. \<open>Resume\<close>: what a
    thread does when it is switched in again, by its continuation. \<open>System\<close>: the operations as one
    machine (\<open>sysop\<close>, \<open>run_op\<close>, \<open>sys_step\<close>, \<open>reaches\<close>) of any number of cpus; an execution is any
    sequence of operations whose callers meet their obligations (\<open>op_ok\<close>: for example, a mutex is released
    by its holder, an object is initialised before use, a thread is joined by one thread, a semaphore
    stays in 32 bits) and whose deadlines stay in the window of 2^31 ms. Calls on ports are not operations of this machine. \<open>System_Demo\<close> has
    concrete states; \<open>System_Props\<close> has the safety of all executions and their refinement.
    \<open>Tick_Race\<close> shows what a tick can do when another cpu acts inside it.
  \<^item> \<open>Ring\<close>: circular storage and the interface \<open>bounded_fifo\<close>, interpreted on the byte buffers of \<open>Cbuf\<close>
    and on the packet buffers of ports (\<open>Port\<close>, \<open>Port_Buf\<close>). \<open>Buffer_Props\<close> and \<open>Port_Props\<close> have the
    properties.
  \<^item> \<open>Pmm\<close>, \<open>Pmm_Inv\<close>, \<open>Pmm_Props\<close>: arenas and the page allocator.
  \<^item> \<open>Vm\<close>, \<open>Vmm\<close>, \<open>Vmm_Region\<close>, \<open>Vmm_Props\<close>: address spaces and regions, over a record \<open>arch_mmu\<close> of the
    functions of the architecture.
  \<^item> \<open>Arm64_Mmu\<close>: the page tables of arm64, an instance of \<open>arch_mmu\<close>. \<open>Arm64_Pt\<close> and \<open>Arm64_Step\<close> say when
    the tables form a tree and what one change of an entry does; \<open>Arm64_Unmap\<close>, \<open>Arm64_Map\<close> and
    \<open>Arm64_Loop\<close> prove the loops by induction on the level and on the range; \<open>Arm64_Query\<close> connects
    them with queries; \<open>Arm64_Props\<close> has the properties.
  \<^item> \<open>Miniheap\<close>: the kernel heap. \<open>Miniheap_Inv\<close>: well-formed heaps (\<open>heap_ok\<close>), kept by every operation; a free
    list is determined by the bytes in it, so freeing undoes an allocation exactly. \<open>Miniheap_Props\<close> has the
    interface \<open>allocator\<close>, interpreted on the heap, and the properties. Requests are below 2^63 bytes, in the property of allocation below 2^62.
  \<^item> \<open>Bio\<close>: block devices, memory devices and subdevices. \<open>Bio_Dev\<close>: the interfaces \<open>storage\<close>,
    \<open>block_device\<close>, \<open>byte_device\<close>, \<open>device\<close> and \<open>default_device\<close>; a device with the default hooks gives byte
    access to the blocks of its block hooks, for requests that are clipped to the device (\<open>clip\<close>). They are
    interpreted on memory devices, on devices that only have block hooks (\<open>plain_dev\<close>), and on their parts.
  \<^item> \<open>Bcache\<close>: the block cache over a device. \<open>Bcache_Inv\<close>: its invariant, and that every operation acts as
    on a disk without a cache. \<open>Storage_Props\<close> has the properties of devices and cache.
  \<^item> \<open>Fs_Path\<close>: the normal form of paths, computed in place by a state machine, against a definition on
    lists of fields.
  \<^item> \<open>Bio_Registry\<close>: the list of block devices and their reference counts, with the interface \<open>device_refs\<close> for
    those who hold devices. \<open>Fs_Mount\<close>: the table of mounts and the operations on files and directories, over
    any file systems. \<open>Fs_Mount_Inv\<close>: every operation gives up the references it takes, but for those of the
    handles it opens. \<open>Fs_Mount_Props\<close> has the safety of all sequences of operations.
  \<^item> \<open>Qsort\<close>, \<open>Qsort_Proof\<close>, \<open>Bsearch\<close>: \<open>qsort\<close> and \<open>bsearch\<close> of the C library, for any comparison that is a
    total preorder.

  \<^bold>\<open>Loops.\<close> Loops with a decreasing measure are total functions. The recursive functions on page tables
  and \<open>list_length\<close> are partial functions, proved to return on well-formed structures. \<open>bsearch_loop\<close> is one
  too: it is proved to return, for a key in the array and for a key that is not if the elements have an even
  size; with an odd size it may leave the array, which the theorem shows. No loop is cut off by fuel.

  \<^bold>\<open>Not modelled.\<close> Assembly and register accesses (the context switch is the change of the current thread
  with its continuation; TLB maintenance and barriers have no effect on the state), devices and
  platforms, the riscv and x86 ports, the network stack, the file systems themselves, the erase
  geometries and ioctls of block devices, the rest of the C library and
  the C++ libraries, applications, and functions that only print. Each operation under the thread lock, or under the
  mutex of the memory managers, is one step, with the checks it makes before it takes the lock; between
  the steps cpus interleave freely. A tick of the timer is one step as well, although it frees \<open>timer_lock\<close>
  around a callback: what another cpu does in that window is only in \<open>Tick_Race\<close>, where it leads to a fault.
  The counts of mutexes, of references to cached blocks and of wait queues are integers, without the
  32-bit bound of the code, which takes 2^31 threads or references to reach.
\<close>

end
